(* ===== verification/Prelude.thy ===== *)
theory Prelude
  imports Main "HOL-Library.Word" "HOL-Library.Monad_Syntax"
begin

text \<open>
  Shared vocabulary of the development: Rust's panicking operations as values of type
  \<open>'a option\<close> (\<open>None\<close> is a panic), vectors as lists with checked indexing, loops that
  collect a ``changed'' flag, and the generic facts on lists, options and 64-bit words that the
  component theories share.
\<close>

unbundle bit_operations_syntax

section \<open>Panicking computations\<close>

text \<open>
  A Rust function that can panic returns \<open>'a panics\<close>: \<open>None\<close> is the panic, \<open>Some x\<close> the
  returned value. The do-notation of \<open>Monad_Syntax\<close> sequences such calls. A Rust function whose
  own result is an \<open>Option\<close> and that can also panic has type \<open>'a option panics\<close>.
\<close>

type_synonym 'a panics = "'a option"

definition rust_assert :: "bool \<Rightarrow> unit panics" where
  "rust_assert b = (if b then Some () else None)"

text \<open>Subtraction of \<open>usize\<close> values panics below zero; \<open>wrapping_add\<close> does not.\<close>

definition usize_sub :: "nat \<Rightarrow> nat \<Rightarrow> nat panics" where
  "usize_sub a b = (if b \<le> a then Some (a - b) else None)"

definition usize_wrapping_add :: "nat \<Rightarrow> nat \<Rightarrow> nat" where
  "usize_wrapping_add a b = (a + b) mod 2 ^ 64"

definition usize_MAX :: nat where
  "usize_MAX = 2 ^ 64 - 1"

text \<open>Indexing of a vector or slice: \<open>xs[i]\<close> panics out of bounds, \<open>xs.get(i)\<close> does not.\<close>

definition vec_get :: "'a list \<Rightarrow> nat \<Rightarrow> 'a option" where
  "vec_get xs i = (if i < length xs then Some (xs ! i) else None)"

definition vec_set :: "'a list \<Rightarrow> nat \<Rightarrow> 'a \<Rightarrow> 'a list panics" where
  "vec_set xs i x = (if i < length xs then Some (xs[i := x]) else None)"

text \<open>\<open>Vec::resize\<close>: truncates or pads with the given value.\<close>

definition vec_resize :: "'a list \<Rightarrow> nat \<Rightarrow> 'a \<Rightarrow> 'a list" where
  "vec_resize xs n x = take n xs @ replicate (n - length xs) x"

text \<open>\<open>slice[a..b]\<close> panics when \<open>a > b\<close> or \<open>b\<close> is past the end.\<close>

definition slice_range :: "'a list \<Rightarrow> nat \<Rightarrow> nat \<Rightarrow> 'a list panics" where
  "slice_range xs a b = (if a \<le> b \<and> b \<le> length xs then Some (take (b - a) (drop a xs)) else None)"

text \<open>\<open>dst.copy_from_slice(src)\<close> panics when the lengths differ.\<close>

definition copy_from_slice :: "'a list \<Rightarrow> 'a list \<Rightarrow> 'a list panics" where
  "copy_from_slice dst src = (if length dst = length src then Some src else None)"

lemma rust_assert_simps [simp]:
  "rust_assert True = Some ()" "rust_assert False = None"
  "rust_assert b = Some u \<longleftrightarrow> b" "rust_assert b = None \<longleftrightarrow> \<not> b"
  by (auto simp: rust_assert_def)

lemma usize_sub_simps [simp]:
  "b \<le> a \<Longrightarrow> usize_sub a b = Some (a - b)" "a < b \<Longrightarrow> usize_sub a b = None"
  by (auto simp: usize_sub_def)

lemma vec_get_in [simp]: "i < length xs \<Longrightarrow> vec_get xs i = Some (xs ! i)"
  by (simp add: vec_get_def)

lemma vec_get_out [simp]: "length xs \<le> i \<Longrightarrow> vec_get xs i = None"
  by (simp add: vec_get_def)

lemma vec_get_Some_iff: "vec_get xs i = Some x \<longleftrightarrow> i < length xs \<and> xs ! i = x"
  by (auto simp: vec_get_def)

lemma vec_set_in [simp]: "i < length xs \<Longrightarrow> vec_set xs i x = Some (xs[i := x])"
  by (simp add: vec_set_def)

lemma vec_set_out [simp]: "length xs \<le> i \<Longrightarrow> vec_set xs i x = None"
  by (simp add: vec_set_def)

lemma vec_set_Some_iff: "vec_set xs i x = Some ys \<longleftrightarrow> i < length xs \<and> ys = xs[i := x]"
  by (auto simp: vec_set_def)

lemma length_vec_resize [simp]: "length (vec_resize xs n x) = n"
  by (simp add: vec_resize_def)

lemma nth_vec_resize:
  "i < n \<Longrightarrow> vec_resize xs n x ! i = (if i < length xs then xs ! i else x)"
  by (auto simp: vec_resize_def nth_append)

lemma vec_resize_same [simp]: "vec_resize xs (length xs) x = xs"
  by (simp add: vec_resize_def)

section \<open>Loops that collect a changed flag\<close>

text \<open>
  The loop \<open>for x in xs { changed |= f(x, state) }\<close>, where \<open>f\<close> may panic, mutates the state and
  reports whether it changed it.
\<close>

fun for_changed :: "('a \<Rightarrow> 's \<Rightarrow> ('s \<times> bool) panics) \<Rightarrow> 'a list \<Rightarrow> 's \<Rightarrow> bool \<Rightarrow> ('s \<times> bool) panics" where
  "for_changed f [] s changed = Some (s, changed)"
| "for_changed f (x # xs) s changed =
     do { (s', c) \<leftarrow> f x s; for_changed f xs s' (changed \<or> c) }"

text \<open>
  The contract of an operation on an indexed set that adds (or removes) one index: where it is
  allowed (\<open>ok\<close>) it succeeds, changes the abstract set by the function \<open>eff\<close>, reports whether it
  changed it, and leaves the state related by the frame relation \<open>keeps\<close> (the representation
  invariant, the sizes), under which what was allowed stays allowed.
\<close>

locale flagged_update =
  fixes op :: "'a \<Rightarrow> 's \<Rightarrow> ('s \<times> bool) panics"
    and abs :: "'s \<Rightarrow> 'a set"
    and ok :: "'a \<Rightarrow> 's \<Rightarrow> bool"
    and keeps :: "'s \<Rightarrow> 's \<Rightarrow> bool"
    and eff :: "'a set \<Rightarrow> 'a set \<Rightarrow> 'a set"
  assumes op_ok: "ok x s \<Longrightarrow> \<exists>s'. op x s = Some (s', abs s' \<noteq> abs s) \<and>
      abs s' = eff {x} (abs s) \<and> keeps s s'"
    and keeps_ok: "keeps s s' \<Longrightarrow> ok y s \<Longrightarrow> ok y s'"
    and keeps_refl: "keeps s s"
    and keeps_trans: "keeps s s1 \<Longrightarrow> keeps s1 s2 \<Longrightarrow> keeps s s2"
    and eff_empty: "eff {} A = A"
    and eff_insert: "eff (insert x X) A = eff X (eff {x} A)"
    and eff_mono: "eff X (eff {x} A) = A \<Longrightarrow> eff {x} A = A"
begin

lemma for_changed_ok:
  assumes "\<forall>x \<in> set xs. ok x s"
  shows "\<exists>s'. for_changed op xs s c = Some (s', c \<or> abs s' \<noteq> abs s) \<and>
    abs s' = eff (set xs) (abs s) \<and> keeps s s'"
  using assms
proof (induction xs arbitrary: s c)
  case Nil
  then show ?case by (simp add: eff_empty keeps_refl)
next
  case (Cons x xs)
  from Cons.prems obtain s1 where s1: "op x s = Some (s1, abs s1 \<noteq> abs s)"
    "abs s1 = eff {x} (abs s)" "keeps s s1"
    using op_ok [of x s] by auto
  from Cons.prems s1(3) have "\<forall>y \<in> set xs. ok y s1" by (auto intro: keeps_ok)
  from Cons.IH [OF this, of "c \<or> abs s1 \<noteq> abs s"] obtain s2 where
    s2: "for_changed op xs s1 (c \<or> abs s1 \<noteq> abs s) = Some (s2, (c \<or> abs s1 \<noteq> abs s) \<or> abs s2 \<noteq> abs s1)"
    "abs s2 = eff (set xs) (abs s1)" "keeps s1 s2"
    by blast
  have "(c \<or> abs s1 \<noteq> abs s) \<or> abs s2 \<noteq> abs s1 \<longleftrightarrow> c \<or> abs s2 \<noteq> abs s"
    using s2(2) s1(2) eff_mono [of "set xs" x "abs s"] by auto
  moreover have "keeps s s2" using s1(3) s2(3) by (rule keeps_trans)
  ultimately show ?case
    using s1 s2 by (auto simp: eff_insert [of x "set xs"])
qed

end

section \<open>Running a sequence of operations\<close>

fun run_ops :: "('op \<Rightarrow> 's \<Rightarrow> 's option) \<Rightarrow> 'op list \<Rightarrow> 's \<Rightarrow> 's option" where
  "run_ops f [] s = Some s"
| "run_ops f (x # xs) s = do { s \<leftarrow> f x s; run_ops f xs s }"

text \<open>
  The contract between a component and its abstract specification: wherever the specification
  allows an operation, the code performs it without a panic and the results stay related.
\<close>

locale simulation =
  fixes cstep :: "'op \<Rightarrow> 'c \<Rightarrow> 'c option"
    and astep :: "'op \<Rightarrow> 'a \<Rightarrow> 'a option"
    and rel :: "'c \<Rightarrow> 'a \<Rightarrow> bool"
  assumes sim: "rel c a \<Longrightarrow> astep x a = Some a' \<Longrightarrow> \<exists>c'. cstep x c = Some c' \<and> rel c' a'"
begin

lemma run_sim: "rel c a \<Longrightarrow> run_ops astep xs a = Some a' \<Longrightarrow> \<exists>c'. run_ops cstep xs c = Some c' \<and> rel c' a'"
proof (induction xs arbitrary: c a)
  case (Cons x xs)
  from Cons.prems(2) obtain a1 where a1: "astep x a = Some a1" "run_ops astep xs a1 = Some a'"
    by (auto simp: bind_eq_Some_conv)
  from sim [OF Cons.prems(1) a1(1)] obtain c1 where "cstep x c = Some c1" "rel c1 a1" by blast
  with Cons.IH [OF _ a1(2)] show ?case by auto
qed simp

end

section \<open>Draining an iterator\<close>

text \<open>\<open>for x in it\<close> that collects what the iterator yields; \<open>next\<close> may panic.\<close>

partial_function (option) drain :: "('c \<Rightarrow> ('a option \<times> 'c) option) \<Rightarrow> 'c \<Rightarrow> 'a list option" where
  "drain nxt c =
     do { (x, c) \<leftarrow> nxt c;
          (case x of None \<Rightarrow> Some [] | Some x \<Rightarrow> do { xs \<leftarrow> drain nxt c; Some (x # xs) }) }"

lemma drain_list:
  assumes "\<And>us vs. xs = us @ vs \<Longrightarrow>
      nxt (st vs) = Some (case vs of [] \<Rightarrow> None | v # _ \<Rightarrow> Some v, st (tl vs))"
  shows "drain nxt (st xs) = Some xs"
  using assms
proof (induction xs)
  case Nil
  from Nil [of "[]" "[]"] show ?case by (subst drain.simps) simp
next
  case (Cons x xs)
  have "drain nxt (st xs) = Some xs"
    by (rule Cons.IH) (use Cons.prems [of "x # us" for us] in auto)
  with Cons.prems [of "[]" "x # xs"] show ?case by (subst drain.simps) simp
qed

section \<open>Entities\<close>

text \<open>Blocks, instructions, values and uses of the MIR are indices of their tables.\<close>

type_synonym block = nat
type_synonym inst = nat

section \<open>64-bit words\<close>

type_synonym u64 = "64 word"
type_synonym u32 = "32 word"

text \<open>\<open>count_ones\<close> and \<open>trailing_zeros\<close> of \<open>u64\<close>.\<close>

definition count_ones :: "u64 \<Rightarrow> nat" where
  "count_ones w = length (filter (bit w) [0..<64])"

definition trailing_zeros :: "u64 \<Rightarrow> nat" where
  "trailing_zeros w = length (takeWhile (\<lambda>i. \<not> bit w i) [0..<64])"

text \<open>The positions of the set bits, ascending: the reading of a word that the bit sets use.\<close>

definition bits_of :: "u64 \<Rightarrow> nat list" where
  "bits_of w = filter (bit w) [0..<64]"

lemma bit_u64_less: "bit (w :: u64) i \<Longrightarrow> i < 64"
  by (drule bit_imp_le_length) simp

lemma set_bits_of [simp]: "set (bits_of w) = {i. bit w i}"
  by (auto simp: bits_of_def dest: bit_u64_less)

lemma bits_of_0 [simp]: "bits_of 0 = []"
  by (simp add: bits_of_def)

lemma sorted_bits_of: "sorted (bits_of w)" "distinct (bits_of w)"
  by (auto simp: bits_of_def intro!: sorted_wrt_filter)

lemma count_ones_card: "count_ones w = card {i. bit w i}"
  using distinct_card [OF sorted_bits_of(2) [of w]] set_bits_of [of w]
  by (simp add: count_ones_def bits_of_def del: set_bits_of)

lemma u64_eq_iff: "(w :: u64) = v \<longleftrightarrow> (\<forall>i<64. bit w i \<longleftrightarrow> bit v i)"
  by (auto intro!: bit_word_eqI)

lemma u64_nonzero_bit: "(w :: u64) \<noteq> 0 \<longleftrightarrow> (\<exists>i<64. bit w i)"
  by (simp add: u64_eq_iff)

end
