(* ===== verification/Instructions.thy ===== *)
theory Instructions
  imports Prelude
begin

text \<open>
  MIR instructions: the opcodes and their tables from
  \<^verbatim>\<open>openvaf/mir/src/instructions/generated.rs\<close> and the instruction data of
  \<^verbatim>\<open>openvaf/mir/src/instructions.rs\<close>. Entities (values, blocks, instructions, functions)
  are their numbers. A \<open>ValueList\<close> is the list of values it holds in its pool, and the \<open>PhiMap\<close> of
  a phi, a B-tree keyed by block, is the list of its (block, position) pairs in ascending order of
  blocks.
\<close>

type_synonym mir_value = nat
type_synonym func_ref = nat

section \<open>Opcodes\<close>

datatype instruction_format = FmtUnary | FmtBinary | FmtBranch | FmtJump | FmtExit | FmtCall | FmtPhiNode

text \<open>The opcodes, with the discriminants 1 to 69 in this order.\<close>

datatype (plugins only: size) opcode =
    OpInot | OpBnot | OpFneg | OpIneg | OpFIcast | OpIFcast | OpBIcast | OpIBcast | OpFBcast
  | OpBFcast | OpOptBarrier | OpSqrt | OpExp | OpLn | OpLog | OpClog2 | OpFloor | OpCeil | OpSin
  | OpCos | OpTan | OpAsin | OpAcos | OpAtan | OpSinh | OpCosh | OpTanh | OpAsinh | OpAcosh
  | OpAtanh | OpIadd | OpIsub | OpImul | OpIdiv | OpIrem | OpIshl | OpIshr | OpIxor | OpIand
  | OpIor | OpFadd | OpFsub | OpFmul | OpFdiv | OpFrem | OpIlt | OpIgt | OpIge | OpIle | OpFlt
  | OpFgt | OpFge | OpFle | OpIeq | OpFeq | OpSeq | OpBeq | OpIne | OpFne | OpSne | OpBne | OpHypot
  | OpAtan2 | OpPow | OpBr | OpJmp | OpExit | OpCall | OpPhi

text \<open>\<open>opcode as usize\<close>\<close>

primrec opcode_num :: "opcode \<Rightarrow> nat" where
  "opcode_num OpInot = 1" | "opcode_num OpBnot = 2" | "opcode_num OpFneg = 3"
  | "opcode_num OpIneg = 4" | "opcode_num OpFIcast = 5" | "opcode_num OpIFcast = 6"
  | "opcode_num OpBIcast = 7" | "opcode_num OpIBcast = 8" | "opcode_num OpFBcast = 9"
  | "opcode_num OpBFcast = 10" | "opcode_num OpOptBarrier = 11" | "opcode_num OpSqrt = 12"
  | "opcode_num OpExp = 13" | "opcode_num OpLn = 14" | "opcode_num OpLog = 15"
  | "opcode_num OpClog2 = 16" | "opcode_num OpFloor = 17" | "opcode_num OpCeil = 18"
  | "opcode_num OpSin = 19" | "opcode_num OpCos = 20" | "opcode_num OpTan = 21"
  | "opcode_num OpAsin = 22" | "opcode_num OpAcos = 23" | "opcode_num OpAtan = 24"
  | "opcode_num OpSinh = 25" | "opcode_num OpCosh = 26" | "opcode_num OpTanh = 27"
  | "opcode_num OpAsinh = 28" | "opcode_num OpAcosh = 29" | "opcode_num OpAtanh = 30"
  | "opcode_num OpIadd = 31" | "opcode_num OpIsub = 32" | "opcode_num OpImul = 33"
  | "opcode_num OpIdiv = 34" | "opcode_num OpIrem = 35" | "opcode_num OpIshl = 36"
  | "opcode_num OpIshr = 37" | "opcode_num OpIxor = 38" | "opcode_num OpIand = 39"
  | "opcode_num OpIor = 40" | "opcode_num OpFadd = 41" | "opcode_num OpFsub = 42"
  | "opcode_num OpFmul = 43" | "opcode_num OpFdiv = 44" | "opcode_num OpFrem = 45"
  | "opcode_num OpIlt = 46" | "opcode_num OpIgt = 47" | "opcode_num OpIge = 48"
  | "opcode_num OpIle = 49" | "opcode_num OpFlt = 50" | "opcode_num OpFgt = 51"
  | "opcode_num OpFge = 52" | "opcode_num OpFle = 53" | "opcode_num OpIeq = 54"
  | "opcode_num OpFeq = 55" | "opcode_num OpSeq = 56" | "opcode_num OpBeq = 57"
  | "opcode_num OpIne = 58" | "opcode_num OpFne = 59" | "opcode_num OpSne = 60"
  | "opcode_num OpBne = 61" | "opcode_num OpHypot = 62" | "opcode_num OpAtan2 = 63"
  | "opcode_num OpPow = 64" | "opcode_num OpBr = 65" | "opcode_num OpJmp = 66"
  | "opcode_num OpExit = 67" | "opcode_num OpCall = 68" | "opcode_num OpPhi = 69"

text \<open>
  The constraints of an opcode are a byte: the number of results in bits 0 to 2, the number of
  fixed arguments in bits 3 to 5.
\<close>

type_synonym opcode_constraints = "8 word"

definition OpcodeConstraints_new :: "8 word \<Rightarrow> 8 word \<Rightarrow> opcode_constraints" where
  "OpcodeConstraints_new arg_cnt ret_cnt = push_bit 3 arg_cnt OR ret_cnt"

definition num_fixed_results :: "opcode_constraints \<Rightarrow> nat" where
  "num_fixed_results flags = unat (flags AND 0x7)"

definition num_fixed_value_arguments :: "opcode_constraints \<Rightarrow> nat" where
  "num_fixed_value_arguments flags = unat (drop_bit 3 flags AND 0x7)"

definition OPCODE_CONSTRAINTS :: "opcode_constraints list" where
  "OPCODE_CONSTRAINTS = map (\<lambda>(a, r). OpcodeConstraints_new a r)
    [(0, 0), (1, 1), (1, 1), (1, 1), (1, 1), (1, 1), (1, 1), (1, 1), (1, 1), (1, 1), (1, 1),
     (1, 1), (1, 1), (1, 1), (1, 1), (1, 1), (1, 1), (1, 1), (1, 1), (1, 1), (1, 1), (1, 1),
     (1, 1), (1, 1), (1, 1), (1, 1), (1, 1), (1, 1), (1, 1), (1, 1), (1, 1), (2, 1), (2, 1),
     (2, 1), (2, 1), (2, 1), (2, 1), (2, 1), (2, 1), (2, 1), (2, 1), (2, 1), (2, 1), (2, 1),
     (2, 1), (2, 1), (2, 1), (2, 1), (2, 1), (2, 1), (2, 1), (2, 1), (2, 1), (2, 1), (2, 1),
     (2, 1), (2, 1), (2, 1), (2, 1), (2, 1), (2, 1), (2, 1), (2, 1), (2, 1), (2, 1), (1, 0),
     (0, 0), (0, 0), (0, 0), (0, 1)]"

definition OPCODE_NAMES :: "string list" where
  "OPCODE_NAMES =
    ['''', ''inot'', ''bnot'', ''fneg'', ''ineg'', ''ficast'', ''ifcast'', ''bicast'', ''ibcast'',
     ''fbcast'', ''bfcast'', ''optbarrier'', ''sqrt'', ''exp'', ''ln'', ''log'', ''clog2'',
     ''floor'', ''ceil'', ''sin'', ''cos'', ''tan'', ''asin'', ''acos'', ''atan'', ''sinh'',
     ''cosh'', ''tanh'', ''asinh'', ''acosh'', ''atanh'', ''iadd'', ''isub'', ''imul'', ''idiv'',
     ''irem'', ''ishl'', ''ishr'', ''ixor'', ''iand'', ''ior'', ''fadd'', ''fsub'', ''fmul'',
     ''fdiv'', ''frem'', ''ilt'', ''igt'', ''ige'', ''ile'', ''flt'', ''fgt'', ''fge'', ''fle'',
     ''ieq'', ''feq'', ''seq'', ''beq'', ''ine'', ''fne'', ''sne'', ''bne'', ''hypot'', ''atan2'',
     ''pow'', ''br'', ''jmp'', ''exit'', ''call'', ''phi'']"

definition OPCODE_FORMAT :: "instruction_format list" where
  "OPCODE_FORMAT =
    [FmtBinary, FmtUnary, FmtUnary, FmtUnary, FmtUnary, FmtUnary, FmtUnary, FmtUnary, FmtUnary,
     FmtUnary, FmtUnary, FmtUnary, FmtUnary, FmtUnary, FmtUnary, FmtUnary, FmtUnary, FmtUnary,
     FmtUnary, FmtUnary, FmtUnary, FmtUnary, FmtUnary, FmtUnary, FmtUnary, FmtUnary, FmtUnary,
     FmtUnary, FmtUnary, FmtUnary, FmtUnary, FmtBinary, FmtBinary, FmtBinary, FmtBinary, FmtBinary,
     FmtBinary, FmtBinary, FmtBinary, FmtBinary, FmtBinary, FmtBinary, FmtBinary, FmtBinary,
     FmtBinary, FmtBinary, FmtBinary, FmtBinary, FmtBinary, FmtBinary, FmtBinary, FmtBinary,
     FmtBinary, FmtBinary, FmtBinary, FmtBinary, FmtBinary, FmtBinary, FmtBinary, FmtBinary,
     FmtBinary, FmtBinary, FmtBinary, FmtBinary, FmtBinary, FmtBranch, FmtJump, FmtExit, FmtCall,
     FmtPhiNode]"

text \<open>\<open>FromStr\<close>: \<open>None\<close> is the error ``Unknown opcode''.\<close>

definition Opcode_from_str :: "string \<Rightarrow> opcode option" where
  "Opcode_from_str s = map_of
    [(''inot'', OpInot), (''bnot'', OpBnot), (''fneg'', OpFneg), (''ineg'', OpIneg),
     (''ficast'', OpFIcast), (''ifcast'', OpIFcast), (''bicast'', OpBIcast),
     (''ibcast'', OpIBcast), (''fbcast'', OpFBcast), (''bfcast'', OpBFcast),
     (''optbarrier'', OpOptBarrier), (''sqrt'', OpSqrt), (''exp'', OpExp), (''ln'', OpLn),
     (''log'', OpLog), (''clog2'', OpClog2), (''floor'', OpFloor), (''ceil'', OpCeil),
     (''sin'', OpSin), (''cos'', OpCos), (''tan'', OpTan), (''asin'', OpAsin), (''acos'', OpAcos),
     (''atan'', OpAtan), (''sinh'', OpSinh), (''cosh'', OpCosh), (''tanh'', OpTanh),
     (''asinh'', OpAsinh), (''acosh'', OpAcosh), (''atanh'', OpAtanh), (''iadd'', OpIadd),
     (''isub'', OpIsub), (''imul'', OpImul), (''idiv'', OpIdiv), (''irem'', OpIrem),
     (''ishl'', OpIshl), (''ishr'', OpIshr), (''ixor'', OpIxor), (''iand'', OpIand),
     (''ior'', OpIor), (''fadd'', OpFadd), (''fsub'', OpFsub), (''fmul'', OpFmul),
     (''fdiv'', OpFdiv), (''frem'', OpFrem), (''ilt'', OpIlt), (''igt'', OpIgt), (''ige'', OpIge),
     (''ile'', OpIle), (''flt'', OpFlt), (''fgt'', OpFgt), (''fge'', OpFge), (''fle'', OpFle),
     (''ieq'', OpIeq), (''feq'', OpFeq), (''seq'', OpSeq), (''beq'', OpBeq), (''ine'', OpIne),
     (''fne'', OpFne), (''sne'', OpSne), (''bne'', OpBne), (''hypot'', OpHypot),
     (''atan2'', OpAtan2), (''pow'', OpPow), (''br'', OpBr), (''jmp'', OpJmp), (''exit'', OpExit),
     (''call'', OpCall), (''phi'', OpPhi)] s"

definition Opcode_constraints :: "opcode \<Rightarrow> opcode_constraints panics" where
  "Opcode_constraints op = vec_get OPCODE_CONSTRAINTS (opcode_num op)"

definition Opcode_format :: "opcode \<Rightarrow> instruction_format panics" where
  "Opcode_format op = vec_get OPCODE_FORMAT (opcode_num op)"

definition Opcode_name :: "opcode \<Rightarrow> string panics" where
  "Opcode_name op = vec_get OPCODE_NAMES (opcode_num op)"

definition Opcode_is_branch :: "opcode \<Rightarrow> bool" where
  "Opcode_is_branch op \<longleftrightarrow> op = OpJmp \<or> op = OpBr"

definition Opcode_is_call :: "opcode \<Rightarrow> bool" where
  "Opcode_is_call op \<longleftrightarrow> op = OpCall"

definition Opcode_is_commutative :: "opcode \<Rightarrow> bool" where
  "Opcode_is_commutative op \<longleftrightarrow> op \<in> set [OpFmul, OpFadd, OpIand, OpIxor, OpIor, OpIadd, OpImul,
     OpIeq, OpFeq, OpBeq, OpSeq, OpIne, OpFne, OpBne, OpSne]"

section \<open>Instruction data\<close>

record phi_node =
  phi_args :: "mir_value list"
  phi_blocks :: "(block \<times> nat) list"

datatype instruction_data =
    Unary opcode mir_value
  | Binary opcode mir_value mir_value
  | Branch mir_value block block bool
  | PhiNode phi_node
  | Jump block
  | Call func_ref "mir_value list"
  | Exit

definition InstructionData_unwrap_phi :: "instruction_data \<Rightarrow> phi_node panics" where
  "InstructionData_unwrap_phi i = (case i of PhiNode n \<Rightarrow> Some n | _ \<Rightarrow> None)"

definition InstructionData_is_phi :: "instruction_data \<Rightarrow> bool" where
  "InstructionData_is_phi i = (case i of PhiNode _ \<Rightarrow> True | _ \<Rightarrow> False)"

definition InstructionData_is_terminator :: "instruction_data \<Rightarrow> bool" where
  "InstructionData_is_terminator i =
     (case i of Branch _ _ _ _ \<Rightarrow> True | Jump _ \<Rightarrow> True | Exit \<Rightarrow> True | _ \<Rightarrow> False)"

definition InstructionData_arguments :: "instruction_data \<Rightarrow> mir_value list" where
  "InstructionData_arguments i =
     (case i of
        Unary _ arg \<Rightarrow> [arg]
      | Branch cond _ _ _ \<Rightarrow> [cond]
      | Binary _ a b \<Rightarrow> [a, b]
      | Call _ args \<Rightarrow> args
      | PhiNode n \<Rightarrow> phi_args n
      | Jump _ \<Rightarrow> []
      | Exit \<Rightarrow> [])"

text \<open>Writing one element of the mutable argument slice; out of bounds the slice panics.\<close>

definition InstructionData_set_argument ::
    "instruction_data \<Rightarrow> nat \<Rightarrow> mir_value \<Rightarrow> instruction_data panics" where
  "InstructionData_set_argument i k v =
     do { args \<leftarrow> vec_set (InstructionData_arguments i) k v;
          Some (case i of
                  Unary op _ \<Rightarrow> Unary op (args ! 0)
                | Branch _ t e l \<Rightarrow> Branch (args ! 0) t e l
                | Binary op _ _ \<Rightarrow> Binary op (args ! 0) (args ! 1)
                | Call f _ \<Rightarrow> Call f args
                | PhiNode n \<Rightarrow> PhiNode (n\<lparr>phi_args := args\<rparr>)
                | Jump d \<Rightarrow> Jump d
                | Exit \<Rightarrow> Exit) }"

definition InstructionData_opcode :: "instruction_data \<Rightarrow> opcode" where
  "InstructionData_opcode i =
     (case i of
        Unary op _ \<Rightarrow> op | Binary op _ _ \<Rightarrow> op | Call _ _ \<Rightarrow> OpCall | Jump _ \<Rightarrow> OpJmp
      | PhiNode _ \<Rightarrow> OpPhi | Branch _ _ _ _ \<Rightarrow> OpBr | Exit \<Rightarrow> OpExit)"

text \<open>The edges of a phi in ascending order of blocks; a position outside the arguments panics.\<close>

fun phi_edges_loop :: "mir_value list \<Rightarrow> (block \<times> nat) list \<Rightarrow> (block \<times> mir_value) list panics" where
  "phi_edges_loop args [] = Some []"
| "phi_edges_loop args ((b, pos) # bs) =
     do { v \<leftarrow> vec_get args pos; es \<leftarrow> phi_edges_loop args bs; Some ((b, v) # es) }"

definition PhiNode_edges :: "phi_node \<Rightarrow> (block \<times> mir_value) list panics" where
  "PhiNode_edges n = phi_edges_loop (phi_args n) (phi_blocks n)"

definition PhiNode_edge_operand :: "phi_node \<Rightarrow> block \<Rightarrow> nat option" where
  "PhiNode_edge_operand n b = map_of (phi_blocks n) b"

definition PhiNode_edge_val :: "phi_node \<Rightarrow> block \<Rightarrow> mir_value option panics" where
  "PhiNode_edge_val n b =
     (case PhiNode_edge_operand n b of
        None \<Rightarrow> Some None
      | Some pos \<Rightarrow> map_option Some (vec_get (phi_args n) pos))"

text \<open>The comparison of two edge sequences stops at the first difference.\<close>

fun phi_eq_loop ::
    "mir_value list \<Rightarrow> mir_value list \<Rightarrow> (block \<times> nat) list \<Rightarrow> (block \<times> nat) list \<Rightarrow> bool panics" where
  "phi_eq_loop la ra [] [] = Some True"
| "phi_eq_loop la ra [] ((c, q) # rs) = do { _ \<leftarrow> vec_get ra q; Some False }"
| "phi_eq_loop la ra ((b, p) # ls) [] = do { _ \<leftarrow> vec_get la p; Some False }"
| "phi_eq_loop la ra ((b, p) # ls) ((c, q) # rs) =
     do { v \<leftarrow> vec_get la p; w \<leftarrow> vec_get ra q;
          if (b, v) = (c, w) then phi_eq_loop la ra ls rs else Some False }"

definition PhiNode_eq :: "phi_node \<Rightarrow> phi_node \<Rightarrow> bool panics" where
  "PhiNode_eq a b = phi_eq_loop (phi_args a) (phi_args b) (phi_blocks a) (phi_blocks b)"

definition InstructionData_eq :: "instruction_data \<Rightarrow> instruction_data \<Rightarrow> bool panics" where
  "InstructionData_eq l r =
     (case (l, r) of
        (Unary lo la, Unary ro ra) \<Rightarrow> Some (lo = ro \<and> la = ra)
      | (Binary lo la lb, Binary ro ra rb) \<Rightarrow> Some (lo = ro \<and> la = ra \<and> lb = rb)
      | (Branch lc lt le ll, Branch rc rt re rl) \<Rightarrow> Some (lt = rt \<and> le = re \<and> lc = rc \<and> ll = rl)
      | (Jump ld, Jump rd) \<Rightarrow> Some (ld = rd)
      | (Call lf la, Call rf ra) \<Rightarrow> Some (lf = rf \<and> la = ra)
      | (PhiNode ln, PhiNode rn) \<Rightarrow> PhiNode_eq ln rn
      | _ \<Rightarrow> Some False)"

section \<open>The tables agree\<close>

lemma Opcode_name_parses: "Option.bind (Opcode_name op) Opcode_from_str = Some op"
  by (cases op) (simp_all add: Opcode_name_def OPCODE_NAMES_def vec_get_def Opcode_from_str_def)


lemma Opcode_from_str_names: "Opcode_from_str s = Some op \<Longrightarrow> Opcode_name op = Some s"
  unfolding Opcode_from_str_def
  by (drule map_of_SomeD) (auto simp: Opcode_name_def OPCODE_NAMES_def vec_get_def)

lemma arguments_set_argument:
  "InstructionData_set_argument i k v = Some j \<Longrightarrow>
     k < length (InstructionData_arguments i) \<and> InstructionData_arguments j = (InstructionData_arguments i)[k := v]"
  by (cases i) (auto simp: InstructionData_set_argument_def InstructionData_arguments_def bind_eq_Some_conv
      vec_set_Some_iff nth_list_update less_Suc_eq split: nat.splits)

lemma set_argument_ok:
  assumes "k < length (InstructionData_arguments i)"
  shows "\<exists>j. InstructionData_set_argument i k v = Some j \<and>
    InstructionData_arguments j = (InstructionData_arguments i)[k := v]"
proof -
  obtain j where "InstructionData_set_argument i k v = Some j"
    using assms by (simp add: InstructionData_set_argument_def)
  with arguments_set_argument [of i k v j] show ?thesis by blast
qed

text \<open>
  the printed name of every opcode parses back to it, and only the printed names parse.
\<close>

theorem Opcode_name_roundtrip:
  "Option.bind (Opcode_name op) Opcode_from_str = Some op \<and>
   (Opcode_from_str s = Some op \<longleftrightarrow> Opcode_name op = Some s)"
  using Opcode_name_parses [of op] Opcode_from_str_names [of s op] by auto

end
