(* ===== verification/Linked_List.thy ===== *)
theory Linked_List
  imports Prelude
begin

text \<open>
  Doubly linked lists threaded through tables: the generic facts behind the block list and the
  instruction lists of the layout and the use chains of the data flow graph. The links are two
  functions \<open>nxt\<close> and \<open>prv\<close> from a node to its neighbours; \<open>dll\<close> relates them, with the head and
  tail pointers, to the list of nodes they thread. Each operation of the code rewrites a few
  links; the lemmas here give the list it yields.
\<close>

definition first_of :: "'a list \<Rightarrow> 'a option \<Rightarrow> 'a option" where
  "first_of xs n = (case xs of [] \<Rightarrow> n | x # _ \<Rightarrow> Some x)"

definition last_of :: "'a option \<Rightarrow> 'a list \<Rightarrow> 'a option" where
  "last_of p xs = (if xs = [] then p else Some (last xs))"

lemma first_of_simps [simp]:
  "first_of [] n = n" "first_of (x # xs) n = Some x" "first_of (xs @ ys) n = first_of xs (first_of ys n)"
  by (auto simp: first_of_def split: list.splits)

lemma last_of_simps [simp]:
  "last_of p [] = p" "last_of p (x # xs) = last_of (Some x) xs"
  "last_of p (xs @ ys) = last_of (last_of p xs) ys"
  by (auto simp: last_of_def)

lemma last_of_snoc: "last_of p (xs @ [x]) = Some x"
  by simp

lemma first_of_None_iff [simp]: "first_of xs None = None \<longleftrightarrow> xs = []"
  by (cases xs) auto

lemma last_of_None_iff [simp]: "last_of None xs = None \<longleftrightarrow> xs = []"
  by (auto simp: last_of_def)

lemma first_of_SomeD: "first_of xs None = Some x \<Longrightarrow> x \<in> set xs"
  by (cases xs) auto

lemma last_of_SomeD: "last_of None xs = Some x \<Longrightarrow> x \<in> set xs"
  by (auto simp: last_of_def split: if_splits)

section \<open>Segments\<close>

text \<open>\<open>seg nxt prv p xs n\<close>: the nodes \<open>xs\<close> are linked both ways, between \<open>p\<close> and \<open>n\<close>.\<close>

fun seg :: "('a \<Rightarrow> 'a option) \<Rightarrow> ('a \<Rightarrow> 'a option) \<Rightarrow> 'a option \<Rightarrow> 'a list \<Rightarrow> 'a option \<Rightarrow> bool" where
  "seg nxt prv p [] n \<longleftrightarrow> True"
| "seg nxt prv p (x # xs) n \<longleftrightarrow> prv x = p \<and> nxt x = first_of xs n \<and> seg nxt prv (Some x) xs n"

lemma seg_append:
  "seg nxt prv p (xs @ ys) n \<longleftrightarrow>
     seg nxt prv p xs (first_of ys n) \<and> seg nxt prv (last_of p xs) ys n"
  by (induction xs arbitrary: p) auto

lemma seg_cong:
  assumes "\<And>x. x \<in> set xs \<Longrightarrow> nxt x = nxt' x \<and> prv x = prv' x"
  shows "seg nxt prv p xs n \<longleftrightarrow> seg nxt' prv' p xs n"
  using assms by (induction xs arbitrary: p) auto

lemma seg_upd_other [simp]:
  "x \<notin> set xs \<Longrightarrow> seg (nxt(x := a)) prv p xs n = seg nxt prv p xs n"
  "x \<notin> set xs \<Longrightarrow> seg nxt (prv(x := a)) p xs n = seg nxt prv p xs n"
  by (auto intro!: seg_cong)

text \<open>Redirecting the link out of a segment at its last node, or into it at its first.\<close>

lemma seg_upd_last:
  assumes "seg nxt prv p xs n" "xs \<noteq> []" "distinct xs"
  shows "seg (nxt(last xs := m)) prv p xs m"
proof -
  obtain ys y where xs: "xs = ys @ [y]" using assms(2) by (metis rev_exhaust)
  with assms show ?thesis by (simp add: seg_append)
qed

lemma seg_upd_first:
  assumes "seg nxt prv p xs n" "xs \<noteq> []" "distinct xs"
  shows "seg nxt (prv(hd xs := q)) q xs n"
  using assms by (cases xs) auto

section \<open>Whole lists\<close>

definition dll :: "('a \<Rightarrow> 'a option) \<Rightarrow> ('a \<Rightarrow> 'a option) \<Rightarrow> 'a option \<Rightarrow> 'a option \<Rightarrow> 'a list \<Rightarrow> bool" where
  "dll nxt prv hd_ptr tl_ptr xs \<longleftrightarrow>
     distinct xs \<and> seg nxt prv None xs None \<and> hd_ptr = first_of xs None \<and> tl_ptr = last_of None xs"

lemma dll_Nil [simp]: "dll nxt prv h t [] \<longleftrightarrow> h = None \<and> t = None"
  by (auto simp: dll_def)

lemma dll_distinct: "dll nxt prv h t xs \<Longrightarrow> distinct xs"
  by (simp add: dll_def)

lemma dll_ptrs: "dll nxt prv h t xs \<Longrightarrow> h = first_of xs None \<and> t = last_of None xs"
  by (simp add: dll_def)

lemma dll_cong:
  assumes "\<And>x. x \<in> set xs \<Longrightarrow> nxt x = nxt' x \<and> prv x = prv' x"
  shows "dll nxt prv h t xs \<longleftrightarrow> dll nxt' prv' h t xs"
  unfolding dll_def using seg_cong [of xs nxt nxt' prv prv', OF assms] by blast

lemma dll_at:
  assumes "dll nxt prv h t (xs @ x # ys)"
  shows "prv x = last_of None xs" "nxt x = first_of ys None"
  using assms by (auto simp: dll_def seg_append)

text \<open>A node's predecessor is absent exactly when it is the head.\<close>

lemma dll_prv_None_iff:
  assumes "dll nxt prv h t xs" "x \<in> set xs"
  shows "prv x = None \<longleftrightarrow> h = Some x"
proof -
  obtain as bs where xs: "xs = as @ x # bs" using assms(2) by (metis split_list)
  have "prv x = last_of None as" using assms(1) xs dll_at by metis
  moreover have "h = first_of xs None" "distinct xs" using assms(1) by (simp_all add: dll_def)
  ultimately show ?thesis using xs by (cases as) (auto simp: last_of_def)
qed

text \<open>Setting a link at an optional node, and moving the end pointer when there is none.\<close>

definition link_opt :: "'a option \<Rightarrow> 'a option \<Rightarrow> ('a \<Rightarrow> 'a option) \<Rightarrow> ('a \<Rightarrow> 'a option)" where
  "link_opt a v f = (case a of None \<Rightarrow> f | Some x \<Rightarrow> f(x := v))"

lemma link_opt_simps [simp]: "link_opt None v f = f" "link_opt (Some x) v f = f(x := v)"
  by (simp_all add: link_opt_def)

lemma seg_link_last:
  assumes "seg nxt prv None xs n" "distinct xs"
  shows "seg (link_opt (last_of None xs) m nxt) prv None xs m"
  using assms seg_upd_last [of nxt prv None xs n m] by (auto simp: last_of_def)

lemma seg_link_first:
  assumes "seg nxt prv p xs None" "distinct xs"
  shows "seg nxt (link_opt (first_of xs None) q prv) q xs None"
  using assms seg_upd_first [of nxt prv p xs None q] by (cases xs) auto

lemma link_opt_other:
  "a \<noteq> Some x \<Longrightarrow> link_opt a v f x = f x"
  by (cases a) auto

lemma seg_link_last_other:
  assumes "set xs \<inter> set ys = {}"
  shows "seg (link_opt (last_of None xs) v nxt) prv p ys n = seg nxt prv p ys n"
proof (rule seg_cong)
  fix y assume "y \<in> set ys"
  with assms have "last_of None xs \<noteq> Some y" by (auto dest: last_of_SomeD)
  then show "link_opt (last_of None xs) v nxt y = nxt y \<and> prv y = prv y" by (simp add: link_opt_other)
qed

lemma seg_link_first_other:
  assumes "set xs \<inter> set ys = {}"
  shows "seg nxt (link_opt (first_of ys None) v prv) p xs n = seg nxt prv p xs n"
proof (rule seg_cong)
  fix y assume "y \<in> set xs"
  with assms have "first_of ys None \<noteq> Some y" by (auto dest: first_of_SomeD)
  then show "nxt y = nxt y \<and> link_opt (first_of ys None) v prv y = prv y" by (simp add: link_opt_other)
qed

text \<open>Insertion of a fresh node between two parts of a list.\<close>

lemma dll_insert:
  assumes "dll nxt prv h t (xs @ ys)" "x \<notin> set (xs @ ys)"
  shows "dll ((link_opt (last_of None xs) (Some x) nxt)(x := first_of ys None))
             ((link_opt (first_of ys None) (Some x) prv)(x := last_of None xs))
             (if xs = [] then Some x else h) (if ys = [] then Some x else t) (xs @ x # ys)"
proof -
  have d: "distinct xs" "distinct ys" "set xs \<inter> set ys = {}" "x \<notin> set xs" "x \<notin> set ys"
    using assms by (auto simp: dll_def)
  have s: "seg nxt prv None xs (first_of ys None)" "seg nxt prv (last_of None xs) ys None"
    using assms(1) by (simp_all add: dll_def seg_append)
  have "seg (link_opt (last_of None xs) (Some x) nxt) prv None xs (Some x)"
    by (rule seg_link_last [OF s(1) d(1)])
  moreover have "seg nxt (link_opt (first_of ys None) (Some x) prv) (Some x) ys None"
    by (rule seg_link_first [OF s(2) d(2)])
  ultimately have "seg ((link_opt (last_of None xs) (Some x) nxt)(x := first_of ys None))
      ((link_opt (first_of ys None) (Some x) prv)(x := last_of None xs)) None (xs @ x # ys) None"
    using d by (simp add: seg_append seg_link_last_other seg_link_first_other)
  moreover have "h = first_of (xs @ ys) None" "t = last_of None (xs @ ys)"
    using assms(1) by (simp_all add: dll_def)
  ultimately show ?thesis
    using d by (cases xs; cases ys rule: rev_cases) (auto simp: dll_def)
qed

text \<open>Removal of a node: its neighbours are linked to each other.\<close>

lemma dll_remove:
  assumes "dll nxt prv h t (xs @ x # ys)"
  shows "dll (link_opt (last_of None xs) (first_of ys None) (nxt(x := a)))
             (link_opt (first_of ys None) (last_of None xs) (prv(x := b)))
             (if xs = [] then first_of ys None else h) (if ys = [] then last_of None xs else t) (xs @ ys)"
proof -
  have d: "distinct xs" "distinct ys" "set xs \<inter> set ys = {}" "x \<notin> set xs" "x \<notin> set ys"
    using assms by (auto simp: dll_def)
  have s: "seg (nxt(x := a)) (prv(x := b)) None xs (Some x)" "seg (nxt(x := a)) (prv(x := b)) (Some x) ys None"
    using assms(1) d by (simp_all add: dll_def seg_append)
  have "seg (link_opt (last_of None xs) (first_of ys None) (nxt(x := a))) (prv(x := b)) None xs (first_of ys None)"
    by (rule seg_link_last [OF s(1) d(1)])
  moreover have "seg (nxt(x := a)) (link_opt (first_of ys None) (last_of None xs) (prv(x := b))) (last_of None xs) ys None"
    by (rule seg_link_first [OF s(2) d(2)])
  ultimately have "seg (link_opt (last_of None xs) (first_of ys None) (nxt(x := a)))
             (link_opt (first_of ys None) (last_of None xs) (prv(x := b))) None (xs @ ys) None"
    using d by (simp add: seg_append seg_link_last_other seg_link_first_other)
  moreover have "h = first_of (xs @ x # ys) None" "t = last_of None (xs @ x # ys)"
    using assms(1) by (simp_all add: dll_def)
  ultimately show ?thesis
    using d by (cases xs; cases ys rule: rev_cases) (auto simp: dll_def)
qed

text \<open>Two disjoint lists are joined by linking the last node of one to the first of the other.\<close>

lemma dll_append:
  assumes "dll nxt prv h1 t1 xs" "dll nxt prv h2 t2 ys" "set xs \<inter> set ys = {}"
  shows "dll (link_opt t1 h2 nxt) (link_opt h2 t1 prv)
    (if xs = [] then h2 else h1) (if ys = [] then t1 else t2) (xs @ ys)"
proof -
  have p: "h1 = first_of xs None" "t1 = last_of None xs" "h2 = first_of ys None" "t2 = last_of None ys"
    and d: "distinct xs" "distinct ys" and s: "seg nxt prv None xs None" "seg nxt prv None ys None"
    using assms(1,2) by (simp_all add: dll_def)
  have "seg (link_opt t1 h2 nxt) prv None xs h2" unfolding p by (rule seg_link_last [OF s(1) d(1)])
  moreover have "seg nxt (link_opt h2 t1 prv) t1 ys None" unfolding p by (rule seg_link_first [OF s(2) d(2)])
  ultimately have "seg (link_opt t1 h2 nxt) (link_opt h2 t1 prv) None (xs @ ys) None"
    using p assms(3) by (simp add: seg_append seg_link_last_other seg_link_first_other)
  then show ?thesis
    using d assms(3) p by (cases xs; cases ys rule: rev_cases) (auto simp: dll_def)
qed

text \<open>A list is cut in two by clearing the links across the cut.\<close>

lemma dll_split:
  assumes "dll nxt prv h t (xs @ y # ys)"
  shows "dll (link_opt (last_of None xs) None nxt) (prv(y := None))
      (if xs = [] then None else h) (last_of None xs) xs"
    and "dll (link_opt (last_of None xs) None nxt) (prv(y := None)) (Some y) t (y # ys)"
proof -
  have d: "distinct xs" "distinct (y # ys)" "set xs \<inter> set (y # ys) = {}"
    using assms by (auto simp: dll_def)
  have s: "seg nxt prv None xs (Some y)" "seg nxt prv (last_of None xs) (y # ys) None"
    using assms(1) by (simp_all add: dll_def seg_append)
  have p: "h = first_of (xs @ y # ys) None" "t = last_of None (xs @ y # ys)"
    using assms(1) by (simp_all add: dll_def)
  have "seg (link_opt (last_of None xs) None nxt) prv None xs None"
    by (rule seg_link_last [OF s(1) d(1)])
  then show "dll (link_opt (last_of None xs) None nxt) (prv(y := None))
      (if xs = [] then None else h) (last_of None xs) xs"
    using d p by (cases xs) (auto simp: dll_def)
  have "seg (link_opt (last_of None xs) None nxt) prv (last_of None xs) (y # ys) None"
    using s(2) d(3) by (simp only: seg_link_last_other)
  then show "dll (link_opt (last_of None xs) None nxt) (prv(y := None)) (Some y) t (y # ys)"
    using d p by (auto simp: dll_def)
qed

text \<open>Links that agree as functions may be written in another order.\<close>

lemma dll_eqI:
  "dll nxt prv h t xs \<Longrightarrow> nxt = nxt' \<Longrightarrow> prv = prv' \<Longrightarrow> h = h' \<Longrightarrow> t = t' \<Longrightarrow> dll nxt' prv' h' t' xs"
  by simp

lemma dll_congI:
  assumes "dll nxt prv h t xs" "h' = h" "t' = t" "\<And>x. x \<in> set xs \<Longrightarrow> nxt' x = nxt x \<and> prv' x = prv x"
  shows "dll nxt' prv' h' t' xs"
  using assms dll_cong [of xs nxt' nxt prv' prv h t] by auto

end
