(* ===== verification/Machine_Numbers.thy ===== *)
theory Machine_Numbers
  imports Prelude
begin

text \<open>
  Rust's \<open>i32\<close> and \<open>f64\<close> as the interpreter and the constant folder use them. An \<open>i32\<close> is a 32-bit word;
  its checked operations panic where a debug build does. An \<open>f64\<close> is its IEEE 754 bit pattern. What
  reads or moves bits (comparison, negation, the conversions, rounding to an integer) is defined here;
  the operations that round to a representable value and the functions of the platform's mathematics
  library are left to a parameter of type \<open>float_ops\<close>.
\<close>

section \<open>i32\<close>

definition i32_checked :: "int \<Rightarrow> u32 panics" where
  "i32_checked x = (if - (2 ^ 31) \<le> x \<and> x < 2 ^ 31 then Some (word_of_int x) else None)"

definition i32_add :: "u32 \<Rightarrow> u32 \<Rightarrow> u32 panics" where
  "i32_add a b = i32_checked (sint a + sint b)"

definition i32_sub :: "u32 \<Rightarrow> u32 \<Rightarrow> u32 panics" where
  "i32_sub a b = i32_checked (sint a - sint b)"

definition i32_mul :: "u32 \<Rightarrow> u32 \<Rightarrow> u32 panics" where
  "i32_mul a b = i32_checked (sint a * sint b)"

definition i32_neg :: "u32 \<Rightarrow> u32 panics" where
  "i32_neg a = i32_checked (- sint a)"

text \<open>Division rounds towards zero; both it and the remainder panic for a zero divisor and on overflow.\<close>

definition int_quot :: "int \<Rightarrow> int \<Rightarrow> int" where
  "int_quot a b = sgn a * sgn b * (\<bar>a\<bar> div \<bar>b\<bar>)"

definition i32_div :: "u32 \<Rightarrow> u32 \<Rightarrow> u32 panics" where
  "i32_div a b = (if b = 0 then None else i32_checked (int_quot (sint a) (sint b)))"

definition i32_rem :: "u32 \<Rightarrow> u32 \<Rightarrow> u32 panics" where
  "i32_rem a b =
     (if b = 0 then None
      else do { _ \<leftarrow> i32_checked (int_quot (sint a) (sint b));
                i32_checked (sint a - int_quot (sint a) (sint b) * sint b) })"

definition i32_shl :: "u32 \<Rightarrow> u32 \<Rightarrow> u32 panics" where
  "i32_shl a b = (if unat b < 32 then Some (push_bit (unat b) a) else None)"

definition i32_shr :: "u32 \<Rightarrow> u32 \<Rightarrow> u32 panics" where
  "i32_shr a b = (if unat b < 32 then Some (signed_drop_bit (unat b) a) else None)"

definition i32_less :: "u32 \<Rightarrow> u32 \<Rightarrow> bool" where
  "i32_less a b \<longleftrightarrow> sint a < sint b"

definition i32_leading_zeros :: "u32 \<Rightarrow> nat" where
  "i32_leading_zeros a = length (takeWhile (\<lambda>i. \<not> bit a (31 - i)) [0..<32])"

definition i32_of_bool :: "bool \<Rightarrow> u32" where
  "i32_of_bool b = (if b then 1 else 0)"

section \<open>f64\<close>

definition f64_sign :: "u64 \<Rightarrow> bool" where
  "f64_sign x \<longleftrightarrow> bit x 63"

definition f64_magnitude :: "u64 \<Rightarrow> nat" where
  "f64_magnitude x = unat (take_bit 63 x)"

definition f64_exponent :: "u64 \<Rightarrow> nat" where
  "f64_exponent x = f64_magnitude x div 2 ^ 52"

definition f64_mantissa :: "u64 \<Rightarrow> nat" where
  "f64_mantissa x = f64_magnitude x mod 2 ^ 52"

definition f64_is_nan :: "u64 \<Rightarrow> bool" where
  "f64_is_nan x \<longleftrightarrow> f64_exponent x = 2047 \<and> f64_mantissa x \<noteq> 0"

definition f64_neg :: "u64 \<Rightarrow> u64" where
  "f64_neg x = x XOR push_bit 63 1"

definition f64_abs :: "u64 \<Rightarrow> u64" where
  "f64_abs x = take_bit 63 x"

text \<open>The bit patterns of numbers are ordered by sign and magnitude, and the zeros are equal.\<close>

definition f64_key :: "u64 \<Rightarrow> int" where
  "f64_key x = (if f64_sign x then - int (f64_magnitude x) else int (f64_magnitude x))"

definition f64_less :: "u64 \<Rightarrow> u64 \<Rightarrow> bool" where
  "f64_less a b \<longleftrightarrow> \<not> f64_is_nan a \<and> \<not> f64_is_nan b \<and> f64_key a < f64_key b"

definition f64_le :: "u64 \<Rightarrow> u64 \<Rightarrow> bool" where
  "f64_le a b \<longleftrightarrow> \<not> f64_is_nan a \<and> \<not> f64_is_nan b \<and> f64_key a \<le> f64_key b"

definition f64_eq :: "u64 \<Rightarrow> u64 \<Rightarrow> bool" where
  "f64_eq a b \<longleftrightarrow> \<not> f64_is_nan a \<and> \<not> f64_is_nan b \<and> f64_key a = f64_key b"

text \<open>
  A number with biased exponent \<open>e\<close> is its significand times \<open>2\<close> to the power of \<open>e - 1075\<close>. Its integer
  part, and whether a fraction or at least half of one remains, are read from the significand.
\<close>

definition f64_significand :: "u64 \<Rightarrow> nat" where
  "f64_significand x = (if f64_exponent x = 0 then f64_mantissa x else f64_mantissa x + 2 ^ 52)"

definition f64_shift :: "u64 \<Rightarrow> nat" where
  "f64_shift x = 1075 - max 1 (f64_exponent x)"

definition f64_int_part :: "u64 \<Rightarrow> nat" where
  "f64_int_part x =
     (if f64_exponent x \<ge> 1075 then f64_significand x * 2 ^ (f64_exponent x - 1075)
      else f64_significand x div 2 ^ f64_shift x)"

definition f64_fraction :: "u64 \<Rightarrow> bool" where
  "f64_fraction x \<longleftrightarrow> f64_exponent x < 1075 \<and> f64_significand x mod 2 ^ f64_shift x \<noteq> 0"

definition f64_half :: "u64 \<Rightarrow> bool" where
  "f64_half x \<longleftrightarrow> f64_exponent x < 1075 \<and> 2 ^ f64_shift x \<le> 2 * (f64_significand x mod 2 ^ f64_shift x)"

text \<open>The cast \<open>as i32\<close> drops the fraction, saturates, and takes NaN to zero.\<close>

definition f64_as_i32 :: "u64 \<Rightarrow> u32" where
  "f64_as_i32 x =
     (if f64_is_nan x then 0
      else let n = int (f64_int_part x)
           in word_of_int (max (- (2 ^ 31)) (min (2 ^ 31 - 1) (if f64_sign x then - n else n))))"

text \<open>The \<open>f64\<close> of an integer below \<open>2 ^ 53\<close> with a sign is exact.\<close>

definition f64_of_nat :: "bool \<Rightarrow> nat \<Rightarrow> u64" where
  "f64_of_nat s n =
     (let k = length (takeWhile (\<lambda>i. 2 ^ i \<le> n) [0..<53]) - 1
      in (if s then push_bit 63 1 else 0) OR
         (if n = 0 then 0 else word_of_nat ((k + 1023) * 2 ^ 52 + (n * 2 ^ (52 - k) - 2 ^ 52))))"

definition i32_as_f64 :: "u32 \<Rightarrow> u64" where
  "i32_as_f64 a = f64_of_nat (sint a < 0) (nat \<bar>sint a\<bar>)"

text \<open>Rounding to an integer keeps the sign of zero; large numbers, infinities and NaN are left alone.\<close>

definition f64_to_integer :: "(u64 \<Rightarrow> bool) \<Rightarrow> u64 \<Rightarrow> u64" where
  "f64_to_integer up x =
     (if f64_exponent x \<ge> 1075 then x
      else f64_of_nat (f64_sign x) (f64_int_part x + (if up x then 1 else 0)))"

definition f64_floor :: "u64 \<Rightarrow> u64" where
  "f64_floor = f64_to_integer (\<lambda>x. f64_sign x \<and> f64_fraction x)"

definition f64_ceil :: "u64 \<Rightarrow> u64" where
  "f64_ceil = f64_to_integer (\<lambda>x. \<not> f64_sign x \<and> f64_fraction x)"

definition f64_round :: "u64 \<Rightarrow> u64" where
  "f64_round = f64_to_integer f64_half"

section \<open>Arithmetic left to the platform\<close>

datatype f64_fun =
    FSqrt | FExp | FLn | FLog10 | FSin | FCos | FTan | FAsin | FAcos | FAtan | FSinh | FCosh | FTanh
  | FAsinh | FAcosh | FAtanh

datatype f64_fun2 = FAdd | FSub | FMul | FDiv | FRem | FHypot | FAtan2 | FPowf

record float_ops =
  fn1 :: "f64_fun \<Rightarrow> u64 \<Rightarrow> u64"
  fn2 :: "f64_fun2 \<Rightarrow> u64 \<Rightarrow> u64 \<Rightarrow> u64"

text \<open>An instance for examples: every function returns its first operand.\<close>

definition first_operand :: float_ops where
  "first_operand = \<lparr>fn1 = (\<lambda>_ x. x), fn2 = (\<lambda>_ x _. x)\<rparr>"

end
