(* ===== verification/Dfg.thy ===== *)
theory Dfg
  imports Instructions Linked_List Machine_Numbers
begin

text \<open>
  The data flow graph of the MIR, \<^verbatim>\<open>openvaf/mir/src/dfg.rs\<close> and its modules
  \<^verbatim>\<open>dfg/values.rs\<close>, \<^verbatim>\<open>dfg/uses.rs\<close>, \<^verbatim>\<open>dfg/instructions.rs\<close> and
  \<^verbatim>\<open>dfg/phis.rs\<close>. A value heads a doubly linked chain of its uses; a use knows the operand
  (instruction and argument position) it stands for. \<open>AHashMap\<close>s are maps; \<open>Ieee64\<close> is its bit
  pattern, \<open>i32\<close> a 32-bit word, an interned string (\<open>Spur\<close>) and a tag are numbers. \<open>None\<close> is a
  panic (or, for an alias chain with a cycle, a loop that does not end); \<open>get_unchecked\<close> outside
  the table is undefined behaviour and \<open>None\<close> too.
\<close>

type_synonym mir_use = nat

section \<open>State\<close>

record use_data =
  parent :: inst
  parent_idx :: nat
  attached :: bool
  u_next :: "mir_use option"
  u_prev :: "mir_use option"

datatype value_data_type =
    VInst nat inst
  | VParam nat
  | VFconst u64
  | VIconst u32
  | VSconst nat
  | VAlias mir_value
  | VInvalid
  | VTrue
  | VFalse

datatype mir_const = CFloat u64 | CInt u32 | CStr nat | CBool bool

datatype value_def = DefResult inst nat | DefParam nat | DefConst mir_const | DefInvalid

record value_data =
  v_ty :: value_data_type
  uses_head :: "mir_use option"
  uses_tail :: "mir_use option"
  v_tag :: "nat option"

record val_table =
  defs :: "value_data list"
  uses :: "use_data list"
  int_consts :: "u32 \<rightharpoonup> mir_value"
  real_consts :: "u64 \<rightharpoonup> mir_value"
  str_consts :: "nat \<rightharpoonup> mir_value"

record inst_table =
  declarations :: "instruction_data list"
  inst_results :: "mir_value list list"
  inst_operands :: "mir_use list list"

record signature =
  sig_params :: nat
  sig_returns :: nat
  sig_has_sideeffects :: bool

record dfg =
  d_insts :: inst_table
  d_values :: val_table
  d_signatures :: "signature list"

definition ValueData_new :: "value_data_type \<Rightarrow> nat option \<Rightarrow> value_data" where
  "ValueData_new ty tag = \<lparr>v_ty = ty, uses_head = None, uses_tail = None, v_tag = tag\<rparr>"

definition ValueDef_inst :: "value_def \<Rightarrow> inst option" where
  "ValueDef_inst d = (case d of DefResult i _ \<Rightarrow> Some i | _ \<Rightarrow> None)"

definition ValueDef_result :: "value_def \<Rightarrow> (inst \<times> nat) option" where
  "ValueDef_result d = (case d of DefResult i n \<Rightarrow> Some (i, n) | _ \<Rightarrow> None)"

definition ValueDef_as_const :: "value_def \<Rightarrow> mir_const option" where
  "ValueDef_as_const d = (case d of DefConst c \<Rightarrow> Some c | _ \<Rightarrow> None)"

definition ValueDef_as_param :: "value_def \<Rightarrow> nat option" where
  "ValueDef_as_param d = (case d of DefParam p \<Rightarrow> Some p | _ \<Rightarrow> None)"

section \<open>Values\<close>

definition upd_def :: "mir_value \<Rightarrow> (value_data \<Rightarrow> value_data) \<Rightarrow> val_table \<Rightarrow> val_table panics" where
  "upd_def v f V = do { d \<leftarrow> vec_get (defs V) v; Some (V\<lparr>defs := (defs V)[v := f d]\<rparr>) }"

definition upd_use :: "mir_use \<Rightarrow> (use_data \<Rightarrow> use_data) \<Rightarrow> val_table \<Rightarrow> val_table panics" where
  "upd_use u f V = do { d \<leftarrow> vec_get (uses V) u; Some (V\<lparr>uses := (uses V)[u := f d]\<rparr>) }"

definition DfgValues_make :: "value_data_type \<Rightarrow> nat option \<Rightarrow> val_table \<Rightarrow> val_table \<times> mir_value" where
  "DfgValues_make ty tag V = (V\<lparr>defs := defs V @ [ValueData_new ty tag]\<rparr>, length (defs V))"

definition DfgValues_make_invalid_value :: "val_table \<Rightarrow> val_table \<times> mir_value" where
  "DfgValues_make_invalid_value V = DfgValues_make VInvalid None V"

definition DfgValues_make_param :: "nat \<Rightarrow> val_table \<Rightarrow> val_table \<times> mir_value" where
  "DfgValues_make_param p V = DfgValues_make (VParam p) None V"

definition DfgValues_make_alias :: "mir_value \<Rightarrow> val_table \<Rightarrow> val_table \<times> mir_value" where
  "DfgValues_make_alias v V = DfgValues_make (VAlias v) None V"

definition DfgValues_make_alias_at :: "mir_value \<Rightarrow> mir_value \<Rightarrow> val_table \<Rightarrow> val_table panics" where
  "DfgValues_make_alias_at v dst V = upd_def dst (\<lambda>d. d\<lparr>v_ty := VAlias v\<rparr>) V"

definition DfgValues_make_param_at :: "nat \<Rightarrow> mir_value \<Rightarrow> val_table \<Rightarrow> val_table panics" where
  "DfgValues_make_param_at p v V = upd_def v (\<lambda>d. d\<lparr>v_ty := VParam p\<rparr>) V"

definition DfgValues_num :: "val_table \<Rightarrow> nat" where
  "DfgValues_num V = length (defs V)"

definition DfgValues_iter :: "val_table \<Rightarrow> mir_value list" where
  "DfgValues_iter V = [0..<length (defs V)]"

definition DfgValues_is_valid :: "val_table \<Rightarrow> mir_value \<Rightarrow> bool" where
  "DfgValues_is_valid V v \<longleftrightarrow> v < length (defs V)"

definition DfgValues_clear :: "val_table \<Rightarrow> val_table" where
  "DfgValues_clear V = \<lparr>defs = [], uses = [], int_consts = Map.empty, real_consts = Map.empty,
     str_consts = Map.empty\<rparr>"

definition DfgValues_def :: "val_table \<Rightarrow> mir_value \<Rightarrow> value_def panics" where
  "DfgValues_def V v =
     do { d \<leftarrow> vec_get (defs V) v;
          Some (case v_ty d of
                  VInst num inst \<Rightarrow> DefResult inst num
                | VParam p \<Rightarrow> DefParam p
                | VFconst x \<Rightarrow> DefConst (CFloat x)
                | VIconst x \<Rightarrow> DefConst (CInt x)
                | VSconst x \<Rightarrow> DefConst (CStr x)
                | VTrue \<Rightarrow> DefConst (CBool True)
                | VFalse \<Rightarrow> DefConst (CBool False)
                | VAlias _ \<Rightarrow> DefInvalid
                | VInvalid \<Rightarrow> DefInvalid) }"

partial_function (option) DfgValues_def_allow_alias :: "val_table \<Rightarrow> mir_value \<Rightarrow> value_def option" where
  "DfgValues_def_allow_alias V v =
     do { d \<leftarrow> vec_get (defs V) v;
          (case v_ty d of
             VAlias alias \<Rightarrow> DfgValues_def_allow_alias V alias
           | _ \<Rightarrow> DfgValues_def V v) }"

definition DfgValues_unwrap_bool :: "val_table \<Rightarrow> mir_value \<Rightarrow> bool panics" where
  "DfgValues_unwrap_bool V v =
     do { d \<leftarrow> vec_get (defs V) v; (case v_ty d of VTrue \<Rightarrow> Some True | VFalse \<Rightarrow> Some False | _ \<Rightarrow> None) }"

definition DfgValues_unwrap_f64 :: "val_table \<Rightarrow> mir_value \<Rightarrow> u64 panics" where
  "DfgValues_unwrap_f64 V v = do { d \<leftarrow> vec_get (defs V) v; (case v_ty d of VFconst x \<Rightarrow> Some x | _ \<Rightarrow> None) }"

definition DfgValues_unwrap_i32 :: "val_table \<Rightarrow> mir_value \<Rightarrow> u32 panics" where
  "DfgValues_unwrap_i32 V v = do { d \<leftarrow> vec_get (defs V) v; (case v_ty d of VIconst x \<Rightarrow> Some x | _ \<Rightarrow> None) }"

definition DfgValues_unwrap_str :: "val_table \<Rightarrow> mir_value \<Rightarrow> nat panics" where
  "DfgValues_unwrap_str V v = do { d \<leftarrow> vec_get (defs V) v; (case v_ty d of VSconst x \<Rightarrow> Some x | _ \<Rightarrow> None) }"

definition DfgValues_tag :: "val_table \<Rightarrow> mir_value \<Rightarrow> nat option panics" where
  "DfgValues_tag V v = map_option v_tag (vec_get (defs V) v)"

definition DfgValues_set_tag :: "mir_value \<Rightarrow> nat option \<Rightarrow> val_table \<Rightarrow> val_table panics" where
  "DfgValues_set_tag v tag V = upd_def v (\<lambda>d. d\<lparr>v_tag := tag\<rparr>) V"

definition DfgValues_is_dead :: "val_table \<Rightarrow> mir_value \<Rightarrow> bool panics" where
  "DfgValues_is_dead V v = map_option (\<lambda>d. uses_head d = None) (vec_get (defs V) v)"

subsection \<open>Constants\<close>

definition DfgValues_iconst :: "u32 \<Rightarrow> val_table \<Rightarrow> val_table \<times> mir_value" where
  "DfgValues_iconst x V =
     (case int_consts V x of
        Some v \<Rightarrow> (V, v)
      | None \<Rightarrow>
          (V\<lparr>defs := defs V @ [ValueData_new (VIconst x) None], int_consts := (int_consts V)(x \<mapsto> length (defs V))\<rparr>,
           length (defs V)))"

definition DfgValues_fconst :: "u64 \<Rightarrow> val_table \<Rightarrow> val_table \<times> mir_value" where
  "DfgValues_fconst x V =
     (case real_consts V x of
        Some v \<Rightarrow> (V, v)
      | None \<Rightarrow>
          (V\<lparr>defs := defs V @ [ValueData_new (VFconst x) None], real_consts := (real_consts V)(x \<mapsto> length (defs V))\<rparr>,
           length (defs V)))"

definition DfgValues_sconst :: "nat \<Rightarrow> val_table \<Rightarrow> val_table \<times> mir_value" where
  "DfgValues_sconst x V =
     (case str_consts V x of
        Some v \<Rightarrow> (V, v)
      | None \<Rightarrow>
          (V\<lparr>defs := defs V @ [ValueData_new (VSconst x) None], str_consts := (str_consts V)(x \<mapsto> length (defs V))\<rparr>,
           length (defs V)))"

definition DfgValues_iconst_at :: "u32 \<Rightarrow> mir_value \<Rightarrow> val_table \<Rightarrow> val_table panics" where
  "DfgValues_iconst_at x dst V =
     upd_def dst (\<lambda>d. d\<lparr>v_ty := VIconst x\<rparr>) (V\<lparr>int_consts := (int_consts V)(x \<mapsto> dst)\<rparr>)"

definition DfgValues_fconst_at :: "u64 \<Rightarrow> mir_value \<Rightarrow> val_table \<Rightarrow> val_table panics" where
  "DfgValues_fconst_at x dst V =
     upd_def dst (\<lambda>d. d\<lparr>v_ty := VFconst x\<rparr>) (V\<lparr>real_consts := (real_consts V)(x \<mapsto> dst)\<rparr>)"

definition DfgValues_sconst_at :: "nat \<Rightarrow> mir_value \<Rightarrow> val_table \<Rightarrow> val_table panics" where
  "DfgValues_sconst_at x dst V =
     upd_def dst (\<lambda>d. d\<lparr>v_ty := VSconst x\<rparr>) (V\<lparr>str_consts := (str_consts V)(x \<mapsto> dst)\<rparr>)"

text \<open>The predefined values, numbered in the order of the \<open>consts!\<close> table.\<close>

definition GRAVESTONE :: mir_value where "GRAVESTONE = 0"
definition FALSE :: mir_value where "FALSE = 1"
definition TRUE :: mir_value where "TRUE = 2"
definition F_ZERO :: mir_value where "F_ZERO = 3"

definition f64_0 :: u64 where "f64_0 = 0"
definition f64_1 :: u64 where "f64_1 = 0x3FF0000000000000"
definition f64_2 :: u64 where "f64_2 = 0x4000000000000000"
definition f64_3 :: u64 where "f64_3 = 0x4008000000000000"
definition f64_10 :: u64 where "f64_10 = 0x4024000000000000"
definition f64_LN_2 :: u64 where "f64_LN_2 = 0x3FE62E42FEFA39EF"
definition f64_LOG10_E :: u64 where "f64_LOG10_E = 0x3FDBCB7B1526E50E"
definition f64_INFINITY :: u64 where "f64_INFINITY = 0x7FF0000000000000"

text \<open>One entry of the table: its initial value, made in order.\<close>

definition init_const :: "mir_const \<Rightarrow> val_table \<Rightarrow> val_table" where
  "init_const c V =
     (case c of
        CFloat x \<Rightarrow> fst (DfgValues_fconst x V)
      | CInt x \<Rightarrow> fst (DfgValues_iconst x V)
      | CBool b \<Rightarrow> fst (DfgValues_make (if b then VTrue else VFalse) None V)
      | CStr x \<Rightarrow> V)"

definition CONSTS :: "mir_const list" where
  "CONSTS = [CBool False, CBool False, CBool True, CFloat f64_0, CInt 0, CInt 1, CFloat f64_1,
     CFloat (f64_neg f64_1), CFloat (f64_neg f64_LN_2), CFloat f64_LN_2, CFloat f64_LOG10_E,
     CFloat f64_2, CInt (-1), CFloat f64_10, CFloat f64_3, CFloat f64_INFINITY]"

definition DfgValues_new :: "val_table panics" where
  "DfgValues_new =
     do { let V = fold init_const CONSTS \<lparr>defs = [], uses = [], int_consts = Map.empty,
                    real_consts = Map.empty, str_consts = Map.empty\<rparr>;
          V \<leftarrow> upd_def GRAVESTONE (\<lambda>d. d\<lparr>v_ty := VInvalid\<rparr>) V;
          Some (V\<lparr>real_consts := (real_consts V)(f64_neg f64_0 \<mapsto> F_ZERO)\<rparr>) }"

definition DfgValues_make_const :: "mir_const \<Rightarrow> val_table \<Rightarrow> val_table \<times> mir_value" where
  "DfgValues_make_const c V =
     (case c of
        CFloat x \<Rightarrow> DfgValues_fconst x V
      | CInt x \<Rightarrow> DfgValues_iconst x V
      | CStr x \<Rightarrow> DfgValues_sconst x V
      | CBool False \<Rightarrow> (V, FALSE)
      | CBool True \<Rightarrow> (V, TRUE))"

partial_function (option) DfgValues_resolve_alias :: "val_table \<Rightarrow> mir_value \<Rightarrow> mir_value option" where
  "DfgValues_resolve_alias V v =
     do { d \<leftarrow> vec_get (defs V) v;
          (case v_ty d of VAlias res \<Rightarrow> DfgValues_resolve_alias V res | _ \<Rightarrow> Some v) }"

section \<open>Uses\<close>

definition Use_prev :: "mir_use \<Rightarrow> val_table \<Rightarrow> mir_use option panics" where
  "Use_prev u V = map_option u_prev (vec_get (uses V) u)"

definition Use_next :: "mir_use \<Rightarrow> val_table \<Rightarrow> mir_use option panics" where
  "Use_next u V = map_option u_next (vec_get (uses V) u)"

text \<open>A cursor is the use to return next. It can move both ways.\<close>

definition UseCursor_advance :: "val_table \<Rightarrow> mir_use option \<Rightarrow> (mir_use option \<times> mir_use option) panics" where
  "UseCursor_advance V cur =
     (case cur of None \<Rightarrow> Some (None, None) | Some u \<Rightarrow> do { n \<leftarrow> Use_next u V; Some (Some u, n) })"

definition UseCursor_advance_back :: "val_table \<Rightarrow> mir_use option \<Rightarrow> (mir_use option \<times> mir_use option) panics" where
  "UseCursor_advance_back V cur =
     (case cur of None \<Rightarrow> Some (None, None) | Some u \<Rightarrow> do { n \<leftarrow> Use_prev u V; Some (Some u, n) })"

definition DfgValues_uses_head_cursor :: "val_table \<Rightarrow> mir_value \<Rightarrow> mir_use option panics" where
  "DfgValues_uses_head_cursor V v = map_option uses_head (vec_get (defs V) v)"

definition DfgValues_uses_tail_cursor :: "val_table \<Rightarrow> mir_value \<Rightarrow> mir_use option panics" where
  "DfgValues_uses_tail_cursor V v = map_option uses_tail (vec_get (defs V) v)"

definition DfgValues_use_to_operand :: "val_table \<Rightarrow> mir_use \<Rightarrow> (inst \<times> nat) panics" where
  "DfgValues_use_to_operand V u = map_option (\<lambda>d. (parent d, parent_idx d)) (vec_get (uses V) u)"

definition DfgInsts_args :: "inst_table \<Rightarrow> inst \<Rightarrow> mir_value list panics" where
  "DfgInsts_args I i = map_option InstructionData_arguments (vec_get (declarations I) i)"

definition DfgValues_use_to_value :: "val_table \<Rightarrow> mir_use \<Rightarrow> inst_table \<Rightarrow> mir_value panics" where
  "DfgValues_use_to_value V u I =
     do { d \<leftarrow> vec_get (uses V) u; args \<leftarrow> DfgInsts_args I (parent d); vec_get args (parent_idx d) }"

text \<open>Assignment through \<open>use_to_value_mut\<close> and \<open>args_mut\<close>.\<close>

definition DfgInsts_set_arg :: "inst \<Rightarrow> nat \<Rightarrow> mir_value \<Rightarrow> inst_table \<Rightarrow> inst_table panics" where
  "DfgInsts_set_arg i k v I =
     do { d \<leftarrow> vec_get (declarations I) i;
          d \<leftarrow> InstructionData_set_argument d k v;
          Some (I\<lparr>declarations := (declarations I)[i := d]\<rparr>) }"

definition DfgValues_set_use_value :: "val_table \<Rightarrow> mir_use \<Rightarrow> mir_value \<Rightarrow> inst_table \<Rightarrow> inst_table panics" where
  "DfgValues_set_use_value V u v I =
     do { d \<leftarrow> vec_get (uses V) u; DfgInsts_set_arg (parent d) (parent_idx d) v I }"

definition DfgValues_make_use ::
    "mir_value \<Rightarrow> inst \<Rightarrow> nat \<Rightarrow> val_table \<Rightarrow> (val_table \<times> mir_use) panics" where
  "DfgValues_make_use v prnt idx V =
     do { def \<leftarrow> vec_get (defs V) v;
          let u = length (uses V);
          let V = V\<lparr>uses := uses V @ [\<lparr>parent = prnt, parent_idx = idx, attached = True,
                      u_next = uses_head def, u_prev = None\<rparr>]\<rparr>;
          V \<leftarrow> (case uses_head def of
                 Some old_head \<Rightarrow> upd_use old_head (\<lambda>d. d\<lparr>u_prev := Some u\<rparr>) V
               | None \<Rightarrow> upd_def v (\<lambda>d. d\<lparr>uses_tail := Some u\<rparr>) V);
          V \<leftarrow> upd_def v (\<lambda>d. d\<lparr>uses_head := Some u\<rparr>) V;
          Some (V, u) }"

definition DfgValues_detach_use :: "mir_use \<Rightarrow> inst_table \<Rightarrow> val_table \<Rightarrow> val_table panics" where
  "DfgValues_detach_use u I V =
     do { d \<leftarrow> vec_get (uses V) u;
          let prev = u_prev d;
          let next = u_next d;
          let was_attached = attached d;
          V \<leftarrow> upd_use u (\<lambda>d. d\<lparr>u_prev := None, u_next := None, attached := False\<rparr>) V;
          (if \<not> was_attached then Some V
           else (case (next, prev) of
             (None, None) \<Rightarrow>
               do { v \<leftarrow> DfgValues_use_to_value V u I;
                    upd_def v (\<lambda>d. d\<lparr>uses_head := None, uses_tail := None\<rparr>) V }
           | (Some n, Some p) \<Rightarrow>
               do { V \<leftarrow> upd_use n (\<lambda>d. d\<lparr>u_prev := prev\<rparr>) V;
                    upd_use p (\<lambda>d. d\<lparr>u_next := next\<rparr>) V }
           | (Some n, None) \<Rightarrow>
               do { v \<leftarrow> DfgValues_use_to_value V u I;
                    V \<leftarrow> upd_def v (\<lambda>d. d\<lparr>uses_head := Some n\<rparr>) V;
                    upd_use n (\<lambda>d. d\<lparr>u_prev := None\<rparr>) V }
           | (None, Some p) \<Rightarrow>
               do { v \<leftarrow> DfgValues_use_to_value V u I;
                    V \<leftarrow> upd_def v (\<lambda>d. d\<lparr>uses_tail := Some p\<rparr>) V;
                    upd_use p (\<lambda>d. d\<lparr>u_next := None\<rparr>) V })) }"

definition DfgValues_is_use_detachted :: "val_table \<Rightarrow> mir_use \<Rightarrow> bool panics" where
  "DfgValues_is_use_detachted V u = map_option (\<lambda>d. \<not> attached d) (vec_get (uses V) u)"

definition DfgValues_attach_use :: "mir_use \<Rightarrow> mir_value \<Rightarrow> val_table \<Rightarrow> val_table panics" where
  "DfgValues_attach_use u v V =
     do { detached \<leftarrow> DfgValues_is_use_detachted V u;
          _ \<leftarrow> rust_assert detached;
          V \<leftarrow> upd_use u (\<lambda>d. d\<lparr>attached := True\<rparr>) V;
          def \<leftarrow> vec_get (defs V) v;
          V \<leftarrow> (case uses_head def of
                 Some old_head \<Rightarrow>
                   do { V \<leftarrow> upd_use u (\<lambda>d. d\<lparr>u_next := Some old_head\<rparr>) V;
                        upd_use old_head (\<lambda>d. d\<lparr>u_prev := Some u\<rparr>) V }
               | None \<Rightarrow> upd_def v (\<lambda>d. d\<lparr>uses_tail := Some u\<rparr>) V);
          upd_def v (\<lambda>d. d\<lparr>uses_head := Some u\<rparr>) V }"

definition DfgInsts_operands :: "inst_table \<Rightarrow> inst \<Rightarrow> mir_use list panics" where
  "DfgInsts_operands I i = vec_get (inst_operands I) i"

definition DfgValues_detach_operand :: "inst \<Rightarrow> nat \<Rightarrow> inst_table \<Rightarrow> val_table \<Rightarrow> val_table panics" where
  "DfgValues_detach_operand i arg I V =
     do { us \<leftarrow> DfgInsts_operands I i; u \<leftarrow> vec_get us arg; DfgValues_detach_use u I V }"


section \<open>Instructions and the graph\<close>

definition DfgInsts_zap :: "inst \<Rightarrow> inst_table \<Rightarrow> val_table \<Rightarrow> val_table panics" where
  "DfgInsts_zap i I V =
     do { us \<leftarrow> DfgInsts_operands I i;
          fold (\<lambda>u V. Option.bind V (DfgValues_detach_use u I)) us (Some V) }"

definition DfgInsts_results :: "inst_table \<Rightarrow> inst \<Rightarrow> mir_value list panics" where
  "DfgInsts_results I i = vec_get (inst_results I) i"

definition DfgInsts_first_result :: "inst_table \<Rightarrow> inst \<Rightarrow> mir_value panics" where
  "DfgInsts_first_result I i = do { rs \<leftarrow> DfgInsts_results I i; vec_get rs 0 }"

definition DfgInsts_has_results :: "inst_table \<Rightarrow> inst \<Rightarrow> bool panics" where
  "DfgInsts_has_results I i = map_option (\<lambda>rs. rs \<noteq> []) (DfgInsts_results I i)"

text \<open>\<open>results.iter().all(..)\<close> stops at the first result that has a use.\<close>

fun all_dead :: "val_table \<Rightarrow> mir_value list \<Rightarrow> bool panics" where
  "all_dead V [] = Some True"
| "all_dead V (r # rs) = do { d \<leftarrow> DfgValues_is_dead V r; if d then all_dead V rs else Some False }"

definition DfgInsts_safe_to_remove :: "inst_table \<Rightarrow> inst \<Rightarrow> val_table \<Rightarrow> bool panics" where
  "DfgInsts_safe_to_remove I i V = do { rs \<leftarrow> DfgInsts_results I i; all_dead V rs }"

definition upd_results :: "inst \<Rightarrow> (mir_value list \<Rightarrow> mir_value list) \<Rightarrow> inst_table \<Rightarrow> inst_table panics" where
  "upd_results i f I = do { rs \<leftarrow> vec_get (inst_results I) i; Some (I\<lparr>inst_results := (inst_results I)[i := f rs]\<rparr>) }"

definition upd_operands :: "inst \<Rightarrow> (mir_use list \<Rightarrow> mir_use list) \<Rightarrow> inst_table \<Rightarrow> inst_table panics" where
  "upd_operands i f I = do { us \<leftarrow> vec_get (inst_operands I) i; Some (I\<lparr>inst_operands := (inst_operands I)[i := f us]\<rparr>) }"

definition DfgInsts_clear_results :: "inst \<Rightarrow> inst_table \<Rightarrow> inst_table panics" where
  "DfgInsts_clear_results i I = upd_results i (\<lambda>_. []) I"

text \<open>\<open>ListHandle::take\<close> leaves the empty list.\<close>

definition DfgInsts_detach_results :: "inst \<Rightarrow> inst_table \<Rightarrow> (inst_table \<times> mir_value list) panics" where
  "DfgInsts_detach_results i I =
     do { rs \<leftarrow> vec_get (inst_results I) i; I \<leftarrow> upd_results i (\<lambda>_. []) I; Some (I, rs) }"

definition Dfg_value_attached :: "dfg \<Rightarrow> mir_value \<Rightarrow> bool panics" where
  "Dfg_value_attached D v =
     do { d \<leftarrow> vec_get (defs (d_values D)) v;
          (case v_ty d of
             VInst num i \<Rightarrow> do { rs \<leftarrow> DfgInsts_results (d_insts D) i; Some (vec_get rs num = Some v) }
           | _ \<Rightarrow> Some False) }"

definition u16_MAX :: nat where
  "u16_MAX = 2 ^ 16 - 1"

definition Dfg_append_result :: "inst \<Rightarrow> nat option \<Rightarrow> dfg \<Rightarrow> (dfg \<times> mir_value) panics" where
  "Dfg_append_result i tag D =
     do { let res = length (defs (d_values D));
          rs \<leftarrow> DfgInsts_results (d_insts D) i;
          let num = length rs;
          I \<leftarrow> upd_results i (\<lambda>rs. rs @ [res]) (d_insts D);
          _ \<leftarrow> rust_assert (num \<le> u16_MAX);
          let (V, v) = DfgValues_make (VInst num i) tag (d_values D);
          Some (D\<lparr>d_insts := I, d_values := V\<rparr>, v) }"

definition Dfg_attach_result :: "inst \<Rightarrow> mir_value \<Rightarrow> dfg \<Rightarrow> dfg panics" where
  "Dfg_attach_result i res D =
     do { a \<leftarrow> Dfg_value_attached D res;
          _ \<leftarrow> rust_assert (\<not> a);
          rs \<leftarrow> DfgInsts_results (d_insts D) i;
          let num = length rs;
          I \<leftarrow> upd_results i (\<lambda>rs. rs @ [res]) (d_insts D);
          _ \<leftarrow> rust_assert (num \<le> u16_MAX);
          V \<leftarrow> upd_def res (\<lambda>d. d\<lparr>v_ty := VInst num i\<rparr>) (d_values D);
          Some (D\<lparr>d_insts := I, d_values := V\<rparr>) }"

definition Dfg_func_ref :: "dfg \<Rightarrow> inst \<Rightarrow> func_ref option panics" where
  "Dfg_func_ref D i =
     do { d \<leftarrow> vec_get (declarations (d_insts D)) i; Some (case d of Call f _ \<Rightarrow> Some f | _ \<Rightarrow> None) }"

definition Dfg_as_branch :: "dfg \<Rightarrow> inst \<Rightarrow> (mir_value \<times> block \<times> block) option panics" where
  "Dfg_as_branch D i =
     do { d \<leftarrow> vec_get (declarations (d_insts D)) i;
          Some (case d of Branch c t e _ \<Rightarrow> Some (c, t, e) | _ \<Rightarrow> None) }"

definition Dfg_call_signature :: "dfg \<Rightarrow> inst \<Rightarrow> signature option panics" where
  "Dfg_call_signature D i =
     do { f \<leftarrow> Dfg_func_ref D i;
          (case f of None \<Rightarrow> Some None | Some f \<Rightarrow> map_option Some (vec_get (d_signatures D) f)) }"

text \<open>The results of a new instruction; \<open>reuse\<close> offers detached values first.\<close>

fun make_results_loop :: "inst \<Rightarrow> nat \<Rightarrow> mir_value option list \<Rightarrow> dfg \<Rightarrow> dfg panics" where
  "make_results_loop i 0 reuse D = Some D"
| "make_results_loop i (Suc n) reuse D =
     (case reuse of
        Some v # reuse \<Rightarrow> do { D \<leftarrow> Dfg_attach_result i v D; make_results_loop i n reuse D }
      | None # reuse \<Rightarrow> do { (D, _) \<leftarrow> Dfg_append_result i None D; make_results_loop i n reuse D }
      | [] \<Rightarrow> do { (D, _) \<leftarrow> Dfg_append_result i None D; make_results_loop i n [] D })"

definition Dfg_make_inst_results_reusing :: "inst \<Rightarrow> mir_value option list \<Rightarrow> dfg \<Rightarrow> (dfg \<times> nat) panics" where
  "Dfg_make_inst_results_reusing i reuse D =
     do { I \<leftarrow> DfgInsts_clear_results i (d_insts D);
          let D = D\<lparr>d_insts := I\<rparr>;
          sig \<leftarrow> Dfg_call_signature D i;
          n \<leftarrow> (case sig of
                  Some sig \<Rightarrow> Some (sig_returns sig)
                | None \<Rightarrow>
                    do { d \<leftarrow> vec_get (declarations (d_insts D)) i;
                         c \<leftarrow> Opcode_constraints (InstructionData_opcode d);
                         Some (num_fixed_results c) });
          D \<leftarrow> make_results_loop i n reuse D;
          Some (D, n) }"

definition Dfg_make_inst_results :: "inst \<Rightarrow> dfg \<Rightarrow> (dfg \<times> nat) panics" where
  "Dfg_make_inst_results i D = Dfg_make_inst_results_reusing i [] D"

text \<open>Uses for the arguments from position \<open>k\<close> on; a position is stored in 16 bits.\<close>

fun make_uses_loop :: "inst \<Rightarrow> nat \<Rightarrow> mir_value list \<Rightarrow> val_table \<Rightarrow> (val_table \<times> mir_use list) panics" where
  "make_uses_loop i k [] V = Some (V, [])"
| "make_uses_loop i k (v # vs) V =
     do { (V, u) \<leftarrow> DfgValues_make_use v i (k mod 2 ^ 16) V;
          (V, us) \<leftarrow> make_uses_loop i (k + 1) vs V;
          Some (V, u # us) }"

definition Dfg_make_inst :: "instruction_data \<Rightarrow> dfg \<Rightarrow> (dfg \<times> inst) panics" where
  "Dfg_make_inst data D =
     do { let I = d_insts D;
          let i = length (declarations I);
          let I = I\<lparr>inst_operands := inst_operands I @ [[]], inst_results := inst_results I @ [[]],
                    declarations := declarations I @ [data]\<rparr>;
          (V, us) \<leftarrow> make_uses_loop i 0 (InstructionData_arguments data) (d_values D);
          I \<leftarrow> upd_operands i (\<lambda>old. old @ us) I;
          Some (D\<lparr>d_insts := I, d_values := V\<rparr>, i) }"

definition Dfg_zap_inst :: "inst \<Rightarrow> dfg \<Rightarrow> dfg panics" where
  "Dfg_zap_inst i D = do { V \<leftarrow> DfgInsts_zap i (d_insts D) (d_values D); Some (D\<lparr>d_values := V\<rparr>) }"

text \<open>
  The uses of an instruction are reattached to its arguments, as far as both go; then uses for the
  remaining arguments are made, or the remaining uses dropped.
\<close>

fun attach_uses_loop :: "mir_use list \<Rightarrow> mir_value list \<Rightarrow> val_table \<Rightarrow> val_table panics" where
  "attach_uses_loop (u # us) (v # vs) V = do { V \<leftarrow> DfgValues_attach_use u v V; attach_uses_loop us vs V }"
| "attach_uses_loop us vs V = Some V"

definition Dfg_update_inst_uses :: "inst \<Rightarrow> dfg \<Rightarrow> dfg panics" where
  "Dfg_update_inst_uses i D =
     do { data \<leftarrow> vec_get (declarations (d_insts D)) i;
          us \<leftarrow> DfgInsts_operands (d_insts D) i;
          let args = InstructionData_arguments data;
          V \<leftarrow> attach_uses_loop us args (d_values D);
          (if length args > length us then
             do { (V, new) \<leftarrow> make_uses_loop i (length us) (drop (length us) args) V;
                  I \<leftarrow> upd_operands i (\<lambda>old. old @ new) (d_insts D);
                  Some (D\<lparr>d_insts := I, d_values := V\<rparr>) }
           else
             do { I \<leftarrow> upd_operands i (take (length args)) (d_insts D);
                  Some (D\<lparr>d_insts := I, d_values := V\<rparr>) }) }"

definition Dfg_update_inst :: "inst \<Rightarrow> instruction_data \<Rightarrow> dfg \<Rightarrow> dfg panics" where
  "Dfg_update_inst i data D =
     do { D \<leftarrow> Dfg_zap_inst i D;
          decls \<leftarrow> vec_set (declarations (d_insts D)) i data;
          Dfg_update_inst_uses i (D\<lparr>d_insts := (d_insts D)\<lparr>declarations := decls\<rparr>\<rparr>) }"

definition Dfg_has_sideeffects :: "dfg \<Rightarrow> inst \<Rightarrow> bool \<Rightarrow> bool panics" where
  "Dfg_has_sideeffects D i keep_branches =
     do { d \<leftarrow> vec_get (declarations (d_insts D)) i;
          (case d of
             Branch _ _ _ _ \<Rightarrow> Some keep_branches
           | Jump _ \<Rightarrow> Some keep_branches
           | Exit \<Rightarrow> Some keep_branches
           | Call f _ \<Rightarrow> map_option sig_has_sideeffects (vec_get (d_signatures D) f)
           | _ \<Rightarrow> Some False) }"

definition Dfg_inst_dead :: "dfg \<Rightarrow> inst \<Rightarrow> bool \<Rightarrow> bool panics" where
  "Dfg_inst_dead D i keep_branches =
     do { safe \<leftarrow> DfgInsts_safe_to_remove (d_insts D) i (d_values D);
          if safe then map_option Not (Dfg_has_sideeffects D i keep_branches) else Some False }"

definition Dfg_use_set_value :: "mir_use \<Rightarrow> mir_value \<Rightarrow> dfg \<Rightarrow> dfg panics" where
  "Dfg_use_set_value u v D =
     do { detached \<leftarrow> DfgValues_is_use_detachted (d_values D) u;
          _ \<leftarrow> rust_assert (\<not> detached);
          V \<leftarrow> DfgValues_detach_use u (d_insts D) (d_values D);
          data \<leftarrow> vec_get (uses V) u;
          I \<leftarrow> DfgInsts_set_arg (parent data) (parent_idx data) v (d_insts D);
          V \<leftarrow> DfgValues_attach_use u v V;
          Some (D\<lparr>d_insts := I, d_values := V\<rparr>) }"

definition Dfg_set_operand_value :: "mir_value \<Rightarrow> inst \<Rightarrow> nat \<Rightarrow> dfg \<Rightarrow> dfg panics" where
  "Dfg_set_operand_value v i pos D =
     do { us \<leftarrow> DfgInsts_operands (d_insts D) i; u \<leftarrow> vec_get us pos; Dfg_use_set_value u v D }"

partial_function (option) replace_uses_loop ::
    "mir_value \<Rightarrow> val_table \<Rightarrow> mir_use option \<Rightarrow> inst_table \<Rightarrow> inst_table option" where
  "replace_uses_loop src V cur I =
     do { (u, cur) \<leftarrow> UseCursor_advance V cur;
          (case u of
             None \<Rightarrow> Some I
           | Some u \<Rightarrow> do { I \<leftarrow> DfgValues_set_use_value V u src I; replace_uses_loop src V cur I }) }"

definition Dfg_replace_uses :: "mir_value \<Rightarrow> mir_value \<Rightarrow> dfg \<Rightarrow> dfg panics" where
  "Dfg_replace_uses dst src D =
     do { _ \<leftarrow> rust_assert (dst \<noteq> src);
          let V = d_values D;
          src_tag \<leftarrow> DfgValues_tag V src;
          V \<leftarrow> (if src_tag = None then do { tag \<leftarrow> DfgValues_tag V dst; DfgValues_set_tag src tag V } else Some V);
          cur \<leftarrow> DfgValues_uses_head_cursor V dst;
          I \<leftarrow> replace_uses_loop src V cur (d_insts D);
          def \<leftarrow> vec_get (defs V) dst;
          V \<leftarrow> upd_def dst (\<lambda>d. d\<lparr>uses_head := None\<rparr>) V;
          V \<leftarrow> (case uses_head def of
                 None \<Rightarrow> Some V
               | Some new_head \<Rightarrow>
                   do { sd \<leftarrow> vec_get (defs V) src;
                        V \<leftarrow> (case uses_head sd of
                               Some old_head \<Rightarrow>
                                 do { old_tail \<leftarrow> uses_tail def;
                                      V \<leftarrow> upd_use old_tail (\<lambda>d. d\<lparr>u_next := Some old_head\<rparr>) V;
                                      upd_use old_head (\<lambda>d. d\<lparr>u_prev := Some old_tail\<rparr>) V }
                             | None \<Rightarrow> upd_def src (\<lambda>d. d\<lparr>uses_tail := uses_tail def\<rparr>) V);
                        V \<leftarrow> upd_def dst (\<lambda>d. d\<lparr>uses_tail := None\<rparr>) V;
                        upd_def src (\<lambda>d. d\<lparr>uses_head := Some new_head\<rparr>) V });
          Some (D\<lparr>d_insts := I, d_values := V\<rparr>) }"

text \<open>The alias chain of a value: the values on it, and where it ends.\<close>

partial_function (option) strip_alias_chain ::
    "val_table \<Rightarrow> mir_value list \<Rightarrow> mir_value \<Rightarrow> (mir_value list \<times> mir_value) option" where
  "strip_alias_chain V stack v =
     do { d \<leftarrow> vec_get (defs V) v;
          (case v_ty d of
             VAlias alias \<Rightarrow> strip_alias_chain V (stack @ [v]) alias
           | _ \<Rightarrow> Some (stack, v)) }"

definition strip_alias_one :: "mir_value \<Rightarrow> dfg \<Rightarrow> dfg option" where
  "strip_alias_one v D =
     do { (stack, root) \<leftarrow> strip_alias_chain (d_values D) [] v;
          (case stack of
             [] \<Rightarrow> Some D
           | first # rest \<Rightarrow>
               do { D \<leftarrow> Dfg_replace_uses first root D;
                    V \<leftarrow> fold (\<lambda>it V. Option.bind V (upd_def it (\<lambda>d. d\<lparr>v_ty := VAlias root\<rparr>)))
                            rest (Some (d_values D));
                    Some (D\<lparr>d_values := V\<rparr>) }) }"

definition Dfg_strip_alias_after :: "nat \<Rightarrow> dfg \<Rightarrow> dfg option" where
  "Dfg_strip_alias_after old_num_vals D =
     fold (\<lambda>v D. Option.bind D (strip_alias_one v)) [old_num_vals..<length (defs (d_values D))] (Some D)"

definition Dfg_strip_alias :: "dfg \<Rightarrow> dfg option" where
  "Dfg_strip_alias D = Dfg_strip_alias_after 0 D"


section \<open>Iterators over uses\<close>

text \<open>\<open>UseIter\<close> is a cursor that advances; \<open>DoubleEndedUseIter\<close> is a pair of ends.\<close>

definition DfgValues_uses :: "val_table \<Rightarrow> mir_value \<Rightarrow> mir_use option panics" where
  "DfgValues_uses V v = DfgValues_uses_head_cursor V v"

definition UseIter_next :: "val_table \<Rightarrow> mir_use option \<Rightarrow> (mir_use option \<times> mir_use option) panics" where
  "UseIter_next V cur = UseCursor_advance V cur"

type_synonym use_ends = "mir_use option \<times> mir_use option"

definition DfgValues_uses_double_ended :: "val_table \<Rightarrow> mir_value \<Rightarrow> use_ends panics" where
  "DfgValues_uses_double_ended V v = map_option (\<lambda>d. (uses_head d, uses_tail d)) (vec_get (defs V) v)"

definition DoubleEndedUseIter_next :: "val_table \<Rightarrow> use_ends \<Rightarrow> (mir_use option \<times> use_ends) panics" where
  "DoubleEndedUseIter_next V it =
     (let (head, tail) = it in
      case head of
        None \<Rightarrow> Some (None, it)
      | Some u \<Rightarrow>
          if head = tail then Some (Some u, (None, None))
          else do { n \<leftarrow> Use_next u V; Some (Some u, (n, tail)) })"

definition DoubleEndedUseIter_next_back :: "val_table \<Rightarrow> use_ends \<Rightarrow> (mir_use option \<times> use_ends) panics" where
  "DoubleEndedUseIter_next_back V it =
     (let (head, tail) = it in
      case tail of
        None \<Rightarrow> Some (None, it)
      | Some u \<Rightarrow>
          if head = tail then Some (Some u, (None, None))
          else do { p \<leftarrow> Use_prev u V; Some (Some u, (head, p)) })"

text \<open>
  \<open>InstUseIter\<close>, the uses of all results of an instruction: the results still to come and the
  cursor in the current chain. A chain at its end moves on to the next result that has a use.
\<close>

type_synonym inst_use_iter = "mir_value list \<times> mir_use option"

fun next_chain :: "val_table \<Rightarrow> mir_value list \<Rightarrow> mir_use option \<Rightarrow> (mir_use option \<times> inst_use_iter) panics" where
  "next_chain V [] cur = Some (None, ([], cur))"
| "next_chain V (v # vs) cur =
     do { cur \<leftarrow> DfgValues_uses_head_cursor V v;
          (res, cur) \<leftarrow> UseCursor_advance V cur;
          (case res of Some u \<Rightarrow> Some (Some u, (vs, cur)) | None \<Rightarrow> next_chain V vs cur) }"

definition InstUseIter_next :: "val_table \<Rightarrow> inst_use_iter \<Rightarrow> (mir_use option \<times> inst_use_iter) panics" where
  "InstUseIter_next V it =
     (let (vals, cur) = it in
      do { (res, cur) \<leftarrow> UseCursor_advance V cur;
           (case res of Some u \<Rightarrow> Some (Some u, (vals, cur)) | None \<Rightarrow> next_chain V vals cur) })"

definition Dfg_inst_uses :: "dfg \<Rightarrow> inst \<Rightarrow> inst_use_iter panics" where
  "Dfg_inst_uses D i =
     do { rs \<leftarrow> DfgInsts_results (d_insts D) i;
          (case rs of
             [] \<Rightarrow> Some ([], None)
           | r # rs \<Rightarrow> do { cur \<leftarrow> DfgValues_uses_head_cursor (d_values D) r; Some (rs, cur) }) }"

section \<open>The graph as a whole\<close>

definition DfgInsts_new :: inst_table where
  "DfgInsts_new = \<lparr>declarations = [], inst_results = [], inst_operands = []\<rparr>"

definition DfgInsts_clear :: "inst_table \<Rightarrow> inst_table" where
  "DfgInsts_clear I = I\<lparr>declarations := [], inst_results := [], inst_operands := []\<rparr>"

definition DfgInsts_num :: "inst_table \<Rightarrow> nat" where
  "DfgInsts_num I = length (declarations I)"

definition DfgInsts_is_valid :: "inst_table \<Rightarrow> inst \<Rightarrow> bool" where
  "DfgInsts_is_valid I i \<longleftrightarrow> i < length (declarations I)"

definition Dfg_new :: "dfg panics" where
  "Dfg_new = do { V \<leftarrow> DfgValues_new; Some \<lparr>d_insts = DfgInsts_new, d_values = V, d_signatures = []\<rparr> }"

definition Dfg_clear :: "dfg \<Rightarrow> dfg" where
  "Dfg_clear D = \<lparr>d_insts = DfgInsts_clear (d_insts D), d_values = DfgValues_clear (d_values D), d_signatures = []\<rparr>"

text \<open>The value constructors of the graph forward to the value table.\<close>

definition on_values :: "(val_table \<Rightarrow> val_table \<times> mir_value) \<Rightarrow> dfg \<Rightarrow> dfg \<times> mir_value" where
  "on_values f D = (let (V, v) = f (d_values D) in (D\<lparr>d_values := V\<rparr>, v))"

definition Dfg_make_param :: "nat \<Rightarrow> dfg \<Rightarrow> dfg \<times> mir_value" where
  "Dfg_make_param p = on_values (DfgValues_make_param p)"

definition Dfg_make_invalid_value :: "dfg \<Rightarrow> dfg \<times> mir_value" where
  "Dfg_make_invalid_value = on_values (DfgValues_make VInvalid None)"

definition Dfg_iconst :: "u32 \<Rightarrow> dfg \<Rightarrow> dfg \<times> mir_value" where
  "Dfg_iconst x = on_values (DfgValues_iconst x)"

definition Dfg_fconst :: "u64 \<Rightarrow> dfg \<Rightarrow> dfg \<times> mir_value" where
  "Dfg_fconst x = on_values (DfgValues_fconst x)"

definition Dfg_sconst :: "nat \<Rightarrow> dfg \<Rightarrow> dfg \<times> mir_value" where
  "Dfg_sconst x = on_values (DfgValues_sconst x)"

definition Dfg_bconst :: "bool \<Rightarrow> mir_value" where
  "Dfg_bconst b = (if b then TRUE else FALSE)"

definition Dfg_make_operand :: "mir_value \<Rightarrow> inst \<Rightarrow> nat \<Rightarrow> dfg \<Rightarrow> dfg panics" where
  "Dfg_make_operand v i pos D =
     do { (V, u) \<leftarrow> DfgValues_make_use v i pos (d_values D);
          us \<leftarrow> DfgInsts_operands (d_insts D) i;
          I \<leftarrow> upd_operands i (\<lambda>us. us @ [u]) (d_insts D);
          _ \<leftarrow> rust_assert (pos = length us);
          Some (D\<lparr>d_insts := I, d_values := V\<rparr>) }"

definition Dfg_detach_operand :: "inst \<Rightarrow> nat \<Rightarrow> dfg \<Rightarrow> dfg panics" where
  "Dfg_detach_operand i pos D =
     do { us \<leftarrow> DfgInsts_operands (d_insts D) i;
          u \<leftarrow> vec_get us pos;
          V \<leftarrow> DfgValues_detach_use u (d_insts D) (d_values D);
          Some (D\<lparr>d_values := V\<rparr>) }"

definition Dfg_attach_operand :: "inst \<Rightarrow> nat \<Rightarrow> dfg \<Rightarrow> dfg panics" where
  "Dfg_attach_operand i pos D =
     do { us \<leftarrow> DfgInsts_operands (d_insts D) i;
          u \<leftarrow> vec_get us pos;
          args \<leftarrow> DfgInsts_args (d_insts D) i;
          v \<leftarrow> vec_get args pos;
          V \<leftarrow> DfgValues_attach_use u v (d_values D);
          Some (D\<lparr>d_values := V\<rparr>) }"

section \<open>The chains of uses\<close>

definition unext :: "val_table \<Rightarrow> mir_use \<Rightarrow> mir_use option" where
  "unext V u = u_next (uses V ! u)"

definition uprev :: "val_table \<Rightarrow> mir_use \<Rightarrow> mir_use option" where
  "uprev V u = u_prev (uses V ! u)"

definition uhead :: "val_table \<Rightarrow> mir_value \<Rightarrow> mir_use option" where
  "uhead V v = uses_head (defs V ! v)"

definition utail :: "val_table \<Rightarrow> mir_value \<Rightarrow> mir_use option" where
  "utail V v = uses_tail (defs V ! v)"

lemmas chain_defs = unext_def uprev_def uhead_def utail_def

text \<open>
  \<open>U v\<close> is the chain of uses of \<open>v\<close>: the attached uses whose operand is \<open>v\<close>. A use in no chain is
  detached and has no links.
\<close>

definition Chains_ok :: "val_table \<Rightarrow> inst_table \<Rightarrow> (mir_value \<Rightarrow> mir_use list) \<Rightarrow> bool" where
  "Chains_ok V I U \<longleftrightarrow>
     (\<forall>v < length (defs V). dll (unext V) (uprev V) (uhead V v) (utail V v) (U v)) \<and>
     (\<forall>v. \<forall>u \<in> set (U v). v < length (defs V) \<and> u < length (uses V) \<and> attached (uses V ! u) \<and>
        DfgValues_use_to_value V u I = Some v) \<and>
     (\<forall>u < length (uses V). (\<forall>v. u \<notin> set (U v)) \<longrightarrow>
        \<not> attached (uses V ! u) \<and> unext V u = None \<and> uprev V u = None)"

lemma chain:
  assumes "Chains_ok V I U" "v < length (defs V)"
  shows "dll (unext V) (uprev V) (uhead V v) (utail V v) (U v)" "distinct (U v)"
    "uhead V v = first_of (U v) None" "utail V v = last_of None (U v)"
proof -
  show d: "dll (unext V) (uprev V) (uhead V v) (utail V v) (U v)"
    using assms by (simp add: Chains_ok_def)
  then show "distinct (U v)" "uhead V v = first_of (U v) None" "utail V v = last_of None (U v)"
    by (simp_all add: dll_def)
qed

lemma in_chain:
  assumes "Chains_ok V I U" "u \<in> set (U v)"
  shows "v < length (defs V)" "u < length (uses V)" "attached (uses V ! u)"
    "DfgValues_use_to_value V u I = Some v"
proof -
  have "\<forall>u \<in> set (U v). v < length (defs V) \<and> u < length (uses V) \<and> attached (uses V ! u) \<and>
      DfgValues_use_to_value V u I = Some v"
    using assms(1) by (simp add: Chains_ok_def)
  with assms(2) show "v < length (defs V)" "u < length (uses V)" "attached (uses V ! u)"
    "DfgValues_use_to_value V u I = Some v" by blast+
qed

lemma one_chain:
  "Chains_ok V I U \<Longrightarrow> u \<in> set (U v) \<Longrightarrow> u \<in> set (U w) \<Longrightarrow> v = w"
  using in_chain(4) [of V I U u v] in_chain(4) [of V I U u w] by simp

lemma no_chain:
  assumes "Chains_ok V I U" "u < length (uses V)" "\<forall>v. u \<notin> set (U v)"
  shows "\<not> attached (uses V ! u)" "unext V u = None" "uprev V u = None"
  using assms by (simp_all add: Chains_ok_def)

lemma in_chain_iff_attached:
  assumes "Chains_ok V I U" "u < length (uses V)"
  shows "attached (uses V ! u) \<longleftrightarrow> (\<exists>v. u \<in> set (U v))"
  using in_chain(3) [OF assms(1)] no_chain(1) [OF assms] by blast

text \<open>
  What is left to show once an operation has changed the chain of one value to \<open>zs\<close>: the links of
  the other chains, the operands and the flags are as before.
\<close>

lemma rechained_ok:
  assumes "Chains_ok V I U" "v < length (defs V)"
    and "length (defs V') = length (defs V)" "length (uses V) \<le> length (uses V')"
    and "dll (unext V') (uprev V') (uhead V' v) (utail V' v) zs"
    and "\<And>x. x \<noteq> v \<Longrightarrow> x < length (defs V) \<Longrightarrow> defs V' ! x = defs V ! x"
    and "\<And>w x. w \<in> set (U x) \<Longrightarrow> x \<noteq> v \<Longrightarrow> uses V' ! w = uses V ! w"
    and "\<And>w. w \<in> set zs \<Longrightarrow> w < length (uses V') \<and> attached (uses V' ! w) \<and> DfgValues_use_to_value V' w I = Some v \<and>
        (\<forall>x. x \<noteq> v \<longrightarrow> w \<notin> set (U x))"
    and "\<And>w. w < length (uses V') \<Longrightarrow> w \<notin> set zs \<Longrightarrow> \<forall>x. x \<noteq> v \<longrightarrow> w \<notin> set (U x) \<Longrightarrow>
        \<not> attached (uses V' ! w) \<and> unext V' w = None \<and> uprev V' w = None"
  shows "Chains_ok V' I (U(v := zs))"
proof -
  have "dll (unext V') (uprev V') (uhead V' x) (utail V' x) (U x)" if "x < length (defs V)" "x \<noteq> v" for x
    using chain(1) [OF assms(1) that(1)] assms(7) [OF _ that(2)] assms(6) [OF that(2,1)]
    by (subst dll_cong [of "U x" "unext V'" "unext V" "uprev V'" "uprev V"]) (auto simp: chain_defs)
  moreover have "x < length (defs V') \<and> w < length (uses V') \<and> attached (uses V' ! w) \<and>
      DfgValues_use_to_value V' w I = Some x" if "w \<in> set (U x)" "x \<noteq> v" for w x
    using in_chain [OF assms(1) that(1)] assms(7) [OF that] assms(3,4)
    by (auto simp: DfgValues_use_to_value_def vec_get_def split: if_splits)
  ultimately show ?thesis
    using assms(2,3,5,8,9) unfolding Chains_ok_def by auto
qed

lemma Chains_ok_insts:
  assumes "Chains_ok V I U" "\<And>v u. u \<in> set (U v) \<Longrightarrow> DfgValues_use_to_value V u I' = DfgValues_use_to_value V u I"
  shows "Chains_ok V I' U"
  using assms unfolding Chains_ok_def by simp

text \<open>A use in no chain is put in front of a chain.\<close>

lemma pushed_use_ok:
  assumes ok: "Chains_ok V I U" and v: "v < length (defs V)" and new: "\<forall>x. u \<notin> set (U x)"
    and u: "u < length (uses V')" "\<And>w. w < length (uses V') \<Longrightarrow> w \<noteq> u \<Longrightarrow> w < length (uses V)"
    and len: "length (defs V') = length (defs V)" "length (uses V) \<le> length (uses V')"
    and defs: "\<And>x. x < length (defs V) \<Longrightarrow> defs V' ! x = (if x = v then (defs V ! v)
        \<lparr>uses_head := Some u, uses_tail := (if U v = [] then Some u else uses_tail (defs V ! v))\<rparr> else defs V ! x)"
    and uses: "\<And>w. w < length (uses V') \<Longrightarrow> w \<noteq> u \<Longrightarrow> uses V' ! w =
        (if first_of (U v) None = Some w then (uses V ! w)\<lparr>u_prev := Some u\<rparr> else uses V ! w)"
    and the: "attached (uses V' ! u)" "u_next (uses V' ! u) = first_of (U v) None" "u_prev (uses V' ! u) = None"
      "DfgValues_use_to_value V' u I = Some v"
  shows "Chains_ok V' I (U(v := u # U v))"
proof (rule rechained_ok [OF ok v len])
  have lt: "w < length (uses V')" "w \<noteq> u" if "w \<in> set (U x)" for w x
    using in_chain(2) [OF ok that] new that len(2) by auto
  have "dll ((unext V)(u := first_of (U v) None)) ((link_opt (first_of (U v) None) (Some u) (uprev V))(u := None))
      (Some u) (if U v = [] then Some u else utail V v) (u # U v)"
    using dll_insert [of "unext V" "uprev V" "uhead V v" "utail V v" "[]" "U v" u] chain(1) [OF ok v] new by simp
  moreover have "uhead V' v = Some u" "utail V' v = (if U v = [] then Some u else utail V v)"
    using v defs by (simp_all add: chain_defs)
  moreover have "unext V' w = ((unext V)(u := first_of (U v) None)) w \<and>
      uprev V' w = ((link_opt (first_of (U v) None) (Some u) (uprev V))(u := None)) w"
    if "w \<in> set (u # U v)" for w
  proof (cases "w = u")
    case True
    then show ?thesis using the by (simp add: chain_defs)
  next
    case False
    then have "w \<in> set (U v)" using that by simp
    then show ?thesis
      using uses [OF lt] False by (cases "first_of (U v) None") (auto simp: chain_defs)
  qed
  ultimately show "dll (unext V') (uprev V') (uhead V' v) (utail V' v) (u # U v)"
    by (rule dll_congI)
  show "uses V' ! w = uses V ! w" if "w \<in> set (U x)" "x \<noteq> v" for w x
    using uses [OF lt [OF that(1)]] one_chain [OF ok that(1)] that(2) first_of_SomeD [of "U v" w] by auto
  show "w < length (uses V') \<and> attached (uses V' ! w) \<and> DfgValues_use_to_value V' w I = Some v \<and>
      (\<forall>x. x \<noteq> v \<longrightarrow> w \<notin> set (U x))" if "w \<in> set (u # U v)" for w
  proof (cases "w = u")
    case False
    then have w: "w \<in> set (U v)" using that by simp
    note inw = in_chain [OF ok w] and uw = uses [OF lt [OF w]]
    have "DfgValues_use_to_value V' w I = Some v"
      using inw(2,4) lt(1) [OF w] uw by (auto simp: DfgValues_use_to_value_def split: if_splits)
    then show ?thesis using one_chain [OF ok w] lt(1) [OF w] inw uw by auto
  qed (use u the new in auto)
  show "\<not> attached (uses V' ! w) \<and> unext V' w = None \<and> uprev V' w = None"
    if "w < length (uses V')" "w \<notin> set (u # U v)" "\<forall>x. x \<noteq> v \<longrightarrow> w \<notin> set (U x)" for w
  proof -
    have "w \<notin> set (U x)" for x using that by (cases "x = v") auto
    then have w: "\<forall>x. w \<notin> set (U x)" "w \<noteq> u" "w < length (uses V)" using that u(2) by auto
    have "first_of (U v) None \<noteq> Some w" using w(1) by (auto dest: first_of_SomeD)
    then show ?thesis using no_chain [OF ok w(3,1)] uses [OF that(1) w(2)] by (simp add: chain_defs)
  qed
qed (use defs in auto)


lemma upd_def_in [simp]:
  "v < length (defs V) \<Longrightarrow> upd_def v f V = Some (V\<lparr>defs := (defs V)[v := f (defs V ! v)]\<rparr>)"
  by (simp add: upd_def_def)

lemma upd_use_in [simp]:
  "u < length (uses V) \<Longrightarrow> upd_use u f V = Some (V\<lparr>uses := (uses V)[u := f (uses V ! u)]\<rparr>)"
  by (simp add: upd_use_def)

lemma use_to_value_eq:
  "u < length (uses V) \<Longrightarrow> u < length (uses V') \<Longrightarrow> parent (uses V' ! u) = parent (uses V ! u) \<Longrightarrow>
    parent_idx (uses V' ! u) = parent_idx (uses V ! u) \<Longrightarrow>
    DfgValues_use_to_value V' u I = DfgValues_use_to_value V u I"
  by (simp add: DfgValues_use_to_value_def)

lemma node_heads:
  "uses_head (defs V ! v) = uhead V v" "uses_tail (defs V ! v) = utail V v"
  "u_next (uses V ! u) = unext V u" "u_prev (uses V ! u) = uprev V u"
  by (simp_all add: chain_defs)

lemma DfgValues_make_use_ok:
  assumes "Chains_ok V I U" "v < length (defs V)" "DfgInsts_args I i = Some args" "k < length args" "args ! k = v"
  shows "\<exists>V'. DfgValues_make_use v i k V = Some (V', length (uses V)) \<and>
    Chains_ok V' I (U(v := length (uses V) # U v)) \<and>
    length (defs V') = length (defs V) \<and> length (uses V') = Suc (length (uses V)) \<and>
    (\<forall>w < length (uses V). parent (uses V' ! w) = parent (uses V ! w) \<and>
       parent_idx (uses V' ! w) = parent_idx (uses V ! w)) \<and>
    parent (uses V' ! length (uses V)) = i \<and> parent_idx (uses V' ! length (uses V)) = k"
proof -
  let ?u = "length (uses V)"
  define V1 where "V1 = V\<lparr>uses := uses V @ [\<lparr>parent = i, parent_idx = k, attached = True,
      u_next = first_of (U v) None, u_prev = None\<rparr>]\<rparr>"
  define V2 where "V2 = (case first_of (U v) None of
      Some h \<Rightarrow> V1\<lparr>uses := (uses V1)[h := (uses V1 ! h)\<lparr>u_prev := Some ?u\<rparr>]\<rparr>
    | None \<Rightarrow> V1\<lparr>defs := (defs V1)[v := (defs V1 ! v)\<lparr>uses_tail := Some ?u\<rparr>]\<rparr>)"
  define V3 where "V3 = V2\<lparr>defs := (defs V2)[v := (defs V2 ! v)\<lparr>uses_head := Some ?u\<rparr>]\<rparr>"
  have hd: "uhead V v = first_of (U v) None" by (rule chain(3) [OF assms(1,2)])
  have h: "a < ?u" if "first_of (U v) None = Some a" for a
    using first_of_SomeD [OF that] in_chain(2) [OF assms(1)] by auto
  have run: "DfgValues_make_use v i k V = Some (V3, ?u)"
    using assms(2) hd h by (cases "first_of (U v) None")
      (auto simp: DfgValues_make_use_def V1_def V2_def V3_def node_heads Let_def less_SucI)
  have new: "\<forall>x. ?u \<notin> set (U x)" using in_chain(2) [OF assms(1)] by blast
  have len: "length (defs V3) = length (defs V)" "length (uses V3) = Suc ?u"
    by (auto simp: V1_def V2_def V3_def split: option.splits)
  have us: "uses V3 ! w = (if w = ?u then \<lparr>parent = i, parent_idx = k, attached = True,
      u_next = first_of (U v) None, u_prev = None\<rparr>
    else if first_of (U v) None = Some w then (uses V ! w)\<lparr>u_prev := Some ?u\<rparr> else uses V ! w)"
    if "w < Suc ?u" for w
    using that h by (cases "first_of (U v) None") (auto simp: V1_def V2_def V3_def nth_append nth_list_update)
  have "Chains_ok V3 I (U(v := ?u # U v))"
  proof (rule pushed_use_ok [OF assms(1,2) new])
    show "defs V3 ! x = (if x = v then (defs V ! v)
        \<lparr>uses_head := Some ?u, uses_tail := (if U v = [] then Some ?u else uses_tail (defs V ! v))\<rparr> else defs V ! x)"
      if "x < length (defs V)" for x
      using that assms(2) by (cases "U v") (auto simp: V1_def V2_def V3_def nth_list_update)
    show "DfgValues_use_to_value V3 ?u I = Some v"
      using us [of ?u] len assms(3-5) by (simp add: DfgValues_use_to_value_def)
  qed (use us len in auto)
  with run len us show ?thesis by auto
qed

lemma DfgValues_attach_use_ok:
  assumes "Chains_ok V I U" "v < length (defs V)" "u < length (uses V)" "\<forall>x. u \<notin> set (U x)"
    and "DfgValues_use_to_value V u I = Some v"
  shows "\<exists>V'. DfgValues_attach_use u v V = Some V' \<and> Chains_ok V' I (U(v := u # U v)) \<and>
    length (defs V') = length (defs V) \<and> length (uses V') = length (uses V) \<and>
    (\<forall>w < length (uses V). parent (uses V' ! w) = parent (uses V ! w) \<and>
       parent_idx (uses V' ! w) = parent_idx (uses V ! w))"
proof -
  note free = no_chain [OF assms(1,3,4)]
  define V1 where "V1 = V\<lparr>uses := (uses V)[u := (uses V ! u)\<lparr>attached := True\<rparr>]\<rparr>"
  define V2 where "V2 = (case first_of (U v) None of
      Some h \<Rightarrow> V1\<lparr>uses := (uses V1)[u := (uses V1 ! u)\<lparr>u_next := Some h\<rparr>, h := (uses V1 ! h)\<lparr>u_prev := Some u\<rparr>]\<rparr>
    | None \<Rightarrow> V1\<lparr>defs := (defs V1)[v := (defs V1 ! v)\<lparr>uses_tail := Some u\<rparr>]\<rparr>)"
  define V3 where "V3 = V2\<lparr>defs := (defs V2)[v := (defs V2 ! v)\<lparr>uses_head := Some u\<rparr>]\<rparr>"
  have hd: "uhead V v = first_of (U v) None" by (rule chain(3) [OF assms(1,2)])
  have h: "a < length (uses V)" "a \<noteq> u" if "first_of (U v) None = Some a" for a
    using first_of_SomeD [OF that] in_chain(2) [OF assms(1)] assms(4) by auto
  have run: "DfgValues_attach_use u v V = Some V3"
    using assms(2,3) hd h free by (cases "first_of (U v) None")
      (auto simp: DfgValues_attach_use_def DfgValues_is_use_detachted_def V1_def V2_def V3_def node_heads)
  have len: "length (defs V3) = length (defs V)" "length (uses V3) = length (uses V)"
    by (auto simp: V1_def V2_def V3_def split: option.splits)
  have us: "uses V3 ! w = (if w = u then (uses V ! u)\<lparr>attached := True, u_next := first_of (U v) None\<rparr>
    else if first_of (U v) None = Some w then (uses V ! w)\<lparr>u_prev := Some u\<rparr> else uses V ! w)"
    if "w < length (uses V)" for w
    using that h free(2) assms(3) by (cases "first_of (U v) None") (auto simp: V1_def V2_def V3_def nth_list_update unext_def)
  have "Chains_ok V3 I (U(v := u # U v))"
  proof (rule pushed_use_ok [OF assms(1,2,4)])
    show "defs V3 ! x = (if x = v then (defs V ! v)
        \<lparr>uses_head := Some u, uses_tail := (if U v = [] then Some u else uses_tail (defs V ! v))\<rparr> else defs V ! x)"
      if "x < length (defs V)" for x
      using that assms(2) by (cases "U v") (auto simp: V1_def V2_def V3_def nth_list_update)
    show "DfgValues_use_to_value V3 u I = Some v"
      using use_to_value_eq [of u V V3 I] us [OF assms(3)] len assms(3,5) by simp
  qed (use us [OF assms(3)] us len assms(3) free(3) in \<open>auto simp: uprev_def\<close>)
  with run len us show ?thesis by auto
qed


text \<open>Detaching a use takes it out of its chain; it keeps its operand.\<close>

definition detached_use :: "use_data \<Rightarrow> use_data" where
  "detached_use d = d\<lparr>u_prev := None, u_next := None, attached := False\<rparr>"

lemma detached_links_ok:
  assumes ok: "Chains_ok V I U" and split: "U v = xs @ u # ys" and v: "v < length (defs V)"
    and len: "length (defs V') = length (defs V)" "length (uses V') = length (uses V)"
    and defs: "\<And>x. x < length (defs V) \<Longrightarrow> defs V' ! x = (if x = v then (defs V ! v)
        \<lparr>uses_head := (if xs = [] then first_of ys None else uses_head (defs V ! v)),
         uses_tail := (if ys = [] then last_of None xs else uses_tail (defs V ! v))\<rparr> else defs V ! x)"
    and uses: "\<And>w. w < length (uses V) \<Longrightarrow> uses V' ! w =
        (if w = u then detached_use (uses V ! u)
         else (uses V ! w)\<lparr>u_next := (if last_of None xs = Some w then first_of ys None else u_next (uses V ! w)),
           u_prev := (if first_of ys None = Some w then last_of None xs else u_prev (uses V ! w))\<rparr>)"
  shows "Chains_ok V' I (U(v := xs @ ys))"
proof -
  have u: "u \<in> set (U v)" by (simp add: split)
  have d: "distinct (xs @ u # ys)" using chain(2) [OF ok v] split by simp
  have lt: "w < length (uses V)" if "w \<in> set (U x)" for w x
    using in_chain(2) [OF ok that] .
  have same: "uses V' ! w = uses V ! w" if "w < length (uses V)" "w \<notin> set (U v)" for w
  proof -
    have "last_of None xs \<noteq> Some w" "first_of ys None \<noteq> Some w" "w \<noteq> u"
      using that(2) by (auto simp: split dest: last_of_SomeD first_of_SomeD)
    then show ?thesis using uses [OF that(1)] by simp
  qed
  show ?thesis
  proof (rule rechained_ok [OF ok v len(1)])
    have "dll (link_opt (last_of None xs) (first_of ys None) ((unext V)(u := None)))
        (link_opt (first_of ys None) (last_of None xs) ((uprev V)(u := None)))
        (if xs = [] then first_of ys None else uhead V v) (if ys = [] then last_of None xs else utail V v) (xs @ ys)"
      using dll_remove [OF chain(1) [OF ok v, unfolded split]] .
    moreover have "uhead V' v = (if xs = [] then first_of ys None else uhead V v)"
      "utail V' v = (if ys = [] then last_of None xs else utail V v)"
      using v defs by (simp_all add: chain_defs)
    moreover have "unext V' w = link_opt (last_of None xs) (first_of ys None) ((unext V)(u := None)) w \<and>
        uprev V' w = link_opt (first_of ys None) (last_of None xs) ((uprev V)(u := None)) w"
      if "w \<in> set (xs @ ys)" for w
    proof -
      have "w < length (uses V)" "w \<noteq> u" using that lt [of w v] d by (auto simp: split)
      then show ?thesis using uses [of w]
        by (cases "last_of None xs"; cases "first_of ys None") (auto simp: chain_defs)
    qed
    ultimately show "dll (unext V') (uprev V') (uhead V' v) (utail V' v) (xs @ ys)"
      by (rule dll_congI)
    show "uses V' ! w = uses V ! w" if "w \<in> set (U x)" "x \<noteq> v" for w x
      using same [OF lt [OF that(1)]] one_chain [OF ok that(1), of v] that(2) by blast
    show "w < length (uses V') \<and> attached (uses V' ! w) \<and> DfgValues_use_to_value V' w I = Some v \<and>
        (\<forall>x. x \<noteq> v \<longrightarrow> w \<notin> set (U x))" if "w \<in> set (xs @ ys)" for w
    proof -
      have w: "w \<in> set (U v)" "w \<noteq> u" using that d by (auto simp: split)
      note inw = in_chain [OF ok w(1)]
      have "\<forall>x. x \<noteq> v \<longrightarrow> w \<notin> set (U x)" using one_chain [OF ok w(1)] by blast
      then show ?thesis
        using inw uses [OF inw(2)] w(2) len use_to_value_eq [of w V V' I] by simp
    qed
    show "\<not> attached (uses V' ! w) \<and> unext V' w = None \<and> uprev V' w = None"
      if "w < length (uses V')" "w \<notin> set (xs @ ys)" "\<forall>x. x \<noteq> v \<longrightarrow> w \<notin> set (U x)" for w
    proof (cases "w = u")
      case True
      then show ?thesis using uses [of u] lt [OF u] by (simp add: chain_defs detached_use_def)
    next
      case False
      then have "w \<notin> set (U x)" for x using that(2,3) by (cases "x = v") (auto simp: split)
      then show ?thesis using same [of w] no_chain [OF ok, of w] that(1) len by (auto simp: chain_defs)
    qed
  qed (use defs len in auto)
qed

lemma DfgValues_detach_use_ok:
  assumes "Chains_ok V I U" "U v = xs @ u # ys"
  shows "\<exists>V'. DfgValues_detach_use u I V = Some V' \<and> Chains_ok V' I (U(v := xs @ ys)) \<and>
    length (defs V') = length (defs V) \<and> length (uses V') = length (uses V) \<and>
    (\<forall>w < length (uses V). parent (uses V' ! w) = parent (uses V ! w) \<and>
       parent_idx (uses V' ! w) = parent_idx (uses V ! w))"
proof -
  have u: "u \<in> set (U v)" by (simp add: assms(2))
  note iu = in_chain [OF assms(1) u]
  note ch = chain [OF assms(1) iu(1)]
  have d: "distinct (xs @ u # ys)" using ch(2) assms(2) by simp
  have nb: "uprev V u = last_of None xs" "unext V u = first_of ys None"
    using dll_at [OF ch(1) [unfolded assms(2)]] by auto
  have nx: "a < length (uses V)" "a \<noteq> u" if "first_of ys None = Some a" for a
    using first_of_SomeD [OF that] in_chain(2) [OF assms(1), of a v] d by (auto simp: assms(2))
  have pv: "a < length (uses V)" "a \<noteq> u" if "last_of None xs = Some a" for a
    using last_of_SomeD [OF that] in_chain(2) [OF assms(1), of a v] d by (auto simp: assms(2))
  have ne: "a \<noteq> b \<and> b \<noteq> a" if "last_of None xs = Some a" "first_of ys None = Some b" for a b
    using last_of_SomeD [OF that(1)] first_of_SomeD [OF that(2)] d by auto
  define V1 where "V1 = V\<lparr>uses := (uses V)[u := detached_use (uses V ! u)]\<rparr>"
  have tv: "DfgValues_use_to_value V1 u I = Some v"
    using iu use_to_value_eq [of u V V1 I] by (simp add: V1_def detached_use_def)
  define V2 where "V2 = (case (first_of ys None, last_of None xs) of
      (None, None) \<Rightarrow> V1\<lparr>defs := (defs V)[v := (defs V ! v)\<lparr>uses_head := None, uses_tail := None\<rparr>]\<rparr>
    | (Some n, Some p) \<Rightarrow> V1\<lparr>uses := ((uses V1)[n := (uses V ! n)\<lparr>u_prev := Some p\<rparr>])[p := (uses V ! p)\<lparr>u_next := Some n\<rparr>]\<rparr>
    | (Some n, None) \<Rightarrow> V1\<lparr>defs := (defs V)[v := (defs V ! v)\<lparr>uses_head := Some n\<rparr>],
        uses := (uses V1)[n := (uses V ! n)\<lparr>u_prev := None\<rparr>]\<rparr>
    | (None, Some p) \<Rightarrow> V1\<lparr>defs := (defs V)[v := (defs V ! v)\<lparr>uses_tail := Some p\<rparr>],
        uses := (uses V1)[p := (uses V ! p)\<lparr>u_next := None\<rparr>]\<rparr>)"
  have run: "DfgValues_detach_use u I V = Some V2"
  proof -
    note simps = DfgValues_detach_use_def V2_def V1_def detached_use_def node_heads Let_def
    note facts = iu(1-3) nb tv [unfolded V1_def detached_use_def]
    show ?thesis
    proof (cases "last_of None xs")
      case None
      then show ?thesis
        using facts nx by (cases "first_of ys None") (simp_all add: simps)
    next
      case (Some p)
      show ?thesis
      proof (cases "first_of ys None")
        case None
        with Some show ?thesis using facts pv by (simp add: simps)
      next
        case (Some n)
        with \<open>last_of None xs = Some p\<close> ne [of p n] show ?thesis
          using facts pv [of p] nx [of n] by (simp add: simps)
      qed
    qed
  qed
  have len: "length (defs V2) = length (defs V)" "length (uses V2) = length (uses V)"
    by (auto simp: V1_def V2_def split: option.splits)
  have us: "uses V2 ! w =
      (if w = u then detached_use (uses V ! u)
       else (uses V ! w)\<lparr>u_next := (if last_of None xs = Some w then first_of ys None else u_next (uses V ! w)),
         u_prev := (if first_of ys None = Some w then last_of None xs else u_prev (uses V ! w))\<rparr>)"
    if "w < length (uses V)" for w
  proof (cases "last_of None xs")
    case None
    then show ?thesis
      using that nx iu(2) by (cases "first_of ys None") (simp_all add: V1_def V2_def nth_list_update)
  next
    case (Some p)
    then show ?thesis
      using that nx pv [OF Some] ne [OF Some] iu(2)
      by (cases "first_of ys None") (simp_all add: V1_def V2_def nth_list_update)
  qed
  have "Chains_ok V2 I (U(v := xs @ ys))"
  proof (rule detached_links_ok [OF assms iu(1) len _ us])
    show "defs V2 ! x = (if x = v then (defs V ! v)
        \<lparr>uses_head := (if xs = [] then first_of ys None else uses_head (defs V ! v)),
         uses_tail := (if ys = [] then last_of None xs else uses_tail (defs V ! v))\<rparr> else defs V ! x)"
      if "x < length (defs V)" for x
      using that iu(1) by (cases xs rule: rev_cases; cases ys) (auto simp: V1_def V2_def nth_list_update)
  qed
  with run len us show ?thesis by (auto simp: detached_use_def)
qed

lemma DfgValues_detach_use_twice:
  assumes "Chains_ok V I U" "u < length (uses V)" "\<forall>v. u \<notin> set (U v)"
  shows "DfgValues_detach_use u I V = Some V"
proof -
  have "(uses V ! u)\<lparr>u_prev := None, u_next := None, attached := False\<rparr> = uses V ! u"
    using no_chain [OF assms] by (simp add: chain_defs)
  then show ?thesis using assms(2) no_chain(1) [OF assms] by (simp add: DfgValues_detach_use_def Let_def)
qed

text \<open>The use cursors follow the chain.\<close>

lemma UseCursor_steps:
  assumes "Chains_ok V I U" "U v = xs @ ys"
  shows "UseCursor_advance V (first_of ys None) = Some (first_of ys None, first_of (tl ys) None)"
    and "UseCursor_advance_back V (last_of None xs) = Some (last_of None xs, last_of None (butlast xs))"
proof -
  show "UseCursor_advance V (first_of ys None) = Some (first_of ys None, first_of (tl ys) None)"
  proof (cases ys)
    case (Cons y zs)
    have y: "y \<in> set (U v)" by (simp add: assms(2) Cons)
    note iy = in_chain [OF assms(1) y]
    show ?thesis
      using dll_at(2) [OF chain(1) [OF assms(1) iy(1), unfolded assms(2) Cons]] iy(2) Cons
      by (simp add: UseCursor_advance_def Use_next_def node_heads)
  qed (simp add: UseCursor_advance_def)
  show "UseCursor_advance_back V (last_of None xs) = Some (last_of None xs, last_of None (butlast xs))"
  proof (cases xs rule: rev_cases)
    case (snoc zs y)
    have y: "y \<in> set (U v)" by (simp add: assms(2) snoc)
    note iy = in_chain [OF assms(1) y]
    have "uprev V y = last_of None zs"
      using dll_at(1) [of "unext V" "uprev V" "uhead V v" "utail V v" zs y ys] chain(1) [OF assms(1) iy(1)]
      by (simp add: assms(2) snoc)
    then show ?thesis
      using iy(2) snoc by (simp add: UseCursor_advance_back_def Use_prev_def node_heads)
  qed (simp add: UseCursor_advance_back_def)
qed


section \<open>The operand table\<close>

text \<open>
  Every instruction has one use per argument, registered at the argument's position, and attached
  uses are registered. Arguments are values of the table.
\<close>

definition inst_operands_ok :: "inst_table \<Rightarrow> val_table \<Rightarrow> inst \<Rightarrow> bool" where
  "inst_operands_ok I V i \<longleftrightarrow>
     length (inst_operands I ! i) = length (InstructionData_arguments (declarations I ! i)) \<and>
     (\<forall>k < length (inst_operands I ! i). inst_operands I ! i ! k < length (uses V) \<and>
        parent (uses V ! (inst_operands I ! i ! k)) = i \<and> parent_idx (uses V ! (inst_operands I ! i ! k)) = k) \<and>
     (\<forall>v \<in> set (InstructionData_arguments (declarations I ! i)). v < length (defs V))"

definition registered :: "inst_table \<Rightarrow> use_data \<Rightarrow> mir_use \<Rightarrow> bool" where
  "registered I d u \<longleftrightarrow> parent d < length (declarations I) \<and>
     parent_idx d < length (inst_operands I ! parent d) \<and> inst_operands I ! parent d ! parent_idx d = u"

definition Operands_ok :: "inst_table \<Rightarrow> val_table \<Rightarrow> bool" where
  "Operands_ok I V \<longleftrightarrow>
     length (inst_operands I) = length (declarations I) \<and> length (inst_results I) = length (declarations I) \<and>
     (\<forall>i < length (declarations I). inst_operands_ok I V i) \<and>
     (\<forall>u < length (uses V). attached (uses V ! u) \<longrightarrow> registered I (uses V ! u) u)"

definition Dfg_ok :: "dfg \<Rightarrow> (mir_value \<Rightarrow> mir_use list) \<Rightarrow> bool" where
  "Dfg_ok D U \<longleftrightarrow> Chains_ok (d_values D) (d_insts D) U \<and> Operands_ok (d_insts D) (d_values D)"

lemma operand_tables:
  assumes "Operands_ok I V"
  shows "length (inst_operands I) = length (declarations I)" "length (inst_results I) = length (declarations I)"
  using assms by (simp_all add: Operands_ok_def)

lemma operand_at:
  assumes "Operands_ok I V" "i < length (declarations I)" "k < length (InstructionData_arguments (declarations I ! i))"
  shows "length (inst_operands I ! i) = length (InstructionData_arguments (declarations I ! i))"
    "inst_operands I ! i ! k < length (uses V)" "parent (uses V ! (inst_operands I ! i ! k)) = i"
    "parent_idx (uses V ! (inst_operands I ! i ! k)) = k"
    "InstructionData_arguments (declarations I ! i) ! k < length (defs V)"
proof -
  have "inst_operands_ok I V i" using assms(1,2) by (simp add: Operands_ok_def)
  then show "length (inst_operands I ! i) = length (InstructionData_arguments (declarations I ! i))"
    "inst_operands I ! i ! k < length (uses V)" "parent (uses V ! (inst_operands I ! i ! k)) = i"
    "parent_idx (uses V ! (inst_operands I ! i ! k)) = k"
    "InstructionData_arguments (declarations I ! i) ! k < length (defs V)"
    using assms(3) by (simp_all add: inst_operands_ok_def)
qed

lemma operand_of:
  assumes "Operands_ok I V" "u < length (uses V)" "attached (uses V ! u)"
  shows "parent (uses V ! u) < length (declarations I)"
    "parent_idx (uses V ! u) < length (InstructionData_arguments (declarations I ! parent (uses V ! u)))"
    "inst_operands I ! parent (uses V ! u) ! parent_idx (uses V ! u) = u"
proof -
  have r: "registered I (uses V ! u) u" using assms by (simp add: Operands_ok_def)
  then show p: "parent (uses V ! u) < length (declarations I)" by (simp add: registered_def)
  have "inst_operands_ok I V (parent (uses V ! u))" using assms(1) p by (simp add: Operands_ok_def)
  with r show "parent_idx (uses V ! u) < length (InstructionData_arguments (declarations I ! parent (uses V ! u)))"
    "inst_operands I ! parent (uses V ! u) ! parent_idx (uses V ! u) = u"
    by (simp_all add: registered_def inst_operands_ok_def)
qed

lemma operand_inj:
  assumes "Operands_ok I V" "u < length (uses V)" "attached (uses V ! u)" "w < length (uses V)" "attached (uses V ! w)"
    and "parent (uses V ! u) = parent (uses V ! w)" "parent_idx (uses V ! u) = parent_idx (uses V ! w)"
  shows "u = w"
  using operand_of(3) [OF assms(1-3)] operand_of(3) [OF assms(1,4,5)] unfolding assms(6,7)
  by (rule trans [OF sym])

text \<open>The properties of the graph, read off the invariant: chains and operands agree.\<close>

lemma operand_in_chain:
  assumes "Dfg_ok D U" "i < length (declarations (d_insts D))"
    and "k < length (InstructionData_arguments (declarations (d_insts D) ! i))"
    and "u = inst_operands (d_insts D) ! i ! k" "attached (uses (d_values D) ! u)"
  shows "u \<in> set (U (InstructionData_arguments (declarations (d_insts D) ! i) ! k))"
proof -
  let ?V = "d_values D" and ?I = "d_insts D"
  have ok: "Chains_ok ?V ?I U" "Operands_ok ?I ?V" using assms(1) by (simp_all add: Dfg_ok_def)
  note at = operand_at [OF ok(2) assms(2,3)]
  obtain v where v: "u \<in> set (U v)" using in_chain_iff_attached [OF ok(1), of u] at(2) assms(4,5) by blast
  have "DfgValues_use_to_value ?V u ?I = Some (InstructionData_arguments (declarations ?I ! i) ! k)"
    using at assms(2-4) by (simp add: DfgValues_use_to_value_def DfgInsts_args_def)
  with in_chain(4) [OF ok(1) v] v show ?thesis by simp
qed

text \<open>Writing an argument.\<close>

lemma DfgInsts_set_arg_ok:
  assumes "i < length (declarations I)" "k < length (InstructionData_arguments (declarations I ! i))"
  shows "\<exists>d. DfgInsts_set_arg i k v I = Some (I\<lparr>declarations := (declarations I)[i := d]\<rparr>) \<and>
    InstructionData_arguments d = (InstructionData_arguments (declarations I ! i))[k := v]"
  using set_argument_ok [OF assms(2), of v] assms(1) by (auto simp: DfgInsts_set_arg_def)

lemma use_to_value_set_arg:
  assumes "w < length (uses V)" "parent (uses V ! w) < length (declarations I)" "i < length (declarations I)"
    and "InstructionData_arguments d = (InstructionData_arguments (declarations I ! i))[k := v]"
    and "k < length (InstructionData_arguments (declarations I ! i))"
  shows "DfgValues_use_to_value V w (I\<lparr>declarations := (declarations I)[i := d]\<rparr>) =
    (if parent (uses V ! w) = i \<and> parent_idx (uses V ! w) = k then Some v else DfgValues_use_to_value V w I)"
  using assms by (auto simp: DfgValues_use_to_value_def DfgInsts_args_def nth_list_update vec_get_def)

lemma Operands_ok_set_arg:
  assumes "Operands_ok I V" "i < length (declarations I)" "v < length (defs V)"
    and "InstructionData_arguments d = (InstructionData_arguments (declarations I ! i))[k := v]"
  shows "Operands_ok (I\<lparr>declarations := (declarations I)[i := d]\<rparr>) V"
proof -
  let ?I = "I\<lparr>declarations := (declarations I)[i := d]\<rparr>"
  have "inst_operands_ok ?I V j" if "j < length (declarations I)" for j
  proof -
    have "inst_operands_ok I V j" using assms(1) that by (simp add: Operands_ok_def)
    then show ?thesis
      using assms(2-4) set_update_subset_insert [of "InstructionData_arguments (declarations I ! i)" k v]
      by (cases "j = i") (auto simp: inst_operands_ok_def)
  qed
  then show ?thesis using assms(1) by (simp add: Operands_ok_def registered_def)
qed

lemma Operands_ok_values:
  assumes "Operands_ok I V" "length (defs V') = length (defs V)" "length (uses V') = length (uses V)"
    and "\<forall>w < length (uses V). parent (uses V' ! w) = parent (uses V ! w) \<and> parent_idx (uses V' ! w) = parent_idx (uses V ! w)"
    and "\<And>w. w < length (uses V) \<Longrightarrow> attached (uses V' ! w) \<Longrightarrow> registered I (uses V ! w) w"
  shows "Operands_ok I V'"
proof -
  have "inst_operands_ok I V' i" if "i < length (declarations I)" for i
  proof -
    have "inst_operands_ok I V i" using assms(1) that by (simp add: Operands_ok_def)
    then show ?thesis using assms(2-4) by (simp add: inst_operands_ok_def)
  qed
  then show ?thesis using assms by (simp add: Operands_ok_def registered_def)
qed

lemma Dfg_use_set_value_ok:
  assumes "Dfg_ok D U" "u \<in> set (U w)" "U w = xs @ u # ys" "v < length (defs (d_values D))"
  shows "\<exists>D'. Dfg_use_set_value u v D = Some D' \<and>
    Dfg_ok D' ((U(w := xs @ ys))(v := u # (U(w := xs @ ys)) v)) \<and>
    DfgValues_use_to_value (d_values D') u (d_insts D') = Some v"
proof -
  let ?V = "d_values D" and ?I = "d_insts D" and ?U = "U(w := xs @ ys)"
  have ok: "Chains_ok ?V ?I U" "Operands_ok ?I ?V" using assms(1) by (simp_all add: Dfg_ok_def)
  note iu = in_chain [OF ok(1) assms(2)]
  note op = operand_of [OF ok(2) iu(2,3)]
  obtain V1 where V1: "DfgValues_detach_use u ?I ?V = Some V1" "Chains_ok V1 ?I ?U"
    "length (defs V1) = length (defs ?V)" "length (uses V1) = length (uses ?V)"
    "\<forall>w < length (uses ?V). parent (uses V1 ! w) = parent (uses ?V ! w) \<and> parent_idx (uses V1 ! w) = parent_idx (uses ?V ! w)"
    using DfgValues_detach_use_ok [OF ok(1) assms(3)] by blast
  have d: "distinct (xs @ u # ys)" using chain(2) [OF ok(1) iu(1)] assms(3) by simp
  have free: "\<forall>x. u \<notin> set (?U x)" using d one_chain [OF ok(1) assms(2)] by auto
  have att: "attached (uses ?V ! x)" if x: "x < length (uses V1)" "attached (uses V1 ! x)" for x
  proof -
    obtain y where "x \<in> set (?U y)" using in_chain_iff_attached [OF V1(2) x(1)] x(2) by blast
    then have "x \<in> set (U y)" by (auto simp: assms(3) split: if_splits)
    then show ?thesis by (rule in_chain(3) [OF ok(1)])
  qed
  have ok1: "Operands_ok ?I V1"
    by (rule Operands_ok_values [OF ok(2) V1(3-5)]) (use V1(4) att ok(2) in \<open>simp add: Operands_ok_def\<close>)
  obtain d where I1: "DfgInsts_set_arg (parent (uses ?V ! u)) (parent_idx (uses ?V ! u)) v ?I =
      Some (?I\<lparr>declarations := (declarations ?I)[parent (uses ?V ! u) := d]\<rparr>)"
    "InstructionData_arguments d =
      (InstructionData_arguments (declarations ?I ! parent (uses ?V ! u)))[parent_idx (uses ?V ! u) := v]"
    using DfgInsts_set_arg_ok [OF op(1,2)] by blast
  define I1 where "I1 = ?I\<lparr>declarations := (declarations ?I)[parent (uses ?V ! u) := d]\<rparr>"
  have ok2: "Operands_ok I1 V1"
    unfolding I1_def using Operands_ok_set_arg [OF ok1 op(1) _ I1(2)] assms(4) V1(3) by simp
  have tv: "DfgValues_use_to_value V1 x I1 = (if x = u then Some v else DfgValues_use_to_value V1 x ?I)"
    if x: "x < length (uses V1)" "x = u \<or> attached (uses V1 ! x)" for x
  proof -
    have "attached (uses ?V ! x)" "x < length (uses ?V)" using x att iu(3) V1(4) by auto
    then have "parent (uses ?V ! x) < length (declarations ?I)"
      "x = u \<longleftrightarrow> parent (uses ?V ! x) = parent (uses ?V ! u) \<and> parent_idx (uses ?V ! x) = parent_idx (uses ?V ! u)"
      using operand_of(1) [OF ok(2)] operand_inj [OF ok(2), of x u] iu(2,3) by auto
    then show ?thesis
      unfolding I1_def using x(1) V1(4,5) op(1,2) I1(2) by (subst use_to_value_set_arg) auto
  qed
  have "Chains_ok V1 I1 ?U"
  proof (rule Chains_ok_insts [OF V1(2)])
    show "DfgValues_use_to_value V1 x I1 = DfgValues_use_to_value V1 x ?I" if "x \<in> set (?U y)" for y x
      using tv [of x] in_chain(2,3) [OF V1(2) that] free that by (metis (no_types))
  qed
  then obtain V2 where V2: "DfgValues_attach_use u v V1 = Some V2" "Chains_ok V2 I1 (?U(v := u # ?U v))"
    "length (defs V2) = length (defs V1)" "length (uses V2) = length (uses V1)"
    "\<forall>w < length (uses V1). parent (uses V2 ! w) = parent (uses V1 ! w) \<and> parent_idx (uses V2 ! w) = parent_idx (uses V1 ! w)"
    using DfgValues_attach_use_ok [of V1 I1 ?U v u] assms(4) V1(3,4) iu(2) free tv [of u] by auto
  have "attached (uses V1 ! x) \<or> x = u" if x: "x < length (uses V2)" "attached (uses V2 ! x)" for x
  proof -
    obtain y where "x \<in> set ((?U(v := u # ?U v)) y)" using in_chain_iff_attached [OF V2(2) x(1)] x(2) by blast
    then have "x = u \<or> (\<exists>y. x \<in> set (?U y))" by (auto split: if_splits)
    then show ?thesis using in_chain(3) [OF V1(2)] by blast
  qed
  moreover have "registered I1 (uses V1 ! u) u"
    using iu(2,3) ok(2) V1(5) by (simp add: Operands_ok_def registered_def I1_def)
  ultimately have "Operands_ok I1 V2"
    using ok2 V2(4) by (intro Operands_ok_values [OF ok2 V2(3-5)]) (auto simp: Operands_ok_def)
  moreover have "Dfg_use_set_value u v D = Some (D\<lparr>d_insts := I1, d_values := V2\<rparr>)"
    using iu V1 I1(1) V2(1)
    by (simp add: Dfg_use_set_value_def DfgValues_is_use_detachted_def I1_def)
  moreover have "DfgValues_use_to_value V2 u I1 = Some v"
    by (rule in_chain(4) [OF V2(2)]) simp
  ultimately show ?thesis using V2(2) by (simp add: Dfg_ok_def)
qed


section \<open>Replacing all uses of a value\<close>

lemma set_use_value_ok:
  assumes "Operands_ok I V" "u < length (uses V)" "attached (uses V ! u)" "v < length (defs V)"
  shows "\<exists>I'. DfgValues_set_use_value V u v I = Some I' \<and> Operands_ok I' V \<and>
    inst_operands I' = inst_operands I \<and> inst_results I' = inst_results I \<and>
    length (declarations I') = length (declarations I) \<and>
    (\<forall>w < length (uses V). attached (uses V ! w) \<longrightarrow>
       DfgValues_use_to_value V w I' = (if w = u then Some v else DfgValues_use_to_value V w I))"
proof -
  note op = operand_of [OF assms(1-3)]
  obtain d where d: "DfgInsts_set_arg (parent (uses V ! u)) (parent_idx (uses V ! u)) v I =
      Some (I\<lparr>declarations := (declarations I)[parent (uses V ! u) := d]\<rparr>)"
    "InstructionData_arguments d =
      (InstructionData_arguments (declarations I ! parent (uses V ! u)))[parent_idx (uses V ! u) := v]"
    using DfgInsts_set_arg_ok [OF op(1,2)] by blast
  define I1 where "I1 = I\<lparr>declarations := (declarations I)[parent (uses V ! u) := d]\<rparr>"
  have "Operands_ok I1 V" unfolding I1_def by (rule Operands_ok_set_arg [OF assms(1) op(1) assms(4) d(2)])
  moreover have "DfgValues_use_to_value V w I1 = (if w = u then Some v else DfgValues_use_to_value V w I)"
    if w: "w < length (uses V)" "attached (uses V ! w)" for w
  proof -
    have "w = u \<longleftrightarrow> parent (uses V ! w) = parent (uses V ! u) \<and> parent_idx (uses V ! w) = parent_idx (uses V ! u)"
      using operand_inj [OF assms(1) w assms(2,3)] by auto
    then show ?thesis
      unfolding I1_def by (subst use_to_value_set_arg [OF w(1) operand_of(1) [OF assms(1) w] op(1) d(2) op(2)]) simp
  qed
  ultimately show ?thesis
    using d(1) assms(2) by (intro exI [of _ I1]) (auto simp: DfgValues_set_use_value_def I1_def)
qed

lemma replace_uses_loop_ok:
  assumes "seg (unext V) (uprev V) p zs None" "distinct zs" "\<forall>z \<in> set zs. z < length (uses V) \<and> attached (uses V ! z)"
    and "v < length (defs V)" "Operands_ok I V"
  shows "\<exists>I'. replace_uses_loop v V (first_of zs None) I = Some I' \<and> Operands_ok I' V \<and>
    inst_operands I' = inst_operands I \<and> inst_results I' = inst_results I \<and>
    length (declarations I') = length (declarations I) \<and>
    (\<forall>w < length (uses V). attached (uses V ! w) \<longrightarrow>
       DfgValues_use_to_value V w I' = (if w \<in> set zs then Some v else DfgValues_use_to_value V w I))"
  using assms
proof (induction zs arbitrary: p I)
  case Nil
  then show ?case by (subst replace_uses_loop.simps) (simp add: UseCursor_advance_def)
next
  case (Cons z zs)
  have z: "z < length (uses V)" "attached (uses V ! z)" "unext V z = first_of zs None" using Cons.prems by auto
  obtain I1 where I1: "DfgValues_set_use_value V z v I = Some I1" "Operands_ok I1 V"
    "inst_operands I1 = inst_operands I" "inst_results I1 = inst_results I" "length (declarations I1) = length (declarations I)"
    "\<forall>w < length (uses V). attached (uses V ! w) \<longrightarrow>
       DfgValues_use_to_value V w I1 = (if w = z then Some v else DfgValues_use_to_value V w I)"
    using set_use_value_ok [OF Cons.prems(5) z(1,2) Cons.prems(4)] by blast
  obtain I2 where I2: "replace_uses_loop v V (first_of zs None) I1 = Some I2" "Operands_ok I2 V"
    "inst_operands I2 = inst_operands I1" "inst_results I2 = inst_results I1" "length (declarations I2) = length (declarations I1)"
    "\<forall>w < length (uses V). attached (uses V ! w) \<longrightarrow>
       DfgValues_use_to_value V w I2 = (if w \<in> set zs then Some v else DfgValues_use_to_value V w I1)"
    using Cons.IH [of "Some z" I1] Cons.prems I1(2) by auto
  have "replace_uses_loop v V (first_of (z # zs) None) I = Some I2"
    using z I1(1) I2(1)
    by (subst replace_uses_loop.simps) (simp add: UseCursor_advance_def Use_next_def node_heads)
  with I1 I2 show ?case by (intro exI [of _ I2]) auto
qed

text \<open>The chain of \<open>dst\<close> is put in front of the chain of \<open>src\<close>.\<close>

lemma joined_chains_ok:
  assumes ok: "Chains_ok V I U" and ds: "dst < length (defs V)" "src < length (defs V)" "dst \<noteq> src"
    and len: "length (defs V') = length (defs V)" "length (uses V') = length (uses V)"
    and defs: "\<And>x. x < length (defs V) \<Longrightarrow>
        uhead V' x = (if x = dst then None else if x = src \<and> U dst \<noteq> [] then uhead V dst else uhead V x) \<and>
        utail V' x = (if x = dst then None else if x = src \<and> U src = [] then utail V dst else utail V x)"
    and uses: "\<And>w. w < length (uses V) \<Longrightarrow> uses V' ! w = (uses V ! w)
        \<lparr>u_next := (if U dst \<noteq> [] \<and> last_of None (U dst) = Some w then first_of (U src) None else unext V w),
         u_prev := (if U dst \<noteq> [] \<and> first_of (U src) None = Some w then last_of None (U dst) else uprev V w)\<rparr>"
    and vals: "\<And>w x. w \<in> set (U x) \<Longrightarrow> DfgValues_use_to_value V w I' = Some (if x = dst then src else x)"
  shows "Chains_ok V' I' (U(src := U dst @ U src, dst := []))"
proof -
  note cd = chain [OF ok ds(1)] and cs = chain [OF ok ds(2)]
  have dis: "set (U dst) \<inter> set (U src) = {}" using one_chain [OF ok] ds(3) by blast
  have lt: "w < length (uses V)" if "w \<in> set (U x)" for w x by (rule in_chain(2) [OF ok that])
  have src: "dll (unext V') (uprev V') (uhead V' src) (utail V' src) (U dst @ U src)"
  proof (cases "U dst = []")
    case True
    have "dll (unext V') (uprev V') (uhead V' src) (utail V' src) (U src)"
    proof (rule dll_congI [OF cs(1)])
      show "unext V' w = unext V w \<and> uprev V' w = uprev V w" if "w \<in> set (U src)" for w
        using uses [OF lt [OF that]] True by (simp add: unext_def uprev_def)
    qed (use defs [OF ds(2)] True ds cs(4) cd(4) in auto)
    then show ?thesis using True by simp
  next
    case False
    have ends: "uhead V' src = (if U dst = [] then uhead V src else uhead V dst)"
      "utail V' src = (if U src = [] then utail V dst else utail V src)"
      using False ds defs [OF ds(2)] by auto
    have "unext V' w = link_opt (utail V dst) (uhead V src) (unext V) w \<and>
        uprev V' w = link_opt (uhead V src) (utail V dst) (uprev V) w" if w: "w \<in> set (U dst @ U src)" for w
    proof -
      have "w < length (uses V)" using w lt [of w dst] lt [of w src] by auto
      from uses [OF this] False show ?thesis
        unfolding cd(4) cs(3)
        by (cases "first_of (U src) None"; cases "last_of None (U dst)") (simp_all add: unext_def uprev_def)
    qed
    then show ?thesis by (rule dll_congI [OF dll_append [OF cd(1) cs(1) dis] ends])
  qed
  have other: "uses V' ! w = uses V ! w" if "w \<in> set (U x)" "x \<noteq> dst" "x \<noteq> src" for w x
  proof -
    have "last_of None (U dst) \<noteq> Some w" "first_of (U src) None \<noteq> Some w"
      using that(2,3) one_chain [OF ok that(1)] by (blast dest: last_of_SomeD first_of_SomeD)+
    then show ?thesis using uses [OF lt [OF that(1)]] by (simp add: chain_defs)
  qed
  have "dll (unext V') (uprev V') (uhead V' x) (utail V' x) (U x)" if "x < length (defs V)" "x \<noteq> dst" "x \<noteq> src" for x
    using other [OF _ that(2,3)] defs [OF that(1)] that by (intro dll_congI [OF chain(1) [OF ok that(1)]]) (auto simp: chain_defs)
  moreover have "w < length (uses V') \<and> attached (uses V' ! w) \<and> DfgValues_use_to_value V' w I' = Some (if x = dst then src else x)"
    if w: "w \<in> set (U x)" for w x
    using in_chain [OF ok w] uses [OF lt [OF w]] vals [OF w] len use_to_value_eq [of w V V' I'] by simp
  moreover have "\<not> attached (uses V' ! w) \<and> unext V' w = None \<and> uprev V' w = None"
    if "w < length (uses V)" "\<forall>x. w \<notin> set ((U(src := U dst @ U src, dst := [])) x)" for w
  proof -
    have "w \<notin> set (U dst) \<union> set (U src)" using spec [OF that(2), of src] ds(3) by simp
    moreover have "w \<notin> set (U x)" if "x \<noteq> dst" "x \<noteq> src" for x
      using that \<open>\<forall>x. w \<notin> set ((U(src := U dst @ U src, dst := [])) x)\<close> by (metis fun_upd_apply)
    ultimately have free: "\<forall>x. w \<notin> set (U x)" by (metis UnI1 UnI2)
    then have "last_of None (U dst) \<noteq> Some w" "first_of (U src) None \<noteq> Some w"
      by (blast dest: last_of_SomeD first_of_SomeD)+
    then show ?thesis using no_chain [OF ok that(1) free] uses [OF that(1)] by (simp add: chain_defs)
  qed
  moreover have "uhead V' dst = None" "utail V' dst = None" using defs [OF ds(1)] by simp_all
  moreover have "x < length (defs V)" if "w \<in> set (U x)" for w x by (rule in_chain(1) [OF ok that])
  ultimately show ?thesis
    using src ds len unfolding Chains_ok_def by (auto split: if_splits)
qed


text \<open>\<open>spliced dst src V\<close>: the value table after the chain of \<open>dst\<close> went to the front of \<open>src\<close>'s.\<close>

definition spliced :: "mir_value \<Rightarrow> mir_value \<Rightarrow> val_table \<Rightarrow> val_table panics" where
  "spliced dst src V =
     do { def \<leftarrow> vec_get (defs V) dst;
          V \<leftarrow> upd_def dst (\<lambda>d. d\<lparr>uses_head := None\<rparr>) V;
          (case uses_head def of
             None \<Rightarrow> Some V
           | Some new_head \<Rightarrow>
               do { sd \<leftarrow> vec_get (defs V) src;
                    V \<leftarrow> (case uses_head sd of
                           Some old_head \<Rightarrow>
                             do { old_tail \<leftarrow> uses_tail def;
                                  V \<leftarrow> upd_use old_tail (\<lambda>d. d\<lparr>u_next := Some old_head\<rparr>) V;
                                  upd_use old_head (\<lambda>d. d\<lparr>u_prev := Some old_tail\<rparr>) V }
                         | None \<Rightarrow> upd_def src (\<lambda>d. d\<lparr>uses_tail := uses_tail def\<rparr>) V);
                    V \<leftarrow> upd_def dst (\<lambda>d. d\<lparr>uses_tail := None\<rparr>) V;
                    upd_def src (\<lambda>d. d\<lparr>uses_head := Some new_head\<rparr>) V }) }"

lemma spliced_ok:
  assumes ok: "Chains_ok V I U" and ds: "dst < length (defs V)" "src < length (defs V)" "dst \<noteq> src"
    and vals: "\<And>w x. w \<in> set (U x) \<Longrightarrow> DfgValues_use_to_value V w I' = Some (if x = dst then src else x)"
  shows "\<exists>V'. spliced dst src V = Some V' \<and> Chains_ok V' I' (U(src := U dst @ U src, dst := [])) \<and>
    length (defs V') = length (defs V) \<and> length (uses V') = length (uses V) \<and>
    (\<forall>w < length (uses V). parent (uses V' ! w) = parent (uses V ! w) \<and>
      parent_idx (uses V' ! w) = parent_idx (uses V ! w) \<and> attached (uses V' ! w) = attached (uses V ! w))"
proof -
  note cd = chain [OF ok ds(1)] and cs = chain [OF ok ds(2)]
  note heads = cd(3,4) [unfolded chain_defs] cs(3,4) [unfolded chain_defs]
  have lt: "w < length (uses V)" if "w \<in> set (U x)" for w x by (rule in_chain(2) [OF ok that])
  have lt_ends: "w < length (uses V)" if "first_of (U x) None = Some w \<or> last_of None (U x) = Some w" for w x
    using that lt by (auto dest: first_of_SomeD last_of_SomeD)
  have ends: "first_of (U x) None = None \<longleftrightarrow> U x = []" "last_of None (U x) = None \<longleftrightarrow> U x = []" for x by auto
  have dis: "w \<noteq> z" if "last_of None (U dst) = Some w" "first_of (U src) None = Some z" for w z
    using last_of_SomeD [OF that(1)] first_of_SomeD [OF that(2)] one_chain [OF ok, of w dst src] ds(3) by blast
  obtain V' where V': "spliced dst src V = Some V'"
    "length (defs V') = length (defs V)" "length (uses V') = length (uses V)"
    "\<And>x. x < length (defs V) \<Longrightarrow>
      uhead V' x = (if x = dst then None else if x = src \<and> U dst \<noteq> [] then uhead V dst else uhead V x) \<and>
      utail V' x = (if x = dst then None else if x = src \<and> U src = [] \<and> U dst \<noteq> [] then utail V dst else utail V x)"
    "\<And>w. w < length (uses V) \<Longrightarrow> uses V' ! w = (uses V ! w)
        \<lparr>u_next := (if U dst \<noteq> [] \<and> last_of None (U dst) = Some w then (if U src = [] then unext V w else first_of (U src) None) else unext V w),
         u_prev := (if U dst \<noteq> [] \<and> first_of (U src) None = Some w then last_of None (U dst) else uprev V w)\<rparr>"
  proof (cases "U dst = []")
    case True
    then show ?thesis using ds heads
      by (intro that [of "V\<lparr>defs := (defs V)[dst := (defs V ! dst)\<lparr>uses_head := None\<rparr>]\<rparr>"])
        (auto simp: spliced_def upd_def_def chain_defs nth_list_update)
  next
    case False
    then obtain h t where ht: "first_of (U dst) None = Some h" "last_of None (U dst) = Some t" using ends by blast
    show ?thesis
    proof (cases "first_of (U src) None")
      case None
      then show ?thesis using False ds heads ht lt_ends [of dst]
        by (intro that [of "the (spliced dst src V)"])
          (auto simp: spliced_def upd_def_def chain_defs nth_list_update)
    next
      case (Some z)
      then show ?thesis using False ds heads ht lt_ends [of dst] lt_ends [of src] dis
        by (intro that [of "the (spliced dst src V)"])
          (auto simp: spliced_def upd_def_def upd_use_def chain_defs nth_list_update)
    qed
  qed
  have nil: "unext V w = first_of (U src) None" if "U src = []" "last_of None (U dst) = Some w" for w
  proof -
    have "U dst = butlast (U dst) @ [w]"
      using that(2) by (cases "U dst" rule: rev_cases) auto
    then have "dll (unext V) (uprev V) (uhead V dst) (utail V dst) (butlast (U dst) @ w # [])"
      using cd(1) by simp
    from dll_at(2) [OF this] that(1) show ?thesis by simp
  qed
  have "Chains_ok V' I' (U(src := U dst @ U src, dst := []))"
    by (rule joined_chains_ok [OF ok ds V'(2,3) _ _ vals])
      (use V'(4,5) nil cd(4) cs(4) in \<open>auto simp: ends\<close>)
  with V' show ?thesis by (intro exI [of _ V']) auto
qed


text \<open>Data of a definition that is not its chain (its type, its tag) can change freely.\<close>

lemma Chains_ok_def_data:
  assumes "Chains_ok V I U" "v < length (defs V)"
    and "uses_head d = uses_head (defs V ! v)" "uses_tail d = uses_tail (defs V ! v)"
  shows "Chains_ok (V\<lparr>defs := (defs V)[v := d]\<rparr>) I U"
proof -
  let ?V = "V\<lparr>defs := (defs V)[v := d]\<rparr>"
  have "unext ?V = unext V" "uprev ?V = uprev V"
    "\<And>x. uhead ?V x = uhead V x" "\<And>x. utail ?V x = utail V x"
    using assms(2-4) by (auto simp: chain_defs fun_eq_iff nth_list_update)
  moreover have "DfgValues_use_to_value ?V u I = DfgValues_use_to_value V u I" for u
    by (simp add: DfgValues_use_to_value_def)
  ultimately show ?thesis using assms(1) by (simp add: Chains_ok_def)
qed

lemma Dfg_replace_uses_splices:
  "Dfg_replace_uses dst src D =
     do { _ \<leftarrow> rust_assert (dst \<noteq> src);
          src_tag \<leftarrow> DfgValues_tag (d_values D) src;
          V \<leftarrow> (if src_tag = None then do { tag \<leftarrow> DfgValues_tag (d_values D) dst; DfgValues_set_tag src tag (d_values D) }
               else Some (d_values D));
          cur \<leftarrow> DfgValues_uses_head_cursor V dst;
          I \<leftarrow> replace_uses_loop src V cur (d_insts D);
          V \<leftarrow> spliced dst src V;
          Some (D\<lparr>d_insts := I, d_values := V\<rparr>) }"
  unfolding Dfg_replace_uses_def spliced_def Let_def bind_assoc ..

lemma Dfg_replace_uses_ok:
  assumes "Dfg_ok D U" "dst < length (defs (d_values D))" "src < length (defs (d_values D))" "dst \<noteq> src"
  shows "\<exists>D'. Dfg_replace_uses dst src D = Some D' \<and>
    Dfg_ok D' (U(src := U dst @ U src, dst := [])) \<and>
    inst_operands (d_insts D') = inst_operands (d_insts D) \<and> inst_results (d_insts D') = inst_results (d_insts D) \<and>
    length (declarations (d_insts D')) = length (declarations (d_insts D)) \<and>
    length (defs (d_values D')) = length (defs (d_values D)) \<and>
    (\<forall>w < length (uses (d_values D)). attached (uses (d_values D) ! w) \<longrightarrow>
       DfgValues_use_to_value (d_values D') w (d_insts D') =
         map_option (\<lambda>v. if v = dst then src else v) (DfgValues_use_to_value (d_values D) w (d_insts D)))"
proof -
  let ?V = "d_values D" and ?I = "d_insts D"
  have ok: "Chains_ok ?V ?I U" "Operands_ok ?I ?V" using assms(1) by (simp_all add: Dfg_ok_def)
  define T where "T = (if v_tag (defs ?V ! src) = None
      then ?V\<lparr>defs := (defs ?V)[src := (defs ?V ! src)\<lparr>v_tag := v_tag (defs ?V ! dst)\<rparr>]\<rparr> else ?V)"
  have tag: "DfgValues_tag ?V src = Some (v_tag (defs ?V ! src))"
    "(if v_tag (defs ?V ! src) = None then do { tag \<leftarrow> DfgValues_tag ?V dst; DfgValues_set_tag src tag ?V }
      else Some ?V) = Some T"
    using assms(2,3) by (simp_all add: DfgValues_tag_def DfgValues_set_tag_def upd_def_def T_def)
  have len: "length (defs T) = length (defs ?V)" and us: "uses T = uses ?V"
    by (simp_all add: T_def)
  have okT: "Chains_ok T ?I U"
    using Chains_ok_def_data [OF ok(1) assms(3)] ok(1) by (simp add: T_def)
  have opT: "Operands_ok ?I T"
    by (rule Operands_ok_values [OF ok(2) len]) (use ok(2) in \<open>simp_all add: us Operands_ok_def\<close>)
  have tv: "DfgValues_use_to_value T w J = DfgValues_use_to_value ?V w J" for w J
    by (simp add: DfgValues_use_to_value_def us)
  note dst = chain [OF okT, of dst, unfolded len, OF assms(2)]
  have zs: "\<forall>z \<in> set (U dst). z < length (uses T) \<and> attached (uses T ! z)"
    using in_chain(2,3) [OF okT] by blast
  have "seg (unext T) (uprev T) None (U dst) None" using dst(1) by (simp add: dll_def)
  from replace_uses_loop_ok [OF this dst(2) zs _ opT, of src] assms(3) len obtain I' where I':
    "replace_uses_loop src T (first_of (U dst) None) ?I = Some I'" "Operands_ok I' T"
    "inst_operands I' = inst_operands ?I" "inst_results I' = inst_results ?I"
    "length (declarations I') = length (declarations ?I)"
    "\<forall>w < length (uses T). attached (uses T ! w) \<longrightarrow>
       DfgValues_use_to_value T w I' = (if w \<in> set (U dst) then Some src else DfgValues_use_to_value T w ?I)"
    by auto
  have vals: "DfgValues_use_to_value T w I' = Some (if x = dst then src else x)" if "w \<in> set (U x)" for w x
    using I'(6) in_chain(2-4) [OF okT that] one_chain [OF okT that, of dst] that by auto
  obtain V' where V': "spliced dst src T = Some V'" "Chains_ok V' I' (U(src := U dst @ U src, dst := []))"
    "length (defs V') = length (defs T)" "length (uses V') = length (uses T)"
    "\<forall>w < length (uses T). parent (uses V' ! w) = parent (uses T ! w) \<and>
      parent_idx (uses V' ! w) = parent_idx (uses T ! w) \<and> attached (uses V' ! w) = attached (uses T ! w)"
    using spliced_ok [OF okT _ _ assms(4) vals] assms(2,3) len by auto
  have "Operands_ok I' V'"
    by (rule Operands_ok_values [OF I'(2) V'(3,4)]) (use V'(5) I'(2) in \<open>auto simp: Operands_ok_def\<close>)
  moreover have "DfgValues_uses_head_cursor T dst = Some (first_of (U dst) None)"
    using dst(3) assms(2) len by (simp add: DfgValues_uses_head_cursor_def uhead_def)
  moreover have "DfgValues_use_to_value V' w I' =
      map_option (\<lambda>v. if v = dst then src else v) (DfgValues_use_to_value ?V w ?I)"
    if w: "w < length (uses ?V)" "attached (uses ?V ! w)" for w
  proof -
    obtain x where x: "w \<in> set (U x)" using in_chain_iff_attached [OF ok(1) w(1)] w(2) by blast
    have "DfgValues_use_to_value V' w I' = DfgValues_use_to_value T w I'"
      using use_to_value_eq [of w T V' I'] w(1) V'(4,5) us by simp
    then show ?thesis using vals [OF x] in_chain(4) [OF ok(1) x] by simp
  qed
  ultimately show ?thesis
    using tag I' V' assms(4) len by (simp add: Dfg_replace_uses_splices Dfg_ok_def)
qed


section \<open>Making an instruction\<close>

text \<open>The chains once the uses \<open>n\<close>, \<open>n + 1\<close>, \<open>\<dots>\<close> were made for the values \<open>vs\<close>.\<close>

fun push_uses :: "mir_use \<Rightarrow> mir_value list \<Rightarrow> (mir_value \<Rightarrow> mir_use list) \<Rightarrow> mir_value \<Rightarrow> mir_use list" where
  "push_uses n [] U = U"
| "push_uses n (v # vs) U = push_uses (n + 1) vs (U(v := n # U v))"

lemma in_push_uses:
  "w \<in> set (push_uses n vs U x) \<longleftrightarrow> w \<in> set (U x) \<or> (\<exists>k < length vs. w = n + k \<and> vs ! k = x)"
proof (induction vs arbitrary: n U)
  case (Cons v vs)
  have "(\<exists>k < length (v # vs). w = n + k \<and> (v # vs) ! k = x) \<longleftrightarrow>
      w = n \<and> v = x \<or> (\<exists>k < length vs. w = n + 1 + k \<and> vs ! k = x)"
    unfolding length_Cons Ex_less_Suc2 by simp
  moreover have "w \<in> set ((U(v := n # U v)) x) \<longleftrightarrow> w = n \<and> v = x \<or> w \<in> set (U x)" by simp
  ultimately show ?case unfolding push_uses.simps Cons.IH by blast
qed simp

lemma make_uses_loop_ok:
  assumes "Chains_ok V I U" "DfgInsts_args I i = Some (as @ vs)" "length as = k" "\<forall>v \<in> set vs. v < length (defs V)"
    and "k + length vs \<le> 2 ^ 16"
  shows "\<exists>V'. make_uses_loop i k vs V = Some (V', [length (uses V)..<length (uses V) + length vs]) \<and>
    Chains_ok V' I (push_uses (length (uses V)) vs U) \<and> length (defs V') = length (defs V) \<and>
    length (uses V') = length (uses V) + length vs \<and>
    (\<forall>w < length (uses V). parent (uses V' ! w) = parent (uses V ! w) \<and> parent_idx (uses V' ! w) = parent_idx (uses V ! w)) \<and>
    (\<forall>j < length vs. parent (uses V' ! (length (uses V) + j)) = i \<and> parent_idx (uses V' ! (length (uses V) + j)) = k + j)"
  using assms
proof (induction vs arbitrary: V U as k)
  case (Cons v vs)
  have v: "v < length (defs V)" "k < length (as @ v # vs)" "(as @ v # vs) ! k = v"
    using Cons.prems(3,4) by (simp_all add: nth_append)
  from DfgValues_make_use_ok [OF Cons.prems(1) v(1) Cons.prems(2) v(2,3)]
  obtain V1 where V1: "DfgValues_make_use v i k V = Some (V1, length (uses V))"
    "Chains_ok V1 I (U(v := length (uses V) # U v))" "length (defs V1) = length (defs V)"
    "length (uses V1) = Suc (length (uses V))"
    "\<forall>w < length (uses V). parent (uses V1 ! w) = parent (uses V ! w) \<and> parent_idx (uses V1 ! w) = parent_idx (uses V ! w)"
    "parent (uses V1 ! length (uses V)) = i" "parent_idx (uses V1 ! length (uses V)) = k"
    by blast
  have k: "k mod 2 ^ 16 = k" using Cons.prems(5) by simp
  have "DfgInsts_args I i = Some ((as @ [v]) @ vs)" "length (as @ [v]) = k + 1" "\<forall>v \<in> set vs. v < length (defs V1)"
    "k + 1 + length vs \<le> 2 ^ 16"
    using Cons.prems V1(3) by simp_all
  from Cons.IH [OF V1(2) this] obtain V2 where V2:
    "make_uses_loop i (k + 1) vs V1 = Some (V2, [length (uses V1)..<length (uses V1) + length vs])"
    "Chains_ok V2 I (push_uses (length (uses V1)) vs (U(v := length (uses V) # U v)))" "length (defs V2) = length (defs V1)"
    "length (uses V2) = length (uses V1) + length vs"
    "\<forall>w < length (uses V1). parent (uses V2 ! w) = parent (uses V1 ! w) \<and> parent_idx (uses V2 ! w) = parent_idx (uses V1 ! w)"
    "\<forall>j < length vs. parent (uses V2 ! (length (uses V1) + j)) = i \<and> parent_idx (uses V2 ! (length (uses V1) + j)) = k + 1 + j"
    by blast
  have "length (uses V) # [Suc (length (uses V))..<Suc (length (uses V) + length vs)] =
      [length (uses V)..<Suc (length (uses V) + length vs)]"
    by (rule sym, subst upt_conv_Cons) simp_all
  then have "make_uses_loop i k (v # vs) V = Some (V2, [length (uses V)..<length (uses V) + length (v # vs)])"
    using V1(1,4) V2(1) k by simp
  moreover have "parent (uses V2 ! (length (uses V) + j)) = i \<and> parent_idx (uses V2 ! (length (uses V) + j)) = k + j"
    if "j < Suc (length vs)" for j
    using that V1 V2 by (cases j) auto
  ultimately show ?case using V1 V2 by (intro exI [of _ V2]) auto
qed simp

lemma Dfg_make_inst_ok:
  assumes ok: "Dfg_ok D U" and args: "\<forall>v \<in> set (InstructionData_arguments data). v < length (defs (d_values D))"
    and len: "length (InstructionData_arguments data) \<le> 2 ^ 16"
  defines "i \<equiv> length (declarations (d_insts D))" and "n \<equiv> length (uses (d_values D))"
  shows "\<exists>D'. Dfg_make_inst data D = Some (D', i) \<and>
    Dfg_ok D' (push_uses n (InstructionData_arguments data) U) \<and>
    declarations (d_insts D') = declarations (d_insts D) @ [data] \<and>
    inst_results (d_insts D') = inst_results (d_insts D) @ [[]] \<and>
    length (defs (d_values D')) = length (defs (d_values D)) \<and>
    inst_operands (d_insts D') = inst_operands (d_insts D) @ [[n..<n + length (InstructionData_arguments data)]] \<and>
    length (uses (d_values D')) = n + length (InstructionData_arguments data)"
proof -
  let ?V = "d_values D" and ?I = "d_insts D" and ?vs = "InstructionData_arguments data"
  define I0 where "I0 = ?I\<lparr>inst_operands := inst_operands ?I @ [[]], inst_results := inst_results ?I @ [[]],
      declarations := declarations ?I @ [data]\<rparr>"
  have c: "Chains_ok ?V ?I U" "Operands_ok ?I ?V" using ok by (simp_all add: Dfg_ok_def)
  note tabs = operand_tables [OF c(2)]
  have c0: "Chains_ok ?V I0 U"
  proof (rule Chains_ok_insts [OF c(1)])
    fix v u assume u: "u \<in> set (U v)"
    have "parent (uses ?V ! u) < length (declarations ?I)" by (rule operand_of(1) [OF c(2) in_chain(2,3) [OF c(1) u]])
    then show "DfgValues_use_to_value ?V u I0 = DfgValues_use_to_value ?V u ?I"
      using in_chain(2) [OF c(1) u] by (simp add: DfgValues_use_to_value_def DfgInsts_args_def I0_def nth_append)
  qed
  have "DfgInsts_args I0 i = Some ([] @ ?vs)" by (simp add: DfgInsts_args_def I0_def i_def)
  from make_uses_loop_ok [OF c0 this, of 0] args len obtain V' where V':
    "make_uses_loop i 0 ?vs ?V = Some (V', [n..<n + length ?vs])" "Chains_ok V' I0 (push_uses n ?vs U)"
    "length (defs V') = length (defs ?V)" "length (uses V') = n + length ?vs"
    "\<forall>w < n. parent (uses V' ! w) = parent (uses ?V ! w) \<and> parent_idx (uses V' ! w) = parent_idx (uses ?V ! w)"
    "\<forall>j < length ?vs. parent (uses V' ! (n + j)) = i \<and> parent_idx (uses V' ! (n + j)) = j"
    unfolding n_def by auto
  define I' where "I' = I0\<lparr>inst_operands := inst_operands ?I @ [[n..<n + length ?vs]]\<rparr>"
  have up: "upd_operands i (\<lambda>old. old @ [n..<n + length ?vs]) I0 = Some I'"
    by (simp add: upd_operands_def I0_def I'_def i_def tabs(1) [symmetric])
  have "Chains_ok V' I' (push_uses n ?vs U)"
    by (rule Chains_ok_insts [OF V'(2)]) (simp add: DfgValues_use_to_value_def DfgInsts_args_def I'_def)
  moreover have "inst_operands_ok I' V' j" if "j < Suc i" for j
  proof (cases "j = i")
    case True
    then show ?thesis
      using tabs V'(3,4,6) args by (auto simp: inst_operands_ok_def I'_def I0_def i_def nth_append)
  next
    case False
    then have j: "j < length (declarations ?I)" using that by (simp add: i_def)
    then have "inst_operands_ok ?I ?V j" using c(2) by (simp add: Operands_ok_def)
    then show ?thesis
      using j tabs V'(3-5) by (auto simp: inst_operands_ok_def I'_def I0_def n_def nth_append)
  qed
  moreover have "registered I' (uses V' ! w) w" if w: "w < n + length ?vs" "attached (uses V' ! w)" for w
  proof (cases "w < n")
    case True
    obtain x where "w \<in> set (push_uses n ?vs U x)"
      using in_chain_iff_attached [OF V'(2), of w] w V'(4) by auto
    then have "w \<in> set (U x)" using True by (auto simp: in_push_uses)
    then have "registered ?I (uses ?V ! w) w"
      using in_chain(3) [OF c(1)] True c(2) by (auto simp: Operands_ok_def n_def)
    then show ?thesis
      using True V'(5) tabs by (auto simp: registered_def I'_def I0_def nth_append)
  next
    case False
    then obtain j where "w = n + j" "j < length ?vs" using w(1) by (metis le_iff_add linorder_not_less nat_add_left_cancel_less)
    then show ?thesis using V'(6) tabs by (auto simp: registered_def I'_def I0_def i_def nth_append)
  qed
  ultimately have "Dfg_ok (D\<lparr>d_insts := I', d_values := V'\<rparr>) (push_uses n ?vs U)"
    using tabs V'(4) by (simp add: Dfg_ok_def Operands_ok_def I'_def I0_def i_def)
  moreover have "Dfg_make_inst data D = Some (D\<lparr>d_insts := I', d_values := V'\<rparr>, i)"
    using V'(1) up by (simp add: Dfg_make_inst_def Let_def I0_def i_def)
  ultimately show ?thesis
    using V'(3,4) tabs by (intro exI) (auto simp: I'_def I0_def i_def)
qed

end
