(* ===== verification/Ordered_Map.thy ===== *)
theory Ordered_Map
  imports Prelude
begin

text \<open>
  The ordered maps and sets of \<^verbatim>\<open>lib/bforest\<close> as their clients in the MIR use them: keys in
  ascending order, at most one entry per key. The B+-tree itself is not modelled; a map is its
  ascending list of entries. The locale \<open>key_map\<close> states what a client relies on, and the
  association lists are its interpretation.
\<close>

section \<open>Association lists in ascending order of keys\<close>

type_synonym 'v omap = "(nat \<times> 'v) list"

definition omap_get :: "nat \<Rightarrow> 'v omap \<Rightarrow> 'v option" where
  "omap_get k m = map_of m k"

fun omap_insert :: "nat \<Rightarrow> 'v \<Rightarrow> 'v omap \<Rightarrow> 'v omap" where
  "omap_insert k v [] = [(k, v)]"
| "omap_insert k v ((k', v') # m) =
     (if k < k' then (k, v) # (k', v') # m
      else if k = k' then (k, v) # m
      else (k', v') # omap_insert k v m)"

definition omap_remove :: "nat \<Rightarrow> 'v omap \<Rightarrow> 'v omap" where
  "omap_remove k m = filter (\<lambda>e. fst e \<noteq> k) m"

definition omap_ok :: "'v omap \<Rightarrow> bool" where
  "omap_ok m \<longleftrightarrow> sorted_wrt (<) (map fst m)"

lemma omap_insert_keys: "set (map fst (omap_insert k v m)) = insert k (set (map fst m))"
  by (induction k v m rule: omap_insert.induct) auto

lemma omap_insert_ok: "omap_ok m \<Longrightarrow> omap_ok (omap_insert k v m)"
proof (induction k v m rule: omap_insert.induct)
  case (2 k v k' v' m)
  then show ?case using omap_insert_keys [of k v m] by (auto simp: omap_ok_def)
qed (simp add: omap_ok_def)

lemma omap_get_insert: "omap_ok m \<Longrightarrow> omap_get j (omap_insert k v m) = (if j = k then Some v else omap_get j m)"
proof (induction k v m rule: omap_insert.induct)
  case (2 k v k' v' m)
  then show ?case by (auto simp: omap_ok_def omap_get_def)
qed (simp add: omap_get_def)

lemma map_of_insert_neq: "j \<noteq> k \<Longrightarrow> map_of (omap_insert k v m) j = map_of m j"
  by (induction k v m rule: omap_insert.induct) auto

lemma omap_remove_ok: "omap_ok m \<Longrightarrow> omap_ok (omap_remove k m)"
  by (induction m) (auto simp: omap_ok_def omap_remove_def)

lemma omap_get_remove: "omap_get j (omap_remove k m) = (if j = k then None else omap_get j m)"
  by (induction m) (auto simp: omap_get_def omap_remove_def)

section \<open>The interface of a map\<close>

locale key_map =
  fixes get :: "nat \<Rightarrow> 'm \<Rightarrow> 'v option"
    and insert_kv :: "nat \<Rightarrow> 'v \<Rightarrow> 'm \<Rightarrow> 'm"
    and remove_k :: "nat \<Rightarrow> 'm \<Rightarrow> 'm"
    and ok :: "'m \<Rightarrow> bool"
  assumes get_insert: "ok m \<Longrightarrow> get j (insert_kv k v m) = (if j = k then Some v else get j m)"
    and insert_ok: "ok m \<Longrightarrow> ok (insert_kv k v m)"
    and get_remove: "ok m \<Longrightarrow> get j (remove_k k m) = (if j = k then None else get j m)"
    and remove_ok: "ok m \<Longrightarrow> ok (remove_k k m)"
begin

text \<open>Moving an entry to another key, as the update of phi edges does it.\<close>

lemma get_rename:
  assumes "ok m"
  shows "get j (insert_kv new v (remove_k old m)) =
    (if j = new then Some v else if j = old then None else get j m)"
  using assms by (simp add: get_insert get_remove remove_ok)

lemma rename_ok: "ok m \<Longrightarrow> ok (insert_kv new v (remove_k old m))"
  by (simp add: insert_ok remove_ok)

lemma get_insert_insert:
  "ok m \<Longrightarrow> get j (insert_kv k v (insert_kv k w m)) = get j (insert_kv k v m)"
  by (simp add: get_insert insert_ok)

end

interpretation omap: key_map omap_get omap_insert omap_remove omap_ok
  by unfold_locales (simp_all add: omap_get_insert omap_insert_ok omap_get_remove omap_remove_ok)

section \<open>Ordered sets\<close>

type_synonym oset = "nat list"

fun oset_insert :: "nat \<Rightarrow> oset \<Rightarrow> oset" where
  "oset_insert k [] = [k]"
| "oset_insert k (k' # s) = (if k < k' then k # k' # s else if k = k' then k' # s else k' # oset_insert k s)"

definition oset_remove :: "nat \<Rightarrow> oset \<Rightarrow> oset" where
  "oset_remove k s = filter (\<lambda>x. x \<noteq> k) s"

definition oset_ok :: "oset \<Rightarrow> bool" where
  "oset_ok s \<longleftrightarrow> sorted_wrt (<) s"

lemma set_oset_insert [simp]: "set (oset_insert k s) = insert k (set s)"
  by (induction k s rule: oset_insert.induct) auto

lemma oset_insert_ok [simp]: "oset_ok s \<Longrightarrow> oset_ok (oset_insert k s)"
  by (induction k s rule: oset_insert.induct) (auto simp: oset_ok_def)

lemma set_oset_remove [simp]: "set (oset_remove k s) = set s - {k}"
  by (auto simp: oset_remove_def)

lemma oset_remove_ok [simp]: "oset_ok s \<Longrightarrow> oset_ok (oset_remove k s)"
  by (auto simp: oset_ok_def oset_remove_def intro: sorted_wrt_filter)

lemma oset_ok_Nil [simp]: "oset_ok []"
  by (simp add: oset_ok_def)

lemma oset_distinct: "oset_ok s \<Longrightarrow> distinct s"
  by (induction s) (auto simp: oset_ok_def)

lemma oset_ext: "oset_ok s \<Longrightarrow> oset_ok t \<Longrightarrow> set s = set t \<Longrightarrow> s = t"
  by (simp add: oset_ok_def strict_sorted_equal)

end
