(* ===== verification/Dfg_Phi.thy ===== *)
theory Dfg_Phi
  imports Dfg Ordered_Map
begin

text \<open>
  The edges of phi instructions, \<^verbatim>\<open>openvaf/mir/src/dfg/phis.rs\<close>. A phi maps a predecessor block
  to the position of its argument. An edge that is removed leaves its argument in place, detached
  and replaced by \<open>GRAVESTONE\<close>; an edge that is inserted anew appends an argument.
\<close>

section \<open>Operations\<close>

definition set_declaration :: "inst \<Rightarrow> instruction_data \<Rightarrow> inst_table \<Rightarrow> inst_table panics" where
  "set_declaration i d I = do { ds \<leftarrow> vec_set (declarations I) i d; Some (I\<lparr>declarations := ds\<rparr>) }"

definition Dfg_insert_phi_edge :: "inst \<Rightarrow> block \<Rightarrow> mir_value \<Rightarrow> dfg \<Rightarrow> dfg panics" where
  "Dfg_insert_phi_edge inst block val D =
     do { d \<leftarrow> vec_get (declarations (d_insts D)) inst;
          n \<leftarrow> InstructionData_unwrap_phi d;
          (case omap_get block (phi_blocks n) of
             Some arg \<Rightarrow>
               do { us \<leftarrow> DfgInsts_operands (d_insts D) inst;
                    u \<leftarrow> vec_get us arg;
                    V \<leftarrow> DfgValues_detach_use u (d_insts D) (d_values D);
                    args \<leftarrow> vec_set (phi_args n) arg val;
                    V \<leftarrow> DfgValues_attach_use u val V;
                    I \<leftarrow> set_declaration inst
                      (PhiNode \<lparr>phi_args = args, phi_blocks = omap_insert block arg (phi_blocks n)\<rparr>) (d_insts D);
                    Some (D\<lparr>d_insts := I, d_values := V\<rparr>) }
           | None \<Rightarrow>
               do { let arg = length (phi_args n);
                    (V, u) \<leftarrow> DfgValues_make_use val inst (arg mod 2 ^ 16) (d_values D);
                    I \<leftarrow> upd_operands inst (\<lambda>us. us @ [u]) (d_insts D);
                    I \<leftarrow> set_declaration inst
                      (PhiNode \<lparr>phi_args = phi_args n @ [val], phi_blocks = omap_insert block arg (phi_blocks n)\<rparr>) I;
                    Some (D\<lparr>d_insts := I, d_values := V\<rparr>) }) }"

definition Dfg_try_remove_phi_edge ::
    "phi_node \<Rightarrow> inst \<Rightarrow> block \<Rightarrow> dfg \<Rightarrow> (dfg \<times> phi_node \<times> (mir_value \<times> nat) option) panics" where
  "Dfg_try_remove_phi_edge n inst block D =
     (case omap_get block (phi_blocks n) of
        Some pos \<Rightarrow>
          do { D \<leftarrow> Dfg_detach_operand inst (pos mod 2 ^ 16) D;
               val \<leftarrow> vec_get (phi_args n) pos;
               args \<leftarrow> vec_set (phi_args n) pos GRAVESTONE;
               Some (D, \<lparr>phi_args = args, phi_blocks = omap_remove block (phi_blocks n)\<rparr>, Some (val, pos)) }
      | None \<Rightarrow> Some (D, n, None))"

definition Dfg_try_remove_phi_edge_at ::
    "inst \<Rightarrow> block \<Rightarrow> dfg \<Rightarrow> (dfg \<times> (mir_value \<times> nat) option) panics" where
  "Dfg_try_remove_phi_edge_at inst block D =
     do { d \<leftarrow> vec_get (declarations (d_insts D)) inst;
          (case d of
             PhiNode n \<Rightarrow>
               (case omap_get block (phi_blocks n) of
                  Some pos \<Rightarrow>
                    do { D \<leftarrow> Dfg_detach_operand inst (pos mod 2 ^ 16) D;
                         val \<leftarrow> vec_get (phi_args n) pos;
                         args \<leftarrow> vec_set (phi_args n) pos GRAVESTONE;
                         I \<leftarrow> set_declaration inst
                           (PhiNode \<lparr>phi_args = args, phi_blocks = omap_remove block (phi_blocks n)\<rparr>) (d_insts D);
                         Some (D\<lparr>d_insts := I\<rparr>, Some (val, pos)) }
                | None \<Rightarrow> Some (D, None))
           | _ \<Rightarrow> Some (D, None)) }"

definition Dfg_phi_edges :: "phi_node \<Rightarrow> (block \<times> mir_value) list panics" where
  "Dfg_phi_edges n = PhiNode_edges n"

definition Dfg_phi_edge_val :: "phi_node \<Rightarrow> block \<Rightarrow> mir_value option panics" where
  "Dfg_phi_edge_val n pred = PhiNode_edge_val n pred"

definition Dfg_phi_eq :: "phi_node \<Rightarrow> phi_node \<Rightarrow> bool panics" where
  "Dfg_phi_eq a b = PhiNode_eq a b"

section \<open>The edges after an operation\<close>

definition phi_ok :: "phi_node \<Rightarrow> bool" where
  "phi_ok n \<longleftrightarrow> omap_ok (phi_blocks n) \<and> (\<forall>b p. omap_get b (phi_blocks n) = Some p \<longrightarrow> p < length (phi_args n)) \<and>
     (\<forall>b c p. omap_get b (phi_blocks n) = Some p \<and> omap_get c (phi_blocks n) = Some p \<longrightarrow> b = c)"

definition edge :: "phi_node \<Rightarrow> block \<Rightarrow> mir_value option" where
  "edge n b = map_option (\<lambda>p. phi_args n ! p) (omap_get b (phi_blocks n))"

lemma edge_val: "phi_ok n \<Longrightarrow> PhiNode_edge_val n b = Some (edge n b)"
  by (auto simp: PhiNode_edge_val_def PhiNode_edge_operand_def edge_def phi_ok_def omap_get_def split: option.split)

lemma phi_ok_set:
  fixes v :: mir_value
  assumes "phi_ok n" "omap_get b (phi_blocks n) = Some p"
  defines "m \<equiv> \<lparr>phi_args = (phi_args n)[p := v], phi_blocks = omap_insert b p (phi_blocks n)\<rparr>"
  shows "phi_ok m" "edge m = (edge n)(b := Some v)"
proof -
  have ok: "omap_ok (phi_blocks n)" "p < length (phi_args n)" using assms(1,2) by (auto simp: phi_ok_def)
  have get: "omap_get c (omap_insert b p (phi_blocks n)) = omap_get c (phi_blocks n)" for c
    using assms(2) by (simp add: omap_get_insert [OF ok(1)])
  have other: "q \<noteq> p" if "omap_get c (phi_blocks n) = Some q" "c \<noteq> b" for c q
    using assms(1,2) that unfolding phi_ok_def by blast
  show "phi_ok m"
    using assms(1) omap_insert_ok [OF ok(1)] by (auto simp: phi_ok_def m_def get)
  show "edge m = (edge n)(b := Some v)"
  proof
    fix c show "edge m c = ((edge n)(b := Some v)) c"
      using ok(2) other [of c] assms(2) by (cases "omap_get c (phi_blocks n)") (auto simp: edge_def m_def get)
  qed
qed

lemma phi_ok_add:
  fixes v :: mir_value
  assumes "phi_ok n" "omap_get b (phi_blocks n) = None"
  defines "m \<equiv> \<lparr>phi_args = phi_args n @ [v], phi_blocks = omap_insert b (length (phi_args n)) (phi_blocks n)\<rparr>"
  shows "phi_ok m" "edge m = (edge n)(b := Some v)"
proof -
  have ok: "omap_ok (phi_blocks n)" using assms(1) by (simp add: phi_ok_def)
  have lt: "q < length (phi_args n)" if "omap_get c (phi_blocks n) = Some q" for c q
    using assms(1) that by (simp add: phi_ok_def)
  show "phi_ok m"
    using assms(1) omap_insert_ok [OF ok] lt
    by (auto simp: phi_ok_def m_def omap_get_insert [OF ok] less_Suc_eq split: if_splits)
  show "edge m = (edge n)(b := Some v)"
  proof
    fix c show "edge m c = ((edge n)(b := Some v)) c"
      using lt [of c] by (cases "omap_get c (phi_blocks n)") (auto simp: edge_def m_def omap_get_insert [OF ok] nth_append)
  qed
qed

lemma phi_ok_remove:
  fixes v :: mir_value
  assumes "phi_ok n" "omap_get b (phi_blocks n) = Some p"
  defines "m \<equiv> \<lparr>phi_args = (phi_args n)[p := v], phi_blocks = omap_remove b (phi_blocks n)\<rparr>"
  shows "phi_ok m" "edge m = (edge n)(b := None)"
proof -
  have ok: "omap_ok (phi_blocks n)" using assms(1) by (simp add: phi_ok_def)
  have other: "q \<noteq> p" if "omap_get c (phi_blocks n) = Some q" "c \<noteq> b" for c q
    using assms(1,2) that unfolding phi_ok_def by blast
  show "phi_ok m"
    using assms(1) omap_remove_ok [OF ok] by (auto simp: phi_ok_def m_def omap_get_remove split: if_splits)
  show "edge m = (edge n)(b := None)"
  proof
    fix c show "edge m c = ((edge n)(b := None)) c"
      using other [of c] by (cases "omap_get c (phi_blocks n)") (auto simp: edge_def m_def omap_get_remove)
  qed
qed


section \<open>The graph after an operation\<close>

text \<open>A declaration can be replaced by one with the same arguments.\<close>

lemma Dfg_ok_same_args:
  assumes "Dfg_ok D U" "i < length (declarations (d_insts D))"
    and "InstructionData_arguments d = InstructionData_arguments (declarations (d_insts D) ! i)"
  shows "Dfg_ok (D\<lparr>d_insts := (d_insts D)\<lparr>declarations := (declarations (d_insts D))[i := d]\<rparr>\<rparr>) U"
proof -
  let ?I = "d_insts D" and ?I' = "(d_insts D)\<lparr>declarations := (declarations (d_insts D))[i := d]\<rparr>"
  have args: "InstructionData_arguments (declarations ?I' ! j) = InstructionData_arguments (declarations ?I ! j)" for j
    using assms(2,3) by (cases "j = i") auto
  have "DfgValues_use_to_value V u ?I' = DfgValues_use_to_value V u ?I" for V u
  proof -
    have "DfgInsts_args ?I' j = DfgInsts_args ?I j" for j
      using args [of j] by (simp add: DfgInsts_args_def vec_get_def)
    then show ?thesis by (simp only: DfgValues_use_to_value_def)
  qed
  then have "Chains_ok (d_values D) ?I' U"
    using assms(1) Chains_ok_insts by (auto simp: Dfg_ok_def)
  moreover have "inst_operands_ok ?I' (d_values D) j" if "j < length (declarations ?I)" for j
    using assms(1) that args [of j] by (simp add: Dfg_ok_def Operands_ok_def inst_operands_ok_def)
  ultimately show ?thesis
    using assms(1) by (simp add: Dfg_ok_def Operands_ok_def registered_def)
qed

definition phi_attached :: "dfg \<Rightarrow> inst \<Rightarrow> phi_node \<Rightarrow> bool" where
  "phi_attached D i n \<longleftrightarrow> (\<forall>b p. omap_get b (phi_blocks n) = Some p \<longrightarrow>
     attached (uses (d_values D) ! (inst_operands (d_insts D) ! i ! p)))"

lemma insert_existing_edge:
  assumes ok: "Dfg_ok D U" and i: "i < length (declarations (d_insts D))" "declarations (d_insts D) ! i = PhiNode n"
    and n: "phi_ok n" "phi_attached D i n" "omap_get b (phi_blocks n) = Some p" and val: "val < length (defs (d_values D))"
  defines "m \<equiv> \<lparr>phi_args = (phi_args n)[p := val], phi_blocks = omap_insert b p (phi_blocks n)\<rparr>"
  shows "\<exists>D' U'. Dfg_insert_phi_edge i b val D = Some D' \<and> Dfg_ok D' U' \<and>
    declarations (d_insts D') = (declarations (d_insts D))[i := PhiNode m]"
proof -
  let ?I = "d_insts D" and ?V = "d_values D"
  have op: "Operands_ok ?I ?V" using ok by (simp add: Dfg_ok_def)
  have args: "InstructionData_arguments (declarations ?I ! i) = phi_args n"
    by (simp add: i(2) InstructionData_arguments_def)
  have p: "p < length (phi_args n)" using n(1,3) by (auto simp: phi_ok_def)
  define u where "u = inst_operands ?I ! i ! p"
  note at = operand_at [OF op i(1), unfolded args, OF p]
  have att: "attached (uses ?V ! u)" using n(2,3) by (simp add: phi_attached_def u_def)
  have "u \<in> set (U (phi_args n ! p))"
    using operand_in_chain [OF ok i(1) _ u_def att, unfolded args, OF p] .
  then obtain xs ys where "U (phi_args n ! p) = xs @ u # ys" by (auto simp: in_set_conv_decomp)
  from Dfg_use_set_value_ok [OF ok _ this val] obtain D1 U1 where
    D1: "Dfg_use_set_value u val D = Some D1" "Dfg_ok D1 U1"
    using \<open>u \<in> set (U (phi_args n ! p))\<close> by blast
  then obtain V1 V2 I1 where V: "DfgValues_detach_use u ?I ?V = Some V1" "DfgValues_attach_use u val V1 = Some V2"
    "DfgInsts_set_arg (parent (uses V1 ! u)) (parent_idx (uses V1 ! u)) val ?I = Some I1"
    "D1 = D\<lparr>d_insts := I1, d_values := V2\<rparr>"
    by (auto simp: Dfg_use_set_value_def bind_eq_Some_conv vec_get_Some_iff)
  have "parent (uses V1 ! u) = i" "parent_idx (uses V1 ! u) = p"
    using DfgValues_detach_use_ok [of ?V ?I U "phi_args n ! p" xs u ys] ok
      \<open>U (phi_args n ! p) = xs @ u # ys\<close> V(1) at(2-4) by (auto simp: Dfg_ok_def u_def)
  then have I1: "I1 = ?I\<lparr>declarations := (declarations ?I)[i := PhiNode (n\<lparr>phi_args := (phi_args n)[p := val]\<rparr>)]\<rparr>"
    using V(3) i p by (auto simp: DfgInsts_set_arg_def InstructionData_set_argument_def InstructionData_arguments_def)
  let ?I2 = "?I\<lparr>declarations := (declarations ?I)[i := PhiNode m]\<rparr>"
  have "Dfg_ok (D1\<lparr>d_insts := (d_insts D1)\<lparr>declarations := (declarations (d_insts D1))[i := PhiNode m]\<rparr>\<rparr>) U1"
    by (rule Dfg_ok_same_args [OF D1(2)])
      (use i(1) in \<open>simp_all add: V(4) I1 m_def InstructionData_arguments_def\<close>)
  then have "Dfg_ok (D\<lparr>d_insts := ?I2, d_values := V2\<rparr>) U1"
    by (simp add: V(4) I1 Dfg_ok_def)
  moreover have "Dfg_insert_phi_edge i b val D = Some (D\<lparr>d_insts := ?I2, d_values := V2\<rparr>)"
    using i p n(3) V(1,2) at(1) operand_tables(1) [OF op]
    by (simp add: Dfg_insert_phi_edge_def InstructionData_unwrap_phi_def set_declaration_def DfgInsts_operands_def
        u_def m_def)
  ultimately show ?thesis by (intro exI [of _ "D\<lparr>d_insts := ?I2, d_values := V2\<rparr>"] exI [of _ U1]) simp
qed


lemma insert_new_edge:
  assumes ok: "Dfg_ok D U" and i: "i < length (declarations (d_insts D))" "declarations (d_insts D) ! i = PhiNode n"
    and n: "omap_get b (phi_blocks n) = None" "length (phi_args n) < 2 ^ 16" and val: "val < length (defs (d_values D))"
  defines "m \<equiv> \<lparr>phi_args = phi_args n @ [val], phi_blocks = omap_insert b (length (phi_args n)) (phi_blocks n)\<rparr>"
  shows "\<exists>D' U'. Dfg_insert_phi_edge i b val D = Some D' \<and> Dfg_ok D' U' \<and>
    declarations (d_insts D') = (declarations (d_insts D))[i := PhiNode m]"
proof -
  let ?I = "d_insts D" and ?V = "d_values D" and ?k = "length (phi_args n)" and ?u = "length (uses (d_values D))"
  have c: "Chains_ok ?V ?I U" "Operands_ok ?I ?V" using ok by (simp_all add: Dfg_ok_def)
  note tabs = operand_tables [OF c(2)]
  have args: "InstructionData_arguments (declarations ?I ! i) = phi_args n"
    by (simp add: i(2) InstructionData_arguments_def)
  define I1 where "I1 = ?I\<lparr>declarations := (declarations ?I)[i := PhiNode m]\<rparr>"
  have args1: "InstructionData_arguments (declarations I1 ! j) =
      InstructionData_arguments (declarations ?I ! j) @ (if j = i then [val] else [])" for j
    using i args by (cases "j = i") (auto simp: I1_def m_def InstructionData_arguments_def)
  have "Chains_ok ?V I1 U"
  proof (rule Chains_ok_insts [OF c(1)])
    fix v u assume u: "u \<in> set (U v)"
    note of = operand_of [OF c(2) in_chain(2,3) [OF c(1) u]]
    show "DfgValues_use_to_value ?V u I1 = DfgValues_use_to_value ?V u ?I"
      using of(1,2) in_chain(2) [OF c(1) u] args1 [of "parent (uses ?V ! u)"]
      by (simp add: DfgValues_use_to_value_def DfgInsts_args_def nth_append vec_get_def) (simp add: I1_def)
  qed
  moreover have "DfgInsts_args I1 i = Some (phi_args n @ [val])"
    using i(1) args1 [of i] args by (simp add: DfgInsts_args_def) (simp add: I1_def)
  ultimately obtain V' where V': "DfgValues_make_use val i ?k ?V = Some (V', ?u)"
    "Chains_ok V' I1 (U(val := ?u # U val))" "length (defs V') = length (defs ?V)" "length (uses V') = Suc ?u"
    "\<forall>w < ?u. parent (uses V' ! w) = parent (uses ?V ! w) \<and> parent_idx (uses V' ! w) = parent_idx (uses ?V ! w)"
    "parent (uses V' ! ?u) = i" "parent_idx (uses V' ! ?u) = ?k"
    using DfgValues_make_use_ok [of ?V I1 U val i "phi_args n @ [val]" ?k] val by auto
  define I2 where "I2 = I1\<lparr>inst_operands := (inst_operands ?I)[i := inst_operands ?I ! i @ [?u]]\<rparr>"
  have "Chains_ok V' I2 (U(val := ?u # U val))"
    by (rule Chains_ok_insts [OF V'(2)]) (simp add: DfgValues_use_to_value_def DfgInsts_args_def I2_def)
  moreover have "inst_operands_ok I2 V' j" if j: "j < length (declarations ?I)" for j
  proof -
    have "inst_operands_ok ?I ?V j" using c(2) j by (simp add: Operands_ok_def)
    then show ?thesis
      using j i tabs V'(3-7) args1 [of j] args val
      by (cases "j = i") (auto simp: inst_operands_ok_def I2_def I1_def nth_append less_Suc_eq)
  qed
  moreover have "registered I2 (uses V' ! w) w" if w: "w < Suc ?u" "attached (uses V' ! w)" for w
  proof (cases "w = ?u")
    case True
    have "length (inst_operands ?I ! i) = ?k"
      using c(2) i(1) args by (simp add: Operands_ok_def inst_operands_ok_def)
    then show ?thesis using True V'(6,7) i tabs by (simp add: registered_def I2_def I1_def nth_append)
  next
    case False
    then have lt: "w < ?u" using w(1) by simp
    obtain x where "w \<in> set ((U(val := ?u # U val)) x)"
      using in_chain_iff_attached [OF V'(2), of w] w V'(4) by auto
    then have "w \<in> set (U x)" using False by (auto split: if_splits)
    then have "registered ?I (uses ?V ! w) w"
      using in_chain(3) [OF c(1)] lt c(2) by (auto simp: Operands_ok_def)
    then show ?thesis
      using lt V'(5) i tabs by (auto simp: registered_def I2_def I1_def nth_list_update nth_append)
  qed
  ultimately have "Dfg_ok (D\<lparr>d_insts := I2, d_values := V'\<rparr>) (U(val := ?u # U val))"
    using tabs V'(4) by (simp add: Dfg_ok_def Operands_ok_def) (simp add: I2_def I1_def)
  moreover have "Dfg_insert_phi_edge i b val D = Some (D\<lparr>d_insts := I2, d_values := V'\<rparr>)"
    using i n V'(1) tabs
    by (simp add: Dfg_insert_phi_edge_def InstructionData_unwrap_phi_def set_declaration_def upd_operands_def
        I2_def I1_def m_def)
  ultimately show ?thesis
    by (intro exI [of _ "D\<lparr>d_insts := I2, d_values := V'\<rparr>"] exI) (auto simp: I2_def I1_def)
qed

text \<open>
  C20: inserting a phi edge makes the phi map the predecessor to the value and leaves its other
  edges alone, whether the predecessor had an edge before or not; no other instruction changes,
  and uses and operands stay in step.
\<close>

theorem insert_phi_edge_maps:
  assumes "Dfg_ok D U" "i < length (declarations (d_insts D))" "declarations (d_insts D) ! i = PhiNode n"
    and "phi_ok n" "phi_attached D i n" "length (phi_args n) < 2 ^ 16" "val < length (defs (d_values D))"
  shows "\<exists>D' U' m. Dfg_insert_phi_edge i b val D = Some D' \<and> Dfg_ok D' U' \<and>
    declarations (d_insts D') = (declarations (d_insts D))[i := PhiNode m] \<and> phi_ok m \<and>
    (\<forall>c. PhiNode_edge_val m c = (if c = b then Some (Some val) else PhiNode_edge_val n c))"
proof -
  have "\<exists>D' U' m. Dfg_insert_phi_edge i b val D = Some D' \<and> Dfg_ok D' U' \<and>
    declarations (d_insts D') = (declarations (d_insts D))[i := PhiNode m] \<and> phi_ok m \<and> edge m = (edge n)(b := Some val)"
  proof (cases "omap_get b (phi_blocks n)")
    case None
    from insert_new_edge [OF assms(1-3) None assms(6,7)] phi_ok_add [OF assms(4) None, of val] show ?thesis by blast
  next
    case (Some p)
    from insert_existing_edge [OF assms(1-5) Some assms(7)] phi_ok_set [OF assms(4) Some, of val] show ?thesis by blast
  qed
  then obtain D' U' m where m: "Dfg_insert_phi_edge i b val D = Some D'" "Dfg_ok D' U'"
    "declarations (d_insts D') = (declarations (d_insts D))[i := PhiNode m]" "phi_ok m" "edge m = (edge n)(b := Some val)"
    by blast
  then have "PhiNode_edge_val m c = (if c = b then Some (Some val) else PhiNode_edge_val n c)" for c
    using edge_val [OF assms(4)] edge_val [OF m(4)] by simp
  with m show ?thesis by blast
qed


lemma empty_phi:
  "\<exists>D U. Dfg_ok D U \<and> declarations (d_insts D) = [PhiNode \<lparr>phi_args = [], phi_blocks = []\<rparr>] \<and>
     length (defs (d_values D)) = 1"
proof -
  define D where "D = \<lparr>d_insts = \<lparr>declarations = [PhiNode \<lparr>phi_args = [], phi_blocks = []\<rparr>], inst_results = [[]],
      inst_operands = [[]]\<rparr>, d_values = fst (DfgValues_make (VParam 0) None (DfgValues_clear undefined)), d_signatures = []\<rparr>"
  have "Dfg_ok D (\<lambda>_. [])"
    by (simp add: D_def Dfg_ok_def Chains_ok_def Operands_ok_def inst_operands_ok_def DfgValues_make_def
        DfgValues_clear_def ValueData_new_def chain_defs InstructionData_arguments_def)
  then show ?thesis by (intro exI [of _ D]) (auto simp: D_def DfgValues_make_def DfgValues_clear_def)
qed

theorem insert_phi_edge_maps_witness:
  "\<exists>D D' m. Dfg_insert_phi_edge 0 5 0 D = Some D' \<and> declarations (d_insts D') = [PhiNode m] \<and>
     PhiNode_edge_val m 5 = Some (Some 0) \<and> PhiNode_edge_val m 6 = Some None"
proof -
  let ?n = "\<lparr>phi_args = [], phi_blocks = []\<rparr> :: phi_node"
  obtain D U where D: "Dfg_ok D U" "declarations (d_insts D) = [PhiNode ?n]" "length (defs (d_values D)) = 1"
    using empty_phi by blast
  have "0 < length (declarations (d_insts D))" "declarations (d_insts D) ! 0 = PhiNode ?n" "phi_ok ?n"
    "phi_attached D 0 ?n" "length (phi_args ?n) < 2 ^ 16" "0 < length (defs (d_values D))"
    using D(2,3) by (simp_all add: phi_ok_def omap_ok_def omap_get_def phi_attached_def)
  from insert_phi_edge_maps [OF D(1) this, of 5] obtain D' m where
    "Dfg_insert_phi_edge 0 5 0 D = Some D'" "declarations (d_insts D') = (declarations (d_insts D))[0 := PhiNode m]"
    "\<forall>c. PhiNode_edge_val m c = (if c = 5 then Some (Some 0) else PhiNode_edge_val ?n c)" by blast
  moreover have "PhiNode_edge_val ?n 6 = Some None"
    by (simp add: PhiNode_edge_val_def PhiNode_edge_operand_def)
  ultimately show ?thesis using D(2) by (intro exI [of _ D] exI [of _ D'] exI [of _ m]) simp
qed

end
