(* ===== verification/Layout.thy ===== *)
theory Layout
  imports Linked_List
begin

text \<open>
  The layout of a MIR function, \<^verbatim>\<open>openvaf/mir/src/layout.rs\<close>: the order of the basic
  blocks and of the instructions in each block, kept as doubly linked lists threaded through two
  tables. Blocks and instructions are table indices (\<open>nat\<close>); a \<open>PackedOption\<close> is an \<open>option\<close>; a
  \<open>TiVec\<close> is a vector indexed by such an entity. Debug assertions panic, as in a debug build.
  \<open>Layout_ok L bs ils\<close> says that the links spell the block order \<open>bs\<close> and the instruction lists
  \<open>ils b\<close>; every operation is shown to succeed on such a layout and to change \<open>bs\<close> and \<open>ils\<close> as
  its documentation says.
\<close>

section \<open>State\<close>

record block_node =
  bn_prev :: "block option"
  bn_next :: "block option"
  first_inst :: "inst option"
  last_inst :: "inst option"

record inst_node =
  in_block :: "block option"
  in_prev :: "inst option"
  in_next :: "inst option"

record layout =
  blocks :: "block_node list"
  insts :: "inst_node list"
  first_block :: "block option"
  last_block :: "block option"

definition BlockNode_default :: block_node where
  "BlockNode_default = \<lparr>bn_prev = None, bn_next = None, first_inst = None, last_inst = None\<rparr>"

definition InstNode_default :: inst_node where
  "InstNode_default = \<lparr>in_block = None, in_prev = None, in_next = None\<rparr>"

definition Layout_new :: layout where
  "Layout_new = \<lparr>blocks = [], insts = [], first_block = None, last_block = None\<rparr>"

definition Layout_clear :: "layout \<Rightarrow> layout" where
  "Layout_clear L = L\<lparr>blocks := [], insts := [], first_block := None, last_block := None\<rparr>"

definition Layout_num_blocks :: "layout \<Rightarrow> nat" where
  "Layout_num_blocks L = length (blocks L)"

text \<open>Assignments to the fields of one table entry; the index is checked.\<close>

definition upd_block :: "block \<Rightarrow> (block_node \<Rightarrow> block_node) \<Rightarrow> layout \<Rightarrow> layout panics" where
  "upd_block b f L = do { n \<leftarrow> vec_get (blocks L) b; Some (L\<lparr>blocks := (blocks L)[b := f n]\<rparr>) }"

definition upd_inst :: "inst \<Rightarrow> (inst_node \<Rightarrow> inst_node) \<Rightarrow> layout \<Rightarrow> layout panics" where
  "upd_inst i f L = do { n \<leftarrow> vec_get (insts L) i; Some (L\<lparr>insts := (insts L)[i := f n]\<rparr>) }"

section \<open>Blocks\<close>

definition Layout_make_block :: "layout \<Rightarrow> layout \<times> block" where
  "Layout_make_block L = (L\<lparr>blocks := blocks L @ [BlockNode_default]\<rparr>, length (blocks L))"

definition Layout_is_block_inserted :: "layout \<Rightarrow> block \<Rightarrow> bool panics" where
  "Layout_is_block_inserted L block =
     (if Some block = first_block L then Some True
      else do { n \<leftarrow> vec_get (blocks L) block; Some (bn_prev n \<noteq> None) })"

definition Layout_append_block :: "layout \<Rightarrow> block \<Rightarrow> layout panics" where
  "Layout_append_block L block =
     do { inserted \<leftarrow> Layout_is_block_inserted L block;
          _ \<leftarrow> rust_assert (\<not> inserted);
          node \<leftarrow> vec_get (blocks L) block;
          _ \<leftarrow> rust_assert (first_inst node = None \<and> last_inst node = None);
          L \<leftarrow> upd_block block (\<lambda>n. n\<lparr>bn_prev := last_block L, bn_next := None\<rparr>) L;
          L \<leftarrow> (case last_block L of
                 Some lst \<Rightarrow> upd_block lst (\<lambda>n. n\<lparr>bn_next := Some block\<rparr>) L
               | None \<Rightarrow> Some (L\<lparr>first_block := Some block\<rparr>));
          Some (L\<lparr>last_block := Some block\<rparr>) }"

definition Layout_append_new_block :: "layout \<Rightarrow> (layout \<times> block) panics" where
  "Layout_append_new_block L =
     (let (L, res) = Layout_make_block L in
      do { L \<leftarrow> Layout_append_block L res; Some (L, res) })"

definition Layout_insert_block :: "layout \<Rightarrow> block \<Rightarrow> block \<Rightarrow> layout panics" where
  "Layout_insert_block L block before =
     do { inserted \<leftarrow> Layout_is_block_inserted L block;
          _ \<leftarrow> rust_assert (\<not> inserted);
          inserted \<leftarrow> Layout_is_block_inserted L before;
          _ \<leftarrow> rust_assert inserted;
          n \<leftarrow> vec_get (blocks L) before;
          let after = bn_prev n;
          L \<leftarrow> upd_block block (\<lambda>n. n\<lparr>bn_next := Some before, bn_prev := after\<rparr>) L;
          L \<leftarrow> upd_block before (\<lambda>n. n\<lparr>bn_prev := Some block\<rparr>) L;
          (case after of
             None \<Rightarrow> Some (L\<lparr>first_block := Some block\<rparr>)
           | Some a \<Rightarrow> upd_block a (\<lambda>n. n\<lparr>bn_next := Some block\<rparr>) L) }"

definition Layout_insert_block_after :: "layout \<Rightarrow> block \<Rightarrow> block \<Rightarrow> layout panics" where
  "Layout_insert_block_after L block after =
     do { inserted \<leftarrow> Layout_is_block_inserted L block;
          _ \<leftarrow> rust_assert (\<not> inserted);
          inserted \<leftarrow> Layout_is_block_inserted L after;
          _ \<leftarrow> rust_assert inserted;
          n \<leftarrow> vec_get (blocks L) after;
          let before = bn_next n;
          L \<leftarrow> upd_block block (\<lambda>n. n\<lparr>bn_next := before, bn_prev := Some after\<rparr>) L;
          L \<leftarrow> upd_block after (\<lambda>n. n\<lparr>bn_next := Some block\<rparr>) L;
          (case before of
             None \<Rightarrow> Some (L\<lparr>last_block := Some block\<rparr>)
           | Some b \<Rightarrow> upd_block b (\<lambda>n. n\<lparr>bn_prev := Some block\<rparr>) L) }"

definition Layout_first_inst :: "layout \<Rightarrow> block \<Rightarrow> inst option panics" where
  "Layout_first_inst L block = map_option first_inst (vec_get (blocks L) block)"

definition Layout_last_inst :: "layout \<Rightarrow> block \<Rightarrow> inst option panics" where
  "Layout_last_inst L block = map_option last_inst (vec_get (blocks L) block)"

text \<open>
  The loop of \<open>clear_block\<close> resets each node of a list before it follows the link it read, so it
  visits no node with a link twice.
\<close>

function clear_insts_loop :: "inst option \<Rightarrow> inst_node list \<Rightarrow> inst_node list panics" where
  "clear_insts_loop None is = Some is"
| "clear_insts_loop (Some inst) is =
     (if inst < length is
      then clear_insts_loop (in_next (is ! inst)) (is[inst := InstNode_default])
      else None)"
  by pat_completeness auto
termination
proof (relation "measure (\<lambda>(curr, is). length (filter (\<lambda>n. in_next n \<noteq> None) is) +
    (case curr of None \<Rightarrow> 0 | Some _ \<Rightarrow> 1))", goal_cases)
  case (2 inst "is")
  let ?P = "\<lambda>n. in_next n \<noteq> None"
  have split: "is = take inst is @ is ! inst # drop (Suc inst) is"
    using 2 by (rule id_take_nth_drop)
  have "length (filter ?P (is[inst := InstNode_default])) =
      length (filter ?P (take inst is)) + length (filter ?P (drop (Suc inst) is))"
    using 2 by (simp add: upd_conv_take_nth_drop InstNode_default_def)
  moreover have "length (filter ?P is) = length (filter ?P (take inst is)) +
      (if ?P (is ! inst) then 1 else 0) + length (filter ?P (drop (Suc inst) is))"
    by (subst split) simp
  ultimately show ?case by (auto split: option.splits)
qed simp

definition Layout_clear_block :: "layout \<Rightarrow> block \<Rightarrow> layout panics" where
  "Layout_clear_block L block =
     do { curr \<leftarrow> Layout_first_inst L block;
          is \<leftarrow> clear_insts_loop curr (insts L);
          upd_block block (\<lambda>n. n\<lparr>first_inst := None, last_inst := None\<rparr>) (L\<lparr>insts := is\<rparr>) }"

definition Layout_remove_empty_block :: "layout \<Rightarrow> block \<Rightarrow> layout panics" where
  "Layout_remove_empty_block L block =
     do { inserted \<leftarrow> Layout_is_block_inserted L block;
          _ \<leftarrow> rust_assert inserted;
          first \<leftarrow> Layout_first_inst L block;
          _ \<leftarrow> rust_assert (first = None);
          n \<leftarrow> vec_get (blocks L) block;
          let prev = bn_prev n;
          let next = bn_next n;
          L \<leftarrow> upd_block block (\<lambda>n. n\<lparr>bn_prev := None, bn_next := None\<rparr>) L;
          L \<leftarrow> (case prev of
                 None \<Rightarrow> Some (L\<lparr>first_block := next\<rparr>)
               | Some p \<Rightarrow> upd_block p (\<lambda>n. n\<lparr>bn_next := next\<rparr>) L);
          L \<leftarrow> (case next of
                 None \<Rightarrow> Some (L\<lparr>last_block := prev\<rparr>)
               | Some n \<Rightarrow> upd_block n (\<lambda>n. n\<lparr>bn_prev := prev\<rparr>) L);
          lst \<leftarrow> last_block L;
          (if lst = block then Some (L\<lparr>last_block := prev\<rparr>) else Some L) }"

definition Layout_remove_and_clear_block :: "layout \<Rightarrow> block \<Rightarrow> layout panics" where
  "Layout_remove_and_clear_block L block =
     do { L \<leftarrow> Layout_clear_block L block; Layout_remove_empty_block L block }"

definition Layout_entry_block :: "layout \<Rightarrow> block option" where
  "Layout_entry_block L = first_block L"

definition Layout_last_block :: "layout \<Rightarrow> block option" where
  "Layout_last_block L = last_block L"

definition Layout_prev_block :: "layout \<Rightarrow> block \<Rightarrow> block option panics" where
  "Layout_prev_block L block = map_option bn_prev (vec_get (blocks L) block)"

definition Layout_next_block :: "layout \<Rightarrow> block \<Rightarrow> block option panics" where
  "Layout_next_block L block = map_option bn_next (vec_get (blocks L) block)"

text \<open>
  The block cursors (the iterator \<open>Blocks\<close> is the forward one with the layout inside): the
  state is the block to return next.
\<close>

definition BlockCursor_next :: "layout \<Rightarrow> block option \<Rightarrow> (block option \<times> block option) panics" where
  "BlockCursor_next L cur =
     (case cur of
        Some block \<Rightarrow> do { n \<leftarrow> Layout_next_block L block; Some (Some block, n) }
      | None \<Rightarrow> Some (None, None))"

definition RevBlockCursor_next :: "layout \<Rightarrow> block option \<Rightarrow> (block option \<times> block option) panics" where
  "RevBlockCursor_next L cur =
     (case cur of
        Some block \<Rightarrow> do { n \<leftarrow> Layout_prev_block L block; Some (Some block, n) }
      | None \<Rightarrow> Some (None, None))"

definition Layout_blocks :: "layout \<Rightarrow> block option" where
  "Layout_blocks L = first_block L"

definition Layout_rev_blocks_cursor :: "layout \<Rightarrow> block option" where
  "Layout_rev_blocks_cursor L = last_block L"

section \<open>Instructions\<close>

definition Layout_inst_block :: "layout \<Rightarrow> inst \<Rightarrow> block option" where
  "Layout_inst_block L inst = (case vec_get (insts L) inst of Some n \<Rightarrow> in_block n | None \<Rightarrow> None)"

definition Layout_next_inst :: "layout \<Rightarrow> inst \<Rightarrow> inst option panics" where
  "Layout_next_inst L inst = map_option in_next (vec_get (insts L) inst)"

definition Layout_prev_inst :: "layout \<Rightarrow> inst \<Rightarrow> inst option panics" where
  "Layout_prev_inst L inst = map_option in_prev (vec_get (insts L) inst)"

text \<open>The table of instruction nodes grows to the instruction about to be inserted.\<close>

definition grow_insts :: "layout \<Rightarrow> inst \<Rightarrow> layout" where
  "grow_insts L inst =
     (if length (insts L) \<le> inst then L\<lparr>insts := vec_resize (insts L) (inst + 1) InstNode_default\<rparr> else L)"

definition Layout_append_inst_to_bb :: "layout \<Rightarrow> inst \<Rightarrow> block \<Rightarrow> layout panics" where
  "Layout_append_inst_to_bb L inst block =
     do { let L = grow_insts L inst;
          _ \<leftarrow> rust_assert (Layout_inst_block L inst = None);
          inserted \<leftarrow> Layout_is_block_inserted L block;
          _ \<leftarrow> rust_assert inserted;
          block_node \<leftarrow> vec_get (blocks L) block;
          L \<leftarrow> upd_inst inst (\<lambda>n. n\<lparr>in_block := Some block, in_prev := last_inst block_node\<rparr>) L;
          inst_node \<leftarrow> vec_get (insts L) inst;
          _ \<leftarrow> rust_assert (in_next inst_node = None);
          L \<leftarrow> (if first_inst block_node = None
               then upd_block block (\<lambda>n. n\<lparr>first_inst := Some inst\<rparr>) L
               else do { lst \<leftarrow> last_inst block_node;
                         upd_inst lst (\<lambda>n. n\<lparr>in_next := Some inst\<rparr>) L });
          upd_block block (\<lambda>n. n\<lparr>last_inst := Some inst\<rparr>) L }"

definition Layout_prepend_inst :: "layout \<Rightarrow> inst \<Rightarrow> inst \<Rightarrow> layout panics" where
  "Layout_prepend_inst L inst before =
     do { let L = grow_insts L inst;
          _ \<leftarrow> rust_assert (Layout_inst_block L inst = None);
          block \<leftarrow> Layout_inst_block L before;
          n \<leftarrow> vec_get (insts L) before;
          let after = in_prev n;
          L \<leftarrow> upd_inst inst (\<lambda>n. n\<lparr>in_block := Some block, in_next := Some before, in_prev := after\<rparr>) L;
          L \<leftarrow> upd_inst before (\<lambda>n. n\<lparr>in_prev := Some inst\<rparr>) L;
          (case after of
             None \<Rightarrow> upd_block block (\<lambda>n. n\<lparr>first_inst := Some inst\<rparr>) L
           | Some a \<Rightarrow> upd_inst a (\<lambda>n. n\<lparr>in_next := Some inst\<rparr>) L) }"

definition Layout_append_inst :: "layout \<Rightarrow> inst \<Rightarrow> inst \<Rightarrow> layout panics" where
  "Layout_append_inst L inst after =
     do { let L = grow_insts L inst;
          _ \<leftarrow> rust_assert (Layout_inst_block L inst = None);
          block \<leftarrow> Layout_inst_block L after;
          n \<leftarrow> vec_get (insts L) after;
          let before = in_next n;
          L \<leftarrow> upd_inst inst (\<lambda>n. n\<lparr>in_block := Some block, in_next := before, in_prev := Some after\<rparr>) L;
          L \<leftarrow> upd_inst after (\<lambda>n. n\<lparr>in_next := Some inst\<rparr>) L;
          (case before of
             None \<Rightarrow> upd_block block (\<lambda>n. n\<lparr>last_inst := Some inst\<rparr>) L
           | Some b \<Rightarrow> upd_inst b (\<lambda>n. n\<lparr>in_prev := Some inst\<rparr>) L) }"

definition Layout_remove_inst :: "layout \<Rightarrow> inst \<Rightarrow> layout panics" where
  "Layout_remove_inst L inst =
     do { block \<leftarrow> Layout_inst_block L inst;
          n \<leftarrow> vec_get (insts L) inst;
          let prev = in_prev n;
          let next = in_next n;
          L \<leftarrow> upd_inst inst (\<lambda>n. n\<lparr>in_block := None, in_prev := None, in_next := None\<rparr>) L;
          L \<leftarrow> (case prev of
                 None \<Rightarrow> upd_block block (\<lambda>n. n\<lparr>first_inst := next\<rparr>) L
               | Some p \<Rightarrow> upd_inst p (\<lambda>n. n\<lparr>in_next := next\<rparr>) L);
          (case next of
             None \<Rightarrow> upd_block block (\<lambda>n. n\<lparr>last_inst := prev\<rparr>) L
           | Some n \<Rightarrow> upd_inst n (\<lambda>n. n\<lparr>in_prev := prev\<rparr>) L) }"

text \<open>The double-ended instruction cursor.\<close>

record inst_cursor =
  head :: "inst option"
  tail :: "inst option"

definition InstCursor_next :: "layout \<Rightarrow> inst_cursor \<Rightarrow> (inst option \<times> inst_cursor) panics" where
  "InstCursor_next L c =
     (let rval = head c in
      case rval of
        None \<Rightarrow> Some (rval, c)
      | Some inst \<Rightarrow>
          if head c = tail c then Some (rval, c\<lparr>head := None, tail := None\<rparr>)
          else do { n \<leftarrow> vec_get (insts L) inst; Some (rval, c\<lparr>head := in_next n\<rparr>) })"

definition InstCursor_next_back :: "layout \<Rightarrow> inst_cursor \<Rightarrow> (inst option \<times> inst_cursor) panics" where
  "InstCursor_next_back L c =
     (let rval = tail c in
      case rval of
        None \<Rightarrow> Some (rval, c)
      | Some inst \<Rightarrow>
          if head c = tail c then Some (rval, c\<lparr>head := None, tail := None\<rparr>)
          else do { n \<leftarrow> vec_get (insts L) inst; Some (rval, c\<lparr>tail := in_prev n\<rparr>) })"

definition Layout_block_inst_cursor :: "layout \<Rightarrow> block \<Rightarrow> inst_cursor panics" where
  "Layout_block_inst_cursor L block =
     do { n \<leftarrow> vec_get (blocks L) block; Some \<lparr>head = first_inst n, tail = last_inst n\<rparr> }"

definition Layout_block_insts_no_term :: "layout \<Rightarrow> block \<Rightarrow> inst_cursor panics" where
  "Layout_block_insts_no_term L block =
     do { insts \<leftarrow> Layout_block_inst_cursor L block;
          (_, insts) \<leftarrow> InstCursor_next_back L insts;
          Some insts }"

definition Layout_block_terminator :: "layout \<Rightarrow> block \<Rightarrow> inst option panics" where
  "Layout_block_terminator L block = map_option last_inst (vec_get (blocks L) block)"

text \<open>
  The loop of \<open>merge_blocks\<close> that gives the instructions of \<open>succ\<close> their new block. On a cyclic
  list it would not end, hence a partial function; \<open>None\<close> also stands for not returning.
\<close>

partial_function (option) merge_set_block_loop :: "block \<Rightarrow> inst_cursor \<Rightarrow> layout \<Rightarrow> layout option" where
  "merge_set_block_loop pred c L =
     do { (i, c) \<leftarrow> InstCursor_next L c;
          (case i of
             None \<Rightarrow> Some L
           | Some inst \<Rightarrow>
               do { L \<leftarrow> upd_inst inst (\<lambda>n. n\<lparr>in_block := Some pred\<rparr>) L;
                    merge_set_block_loop pred c L }) }"

definition Layout_merge_blocks :: "layout \<Rightarrow> block \<Rightarrow> block \<Rightarrow> layout panics" where
  "Layout_merge_blocks L pred succ =
     do { sn \<leftarrow> vec_get (blocks L) succ;
          L \<leftarrow> (case first_inst sn of
            Some succ_start \<Rightarrow>
              do { cursor \<leftarrow> Layout_block_inst_cursor L pred;
                   (jmp, cursor) \<leftarrow> InstCursor_next_back L cursor;
                   jmp_branch \<leftarrow> jmp;
                   L \<leftarrow> upd_inst jmp_branch (\<lambda>_. InstNode_default) L;
                   (pred_end, _) \<leftarrow> InstCursor_next_back L cursor;
                   cursor \<leftarrow> Layout_block_inst_cursor L succ;
                   L \<leftarrow> merge_set_block_loop pred cursor L;
                   L \<leftarrow> (case pred_end of
                      Some pred_end \<Rightarrow>
                        do { L \<leftarrow> upd_inst pred_end (\<lambda>n. n\<lparr>in_next := Some succ_start\<rparr>) L;
                             upd_inst succ_start (\<lambda>n. n\<lparr>in_prev := Some pred_end\<rparr>) L }
                    | None \<Rightarrow>
                        do { sn \<leftarrow> vec_get (blocks L) succ;
                             upd_block pred (\<lambda>n. n\<lparr>first_inst := first_inst sn\<rparr>) L });
                   sn \<leftarrow> vec_get (blocks L) succ;
                   upd_block pred (\<lambda>n. n\<lparr>last_inst := last_inst sn\<rparr>) L }
          | None \<Rightarrow>
              do { lst \<leftarrow> Layout_last_inst L pred;
                   lst \<leftarrow> lst;
                   Layout_remove_inst L lst });
          L \<leftarrow> upd_block succ (\<lambda>n. n\<lparr>first_inst := None, last_inst := None\<rparr>) L;
          Layout_remove_empty_block L succ }"

partial_function (option) split_set_block_loop ::
    "block \<Rightarrow> block \<Rightarrow> inst option \<Rightarrow> layout \<Rightarrow> layout option" where
  "split_set_block_loop old_block new_block opt_i L =
     (case opt_i of
        None \<Rightarrow> Some L
      | Some i \<Rightarrow>
          do { n \<leftarrow> vec_get (insts L) i;
               _ \<leftarrow> rust_assert (in_block n = Some old_block);
               L \<leftarrow> upd_inst i (\<lambda>n. n\<lparr>in_block := Some new_block\<rparr>) L;
               n \<leftarrow> vec_get (insts L) i;
               split_set_block_loop old_block new_block (in_next n) L })"

definition Layout_split_block :: "layout \<Rightarrow> block \<Rightarrow> inst \<Rightarrow> layout panics" where
  "Layout_split_block L new_block before =
     do { old_block \<leftarrow> Layout_inst_block L before;
          inserted \<leftarrow> Layout_is_block_inserted L new_block;
          _ \<leftarrow> rust_assert (\<not> inserted);
          ob \<leftarrow> vec_get (blocks L) old_block;
          let next_block = bn_next ob;
          let last_inst' = last_inst ob;
          L \<leftarrow> upd_block new_block (\<lambda>n. n\<lparr>bn_prev := Some old_block, bn_next := next_block,
                                     first_inst := Some before, last_inst := last_inst'\<rparr>) L;
          L \<leftarrow> upd_block old_block (\<lambda>n. n\<lparr>bn_next := Some new_block\<rparr>) L;
          L \<leftarrow> (if Some old_block = last_block L then Some (L\<lparr>last_block := Some new_block\<rparr>)
               else do { nb \<leftarrow> next_block; upd_block nb (\<lambda>n. n\<lparr>bn_prev := Some new_block\<rparr>) L });
          bn \<leftarrow> vec_get (insts L) before;
          let prev_inst = in_prev bn;
          L \<leftarrow> upd_inst before (\<lambda>n. n\<lparr>in_prev := None\<rparr>) L;
          L \<leftarrow> upd_block old_block (\<lambda>n. n\<lparr>last_inst := prev_inst\<rparr>) L;
          L \<leftarrow> (case prev_inst of
                 None \<Rightarrow> upd_block old_block (\<lambda>n. n\<lparr>first_inst := None\<rparr>) L
               | Some pi \<Rightarrow> upd_inst pi (\<lambda>n. n\<lparr>in_next := None\<rparr>) L);
          split_set_block_loop old_block new_block (Some before) L }"

section \<open>The order the links spell\<close>

definition bnext :: "layout \<Rightarrow> block \<Rightarrow> block option" where
  "bnext L b = bn_next (blocks L ! b)"

definition bprev :: "layout \<Rightarrow> block \<Rightarrow> block option" where
  "bprev L b = bn_prev (blocks L ! b)"

definition bfirst :: "layout \<Rightarrow> block \<Rightarrow> inst option" where
  "bfirst L b = first_inst (blocks L ! b)"

definition blast :: "layout \<Rightarrow> block \<Rightarrow> inst option" where
  "blast L b = last_inst (blocks L ! b)"

definition inext :: "layout \<Rightarrow> inst \<Rightarrow> inst option" where
  "inext L i = in_next (insts L ! i)"

definition iprev :: "layout \<Rightarrow> inst \<Rightarrow> inst option" where
  "iprev L i = in_prev (insts L ! i)"

definition iblock :: "layout \<Rightarrow> inst \<Rightarrow> block option" where
  "iblock L i = in_block (insts L ! i)"

lemmas link_defs = bnext_def bprev_def bfirst_def blast_def inext_def iprev_def iblock_def

text \<open>
  \<open>bs\<close> is the block order, \<open>ils b\<close> the instructions of block \<open>b\<close>. Blocks and instructions that
  are not in the layout have default nodes, so they can be inserted.
\<close>

definition Blocks_ok :: "layout \<Rightarrow> block list \<Rightarrow> bool" where
  "Blocks_ok L bs \<longleftrightarrow>
     dll (bnext L) (bprev L) (first_block L) (last_block L) bs \<and>
     (\<forall>b \<in> set bs. b < length (blocks L)) \<and>
     (\<forall>b < length (blocks L). b \<notin> set bs \<longrightarrow> blocks L ! b = BlockNode_default)"

definition Insts_ok :: "layout \<Rightarrow> block list \<Rightarrow> (block \<Rightarrow> inst list) \<Rightarrow> bool" where
  "Insts_ok L bs ils \<longleftrightarrow>
     (\<forall>b \<in> set bs. dll (inext L) (iprev L) (bfirst L b) (blast L b) (ils b)) \<and>
     (\<forall>b \<in> set bs. \<forall>i \<in> set (ils b). i < length (insts L) \<and> iblock L i = Some b) \<and>
     (\<forall>i < length (insts L). (\<forall>b \<in> set bs. i \<notin> set (ils b)) \<longrightarrow> insts L ! i = InstNode_default)"

definition Layout_ok :: "layout \<Rightarrow> block list \<Rightarrow> (block \<Rightarrow> inst list) \<Rightarrow> bool" where
  "Layout_ok L bs ils \<longleftrightarrow> Blocks_ok L bs \<and> Insts_ok L bs ils \<and> (\<forall>b. b \<notin> set bs \<longrightarrow> ils b = [])"

lemma Layout_okD:
  assumes "Layout_ok L bs ils"
  shows "Blocks_ok L bs" "Insts_ok L bs ils" "b \<notin> set bs \<Longrightarrow> ils b = []"
  using assms by (auto simp: Layout_ok_def)

subsection \<open>Table updates as function updates\<close>

definition set_block :: "block \<Rightarrow> block_node \<Rightarrow> layout \<Rightarrow> layout" where
  "set_block b n L = L\<lparr>blocks := (blocks L)[b := n]\<rparr>"

definition set_inst :: "inst \<Rightarrow> inst_node \<Rightarrow> layout \<Rightarrow> layout" where
  "set_inst i n L = L\<lparr>insts := (insts L)[i := n]\<rparr>"

lemma upd_block_in [simp]:
  "b < length (blocks L) \<Longrightarrow> upd_block b f L = Some (set_block b (f (blocks L ! b)) L)"
  by (simp add: upd_block_def set_block_def)

lemma upd_inst_in [simp]:
  "i < length (insts L) \<Longrightarrow> upd_inst i f L = Some (set_inst i (f (insts L ! i)) L)"
  by (simp add: upd_inst_def set_inst_def)

lemma set_block_simps [simp]:
  "length (blocks (set_block b n L)) = length (blocks L)"
  "insts (set_block b n L) = insts L"
  "first_block (set_block b n L) = first_block L"
  "last_block (set_block b n L) = last_block L"
  "inext (set_block b n L) = inext L" "iprev (set_block b n L) = iprev L" "iblock (set_block b n L) = iblock L"
  by (simp_all add: set_block_def link_defs fun_eq_iff)

lemma set_inst_simps [simp]:
  "length (insts (set_inst i m L)) = length (insts L)"
  "blocks (set_inst i m L) = blocks L"
  "first_block (set_inst i m L) = first_block L"
  "last_block (set_inst i m L) = last_block L"
  "bnext (set_inst i m L) = bnext L" "bprev (set_inst i m L) = bprev L"
  "bfirst (set_inst i m L) = bfirst L" "blast (set_inst i m L) = blast L"
  by (simp_all add: set_inst_def link_defs fun_eq_iff)

lemma set_block_links [simp]:
  assumes "b < length (blocks L)"
  shows "blocks (set_block b n L) ! c = (if c = b then n else blocks L ! c)"
    "bnext (set_block b n L) = (bnext L)(b := bn_next n)"
    "bprev (set_block b n L) = (bprev L)(b := bn_prev n)"
    "bfirst (set_block b n L) = (bfirst L)(b := first_inst n)"
    "blast (set_block b n L) = (blast L)(b := last_inst n)"
  using assms by (auto simp: set_block_def link_defs fun_eq_iff)

lemma set_inst_links [simp]:
  assumes "i < length (insts L)"
  shows "insts (set_inst i m L) ! c = (if c = i then m else insts L ! c)"
    "inext (set_inst i m L) = (inext L)(i := in_next m)"
    "iprev (set_inst i m L) = (iprev L)(i := in_prev m)"
    "iblock (set_inst i m L) = (iblock L)(i := in_block m)"
  using assms by (auto simp: set_inst_def link_defs fun_eq_iff)

lemma end_ptr_simps [simp]:
  "bnext (L\<lparr>first_block := f\<rparr>) = bnext L" "bprev (L\<lparr>first_block := f\<rparr>) = bprev L"
  "bfirst (L\<lparr>first_block := f\<rparr>) = bfirst L" "blast (L\<lparr>first_block := f\<rparr>) = blast L"
  "inext (L\<lparr>first_block := f\<rparr>) = inext L" "iprev (L\<lparr>first_block := f\<rparr>) = iprev L"
  "iblock (L\<lparr>first_block := f\<rparr>) = iblock L"
  "bnext (L\<lparr>last_block := f\<rparr>) = bnext L" "bprev (L\<lparr>last_block := f\<rparr>) = bprev L"
  "bfirst (L\<lparr>last_block := f\<rparr>) = bfirst L" "blast (L\<lparr>last_block := f\<rparr>) = blast L"
  "inext (L\<lparr>last_block := f\<rparr>) = inext L" "iprev (L\<lparr>last_block := f\<rparr>) = iprev L"
  "iblock (L\<lparr>last_block := f\<rparr>) = iblock L"
  by (simp_all add: link_defs fun_eq_iff)

lemma node_links:
  "bn_next (blocks L ! b) = bnext L b" "bn_prev (blocks L ! b) = bprev L b"
  "first_inst (blocks L ! b) = bfirst L b" "last_inst (blocks L ! b) = blast L b"
  "in_next (insts L ! i) = inext L i" "in_prev (insts L ! i) = iprev L i"
  "in_block (insts L ! i) = iblock L i"
  by (simp_all add: link_defs)

text \<open>A layout that only differs in links between blocks keeps its instruction lists.\<close>

lemma Insts_ok_cong:
  assumes "insts L' = insts L" "\<And>b. b \<in> set bs' \<Longrightarrow> bfirst L' b = bfirst L b \<and> blast L' b = blast L b"
    "Insts_ok L bs ils" "\<And>b. b \<in> set bs' \<Longrightarrow> b \<notin> set bs \<Longrightarrow> ils b = [] \<and> bfirst L b = None \<and> blast L b = None"
    "\<And>b. b \<in> set bs \<Longrightarrow> b \<notin> set bs' \<Longrightarrow> ils b = []"
  shows "Insts_ok L' bs' ils"
proof -
  have "inext L' = inext L" "iprev L' = iprev L" "iblock L' = iblock L"
    using assms(1) by (simp_all add: link_defs fun_eq_iff)
  moreover have "dll (inext L) (iprev L) (bfirst L b) (blast L b) (ils b)" if "b \<in> set bs'" for b
    using that assms(3,4) by (cases "b \<in> set bs") (auto simp: Insts_ok_def)
  moreover have "i < length (insts L) \<and> iblock L i = Some b" if "b \<in> set bs'" "i \<in> set (ils b)" for b i
    using that assms(3,4) by (cases "b \<in> set bs") (auto simp: Insts_ok_def)
  moreover have "insts L ! i = InstNode_default"
    if "i < length (insts L)" "\<forall>b \<in> set bs'. i \<notin> set (ils b)" for i
    using that assms(3,5) by (auto simp: Insts_ok_def) (metis empty_iff list.set(1))
  ultimately show ?thesis using assms(1,2) by (auto simp: Insts_ok_def)
qed

lemma fresh_block:
  assumes "Layout_ok L bs ils" "b < length (blocks L)" "b \<notin> set bs"
  shows "bprev L b = None" "bnext L b = None" "bfirst L b = None" "blast L b = None" "ils b = []"
    "blocks L ! b = BlockNode_default"
  using assms by (auto simp: Layout_ok_def Blocks_ok_def link_defs BlockNode_default_def)

lemma is_block_inserted_iff:
  assumes "Blocks_ok L bs" "b < length (blocks L)"
  shows "Layout_is_block_inserted L b = Some (b \<in> set bs)"
proof (cases "b \<in> set bs")
  case True
  with assms have "bprev L b = None \<longleftrightarrow> first_block L = Some b"
    using dll_prv_None_iff [of "bnext L" "bprev L" "first_block L" "last_block L" bs b]
    by (simp add: Blocks_ok_def)
  with True assms show ?thesis by (auto simp: Layout_is_block_inserted_def node_links)
next
  case False
  then have "Some b \<noteq> first_block L"
    using assms by (auto simp: Blocks_ok_def dest!: dll_ptrs first_of_SomeD [OF sym])
  with False assms show ?thesis
    by (auto simp: Layout_is_block_inserted_def Blocks_ok_def BlockNode_default_def)
qed

section \<open>Block operations\<close>

lemma Layout_new_ok: "Layout_ok Layout_new [] (\<lambda>_. [])"
  by (simp add: Layout_ok_def Blocks_ok_def Insts_ok_def Layout_new_def)

lemma Layout_make_block_ok:
  assumes "Layout_ok L bs ils"
  defines "b \<equiv> length (blocks L)" and "L' \<equiv> fst (Layout_make_block L)"
  shows "Layout_make_block L = (L', b) \<and> Layout_ok L' bs ils \<and> b < length (blocks L') \<and> b \<notin> set bs"
proof -
  have lt: "\<And>c. c \<in> set bs \<Longrightarrow> c < length (blocks L)" using assms(1) by (auto simp: Layout_ok_def Blocks_ok_def)
  have eq: "bnext L' c = bnext L c" "bprev L' c = bprev L c" "bfirst L' c = bfirst L c" "blast L' c = blast L c"
    if "c \<in> set bs" for c
    using lt [OF that] by (simp_all add: L'_def Layout_make_block_def link_defs nth_append)
  have "dll (bnext L') (bprev L') (first_block L') (last_block L') bs"
    using assms(1) dll_cong [of bs "bnext L'" "bnext L" "bprev L'" "bprev L"] eq
    by (auto simp: Layout_ok_def Blocks_ok_def L'_def Layout_make_block_def)
  moreover have "c \<notin> set bs \<longrightarrow> blocks L' ! c = BlockNode_default" if "c < length (blocks L')" for c
    using that assms(1) by (auto simp: Layout_ok_def Blocks_ok_def L'_def Layout_make_block_def nth_append)
  ultimately have "Blocks_ok L' bs"
    using lt by (auto simp: Blocks_ok_def L'_def Layout_make_block_def less_SucI)
  moreover have "Insts_ok L' bs ils"
    by (rule Insts_ok_cong [of L' L bs bs]) (use assms(1) eq in \<open>auto simp: Layout_ok_def L'_def Layout_make_block_def\<close>)
  ultimately show ?thesis
    using assms(1) lt by (auto simp: Layout_ok_def L'_def b_def Layout_make_block_def)
qed

text \<open>What is left to show once an operation has inserted a block at a position of the order.\<close>

lemma inserted_blocks_ok:
  assumes "Blocks_ok L (xs @ ys)" "x < length (blocks L)" "x \<notin> set (xs @ ys)"
    and "bnext L' = (link_opt (last_of None xs) (Some x) (bnext L))(x := first_of ys None)"
    and "bprev L' = (link_opt (first_of ys None) (Some x) (bprev L))(x := last_of None xs)"
    and "first_block L' = (if xs = [] then Some x else first_block L)"
    and "last_block L' = (if ys = [] then Some x else last_block L)"
    and "\<And>c. c \<notin> set (xs @ x # ys) \<Longrightarrow> bfirst L' c = bfirst L c \<and> blast L' c = blast L c"
    and "length (blocks L') = length (blocks L)"
  shows "Blocks_ok L' (xs @ x # ys)"
proof -
  have "dll (bnext L') (bprev L') (first_block L') (last_block L') (xs @ x # ys)"
    unfolding assms(4-7) using assms(1,3) by (intro dll_insert) (auto simp: Blocks_ok_def)
  moreover have "blocks L' ! b = BlockNode_default" if "b < length (blocks L)" "b \<notin> set (xs @ x # ys)" for b
  proof -
    have "last_of None xs \<noteq> Some b" "first_of ys None \<noteq> Some b" "b \<noteq> x"
      using that(2) last_of_SomeD first_of_SomeD by (fastforce, fastforce, auto)
    then have "bnext L' b = bnext L b" "bprev L' b = bprev L b" "bfirst L' b = bfirst L b" "blast L' b = blast L b"
      using assms(8) [OF that(2)] by (simp_all add: assms(4,5) link_opt_other)
    moreover have "blocks L ! b = BlockNode_default"
      using that assms(1) by (auto simp: Blocks_ok_def)
    ultimately show ?thesis by (simp add: link_defs BlockNode_default_def)
  qed
  ultimately show ?thesis
    using assms(1,2,9) by (auto simp: Blocks_ok_def)
qed

lemma inserted_block_ok:
  assumes "Layout_ok L (xs @ ys) ils" "x < length (blocks L)" "x \<notin> set (xs @ ys)"
    and "bnext L' = (link_opt (last_of None xs) (Some x) (bnext L))(x := first_of ys None)"
    and "bprev L' = (link_opt (first_of ys None) (Some x) (bprev L))(x := last_of None xs)"
    and "first_block L' = (if xs = [] then Some x else first_block L)"
    and "last_block L' = (if ys = [] then Some x else last_block L)"
    and "bfirst L' = bfirst L" "blast L' = blast L" "insts L' = insts L"
    and "length (blocks L') = length (blocks L)"
  shows "Layout_ok L' (xs @ x # ys) ils"
proof -
  note ok = Layout_okD [OF assms(1)]
  have "Blocks_ok L' (xs @ x # ys)"
    by (rule inserted_blocks_ok [OF ok(1) assms(2-7) _ assms(11)]) (simp add: assms(8,9))
  moreover have "Insts_ok L' (xs @ x # ys) ils"
    by (rule Insts_ok_cong [OF assms(10) _ ok(2)])
      (use assms(8,9) fresh_block [OF assms(1-3)] in auto)
  ultimately show ?thesis using ok(3) by (auto simp: Layout_ok_def)
qed

lemma Layout_append_block_ok:
  assumes "Layout_ok L bs ils" "b < length (blocks L)" "b \<notin> set bs"
  shows "\<exists>L'. Layout_append_block L b = Some L' \<and> Layout_ok L' (bs @ [b]) ils"
proof -
  note fresh = fresh_block(1-5) [OF assms]
  have tl: "last_block L = last_of None bs" and lt: "\<And>c. c \<in> set bs \<Longrightarrow> c < length (blocks L)"
    using Layout_okD(1) [OF assms(1)] by (auto simp: Blocks_ok_def dll_def)
  define L1 where "L1 = set_block b ((blocks L ! b)\<lparr>bn_prev := last_block L, bn_next := None\<rparr>) L"
  define L2 where "L2 = (case last_of None bs of
      Some lst \<Rightarrow> set_block lst ((blocks L1 ! lst)\<lparr>bn_next := Some b\<rparr>) L1
    | None \<Rightarrow> L1\<lparr>first_block := Some b\<rparr>)"
  have lst: "c < length (blocks L)" "c \<noteq> b" if "last_of None bs = Some c" for c
    using last_of_SomeD [OF that] lt assms(3) by auto
  have "Layout_append_block L b = Some (L2\<lparr>last_block := Some b\<rparr>)"
    using assms fresh tl lst Layout_okD(1) [OF assms(1)]
    by (cases "last_of None bs")
      (auto simp: Layout_append_block_def is_block_inserted_iff L1_def L2_def node_links)
  moreover have "Layout_ok (L2\<lparr>last_block := Some b\<rparr>) (bs @ [b]) ils"
    using assms(2) tl lst
    by (intro inserted_block_ok [of L bs "[]"] assms(2) )
      (cases "last_of None bs"; use assms in \<open>auto simp: L1_def L2_def fun_eq_iff node_links\<close>)+
  ultimately show ?thesis by blast
qed

text \<open>Facts about a block in the middle of the order.\<close>

lemma block_at:
  assumes "Layout_ok L (xs @ y # ys) ils"
  shows "y < length (blocks L)" "bprev L y = last_of None xs" "bnext L y = first_of ys None"
    "Layout_is_block_inserted L y = Some True"
    "last_of None xs = Some a \<Longrightarrow> a < length (blocks L) \<and> a \<noteq> y"
    "first_of ys None = Some c \<Longrightarrow> c < length (blocks L) \<and> c \<noteq> y"
    "first_block L = first_of xs (Some y)" "last_block L = last_of (Some y) ys"
proof -
  have d: "dll (bnext L) (bprev L) (first_block L) (last_block L) (xs @ y # ys)"
    and lt: "\<forall>b \<in> set (xs @ y # ys). b < length (blocks L)"
    using Layout_okD(1) [OF assms] by (auto simp: Blocks_ok_def)
  then show "y < length (blocks L)" by simp
  then show "Layout_is_block_inserted L y = Some True"
    using is_block_inserted_iff [OF Layout_okD(1) [OF assms]] by simp
  from d show "bprev L y = last_of None xs" "bnext L y = first_of ys None"
    by (simp_all add: dll_at)
  show "a < length (blocks L) \<and> a \<noteq> y" if "last_of None xs = Some a"
    using last_of_SomeD [OF that] lt dll_distinct [OF d] by auto
  show "c < length (blocks L) \<and> c \<noteq> y" if "first_of ys None = Some c"
    using first_of_SomeD [OF that] lt dll_distinct [OF d] by auto
  from d show "first_block L = first_of xs (Some y)" "last_block L = last_of (Some y) ys"
    by (auto dest: dll_ptrs)
qed

lemma Layout_insert_block_ok:
  assumes "Layout_ok L (xs @ y # ys) ils" "b < length (blocks L)" "b \<notin> set (xs @ y # ys)"
  shows "\<exists>L'. Layout_insert_block L b y = Some L' \<and> Layout_ok L' (xs @ b # y # ys) ils"
proof -
  note fresh = fresh_block(1-5) [OF assms] and at = block_at [OF assms(1)]
  have nb: "Layout_is_block_inserted L b = Some False" "b \<noteq> y"
    using is_block_inserted_iff [OF Layout_okD(1) [OF assms(1)] assms(2)] assms(3) by auto
  have prv: "a < length (blocks L)" "a \<noteq> b" "a \<noteq> y" if "last_of None xs = Some a" for a
    using at(5) [OF that] last_of_SomeD [OF that] assms(3) by auto
  define L1 where "L1 = set_block y ((blocks L ! y)\<lparr>bn_prev := Some b\<rparr>)
      (set_block b ((blocks L ! b)\<lparr>bn_next := Some y, bn_prev := last_of None xs\<rparr>) L)"
  define L2 where "L2 = (case last_of None xs of
      None \<Rightarrow> L1\<lparr>first_block := Some b\<rparr>
    | Some a \<Rightarrow> set_block a ((blocks L1 ! a)\<lparr>bn_next := Some b\<rparr>) L1)"
  have "Layout_insert_block L b y = Some L2"
    using assms(2) at(1-4) nb prv
    by (cases "last_of None xs")
      (auto simp: Layout_insert_block_def L1_def L2_def node_links Let_def)
  moreover have "Layout_ok L2 (xs @ b # y # ys) ils"
    using assms at(1-4) nb prv fresh at(8)
    by (intro inserted_block_ok [of L xs "y # ys"] assms(1,2))
      (cases "last_of None xs"; auto simp: L1_def L2_def fun_eq_iff node_links)+
  ultimately show ?thesis by blast
qed

lemma Layout_insert_block_after_ok:
  assumes "Layout_ok L (xs @ y # ys) ils" "b < length (blocks L)" "b \<notin> set (xs @ y # ys)"
  shows "\<exists>L'. Layout_insert_block_after L b y = Some L' \<and> Layout_ok L' (xs @ y # b # ys) ils"
proof -
  note fresh = fresh_block(1-5) [OF assms] and at = block_at [OF assms(1)]
  have nb: "Layout_is_block_inserted L b = Some False" "b \<noteq> y"
    using is_block_inserted_iff [OF Layout_okD(1) [OF assms(1)] assms(2)] assms(3) by auto
  have nx: "a < length (blocks L)" "a \<noteq> b" "a \<noteq> y" if "first_of ys None = Some a" for a
    using at(6) [OF that] first_of_SomeD [OF that] assms(3) by auto
  define L1 where "L1 = set_block y ((blocks L ! y)\<lparr>bn_next := Some b\<rparr>)
      (set_block b ((blocks L ! b)\<lparr>bn_next := first_of ys None, bn_prev := Some y\<rparr>) L)"
  define L2 where "L2 = (case first_of ys None of
      None \<Rightarrow> L1\<lparr>last_block := Some b\<rparr>
    | Some a \<Rightarrow> set_block a ((blocks L1 ! a)\<lparr>bn_prev := Some b\<rparr>) L1)"
  have "Layout_insert_block_after L b y = Some L2"
    using assms(2) at(1-4) nb nx
    by (cases "first_of ys None")
      (auto simp: Layout_insert_block_after_def L1_def L2_def node_links Let_def)
  moreover have "Layout_ok L2 ((xs @ [y]) @ b # ys) ils"
    using assms at(1-4) nb nx fresh
    by (intro inserted_block_ok [of L "xs @ [y]" ys])
      (cases "first_of ys None"; auto simp: L1_def L2_def fun_eq_iff node_links)+
  ultimately show ?thesis by auto
qed

text \<open>
  Removal of an empty block. The code ends with \<open>self.last_block.unwrap()\<close>, so removing the only
  block of a layout panics.
\<close>

lemma Layout_remove_empty_block_ok:
  assumes "Layout_ok L (xs @ y # ys) ils" "ils y = []" "xs \<noteq> [] \<or> ys \<noteq> []"
  shows "\<exists>L'. Layout_remove_empty_block L y = Some L' \<and> Layout_ok L' (xs @ ys) ils"
proof -
  note at = block_at [OF assms(1)] and ok = Layout_okD [OF assms(1)]
  have d: "dll (bnext L) (bprev L) (first_block L) (last_block L) (xs @ y # ys)"
    using ok(1) by (simp add: Blocks_ok_def)
  have empty: "bfirst L y = None" "blast L y = None"
    using ok(2) assms(2) by (auto simp: Insts_ok_def dest!: bspec [of _ _ y])
  have nx: "a < length (blocks L)" "a \<noteq> y" if "first_of ys None = Some a" for a
    using at(6) [OF that] by auto
  have prv: "a < length (blocks L)" "a \<noteq> y" if "last_of None xs = Some a" for a
    using at(5) [OF that] by auto
  define L1 where "L1 = set_block y ((blocks L ! y)\<lparr>bn_prev := None, bn_next := None\<rparr>) L"
  define L2 where "L2 = (case last_of None xs of
      None \<Rightarrow> L1\<lparr>first_block := first_of ys None\<rparr>
    | Some p \<Rightarrow> set_block p ((blocks L1 ! p)\<lparr>bn_next := first_of ys None\<rparr>) L1)"
  define L3 where "L3 = (case first_of ys None of
      None \<Rightarrow> L2\<lparr>last_block := last_of None xs\<rparr>
    | Some n \<Rightarrow> set_block n ((blocks L2 ! n)\<lparr>bn_prev := last_of None xs\<rparr>) L2)"
  have L2: "length (blocks L2) = length (blocks L)" "insts L2 = insts L" "last_block L2 = last_block L"
    by (auto simp: L1_def L2_def split: option.splits)
  have L3: "length (blocks L3) = length (blocks L)" "insts L3 = insts L"
    using L2 by (auto simp: L3_def split: option.splits)
  have nxt: "bnext L3 = link_opt (last_of None xs) (first_of ys None) ((bnext L)(y := None))"
    and prev: "bprev L3 = link_opt (first_of ys None) (last_of None xs) ((bprev L)(y := None))"
    and fl: "bfirst L3 = bfirst L" "blast L3 = blast L"
    and ends: "first_block L3 = (if xs = [] then first_of ys None else first_block L)"
      "last_block L3 = (if ys = [] then last_of None xs else last_block L)"
    using at(1) nx prv L2
    by (cases "last_of None xs"; cases "first_of ys None";
        auto simp: L1_def L2_def L3_def fun_eq_iff node_links)+
  have "last_block L3 \<noteq> None" "last_block L3 \<noteq> Some y"
    unfolding ends using assms(3) at(8) dll_distinct [OF d] by (auto simp: last_of_def split: if_splits)
  then have "Layout_remove_empty_block L y = Some L3"
    using at(1-4) empty L2 nx prv unfolding Layout_remove_empty_block_def L3_def L2_def
    by (cases "last_of None xs"; cases "first_of ys None")
      (auto simp: Layout_first_inst_def L1_def node_links Let_def)
  moreover have "dll (bnext L3) (bprev L3) (first_block L3) (last_block L3) (xs @ ys)"
    unfolding nxt prev ends by (rule dll_remove [OF d])
  moreover have "blocks L3 ! b = BlockNode_default" if "b < length (blocks L)" "b \<notin> set (xs @ ys)" for b
  proof -
    have no: "last_of None xs \<noteq> Some b" "first_of ys None \<noteq> Some b"
      using that(2) last_of_SomeD first_of_SomeD by fastforce+
    have "bnext L3 b = None \<and> bprev L3 b = None \<and> bfirst L3 b = None \<and> blast L3 b = None"
    proof (cases "b = y")
      case True
      with no empty show ?thesis by (simp add: nxt prev fl link_opt_other)
    next
      case False
      with that have "b \<notin> set (xs @ y # ys)" by simp
      from fresh_block [OF assms(1) that(1) this] no False show ?thesis
        by (simp add: nxt prev fl link_opt_other)
    qed
    then show ?thesis by (simp add: link_defs BlockNode_default_def)
  qed
  ultimately have "Blocks_ok L3 (xs @ ys)"
    using ok(1) L3 by (auto simp: Blocks_ok_def)
  moreover have "Insts_ok L3 (xs @ ys) ils"
    by (rule Insts_ok_cong [OF L3(2) _ ok(2)]) (use fl assms(2) in auto)
  moreover have "ils b = []" if "b \<notin> set (xs @ ys)" for b
    using that ok(3) assms(2) by (cases "b = y") auto
  ultimately show ?thesis
    using \<open>Layout_remove_empty_block L y = Some L3\<close> by (auto simp: Layout_ok_def)
qed

lemma Layout_remove_only_block_panics:
  assumes "Layout_ok L [b] ils"
  shows "Layout_remove_empty_block L b = None"
proof -
  have "Layout_ok L ([] @ b # []) ils" using assms by simp
  note at = block_at [OF this]
  then show ?thesis
    by (cases "bfirst L b")
      (auto simp: Layout_remove_empty_block_def Layout_first_inst_def node_links Let_def)
qed


section \<open>Instruction operations\<close>

lemma ok_inst:
  assumes "Layout_ok L bs ils" "i \<in> set (ils b)"
  shows "b \<in> set bs" "i < length (insts L)" "iblock L i = Some b"
proof -
  show "b \<in> set bs" using assms by (auto simp: Layout_ok_def)
  then show "i < length (insts L)" "iblock L i = Some b" using assms by (auto simp: Layout_ok_def Insts_ok_def)
qed

lemma fresh_inst:
  assumes "Layout_ok L bs ils" "i < length (insts L)" "\<forall>b. i \<notin> set (ils b)"
  shows "insts L ! i = InstNode_default" "iblock L i = None" "inext L i = None" "iprev L i = None"
  using assms by (auto simp: Layout_ok_def Insts_ok_def link_defs InstNode_default_def)

lemma inst_block_ok:
  assumes "Layout_ok L bs ils"
  shows "Layout_inst_block L i = Some b \<longleftrightarrow> i \<in> set (ils b)"
    and "Layout_inst_block L i = None \<longleftrightarrow> (\<forall>b. i \<notin> set (ils b))"
proof -
  have "Layout_inst_block L i = Some c" if "i \<in> set (ils c)" for c
    using ok_inst [OF assms that] by (simp add: Layout_inst_block_def node_links)
  moreover have "Layout_inst_block L i = None" if "\<forall>b. i \<notin> set (ils b)"
    using fresh_inst(2) [OF assms _ that] by (auto simp: Layout_inst_block_def node_links vec_get_def split: option.splits)
  ultimately show "Layout_inst_block L i = Some b \<longleftrightarrow> i \<in> set (ils b)"
    "Layout_inst_block L i = None \<longleftrightarrow> (\<forall>b. i \<notin> set (ils b))"
    by (metis option.inject option.distinct(1))+
qed

lemma disjoint_blocks:
  assumes "Layout_ok L bs ils" "i \<in> set (ils b)" "i \<in> set (ils c)"
  shows "b = c"
  using ok_inst(3) [OF assms(1,2)] ok_inst(3) [OF assms(1,3)] by simp

lemma blocks_distinct: "Layout_ok L bs ils \<Longrightarrow> distinct bs"
  unfolding Layout_ok_def Blocks_ok_def by (blast dest: dll_distinct)

lemma insts_dll:
  assumes "Layout_ok L bs ils" "b \<in> set bs"
  shows "dll (inext L) (iprev L) (bfirst L b) (blast L b) (ils b)" "distinct (ils b)" "b < length (blocks L)"
  using assms by (auto simp: Layout_ok_def Insts_ok_def Blocks_ok_def dest: dll_distinct)

lemma grow_insts_ok:
  assumes "Layout_ok L bs ils"
  shows "Layout_ok (grow_insts L i) bs ils" "i < length (insts (grow_insts L i))"
    "blocks (grow_insts L i) = blocks L" "length (insts L) \<le> length (insts (grow_insts L i))"
proof -
  let ?L = "grow_insts L i"
  show bl: "blocks ?L = blocks L" "i < length (insts ?L)" "length (insts L) \<le> length (insts ?L)"
    by (auto simp: grow_insts_def vec_resize_def)
  have other: "insts ?L ! j = insts L ! j" if "j < length (insts L)" for j
    using that by (auto simp: grow_insts_def vec_resize_def nth_append)
  have new: "insts ?L ! j = InstNode_default" if "j < length (insts ?L)" "\<not> j < length (insts L)" for j
    using that by (auto simp: grow_insts_def vec_resize_def nth_append)
  have same: "bnext ?L = bnext L" "bprev ?L = bprev L" "bfirst ?L = bfirst L" "blast ?L = blast L"
    "first_block ?L = first_block L" "last_block ?L = last_block L"
    using bl by (auto simp: link_defs grow_insts_def fun_eq_iff)
  have "dll (inext ?L) (iprev ?L) (bfirst L b) (blast L b) (ils b)" if "b \<in> set bs" for b
    using insts_dll(1) [OF assms that] ok_inst(2) [OF assms] other
    by (subst dll_cong [of "ils b" "inext ?L" "inext L" "iprev ?L" "iprev L"]) (auto simp: link_defs)
  moreover have "j < length (insts ?L) \<and> iblock ?L j = Some b" if "j \<in> set (ils b)" for j b
    using ok_inst(2,3) [OF assms that] other [of j] bl(3) by (simp add: link_defs)
  moreover have "insts ?L ! j = InstNode_default"
    if "j < length (insts ?L)" "\<forall>b \<in> set bs. j \<notin> set (ils b)" for j
  proof (cases "j < length (insts L)")
    case True
    have "\<forall>b. j \<notin> set (ils b)" using that(2) ok_inst(1) [OF assms] by blast
    from fresh_inst(1) [OF assms True this] other [OF True] show ?thesis by simp
  qed (rule new [OF that(1)])
  ultimately have "Insts_ok ?L bs ils"
    by (simp add: Insts_ok_def same)
  then show "Layout_ok ?L bs ils"
    using assms bl by (auto simp: Layout_ok_def Blocks_ok_def same)
qed

text \<open>What is left to show once an operation has inserted or removed an instruction.\<close>

lemma relinked_insts_ok:
  assumes "Layout_ok L bs ils"
    and "bnext L' = bnext L" "bprev L' = bprev L" "first_block L' = first_block L" "last_block L' = last_block L"
    and "length (blocks L') = length (blocks L)" "length (insts L') = length (insts L)"
    and "\<And>c. c \<noteq> b \<Longrightarrow> bfirst L' c = bfirst L c \<and> blast L' c = blast L c"
    and "b \<in> set bs" "dll (inext L') (iprev L') (bfirst L' b) (blast L' b) zs"
    and "\<And>j. j \<notin> set (ils b) \<Longrightarrow> j \<notin> set zs \<Longrightarrow> insts L' ! j = insts L ! j"
    and "\<And>j. j \<in> set zs \<Longrightarrow> j < length (insts L) \<and> iblock L' j = Some b \<and> (\<forall>c. c \<noteq> b \<longrightarrow> j \<notin> set (ils c))"
    and "\<And>j. j \<in> set (ils b) \<Longrightarrow> j \<notin> set zs \<Longrightarrow> insts L' ! j = InstNode_default"
  shows "Layout_ok L' bs (ils(b := zs))"
proof -
  have keep: "insts L' ! j = insts L ! j" if "j \<in> set (ils c)" "c \<noteq> b" for j c
    using that assms(11,12) disjoint_blocks [OF assms(1) that(1)] by blast
  have "blocks L' ! c = BlockNode_default" if "c < length (blocks L)" "c \<notin> set bs" for c
  proof -
    have "c \<noteq> b" using that assms(9) by auto
    then show ?thesis
      using fresh_block [OF assms(1) that] fun_cong [OF assms(2), of c] fun_cong [OF assms(3), of c] assms(8) [of c]
      by (simp add: link_defs BlockNode_default_def)
  qed
  then have "Blocks_ok L' bs"
    using Layout_okD(1) [OF assms(1)] by (auto simp: Blocks_ok_def assms(2-6))
  moreover have "dll (inext L') (iprev L') (bfirst L' c) (blast L' c) (ils c)" if "c \<in> set bs" "c \<noteq> b" for c
    using insts_dll(1) [OF assms(1) that(1)] keep [OF _ that(2)] assms(8) [OF that(2)]
    by (subst dll_cong [of "ils c" "inext L'" "inext L" "iprev L'" "iprev L"]) (auto simp: link_defs)
  moreover have "iblock L' j = Some c" if "j \<in> set (ils c)" "c \<noteq> b" for j c
    using keep [OF that] ok_inst(3) [OF assms(1) that(1)] by (simp add: link_defs)
  moreover have "insts L' ! j = InstNode_default"
    if "j < length (insts L)" "\<forall>c \<in> set bs. j \<notin> set ((ils(b := zs)) c)" for j
  proof (cases "j \<in> set (ils b)")
    case True
    with that assms(9,13) show ?thesis by auto
  next
    case False
    have "j \<notin> set zs" using that(2) assms(9) by auto
    moreover have "\<forall>c. j \<notin> set (ils c)" using that(2) False ok_inst(1) [OF assms(1)] by (metis fun_upd_apply)
    ultimately show ?thesis using fresh_inst(1) [OF assms(1) that(1)] assms(11) False by simp
  qed
  ultimately have "Insts_ok L' bs (ils(b := zs))"
    using assms(7,10,12) ok_inst [OF assms(1)] by (auto simp: Insts_ok_def)
  then show ?thesis
    using \<open>Blocks_ok L' bs\<close> assms(9) Layout_okD(3) [OF assms(1)] by (auto simp: Layout_ok_def)
qed


text \<open>Insertion of a free instruction at any position of a block's list.\<close>

lemma inserted_inst_ok:
  assumes "Layout_ok L bs ils" "b \<in> set bs" "ils b = xs @ ys" "i < length (insts L)" "\<forall>b. i \<notin> set (ils b)"
    and "bnext L' = bnext L" "bprev L' = bprev L" "first_block L' = first_block L" "last_block L' = last_block L"
    and "length (blocks L') = length (blocks L)" "length (insts L') = length (insts L)"
    and "inext L' = (link_opt (last_of None xs) (Some i) (inext L))(i := first_of ys None)"
    and "iprev L' = (link_opt (first_of ys None) (Some i) (iprev L))(i := last_of None xs)"
    and "iblock L' = (iblock L)(i := Some b)"
    and "bfirst L' = (if xs = [] then (bfirst L)(b := Some i) else bfirst L)"
    and "blast L' = (if ys = [] then (blast L)(b := Some i) else blast L)"
  shows "Layout_ok L' bs (ils(b := xs @ i # ys))"
proof (rule relinked_insts_ok [OF assms(1,6-11)])
  show "dll (inext L') (iprev L') (bfirst L' b) (blast L' b) (xs @ i # ys)"
  proof -
    have "i \<notin> set (xs @ ys)" using spec [OF assms(5), of b] unfolding assms(3) .
    from dll_insert [OF _ this] insts_dll(1) [OF assms(1,2)] show ?thesis
      unfolding assms(12,13) by (auto simp: assms(3,15,16) elim!: dll_eqI)
  qed
  show "insts L' ! j = insts L ! j" if "j \<notin> set (ils b)" "j \<notin> set (xs @ i # ys)" for j
  proof -
    have "last_of None xs \<noteq> Some j" "first_of ys None \<noteq> Some j" "j \<noteq> i"
      using that(2) by (auto dest: last_of_SomeD first_of_SomeD)
    then have "inext L' j = inext L j" "iprev L' j = iprev L j" "iblock L' j = iblock L j"
      by (simp_all add: assms(12-14) link_opt_other)
    then show ?thesis by (simp add: link_defs)
  qed
  show "j < length (insts L) \<and> iblock L' j = Some b \<and> (\<forall>c. c \<noteq> b \<longrightarrow> j \<notin> set (ils c))"
    if "j \<in> set (xs @ i # ys)" for j
  proof (cases "j = i")
    case False
    then have j: "j \<in> set (ils b)" using that assms(3) by auto
    then have "\<forall>c. c \<noteq> b \<longrightarrow> j \<notin> set (ils c)" using disjoint_blocks [OF assms(1) j] by blast
    then show ?thesis using ok_inst [OF assms(1) j] False by (simp add: assms(14))
  qed (use assms(4,5,14) in auto)
qed (auto simp: assms(2,3,15,16))

lemma Layout_append_inst_to_bb_ok:
  assumes "Layout_ok L bs ils" "b \<in> set bs" "\<forall>c. i \<notin> set (ils c)"
  shows "\<exists>L'. Layout_append_inst_to_bb L i b = Some L' \<and> Layout_ok L' bs (ils(b := ils b @ [i]))"
proof -
  define G where "G = grow_insts L i"
  have G: "Layout_ok G bs ils" "i < length (insts G)"
    unfolding G_def by (rule grow_insts_ok [OF assms(1)])+
  note fr = fresh_inst(2-4) [OF G assms(3)] and d = insts_dll [OF G(1) assms(2)]
  have ends: "bfirst G b = first_of (ils b) None" "blast G b = last_of None (ils b)"
    using d(1) by (simp_all add: dll_def)
  have lst: "j < length (insts G)" "j \<noteq> i" if "last_of None (ils b) = Some j" for j
    using ok_inst(2) [OF G(1)] assms(3) last_of_SomeD [OF that] by auto
  have fst: "first_of (ils b) None = None \<longleftrightarrow> last_of None (ils b) = None" by simp
  define L1 where "L1 = set_inst i ((insts G ! i)\<lparr>in_block := Some b, in_prev := blast G b\<rparr>) G"
  define L2 where "L2 = (case last_of None (ils b) of
      None \<Rightarrow> set_block b ((blocks L1 ! b)\<lparr>first_inst := Some i\<rparr>) L1
    | Some j \<Rightarrow> set_inst j ((insts L1 ! j)\<lparr>in_next := Some i\<rparr>) L1)"
  define L3 where "L3 = set_block b ((blocks L2 ! b)\<lparr>last_inst := Some i\<rparr>) L2"
  have ins: "Layout_is_block_inserted G b = Some True" "Layout_inst_block G i = None"
    using is_block_inserted_iff [OF Layout_okD(1) [OF G(1)] d(3)] assms(2) inst_block_ok(2) [OF G(1)] assms(3)
    by simp_all
  have "Layout_append_inst_to_bb L i b = Some L3"
    using d(3) G(2) lst ends fst ins fr
    by (cases "last_of None (ils b)")
      (auto simp: Layout_append_inst_to_bb_def G_def [symmetric] L1_def L2_def L3_def node_links Let_def)
  moreover have "Layout_ok L3 bs (ils(b := ils b @ [i]))"
    using d(3) G(2) lst ends fr
    by (intro inserted_inst_ok [OF G(1) assms(2) _ G(2) assms(3), where xs = "ils b" and ys = "[]"])
      (cases "last_of None (ils b)"; auto simp: L1_def L2_def L3_def fun_eq_iff node_links)+
  ultimately show ?thesis by blast
qed

lemma Layout_prepend_inst_ok:
  assumes "Layout_ok L bs ils" "ils b = xs @ y # ys" "\<forall>c. i \<notin> set (ils c)"
  shows "\<exists>L'. Layout_prepend_inst L i y = Some L' \<and> Layout_ok L' bs (ils(b := xs @ i # y # ys))"
proof -
  define G where "G = grow_insts L i"
  have G: "Layout_ok G bs ils" "i < length (insts G)"
    unfolding G_def by (rule grow_insts_ok [OF assms(1)])+
  have y: "y \<in> set (ils b)" by (simp add: assms(2))
  note iy = ok_inst [OF G(1) y] and fr = fresh_inst(2-4) [OF G assms(3)]
  note d = insts_dll [OF G(1) iy(1)]
  have nb: "iprev G y = last_of None xs" "bfirst G b = first_of xs (Some y)"
    using d(1) dll_at [of "inext G" "iprev G" _ _ xs y ys] by (auto simp: assms(2) dll_def)
  have yi: "y \<noteq> i" using y assms(3) by auto
  have prv: "j < length (insts G)" "j \<noteq> i" "j \<noteq> y" if "last_of None xs = Some j" for j
    using ok_inst(2) [OF G(1), of j b] spec [OF assms(3), of b] assms(2) d(2) last_of_SomeD [OF that] by auto
  define L1 where "L1 = set_inst y ((insts G ! y)\<lparr>in_prev := Some i\<rparr>)
      (set_inst i ((insts G ! i)\<lparr>in_block := Some b, in_next := Some y, in_prev := last_of None xs\<rparr>) G)"
  define L2 where "L2 = (case last_of None xs of
      None \<Rightarrow> set_block b ((blocks L1 ! b)\<lparr>first_inst := Some i\<rparr>) L1
    | Some j \<Rightarrow> set_inst j ((insts L1 ! j)\<lparr>in_next := Some i\<rparr>) L1)"
  have ins: "Layout_inst_block G y = Some b" "Layout_inst_block G i = None"
    using inst_block_ok [OF G(1)] assms(3) y by auto
  have "Layout_prepend_inst L i y = Some L2"
    using d(3) G(2) prv ins nb yi iy fr
    by (cases "last_of None xs")
      (auto simp: Layout_prepend_inst_def G_def [symmetric] L1_def L2_def node_links Let_def)
  moreover have "Layout_ok L2 bs (ils(b := xs @ i # y # ys))"
    using d(3) G(2) prv ins nb yi iy fr
    by (intro inserted_inst_ok [OF G(1) iy(1) assms(2) G(2) assms(3)])
      (cases "last_of None xs"; auto simp: L1_def L2_def fun_eq_iff node_links)+
  ultimately show ?thesis by blast
qed

lemma Layout_append_inst_ok:
  assumes "Layout_ok L bs ils" "ils b = xs @ y # ys" "\<forall>c. i \<notin> set (ils c)"
  shows "\<exists>L'. Layout_append_inst L i y = Some L' \<and> Layout_ok L' bs (ils(b := xs @ y # i # ys))"
proof -
  define G where "G = grow_insts L i"
  have G: "Layout_ok G bs ils" "i < length (insts G)"
    unfolding G_def by (rule grow_insts_ok [OF assms(1)])+
  have y: "y \<in> set (ils b)" by (simp add: assms(2))
  note iy = ok_inst [OF G(1) y] and fr = fresh_inst(2-4) [OF G assms(3)]
  note d = insts_dll [OF G(1) iy(1)]
  have nb: "inext G y = first_of ys None"
    using d(1) dll_at [of "inext G" "iprev G" _ _ xs y ys] by (auto simp: assms(2) dll_def)
  have yi: "y \<noteq> i" using y assms(3) by auto
  have nx: "j < length (insts G)" "j \<noteq> i" "j \<noteq> y" if "first_of ys None = Some j" for j
    using ok_inst(2) [OF G(1), of j b] spec [OF assms(3), of b] assms(2) d(2) first_of_SomeD [OF that] by auto
  define L1 where "L1 = set_inst y ((insts G ! y)\<lparr>in_next := Some i\<rparr>)
      (set_inst i ((insts G ! i)\<lparr>in_block := Some b, in_next := first_of ys None, in_prev := Some y\<rparr>) G)"
  define L2 where "L2 = (case first_of ys None of
      None \<Rightarrow> set_block b ((blocks L1 ! b)\<lparr>last_inst := Some i\<rparr>) L1
    | Some j \<Rightarrow> set_inst j ((insts L1 ! j)\<lparr>in_prev := Some i\<rparr>) L1)"
  have ins: "Layout_inst_block G y = Some b" "Layout_inst_block G i = None"
    using inst_block_ok [OF G(1)] assms(3) y by auto
  have "Layout_append_inst L i y = Some L2"
    using d(3) G(2) nx ins nb yi iy fr
    by (cases "first_of ys None")
      (auto simp: Layout_append_inst_def G_def [symmetric] L1_def L2_def node_links Let_def)
  moreover have "Layout_ok L2 bs (ils(b := (xs @ [y]) @ i # ys))"
    using d(3) G(2) nx ins nb yi iy fr assms(2)
    by (intro inserted_inst_ok [OF G(1) iy(1) _ G(2) assms(3)])
      (cases "first_of ys None"; auto simp: L1_def L2_def fun_eq_iff node_links)+
  ultimately show ?thesis by auto
qed

lemma Layout_remove_inst_ok:
  assumes "Layout_ok L bs ils" "ils b = xs @ i # ys"
  shows "\<exists>L'. Layout_remove_inst L i = Some L' \<and> Layout_ok L' bs (ils(b := xs @ ys))"
proof -
  have y: "i \<in> set (ils b)" by (simp add: assms(2))
  note ii = ok_inst [OF assms(1) y]
  note d = insts_dll [OF assms(1) ii(1)]
  have nb: "inext L i = first_of ys None" "iprev L i = last_of None xs"
    "bfirst L b = first_of xs (Some i)" "blast L b = last_of (Some i) ys"
    using d(1) dll_at [of "inext L" "iprev L" _ _ xs i ys] by (auto simp: assms(2) dll_def)
  have nx: "j < length (insts L)" "j \<noteq> i" if "first_of ys None = Some j" for j
    using ok_inst(2) [OF assms(1), of j b] assms(2) d(2) first_of_SomeD [OF that] by auto
  have prv: "j < length (insts L)" "j \<noteq> i" if "last_of None xs = Some j" for j
    using ok_inst(2) [OF assms(1), of j b] assms(2) d(2) last_of_SomeD [OF that] by auto
  have np: "last_of None xs = Some j \<Longrightarrow> first_of ys None = Some k \<Longrightarrow> j \<noteq> k" for j k
    using d(2) by (auto simp: assms(2) dest!: last_of_SomeD first_of_SomeD)
  define L1 where "L1 = set_inst i InstNode_default L"
  define L2 where "L2 = (case last_of None xs of
      None \<Rightarrow> set_block b ((blocks L1 ! b)\<lparr>first_inst := first_of ys None\<rparr>) L1
    | Some j \<Rightarrow> set_inst j ((insts L1 ! j)\<lparr>in_next := first_of ys None\<rparr>) L1)"
  define L3 where "L3 = (case first_of ys None of
      None \<Rightarrow> set_block b ((blocks L2 ! b)\<lparr>last_inst := last_of None xs\<rparr>) L2
    | Some j \<Rightarrow> set_inst j ((insts L2 ! j)\<lparr>in_prev := last_of None xs\<rparr>) L2)"
  have def: "(insts L ! i)\<lparr>in_block := None, in_prev := None, in_next := None\<rparr> = InstNode_default"
    by (simp add: InstNode_default_def)
  have L2: "length (blocks L2) = length (blocks L)" "length (insts L2) = length (insts L)"
    by (auto simp: L1_def L2_def split: option.splits)
  have "Layout_inst_block L i = Some b" using inst_block_ok(1) [OF assms(1)] y by simp
  then have run: "Layout_remove_inst L i = Some L3"
    using d(3) nx prv nb ii(2) L2
    by (cases "last_of None xs"; cases "first_of ys None")
      (auto simp: Layout_remove_inst_def def L1_def L2_def L3_def node_links Let_def)
  have links: "inext L3 = link_opt (last_of None xs) (first_of ys None) ((inext L)(i := None))"
    "iprev L3 = link_opt (first_of ys None) (last_of None xs) ((iprev L)(i := None))"
    "iblock L3 = (iblock L)(i := None)"
    "bfirst L3 = (if xs = [] then (bfirst L)(b := first_of ys None) else bfirst L)"
    "blast L3 = (if ys = [] then (blast L)(b := last_of None xs) else blast L)"
    "bnext L3 = bnext L" "bprev L3 = bprev L" "first_block L3 = first_block L" "last_block L3 = last_block L"
    "length (blocks L3) = length (blocks L)" "length (insts L3) = length (insts L)"
    using nx prv ii(2) d(3) L2
    by (cases "last_of None xs"; cases "first_of ys None";
        auto simp: L1_def L2_def L3_def fun_eq_iff node_links InstNode_default_def)+
  have "Layout_ok L3 bs (ils(b := xs @ ys))"
  proof (rule relinked_insts_ok [OF assms(1) links(6-11) _ ii(1)])
    show "dll (inext L3) (iprev L3) (bfirst L3 b) (blast L3 b) (xs @ ys)"
      using dll_remove [OF d(1) [unfolded assms(2)], of None None] by (cases "xs = []"; cases "ys = []") (simp_all add: links)
    show "insts L3 ! j = insts L ! j" if "j \<notin> set (ils b)" "j \<notin> set (xs @ ys)" for j
    proof -
      have "last_of None xs \<noteq> Some j" "first_of ys None \<noteq> Some j" "j \<noteq> i"
        using that y by (auto dest: last_of_SomeD first_of_SomeD)
      then have "inext L3 j = inext L j" "iprev L3 j = iprev L j" "iblock L3 j = iblock L j"
        by (simp_all add: links link_opt_other)
      then show ?thesis by (simp add: link_defs)
    qed
    show "j < length (insts L) \<and> iblock L3 j = Some b \<and> (\<forall>c. c \<noteq> b \<longrightarrow> j \<notin> set (ils c))"
      if "j \<in> set (xs @ ys)" for j
    proof -
      have j: "j \<in> set (ils b)" "j \<noteq> i" using that d(2) by (auto simp: assms(2))
      then have "\<forall>c. c \<noteq> b \<longrightarrow> j \<notin> set (ils c)" using disjoint_blocks [OF assms(1) j(1)] by blast
      then show ?thesis using ok_inst [OF assms(1) j(1)] j(2) by (simp add: links)
    qed
    show "insts L3 ! j = InstNode_default" if "j \<in> set (ils b)" "j \<notin> set (xs @ ys)" for j
    proof -
      have "j = i" using that by (auto simp: assms(2))
      moreover have "last_of None xs \<noteq> Some i" "first_of ys None \<noteq> Some i" using nx prv by auto
      ultimately have "inext L3 j = None" "iprev L3 j = None" "iblock L3 j = None"
        by (simp_all add: links link_opt_other)
      then show ?thesis by (simp add: link_defs InstNode_default_def)
    qed
  qed (simp_all add: links(4,5))
  with run show ?thesis by blast
qed


section \<open>Cursors\<close>

text \<open>
  A cursor over part of a block stands for the list of instructions it has still to yield, from
  either end.
\<close>

definition cursor_of :: "inst list \<Rightarrow> inst_cursor" where
  "cursor_of xs = \<lparr>head = first_of xs None, tail = last_of None xs\<rparr>"

lemma InstCursor_next_seg:
  assumes "seg (inext L) (iprev L) p xs n" "distinct xs" "\<forall>i \<in> set xs. i < length (insts L)"
  shows "InstCursor_next L (cursor_of xs) = Some (first_of xs None, cursor_of (tl xs))"
proof (cases xs)
  case Nil
  then show ?thesis by (simp add: InstCursor_next_def cursor_of_def)
next
  case xs: (Cons x ys)
  show ?thesis
  proof (cases ys)
    case (Cons y zs)
    have "last ys \<noteq> x" using assms(2) xs Cons by (metis distinct.simps(2) last_in_set list.discI)
    then have "head (cursor_of xs) \<noteq> tail (cursor_of xs)"
      using xs Cons by (simp add: cursor_of_def last_of_def)
    moreover have "x < length (insts L)" "inext L x = Some y" using assms xs Cons by auto
    ultimately show ?thesis
      using xs Cons by (simp add: InstCursor_next_def cursor_of_def node_links last_of_def)
  qed (simp add: xs InstCursor_next_def cursor_of_def)
qed

lemma InstCursor_next_back_seg:
  assumes "seg (inext L) (iprev L) p xs n" "distinct xs" "\<forall>i \<in> set xs. i < length (insts L)"
  shows "InstCursor_next_back L (cursor_of xs) = Some (last_of None xs, cursor_of (butlast xs))"
proof (cases xs rule: rev_cases)
  case Nil
  then show ?thesis by (simp add: InstCursor_next_back_def cursor_of_def)
next
  case xs: (snoc ys x)
  show ?thesis
  proof (cases ys)
    case (Cons y zs)
    have "head (cursor_of xs) \<noteq> tail (cursor_of xs)"
      using xs Cons assms(2) by (auto simp: cursor_of_def)
    moreover have "x < length (insts L)" "iprev L x = last_of None ys" using assms xs Cons by (auto simp: seg_append)
    ultimately show ?thesis
      using xs Cons by (simp add: InstCursor_next_back_def cursor_of_def node_links)
  qed (simp add: xs InstCursor_next_back_def cursor_of_def)
qed

lemma block_inst_cursor_ok:
  assumes "Layout_ok L bs ils" "b \<in> set bs"
  shows "Layout_block_inst_cursor L b = Some (cursor_of (ils b))"
  using insts_dll [OF assms] by (simp add: Layout_block_inst_cursor_def cursor_of_def dll_def node_links)

lemma insts_seg:
  assumes "Layout_ok L bs ils" "b \<in> set bs" "ils b = xs @ ys @ zs"
  shows "seg (inext L) (iprev L) (last_of None xs) ys (first_of zs None)" "distinct ys"
    "\<forall>i \<in> set ys. i < length (insts L)"
  using insts_dll [OF assms(1,2)] ok_inst(2) [OF assms(1), of _ b] by (auto simp: assms(3) dll_def seg_append)

text \<open>A cursor over any run of a block's instructions yields them in order from both ends.\<close>

lemma InstCursor_steps:
  assumes "Layout_ok L bs ils" "b \<in> set bs" "ils b = xs @ ys @ zs"
  shows "InstCursor_next L (cursor_of ys) = Some (first_of ys None, cursor_of (tl ys))"
    and "InstCursor_next_back L (cursor_of ys) = Some (last_of None ys, cursor_of (butlast ys))"
  using InstCursor_next_seg [OF insts_seg [OF assms]] InstCursor_next_back_seg [OF insts_seg [OF assms]] by auto

lemma block_insts_no_term_ok:
  assumes "Layout_ok L bs ils" "b \<in> set bs"
  shows "Layout_block_insts_no_term L b = Some (cursor_of (butlast (ils b)))"
  using InstCursor_steps(2) [OF assms, of "[]" "ils b" "[]"] block_inst_cursor_ok [OF assms]
  by (simp add: Layout_block_insts_no_term_def)

lemma block_terminator_ok:
  assumes "Layout_ok L bs ils" "b \<in> set bs"
  shows "Layout_block_terminator L b = Some (last_of None (ils b))"
  using insts_dll [OF assms] by (simp add: Layout_block_terminator_def node_links dll_def)

text \<open>The forward block cursor standing at a block yields it and moves to the next.\<close>

lemma BlockCursor_steps:
  assumes "Layout_ok L (xs @ ys) ils"
  shows "BlockCursor_next L (first_of ys None) =
      Some (first_of ys None, first_of (tl ys) None)"
    and "RevBlockCursor_next L (last_of None xs) =
      Some (last_of None xs, last_of None (butlast xs))"
proof -
  show "BlockCursor_next L (first_of ys None) = Some (first_of ys None, first_of (tl ys) None)"
  proof (cases ys)
    case (Cons y zs)
    have "Layout_ok L (xs @ y # zs) ils" using assms Cons by simp
    from block_at(1,3) [OF this] Cons show ?thesis
      by (simp add: BlockCursor_next_def Layout_next_block_def node_links)
  qed (simp add: BlockCursor_next_def)
  show "RevBlockCursor_next L (last_of None xs) = Some (last_of None xs, last_of None (butlast xs))"
  proof (cases xs rule: rev_cases)
    case (snoc zs y)
    have "Layout_ok L (zs @ y # ys) ils" using assms snoc by simp
    from block_at(1,2) [OF this] snoc show ?thesis
      by (simp add: RevBlockCursor_next_def Layout_prev_block_def node_links)
  qed (simp add: RevBlockCursor_next_def)
qed

lemma block_cursor_starts:
  assumes "Layout_ok L bs ils"
  shows "Layout_blocks L = first_of bs None" "Layout_rev_blocks_cursor L = last_of None bs"
    "Layout_entry_block L = first_of bs None" "Layout_last_block L = last_of None bs"
  using assms by (auto simp: Layout_ok_def Blocks_ok_def Layout_blocks_def Layout_rev_blocks_cursor_def
      Layout_entry_block_def Layout_last_block_def dest: dll_ptrs)

section \<open>Operations on whole blocks\<close>

lemma clear_insts_loop_seg:
  assumes "seg (\<lambda>i. in_next (is ! i)) prv p xs None" "distinct xs" "\<forall>i \<in> set xs. i < length is"
  shows "\<exists>is'. clear_insts_loop (first_of xs None) is = Some is' \<and> length is' = length is \<and>
    (\<forall>j. is' ! j = (if j \<in> set xs then InstNode_default else is ! j))"
  using assms
proof (induction xs arbitrary: "is" p)
  case (Cons x xs)
  let ?is = "is[x := InstNode_default]"
  have "seg (\<lambda>i. in_next (?is ! i)) prv (Some x) xs None"
    using Cons.prems by (subst seg_cong [of xs _ "\<lambda>i. in_next (is ! i)" prv prv]) (auto simp: nth_list_update)
  from Cons.IH [OF this] Cons.prems obtain is' where is':
    "clear_insts_loop (first_of xs None) ?is = Some is'" "length is' = length is"
    "\<forall>j. is' ! j = (if j \<in> set xs then InstNode_default else ?is ! j)" by auto
  then show ?case
    using Cons.prems by (intro exI [of _ is']) (auto simp: nth_list_update)
qed simp

lemma Layout_clear_block_ok:
  assumes "Layout_ok L bs ils" "b \<in> set bs"
  shows "\<exists>L'. Layout_clear_block L b = Some L' \<and> Layout_ok L' bs (ils(b := []))"
proof -
  note d = insts_dll [OF assms]
  have "seg (\<lambda>i. in_next (insts L ! i)) (iprev L) None (ils b) None"
    using d(1) by (simp add: dll_def node_links)
  from clear_insts_loop_seg [OF this d(2)] ok_inst(2) [OF assms(1)] obtain is' where is':
    "clear_insts_loop (first_of (ils b) None) (insts L) = Some is'" "length is' = length (insts L)"
    "\<forall>j. is' ! j = (if j \<in> set (ils b) then InstNode_default else insts L ! j)" by blast
  define L1 where "L1 = L\<lparr>insts := is'\<rparr>"
  have L1: "bnext L1 = bnext L" "bprev L1 = bprev L" "bfirst L1 = bfirst L" "blast L1 = blast L"
    "insts L1 = is'" "blocks L1 = blocks L" "first_block L1 = first_block L" "last_block L1 = last_block L"
    by (auto simp: L1_def link_defs fun_eq_iff)
  define L2 where "L2 = set_block b ((blocks L1 ! b)\<lparr>first_inst := None, last_inst := None\<rparr>) L1"
  have "Layout_clear_block L b = Some L2"
    using is'(1) d L1 by (simp add: Layout_clear_block_def Layout_first_inst_def node_links dll_def L1_def [symmetric] L2_def)
  moreover have "Layout_ok L2 bs (ils(b := []))"
    using d(3) is' L1 assms(2)
    by (intro relinked_insts_ok [OF assms(1)]) (auto simp: L2_def fun_eq_iff node_links)
  ultimately show ?thesis by blast
qed

lemma Layout_remove_and_clear_block_ok:
  assumes "Layout_ok L (xs @ y # ys) ils" "xs \<noteq> [] \<or> ys \<noteq> []"
  shows "\<exists>L'. Layout_remove_and_clear_block L y = Some L' \<and> Layout_ok L' (xs @ ys) (ils(y := []))"
proof -
  obtain L1 where L1: "Layout_clear_block L y = Some L1" "Layout_ok L1 (xs @ y # ys) (ils(y := []))"
    using Layout_clear_block_ok [OF assms(1), of y] by auto
  from Layout_remove_empty_block_ok [OF L1(2) _ assms(2)] L1(1) show ?thesis
    by (simp add: Layout_remove_and_clear_block_def)
qed


text \<open>
  Instructions moved between two blocks. The second block may have been inserted at the same time.
\<close>

lemma moved_insts_ok:
  assumes "Layout_ok L bs ils" "Blocks_ok L' bs'" "b \<in> set bs'" "c \<in> set bs'" "b \<noteq> c"
    and "set bs \<subseteq> set bs'" "set bs' \<subseteq> set bs \<union> {b, c}" "length (insts L') = length (insts L)"
    and "\<And>d. d \<noteq> b \<Longrightarrow> d \<noteq> c \<Longrightarrow> bfirst L' d = bfirst L d \<and> blast L' d = blast L d"
    and "dll (inext L') (iprev L') (bfirst L' b) (blast L' b) zs"
    and "dll (inext L') (iprev L') (bfirst L' c) (blast L' c) ws"
    and "set zs \<union> set ws \<subseteq> set (ils b) \<union> set (ils c)"
    and "\<And>j. j \<notin> set (ils b) \<union> set (ils c) \<Longrightarrow> insts L' ! j = insts L ! j"
    and "\<And>j. j \<in> set zs \<Longrightarrow> iblock L' j = Some b" "\<And>j. j \<in> set ws \<Longrightarrow> iblock L' j = Some c"
    and "\<And>j. j \<in> set (ils b) \<union> set (ils c) \<Longrightarrow> j \<notin> set zs \<union> set ws \<Longrightarrow> insts L' ! j = InstNode_default"
  shows "Layout_ok L' bs' (ils(b := zs, c := ws))"
proof -
  have keep: "insts L' ! j = insts L ! j" if "j \<in> set (ils d)" "d \<noteq> b" "d \<noteq> c" for j d
    using that assms(13) disjoint_blocks [OF assms(1) that(1)] by blast
  have old: "d \<in> set bs" if "d \<in> set bs'" "d \<noteq> b" "d \<noteq> c" for d using that assms(7) by auto
  have "dll (inext L') (iprev L') (bfirst L' d) (blast L' d) (ils d)"
    if "d \<in> set bs'" "d \<noteq> b" "d \<noteq> c" for d
    using insts_dll(1) [OF assms(1) old [OF that]] keep [OF _ that(2,3)] assms(9) [OF that(2,3)]
    by (subst dll_cong [of "ils d" "inext L'" "inext L" "iprev L'" "iprev L"]) (auto simp: link_defs)
  moreover have "iblock L' j = Some d" if "j \<in> set (ils d)" "d \<noteq> b" "d \<noteq> c" for j d
    using keep [OF that] ok_inst(3) [OF assms(1) that(1)] by (simp add: link_defs)
  moreover have "j < length (insts L')" if "j \<in> set ((ils(b := zs, c := ws)) d)" for j d
    using that ok_inst(2) [OF assms(1), of j] assms(8,12) by (auto split: if_splits)
  moreover have "insts L' ! j = InstNode_default"
    if "j < length (insts L)" "\<forall>d \<in> set bs'. j \<notin> set ((ils(b := zs, c := ws)) d)" for j
  proof (cases "j \<in> set (ils b) \<union> set (ils c)")
    case True
    have "j \<notin> set zs \<union> set ws" using that(2) assms(3-5) by auto
    with True assms(16) show ?thesis by blast
  next
    case False
    have "\<forall>d. j \<notin> set (ils d)" using that(2) False ok_inst(1) [OF assms(1), of j] assms(6)
      by (metis UnCI fun_upd_apply subsetD)
    then show ?thesis using fresh_inst(1) [OF assms(1) that(1)] assms(13) [OF False] by simp
  qed
  ultimately have "Insts_ok L' bs' (ils(b := zs, c := ws))"
    using assms(5,8,10,11,14,15) by (auto simp: Insts_ok_def)
  then show ?thesis
    using assms(2-4,6) Layout_okD(3) [OF assms(1)] by (auto simp: Layout_ok_def)
qed

lemma merge_set_block_loop_seg:
  assumes "seg (inext L) (iprev L) p xs n" "distinct xs" "\<forall>i \<in> set xs. i < length (insts L)"
  shows "\<exists>L'. merge_set_block_loop b (cursor_of xs) L = Some L' \<and> blocks L' = blocks L \<and>
    first_block L' = first_block L \<and> last_block L' = last_block L \<and> length (insts L') = length (insts L) \<and>
    (\<forall>j. insts L' ! j = (if j \<in> set xs then (insts L ! j)\<lparr>in_block := Some b\<rparr> else insts L ! j))"
  using assms
proof (induction xs arbitrary: L p)
  case Nil
  then show ?case
    by (subst merge_set_block_loop.simps) (simp add: InstCursor_next_def cursor_of_def)
next
  case (Cons x xs)
  let ?L = "set_inst x ((insts L ! x)\<lparr>in_block := Some b\<rparr>) L"
  have x: "x < length (insts L)" using Cons.prems by simp
  have "seg (inext ?L) (iprev ?L) (Some x) xs n"
    using Cons.prems x by (subst seg_cong [of xs _ "inext L" _ "iprev L"]) (auto simp: node_links)
  from Cons.IH [OF this] Cons.prems x obtain L' where L':
    "merge_set_block_loop b (cursor_of xs) ?L = Some L'" "blocks L' = blocks L"
    "first_block L' = first_block L" "last_block L' = last_block L" "length (insts L') = length (insts L)"
    "\<forall>j. insts L' ! j = (if j \<in> set xs then (insts ?L ! j)\<lparr>in_block := Some b\<rparr> else insts ?L ! j)"
    by auto
  then have "merge_set_block_loop b (cursor_of (x # xs)) L = Some L'"
    using InstCursor_next_seg [OF Cons.prems] x by (subst merge_set_block_loop.simps) simp
  with L' x Cons.prems(2) show ?case by (intro exI [of _ L']) auto
qed

lemma split_set_block_loop_seg:
  assumes "seg (inext L) (iprev L) p xs None" "distinct xs"
    "\<forall>i \<in> set xs. i < length (insts L) \<and> iblock L i = Some ob"
  shows "\<exists>L'. split_set_block_loop ob nb (first_of xs None) L = Some L' \<and> blocks L' = blocks L \<and>
    first_block L' = first_block L \<and> last_block L' = last_block L \<and> length (insts L') = length (insts L) \<and>
    (\<forall>j. insts L' ! j = (if j \<in> set xs then (insts L ! j)\<lparr>in_block := Some nb\<rparr> else insts L ! j))"
  using assms
proof (induction xs arbitrary: L p)
  case Nil
  then show ?case by (subst split_set_block_loop.simps) simp
next
  case (Cons x xs)
  let ?L = "set_inst x ((insts L ! x)\<lparr>in_block := Some nb\<rparr>) L"
  have x: "x < length (insts L)" using Cons.prems by simp
  have "seg (inext ?L) (iprev ?L) (Some x) xs None"
    using Cons.prems x by (subst seg_cong [of xs _ "inext L" _ "iprev L"]) (auto simp: node_links)
  moreover have "\<forall>i \<in> set xs. i < length (insts ?L) \<and> iblock ?L i = Some ob"
    using Cons.prems x by auto
  ultimately obtain L' where L':
    "split_set_block_loop ob nb (first_of xs None) ?L = Some L'" "blocks L' = blocks L"
    "first_block L' = first_block L" "last_block L' = last_block L" "length (insts L') = length (insts L)"
    "\<forall>j. insts L' ! j = (if j \<in> set xs then (insts ?L ! j)\<lparr>in_block := Some nb\<rparr> else insts ?L ! j)"
    using Cons.IH [of ?L "Some x"] Cons.prems(2) by auto
  then have "split_set_block_loop ob nb (first_of (x # xs) None) L = Some L'"
    using Cons.prems x by (subst split_set_block_loop.simps) (simp add: node_links)
  with L' x Cons.prems(2) show ?case by (intro exI [of _ L']) auto
qed


text \<open>Splitting a block: the instructions from \<open>y\<close> on move to the new block behind it.\<close>

lemma Layout_split_block_ok:
  assumes "Layout_ok L (as @ ob # cs) ils" "ils ob = xs @ y # ys"
    and "nb < length (blocks L)" "nb \<notin> set (as @ ob # cs)"
  shows "\<exists>L'. Layout_split_block L nb y = Some L' \<and>
    Layout_ok L' (as @ ob # nb # cs) (ils(ob := xs, nb := y # ys))"
proof -
  let ?bs = "as @ ob # cs"
  note at = block_at [OF assms(1)] and fresh = fresh_block [OF assms(1,3,4)]
  have ob: "ob \<in> set ?bs" by simp
  have y: "y \<in> set (ils ob)" by (simp add: assms(2))
  note d = insts_dll [OF assms(1) ob] and iy = ok_inst [OF assms(1) y]
  have neq: "nb \<noteq> ob" using assms(4) by auto
  have nb: "Layout_is_block_inserted L nb = Some False" "Layout_inst_block L y = Some ob"
    using is_block_inserted_iff [OF Layout_okD(1) [OF assms(1)] assms(3)] assms(4) inst_block_ok(1) [OF assms(1)] y by auto
  note db = blocks_distinct [OF assms(1)]
  have nx: "c < length (blocks L)" "c \<noteq> ob" "c \<noteq> nb" "last_block L \<noteq> Some ob" if "first_of cs None = Some c" for c
    using at(6) [OF that] assms(4) first_of_SomeD [OF that] db at(8) by (cases cs; auto simp: last_of_def split: if_splits)+
  have prv: "i < length (insts L)" "i \<noteq> y" if "last_of None xs = Some i" for i
    using ok_inst(2) [OF assms(1), of i ob] assms(2) d(2) last_of_SomeD [OF that] by auto
  have ends: "iprev L y = last_of None xs" "blast L ob = last_of (Some y) ys"
    using d(1) dll_at [of "inext L" "iprev L" _ _ xs y ys] by (auto simp: assms(2) dll_def)
  have lastb: "first_of cs None = None \<Longrightarrow> last_block L = Some ob" using at(8) by simp
  define L2 where "L2 = set_block ob ((blocks L ! ob)\<lparr>bn_next := Some nb\<rparr>) (set_block nb ((blocks L ! nb)\<lparr>bn_prev := Some ob,
      bn_next := first_of cs None, first_inst := Some y, last_inst := blast L ob\<rparr>) L)"
  define L3 where "L3 = (case first_of cs None of
      None \<Rightarrow> L2\<lparr>last_block := Some nb\<rparr>
    | Some c \<Rightarrow> set_block c ((blocks L2 ! c)\<lparr>bn_prev := Some nb\<rparr>) L2)"
  define L4 where "L4 = set_inst y ((insts L ! y)\<lparr>in_prev := None\<rparr>) L3"
  define L5 where "L5 = set_block ob ((blocks L4 ! ob)\<lparr>last_inst := last_of None xs\<rparr>) L4"
  define L6 where "L6 = (case last_of None xs of
      None \<Rightarrow> set_block ob ((blocks L5 ! ob)\<lparr>first_inst := None\<rparr>) L5
    | Some i \<Rightarrow> set_inst i ((insts L5 ! i)\<lparr>in_next := None\<rparr>) L5)"
  have len: "length (blocks L3) = length (blocks L)" "insts L3 = insts L" "last_block L2 = last_block L"
    "length (blocks L2) = length (blocks L)" "insts L2 = insts L"
    by (auto simp: L2_def L3_def split: option.splits)
  have len5: "length (blocks L5) = length (blocks L)" "length (insts L5) = length (insts L)"
    "length (blocks L4) = length (blocks L)" "length (insts L4) = length (insts L)"
    by (auto simp: L4_def L5_def len)
  have run: "Layout_split_block L nb y = split_set_block_loop ob nb (Some y) L6"
    using assms(3) at(1,3) nb neq nx prv ends iy(2) lastb len len5
    by (cases "first_of cs None"; cases "last_of None xs")
      (auto simp: Layout_split_block_def L2_def L3_def L4_def L5_def L6_def node_links Let_def)
  have links: "bnext L6 = (link_opt (last_of None (as @ [ob])) (Some nb) (bnext L))(nb := first_of cs None)"
    "bprev L6 = (link_opt (first_of cs None) (Some nb) (bprev L))(nb := last_of None (as @ [ob]))"
    "first_block L6 = first_block L" "last_block L6 = (if cs = [] then Some nb else last_block L)"
    "bfirst L6 = (bfirst L)(nb := Some y, ob := if xs = [] then None else bfirst L ob)"
    "blast L6 = (blast L)(nb := blast L ob, ob := last_of None xs)"
    "inext L6 = link_opt (last_of None xs) None (inext L)" "iprev L6 = (iprev L)(y := None)" "iblock L6 = iblock L"
    "length (blocks L6) = length (blocks L)" "length (insts L6) = length (insts L)"
    using assms(3) at(1,3) neq nx prv iy(2) len len5
    by (cases "first_of cs None"; cases "last_of None xs";
        auto simp: L2_def L3_def L4_def L5_def L6_def fun_eq_iff node_links)+
  have split: "dll (inext L6) (iprev L6) (if xs = [] then None else bfirst L ob) (last_of None xs) xs"
    "dll (inext L6) (iprev L6) (Some y) (blast L ob) (y # ys)"
    unfolding links(7,8) by (rule dll_split [OF d(1) [unfolded assms(2)]])+
  have iys: "\<forall>i \<in> set (y # ys). i < length (insts L6) \<and> iblock L6 i = Some ob"
    using ok_inst(2,3) [OF assms(1), of _ ob] by (auto simp: links assms(2))
  obtain L7 where L7: "split_set_block_loop ob nb (Some y) L6 = Some L7" "blocks L7 = blocks L6"
    "first_block L7 = first_block L6" "last_block L7 = last_block L6" "length (insts L7) = length (insts L6)"
    "\<forall>j. insts L7 ! j = (if j \<in> set (y # ys) then (insts L6 ! j)\<lparr>in_block := Some nb\<rparr> else insts L6 ! j)"
    using split_set_block_loop_seg [OF _ _ iys, of None nb] split(2) by (auto simp: dll_def)
  have links7: "bnext L7 = bnext L6" "bprev L7 = bprev L6" "bfirst L7 = bfirst L6" "blast L7 = blast L6"
    "inext L7 = inext L6" "iprev L7 = iprev L6" "\<And>j. iblock L7 j = (if j \<in> set (y # ys) then Some nb else iblock L j)"
    using L7 by (auto simp: link_defs fun_eq_iff links(9) [unfolded link_defs fun_eq_iff])
  have "Blocks_ok L7 ((as @ [ob]) @ nb # cs)"
    using assms(1,3,4) L7
    by (intro inserted_blocks_ok [of L]) (auto simp: Layout_ok_def links7 links)
  moreover have "dll (inext L7) (iprev L7) (bfirst L7 ob) (blast L7 ob) xs"
    "dll (inext L7) (iprev L7) (bfirst L7 nb) (blast L7 nb) (y # ys)"
    using split neq unfolding links7 links(5,6) by simp_all
  moreover have "insts L7 ! j = insts L ! j" if "j \<notin> set (ils ob)" for j
  proof -
    have "last_of None xs \<noteq> Some j" "j \<noteq> y" using that by (auto simp: assms(2) dest: last_of_SomeD)
    then have "inext L7 j = inext L j" "iprev L7 j = iprev L j" "iblock L7 j = iblock L j"
      using that by (auto simp: links7 links link_opt_other assms(2))
    then show ?thesis by (simp add: link_defs)
  qed
  moreover have "iblock L7 j = Some ob" if "j \<in> set xs" for j
    using that d(2) ok_inst(3) [OF assms(1), of j ob] by (auto simp: links7 assms(2))
  ultimately have "Layout_ok L7 (as @ ob # nb # cs) (ils(ob := xs, nb := y # ys))"
    using neq fresh(5) L7(5)
    by (intro moved_insts_ok [OF assms(1)]) (auto simp: links links7 assms(2))
  with run L7(1) show ?thesis by simp
qed


text \<open>
  Merging \<open>succ\<close> into \<open>pred\<close>: the branch \<open>j\<close> that ends \<open>pred\<close> goes, the instructions of \<open>succ\<close>
  follow, and \<open>succ\<close> leaves the layout.
\<close>

lemma merge_moves_insts:
  assumes "Layout_ok L bs ils" "p \<in> set bs" "c \<in> set bs" "p \<noteq> c"
    and "ils p = xs @ [j]" "ils c = y # ys"
  shows "\<exists>L'. Layout_merge_blocks L p c = Layout_remove_empty_block L' c \<and>
    Layout_ok L' bs (ils(p := xs @ y # ys, c := []))"
proof -
  note dp = insts_dll [OF assms(1,2)] and dc = insts_dll [OF assms(1,3)]
  note cur = block_inst_cursor_ok [OF assms(1,2)] block_inst_cursor_ok [OF assms(1,3)]
  have j: "j \<in> set (ils p)" and y: "y \<in> set (ils c)" by (simp_all add: assms)
  note ij = ok_inst [OF assms(1) j] and iy = ok_inst [OF assms(1) y]
  have dis: "set (xs @ [j]) \<inter> set (y # ys) = {}"
    using disjoint_blocks [OF assms(1), of _ p c] assms(4-6) by force
  have ends: "bfirst L c = Some y" "blast L c = last_of (Some y) ys"
    using dc(1) by (auto simp: assms(6) dll_def)
  have prv: "i < length (insts L)" "i \<noteq> j" "i \<noteq> y" if "last_of None xs = Some i" for i
    using ok_inst(2) [OF assms(1), of i p] assms(5) dp(2) dis last_of_SomeD [OF that] by auto
  define L1 where "L1 = set_inst j InstNode_default L"
  have "seg (inext L1) (iprev L1) None xs (Some j)" "distinct xs" "\<forall>i \<in> set xs. i < length (insts L1)"
    using insts_seg [OF assms(1,2), of "[]" xs "[j]"] assms(5) dp(2) ij(2) by (auto simp: L1_def)
  note back1 = InstCursor_next_back_seg [OF this]
  have "seg (inext L1) (iprev L1) None (y # ys) None" "distinct (y # ys)"
    "\<forall>i \<in> set (y # ys). i < length (insts L1)"
    using insts_seg [OF assms(1,3), of "[]" "y # ys" "[]"] assms(6) dis ij(2) by (auto simp: L1_def)
  from merge_set_block_loop_seg [OF this, of p] obtain L2 where L2:
    "merge_set_block_loop p (cursor_of (y # ys)) L1 = Some L2" "blocks L2 = blocks L"
    "first_block L2 = first_block L" "last_block L2 = last_block L" "length (insts L2) = length (insts L)"
    "\<And>i. insts L2 ! i = (if i \<in> set (y # ys) then (insts L1 ! i)\<lparr>in_block := Some p\<rparr> else insts L1 ! i)"
    by (auto simp: L1_def)
  define L3 where "L3 = (case last_of None xs of
      Some e \<Rightarrow> set_inst y ((insts L2 ! y)\<lparr>in_prev := Some e\<rparr>) (set_inst e ((insts L2 ! e)\<lparr>in_next := Some y\<rparr>) L2)
    | None \<Rightarrow> set_block p ((blocks L2 ! p)\<lparr>first_inst := bfirst L c\<rparr>) L2)"
  define L4 where "L4 = set_block p ((blocks L3 ! p)\<lparr>last_inst := blast L c\<rparr>) L3"
  define L5 where "L5 = set_block c ((blocks L ! c)\<lparr>first_inst := None, last_inst := None\<rparr>) L4"
  have len: "length (blocks L3) = length (blocks L)" "length (blocks L4) = length (blocks L)"
    "length (insts L3) = length (insts L)" "bfirst L2 = bfirst L" "blast L2 = blast L"
    by (auto simp: L3_def L4_def L2 link_defs fun_eq_iff split: option.splits)
  have step_back: "InstCursor_next_back L (cursor_of (xs @ [j])) = Some (Some j, cursor_of xs)"
    using InstCursor_steps(2) [OF assms(1,2), of "[]" "ils p" "[]"] assms(5) by simp
  have cur1: "Layout_block_inst_cursor L1 c = Some (cursor_of (y # ys))"
    using cur(2) assms(6) by (simp add: Layout_block_inst_cursor_def L1_def)
  have run: "Layout_merge_blocks L p c = Layout_remove_empty_block L5 c"
    using dp(3) dc(3) cur(1) step_back back1 cur1 L2(1,2,5) ij(2) iy(2) ends prv len assms(4,5)
    by (cases "last_of None xs")
      (auto simp: Layout_merge_blocks_def L1_def [symmetric] L3_def L4_def L5_def node_links)
  have links2: "inext L2 = (inext L)(j := None)" "iprev L2 = (iprev L)(j := None)"
    "\<And>i. iblock L2 i = (if i \<in> set (y # ys) then Some p else if i = j then None else iblock L i)"
    "bnext L2 = bnext L" "bprev L2 = bprev L"
    using ij(2) dis by (auto simp: L1_def link_defs fun_eq_iff L2 InstNode_default_def)
  have links: "inext L5 = link_opt (last_of None xs) (Some y) ((inext L)(j := None))"
    "iprev L5 = link_opt (Some y) (last_of None xs) ((iprev L)(j := None))"
    "iblock L5 = iblock L2"
    "bfirst L5 = (bfirst L)(p := if xs = [] then bfirst L c else bfirst L p, c := None)"
    "blast L5 = (blast L)(p := blast L c, c := None)" "bnext L5 = bnext L" "bprev L5 = bprev L"
    "first_block L5 = first_block L" "last_block L5 = last_block L"
    "length (blocks L5) = length (blocks L)" "length (insts L5) = length (insts L)"
    using dp(3) dc(3) iy(2) ij(2) prv len L2(2-5) links2 assms(4) dis dll_at(1) [of _ _ _ _ "[]" y ys] dc(1) [unfolded assms(6)]
    by (cases "last_of None xs"; auto simp: L3_def L4_def L5_def fun_eq_iff node_links)+
  have "Blocks_ok L5 bs"
  proof -
    have "blocks L5 ! b = blocks L ! b" if "b \<notin> set bs" for b
    proof -
      have "bnext L5 b = bnext L b \<and> bprev L5 b = bprev L b \<and> bfirst L5 b = bfirst L b \<and> blast L5 b = blast L b"
        using that assms(2,3) by (auto simp: links)
      then show ?thesis by (simp add: link_defs)
    qed
    then show ?thesis using Layout_okD(1) [OF assms(1)] by (simp add: Blocks_ok_def links)
  qed
  moreover have "dll (inext L5) (iprev L5) (bfirst L5 p) (blast L5 p) (xs @ y # ys)"
  proof -
    let ?n = "(inext L)(j := None)" and ?p = "(iprev L)(j := None)"
    have "dll (link_opt (last_of None xs) None ?n) ?p (if xs = [] then None else bfirst L p) (last_of None xs) xs"
      using dll_remove [OF dp(1) [unfolded assms(5)], of None None] by (cases "xs = []") simp_all
    moreover have "dll (link_opt (last_of None xs) None ?n) ?p (Some y) (blast L c) (y # ys)"
    proof (subst dll_cong [of "y # ys" _ "inext L" _ "iprev L"])
      show "link_opt (last_of None xs) None ?n i = inext L i \<and> ?p i = iprev L i" if "i \<in> set (y # ys)" for i
      proof -
        have "last_of None xs \<noteq> Some i" "i \<noteq> j" using that dis by (auto dest: last_of_SomeD)
        then show ?thesis by (simp add: link_opt_other)
      qed
      show "dll (inext L) (iprev L) (Some y) (blast L c) (y # ys)"
        using dc(1) ends(1) by (simp add: assms(6))
    qed
    ultimately have "dll (link_opt (last_of None xs) (Some y) (link_opt (last_of None xs) None ?n))
        (link_opt (Some y) (last_of None xs) ?p) (if xs = [] then Some y else bfirst L p) (blast L c) (xs @ y # ys)"
      using dll_append [of "link_opt (last_of None xs) None ?n" ?p _ _ xs "Some y" "blast L c" "y # ys"] dis
      by (cases "xs = []") fastforce+
    moreover have "link_opt (last_of None xs) (Some y) (link_opt (last_of None xs) None ?n) =
        link_opt (last_of None xs) (Some y) ?n" by (cases "last_of None xs") auto
    ultimately show ?thesis using assms(4) ends(1) by (cases "xs = []") (simp_all add: links)
  qed
  moreover have "insts L5 ! i = insts L ! i" if "i \<notin> set (ils p) \<union> set (ils c)" for i
  proof -
    have "last_of None xs \<noteq> Some i" "i \<noteq> j" "i \<notin> set (y # ys)"
      using that by (auto simp: assms(5,6) dest: last_of_SomeD)
    then have "inext L5 i = inext L i" "iprev L5 i = iprev L i" "iblock L5 i = iblock L i"
      by (auto simp: links links2(3) link_opt_other)
    then show ?thesis by (simp add: link_defs)
  qed
  moreover have "insts L5 ! i = InstNode_default"
    if "i \<in> set (ils p) \<union> set (ils c)" "i \<notin> set (xs @ y # ys) \<union> set []" for i
  proof -
    have "i = j" using that by (auto simp: assms(5,6))
    moreover have "last_of None xs \<noteq> Some j" "j \<noteq> y" "j \<notin> set (y # ys)" using prv dis by auto
    ultimately have "inext L5 i = None" "iprev L5 i = None" "iblock L5 i = None"
      by (auto simp: links links2(3) link_opt_other)
    then show ?thesis by (simp add: link_defs InstNode_default_def)
  qed
  moreover have "iblock L5 i = Some p" if "i \<in> set (xs @ y # ys)" for i
    using that dp(2) ok_inst(3) [OF assms(1), of i p] by (auto simp: links(3) links2(3) assms(5))
  ultimately have "Layout_ok L5 bs (ils(p := xs @ y # ys, c := []))"
    using assms(2-4)
    by (intro moved_insts_ok [OF assms(1)]) (auto simp: links(4,5,11) assms(5,6))
  with run show ?thesis by blast
qed

lemma Layout_merge_blocks_ok:
  assumes "Layout_ok L (as @ c # cs) ils" "p \<in> set (as @ cs)" "ils p = xs @ [j]"
  shows "\<exists>L'. Layout_merge_blocks L p c = Some L' \<and>
    Layout_ok L' (as @ cs) (ils(p := xs @ ils c, c := []))"
proof -
  have pc: "p \<noteq> c" "p \<in> set (as @ c # cs)" "c \<in> set (as @ c # cs)" "as \<noteq> [] \<or> cs \<noteq> []"
    using assms(2) blocks_distinct [OF assms(1)] by auto
  have "\<exists>L1. Layout_merge_blocks L p c = Layout_remove_empty_block L1 c \<and>
    Layout_ok L1 (as @ c # cs) (ils(p := xs @ ils c, c := []))"
  proof (cases "ils c")
    case (Cons y ys)
    from merge_moves_insts [OF assms(1) pc(2,3,1) assms(3) Cons] Cons show ?thesis by simp
  next
    case Nil
    note dc = insts_dll [OF assms(1) pc(3)] and dp = insts_dll [OF assms(1) pc(2)]
    obtain L1 where L1: "Layout_remove_inst L j = Some L1" "Layout_ok L1 (as @ c # cs) (ils(p := xs))"
      using Layout_remove_inst_ok [OF assms(1), of p xs j "[]"] assms(3) by auto
    note d1 = insts_dll [OF L1(2) pc(3)]
    have "set_block c ((blocks L1 ! c)\<lparr>first_inst := None, last_inst := None\<rparr>) L1 = L1"
    proof -
      have "first_inst (blocks L1 ! c) = None" "last_inst (blocks L1 ! c) = None"
        using d1(1) pc(1) Nil by (simp_all add: node_links)
      then have "(blocks L1 ! c)\<lparr>first_inst := None, last_inst := None\<rparr> = blocks L1 ! c" by simp
      then show ?thesis by (simp add: set_block_def)
    qed
    moreover have "bfirst L c = None" "blast L p = Some j"
      using dc(1) dp(1) Nil assms(3) by (auto simp: dll_def)
    ultimately have "Layout_merge_blocks L p c = Layout_remove_empty_block L1 c"
      using L1(1) dc(3) dp(3) d1(3)
      by (simp add: Layout_merge_blocks_def node_links Layout_last_inst_def)
    moreover have "ils(p := xs @ ils c, c := []) = ils(p := xs)"
      using Nil pc(1) by (auto simp: fun_eq_iff)
    ultimately show ?thesis using L1(2) by auto
  qed
  then obtain L1 where L1: "Layout_merge_blocks L p c = Layout_remove_empty_block L1 c"
    "Layout_ok L1 (as @ c # cs) (ils(p := xs @ ils c, c := []))" by blast
  from Layout_remove_empty_block_ok [OF L1(2) _ pc(4)] L1(1) show ?thesis by simp
qed

end
