(* ===== verification/Layout_Spec.thy ===== *)
theory Layout_Spec
  imports Layout
begin

text \<open>
  The contract of \<^verbatim>\<open>openvaf/mir/src/layout.rs\<close>: the layout is a sequence of blocks, each with
  a sequence of instructions. \<open>layout_op\<close> names the operations that change it, \<open>spec_step\<close> is
  their effect on the sequences (\<open>None\<close> where the caller's obligation is not met) and
  \<open>layout_step\<close> calls the modelled code. The simulation locale gives the refinement for
  every sequence of operations.
\<close>

section \<open>The number of blocks\<close>

text \<open>\<open>keeps_n m n\<close>: if \<open>m\<close> returns, the layout has \<open>n\<close> blocks.\<close>

definition keeps_n :: "layout panics \<Rightarrow> nat \<Rightarrow> bool" where
  "keeps_n m n \<longleftrightarrow> (\<forall>L'. m = Some L' \<longrightarrow> length (blocks L') = n)"

lemma keeps_state: "keeps_n m n \<Longrightarrow> (\<And>L. length (blocks L) = n \<Longrightarrow> keeps_n (f L) n) \<Longrightarrow> keeps_n (Option.bind m f) n"
  by (auto simp: keeps_n_def bind_eq_Some_conv)

lemma keeps_value: "(\<And>x. keeps_n (f x) n) \<Longrightarrow> keeps_n (Option.bind m f) n"
  by (auto simp: keeps_n_def bind_eq_Some_conv)

lemma keeps_option: "keeps_n a n \<Longrightarrow> (\<And>x. keeps_n (f x) n) \<Longrightarrow> keeps_n (case_option a f x) n"
  by (simp split: option.split)

lemma keeps_pair: "(\<And>x y. keeps_n (f x y) n) \<Longrightarrow> keeps_n (case_prod f p) n"
  by (simp split: prod.split)

lemma keeps_if: "keeps_n a n \<Longrightarrow> keeps_n b n \<Longrightarrow> keeps_n (if c then a else b) n"
  by simp

lemma keeps_let: "(\<And>x. keeps_n (f x) n) \<Longrightarrow> keeps_n (Let x f) n"
  by simp

lemma keeps_let_state:
  "length (blocks a) = n \<Longrightarrow> (\<And>L. length (blocks L) = n \<Longrightarrow> keeps_n (f L) n) \<Longrightarrow> keeps_n (Let a f) n"
  by simp

lemma keeps_base:
  "length (blocks L) = n \<Longrightarrow> keeps_n (Some L) n"
  "length (blocks L) = n \<Longrightarrow> keeps_n (upd_block b f L) n"
  "length (blocks L) = n \<Longrightarrow> keeps_n (upd_inst i g L) n"
  by (auto simp: keeps_n_def upd_block_def upd_inst_def bind_eq_Some_conv)

lemmas keeps_intros = keeps_state keeps_value keeps_option keeps_pair keeps_if keeps_let_state keeps_let keeps_base

lemma keeps_blocks:
  assumes "length (blocks L) = n"
  shows "keeps_n (Layout_append_block L b) n" "keeps_n (Layout_insert_block L b y) n"
    "keeps_n (Layout_insert_block_after L b y) n" "keeps_n (Layout_remove_empty_block L b) n"
    "keeps_n (Layout_clear_block L b) n"
  unfolding Layout_append_block_def Layout_insert_block_def Layout_insert_block_after_def
    Layout_remove_empty_block_def Layout_clear_block_def
  by ((rule keeps_intros | simp add: assms)+)

lemma keeps_insts:
  assumes "length (blocks L) = n"
  shows "keeps_n (Layout_append_inst_to_bb L i b) n" "keeps_n (Layout_prepend_inst L i y) n"
    "keeps_n (Layout_append_inst L i y) n" "keeps_n (Layout_remove_inst L i) n"
  unfolding Layout_append_inst_to_bb_def Layout_prepend_inst_def Layout_append_inst_def Layout_remove_inst_def
  by ((rule keeps_intros | simp add: assms grow_insts_def)+)

lemma keeps_merge_loop: "length (blocks L) = n \<Longrightarrow> keeps_n (merge_set_block_loop p c L) n"
  unfolding keeps_n_def
proof (intro allI impI)
  fix L' assume n: "length (blocks L) = n" and r: "merge_set_block_loop p c L = Some L'"
  have "length (blocks L') = length (blocks L)"
    by (rule merge_set_block_loop.raw_induct [OF _ r])
      (auto simp: upd_inst_def bind_eq_Some_conv split: option.splits)
  with n show "length (blocks L') = n" by simp
qed

lemma keeps_split_loop: "length (blocks L) = n \<Longrightarrow> keeps_n (split_set_block_loop ob nb i L) n"
  unfolding keeps_n_def
proof (intro allI impI)
  fix L' assume n: "length (blocks L) = n" and r: "split_set_block_loop ob nb i L = Some L'"
  have "length (blocks L') = length (blocks L)"
    by (rule split_set_block_loop.raw_induct [OF _ r])
      (auto simp: upd_inst_def bind_eq_Some_conv split: option.splits)
  with n show "length (blocks L') = n" by simp
qed

lemma keeps_merge_split:
  assumes "length (blocks L) = n"
  shows "keeps_n (Layout_merge_blocks L p c) n" "keeps_n (Layout_split_block L nb y) n"
  unfolding Layout_merge_blocks_def Layout_split_block_def
  by ((rule keeps_intros keeps_blocks keeps_insts keeps_merge_loop keeps_split_loop | simp add: assms)+)

lemma keeps_remove_and_clear:
  "length (blocks L) = n \<Longrightarrow> keeps_n (Layout_remove_and_clear_block L b) n"
  unfolding Layout_remove_and_clear_block_def
  by ((rule keeps_intros keeps_blocks | simp)+)


section \<open>The abstract layout\<close>

datatype layout_op =
    MakeBlock
  | AppendNewBlock
  | AppendBlock block
  | InsertBlock block block
  | InsertBlockAfter block block
  | ClearBlock block
  | RemoveEmptyBlock block
  | RemoveAndClearBlock block
  | AppendInstToBb inst block
  | PrependInst inst inst
  | AppendInst inst inst
  | RemoveInst inst
  | SplitBlock block inst
  | MergeBlocks block block

definition layout_step :: "layout_op \<Rightarrow> layout \<Rightarrow> layout panics" where
  "layout_step x L =
     (case x of
        MakeBlock \<Rightarrow> Some (fst (Layout_make_block L))
      | AppendNewBlock \<Rightarrow> map_option fst (Layout_append_new_block L)
      | AppendBlock b \<Rightarrow> Layout_append_block L b
      | InsertBlock b y \<Rightarrow> Layout_insert_block L b y
      | InsertBlockAfter b y \<Rightarrow> Layout_insert_block_after L b y
      | ClearBlock b \<Rightarrow> Layout_clear_block L b
      | RemoveEmptyBlock b \<Rightarrow> Layout_remove_empty_block L b
      | RemoveAndClearBlock b \<Rightarrow> Layout_remove_and_clear_block L b
      | AppendInstToBb i b \<Rightarrow> Layout_append_inst_to_bb L i b
      | PrependInst i y \<Rightarrow> Layout_prepend_inst L i y
      | AppendInst i y \<Rightarrow> Layout_append_inst L i y
      | RemoveInst i \<Rightarrow> Layout_remove_inst L i
      | SplitBlock b y \<Rightarrow> Layout_split_block L b y
      | MergeBlocks p c \<Rightarrow> Layout_merge_blocks L p c)"

text \<open>
  The abstract state: the number of blocks made, the block order, the instructions of each block.
\<close>

record layout_spec =
  made :: nat
  order :: "block list"
  body :: "block \<Rightarrow> inst list"

definition spec_new :: layout_spec where
  "spec_new = \<lparr>made = 0, order = [], body = (\<lambda>_. [])\<rparr>"

text \<open>Where an element stands in a list, and the block that holds an instruction.\<close>

fun split_at :: "nat \<Rightarrow> nat list \<Rightarrow> (nat list \<times> nat list) option" where
  "split_at y [] = None"
| "split_at y (x # xs) =
     (if x = y then Some ([], xs) else map_option (\<lambda>(as, bs). (x # as, bs)) (split_at y xs))"

definition owner :: "layout_spec \<Rightarrow> inst \<Rightarrow> block option" where
  "owner S i = List.find (\<lambda>b. i \<in> set (body S b)) (order S)"

definition is_new_inst :: "layout_spec \<Rightarrow> inst \<Rightarrow> bool" where
  "is_new_inst S i \<longleftrightarrow> owner S i = None"

definition is_new_block :: "layout_spec \<Rightarrow> block \<Rightarrow> bool" where
  "is_new_block S b \<longleftrightarrow> b < made S \<and> b \<notin> set (order S)"

text \<open>Splices a list into the block that holds an instruction, at the instruction.\<close>

definition splice :: "inst \<Rightarrow> inst list \<Rightarrow> layout_spec \<Rightarrow> layout_spec option" where
  "splice y zs S =
     do { b \<leftarrow> owner S y;
          (xs, ys) \<leftarrow> split_at y (body S b);
          Some (S\<lparr>body := (body S)(b := xs @ zs @ ys)\<rparr>) }"

definition drop_block :: "block \<Rightarrow> layout_spec \<Rightarrow> layout_spec option" where
  "drop_block b S =
     do { (xs, ys) \<leftarrow> split_at b (order S);
          if xs = [] \<and> ys = [] then None else Some (S\<lparr>order := xs @ ys, body := (body S)(b := [])\<rparr>) }"

definition spec_step :: "layout_op \<Rightarrow> layout_spec \<Rightarrow> layout_spec option" where
  "spec_step x S =
     (case x of
        MakeBlock \<Rightarrow> Some (S\<lparr>made := made S + 1\<rparr>)
      | AppendNewBlock \<Rightarrow> Some (S\<lparr>made := made S + 1, order := order S @ [made S]\<rparr>)
      | AppendBlock b \<Rightarrow> if is_new_block S b then Some (S\<lparr>order := order S @ [b]\<rparr>) else None
      | InsertBlock b y \<Rightarrow>
          do { (xs, ys) \<leftarrow> split_at y (order S);
               if is_new_block S b then Some (S\<lparr>order := xs @ b # y # ys\<rparr>) else None }
      | InsertBlockAfter b y \<Rightarrow>
          do { (xs, ys) \<leftarrow> split_at y (order S);
               if is_new_block S b then Some (S\<lparr>order := xs @ y # b # ys\<rparr>) else None }
      | ClearBlock b \<Rightarrow> if b \<in> set (order S) then Some (S\<lparr>body := (body S)(b := [])\<rparr>) else None
      | RemoveEmptyBlock b \<Rightarrow> if body S b = [] then drop_block b S else None
      | RemoveAndClearBlock b \<Rightarrow> drop_block b S
      | AppendInstToBb i b \<Rightarrow>
          if b \<in> set (order S) \<and> is_new_inst S i
          then Some (S\<lparr>body := (body S)(b := body S b @ [i])\<rparr>) else None
      | PrependInst i y \<Rightarrow> if is_new_inst S i then splice y [i, y] S else None
      | AppendInst i y \<Rightarrow> if is_new_inst S i then splice y [y, i] S else None
      | RemoveInst i \<Rightarrow> splice i [] S
      | SplitBlock n y \<Rightarrow>
          do { b \<leftarrow> owner S y;
               (xs, ys) \<leftarrow> split_at y (body S b);
               (as, cs) \<leftarrow> split_at b (order S);
               if is_new_block S n
               then Some (S\<lparr>order := as @ b # n # cs, body := (body S)(b := xs, n := y # ys)\<rparr>)
               else None }
      | MergeBlocks p c \<Rightarrow>
          do { (as, cs) \<leftarrow> split_at c (order S);
               if p \<in> set (as @ cs) \<and> body S p \<noteq> []
               then Some (S\<lparr>order := as @ cs, body := (body S)(p := butlast (body S p) @ body S c, c := [])\<rparr>)
               else None })"

definition layout_rel :: "layout \<Rightarrow> layout_spec \<Rightarrow> bool" where
  "layout_rel L S \<longleftrightarrow> Layout_ok L (order S) (body S) \<and> length (blocks L) = made S"

section \<open>Refinement\<close>

lemma split_at_Some: "split_at y zs = Some (xs, ys) \<Longrightarrow> zs = xs @ y # ys"
  by (induction zs arbitrary: xs) (auto split: if_splits)

lemma owner_Some: "owner S y = Some b \<Longrightarrow> b \<in> set (order S) \<and> y \<in> set (body S b)"
  by (auto simp: owner_def find_Some_iff in_set_conv_nth)

lemma is_new_inst_all:
  assumes "Layout_ok L (order S) (body S)" "is_new_inst S i"
  shows "\<forall>b. i \<notin> set (body S b)"
  using assms(2) Layout_okD(3) [OF assms(1)] by (fastforce simp: is_new_inst_def owner_def find_None_iff)

lemma layout_relI:
  assumes "length (blocks L) = n" "\<exists>L'. m = Some L' \<and> Layout_ok L' bs ils" "keeps_n m n"
  shows "\<exists>L'. m = Some L' \<and> layout_rel L' \<lparr>made = n, order = bs, body = ils\<rparr>"
  using assms by (auto simp: layout_rel_def keeps_n_def)

lemma append_new_ok:
  assumes "Layout_ok L bs ils"
  shows "\<exists>L'. Layout_append_new_block L = Some (L', length (blocks L)) \<and>
    Layout_ok L' (bs @ [length (blocks L)]) ils \<and> length (blocks L') = Suc (length (blocks L))"
proof -
  let ?b = "length (blocks L)" and ?L = "fst (Layout_make_block L)"
  have L: "Layout_make_block L = (?L, ?b)" "Layout_ok ?L bs ils" "?b < length (blocks ?L)" "?b \<notin> set bs"
    using Layout_make_block_ok [OF assms] by auto
  from Layout_append_block_ok [OF L(2-4)] obtain L' where
    L': "Layout_append_block ?L ?b = Some L'" "Layout_ok L' (bs @ [?b]) ils" by blast
  have "length (blocks ?L) = Suc ?b" by (simp add: Layout_make_block_def)
  with L' keeps_blocks(1) [of ?L "Suc ?b" ?b] have "length (blocks L') = Suc ?b" by (simp add: keeps_n_def)
  with L' show ?thesis by (simp add: Layout_append_new_block_def Layout_make_block_def)
qed

lemma spec_split:
  assumes "Layout_ok L (order S) (body S)" "split_at b (order S) = Some (xs, ys)"
  shows "Layout_ok L (xs @ b # ys) (body S)" "order S = xs @ b # ys"
  using assms split_at_Some [OF assms(2)] by simp_all

lemma drop_block_ok:
  assumes "Layout_ok L (order S) (body S)" "length (blocks L) = made S" "drop_block b S = Some S'"
  shows "\<exists>L'. Layout_remove_and_clear_block L b = Some L' \<and> layout_rel L' S'"
    and "body S b = [] \<Longrightarrow> \<exists>L'. Layout_remove_empty_block L b = Some L' \<and> layout_rel L' S'"
proof -
  obtain xs ys where s: "split_at b (order S) = Some (xs, ys)" "xs \<noteq> [] \<or> ys \<noteq> []"
    "S' = S\<lparr>order := xs @ ys, body := (body S)(b := [])\<rparr>"
    using assms(3) by (auto simp: drop_block_def bind_eq_Some_conv split: if_splits prod.splits)
  note ok = spec_split(1) [OF assms(1) s(1)]
  show "\<exists>L'. Layout_remove_and_clear_block L b = Some L' \<and> layout_rel L' S'"
    using Layout_remove_and_clear_block_ok [OF ok s(2)] keeps_remove_and_clear [OF assms(2), of b]
    by (auto simp: layout_rel_def keeps_n_def s(3))
  assume "body S b = []"
  then show "\<exists>L'. Layout_remove_empty_block L b = Some L' \<and> layout_rel L' S'"
    using Layout_remove_empty_block_ok [OF ok _ s(2)] keeps_blocks(4) [OF assms(2), of b]
    by (auto simp: layout_rel_def keeps_n_def s(3) fun_upd_idem)
qed

lemma layout_step_sim:
  assumes "layout_rel L S" "spec_step x S = Some S'"
  shows "\<exists>L'. layout_step x L = Some L' \<and> layout_rel L' S'"
proof -
  have ok: "Layout_ok L (order S) (body S)" and n: "length (blocks L) = made S"
    using assms(1) by (simp_all add: layout_rel_def)
  note simps = spec_step_def layout_step_def bind_eq_Some_conv layout_rel_def keeps_n_def is_new_block_def splice_def
  note new = is_new_inst_all [OF ok] and spl = spec_split [OF ok] and kb = keeps_blocks [OF n]
    and ki = keeps_insts [OF n] and km = keeps_merge_split [OF n]
  have at: "body S b = xs @ y # ys" if "split_at y (body S b) = Some (xs, ys)" for y b xs ys
    using split_at_Some [OF that] .
  show ?thesis
  proof (cases x)
    case MakeBlock
    then show ?thesis using assms(2) Layout_make_block_ok [OF ok] n
      by (auto simp: simps) (simp add: Layout_make_block_def)
  next
    case AppendNewBlock
    then show ?thesis using assms(2) append_new_ok [OF ok] n by (auto simp: simps)
  next
    case (AppendBlock b)
    then show ?thesis using assms(2) Layout_append_block_ok [OF ok, of b] kb(1) [of b] n
      by (auto simp: simps split: if_splits)
  next
    case (InsertBlock b y)
    then show ?thesis using assms(2) Layout_insert_block_ok [OF spl(1), of y _ _ b] spl(2) kb(2) [of b y] n
      by (fastforce simp: simps split: if_splits prod.splits)
  next
    case (InsertBlockAfter b y)
    then show ?thesis using assms(2) Layout_insert_block_after_ok [OF spl(1), of y _ _ b] spl(2) kb(3) [of b y] n
      by (fastforce simp: simps split: if_splits prod.splits)
  next
    case (ClearBlock b)
    then show ?thesis using assms(2) Layout_clear_block_ok [OF ok, of b] kb(5) [of b] n
      by (auto simp: simps split: if_splits)
  next
    case (RemoveEmptyBlock b)
    then show ?thesis using assms(2) drop_block_ok(2) [OF ok n, of b]
      by (auto simp: spec_step_def layout_step_def split: if_splits)
  next
    case (RemoveAndClearBlock b)
    then show ?thesis using assms(2) drop_block_ok(1) [OF ok n, of b]
      by (auto simp: spec_step_def layout_step_def)
  next
    case (AppendInstToBb i b)
    then show ?thesis using assms(2) Layout_append_inst_to_bb_ok [OF ok, of b i] ki(1) [of i b] n new
      by (auto simp: simps split: if_splits)
  next
    case (PrependInst i y)
    then show ?thesis using assms(2) Layout_prepend_inst_ok [OF ok at, of y _ _ _ i] ki(2) [of i y] n new
      by (fastforce simp: simps split: if_splits prod.splits)
  next
    case (AppendInst i y)
    then show ?thesis using assms(2) Layout_append_inst_ok [OF ok at, of y _ _ _ i] ki(3) [of i y] n new
      by (fastforce simp: simps split: if_splits prod.splits)
  next
    case (RemoveInst i)
    then show ?thesis using assms(2) Layout_remove_inst_ok [OF ok at, of i] ki(4) [of i] n
      by (fastforce simp: simps split: prod.splits)
  next
    case (SplitBlock nb y)
    then obtain b xs ys as cs where s: "split_at y (body S b) = Some (xs, ys)"
      "split_at b (order S) = Some (as, cs)" "is_new_block S nb"
      "S' = S\<lparr>order := as @ b # nb # cs, body := (body S)(b := xs, nb := y # ys)\<rparr>"
      using assms(2) by (auto simp: spec_step_def bind_eq_Some_conv split: if_splits)
    have "nb < length (blocks L)" "nb \<notin> set (as @ b # cs)"
      using s(3) n spl(2) [OF s(2)] by (simp_all add: is_new_block_def)
    from Layout_split_block_ok [OF spl(1) [OF s(2)] at [OF s(1)] this] show ?thesis
      using km(2) [of nb y] n SplitBlock by (auto simp: layout_step_def layout_rel_def keeps_n_def s(4))
  next
    case (MergeBlocks p c)
    then obtain as cs where s: "split_at c (order S) = Some (as, cs)" "p \<in> set (as @ cs)" "body S p \<noteq> []"
      "S' = S\<lparr>order := as @ cs, body := (body S)(p := butlast (body S p) @ body S c, c := [])\<rparr>"
      using assms(2) by (auto simp: spec_step_def bind_eq_Some_conv split: if_splits)
    have "body S p = butlast (body S p) @ [last (body S p)]" using s(3) by simp
    from Layout_merge_blocks_ok [OF spl(1) [OF s(1)] s(2) this] show ?thesis
      using km(1) [of p c] n MergeBlocks by (auto simp: layout_step_def layout_rel_def keeps_n_def s(4))
  qed
qed

interpretation layout_sim: simulation layout_step spec_step layout_rel
  by unfold_locales (rule layout_step_sim)


section \<open>Walking the layout\<close>

lemma first_of_case: "first_of xs None = (case xs of [] \<Rightarrow> None | x # _ \<Rightarrow> Some x)"
  by (cases xs) auto

lemma last_of_case: "last_of None xs = (case rev xs of [] \<Rightarrow> None | x # _ \<Rightarrow> Some x)"
  by (cases xs rule: rev_cases) (auto simp: last_of_def)

lemma drain_blocks:
  assumes "Layout_ok L bs ils"
  shows "drain (BlockCursor_next L) (Layout_blocks L) = Some bs"
    "drain (RevBlockCursor_next L) (Layout_rev_blocks_cursor L) = Some (rev bs)"
proof -
  show "drain (BlockCursor_next L) (Layout_blocks L) = Some bs"
    unfolding block_cursor_starts(1) [OF assms]
    by (rule drain_list [where st = "\<lambda>vs. first_of vs None"])
      (use BlockCursor_steps(1) assms in \<open>auto simp: first_of_case\<close>)
  have "drain (RevBlockCursor_next L) (last_of None (rev (rev bs))) = Some (rev bs)"
  proof (rule drain_list [where st = "\<lambda>vs. last_of None (rev vs)"])
    fix us vs assume "rev bs = us @ vs"
    then have "bs = rev vs @ rev us" by (metis rev_append rev_rev_ident)
    then have "Layout_ok L (rev vs @ rev us) ils" using assms by simp
    from BlockCursor_steps(2) [OF this]
    show "RevBlockCursor_next L (last_of None (rev vs)) =
        Some (case vs of [] \<Rightarrow> None | v # _ \<Rightarrow> Some v, last_of None (rev (tl vs)))"
      by (cases vs) (auto simp: last_of_case)
  qed
  then show "drain (RevBlockCursor_next L) (Layout_rev_blocks_cursor L) = Some (rev bs)"
    using block_cursor_starts(2) [OF assms] by simp
qed

lemma drain_insts:
  assumes "Layout_ok L bs ils" "b \<in> set bs"
  shows "drain (InstCursor_next L) (cursor_of (ils b)) = Some (ils b)"
    "drain (InstCursor_next_back L) (cursor_of (ils b)) = Some (rev (ils b))"
proof -
  show "drain (InstCursor_next L) (cursor_of (ils b)) = Some (ils b)"
    by (rule drain_list [where st = cursor_of])
      (use InstCursor_steps(1) [OF assms, of _ _ "[]"] in \<open>auto simp: first_of_case\<close>)
  have "drain (InstCursor_next_back L) (cursor_of (rev (rev (ils b)))) = Some (rev (ils b))"
  proof (rule drain_list [where st = "\<lambda>vs. cursor_of (rev vs)"])
    fix us vs assume "rev (ils b) = us @ vs"
    then have "ils b = [] @ rev vs @ rev us" by (metis append_Nil rev_append rev_rev_ident)
    from InstCursor_steps(2) [OF assms this]
    show "InstCursor_next_back L (cursor_of (rev vs)) =
        Some (case vs of [] \<Rightarrow> None | v # _ \<Rightarrow> Some v, cursor_of (rev (tl vs)))"
      by (cases vs) (auto simp: last_of_case)
  qed
  then show "drain (InstCursor_next_back L) (cursor_of (ils b)) = Some (rev (ils b))" by simp
qed

lemma layout_new_rel: "layout_rel Layout_new spec_new"
  using Layout_new_ok by (simp add: layout_rel_def spec_new_def) (simp add: Layout_new_def)

text \<open>
  C7: every sequence of layout operations the specification allows runs on the linked nodes without
  a panic, and yields the block order and the instruction sequences of the specification.
\<close>

theorem layout_refines:
  assumes "run_ops spec_step ops spec_new = Some S"
  shows "\<exists>L. run_ops layout_step ops Layout_new = Some L \<and> layout_rel L S"
  using layout_sim.run_sim [OF layout_new_rel assms] .

definition demo_ops :: "layout_op list" where
  "demo_ops = [AppendNewBlock, AppendInstToBb 4 0, AppendInst 7 4, PrependInst 2 7, MakeBlock,
     SplitBlock 1 2, AppendInst 9 4, MergeBlocks 0 1, RemoveInst 2]"

lemma demo_spec:
  "run_ops spec_step demo_ops spec_new = Some \<lparr>made = 2, order = [0], body = (\<lambda>_. [])(0 := [4, 7])\<rparr>"
  by (simp add: demo_ops_def spec_step_def spec_new_def is_new_inst_def is_new_block_def owner_def splice_def fun_eq_iff)

theorem layout_refines_witness:
  "\<exists>L. run_ops layout_step demo_ops Layout_new = Some L \<and>
     layout_rel L \<lparr>made = 2, order = [0], body = (\<lambda>_. [])(0 := [4, 7])\<rparr>"
  by (rule layout_refines [OF demo_spec])

text \<open>
  C8: on the layout of any such sequence, the block iterator yields the block order, its reverse
  cursor the reversed order, and the instruction iterator of a block its instructions, from the
  front and from the back; an instruction's recorded block is the one that holds it.
\<close>

theorem layout_walks:
  assumes "run_ops layout_step ops Layout_new = Some L" "run_ops spec_step ops spec_new = Some S"
  shows "drain (BlockCursor_next L) (Layout_blocks L) = Some (order S) \<and>
    drain (RevBlockCursor_next L) (Layout_rev_blocks_cursor L) = Some (rev (order S)) \<and>
    (\<forall>b \<in> set (order S). \<exists>c. Layout_block_inst_cursor L b = Some c \<and>
       drain (InstCursor_next L) c = Some (body S b) \<and>
       drain (InstCursor_next_back L) c = Some (rev (body S b))) \<and>
    (\<forall>i b. Layout_inst_block L i = Some b \<longleftrightarrow> i \<in> set (body S b))"
proof -
  have "Layout_ok L (order S) (body S)"
    using layout_sim.run_sim [OF layout_new_rel assms(2)] assms(1) by (auto simp: layout_rel_def)
  note ok = this
  have "\<forall>b \<in> set (order S). \<exists>c. Layout_block_inst_cursor L b = Some c \<and>
      drain (InstCursor_next L) c = Some (body S b) \<and> drain (InstCursor_next_back L) c = Some (rev (body S b))"
    using drain_insts [OF ok] block_inst_cursor_ok [OF ok] by blast
  then show ?thesis
    using drain_blocks [OF ok] inst_block_ok(1) [OF ok] by blast
qed

theorem layout_walks_witness:
  "\<exists>L c. run_ops layout_step demo_ops Layout_new = Some L \<and>
     drain (BlockCursor_next L) (Layout_blocks L) = Some [0] \<and>
     Layout_block_inst_cursor L 0 = Some c \<and> drain (InstCursor_next L) c = Some [4, 7]"
proof -
  obtain L where L: "run_ops layout_step demo_ops Layout_new = Some L"
    using layout_sim.run_sim [OF layout_new_rel demo_spec] by blast
  from layout_walks [OF L demo_spec] L show ?thesis by auto
qed

text \<open>
  C9: splitting a block at an instruction, ending the first half with a jump and merging the halves
  again restores the layout's sequences.
\<close>

theorem split_merge_restores:
  assumes "layout_rel L S" "owner S y = Some b" "is_new_block S n" "is_new_inst S j"
  shows "\<exists>L'. run_ops layout_step [SplitBlock n y, AppendInstToBb j b, MergeBlocks b n] L = Some L' \<and>
    layout_rel L' S"
proof -
  have ok: "Layout_ok L (order S) (body S)" using assms(1) by (simp add: layout_rel_def)
  have b: "b \<in> set (order S)" "y \<in> set (body S b)" using owner_Some [OF assms(2)] by auto
  have spl: "\<exists>us vs. split_at z zs = Some (us, vs)" if "z \<in> set zs" for z zs
    using that by (induction zs) auto
  obtain xs ys where xy: "split_at y (body S b) = Some (xs, ys)" using spl [OF b(2)] by blast
  obtain as cs where ac: "split_at b (order S) = Some (as, cs)" using spl [OF b(1)] by blast
  have n: "n \<notin> set (order S)" "body S n = []"
    using assms(3) Layout_okD(3) [OF ok] by (auto simp: is_new_block_def)
  have d: "distinct (order S)" using Layout_okD(1) [OF ok] by (auto simp: Blocks_ok_def dll_def)
  have at: "split_at z (us @ z # vs) = Some (us, vs)" if "z \<notin> set us" for z us vs
    using that by (induction us) auto
  note xs = split_at_Some [OF xy] and as = split_at_Some [OF ac]
  have nn: "n \<notin> set as" "n \<notin> set cs" "b \<noteq> n" "b \<notin> set as" using n(1) d as by auto
  define S1 where "S1 = S\<lparr>order := as @ b # n # cs, body := (body S)(b := xs, n := y # ys)\<rparr>"
  define S2 where "S2 = S1\<lparr>body := (body S1)(b := xs @ [j])\<rparr>"
  have "spec_step (SplitBlock n y) S = Some S1"
    using assms(2,3) xy ac by (simp add: spec_step_def S1_def)
  moreover note j = is_new_inst_all [OF ok assms(4)]
  have "j \<notin> set xs \<union> set (y # ys)" using spec [OF j, of b] unfolding xs by simp
  then have "\<forall>c. j \<notin> set (body S1 c)" using j by (simp add: S1_def)
  then have "is_new_inst S1 j" by (simp add: is_new_inst_def owner_def find_None_iff)
  then have "spec_step (AppendInstToBb j b) S1 = Some S2"
    using nn by (simp add: spec_step_def S2_def S1_def)
  moreover have "spec_step (MergeBlocks b n) S2 = Some S"
    using at [of n "as @ [b]" cs] nn as xs n(2)
    by (auto simp: spec_step_def S2_def S1_def fun_eq_iff intro!: layout_spec.equality)
  ultimately have "run_ops spec_step [SplitBlock n y, AppendInstToBb j b, MergeBlocks b n] S = Some S"
    by simp
  from layout_sim.run_sim [OF assms(1) this] show ?thesis .
qed


definition two_insts :: "layout_op list" where
  "two_insts = [AppendNewBlock, AppendInstToBb 4 0, AppendInst 7 4, MakeBlock]"

lemma two_insts_spec:
  "run_ops spec_step two_insts spec_new = Some \<lparr>made = 2, order = [0], body = (\<lambda>_. [])(0 := [4, 7])\<rparr>"
  by (simp add: two_insts_def spec_step_def spec_new_def is_new_inst_def is_new_block_def owner_def splice_def fun_eq_iff)

theorem split_merge_restores_witness:
  "\<exists>L L'. run_ops layout_step two_insts Layout_new = Some L \<and>
     run_ops layout_step [SplitBlock 1 7, AppendInstToBb 9 0, MergeBlocks 0 1] L = Some L' \<and>
     layout_rel L' \<lparr>made = 2, order = [0], body = (\<lambda>_. [])(0 := [4, 7])\<rparr>"
proof -
  let ?S = "\<lparr>made = 2, order = [0], body = (\<lambda>_. [])(0 := [4, 7])\<rparr> :: layout_spec"
  obtain L where L: "run_ops layout_step two_insts Layout_new = Some L" "layout_rel L ?S"
    using layout_sim.run_sim [OF layout_new_rel two_insts_spec] by blast
  have "owner ?S 7 = Some 0" "is_new_block ?S 1" "is_new_inst ?S 9"
    by (simp_all add: owner_def is_new_block_def is_new_inst_def)
  from split_merge_restores [OF L(2) this] L(1) show ?thesis by blast
qed

text \<open>
  removing the last block left in a layout panics, although the block is empty and inserted
  (the final unwrap reads the list's end after it was reset).
\<close>

theorem remove_only_block_panics:
  assumes "layout_rel L S" "order S = [b]" "body S b = []"
  shows "layout_step (RemoveEmptyBlock b) L = None"
  using Layout_remove_only_block_panics [of L b "body S"] assms by (simp add: layout_step_def layout_rel_def)

theorem remove_only_block_panics_witness:
  "\<exists>L. run_ops layout_step [AppendNewBlock] Layout_new = Some L \<and> layout_step (RemoveEmptyBlock 0) L = None"
proof -
  have "run_ops spec_step [AppendNewBlock] spec_new = Some \<lparr>made = 1, order = [0], body = (\<lambda>_. [])\<rparr>"
    by (simp add: spec_step_def spec_new_def)
  from layout_sim.run_sim [OF layout_new_rel this] remove_only_block_panics
  show ?thesis by fastforce
qed

end
