(* ===== verification/Mir_Function.thy ===== *)
theory Mir_Function
  imports Dfg_Phi Layout_Spec
begin

text \<open>
  \<open>Function\<close> of \<^verbatim>\<open>openvaf/mir/src/lib.rs\<close>: a data flow graph and a layout. Its operations keep
  the phi edges of the successors in step when blocks are split, and remove the optimisation
  barriers.
\<close>

section \<open>State and operations\<close>

type_synonym source_loc = u32

record mir_function =
  fn_name :: string
  fn_dfg :: dfg
  fn_layout :: layout
  fn_srclocs :: "source_loc list"

definition SourceLoc_default :: source_loc where
  "SourceLoc_default = 0"

definition SourceLoc_is_default :: "source_loc \<Rightarrow> bool" where
  "SourceLoc_is_default s \<longleftrightarrow> s = SourceLoc_default"

definition Function_new :: "mir_function panics" where
  "Function_new =
     do { D \<leftarrow> Dfg_new; Some \<lparr>fn_name = [], fn_dfg = D, fn_layout = Layout_new, fn_srclocs = []\<rparr> }"

definition Function_with_name :: "string \<Rightarrow> mir_function panics" where
  "Function_with_name name = do { F \<leftarrow> Function_new; Some (F\<lparr>fn_name := name\<rparr>) }"

definition Function_clear :: "mir_function \<Rightarrow> mir_function" where
  "Function_clear F =
     F\<lparr>fn_dfg := Dfg_clear (fn_dfg F), fn_layout := Layout_clear (fn_layout F), fn_srclocs := []\<rparr>"

definition Function_import_function :: "signature \<Rightarrow> mir_function \<Rightarrow> mir_function \<times> func_ref" where
  "Function_import_function sig F =
     (F\<lparr>fn_dfg := (fn_dfg F)\<lparr>d_signatures := d_signatures (fn_dfg F) @ [sig]\<rparr>\<rparr>, length (d_signatures (fn_dfg F)))"

text \<open>The leading phis of a block: the edge of \<open>old_pred\<close> becomes an edge of \<open>new_pred\<close>.\<close>

partial_function (option) update_phi_loop ::
    "layout \<Rightarrow> block \<Rightarrow> block \<Rightarrow> inst_cursor \<Rightarrow> inst_table \<Rightarrow> inst_table option" where
  "update_phi_loop L old_pred new_pred cur I =
     do { (i, cur) \<leftarrow> InstCursor_next L cur;
          (case i of
             None \<Rightarrow> Some I
           | Some inst \<Rightarrow>
               do { d \<leftarrow> vec_get (declarations I) inst;
                    (case d of
                       PhiNode n \<Rightarrow>
                         do { pos \<leftarrow> omap_get old_pred (phi_blocks n);
                              I \<leftarrow> set_declaration inst (PhiNode (n\<lparr>phi_blocks :=
                                omap_insert new_pred pos (omap_remove old_pred (phi_blocks n))\<rparr>)) I;
                              update_phi_loop L old_pred new_pred cur I }
                     | _ \<Rightarrow> Some I) }) }"

definition Function_update_phi_edges :: "block \<Rightarrow> block \<Rightarrow> block \<Rightarrow> mir_function \<Rightarrow> mir_function option" where
  "Function_update_phi_edges bb old_pred new_pred F =
     do { cur \<leftarrow> Layout_block_inst_cursor (fn_layout F) bb;
          I \<leftarrow> update_phi_loop (fn_layout F) old_pred new_pred cur (d_insts (fn_dfg F));
          Some (F\<lparr>fn_dfg := (fn_dfg F)\<lparr>d_insts := I\<rparr>\<rparr>) }"

definition Function_split_block :: "block \<Rightarrow> inst \<Rightarrow> mir_function \<Rightarrow> mir_function option" where
  "Function_split_block new_block before F =
     do { old_block \<leftarrow> Layout_inst_block (fn_layout F) before;
          L \<leftarrow> Layout_split_block (fn_layout F) new_block before;
          let F = F\<lparr>fn_layout := L\<rparr>;
          t \<leftarrow> Layout_block_terminator L new_block;
          (case t of
             None \<Rightarrow> Some F
           | Some term \<Rightarrow>
               do { d \<leftarrow> vec_get (declarations (d_insts (fn_dfg F))) term;
                    (case d of
                       Jump dest \<Rightarrow> Function_update_phi_edges dest old_block new_block F
                     | Branch _ then_dst else_dst _ \<Rightarrow>
                         do { F \<leftarrow> Function_update_phi_edges then_dst old_block new_block F;
                              Function_update_phi_edges else_dst old_block new_block F }
                     | _ \<Rightarrow> Some F) }) }"

definition remove_opt_barrier :: "inst \<Rightarrow> mir_function \<Rightarrow> mir_function option" where
  "remove_opt_barrier inst F =
     do { d \<leftarrow> vec_get (declarations (d_insts (fn_dfg F))) inst;
          (case d of
             Unary OpOptBarrier arg \<Rightarrow>
               (if Layout_inst_block (fn_layout F) inst \<noteq> None then
                  do { res \<leftarrow> DfgInsts_first_result (d_insts (fn_dfg F)) inst;
                       D \<leftarrow> Dfg_replace_uses res arg (fn_dfg F);
                       L \<leftarrow> Layout_remove_inst (fn_layout F) inst;
                       Some (F\<lparr>fn_dfg := D, fn_layout := L\<rparr>) }
                else Some F)
           | _ \<Rightarrow> Some F) }"

definition Function_remove_opt_barriers :: "mir_function \<Rightarrow> mir_function option" where
  "Function_remove_opt_barriers F =
     run_ops remove_opt_barrier [0..<length (declarations (d_insts (fn_dfg F)))] F"

partial_function (option) strip_optbarrier :: "mir_function \<Rightarrow> mir_value \<Rightarrow> mir_value option" where
  "strip_optbarrier F v =
     do { def \<leftarrow> DfgValues_def (d_values (fn_dfg F)) v;
          (case ValueDef_inst def of
             None \<Rightarrow> Some v
           | Some inst \<Rightarrow>
               do { d \<leftarrow> vec_get (declarations (d_insts (fn_dfg F))) inst;
                    (case d of Unary OpOptBarrier arg \<Rightarrow> strip_optbarrier F arg | _ \<Rightarrow> Some v) }) }"

section \<open>Phi edges after a split\<close>

definition renamed_phi :: "block \<Rightarrow> block \<Rightarrow> phi_node \<Rightarrow> phi_node" where
  "renamed_phi old_pred new_pred n = n\<lparr>phi_blocks :=
     omap_insert new_pred (the (omap_get old_pred (phi_blocks n))) (omap_remove old_pred (phi_blocks n))\<rparr>"

lemma renamed_phi_ok:
  assumes "phi_ok n" "omap_get old (phi_blocks n) \<noteq> None" "omap_get new (phi_blocks n) = None"
  shows "phi_ok (renamed_phi old new n)" "edge (renamed_phi old new n) = (edge n)(old := None, new := edge n old)"
proof -
  have ok: "omap_ok (phi_blocks n)" using assms(1) by (simp add: phi_ok_def)
  obtain p where p: "omap_get old (phi_blocks n) = Some p" using assms(2) by blast
  have ne: "old \<noteq> new" using assms(2,3) by auto
  note get = omap.get_rename [OF ok, of _ new p old]
  have at: "q < length (phi_args n)" if "omap_get b (phi_blocks n) = Some q" for b q
    using assms(1) that by (simp add: phi_ok_def)
  have inj: "b = c" if "omap_get b (phi_blocks n) = Some q" "omap_get c (phi_blocks n) = Some q" for b c q
    using assms(1) that unfolding phi_ok_def by blast
  show "phi_ok (renamed_phi old new n)"
    using ok at inj p ne omap.rename_ok [OF ok]
    by (auto simp: phi_ok_def renamed_phi_def get split: if_splits)
  show "edge (renamed_phi old new n) = (edge n)(old := None, new := edge n old)"
    using p ne by (auto simp: edge_def renamed_phi_def get fun_eq_iff)
qed


text \<open>The declarations after the leading phis \<open>ps\<close> were renamed.\<close>

definition rename_decl :: "block \<Rightarrow> block \<Rightarrow> instruction_data \<Rightarrow> instruction_data" where
  "rename_decl old_pred new_pred d = (case d of PhiNode n \<Rightarrow> PhiNode (renamed_phi old_pred new_pred n) | _ \<Rightarrow> d)"

definition rename_phis :: "block \<Rightarrow> block \<Rightarrow> inst list \<Rightarrow> inst_table \<Rightarrow> inst_table" where
  "rename_phis old_pred new_pred ps I = I\<lparr>declarations :=
     map (\<lambda>i. if i \<in> set ps then rename_decl old_pred new_pred (declarations I ! i) else declarations I ! i)
       [0..<length (declarations I)]\<rparr>"

definition phi_from :: "inst_table \<Rightarrow> block \<Rightarrow> inst \<Rightarrow> bool" where
  "phi_from I old_pred i \<longleftrightarrow> i < length (declarations I) \<and>
     (\<exists>n. declarations I ! i = PhiNode n \<and> omap_get old_pred (phi_blocks n) \<noteq> None)"

text \<open>The block's leading phis, all with an edge from the old predecessor, and what follows.\<close>

definition leading_phis :: "inst_table \<Rightarrow> block \<Rightarrow> inst list \<Rightarrow> inst list \<Rightarrow> bool" where
  "leading_phis I old_pred ps rest \<longleftrightarrow> (\<forall>i \<in> set ps. phi_from I old_pred i) \<and>
     (case rest of [] \<Rightarrow> True | r # _ \<Rightarrow> r < length (declarations I) \<and> \<not> InstructionData_is_phi (declarations I ! r))"

lemma rename_phis_nth [simp]:
  "i < length (declarations I) \<Longrightarrow> declarations (rename_phis old new ps I) ! i =
    (if i \<in> set ps then rename_decl old new (declarations I ! i) else declarations I ! i)"
  "length (declarations (rename_phis old new ps I)) = length (declarations I)"
  by (simp_all add: rename_phis_def)

lemma rename_phis_Nil [simp]: "rename_phis old new [] I = I"
  by (simp add: rename_phis_def map_nth)

lemma update_phi_loop_ok:
  assumes "Layout_ok L bs ils" "b \<in> set bs" "ils b = xs @ ps @ rest" "leading_phis I old ps rest" "distinct ps"
  shows "update_phi_loop L old new (cursor_of (ps @ rest)) I = Some (rename_phis old new ps I)"
  using assms(3-5)
proof (induction ps arbitrary: xs I)
  case Nil
  note step = InstCursor_steps(1) [OF assms(1,2), of xs rest "[]"]
  show ?case
  proof (cases rest)
    case Nil
    then show ?thesis using step Nil.prems(1) by (subst update_phi_loop.simps) simp
  next
    case (Cons r rs)
    then have r: "r < length (declarations I)" "\<not> InstructionData_is_phi (declarations I ! r)"
      using Nil.prems(2) by (simp_all add: leading_phis_def)
    then show ?thesis
      using step Nil.prems(1) Cons
      by (subst update_phi_loop.simps) (simp add: InstructionData_is_phi_def split: instruction_data.splits)
  qed
next
  case (Cons p ps)
  obtain n pos where n: "p < length (declarations I)" "declarations I ! p = PhiNode n" "omap_get old (phi_blocks n) = Some pos"
    using Cons.prems(2) by (auto simp: leading_phis_def phi_from_def)
  define I1 where "I1 = I\<lparr>declarations := (declarations I)[p := PhiNode (renamed_phi old new n)]\<rparr>"
  have lead: "leading_phis I1 old ps rest"
    using Cons.prems(2,3) n(1,2)
    by (auto simp: leading_phis_def phi_from_def I1_def InstructionData_is_phi_def nth_list_update split: list.splits)
  have "update_phi_loop L old new (cursor_of (ps @ rest)) I1 = Some (rename_phis old new ps I1)"
    by (rule Cons.IH [of "xs @ [p]"]) (use Cons.prems lead in auto)
  moreover have "rename_phis old new ps I1 = rename_phis old new (p # ps) I"
    using Cons.prems(3) n(1,2)
    by (auto simp: rename_phis_def I1_def rename_decl_def nth_list_update intro!: map_cong)
  moreover have "InstCursor_next L (cursor_of (p # ps @ rest)) = Some (Some p, cursor_of (ps @ rest))"
    using InstCursor_steps(1) [OF assms(1,2), of xs "p # ps @ rest" "[]"] Cons.prems(1) by simp
  ultimately show ?case
    using n by (subst update_phi_loop.simps) (simp add: set_declaration_def I1_def renamed_phi_def)
qed

lemma Function_update_phi_edges_ok:
  assumes "Layout_ok (fn_layout F) bs ils" "b \<in> set bs" "ils b = ps @ rest"
    and "leading_phis (d_insts (fn_dfg F)) old ps rest"
  shows "Function_update_phi_edges b old new F =
    Some (F\<lparr>fn_dfg := (fn_dfg F)\<lparr>d_insts := rename_phis old new ps (d_insts (fn_dfg F))\<rparr>\<rparr>)"
proof -
  have "distinct ps" using insts_dll(2) [OF assms(1,2)] assms(3) by simp
  with update_phi_loop_ok [OF assms(1,2), of "[]" ps rest] assms(3,4) block_inst_cursor_ok [OF assms(1,2)]
  show ?thesis by (simp add: Function_update_phi_edges_def)
qed

lemma rename_phis_append:
  assumes "set ps \<inter> set qs = {}"
  shows "rename_phis old new qs (rename_phis old new ps I) = rename_phis old new (ps @ qs) I"
proof -
  have "declarations (rename_phis old new qs (rename_phis old new ps I)) ! i = declarations (rename_phis old new (ps @ qs) I) ! i"
    if "i < length (declarations I)" for i
    using assms that by auto
  then have "declarations (rename_phis old new qs (rename_phis old new ps I)) = declarations (rename_phis old new (ps @ qs) I)"
    by (simp add: list_eq_iff_nth_eq)
  then show ?thesis by (intro inst_table.equality) (simp_all add: rename_phis_def)
qed

lemma leading_phis_rename:
  assumes "leading_phis I old qs rest" "set ps \<inter> set qs = {}"
  shows "leading_phis (rename_phis old new ps I) old qs rest"
proof -
  have "InstructionData_is_phi (rename_decl old new d) = InstructionData_is_phi d" for d
    by (cases d) (simp_all add: rename_decl_def InstructionData_is_phi_def)
  with assms show ?thesis by (auto simp: leading_phis_def phi_from_def disjoint_iff split: list.splits)
qed

text \<open>The blocks a terminator leads to, one for each side of a branch.\<close>

definition split_targets :: "instruction_data \<Rightarrow> block list" where
  "split_targets d = (case d of Jump dest \<Rightarrow> [dest] | Branch _ then_dst else_dst _ \<Rightarrow> [then_dst, else_dst] | _ \<Rightarrow> [])"

text \<open>
  C21: Splitting a block before an instruction moves the instruction and the rest of the block to the new block. If the
  terminator jumps or branches, then in the leading phis of every destination, which may be the block itself,
  the edge from the old block becomes an edge from the new block with the same value; nothing else of the
  function changes. The two sides of a branch are different blocks, and every leading phi of a destination has an edge
  from the old block.
\<close>

theorem split_block_renames_phi_edges:
  assumes "Layout_ok (fn_layout F) (as @ ob # cs) ils" "ils ob = xs @ y # ys"
    and "nb < length (blocks (fn_layout F))" "nb \<notin> set (as @ ob # cs)"
    and "last (y # ys) < length (declarations (d_insts (fn_dfg F)))"
    and "ts = split_targets (declarations (d_insts (fn_dfg F)) ! last (y # ys))" "distinct ts" "set ts \<subseteq> set (as @ ob # cs)"
    and "\<forall>b \<in> set ts. (ils(ob := xs)) b = ps b @ rest b \<and> leading_phis (d_insts (fn_dfg F)) ob (ps b) (rest b)"
  shows "\<exists>L'. Function_split_block nb y F =
      Some (F\<lparr>fn_layout := L', fn_dfg := (fn_dfg F)\<lparr>d_insts := rename_phis ob nb (concat (map ps ts)) (d_insts (fn_dfg F))\<rparr>\<rparr>) \<and>
    Layout_ok L' (as @ ob # nb # cs) (ils(ob := xs, nb := y # ys))"
proof -
  let ?ils = "ils(ob := xs, nb := y # ys)" and ?I = "d_insts (fn_dfg F)"
  let ?d = "declarations ?I ! last (y # ys)"
  obtain L' where L': "Layout_split_block (fn_layout F) nb y = Some L'" "Layout_ok L' (as @ ob # nb # cs) ?ils"
    using Layout_split_block_ok [OF assms(1,2,3,4)] by blast
  have at: "b \<in> set (as @ ob # nb # cs)" "?ils b = ps b @ rest b" "leading_phis ?I ob (ps b) (rest b)" if "b \<in> set ts" for b
    using assms(4,8,9) that by auto
  have apart: "set (ps a) \<inter> set (ps b) = {}" if "a \<in> set ts" "b \<in> set ts" "a \<noteq> b" for a b
  proof -
    have in_block: "\<forall>i \<in> set (ps c). Layout_inst_block L' i = Some c" if "c \<in> set ts" for c
      using inst_block_ok(1) [OF L'(2)] at(2) [OF that] by simp
    from in_block [OF that(1)] in_block [OF that(2)] that(3) show ?thesis by (auto simp: disjoint_iff)
  qed
  have update: "Function_update_phi_edges b ob nb (F\<lparr>fn_layout := L', fn_dfg := (fn_dfg F)\<lparr>d_insts := rename_phis ob nb qs ?I\<rparr>\<rparr>) =
      Some (F\<lparr>fn_layout := L', fn_dfg := (fn_dfg F)\<lparr>d_insts := rename_phis ob nb (qs @ ps b) ?I\<rparr>\<rparr>)"
    if "b \<in> set ts" "set qs \<inter> set (ps b) = {}" for b qs
    using Function_update_phi_edges_ok [of "F\<lparr>fn_layout := L', fn_dfg := (fn_dfg F)\<lparr>d_insts := rename_phis ob nb qs ?I\<rparr>\<rparr>" _ ?ils b "ps b" "rest b" ob nb]
      L'(2) at [OF that(1)] leading_phis_rename [OF at(3) [OF that(1)] that(2)] rename_phis_append [OF that(2)]
    by simp
  have "Layout_inst_block (fn_layout F) y = Some ob"
    using inst_block_ok(1) [OF assms(1), of y ob] assms(2) by simp
  moreover have "Layout_block_terminator L' nb = Some (Some (last (y # ys)))"
    using block_terminator_ok [OF L'(2), of nb] by (simp add: last_of_def)
  ultimately have split: "Function_split_block nb y F = (let F = F\<lparr>fn_layout := L'\<rparr> in case ?d of
      Jump dest \<Rightarrow> Function_update_phi_edges dest ob nb F
    | Branch _ a b _ \<Rightarrow> do { F \<leftarrow> Function_update_phi_edges a ob nb F; Function_update_phi_edges b ob nb F }
    | _ \<Rightarrow> Some F)"
    using L'(1) assms(5) by (simp add: Function_split_block_def Let_def)
  have "Function_split_block nb y F =
      Some (F\<lparr>fn_layout := L', fn_dfg := (fn_dfg F)\<lparr>d_insts := rename_phis ob nb (concat (map ps ts)) ?I\<rparr>\<rparr>)"
  proof (cases ?d)
    case (Jump dest)
    then have "ts = [dest]" using assms(6) by (simp add: split_targets_def)
    with update [of dest "[]"] Jump show ?thesis unfolding split by simp
  next
    case (Branch c a b l)
    then have ts: "ts = [a, b]" using assms(6) by (simp add: split_targets_def)
    with assms(7) apart [of a b] have "set (ps a) \<inter> set (ps b) = {}" by simp
    with update [of a "[]"] update [of b "ps a"] Branch ts show ?thesis unfolding split by simp
  qed (use assms(6) in \<open>simp_all add: split split_targets_def\<close>)
  with L'(2) show ?thesis by blast
qed

text \<open>
  splitting a block that ends in a branch with the same block on both sides panics when that
  block starts with a phi: the edge is renamed for the first side and missing for the second.
\<close>

theorem split_before_equal_branch_panics:
  assumes "Layout_ok (fn_layout F) (as @ ob # cs) ils" "ils ob = xs @ y # ys" "last (y # ys) = t"
    and "nb < length (blocks (fn_layout F))" "nb \<notin> set (as @ ob # cs)"
    and "t < length (declarations (d_insts (fn_dfg F)))" "declarations (d_insts (fn_dfg F)) ! t = Branch c dest dest l"
    and "dest \<in> set (as @ cs)" "ils dest = ps @ rest" "leading_phis (d_insts (fn_dfg F)) ob ps rest" "ps \<noteq> []"
  shows "Function_split_block nb y F = None"
proof -
  let ?ils = "ils(ob := xs, nb := y # ys)" and ?I = "d_insts (fn_dfg F)"
  obtain L' where L': "Layout_split_block (fn_layout F) nb y = Some L'" "Layout_ok L' (as @ ob # nb # cs) ?ils"
    using Layout_split_block_ok [OF assms(1,2,4,5)] by blast
  have "distinct (as @ ob # nb # cs)" using Layout_okD(1) [OF L'(2)] by (simp add: Blocks_ok_def dll_def)
  then have dest: "dest \<noteq> ob" "dest \<noteq> nb" "?ils dest = ps @ rest" "ob \<noteq> nb" using assms(8,9) by auto
  have "Layout_inst_block (fn_layout F) y = Some ob"
    using inst_block_ok(1) [OF assms(1), of y ob] assms(2) by simp
  moreover have "Layout_block_terminator L' nb = Some (Some t)"
    using block_terminator_ok [OF L'(2), of nb] assms(3) by (simp add: last_of_def)
  moreover define F1 where "F1 = F\<lparr>fn_layout := L', fn_dfg := (fn_dfg F)\<lparr>d_insts := rename_phis ob nb ps ?I\<rparr>\<rparr>"
  have "Function_update_phi_edges dest ob nb (F\<lparr>fn_layout := L'\<rparr>) = Some F1"
    using Function_update_phi_edges_ok [of "F\<lparr>fn_layout := L'\<rparr>" _ ?ils dest ps rest ob nb] L'(2) dest(3) assms(8,10)
    by (auto simp: F1_def)
  moreover have "Function_update_phi_edges dest ob nb F1 = None"
  proof -
    obtain p qs where ps: "ps = p # qs" using assms(11) by (cases ps) auto
    then obtain n where n: "p < length (declarations ?I)" "declarations ?I ! p = PhiNode n"
      using assms(10) by (auto simp: leading_phis_def phi_from_def)
    have d: "dest \<in> set (as @ ob # nb # cs)" using assms(8) by auto
    have cur: "Layout_block_inst_cursor L' dest = Some (cursor_of (ps @ rest))"
      using block_inst_cursor_ok [OF L'(2) d] dest(3) by simp
    have next': "InstCursor_next L' (cursor_of (ps @ rest)) = Some (Some p, cursor_of (qs @ rest))"
      using InstCursor_steps(1) [OF L'(2) d, of "[]" "ps @ rest" "[]"] dest(3) ps by simp
    have "omap_get ob (phi_blocks (renamed_phi ob nb n)) = None"
      using dest(4) omap_get_remove [of ob ob "phi_blocks n"] by (simp add: renamed_phi_def omap_get_def map_of_insert_neq)
    then have "update_phi_loop L' ob nb (cursor_of (ps @ rest)) (rename_phis ob nb ps ?I) = None"
      using next' n ps by (subst update_phi_loop.simps) (simp add: rename_decl_def)
    with cur show ?thesis by (simp add: Function_update_phi_edges_def F1_def)
  qed
  ultimately show ?thesis
    using L'(1) assms(6,7) by (simp add: Function_split_block_def)
qed


text \<open>A function of two blocks, the second starting with a phi; block 2 is not inserted yet.\<close>

definition two_blocks :: "layout_op list" where
  "two_blocks = [AppendNewBlock, AppendNewBlock, MakeBlock, AppendInstToBb 0 0, AppendInstToBb 1 0, AppendInstToBb 2 1]"

lemma two_blocks_layout:
  "\<exists>L. Layout_ok L [0, 1] ((\<lambda>_. [])(0 := [0, 1], 1 := [2])) \<and> length (blocks L) = 3"
proof -
  have "run_ops spec_step two_blocks spec_new =
      Some \<lparr>made = 3, order = [0, 1], body = (\<lambda>_. [])(0 := [0, 1], 1 := [2])\<rparr>"
    by (simp add: two_blocks_def spec_step_def spec_new_def is_new_inst_def owner_def fun_eq_iff)
  from layout_sim.run_sim [OF layout_new_rel this] show ?thesis by (auto simp: layout_rel_def)
qed

definition decl_function :: "instruction_data list \<Rightarrow> layout \<Rightarrow> mir_function" where
  "decl_function ds L = \<lparr>fn_name = [], fn_dfg = \<lparr>d_insts = \<lparr>declarations = ds, inst_results = [], inst_operands = []\<rparr>,
     d_values = DfgValues_clear undefined, d_signatures = []\<rparr>, fn_layout = L, fn_srclocs = []\<rparr>"

abbreviation phi_of_0 :: phi_node where
  "phi_of_0 \<equiv> \<lparr>phi_args = [3], phi_blocks = [(0, 0)]\<rparr>"

theorem split_block_renames_phi_edges_witness:
  "\<exists>F F'. Function_split_block 2 0 F = Some F' \<and>
     declarations (d_insts (fn_dfg F)) = [Unary OpFneg 3, Branch 1 1 0 False, PhiNode phi_of_0] \<and>
     declarations (d_insts (fn_dfg F')) = [Unary OpFneg 3, Branch 1 1 0 False, PhiNode \<lparr>phi_args = [3], phi_blocks = [(2, 0)]\<rparr>]"
proof -
  obtain L where L: "Layout_ok L [0, 1] ((\<lambda>_. [])(0 := [0, 1], 1 := [2]))" "length (blocks L) = 3"
    using two_blocks_layout by blast
  define F where "F = decl_function [Unary OpFneg 3, Branch 1 1 0 False, PhiNode phi_of_0] L"
  have "leading_phis (d_insts (fn_dfg F)) 0 [2] []" "leading_phis (d_insts (fn_dfg F)) 0 [] []"
    by (simp_all add: F_def decl_function_def leading_phis_def phi_from_def omap_get_def)
  then obtain F' where F': "Function_split_block 2 0 F = Some F'"
    "fn_dfg F' = (fn_dfg F)\<lparr>d_insts := rename_phis 0 2 [2] (d_insts (fn_dfg F))\<rparr>"
    using split_block_renames_phi_edges [of F "[]" 0 "[1]" "(\<lambda>_. [])(0 := [0, 1], 1 := [2])" "[]" 0 "[1]" 2 "[1, 0]"
        "\<lambda>b. if b = 1 then [2] else []" "\<lambda>_. []"] L
    by (auto simp: F_def decl_function_def split_targets_def)
  then have "declarations (d_insts (fn_dfg F')) = [Unary OpFneg 3, Branch 1 1 0 False, PhiNode \<lparr>phi_args = [3], phi_blocks = [(2, 0)]\<rparr>]"
    by (simp add: F_def decl_function_def rename_phis_def rename_decl_def renamed_phi_def omap_get_def omap_remove_def upt_rec)
  with F'(1) show ?thesis by (intro exI [of _ F] exI [of _ F']) (simp add: F_def decl_function_def)
qed

theorem split_before_equal_branch_panics_witness:
  "\<exists>F. declarations (d_insts (fn_dfg F)) = [Unary OpFneg 3, Branch 1 1 1 False, PhiNode phi_of_0] \<and>
     Function_split_block 2 0 F = None"
proof -
  obtain L where L: "Layout_ok L [0, 1] ((\<lambda>_. [])(0 := [0, 1], 1 := [2]))" "length (blocks L) = 3"
    using two_blocks_layout by blast
  define F where "F = decl_function [Unary OpFneg 3, Branch 1 1 1 False, PhiNode phi_of_0] L"
  have "leading_phis (d_insts (fn_dfg F)) 0 [2] []"
    by (simp add: F_def decl_function_def leading_phis_def phi_from_def omap_get_def)
  then have "Function_split_block 2 0 F = None"
    using split_before_equal_branch_panics [of F "[]" 0 "[1]" "(\<lambda>_. [])(0 := [0, 1], 1 := [2])" "[]" 0 "[1]" 1 2
        1 1 False "[2]" "[]"] L
    by (auto simp: F_def decl_function_def)
  then show ?thesis by (intro exI [of _ F]) (simp add: F_def decl_function_def)
qed

end
