(* ===== verification/Flowgraph.thy ===== *)
theory Flowgraph
  imports Mir_Function
begin

text \<open>
  The control flow graph, \<^verbatim>\<open>openvaf/mir/src/flowgraph.rs\<close>: every block's at most two successors
  and its set of predecessors (an ordered set of \<^verbatim>\<open>lib/bforest\<close>). It is computed from the
  terminators of a function, and kept in step by \<open>recompute_block\<close> and \<open>replace\<close> when blocks change.
\<close>

section \<open>Successors\<close>

type_synonym successors = "block option \<times> block option"

definition Successors_clear :: "successors \<Rightarrow> successors" where
  "Successors_clear s = (None, None)"

definition Successors_insert :: "block \<Rightarrow> successors \<Rightarrow> (successors \<times> bool) panics" where
  "Successors_insert bb s =
     (let (a, b) = s in
      if a = None then Some ((Some bb, b), True)
      else if a = Some bb then Some (s, False)
      else if b = None then Some ((a, Some bb), True)
      else if b = Some bb then Some (s, False)
      else None)"

definition Successors_contains :: "successors \<Rightarrow> block \<Rightarrow> bool" where
  "Successors_contains s bb \<longleftrightarrow> fst s = Some bb \<or> snd s = Some bb"

definition Successors_pop :: "successors \<Rightarrow> block option \<times> successors" where
  "Successors_pop s =
     (case snd s of
        Some b \<Rightarrow> (Some b, (fst s, None))
      | None \<Rightarrow> (fst s, (None, None)))"

definition Successors_iter :: "successors \<Rightarrow> block list" where
  "Successors_iter s = List.map_filter (\<lambda>b. b) [fst s, snd s]"

definition Successors_as_array :: "successors \<Rightarrow> block option list" where
  "Successors_as_array s = [fst s, snd s]"

definition Successors_is_empty :: "successors \<Rightarrow> bool" where
  "Successors_is_empty s \<longleftrightarrow> fst s = None"

definition Successors_as_pair :: "successors \<Rightarrow> (block \<times> block) option" where
  "Successors_as_pair s = do { a \<leftarrow> fst s; b \<leftarrow> snd s; Some (a, b) }"

section \<open>The graph\<close>

record cfg_node =
  preds :: oset
  succs :: successors

record control_flow_graph =
  cfg_data :: "cfg_node list"
  cfg_valid :: bool

definition CFGNode_default :: cfg_node where
  "CFGNode_default = \<lparr>preds = [], succs = (None, None)\<rparr>"

definition Cfg_new :: control_flow_graph where
  "Cfg_new = \<lparr>cfg_data = [], cfg_valid = False\<rparr>"

definition Cfg_clear :: "control_flow_graph \<Rightarrow> control_flow_graph" where
  "Cfg_clear G = G\<lparr>cfg_data := [], cfg_valid := False\<rparr>"

definition upd_node :: "block \<Rightarrow> (cfg_node \<Rightarrow> cfg_node) \<Rightarrow> control_flow_graph \<Rightarrow> control_flow_graph panics" where
  "upd_node b f G = do { n \<leftarrow> vec_get (cfg_data G) b; Some (G\<lparr>cfg_data := (cfg_data G)[b := f n]\<rparr>) }"

definition Cfg_add_edge :: "block \<Rightarrow> block \<Rightarrow> control_flow_graph \<Rightarrow> control_flow_graph panics" where
  "Cfg_add_edge from to G =
     do { n \<leftarrow> vec_get (cfg_data G) from;
          (s, _) \<leftarrow> Successors_insert to (succs n);
          G \<leftarrow> upd_node from (\<lambda>n. n\<lparr>succs := s\<rparr>) G;
          upd_node to (\<lambda>n. n\<lparr>preds := oset_insert from (preds n)\<rparr>) G }"

definition Cfg_compute_block :: "mir_function \<Rightarrow> block \<Rightarrow> control_flow_graph \<Rightarrow> control_flow_graph panics" where
  "Cfg_compute_block F b G =
     do { lst \<leftarrow> Layout_last_inst (fn_layout F) b;
          (case lst of
             None \<Rightarrow> Some G
           | Some inst \<Rightarrow>
               do { d \<leftarrow> vec_get (declarations (d_insts (fn_dfg F))) inst;
                    (case d of
                       Jump destination \<Rightarrow> Cfg_add_edge b destination G
                     | Branch _ then_dst else_dst _ \<Rightarrow>
                         do { G \<leftarrow> Cfg_add_edge b else_dst G; Cfg_add_edge b then_dst G }
                     | _ \<Rightarrow> Some G) }) }"

partial_function (option) compute_loop ::
    "mir_function \<Rightarrow> block option \<Rightarrow> control_flow_graph \<Rightarrow> control_flow_graph option" where
  "compute_loop F cur G =
     do { (b, cur) \<leftarrow> BlockCursor_next (fn_layout F) cur;
          (case b of
             None \<Rightarrow> Some G
           | Some b \<Rightarrow> do { G \<leftarrow> Cfg_compute_block F b G; compute_loop F cur G }) }"

definition Cfg_compute :: "mir_function \<Rightarrow> control_flow_graph \<Rightarrow> control_flow_graph option" where
  "Cfg_compute F G =
     do { let G = Cfg_clear G;
          let G = G\<lparr>cfg_data := vec_resize (cfg_data G) (Layout_num_blocks (fn_layout F)) CFGNode_default\<rparr>;
          G \<leftarrow> compute_loop F (Layout_blocks (fn_layout F)) G;
          Some (G\<lparr>cfg_valid := True\<rparr>) }"

definition Cfg_with_function :: "mir_function \<Rightarrow> control_flow_graph option" where
  "Cfg_with_function F = Cfg_compute F Cfg_new"

text \<open>The successors are taken first; then the block leaves their predecessor sets.\<close>

fun drop_pred :: "block \<Rightarrow> block list \<Rightarrow> control_flow_graph \<Rightarrow> control_flow_graph panics" where
  "drop_pred b [] G = Some G"
| "drop_pred b (s # ss) G =
     do { G \<leftarrow> upd_node s (\<lambda>n. n\<lparr>preds := oset_remove b (preds n)\<rparr>) G; drop_pred b ss G }"

definition Cfg_invalidate_block_successors :: "block \<Rightarrow> control_flow_graph \<Rightarrow> control_flow_graph panics" where
  "Cfg_invalidate_block_successors b G =
     do { n \<leftarrow> vec_get (cfg_data G) b;
          G \<leftarrow> upd_node b (\<lambda>n. n\<lparr>succs := (None, None)\<rparr>) G;
          drop_pred b (Successors_iter (succs n)) G }"

definition Cfg_recompute_block :: "mir_function \<Rightarrow> block \<Rightarrow> control_flow_graph \<Rightarrow> control_flow_graph panics" where
  "Cfg_recompute_block F b G =
     do { _ \<leftarrow> rust_assert (cfg_valid G);
          G \<leftarrow> Cfg_invalidate_block_successors b G;
          Cfg_compute_block F b G }"

definition replace_succ :: "block \<Rightarrow> block \<Rightarrow> successors \<Rightarrow> successors panics" where
  "replace_succ old new s =
     (if fst s = Some old then
        Some (Some new, if snd s = Some new then None else snd s)
      else
        do { _ \<leftarrow> rust_assert (snd s = Some old);
             Some (if fst s = Some new then (fst s, None) else (fst s, Some new)) })"

fun replace_loop :: "block \<Rightarrow> block \<Rightarrow> block list \<Rightarrow> control_flow_graph \<Rightarrow> control_flow_graph panics" where
  "replace_loop old new [] G = Some G"
| "replace_loop old new (p # ps) G =
     do { n \<leftarrow> vec_get (cfg_data G) p;
          s \<leftarrow> replace_succ old new (succs n);
          G \<leftarrow> upd_node p (\<lambda>n. n\<lparr>succs := s\<rparr>) G;
          G \<leftarrow> upd_node new (\<lambda>n. n\<lparr>preds := oset_insert p (preds n)\<rparr>) G;
          replace_loop old new ps G }"

definition Cfg_replace :: "block \<Rightarrow> block \<Rightarrow> control_flow_graph \<Rightarrow> control_flow_graph panics" where
  "Cfg_replace old new G =
     do { _ \<leftarrow> rust_assert (old \<noteq> new);
          _ \<leftarrow> rust_assert (cfg_valid G);
          n \<leftarrow> vec_get (cfg_data G) old;
          G \<leftarrow> replace_loop old new (preds n) G;
          G \<leftarrow> upd_node old (\<lambda>n. n\<lparr>preds := []\<rparr>) G;
          Cfg_invalidate_block_successors old G }"

definition Cfg_ensure_bb :: "block \<Rightarrow> control_flow_graph \<Rightarrow> control_flow_graph" where
  "Cfg_ensure_bb bb G = G\<lparr>cfg_data := vec_resize (cfg_data G) (bb + 1) CFGNode_default\<rparr>"

definition Cfg_pred_iter :: "control_flow_graph \<Rightarrow> block \<Rightarrow> block list panics" where
  "Cfg_pred_iter G b = map_option preds (vec_get (cfg_data G) b)"

definition Cfg_pred_rev_iter :: "control_flow_graph \<Rightarrow> block \<Rightarrow> block list panics" where
  "Cfg_pred_rev_iter G b = map_option (\<lambda>n. rev (preds n)) (vec_get (cfg_data G) b)"

definition Cfg_predecessors :: "control_flow_graph \<Rightarrow> block \<Rightarrow> oset panics" where
  "Cfg_predecessors G b = map_option preds (vec_get (cfg_data G) b)"

definition Cfg_successors :: "control_flow_graph \<Rightarrow> block \<Rightarrow> successors panics" where
  "Cfg_successors G b = map_option succs (vec_get (cfg_data G) b)"

definition Cfg_is_predecessors :: "control_flow_graph \<Rightarrow> block \<Rightarrow> block \<Rightarrow> bool panics" where
  "Cfg_is_predecessors G p b = map_option (\<lambda>n. p \<in> set (preds n)) (vec_get (cfg_data G) b)"

definition Cfg_succ_iter :: "control_flow_graph \<Rightarrow> block \<Rightarrow> block list panics" where
  "Cfg_succ_iter G b =
     do { _ \<leftarrow> rust_assert (cfg_valid G); map_option (\<lambda>n. Successors_iter (succs n)) (vec_get (cfg_data G) b) }"

definition Cfg_unique_succ :: "control_flow_graph \<Rightarrow> block \<Rightarrow> block option panics" where
  "Cfg_unique_succ G b = map_option (\<lambda>ss. case ss of [s] \<Rightarrow> Some s | _ \<Rightarrow> None) (Cfg_succ_iter G b)"

definition Cfg_is_valid :: "control_flow_graph \<Rightarrow> bool" where
  "Cfg_is_valid G \<longleftrightarrow> cfg_valid G"

definition Cfg_self_loop :: "control_flow_graph \<Rightarrow> block \<Rightarrow> bool panics" where
  "Cfg_self_loop G b = map_option (\<lambda>ps. list_all (\<lambda>p. p = b) ps) (Cfg_pred_iter G b)"

definition Cfg_single_predecessor :: "control_flow_graph \<Rightarrow> block \<Rightarrow> block option panics" where
  "Cfg_single_predecessor G b = map_option (\<lambda>ps. case ps of [p] \<Rightarrow> Some p | _ \<Rightarrow> None) (Cfg_pred_iter G b)"

definition Cfg_empty_predecessors :: "control_flow_graph \<Rightarrow> block \<Rightarrow> bool panics" where
  "Cfg_empty_predecessors G b = map_option (\<lambda>ps. ps = []) (Cfg_pred_iter G b)"


section \<open>Consistent graphs\<close>

text \<open>
  A successor pair has no hole and no duplicate; the predecessor sets are the converse of the
  successors. A consistent graph is determined by its successors.
\<close>

definition succ_wf :: "successors \<Rightarrow> bool" where
  "succ_wf s \<longleftrightarrow> (fst s = None \<longrightarrow> snd s = None) \<and> (fst s \<noteq> None \<longrightarrow> fst s \<noteq> snd s)"

definition succ_at :: "control_flow_graph \<Rightarrow> block \<Rightarrow> successors" where
  "succ_at G b = succs (cfg_data G ! b)"

definition succ_set :: "control_flow_graph \<Rightarrow> block \<Rightarrow> block set" where
  "succ_set G b = set (Successors_iter (succ_at G b))"

definition Cfg_ok :: "control_flow_graph \<Rightarrow> bool" where
  "Cfg_ok G \<longleftrightarrow> (\<forall>b < length (cfg_data G).
     oset_ok (preds (cfg_data G ! b)) \<and> succ_wf (succ_at G b) \<and> succ_set G b \<subseteq> {..<length (cfg_data G)} \<and>
     set (preds (cfg_data G ! b)) = {a. a < length (cfg_data G) \<and> b \<in> succ_set G a})"

lemma Successors_iter_pair [simp]:
  "Successors_iter (None, None) = []" "Successors_iter (Some a, None) = [a]"
  "Successors_iter (None, Some b) = [b]" "Successors_iter (Some a, Some b) = [a, b]"
  by (simp_all add: Successors_iter_def map_filter_simps)

lemma succ_wf_cases:
  assumes "succ_wf s"
  obtains "s = (None, None)" | a where "s = (Some a, None)" | a b where "s = (Some a, Some b)" "a \<noteq> b"
  using assms by (cases s; cases "fst s"; cases "snd s") (auto simp: succ_wf_def)

lemma succ_wf_simps [simp]:
  "succ_wf (None, None)" "succ_wf (Some a, None)" "succ_wf (Some a, Some b) \<longleftrightarrow> a \<noteq> b"
  by (simp_all add: succ_wf_def)

lemma Cfg_okD:
  assumes "Cfg_ok G" "b < length (cfg_data G)"
  shows "oset_ok (preds (cfg_data G ! b))" "succ_wf (succ_at G b)" "succ_set G b \<subseteq> {..<length (cfg_data G)}"
    "set (preds (cfg_data G ! b)) = {a. a < length (cfg_data G) \<and> b \<in> succ_set G a}"
  using assms by (simp_all add: Cfg_ok_def)

lemma Cfg_eqI:
  assumes "Cfg_ok G" "Cfg_ok H" "length (cfg_data G) = length (cfg_data H)" "cfg_valid G = cfg_valid H"
    and "\<And>b. b < length (cfg_data H) \<Longrightarrow> succ_at G b = succ_at H b"
  shows "G = H"
proof -
  have "cfg_data G = cfg_data H"
  proof (rule nth_equalityI [OF assms(3)])
    fix b assume b: "b < length (cfg_data G)"
    have "succ_set G a = succ_set H a" if "a < length (cfg_data H)" for a
      using assms(5) [OF that] by (simp add: succ_set_def)
    then have "set (preds (cfg_data G ! b)) = set (preds (cfg_data H ! b))"
      using Cfg_okD(4) [OF assms(1) b] Cfg_okD(4) [OF assms(2), of b] b assms(3) by auto
    then have "preds (cfg_data G ! b) = preds (cfg_data H ! b)"
      using Cfg_okD(1) [OF assms(1) b] Cfg_okD(1) [OF assms(2), of b] b assms(3) by (simp add: oset_ext)
    with assms(3,5) b show "cfg_data G ! b = cfg_data H ! b"
      by (simp add: succ_at_def)
  qed
  with assms(4) show ?thesis by simp
qed

lemma upd_node_in [simp]:
  "b < length (cfg_data G) \<Longrightarrow> upd_node b f G = Some (G\<lparr>cfg_data := (cfg_data G)[b := f (cfg_data G ! b)]\<rparr>)"
  by (simp add: upd_node_def)

text \<open>An update of the nodes that changes one successor pair and the matching predecessor sets.\<close>

lemma Cfg_ok_updI:
  assumes "Cfg_ok G" "a < length (cfg_data G)" "length (cfg_data G') = length (cfg_data G)"
    and "\<And>b. b < length (cfg_data G) \<Longrightarrow> succ_at G' b = (if b = a then s else succ_at G b)"
    and "succ_wf s" "set (Successors_iter s) \<subseteq> {..<length (cfg_data G)}"
    and "\<And>b. b < length (cfg_data G) \<Longrightarrow> oset_ok (preds (cfg_data G' ! b)) \<and>
      set (preds (cfg_data G' ! b)) = (if b \<in> set (Successors_iter s) then insert a (set (preds (cfg_data G ! b)))
        else set (preds (cfg_data G ! b)) - {a})"
  shows "Cfg_ok G'"
proof -
  have succ: "succ_set G' b = (if b = a then set (Successors_iter s) else succ_set G b)" if "b < length (cfg_data G)" for b
    using assms(4) [OF that] by (simp add: succ_set_def)
  show ?thesis
    unfolding Cfg_ok_def assms(3)
  proof (intro allI impI conjI)
    fix b assume b: "b < length (cfg_data G)"
    note old = Cfg_okD [OF assms(1) b]
    show "oset_ok (preds (cfg_data G' ! b))" using assms(7) [OF b] by blast
    show "succ_wf (succ_at G' b)" using assms(4) [OF b] assms(5) old(2) by simp
    show "succ_set G' b \<subseteq> {..<length (cfg_data G)}" using succ [OF b] assms(6) old(3) by simp
    have "set (preds (cfg_data G' ! b)) = (if b \<in> set (Successors_iter s) then insert a (set (preds (cfg_data G ! b)))
        else set (preds (cfg_data G ! b)) - {a})" using assms(7) [OF b] by blast
    also have "\<dots> = {x. x < length (cfg_data G) \<and> b \<in> (if x = a then set (Successors_iter s) else succ_set G x)}"
      using old(4) assms(2) by auto
    also have "\<dots> = {x. x < length (cfg_data G) \<and> b \<in> succ_set G' x}"
      using succ by auto
    finally show "set (preds (cfg_data G' ! b)) = {x. x < length (cfg_data G) \<and> b \<in> succ_set G' x}" .
  qed
qed

lemma Successors_insert_ok:
  assumes "succ_wf s" "snd s = None \<or> b \<in> set (Successors_iter s)"
  shows "\<exists>s' c. Successors_insert b s = Some (s', c) \<and> succ_wf s' \<and>
    set (Successors_iter s') = insert b (set (Successors_iter s)) \<and> (c \<longleftrightarrow> b \<notin> set (Successors_iter s))"
  using assms(1) by (cases rule: succ_wf_cases) (use assms(2) in \<open>auto simp: Successors_insert_def\<close>)

lemma Cfg_add_edge_ok:
  assumes "Cfg_ok G" "a < length (cfg_data G)" "b < length (cfg_data G)"
    and "Successors_insert b (succ_at G a) = Some (s, c)" "snd (succ_at G a) = None \<or> b \<in> succ_set G a"
  shows "\<exists>G'. Cfg_add_edge a b G = Some G' \<and> Cfg_ok G' \<and> length (cfg_data G') = length (cfg_data G) \<and>
    cfg_valid G' = cfg_valid G \<and>
    (\<forall>x < length (cfg_data G). succ_at G' x = (if x = a then s else succ_at G x))"
proof -
  define G1 where "G1 = G\<lparr>cfg_data := (cfg_data G)[a := (cfg_data G ! a)\<lparr>succs := s\<rparr>]\<rparr>"
  define G2 where "G2 = G1\<lparr>cfg_data := (cfg_data G1)[b := (cfg_data G1 ! b)\<lparr>preds := oset_insert a (preds (cfg_data G1 ! b))\<rparr>]\<rparr>"
  have s: "succ_wf s" "set (Successors_iter s) = insert b (succ_set G a)"
    using Successors_insert_ok [OF Cfg_okD(2) [OF assms(1,2)], of b] assms(4,5) by (auto simp: succ_set_def)
  have run: "Cfg_add_edge a b G = Some G2"
    using assms(2-4) by (simp add: Cfg_add_edge_def G1_def G2_def succ_at_def)
  have at: "succ_at G2 x = (if x = a then s else succ_at G x)" if "x < length (cfg_data G)" for x
    using that assms(2,3) by (auto simp: succ_at_def G2_def G1_def nth_list_update)
  have ps: "preds (cfg_data G2 ! x) = (if x = b then oset_insert a (preds (cfg_data G ! x)) else preds (cfg_data G ! x))"
    if "x < length (cfg_data G)" for x
    using that assms(2,3) by (auto simp: G2_def G1_def nth_list_update)
  have in_preds: "a \<in> set (preds (cfg_data G ! x)) \<longleftrightarrow> x \<in> succ_set G a" if "x < length (cfg_data G)" for x
    using Cfg_okD(4) [OF assms(1) that] assms(2) by simp
  have "Cfg_ok G2"
  proof (rule Cfg_ok_updI [OF assms(1,2) _ at s(1)])
    show "set (Successors_iter s) \<subseteq> {..<length (cfg_data G)}"
      using s(2) Cfg_okD(3) [OF assms(1,2)] assms(3) by auto
    show "oset_ok (preds (cfg_data G2 ! x)) \<and> set (preds (cfg_data G2 ! x)) =
        (if x \<in> set (Successors_iter s) then insert a (set (preds (cfg_data G ! x)))
         else set (preds (cfg_data G ! x)) - {a})" if "x < length (cfg_data G)" for x
      using ps [OF that] Cfg_okD(1) [OF assms(1) that] in_preds [OF that] s(2) by auto
  qed (simp add: G2_def G1_def)
  with run at show ?thesis by (auto simp: G2_def G1_def)
qed


section \<open>Computing the graph\<close>

text \<open>The targets of a block's last instruction, in the order the edges are added.\<close>

definition last_targets :: "mir_function \<Rightarrow> block \<Rightarrow> block list" where
  "last_targets F b =
     (case Layout_last_inst (fn_layout F) b of
        Some (Some i) \<Rightarrow>
          (case declarations (d_insts (fn_dfg F)) ! i of
             Jump d \<Rightarrow> [d] | Branch _ t e _ \<Rightarrow> [e, t] | _ \<Rightarrow> [])
      | _ \<Rightarrow> [])"

definition succ_pair :: "block list \<Rightarrow> successors" where
  "succ_pair ts =
     (case ts of [] \<Rightarrow> (None, None) | [d] \<Rightarrow> (Some d, None) | e # t # _ \<Rightarrow> (Some e, if t = e then None else Some t))"

definition block_ok :: "mir_function \<Rightarrow> block \<Rightarrow> bool" where
  "block_ok F b \<longleftrightarrow> b < length (blocks (fn_layout F)) \<and>
     (\<forall>i. Layout_last_inst (fn_layout F) b = Some (Some i) \<longrightarrow> i < length (declarations (d_insts (fn_dfg F)))) \<and>
     set (last_targets F b) \<subseteq> {..<length (blocks (fn_layout F))}"

definition Function_ok :: "mir_function \<Rightarrow> block list \<Rightarrow> bool" where
  "Function_ok F bs \<longleftrightarrow> (\<exists>ils. Layout_ok (fn_layout F) bs ils) \<and> (\<forall>b \<in> set bs. block_ok F b)"

lemma Cfg_compute_block_ok:
  assumes "Cfg_ok G" "length (cfg_data G) = length (blocks (fn_layout F))" "block_ok F b" "succ_at G b = (None, None)"
  shows "\<exists>G'. Cfg_compute_block F b G = Some G' \<and> Cfg_ok G' \<and> length (cfg_data G') = length (cfg_data G) \<and>
    cfg_valid G' = cfg_valid G \<and>
    (\<forall>x < length (cfg_data G). succ_at G' x = (if x = b then succ_pair (last_targets F b) else succ_at G x))"
proof -
  let ?n = "length (cfg_data G)"
  have b: "b < ?n" "b < length (blocks (fn_layout F))" using assms(2,3) by (simp_all add: block_ok_def)
  obtain l where l: "Layout_last_inst (fn_layout F) b = Some l"
    using b(2) by (simp add: Layout_last_inst_def)
  have no_edge: ?thesis if "last_targets F b = []" "Cfg_compute_block F b G = Some G"
    using that assms(1,4) b by (auto simp: succ_pair_def)
  have one_edge: ?thesis if d: "last_targets F b = [d]" "Cfg_compute_block F b G = Cfg_add_edge b d G" for d
  proof -
    have lt: "d < ?n" using d(1) assms(2,3) by (simp add: block_ok_def)
    have ins: "Successors_insert d (succ_at G b) = Some ((Some d, None), True)"
      using assms(4) by (simp add: Successors_insert_def)
    have pair: "succ_pair (last_targets F b) = (Some d, None)" using d(1) by (simp add: succ_pair_def)
    show ?thesis
      unfolding d(2) pair by (rule Cfg_add_edge_ok [OF assms(1) b(1) lt ins]) (simp add: assms(4))
  qed
  have two_edges: ?thesis if et: "last_targets F b = [e, t]"
    "Cfg_compute_block F b G = do { G \<leftarrow> Cfg_add_edge b e G; Cfg_add_edge b t G }" for e t
  proof -
    have lt: "e < ?n" "t < ?n" using et(1) assms(2,3) by (simp_all add: block_ok_def)
    have "Successors_insert e (succ_at G b) = Some ((Some e, None), True)"
      using assms(4) by (simp add: Successors_insert_def)
    then obtain G1 where G1: "Cfg_add_edge b e G = Some G1" "Cfg_ok G1" "length (cfg_data G1) = ?n"
      "cfg_valid G1 = cfg_valid G" "\<forall>x < ?n. succ_at G1 x = (if x = b then (Some e, None) else succ_at G x)"
      using Cfg_add_edge_ok [OF assms(1) b(1) lt(1), of "(Some e, None)" True] assms(4) by auto
    have ins: "Successors_insert t (succ_at G1 b) = Some (succ_pair [e, t], t \<noteq> e)" "snd (succ_at G1 b) = None"
      using G1(5) b(1) by (auto simp: Successors_insert_def succ_pair_def)
    have "b < length (cfg_data G1)" "t < length (cfg_data G1)" using b(1) lt(2) G1(3) by simp_all
    from Cfg_add_edge_ok [OF G1(2) this ins(1)] ins(2) obtain G2 where "Cfg_add_edge b t G1 = Some G2" "Cfg_ok G2"
      "length (cfg_data G2) = ?n" "cfg_valid G2 = cfg_valid G"
      "\<forall>x < ?n. succ_at G2 x = (if x = b then succ_pair [e, t] else succ_at G1 x)"
      using G1(3,4) by auto
    then show ?thesis
      using G1(1,5) et by (intro exI [of _ G2]) simp
  qed
  show ?thesis
  proof (cases l)
    case None
    then show ?thesis using l by (intro no_edge) (simp_all add: last_targets_def Cfg_compute_block_def)
  next
    case (Some i)
    then have "i < length (declarations (d_insts (fn_dfg F)))" using assms(3) l by (simp add: block_ok_def)
    with l Some have "last_targets F b = [] \<and> Cfg_compute_block F b G = Some G \<or>
        (\<exists>d. last_targets F b = [d] \<and> Cfg_compute_block F b G = Cfg_add_edge b d G) \<or>
        (\<exists>e t. last_targets F b = [e, t] \<and>
          Cfg_compute_block F b G = do { G \<leftarrow> Cfg_add_edge b e G; Cfg_add_edge b t G })"
      by (cases "declarations (d_insts (fn_dfg F)) ! i") (simp_all add: last_targets_def Cfg_compute_block_def)
    then show ?thesis using no_edge one_edge two_edges by blast
  qed
qed

lemma compute_loop_ok:
  assumes "Layout_ok (fn_layout F) (xs @ ys) ils" "\<forall>b \<in> set ys. block_ok F b"
    and "Cfg_ok G" "length (cfg_data G) = length (blocks (fn_layout F))" "\<forall>b \<in> set ys. succ_at G b = (None, None)"
  shows "\<exists>G'. compute_loop F (first_of ys None) G = Some G' \<and> Cfg_ok G' \<and> length (cfg_data G') = length (cfg_data G) \<and>
    (\<forall>x < length (cfg_data G). succ_at G' x = (if x \<in> set ys then succ_pair (last_targets F x) else succ_at G x))"
  using assms
proof (induction ys arbitrary: xs G)
  case Nil
  then show ?case
    using BlockCursor_steps(1) [OF Nil.prems(1)] by (subst compute_loop.simps) simp
next
  case (Cons y ys)
  have y: "y \<notin> set ys" using Layout_okD(1) [OF Cons.prems(1)] by (simp add: Blocks_ok_def dll_def)
  obtain G1 where G1: "Cfg_compute_block F y G = Some G1" "Cfg_ok G1" "length (cfg_data G1) = length (cfg_data G)"
    "\<forall>x < length (cfg_data G). succ_at G1 x = (if x = y then succ_pair (last_targets F y) else succ_at G x)"
    using Cfg_compute_block_ok [OF Cons.prems(3,4), of y] Cons.prems(2,5) by auto
  have lt: "b < length (cfg_data G)" if "b \<in> set ys" for b
    using Cons.prems(2,4) that by (simp add: block_ok_def)
  have "\<forall>b \<in> set ys. succ_at G1 b = (None, None)" using G1(4) Cons.prems(5) y lt by auto
  then obtain G2 where "compute_loop F (first_of ys None) G1 = Some G2" "Cfg_ok G2"
    "length (cfg_data G2) = length (cfg_data G1)"
    "\<forall>x < length (cfg_data G1). succ_at G2 x = (if x \<in> set ys then succ_pair (last_targets F x) else succ_at G1 x)"
    using Cons.IH [of "xs @ [y]" G1] Cons.prems G1 by auto
  moreover have "BlockCursor_next (fn_layout F) (Some y) = Some (Some y, first_of ys None)"
    using BlockCursor_steps(1) [OF Cons.prems(1)] by simp
  ultimately show ?case
    using G1 by (subst compute_loop.simps) auto
qed

lemma Cfg_compute_ok:
  assumes "Function_ok F bs"
  shows "\<exists>G'. Cfg_compute F G = Some G' \<and> Cfg_ok G' \<and> cfg_valid G' \<and>
    length (cfg_data G') = length (blocks (fn_layout F)) \<and>
    (\<forall>x < length (blocks (fn_layout F)). succ_at G' x = (if x \<in> set bs then succ_pair (last_targets F x) else (None, None)))"
proof -
  obtain ils where L: "Layout_ok (fn_layout F) bs ils" using assms by (auto simp: Function_ok_def)
  define G0 where "G0 = (Cfg_clear G)\<lparr>cfg_data := vec_resize [] (Layout_num_blocks (fn_layout F)) CFGNode_default\<rparr>"
  have len: "length (cfg_data G0) = length (blocks (fn_layout F))"
    by (simp add: G0_def vec_resize_def Layout_num_blocks_def)
  have at: "cfg_data G0 ! x = CFGNode_default" if "x < length (blocks (fn_layout F))" for x
    using that by (simp add: G0_def vec_resize_def Layout_num_blocks_def)
  then have succ: "succ_at G0 x = (None, None)" if "x < length (blocks (fn_layout F))" for x
    using that by (simp add: succ_at_def CFGNode_default_def)
  then have "Cfg_ok G0" using len at by (simp add: Cfg_ok_def succ_set_def) (simp add: CFGNode_default_def)
  moreover have "\<forall>b \<in> set bs. block_ok F b" using assms by (simp add: Function_ok_def)
  moreover from this have "\<forall>b \<in> set bs. succ_at G0 b = (None, None)" using succ by (simp add: block_ok_def)
  ultimately obtain G' where G': "compute_loop F (first_of bs None) G0 = Some G'" "Cfg_ok G'"
    "length (cfg_data G') = length (cfg_data G0)"
    "\<forall>x < length (cfg_data G0). succ_at G' x = (if x \<in> set bs then succ_pair (last_targets F x) else succ_at G0 x)"
    using compute_loop_ok [of F "[]" bs ils G0] L len by auto
  have "Cfg_compute F G = Some (G'\<lparr>cfg_valid := True\<rparr>)"
    using G'(1) block_cursor_starts(1) [OF L] by (simp add: Cfg_compute_def G0_def Cfg_clear_def)
  moreover have "Cfg_ok (G'\<lparr>cfg_valid := True\<rparr>)" using G'(2) by (simp add: Cfg_ok_def succ_set_def succ_at_def)
  ultimately show ?thesis using G' len succ by (auto simp: succ_at_def)
qed

lemma succ_pair_targets [simp]: "set (Successors_iter (succ_pair (last_targets F b))) = set (last_targets F b)"
  by (auto simp: last_targets_def succ_pair_def split: option.splits instruction_data.splits)

text \<open>
  C22: Computing the control flow graph of a well-formed function returns. The graph has one node per
  block; the successors of an inserted block are the targets of its terminator, a block outside the
  layout has none; the predecessor set of a block holds exactly the blocks whose terminator targets it.
\<close>

theorem compute_graph:
  assumes "Function_ok F bs"
  shows "\<exists>G. Cfg_compute F G0 = Some G \<and> Cfg_ok G \<and> cfg_valid G \<and>
    length (cfg_data G) = length (blocks (fn_layout F)) \<and>
    (\<forall>b < length (cfg_data G).
       succ_set G b = (if b \<in> set bs then set (last_targets F b) else {}) \<and>
       set (preds (cfg_data G ! b)) = {a \<in> set bs. b \<in> set (last_targets F a)})"
proof -
  obtain G where G: "Cfg_compute F G0 = Some G" "Cfg_ok G" "cfg_valid G"
    "length (cfg_data G) = length (blocks (fn_layout F))"
    "\<forall>x < length (blocks (fn_layout F)). succ_at G x = (if x \<in> set bs then succ_pair (last_targets F x) else (None, None))"
    using Cfg_compute_ok [OF assms] by blast
  have succ: "succ_set G b = (if b \<in> set bs then set (last_targets F b) else {})" if "b < length (cfg_data G)" for b
    using that G(4,5) by (simp add: succ_set_def)
  have "set (preds (cfg_data G ! b)) = {a \<in> set bs. b \<in> set (last_targets F a)}" if "b < length (cfg_data G)" for b
  proof -
    have "a < length (cfg_data G)" if "a \<in> set bs" for a
      using that assms G(4) by (simp add: Function_ok_def block_ok_def)
    then show ?thesis using Cfg_okD(4) [OF G(2) that] succ by (auto split: if_splits)
  qed
  with succ G show ?thesis by blast
qed


section \<open>Changing the graph\<close>

lemma drop_pred_ok:
  assumes "set ss \<subseteq> {..<length (cfg_data G)}"
  shows "\<exists>G'. drop_pred b ss G = Some G' \<and> length (cfg_data G') = length (cfg_data G) \<and> cfg_valid G' = cfg_valid G \<and>
    (\<forall>x < length (cfg_data G). succ_at G' x = succ_at G x \<and>
       set (preds (cfg_data G' ! x)) = set (preds (cfg_data G ! x)) - (if x \<in> set ss then {b} else {}) \<and>
       (oset_ok (preds (cfg_data G ! x)) \<longrightarrow> oset_ok (preds (cfg_data G' ! x))))"
  using assms
proof (induction ss arbitrary: G)
  case (Cons s ss)
  define G1 where "G1 = G\<lparr>cfg_data := (cfg_data G)[s := (cfg_data G ! s)\<lparr>preds := oset_remove b (preds (cfg_data G ! s))\<rparr>]\<rparr>"
  have G1: "upd_node s (\<lambda>n. n\<lparr>preds := oset_remove b (preds n)\<rparr>) G = Some G1" "length (cfg_data G1) = length (cfg_data G)"
    "cfg_valid G1 = cfg_valid G"
    using Cons.prems by (simp_all add: G1_def)
  have at: "succ_at G1 x = succ_at G x \<and> preds (cfg_data G1 ! x) =
      (if x = s then oset_remove b (preds (cfg_data G ! x)) else preds (cfg_data G ! x))" if "x < length (cfg_data G)" for x
    using that Cons.prems by (auto simp: G1_def succ_at_def nth_list_update)
  obtain G2 where G2: "drop_pred b ss G1 = Some G2" "length (cfg_data G2) = length (cfg_data G1)" "cfg_valid G2 = cfg_valid G1"
    and at2: "\<forall>x < length (cfg_data G1). succ_at G2 x = succ_at G1 x \<and>
       set (preds (cfg_data G2 ! x)) = set (preds (cfg_data G1 ! x)) - (if x \<in> set ss then {b} else {}) \<and>
       (oset_ok (preds (cfg_data G1 ! x)) \<longrightarrow> oset_ok (preds (cfg_data G2 ! x)))"
    using Cons.IH [of G1] Cons.prems G1(2) by auto
  show ?case
    using G1 G2 at at2 by (intro exI [of _ G2]) (auto simp: Cons.prems)
qed simp

lemma Cfg_invalidate_ok:
  assumes "Cfg_ok G" "b < length (cfg_data G)"
  shows "\<exists>G'. Cfg_invalidate_block_successors b G = Some G' \<and> Cfg_ok G' \<and>
    length (cfg_data G') = length (cfg_data G) \<and> cfg_valid G' = cfg_valid G \<and>
    (\<forall>x < length (cfg_data G). succ_at G' x = (if x = b then (None, None) else succ_at G x))"
proof -
  define G1 where "G1 = G\<lparr>cfg_data := (cfg_data G)[b := (cfg_data G ! b)\<lparr>succs := (None, None)\<rparr>]\<rparr>"
  let ?ss = "Successors_iter (succ_at G b)"
  have at: "succ_at G1 x = (if x = b then (None, None) else succ_at G x) \<and> preds (cfg_data G1 ! x) = preds (cfg_data G ! x)"
    if "x < length (cfg_data G)" for x
    using that assms(2) by (auto simp: G1_def succ_at_def nth_list_update)
  have len: "length (cfg_data G1) = length (cfg_data G)" "cfg_valid G1 = cfg_valid G" by (simp_all add: G1_def)
  have "set ?ss \<subseteq> {..<length (cfg_data G1)}" using Cfg_okD(3) [OF assms] len by (simp add: succ_set_def)
  from drop_pred_ok [OF this, of b] obtain G2 where G2: "drop_pred b ?ss G1 = Some G2"
    "length (cfg_data G2) = length (cfg_data G)" "cfg_valid G2 = cfg_valid G"
    and at2: "\<forall>x < length (cfg_data G). succ_at G2 x = succ_at G1 x \<and>
       set (preds (cfg_data G2 ! x)) = set (preds (cfg_data G1 ! x)) - (if x \<in> set ?ss then {b} else {}) \<and>
       (oset_ok (preds (cfg_data G1 ! x)) \<longrightarrow> oset_ok (preds (cfg_data G2 ! x)))"
    unfolding len by auto
  have at3: "succ_at G2 x = (if x = b then (None, None) else succ_at G x)" if "x < length (cfg_data G)" for x
    using at at2 that by simp
  have "Cfg_ok G2"
  proof (rule Cfg_ok_updI [OF assms G2(2) at3])
    fix x assume x: "x < length (cfg_data G)"
    have "b \<notin> set (preds (cfg_data G ! x))" if "x \<notin> set ?ss"
      using Cfg_okD(4) [OF assms(1) x] that by (simp add: succ_set_def)
    then show "oset_ok (preds (cfg_data G2 ! x)) \<and> set (preds (cfg_data G2 ! x)) =
        (if x \<in> set (Successors_iter (None, None)) then insert b (set (preds (cfg_data G ! x)))
         else set (preds (cfg_data G ! x)) - {b})"
      using at [OF x] at2 x Cfg_okD(1) [OF assms(1) x] by auto
  qed simp_all
  moreover have "Cfg_invalidate_block_successors b G = Some G2"
    using assms(2) G2(1) by (simp add: Cfg_invalidate_block_successors_def G1_def succ_at_def)
  ultimately show ?thesis using G2 at3 by blast
qed

text \<open>
  C23: Recomputing a block after its terminator changed gives the graph that computing everything from
  scratch gives: the incremental update is equivalent to the full one.
\<close>

theorem recompute_is_compute:
  assumes "Function_ok F bs" "Cfg_compute F G0 = Some G"
    and "Function_ok F' bs" "length (blocks (fn_layout F')) = length (blocks (fn_layout F))"
    and "b \<in> set bs" "\<forall>x \<in> set bs - {b}. last_targets F' x = last_targets F x"
  shows "Cfg_recompute_block F' b G = Cfg_compute F' G1 \<and> Cfg_compute F' G1 \<noteq> None"
proof -
  let ?n = "length (blocks (fn_layout F))"
  have G: "Cfg_ok G" "cfg_valid G" "length (cfg_data G) = ?n"
    "\<forall>x < ?n. succ_at G x = (if x \<in> set bs then succ_pair (last_targets F x) else (None, None))"
    using Cfg_compute_ok [OF assms(1), of G0] assms(2) by auto
  obtain H where H: "Cfg_compute F' G1 = Some H" "Cfg_ok H" "cfg_valid H" "length (cfg_data H) = ?n"
    "\<forall>x < ?n. succ_at H x = (if x \<in> set bs then succ_pair (last_targets F' x) else (None, None))"
    using Cfg_compute_ok [OF assms(3), of G1] assms(4) by auto
  have b: "b < length (cfg_data G)" "block_ok F' b"
    using assms(3-5) G(3) by (auto simp: Function_ok_def block_ok_def)
  obtain G2 where G2: "Cfg_invalidate_block_successors b G = Some G2" "Cfg_ok G2"
    "length (cfg_data G2) = ?n" "cfg_valid G2"
    "\<forall>x < ?n. succ_at G2 x = (if x = b then (None, None) else succ_at G x)"
    using Cfg_invalidate_ok [OF G(1) b(1)] G(2,3) by auto
  obtain G3 where G3: "Cfg_compute_block F' b G2 = Some G3" "Cfg_ok G3" "length (cfg_data G3) = ?n" "cfg_valid G3"
    "\<forall>x < ?n. succ_at G3 x = (if x = b then succ_pair (last_targets F' b) else succ_at G2 x)"
    using Cfg_compute_block_ok [OF G2(2) _ b(2)] G2(3-5) assms(4) b(1) G(3) by auto
  have "G3 = H"
  proof (rule Cfg_eqI [OF G3(2) H(2)])
    fix x assume "x < length (cfg_data H)"
    then show "succ_at G3 x = succ_at H x"
      using G3(5) G2(5) G(4) H(4,5) assms(5,6) by auto
  qed (use G3 H in auto)
  with G(2) G2(1) G3(1) H(1) show ?thesis by (simp add: Cfg_recompute_block_def rust_assert_def)
qed

lemma replace_succ_ok:
  assumes "succ_wf s" "old \<in> set (Successors_iter s)" "old \<noteq> new"
  shows "\<exists>s'. replace_succ old new s = Some s' \<and> succ_wf s' \<and>
    set (Successors_iter s') = (\<lambda>x. if x = old then new else x) ` set (Successors_iter s)"
  using assms(1) by (cases rule: succ_wf_cases) (use assms(2,3) in \<open>auto simp: replace_succ_def rust_assert_def\<close>)

definition redirected :: "block \<Rightarrow> block \<Rightarrow> successors \<Rightarrow> successors" where
  "redirected old new s = (if old \<in> set (Successors_iter s) then the (replace_succ old new s) else s)"

lemma redirected_ok:
  assumes "succ_wf s" "old \<noteq> new"
  shows "succ_wf (redirected old new s)"
    and "set (Successors_iter (redirected old new s)) = (\<lambda>x. if x = old then new else x) ` set (Successors_iter s)"
proof -
  have "succ_wf (redirected old new s) \<and>
    set (Successors_iter (redirected old new s)) = (\<lambda>x. if x = old then new else x) ` set (Successors_iter s)"
  proof (cases "old \<in> set (Successors_iter s)")
    case True
    with replace_succ_ok [OF assms(1) True assms(2)] obtain s' where s': "replace_succ old new s = Some s'" "succ_wf s'"
      "set (Successors_iter s') = (\<lambda>x. if x = old then new else x) ` set (Successors_iter s)"
      by blast
    from True s'(1) have "redirected old new s = s'" by (simp add: redirected_def)
    with s'(2,3) show ?thesis by simp
  next
    case False
    then have "(\<lambda>x. if x = old then new else x) ` set (Successors_iter s) = set (Successors_iter s)" by force
    with False assms(1) show ?thesis by (simp add: redirected_def)
  qed
  then show "succ_wf (redirected old new s)"
    "set (Successors_iter (redirected old new s)) = (\<lambda>x. if x = old then new else x) ` set (Successors_iter s)"
    by simp_all
qed

lemma replace_loop_ok:
  assumes "distinct ps" "old \<noteq> new" "new < length (cfg_data G)"
    and "\<forall>p \<in> set ps. p < length (cfg_data G) \<and> succ_wf (succ_at G p) \<and> old \<in> succ_set G p"
  shows "\<exists>G'. replace_loop old new ps G = Some G' \<and> length (cfg_data G') = length (cfg_data G) \<and>
    cfg_valid G' = cfg_valid G \<and>
    (\<forall>x < length (cfg_data G).
       succ_at G' x = (if x \<in> set ps then redirected old new (succ_at G x) else succ_at G x) \<and>
       set (preds (cfg_data G' ! x)) = set (preds (cfg_data G ! x)) \<union> (if x = new then set ps else {}) \<and>
       (oset_ok (preds (cfg_data G ! x)) \<longrightarrow> oset_ok (preds (cfg_data G' ! x))))"
  using assms
proof (induction ps arbitrary: G)
  case (Cons p ps)
  let ?s = "redirected old new (succ_at G p)"
  define G1 where "G1 = G\<lparr>cfg_data := (cfg_data G)[p := (cfg_data G ! p)\<lparr>succs := ?s\<rparr>]\<rparr>"
  define G2 where "G2 = G1\<lparr>cfg_data := (cfg_data G1)[new := (cfg_data G1 ! new)\<lparr>preds := oset_insert p (preds (cfg_data G1 ! new))\<rparr>]\<rparr>"
  have p: "p < length (cfg_data G)" "old \<in> set (Successors_iter (succ_at G p))" "succ_wf (succ_at G p)"
    using Cons.prems(4) by (simp_all add: succ_set_def)
  have "replace_succ old new (succs (cfg_data G ! p)) = Some ?s"
    using replace_succ_ok [OF p(3,2) Cons.prems(2)] p(2) by (auto simp: redirected_def succ_at_def)
  then have run: "replace_loop old new (p # ps) G = replace_loop old new ps G2"
    using p(1) Cons.prems(3) by (simp add: G1_def G2_def)
  have len: "length (cfg_data G2) = length (cfg_data G)" "cfg_valid G2 = cfg_valid G" by (simp_all add: G1_def G2_def)
  have at: "succ_at G2 x = (if x = p then ?s else succ_at G x)"
    "preds (cfg_data G2 ! x) = (if x = new then oset_insert p (preds (cfg_data G ! x)) else preds (cfg_data G ! x))"
    if "x < length (cfg_data G)" for x
    using that p(1) Cons.prems(3) by (auto simp: G1_def G2_def succ_at_def nth_list_update)
  have "\<forall>q \<in> set ps. q < length (cfg_data G2) \<and> succ_wf (succ_at G2 q) \<and> old \<in> succ_set G2 q"
  proof
    fix q assume "q \<in> set ps"
    then have "q < length (cfg_data G) \<and> q \<noteq> p \<and> succ_wf (succ_at G q) \<and> old \<in> succ_set G q"
      using Cons.prems(1,4) by auto
    with at(1) [of q] len show "q < length (cfg_data G2) \<and> succ_wf (succ_at G2 q) \<and> old \<in> succ_set G2 q"
      by (simp add: succ_set_def)
  qed
  with Cons.IH [of G2] Cons.prems(1-3) len obtain G' where
    G': "replace_loop old new ps G2 = Some G'" "length (cfg_data G') = length (cfg_data G)" "cfg_valid G' = cfg_valid G"
    and after: "\<forall>x < length (cfg_data G).
       succ_at G' x = (if x \<in> set ps then redirected old new (succ_at G2 x) else succ_at G2 x) \<and>
       set (preds (cfg_data G' ! x)) = set (preds (cfg_data G2 ! x)) \<union> (if x = new then set ps else {}) \<and>
       (oset_ok (preds (cfg_data G2 ! x)) \<longrightarrow> oset_ok (preds (cfg_data G' ! x)))"
    by auto
  have "p \<notin> set ps" using Cons.prems(1) by simp
  then show ?case
    using run G' after at by (intro exI [of _ G']) auto
qed simp

text \<open>
  C24: Replacing a block by another redirects every edge into the old block to the new one and leaves
  the old block without edges; successors and predecessor sets stay in step.
\<close>

theorem replace_redirects_edges:
  assumes "Cfg_ok G" "cfg_valid G" "old \<noteq> new" "old < length (cfg_data G)" "new < length (cfg_data G)"
  shows "\<exists>G'. Cfg_replace old new G = Some G' \<and> Cfg_ok G' \<and> length (cfg_data G') = length (cfg_data G) \<and>
    preds (cfg_data G' ! old) = [] \<and>
    (\<forall>b < length (cfg_data G). succ_set G' b = (if b = old then {} else (\<lambda>s. if s = old then new else s) ` succ_set G b))"
proof -
  let ?n = "length (cfg_data G)" and ?ps = "preds (cfg_data G ! old)"
  have ps: "set ?ps = {a. a < ?n \<and> old \<in> succ_set G a}" "distinct ?ps"
    using Cfg_okD(4) [OF assms(1,4)] oset_distinct [OF Cfg_okD(1) [OF assms(1,4)]] by blast+
  have "\<forall>p \<in> set ?ps. p < ?n \<and> succ_wf (succ_at G p) \<and> old \<in> succ_set G p"
    unfolding ps(1) by (auto intro: Cfg_okD(2) [OF assms(1)])
  from replace_loop_ok [OF ps(2) assms(3,5) this]
  obtain G1 where G1: "replace_loop old new ?ps G = Some G1" "length (cfg_data G1) = ?n" "cfg_valid G1 = cfg_valid G"
    and loop: "\<forall>x < ?n. succ_at G1 x = (if x \<in> set ?ps then redirected old new (succ_at G x) else succ_at G x) \<and>
      set (preds (cfg_data G1 ! x)) = set (preds (cfg_data G ! x)) \<union> (if x = new then set ?ps else {}) \<and>
      (oset_ok (preds (cfg_data G ! x)) \<longrightarrow> oset_ok (preds (cfg_data G1 ! x)))"
    by (elim exE conjE) (rule that)
  have at1: "succ_at G1 x = (if x \<in> set ?ps then redirected old new (succ_at G x) else succ_at G x)"
    "set (preds (cfg_data G1 ! x)) = set (preds (cfg_data G ! x)) \<union> (if x = new then set ?ps else {})"
    "oset_ok (preds (cfg_data G1 ! x))" if "x < ?n" for x
    using loop [rule_format, OF that] Cfg_okD(1) [OF assms(1) that] by blast+
  define G2 where "G2 = G1\<lparr>cfg_data := (cfg_data G1)[old := (cfg_data G1 ! old)\<lparr>preds := []\<rparr>]\<rparr>"
  have len: "length (cfg_data G2) = ?n" "cfg_valid G2" using G1 assms(2) by (simp_all add: G2_def)
  have succ2: "succ_at G2 x = redirected old new (succ_at G x)" if "x < ?n" for x
    using that at1(1) [OF that] ps(1) G1(2) assms(4)
    by (auto simp: G2_def succ_at_def nth_list_update redirected_def succ_set_def)
  have pred2: "preds (cfg_data G2 ! x) = (if x = old then [] else preds (cfg_data G1 ! x))" if "x < ?n" for x
    using that G1(2) by (auto simp: G2_def nth_list_update)
  have set2: "succ_set G2 x = (\<lambda>s. if s = old then new else s) ` succ_set G x" if "x < ?n" for x
    using redirected_ok(2) [OF Cfg_okD(2) [OF assms(1) that] assms(3)] succ2 [OF that] by (simp add: succ_set_def)
  have "Cfg_ok G2"
    unfolding Cfg_ok_def len
  proof (intro allI impI conjI)
    fix b assume b: "b < ?n"
    show "oset_ok (preds (cfg_data G2 ! b))" using pred2 [OF b] at1(3) [OF b] by simp
    show "succ_wf (succ_at G2 b)"
      using redirected_ok(1) [OF Cfg_okD(2) [OF assms(1) b] assms(3)] succ2 [OF b] by simp
    show "succ_set G2 b \<subseteq> {..<?n}" using set2 [OF b] Cfg_okD(3) [OF assms(1) b] assms(5) by auto
    have "set (preds (cfg_data G2 ! b)) = (if b = old then {} else
        {a. a < ?n \<and> b \<in> succ_set G a} \<union> (if b = new then {a. a < ?n \<and> old \<in> succ_set G a} else {}))"
      using pred2 [OF b] at1(2) [OF b] ps(1) Cfg_okD(4) [OF assms(1) b] by simp
    also have "\<dots> = {a. a < ?n \<and> b \<in> succ_set G2 a}"
      using set2 assms(3) by (auto split: if_splits simp: image_iff)
    finally show "set (preds (cfg_data G2 ! b)) = {a. a < ?n \<and> b \<in> succ_set G2 a}" .
  qed
  then obtain G3 where G3: "Cfg_invalidate_block_successors old G2 = Some G3" "Cfg_ok G3" "length (cfg_data G3) = ?n"
    "\<forall>x < ?n. succ_at G3 x = (if x = old then (None, None) else succ_at G2 x)"
    using Cfg_invalidate_ok [of G2 old] assms(4) len by auto
  have set3: "succ_set G3 x = (if x = old then {} else (\<lambda>s. if s = old then new else s) ` succ_set G x)" if "x < ?n" for x
    using G3(4) set2 [OF that] that by (simp add: succ_set_def)
  have "set (preds (cfg_data G3 ! old)) = {}"
    using Cfg_okD(4) [OF G3(2), of old] assms(3,4) G3(3) set3 by (auto split: if_splits)
  moreover have "Cfg_replace old new G = Some G3"
    using assms(2-4) G1(1,2) G3(1) by (simp add: Cfg_replace_def rust_assert_def G2_def)
  ultimately show ?thesis using G3(2,3) set3 by auto
qed

text \<open>Block 0 jumps to \<open>d\<close>, block 1 holds a phi; block 2 is not inserted.\<close>

abbreviation jump_to :: "block \<Rightarrow> instruction_data list" where
  "jump_to d \<equiv> [Unary OpFneg 3, Jump d, PhiNode phi_of_0]"

lemma last_inst_ok:
  assumes "Layout_ok L bs ils" "b \<in> set bs"
  shows "Layout_last_inst L b = Some (last_of None (ils b))"
  using block_terminator_ok [OF assms] insts_dll(3) [OF assms] by (simp add: Layout_last_inst_def Layout_block_terminator_def node_links)

lemma jump_to_function:
  assumes "Layout_ok L [0, 1] ((\<lambda>_. [])(0 := [0, 1], 1 := [2]))" "length (blocks L) = 3" "d < 3"
  shows "Function_ok (decl_function (jump_to d) L) [0, 1]"
    and "last_targets (decl_function (jump_to d) L) 0 = [d]" "last_targets (decl_function (jump_to d) L) 1 = []"
proof -
  have "Layout_last_inst L 0 = Some (Some 1)" "Layout_last_inst L 1 = Some (Some 2)"
    using last_inst_ok [OF assms(1)] by (simp_all add: last_of_def)
  then show "last_targets (decl_function (jump_to d) L) 0 = [d]" "last_targets (decl_function (jump_to d) L) 1 = []"
    "Function_ok (decl_function (jump_to d) L) [0, 1]"
    using assms by (auto simp: last_targets_def decl_function_def Function_ok_def block_ok_def)
qed

theorem compute_graph_witness:
  "\<exists>L G. Cfg_compute (decl_function (jump_to 1) L) Cfg_new = Some G \<and> length (cfg_data G) = 3 \<and>
     succ_set G 0 = {1} \<and> set (preds (cfg_data G ! 1)) = {0}"
proof -
  obtain L where L: "Layout_ok L [0, 1] ((\<lambda>_. [])(0 := [0, 1], 1 := [2]))" "length (blocks L) = 3"
    using two_blocks_layout by blast
  have "(1::nat) < 3" by simp
  note F = jump_to_function [OF L this]
  obtain G where G: "Cfg_compute (decl_function (jump_to 1) L) Cfg_new = Some G"
    "length (cfg_data G) = length (blocks (fn_layout (decl_function (jump_to 1) L)))"
    "\<forall>b < length (cfg_data G). succ_set G b = (if b \<in> set [0, 1] then set (last_targets (decl_function (jump_to 1) L) b) else {}) \<and>
       set (preds (cfg_data G ! b)) = {a \<in> set [0, 1]. b \<in> set (last_targets (decl_function (jump_to 1) L) a)}"
    using compute_graph [OF F(1), of Cfg_new] by blast
  have "length (cfg_data G) = 3" using G(2) L(2) by (simp add: decl_function_def)
  with G(3) F(2,3) have "succ_set G 0 = {1}" "set (preds (cfg_data G ! 1)) = {0}" by auto
  with G(1) \<open>length (cfg_data G) = 3\<close> show ?thesis by blast
qed

theorem recompute_is_compute_witness:
  "\<exists>L G. Cfg_compute (decl_function (jump_to 1) L) Cfg_new = Some G \<and>
     Cfg_recompute_block (decl_function (jump_to 0) L) 0 G = Cfg_compute (decl_function (jump_to 0) L) Cfg_new \<and>
     Cfg_compute (decl_function (jump_to 0) L) Cfg_new \<noteq> None"
proof -
  obtain L where L: "Layout_ok L [0, 1] ((\<lambda>_. [])(0 := [0, 1], 1 := [2]))" "length (blocks L) = 3"
    using two_blocks_layout by blast
  have "(1::nat) < 3" "(0::nat) < 3" by simp_all
  note F = jump_to_function [OF L this(1)] and F' = jump_to_function [OF L this(2)]
  obtain G where G: "Cfg_compute (decl_function (jump_to 1) L) Cfg_new = Some G" using Cfg_compute_ok [OF F(1)] by blast
  have "length (blocks (fn_layout (decl_function (jump_to 0) L))) = length (blocks (fn_layout (decl_function (jump_to 1) L)))"
    by (simp add: decl_function_def)
  from recompute_is_compute [OF F(1) G F'(1) this, of 0 Cfg_new] F(3) F'(3) G show ?thesis by auto
qed

theorem replace_redirects_edges_witness:
  "\<exists>G'. Cfg_replace 1 2 \<lparr>cfg_data = [\<lparr>preds = [], succs = (Some 1, Some 2)\<rparr>,
       \<lparr>preds = [0], succs = (Some 2, None)\<rparr>, \<lparr>preds = [0, 1], succs = (None, None)\<rparr>], cfg_valid = True\<rparr> = Some G' \<and>
     Cfg_ok G' \<and> succ_set G' 0 = {2} \<and> succ_set G' 1 = {}"
proof -
  define G where "G = \<lparr>cfg_data = [\<lparr>preds = [], succs = (Some 1, Some 2)\<rparr>,
       \<lparr>preds = [0], succs = (Some 2, None)\<rparr>, \<lparr>preds = [0, 1], succs = (None, None)\<rparr>], cfg_valid = True\<rparr>"
  have at: "succ_set G 0 = {1, 2}" "succ_set G 1 = {2}" "succ_set G 2 = {}"
    by (auto simp: G_def succ_set_def succ_at_def)
  have "\<forall>b < 3. oset_ok (preds (cfg_data G ! b)) \<and> succ_wf (succ_at G b) \<and> succ_set G b \<subseteq> {..<3} \<and>
     set (preds (cfg_data G ! b)) = {a. a < 3 \<and> b \<in> succ_set G a}"
  proof (intro allI impI)
    have lt3: "x < 3 \<longleftrightarrow> x = 0 \<or> x = 1 \<or> x = 2" for x :: nat by linarith
    have edge: "a < 3 \<and> x \<in> succ_set G a \<longleftrightarrow> a = 0 \<and> (x = 1 \<or> x = 2) \<or> a = 1 \<and> x = 2" for a x
      using at lt3 [of a] by (cases "a = 0"; cases "a = 1"; cases "a = 2") simp_all
    have converse: "{a. a < 3 \<and> x \<in> succ_set G a} = {a. a = 0 \<and> (x = 1 \<or> x = 2) \<or> a = 1 \<and> x = 2}" for x
      unfolding edge ..
    fix b :: nat assume "b < 3"
    then consider "b = 0" | "b = 1" | "b = 2" using lt3 [of b] by blast
    then show "oset_ok (preds (cfg_data G ! b)) \<and> succ_wf (succ_at G b) \<and> succ_set G b \<subseteq> {..<3} \<and>
        set (preds (cfg_data G ! b)) = {a. a < 3 \<and> b \<in> succ_set G a}"
      unfolding converse using at by cases (auto simp: G_def succ_at_def oset_ok_def)
  qed
  moreover have "length (cfg_data G) = 3" by (simp add: G_def)
  ultimately have "Cfg_ok G" by (simp only: Cfg_ok_def)
  from replace_redirects_edges [OF this, of 1 2] at show ?thesis by (auto simp: G_def)
qed

end
