(* ===== verification/Dominance.thy ===== *)
theory Dominance
  imports Prelude
begin

text \<open>
  Dominance in a rooted graph, and the iteration of Cooper, Harvey and Kennedy on parent links. This
  is the mathematics behind the theory Dominators: dominators by walks from the root, the ancestors of
  a node along parent links, and what one update of a parent preserves and gains.
\<close>

section \<open>Walks and dominators\<close>

text \<open>A walk lists its nodes from its end back to the root.\<close>

fun walk :: "(nat \<Rightarrow> nat set) \<Rightarrow> nat \<Rightarrow> nat list \<Rightarrow> bool" where
  "walk S r [] \<longleftrightarrow> False"
| "walk S r [x] \<longleftrightarrow> x = r"
| "walk S r (x # p # ps) \<longleftrightarrow> x \<in> S p \<and> walk S r (p # ps)"

definition reached :: "(nat \<Rightarrow> nat set) \<Rightarrow> nat \<Rightarrow> nat set" where
  "reached S r = {x. \<exists>ps. walk S r (x # ps)}"

definition dominator_of :: "(nat \<Rightarrow> nat set) \<Rightarrow> nat \<Rightarrow> nat \<Rightarrow> nat \<Rightarrow> bool" where
  "dominator_of S r d x \<longleftrightarrow> (\<forall>ps. walk S r (x # ps) \<longrightarrow> d \<in> set (x # ps))"

lemma walk_suffix: "walk S r (xs @ y # ys) \<Longrightarrow> walk S r (y # ys)"
proof (induction xs)
  case (Cons x xs)
  then show ?case by (cases xs) auto
qed simp

lemma walk_set: "walk S r ps \<Longrightarrow> set ps \<subseteq> reached S r"
proof
  fix x assume "walk S r ps" "x \<in> set ps"
  then obtain xs ys where "ps = xs @ x # ys" by (auto simp: in_set_conv_decomp)
  with \<open>walk S r ps\<close> walk_suffix [of S r xs x ys] show "x \<in> reached S r" by (auto simp: reached_def)
qed

lemma reached_root [simp, intro]: "r \<in> reached S r"
  using walk.simps(2) [of S r r] unfolding reached_def by blast

lemma reached_succ: "p \<in> reached S r \<Longrightarrow> x \<in> S p \<Longrightarrow> x \<in> reached S r"
proof -
  assume "p \<in> reached S r" "x \<in> S p"
  then obtain ps where "walk S r (x # p # ps)" by (auto simp: reached_def)
  then show ?thesis by (auto simp only: reached_def)
qed

lemma reached_least:
  assumes "r \<in> A" "\<And>p x. p \<in> A \<Longrightarrow> x \<in> S p \<Longrightarrow> x \<in> A"
  shows "reached S r \<subseteq> A"
proof -
  have "x \<in> A" if "walk S r (x # ps)" for x ps
    using that
  proof (induction ps arbitrary: x)
    case (Cons p ps)
    with assms(2) show ?case by auto
  qed (simp add: assms(1))
  then show ?thesis by (auto simp: reached_def)
qed

lemma reached_pred:
  assumes "x \<in> reached S r" "x \<noteq> r"
  obtains p where "p \<in> reached S r" "x \<in> S p"
proof -
  obtain ps where "walk S r (x # ps)" using assms(1) by (auto simp: reached_def)
  with assms(2) that show thesis by (cases ps) (auto simp: reached_def)
qed

text \<open>Every walk contains one that visits no node twice.\<close>

lemma walk_simple:
  assumes "walk S r (x # ps)"
  shows "\<exists>qs. walk S r (x # qs) \<and> distinct (x # qs) \<and> set (x # qs) \<subseteq> set (x # ps)"
  using assms
proof (induction ps arbitrary: x)
  case Nil
  then show ?case by (intro exI [of _ "[]"]) simp
next
  case (Cons p ps)
  then obtain qs where qs: "walk S r (p # qs)" "distinct (p # qs)" "set (p # qs) \<subseteq> set (p # ps)"
    using Cons.prems by auto
  show ?case
  proof (cases "x \<in> set (p # qs)")
    case True
    then obtain as bs where ab: "p # qs = as @ x # bs" by (auto simp only: in_set_conv_decomp)
    have "walk S r (x # bs)" using walk_suffix [of S r as x bs] qs(1) ab by simp
    moreover have "distinct (x # bs)" "set (x # bs) \<subseteq> set (p # qs)" using qs(2) unfolding ab by auto
    ultimately show ?thesis using qs(3) by (intro exI [of _ bs]) auto
  next
    case False
    then show ?thesis using qs Cons.prems by (intro exI [of _ "p # qs"]) auto
  qed
qed

lemma walk_root: "walk S r ps \<Longrightarrow> r \<in> set ps"
  by (induction S r ps rule: walk.induct) auto

lemma dominator_refl [simp]: "dominator_of S r x x"
  by (simp add: dominator_of_def)

lemma dominator_pred:
  assumes "dominator_of S r d x" "x \<in> S p" "d \<noteq> x"
  shows "dominator_of S r d p"
  unfolding dominator_of_def
proof (intro allI impI)
  fix ps assume "walk S r (p # ps)"
  then have "walk S r (x # p # ps)" using assms(2) by simp
  then have "d \<in> set (x # p # ps)" using assms(1) unfolding dominator_of_def by blast
  then show "d \<in> set (p # ps)" using assms(3) by simp
qed

lemma dominator_root: "dominator_of S r d r \<longleftrightarrow> d = r"
proof
  assume "dominator_of S r d r"
  moreover have "walk S r (r # [])" by simp
  ultimately have "d \<in> set (r # [])" unfolding dominator_of_def by blast
  then show "d = r" by simp
qed simp

lemma dominator_reached:
  assumes "dominator_of S r d x" "x \<in> reached S r"
  shows "d \<in> reached S r"
proof -
  obtain ps where ps: "walk S r (x # ps)" using assms(2) by (auto simp: reached_def)
  then have "d \<in> set (x # ps)" using assms(1) by (auto simp: dominator_of_def)
  with walk_set [OF ps] show ?thesis by blast
qed

section \<open>Ancestors along parent links\<close>

definition anc :: "(nat \<Rightarrow> nat option) \<Rightarrow> nat \<Rightarrow> nat set" where
  "anc par x = {y. (x, y) \<in> {(a, b). par a = Some b}\<^sup>*}"

lemma anc_refl [simp, intro]: "x \<in> anc par x"
  by (simp add: anc_def)

lemma anc_trans: "y \<in> anc par x \<Longrightarrow> z \<in> anc par y \<Longrightarrow> z \<in> anc par x"
  by (auto simp: anc_def)

lemma anc_Some: "par x = Some q \<Longrightarrow> anc par x = insert x (anc par q)"
  unfolding anc_def by (auto elim: converse_rtranclE intro: converse_rtrancl_into_rtrancl)

lemma anc_None: "par x = None \<Longrightarrow> anc par x = {x}"
  unfolding anc_def by (auto elim: converse_rtranclE)

lemma anc_induct [consumes 1, case_names here up]:
  assumes "z \<in> anc par y" "P z" "\<And>y q. par y = Some q \<Longrightarrow> z \<in> anc par q \<Longrightarrow> P q \<Longrightarrow> P y"
  shows "P y"
proof -
  have "(y, z) \<in> {(a, b). par a = Some b}\<^sup>*" using assms(1) by (simp add: anc_def)
  then show ?thesis
    by (induction rule: converse_rtrancl_induct) (auto simp: assms(2) anc_def intro: assms(3))
qed

text \<open>The effect of a new parent of \<open>x\<close> on the ancestors.\<close>

lemma anc_update:
  assumes "z \<in> anc (par(x := Some q)) y"
  shows "z \<in> anc par y \<or> (x \<in> anc par y \<and> z \<in> anc (par(x := Some q)) x)"
  using assms
proof (induction rule: anc_induct)
  case (up y p)
  show ?case
  proof (cases "y = x")
    case True
    have "z \<in> anc (par(x := Some q)) y" using anc_Some [of "par(x := Some q)" y p] up(1,2) by simp
    then show ?thesis unfolding True by blast
  next
    case False
    then have "par y = Some p" using up(1) by simp
    with up(3) show ?thesis by (auto simp: anc_Some)
  qed
qed simp

lemma anc_keep:
  assumes "z \<in> anc par y"
  shows "z \<in> anc (par(x := Some q)) y \<or> (x \<in> anc par y \<and> z \<in> anc par x \<and> z \<noteq> x)"
  using assms
proof (induction rule: anc_induct)
  case (up y p)
  show ?case
  proof (cases "y = x")
    case True
    then show ?thesis using up(1,2) by (cases "z = x") (auto simp: anc_Some)
  next
    case False
    then have "(par(x := Some q)) y = Some p" using up(1) by simp
    with up show ?thesis by (auto simp: anc_Some)
  qed
qed simp

lemma anc_of_update:
  assumes "x \<notin> anc par y"
  shows "anc (par(x := Some q)) y = anc par y"
  using anc_update [of _ par x q y] anc_keep [of _ par y x q] assms by blast

section \<open>Ranked graphs\<close>

text \<open>
  The reverse post-order numbers: every node but the root has a predecessor with a smaller number.
\<close>

definition ranked :: "(nat \<Rightarrow> nat set) \<Rightarrow> nat \<Rightarrow> (nat \<Rightarrow> nat) \<Rightarrow> bool" where
  "ranked S r num \<longleftrightarrow> finite (reached S r) \<and> inj_on num (reached S r) \<and>
     (\<forall>x \<in> reached S r. x \<noteq> r \<longrightarrow> num r < num x \<and> (\<exists>p \<in> reached S r. x \<in> S p \<and> num p < num x))"

lemma rankedD:
  assumes "ranked S r num"
  shows "finite (reached S r)" "inj_on num (reached S r)"
    "x \<in> reached S r \<Longrightarrow> x \<noteq> r \<Longrightarrow> num r < num x"
    "x \<in> reached S r \<Longrightarrow> x \<noteq> r \<Longrightarrow> \<exists>p \<in> reached S r. x \<in> S p \<and> num p < num x"
  using assms by (auto simp: ranked_def)

text \<open>
  The parent links over the nodes \<open>A\<close>: every node of \<open>A\<close> but the root has a parent in \<open>A\<close> with a
  smaller number, such that a dominator with a yet smaller number dominates the parent, and its
  dominators are among its ancestors.
\<close>

definition links_ok :: "(nat \<Rightarrow> nat set) \<Rightarrow> nat \<Rightarrow> (nat \<Rightarrow> nat) \<Rightarrow> nat set \<Rightarrow> (nat \<Rightarrow> nat option) \<Rightarrow> bool" where
  "links_ok S r num A par \<longleftrightarrow> r \<in> A \<and> A \<subseteq> reached S r \<and> par r = None \<and>
     (\<forall>x \<in> A. (x \<noteq> r \<longrightarrow> (\<exists>q \<in> A. par x = Some q \<and> num q < num x \<and>
         (\<forall>d. num d < num q \<longrightarrow> dominator_of S r d x \<longrightarrow> dominator_of S r d q))) \<and>
       (\<forall>d. dominator_of S r d x \<longrightarrow> d \<in> anc par x))"

lemma links_okD:
  assumes "links_ok S r num A par"
  shows "r \<in> A" "A \<subseteq> reached S r" "par r = None"
    "x \<in> A \<Longrightarrow> x \<noteq> r \<Longrightarrow> \<exists>q \<in> A. par x = Some q \<and> num q < num x \<and>
       (\<forall>d. num d < num q \<longrightarrow> dominator_of S r d x \<longrightarrow> dominator_of S r d q)"
    "x \<in> A \<Longrightarrow> dominator_of S r d x \<Longrightarrow> d \<in> anc par x"
  using assms unfolding links_ok_def by blast+

lemma links_parent:
  assumes "links_ok S r num A par" "x \<in> A" "par x = Some q"
  shows "x \<noteq> r" "q \<in> A" "num q < num x"
    "num d < num q \<Longrightarrow> dominator_of S r d x \<Longrightarrow> dominator_of S r d q"
proof -
  show x: "x \<noteq> r" using assms(3) links_okD(3) [OF assms(1)] by auto
  show "q \<in> A" "num q < num x" "num d < num q \<Longrightarrow> dominator_of S r d x \<Longrightarrow> dominator_of S r d q"
    using links_okD(4) [OF assms(1,2) x] assms(3) by auto
qed

lemma anc_lower:
  assumes "links_ok S r num A par" "z \<in> anc par y" "y \<in> A"
  shows "z \<in> A \<and> num z \<le> num y"
  using assms(2,3)
proof (induction rule: anc_induct)
  case (up y q)
  with links_parent [OF assms(1) up(4,1)] show ?case by auto
qed simp

text \<open>A dominator with a smaller number than an ancestor dominates the ancestor.\<close>

lemma anc_dominator:
  assumes "links_ok S r num A par" "z \<in> anc par y" "y \<in> A" "num d < num z" "dominator_of S r d y"
  shows "dominator_of S r d z"
  using assms(2,3,5)
proof (induction rule: anc_induct)
  case (up y q)
  have q: "q \<in> A" by (rule links_parent(2) [OF assms(1) up(4,1)])
  have "num z \<le> num q" using anc_lower [OF assms(1) up(2) q] by simp
  then have "dominator_of S r d q" using links_parent(4) [OF assms(1) up(4,1), of d] assms(4) up(5) by simp
  with up(3) q show ?case by simp
qed simp

text \<open>The walk of \<open>common_dominator\<close>: stepping up from the node with the larger number.\<close>

lemma anc_common_step:
  assumes "links_ok S r num A par" "a \<in> A" "b \<in> A" "num a < num b" "par b = Some q"
  shows "anc par a \<inter> anc par b = anc par a \<inter> anc par q"
proof -
  have "b \<notin> anc par a" using anc_lower [OF assms(1) _ assms(2)] assms(4) by force
  then show ?thesis using anc_Some [of par b q] assms(5) by auto
qed

text \<open>
  The update of one parent: the nearest common ancestor \<open>q\<close> of predecessors \<open>P\<close> of \<open>x\<close>. One of the
  predecessors has a smaller number than \<open>x\<close>.
\<close>

lemma links_update:
  assumes "ranked S r num" "links_ok S r num A par"
    and "x \<in> reached S r" "x \<noteq> r" "P \<subseteq> A" "\<And>p. p \<in> P \<Longrightarrow> x \<in> S p" "p0 \<in> P" "num p0 < num x"
    and "q \<in> A" "anc par q = (\<Inter>p \<in> P. anc par p)"
  shows "links_ok S r num (insert x A) (par(x := Some q))" and "num q < num x" and "x \<notin> anc par q"
    and "anc (par(x := Some q)) x = insert x (\<Inter>p \<in> P. anc par p)"
proof -
  let ?par = "par(x := Some q)"
  have q: "q \<in> anc par p" if "p \<in> P" for p using assms(10) anc_refl [of q par] that by blast
  have "num q \<le> num p0" using anc_lower [OF assms(2) q [OF assms(7)]] assms(5,7) by auto
  with assms(8) show lt: "num q < num x" by simp
  show notin: "x \<notin> anc par q" using anc_lower [OF assms(2) _ assms(9), of x] lt by auto
  show ancx: "anc ?par x = insert x (\<Inter>p \<in> P. anc par p)"
    using anc_Some [of ?par x q] anc_of_update [OF notin] assms(10) by simp
  have up: "dominator_of S r d q" if "num d < num q" "dominator_of S r d x" for d
  proof -
    have "d \<noteq> x" using that(1) lt by auto
    then have "dominator_of S r d p0" using dominator_pred [OF that(2) assms(6) [OF assms(7)]] by simp
    then show ?thesis using anc_dominator [OF assms(2) q [OF assms(7)]] assms(5,7) that(1) by blast
  qed
  have domx: "d \<in> anc ?par x" if "dominator_of S r d x" for d
  proof (cases "d = x")
    case False
    then have "d \<in> anc par p" if "p \<in> P" for p
      using links_okD(5) [OF assms(2)] dominator_pred [OF \<open>dominator_of S r d x\<close> assms(6) [OF that]] assms(5) that by blast
    then show ?thesis using ancx by simp
  qed simp
  have domy: "d \<in> anc ?par y" if "y \<in> A" "dominator_of S r d y" for d y
  proof -
    have "d \<in> anc par y" by (rule links_okD(5) [OF assms(2) that])
    then consider "d \<in> anc ?par y" | "x \<in> anc par y" "d \<in> anc par x" "d \<noteq> x" using anc_keep by blast
    then show ?thesis
    proof cases
      case 2
      have x: "x \<in> A" using anc_lower [OF assms(2) 2(1) that(1)] by simp
      have d: "d \<in> A" "num d \<le> num x" using anc_lower [OF assms(2) 2(2) x] by simp_all
      have "num d \<noteq> num x"
        using inj_onD [OF rankedD(2) [OF assms(1)], of d x] d(1) 2(3) assms(3) links_okD(2) [OF assms(2)] by blast
      then have "dominator_of S r d x" using anc_dominator [OF assms(2) 2(1) that(1) _ that(2)] d(2) by simp
      then have "d \<in> anc ?par x" by (rule domx)
      moreover have "x \<in> anc ?par y" using anc_keep [OF 2(1), of x q] by auto
      ultimately show ?thesis by (rule anc_trans [rotated])
    qed
  qed
  show "links_ok S r num (insert x A) ?par"
    unfolding links_ok_def
  proof (intro conjI ballI impI allI)
    show "r \<in> insert x A" "insert x A \<subseteq> reached S r" "?par r = None"
      using links_okD(1-3) [OF assms(2)] assms(3,4) by auto
  next
    fix y assume y: "y \<in> insert x A" "y \<noteq> r"
    show "\<exists>q' \<in> insert x A. ?par y = Some q' \<and> num q' < num y \<and>
        (\<forall>d. num d < num q' \<longrightarrow> dominator_of S r d y \<longrightarrow> dominator_of S r d q')"
    proof (cases "y = x")
      case True
      then show ?thesis using lt up assms(9) by auto
    next
      case False
      then show ?thesis using links_okD(4) [OF assms(2), of y] y by auto
    qed
  next
    fix y d assume "y \<in> insert x A" "dominator_of S r d y"
    then show "d \<in> anc ?par y" using domx domy by blast
  qed
qed

section \<open>Convergence\<close>

text \<open>The ancestors lie on every walk of at most \<open>f x\<close> nodes.\<close>

definition converged :: "(nat \<Rightarrow> nat set) \<Rightarrow> nat \<Rightarrow> (nat \<Rightarrow> nat) \<Rightarrow> (nat \<Rightarrow> nat option) \<Rightarrow> bool" where
  "converged S r f par \<longleftrightarrow> (\<forall>x ps. walk S r (x # ps) \<longrightarrow> length (x # ps) \<le> f x \<longrightarrow> anc par x \<subseteq> set (x # ps))"

lemma convergedD: "converged S r f par \<Longrightarrow> walk S r (x # ps) \<Longrightarrow> length (x # ps) \<le> f x \<Longrightarrow> anc par x \<subseteq> set (x # ps)"
  unfolding converged_def by blast

lemma converged_0: "converged S r (\<lambda>_. 0) par"
  by (simp add: converged_def)

lemma converged_update:
  assumes "converged S r f par" "x \<noteq> r" "\<And>y. m \<le> f y \<and> f y \<le> Suc m"
    and "anc (par(x := Some q)) x = insert x (\<Inter>p \<in> P. anc par p)" "P = {p \<in> reached S r. x \<in> S p}"
  shows "converged S r (f(x := Suc m)) (par(x := Some q))"
proof -
  let ?par = "par(x := Some q)"
  have at_x: "anc ?par x \<subseteq> set (x # ps)" if w: "walk S r (x # ps)" "length (x # ps) \<le> Suc m" for ps
  proof -
    obtain p qs where ps: "ps = p # qs" using w(1) assms(2) by (cases ps) auto
    then have "walk S r (p # qs)" "x \<in> S p" "length (p # qs) \<le> f p" using w assms(3) [of p] by auto
    moreover from this have "p \<in> P" using assms(5) by (auto simp: reached_def)
    ultimately show ?thesis using convergedD [OF assms(1), of p qs] assms(4) ps by auto
  qed
  have at_y: "anc ?par y \<subseteq> set (y # ps)" if w: "walk S r (y # ps)" "length (y # ps) \<le> f y" for y ps
  proof
    fix z assume "z \<in> anc ?par y"
    then consider "z \<in> anc par y" | "x \<in> anc par y" "z \<in> anc ?par x" using anc_update by blast
    then show "z \<in> set (y # ps)"
    proof cases
      case 1
      then show ?thesis using convergedD [OF assms(1) w] by blast
    next
      case 2
      then have "x \<in> set (y # ps)" using convergedD [OF assms(1) w] by blast
      then obtain as bs where ab: "y # ps = as @ x # bs" by (auto simp only: in_set_conv_decomp)
      have "walk S r (x # bs)" using walk_suffix [of S r as x bs] w(1) ab by simp
      moreover have "length (x # bs) \<le> Suc m" using arg_cong [OF ab, of length] w(2) assms(3) [of y] by simp
      ultimately have "z \<in> set (x # bs)" using at_x 2(2) by blast
      then show ?thesis unfolding ab by auto
    qed
  qed
  show ?thesis
    unfolding converged_def using at_x at_y by auto
qed

text \<open>Once walks as long as the number of nodes are covered, the ancestors are the dominators.\<close>

lemma converged_dominators:
  assumes "ranked S r num" "links_ok S r num (reached S r) par" "converged S r (\<lambda>_. m) par" "card (reached S r) \<le> m"
    and "x \<in> reached S r"
  shows "anc par x = {d. dominator_of S r d x}"
proof
  show "{d. dominator_of S r d x} \<subseteq> anc par x" using links_okD(5) [OF assms(2,5)] by blast
  show "anc par x \<subseteq> {d. dominator_of S r d x}"
  proof
    fix d assume d: "d \<in> anc par x"
    have "d \<in> set (x # ps)" if w: "walk S r (x # ps)" for ps
    proof -
      obtain qs where qs: "walk S r (x # qs)" "distinct (x # qs)" "set (x # qs) \<subseteq> set (x # ps)"
        using walk_simple [OF w] by blast
      have "length (x # qs) \<le> card (reached S r)"
        using card_mono [OF rankedD(1) [OF assms(1)] walk_set [OF qs(1)]] distinct_card [OF qs(2)] by simp
      then have "anc par x \<subseteq> set (x # qs)" using convergedD [OF assms(3) qs(1)] assms(4) by simp
      with d qs(3) show ?thesis by blast
    qed
    then show "d \<in> {d. dominator_of S r d x}" by (simp add: dominator_of_def)
  qed
qed

text \<open>A parent is determined by the ancestors.\<close>

lemma anc_inj:
  assumes "links_ok S r num A par" "ranked S r num" "q \<in> A" "q' \<in> A" "anc par q = anc par q'"
  shows "q = q'"
proof -
  have "num q \<le> num q'" using anc_lower [OF assms(1) _ assms(4), of q] assms(5) anc_refl [of q par] by auto
  moreover have "num q' \<le> num q" using anc_lower [OF assms(1) _ assms(3), of q'] assms(5) anc_refl [of q' par] by auto
  ultimately have "num q = num q'" by simp
  with inj_onD [OF rankedD(2) [OF assms(2)]] assms(3,4) links_okD(2) [OF assms(1)] show ?thesis by blast
qed

text \<open>When the ancestors are the dominators, an update computes the parent that is there.\<close>

lemma update_stable:
  assumes "ranked S r num" "links_ok S r num (reached S r) par" "\<And>y. y \<in> reached S r \<Longrightarrow> anc par y = {d. dominator_of S r d y}"
    and "x \<in> reached S r" "x \<noteq> r" "q \<in> reached S r" "anc par q = (\<Inter>p \<in> {p \<in> reached S r. x \<in> S p}. anc par p)"
  shows "par x = Some q"
proof -
  obtain q' where q': "q' \<in> reached S r" "par x = Some q'" "num q' < num x"
    using links_okD(4) [OF assms(2,4,5)] by blast
  have "anc par q' = {d. dominator_of S r d x} - {x}"
  proof -
    have "x \<notin> anc par q'" using anc_lower [OF assms(2) _ q'(1), of x] q'(3) by auto
    then show ?thesis using assms(3) [OF assms(4)] anc_Some [of par x q'] q'(2) by auto
  qed
  also have "\<dots> = (\<Inter>p \<in> {p \<in> reached S r. x \<in> S p}. anc par p)"
  proof -
    obtain p0 where p0: "p0 \<in> reached S r" "x \<in> S p0" "num p0 < num x" using rankedD(4) [OF assms(1,4,5)] by blast
    have notx: "x \<notin> anc par p0" using anc_lower [OF assms(2) _ p0(1), of x] p0(3) by auto
    have below: "dominator_of S r d p" if "dominator_of S r d x" "d \<noteq> x" "x \<in> S p" for d p
      using dominator_pred [OF that(1,3,2)] .
    have above: "dominator_of S r d x" if d: "\<forall>p \<in> reached S r. x \<in> S p \<longrightarrow> dominator_of S r d p" for d
      unfolding dominator_of_def
    proof (intro allI impI)
      fix ps assume w: "walk S r (x # ps)"
      then obtain p qs where ps: "ps = p # qs" using assms(5) by (cases ps) auto
      then have "walk S r (p # qs)" "x \<in> S p" using w by auto
      moreover from this have "p \<in> reached S r" by (auto simp: reached_def)
      ultimately have "d \<in> set (p # qs)" using d by (auto simp: dominator_of_def)
      with ps show "d \<in> set (x # ps)" by simp
    qed
    show ?thesis
    proof (intro set_eqI iffI)
      fix d assume d: "d \<in> {d. dominator_of S r d x} - {x}"
      then show "d \<in> (\<Inter>p \<in> {p \<in> reached S r. x \<in> S p}. anc par p)" using assms(3) below by simp
    next
      fix d assume d: "d \<in> (\<Inter>p \<in> {p \<in> reached S r. x \<in> S p}. anc par p)"
      then have "\<forall>p \<in> reached S r. x \<in> S p \<longrightarrow> dominator_of S r d p" using assms(3) by simp
      moreover have "d \<noteq> x" using d p0(1,2) notx by auto
      ultimately show "d \<in> {d. dominator_of S r d x} - {x}" using above by simp
    qed
  qed
  finally have "q' = q" using anc_inj [OF assms(2,1) q'(1) assms(6)] assms(7) by simp
  with q'(2) show ?thesis by simp
qed

section \<open>Post-order lists\<close>

text \<open>
  What the traversals build, the part that is finished followed by the stack: no node twice, the root
  last, and every other node with a predecessor later in the list.
\<close>

fun tree_listed :: "(nat \<Rightarrow> nat set) \<Rightarrow> nat \<Rightarrow> nat list \<Rightarrow> bool" where
  "tree_listed S r [] \<longleftrightarrow> False"
| "tree_listed S r [x] \<longleftrightarrow> x = r"
| "tree_listed S r (x # y # ys) \<longleftrightarrow> x \<notin> set (y # ys) \<and> (\<exists>p \<in> set (y # ys). x \<in> S p) \<and> tree_listed S r (y # ys)"

lemma tree_listed_Cons:
  "ys \<noteq> [] \<Longrightarrow> tree_listed S r (x # ys) \<longleftrightarrow> x \<notin> set ys \<and> (\<exists>p \<in> set ys. x \<in> S p) \<and> tree_listed S r ys"
  by (cases ys) simp_all

lemma tree_listed_distinct: "tree_listed S r ps \<Longrightarrow> distinct ps"
  by (induction S r ps rule: tree_listed.induct) auto

lemma tree_listed_last: "tree_listed S r ps \<Longrightarrow> ps \<noteq> [] \<and> last ps = r"
  by (induction S r ps rule: tree_listed.induct) auto

lemma tree_listed_reached: "tree_listed S r ps \<Longrightarrow> set ps \<subseteq> reached S r"
proof (induction S r ps rule: tree_listed.induct)
  case (3 S r x y ys)
  then obtain p where "p \<in> reached S r" "x \<in> S p" by auto
  then have "x \<in> reached S r" by (rule reached_succ)
  with 3 show ?case by simp
qed auto

lemma tree_listed_suffix: "tree_listed S r (us @ vs) \<Longrightarrow> vs \<noteq> [] \<Longrightarrow> tree_listed S r vs"
  by (induction us) (auto simp: tree_listed_Cons)

lemma tree_listed_insert:
  assumes "tree_listed S r (us @ vs)" "vs \<noteq> []" "b \<notin> set (us @ vs)" "p \<in> set vs" "b \<in> S p"
  shows "tree_listed S r (us @ b # vs)"
  using assms
proof (induction us)
  case Nil
  then show ?case by (auto simp: tree_listed_Cons)
next
  case (Cons u us)
  then show ?case by (auto simp: tree_listed_Cons)
qed

text \<open>Numbers by distance from the end, from 2; nodes not listed get 0.\<close>

fun rank :: "nat list \<Rightarrow> nat \<Rightarrow> nat" where
  "rank [] y = 0"
| "rank (x # xs) y = (if y = x then length xs + 2 else rank xs y)"

lemma rank_le: "rank ps y \<le> length ps + 1"
  by (induction ps) auto

lemma rank_0: "y \<notin> set ps \<Longrightarrow> rank ps y = 0"
  by (induction ps) auto

lemma rank_ge: "y \<in> set ps \<Longrightarrow> 2 \<le> rank ps y"
  by (induction ps) auto

lemma rank_append: "y \<notin> set us \<Longrightarrow> rank (us @ vs) y = rank vs y"
  by (induction us) auto

lemma rank_inj: "inj_on (rank ps) (set ps)"
proof (rule inj_onI)
  show "a = b" if "a \<in> set ps" "b \<in> set ps" "rank ps a = rank ps b" for a b
    using that
  proof (induction ps)
    case (Cons x ps)
    have "rank ps y \<noteq> Suc (Suc (length ps))" for y using rank_le [of ps y] by simp
    with Cons show ?case by (cases "a = x"; cases "b = x") force+
  qed simp
qed

lemma ranked_rank:
  assumes "tree_listed S r ps" "set ps = reached S r"
  shows "ranked S r (rank ps)"
  unfolding ranked_def
proof (intro conjI ballI impI)
  show "finite (reached S r)" using assms(2) by (metis List.finite_set)
  show "inj_on (rank ps) (reached S r)" using rank_inj [of ps] assms(2) by simp
  have last: "tree_listed S r qs \<Longrightarrow> x \<in> set qs \<Longrightarrow> x \<noteq> r \<Longrightarrow>
      rank qs r < rank qs x \<and> (\<exists>p \<in> set qs. x \<in> S p \<and> rank qs p < rank qs x)" for qs x
  proof (induction qs)
    case (Cons y qs)
    show ?case
    proof (cases "qs = []")
      case True
      with Cons.prems show ?thesis by simp
    next
      case False
      then have y: "y \<notin> set qs" "\<exists>p \<in> set qs. y \<in> S p" "tree_listed S r qs"
        using Cons.prems(1) by (auto simp: tree_listed_Cons)
      then have r: "r \<in> set qs" using tree_listed_last [of S r qs] last_in_set [of qs] by auto
      have lt: "rank qs r < length qs + 2" using rank_le [of qs r] by simp
      show ?thesis
      proof (cases "x = y")
        case True
        obtain p where p: "p \<in> set qs" "y \<in> S p" using y(2) by blast
        then have "p \<noteq> y" "r \<noteq> y" using y(1) r by auto
        moreover have "rank qs p < length qs + 2" using rank_le [of qs p] by simp
        ultimately show ?thesis using p lt True by (intro conjI bexI [of _ p]) simp_all
      next
        case xy: False
        then have "rank qs r < rank qs x \<and> (\<exists>p \<in> set qs. x \<in> S p \<and> rank qs p < rank qs x)"
          using Cons.IH y(3) Cons.prems(2,3) by simp
        moreover have "r \<noteq> y" using r y(1) by auto
        moreover have "p \<noteq> y" if "p \<in> set qs" for p using that y(1) by auto
        ultimately show ?thesis using xy by (auto simp del: One_nat_def)
      qed
    qed
  qed simp
  fix x assume "x \<in> reached S r" "x \<noteq> r"
  with last [OF assms(1), of x] assms(2) show "rank ps r < rank ps x"
    "\<exists>p \<in> reached S r. x \<in> S p \<and> rank ps p < rank ps x" by auto
qed

end
