(* ===== verification/Dominators.thy ===== *)
theory Dominators
  imports Flowgraph Dominance
begin

text \<open>
  The dominator tree, \<^verbatim>\<open>openvaf/mir/src/dominators.rs\<close>: two traversals that list the blocks in
  post-order, and the iterative algorithm of Cooper, Harvey and Kennedy for dominators (from the entry
  block, over the predecessors) and post-dominators (from the last block, over the successors). The
  top of a \<open>Vec\<close> used as a stack is the head of a list here. \<open>rpo_number\<close> is a \<open>u32\<close>, which the
  numbers of a function with fewer than \<open>2 ^ 32 - 3\<close> blocks fit.
\<close>

record dom_tree_node =
  rpo_number :: nat
  node_idom :: "block option"

abbreviation (input) UNDEF :: nat where "UNDEF \<equiv> 0"
abbreviation (input) DONE :: nat where "DONE \<equiv> 1"
abbreviation (input) SEEN :: nat where "SEEN \<equiv> 2"

record dominator_tree =
  dt_nodes :: "dom_tree_node list"
  dt_reverse_nodes :: "dom_tree_node list"
  dt_postorder :: "block list"
  dt_stack :: "(block \<times> successors) list"

definition DominatorTree_default :: dominator_tree where
  "DominatorTree_default = \<lparr>dt_nodes = [], dt_reverse_nodes = [], dt_postorder = [], dt_stack = []\<rparr>"

definition DominatorTree_clear :: "dominator_tree \<Rightarrow> dominator_tree panics" where
  "DominatorTree_clear T =
     do { _ \<leftarrow> rust_assert (dt_stack T = []);
          Some (T\<lparr>dt_nodes := [], dt_reverse_nodes := [], dt_postorder := []\<rparr>) }"

definition DominatorTree_cfg_postorder :: "dominator_tree \<Rightarrow> block list" where
  "DominatorTree_cfg_postorder T = dt_postorder T"

definition blank_node :: dom_tree_node where
  "blank_node = \<lparr>rpo_number = UNDEF, node_idom = None\<rparr>"

definition set_rpo :: "block \<Rightarrow> nat \<Rightarrow> dom_tree_node list \<Rightarrow> dom_tree_node list panics" where
  "set_rpo b k ns = do { n \<leftarrow> vec_get ns b; vec_set ns b (n\<lparr>rpo_number := k\<rparr>) }"

section \<open>Post-orders\<close>

text \<open>The inner loop: descend into the first successor not yet seen.\<close>

partial_function (option) descend ::
    "control_flow_graph \<Rightarrow> (block \<times> successors) list \<Rightarrow> dom_tree_node list
      \<Rightarrow> ((block \<times> successors) list \<times> dom_tree_node list) option" where
  "descend G stack ns =
     (case stack of
        [] \<Rightarrow> Some ([], ns)
      | (b, ss) # st \<Rightarrow>
          (case Successors_pop ss of
             (None, ss) \<Rightarrow> Some ((b, ss) # st, ns)
           | (Some s, ss) \<Rightarrow>
               do { n \<leftarrow> vec_get ns s;
                    (if rpo_number n = UNDEF then
                       do { ns \<leftarrow> set_rpo s SEEN ns;
                            c \<leftarrow> Cfg_successors G s;
                            descend G ((s, c) # (b, ss) # st) ns }
                     else descend G ((b, ss) # st) ns) }))"

partial_function (option) postorder_loop ::
    "control_flow_graph \<Rightarrow> (block \<times> successors) list \<Rightarrow> dom_tree_node list \<Rightarrow> block list
      \<Rightarrow> (dom_tree_node list \<times> block list) option" where
  "postorder_loop G stack ns po =
     do { (stack, ns) \<leftarrow> descend G stack ns;
          (case stack of
             [] \<Rightarrow> Some (ns, po)
           | (bb, _) # st \<Rightarrow> do { ns \<leftarrow> set_rpo bb DONE ns; postorder_loop G st ns (po @ [bb]) }) }"

definition DominatorTree_compute_postorder ::
    "mir_function \<Rightarrow> control_flow_graph \<Rightarrow> dominator_tree \<Rightarrow> dominator_tree option" where
  "DominatorTree_compute_postorder F G T =
     do { let ns = vec_resize (dt_nodes T) (Layout_num_blocks (fn_layout F)) blank_node;
          (case Layout_entry_block (fn_layout F) of
             None \<Rightarrow> Some (T\<lparr>dt_nodes := ns\<rparr>)
           | Some b \<Rightarrow>
               do { c \<leftarrow> Cfg_successors G b;
                    ns \<leftarrow> set_rpo b SEEN ns;
                    (ns, po) \<leftarrow> postorder_loop G ((b, c) # dt_stack T) ns (dt_postorder T);
                    _ \<leftarrow> rust_assert (po \<noteq> [] \<and> last po = b);
                    Some (T\<lparr>dt_nodes := ns, dt_postorder := po, dt_stack := []\<rparr>) }) }"

text \<open>The traversal of the reversed graph marks the predecessors when they are pushed.\<close>

fun push_unseen :: "block list \<Rightarrow> (block \<times> successors) list \<Rightarrow> dom_tree_node list
    \<Rightarrow> ((block \<times> successors) list \<times> dom_tree_node list) panics" where
  "push_unseen [] stack ns = Some (stack, ns)"
| "push_unseen (p # ps) stack ns =
     do { n \<leftarrow> vec_get ns p;
          (if rpo_number n = UNDEF then
             do { ns \<leftarrow> set_rpo p SEEN ns; push_unseen ps ((p, (None, None)) # stack) ns }
           else push_unseen ps stack ns) }"

partial_function (option) reverse_postorder_loop ::
    "control_flow_graph \<Rightarrow> (block \<times> successors) list \<Rightarrow> dom_tree_node list \<Rightarrow> block list
      \<Rightarrow> (dom_tree_node list \<times> block list) option" where
  "reverse_postorder_loop G stack ns po =
     (case stack of
        [] \<Rightarrow> Some (ns, po)
      | (b, _) # st \<Rightarrow>
          do { n \<leftarrow> vec_get ns b;
               (if rpo_number n = SEEN then
                  do { ns \<leftarrow> set_rpo b DONE ns;
                       ps \<leftarrow> Cfg_pred_iter G b;
                       (st, ns) \<leftarrow> push_unseen ps ((b, (None, None)) # st) ns;
                       reverse_postorder_loop G st ns po }
                else if rpo_number n = DONE then reverse_postorder_loop G st ns (po @ [b])
                else None) })"

definition DominatorTree_compute_reverse_postorder ::
    "mir_function \<Rightarrow> control_flow_graph \<Rightarrow> dominator_tree \<Rightarrow> dominator_tree option" where
  "DominatorTree_compute_reverse_postorder F G T =
     do { let ns = vec_resize (dt_reverse_nodes T) (Layout_num_blocks (fn_layout F)) blank_node;
          (case Layout_last_block (fn_layout F) of
             None \<Rightarrow> Some (T\<lparr>dt_reverse_nodes := ns\<rparr>)
           | Some b \<Rightarrow>
               do { ns \<leftarrow> set_rpo b SEEN ns;
                    (ns, po) \<leftarrow> reverse_postorder_loop G ((b, (None, None)) # dt_stack T) ns (dt_postorder T);
                    _ \<leftarrow> rust_assert (po \<noteq> [] \<and> last po = b);
                    Some (T\<lparr>dt_reverse_nodes := ns, dt_postorder := po, dt_stack := []\<rparr>) }) }"

section \<open>Immediate dominators\<close>

partial_function (option) common_dominator :: "dom_tree_node list \<Rightarrow> block \<Rightarrow> block \<Rightarrow> block option" where
  "common_dominator ns bb1 bb2 =
     do { n1 \<leftarrow> vec_get ns bb1;
          n2 \<leftarrow> vec_get ns bb2;
          (if rpo_number n1 < rpo_number n2 then do { bb2 \<leftarrow> node_idom n2; common_dominator ns bb1 bb2 }
           else if rpo_number n2 < rpo_number n1 then do { bb1 \<leftarrow> node_idom n1; common_dominator ns bb1 bb2 }
           else Some bb1) }"

fun visited_preds :: "dom_tree_node list \<Rightarrow> block list \<Rightarrow> block list panics" where
  "visited_preds ns [] = Some []"
| "visited_preds ns (p # ps) =
     do { n \<leftarrow> vec_get ns p;
          qs \<leftarrow> visited_preds ns ps;
          Some (if rpo_number n > 1 then p # qs else qs) }"

fun common_dominators :: "dom_tree_node list \<Rightarrow> block \<Rightarrow> block list \<Rightarrow> block option" where
  "common_dominators ns idom [] = Some idom"
| "common_dominators ns idom (p # ps) = do { idom \<leftarrow> common_dominator ns idom p; common_dominators ns idom ps }"

definition compute_idom_nodes :: "dom_tree_node list \<Rightarrow> block list \<Rightarrow> block option" where
  "compute_idom_nodes ns bbs =
     do { qs \<leftarrow> visited_preds ns bbs;
          (case qs of [] \<Rightarrow> None | p # ps \<Rightarrow> common_dominators ns p ps) }"

definition dt_select :: "bool \<Rightarrow> dominator_tree \<Rightarrow> dom_tree_node list" where
  "dt_select reverse T = (if reverse then dt_reverse_nodes T else dt_nodes T)"

definition dt_assign :: "bool \<Rightarrow> dom_tree_node list \<Rightarrow> dominator_tree \<Rightarrow> dominator_tree" where
  "dt_assign reverse ns T = (if reverse then T\<lparr>dt_reverse_nodes := ns\<rparr> else T\<lparr>dt_nodes := ns\<rparr>)"

definition DominatorTree_compute_idom ::
    "bool \<Rightarrow> block \<Rightarrow> control_flow_graph \<Rightarrow> dominator_tree \<Rightarrow> block option" where
  "DominatorTree_compute_idom reverse b G T =
     (if reverse then do { ps \<leftarrow> Cfg_succ_iter G b; compute_idom_nodes (dt_reverse_nodes T) ps }
      else do { ps \<leftarrow> Cfg_pred_iter G b; compute_idom_nodes (dt_nodes T) ps })"

fun number_blocks :: "bool \<Rightarrow> control_flow_graph \<Rightarrow> nat \<Rightarrow> block list \<Rightarrow> dominator_tree \<Rightarrow> dominator_tree option" where
  "number_blocks reverse G k [] T = Some T"
| "number_blocks reverse G k (b # bs) T =
     do { idom \<leftarrow> DominatorTree_compute_idom reverse b G T;
          ns \<leftarrow> vec_set (dt_select reverse T) b \<lparr>rpo_number = k + 3, node_idom = Some idom\<rparr>;
          number_blocks reverse G (k + 1) bs (dt_assign reverse ns T) }"

fun idom_pass :: "bool \<Rightarrow> control_flow_graph \<Rightarrow> block list \<Rightarrow> dominator_tree \<times> bool \<Rightarrow> (dominator_tree \<times> bool) option" where
  "idom_pass reverse G [] (T, changed) = Some (T, changed)"
| "idom_pass reverse G (b # bs) (T, changed) =
     do { idom \<leftarrow> DominatorTree_compute_idom reverse b G T;
          n \<leftarrow> vec_get (dt_select reverse T) b;
          (if node_idom n \<noteq> Some idom then
             do { ns \<leftarrow> vec_set (dt_select reverse T) b (n\<lparr>node_idom := Some idom\<rparr>);
                  idom_pass reverse G bs (dt_assign reverse ns T, True) }
           else idom_pass reverse G bs (T, changed)) }"

partial_function (option) idom_loop ::
    "bool \<Rightarrow> control_flow_graph \<Rightarrow> block list \<Rightarrow> dominator_tree \<Rightarrow> dominator_tree option" where
  "idom_loop reverse G bs T =
     do { (T, changed) \<leftarrow> idom_pass reverse G bs (T, False);
          (if changed then idom_loop reverse G bs T else Some T) }"

definition DominatorTree_compute_domtree ::
    "bool \<Rightarrow> control_flow_graph \<Rightarrow> dominator_tree \<Rightarrow> dominator_tree option" where
  "DominatorTree_compute_domtree reverse G T =
     (if dt_postorder T = [] then Some T
      else
        do { let entry_block = last (dt_postorder T);
             let rest = rev (butlast (dt_postorder T));
             ns \<leftarrow> set_rpo entry_block 2 (dt_select reverse T);
             T \<leftarrow> number_blocks reverse G 0 rest (dt_assign reverse ns T);
             idom_loop reverse G rest T })"

definition DominatorTree_compute ::
    "mir_function \<Rightarrow> control_flow_graph \<Rightarrow> bool \<Rightarrow> bool \<Rightarrow> bool \<Rightarrow> dominator_tree \<Rightarrow> dominator_tree option" where
  "DominatorTree_compute F G want_dom want_pdom want_postorder T =
     do { _ \<leftarrow> rust_assert (Cfg_is_valid G);
          T \<leftarrow> DominatorTree_clear T;
          T \<leftarrow> (if want_pdom then
                  do { T \<leftarrow> DominatorTree_compute_reverse_postorder F G T;
                       T \<leftarrow> DominatorTree_compute_domtree True G T;
                       Some (T\<lparr>dt_postorder := []\<rparr>) }
                else Some T);
          T \<leftarrow> (if want_dom \<or> want_postorder then DominatorTree_compute_postorder F G T else Some T);
          (if want_dom then DominatorTree_compute_domtree False G T else Some T) }"

section \<open>Queries\<close>

partial_function (option) dominates_nodes :: "dom_tree_node list \<Rightarrow> block \<Rightarrow> block \<Rightarrow> bool option" where
  "dominates_nodes ns b d =
     do { nb \<leftarrow> vec_get ns b;
          nd \<leftarrow> vec_get ns d;
          (if rpo_number nb > rpo_number nd then
             (case node_idom nb of Some p \<Rightarrow> dominates_nodes ns p d | None \<Rightarrow> Some False)
           else Some (b = d)) }"

definition DominatorTree_dominates :: "dominator_tree \<Rightarrow> block \<Rightarrow> block \<Rightarrow> bool option" where
  "DominatorTree_dominates T b d = dominates_nodes (dt_nodes T) b d"

definition DominatorTree_post_dominates :: "dominator_tree \<Rightarrow> block \<Rightarrow> block \<Rightarrow> bool option" where
  "DominatorTree_post_dominates T b d = dominates_nodes (dt_reverse_nodes T) b d"

definition DominatorTree_ipdom :: "dominator_tree \<Rightarrow> block \<Rightarrow> block option panics" where
  "DominatorTree_ipdom T b = map_option node_idom (vec_get (dt_reverse_nodes T) b)"

end
