(* ===== verification/Dominators_Spec.thy ===== *)
theory Dominators_Spec
  imports Dominators
begin

text \<open>
  Correctness of the dominator tree: the traversals list the blocks that can be reached (or that reach
  the last block) in an order the algorithm can use, the iteration ends, and the parent links then
  answer dominance.
\<close>

lemma set_rpo_in [simp]: "b < length ns \<Longrightarrow> set_rpo b k ns = Some (ns[b := (ns ! b)\<lparr>rpo_number := k\<rparr>])"
  by (simp add: set_rpo_def)

section \<open>The post-order\<close>

text \<open>
  Finished blocks \<open>po\<close> and the stack make up the list of the blocks seen; the rest of the successors
  of a block on the stack is kept with it.
\<close>

definition trav_node :: "block set \<Rightarrow> block set \<Rightarrow> block \<Rightarrow> dom_tree_node" where
  "trav_node done seen b =
     \<lparr>rpo_number = (if b \<in> done then DONE else if b \<in> seen then SEEN else UNDEF), node_idom = None\<rparr>"

definition trav_ok ::
    "control_flow_graph \<Rightarrow> block \<Rightarrow> dom_tree_node list \<Rightarrow> (block \<times> successors) list \<Rightarrow> block list \<Rightarrow> bool" where
  "trav_ok G r ns stack po \<longleftrightarrow>
     length ns = length (cfg_data G) \<and> tree_listed (succ_set G) r (po @ map fst stack) \<and>
     set (po @ map fst stack) \<subseteq> {..<length ns} \<and>
     (\<forall>b < length ns. ns ! b = trav_node (set po) (fst ` set stack) b) \<and>
     (\<forall>b \<in> set po. succ_set G b \<subseteq> set (po @ map fst stack)) \<and>
     (\<forall>b ss. (b, ss) \<in> set stack \<longrightarrow> succ_wf ss \<and> set (Successors_iter ss) \<subseteq> succ_set G b \<and>
        succ_set G b \<subseteq> set (Successors_iter ss) \<union> set (po @ map fst stack))"

lemma trav_okD:
  assumes "trav_ok G r ns stack po"
  shows "length ns = length (cfg_data G)" "tree_listed (succ_set G) r (po @ map fst stack)"
    "set (po @ map fst stack) \<subseteq> {..<length ns}"
    "b < length ns \<Longrightarrow> ns ! b = trav_node (set po) (fst ` set stack) b"
    "b \<in> set po \<Longrightarrow> succ_set G b \<subseteq> set (po @ map fst stack)"
    "(b, ss) \<in> set stack \<Longrightarrow> succ_wf ss \<and> set (Successors_iter ss) \<subseteq> succ_set G b \<and>
        succ_set G b \<subseteq> set (Successors_iter ss) \<union> set (po @ map fst stack)"
  using assms unfolding trav_ok_def by blast+

lemma Successors_pop_ok:
  assumes "succ_wf ss"
  shows "Successors_pop ss = (None, ss) \<and> Successors_iter ss = [] \<or>
    (\<exists>s ss'. Successors_pop ss = (Some s, ss') \<and> succ_wf ss' \<and> Successors_iter ss = Successors_iter ss' @ [s])"
  using assms by (cases rule: succ_wf_cases) (simp_all add: Successors_pop_def)

lemma trav_pop:
  assumes "trav_ok G r ns ((b, ss) # st) po" "succ_wf ss'" "Successors_iter ss = Successors_iter ss' @ [s]"
    and "s \<in> set (po @ b # map fst st)"
  shows "trav_ok G r ns ((b, ss') # st) po"
  unfolding trav_ok_def
proof (intro conjI allI impI ballI)
  note D = trav_okD [OF assms(1)]
  fix a ts assume e: "(a, ts) \<in> set ((b, ss') # st)"
  have "succ_wf ts \<and> set (Successors_iter ts) \<subseteq> succ_set G a \<and>
        succ_set G a \<subseteq> set (Successors_iter ts) \<union> set (po @ b # map fst st)"
  proof (cases "(a, ts) = (b, ss')")
    case True
    with D(6) [of b ss] assms(2-4) show ?thesis by auto
  next
    case False
    with D(6) [of a ts] e show ?thesis by auto
  qed
  then show "succ_wf ts" "set (Successors_iter ts) \<subseteq> succ_set G a"
    "succ_set G a \<subseteq> set (Successors_iter ts) \<union> set (po @ map fst ((b, ss') # st))" by simp_all
qed (use trav_okD [OF assms(1)] in simp_all)

lemma trav_push:
  assumes "Cfg_ok G" "trav_ok G r ns ((b, ss) # st) po" "succ_wf ss'" "Successors_iter ss = Successors_iter ss' @ [s]"
    and "s \<notin> set (po @ b # map fst st)" "s < length ns"
  shows "trav_ok G r (ns[s := (ns ! s)\<lparr>rpo_number := SEEN\<rparr>]) ((s, succ_at G s) # (b, ss') # st) po"
proof -
  note D = trav_okD [OF assms(2)]
  have s: "s \<in> succ_set G b" using D(6) [of b ss] assms(4) by auto
  have "tree_listed (succ_set G) r (po @ s # map fst ((b, ss) # st))"
    by (rule tree_listed_insert [OF D(2), of s b]) (use s assms(5) in auto)
  then have listed: "tree_listed (succ_set G) r (po @ map fst ((s, succ_at G s) # (b, ss') # st))" by simp
  have wf: "succ_wf (succ_at G s)" using Cfg_okD(2) [OF assms(1), of s] assms(6) D(1) by simp
  have rest: "succ_wf ts \<and> set (Successors_iter ts) \<subseteq> succ_set G a \<and>
      succ_set G a \<subseteq> set (Successors_iter ts) \<union> set (po @ s # b # map fst st)"
    if e: "(a, ts) \<in> set ((s, succ_at G s) # (b, ss') # st)" for a ts
  proof -
    consider "a = s" "ts = succ_at G s" | "a = b" "ts = ss'" | "(a, ts) \<in> set st" using e by auto
    then show ?thesis
    proof cases
      case 1
      then show ?thesis using wf by (auto simp: succ_set_def)
    next
      case 2
      then show ?thesis using D(6) [of b ss] assms(3,4) by auto
    next
      case 3
      then show ?thesis using D(6) [of a ts] by auto
    qed
  qed
  show ?thesis
    unfolding trav_ok_def
  proof (intro conjI allI impI ballI)
    fix x assume x: "x < length (ns[s := (ns ! s)\<lparr>rpo_number := SEEN\<rparr>])"
    then show "ns[s := (ns ! s)\<lparr>rpo_number := SEEN\<rparr>] ! x =
        trav_node (set po) (fst ` set ((s, succ_at G s) # (b, ss') # st)) x"
      using D(4) [of x] assms(5,6) by (auto simp: nth_list_update trav_node_def)
  next
    fix a ts assume "(a, ts) \<in> set ((s, succ_at G s) # (b, ss') # st)"
    from rest [OF this] show "succ_wf ts" "set (Successors_iter ts) \<subseteq> succ_set G a"
      "succ_set G a \<subseteq> set (Successors_iter ts) \<union> set (po @ map fst ((s, succ_at G s) # (b, ss') # st))"
      by simp_all
  qed (use D(1,3,5) listed assms(6) in auto)
qed

lemma trav_finish:
  assumes "trav_ok G r ns ((b, ss) # st) po" "Successors_iter ss = []"
  shows "b < length ns" "trav_ok G r (ns[b := (ns ! b)\<lparr>rpo_number := DONE\<rparr>]) st (po @ [b])"
proof -
  note D = trav_okD [OF assms(1)]
  show b: "b < length ns" using D(3) by simp
  have "b \<notin> set (map fst st)" using tree_listed_distinct [OF D(2)] by simp
  then show "trav_ok G r (ns[b := (ns ! b)\<lparr>rpo_number := DONE\<rparr>]) st (po @ [b])"
    unfolding trav_ok_def
  proof (intro conjI allI impI ballI)
    fix x assume x: "x < length (ns[b := (ns ! b)\<lparr>rpo_number := DONE\<rparr>])"
    then show "ns[b := (ns ! b)\<lparr>rpo_number := DONE\<rparr>] ! x = trav_node (set (po @ [b])) (fst ` set st) x"
      using D(4) [of x] b by (auto simp: nth_list_update trav_node_def)
  next
    fix a assume "a \<in> set (po @ [b])"
    then show "succ_set G a \<subseteq> set ((po @ [b]) @ map fst st)"
      using D(5) [of a] D(6) [of b ss] assms(2) by auto
  next
    fix a ts assume "(a, ts) \<in> set st"
    with D(6) [of a ts] show "succ_wf ts" "set (Successors_iter ts) \<subseteq> succ_set G a"
      "succ_set G a \<subseteq> set (Successors_iter ts) \<union> set ((po @ [b]) @ map fst st)" by auto
  qed (use D(1-3) in simp_all)
qed

lemma length_Successors_iter: "length (Successors_iter s) \<le> 2"
  by (cases s; cases "fst s"; cases "snd s") simp_all

lemma trav_length:
  assumes "trav_ok G r ns stack po"
  shows "length po + length stack \<le> length ns"
proof -
  have "card (set (po @ map fst stack)) \<le> card {..<length ns}"
    by (rule card_mono [OF _ trav_okD(3) [OF assms]]) simp
  then show ?thesis using distinct_card [OF tree_listed_distinct [OF trav_okD(2) [OF assms]]] by simp
qed

lemma descend_ok:
  assumes "Cfg_ok G" "trav_ok G r ns ((b, ss) # st) po"
  shows "\<exists>b' ss' st' ns'. descend G ((b, ss) # st) ns = Some ((b', ss') # st', ns') \<and>
    trav_ok G r ns' ((b', ss') # st') po \<and> Successors_iter ss' = []"
  using assms(2)
proof (induction "3 * (length ns - length (po @ map fst ((b, ss) # st))) + length (Successors_iter ss)"
    arbitrary: ns b ss st rule: less_induct)
  case less
  note D = trav_okD [OF less.prems]
  have wf: "succ_wf ss" using D(6) [of b ss] by simp
  from Successors_pop_ok [OF wf] consider "Successors_pop ss = (None, ss)" "Successors_iter ss = []"
    | s ss' where "Successors_pop ss = (Some s, ss')" "succ_wf ss'" "Successors_iter ss = Successors_iter ss' @ [s]"
    by blast
  then show ?case
  proof cases
    case 1
    then show ?thesis using less.prems by (subst descend.simps) simp
  next
    case 2
    have b: "b < length (cfg_data G)" using D(1,3) by simp
    have "s \<in> succ_set G b" using D(6) [of b ss] 2(3) by auto
    then have s: "s < length ns" using Cfg_okD(3) [OF assms(1) b] D(1) by auto
    show ?thesis
    proof (cases "s \<in> set (po @ b # map fst st)")
      case True
      then have "rpo_number (ns ! s) \<noteq> UNDEF" using D(4) [OF s] by (auto simp: trav_node_def)
      then have "descend G ((b, ss) # st) ns = descend G ((b, ss') # st) ns"
        using 2(1) s by (subst descend.simps) simp
      moreover have "trav_ok G r ns ((b, ss') # st) po" by (rule trav_pop [OF less.prems 2(2,3) True])
      ultimately show ?thesis using less.hyps [of ns b ss' st] 2(3) by simp
    next
      case False
      let ?ns = "ns[s := (ns ! s)\<lparr>rpo_number := SEEN\<rparr>]"
      have "rpo_number (ns ! s) = UNDEF" using D(4) [OF s] False by (auto simp: trav_node_def)
      then have run: "descend G ((b, ss) # st) ns = descend G ((s, succ_at G s) # (b, ss') # st) ?ns"
        using 2(1) s D(1) by (subst descend.simps) (simp add: Cfg_successors_def succ_at_def)
      have ok: "trav_ok G r ?ns ((s, succ_at G s) # (b, ss') # st) po"
        by (rule trav_push [OF assms(1) less.prems 2(2,3) False s])
      have "length po + length st + 2 \<le> length ns" using trav_length [OF ok] by simp
      then have "3 * (length ?ns - length (po @ map fst ((s, succ_at G s) # (b, ss') # st))) + length (Successors_iter (succ_at G s))
          < 3 * (length ns - length (po @ map fst ((b, ss) # st))) + length (Successors_iter ss)"
        using length_Successors_iter [of "succ_at G s"] by simp
      from less.hyps [OF this ok] show ?thesis using run by simp
    qed
  qed
qed

lemma set_rpo_trav:
  assumes "trav_ok G r ns ((b, ss) # st) po" "Successors_iter ss = []"
  shows "\<exists>ns'. set_rpo b DONE ns = Some ns' \<and> trav_ok G r ns' st (po @ [b])"
  using trav_finish [OF assms] by simp

lemma postorder_loop_ok:
  assumes "Cfg_ok G" "trav_ok G r ns stack po"
  shows "\<exists>ns' po'. postorder_loop G stack ns po = Some (ns', po') \<and> trav_ok G r ns' [] po'"
  using assms(2)
proof (induction "length ns - length po" arbitrary: ns stack po rule: less_induct)
  case less
  show ?case
  proof (cases stack)
    case Nil
    then show ?thesis using less.prems by (subst postorder_loop.simps) (simp add: descend.simps)
  next
    case (Cons e st)
    obtain b ss where e: "e = (b, ss)" by (cases e)
    obtain b' ss' st' ns1 where d: "descend G stack ns = Some ((b', ss') # st', ns1)"
      "trav_ok G r ns1 ((b', ss') # st') po" "Successors_iter ss' = []"
      using descend_ok [OF assms(1)] less.prems Cons e by blast
    obtain ns2 where ns2: "set_rpo b' DONE ns1 = Some ns2" "trav_ok G r ns2 st' (po @ [b'])"
      using set_rpo_trav [OF d(2,3)] by blast
    have "length po < length ns1" using trav_length [OF d(2)] by simp
    moreover have "length ns1 = length ns" "length ns2 = length ns"
      using trav_okD(1) [OF d(2)] trav_okD(1) [OF ns2(2)] trav_okD(1) [OF less.prems] by simp_all
    ultimately show ?thesis
      using less.hyps [of ns2 "po @ [b']" st'] ns2 d(1) by (subst postorder_loop.simps) simp
  qed
qed

lemma trav_done:
  assumes "trav_ok G r ns [] po"
  shows "set po = reached (succ_set G) r" "po \<noteq> []" "last po = r"
proof -
  have listed: "tree_listed (succ_set G) r po" using trav_okD(2) [OF assms] by simp
  show "po \<noteq> []" "last po = r" using tree_listed_last [OF listed] by simp_all
  then have "r \<in> set po" using last_in_set by blast
  moreover have "x \<in> set po" if "p \<in> set po" "x \<in> succ_set G p" for p x
    using trav_okD(5) [OF assms that(1)] that(2) by auto
  ultimately have "reached (succ_set G) r \<subseteq> set po" by (intro reached_least)
  with tree_listed_reached [OF listed] show "set po = reached (succ_set G) r" by blast
qed

text \<open>What both traversals leave: the nodes listed are marked as done, all others as not seen.\<close>

definition listed_nodes :: "(block \<Rightarrow> block set) \<Rightarrow> block \<Rightarrow> nat \<Rightarrow> block list \<Rightarrow> dom_tree_node list \<Rightarrow> bool" where
  "listed_nodes S r n po ns \<longleftrightarrow> tree_listed S r po \<and> set po = reached S r \<and> set po \<subseteq> {..<n} \<and> length ns = n \<and>
     (\<forall>b < n. ns ! b = trav_node (set po) {} b)"

lemma compute_postorder_ok:
  assumes "Cfg_ok G" "length (cfg_data G) = length (blocks (fn_layout F))" "Layout_entry_block (fn_layout F) = Some r"
    and "r < length (cfg_data G)" "dt_nodes T = []" "dt_postorder T = []" "dt_stack T = []"
  shows "\<exists>ns po. DominatorTree_compute_postorder F G T = Some (T\<lparr>dt_nodes := ns, dt_postorder := po\<rparr>) \<and>
    listed_nodes (succ_set G) r (length (cfg_data G)) po ns"
proof -
  let ?n = "length (cfg_data G)"
  define ns0 where "ns0 = (vec_resize [] ?n blank_node)[r := blank_node\<lparr>rpo_number := SEEN\<rparr>]"
  have blank: "vec_resize [] ?n blank_node ! b = blank_node" if "b < ?n" for b
    using that by (simp add: vec_resize_def)
  have "trav_ok G r ns0 [(r, succ_at G r)] []"
    unfolding trav_ok_def
  proof (intro conjI allI impI ballI)
    fix b assume "b < length ns0"
    then show "ns0 ! b = trav_node (set []) (fst ` set [(r, succ_at G r)]) b"
      using blank [of b] by (simp add: ns0_def nth_list_update trav_node_def blank_node_def)
  next
    fix b ss assume "(b, ss) \<in> set [(r, succ_at G r)]"
    then show "succ_wf ss" "set (Successors_iter ss) \<subseteq> succ_set G b"
      "succ_set G b \<subseteq> set (Successors_iter ss) \<union> set ([] @ map fst [(r, succ_at G r)])"
      using Cfg_okD(2) [OF assms(1,4)] by (auto simp: succ_set_def)
  qed (use assms(4) in \<open>simp_all add: ns0_def\<close>)
  from postorder_loop_ok [OF assms(1) this] obtain ns po where
    run: "postorder_loop G [(r, succ_at G r)] ns0 [] = Some (ns, po)" and ok: "trav_ok G r ns [] po" by blast
  have "DominatorTree_compute_postorder F G T = Some (T\<lparr>dt_nodes := ns, dt_postorder := po\<rparr>)"
    using run trav_done(2,3) [OF ok] assms(2-7) blank [OF assms(4)]
    by (simp add: DominatorTree_compute_postorder_def Layout_num_blocks_def Cfg_successors_def succ_at_def ns0_def)
  moreover have "listed_nodes (succ_set G) r ?n po ns"
    using trav_okD(1-4) [OF ok] trav_done(1) [OF ok] by (auto simp: listed_nodes_def)
  ultimately show ?thesis by blast
qed

section \<open>The post-order of the reversed graph\<close>

definition pred_set :: "control_flow_graph \<Rightarrow> block \<Rightarrow> block set" where
  "pred_set G b = set (preds (cfg_data G ! b))"

text \<open>
  The blocks \<open>sc\<close> of the stack have been scanned and stay until all blocks above are finished; the
  predecessors of the blocks \<open>cl\<close> have been pushed.
\<close>

definition rtrav_ok ::
    "control_flow_graph \<Rightarrow> block \<Rightarrow> dom_tree_node list \<Rightarrow> block list \<Rightarrow> block set \<Rightarrow> block set \<Rightarrow> block list \<Rightarrow> bool" where
  "rtrav_ok G r ns stack sc cl po \<longleftrightarrow>
     length ns = length (cfg_data G) \<and> tree_listed (pred_set G) r (po @ stack) \<and>
     set (po @ stack) \<subseteq> {..<length ns} \<and> sc \<subseteq> set stack \<and>
     (\<forall>b < length ns. ns ! b = trav_node (set po \<union> sc) (set stack) b) \<and>
     (\<forall>b \<in> set po \<union> cl. pred_set G b \<subseteq> set (po @ stack))"

lemma rtrav_okD:
  assumes "rtrav_ok G r ns stack sc cl po"
  shows "length ns = length (cfg_data G)" "tree_listed (pred_set G) r (po @ stack)"
    "set (po @ stack) \<subseteq> {..<length ns}" "sc \<subseteq> set stack"
    "b < length ns \<Longrightarrow> ns ! b = trav_node (set po \<union> sc) (set stack) b"
    "b \<in> set po \<union> cl \<Longrightarrow> pred_set G b \<subseteq> set (po @ stack)"
  using assms unfolding rtrav_ok_def by blast+

lemma rtrav_push:
  assumes "rtrav_ok G r ns stack sc cl po" "b \<in> set stack" "p \<in> pred_set G b" "p < length ns" "p \<notin> set (po @ stack)"
  shows "rtrav_ok G r (ns[p := (ns ! p)\<lparr>rpo_number := SEEN\<rparr>]) (p # stack) sc cl po"
proof -
  note D = rtrav_okD [OF assms(1)]
  have "stack \<noteq> []" using assms(2) by auto
  from tree_listed_insert [OF D(2) this assms(5,2,3)] have listed: "tree_listed (pred_set G) r (po @ p # stack)" .
  show ?thesis
    unfolding rtrav_ok_def
  proof (intro conjI allI impI ballI)
    fix x assume x: "x < length (ns[p := (ns ! p)\<lparr>rpo_number := SEEN\<rparr>])"
    have "p \<notin> set po \<union> sc" using assms(5) D(4) by auto
    with x show "ns[p := (ns ! p)\<lparr>rpo_number := SEEN\<rparr>] ! x = trav_node (set po \<union> sc) (set (p # stack)) x"
      using D(5) [of x] assms(4) by (auto simp: nth_list_update trav_node_def)
  next
    fix a assume "a \<in> set po \<union> cl"
    from D(6) [OF this] show "pred_set G a \<subseteq> set (po @ p # stack)" by auto
  qed (use D(1,3,4) listed assms(4) in auto)
qed

lemma push_unseen_ok:
  assumes "rtrav_ok G r ns (map fst stack) sc cl po" "b \<in> set (map fst stack)" "set ps \<subseteq> pred_set G b" "set ps \<subseteq> {..<length ns}"
  shows "\<exists>stack' ns'. push_unseen ps stack ns = Some (stack', ns') \<and> rtrav_ok G r ns' (map fst stack') sc cl po \<and>
    set ps \<subseteq> set (po @ map fst stack') \<and> set (map fst stack) \<subseteq> set (map fst stack')"
  using assms
proof (induction ps arbitrary: stack ns)
  case (Cons p ps)
  have p: "p < length ns" "p \<in> pred_set G b" using Cons.prems(3,4) by auto
  note node = rtrav_okD(5) [OF Cons.prems(1) p(1)]
  show ?case
  proof (cases "p \<in> set (po @ map fst stack)")
    case True
    then have "rpo_number (ns ! p) \<noteq> UNDEF" using node by (auto simp: trav_node_def)
    then have run: "push_unseen (p # ps) stack ns = push_unseen ps stack ns" using p(1) by simp
    have "set ps \<subseteq> pred_set G b" "set ps \<subseteq> {..<length ns}" using Cons.prems(3,4) by auto
    from Cons.IH [OF Cons.prems(1,2) this] obtain stack' ns' where
      "push_unseen ps stack ns = Some (stack', ns')" "rtrav_ok G r ns' (map fst stack') sc cl po"
      "set ps \<subseteq> set (po @ map fst stack')" "set (map fst stack) \<subseteq> set (map fst stack')" by blast
    with run True show ?thesis by (intro exI [of _ stack'] exI [of _ ns']) auto
  next
    case False
    let ?ns = "ns[p := (ns ! p)\<lparr>rpo_number := SEEN\<rparr>]" and ?st = "(p, (None, None)) # stack"
    have "p \<notin> set po \<union> sc" "p \<notin> set (map fst stack)" using False rtrav_okD(4) [OF Cons.prems(1)] by auto
    then have "rpo_number (ns ! p) = UNDEF" using node by (simp add: trav_node_def)
    then have run: "push_unseen (p # ps) stack ns = push_unseen ps ?st ?ns" using p(1) by simp
    have ok: "rtrav_ok G r ?ns (map fst ?st) sc cl po"
      using rtrav_push [OF Cons.prems(1,2) p(2,1) False] by simp
    have "b \<in> set (map fst ?st)" "set ps \<subseteq> pred_set G b" "set ps \<subseteq> {..<length ?ns}" using Cons.prems(2-4) by auto
    from Cons.IH [OF ok this] obtain stack' ns' where
      "push_unseen ps ?st ?ns = Some (stack', ns')" "rtrav_ok G r ns' (map fst stack') sc cl po"
      "set ps \<subseteq> set (po @ map fst stack')" "set (map fst ?st) \<subseteq> set (map fst stack')" by blast
    with run show ?thesis by (intro exI [of _ stack'] exI [of _ ns']) auto
  qed
qed auto

lemma rtrav_scan:
  assumes "rtrav_ok G r ns (b # st) sc cl po" "b \<notin> sc"
  shows "b < length ns" "ns ! b = \<lparr>rpo_number = SEEN, node_idom = None\<rparr>"
    "rtrav_ok G r (ns[b := (ns ! b)\<lparr>rpo_number := DONE\<rparr>]) (b # st) (insert b sc) cl po"
proof -
  note D = rtrav_okD [OF assms(1)]
  show b: "b < length ns" using D(3) by simp
  have "b \<notin> set po" using tree_listed_distinct [OF D(2)] by simp
  with assms(2) show "ns ! b = \<lparr>rpo_number = SEEN, node_idom = None\<rparr>" using D(5) [OF b] by (simp add: trav_node_def)
  show "rtrav_ok G r (ns[b := (ns ! b)\<lparr>rpo_number := DONE\<rparr>]) (b # st) (insert b sc) cl po"
    unfolding rtrav_ok_def
  proof (intro conjI allI impI ballI)
    fix x assume "x < length (ns[b := (ns ! b)\<lparr>rpo_number := DONE\<rparr>])"
    then show "ns[b := (ns ! b)\<lparr>rpo_number := DONE\<rparr>] ! x = trav_node (set po \<union> insert b sc) (set (b # st)) x"
      using D(5) [of x] b by (auto simp: nth_list_update trav_node_def)
  qed (use D(1-4,6) in auto)
qed

lemma rtrav_finish:
  assumes "rtrav_ok G r ns (b # st) sc sc po" "b \<in> sc"
  shows "b < length ns" "ns ! b = \<lparr>rpo_number = DONE, node_idom = None\<rparr>" "rtrav_ok G r ns st (sc - {b}) (sc - {b}) (po @ [b])"
proof -
  note D = rtrav_okD [OF assms(1)]
  show b: "b < length ns" using D(3) by simp
  show "ns ! b = \<lparr>rpo_number = DONE, node_idom = None\<rparr>" using D(5) [OF b] assms(2) by (simp add: trav_node_def)
  have un: "set (po @ [b]) \<union> (sc - {b}) = set po \<union> sc" using assms(2) by auto
  show "rtrav_ok G r ns st (sc - {b}) (sc - {b}) (po @ [b])"
    unfolding rtrav_ok_def un
  proof (intro conjI allI impI ballI)
    fix x assume "x < length ns"
    from D(5) [OF this] show "ns ! x = trav_node (set po \<union> sc) (set st) x" using assms(2) by (auto simp: trav_node_def)
  next
    fix a assume "a \<in> set po \<union> sc"
    from D(6) [OF this] show "pred_set G a \<subseteq> set ((po @ [b]) @ st)" by simp
  qed (use D(1-4) in auto)
qed

lemma rtrav_length:
  assumes "rtrav_ok G r ns stack sc cl po"
  shows "length po + length stack \<le> length ns" "card sc \<le> length stack"
proof -
  have "card (set (po @ stack)) \<le> card {..<length ns}"
    by (rule card_mono [OF _ rtrav_okD(3) [OF assms]]) simp
  then show "length po + length stack \<le> length ns"
    using distinct_card [OF tree_listed_distinct [OF rtrav_okD(2) [OF assms]]] by simp
  show "card sc \<le> length stack"
    using card_mono [OF _ rtrav_okD(4) [OF assms]] card_length [of stack] by simp
qed

lemma reverse_postorder_loop_ok:
  assumes "Cfg_ok G" "rtrav_ok G r ns (map fst stack) sc sc po"
  shows "\<exists>ns' po'. reverse_postorder_loop G stack ns po = Some (ns', po') \<and> rtrav_ok G r ns' [] {} {} po'"
  using assms(2)
proof (induction "2 * (length ns - length po) - card sc" arbitrary: ns stack sc po rule: less_induct)
  case less
  show ?case
  proof (cases stack)
    case Nil
    then show ?thesis using less.prems rtrav_okD(4) [OF less.prems] by (subst reverse_postorder_loop.simps) auto
  next
    case (Cons e st)
    obtain b ss where e: "e = (b, ss)" by (cases e)
    have ok: "rtrav_ok G r ns (b # map fst st) sc sc po" using less.prems Cons e by simp
    have len: "length po < length ns" "card sc \<le> length ns - length po" and fin: "finite sc"
      using rtrav_length [OF ok] rtrav_okD(4) [OF ok] finite_subset [of sc "set (b # map fst st)"] by auto
    show ?thesis
    proof (cases "b \<in> sc")
      case True
      note F = rtrav_finish [OF ok True]
      have run: "reverse_postorder_loop G stack ns po = reverse_postorder_loop G st ns (po @ [b])"
        using F(1,2) Cons e by (subst reverse_postorder_loop.simps) simp
      have "card (sc - {b}) = card sc - 1" using True by simp
      moreover have "card sc > 0" using True fin by (auto simp: card_gt_0_iff)
      ultimately have "2 * (length ns - length (po @ [b])) - card (sc - {b}) < 2 * (length ns - length po) - card sc"
        using len by simp
      from less.hyps [OF this F(3)] run show ?thesis by simp
    next
      case False
      note F = rtrav_scan [OF ok False]
      let ?ns = "ns[b := (ns ! b)\<lparr>rpo_number := DONE\<rparr>]" and ?st = "(b, (None, None)) # st"
      have b: "b < length (cfg_data G)" using F(1) rtrav_okD(1) [OF ok] by simp
      have "rtrav_ok G r ?ns (map fst ?st) (insert b sc) sc po" "b \<in> set (map fst ?st)" using F(3) by simp_all
      moreover have "set (preds (cfg_data G ! b)) \<subseteq> pred_set G b" by (simp add: pred_set_def)
      moreover have "set (preds (cfg_data G ! b)) \<subseteq> {..<length ?ns}"
        using Cfg_okD(4) [OF assms(1) b] rtrav_okD(1) [OF ok] by auto
      ultimately obtain stack' ns' where push: "push_unseen (preds (cfg_data G ! b)) ?st ?ns = Some (stack', ns')"
        and ok': "rtrav_ok G r ns' (map fst stack') (insert b sc) sc po"
        and seen: "set (preds (cfg_data G ! b)) \<subseteq> set (po @ map fst stack')"
        using push_unseen_ok by blast
      have run: "reverse_postorder_loop G stack ns po = reverse_postorder_loop G stack' ns' po"
        using F(1,2) Cons e push b by (subst reverse_postorder_loop.simps) (simp add: Cfg_pred_iter_def)
      have ok2: "rtrav_ok G r ns' (map fst stack') (insert b sc) (insert b sc) po"
        unfolding rtrav_ok_def using rtrav_okD [OF ok'] seen by (auto simp: pred_set_def)
      have len': "length ns' = length ns" using rtrav_okD(1) [OF ok] rtrav_okD(1) [OF ok'] by simp
      have "card (insert b sc) = card sc + 1" using False fin by simp
      with len len' have "2 * (length ns' - length po) - card (insert b sc) < 2 * (length ns - length po) - card sc" by simp
      from less.hyps [OF this ok2] run show ?thesis by simp
    qed
  qed
qed

lemma compute_reverse_postorder_ok:
  assumes "Cfg_ok G" "length (cfg_data G) = length (blocks (fn_layout F))" "Layout_last_block (fn_layout F) = Some r"
    and "r < length (cfg_data G)" "dt_reverse_nodes T = []" "dt_postorder T = []" "dt_stack T = []"
  shows "\<exists>ns po. DominatorTree_compute_reverse_postorder F G T = Some (T\<lparr>dt_reverse_nodes := ns, dt_postorder := po\<rparr>) \<and>
    listed_nodes (pred_set G) r (length (cfg_data G)) po ns"
proof -
  let ?n = "length (cfg_data G)"
  define ns0 where "ns0 = (vec_resize [] ?n blank_node)[r := blank_node\<lparr>rpo_number := SEEN\<rparr>]"
  have blank: "vec_resize [] ?n blank_node ! b = blank_node" if "b < ?n" for b
    using that by (simp add: vec_resize_def)
  have "rtrav_ok G r ns0 (map fst [(r, (None, None) :: successors)]) {} {} []"
    unfolding rtrav_ok_def
  proof (intro conjI allI impI ballI)
    fix b assume "b < length ns0"
    then show "ns0 ! b = trav_node (set [] \<union> {}) (set (map fst [(r, (None, None) :: successors)])) b"
      using blank [of b] by (simp add: ns0_def nth_list_update trav_node_def blank_node_def)
  qed (use assms(4) in \<open>simp_all add: ns0_def\<close>)
  from reverse_postorder_loop_ok [OF assms(1) this] obtain ns po where
    run: "reverse_postorder_loop G [(r, (None, None))] ns0 [] = Some (ns, po)" and ok: "rtrav_ok G r ns [] {} {} po" by blast
  have listed: "tree_listed (pred_set G) r po" using rtrav_okD(2) [OF ok] by simp
  have po: "po \<noteq> []" "last po = r" using tree_listed_last [OF listed] by simp_all
  have run': "DominatorTree_compute_reverse_postorder F G T = Some (T\<lparr>dt_reverse_nodes := ns, dt_postorder := po\<rparr>)"
    using run po assms(2-7) blank [OF assms(4)]
    by (simp add: DominatorTree_compute_reverse_postorder_def Layout_num_blocks_def ns0_def)
  have "r \<in> set po" using po last_in_set by blast
  moreover have "x \<in> set po" if "p \<in> set po" "x \<in> pred_set G p" for p x
    using rtrav_okD(6) [OF ok, of p] that by auto
  ultimately have "reached (pred_set G) r \<subseteq> set po" by (intro reached_least)
  then have "set po = reached (pred_set G) r" using tree_listed_reached [OF listed] by blast
  then have "listed_nodes (pred_set G) r ?n po ns"
    using rtrav_okD(1-3,5) [OF ok] listed by (simp add: listed_nodes_def)
  with run' show ?thesis by blast
qed

section \<open>The immediate dominators\<close>

text \<open>The graph of a direction, and the lists the immediate dominators are computed from.\<close>

definition flow :: "bool \<Rightarrow> control_flow_graph \<Rightarrow> block \<Rightarrow> block set" where
  "flow reverse G = (if reverse then pred_set G else succ_set G)"

definition idom_preds :: "bool \<Rightarrow> control_flow_graph \<Rightarrow> block \<Rightarrow> block list" where
  "idom_preds reverse G b = (if reverse then Successors_iter (succ_at G b) else preds (cfg_data G ! b))"

lemma compute_idom_preds:
  assumes "cfg_valid G" "b < length (cfg_data G)"
  shows "DominatorTree_compute_idom reverse b G T = compute_idom_nodes (dt_select reverse T) (idom_preds reverse G b)"
  using assms by (simp add: DominatorTree_compute_idom_def Cfg_succ_iter_def Cfg_pred_iter_def idom_preds_def
      dt_select_def succ_at_def)

lemma set_idom_preds:
  assumes "Cfg_ok G" "b < length (cfg_data G)"
  shows "set (idom_preds reverse G b) = {p. p < length (cfg_data G) \<and> b \<in> flow reverse G p}"
  using Cfg_okD [OF assms] Cfg_okD(4) [OF assms(1)] assms(2)
  by (auto simp: idom_preds_def flow_def succ_set_def pred_set_def)

lemma flow_range:
  assumes "Cfg_ok G" "p < length (cfg_data G)"
  shows "flow reverse G p \<subseteq> {..<length (cfg_data G)}"
  using Cfg_okD(3,4) [OF assms] by (auto simp: flow_def pred_set_def)

lemma reached_range:
  assumes "Cfg_ok G" "r < length (cfg_data G)"
  shows "reached (flow reverse G) r \<subseteq> {..<length (cfg_data G)}"
  by (rule reached_least) (use assms flow_range [OF assms(1)] in auto)

text \<open>
  The table while the blocks \<open>vs\<close> of the post-order \<open>ps\<close> have their number and parent.
\<close>

definition tree_nodes :: "nat \<Rightarrow> block list \<Rightarrow> block list \<Rightarrow> (block \<Rightarrow> block option) \<Rightarrow> dom_tree_node list \<Rightarrow> bool" where
  "tree_nodes n ps vs par ns \<longleftrightarrow> length ns = n \<and> set vs \<subseteq> set ps \<and> set ps \<subseteq> {..<n} \<and>
     (\<forall>b < n. ns ! b = \<lparr>rpo_number = (if b \<in> set vs then rank ps b else if b \<in> set ps then 1 else 0),
        node_idom = (if b \<in> set vs then par b else None)\<rparr>)"

lemma tree_nodesD:
  assumes "tree_nodes n ps vs par ns"
  shows "length ns = n" "set vs \<subseteq> set ps" "set ps \<subseteq> {..<n}"
    "b \<in> set vs \<Longrightarrow> b < n \<and> ns ! b = \<lparr>rpo_number = rank ps b, node_idom = par b\<rparr>"
    "b < n \<Longrightarrow> b \<notin> set vs \<Longrightarrow> rpo_number (ns ! b) \<le> 1"
  using assms by (auto simp: tree_nodes_def)

lemma tree_nodes_update:
  assumes "tree_nodes n ps vs par ns" "b \<in> set ps" "set ws = insert b (set vs)"
  shows "tree_nodes n ps ws (par(b := Some q)) (ns[b := \<lparr>rpo_number = rank ps b, node_idom = Some q\<rparr>])"
  using assms unfolding tree_nodes_def by (auto simp: nth_list_update)

lemma common_dominator_ok:
  assumes "ranked S r (rank ps)" "links_ok S r (rank ps) (set vs) par" "tree_nodes n ps vs par ns"
    and "a \<in> set vs" "b \<in> set vs"
  shows "\<exists>c \<in> set vs. common_dominator ns a b = Some c \<and> anc par c = anc par a \<inter> anc par b"
  using assms(4,5)
proof (induction "rank ps a + rank ps b" arbitrary: a b rule: less_induct)
  case less
  note T = tree_nodesD [OF assms(3)] and L = links_okD [OF assms(2)] and R = rankedD [OF assms(1)]
  have nodes: "vec_get ns a = Some \<lparr>rpo_number = rank ps a, node_idom = par a\<rparr>"
    "vec_get ns b = Some \<lparr>rpo_number = rank ps b, node_idom = par b\<rparr>"
    using T(1) T(4) [OF less.prems(1)] T(4) [OF less.prems(2)] by simp_all
  have mem: "a \<in> reached S r" "b \<in> reached S r" using L(2) less.prems by auto
  have parent: "\<exists>q \<in> set vs. par y = Some q \<and> rank ps q < rank ps y"
    if "x \<in> reached S r" "y \<in> set vs" "rank ps x < rank ps y" for x y
  proof -
    have "y \<noteq> r" using R(3) [OF that(1)] that(3) by (cases "x = r") auto
    then show ?thesis using L(4) [OF that(2)] by blast
  qed
  consider "rank ps a < rank ps b" | "rank ps b < rank ps a" | "rank ps a = rank ps b" by linarith
  then show ?case
  proof cases
    case 1
    then obtain q where q: "q \<in> set vs" "par b = Some q" "rank ps q < rank ps b"
      using parent [OF mem(1) less.prems(2)] by blast
    have "common_dominator ns a b = common_dominator ns a q"
      using nodes 1 q(2) by (subst common_dominator.simps) simp
    moreover have "anc par a \<inter> anc par b = anc par a \<inter> anc par q"
      by (rule anc_common_step [OF assms(2) less.prems 1 q(2)])
    ultimately show ?thesis using less.hyps [of a q] less.prems(1) q by simp
  next
    case 2
    then obtain q where q: "q \<in> set vs" "par a = Some q" "rank ps q < rank ps a"
      using parent [OF mem(2) less.prems(1)] by blast
    have "common_dominator ns a b = common_dominator ns q b"
      using nodes 2 q(2) by (subst common_dominator.simps) simp
    moreover have "anc par a \<inter> anc par b = anc par q \<inter> anc par b"
      using anc_common_step [OF assms(2) less.prems(2,1) 2 q(2)] by blast
    ultimately show ?thesis using less.hyps [of q b] less.prems(2) q by simp
  next
    case 3
    then have "a = b" using inj_onD [OF R(2)] mem by blast
    moreover have "common_dominator ns a b = Some a" using nodes 3 by (subst common_dominator.simps) simp
    ultimately show ?thesis using less.prems(1) by auto
  qed
qed

lemma common_dominators_ok:
  assumes "ranked S r (rank ps)" "links_ok S r (rank ps) (set vs) par" "tree_nodes n ps vs par ns"
    and "a \<in> set vs" "set bs \<subseteq> set vs"
  shows "\<exists>c \<in> set vs. common_dominators ns a bs = Some c \<and> anc par c = anc par a \<inter> (\<Inter>b \<in> set bs. anc par b)"
  using assms(4,5)
proof (induction bs arbitrary: a)
  case (Cons b bs)
  then obtain c where c: "c \<in> set vs" "common_dominator ns a b = Some c" "anc par c = anc par a \<inter> anc par b"
    using common_dominator_ok [OF assms(1-3), of a b] by auto
  from Cons.IH [OF c(1)] Cons.prems(2) obtain d where
    "d \<in> set vs" "common_dominators ns c bs = Some d" "anc par d = anc par c \<inter> (\<Inter>b \<in> set bs. anc par b)" by auto
  with c show ?case by (intro bexI [of _ d]) auto
qed simp

lemma visited_preds_ok:
  assumes "tree_nodes n ps vs par ns" "set bs \<subseteq> {..<n}"
  shows "visited_preds ns bs = Some (filter (\<lambda>p. p \<in> set vs) bs)"
  using assms(2)
proof (induction bs)
  case (Cons b bs)
  note T = tree_nodesD [OF assms(1)]
  have "rpo_number (ns ! b) > 1 \<longleftrightarrow> b \<in> set vs"
  proof (cases "b \<in> set vs")
    case True
    then show ?thesis using T(4) [OF True] rank_ge [of b ps] T(2) by auto
  next
    case False
    then show ?thesis using T(5) [of b] Cons.prems by auto
  qed
  with Cons T(1) show ?case by auto
qed simp

lemma compute_idom_ok:
  assumes "ranked S r (rank ps)" "links_ok S r (rank ps) (set vs) par" "tree_nodes n ps vs par ns"
    and "set bs \<subseteq> {..<n}" "P = set bs \<inter> set vs" "P \<noteq> {}"
  shows "\<exists>q \<in> set vs. compute_idom_nodes ns bs = Some q \<and> anc par q = (\<Inter>p \<in> P. anc par p)"
proof -
  obtain p qs where f: "filter (\<lambda>p. p \<in> set vs) bs = p # qs"
    using assms(5,6) by (cases "filter (\<lambda>p. p \<in> set vs) bs") (auto simp: filter_empty_conv)
  have P: "P = insert p (set qs)" using arg_cong [OF f, of set] assms(5) by auto
  then have "p \<in> set vs" "set qs \<subseteq> set vs" using assms(5) by auto
  from common_dominators_ok [OF assms(1-3) this] obtain c where
    "c \<in> set vs" "common_dominators ns p qs = Some c" "anc par c = anc par p \<inter> (\<Inter>b \<in> set qs. anc par b)" by blast
  moreover have "compute_idom_nodes ns bs = common_dominators ns p qs"
    using visited_preds_ok [OF assms(3,4)] f by (simp add: compute_idom_nodes_def)
  ultimately show ?thesis unfolding P by auto
qed

text \<open>One block's parent is computed from the predecessors that have a number already.\<close>

lemma idom_update:
  assumes "Cfg_ok G" "cfg_valid G" "r < length (cfg_data G)" "ranked (flow reverse G) r (rank ps)"
    and "links_ok (flow reverse G) r (rank ps) (set vs) par"
    and "tree_nodes (length (cfg_data G)) ps vs par (dt_select reverse T)"
    and "b \<in> reached (flow reverse G) r" "b \<noteq> r" "set ps = reached (flow reverse G) r"
    and "P = {p \<in> set vs. b \<in> flow reverse G p}" "p0 \<in> P" "rank ps p0 < rank ps b"
  shows "\<exists>q \<in> set vs. DominatorTree_compute_idom reverse b G T = Some q \<and>
    anc par q = (\<Inter>p \<in> P. anc par p) \<and> anc (par(b := Some q)) b = insert b (\<Inter>p \<in> P. anc par p) \<and>
    links_ok (flow reverse G) r (rank ps) (insert b (set vs)) (par(b := Some q))"
proof -
  let ?n = "length (cfg_data G)"
  have b: "b < ?n" using reached_range [OF assms(1,3)] assms(7) by auto
  have vs: "set vs \<subseteq> {..<?n}" using tree_nodesD(2,3) [OF assms(6)] by blast
  have preds: "set (idom_preds reverse G b) \<subseteq> {..<?n}" "P = set (idom_preds reverse G b) \<inter> set vs"
    using set_idom_preds [OF assms(1) b] vs assms(10) by auto
  obtain q where q: "q \<in> set vs" "compute_idom_nodes (dt_select reverse T) (idom_preds reverse G b) = Some q"
    "anc par q = (\<Inter>p \<in> P. anc par p)"
    using compute_idom_ok [OF assms(4-6) preds] assms(11) by blast
  have "P \<subseteq> set vs" using assms(10) by auto
  moreover have "b \<in> flow reverse G p" if "p \<in> P" for p using that assms(10) by simp
  ultimately show ?thesis
    using links_update [OF assms(4,5,7,8) _ _ assms(11,12) q(1,3)] q compute_idom_preds [OF assms(2) b] by metis
qed

lemma dt_select_assign [simp]:
  "dt_select reverse (dt_assign reverse ns T) = ns" "dt_assign reverse ms (dt_assign reverse ns T) = dt_assign reverse ms T"
  "dt_assign reverse (dt_select reverse T) T = T"
  by (simp_all add: dt_select_def dt_assign_def)

lemma number_blocks_ok:
  assumes "Cfg_ok G" "cfg_valid G" "r < length (cfg_data G)"
    and "tree_listed (flow reverse G) r ps" "set ps = reached (flow reverse G) r" "ps = us @ vs" "vs \<noteq> []"
    and "tree_nodes (length (cfg_data G)) ps vs par (dt_select reverse T)"
    and "links_ok (flow reverse G) r (rank ps) (set vs) par"
  shows "\<exists>ns par. number_blocks reverse G (length vs - 1) (rev us) T = Some (dt_assign reverse ns T) \<and>
    tree_nodes (length (cfg_data G)) ps ps par ns \<and> links_ok (flow reverse G) r (rank ps) (set ps) par"
  using assms(6-9)
proof (induction us arbitrary: vs par T rule: rev_induct)
  case Nil
  then show ?case by (intro exI [of _ "dt_select reverse T"] exI [of _ par]) simp
next
  case (snoc b us)
  let ?S = "flow reverse G"
  note ranked = ranked_rank [OF assms(4,5)]
  have listed: "tree_listed ?S r (b # vs)" using tree_listed_suffix [of ?S r us "b # vs"] assms(4) snoc.prems(1) by simp
  then have bv: "b \<notin> set vs" "\<exists>p \<in> set vs. b \<in> ?S p" "tree_listed ?S r vs"
    using snoc.prems(2) by (simp_all add: tree_listed_Cons)
  have r: "r \<in> set vs" using tree_listed_last [OF bv(3)] last_in_set [of vs] by auto
  then have b: "b \<in> reached ?S r" "b \<noteq> r" using assms(5) snoc.prems(1) bv(1) by auto
  have dist: "distinct ps" by (rule tree_listed_distinct [OF assms(4)])
  have rank_b: "rank ps b = length vs + 2" using dist snoc.prems(1) by (simp add: rank_append)
  obtain p0 where p0: "p0 \<in> set vs" "b \<in> ?S p0" using bv(2) by blast
  have "p0 \<notin> set (us @ [b])" using dist snoc.prems(1) p0(1) by auto
  then have "rank ps p0 = rank vs p0" using rank_append [of p0 "us @ [b]" vs] snoc.prems(1) by simp
  then have lt: "rank ps p0 < rank ps b" using rank_le [of vs p0] rank_b by simp
  from idom_update [OF assms(1-3) ranked snoc.prems(4,3) b assms(5) refl _ lt] p0 obtain q where
    q: "DominatorTree_compute_idom reverse b G T = Some q"
      "links_ok ?S r (rank ps) (insert b (set vs)) (par(b := Some q))" by auto
  let ?T = "dt_assign reverse ((dt_select reverse T)[b := \<lparr>rpo_number = rank ps b, node_idom = Some q\<rparr>]) T"
  have bn: "b < length (dt_select reverse T)" "b \<in> set ps"
    using tree_nodesD(1,3) [OF snoc.prems(3)] snoc.prems(1) by auto
  have len: "length vs - 1 + 3 = length vs + 2" "length (b # vs) - 1 = length vs - 1 + 1"
    using snoc.prems(2) by (cases vs; simp)+
  have run: "number_blocks reverse G (length vs - 1) (rev (us @ [b])) T = number_blocks reverse G (length (b # vs) - 1) (rev us) ?T"
    using q(1) bn(1) rank_b len by simp
  have tn: "tree_nodes (length (cfg_data G)) ps (b # vs) (par(b := Some q)) (dt_select reverse ?T)"
    using tree_nodes_update [OF snoc.prems(3) bn(2), of "b # vs" q] by simp
  have lk: "links_ok ?S r (rank ps) (set (b # vs)) (par(b := Some q))" using q(2) by simp
  have "ps = us @ b # vs" "b # vs \<noteq> []" using snoc.prems(1) by simp_all
  from snoc.IH [OF this tn lk] obtain ns par' where
    "number_blocks reverse G (length (b # vs) - 1) (rev us) ?T = Some (dt_assign reverse ns ?T)"
    "tree_nodes (length (cfg_data G)) ps ps par' ns" "links_ok ?S r (rank ps) (set ps) par'" by blast
  with run show ?case by auto
qed

text \<open>
  A pass over the blocks in reverse post-order. It changes nothing once the ancestors are the
  dominators, and it covers walks that are one block longer.
\<close>

lemma idom_pass_ok:
  assumes "Cfg_ok G" "cfg_valid G" "r < length (cfg_data G)"
    and "tree_listed (flow reverse G) r ps" "set ps = reached (flow reverse G) r"
    and "tree_nodes (length (cfg_data G)) ps ps par (dt_select reverse T)"
    and "links_ok (flow reverse G) r (rank ps) (set ps) par" "set bs \<subseteq> set ps - {r}"
    and "converged (flow reverse G) r f par" "\<And>y. m \<le> f y \<and> f y \<le> Suc m"
  shows "\<exists>ns par' changed'. idom_pass reverse G bs (T, changed) = Some (dt_assign reverse ns T, changed') \<and>
    tree_nodes (length (cfg_data G)) ps ps par' ns \<and> links_ok (flow reverse G) r (rank ps) (set ps) par' \<and>
    converged (flow reverse G) r (\<lambda>y. if y \<in> set bs then Suc m else f y) par' \<and> (changed \<longrightarrow> changed') \<and>
    (\<not> changed' \<longrightarrow> ns = dt_select reverse T \<and> par' = par) \<and>
    ((\<forall>y \<in> set ps. anc par y = {d. dominator_of (flow reverse G) r d y}) \<longrightarrow> changed' = changed)"
  using assms(6-10)
proof (induction bs arbitrary: par T f changed)
  case Nil
  then show ?case by (intro exI [of _ "dt_select reverse T"] exI [of _ par] exI [of _ changed]) simp
next
  case (Cons b bs)
  let ?S = "flow reverse G" and ?n = "length (cfg_data G)"
  let ?P = "{p \<in> set ps. b \<in> ?S p}"
  note ranked = ranked_rank [OF assms(4,5)] and T = tree_nodesD [OF Cons.prems(1)]
  have b: "b \<in> reached ?S r" "b \<noteq> r" "b \<in> set ps" using Cons.prems(3) assms(5) by auto
  obtain p0 where p0: "p0 \<in> ?P" "rank ps p0 < rank ps b" using rankedD(4) [OF ranked b(1,2)] assms(5) by auto
  from idom_update [OF assms(1-3) ranked Cons.prems(2,1) b(1,2) assms(5) refl p0] obtain q where
    q: "q \<in> set ps" "DominatorTree_compute_idom reverse b G T = Some q" "anc par q = (\<Inter>p \<in> ?P. anc par p)"
      "anc (par(b := Some q)) b = insert b (\<Inter>p \<in> ?P. anc par p)"
      "links_ok ?S r (rank ps) (insert b (set ps)) (par(b := Some q))" by blast
  let ?par = "par(b := Some q)" and ?ns = "(dt_select reverse T)[b := \<lparr>rpo_number = rank ps b, node_idom = Some q\<rparr>]"
  have ins: "insert b (set ps) = set ps" using b(3) by auto
  have node: "vec_get (dt_select reverse T) b = Some \<lparr>rpo_number = rank ps b, node_idom = par b\<rparr>" "b < length (dt_select reverse T)"
    using T(1) T(4) [OF b(3)] by simp_all
  have nodes': "tree_nodes ?n ps ps ?par ?ns" using tree_nodes_update [OF Cons.prems(1) b(3), of ps q] ins by simp
  have links': "links_ok ?S r (rank ps) (set ps) ?par" using q(5) ins by simp
  have conv': "converged ?S r (f(b := Suc m)) ?par"
    by (rule converged_update [OF Cons.prems(4) b(2) Cons.prems(5) q(4)]) (simp add: assms(5))
  have f': "m \<le> (f(b := Suc m)) y \<and> (f(b := Suc m)) y \<le> Suc m" for y using Cons.prems(5) by simp
  have merge: "(\<lambda>y. if y \<in> set bs then Suc m else (f(b := Suc m)) y) = (\<lambda>y. if y \<in> set (b # bs) then Suc m else f y)"
    by (auto simp: fun_eq_iff)
  have stable: "par b = Some q" if "\<forall>y \<in> set ps. anc par y = {d. dominator_of ?S r d y}"
  proof (rule update_stable [OF ranked _ _ b(1,2)])
    show "links_ok ?S r (rank ps) (reached ?S r) par" using Cons.prems(2) assms(5) by simp
    show "q \<in> reached ?S r" "anc par q = (\<Inter>p \<in> {p \<in> reached ?S r. b \<in> ?S p}. anc par p)"
      using q(1,3) assms(5) by simp_all
  qed (use that assms(5) in simp)
  show ?case
  proof (cases "par b = Some q")
    case True
    then have same: "?par = par" by (simp add: fun_upd_idem)
    then have "?ns = dt_select reverse T" using node True by (auto simp: list_update_same_conv)
    with True have run: "idom_pass reverse G (b # bs) (T, changed) = idom_pass reverse G bs (T, changed)"
      using q(2) node by simp
    have "set bs \<subseteq> set ps - {r}" using Cons.prems(3) by simp
    from Cons.IH [OF Cons.prems(1,2) this conv' [unfolded same] f'] run merge show ?thesis by simp
  next
    case False
    then have run: "idom_pass reverse G (b # bs) (T, changed) = idom_pass reverse G bs (dt_assign reverse ?ns T, True)"
      using q(2) node by simp
    have "set bs \<subseteq> set ps - {r}" using Cons.prems(3) by simp
    moreover have "tree_nodes ?n ps ps ?par (dt_select reverse (dt_assign reverse ?ns T))" using nodes' by simp
    ultimately obtain ns par' changed' where
      rec: "idom_pass reverse G bs (dt_assign reverse ?ns T, True) = Some (dt_assign reverse ns (dt_assign reverse ?ns T), changed')"
      "tree_nodes ?n ps ps par' ns" "links_ok ?S r (rank ps) (set ps) par'"
      "converged ?S r (\<lambda>y. if y \<in> set bs then Suc m else (f(b := Suc m)) y) par'" "True \<longrightarrow> changed'"
      using Cons.IH [OF _ links' _ conv' f', of "dt_assign reverse ?ns T" True] by blast
    have "\<not> (\<forall>y \<in> set ps. anc par y = {d. dominator_of ?S r d y})" using stable False by blast
    then show ?thesis
      using run rec by (intro exI [of _ ns] exI [of _ par'] exI [of _ changed']) (auto simp: merge)
  qed
qed

lemma idom_loop_ok:
  assumes "Cfg_ok G" "cfg_valid G" "r < length (cfg_data G)"
    and "tree_listed (flow reverse G) r ps" "set ps = reached (flow reverse G) r" "set bs = set ps - {r}"
    and "tree_nodes (length (cfg_data G)) ps ps par (dt_select reverse T)"
    and "links_ok (flow reverse G) r (rank ps) (set ps) par" "converged (flow reverse G) r (\<lambda>_. m) par"
  shows "\<exists>ns par'. idom_loop reverse G bs T = Some (dt_assign reverse ns T) \<and>
    tree_nodes (length (cfg_data G)) ps ps par' ns \<and> links_ok (flow reverse G) r (rank ps) (set ps) par' \<and>
    (\<forall>y \<in> set ps. anc par' y = {d. dominator_of (flow reverse G) r d y})"
  using assms(7-9)
proof (induction "Suc (length ps) - m" arbitrary: par T m rule: less_induct)
  case less
  let ?S = "flow reverse G" and ?n = "length (cfg_data G)"
  note ranked = ranked_rank [OF assms(4,5)]
  have card: "card (reached ?S r) = length ps" using distinct_card [OF tree_listed_distinct [OF assms(4)]] assms(5) by simp
  have sub: "set bs \<subseteq> set ps - {r}" using assms(6) by simp
  have pass: "\<exists>ns par' changed'. idom_pass reverse G bs (T, False) = Some (dt_assign reverse ns T, changed') \<and>
      tree_nodes ?n ps ps par' ns \<and> links_ok ?S r (rank ps) (set ps) par' \<and> converged ?S r (\<lambda>_. Suc k) par' \<and>
      (\<not> changed' \<longrightarrow> ns = dt_select reverse T \<and> par' = par) \<and>
      ((\<forall>y \<in> set ps. anc par y = {d. dominator_of ?S r d y}) \<longrightarrow> \<not> changed')"
    if k: "converged ?S r (\<lambda>_. k) par" for k
  proof -
    have le_Suc: "k \<le> k \<and> k \<le> Suc k" for y :: block by simp
    obtain ns par' changed' where
      P: "idom_pass reverse G bs (T, False) = Some (dt_assign reverse ns T, changed')"
        "tree_nodes ?n ps ps par' ns" "links_ok ?S r (rank ps) (set ps) par'"
        "converged ?S r (\<lambda>y. if y \<in> set bs then Suc k else k) par'"
        "\<not> changed' \<longrightarrow> ns = dt_select reverse T \<and> par' = par"
        "(\<forall>y \<in> set ps. anc par y = {d. dominator_of ?S r d y}) \<longrightarrow> changed' = False"
      using idom_pass_ok [OF assms(1-5) less.prems(1,2) sub k le_Suc, of False] by (elim exE conjE) (rule that)
    have "converged ?S r (\<lambda>_. Suc k) par'"
      unfolding converged_def
    proof (intro allI impI)
      fix x qs assume w: "walk ?S r (x # qs)" "length (x # qs) \<le> Suc k"
      have "x \<in> set ps" using walk_set [OF w(1)] assms(5) by simp
      then consider "x = r" | "x \<in> set bs" using assms(6) by auto
      then show "anc par' x \<subseteq> set (x # qs)"
      proof cases
        case 1
        then show ?thesis using anc_None [of par' r] links_okD(3) [OF P(3)] by simp
      next
        case 2
        then show ?thesis using convergedD [OF P(4) w(1)] w(2) by simp
      qed
    qed
    with P show ?thesis by (intro exI [of _ ns] exI [of _ par'] exI [of _ changed']) blast
  qed
  obtain ns par1 changed where P: "idom_pass reverse G bs (T, False) = Some (dt_assign reverse ns T, changed)"
    "tree_nodes ?n ps ps par1 ns" "links_ok ?S r (rank ps) (set ps) par1" "converged ?S r (\<lambda>_. Suc m) par1"
    "\<not> changed \<longrightarrow> ns = dt_select reverse T \<and> par1 = par"
    "(\<forall>y \<in> set ps. anc par y = {d. dominator_of ?S r d y}) \<longrightarrow> \<not> changed"
    using pass [OF less.prems(3)] by blast
  have final: "\<forall>y \<in> set ps. anc par y = {d. dominator_of ?S r d y}" if "converged ?S r (\<lambda>_. k) par" "length ps \<le> k" for k
    using converged_dominators [OF ranked _ that(1)] less.prems(2) that(2) assms(5) card by simp
  show ?case
  proof (cases changed)
    case False
    then have same: "ns = dt_select reverse T" "par1 = par" using P(5) by simp_all
    have "converged ?S r (\<lambda>_. k) par" for k
    proof (induction k)
      case 0
      show ?case by (rule converged_0)
    next
      case (Suc k)
      from pass [OF Suc] P(1) False show ?case by auto
    qed
    then have "\<forall>y \<in> set ps. anc par y = {d. dominator_of ?S r d y}" using final by blast
    moreover have "idom_loop reverse G bs T = Some (dt_assign reverse ns T)"
      using P(1) False by (subst idom_loop.simps) simp
    ultimately show ?thesis using P(2,3) same by blast
  next
    case True
    then have "m < length ps" using final [OF less.prems(3)] P(6) by (cases "length ps \<le> m") auto
    then have dec: "Suc (length ps) - Suc m < Suc (length ps) - m" by simp
    have "tree_nodes ?n ps ps par1 (dt_select reverse (dt_assign reverse ns T))" using P(2) by simp
    from less.hyps [OF dec this P(3,4)] obtain ns' par' where
      "idom_loop reverse G bs (dt_assign reverse ns T) = Some (dt_assign reverse ns' T)"
      "tree_nodes ?n ps ps par' ns'" "links_ok ?S r (rank ps) (set ps) par'"
      "\<forall>y \<in> set ps. anc par' y = {d. dominator_of ?S r d y}" by auto
    moreover have "idom_loop reverse G bs T = idom_loop reverse G bs (dt_assign reverse ns T)"
      using P(1) True by (subst idom_loop.simps) simp
    ultimately show ?thesis by auto
  qed
qed

section \<open>Answers\<close>

lemma dominates_nodes_ok:
  assumes "ranked S r (rank ps)" "set ps = reached S r" "tree_nodes n ps ps par ns" "links_ok S r (rank ps) (set ps) par"
    and "b \<in> set ps" "d < n"
  shows "dominates_nodes ns b d = Some (d \<in> anc par b)"
  using assms(5)
proof (induction "rank ps b" arbitrary: b rule: less_induct)
  case less
  note T = tree_nodesD [OF assms(3)] and L = links_okD [OF assms(4)]
  have nodes: "vec_get ns b = Some \<lparr>rpo_number = rank ps b, node_idom = par b\<rparr>"
    "\<exists>i. vec_get ns d = Some \<lparr>rpo_number = rank ps d, node_idom = i\<rparr>"
    using T(1) T(4) [OF less.prems] assms(3,6) by (auto simp: tree_nodes_def rank_0)
  show ?case
  proof (cases "rank ps d < rank ps b")
    case False
    then have "d \<in> set ps" using rank_ge [OF less.prems] rank_0 [of d ps] by (cases "d \<in> set ps") auto
    have "d \<in> anc par b \<longleftrightarrow> b = d"
    proof
      assume "d \<in> anc par b"
      then have "rank ps d \<le> rank ps b" using anc_lower [OF assms(4) _ less.prems] by blast
      with False have "rank ps d = rank ps b" by simp
      then show "b = d" using inj_onD [OF rank_inj [of ps]] \<open>d \<in> set ps\<close> less.prems by auto
    qed auto
    with nodes False show ?thesis by (subst dominates_nodes.simps) auto
  next
    case True
    then have bd: "b \<noteq> d" by auto
    show ?thesis
    proof (cases "par b")
      case None
      then have "anc par b = {b}" by (rule anc_None)
      with nodes True None bd show ?thesis by (subst dominates_nodes.simps) auto
    next
      case (Some p)
      from links_parent [OF assms(4) less.prems Some] have "p \<in> set ps" "rank ps p < rank ps b" by simp_all
      with less.hyps [of p] have "dominates_nodes ns p d = Some (d \<in> anc par p)" by simp
      with nodes True Some bd anc_Some [of par b p] show ?thesis by (subst dominates_nodes.simps) auto
    qed
  qed
qed

text \<open>The parents recorded in a table of nodes are links whose ancestors are the dominators.\<close>

definition dominator_links :: "(block \<Rightarrow> block set) \<Rightarrow> block \<Rightarrow> nat \<Rightarrow> dom_tree_node list \<Rightarrow> bool" where
  "dominator_links S r n ns \<longleftrightarrow> (\<exists>num par. links_ok S r num (reached S r) par \<and>
     (\<forall>y \<in> reached S r. anc par y = {d. dominator_of S r d y}) \<and>
     (\<forall>b < n. node_idom (ns ! b) = (if b \<in> reached S r then par b else None)))"

definition answers :: "(block \<Rightarrow> block set) \<Rightarrow> block \<Rightarrow> nat \<Rightarrow> dom_tree_node list \<Rightarrow> bool" where
  "answers S r n ns \<longleftrightarrow> length ns = n \<and> dominator_links S r n ns \<and>
     (\<forall>b \<in> reached S r. \<forall>d < n. dominates_nodes ns b d = Some (dominator_of S r d b))"

lemma compute_domtree_ok:
  assumes "Cfg_ok G" "cfg_valid G" "r < length (cfg_data G)"
    and "listed_nodes (flow reverse G) r (length (cfg_data G)) (dt_postorder T) (dt_select reverse T)"
  shows "\<exists>ns. DominatorTree_compute_domtree reverse G T = Some (dt_assign reverse ns T) \<and>
    answers (flow reverse G) r (length (cfg_data G)) ns"
proof -
  let ?S = "flow reverse G" and ?n = "length (cfg_data G)" and ?ps = "dt_postorder T"
  have L: "tree_listed ?S r ?ps" "set ?ps = reached ?S r" "set ?ps \<subseteq> {..<?n}" "length (dt_select reverse T) = ?n"
    "\<And>b. b < ?n \<Longrightarrow> dt_select reverse T ! b = trav_node (set ?ps) {} b"
    using assms(4) by (auto simp: listed_nodes_def)
  note ranked = ranked_rank [OF L(1,2)]
  have ps: "?ps \<noteq> []" "last ?ps = r" "distinct ?ps"
    using tree_listed_last [OF L(1)] tree_listed_distinct [OF L(1)] by simp_all
  then have split: "?ps = butlast ?ps @ [r]" using append_butlast_last_id by metis
  have notin: "r \<notin> set (butlast ?ps)" using arg_cong [OF split, of distinct] ps(3) by simp
  have rank_r: "rank ?ps r = 2"
    using arg_cong [OF split, of "\<lambda>ps. rank ps r"] rank_append [OF notin, of "[r]"] by simp
  let ?T = "dt_assign reverse ((dt_select reverse T)[r := \<lparr>rpo_number = 2, node_idom = None\<rparr>]) T"
  have start: "set_rpo r 2 (dt_select reverse T) = Some (dt_select reverse ?T)"
    using assms(3) L(4,5) by (simp add: trav_node_def)
  have rps: "r \<in> set ?ps" using ps(1,2) last_in_set by metis
  have tn: "tree_nodes ?n ?ps [r] (\<lambda>_. None) (dt_select reverse ?T)"
    unfolding tree_nodes_def using L rps rank_r by (auto simp: nth_list_update trav_node_def)
  have lk: "links_ok ?S r (rank ?ps) (set [r]) (\<lambda>_. None)"
    by (auto simp: links_ok_def dominator_root)
  obtain ns1 par1 where N: "number_blocks reverse G 0 (rev (butlast ?ps)) ?T = Some (dt_assign reverse ns1 ?T)"
    "tree_nodes ?n ?ps ?ps par1 ns1" "links_ok ?S r (rank ?ps) (set ?ps) par1"
    using number_blocks_ok [OF assms(1-3) L(1,2) split _ tn lk] by auto
  have bs: "set (rev (butlast ?ps)) = set ?ps - {r}" using arg_cong [OF split, of set] notin by auto
  have "tree_nodes ?n ?ps ?ps par1 (dt_select reverse (dt_assign reverse ns1 ?T))" using N(2) by simp
  from idom_loop_ok [OF assms(1-3) L(1,2) bs this N(3) converged_0] obtain ns par where
    M: "idom_loop reverse G (rev (butlast ?ps)) (dt_assign reverse ns1 ?T) = Some (dt_assign reverse ns T)"
    "tree_nodes ?n ?ps ?ps par ns" "links_ok ?S r (rank ?ps) (set ?ps) par"
    "\<forall>y \<in> set ?ps. anc par y = {d. dominator_of ?S r d y}"
    by auto
  have "DominatorTree_compute_domtree reverse G T = Some (dt_assign reverse ns T)"
    using ps(1,2) start N(1) M(1) by (simp add: DominatorTree_compute_domtree_def)
  moreover have "dominator_links ?S r ?n ns"
    unfolding dominator_links_def
    by (intro exI [of _ "rank ?ps"] exI [of _ par]) (use M(2-4) L(2) in \<open>auto simp: tree_nodes_def\<close>)
  then have "answers ?S r ?n ns"
    using dominates_nodes_ok [OF ranked L(2) M(2,3)] M(4) L(2) tree_nodesD(1) [OF M(2)] by (simp add: answers_def)
  ultimately show ?thesis by blast
qed

section \<open>The dominator tree of a function\<close>

lemma compute_pdom_ok:
  assumes "Cfg_ok G" "cfg_valid G" "length (cfg_data G) = length (blocks (fn_layout F))"
    and "Layout_last_block (fn_layout F) = Some l" "l < length (cfg_data G)"
    and "dt_reverse_nodes T = []" "dt_postorder T = []" "dt_stack T = []"
  shows "\<exists>ns. do { T \<leftarrow> DominatorTree_compute_reverse_postorder F G T;
      T \<leftarrow> DominatorTree_compute_domtree True G T; Some (T\<lparr>dt_postorder := []\<rparr>) } =
    Some (T\<lparr>dt_reverse_nodes := ns\<rparr>) \<and> answers (pred_set G) l (length (cfg_data G)) ns"
proof -
  obtain ns po where P: "DominatorTree_compute_reverse_postorder F G T = Some (T\<lparr>dt_reverse_nodes := ns, dt_postorder := po\<rparr>)"
    "listed_nodes (pred_set G) l (length (cfg_data G)) po ns"
    using compute_reverse_postorder_ok [OF assms(1,3-8)] by blast
  let ?T = "T\<lparr>dt_reverse_nodes := ns, dt_postorder := po\<rparr>"
  have "listed_nodes (flow True G) l (length (cfg_data G)) (dt_postorder ?T) (dt_select True ?T)"
    using P(2) by (simp add: flow_def dt_select_def)
  from compute_domtree_ok [OF assms(1,2,5) this] obtain ns' where
    "DominatorTree_compute_domtree True G ?T = Some (dt_assign True ns' ?T)" "answers (pred_set G) l (length (cfg_data G)) ns'"
    by (auto simp: flow_def)
  with P(1) assms(7) show ?thesis by (intro exI [of _ ns']) (simp add: dt_assign_def)
qed

lemma compute_dom_ok:
  assumes "Cfg_ok G" "cfg_valid G" "length (cfg_data G) = length (blocks (fn_layout F))"
    and "Layout_entry_block (fn_layout F) = Some e" "e < length (cfg_data G)"
    and "dt_nodes T = []" "dt_postorder T = []" "dt_stack T = []"
  shows "\<exists>T1 T2. DominatorTree_compute_postorder F G T = Some T1 \<and> dt_reverse_nodes T1 = dt_reverse_nodes T \<and>
    listed_nodes (succ_set G) e (length (cfg_data G)) (dt_postorder T1) (dt_nodes T1) \<and>
    DominatorTree_compute_domtree False G T1 = Some T2 \<and> dt_reverse_nodes T2 = dt_reverse_nodes T \<and>
    dt_postorder T2 = dt_postorder T1 \<and> answers (succ_set G) e (length (cfg_data G)) (dt_nodes T2)"
proof -
  obtain ns po where P: "DominatorTree_compute_postorder F G T = Some (T\<lparr>dt_nodes := ns, dt_postorder := po\<rparr>)"
    "listed_nodes (succ_set G) e (length (cfg_data G)) po ns"
    using compute_postorder_ok [OF assms(1,3-8)] by blast
  let ?T = "T\<lparr>dt_nodes := ns, dt_postorder := po\<rparr>"
  have "listed_nodes (flow False G) e (length (cfg_data G)) (dt_postorder ?T) (dt_select False ?T)"
    using P(2) by (simp add: flow_def dt_select_def)
  from compute_domtree_ok [OF assms(1,2,5) this] obtain ns' where
    "DominatorTree_compute_domtree False G ?T = Some (dt_assign False ns' ?T)" "answers (succ_set G) e (length (cfg_data G)) ns'"
    by (auto simp: flow_def)
  with P show ?thesis by (intro exI [of _ ?T] exI [of _ "dt_assign False ns' ?T"]) (simp add: dt_assign_def)
qed

lemma compute_ok:
  assumes "Layout_ok (fn_layout F) bs ils" "bs \<noteq> []" "Cfg_ok G" "cfg_valid G"
    and "length (cfg_data G) = length (blocks (fn_layout F))" "dt_stack T = []"
  shows "\<exists>T'. DominatorTree_compute F G want_dom want_pdom want_postorder T = Some T' \<and>
    (want_dom \<longrightarrow> answers (succ_set G) (hd bs) (length (cfg_data G)) (dt_nodes T')) \<and>
    (want_pdom \<longrightarrow> answers (pred_set G) (last bs) (length (cfg_data G)) (dt_reverse_nodes T')) \<and>
    (want_dom \<or> want_postorder \<longrightarrow> tree_listed (succ_set G) (hd bs) (dt_postorder T') \<and>
       set (dt_postorder T') = reached (succ_set G) (hd bs))"
proof -
  let ?n = "length (cfg_data G)"
  have ends: "Layout_entry_block (fn_layout F) = Some (hd bs)" "Layout_last_block (fn_layout F) = Some (last bs)"
    using block_cursor_starts [OF assms(1)] assms(2) by (cases bs; simp add: first_of_def last_of_def)+
  have "set bs \<subseteq> {..<length (blocks (fn_layout F))}"
    using Layout_okD(1) [OF assms(1)] by (auto simp: Blocks_ok_def)
  then have lt: "hd bs < ?n" "last bs < ?n" using assms(2,5) hd_in_set last_in_set by (auto simp: subset_iff)
  define T0 where "T0 = T\<lparr>dt_nodes := [], dt_reverse_nodes := [], dt_postorder := []\<rparr>"
  have T0: "DominatorTree_clear T = Some T0" "dt_nodes T0 = []" "dt_reverse_nodes T0 = []" "dt_postorder T0 = []" "dt_stack T0 = []"
    using assms(6) by (simp_all add: DominatorTree_clear_def T0_def)
  obtain ns where pdom: "do { T \<leftarrow> DominatorTree_compute_reverse_postorder F G T0;
      T \<leftarrow> DominatorTree_compute_domtree True G T; Some (T\<lparr>dt_postorder := []\<rparr>) } = Some (T0\<lparr>dt_reverse_nodes := ns\<rparr>)"
    "answers (pred_set G) (last bs) ?n ns"
    using compute_pdom_ok [OF assms(3-5) ends(2) lt(2) T0(3-5)] by blast
  define T1 where "T1 = (if want_pdom then T0\<lparr>dt_reverse_nodes := ns\<rparr> else T0)"
  have T1: "dt_nodes T1 = []" "dt_postorder T1 = []" "dt_stack T1 = []" "want_pdom \<longrightarrow> dt_reverse_nodes T1 = ns"
    using T0 by (simp_all add: T1_def)
  obtain T2 T3 where D: "DominatorTree_compute_postorder F G T1 = Some T2" "dt_reverse_nodes T2 = dt_reverse_nodes T1"
    "listed_nodes (succ_set G) (hd bs) ?n (dt_postorder T2) (dt_nodes T2)"
    "DominatorTree_compute_domtree False G T2 = Some T3" "dt_reverse_nodes T3 = dt_reverse_nodes T1"
    "dt_postorder T3 = dt_postorder T2" "answers (succ_set G) (hd bs) ?n (dt_nodes T3)"
    using compute_dom_ok [OF assms(3-5) ends(1) lt(1) T1(1-3)] by (elim exE conjE) (rule that)
  define T' where "T' = (if want_dom then T3 else if want_postorder then T2 else T1)"
  have "(if want_pdom then do { T \<leftarrow> DominatorTree_compute_reverse_postorder F G T0;
      T \<leftarrow> DominatorTree_compute_domtree True G T; Some (T\<lparr>dt_postorder := []\<rparr>) } else Some T0) = Some T1"
    using pdom(1) by (simp add: T1_def)
  moreover have "do { T \<leftarrow> (if want_dom \<or> want_postorder then DominatorTree_compute_postorder F G T1 else Some T1);
      (if want_dom then DominatorTree_compute_domtree False G T else Some T) } = Some T'"
    using D(1,4) by (simp add: T'_def)
  ultimately have "DominatorTree_compute F G want_dom want_pdom want_postorder T = Some T'"
    using T0(1) assms(4) by (simp add: DominatorTree_compute_def Cfg_is_valid_def)
  moreover have "dt_reverse_nodes T' = dt_reverse_nodes T1" using D(2,5) by (simp add: T'_def)
  moreover have "want_dom \<or> want_postorder \<longrightarrow> dt_postorder T' = dt_postorder T2" using D(6) by (simp add: T'_def)
  ultimately show ?thesis
    using pdom(2) D(3,7) T1(4) by (intro exI [of _ T']) (auto simp: listed_nodes_def T'_def)
qed

text \<open>
  C25: Computing the dominator tree of a function returns, and \<open>dominates\<close> then decides dominance: for
  every block that the entry reaches, it is true exactly for the blocks that lie on every path from
  the entry to it.
\<close>

theorem dominates_decides:
  assumes "Layout_ok (fn_layout F) bs ils" "bs \<noteq> []" "Cfg_ok G" "cfg_valid G"
    and "length (cfg_data G) = length (blocks (fn_layout F))" "dt_stack T = []"
  shows "\<exists>T'. DominatorTree_compute F G True want_pdom want_postorder T = Some T' \<and>
    (\<forall>b \<in> reached (succ_set G) (hd bs). \<forall>d < length (cfg_data G).
       DominatorTree_dominates T' b d =
         Some (\<forall>path. walk (succ_set G) (hd bs) (b # path) \<longrightarrow> d \<in> set (b # path)))"
  using compute_ok [OF assms, of True want_pdom want_postorder]
  by (auto simp: answers_def DominatorTree_dominates_def dominator_of_def)

text \<open>
  C26: After computing with post-dominators, \<open>post_dominates\<close> is true, for a block from which the last
  block of the layout can be reached, exactly for the blocks on every path from it to the last block.
\<close>

theorem post_dominates_decides:
  assumes "Layout_ok (fn_layout F) bs ils" "bs \<noteq> []" "Cfg_ok G" "cfg_valid G"
    and "length (cfg_data G) = length (blocks (fn_layout F))" "dt_stack T = []"
  shows "\<exists>T'. DominatorTree_compute F G want_dom True want_postorder T = Some T' \<and>
    (\<forall>b \<in> reached (pred_set G) (last bs). \<forall>d < length (cfg_data G).
       DominatorTree_post_dominates T' b d =
         Some (\<forall>path. walk (pred_set G) (last bs) (b # path) \<longrightarrow> d \<in> set (b # path)))"
  using compute_ok [OF assms, of want_dom True want_postorder]
  by (auto simp: answers_def DominatorTree_post_dominates_def dominator_of_def)

lemma jump_graph:
  obtains L G where "Layout_ok (fn_layout (decl_function (jump_to 1) L)) [0, 1] ((\<lambda>_. [])(0 := [0, 1], 1 := [2]))"
    "Cfg_compute (decl_function (jump_to 1) L) Cfg_new = Some G" "Cfg_ok G" "cfg_valid G"
    "length (cfg_data G) = length (blocks (fn_layout (decl_function (jump_to 1) L)))" "length (cfg_data G) = 3"
    "succ_set G 0 = {1}" "pred_set G 1 = {0}"
proof -
  obtain L where L: "Layout_ok L [0, 1] ((\<lambda>_. [])(0 := [0, 1], 1 := [2]))" "length (blocks L) = 3"
    using two_blocks_layout by blast
  have lt: "(1::nat) < 3" by simp
  note F = jump_to_function [OF L lt]
  obtain G where G: "Cfg_compute (decl_function (jump_to 1) L) Cfg_new = Some G" "Cfg_ok G" "cfg_valid G"
    "length (cfg_data G) = length (blocks (fn_layout (decl_function (jump_to 1) L)))"
    "\<forall>x < length (blocks (fn_layout (decl_function (jump_to 1) L))). succ_at G x =
      (if x \<in> set [0, 1] then succ_pair (last_targets (decl_function (jump_to 1) L) x) else (None, None))"
    using Cfg_compute_ok [OF F(1), of Cfg_new] by blast
  have n: "length (cfg_data G) = 3" using G(4) L(2) by (simp add: decl_function_def)
  then have at: "succ_set G 0 = {1}" "succ_set G 1 = {}" "succ_set G 2 = {}"
    using G(4,5) F(2,3) by (auto simp: succ_set_def succ_pair_def)
  have "a = 0" if "a < 3" "1 \<in> succ_set G a" for a
  proof -
    from that(1) consider "a = 0" | "a = 1" | "a = 2" by linarith
    then show ?thesis using at that(2) by cases auto
  qed
  then have "pred_set G 1 = {0}" using Cfg_okD(4) [OF G(2), of 1] n at by (auto simp: pred_set_def)
  with G(1-4) L(1) n at(1) show thesis by (intro that [of L G]) (simp_all add: decl_function_def)
qed

theorem dominates_decides_witness:
  "\<exists>F G T'. Cfg_compute F Cfg_new = Some G \<and> DominatorTree_compute F G True False False DominatorTree_default = Some T' \<and>
     DominatorTree_dominates T' 1 0 = Some True \<and> DominatorTree_dominates T' 0 1 = Some False"
proof -
  obtain L G where J: "Layout_ok (fn_layout (decl_function (jump_to 1) L)) [0, 1] ((\<lambda>_. [])(0 := [0, 1], 1 := [2]))"
    "Cfg_compute (decl_function (jump_to 1) L) Cfg_new = Some G" "Cfg_ok G" "cfg_valid G"
    "length (cfg_data G) = length (blocks (fn_layout (decl_function (jump_to 1) L)))" "length (cfg_data G) = 3"
    "succ_set G 0 = {1}" "pred_set G 1 = {0}"
    by (rule jump_graph)
  have "dt_stack DominatorTree_default = []" by (simp add: DominatorTree_default_def)
  from dominates_decides [OF J(1) _ J(3-5) this, of False False] obtain T' where T':
    "DominatorTree_compute (decl_function (jump_to 1) L) G True False False DominatorTree_default = Some T'"
    "\<forall>b \<in> reached (succ_set G) 0. \<forall>d < length (cfg_data G). DominatorTree_dominates T' b d =
         Some (\<forall>path. walk (succ_set G) 0 (b # path) \<longrightarrow> d \<in> set (b # path))"
    by auto
  have r: "0 \<in> reached (succ_set G) 0" "1 \<in> reached (succ_set G) 0"
    using reached_succ [of 0 "succ_set G" 0 1] J(7) by simp_all
  have "\<forall>path. walk (succ_set G) 0 (1 # path) \<longrightarrow> 0 \<in> set (1 # path)" using walk_root by blast
  with T'(2) r(2) J(6) have "DominatorTree_dominates T' 1 0 = Some True" by simp
  moreover have "\<exists>path. walk (succ_set G) 0 (0 # path) \<and> 1 \<notin> set (0 # path)" by (intro exI [of _ "[]"]) simp
  then have "DominatorTree_dominates T' 0 1 = Some False" using T'(2) r(1) J(6) by simp
  ultimately show ?thesis using J(2) T'(1) by blast
qed

theorem post_dominates_decides_witness:
  "\<exists>F G T'. Cfg_compute F Cfg_new = Some G \<and> DominatorTree_compute F G False True False DominatorTree_default = Some T' \<and>
     DominatorTree_post_dominates T' 0 1 = Some True \<and> DominatorTree_post_dominates T' 1 0 = Some False"
proof -
  obtain L G where J: "Layout_ok (fn_layout (decl_function (jump_to 1) L)) [0, 1] ((\<lambda>_. [])(0 := [0, 1], 1 := [2]))"
    "Cfg_compute (decl_function (jump_to 1) L) Cfg_new = Some G" "Cfg_ok G" "cfg_valid G"
    "length (cfg_data G) = length (blocks (fn_layout (decl_function (jump_to 1) L)))" "length (cfg_data G) = 3"
    "succ_set G 0 = {1}" "pred_set G 1 = {0}"
    by (rule jump_graph)
  have "dt_stack DominatorTree_default = []" by (simp add: DominatorTree_default_def)
  from post_dominates_decides [OF J(1) _ J(3-5) this, of False False] obtain T' where T':
    "DominatorTree_compute (decl_function (jump_to 1) L) G False True False DominatorTree_default = Some T'"
    "\<forall>b \<in> reached (pred_set G) 1. \<forall>d < length (cfg_data G). DominatorTree_post_dominates T' b d =
         Some (\<forall>path. walk (pred_set G) 1 (b # path) \<longrightarrow> d \<in> set (b # path))"
    by auto
  have r: "1 \<in> reached (pred_set G) 1" "0 \<in> reached (pred_set G) 1"
    using reached_succ [of 1 "pred_set G" 1 0] J(8) by simp_all
  have "\<forall>path. walk (pred_set G) 1 (0 # path) \<longrightarrow> 1 \<in> set (0 # path)" using walk_root by blast
  with T'(2) r(2) J(6) have "DominatorTree_post_dominates T' 0 1 = Some True" by simp
  moreover have "\<exists>path. walk (pred_set G) 1 (1 # path) \<and> 0 \<notin> set (1 # path)" by (intro exI [of _ "[]"]) simp
  then have "DominatorTree_post_dominates T' 1 0 = Some False" using T'(2) r(1) J(6) by simp
  ultimately show ?thesis using J(2) T'(1) by blast
qed

end
