(* ===== verification/Bit_Set.thy ===== *)
theory Bit_Set
  imports Prelude
begin

text \<open>
  The dense bit set of \<^verbatim>\<open>lib/bitset/src/lib.rs\<close>: \<open>BitSet\<close>, its iterator \<open>BitIter\<close> and
  \<open>GrowableBitSet\<close>. An element is a \<open>usize\<close> index, modelled as \<open>nat\<close> (the index newtypes only
  wrap a \<open>usize\<close>); a set is its domain size and its vector of 64-bit words. The abstraction
  \<open>BitSet_elems\<close> reads the words as a set of naturals, \<open>BitSet_wf\<close> is the representation
  invariant, and the lemmas show each operation's effect on both, its result flag included, and
  exactly when it panics.
\<close>

section \<open>Representation\<close>

definition WORD_BYTES :: nat where
  "WORD_BYTES = 8"

definition WORD_BITS :: nat where
  "WORD_BITS = WORD_BYTES * 8"

record bit_set =
  domain_size :: nat
  words :: "u64 list"

definition num_words :: "nat \<Rightarrow> nat" where
  "num_words d = (d + WORD_BITS - 1) div WORD_BITS"

definition word_index_and_mask :: "nat \<Rightarrow> nat \<times> u64" where
  "word_index_and_mask elem =
     (let word_index = elem div WORD_BITS;
          mask = push_bit (elem mod WORD_BITS) 1
      in (word_index, mask))"

definition BitSet_default :: bit_set where
  "BitSet_default = \<lparr>domain_size = 0, words = []\<rparr>"

definition BitSet_new_empty :: "nat \<Rightarrow> bit_set" where
  "BitSet_new_empty d = \<lparr>domain_size = d, words = replicate (num_words d) 0\<rparr>"

section \<open>Operations\<close>

definition BitSet_clear :: "bit_set \<Rightarrow> bit_set" where
  "BitSet_clear s = s\<lparr>words := map (\<lambda>_. 0) (words s)\<rparr>"

definition BitSet_clear_excess_bits :: "bit_set \<Rightarrow> bit_set panics" where
  "BitSet_clear_excess_bits s =
     (let num_bits_in_final_word = domain_size s mod WORD_BITS in
      if num_bits_in_final_word > 0 then
        do { let mask = push_bit num_bits_in_final_word 1 - 1;
             final_word_idx \<leftarrow> usize_sub (length (words s)) 1;
             w \<leftarrow> vec_get (words s) final_word_idx;
             ws \<leftarrow> vec_set (words s) final_word_idx (w AND mask);
             Some (s\<lparr>words := ws\<rparr>) }
      else Some s)"

definition BitSet_new_filled :: "nat \<Rightarrow> bit_set panics" where
  "BitSet_new_filled d =
     BitSet_clear_excess_bits \<lparr>domain_size = d, words = replicate (num_words d) (NOT 0)\<rparr>"

definition BitSet_copy_from :: "bit_set \<Rightarrow> bit_set \<Rightarrow> bit_set panics" where
  "BitSet_copy_from self other =
     do { ws \<leftarrow> copy_from_slice (words self) (words other); Some (self\<lparr>words := ws\<rparr>) }"

definition BitSet_count :: "bit_set \<Rightarrow> nat" where
  "BitSet_count s = sum_list (map count_ones (words s))"

definition BitSet_contains :: "bit_set \<Rightarrow> nat \<Rightarrow> bool panics" where
  "BitSet_contains s elem =
     (let (word_index, mask) = word_index_and_mask elem in
      do { w \<leftarrow> vec_get (words s) word_index; Some (w AND mask \<noteq> 0) })"

definition BitSet_superset :: "bit_set \<Rightarrow> bit_set \<Rightarrow> bool" where
  "BitSet_superset self other =
     list_all (\<lambda>(a, b). a AND b = b) (zip (words self) (words other))"

definition BitSet_is_empty :: "bit_set \<Rightarrow> bool" where
  "BitSet_is_empty s = list_all (\<lambda>a. a = 0) (words s)"

definition BitSet_insert :: "nat \<Rightarrow> bit_set \<Rightarrow> (bit_set \<times> bool) panics" where
  "BitSet_insert elem s =
     (let (word_index, mask) = word_index_and_mask elem in
      do { word \<leftarrow> vec_get (words s) word_index;
           let new_word = word OR mask;
           ws \<leftarrow> vec_set (words s) word_index new_word;
           Some (s\<lparr>words := ws\<rparr>, new_word \<noteq> word) })"

definition BitSet_insert_all :: "bit_set \<Rightarrow> bit_set panics" where
  "BitSet_insert_all s = BitSet_clear_excess_bits (s\<lparr>words := map (\<lambda>_. NOT 0) (words s)\<rparr>)"

definition BitSet_inverse :: "bit_set \<Rightarrow> bit_set panics" where
  "BitSet_inverse s = BitSet_clear_excess_bits (s\<lparr>words := map NOT (words s)\<rparr>)"

definition BitSet_remove :: "nat \<Rightarrow> bit_set \<Rightarrow> (bit_set \<times> bool) panics" where
  "BitSet_remove elem s =
     (let (word_index, mask) = word_index_and_mask elem in
      do { word \<leftarrow> vec_get (words s) word_index;
           let new_word = word AND NOT mask;
           ws \<leftarrow> vec_set (words s) word_index new_word;
           Some (s\<lparr>words := ws\<rparr>, new_word \<noteq> word) })"

text \<open>
  The word-wise loop shared by union, intersection and subtraction: the slice
  \<open>out_vec[..in_vec.len()]\<close> panics when the second operand has more words.
\<close>

fun bitwise_loop :: "(u64 \<Rightarrow> u64 \<Rightarrow> u64) \<Rightarrow> u64 list \<Rightarrow> u64 list \<Rightarrow> u64 \<Rightarrow> u64 list \<times> u64" where
  "bitwise_loop op (old_val # os) (in_elem # is) changed =
     (let new_val = op old_val in_elem;
          (rest, ch) = bitwise_loop op os is (changed OR (old_val XOR new_val))
      in (new_val # rest, ch))"
| "bitwise_loop op os _ changed = (os, changed)"

definition bitwise :: "u64 list \<Rightarrow> u64 list \<Rightarrow> (u64 \<Rightarrow> u64 \<Rightarrow> u64) \<Rightarrow> (u64 list \<times> bool) panics" where
  "bitwise out_vec in_vec op =
     do { out \<leftarrow> slice_range out_vec 0 (length in_vec);
          let (out', changed) = bitwise_loop op out in_vec 0;
          Some (out' @ drop (length in_vec) out_vec, changed \<noteq> 0) }"

definition BitSet_union_into :: "bit_set \<Rightarrow> bit_set \<Rightarrow> (bit_set \<times> bool) panics" where
  "BitSet_union_into self other =
     do { (ws, changed) \<leftarrow> bitwise (words other) (words self) (\<lambda>a b. a OR b);
          Some (other\<lparr>words := ws\<rparr>, changed) }"

definition BitSet_subtract_from :: "bit_set \<Rightarrow> bit_set \<Rightarrow> (bit_set \<times> bool) panics" where
  "BitSet_subtract_from self other =
     do { (ws, changed) \<leftarrow> bitwise (words other) (words self) (\<lambda>a b. a AND NOT b);
          Some (other\<lparr>words := ws\<rparr>, changed) }"

definition BitSet_intersect :: "bit_set \<Rightarrow> bit_set \<Rightarrow> (bit_set \<times> bool) panics" where
  "BitSet_intersect self other =
     do { (ws, changed) \<leftarrow> bitwise (words self) (words other) (\<lambda>a b. a AND b);
          Some (self\<lparr>words := ws\<rparr>, changed) }"

definition BitSet_ensure :: "bit_set \<Rightarrow> nat \<Rightarrow> bit_set" where
  "BitSet_ensure s min_domain_size =
     (if domain_size s < min_domain_size then
        let s = s\<lparr>domain_size := min_domain_size\<rparr>;
            min_num_words = num_words min_domain_size
        in if length (words s) < min_num_words
           then s\<lparr>words := vec_resize (words s) min_num_words 0\<rparr> else s
      else s)"

definition BitSet_set_size_enable :: "bit_set \<Rightarrow> nat \<Rightarrow> bit_set panics" where
  "BitSet_set_size_enable s d =
     BitSet_insert_all (s\<lparr>domain_size := d, words := vec_resize (words s) (num_words d) (NOT 0)\<rparr>)"

definition BitSet_extend :: "bit_set \<Rightarrow> nat list \<Rightarrow> bit_set panics" where
  "BitSet_extend s xs = map_option fst (for_changed BitSet_insert xs s False)"

definition BitSet_clone :: "bit_set \<Rightarrow> bit_set" where
  "BitSet_clone s = \<lparr>domain_size = domain_size s, words = words s\<rparr>"

definition BitSet_clone_from :: "bit_set \<Rightarrow> bit_set \<Rightarrow> bit_set panics" where
  "BitSet_clone_from self from =
     (let self = (if domain_size self \<noteq> domain_size from
                  then \<lparr>domain_size = domain_size from,
                        words = vec_resize (words self) (domain_size from) 0\<rparr>
                  else self)
      in do { ws \<leftarrow> copy_from_slice (words self) (words from); Some (self\<lparr>words := ws\<rparr>) })"

text \<open>
  The union with a sparse set that reports whether the dense operand had an element outside the
  sparse one: the loop walks the (sorted) sparse elements, collects the bits that fall in the
  current word in \<open>new_bit_mask\<close> and merges a word when it leaves it.
\<close>

fun reverse_union_loop ::
    "nat list \<Rightarrow> u64 list \<Rightarrow> nat \<Rightarrow> u64 \<Rightarrow> bool \<Rightarrow> (u64 list \<times> nat \<times> u64 \<times> bool) panics" where
  "reverse_union_loop [] ws current_index new_bit_mask not_already =
     Some (ws, current_index, new_bit_mask, not_already)"
| "reverse_union_loop (x # xs) ws current_index new_bit_mask not_already =
     (let (word_index, mask) = word_index_and_mask x in
      if word_index > current_index then
        do { w \<leftarrow> vec_get ws current_index;
             let w' = w OR new_bit_mask;
             ws \<leftarrow> vec_set ws current_index w';
             let not_already = (not_already \<or> w' XOR new_bit_mask \<noteq> 0);
             skipped \<leftarrow> slice_range ws (current_index + 1) word_index;
             let not_already = (not_already \<or> list_ex (\<lambda>x. x \<noteq> 0) skipped);
             reverse_union_loop xs ws word_index (0 OR mask) not_already }
      else reverse_union_loop xs ws current_index (new_bit_mask OR mask) not_already)"

definition BitSet_reverse_union_sparse :: "bit_set \<Rightarrow> nat list \<Rightarrow> (bit_set \<times> bool) panics" where
  "BitSet_reverse_union_sparse s sparse =
     do { s \<leftarrow> BitSet_clear_excess_bits s;
          (ws, current_index, new_bit_mask, not_already) \<leftarrow>
            reverse_union_loop sparse (words s) 0 0 False;
          w \<leftarrow> vec_get ws current_index;
          let w' = w OR new_bit_mask;
          ws \<leftarrow> vec_set ws current_index w';
          let not_already = (not_already \<or> w' XOR new_bit_mask \<noteq> 0);
          tail \<leftarrow> slice_range ws (current_index + 1) (length ws);
          let not_already = (not_already \<or> list_ex (\<lambda>x. x \<noteq> 0) tail);
          Some (s\<lparr>words := ws\<rparr>, not_already) }"

subsection \<open>Iteration\<close>

text \<open>
  \<open>BitIter\<close>: the current word with the visited bits cleared, the offset of that word and the
  words still to come. \<open>next\<close> loops over the remaining words until one has a bit.
\<close>

record bit_iter =
  it_word :: u64
  it_offset :: nat
  it_iter :: "u64 list"

definition BitIter_new :: "u64 list \<Rightarrow> bit_iter" where
  "BitIter_new ws = \<lparr>it_word = 0, it_offset = usize_MAX - (WORD_BITS - 1), it_iter = ws\<rparr>"

fun BitIter_next_loop :: "u64 \<Rightarrow> nat \<Rightarrow> u64 list \<Rightarrow> nat option \<times> bit_iter" where
  "BitIter_next_loop word offset iter =
     (if word \<noteq> 0 then
        let bit_pos = trailing_zeros word;
            bit = push_bit bit_pos 1
        in (Some (bit_pos + offset), \<lparr>it_word = word XOR bit, it_offset = offset, it_iter = iter\<rparr>)
      else (case iter of
          [] \<Rightarrow> (None, \<lparr>it_word = word, it_offset = offset, it_iter = []\<rparr>)
        | w # ws \<Rightarrow> BitIter_next_loop w (usize_wrapping_add offset WORD_BITS) ws))"

definition BitIter_next :: "bit_iter \<Rightarrow> nat option \<times> bit_iter" where
  "BitIter_next it = BitIter_next_loop (it_word it) (it_offset it) (it_iter it)"

definition BitSet_iter :: "bit_set \<Rightarrow> bit_iter" where
  "BitSet_iter s = BitIter_new (words s)"

subsection \<open>Printing\<close>

definition hex_digit :: "nat \<Rightarrow> char" where
  "hex_digit n = ''0123456789abcdef'' ! n"

definition hex2 :: "u64 \<Rightarrow> string" where
  "hex2 byte = [hex_digit (unat byte div 16), hex_digit (unat byte mod 16)]"

fun BitSet_to_string_bytes ::
    "nat \<Rightarrow> nat \<Rightarrow> u64 \<Rightarrow> nat \<Rightarrow> char \<Rightarrow> string \<Rightarrow> (string \<times> nat) panics" where
  "BitSet_to_string_bytes 0 d word i sep result = Some (result, i)"
| "BitSet_to_string_bytes (Suc k) d word i sep result =
     do { remain \<leftarrow> usize_sub d i;
          let mask = (if remain \<le> 8 then push_bit remain 1 - 1 else 0xFF);
          _ \<leftarrow> rust_assert (mask \<le> 0xFF);
          let result = result @ [sep] @ hex2 (word AND mask);
          if remain \<le> 8 then Some (result, i)
          else BitSet_to_string_bytes k d (drop_bit 8 word) (i + 8) (CHR ''-'') result }"

fun BitSet_to_string_words :: "nat \<Rightarrow> u64 list \<Rightarrow> nat \<Rightarrow> char \<Rightarrow> string \<Rightarrow> string panics" where
  "BitSet_to_string_words d [] i sep result = Some result"
| "BitSet_to_string_words d (word # ws) i sep result =
     do { (result, i) \<leftarrow> BitSet_to_string_bytes WORD_BYTES d word i sep result;
          BitSet_to_string_words d ws i (CHR ''|'') result }"

definition BitSet_to_string :: "bit_set \<Rightarrow> string panics" where
  "BitSet_to_string s =
     do { result \<leftarrow> BitSet_to_string_words (domain_size s) (words s) 0 (CHR ''['') [];
          Some (result @ '']'') }"

subsection \<open>GrowableBitSet\<close>

record growable_bit_set =
  bit_set :: bit_set

definition GrowableBitSet_new_empty :: growable_bit_set where
  "GrowableBitSet_new_empty = \<lparr>bit_set = BitSet_new_empty 0\<rparr>"

definition GrowableBitSet_ensure :: "growable_bit_set \<Rightarrow> nat \<Rightarrow> growable_bit_set" where
  "GrowableBitSet_ensure g n = g\<lparr>bit_set := BitSet_ensure (bit_set g) n\<rparr>"

definition GrowableBitSet_with_capacity :: "nat \<Rightarrow> growable_bit_set" where
  "GrowableBitSet_with_capacity capacity = \<lparr>bit_set = BitSet_new_empty capacity\<rparr>"

definition GrowableBitSet_insert :: "nat \<Rightarrow> growable_bit_set \<Rightarrow> (growable_bit_set \<times> bool) panics" where
  "GrowableBitSet_insert elem g =
     do { let b = BitSet_ensure (bit_set g) (elem + 1);
          (b, changed) \<leftarrow> BitSet_insert elem b;
          Some (g\<lparr>bit_set := b\<rparr>, changed) }"

definition GrowableBitSet_remove :: "nat \<Rightarrow> growable_bit_set \<Rightarrow> (growable_bit_set \<times> bool) panics" where
  "GrowableBitSet_remove elem g =
     do { let b = BitSet_ensure (bit_set g) (elem + 1);
          (b, changed) \<leftarrow> BitSet_remove elem b;
          Some (g\<lparr>bit_set := b\<rparr>, changed) }"

definition GrowableBitSet_is_empty :: "growable_bit_set \<Rightarrow> bool" where
  "GrowableBitSet_is_empty g = BitSet_is_empty (bit_set g)"

definition GrowableBitSet_contains :: "growable_bit_set \<Rightarrow> nat \<Rightarrow> bool" where
  "GrowableBitSet_contains g elem =
     (let (word_index, mask) = word_index_and_mask elem in
      case vec_get (words (bit_set g)) word_index of
        Some word \<Rightarrow> word AND mask \<noteq> 0
      | None \<Rightarrow> False)"

section \<open>The set a word vector stands for\<close>

definition word_elems :: "u64 list \<Rightarrow> nat set" where
  "word_elems ws = {i. i div 64 < length ws \<and> bit (ws ! (i div 64)) (i mod 64)}"

definition BitSet_elems :: "bit_set \<Rightarrow> nat set" where
  "BitSet_elems s = word_elems (words s)"

text \<open>
  The representation invariant: exactly the words the domain needs, and no bit past the domain.
\<close>

definition BitSet_wf :: "bit_set \<Rightarrow> bool" where
  "BitSet_wf s \<longleftrightarrow> length (words s) = num_words (domain_size s) \<and>
     BitSet_elems s \<subseteq> {..<domain_size s}"

lemma WORD_BITS_64 [simp]: "WORD_BITS = 64"
  by (simp add: WORD_BITS_def WORD_BYTES_def)

lemma word_index_and_mask_64 [simp]:
  "word_index_and_mask e = (e div 64, 2 ^ (e mod 64))"
  by (simp add: word_index_and_mask_def)

lemma num_words_bound: "i < d \<Longrightarrow> i div 64 < num_words d"
  unfolding num_words_def WORD_BITS_64 by linarith

lemma num_words_mono: "a \<le> b \<Longrightarrow> num_words a \<le> num_words b"
  by (simp add: num_words_def div_le_mono)

lemma mem_word_elems:
  "i \<in> word_elems ws \<longleftrightarrow> i div 64 < length ws \<and> bit (ws ! (i div 64)) (i mod 64)"
  by (simp add: word_elems_def)

lemma mem_word_elems_split:
  "j < 64 \<Longrightarrow> 64 * k + j \<in> word_elems ws \<longleftrightarrow> k < length ws \<and> bit (ws ! k) j"
  by (simp add: word_elems_def)

lemma word_elems_Nil [simp]: "word_elems [] = {}"
  by (simp add: word_elems_def)

lemma word_elems_replicate_0 [simp]: "word_elems (replicate n 0) = {}"
  by (auto simp: word_elems_def)

lemma mem_word_elems_update:
  "k < length ws \<Longrightarrow> i \<in> word_elems (ws[k := w]) \<longleftrightarrow>
     (if i div 64 = k then bit w (i mod 64) else i \<in> word_elems ws)"
  by (auto simp: word_elems_def nth_list_update)

lemma word_elems_eq_iff:
  assumes "length ws = length vs"
  shows "word_elems ws = word_elems vs \<longleftrightarrow> ws = vs"
proof
  assume eq: "word_elems ws = word_elems vs"
  show "ws = vs"
  proof (rule nth_equalityI [OF assms], rule bit_word_eqI)
    fix k n assume "k < length ws" and "n < LENGTH(64)"
    then show "bit (ws ! k) n \<longleftrightarrow> bit (vs ! k) n"
      using eq assms mem_word_elems_split [of n k ws] mem_word_elems_split [of n k vs] by simp
  qed
qed simp

lemma finite_word_elems [simp]: "finite (word_elems ws)"
proof (rule finite_subset)
  show "word_elems ws \<subseteq> {..<64 * length ws}"
    by (auto simp: word_elems_def)
qed simp

lemma bit_mask_1: "bit (2 ^ k :: u64) j \<longleftrightarrow> j = k \<and> k < 64"
  by (auto simp: bit_exp_iff dest: bit_u64_less)

lemma and_mask_nonzero:
  fixes w :: u64
  assumes "k < 64"
  shows "w AND 2 ^ k \<noteq> 0 \<longleftrightarrow> bit w k"
  using assms by (auto simp: u64_nonzero_bit bit_and_iff bit_mask_1)

lemma or_mask_changed:
  fixes w :: u64
  assumes "k < 64"
  shows "w OR 2 ^ k \<noteq> w \<longleftrightarrow> \<not> bit w k"
  using assms unfolding u64_eq_iff by (auto simp: bit_or_iff bit_mask_1)

lemma and_not_mask_changed:
  fixes w :: u64
  assumes "k < 64"
  shows "w AND NOT (2 ^ k) \<noteq> w \<longleftrightarrow> bit w k"
  using assms unfolding u64_eq_iff by (auto simp: bit_and_iff bit_not_iff bit_mask_1)

lemma eq_iff_div_mod: "(x :: nat) = e \<longleftrightarrow> x div 64 = e div 64 \<and> x mod 64 = e mod 64"
  by (metis div_mult_mod_eq)

lemma word_elems_or_mask:
  assumes "e div 64 < length ws"
  shows "word_elems (ws[e div 64 := ws ! (e div 64) OR 2 ^ (e mod 64)]) = insert e (word_elems ws)"
  using assms
  by (intro set_eqI) (auto simp: nth_list_update mem_word_elems bit_or_iff bit_mask_1
      eq_iff_div_mod [of _ e])

lemma word_elems_and_not_mask:
  assumes "e div 64 < length ws"
  shows "word_elems (ws[e div 64 := ws ! (e div 64) AND NOT (2 ^ (e mod 64))]) = word_elems ws - {e}"
  using assms
  by (intro set_eqI) (auto simp: nth_list_update mem_word_elems bit_and_iff bit_not_iff
      bit_mask_1 eq_iff_div_mod [of _ e])

section \<open>Element operations\<close>

lemma BitSet_contains_correct:
  assumes "e div 64 < length (words s)"
  shows "BitSet_contains s e = Some (e \<in> BitSet_elems s)"
  using assms by (simp add: BitSet_contains_def and_mask_nonzero BitSet_elems_def mem_word_elems)

lemma BitSet_insert_correct:
  assumes "e div 64 < length (words s)"
  shows "\<exists>s'. BitSet_insert e s = Some (s', e \<notin> BitSet_elems s) \<and>
    BitSet_elems s' = insert e (BitSet_elems s) \<and>
    length (words s') = length (words s) \<and> domain_size s' = domain_size s"
  using assms
  by (simp add: BitSet_insert_def BitSet_elems_def word_elems_or_mask or_mask_changed mem_word_elems)

lemma BitSet_remove_correct:
  assumes "e div 64 < length (words s)"
  shows "\<exists>s'. BitSet_remove e s = Some (s', e \<in> BitSet_elems s) \<and>
    BitSet_elems s' = BitSet_elems s - {e} \<and>
    length (words s') = length (words s) \<and> domain_size s' = domain_size s"
  using assms
  by (simp add: BitSet_remove_def BitSet_elems_def word_elems_and_not_mask and_not_mask_changed
      mem_word_elems)

lemma BitSet_panics_iff:
  "BitSet_contains s e = None \<longleftrightarrow> length (words s) \<le> e div 64"
  "BitSet_insert e s = None \<longleftrightarrow> length (words s) \<le> e div 64"
  "BitSet_remove e s = None \<longleftrightarrow> length (words s) \<le> e div 64"
  by (simp_all add: BitSet_contains_def BitSet_insert_def BitSet_remove_def vec_get_def vec_set_def
      Let_def)

text \<open>
  Insertion and removal meet the contract of a flagged update; sizes are kept, so a loop of them
  never panics when every element falls into the words.
\<close>

definition in_words :: "nat \<Rightarrow> bit_set \<Rightarrow> bool" where
  "in_words e s \<longleftrightarrow> e div 64 < length (words s)"

definition same_size :: "bit_set \<Rightarrow> bit_set \<Rightarrow> bool" where
  "same_size s s' \<longleftrightarrow> length (words s') = length (words s) \<and> domain_size s' = domain_size s"

interpretation dense_ins: flagged_update BitSet_insert BitSet_elems in_words same_size "\<lambda>X A. A \<union> X"
proof unfold_locales
  fix x s assume "in_words x s"
  then show "\<exists>s'. BitSet_insert x s = Some (s', BitSet_elems s' \<noteq> BitSet_elems s) \<and>
      BitSet_elems s' = BitSet_elems s \<union> {x} \<and> same_size s s'"
    using BitSet_insert_correct [of x s] by (auto simp: in_words_def same_size_def)
qed (auto simp: in_words_def same_size_def)

interpretation dense_rem: flagged_update BitSet_remove BitSet_elems in_words same_size "\<lambda>X A. A - X"
proof unfold_locales
  fix x s assume "in_words x s"
  then show "\<exists>s'. BitSet_remove x s = Some (s', BitSet_elems s' \<noteq> BitSet_elems s) \<and>
      BitSet_elems s' = BitSet_elems s - {x} \<and> same_size s s'"
    using BitSet_remove_correct [of x s] by (auto simp: in_words_def same_size_def)
qed (auto simp: in_words_def same_size_def)

lemma BitSet_wf_in_words: "BitSet_wf s \<Longrightarrow> e < domain_size s \<Longrightarrow> in_words e s"
  by (simp add: BitSet_wf_def in_words_def num_words_bound)

lemma BitSet_wf_same_size:
  "BitSet_wf s \<Longrightarrow> same_size s s' \<Longrightarrow> BitSet_elems s' \<subseteq> {..<domain_size s} \<Longrightarrow> BitSet_wf s'"
  by (auto simp: BitSet_wf_def same_size_def)

lemma BitSet_extend_correct:
  assumes "\<forall>x \<in> set xs. in_words x s"
  shows "\<exists>s'. BitSet_extend s xs = Some s' \<and> BitSet_elems s' = BitSet_elems s \<union> set xs \<and>
    same_size s s'"
  using dense_ins.for_changed_ok [OF assms, of False] by (auto simp: BitSet_extend_def)

section \<open>Whole-set operations\<close>

lemma u64_or_eq_0: "(a :: u64) OR b = 0 \<longleftrightarrow> a = 0 \<and> b = 0"
  by (auto simp: u64_eq_iff bit_or_iff)

lemma u64_xor_eq_0: "(a :: u64) XOR b = 0 \<longleftrightarrow> a = b"
  by (auto simp: u64_eq_iff bit_xor_iff)

lemma bitwise_loop_result:
  "fst (bitwise_loop op os is c) = map2 op os is @ drop (length is) os"
  by (induction op os "is" c rule: bitwise_loop.induct) (auto simp: Let_def split: prod.splits)

lemma bitwise_loop_flag:
  "snd (bitwise_loop op os is c) = 0 \<longleftrightarrow>
     c = 0 \<and> fst (bitwise_loop op os is c) = os"
  by (induction op os "is" c rule: bitwise_loop.induct)
    (auto simp: Let_def u64_or_eq_0 u64_xor_eq_0 split: prod.splits)

lemma bitwise_eq:
  assumes "length is \<le> length os"
  shows "bitwise os is op = Some (map2 op os is @ drop (length is) os,
           map2 op os is @ drop (length is) os \<noteq> os)"
proof -
  let ?o = "take (length is) os"
  have fst: "fst (bitwise_loop op ?o is 0) = map2 op ?o is"
    by (simp add: bitwise_loop_result)
  have zip: "map2 op ?o is = map2 op os is"
    using zip_append1 [of ?o "drop (length is) os" "is"] assms by simp
  have "snd (bitwise_loop op ?o is 0) \<noteq> 0 \<longleftrightarrow> map2 op os is \<noteq> ?o"
    by (simp add: bitwise_loop_flag fst zip)
  also have "\<dots> \<longleftrightarrow> map2 op os is @ drop (length is) os \<noteq> os"
    by (metis append_take_drop_id append_same_eq)
  finally have "snd (bitwise_loop op ?o is 0) \<noteq> 0 \<longleftrightarrow>
      map2 op os is @ drop (length is) os \<noteq> os" .
  with fst zip assms show ?thesis
    by (cases "bitwise_loop op ?o is 0") (simp add: bitwise_def slice_range_def)
qed

lemma bitwise_panics: "length os < length is \<Longrightarrow> bitwise os is op = None"
  by (simp add: bitwise_def slice_range_def)

lemma nth_bitwise_words:
  assumes "length is \<le> length os" "k < length os"
  shows "(map2 op os is @ drop (length is) os) ! k =
    (if k < length is then op (os ! k) (is ! k) else os ! k)"
  using assms by (auto simp: nth_append)

lemma word_elems_bitwise:
  assumes "length is \<le> length os" and "\<And>a b j. j < 64 \<Longrightarrow> bit (op a b) j \<longleftrightarrow> f (bit a j) (bit b j)"
  shows "word_elems (map2 op os is @ drop (length is) os) =
    {i. i div 64 < length os \<and>
        (if i div 64 < length is then f (i \<in> word_elems os) (i \<in> word_elems is)
         else i \<in> word_elems os)}"
  using assms(1)
  by (auto simp: mem_word_elems nth_bitwise_words assms(2) min_def split: if_splits)

lemma word_elems_changed:
  "length vs = length ws \<Longrightarrow> vs \<noteq> ws \<longleftrightarrow> word_elems vs \<noteq> word_elems ws"
  by (simp add: word_elems_eq_iff)

lemma length_bitwise_words:
  "length is \<le> length os \<Longrightarrow> length (map2 op os is @ drop (length is) os) = length os"
  by simp

lemmas bitwise_simps = bitwise_eq length_bitwise_words word_elems_changed

lemma BitSet_union_into_correct:
  assumes "length (words self) \<le> length (words other)"
  shows "\<exists>s'. BitSet_union_into self other = Some (s', \<not> BitSet_elems self \<subseteq> BitSet_elems other) \<and>
    BitSet_elems s' = BitSet_elems other \<union> BitSet_elems self \<and> same_size other s'"
proof -
  let ?ws = "map2 (\<lambda>a b. a OR b) (words other) (words self) @ drop (length (words self)) (words other)"
  have el: "word_elems ?ws = BitSet_elems other \<union> BitSet_elems self"
    using assms
    by (subst word_elems_bitwise [where f = "(\<or>)"])
      (auto simp: bit_or_iff BitSet_elems_def mem_word_elems)
  moreover have "?ws \<noteq> words other \<longleftrightarrow> \<not> BitSet_elems self \<subseteq> BitSet_elems other"
    using assms el by (subst word_elems_changed) (auto simp: BitSet_elems_def)
  ultimately show ?thesis
    using assms by (simp add: BitSet_union_into_def bitwise_eq BitSet_elems_def same_size_def)
qed

lemma BitSet_subtract_from_correct:
  assumes "length (words self) \<le> length (words other)"
  shows "\<exists>s'. BitSet_subtract_from self other = Some (s', BitSet_elems self \<inter> BitSet_elems other \<noteq> {}) \<and>
    BitSet_elems s' = BitSet_elems other - BitSet_elems self \<and> same_size other s'"
proof -
  let ?ws = "map2 (\<lambda>a b. a AND NOT b) (words other) (words self) @ drop (length (words self)) (words other)"
  have el: "word_elems ?ws = BitSet_elems other - BitSet_elems self"
    using assms
    by (subst word_elems_bitwise [where f = "\<lambda>a b. a \<and> \<not> b"])
      (auto simp: bit_and_iff bit_not_iff BitSet_elems_def mem_word_elems)
  moreover have "?ws \<noteq> words other \<longleftrightarrow> BitSet_elems self \<inter> BitSet_elems other \<noteq> {}"
    using assms el by (subst word_elems_changed) (auto simp: BitSet_elems_def)
  ultimately show ?thesis
    using assms by (simp add: BitSet_subtract_from_def bitwise_eq BitSet_elems_def same_size_def)
qed

lemma BitSet_intersect_correct:
  assumes "length (words other) = length (words self)"
  shows "\<exists>s'. BitSet_intersect self other = Some (s', \<not> BitSet_elems self \<subseteq> BitSet_elems other) \<and>
    BitSet_elems s' = BitSet_elems self \<inter> BitSet_elems other \<and> same_size self s'"
proof -
  let ?ws = "map2 (\<lambda>a b. a AND b) (words self) (words other) @ drop (length (words other)) (words self)"
  have el: "word_elems ?ws = BitSet_elems self \<inter> BitSet_elems other"
    using assms
    by (subst word_elems_bitwise [where f = "(\<and>)"])
      (auto simp: bit_and_iff BitSet_elems_def mem_word_elems)
  moreover have "?ws \<noteq> words self \<longleftrightarrow> \<not> BitSet_elems self \<subseteq> BitSet_elems other"
    using assms el by (subst word_elems_changed) (auto simp: BitSet_elems_def)
  ultimately show ?thesis
    using assms by (simp add: BitSet_intersect_def bitwise_eq BitSet_elems_def same_size_def)
qed

lemma BitSet_superset_correct:
  assumes "length (words other) = length (words self)"
  shows "BitSet_superset self other \<longleftrightarrow> BitSet_elems other \<subseteq> BitSet_elems self"
proof -
  have *: "(a AND b = b) \<longleftrightarrow> (\<forall>j<64. bit b j \<longrightarrow> bit a j)" for a b :: u64
    by (auto simp: u64_eq_iff bit_and_iff)
  have "BitSet_superset self other \<longleftrightarrow>
      (\<forall>k<length (words self). \<forall>j<64. bit (words other ! k) j \<longrightarrow> bit (words self ! k) j)"
    using assms by (auto simp: BitSet_superset_def list_all_length *)
  also have "\<dots> \<longleftrightarrow> BitSet_elems other \<subseteq> BitSet_elems self"
  proof
    assume "BitSet_elems other \<subseteq> BitSet_elems self"
    then show "\<forall>k<length (words self). \<forall>j<64. bit (words other ! k) j \<longrightarrow> bit (words self ! k) j"
      using assms mem_word_elems_split by (auto simp: BitSet_elems_def subset_eq) (metis mem_word_elems_split)
  qed (auto simp: BitSet_elems_def mem_word_elems assms)
  finally show ?thesis .
qed

lemma BitSet_is_empty_correct: "BitSet_is_empty s \<longleftrightarrow> BitSet_elems s = {}"
proof -
  have "BitSet_is_empty s \<longleftrightarrow> words s = replicate (length (words s)) 0"
  proof
    assume "BitSet_is_empty s"
    then show "words s = replicate (length (words s)) 0"
      by (intro replicate_length_same [symmetric]) (simp add: BitSet_is_empty_def list_all_iff)
  next
    assume "words s = replicate (length (words s)) 0"
    then have "\<forall>a \<in> set (words s). a = 0" by (subst (asm) list_eq_iff_nth_eq) (auto simp: in_set_conv_nth)
    then show "BitSet_is_empty s" by (simp add: BitSet_is_empty_def list_all_iff)
  qed
  also have "\<dots> \<longleftrightarrow> BitSet_elems s = {}"
    using word_elems_eq_iff [of "words s" "replicate (length (words s)) 0"]
    by (simp add: BitSet_elems_def)
  finally show ?thesis .
qed

lemma BitSet_new_empty_correct: "BitSet_elems (BitSet_new_empty d) = {}" "BitSet_wf (BitSet_new_empty d)"
  by (simp_all add: BitSet_new_empty_def BitSet_elems_def BitSet_wf_def)

lemma BitSet_clear_correct: "BitSet_elems (BitSet_clear s) = {}" "same_size s (BitSet_clear s)"
  by (simp_all add: BitSet_clear_def BitSet_elems_def same_size_def map_replicate_const)

section \<open>Filling, complement and growth\<close>

lemma bit_low_mask: "n < 64 \<Longrightarrow> bit (2 ^ n - 1 :: u64) j \<longleftrightarrow> j < n"
  using bit_mask_iff [of n j, where ?'a = u64]
  by (auto simp: mask_eq_exp_minus_1 dest: bit_u64_less)

lemma num_words_div_mod:
  "num_words d = (if d mod 64 = 0 then d div 64 else Suc (d div 64))"
proof -
  obtain q r where d: "d = 64 * q + r" "r < 64"
    by (metis mult_div_mod_eq mod_less_divisor zero_less_numeral)
  then have "(d + 63) div 64 = (if r = 0 then q else Suc q)"
    by (intro div_nat_eqI) auto
  with d show ?thesis by (simp add: num_words_def add.commute [of 63])
qed

lemma less_iff_div_mod64:
  "(i :: nat) < d \<longleftrightarrow> i div 64 < d div 64 \<or> i div 64 = d div 64 \<and> i mod 64 < d mod 64"
proof -
  have "64 * a + b < 64 * c + e \<longleftrightarrow> a < c \<or> a = c \<and> b < e" if "b < 64" "e < 64" for a b c e :: nat
    using that by linarith
  from this [of "i mod 64" "d mod 64" "i div 64" "d div 64"] show ?thesis by simp
qed

lemma clear_excess_bits_correct:
  assumes len: "length (words s) = num_words (domain_size s)"
  shows "\<exists>s'. BitSet_clear_excess_bits s = Some s' \<and>
    BitSet_elems s' = BitSet_elems s \<inter> {..<domain_size s} \<and> same_size s s'"
proof (cases "domain_size s mod 64 = 0")
  case True
  then have "BitSet_elems s \<subseteq> {..<domain_size s}"
    using len by (auto simp: BitSet_elems_def mem_word_elems num_words_div_mod less_iff_div_mod64 [of _ "domain_size s"])
  with True show ?thesis
    by (auto simp: BitSet_clear_excess_bits_def same_size_def)
next
  case False
  let ?d = "domain_size s" and ?w = "words s ! (domain_size s div 64)"
  let ?s' = "s\<lparr>words := (words s)[?d div 64 := ?w AND (2 ^ (?d mod 64) - 1)]\<rparr>"
  from False len have n: "length (words s) = Suc (?d div 64)"
    by (simp add: num_words_div_mod)
  with False have "BitSet_clear_excess_bits s = Some ?s'"
    by (simp add: BitSet_clear_excess_bits_def)
  moreover have "BitSet_elems ?s' = BitSet_elems s \<inter> {..<?d}"
    using n False
    by (intro set_eqI) (auto simp: BitSet_elems_def mem_word_elems nth_list_update bit_and_iff bit_low_mask
        less_iff_div_mod64 [of _ ?d])
  ultimately show ?thesis by (simp add: same_size_def)
qed

lemma clear_excess_bits_wf:
  assumes "length (words s) = num_words (domain_size s)"
  shows "\<exists>s'. BitSet_clear_excess_bits s = Some s' \<and> BitSet_wf s' \<and>
    BitSet_elems s' = BitSet_elems s \<inter> {..<domain_size s} \<and> domain_size s' = domain_size s"
  using clear_excess_bits_correct [OF assms] assms
  by (auto simp: same_size_def BitSet_wf_def)

lemma word_elems_filled: "word_elems (replicate n (NOT 0)) = {i. i div 64 < n}"
  by (auto simp: mem_word_elems)

lemma filled_correct:
  assumes "ws = replicate (num_words d) (NOT 0)"
  shows "\<exists>s'. BitSet_clear_excess_bits \<lparr>domain_size = d, words = ws\<rparr> = Some s' \<and>
    BitSet_wf s' \<and> BitSet_elems s' = {..<d} \<and> domain_size s' = d"
proof -
  have "BitSet_elems \<lparr>domain_size = d, words = ws\<rparr> \<inter> {..<d} = {..<d}"
    unfolding assms BitSet_elems_def by (auto simp: word_elems_filled num_words_bound simp del: bit.compl_zero)
  then show ?thesis
    using clear_excess_bits_wf [of "\<lparr>domain_size = d, words = ws\<rparr>"] assms by auto
qed

lemma BitSet_new_filled_correct:
  "\<exists>s'. BitSet_new_filled d = Some s' \<and> BitSet_wf s' \<and> BitSet_elems s' = {..<d} \<and> domain_size s' = d"
  unfolding BitSet_new_filled_def by (rule filled_correct) simp

lemma BitSet_insert_all_correct:
  assumes "BitSet_wf s"
  shows "\<exists>s'. BitSet_insert_all s = Some s' \<and> BitSet_wf s' \<and> BitSet_elems s' = {..<domain_size s} \<and>
    domain_size s' = domain_size s"
proof -
  have "s\<lparr>words := map (\<lambda>_. NOT 0) (words s)\<rparr> =
      \<lparr>domain_size = domain_size s, words = replicate (num_words (domain_size s)) (NOT 0)\<rparr>"
    using assms by (cases s) (simp add: BitSet_wf_def map_replicate_const)
  then show ?thesis
    unfolding BitSet_insert_all_def using filled_correct [OF refl, of "domain_size s"] by simp
qed

lemma BitSet_set_size_enable_correct:
  "\<exists>s'. BitSet_set_size_enable s d = Some s' \<and> BitSet_wf s' \<and> BitSet_elems s' = {..<d} \<and>
    domain_size s' = d"
proof -
  let ?s = "s\<lparr>domain_size := d, words := vec_resize (words s) (num_words d) (NOT 0)\<rparr>"
  have "?s\<lparr>words := map (\<lambda>_. NOT 0) (words ?s)\<rparr> =
      \<lparr>domain_size = d, words = replicate (num_words d) (NOT 0)\<rparr>"
    by (cases s) (simp add: map_replicate_const)
  then show ?thesis
    unfolding BitSet_set_size_enable_def BitSet_insert_all_def
    using filled_correct [OF refl, of d] by simp
qed

lemma BitSet_inverse_correct:
  assumes "BitSet_wf s"
  shows "\<exists>s'. BitSet_inverse s = Some s' \<and> BitSet_wf s' \<and>
    BitSet_elems s' = {..<domain_size s} - BitSet_elems s \<and> domain_size s' = domain_size s"
proof -
  let ?s = "s\<lparr>words := map NOT (words s)\<rparr>"
  have "BitSet_elems ?s \<inter> {..<domain_size s} = {..<domain_size s} - BitSet_elems s"
    using assms by (auto simp: BitSet_elems_def mem_word_elems bit_not_iff BitSet_wf_def num_words_bound)
  then show ?thesis
    unfolding BitSet_inverse_def
    using clear_excess_bits_wf [of ?s] assms by (auto simp: BitSet_wf_def)
qed

lemma BitSet_ensure_correct:
  assumes "BitSet_wf s"
  shows "BitSet_wf (BitSet_ensure s n)" "BitSet_elems (BitSet_ensure s n) = BitSet_elems s"
    "domain_size (BitSet_ensure s n) = max (domain_size s) n"
proof -
  have grown: "word_elems (vec_resize ws m 0) = word_elems ws" if "length ws \<le> m" for ws m
    using that by (auto simp: mem_word_elems nth_vec_resize split: if_splits)
  show el: "BitSet_elems (BitSet_ensure s n) = BitSet_elems s"
    by (simp add: BitSet_ensure_def BitSet_elems_def Let_def grown)
  show dom: "domain_size (BitSet_ensure s n) = max (domain_size s) n"
    by (simp add: BitSet_ensure_def Let_def)
  have "length (words (BitSet_ensure s n)) = num_words (max (domain_size s) n)"
    using assms num_words_mono [of "domain_size s" n]
    by (auto simp: BitSet_ensure_def BitSet_wf_def Let_def max_def)
  then show "BitSet_wf (BitSet_ensure s n)"
    using assms el dom unfolding BitSet_wf_def
    by (metis (no_types, lifting) lessThan_subset_iff max.cobounded1 order_trans)
qed

section \<open>Counting and iteration\<close>

lemma filter_hd_takeWhile:
  assumes "\<exists>x \<in> set xs. P x"
  shows "filter P xs = xs ! length (takeWhile (\<lambda>x. \<not> P x) xs) #
      filter P (drop (Suc (length (takeWhile (\<lambda>x. \<not> P x) xs))) xs)"
    and "length (takeWhile (\<lambda>x. \<not> P x) xs) < length xs"
  using assms by (induction xs) (auto split: if_splits)

lemma bits_of_trailing_zeros:
  assumes "w \<noteq> 0"
  shows "bits_of w = trailing_zeros w # bits_of (w XOR 2 ^ trailing_zeros w)"
    and "trailing_zeros w < 64"
proof -
  have ex: "\<exists>x \<in> set [0..<64]. bit w x"
    using assms by (auto simp: u64_nonzero_bit)
  let ?t = "trailing_zeros w"
  show lt: "?t < 64"
    using filter_hd_takeWhile(2) [OF ex] by (simp add: trailing_zeros_def)
  have eq: "bits_of w = ?t # filter (bit w) (drop (Suc ?t) [0..<64])"
    using filter_hd_takeWhile [OF ex] lt by (simp add: bits_of_def trailing_zeros_def)
  then have tz: "bit w ?t"
    using set_bits_of [of w] by (metis list.set_intros(1) mem_Collect_eq)
  have "bits_of (w XOR 2 ^ ?t) = filter (\<lambda>j. j \<noteq> ?t) (bits_of w)"
    using tz lt unfolding bits_of_def filter_filter
    by (intro filter_cong refl) (auto simp: bit_xor_iff bit_mask_1)
  also have "\<dots> = filter (\<lambda>j. j \<noteq> ?t) (filter (bit w) (drop (Suc ?t) [0..<64]))"
    using eq by simp
  also have "\<dots> = filter (bit w) (drop (Suc ?t) [0..<64])"
    by (rule filter_True) auto
  finally show "bits_of w = ?t # bits_of (w XOR 2 ^ ?t)"
    using eq by simp
qed

declare BitIter_next_loop.simps [simp del]

lemma BitIter_next_loop_simps:
  "word \<noteq> 0 \<Longrightarrow> BitIter_next_loop word offset iter =
     (Some (trailing_zeros word + offset),
      \<lparr>it_word = word XOR 2 ^ trailing_zeros word, it_offset = offset, it_iter = iter\<rparr>)"
  "BitIter_next_loop 0 offset [] = (None, \<lparr>it_word = 0, it_offset = offset, it_iter = []\<rparr>)"
  "BitIter_next_loop 0 offset (w # ws) = BitIter_next_loop w (usize_wrapping_add offset 64) ws"
  by (simp_all add: BitIter_next_loop.simps [of word] BitIter_next_loop.simps [of 0] Let_def)

text \<open>Driving an iterator to its end, as \<open>for\<close> loops and \<open>collect\<close> do.\<close>

definition BitIter_todo :: "bit_iter \<Rightarrow> nat" where
  "BitIter_todo it = length (bits_of (it_word it)) + sum_list (map (length \<circ> bits_of) (it_iter it))"

lemma BitIter_next_loop_todo:
  "BitIter_next_loop w off ws = (Some x, it') \<Longrightarrow>
     BitIter_todo it' < length (bits_of w) + sum_list (map (length \<circ> bits_of) ws)"
proof (induction ws arbitrary: w off)
  case Nil
  then show ?case
    by (cases "w = 0") (auto simp: BitIter_next_loop_simps BitIter_todo_def bits_of_trailing_zeros(1) [of w])
next
  case (Cons v ws)
  show ?case
  proof (cases "w = 0")
    case True
    with Cons show ?thesis by (auto simp: BitIter_next_loop_simps)
  next
    case False
    with Cons.prems show ?thesis
      by (auto simp: BitIter_next_loop_simps BitIter_todo_def bits_of_trailing_zeros(1) [of w] comp_def)
  qed
qed

function BitIter_collect :: "bit_iter \<Rightarrow> nat list" where
  "BitIter_collect it = (case BitIter_next it of (None, _) \<Rightarrow> [] | (Some x, it') \<Rightarrow> x # BitIter_collect it')"
  by pat_completeness auto
termination
  by (relation "measure BitIter_todo")
    (auto simp: BitIter_next_def BitIter_todo_def dest!: BitIter_next_loop_todo [OF sym])

declare BitIter_collect.simps [simp del]

fun words_list :: "nat \<Rightarrow> u64 list \<Rightarrow> nat list" where
  "words_list off [] = []"
| "words_list off (w # ws) = map (\<lambda>j. j + off) (bits_of w) @ words_list (off + 64) ws"

lemma BitIter_collect_words:
  assumes "off + 64 * (length ws + 1) \<le> 2 ^ 64"
  shows "BitIter_collect \<lparr>it_word = w, it_offset = off, it_iter = ws\<rparr> =
    map (\<lambda>j. j + off) (bits_of w) @ words_list (off + 64) ws"
  using assms
proof (induction "\<lparr>it_word = w, it_offset = off, it_iter = ws\<rparr>" arbitrary: w off ws
    rule: measure_induct_rule [of "\<lambda>it. BitIter_todo it + length (it_iter it)"])
  case (less w off ws)
  show ?case
  proof (cases "w = 0")
    case False
    have "BitIter_collect \<lparr>it_word = w XOR 2 ^ trailing_zeros w, it_offset = off, it_iter = ws\<rparr> =
        map (\<lambda>j. j + off) (bits_of (w XOR 2 ^ trailing_zeros w)) @ words_list (off + 64) ws"
      using less.prems False by (intro less.hyps) (auto simp: BitIter_todo_def bits_of_trailing_zeros(1) [of w])
    with False show ?thesis
      by (subst BitIter_collect.simps)
        (simp add: BitIter_next_def BitIter_next_loop_simps bits_of_trailing_zeros(1) [of w])
  next
    case True
    show ?thesis
    proof (cases ws)
      case Nil
      with True show ?thesis
        by (subst BitIter_collect.simps) (simp add: BitIter_next_def BitIter_next_loop_simps)
    next
      case (Cons v vs)
      have "usize_wrapping_add off 64 = off + 64"
        using less.prems Cons by (simp add: usize_wrapping_add_def)
      moreover have "BitIter_collect \<lparr>it_word = v, it_offset = off + 64, it_iter = vs\<rparr> =
          map (\<lambda>j. j + (off + 64)) (bits_of v) @ words_list (off + 64 + 64) vs"
        using less.prems Cons True by (intro less.hyps) (auto simp: BitIter_todo_def)
      ultimately show ?thesis
        using True Cons
        by (subst BitIter_collect.simps) (subst (asm) BitIter_collect.simps,
            simp add: BitIter_next_def BitIter_next_loop_simps)
    qed
  qed
qed

lemma words_list_sorted:
  "sorted_wrt (<) (words_list off ws) \<and> set (words_list off ws) = (\<lambda>i. i + off) ` word_elems ws"
proof (induction ws arbitrary: off)
  case Nil
  then show ?case by simp
next
  case (Cons w ws)
  have el: "word_elems (w # ws) = {j. bit w j} \<union> (\<lambda>i. i + 64) ` word_elems ws"
  proof (rule set_eqI)
    fix i
    show "i \<in> word_elems (w # ws) \<longleftrightarrow> i \<in> {j. bit w j} \<union> (\<lambda>i. i + 64) ` word_elems ws"
    proof (cases "i < 64")
      case True
      then show ?thesis by (auto simp: mem_word_elems)
    next
      case False
      then obtain k where k: "i = k + 64" by (metis add.commute le_add_diff_inverse not_less)
      have "(k + 64) div 64 = Suc (k div 64)" "(k + 64) mod 64 = k mod 64" by simp_all
      moreover have "k + 64 \<in> (\<lambda>i. i + 64) ` word_elems ws \<longleftrightarrow> k \<in> word_elems ws" by auto
      ultimately show ?thesis
        unfolding k by (auto simp: mem_word_elems dest: bit_u64_less)
    qed
  qed
  have "sorted_wrt (<) (map (\<lambda>j. j + off) (bits_of w))"
    using sorted_bits_of [of w] by (simp add: sorted_wrt_map strict_sorted_iff)
  moreover have "\<forall>x \<in> set (map (\<lambda>j. j + off) (bits_of w)). \<forall>y \<in> set (words_list (off + 64) ws). x < y"
    using Cons.IH [of "off + 64"] by (auto dest!: bit_u64_less)
  ultimately show ?case
    using Cons.IH [of "off + 64"] by (auto simp: sorted_wrt_append el image_Un image_image ac_simps)
qed

text \<open>
  The initial iterator state is degenerate: its offset wraps around to 0 at the first word. Any
  real set has fewer than \<open>2 ^ 58\<close> words (its bits are indexed by \<open>usize\<close>).
\<close>

lemma BitIter_collect_new:
  assumes "64 * length ws \<le> 2 ^ 64"
  shows "BitIter_collect (BitIter_new ws) = words_list 0 ws"
proof (cases ws)
  case Nil
  then show ?thesis
    by (subst BitIter_collect.simps) (simp add: BitIter_new_def BitIter_next_def BitIter_next_loop_simps)
next
  case (Cons v vs)
  have "usize_wrapping_add (usize_MAX - (WORD_BITS - 1)) 64 = 0"
    by (simp add: usize_wrapping_add_def usize_MAX_def)
  then have "BitIter_next (BitIter_new ws) = BitIter_next \<lparr>it_word = v, it_offset = 0, it_iter = vs\<rparr>"
    using Cons by (simp add: BitIter_new_def BitIter_next_def BitIter_next_loop_simps)
  then have "BitIter_collect (BitIter_new ws) = BitIter_collect \<lparr>it_word = v, it_offset = 0, it_iter = vs\<rparr>"
    by (simp add: BitIter_collect.simps)
  also have "\<dots> = words_list 0 ws"
    using assms Cons by (subst BitIter_collect_words) simp_all
  finally show ?thesis .
qed

lemma sorted_list_of_set_eqI:
  fixes xs :: "nat list"
  shows "sorted_wrt (<) xs \<Longrightarrow> set xs = A \<Longrightarrow> xs = sorted_list_of_set A"
  by (metis finite_set sorted_list_of_set.idem_if_sorted_distinct strict_sorted_iff)

lemma BitSet_iter_correct:
  assumes "64 * length (words s) \<le> 2 ^ 64"
  shows "BitIter_collect (BitSet_iter s) = sorted_list_of_set (BitSet_elems s)"
  using words_list_sorted [of 0 "words s"] assms
  by (simp add: BitSet_iter_def BitIter_collect_new BitSet_elems_def sorted_list_of_set_eqI)

lemma BitSet_count_correct: "BitSet_count s = card (BitSet_elems s)"
proof -
  have "length (words_list off ws) = sum_list (map count_ones ws)" for off ws
    by (induction ws arbitrary: off) (simp_all add: count_ones_def bits_of_def)
  moreover have "distinct (words_list 0 (words s))"
    using words_list_sorted [of 0 "words s"] by (simp add: strict_sorted_iff)
  ultimately show ?thesis
    using words_list_sorted [of 0 "words s"] distinct_card [of "words_list 0 (words s)"]
    by (simp add: BitSet_count_def BitSet_elems_def)
qed

section \<open>Union with a sparse set\<close>

text \<open>
  The loop invariant: words before the current one hold the merged sets, the others the dense
  set \<open>D\<close> alone; \<open>new_bit_mask\<close> holds the sparse elements \<open>P\<close> seen so far that fall in the current
  word; the flag says whether \<open>D\<close> has an element outside \<open>P\<close> in a word already left.
\<close>

definition rus_inv :: "nat \<Rightarrow> nat set \<Rightarrow> nat set \<Rightarrow> u64 list \<Rightarrow> nat \<Rightarrow> u64 \<Rightarrow> bool \<Rightarrow> bool" where
  "rus_inv n D P ws cur nbm na \<longleftrightarrow>
     length ws = n \<and> cur < n \<and> P \<subseteq> {i. i div 64 \<le> cur} \<and>
     word_elems ws = D \<union> {i \<in> P. i div 64 < cur} \<and>
     (\<forall>j<64. bit nbm j \<longleftrightarrow> 64 * cur + j \<in> P) \<and>
     (na \<longleftrightarrow> (\<exists>i\<in>D. i div 64 < cur \<and> i \<notin> P))"

text \<open>Merging the mask into the current word, and the flag of the words up to the next one.\<close>

lemma word_elems_merge:
  assumes "cur < length ws"
  shows "word_elems (ws[cur := ws ! cur OR nbm]) = word_elems ws \<union> {i. i div 64 = cur \<and> bit nbm (i mod 64)}"
  using assms by (intro set_eqI) (auto simp: mem_word_elems nth_list_update bit_or_iff)

lemma merged_word_extra:
  "(w OR nbm) XOR nbm \<noteq> 0 \<longleftrightarrow> (\<exists>j<64. bit w j \<and> \<not> bit (nbm :: u64) j)"
  unfolding u64_nonzero_bit by (auto simp: bit_or_iff bit_xor_iff)

lemma set_take_drop_nth:
  assumes "b \<le> length ws"
  shows "set (take (b - a) (drop a ws)) = (\<lambda>k. ws ! k) ` {a..<b}"
proof -
  have "take (b - a) (drop a ws) = map (\<lambda>k. ws ! k) [a..<b]"
    using assms by (intro nth_equalityI) auto
  then show ?thesis by simp
qed

lemma ex_in_word: "(\<exists>i. i div 64 = c \<and> Q i) \<longleftrightarrow> (\<exists>j<64. Q (64 * c + j :: nat))"
proof
  assume "\<exists>i. i div 64 = c \<and> Q i"
  then obtain i where "i div 64 = c" "Q i" by blast
  then have "Q (64 * c + i mod 64)" "i mod 64 < 64" by auto
  then show "\<exists>j<64. Q (64 * c + j)" by blast
next
  assume "\<exists>j<64. Q (64 * c + j)"
  then obtain j where "j < 64" "Q (64 * c + j)" by blast
  then have "(64 * c + j) div 64 = c \<and> Q (64 * c + j)" by simp
  then show "\<exists>i. i div 64 = c \<and> Q i" by blast
qed

lemma some_word_nonzero:
  assumes "b \<le> length ws"
  shows "list_ex (\<lambda>x. x \<noteq> 0) (take (b - a) (drop a ws)) \<longleftrightarrow>
    (\<exists>i \<in> word_elems ws. a \<le> i div 64 \<and> i div 64 < b)"
proof -
  have mem: "bit (ws ! k) j \<longleftrightarrow> 64 * k + j \<in> word_elems ws" if "k < b" "j < 64" for k j
    using that assms by (simp add: mem_word_elems_split)
  have "list_ex (\<lambda>x. x \<noteq> 0) (take (b - a) (drop a ws)) \<longleftrightarrow> (\<exists>k. a \<le> k \<and> k < b \<and> (\<exists>j<64. bit (ws ! k) j))"
    using assms by (auto simp: list_ex_iff set_take_drop_nth u64_nonzero_bit)
  also have "\<dots> \<longleftrightarrow> (\<exists>k. a \<le> k \<and> k < b \<and> (\<exists>j<64. 64 * k + j \<in> word_elems ws))"
    using mem by blast
  also have "\<dots> \<longleftrightarrow> (\<exists>k. a \<le> k \<and> k < b \<and> (\<exists>i. i div 64 = k \<and> i \<in> word_elems ws))"
    by (simp only: ex_in_word)
  also have "\<dots> \<longleftrightarrow> (\<exists>i \<in> word_elems ws. a \<le> i div 64 \<and> i div 64 < b)"
    by blast
  finally show ?thesis .
qed

lemma rus_inv_extra:
  assumes "rus_inv n D P ws cur nbm na" "D \<subseteq> {i. i div 64 < n}"
  shows "(ws ! cur OR nbm) XOR nbm \<noteq> 0 \<longleftrightarrow> (\<exists>i\<in>D. i div 64 = cur \<and> i \<notin> P)"
proof -
  have D: "64 * cur + j \<in> D \<longleftrightarrow> bit (ws ! cur) j" if "j < 64" for j
  proof -
    have "(64 * cur + j) div 64 = cur" using that by simp
    then have "64 * cur + j \<in> D \<longleftrightarrow> 64 * cur + j \<in> word_elems ws"
      using assms(1) by (simp only: rus_inv_def Un_iff mem_Collect_eq less_irrefl simp_thms)
    also have "\<dots> \<longleftrightarrow> bit (ws ! cur) j"
      using mem_word_elems_split [OF that, of cur ws] assms(1) by (simp add: rus_inv_def)
    finally show ?thesis .
  qed
  have "(\<exists>i\<in>D. i div 64 = cur \<and> i \<notin> P) \<longleftrightarrow> (\<exists>i. i div 64 = cur \<and> i \<in> D \<and> i \<notin> P)"
    by blast
  also have "\<dots> \<longleftrightarrow> (\<exists>j<64. bit (ws ! cur) j \<and> \<not> bit nbm j)"
    unfolding ex_in_word using assms(1) D by (auto simp: rus_inv_def)
  finally show ?thesis by (simp add: merged_word_extra)
qed

text \<open>The flag of the words below \<open>b\<close>, split at the word \<open>c\<close> being left.\<close>

lemma flag_split:
  assumes "\<And>i. i \<in> P \<Longrightarrow> f i \<le> c" "c < (b :: nat)"
  shows "((\<exists>i\<in>D. f i < c \<and> i \<notin> P) \<or> (\<exists>i\<in>D. f i = c \<and> i \<notin> P)) \<or>
      (\<exists>i \<in> D \<union> P. c + 1 \<le> f i \<and> f i < b) \<longleftrightarrow> (\<exists>i\<in>D. f i < b \<and> i \<notin> P)"
    (is "?l \<longleftrightarrow> ?r")
proof
  assume ?r
  then obtain i where i: "i \<in> D" "f i < b" "i \<notin> P" by blast
  consider "f i < c" | "f i = c" | "c + 1 \<le> f i" by linarith
  then show ?l using i by cases blast+
next
  assume ?l
  moreover have "i \<in> D \<and> i \<notin> P" if "i \<in> D \<union> P" "c + 1 \<le> f i" for i
    using that assms(1) [of i] by auto
  ultimately show ?r using assms(2) less_trans [of _ c b] by blast
qed

lemma rus_inv_merge:
  assumes "rus_inv n D P ws cur nbm na"
  shows "word_elems (ws[cur := ws ! cur OR nbm]) = D \<union> P"
proof -
  have "{i. i div 64 = cur \<and> bit nbm (i mod 64)} = {i \<in> P. i div 64 = cur}"
    using assms by (auto simp: rus_inv_def)
  then show ?thesis
    using assms by (auto simp: rus_inv_def word_elems_merge)
qed

lemma reverse_union_loop_inv:
  assumes "rus_inv n D P ws cur nbm na" "D \<subseteq> {i. i div 64 < n}" "sorted xs"
    and "\<forall>x \<in> set xs. cur \<le> x div 64 \<and> x div 64 < n"
  shows "\<exists>ws' cur' nbm' na'. reverse_union_loop xs ws cur nbm na = Some (ws', cur', nbm', na') \<and>
    rus_inv n D (P \<union> set xs) ws' cur' nbm' na'"
  using assms
proof (induction xs arbitrary: P ws cur nbm na)
  case Nil
  then show ?case by simp
next
  case (Cons x xs)
  note inv = Cons.prems(1)
  have bounds: "cur \<le> x div 64" "x div 64 < n" "length ws = n"
    and rest: "\<forall>y \<in> set xs. x div 64 \<le> y div 64 \<and> y div 64 < n" "sorted xs"
    using Cons.prems by (auto simp: rus_inv_def div_le_mono)
  show ?case
  proof (cases "cur < x div 64")
    case True
    let ?ws = "ws[cur := ws ! cur OR nbm]"
    let ?na = "(na \<or> (ws ! cur OR nbm) XOR nbm \<noteq> 0) \<or>
        list_ex (\<lambda>x. x \<noteq> 0) (take (x div 64 - (cur + 1)) (drop (cur + 1) ?ws))"
    have el: "word_elems ?ws = D \<union> P" by (rule rus_inv_merge [OF inv])
    have P: "i div 64 \<le> cur" if "i \<in> P" for i using inv that by (auto simp: rus_inv_def)
    have "list_ex (\<lambda>x. x \<noteq> 0) (take (x div 64 - (cur + 1)) (drop (cur + 1) ?ws)) \<longleftrightarrow>
        (\<exists>i \<in> D \<union> P. cur + 1 \<le> i div 64 \<and> i div 64 < x div 64)"
      using bounds by (subst some_word_nonzero) (simp_all only: el length_list_update less_imp_le)
    moreover have "na \<longleftrightarrow> (\<exists>i\<in>D. i div 64 < cur \<and> i \<notin> P)" using inv by (simp add: rus_inv_def)
    ultimately have "?na \<longleftrightarrow> (\<exists>i\<in>D. i div 64 < x div 64 \<and> i \<notin> P)"
      unfolding rus_inv_extra [OF inv Cons.prems(2)] using flag_split [where f = "\<lambda>i. i div 64" and P = P, OF P True, of D] by simp
    then have "?na \<longleftrightarrow> (\<exists>i\<in>D. i div 64 < x div 64 \<and> i \<notin> P \<union> {x})"
      by auto
    moreover have "bit (0 OR 2 ^ (x mod 64) :: u64) j \<longleftrightarrow> 64 * (x div 64) + j \<in> P \<union> {x}" if "j < 64" for j
      using that P [of "64 * (x div 64) + j"] True by (auto simp: bit_mask_1 eq_iff_div_mod [of _ x])
    moreover have "P \<union> {x} \<subseteq> {i. i div 64 \<le> x div 64}" "{i \<in> P \<union> {x}. i div 64 < x div 64} = P"
      using P True by (fastforce dest: P)+
    ultimately have "rus_inv n D (P \<union> {x}) ?ws (x div 64) (0 OR 2 ^ (x mod 64)) ?na"
      using bounds el unfolding rus_inv_def by (simp only: length_list_update simp_thms) blast
    from Cons.IH [OF this Cons.prems(2) rest(2,1)] show ?thesis
      using True bounds by (simp add: slice_range_def Let_def)
  next
    case False
    then have cur: "x div 64 = cur" using bounds by simp
    have "bit (nbm OR 2 ^ (x mod 64)) j \<longleftrightarrow> 64 * cur + j \<in> P \<union> {x}" if "j < 64" for j
      using that inv cur by (auto simp: bit_or_iff bit_mask_1 rus_inv_def eq_iff_div_mod [of _ x])
    then have "rus_inv n D (P \<union> {x}) ws cur (nbm OR 2 ^ (x mod 64)) na"
      using inv cur by (auto simp: rus_inv_def)
    from Cons.IH [OF this Cons.prems(2) rest(2)] show ?thesis
      using False rest cur by simp
  qed
qed

lemma BitSet_reverse_union_sparse_correct:
  assumes "BitSet_wf s" "words s \<noteq> []" "sorted xs" "\<forall>x \<in> set xs. in_words x s"
  shows "\<exists>s'. BitSet_reverse_union_sparse s xs = Some (s', \<not> BitSet_elems s \<subseteq> set xs) \<and>
    BitSet_elems s' = BitSet_elems s \<union> set xs \<and> same_size s s'"
proof -
  let ?n = "length (words s)" and ?D = "BitSet_elems s"
  obtain s1 where s1: "BitSet_clear_excess_bits s = Some s1" "BitSet_elems s1 = ?D" "same_size s s1"
    using clear_excess_bits_correct [of s] assms(1) by (auto simp: BitSet_wf_def inf_absorb1)
  have Dn: "?D \<subseteq> {i. i div 64 < ?n}" by (auto simp: BitSet_elems_def mem_word_elems)
  have "rus_inv ?n ?D {} (words s1) 0 0 False"
    using s1 assms(2) by (auto simp: rus_inv_def same_size_def BitSet_elems_def)
  from reverse_union_loop_inv [OF this Dn assms(3)] assms(4) obtain ws cur nbm na where
    loop: "reverse_union_loop xs (words s1) 0 0 False = Some (ws, cur, nbm, na)"
    and inv: "rus_inv ?n ?D (set xs) ws cur nbm na"
    by (auto simp: in_words_def)
  let ?ws = "ws[cur := ws ! cur OR nbm]"
  have len: "length ws = ?n" "cur < ?n" using inv by (simp_all add: rus_inv_def)
  have el: "word_elems ?ws = ?D \<union> set xs" by (rule rus_inv_merge [OF inv])
  have P: "i div 64 \<le> cur" if "i \<in> set xs" for i using inv that by (auto simp: rus_inv_def)
  have "list_ex (\<lambda>x. x \<noteq> 0) (take (?n - (cur + 1)) (drop (cur + 1) ?ws)) \<longleftrightarrow>
      (\<exists>i \<in> ?D \<union> set xs. cur + 1 \<le> i div 64 \<and> i div 64 < ?n)"
    using len by (subst some_word_nonzero) (simp_all only: el length_list_update order_refl)
  moreover have "na \<longleftrightarrow> (\<exists>i\<in>?D. i div 64 < cur \<and> i \<notin> set xs)" using inv by (simp add: rus_inv_def)
  ultimately have "((na \<or> (ws ! cur OR nbm) XOR nbm \<noteq> 0) \<or>
      list_ex (\<lambda>x. x \<noteq> 0) (take (?n - (cur + 1)) (drop (cur + 1) ?ws))) \<longleftrightarrow>
      (\<exists>i\<in>?D. i div 64 < ?n \<and> i \<notin> set xs)"
    unfolding rus_inv_extra [OF inv Dn] using flag_split [where f = "\<lambda>i. i div 64" and P = "set xs", OF P len(2), of ?D] by simp
  also have "\<dots> \<longleftrightarrow> \<not> ?D \<subseteq> set xs" using Dn by blast
  finally have "((na \<or> (ws ! cur OR nbm) XOR nbm \<noteq> 0) \<or>
      list_ex (\<lambda>x. x \<noteq> 0) (take (?n - (cur + 1)) (drop (cur + 1) ?ws))) \<longleftrightarrow> \<not> ?D \<subseteq> set xs" .
  then show ?thesis
    using s1 loop len el
    by (simp add: BitSet_reverse_union_sparse_def slice_range_def same_size_def BitSet_elems_def Let_def)
qed

section \<open>GrowableBitSet and the copies\<close>

lemma GrowableBitSet_insert_correct:
  assumes "BitSet_wf (bit_set g)"
  shows "\<exists>g'. GrowableBitSet_insert e g = Some (g', e \<notin> BitSet_elems (bit_set g)) \<and>
    BitSet_wf (bit_set g') \<and> BitSet_elems (bit_set g') = insert e (BitSet_elems (bit_set g))"
proof -
  let ?b = "BitSet_ensure (bit_set g) (e + 1)"
  note ens = BitSet_ensure_correct [OF assms, of "e + 1"]
  then have e: "e < domain_size ?b" by simp
  with ens(1) have "e div 64 < length (words ?b)"
    using BitSet_wf_in_words by (simp add: in_words_def)
  from BitSet_insert_correct [OF this] obtain b where
    b: "BitSet_insert e ?b = Some (b, e \<notin> BitSet_elems ?b)" "BitSet_elems b = insert e (BitSet_elems ?b)"
      "same_size ?b b"
    by (auto simp: same_size_def)
  have "BitSet_wf b"
    using BitSet_wf_same_size [OF ens(1) b(3)] b(2) e ens(1) by (auto simp: BitSet_wf_def)
  with b ens(2) show ?thesis by (simp add: GrowableBitSet_insert_def)
qed

lemma GrowableBitSet_remove_correct:
  assumes "BitSet_wf (bit_set g)"
  shows "\<exists>g'. GrowableBitSet_remove e g = Some (g', e \<in> BitSet_elems (bit_set g)) \<and>
    BitSet_wf (bit_set g') \<and> BitSet_elems (bit_set g') = BitSet_elems (bit_set g) - {e}"
proof -
  let ?b = "BitSet_ensure (bit_set g) (e + 1)"
  note ens = BitSet_ensure_correct [OF assms, of "e + 1"]
  then have "e < domain_size ?b" by simp
  with ens(1) have "e div 64 < length (words ?b)"
    using BitSet_wf_in_words by (simp add: in_words_def)
  from BitSet_remove_correct [OF this] obtain b where
    b: "BitSet_remove e ?b = Some (b, e \<in> BitSet_elems ?b)" "BitSet_elems b = BitSet_elems ?b - {e}"
      "same_size ?b b"
    by (auto simp: same_size_def)
  have "BitSet_wf b"
    using BitSet_wf_same_size [OF ens(1) b(3)] b(2) ens(1) by (auto simp: BitSet_wf_def)
  with b ens(2) show ?thesis by (simp add: GrowableBitSet_remove_def)
qed

lemma GrowableBitSet_contains_correct:
  "GrowableBitSet_contains g e \<longleftrightarrow> e \<in> BitSet_elems (bit_set g)"
  by (simp add: GrowableBitSet_contains_def vec_get_def and_mask_nonzero BitSet_elems_def mem_word_elems)

lemma BitSet_copy_from_correct:
  assumes "length (words self) = length (words other)"
  shows "\<exists>s'. BitSet_copy_from self other = Some s' \<and> BitSet_elems s' = BitSet_elems other \<and>
    same_size self s'"
  using assms by (simp add: BitSet_copy_from_def copy_from_slice_def BitSet_elems_def same_size_def)

lemma BitSet_clone_from_same_domain:
  assumes "length (words self) = length (words from)" "domain_size self = domain_size from"
  shows "BitSet_clone_from self from = Some (BitSet_clone from)"
  using assms by (simp add: BitSet_clone_from_def BitSet_clone_def copy_from_slice_def)

text \<open>
  \<open>clone_from\<close> resizes the word vector to the \<^emph>\<open>domain size\<close> of the source, not to its number of
  words: for different domain sizes it panics as soon as the source has at least two elements in
  its domain.
\<close>

lemma BitSet_clone_from_other_domain:
  assumes "domain_size self \<noteq> domain_size from" "BitSet_wf from"
  shows "BitSet_clone_from self from = None \<longleftrightarrow> 2 \<le> domain_size from"
proof -
  have "domain_size from \<noteq> num_words (domain_size from) \<longleftrightarrow> 2 \<le> domain_size from"
    by (auto simp: num_words_def)
  with assms show ?thesis
    by (auto simp: BitSet_clone_from_def copy_from_slice_def BitSet_wf_def)
qed

end
