(* ===== verification/Hybrid_Set.thy ===== *)
theory Hybrid_Set
  imports Bit_Set
begin

text \<open>
  The sparse and the hybrid bit set, \<^verbatim>\<open>lib/bitset/src/sparse.rs\<close> and \<^verbatim>\<open>hybrid.rs\<close>, with the conversions
  of \<^verbatim>\<open>lib.rs\<close>. A sparse set is a sorted vector of at most eight elements; a hybrid set starts sparse
  and turns dense when it outgrows that. \<open>ArrayVec\<close> is a list of bounded length: its \<open>push\<close> and
  \<open>insert\<close> panic on a full vector.
\<close>

section \<open>Sparse sets\<close>

definition SPARSE_MAX :: nat where
  "SPARSE_MAX = 8"

record sparse_bit_set =
  sparse_elems :: "nat list"

definition arrayvec_push :: "nat \<Rightarrow> nat list \<Rightarrow> nat list panics" where
  "arrayvec_push x xs = (if length xs < SPARSE_MAX then Some (xs @ [x]) else None)"

definition arrayvec_insert :: "nat \<Rightarrow> nat \<Rightarrow> nat list \<Rightarrow> nat list panics" where
  "arrayvec_insert i x xs =
     (if i \<le> length xs \<and> length xs < SPARSE_MAX then Some (take i xs @ x # drop i xs) else None)"

text \<open>\<open>iter().position(p)\<close>.\<close>

fun position :: "('a \<Rightarrow> bool) \<Rightarrow> 'a list \<Rightarrow> nat option" where
  "position p [] = None"
| "position p (x # xs) = (if p x then Some 0 else map_option Suc (position p xs))"

definition SparseBitSet_new_empty :: sparse_bit_set where
  "SparseBitSet_new_empty = \<lparr>sparse_elems = []\<rparr>"

definition SparseBitSet_len :: "sparse_bit_set \<Rightarrow> nat" where
  "SparseBitSet_len s = length (sparse_elems s)"

definition SparseBitSet_is_empty :: "sparse_bit_set \<Rightarrow> bool" where
  "SparseBitSet_is_empty s \<longleftrightarrow> sparse_elems s = []"

definition SparseBitSet_to_dense :: "sparse_bit_set \<Rightarrow> nat \<Rightarrow> bit_set panics" where
  "SparseBitSet_to_dense s domain =
     map_option fst (for_changed BitSet_insert (sparse_elems s) (BitSet_new_empty domain) False)"

definition SparseBitSet_iter :: "sparse_bit_set \<Rightarrow> nat list" where
  "SparseBitSet_iter s = sparse_elems s"

definition SparseBitSet_union_into :: "sparse_bit_set \<Rightarrow> bit_set \<Rightarrow> (bit_set \<times> bool) panics" where
  "SparseBitSet_union_into s other = for_changed BitSet_insert (sparse_elems s) other False"

definition SparseBitSet_insert :: "nat \<Rightarrow> sparse_bit_set \<Rightarrow> (sparse_bit_set \<times> bool) panics" where
  "SparseBitSet_insert elem s =
     (case position (\<lambda>e. elem \<le> e) (sparse_elems s) of
        Some i \<Rightarrow>
          do { e \<leftarrow> vec_get (sparse_elems s) i;
               (if e = elem then Some (s, False)
                else do { es \<leftarrow> arrayvec_insert i elem (sparse_elems s); Some (s\<lparr>sparse_elems := es\<rparr>, True) }) }
      | None \<Rightarrow> do { es \<leftarrow> arrayvec_push elem (sparse_elems s); Some (s\<lparr>sparse_elems := es\<rparr>, True) })"

definition SparseBitSet_remove :: "nat \<Rightarrow> sparse_bit_set \<Rightarrow> sparse_bit_set \<times> bool" where
  "SparseBitSet_remove elem s =
     (case position (\<lambda>e. e = elem) (sparse_elems s) of
        Some i \<Rightarrow> (s\<lparr>sparse_elems := take i (sparse_elems s) @ drop (Suc i) (sparse_elems s)\<rparr>, True)
      | None \<Rightarrow> (s, False))"

definition SparseBitSet_contains :: "sparse_bit_set \<Rightarrow> nat \<Rightarrow> bool" where
  "SparseBitSet_contains s elem \<longleftrightarrow> elem \<in> set (sparse_elems s)"

definition SparseBitSet_subtract_from :: "sparse_bit_set \<Rightarrow> bit_set \<Rightarrow> (bit_set \<times> bool) panics" where
  "SparseBitSet_subtract_from s other = for_changed BitSet_remove (sparse_elems s) other False"

text \<open>\<open>retain\<close> with the closure that keeps what a set does not contain and notes what it drops.\<close>

fun retain_not_in :: "(nat \<Rightarrow> bool panics) \<Rightarrow> nat list \<Rightarrow> (nat list \<times> bool) panics" where
  "retain_not_in mem [] = Some ([], False)"
| "retain_not_in mem (x # xs) =
     do { c \<leftarrow> mem x;
          (ys, changed) \<leftarrow> retain_not_in mem xs;
          Some (if c then (ys, True) else (x # ys, changed)) }"

section \<open>Hybrid sets\<close>

datatype hybrid_bit_set = Sparse sparse_bit_set | Dense bit_set

definition HybridBitSet_new_empty :: hybrid_bit_set where
  "HybridBitSet_new_empty = Sparse SparseBitSet_new_empty"

definition HybridBitSet_clone :: "hybrid_bit_set \<Rightarrow> hybrid_bit_set" where
  "HybridBitSet_clone h = (case h of Sparse s \<Rightarrow> Sparse s | Dense d \<Rightarrow> Dense (BitSet_clone d))"

definition HybridBitSet_clone_from :: "hybrid_bit_set \<Rightarrow> hybrid_bit_set \<Rightarrow> hybrid_bit_set panics" where
  "HybridBitSet_clone_from self source =
     (case self of
        Dense dst \<Rightarrow>
          (case source of
             Sparse src \<Rightarrow>
               do { (dst, _) \<leftarrow> BitSet_reverse_union_sparse (BitSet_clear dst) (sparse_elems src); Some (Dense dst) }
           | Dense src \<Rightarrow> do { dst \<leftarrow> BitSet_clone_from dst src; Some (Dense dst) })
      | Sparse _ \<Rightarrow> Some (HybridBitSet_clone source))"

definition HybridBitSet_clear :: "hybrid_bit_set \<Rightarrow> hybrid_bit_set" where
  "HybridBitSet_clear h = HybridBitSet_new_empty"

definition HybridBitSet_contains :: "hybrid_bit_set \<Rightarrow> nat \<Rightarrow> bool panics" where
  "HybridBitSet_contains h elem =
     (case h of Sparse s \<Rightarrow> Some (SparseBitSet_contains s elem) | Dense d \<Rightarrow> BitSet_contains d elem)"

datatype hybrid_iter = SparseIter "nat list" | DenseIter bit_iter

definition HybridBitSet_iter :: "hybrid_bit_set \<Rightarrow> hybrid_iter" where
  "HybridBitSet_iter h =
     (case h of Sparse s \<Rightarrow> SparseIter (SparseBitSet_iter s) | Dense d \<Rightarrow> DenseIter (BitSet_iter d))"

definition HybridIter_next :: "hybrid_iter \<Rightarrow> nat option \<times> hybrid_iter" where
  "HybridIter_next it =
     (case it of
        SparseIter [] \<Rightarrow> (None, SparseIter [])
      | SparseIter (x # xs) \<Rightarrow> (Some x, SparseIter xs)
      | DenseIter b \<Rightarrow> (let (r, b) = BitIter_next b in (r, DenseIter b)))"

text \<open>The elements the iterator yields; \<open>all\<close> stops at the first element outside.\<close>

definition HybridIter_collect :: "hybrid_iter \<Rightarrow> nat list" where
  "HybridIter_collect it = (case it of SparseIter xs \<Rightarrow> xs | DenseIter b \<Rightarrow> BitIter_collect b)"

fun all_contained :: "(nat \<Rightarrow> bool panics) \<Rightarrow> nat list \<Rightarrow> bool panics" where
  "all_contained mem [] = Some True"
| "all_contained mem (x # xs) = do { c \<leftarrow> mem x; (if c then all_contained mem xs else Some False) }"

definition HybridBitSet_superset :: "hybrid_bit_set \<Rightarrow> hybrid_bit_set \<Rightarrow> bool panics" where
  "HybridBitSet_superset self other =
     (case (self, other) of
        (Dense a, Dense b) \<Rightarrow> Some (BitSet_superset a b)
      | _ \<Rightarrow> all_contained (HybridBitSet_contains self) (HybridIter_collect (HybridBitSet_iter other)))"

definition HybridBitSet_is_empty :: "hybrid_bit_set \<Rightarrow> bool" where
  "HybridBitSet_is_empty h = (case h of Sparse s \<Rightarrow> SparseBitSet_is_empty s | Dense d \<Rightarrow> BitSet_is_empty d)"

definition HybridBitSet_is_empty_sparse :: "hybrid_bit_set \<Rightarrow> bool" where
  "HybridBitSet_is_empty_sparse h = (case h of Sparse s \<Rightarrow> SparseBitSet_is_empty s | Dense d \<Rightarrow> False)"

definition HybridBitSet_insert :: "nat \<Rightarrow> nat \<Rightarrow> hybrid_bit_set \<Rightarrow> (hybrid_bit_set \<times> bool) panics" where
  "HybridBitSet_insert domain elem h =
     (case h of
        Sparse s \<Rightarrow>
          if SparseBitSet_len s < SPARSE_MAX then
            do { (s, c) \<leftarrow> SparseBitSet_insert elem s; Some (Sparse s, c) }
          else if SparseBitSet_contains s elem then Some (Sparse s, False)
          else
            do { d \<leftarrow> SparseBitSet_to_dense s domain;
                 (d, changed) \<leftarrow> BitSet_insert elem d;
                 _ \<leftarrow> rust_assert changed;
                 Some (Dense d, changed) }
      | Dense d \<Rightarrow> do { (d, c) \<leftarrow> BitSet_insert elem d; Some (Dense d, c) })"

definition HybridBitSet_insert_growable :: "nat \<Rightarrow> nat \<Rightarrow> hybrid_bit_set \<Rightarrow> (hybrid_bit_set \<times> bool) panics" where
  "HybridBitSet_insert_growable domain elem h =
     HybridBitSet_insert domain elem
       (case h of Dense d \<Rightarrow> Dense (BitSet_ensure d (elem + 1)) | Sparse s \<Rightarrow> Sparse s)"

definition HybridBitSet_insert_all :: "nat \<Rightarrow> hybrid_bit_set \<Rightarrow> hybrid_bit_set panics" where
  "HybridBitSet_insert_all domain h =
     (case h of Sparse s \<Rightarrow> map_option Dense (BitSet_new_filled domain)
      | Dense d \<Rightarrow> map_option Dense (BitSet_insert_all d))"

definition HybridBitSet_remove :: "nat \<Rightarrow> hybrid_bit_set \<Rightarrow> (hybrid_bit_set \<times> bool) panics" where
  "HybridBitSet_remove elem h =
     (case h of Sparse s \<Rightarrow> (let (s, c) = SparseBitSet_remove elem s in Some (Sparse s, c))
      | Dense d \<Rightarrow> do { (d, c) \<leftarrow> BitSet_remove elem d; Some (Dense d, c) })"

definition HybridBitSet_into_dense :: "nat \<Rightarrow> hybrid_bit_set \<Rightarrow> bit_set panics" where
  "HybridBitSet_into_dense domain h = (case h of Sparse s \<Rightarrow> SparseBitSet_to_dense s domain | Dense d \<Rightarrow> Some d)"

fun push_contained :: "(nat \<Rightarrow> bool panics) \<Rightarrow> nat list \<Rightarrow> nat list \<Rightarrow> nat list panics" where
  "push_contained mem [] res = Some res"
| "push_contained mem (x # xs) res =
     do { c \<leftarrow> mem x;
          res \<leftarrow> (if c then arrayvec_push x res else Some res);
          push_contained mem xs res }"

definition HybridBitSet_intersect :: "hybrid_bit_set \<Rightarrow> hybrid_bit_set \<Rightarrow> hybrid_bit_set panics" where
  "HybridBitSet_intersect self other =
     (case (self, other) of
        (Dense dst, Dense src) \<Rightarrow> do { (dst, _) \<leftarrow> BitSet_intersect dst src; Some (Dense dst) }
      | (Sparse src, other) \<Rightarrow>
          do { res \<leftarrow> push_contained (HybridBitSet_contains other) (sparse_elems src) [];
               Some (Sparse \<lparr>sparse_elems = res\<rparr>) }
      | (other, Sparse src) \<Rightarrow>
          do { res \<leftarrow> push_contained (HybridBitSet_contains other) (sparse_elems src) [];
               Some (Sparse \<lparr>sparse_elems = res\<rparr>) })"

text \<open>Unions and differences of a hybrid set with a dense one, with a sparse one and with a hybrid one.\<close>

definition HybridBitSet_union_into_dense :: "hybrid_bit_set \<Rightarrow> bit_set \<Rightarrow> (bit_set \<times> bool) panics" where
  "HybridBitSet_union_into_dense self other =
     (case self of Sparse s \<Rightarrow> SparseBitSet_union_into s other | Dense d \<Rightarrow> BitSet_union_into d other)"

definition HybridBitSet_subtract_from_dense :: "hybrid_bit_set \<Rightarrow> bit_set \<Rightarrow> (bit_set \<times> bool) panics" where
  "HybridBitSet_subtract_from_dense self other =
     (case self of Sparse s \<Rightarrow> SparseBitSet_subtract_from s other | Dense d \<Rightarrow> BitSet_subtract_from d other)"

definition HybridBitSet_union_into :: "nat \<Rightarrow> hybrid_bit_set \<Rightarrow> hybrid_bit_set \<Rightarrow> (hybrid_bit_set \<times> bool) panics" where
  "HybridBitSet_union_into domain self other =
     (case other of
        Sparse other_sparse \<Rightarrow>
          (case self of
             Sparse self_sparse \<Rightarrow> for_changed (HybridBitSet_insert domain) (sparse_elems self_sparse) other False
           | Dense other_dense \<Rightarrow>
               do { (new_dense, changed) \<leftarrow>
                      BitSet_reverse_union_sparse (BitSet_ensure (BitSet_clone other_dense) domain) (sparse_elems other_sparse);
                    Some (Dense new_dense, changed) })
      | Dense other_dense \<Rightarrow>
          do { (d, c) \<leftarrow> HybridBitSet_union_into_dense self other_dense; Some (Dense d, c) })"

definition BitSet_union_into_hybrid :: "nat \<Rightarrow> bit_set \<Rightarrow> hybrid_bit_set \<Rightarrow> (hybrid_bit_set \<times> bool) panics" where
  "BitSet_union_into_hybrid domain self other =
     do { _ \<leftarrow> rust_assert (domain_size self = domain);
          (case other of
             Sparse sparse \<Rightarrow>
               do { (new_dense, changed) \<leftarrow> BitSet_reverse_union_sparse (BitSet_clone self) (sparse_elems sparse);
                    Some (Dense new_dense, changed) }
           | Dense other_dense \<Rightarrow> do { (d, c) \<leftarrow> BitSet_union_into self other_dense; Some (Dense d, c) }) }"

definition subtract_from_h ::
    "(nat \<Rightarrow> bool panics) \<Rightarrow> (bit_set \<Rightarrow> (bit_set \<times> bool) panics) \<Rightarrow> hybrid_bit_set \<Rightarrow> (hybrid_bit_set \<times> bool) panics" where
  "subtract_from_h mem dense_subtract other =
     (case other of
        Sparse s \<Rightarrow> do { (es, c) \<leftarrow> retain_not_in mem (sparse_elems s); Some (Sparse (s\<lparr>sparse_elems := es\<rparr>), c) }
      | Dense d \<Rightarrow> do { (d, c) \<leftarrow> dense_subtract d; Some (Dense d, c) })"

definition SparseBitSet_subtract_from_h :: "sparse_bit_set \<Rightarrow> hybrid_bit_set \<Rightarrow> (hybrid_bit_set \<times> bool) panics" where
  "SparseBitSet_subtract_from_h self =
     subtract_from_h (\<lambda>x. Some (SparseBitSet_contains self x)) (SparseBitSet_subtract_from self)"

definition HybridBitSet_subtract_from_h :: "hybrid_bit_set \<Rightarrow> hybrid_bit_set \<Rightarrow> (hybrid_bit_set \<times> bool) panics" where
  "HybridBitSet_subtract_from_h self =
     subtract_from_h (HybridBitSet_contains self) (HybridBitSet_subtract_from_dense self)"

definition BitSet_subtract_from_h :: "bit_set \<Rightarrow> hybrid_bit_set \<Rightarrow> (hybrid_bit_set \<times> bool) panics" where
  "BitSet_subtract_from_h self = subtract_from_h (BitSet_contains self) (BitSet_subtract_from self)"

definition HybridBitSet_union :: "hybrid_bit_set \<Rightarrow> hybrid_bit_set \<Rightarrow> nat \<Rightarrow> (hybrid_bit_set \<times> bool) panics" where
  "HybridBitSet_union self other domain = HybridBitSet_union_into domain other self"

definition HybridBitSet_subtract :: "hybrid_bit_set \<Rightarrow> hybrid_bit_set \<Rightarrow> (hybrid_bit_set \<times> bool) panics" where
  "HybridBitSet_subtract self other = HybridBitSet_subtract_from_h other self"

section \<open>Conversions\<close>

fun insert_all_sparse :: "nat list \<Rightarrow> sparse_bit_set \<Rightarrow> sparse_bit_set panics" where
  "insert_all_sparse [] s = Some s"
| "insert_all_sparse (x # xs) s = do { (s, _) \<leftarrow> SparseBitSet_insert x s; insert_all_sparse xs s }"

definition BitSet_to_hybrid :: "bit_set \<Rightarrow> hybrid_bit_set panics" where
  "BitSet_to_hybrid s =
     (if BitSet_count s \<le> SPARSE_MAX then
        map_option Sparse (insert_all_sparse (BitIter_collect (BitSet_iter s)) SparseBitSet_new_empty)
      else Some (Dense (BitSet_clone s)))"

definition BitSet_copy_from_hybrid :: "bool \<Rightarrow> bit_set \<Rightarrow> hybrid_bit_set \<Rightarrow> bit_set panics" where
  "BitSet_copy_from_hybrid clear self other =
     (case other of
        Sparse src \<Rightarrow>
          map_option fst (for_changed BitSet_insert (sparse_elems src) (if clear then BitSet_clear self else self) False)
      | Dense other \<Rightarrow> BitSet_copy_from self other)"

end
