(* ===== verification/Bit_Matrix.thy ===== *)
theory Bit_Matrix
  imports Hybrid_Set
begin

text \<open>
  The bit matrices of \<^verbatim>\<open>lib/bitset/src/matrix.rs\<close>: the dense \<open>BitMatrix\<close>, whose rows lie one after the
  other in a vector of words, the \<open>SparseBitMatrix\<close> of hybrid sets whose rows come into being when they
  are written, and the growable one on top of it, with the helpers of \<^verbatim>\<open>lib/stdx/src/vec.rs\<close>.
\<close>

section \<open>The dense matrix\<close>

record bit_matrix =
  bm_num_rows :: nat
  bm_num_columns :: nat
  bm_words :: "u64 list"

definition BitMatrix_new :: "nat \<Rightarrow> nat \<Rightarrow> bit_matrix" where
  "BitMatrix_new num_rows num_columns =
     (let words_per_row = num_words num_columns in
      \<lparr>bm_num_rows = num_rows, bm_num_columns = num_columns, bm_words = replicate (num_rows * words_per_row) 0\<rparr>)"

definition BitMatrix_from_row_n :: "bit_set \<Rightarrow> nat \<Rightarrow> bit_matrix panics" where
  "BitMatrix_from_row_n row num_rows =
     (let num_columns = domain_size row; words_per_row = num_words num_columns in
      do { _ \<leftarrow> rust_assert (words_per_row = length (words row));
           Some \<lparr>bm_num_rows = num_rows, bm_num_columns = num_columns,
             bm_words = concat (replicate num_rows (words row))\<rparr> })"

definition BitMatrix_rows :: "bit_matrix \<Rightarrow> nat list" where
  "BitMatrix_rows m = [0..<bm_num_rows m]"

definition BitMatrix_clone :: "bit_matrix \<Rightarrow> bit_matrix" where
  "BitMatrix_clone m =
     \<lparr>bm_num_rows = bm_num_rows m, bm_num_columns = bm_num_columns m, bm_words = bm_words m\<rparr>"

definition BitMatrix_clone_from :: "bit_matrix \<Rightarrow> bit_matrix \<Rightarrow> bit_matrix" where
  "BitMatrix_clone_from m source =
     m\<lparr>bm_num_rows := bm_num_rows source, bm_num_columns := bm_num_columns source, bm_words := bm_words source\<rparr>"

definition BitMatrix_range :: "bit_matrix \<Rightarrow> nat \<Rightarrow> nat \<times> nat" where
  "BitMatrix_range m row =
     (let words_per_row = num_words (bm_num_columns m); start = row * words_per_row in (start, start + words_per_row))"

definition BitMatrix_insert :: "nat \<Rightarrow> nat \<Rightarrow> bit_matrix \<Rightarrow> (bit_matrix \<times> bool) panics" where
  "BitMatrix_insert row column m =
     do { _ \<leftarrow> rust_assert (row < bm_num_rows m \<and> column < bm_num_columns m);
          let (start, _) = BitMatrix_range m row;
          let (word_index, mask) = word_index_and_mask column;
          word \<leftarrow> vec_get (bm_words m) (start + word_index);
          let new_word = word OR mask;
          ws \<leftarrow> vec_set (bm_words m) (start + word_index) new_word;
          Some (m\<lparr>bm_words := ws\<rparr>, word \<noteq> new_word) }"

definition BitMatrix_contains :: "bit_matrix \<Rightarrow> nat \<Rightarrow> nat \<Rightarrow> bool panics" where
  "BitMatrix_contains m row column =
     do { _ \<leftarrow> rust_assert (row < bm_num_rows m \<and> column < bm_num_columns m);
          let (start, _) = BitMatrix_range m row;
          let (word_index, mask) = word_index_and_mask column;
          w \<leftarrow> vec_get (bm_words m) (start + word_index);
          Some (w AND mask \<noteq> 0) }"

text \<open>The bits of one word from position \<open>bit\<close> on, until the rest of the word is zero.\<close>

fun intersect_bits :: "nat \<Rightarrow> nat \<Rightarrow> nat \<Rightarrow> u64 \<Rightarrow> nat list" where
  "intersect_bits base n 0 v = []"
| "intersect_bits base n (Suc k) v =
     (if v = 0 then []
      else (if v AND 1 \<noteq> 0 then [base * WORD_BITS + n] else []) @ intersect_bits base (n + 1) k (drop_bit 1 v))"

fun intersect_rows_loop :: "u64 list \<Rightarrow> nat \<Rightarrow> (nat \<times> nat) list \<Rightarrow> nat list panics" where
  "intersect_rows_loop ws base [] = Some []"
| "intersect_rows_loop ws base ((i, j) # ps) =
     do { a \<leftarrow> vec_get ws i; b \<leftarrow> vec_get ws j;
          rest \<leftarrow> intersect_rows_loop ws (base + 1) ps;
          Some (intersect_bits base 0 WORD_BITS (a AND b) @ rest) }"

definition BitMatrix_intersect_rows :: "bit_matrix \<Rightarrow> nat \<Rightarrow> nat \<Rightarrow> nat list panics" where
  "BitMatrix_intersect_rows m row1 row2 =
     do { _ \<leftarrow> rust_assert (row1 < bm_num_rows m \<and> row2 < bm_num_rows m);
          let (row1_start, row1_end) = BitMatrix_range m row1;
          let (row2_start, row2_end) = BitMatrix_range m row2;
          intersect_rows_loop (bm_words m) 0 (zip [row1_start..<row1_end] [row2_start..<row2_end]) }"

text \<open>The loop that adds words to words of the matrix; \<open>read\<close> is taken from the matrix as it is.\<close>

fun union_words_loop :: "(u64 list \<Rightarrow> u64 panics) list \<Rightarrow> nat list \<Rightarrow> u64 list \<Rightarrow> bool \<Rightarrow> (u64 list \<times> bool) panics" where
  "union_words_loop (r # rs) (i # is) ws changed =
     do { word \<leftarrow> vec_get ws i;
          read \<leftarrow> r ws;
          let new_word = word OR read;
          ws \<leftarrow> vec_set ws i new_word;
          union_words_loop rs is ws (changed \<or> word \<noteq> new_word) }"
| "union_words_loop _ _ ws changed = Some (ws, changed)"

definition BitMatrix_union_rows :: "nat \<Rightarrow> nat \<Rightarrow> bit_matrix \<Rightarrow> (bit_matrix \<times> bool) panics" where
  "BitMatrix_union_rows read write m =
     do { _ \<leftarrow> rust_assert (read < bm_num_rows m \<and> write < bm_num_rows m);
          let (read_start, read_end) = BitMatrix_range m read;
          let (write_start, write_end) = BitMatrix_range m write;
          (ws, changed) \<leftarrow> union_words_loop (map (\<lambda>i ws. vec_get ws i) [read_start..<read_end])
            [write_start..<write_end] (bm_words m) False;
          Some (m\<lparr>bm_words := ws\<rparr>, changed) }"

definition BitMatrix_union_row_with :: "bit_set \<Rightarrow> nat \<Rightarrow> bit_matrix \<Rightarrow> (bit_matrix \<times> bool) panics" where
  "BitMatrix_union_row_with with_set write m =
     do { _ \<leftarrow> rust_assert (write < bm_num_rows m);
          _ \<leftarrow> rust_assert (domain_size with_set = bm_num_columns m);
          let (write_start, write_end) = BitMatrix_range m write;
          (ws, changed) \<leftarrow> union_words_loop (map (\<lambda>i _. vec_get (words with_set) i) [0..<length (words with_set)])
            [write_start..<write_end] (bm_words m) False;
          Some (m\<lparr>bm_words := ws\<rparr>, changed) }"

definition BitMatrix_clear_excess_bits :: "nat \<Rightarrow> bit_matrix \<Rightarrow> bit_matrix panics" where
  "BitMatrix_clear_excess_bits row m =
     (let num_bits_in_final_word = bm_num_columns m mod WORD_BITS in
      if num_bits_in_final_word > 0 then
        do { let mask = push_bit num_bits_in_final_word 1 - 1;
             let (_, e) = BitMatrix_range m row;
             final_word_idx \<leftarrow> usize_sub e 1;
             w \<leftarrow> vec_get (bm_words m) final_word_idx;
             ws \<leftarrow> vec_set (bm_words m) final_word_idx (w AND mask);
             Some (m\<lparr>bm_words := ws\<rparr>) }
      else Some m)"

definition BitMatrix_insert_all_into_row :: "nat \<Rightarrow> bit_matrix \<Rightarrow> bit_matrix panics" where
  "BitMatrix_insert_all_into_row row m =
     do { _ \<leftarrow> rust_assert (row < bm_num_rows m);
          let (start, e) = BitMatrix_range m row;
          r \<leftarrow> slice_range (bm_words m) start e;
          BitMatrix_clear_excess_bits row
            (m\<lparr>bm_words := take start (bm_words m) @ map (\<lambda>_. NOT 0) r @ drop e (bm_words m)\<rparr>) }"

definition BitMatrix_iter :: "bit_matrix \<Rightarrow> nat \<Rightarrow> bit_iter panics" where
  "BitMatrix_iter m row =
     do { _ \<leftarrow> rust_assert (row < bm_num_rows m);
          let (start, e) = BitMatrix_range m row;
          map_option BitIter_new (slice_range (bm_words m) start e) }"

definition BitMatrix_count :: "bit_matrix \<Rightarrow> nat \<Rightarrow> nat panics" where
  "BitMatrix_count m row =
     (let (start, e) = BitMatrix_range m row in
      map_option (\<lambda>ws. sum_list (map count_ones ws)) (slice_range (bm_words m) start e))"

section \<open>Vectors\<close>

definition ensure_contains_elem :: "'a list \<Rightarrow> nat \<Rightarrow> 'a \<Rightarrow> 'a list" where
  "ensure_contains_elem vec elem fill_value =
     (let min_new_len = elem + 1 in if length vec < min_new_len then vec_resize vec min_new_len fill_value else vec)"

text \<open>\<open>pick2_mut\<close> hands out two distinct elements.\<close>

definition pick2_mut :: "'a list \<Rightarrow> nat \<Rightarrow> nat \<Rightarrow> ('a \<times> 'a) panics" where
  "pick2_mut xs a b =
     do { _ \<leftarrow> rust_assert (a \<noteq> b);
          _ \<leftarrow> rust_assert (a < length xs \<and> b < length xs);
          Some (xs ! a, xs ! b) }"

section \<open>The sparse matrix\<close>

record sparse_bit_matrix =
  sm_num_columns :: nat
  sm_num_rows :: nat
  sm_rows :: "hybrid_bit_set list"

definition SparseBitMatrix_default :: sparse_bit_matrix where
  "SparseBitMatrix_default = \<lparr>sm_num_columns = 0, sm_num_rows = 0, sm_rows = []\<rparr>"

definition SparseBitMatrix_new :: "nat \<Rightarrow> nat \<Rightarrow> sparse_bit_matrix" where
  "SparseBitMatrix_new num_rows num_columns = \<lparr>sm_num_columns = num_columns, sm_num_rows = num_rows, sm_rows = []\<rparr>"

definition SparseBitMatrix_new_square :: "nat \<Rightarrow> sparse_bit_matrix" where
  "SparseBitMatrix_new_square n = \<lparr>sm_num_columns = n, sm_num_rows = n, sm_rows = []\<rparr>"

definition SparseBitMatrix_clone :: "sparse_bit_matrix \<Rightarrow> sparse_bit_matrix" where
  "SparseBitMatrix_clone m =
     \<lparr>sm_num_columns = sm_num_columns m, sm_num_rows = sm_num_rows m, sm_rows = map HybridBitSet_clone (sm_rows m)\<rparr>"

text \<open>\<open>clear\<close> writes the number of columns twice and leaves the number of rows.\<close>

definition SparseBitMatrix_clear :: "nat \<Rightarrow> nat \<Rightarrow> sparse_bit_matrix \<Rightarrow> sparse_bit_matrix" where
  "SparseBitMatrix_clear num_rows num_columns m =
     m\<lparr>sm_num_columns := num_rows\<rparr>\<lparr>sm_num_columns := num_columns\<rparr>\<lparr>sm_rows := []\<rparr>"

definition SparseBitMatrix_ensure_row :: "nat \<Rightarrow> sparse_bit_matrix \<Rightarrow> sparse_bit_matrix" where
  "SparseBitMatrix_ensure_row row m = m\<lparr>sm_rows := ensure_contains_elem (sm_rows m) row HybridBitSet_new_empty\<rparr>"

text \<open>What the code does to the row that \<open>ensure_row\<close> returns, and the flag it returns.\<close>

definition update_row ::
    "nat \<Rightarrow> (hybrid_bit_set \<Rightarrow> (hybrid_bit_set \<times> bool) panics) \<Rightarrow> sparse_bit_matrix \<Rightarrow> (sparse_bit_matrix \<times> bool) panics" where
  "update_row row f m =
     do { h \<leftarrow> vec_get (sm_rows m) row;
          (h, changed) \<leftarrow> f h;
          rs \<leftarrow> vec_set (sm_rows m) row h;
          Some (m\<lparr>sm_rows := rs\<rparr>, changed) }"

definition SparseBitMatrix_insert :: "nat \<Rightarrow> nat \<Rightarrow> sparse_bit_matrix \<Rightarrow> (sparse_bit_matrix \<times> bool) panics" where
  "SparseBitMatrix_insert row column m =
     (let num_columns = sm_num_columns m in
      update_row row (HybridBitSet_insert num_columns column) (SparseBitMatrix_ensure_row row m))"

definition SparseBitMatrix_row :: "sparse_bit_matrix \<Rightarrow> nat \<Rightarrow> hybrid_bit_set option" where
  "SparseBitMatrix_row m row = (if row < length (sm_rows m) then Some (sm_rows m ! row) else None)"

definition SparseBitMatrix_contains :: "sparse_bit_matrix \<Rightarrow> nat \<Rightarrow> nat \<Rightarrow> bool panics" where
  "SparseBitMatrix_contains m row column =
     (case SparseBitMatrix_row m row of None \<Rightarrow> Some False | Some r \<Rightarrow> HybridBitSet_contains r column)"

definition SparseBitMatrix_union_into_row_dense :: "nat \<Rightarrow> bit_set \<Rightarrow> sparse_bit_matrix \<Rightarrow> (sparse_bit_matrix \<times> bool) panics" where
  "SparseBitMatrix_union_into_row_dense into from m =
     (let col = sm_num_columns m in
      update_row into (BitSet_union_into_hybrid col from) (SparseBitMatrix_ensure_row into m))"

definition SparseBitMatrix_union_into_row :: "nat \<Rightarrow> hybrid_bit_set \<Rightarrow> sparse_bit_matrix \<Rightarrow> (sparse_bit_matrix \<times> bool) panics" where
  "SparseBitMatrix_union_into_row into from m =
     (let col = sm_num_columns m in
      update_row into (\<lambda>h. HybridBitSet_union h from col) (SparseBitMatrix_ensure_row into m))"

definition SparseBitMatrix_insert_all_into_row :: "nat \<Rightarrow> sparse_bit_matrix \<Rightarrow> sparse_bit_matrix panics" where
  "SparseBitMatrix_insert_all_into_row row m =
     (let col = sm_num_columns m in
      map_option fst (update_row row (\<lambda>h. map_option (\<lambda>h. (h, True)) (HybridBitSet_insert_all col h))
        (SparseBitMatrix_ensure_row row m)))"

definition SparseBitMatrix_rows :: "sparse_bit_matrix \<Rightarrow> nat list" where
  "SparseBitMatrix_rows m = [0..<length (sm_rows m)]"

definition SparseBitMatrix_row_data :: "sparse_bit_matrix \<Rightarrow> (nat \<times> hybrid_bit_set) list" where
  "SparseBitMatrix_row_data m = zip [0..<length (sm_rows m)] (sm_rows m)"

definition SparseBitMatrix_iter :: "sparse_bit_matrix \<Rightarrow> nat \<Rightarrow> nat list" where
  "SparseBitMatrix_iter m row =
     (case SparseBitMatrix_row m row of None \<Rightarrow> [] | Some r \<Rightarrow> HybridIter_collect (HybridBitSet_iter r))"

definition SparseBitMatrix_take_row :: "nat \<Rightarrow> sparse_bit_matrix \<Rightarrow> sparse_bit_matrix \<times> hybrid_bit_set option" where
  "SparseBitMatrix_take_row row m =
     (if row < length (sm_rows m)
      then (m\<lparr>sm_rows := (sm_rows m)[row := HybridBitSet_new_empty]\<rparr>, Some (sm_rows m ! row)) else (m, None))"

definition SparseBitMatrix_union_rows :: "nat \<Rightarrow> nat \<Rightarrow> sparse_bit_matrix \<Rightarrow> (sparse_bit_matrix \<times> bool) panics" where
  "SparseBitMatrix_union_rows read write m =
     (if read = write \<or> SparseBitMatrix_row m read = None then Some (m, False)
      else
        (let m = SparseBitMatrix_ensure_row write m in
         do { (read_row, write_row) \<leftarrow> pick2_mut (sm_rows m) read write;
              (h, changed) \<leftarrow> HybridBitSet_union write_row read_row (sm_num_columns m);
              Some (m\<lparr>sm_rows := (sm_rows m)[write := h]\<rparr>, changed) }))"

text \<open>The row-wise loops over the rows of two matrices, as long as both have one.\<close>

fun union_rows_loop ::
    "(hybrid_bit_set \<Rightarrow> hybrid_bit_set \<Rightarrow> (hybrid_bit_set \<times> bool) panics) \<Rightarrow> hybrid_bit_set list \<Rightarrow> hybrid_bit_set list \<Rightarrow>
     bool \<Rightarrow> (hybrid_bit_set list \<times> bool) panics" where
  "union_rows_loop f (dst # ds) (src # ss) changed =
     do { (d, c) \<leftarrow> f dst src;
          (ds, changed) \<leftarrow> union_rows_loop f ds ss (changed \<or> c);
          Some (d # ds, changed) }"
| "union_rows_loop f ds _ changed = Some (ds, changed)"

definition SparseBitMatrix_union :: "sparse_bit_matrix \<Rightarrow> sparse_bit_matrix \<Rightarrow> (sparse_bit_matrix \<times> bool) panics" where
  "SparseBitMatrix_union other m =
     (if sm_rows other = [] then Some (m, False)
      else
        (let m = SparseBitMatrix_ensure_row (length (sm_rows other) - 1) m in
         do { (rs, changed) \<leftarrow> union_rows_loop (\<lambda>d s. HybridBitSet_union d s (sm_num_columns m)) (sm_rows m) (sm_rows other) False;
              Some (m\<lparr>sm_rows := rs\<rparr>, changed) }))"

definition SparseBitMatrix_intersect :: "sparse_bit_matrix \<Rightarrow> sparse_bit_matrix \<Rightarrow> sparse_bit_matrix panics" where
  "SparseBitMatrix_intersect other m =
     do { (rs, _) \<leftarrow> union_rows_loop (\<lambda>d s. map_option (\<lambda>h. (h, True)) (HybridBitSet_intersect d s))
            (take (length (sm_rows other)) (sm_rows m)) (sm_rows other) False;
          Some (m\<lparr>sm_rows := take (length (sm_rows other)) rs\<rparr>) }"

definition SparseBitMatrix_ensure_columns :: "nat \<Rightarrow> sparse_bit_matrix \<Rightarrow> sparse_bit_matrix" where
  "SparseBitMatrix_ensure_columns num_columns m =
     (let m = (if sm_num_columns m < num_columns then
                 m\<lparr>sm_rows := map (\<lambda>row. case row of Dense d \<Rightarrow> Dense (BitSet_ensure d num_columns) | Sparse s \<Rightarrow> Sparse s) (sm_rows m)\<rparr>
               else m)
      in m\<lparr>sm_num_columns := num_columns\<rparr>)"

fun inverse_loop :: "(nat \<times> nat) list \<Rightarrow> sparse_bit_matrix \<Rightarrow> sparse_bit_matrix panics" where
  "inverse_loop [] res = Some res"
| "inverse_loop ((row, column) # ps) res = do { (res, _) \<leftarrow> SparseBitMatrix_insert column row res; inverse_loop ps res }"

definition SparseBitMatrix_inverse :: "sparse_bit_matrix \<Rightarrow> sparse_bit_matrix panics" where
  "SparseBitMatrix_inverse m =
     inverse_loop (concat (map (\<lambda>(row, data). map (\<lambda>column. (row, column)) (HybridIter_collect (HybridBitSet_iter data)))
         (SparseBitMatrix_row_data m)))
       (SparseBitMatrix_new (sm_num_columns m) (sm_num_rows m))"

section \<open>The growable matrix\<close>

text \<open>The wrapper has the one field \<open>matrix\<close>; its operations are given on that.\<close>

definition ensure_dense :: "nat \<Rightarrow> hybrid_bit_set \<Rightarrow> hybrid_bit_set" where
  "ensure_dense n h = (case h of Dense d \<Rightarrow> Dense (BitSet_ensure d n) | Sparse s \<Rightarrow> Sparse s)"

definition GrowableSparseBitMatrix_new :: "nat \<Rightarrow> nat \<Rightarrow> sparse_bit_matrix" where
  "GrowableSparseBitMatrix_new num_rows num_columns = SparseBitMatrix_new num_rows num_columns"

definition GrowableSparseBitMatrix_union_rows :: "nat \<Rightarrow> nat \<Rightarrow> sparse_bit_matrix \<Rightarrow> (sparse_bit_matrix \<times> bool) panics" where
  "GrowableSparseBitMatrix_union_rows read write m =
     (if read = write \<or> SparseBitMatrix_row m read = None then Some (m, False)
      else
        (let m = SparseBitMatrix_ensure_row write m; num_columns = sm_num_columns m in
         do { (read_row, write_row) \<leftarrow> pick2_mut (sm_rows m) read write;
              (h, changed) \<leftarrow> HybridBitSet_union (ensure_dense num_columns write_row) read_row num_columns;
              Some (m\<lparr>sm_rows := (sm_rows m)[write := h]\<rparr>, changed) }))"

definition grow_columns :: "nat \<Rightarrow> sparse_bit_matrix \<Rightarrow> sparse_bit_matrix" where
  "grow_columns n m = (if sm_num_columns m < n then m\<lparr>sm_num_columns := n\<rparr> else m)"

definition GrowableSparseBitMatrix_union_with ::
    "hybrid_bit_set \<Rightarrow> nat \<Rightarrow> nat \<Rightarrow> sparse_bit_matrix \<Rightarrow> (sparse_bit_matrix \<times> bool) panics" where
  "GrowableSparseBitMatrix_union_with src domain dst m =
     update_row dst (\<lambda>h. HybridBitSet_union (ensure_dense domain h) src domain)
       (SparseBitMatrix_ensure_row dst (grow_columns domain m))"

definition GrowableSparseBitMatrix_union_rows_with ::
    "sparse_bit_matrix \<Rightarrow> nat \<Rightarrow> nat \<Rightarrow> sparse_bit_matrix \<Rightarrow> (sparse_bit_matrix \<times> bool) panics" where
  "GrowableSparseBitMatrix_union_rows_with other read write m =
     (case SparseBitMatrix_row other read of
        None \<Rightarrow> Some (m, False)
      | Some src \<Rightarrow>
          (let m = grow_columns (sm_num_columns other) m; num_columns = sm_num_columns m in
           update_row write (\<lambda>h. HybridBitSet_union (ensure_dense num_columns h) src num_columns)
             (SparseBitMatrix_ensure_row write m)))"

definition GrowableSparseBitMatrix_union :: "sparse_bit_matrix \<Rightarrow> sparse_bit_matrix \<Rightarrow> (sparse_bit_matrix \<times> bool) panics" where
  "GrowableSparseBitMatrix_union other m =
     (if sm_rows other = [] then Some (m, False)
      else
        (let m = grow_columns (sm_num_columns other) (SparseBitMatrix_ensure_row (length (sm_rows other) - 1) m);
             num_columns = sm_num_columns m in
         do { (rs, changed) \<leftarrow> union_rows_loop (\<lambda>d s. HybridBitSet_union (ensure_dense num_columns d) s num_columns)
                (sm_rows m) (sm_rows other) False;
              Some (m\<lparr>sm_rows := rs\<rparr>, changed) }))"

text \<open>The number of columns is read before it grows, and grows for columns beyond it only.\<close>

definition GrowableSparseBitMatrix_insert :: "nat \<Rightarrow> nat \<Rightarrow> sparse_bit_matrix \<Rightarrow> (sparse_bit_matrix \<times> bool) panics" where
  "GrowableSparseBitMatrix_insert row column m =
     (let num_columns = sm_num_columns m;
          m = (if num_columns < column then m\<lparr>sm_num_columns := column + 1\<rparr> else m)
      in update_row row (HybridBitSet_insert_growable num_columns column) (SparseBitMatrix_ensure_row row m))"

end
