(* ===== verification/Hybrid_Set_Spec.thy ===== *)
theory Hybrid_Set_Spec
  imports Hybrid_Set
begin

text \<open>
  The contract of the hybrid bit set: a subset of \<open>{..<n}\<close> for the domain size \<open>n\<close> that the callers
  pass, independent of the representation. The operations meet the contract of \<open>flagged_update\<close>, and
  every sequence of them refines the operations on sets.
\<close>

section \<open>Sparse sets\<close>

definition sparse_ok :: "nat \<Rightarrow> sparse_bit_set \<Rightarrow> bool" where
  "sparse_ok n s \<longleftrightarrow> sorted_wrt (<) (sparse_elems s) \<and> length (sparse_elems s) \<le> SPARSE_MAX \<and> set (sparse_elems s) \<subseteq> {..<n}"

lemma position_Some: "position p xs = Some i \<Longrightarrow> i < length xs \<and> p (xs ! i) \<and> (\<forall>j < i. \<not> p (xs ! j))"
proof (induction xs arbitrary: i)
  case (Cons x xs)
  show ?case
  proof (cases "p x")
    case True
    with Cons.prems show ?thesis by simp
  next
    case False
    with Cons.prems obtain k where k: "position p xs = Some k" "i = Suc k" by auto
    with Cons.IH [OF k(1)] False show ?thesis by (auto simp: less_Suc_eq_0_disj)
  qed
qed simp

lemma position_None: "position p xs = None \<longleftrightarrow> (\<forall>x \<in> set xs. \<not> p x)"
  by (induction xs) auto

lemma sorted_wrt_take_drop:
  assumes "sorted_wrt (<) (xs :: nat list)" "position (\<lambda>e. x \<le> e) xs = Some i" "xs ! i \<noteq> x"
  shows "sorted_wrt (<) (take i xs @ x # drop i xs)" "set (take i xs @ x # drop i xs) = insert x (set xs)" "x \<notin> set xs"
proof -
  note p = position_Some [OF assms(2)]
  have lo: "y < x" if "y \<in> set (take i xs)" for y
    using that p by (auto simp: in_set_conv_nth not_le)
  have split: "drop i xs = xs ! i # drop (Suc i) xs" using p Cons_nth_drop_Suc [of i xs] by simp
  have sd: "sorted_wrt (<) (drop i xs)" by (rule sorted_wrt_drop [OF assms(1)])
  have hi: "x < y" if "y \<in> set (drop i xs)" for y
    using that sd p assms(3) unfolding split by fastforce
  have st: "sorted_wrt (<) (take i xs)" by (rule sorted_wrt_take [OF assms(1)])
  show "sorted_wrt (<) (take i xs @ x # drop i xs)"
    using st sd lo hi by (auto simp: sorted_wrt_append) (meson less_trans lo hi)
  have "set (take i xs) \<union> set (drop i xs) = set xs" by (metis append_take_drop_id set_append)
  then show "set (take i xs @ x # drop i xs) = insert x (set xs)" "x \<notin> set xs" using lo hi by fastforce+
qed

lemma SparseBitSet_insert_ok:
  assumes "sparse_ok n s" "x < n" "length (sparse_elems s) < SPARSE_MAX"
  shows "\<exists>s'. SparseBitSet_insert x s = Some (s', x \<notin> set (sparse_elems s)) \<and>
    set (sparse_elems s') = insert x (set (sparse_elems s)) \<and> sparse_ok n s'"
proof (cases "position (\<lambda>e. x \<le> e) (sparse_elems s)")
  case None
  then have "\<forall>y \<in> set (sparse_elems s). y < x" by (auto simp: position_None)
  with None assms show ?thesis
    by (auto simp: SparseBitSet_insert_def arrayvec_push_def sparse_ok_def sorted_wrt_append)
next
  case (Some i)
  note p = position_Some [OF Some]
  show ?thesis
  proof (cases "sparse_elems s ! i = x")
    case True
    moreover have "x \<in> set (sparse_elems s)" using p True nth_mem by blast
    ultimately show ?thesis using Some p assms(1) by (auto simp: SparseBitSet_insert_def)
  next
    case False
    have "sorted_wrt (<) (sparse_elems s)" using assms(1) by (simp add: sparse_ok_def)
    note S = sorted_wrt_take_drop [OF this Some False]
    let ?es = "take i (sparse_elems s) @ x # drop i (sparse_elems s)"
    have "SparseBitSet_insert x s = Some (s\<lparr>sparse_elems := ?es\<rparr>, True)"
      using Some False p assms(3) by (simp add: SparseBitSet_insert_def arrayvec_insert_def)
    moreover have "sparse_ok n (s\<lparr>sparse_elems := ?es\<rparr>)"
      using S assms by (auto simp: sparse_ok_def SPARSE_MAX_def)
    ultimately show ?thesis using S(2,3) by simp
  qed
qed

lemma SparseBitSet_remove_ok:
  assumes "sparse_ok n s"
  shows "\<exists>s'. SparseBitSet_remove x s = (s', x \<in> set (sparse_elems s)) \<and>
    set (sparse_elems s') = set (sparse_elems s) - {x} \<and> sparse_ok n s'"
proof (cases "position (\<lambda>e. e = x) (sparse_elems s)")
  case None
  then have "x \<notin> set (sparse_elems s)" by (auto simp: position_None)
  with None assms show ?thesis by (simp add: SparseBitSet_remove_def)
next
  case (Some i)
  note p = position_Some [OF Some]
  define us vs where "us = take i (sparse_elems s)" and "vs = drop (Suc i) (sparse_elems s)"
  have run: "SparseBitSet_remove x s = (s\<lparr>sparse_elems := us @ vs\<rparr>, True)"
    using Some by (simp add: SparseBitSet_remove_def us_def vs_def)
  have es: "sparse_elems s = us @ x # vs" using p id_take_nth_drop [of i "sparse_elems s"] by (simp add: us_def vs_def)
  have sorted: "sorted_wrt (<) (us @ x # vs)" using assms es by (simp add: sparse_ok_def)
  then have sorted': "sorted_wrt (<) (us @ vs)" and "x \<notin> set us" "x \<notin> set vs" by (auto simp: sorted_wrt_append)
  then have "set (us @ vs) = set (us @ x # vs) - {x}" by auto
  then show ?thesis
    using run assms sorted' es by (auto simp: sparse_ok_def)
qed

lemma SparseBitSet_to_dense_ok:
  assumes "sparse_ok n s"
  shows "\<exists>d. SparseBitSet_to_dense s n = Some d \<and> BitSet_wf d \<and> domain_size d = n \<and> BitSet_elems d = set (sparse_elems s)"
proof -
  have n: "domain_size (BitSet_new_empty n) = n" by (simp add: BitSet_new_empty_def)
  have "\<forall>x \<in> set (sparse_elems s). in_words x (BitSet_new_empty n)"
    using assms BitSet_wf_in_words [OF BitSet_new_empty_correct(2)] n by (auto simp: sparse_ok_def)
  from dense_ins.for_changed_ok [OF this, of False] obtain d where d:
    "for_changed BitSet_insert (sparse_elems s) (BitSet_new_empty n) False = Some (d, BitSet_elems d \<noteq> BitSet_elems (BitSet_new_empty n))"
    "BitSet_elems d = BitSet_elems (BitSet_new_empty n) \<union> set (sparse_elems s)" "same_size (BitSet_new_empty n) d"
    by auto
  have "BitSet_wf d"
    by (rule BitSet_wf_same_size [OF BitSet_new_empty_correct(2) d(3)])
      (use d(2) assms BitSet_new_empty_correct n in \<open>auto simp: sparse_ok_def\<close>)
  with d n show ?thesis by (auto simp: SparseBitSet_to_dense_def BitSet_new_empty_correct same_size_def)
qed

section \<open>Hybrid sets\<close>

definition hybrid_elems :: "hybrid_bit_set \<Rightarrow> nat set" where
  "hybrid_elems h = (case h of Sparse s \<Rightarrow> set (sparse_elems s) | Dense d \<Rightarrow> BitSet_elems d)"

definition hybrid_ok :: "nat \<Rightarrow> hybrid_bit_set \<Rightarrow> bool" where
  "hybrid_ok n h \<longleftrightarrow> (case h of Sparse s \<Rightarrow> sparse_ok n s | Dense d \<Rightarrow> BitSet_wf d \<and> domain_size d = n)"

lemma hybrid_simps [simp]:
  "hybrid_elems (Sparse s) = set (sparse_elems s)" "hybrid_elems (Dense d) = BitSet_elems d"
  "hybrid_ok n (Sparse s) \<longleftrightarrow> sparse_ok n s" "hybrid_ok n (Dense d) \<longleftrightarrow> BitSet_wf d \<and> domain_size d = n"
  by (simp_all add: hybrid_elems_def hybrid_ok_def)

lemma hybrid_range: "hybrid_ok n h \<Longrightarrow> hybrid_elems h \<subseteq> {..<n}"
  by (cases h) (auto simp: sparse_ok_def BitSet_wf_def)

lemma dense_words: "BitSet_wf d \<Longrightarrow> x < domain_size d \<Longrightarrow> x div 64 < length (words d)"
  using BitSet_wf_in_words [of d x] by (simp add: in_words_def)

lemma dense_same:
  assumes "BitSet_wf d" "same_size d d'" "BitSet_elems d' \<subseteq> {..<domain_size d}"
  shows "hybrid_ok (domain_size d) (Dense d')"
  using BitSet_wf_same_size [OF assms] assms(2) by (simp add: same_size_def)

lemma HybridBitSet_new_empty_ok: "hybrid_ok n HybridBitSet_new_empty" "hybrid_elems HybridBitSet_new_empty = {}"
  by (simp_all add: HybridBitSet_new_empty_def SparseBitSet_new_empty_def sparse_ok_def)

lemma HybridBitSet_contains_ok:
  assumes "hybrid_ok n h" "x < n"
  shows "HybridBitSet_contains h x = Some (x \<in> hybrid_elems h)"
  using assms BitSet_contains_correct dense_words
  by (cases h) (auto simp: HybridBitSet_contains_def SparseBitSet_contains_def)

lemma HybridBitSet_insert_ok:
  assumes "hybrid_ok n h" "x < n"
  shows "\<exists>h'. HybridBitSet_insert n x h = Some (h', x \<notin> hybrid_elems h) \<and>
    hybrid_elems h' = insert x (hybrid_elems h) \<and> hybrid_ok n h'"
proof (cases h)
  case (Sparse s)
  then have ok: "sparse_ok n s" using assms(1) by simp
  show ?thesis
  proof (cases "length (sparse_elems s) < SPARSE_MAX")
    case True
    with SparseBitSet_insert_ok [OF ok assms(2) True] Sparse show ?thesis
      by (auto simp: HybridBitSet_insert_def SparseBitSet_len_def)
  next
    case full: False
    show ?thesis
    proof (cases "x \<in> set (sparse_elems s)")
      case True
      with full Sparse ok show ?thesis
        by (auto simp: HybridBitSet_insert_def SparseBitSet_len_def SparseBitSet_contains_def)
    next
      case False
      obtain d where d: "SparseBitSet_to_dense s n = Some d" "BitSet_wf d" "domain_size d = n"
        "BitSet_elems d = set (sparse_elems s)"
        using SparseBitSet_to_dense_ok [OF ok] by blast
      then have "x div 64 < length (words d)" using dense_words assms(2) by simp
      from BitSet_insert_correct [OF this] obtain d' where d': "BitSet_insert x d = Some (d', x \<notin> BitSet_elems d)"
        "BitSet_elems d' = insert x (BitSet_elems d)" "length (words d') = length (words d)" "domain_size d' = domain_size d"
        by blast
      have "hybrid_ok n (Dense d')"
        using dense_same [of d d'] d d' assms(2) hybrid_range [OF assms(1)] Sparse by (auto simp: same_size_def)
      with full False Sparse d d' show ?thesis
        by (auto simp: HybridBitSet_insert_def SparseBitSet_len_def SparseBitSet_contains_def)
    qed
  qed
next
  case (Dense d)
  then have d: "BitSet_wf d" "domain_size d = n" using assms(1) by simp_all
  then have "x div 64 < length (words d)" using dense_words assms(2) by simp
  from BitSet_insert_correct [OF this] obtain d' where d': "BitSet_insert x d = Some (d', x \<notin> BitSet_elems d)"
    "BitSet_elems d' = insert x (BitSet_elems d)" "length (words d') = length (words d)" "domain_size d' = domain_size d"
    by blast
  have "hybrid_ok n (Dense d')"
    using dense_same [of d d'] d d' assms(2) hybrid_range [OF assms(1)] Dense by (auto simp: same_size_def)
  with Dense d' show ?thesis by (auto simp: HybridBitSet_insert_def)
qed

interpretation hybrid_ins: flagged_update "HybridBitSet_insert n" hybrid_elems "\<lambda>x h. hybrid_ok n h \<and> x < n"
  "\<lambda>h h'. hybrid_ok n h \<longrightarrow> hybrid_ok n h'" "\<lambda>X A. A \<union> X" for n
proof unfold_locales
  fix x h assume "hybrid_ok n h \<and> x < n"
  then obtain h' where h': "HybridBitSet_insert n x h = Some (h', x \<notin> hybrid_elems h)"
    "hybrid_elems h' = insert x (hybrid_elems h)" "hybrid_ok n h'"
    using HybridBitSet_insert_ok by blast
  then have "hybrid_elems h' \<noteq> hybrid_elems h \<longleftrightarrow> x \<notin> hybrid_elems h" by auto
  with h' show "\<exists>h'. HybridBitSet_insert n x h = Some (h', hybrid_elems h' \<noteq> hybrid_elems h) \<and>
      hybrid_elems h' = hybrid_elems h \<union> {x} \<and> (hybrid_ok n h \<longrightarrow> hybrid_ok n h')" by auto
qed auto

lemma HybridBitSet_remove_ok:
  assumes "hybrid_ok n h" "x < n"
  shows "\<exists>h'. HybridBitSet_remove x h = Some (h', x \<in> hybrid_elems h) \<and>
    hybrid_elems h' = hybrid_elems h - {x} \<and> hybrid_ok n h'"
proof (cases h)
  case (Sparse s)
  then show ?thesis using SparseBitSet_remove_ok [of n s x] assms(1) by (auto simp: HybridBitSet_remove_def)
next
  case (Dense d)
  then have d: "BitSet_wf d" "domain_size d = n" using assms(1) by simp_all
  from BitSet_remove_correct [OF dense_words [OF d(1)], of x] d(2) assms(2) obtain d' where
    d': "BitSet_remove x d = Some (d', x \<in> BitSet_elems d)"
    "BitSet_elems d' = BitSet_elems d - {x}" "length (words d') = length (words d)" "domain_size d' = domain_size d"
    by blast
  have "hybrid_ok n (Dense d')"
    using dense_same [of d d'] d d' hybrid_range [OF assms(1)] Dense by (auto simp: same_size_def)
  with Dense d' show ?thesis by (auto simp: HybridBitSet_remove_def)
qed

lemma HybridBitSet_insert_all_ok:
  assumes "hybrid_ok n h"
  shows "\<exists>h'. HybridBitSet_insert_all n h = Some h' \<and> hybrid_elems h' = {..<n} \<and> hybrid_ok n h'"
proof (cases h)
  case (Sparse s)
  then show ?thesis using BitSet_new_filled_correct [of n] by (auto simp: HybridBitSet_insert_all_def)
next
  case (Dense d)
  then show ?thesis using BitSet_insert_all_correct [of d] assms by (auto simp: HybridBitSet_insert_all_def)
qed

lemma HybridBitSet_is_empty_ok: "HybridBitSet_is_empty h \<longleftrightarrow> hybrid_elems h = {}"
  by (cases h) (auto simp: HybridBitSet_is_empty_def SparseBitSet_is_empty_def BitSet_is_empty_correct)

lemma HybridBitSet_into_dense_ok:
  assumes "hybrid_ok n h"
  shows "\<exists>d. HybridBitSet_into_dense n h = Some d \<and> BitSet_wf d \<and> domain_size d = n \<and> BitSet_elems d = hybrid_elems h"
  using assms SparseBitSet_to_dense_ok [of n] by (cases h) (auto simp: HybridBitSet_into_dense_def)

lemma dense_same_length:
  assumes "BitSet_wf d" "BitSet_wf d'" "domain_size d = domain_size d'"
  shows "length (words d) = length (words d')"
  using assms by (simp add: BitSet_wf_def)

lemma sparse_in_words:
  assumes "sparse_ok (domain_size d) s" "BitSet_wf d"
  shows "\<forall>x \<in> set (sparse_elems s). in_words x d"
  using assms BitSet_wf_in_words by (auto simp: sparse_ok_def)

text \<open>A union into a dense set and a difference from one.\<close>

lemma union_into_dense_ok:
  assumes "hybrid_ok (domain_size d) h" "BitSet_wf d"
  shows "\<exists>d'. HybridBitSet_union_into_dense h d = Some (d', \<not> hybrid_elems h \<subseteq> BitSet_elems d) \<and>
    BitSet_elems d' = BitSet_elems d \<union> hybrid_elems h \<and> hybrid_ok (domain_size d) (Dense d')"
proof -
  have sub: "BitSet_elems d \<union> hybrid_elems h \<subseteq> {..<domain_size d}"
    using assms hybrid_range [OF assms(1)] by (auto simp: BitSet_wf_def)
  have "\<exists>d'. HybridBitSet_union_into_dense h d = Some (d', \<not> hybrid_elems h \<subseteq> BitSet_elems d) \<and>
    BitSet_elems d' = BitSet_elems d \<union> hybrid_elems h \<and> same_size d d'"
  proof (cases h)
    case (Sparse s)
    have "A \<union> set (sparse_elems s) \<noteq> A \<longleftrightarrow> \<not> set (sparse_elems s) \<subseteq> A" for A by auto
    with Sparse dense_ins.for_changed_ok [OF sparse_in_words [of d s], of False] assms show ?thesis
      by (auto simp: HybridBitSet_union_into_dense_def SparseBitSet_union_into_def)
  next
    case (Dense e)
    then show ?thesis
      using BitSet_union_into_correct [of e d] dense_same_length [of e d] assms
      by (auto simp: HybridBitSet_union_into_dense_def)
  qed
  with sub dense_same [OF assms(2)] show ?thesis by metis
qed

lemma subtract_from_dense_ok:
  assumes "hybrid_ok (domain_size d) h" "BitSet_wf d"
  shows "\<exists>d'. HybridBitSet_subtract_from_dense h d = Some (d', hybrid_elems h \<inter> BitSet_elems d \<noteq> {}) \<and>
    BitSet_elems d' = BitSet_elems d - hybrid_elems h \<and> hybrid_ok (domain_size d) (Dense d')"
proof -
  have sub: "BitSet_elems d - hybrid_elems h \<subseteq> {..<domain_size d}"
    using assms(2) by (auto simp: BitSet_wf_def)
  have "\<exists>d'. HybridBitSet_subtract_from_dense h d = Some (d', hybrid_elems h \<inter> BitSet_elems d \<noteq> {}) \<and>
    BitSet_elems d' = BitSet_elems d - hybrid_elems h \<and> same_size d d'"
  proof (cases h)
    case (Sparse s)
    have "A - set (sparse_elems s) \<noteq> A \<longleftrightarrow> set (sparse_elems s) \<inter> A \<noteq> {}" for A by auto
    with Sparse dense_rem.for_changed_ok [OF sparse_in_words [of d s], of False] assms show ?thesis
      by (auto simp: HybridBitSet_subtract_from_dense_def SparseBitSet_subtract_from_def)
  next
    case (Dense e)
    then show ?thesis
      using BitSet_subtract_from_correct [of e d] dense_same_length [of e d] assms
      by (auto simp: HybridBitSet_subtract_from_dense_def)
  qed
  with sub dense_same [OF assms(2)] show ?thesis by metis
qed

lemma reverse_union_ok:
  assumes "BitSet_wf d" "sparse_ok (domain_size d) s" "0 < domain_size d"
  shows "\<exists>d'. BitSet_reverse_union_sparse d (sparse_elems s) = Some (d', \<not> BitSet_elems d \<subseteq> set (sparse_elems s)) \<and>
    BitSet_elems d' = BitSet_elems d \<union> set (sparse_elems s) \<and> hybrid_ok (domain_size d) (Dense d')"
proof -
  have ne: "words d \<noteq> []" using dense_words [OF assms(1,3)] by auto
  have "sorted (sparse_elems s)" using assms(2) by (simp add: sparse_ok_def strict_sorted_imp_sorted)
  from BitSet_reverse_union_sparse_correct [OF assms(1) ne this sparse_in_words [OF assms(2,1)]]
  show ?thesis using dense_same [OF assms(1)] assms(1,2) by (fastforce simp: sparse_ok_def BitSet_wf_def)
qed

lemma HybridBitSet_union_ok:
  assumes "hybrid_ok n h" "hybrid_ok n g" "0 < n"
  shows "\<exists>h'. HybridBitSet_union h g n = Some (h', \<not> hybrid_elems g \<subseteq> hybrid_elems h) \<and>
    hybrid_elems h' = hybrid_elems h \<union> hybrid_elems g \<and> hybrid_ok n h'"
proof (cases h)
  case h: (Sparse s)
  show ?thesis
  proof (cases g)
    case g: (Sparse t)
    have "A \<union> set (sparse_elems t) \<noteq> A \<longleftrightarrow> \<not> set (sparse_elems t) \<subseteq> A" for A by auto
    moreover have "\<forall>x \<in> set (sparse_elems t). hybrid_ok n h \<and> x < n" using assms(1,2) g by (auto simp: sparse_ok_def)
    ultimately show ?thesis
      using hybrid_ins.for_changed_ok [of "sparse_elems t" n h False] assms(1) h g
      by (auto simp: HybridBitSet_union_def HybridBitSet_union_into_def)
  next
    case g: (Dense d)
    let ?d = "BitSet_ensure (BitSet_clone d) n"
    have "?d = d" using assms(2) g by (simp add: BitSet_ensure_def BitSet_clone_def)
    then show ?thesis
      using reverse_union_ok [of d s] assms h g by (auto simp: HybridBitSet_union_def HybridBitSet_union_into_def)
  qed
next
  case (Dense d)
  then show ?thesis
    using union_into_dense_ok [of d g] assms by (auto simp: HybridBitSet_union_def HybridBitSet_union_into_def)
qed

lemma retain_not_in_ok:
  assumes "\<forall>x \<in> set xs. mem x = Some (x \<in> A)"
  shows "retain_not_in mem xs = Some (filter (\<lambda>x. x \<notin> A) xs, set xs \<inter> A \<noteq> {})"
  using assms by (induction xs) auto

lemma sparse_filter: "sparse_ok n s \<Longrightarrow> sparse_ok n (s\<lparr>sparse_elems := filter P (sparse_elems s)\<rparr>)"
  by (auto simp: sparse_ok_def sorted_wrt_filter intro: le_trans [OF length_filter_le])

lemma HybridBitSet_subtract_ok:
  assumes "hybrid_ok n h" "hybrid_ok n g"
  shows "\<exists>h'. HybridBitSet_subtract h g = Some (h', hybrid_elems g \<inter> hybrid_elems h \<noteq> {}) \<and>
    hybrid_elems h' = hybrid_elems h - hybrid_elems g \<and> hybrid_ok n h'"
proof (cases h)
  case (Sparse s)
  have "\<forall>x \<in> set (sparse_elems s). HybridBitSet_contains g x = Some (x \<in> hybrid_elems g)"
    using HybridBitSet_contains_ok [OF assms(2)] hybrid_range [OF assms(1)] Sparse by auto
  from retain_not_in_ok [OF this] sparse_filter [of n s] assms(1) Sparse show ?thesis
    by (auto simp: HybridBitSet_subtract_def HybridBitSet_subtract_from_h_def subtract_from_h_def)
next
  case (Dense d)
  then show ?thesis
    using subtract_from_dense_ok [of d g] assms
    by (auto simp: HybridBitSet_subtract_def HybridBitSet_subtract_from_h_def subtract_from_h_def)
qed

lemma push_contained_ok:
  assumes "\<forall>x \<in> set xs. mem x = Some (x \<in> A)" "length res + length xs \<le> SPARSE_MAX"
  shows "push_contained mem xs res = Some (res @ filter (\<lambda>x. x \<in> A) xs)"
  using assms by (induction xs arbitrary: res) (auto simp: arrayvec_push_def)

lemma sparse_intersect_ok:
  assumes "sparse_ok n s" "hybrid_ok n g"
  shows "push_contained (HybridBitSet_contains g) (sparse_elems s) [] = Some (filter (\<lambda>x. x \<in> hybrid_elems g) (sparse_elems s))"
    and "sparse_ok n \<lparr>sparse_elems = filter (\<lambda>x. x \<in> hybrid_elems g) (sparse_elems s)\<rparr>"
proof -
  have "\<forall>x \<in> set (sparse_elems s). HybridBitSet_contains g x = Some (x \<in> hybrid_elems g)"
    using HybridBitSet_contains_ok [OF assms(2)] assms(1) by (auto simp: sparse_ok_def)
  from push_contained_ok [OF this, of "[]"] assms(1)
  show "push_contained (HybridBitSet_contains g) (sparse_elems s) [] = Some (filter (\<lambda>x. x \<in> hybrid_elems g) (sparse_elems s))"
    by (simp add: sparse_ok_def)
  show "sparse_ok n \<lparr>sparse_elems = filter (\<lambda>x. x \<in> hybrid_elems g) (sparse_elems s)\<rparr>"
    using sparse_filter [OF assms(1), of "\<lambda>x. x \<in> hybrid_elems g"] by (simp add: sparse_ok_def)
qed

lemma HybridBitSet_intersect_ok:
  assumes "hybrid_ok n h" "hybrid_ok n g"
  shows "\<exists>h'. HybridBitSet_intersect h g = Some h' \<and> hybrid_elems h' = hybrid_elems h \<inter> hybrid_elems g \<and> hybrid_ok n h'"
proof (cases h)
  case (Sparse s)
  then show ?thesis using sparse_intersect_ok [of n s g] assms by (auto simp: HybridBitSet_intersect_def)
next
  case h: (Dense d)
  show ?thesis
  proof (cases g)
    case (Sparse t)
    then show ?thesis using sparse_intersect_ok [of n t h] assms h by (auto simp: HybridBitSet_intersect_def)
  next
    case (Dense e)
    have len: "length (words e) = length (words d)" using dense_same_length [of e d] assms h Dense by simp
    from BitSet_intersect_correct [OF this] obtain d' where
      d': "BitSet_intersect d e = Some (d', \<not> BitSet_elems d \<subseteq> BitSet_elems e)" "BitSet_elems d' = BitSet_elems d \<inter> BitSet_elems e"
      "same_size d d'" by blast
    have "hybrid_ok n (Dense d')"
      using dense_same [of d d'] d' hybrid_range [OF assms(1)] assms(1) h by auto
    with d' h Dense show ?thesis by (auto simp: HybridBitSet_intersect_def)
  qed
qed

text \<open>Queries and copies.\<close>

lemma BitSet_collect:
  assumes "64 * length (words d) \<le> 2 ^ 64"
  shows "set (BitIter_collect (BitSet_iter d)) = BitSet_elems d" "sorted_wrt (<) (BitIter_collect (BitSet_iter d))"
  using BitSet_iter_correct [OF assms] by (simp_all add: BitSet_elems_def)

definition small_domain :: "nat \<Rightarrow> bool" where
  "small_domain n \<longleftrightarrow> 64 * num_words n \<le> 2 ^ 64"

lemma HybridIter_collect_ok:
  assumes "hybrid_ok n h" "small_domain n"
  shows "HybridIter_collect (HybridBitSet_iter h) = sorted_list_of_set (hybrid_elems h)"
proof (cases h)
  case (Sparse s)
  then show ?thesis
    using assms(1) sorted_list_of_set_eqI [of "sparse_elems s" "set (sparse_elems s)"]
    by (simp add: HybridIter_collect_def HybridBitSet_iter_def SparseBitSet_iter_def sparse_ok_def)
next
  case (Dense d)
  then show ?thesis
    using assms BitSet_iter_correct [of d]
    by (auto simp: HybridIter_collect_def HybridBitSet_iter_def small_domain_def BitSet_wf_def)
qed

lemma all_contained_ok:
  assumes "\<forall>x \<in> set xs. mem x = Some (x \<in> A)"
  shows "all_contained mem xs = Some (set xs \<subseteq> A)"
  using assms by (induction xs) auto

lemma finite_hybrid: "finite (hybrid_elems h)"
  by (cases h) (simp_all add: BitSet_elems_def)

lemma HybridBitSet_superset_ok:
  assumes "hybrid_ok n h" "hybrid_ok n g" "small_domain n"
  shows "HybridBitSet_superset h g = Some (hybrid_elems g \<subseteq> hybrid_elems h)"
proof -
  let ?xs = "HybridIter_collect (HybridBitSet_iter g)"
  have xs: "set ?xs = hybrid_elems g" using HybridIter_collect_ok [OF assms(2,3)] finite_hybrid by simp
  then have "\<forall>x \<in> set ?xs. HybridBitSet_contains h x = Some (x \<in> hybrid_elems h)"
    using HybridBitSet_contains_ok [OF assms(1)] hybrid_range [OF assms(2)] by auto
  from all_contained_ok [OF this] xs
  have loop: "all_contained (HybridBitSet_contains h) ?xs = Some (hybrid_elems g \<subseteq> hybrid_elems h)" by simp
  show ?thesis
  proof (cases "\<exists>d e. h = Dense d \<and> g = Dense e")
    case True
    then show ?thesis
      using BitSet_superset_correct dense_same_length assms(1,2) by (auto simp: HybridBitSet_superset_def)
  next
    case False
    then show ?thesis using loop by (auto simp: HybridBitSet_superset_def split: hybrid_bit_set.splits)
  qed
qed

lemma HybridBitSet_clone_ok: "HybridBitSet_clone h = h"
  by (cases h) (simp_all add: HybridBitSet_clone_def BitSet_clone_def)

lemma HybridBitSet_clone_from_ok:
  assumes "hybrid_ok n h" "hybrid_ok n g" "0 < n"
  shows "\<exists>h'. HybridBitSet_clone_from h g = Some h' \<and> hybrid_elems h' = hybrid_elems g \<and> hybrid_ok n h'"
proof (cases h)
  case (Sparse s)
  then show ?thesis using assms(2) by (simp add: HybridBitSet_clone_from_def HybridBitSet_clone_ok)
next
  case h: (Dense d)
  then have d: "BitSet_wf d" "domain_size d = n" using assms(1) by simp_all
  show ?thesis
  proof (cases g)
    case (Sparse s)
    have c: "BitSet_elems (BitSet_clear d) = {}" "same_size d (BitSet_clear d)" using BitSet_clear_correct by simp_all
    then have "BitSet_wf (BitSet_clear d)" "domain_size (BitSet_clear d) = n"
      using BitSet_wf_same_size [OF d(1) c(2)] d(2) by (simp_all add: same_size_def)
    then show ?thesis
      using reverse_union_ok [of "BitSet_clear d" s] assms(2,3) Sparse h c(1) by (auto simp: HybridBitSet_clone_from_def)
  next
    case (Dense e)
    then have e: "BitSet_wf e" "domain_size e = n" using assms(2) by simp_all
    have "length (words e) = length (words d)" using dense_same_length [OF e(1) d(1)] e(2) d(2) by simp
    then have "BitSet_clone_from d e = Some (d\<lparr>words := words e\<rparr>)"
      using d(2) e(2) by (simp add: BitSet_clone_from_def copy_from_slice_def)
    moreover have "d\<lparr>words := words e\<rparr> = e" using d(2) e(2) by (cases d; cases e) simp
    ultimately show ?thesis using h Dense e by (simp add: HybridBitSet_clone_from_def)
  qed
qed

section \<open>Refinement\<close>

datatype hybrid_op =
    HInsert nat | HRemove nat | HContains nat | HClear | HInsertAll | HIsEmpty
  | HUnion hybrid_bit_set | HSubtract hybrid_bit_set | HIntersect hybrid_bit_set
  | HSuperset hybrid_bit_set | HCloneFrom hybrid_bit_set | HUnionDense bit_set

type_synonym logged_hybrid = "hybrid_bit_set \<times> bool list"

definition flag_to :: "bool list \<Rightarrow> ('h \<times> bool) panics \<Rightarrow> ('h \<times> bool list) panics" where
  "flag_to lg r = map_option (\<lambda>(h, c). (h, lg @ [c])) r"

definition hybrid_step :: "nat \<Rightarrow> hybrid_op \<Rightarrow> logged_hybrid \<Rightarrow> logged_hybrid panics" where
  "hybrid_step n x st =
     (let (h, lg) = st in
      case x of
        HInsert e \<Rightarrow> flag_to lg (HybridBitSet_insert n e h)
      | HRemove e \<Rightarrow> flag_to lg (HybridBitSet_remove e h)
      | HContains e \<Rightarrow> map_option (\<lambda>c. (h, lg @ [c])) (HybridBitSet_contains h e)
      | HClear \<Rightarrow> Some (HybridBitSet_clear h, lg)
      | HInsertAll \<Rightarrow> map_option (\<lambda>h. (h, lg)) (HybridBitSet_insert_all n h)
      | HIsEmpty \<Rightarrow> Some (h, lg @ [HybridBitSet_is_empty h])
      | HUnion g \<Rightarrow> flag_to lg (HybridBitSet_union h g n)
      | HSubtract g \<Rightarrow> flag_to lg (HybridBitSet_subtract h g)
      | HIntersect g \<Rightarrow> map_option (\<lambda>h. (h, lg)) (HybridBitSet_intersect h g)
      | HSuperset g \<Rightarrow> map_option (\<lambda>c. (h, lg @ [c])) (HybridBitSet_superset h g)
      | HCloneFrom g \<Rightarrow> map_option (\<lambda>h. (h, lg)) (HybridBitSet_clone_from h g)
      | HUnionDense d \<Rightarrow> flag_to lg (BitSet_union_into_hybrid n d h))"

text \<open>The specification works on the set alone.\<close>

definition hybrid_spec_step :: "nat \<Rightarrow> hybrid_op \<Rightarrow> nat set \<times> bool list \<Rightarrow> (nat set \<times> bool list) option" where
  "hybrid_spec_step n x st =
     (let (A, lg) = st in
      case x of
        HInsert e \<Rightarrow> if e < n then Some (insert e A, lg @ [e \<notin> A]) else None
      | HRemove e \<Rightarrow> if e < n then Some (A - {e}, lg @ [e \<in> A]) else None
      | HContains e \<Rightarrow> if e < n then Some (A, lg @ [e \<in> A]) else None
      | HClear \<Rightarrow> Some ({}, lg)
      | HInsertAll \<Rightarrow> Some ({..<n}, lg)
      | HIsEmpty \<Rightarrow> Some (A, lg @ [A = {}])
      | HUnion g \<Rightarrow> if hybrid_ok n g then Some (A \<union> hybrid_elems g, lg @ [\<not> hybrid_elems g \<subseteq> A]) else None
      | HSubtract g \<Rightarrow> if hybrid_ok n g then Some (A - hybrid_elems g, lg @ [hybrid_elems g \<inter> A \<noteq> {}]) else None
      | HIntersect g \<Rightarrow> if hybrid_ok n g then Some (A \<inter> hybrid_elems g, lg) else None
      | HSuperset g \<Rightarrow> if hybrid_ok n g then Some (A, lg @ [hybrid_elems g \<subseteq> A]) else None
      | HCloneFrom g \<Rightarrow> if hybrid_ok n g then Some (hybrid_elems g, lg) else None
      | HUnionDense d \<Rightarrow>
          if BitSet_wf d \<and> domain_size d = n then Some (A \<union> BitSet_elems d, lg @ [\<not> BitSet_elems d \<subseteq> A]) else None)"

definition hybrid_rel :: "nat \<Rightarrow> logged_hybrid \<Rightarrow> nat set \<times> bool list \<Rightarrow> bool" where
  "hybrid_rel n st a \<longleftrightarrow> 0 < n \<and> small_domain n \<and> hybrid_ok n (fst st) \<and> hybrid_elems (fst st) = fst a \<and> snd st = snd a"

lemma union_dense_ok:
  assumes "hybrid_ok n h" "BitSet_wf d" "domain_size d = n" "0 < n"
  shows "\<exists>h'. BitSet_union_into_hybrid n d h = Some (h', \<not> BitSet_elems d \<subseteq> hybrid_elems h) \<and>
    hybrid_elems h' = hybrid_elems h \<union> BitSet_elems d \<and> hybrid_ok n h'"
proof (cases h)
  case (Sparse s)
  have "BitSet_clone d = d" by (simp add: BitSet_clone_def)
  with Sparse reverse_union_ok [of d s] assms show ?thesis by (auto simp: BitSet_union_into_hybrid_def)
next
  case (Dense e)
  then show ?thesis
    using union_into_dense_ok [of e "Dense d"] assms
    by (auto simp: BitSet_union_into_hybrid_def HybridBitSet_union_into_dense_def)
qed

lemma hybrid_step_sim:
  assumes "hybrid_rel n st a" "hybrid_spec_step n x a = Some a'"
  shows "\<exists>st'. hybrid_step n x st = Some st' \<and> hybrid_rel n st' a'"
proof -
  obtain h lg where st: "st = (h, lg)" by force
  have ok: "hybrid_ok n h" "0 < n" "small_domain n" and a: "a = (hybrid_elems h, lg)"
    using assms(1) st by (cases a; auto simp: hybrid_rel_def)+
  note defs = hybrid_step_def hybrid_spec_step_def hybrid_rel_def flag_to_def st a ok
  show ?thesis
  proof (cases x)
    case (HInsert e)
    then show ?thesis using assms(2) HybridBitSet_insert_ok [OF ok(1), of e] by (auto simp: defs split: if_splits)
  next
    case (HRemove e)
    then show ?thesis using assms(2) HybridBitSet_remove_ok [OF ok(1), of e] by (auto simp: defs split: if_splits)
  next
    case (HContains e)
    then show ?thesis using assms(2) HybridBitSet_contains_ok [OF ok(1), of e] by (auto simp: defs split: if_splits)
  next
    case HClear
    then show ?thesis using assms(2) HybridBitSet_new_empty_ok by (auto simp: defs HybridBitSet_clear_def)
  next
    case HInsertAll
    then show ?thesis using assms(2) HybridBitSet_insert_all_ok [OF ok(1)] by (auto simp: defs)
  next
    case HIsEmpty
    then show ?thesis using assms(2) by (auto simp: defs HybridBitSet_is_empty_ok)
  next
    case (HUnion g)
    then have "hybrid_ok n g" using assms(2) by (auto simp: hybrid_spec_step_def a split: if_splits)
    then show ?thesis using HUnion assms(2) HybridBitSet_union_ok [OF ok(1) _ ok(2), of g] by (auto simp: defs)
  next
    case (HSubtract g)
    then have "hybrid_ok n g" using assms(2) by (auto simp: hybrid_spec_step_def a split: if_splits)
    then show ?thesis using HSubtract assms(2) HybridBitSet_subtract_ok [OF ok(1), of g] by (auto simp: defs)
  next
    case (HIntersect g)
    then have "hybrid_ok n g" using assms(2) by (auto simp: hybrid_spec_step_def a split: if_splits)
    then show ?thesis using HIntersect assms(2) HybridBitSet_intersect_ok [OF ok(1), of g] by (auto simp: defs)
  next
    case (HSuperset g)
    then have "hybrid_ok n g" using assms(2) by (auto simp: hybrid_spec_step_def a split: if_splits)
    then show ?thesis using HSuperset assms(2) HybridBitSet_superset_ok [OF ok(1) _ ok(3), of g] by (auto simp: defs)
  next
    case (HCloneFrom g)
    then have "hybrid_ok n g" using assms(2) by (auto simp: hybrid_spec_step_def a split: if_splits)
    then show ?thesis using HCloneFrom assms(2) HybridBitSet_clone_from_ok [OF ok(1) _ ok(2), of g] by (auto simp: defs)
  next
    case (HUnionDense d)
    then have "BitSet_wf d" "domain_size d = n" using assms(2) by (auto simp: hybrid_spec_step_def a split: if_splits)
    then show ?thesis using HUnionDense assms(2) union_dense_ok [OF ok(1) _ _ ok(2), of d] by (auto simp: defs)
  qed
qed

interpretation hybrid_sim: simulation "hybrid_step n" "hybrid_spec_step n" "hybrid_rel n" for n
  by unfold_locales (rule hybrid_step_sim)

text \<open>
  C16: A hybrid set behaves as a set whatever its representation: every sequence of operations with
  elements and operands in the domain runs without a panic, from sparse to dense and back, and yields
  the set and the flags of the specification.
\<close>

theorem hybrid_set_refines:
  assumes "run_ops (hybrid_spec_step n) ops ({}, []) = Some (A, lg)" "0 < n" "64 * num_words n \<le> 2 ^ 64"
  shows "\<exists>h. run_ops (hybrid_step n) ops (HybridBitSet_new_empty, []) = Some (h, lg) \<and>
    hybrid_ok n h \<and> hybrid_elems h = A \<and> HybridIter_collect (HybridBitSet_iter h) = sorted_list_of_set A"
proof -
  have small: "small_domain n" using assms(3) by (simp add: small_domain_def)
  have "hybrid_rel n (HybridBitSet_new_empty, []) ({}, [])"
    using HybridBitSet_new_empty_ok assms(2) small by (simp add: hybrid_rel_def)
  from hybrid_sim.run_sim [OF this assms(1)] show ?thesis
    using HybridIter_collect_ok small by (auto simp: hybrid_rel_def)
qed

theorem hybrid_set_refines_witness:
  "\<exists>h. run_ops (hybrid_step 100) (map HInsert [9, 8, 7, 6, 5, 4, 3, 2, 70, 2] @ [HRemove 9])
       (HybridBitSet_new_empty, []) = Some (h, replicate 9 True @ [False, True]) \<and>
     hybrid_elems h = {2, 3, 4, 5, 6, 7, 8, 70}"
proof -
  have "run_ops (hybrid_spec_step 100) (map HInsert [9, 8, 7, 6, 5, 4, 3, 2, 70, 2] @ [HRemove 9]) ({}, []) =
      Some ({2, 3, 4, 5, 6, 7, 8, 70}, replicate 9 True @ [False, True])"
    by (simp add: hybrid_spec_step_def) (auto simp: numeral_eq_Suc)
  from hybrid_set_refines [OF this] show ?thesis by (auto simp: num_words_def)
qed

end
