(* ===== verification/Bit_Matrix_Spec.thy ===== *)
theory Bit_Matrix_Spec
  imports Bit_Matrix Hybrid_Set_Spec
begin

text \<open>
  Both bit matrices represent a relation between rows and columns. Each row of the dense matrix is a
  dense bit set, each row of the sparse one a hybrid set, so the operations on rows inherit the
  lemmas of these sets; that an operation leaves the other rows alone is an argument about indices.
\<close>

section \<open>The rows of a dense matrix\<close>

abbreviation row_length :: "bit_matrix \<Rightarrow> nat" where
  "row_length m \<equiv> num_words (bm_num_columns m)"

definition matrix_row :: "bit_matrix \<Rightarrow> nat \<Rightarrow> bit_set" where
  "matrix_row m r = \<lparr>domain_size = bm_num_columns m,
     words = map (\<lambda>k. bm_words m ! (r * row_length m + k)) [0..<row_length m]\<rparr>"

definition matrix_ok :: "bit_matrix \<Rightarrow> bool" where
  "matrix_ok m \<longleftrightarrow> length (bm_words m) = bm_num_rows m * row_length m \<and>
     (\<forall>r < bm_num_rows m. BitSet_wf (matrix_row m r))"

definition matrix_rel :: "bit_matrix \<Rightarrow> (nat \<times> nat) set" where
  "matrix_rel m = {(r, c). r < bm_num_rows m \<and> c \<in> BitSet_elems (matrix_row m r)}"

lemma matrix_row_simps [simp]:
  "domain_size (matrix_row m r) = bm_num_columns m" "length (words (matrix_row m r)) = row_length m"
  "k < row_length m \<Longrightarrow> words (matrix_row m r) ! k = bm_words m ! (r * row_length m + k)"
  by (simp_all add: matrix_row_def)

lemma row_index:
  assumes "matrix_ok m" "r < bm_num_rows m" "k < row_length m"
  shows "r * row_length m + k < length (bm_words m)"
proof -
  have "r * row_length m + k < Suc r * row_length m" using assms(3) by simp
  also have "\<dots> \<le> bm_num_rows m * row_length m" using assms(2) by (intro mult_le_mono1) simp
  finally show ?thesis using assms(1) by (simp add: matrix_ok_def)
qed

lemma row_end:
  assumes "matrix_ok m" "r < bm_num_rows m"
  shows "r * row_length m + row_length m \<le> length (bm_words m)"
proof -
  have "Suc r * row_length m \<le> bm_num_rows m * row_length m" using assms(2) by (intro mult_le_mono1) simp
  then show ?thesis using assms(1) by (simp add: matrix_ok_def)
qed

lemma other_row_index:
  assumes "r' \<noteq> r" "k < (n :: nat)"
  shows "r' * n + k \<notin> {r * n..<r * n + n}"
proof (cases "r' < r")
  case True
  then have "Suc r' * n \<le> r * n" by (intro mult_le_mono1) simp
  with assms(2) show ?thesis by simp
next
  case False
  with assms(1) have "Suc r * n \<le> r' * n" by (intro mult_le_mono1) simp
  then show ?thesis by simp
qed

text \<open>Writing within one row keeps the others; what the row holds afterwards decides the rest.\<close>

lemma row_written:
  assumes ok: "matrix_ok m" and r: "r < bm_num_rows m" and len: "length ws = length (bm_words m)"
    and rest: "\<And>i. i < length ws \<Longrightarrow> i \<notin> {r * row_length m..<r * row_length m + row_length m} \<Longrightarrow> ws ! i = bm_words m ! i"
    and row: "map (\<lambda>k. ws ! (r * row_length m + k)) [0..<row_length m] = words s"
      "domain_size s = bm_num_columns m" "BitSet_wf s"
  shows "matrix_ok (m\<lparr>bm_words := ws\<rparr>)"
    "matrix_rel (m\<lparr>bm_words := ws\<rparr>) = {(r', c). (if r' = r then c \<in> BitSet_elems s else (r', c) \<in> matrix_rel m)}"
proof -
  let ?m = "m\<lparr>bm_words := ws\<rparr>"
  have this_row: "matrix_row ?m r = s" using row(1,2) by (simp add: matrix_row_def)
  have other: "matrix_row ?m r' = matrix_row m r'" if "r' < bm_num_rows m" "r' \<noteq> r" for r'
  proof -
    have "ws ! (r' * row_length m + k) = bm_words m ! (r' * row_length m + k)" if "k < row_length m" for k
      using rest [OF _ other_row_index] row_index [OF ok] \<open>r' < _\<close> \<open>r' \<noteq> r\<close> that len by simp
    then show ?thesis by (simp add: matrix_row_def)
  qed
  show "matrix_ok ?m"
    using ok len this_row other row(3) unfolding matrix_ok_def by (metis (no_types, lifting) bit_matrix.select_convs bit_matrix.surjective bit_matrix.update_convs(3))
  show "matrix_rel ?m = {(r', c). (if r' = r then c \<in> BitSet_elems s else (r', c) \<in> matrix_rel m)}"
  proof (rule set_eqI, rule prod.induct)
    fix a c
    show "(a, c) \<in> matrix_rel ?m \<longleftrightarrow> (a, c) \<in> {(r', c). (if r' = r then c \<in> BitSet_elems s else (r', c) \<in> matrix_rel m)}"
      using this_row other [of a] r by (cases "a = r") (auto simp: matrix_rel_def)
  qed
qed

lemma row_wf: "matrix_ok m \<Longrightarrow> r < bm_num_rows m \<Longrightarrow> BitSet_wf (matrix_row m r)"
  by (simp add: matrix_ok_def)

lemma rel_row: "r < bm_num_rows m \<Longrightarrow> (r, c) \<in> matrix_rel m \<longleftrightarrow> c \<in> BitSet_elems (matrix_row m r)"
  by (simp add: matrix_rel_def)

lemma BitMatrix_new_ok: "matrix_ok (BitMatrix_new n k)" "matrix_rel (BitMatrix_new n k) = {}"
proof -
  have row: "matrix_row (BitMatrix_new n k) r = BitSet_new_empty k" if "r < n" for r
  proof -
    have "r * num_words k + j < n * num_words k" if "j < num_words k" for j
    proof -
      have "r * num_words k + j < Suc r * num_words k" using that by simp
      also have "\<dots> \<le> n * num_words k" using \<open>r < n\<close> by (intro mult_le_mono1) simp
      finally show ?thesis .
    qed
    then show ?thesis
      by (auto simp: matrix_row_def BitMatrix_new_def BitSet_new_empty_def Let_def intro!: nth_equalityI)
  qed
  have "BitSet_wf (BitSet_new_empty k)" "BitSet_elems (BitSet_new_empty k) = {}"
    by (simp_all add: BitSet_new_empty_def BitSet_wf_def BitSet_elems_def)
  then show "matrix_ok (BitMatrix_new n k)" "matrix_rel (BitMatrix_new n k) = {}"
    using row by (auto simp: matrix_ok_def matrix_rel_def) (simp_all add: BitMatrix_new_def Let_def)
qed

text \<open>One word of one row replaced.\<close>

lemma word_written:
  assumes ok: "matrix_ok m" and r: "r < bm_num_rows m" and k: "k < row_length m"
    and wf: "BitSet_wf (matrix_row m r\<lparr>words := (words (matrix_row m r))[k := w]\<rparr>)"
  shows "matrix_ok (m\<lparr>bm_words := (bm_words m)[r * row_length m + k := w]\<rparr>)"
    "matrix_rel (m\<lparr>bm_words := (bm_words m)[r * row_length m + k := w]\<rparr>) =
      {(r', c). (if r' = r then c \<in> BitSet_elems (matrix_row m r\<lparr>words := (words (matrix_row m r))[k := w]\<rparr>)
         else (r', c) \<in> matrix_rel m)}"
proof -
  let ?ws = "(bm_words m)[r * row_length m + k := w]"
  let ?s = "matrix_row m r\<lparr>words := (words (matrix_row m r))[k := w]\<rparr>"
  have 1: "length ?ws = length (bm_words m)" by simp
  have 2: "?ws ! i = bm_words m ! i" if "i < length ?ws" "i \<notin> {r * row_length m..<r * row_length m + row_length m}" for i
    using that k by (auto simp: nth_list_update)
  have 3: "map (\<lambda>j. ?ws ! (r * row_length m + j)) [0..<row_length m] = words ?s"
    using row_index [OF ok r] k by (auto simp: nth_list_update matrix_row_def intro!: nth_equalityI)
  show "matrix_ok (m\<lparr>bm_words := ?ws\<rparr>)"
    "matrix_rel (m\<lparr>bm_words := ?ws\<rparr>) = {(r', c). (if r' = r then c \<in> BitSet_elems ?s else (r', c) \<in> matrix_rel m)}"
    by (rule row_written [OF ok r 1 2 3 _ wf]; simp)+
qed

lemma BitMatrix_insert_ok:
  assumes ok: "matrix_ok m" and rc: "r < bm_num_rows m" "c < bm_num_columns m"
  shows "\<exists>m'. BitMatrix_insert r c m = Some (m', (r, c) \<notin> matrix_rel m) \<and> matrix_ok m' \<and>
    matrix_rel m' = insert (r, c) (matrix_rel m) \<and> bm_num_rows m' = bm_num_rows m \<and> bm_num_columns m' = bm_num_columns m"
proof -
  let ?s = "matrix_row m r" and ?k = "c div 64"
  have k: "?k < row_length m" using rc(2) by (rule num_words_bound)
  let ?w = "words ?s ! ?k" and ?new = "words ?s ! ?k OR 2 ^ (c mod 64)"
  have ins: "BitSet_insert c ?s = Some (?s\<lparr>words := (words ?s)[?k := ?new]\<rparr>, ?new \<noteq> ?w)"
    using k by (simp add: BitSet_insert_def Let_def)
  obtain s' where s': "BitSet_insert c ?s = Some (s', c \<notin> BitSet_elems ?s)" "BitSet_elems s' = insert c (BitSet_elems ?s)"
    "length (words s') = length (words ?s)" "domain_size s' = domain_size ?s"
    using BitSet_insert_correct [of c ?s] k by auto
  have eq: "s' = ?s\<lparr>words := (words ?s)[?k := ?new]\<rparr>" "?new \<noteq> ?w \<longleftrightarrow> c \<notin> BitSet_elems ?s"
    using ins s'(1) by auto
  have wf: "BitSet_wf (?s\<lparr>words := (words ?s)[?k := ?new]\<rparr>)"
    using row_wf [OF ok rc(1)] s'(2-4) rc(2) unfolding eq(1) [symmetric] by (auto simp: BitSet_wf_def)
  note w = word_written [OF ok rc(1) k wf, folded eq(1)]
  have "BitMatrix_insert r c m =
      Some (m\<lparr>bm_words := (bm_words m)[r * row_length m + ?k := ?new]\<rparr>, ?w \<noteq> ?new)"
    using rc row_index [OF ok rc(1) k] k by (simp add: BitMatrix_insert_def rust_assert_def BitMatrix_range_def Let_def)
  moreover have "(?w \<noteq> ?new) = ((r, c) \<notin> matrix_rel m)" using eq(2) rel_row [OF rc(1), of c] by (metis (no_types))
  moreover have "matrix_rel (m\<lparr>bm_words := (bm_words m)[r * row_length m + ?k := ?new]\<rparr>) = insert (r, c) (matrix_rel m)"
    unfolding w(2) s'(2) using rel_row [OF rc(1)] by (auto split: if_splits)
  ultimately show ?thesis using w(1) by simp
qed

lemma BitMatrix_contains_ok:
  assumes ok: "matrix_ok m" and rc: "r < bm_num_rows m" "c < bm_num_columns m"
  shows "BitMatrix_contains m r c = Some ((r, c) \<in> matrix_rel m)"
proof -
  have k: "c div 64 < row_length m" using rc(2) by (rule num_words_bound)
  have "BitSet_contains (matrix_row m r) c = Some (c \<in> BitSet_elems (matrix_row m r))"
    using BitSet_contains_correct [of c "matrix_row m r"] k by simp
  then show ?thesis
    using k rc row_index [OF ok rc(1) k] rel_row [OF rc(1)]
    by (simp add: BitMatrix_contains_def BitSet_contains_def rust_assert_def BitMatrix_range_def Let_def)
qed

text \<open>Adding words to a row.\<close>

lemma union_words_loop_ok:
  assumes "j \<le> n" "length ws = length W" "s + n \<le> length W" "\<And>i. i < length W \<Longrightarrow> i \<notin> {s..<s + j} \<Longrightarrow> ws ! i = W ! i"
    and "\<And>k us. k < n \<Longrightarrow> length us = length W \<Longrightarrow> (\<And>i. i < length W \<Longrightarrow> i \<notin> {s..<s + k} \<Longrightarrow> us ! i = W ! i) \<Longrightarrow>
      R k us = Some (V k)"
  shows "\<exists>ws'. union_words_loop (map R [j..<n]) [s + j..<s + n] ws ch =
      Some (ws', ch \<or> (\<exists>k \<in> {j..<n}. W ! (s + k) OR V k \<noteq> W ! (s + k))) \<and> length ws' = length W \<and>
    (\<forall>i < length W. ws' ! i = (if i \<in> {s + j..<s + n} then W ! i OR V (i - s) else ws ! i))"
  using assms(1,2,4)
proof (induction "n - j" arbitrary: j ws ch)
  case 0
  then show ?case by (intro exI [of _ ws]) auto
next
  case (Suc d)
  then have j: "j < n" by simp
  let ?i = "s + j"
  have i: "?i < length W" "ws ! ?i = W ! ?i" using j assms(3) Suc.prems(3) [of ?i] by simp_all
  have r: "R j ws = Some (V j)" using assms(5) [OF j Suc.prems(2)] Suc.prems(3) by blast
  let ?us = "ws[?i := W ! ?i OR V j]"
  have "us_ok": "?us ! k = W ! k" if "k < length W" "k \<notin> {s..<s + Suc j}" for k
    using that Suc.prems(3) [of k] by (auto simp: nth_list_update)
  have "d = n - Suc j" "Suc j \<le> n" "length ?us = length W" using Suc.hyps(2) Suc.prems(2) j by simp_all
  from Suc.hyps(1) [OF this us_ok, of "ch \<or> W ! ?i \<noteq> W ! ?i OR V j"] obtain ws' where
    ws': "union_words_loop (map R [Suc j..<n]) [s + Suc j..<s + n] ?us (ch \<or> W ! ?i \<noteq> W ! ?i OR V j) =
      Some (ws', (ch \<or> W ! ?i \<noteq> W ! ?i OR V j) \<or> (\<exists>k \<in> {Suc j..<n}. W ! (s + k) OR V k \<noteq> W ! (s + k)))"
    "length ws' = length W" "\<forall>i < length W. ws' ! i = (if i \<in> {s + Suc j..<s + n} then W ! i OR V (i - s) else ?us ! i)"
    by blast
  have "{j..<n} = insert j {Suc j..<n}" using j by auto
  then have flag: "(ch \<or> W ! ?i \<noteq> W ! ?i OR V j) \<or> (\<exists>k \<in> {Suc j..<n}. W ! (s + k) OR V k \<noteq> W ! (s + k)) \<longleftrightarrow>
      ch \<or> (\<exists>k \<in> {j..<n}. W ! (s + k) OR V k \<noteq> W ! (s + k))" by auto
  have "union_words_loop (map R [j..<n]) [?i..<s + n] ws ch =
      Some (ws', ch \<or> (\<exists>k \<in> {j..<n}. W ! (s + k) OR V k \<noteq> W ! (s + k)))"
    using j i r Suc.prems(2) ws'(1) unfolding flag
    by (simp add: upt_conv_Cons [of j n] upt_conv_Cons [of ?i "s + n"] Let_def)
  moreover have "\<forall>i < length W. ws' ! i = (if i \<in> {?i..<s + n} then W ! i OR V (i - s) else ws ! i)"
  proof (intro allI impI)
    fix i assume "i < length W"
    with ws'(3) j Suc.prems(2) show "ws' ! i = (if i \<in> {?i..<s + n} then W ! i OR V (i - s) else ws ! i)"
      by (cases "i = ?i") (auto simp: nth_list_update)
  qed
  ultimately show ?case using ws'(2) by blast
qed

lemma add_row_ok:
  assumes ok: "matrix_ok m" and r: "r < bm_num_rows m" and t: "BitSet_wf t" "domain_size t = bm_num_columns m"
    and R: "\<And>k us. k < row_length m \<Longrightarrow> length us = length (bm_words m) \<Longrightarrow>
      (\<And>i. i < length us \<Longrightarrow> i \<notin> {r * row_length m..<r * row_length m + k} \<Longrightarrow> us ! i = bm_words m ! i) \<Longrightarrow>
      R k us = Some (words t ! k)"
  shows "\<exists>ws'. union_words_loop (map R [0..<row_length m]) [r * row_length m..<r * row_length m + row_length m] (bm_words m) False =
      Some (ws', \<not> BitSet_elems t \<subseteq> BitSet_elems (matrix_row m r)) \<and> matrix_ok (m\<lparr>bm_words := ws'\<rparr>) \<and>
    matrix_rel (m\<lparr>bm_words := ws'\<rparr>) = matrix_rel m \<union> {r} \<times> BitSet_elems t"
proof -
  let ?n = "row_length m" and ?s = "r * row_length m" and ?W = "bm_words m" and ?row = "matrix_row m r"
  have lt: "length (words t) = ?n" using t by (simp add: BitSet_wf_def)
  obtain ws' where ws': "union_words_loop (map R [0..<?n]) [?s..<?s + ?n] ?W False =
      Some (ws', \<exists>k \<in> {0..<?n}. ?W ! (?s + k) OR words t ! k \<noteq> ?W ! (?s + k))" "length ws' = length ?W"
    "\<forall>i < length ?W. ws' ! i = (if i \<in> {?s..<?s + ?n} then ?W ! i OR words t ! (i - ?s) else ?W ! i)"
    using union_words_loop_ok [of 0 ?n ?W ?W ?s R "\<lambda>k. words t ! k" False] row_end [OF ok r] R by auto
  obtain u where u: "BitSet_union_into t ?row = Some (u, \<not> BitSet_elems t \<subseteq> BitSet_elems ?row)"
    "BitSet_elems u = BitSet_elems ?row \<union> BitSet_elems t" "same_size ?row u"
    using BitSet_union_into_correct [of t ?row] lt by auto
  have uw: "words u = map2 (OR) (words ?row) (words t)"
    "\<not> BitSet_elems t \<subseteq> BitSet_elems ?row \<longleftrightarrow> words u \<noteq> words ?row"
    using u(1) lt by (auto simp: BitSet_union_into_def bitwise_eq split: prod.splits)
  have row: "map (\<lambda>k. ws' ! (?s + k)) [0..<?n] = words u"
    using ws'(3) row_index [OF ok r] lt by (auto simp: uw(1) intro!: nth_equalityI)
  have wf: "BitSet_wf u" "domain_size u = bm_num_columns m"
    using u(2,3) row_wf [OF ok r] t by (auto simp: BitSet_wf_def same_size_def)
  have rest: "\<And>i. i < length ws' \<Longrightarrow> i \<notin> {?s..<?s + ?n} \<Longrightarrow> ws' ! i = ?W ! i" using ws'(2,3) by auto
  have "(\<exists>k \<in> {0..<?n}. ?W ! (?s + k) OR words t ! k \<noteq> ?W ! (?s + k)) \<longleftrightarrow> words u \<noteq> words ?row"
    using lt by (auto simp: uw(1) list_eq_iff_nth_eq)
  moreover have "matrix_ok (m\<lparr>bm_words := ws'\<rparr>)"
    "matrix_rel (m\<lparr>bm_words := ws'\<rparr>) = {(r', c). (if r' = r then c \<in> BitSet_elems u else (r', c) \<in> matrix_rel m)}"
    using row_written [OF ok r ws'(2) rest row wf(2,1)] by blast+
  moreover have "{(r', c). (if r' = r then c \<in> BitSet_elems u else (r', c) \<in> matrix_rel m)} = matrix_rel m \<union> {r} \<times> BitSet_elems t"
    using rel_row [OF r] by (auto simp: u(2) split: if_splits)
  ultimately show ?thesis using ws'(1) uw(2) by simp
qed

lemma BitMatrix_union_rows_ok:
  assumes ok: "matrix_ok m" and rw: "r < bm_num_rows m" "w < bm_num_rows m"
  shows "\<exists>m'. BitMatrix_union_rows r w m = Some (m', \<not> BitSet_elems (matrix_row m r) \<subseteq> BitSet_elems (matrix_row m w)) \<and>
    matrix_ok m' \<and> matrix_rel m' = matrix_rel m \<union> {w} \<times> BitSet_elems (matrix_row m r) \<and>
    bm_num_rows m' = bm_num_rows m \<and> bm_num_columns m' = bm_num_columns m"
proof -
  let ?n = "row_length m"
  have read: "vec_get us (r * ?n + k) = Some (words (matrix_row m r) ! k)"
    if "k < ?n" "length us = length (bm_words m)"
      and "\<And>i. i < length us \<Longrightarrow> i \<notin> {w * ?n..<w * ?n + k} \<Longrightarrow> us ! i = bm_words m ! i" for k us
  proof -
    have "{w * ?n..<w * ?n + k} \<subseteq> {w * ?n..<w * ?n + ?n}" using that(1) by auto
    then have "r * ?n + k \<notin> {w * ?n..<w * ?n + k}"
      using other_row_index [OF _ that(1), of r w] by (cases "r = w") (simp, blast)
    then show ?thesis using that row_index [OF ok rw(1) that(1)] by simp
  qed
  have "\<exists>ws'. union_words_loop (map (\<lambda>k us. vec_get us (r * ?n + k)) [0..<?n]) [w * ?n..<w * ?n + ?n] (bm_words m) False =
      Some (ws', \<not> BitSet_elems (matrix_row m r) \<subseteq> BitSet_elems (matrix_row m w)) \<and> matrix_ok (m\<lparr>bm_words := ws'\<rparr>) \<and>
    matrix_rel (m\<lparr>bm_words := ws'\<rparr>) = matrix_rel m \<union> {w} \<times> BitSet_elems (matrix_row m r)"
    by (rule add_row_ok [OF ok rw(2) row_wf [OF ok rw(1)] matrix_row_simps(1)]) (rule read)
  then obtain ws' where
    "union_words_loop (map (\<lambda>k us. vec_get us (r * ?n + k)) [0..<?n]) [w * ?n..<w * ?n + ?n] (bm_words m) False =
      Some (ws', \<not> BitSet_elems (matrix_row m r) \<subseteq> BitSet_elems (matrix_row m w))"
    "matrix_ok (m\<lparr>bm_words := ws'\<rparr>)"
    "matrix_rel (m\<lparr>bm_words := ws'\<rparr>) = matrix_rel m \<union> {w} \<times> BitSet_elems (matrix_row m r)"
    by blast
  moreover have "map (\<lambda>i (us :: u64 list). vec_get us i) [r * ?n..<r * ?n + ?n] = map (\<lambda>k us. vec_get us (r * ?n + k)) [0..<?n]"
    by (simp add: map_add_upt [symmetric] comp_def add.commute)
  ultimately show ?thesis using rw by (simp add: BitMatrix_union_rows_def BitMatrix_range_def rust_assert_def Let_def)
qed

lemma BitMatrix_union_row_with_ok:
  assumes ok: "matrix_ok m" and w: "w < bm_num_rows m" and t: "BitSet_wf t" "domain_size t = bm_num_columns m"
  shows "\<exists>m'. BitMatrix_union_row_with t w m = Some (m', \<not> BitSet_elems t \<subseteq> BitSet_elems (matrix_row m w)) \<and>
    matrix_ok m' \<and> matrix_rel m' = matrix_rel m \<union> {w} \<times> BitSet_elems t \<and>
    bm_num_rows m' = bm_num_rows m \<and> bm_num_columns m' = bm_num_columns m"
proof -
  let ?n = "row_length m"
  have lt: "length (words t) = ?n" using t by (simp add: BitSet_wf_def)
  from add_row_ok [OF ok w t, of "\<lambda>k _. vec_get (words t) k"] lt obtain ws' where
    "union_words_loop (map (\<lambda>k _. vec_get (words t) k) [0..<?n]) [w * ?n..<w * ?n + ?n] (bm_words m) False =
      Some (ws', \<not> BitSet_elems t \<subseteq> BitSet_elems (matrix_row m w))"
    "matrix_ok (m\<lparr>bm_words := ws'\<rparr>)" "matrix_rel (m\<lparr>bm_words := ws'\<rparr>) = matrix_rel m \<union> {w} \<times> BitSet_elems t"
    by auto
  then show ?thesis using w t lt by (simp add: BitMatrix_union_row_with_def BitMatrix_range_def rust_assert_def Let_def)
qed

lemma BitMatrix_insert_all_ok:
  assumes ok: "matrix_ok m" and r: "r < bm_num_rows m"
  shows "\<exists>m'. BitMatrix_insert_all_into_row r m = Some m' \<and> matrix_ok m' \<and>
    matrix_rel m' = matrix_rel m \<union> {r} \<times> {..<bm_num_columns m} \<and>
    bm_num_rows m' = bm_num_rows m \<and> bm_num_columns m' = bm_num_columns m"
proof -
  let ?n = "row_length m" and ?s = "r * row_length m" and ?W = "bm_words m" and ?c = "bm_num_columns m"
  let ?f = "replicate ?n (NOT 0) :: u64 list"
  let ?ws = "take ?s ?W @ ?f @ drop (?s + ?n) ?W"
  note e = row_end [OF ok r]
  have len: "length ?ws = length ?W" using e by simp
  have at: "?ws ! i = (if i \<in> {?s..<?s + ?n} then NOT 0 else ?W ! i)" if "i < length ?W" for i
    using that e by (auto simp: nth_append)
  obtain u where u: "BitSet_clear_excess_bits \<lparr>domain_size = ?c, words = ?f\<rparr> = Some u"
    "BitSet_wf u" "BitSet_elems u = {..<?c}" "domain_size u = ?c"
    using filled_correct [OF refl] by blast
  have start: "BitMatrix_insert_all_into_row r m = BitMatrix_clear_excess_bits r (m\<lparr>bm_words := ?ws\<rparr>)"
    using r e by (simp add: BitMatrix_insert_all_into_row_def BitMatrix_range_def rust_assert_def slice_range_def Let_def
        map_replicate_const)
  have "\<exists>ws'. BitMatrix_clear_excess_bits r (m\<lparr>bm_words := ?ws\<rparr>) = Some (m\<lparr>bm_words := ws'\<rparr>) \<and> length ws' = length ?W \<and>
    (\<forall>i < length ?W. i \<notin> {?s..<?s + ?n} \<longrightarrow> ws' ! i = ?W ! i) \<and> map (\<lambda>k. ws' ! (?s + k)) [0..<?n] = words u"
  proof (cases "?c mod 64 = 0")
    case True
    with u(1) have "words u = ?f" by (auto simp: BitSet_clear_excess_bits_def)
    moreover have "map (\<lambda>k. ?ws ! (?s + k)) [0..<?n] = ?f" using at row_index [OF ok r] by (intro nth_equalityI) auto
    ultimately show ?thesis using True at len by (auto simp: BitMatrix_clear_excess_bits_def)
  next
    case False
    then have n: "0 < ?n" by (auto simp: num_words_def)
    define last where "last = (NOT 0 :: u64) AND (2 ^ (?c mod 64) - 1)"
    have wu: "words u = ?f[?n - 1 := last]"
      using u(1) False n by (auto simp: BitSet_clear_excess_bits_def usize_sub_def last_def)
    have i: "?s + ?n - 1 < length ?W" using e n by linarith
    have "BitMatrix_clear_excess_bits r (m\<lparr>bm_words := ?ws\<rparr>) = Some (m\<lparr>bm_words := ?ws[?s + ?n - 1 := last]\<rparr>)"
      using False n i len at [OF i]
      by (simp add: BitMatrix_clear_excess_bits_def BitMatrix_range_def usize_sub_def last_def Let_def)
    moreover have "map (\<lambda>k. ?ws[?s + ?n - 1 := last] ! (?s + k)) [0..<?n] = words u"
      unfolding wu using at row_index [OF ok r] len n by (intro nth_equalityI) (auto simp: nth_list_update)
    moreover have "\<forall>i < length ?W. i \<notin> {?s..<?s + ?n} \<longrightarrow> ?ws[?s + ?n - 1 := last] ! i = ?W ! i"
      using at n len by (auto simp: nth_list_update)
    ultimately show ?thesis using len by (intro exI [of _ "?ws[?s + ?n - 1 := last]"]) simp
  qed
  then obtain ws' where ws': "BitMatrix_clear_excess_bits r (m\<lparr>bm_words := ?ws\<rparr>) = Some (m\<lparr>bm_words := ws'\<rparr>)"
    "length ws' = length ?W" "\<And>i. i < length ws' \<Longrightarrow> i \<notin> {?s..<?s + ?n} \<Longrightarrow> ws' ! i = ?W ! i"
    "map (\<lambda>k. ws' ! (?s + k)) [0..<?n] = words u"
    by auto
  have w: "matrix_ok (m\<lparr>bm_words := ws'\<rparr>)"
    "matrix_rel (m\<lparr>bm_words := ws'\<rparr>) = {(r', c). (if r' = r then c \<in> BitSet_elems u else (r', c) \<in> matrix_rel m)}"
    by (rule row_written [OF ok r ws'(2) _ ws'(4) u(4,2)], use ws'(3) in blast)+
  have "BitSet_elems (matrix_row m r) \<subseteq> {..<?c}" using row_wf [OF ok r] by (simp add: BitSet_wf_def)
  then have "matrix_rel (m\<lparr>bm_words := ws'\<rparr>) = matrix_rel m \<union> {r} \<times> {..<?c}"
    unfolding w(2) u(3) using rel_row [OF r] by (auto split: if_splits)
  with w(1) ws'(1) start show ?thesis by simp
qed

text \<open>Reading a row.\<close>

lemma row_slice:
  assumes "matrix_ok m" "r < bm_num_rows m"
  shows "slice_range (bm_words m) (r * row_length m) (r * row_length m + row_length m) = Some (words (matrix_row m r))"
  using row_end [OF assms] by (auto simp: slice_range_def intro!: nth_equalityI)

lemma BitMatrix_reads:
  assumes ok: "matrix_ok m" and r: "r < bm_num_rows m"
  shows "BitMatrix_count m r = Some (card (BitSet_elems (matrix_row m r)))"
    and "BitMatrix_iter m r = Some (BitSet_iter (matrix_row m r))"
  using row_slice [OF assms] r BitSet_count_correct [of "matrix_row m r"]
  by (simp_all add: BitMatrix_count_def BitMatrix_iter_def BitMatrix_range_def rust_assert_def BitSet_iter_def
      BitSet_count_def Let_def)

lemma bits_of_Suc:
  "map (\<lambda>i. Suc i + n) (filter (bit (drop_bit 1 v)) [0..<k]) = map (\<lambda>i. i + n) (filter (bit (v :: u64)) [1..<Suc k])"
  by (simp add: map_Suc_upt [symmetric] filter_map comp_def bit_simps del: map_Suc_upt upt_Suc)

lemma intersect_bits_eq:
  "intersect_bits base n k v = map (\<lambda>i. i + (base * 64 + n)) (filter (bit v) [0..<k])"
proof (induction k arbitrary: n v)
  case (Suc k)
  show ?case
  proof (cases "v = 0")
    case False
    have "map (\<lambda>i. i + (base * 64 + (n + 1))) (filter (bit (drop_bit 1 v)) [0..<k]) =
        map (\<lambda>i. i + (base * 64 + n)) (filter (bit v) [1..<Suc k])"
      using bits_of_Suc [of "base * 64 + n" v k] by simp
    moreover have "v AND 1 \<noteq> 0 \<longleftrightarrow> bit v 0" by (simp add: and_one_eq bit_0 odd_iff_mod_2_eq_one)
    ultimately show ?thesis using False Suc.IH [of "n + 1" "drop_bit 1 v"] by (simp add: upt_conv_Cons del: upt_Suc)
  qed simp
qed simp

lemma intersect_rows_loop_eq:
  assumes "length us = length vs" "\<forall>k < length us. i + k < length ws \<and> ws ! (i + k) = us ! k"
    "\<forall>k < length vs. j + k < length ws \<and> ws ! (j + k) = vs ! k"
  shows "intersect_rows_loop ws base (zip [i..<i + length us] [j..<j + length vs]) = Some (words_list (base * 64) (map2 (AND) us vs))"
  using assms
proof (induction us vs arbitrary: i j base rule: list_induct2)
  case (Cons u us v vs)
  have "i < length ws" "ws ! i = u" "j < length ws" "ws ! j = v" using Cons.prems by (auto dest: spec [of _ 0])
  moreover have "\<forall>k < length us. Suc i + k < length ws \<and> ws ! (Suc i + k) = us ! k"
    "\<forall>k < length vs. Suc j + k < length ws \<and> ws ! (Suc j + k) = vs ! k" using Cons.prems by (auto dest: spec [of _ "Suc _"])
  note Cons.IH [OF this, of "base + 1"]
  moreover have "[i..<i + length (u # us)] = i # [Suc i..<Suc i + length us]"
    "[j..<j + length (v # vs)] = j # [Suc j..<Suc j + length vs]"
    using upt_conv_Cons [of i "i + length (u # us)"] upt_conv_Cons [of j "j + length (v # vs)"] by (simp_all del: upt_Suc)
  ultimately show ?case by (simp add: intersect_bits_eq bits_of_def add.commute del: upt_Suc)
qed simp

lemma BitMatrix_intersect_rows_ok:
  assumes ok: "matrix_ok m" and r: "r1 < bm_num_rows m" "r2 < bm_num_rows m"
  shows "BitMatrix_intersect_rows m r1 r2 =
    Some (sorted_list_of_set (BitSet_elems (matrix_row m r1) \<inter> BitSet_elems (matrix_row m r2)))"
proof -
  let ?u = "words (matrix_row m r1)" and ?v = "words (matrix_row m r2)"
  have "word_elems (map2 (AND) ?u ?v) = word_elems ?u \<inter> word_elems ?v" by (auto simp: mem_word_elems bit_and_iff)
  moreover have "intersect_rows_loop (bm_words m) 0 (zip [r1 * row_length m..<r1 * row_length m + row_length m]
      [r2 * row_length m..<r2 * row_length m + row_length m]) = Some (words_list 0 (map2 (AND) ?u ?v))"
    using intersect_rows_loop_eq [of ?u ?v "r1 * row_length m" "bm_words m" "r2 * row_length m" 0]
      row_index [OF ok r(1)] row_index [OF ok r(2)] by simp
  moreover have "words_list 0 (map2 (AND) ?u ?v) = sorted_list_of_set (word_elems (map2 (AND) ?u ?v))"
    using words_list_sorted [of 0 "map2 (AND) ?u ?v"] by (simp add: sorted_list_of_set_eqI)
  ultimately show ?thesis
    using r by (simp add: BitMatrix_intersect_rows_def BitMatrix_range_def rust_assert_def BitSet_elems_def Let_def)
qed

section \<open>The sparse matrix\<close>

definition sparse_matrix_ok :: "sparse_bit_matrix \<Rightarrow> bool" where
  "sparse_matrix_ok m \<longleftrightarrow> (\<forall>h \<in> set (sm_rows m). hybrid_ok (sm_num_columns m) h)"

definition sparse_rel :: "sparse_bit_matrix \<Rightarrow> (nat \<times> nat) set" where
  "sparse_rel m = {(r, c). r < length (sm_rows m) \<and> c \<in> hybrid_elems (sm_rows m ! r)}"

abbreviation sparse_row :: "sparse_bit_matrix \<Rightarrow> nat \<Rightarrow> nat set" where
  "sparse_row m r \<equiv> {c. (r, c) \<in> sparse_rel m}"

lemma ensure_contains_elem_simps [simp]:
  "length (ensure_contains_elem xs i x) = max (length xs) (i + 1)"
  "j < max (length xs) (i + 1) \<Longrightarrow> ensure_contains_elem xs i x ! j = (if j < length xs then xs ! j else x)"
  by (auto simp: ensure_contains_elem_def vec_resize_def nth_append)

lemma ensure_row_ok:
  assumes "sparse_matrix_ok m"
  shows "sparse_matrix_ok (SparseBitMatrix_ensure_row r m)" "sparse_rel (SparseBitMatrix_ensure_row r m) = sparse_rel m"
    "r < length (sm_rows (SparseBitMatrix_ensure_row r m))"
    "sm_num_columns (SparseBitMatrix_ensure_row r m) = sm_num_columns m"
    "sm_num_rows (SparseBitMatrix_ensure_row r m) = sm_num_rows m"
proof -
  show "sparse_matrix_ok (SparseBitMatrix_ensure_row r m)"
    unfolding sparse_matrix_ok_def
  proof
    fix h assume "h \<in> set (sm_rows (SparseBitMatrix_ensure_row r m))"
    then have "h \<in> set (sm_rows m) \<or> h = HybridBitSet_new_empty"
      by (auto simp: SparseBitMatrix_ensure_row_def in_set_conv_nth)
    then show "hybrid_ok (sm_num_columns (SparseBitMatrix_ensure_row r m)) h"
      using assms HybridBitSet_new_empty_ok(1) by (auto simp: sparse_matrix_ok_def SparseBitMatrix_ensure_row_def)
  qed
  show "sparse_rel (SparseBitMatrix_ensure_row r m) = sparse_rel m"
    by (auto simp: sparse_rel_def SparseBitMatrix_ensure_row_def HybridBitSet_new_empty_ok(2) split: if_splits)
qed (simp_all add: SparseBitMatrix_ensure_row_def)

lemma update_row_ok:
  assumes ok: "sparse_matrix_ok m" and r: "r < length (sm_rows m)"
    and f: "\<And>h. hybrid_ok (sm_num_columns m) h \<Longrightarrow> hybrid_elems h = sparse_row m r \<Longrightarrow>
      \<exists>h'. f h = Some (h', changed) \<and> hybrid_ok (sm_num_columns m) h' \<and> hybrid_elems h' = X"
  shows "\<exists>m'. update_row r f m = Some (m', changed) \<and> sparse_matrix_ok m' \<and>
    sparse_rel m' = {(r', c). (if r' = r then c \<in> X else (r', c) \<in> sparse_rel m)} \<and>
    sm_num_columns m' = sm_num_columns m \<and> sm_num_rows m' = sm_num_rows m"
proof -
  have "hybrid_ok (sm_num_columns m) (sm_rows m ! r)" using ok r by (simp add: sparse_matrix_ok_def)
  moreover have "hybrid_elems (sm_rows m ! r) = sparse_row m r" using r by (auto simp: sparse_rel_def)
  ultimately obtain h' where h': "f (sm_rows m ! r) = Some (h', changed)" "hybrid_ok (sm_num_columns m) h'" "hybrid_elems h' = X"
    using f by blast
  have "update_row r f m = Some (m\<lparr>sm_rows := (sm_rows m)[r := h']\<rparr>, changed)" using r h'(1) by (simp add: update_row_def)
  moreover have "sparse_matrix_ok (m\<lparr>sm_rows := (sm_rows m)[r := h']\<rparr>)"
    using ok h'(2) set_update_subset_insert [of "sm_rows m" r h'] by (auto simp: sparse_matrix_ok_def)
  moreover have "sparse_rel (m\<lparr>sm_rows := (sm_rows m)[r := h']\<rparr>) = {(r', c). (if r' = r then c \<in> X else (r', c) \<in> sparse_rel m)}"
    using r h'(3) by (auto simp: sparse_rel_def nth_list_update split: if_splits)
  ultimately show ?thesis by simp
qed

lemma written_row: "{(r', c). (if r' = r then c \<in> {c. (r, c) \<in> A} \<union> X else (r', c) \<in> A)} = A \<union> {r} \<times> X"
  by (auto split: if_splits)

lemma ensured_row_ok:
  assumes ok: "sparse_matrix_ok m"
    and f: "\<And>h. hybrid_ok (sm_num_columns m) h \<Longrightarrow> hybrid_elems h = sparse_row m r \<Longrightarrow>
      \<exists>h'. f h = Some (h', changed) \<and> hybrid_ok (sm_num_columns m) h' \<and> hybrid_elems h' = sparse_row m r \<union> X"
  shows "\<exists>m'. update_row r f (SparseBitMatrix_ensure_row r m) = Some (m', changed) \<and> sparse_matrix_ok m' \<and>
    sparse_rel m' = sparse_rel m \<union> {r} \<times> X \<and> sm_num_columns m' = sm_num_columns m \<and> sm_num_rows m' = sm_num_rows m"
proof -
  note e = ensure_row_ok [OF ok, of r]
  have "\<exists>m'. update_row r f (SparseBitMatrix_ensure_row r m) = Some (m', changed) \<and> sparse_matrix_ok m' \<and>
      sparse_rel m' = {(r', c). (if r' = r then c \<in> sparse_row m r \<union> X else (r', c) \<in> sparse_rel (SparseBitMatrix_ensure_row r m))} \<and>
      sm_num_columns m' = sm_num_columns (SparseBitMatrix_ensure_row r m) \<and>
      sm_num_rows m' = sm_num_rows (SparseBitMatrix_ensure_row r m)"
    by (rule update_row_ok [OF e(1,3)]) (unfold e(2,4), rule f)
  then show ?thesis unfolding e written_row .
qed

lemma SparseBitMatrix_insert_ok:
  assumes ok: "sparse_matrix_ok m" and c: "c < sm_num_columns m"
  shows "\<exists>m'. SparseBitMatrix_insert r c m = Some (m', (r, c) \<notin> sparse_rel m) \<and> sparse_matrix_ok m' \<and>
    sparse_rel m' = sparse_rel m \<union> {r} \<times> {c} \<and> sm_num_columns m' = sm_num_columns m \<and> sm_num_rows m' = sm_num_rows m"
  unfolding SparseBitMatrix_insert_def Let_def
  by (rule ensured_row_ok [OF ok]) (use HybridBitSet_insert_ok [OF _ c] in fastforce)

lemma SparseBitMatrix_contains_ok:
  assumes "sparse_matrix_ok m" "c < sm_num_columns m"
  shows "SparseBitMatrix_contains m r c = Some ((r, c) \<in> sparse_rel m)"
  using assms HybridBitSet_contains_ok [of "sm_num_columns m" "sm_rows m ! r" c]
  by (auto simp: SparseBitMatrix_contains_def SparseBitMatrix_row_def sparse_rel_def sparse_matrix_ok_def)

lemma SparseBitMatrix_insert_all_ok:
  assumes ok: "sparse_matrix_ok m"
  shows "\<exists>m'. SparseBitMatrix_insert_all_into_row r m = Some m' \<and> sparse_matrix_ok m' \<and>
    sparse_rel m' = sparse_rel m \<union> {r} \<times> {..<sm_num_columns m} \<and> sm_num_columns m' = sm_num_columns m \<and>
    sm_num_rows m' = sm_num_rows m"
proof -
  have "\<exists>m'. update_row r (\<lambda>h. map_option (\<lambda>h. (h, True)) (HybridBitSet_insert_all (sm_num_columns m) h))
      (SparseBitMatrix_ensure_row r m) = Some (m', True) \<and> sparse_matrix_ok m' \<and>
    sparse_rel m' = sparse_rel m \<union> {r} \<times> {..<sm_num_columns m} \<and> sm_num_columns m' = sm_num_columns m \<and>
    sm_num_rows m' = sm_num_rows m"
  proof (rule ensured_row_ok [OF ok])
    fix h assume h: "hybrid_ok (sm_num_columns m) h" "hybrid_elems h = sparse_row m r"
    from HybridBitSet_insert_all_ok [OF h(1)] hybrid_range [OF h(1)] h(2) show
      "\<exists>h'. map_option (\<lambda>h. (h, True)) (HybridBitSet_insert_all (sm_num_columns m) h) = Some (h', True) \<and>
        hybrid_ok (sm_num_columns m) h' \<and> hybrid_elems h' = sparse_row m r \<union> {..<sm_num_columns m}" by auto
  qed
  then show ?thesis by (auto simp: SparseBitMatrix_insert_all_into_row_def Let_def)
qed

lemma SparseBitMatrix_union_into_row_ok:
  assumes ok: "sparse_matrix_ok m" and g: "hybrid_ok (sm_num_columns m) g" "0 < sm_num_columns m"
  shows "\<exists>m'. SparseBitMatrix_union_into_row r g m = Some (m', \<not> hybrid_elems g \<subseteq> sparse_row m r) \<and> sparse_matrix_ok m' \<and>
    sparse_rel m' = sparse_rel m \<union> {r} \<times> hybrid_elems g \<and> sm_num_columns m' = sm_num_columns m \<and> sm_num_rows m' = sm_num_rows m"
  unfolding SparseBitMatrix_union_into_row_def Let_def
  by (rule ensured_row_ok [OF ok]) (use HybridBitSet_union_ok [OF _ g] in fastforce)

lemma SparseBitMatrix_union_into_row_dense_ok:
  assumes ok: "sparse_matrix_ok m" and d: "BitSet_wf d" "domain_size d = sm_num_columns m" "0 < sm_num_columns m"
  shows "\<exists>m'. SparseBitMatrix_union_into_row_dense r d m = Some (m', \<not> BitSet_elems d \<subseteq> sparse_row m r) \<and> sparse_matrix_ok m' \<and>
    sparse_rel m' = sparse_rel m \<union> {r} \<times> BitSet_elems d \<and> sm_num_columns m' = sm_num_columns m \<and> sm_num_rows m' = sm_num_rows m"
  unfolding SparseBitMatrix_union_into_row_dense_def Let_def
  by (rule ensured_row_ok [OF ok]) (use union_dense_ok [OF _ d] in fastforce)

lemma SparseBitMatrix_union_rows_ok:
  assumes ok: "sparse_matrix_ok m" and n: "0 < sm_num_columns m"
  shows "\<exists>m'. SparseBitMatrix_union_rows r w m = Some (m', \<not> sparse_row m r \<subseteq> sparse_row m w) \<and> sparse_matrix_ok m' \<and>
    sparse_rel m' = sparse_rel m \<union> {w} \<times> sparse_row m r \<and> sm_num_columns m' = sm_num_columns m \<and> sm_num_rows m' = sm_num_rows m"
proof (cases "r = w \<or> length (sm_rows m) \<le> r")
  case True
  then have "sparse_row m r \<subseteq> sparse_row m w" by (auto simp: sparse_rel_def)
  moreover from this have "sparse_rel m \<union> {w} \<times> sparse_row m r = sparse_rel m" by auto
  ultimately show ?thesis using True ok by (auto simp: SparseBitMatrix_union_rows_def SparseBitMatrix_row_def)
next
  case False
  let ?m = "SparseBitMatrix_ensure_row w m"
  note e = ensure_row_ok [OF ok, of w]
  have r: "r < length (sm_rows ?m)" "r \<noteq> w" using False by (auto simp: SparseBitMatrix_ensure_row_def)
  let ?g = "sm_rows ?m ! r"
  have g: "hybrid_ok (sm_num_columns m) ?g" using e(1,4) r(1) by (simp add: sparse_matrix_ok_def)
  have ge: "hybrid_elems ?g = sparse_row m r" using r(1) unfolding e(2) [symmetric] by (auto simp: sparse_rel_def)
  have "SparseBitMatrix_union_rows r w m = update_row w (\<lambda>h. HybridBitSet_union h ?g (sm_num_columns m)) ?m"
    using r e(3,4) False
    by (auto simp: SparseBitMatrix_union_rows_def SparseBitMatrix_row_def pick2_mut_def rust_assert_def update_row_def Let_def)
  moreover have "\<exists>m'. update_row w (\<lambda>h. HybridBitSet_union h ?g (sm_num_columns m)) ?m =
      Some (m', \<not> sparse_row m r \<subseteq> sparse_row m w) \<and> sparse_matrix_ok m' \<and>
      sparse_rel m' = sparse_rel m \<union> {w} \<times> sparse_row m r \<and> sm_num_columns m' = sm_num_columns m \<and>
      sm_num_rows m' = sm_num_rows m"
    by (rule ensured_row_ok [OF ok]) (use HybridBitSet_union_ok [OF _ g n] ge in fastforce)
  ultimately show ?thesis by simp
qed

section \<open>One specification for both\<close>

datatype matrix_op =
    MInsert nat nat | MContains nat nat | MUnionRows nat nat | MUnionSet bit_set nat | MInsertAll nat

definition log_flag :: "bool list \<Rightarrow> ('m \<times> bool) panics \<Rightarrow> ('m \<times> bool list) panics" where
  "log_flag lg r = map_option (\<lambda>(m, c). (m, lg @ [c])) r"

definition dense_matrix_step :: "matrix_op \<Rightarrow> bit_matrix \<times> bool list \<Rightarrow> (bit_matrix \<times> bool list) panics" where
  "dense_matrix_step x st =
     (let (m, lg) = st in
      case x of
        MInsert r c \<Rightarrow> log_flag lg (BitMatrix_insert r c m)
      | MContains r c \<Rightarrow> map_option (\<lambda>b. (m, lg @ [b])) (BitMatrix_contains m r c)
      | MUnionRows r w \<Rightarrow> log_flag lg (BitMatrix_union_rows r w m)
      | MUnionSet s w \<Rightarrow> log_flag lg (BitMatrix_union_row_with s w m)
      | MInsertAll r \<Rightarrow> map_option (\<lambda>m. (m, lg)) (BitMatrix_insert_all_into_row r m))"

definition sparse_matrix_step :: "matrix_op \<Rightarrow> sparse_bit_matrix \<times> bool list \<Rightarrow> (sparse_bit_matrix \<times> bool list) panics" where
  "sparse_matrix_step x st =
     (let (m, lg) = st in
      case x of
        MInsert r c \<Rightarrow> log_flag lg (SparseBitMatrix_insert r c m)
      | MContains r c \<Rightarrow> map_option (\<lambda>b. (m, lg @ [b])) (SparseBitMatrix_contains m r c)
      | MUnionRows r w \<Rightarrow> log_flag lg (SparseBitMatrix_union_rows r w m)
      | MUnionSet s w \<Rightarrow> log_flag lg (SparseBitMatrix_union_into_row_dense w s m)
      | MInsertAll r \<Rightarrow> map_option (\<lambda>m. (m, lg)) (SparseBitMatrix_insert_all_into_row r m))"

text \<open>The specification works on a relation of \<open>n\<close> rows and \<open>k\<close> columns.\<close>

definition matrix_spec_step ::
    "nat \<Rightarrow> nat \<Rightarrow> matrix_op \<Rightarrow> (nat \<times> nat) set \<times> bool list \<Rightarrow> ((nat \<times> nat) set \<times> bool list) option" where
  "matrix_spec_step n k x st =
     (let (A, lg) = st in
      case x of
        MInsert r c \<Rightarrow> if r < n \<and> c < k then Some (A \<union> {r} \<times> {c}, lg @ [(r, c) \<notin> A]) else None
      | MContains r c \<Rightarrow> if r < n \<and> c < k then Some (A, lg @ [(r, c) \<in> A]) else None
      | MUnionRows r w \<Rightarrow>
          if r < n \<and> w < n then Some (A \<union> {w} \<times> {c. (r, c) \<in> A}, lg @ [\<not> {c. (r, c) \<in> A} \<subseteq> {c. (w, c) \<in> A}]) else None
      | MUnionSet s w \<Rightarrow>
          if w < n \<and> BitSet_wf s \<and> domain_size s = k
          then Some (A \<union> {w} \<times> BitSet_elems s, lg @ [\<not> BitSet_elems s \<subseteq> {c. (w, c) \<in> A}]) else None
      | MInsertAll r \<Rightarrow> if r < n then Some (A \<union> {r} \<times> {..<k}, lg) else None)"

definition dense_matrix_rel :: "nat \<Rightarrow> nat \<Rightarrow> bit_matrix \<times> bool list \<Rightarrow> (nat \<times> nat) set \<times> bool list \<Rightarrow> bool" where
  "dense_matrix_rel n k st a \<longleftrightarrow> matrix_ok (fst st) \<and> bm_num_rows (fst st) = n \<and> bm_num_columns (fst st) = k \<and>
     matrix_rel (fst st) = fst a \<and> snd st = snd a"

definition sparse_matrix_rel :: "nat \<Rightarrow> nat \<Rightarrow> sparse_bit_matrix \<times> bool list \<Rightarrow> (nat \<times> nat) set \<times> bool list \<Rightarrow> bool" where
  "sparse_matrix_rel n k st a \<longleftrightarrow> 0 < k \<and> sparse_matrix_ok (fst st) \<and> sm_num_rows (fst st) = n \<and> sm_num_columns (fst st) = k \<and>
     sparse_rel (fst st) = fst a \<and> snd st = snd a"

lemma row_of_rel: "r < bm_num_rows m \<Longrightarrow> {c. (r, c) \<in> matrix_rel m} = BitSet_elems (matrix_row m r)"
  by (simp add: matrix_rel_def)

lemma dense_matrix_sim:
  assumes "dense_matrix_rel n k st a" "matrix_spec_step n k x a = Some a'"
  shows "\<exists>st'. dense_matrix_step x st = Some st' \<and> dense_matrix_rel n k st' a'"
proof -
  obtain m lg where st: "st = (m, lg)" by force
  have ok: "matrix_ok m" and n: "bm_num_rows m = n" "bm_num_columns m = k" and a: "a = (matrix_rel m, lg)"
    using assms(1) st by (simp_all add: dense_matrix_rel_def prod_eq_iff)
  note defs = dense_matrix_step_def dense_matrix_rel_def matrix_spec_step_def log_flag_def st a
  show ?thesis
  proof (cases x)
    case (MInsert r c)
    then show ?thesis using assms(2) BitMatrix_insert_ok [OF ok, of r c] n by (auto simp: defs split: if_splits)
  next
    case (MContains r c)
    then show ?thesis using assms(2) BitMatrix_contains_ok [OF ok, of r c] n ok by (auto simp: defs split: if_splits)
  next
    case (MUnionRows r w)
    then have "r < bm_num_rows m" "w < bm_num_rows m" using assms(2) n by (simp_all add: matrix_spec_step_def a split: if_splits)
    from BitMatrix_union_rows_ok [OF ok this, folded row_of_rel [OF this(1)] row_of_rel [OF this(2)]] obtain m' where
      "BitMatrix_union_rows r w m = Some (m', \<not> {c. (r, c) \<in> matrix_rel m} \<subseteq> {c. (w, c) \<in> matrix_rel m})" "matrix_ok m'"
      "matrix_rel m' = matrix_rel m \<union> {w} \<times> {c. (r, c) \<in> matrix_rel m}"
      "bm_num_rows m' = bm_num_rows m" "bm_num_columns m' = bm_num_columns m" by blast
    moreover have "a' = (matrix_rel m \<union> {w} \<times> {c. (r, c) \<in> matrix_rel m},
        lg @ [\<not> {c. (r, c) \<in> matrix_rel m} \<subseteq> {c. (w, c) \<in> matrix_rel m}])"
      using MUnionRows assms(2) by (simp add: matrix_spec_step_def a split: if_splits)
    ultimately show ?thesis using MUnionRows n by (simp add: dense_matrix_step_def dense_matrix_rel_def log_flag_def st)
  next
    case (MUnionSet s w)
    then have "w < bm_num_rows m" "BitSet_wf s" "domain_size s = bm_num_columns m"
      using assms(2) n by (simp_all add: matrix_spec_step_def a split: if_splits)
    from BitMatrix_union_row_with_ok [OF ok this, folded row_of_rel [OF this(1)]] obtain m' where
      "BitMatrix_union_row_with s w m = Some (m', \<not> BitSet_elems s \<subseteq> {c. (w, c) \<in> matrix_rel m})" "matrix_ok m'"
      "matrix_rel m' = matrix_rel m \<union> {w} \<times> BitSet_elems s"
      "bm_num_rows m' = bm_num_rows m" "bm_num_columns m' = bm_num_columns m" by blast
    moreover have "a' = (matrix_rel m \<union> {w} \<times> BitSet_elems s, lg @ [\<not> BitSet_elems s \<subseteq> {c. (w, c) \<in> matrix_rel m}])"
      using MUnionSet assms(2) by (simp add: matrix_spec_step_def a split: if_splits)
    ultimately show ?thesis using MUnionSet n by (simp add: dense_matrix_step_def dense_matrix_rel_def log_flag_def st)
  next
    case (MInsertAll r)
    then show ?thesis using assms(2) BitMatrix_insert_all_ok [OF ok, of r] n by (auto simp: defs split: if_splits)
  qed
qed

lemma sparse_matrix_sim:
  assumes "sparse_matrix_rel n k st a" "matrix_spec_step n k x a = Some a'"
  shows "\<exists>st'. sparse_matrix_step x st = Some st' \<and> sparse_matrix_rel n k st' a'"
proof -
  obtain m lg where st: "st = (m, lg)" by force
  have ok: "sparse_matrix_ok m" and n: "sm_num_rows m = n" "sm_num_columns m = k" "0 < k" and a: "a = (sparse_rel m, lg)"
    using assms(1) st by (simp_all add: sparse_matrix_rel_def prod_eq_iff)
  note defs = sparse_matrix_step_def sparse_matrix_rel_def matrix_spec_step_def log_flag_def st a
  show ?thesis
  proof (cases x)
    case (MInsert r c)
    then show ?thesis using assms(2) SparseBitMatrix_insert_ok [OF ok, of c r] n by (auto simp: defs split: if_splits)
  next
    case (MContains r c)
    then show ?thesis using assms(2) SparseBitMatrix_contains_ok [OF ok, of c r] n ok by (auto simp: defs split: if_splits)
  next
    case (MUnionRows r w)
    have "0 < sm_num_columns m" using n by simp
    from SparseBitMatrix_union_rows_ok [OF ok this, of r w] obtain m' where
      "SparseBitMatrix_union_rows r w m = Some (m', \<not> sparse_row m r \<subseteq> sparse_row m w)" "sparse_matrix_ok m'"
      "sparse_rel m' = sparse_rel m \<union> {w} \<times> sparse_row m r" "sm_num_columns m' = sm_num_columns m" "sm_num_rows m' = sm_num_rows m"
      by blast
    moreover have "a' = (sparse_rel m \<union> {w} \<times> sparse_row m r, lg @ [\<not> sparse_row m r \<subseteq> sparse_row m w])"
      using MUnionRows assms(2) by (simp add: matrix_spec_step_def a split: if_splits)
    ultimately show ?thesis using MUnionRows n by (simp add: sparse_matrix_step_def sparse_matrix_rel_def log_flag_def st)
  next
    case (MUnionSet s w)
    then have "BitSet_wf s" "domain_size s = sm_num_columns m" "0 < sm_num_columns m"
      using assms(2) n by (auto simp: matrix_spec_step_def a split: if_splits)
    from SparseBitMatrix_union_into_row_dense_ok [OF ok this] obtain m' where
      "SparseBitMatrix_union_into_row_dense w s m = Some (m', \<not> BitSet_elems s \<subseteq> sparse_row m w)" "sparse_matrix_ok m'"
      "sparse_rel m' = sparse_rel m \<union> {w} \<times> BitSet_elems s" "sm_num_columns m' = sm_num_columns m" "sm_num_rows m' = sm_num_rows m"
      by blast
    moreover have "a' = (sparse_rel m \<union> {w} \<times> BitSet_elems s, lg @ [\<not> BitSet_elems s \<subseteq> sparse_row m w])"
      using MUnionSet assms(2) by (simp add: matrix_spec_step_def a split: if_splits)
    ultimately show ?thesis using MUnionSet n by (simp add: sparse_matrix_step_def sparse_matrix_rel_def log_flag_def st)
  next
    case (MInsertAll r)
    from SparseBitMatrix_insert_all_ok [OF ok, of r] obtain m' where
      "SparseBitMatrix_insert_all_into_row r m = Some m'" "sparse_matrix_ok m'"
      "sparse_rel m' = sparse_rel m \<union> {r} \<times> {..<sm_num_columns m}"
      "sm_num_columns m' = sm_num_columns m" "sm_num_rows m' = sm_num_rows m" by blast
    moreover have "a' = (sparse_rel m \<union> {r} \<times> {..<k}, lg)"
      using MInsertAll assms(2) by (simp add: matrix_spec_step_def a split: if_splits)
    ultimately show ?thesis using MInsertAll n by (simp add: sparse_matrix_step_def sparse_matrix_rel_def st)
  qed
qed

interpretation dense_matrix: simulation dense_matrix_step "matrix_spec_step n k" "dense_matrix_rel n k" for n k
  by unfold_locales (rule dense_matrix_sim)

interpretation sparse_matrix: simulation sparse_matrix_step "matrix_spec_step n k" "sparse_matrix_rel n k" for n k
  by unfold_locales (rule sparse_matrix_sim)

text \<open>
  C40: the dense and the sparse bit matrix implement the same relation: every sequence of operations with
  rows, columns and operands in range runs on both without a panic, both yield the relation of the
  specification, and every operation returns the same flag in both.
\<close>

theorem bit_matrices_refine:
  assumes "run_ops (matrix_spec_step n k) ops ({}, []) = Some (A, lg)" "0 < k"
  shows "\<exists>d s. run_ops dense_matrix_step ops (BitMatrix_new n k, []) = Some (d, lg) \<and> matrix_ok d \<and> matrix_rel d = A \<and>
    run_ops sparse_matrix_step ops (SparseBitMatrix_new n k, []) = Some (s, lg) \<and> sparse_matrix_ok s \<and> sparse_rel s = A"
proof -
  have "dense_matrix_rel n k (BitMatrix_new n k, []) ({}, [])"
    using BitMatrix_new_ok by (simp add: dense_matrix_rel_def) (simp add: BitMatrix_new_def Let_def)
  from dense_matrix.run_sim [OF this assms(1)] obtain d where
    "run_ops dense_matrix_step ops (BitMatrix_new n k, []) = Some (d, lg)" "matrix_ok d" "matrix_rel d = A"
    by (auto simp: dense_matrix_rel_def)
  moreover have "sparse_matrix_rel n k (SparseBitMatrix_new n k, []) ({}, [])"
    using assms(2) by (simp add: sparse_matrix_rel_def SparseBitMatrix_new_def sparse_matrix_ok_def sparse_rel_def)
  from sparse_matrix.run_sim [OF this assms(1)] obtain s where
    "run_ops sparse_matrix_step ops (SparseBitMatrix_new n k, []) = Some (s, lg)" "sparse_matrix_ok s" "sparse_rel s = A"
    by (auto simp: sparse_matrix_rel_def)
  ultimately show ?thesis by blast
qed

theorem bit_matrices_refine_witness:
  "\<exists>d s. run_ops dense_matrix_step [MInsert 0 70, MInsert 2 1, MUnionRows 0 2, MUnionRows 0 2, MContains 2 70]
      (BitMatrix_new 3 100, []) = Some (d, [True, True, True, False, True]) \<and> matrix_rel d = {(0, 70), (2, 1), (2, 70)} \<and>
    run_ops sparse_matrix_step [MInsert 0 70, MInsert 2 1, MUnionRows 0 2, MUnionRows 0 2, MContains 2 70]
      (SparseBitMatrix_new 3 100, []) = Some (s, [True, True, True, False, True]) \<and> sparse_rel s = {(0, 70), (2, 1), (2, 70)}"
proof -
  have "{0 :: nat} \<times> {70 :: nat} \<union> {2} \<times> {1} \<union> {2} \<times> {c. (0, c) \<in> {0} \<times> {70} \<union> {2} \<times> {1}} = {(0, 70), (2, 1), (2, 70)}"
    by auto
  then have "run_ops (matrix_spec_step 3 100) [MInsert 0 70, MInsert 2 1, MUnionRows 0 2, MUnionRows 0 2, MContains 2 70] ({}, []) =
      Some ({(0, 70), (2, 1), (2, 70)}, [True, True, True, False, True])"
    by (simp add: matrix_spec_step_def) auto
  from bit_matrices_refine [OF this] show ?thesis by auto
qed

fun insert_columns :: "nat \<Rightarrow> nat list \<Rightarrow> sparse_bit_matrix \<Rightarrow> sparse_bit_matrix panics" where
  "insert_columns row [] m = Some m"
| "insert_columns row (c # cs) m = do { (m, _) \<leftarrow> GrowableSparseBitMatrix_insert row c m; insert_columns row cs m }"

text \<open>
  The growable matrix hands the number of columns from before the insertion to the row, which becomes
  dense with the ninth element and then has no room for it when it lies beyond those columns: inserting
  the columns 0 to 7 into a row works, inserting column 64 after them panics.
\<close>

theorem growable_ninth_column_panics:
  "insert_columns 0 [0, 1, 2, 3, 4, 5, 6, 7] (GrowableSparseBitMatrix_new 1 0) \<noteq> None \<and>
   insert_columns 0 [0, 1, 2, 3, 4, 5, 6, 7, 64] (GrowableSparseBitMatrix_new 1 0) = None"
  by (intro conjI) code_simp+

end
