(* ===== verification/Dominance_Frontiers.thy ===== *)
theory Dominance_Frontiers
  imports Dominators_Spec Bit_Matrix_Spec
begin

text \<open>
  The dominance frontiers of \<^verbatim>\<open>openvaf/mir/src/dominators.rs\<close>, written into a sparse bit matrix: for
  every block with several predecessors (for post-dominators: with two successors) the walk from each
  of them up the tree to the parent of the block adds the block to the rows passed.
\<close>

partial_function (option) propagate_dom_frontiers ::
    "dom_tree_node list \<Rightarrow> block option \<Rightarrow> block \<Rightarrow> block \<Rightarrow> sparse_bit_matrix \<Rightarrow> sparse_bit_matrix option" where
  "propagate_dom_frontiers ns end_at pos bb dst =
     (if Some pos \<noteq> end_at then
        do { (dst, _) \<leftarrow> SparseBitMatrix_insert pos bb dst;
             n \<leftarrow> vec_get ns pos;
             (case node_idom n of
                Some idom \<Rightarrow> propagate_dom_frontiers ns end_at idom bb dst
              | None \<Rightarrow> Some dst) }
      else Some dst)"

text \<open>The calls for one block; \<open>end\<close> is read at the beginning of each.\<close>

fun propagate_from :: "dom_tree_node list \<Rightarrow> block list \<Rightarrow> block \<Rightarrow> sparse_bit_matrix \<Rightarrow> sparse_bit_matrix option" where
  "propagate_from ns [] bb dst = Some dst"
| "propagate_from ns (p # ps) bb dst =
     do { n \<leftarrow> vec_get ns bb;
          dst \<leftarrow> propagate_dom_frontiers ns (node_idom n) p bb dst;
          propagate_from ns ps bb dst }"

fun dom_frontiers_loop ::
    "control_flow_graph \<Rightarrow> dom_tree_node list \<Rightarrow> block list \<Rightarrow> sparse_bit_matrix \<Rightarrow> sparse_bit_matrix option" where
  "dom_frontiers_loop G ns [] dst = Some dst"
| "dom_frontiers_loop G ns (bb # bbs) dst =
     do { predecessors \<leftarrow> Cfg_pred_iter G bb;
          dst \<leftarrow> (case predecessors of
              first # second # rest \<Rightarrow> propagate_from ns (first # second # rest) bb dst
            | _ \<Rightarrow> Some dst);
          dom_frontiers_loop G ns bbs dst }"

definition DominatorTree_compute_dom_frontiers ::
    "dominator_tree \<Rightarrow> control_flow_graph \<Rightarrow> sparse_bit_matrix \<Rightarrow> sparse_bit_matrix option" where
  "DominatorTree_compute_dom_frontiers T G dst =
     dom_frontiers_loop G (dt_nodes T) [0..<length (dt_nodes T)]
       (SparseBitMatrix_clear (length (dt_nodes T)) (length (dt_nodes T)) dst)"

fun postdom_frontiers_loop ::
    "control_flow_graph \<Rightarrow> dom_tree_node list \<Rightarrow> block list \<Rightarrow> sparse_bit_matrix \<Rightarrow> sparse_bit_matrix option" where
  "postdom_frontiers_loop G ns [] dst = Some dst"
| "postdom_frontiers_loop G ns (bb # bbs) dst =
     do { successors \<leftarrow> Cfg_successors G bb;
          dst \<leftarrow> (case Successors_as_pair successors of
              Some (bb1, bb2) \<Rightarrow> propagate_from ns [bb1, bb2] bb dst
            | None \<Rightarrow> Some dst);
          postdom_frontiers_loop G ns bbs dst }"

definition DominatorTree_compute_postdom_frontiers ::
    "dominator_tree \<Rightarrow> control_flow_graph \<Rightarrow> sparse_bit_matrix \<Rightarrow> sparse_bit_matrix option" where
  "DominatorTree_compute_postdom_frontiers T G dst =
     postdom_frontiers_loop G (dt_reverse_nodes T) [0..<length (dt_reverse_nodes T)]
       (SparseBitMatrix_clear (length (dt_reverse_nodes T)) (length (dt_reverse_nodes T)) dst)"

section \<open>One walk\<close>

text \<open>The matrix during the computation: the rows of reached blocks hold the pairs \<open>A\<close>.\<close>

definition frontier_matrix :: "nat \<Rightarrow> block set \<Rightarrow> sparse_bit_matrix \<Rightarrow> (block \<times> block) set \<Rightarrow> bool" where
  "frontier_matrix n X m A \<longleftrightarrow> sparse_matrix_ok m \<and> sm_num_columns m = n \<and> (\<forall>x \<in> X. \<forall>y. (x, y) \<in> sparse_rel m \<longleftrightarrow> (x, y) \<in> A)"

lemma frontier_insert:
  assumes "frontier_matrix n X m A" "y < n"
  shows "\<exists>m' c. SparseBitMatrix_insert x y m = Some (m', c) \<and> frontier_matrix n X m' (insert (x, y) A)"
  using assms SparseBitMatrix_insert_ok [of m y x] by (auto simp: frontier_matrix_def)

lemma frontier_outside:
  "frontier_matrix n X m (insert (x, y) A) \<Longrightarrow> x \<notin> X \<Longrightarrow> frontier_matrix n X m A"
  by (auto simp: frontier_matrix_def)

text \<open>The blocks the walk from \<open>s\<close> passes below the parent of \<open>y\<close>.\<close>

definition passed :: "(block \<Rightarrow> block option) \<Rightarrow> block option \<Rightarrow> block \<Rightarrow> block set" where
  "passed par e s = anc par s - (case e of Some q \<Rightarrow> anc par q | None \<Rightarrow> {})"

lemma propagate_ok:
  assumes links: "links_ok S r num (reached S r) par" and range: "reached S r \<subseteq> {..<n}" "length ns = n"
    and nodes: "\<And>b. b < n \<Longrightarrow> node_idom (ns ! b) = (if b \<in> reached S r then par b else None)"
    and y: "y < n"
  shows "s \<in> reached S r \<Longrightarrow> frontier_matrix n (reached S r) m A \<Longrightarrow> (\<And>q. e = Some q \<Longrightarrow> q \<in> anc par s) \<Longrightarrow>
    \<exists>m'. propagate_dom_frontiers ns e s y m = Some m' \<and> frontier_matrix n (reached S r) m' (A \<union> passed par e s \<times> {y})"
proof (induction "num s" arbitrary: s m A rule: less_induct)
  case less
  show ?case
  proof (cases "e = Some s")
    case True
    then show ?thesis using less.prems(2) by (subst propagate_dom_frontiers.simps) (simp add: passed_def)
  next
    case False
    from frontier_insert [OF less.prems(2) y, of s] obtain m1 c where
      m1: "SparseBitMatrix_insert s y m = Some (m1, c)" "frontier_matrix n (reached S r) m1 (insert (s, y) A)" by blast
    have s: "s < n" "node_idom (ns ! s) = par s" using less.prems(1) range nodes by auto
    show ?thesis
    proof (cases "par s")
      case None
      then have anc: "anc par s = {s}" by (rule anc_None)
      then have "e = None" using less.prems(3) False by (cases e) auto
      then have "A \<union> passed par e s \<times> {y} = insert (s, y) A" by (simp add: passed_def anc)
      then show ?thesis using m1 s range False None by (subst propagate_dom_frontiers.simps) simp
    next
      case (Some p)
      note p = links_parent [OF links less.prems(1) Some]
      have anc: "anc par s = insert s (anc par p)" using Some by (rule anc_Some)
      have e: "q \<in> anc par p" if "e = Some q" for q using less.prems(3) [OF that] anc False that by auto
      from less.hyps [OF p(3,2) m1(2) e] obtain m' where
        m': "propagate_dom_frontiers ns e p y m1 = Some m'"
        "frontier_matrix n (reached S r) m' (insert (s, y) A \<union> passed par e p \<times> {y})" by blast
      have "s \<notin> anc par q" if "e = Some q" for q
      proof
        assume "s \<in> anc par q"
        then have "s \<in> anc par p" using anc_trans [OF e [OF that]] by blast
        then show False using anc_lower [OF links _ p(2), of s] p(3) by simp
      qed
      then have "insert (s, y) A \<union> passed par e p \<times> {y} = A \<union> passed par e s \<times> {y}"
        by (cases e) (auto simp: passed_def anc)
      then show ?thesis using m1(1) m' s range False Some by (subst propagate_dom_frontiers.simps) simp
    qed
  qed
qed

lemma propagate_unreached:
  assumes nodes: "\<And>b. b < n \<Longrightarrow> node_idom (ns ! b) = (if b \<in> X then par b else None)"
    and "length ns = n" "s < n" "s \<notin> X" "y < n" "frontier_matrix n X m A"
  shows "\<exists>m'. propagate_dom_frontiers ns e s y m = Some m' \<and> frontier_matrix n X m' A"
proof (cases "e = Some s")
  case True
  then show ?thesis using assms(6) by (subst propagate_dom_frontiers.simps) simp
next
  case False
  from frontier_insert [OF assms(6,5), of s] obtain m1 c where
    "SparseBitMatrix_insert s y m = Some (m1, c)" "frontier_matrix n X m1 (insert (s, y) A)" by blast
  then show ?thesis using frontier_outside assms(2-4) nodes False by (subst propagate_dom_frontiers.simps) auto
qed

section \<open>All walks\<close>

text \<open>The dominance frontier: a block of it has a predecessor that \<open>x\<close> dominates and is not strictly dominated by \<open>x\<close>.\<close>

definition frontier :: "(block \<Rightarrow> block set) \<Rightarrow> block \<Rightarrow> (block \<times> block) set" where
  "frontier S r = {(x, y). (\<exists>p \<in> reached S r. y \<in> S p \<and> dominator_of S r x p) \<and> \<not> (dominator_of S r x y \<and> x \<noteq> y)}"

lemma frontier_step:
  assumes links: "links_ok S r num (reached S r) par"
    and anc: "\<And>y. y \<in> reached S r \<Longrightarrow> anc par y = {d. dominator_of S r d y}" and p: "p \<in> reached S r" "y \<in> S p"
  shows "q = par y \<Longrightarrow> q = Some e \<Longrightarrow> e \<in> anc par p"
    and "x \<in> passed par (par y) p \<longleftrightarrow> dominator_of S r x p \<and> \<not> (dominator_of S r x y \<and> x \<noteq> y)"
proof -
  have y: "y \<in> reached S r" by (rule reached_succ [OF p])
  have up: "e \<in> anc par p \<and> (x \<in> anc par e \<longleftrightarrow> dominator_of S r x y \<and> x \<noteq> y)" if e: "par y = Some e" for e x
  proof
    note q = links_parent [OF links y e]
    have e_anc: "anc par y = insert y (anc par e)" using e by (rule anc_Some)
    have "e \<noteq> y" using q(3) by auto
    moreover have "dominator_of S r e y" using anc [OF y] e_anc by auto
    ultimately show "e \<in> anc par p" using dominator_pred [of S r e y p] p(2) anc [OF p(1)] by simp
    have "y \<notin> anc par e" using anc_lower [OF links _ q(2), of y] q(3) by auto
    then show "x \<in> anc par e \<longleftrightarrow> dominator_of S r x y \<and> x \<noteq> y" using anc [OF y] e_anc by auto
  qed
  show "q = par y \<Longrightarrow> q = Some e \<Longrightarrow> e \<in> anc par p" using up by simp
  show "x \<in> passed par (par y) p \<longleftrightarrow> dominator_of S r x p \<and> \<not> (dominator_of S r x y \<and> x \<noteq> y)"
  proof (cases "par y")
    case None
    then have "y = r" using links_okD(4) [OF links y] by auto
    then show ?thesis using None anc [OF p(1)] by (auto simp: passed_def dominator_root)
  next
    case (Some e)
    then show ?thesis using up [OF Some, of x] anc [OF p(1)] by (auto simp: passed_def)
  qed
qed

lemma propagate_from_ok:
  assumes D: "dominator_links S r n ns" "length ns = n" "reached S r \<subseteq> {..<n}" and y: "y < n"
    and ps: "\<forall>p \<in> set ps. p < n \<and> y \<in> S p" and m: "frontier_matrix n (reached S r) m A"
  shows "\<exists>m'. propagate_from ns ps y m = Some m' \<and> frontier_matrix n (reached S r) m'
    (A \<union> {(x, y') |x y'. y' = y \<and> (\<exists>p \<in> set ps. p \<in> reached S r \<and> dominator_of S r x p) \<and> \<not> (dominator_of S r x y \<and> x \<noteq> y)})"
proof -
  from D(1) obtain num par where links: "links_ok S r num (reached S r) par"
    and anc: "\<And>y. y \<in> reached S r \<Longrightarrow> anc par y = {d. dominator_of S r d y}"
    and nodes: "\<And>b. b < n \<Longrightarrow> node_idom (ns ! b) = (if b \<in> reached S r then par b else None)"
    unfolding dominator_links_def by auto
  define e where "e = node_idom (ns ! y)"
  show ?thesis
    using ps m
  proof (induction ps arbitrary: m A)
    case Nil
    then show ?case by simp
  next
    case (Cons p ps)
    have p: "p < n" "y \<in> S p" using Cons.prems(1) by simp_all
    obtain m1 A1 where m1: "propagate_dom_frontiers ns e p y m = Some m1" "frontier_matrix n (reached S r) m1 A1"
      "A1 = (if p \<in> reached S r then A \<union> {(x, y') |x y'. y' = y \<and> dominator_of S r x p \<and> \<not> (dominator_of S r x y \<and> x \<noteq> y)} else A)"
    proof (cases "p \<in> reached S r")
      case True
      have yr: "y \<in> reached S r" by (rule reached_succ [OF True p(2)])
      then have e: "e = par y" using nodes [OF y] by (simp add: e_def)
      have "passed par e p \<times> {y} = {(x, y') |x y'. y' = y \<and> dominator_of S r x p \<and> \<not> (dominator_of S r x y \<and> x \<noteq> y)}"
        using frontier_step(2) [OF links anc True p(2)] unfolding e by auto
      with propagate_ok [OF links D(3,2) nodes y True Cons.prems(2), of e] frontier_step(1) [OF links anc True p(2) e] True
      show ?thesis by (auto intro: that)
    next
      case False
      with propagate_unreached [OF nodes D(2) p(1) False y Cons.prems(2), of e] show ?thesis by (auto intro: that)
    qed
    from Cons.IH [OF _ m1(2)] Cons.prems(1) obtain m' where m': "propagate_from ns ps y m1 = Some m'"
      "frontier_matrix n (reached S r) m' (A1 \<union> {(x, y') |x y'. y' = y \<and> (\<exists>p \<in> set ps. p \<in> reached S r \<and> dominator_of S r x p) \<and>
         \<not> (dominator_of S r x y \<and> x \<noteq> y)})" by auto
    have "A1 \<union> {(x, y') |x y'. y' = y \<and> (\<exists>p \<in> set ps. p \<in> reached S r \<and> dominator_of S r x p) \<and> \<not> (dominator_of S r x y \<and> x \<noteq> y)} =
      A \<union> {(x, y') |x y'. y' = y \<and> (\<exists>p \<in> set (p # ps). p \<in> reached S r \<and> dominator_of S r x p) \<and> \<not> (dominator_of S r x y \<and> x \<noteq> y)}"
      unfolding m1(3) by auto
    with m' m1(1) y D(2) show ?case by (simp add: e_def)
  qed
qed

lemma frontier_cleared: "frontier_matrix n X (SparseBitMatrix_clear n n m) {}"
  by (simp add: frontier_matrix_def SparseBitMatrix_clear_def sparse_matrix_ok_def sparse_rel_def)

text \<open>Blocks without two successors add nothing, whether walked from or not.\<close>

lemma single_no_frontier:
  assumes "y \<noteq> r" "\<And>p q. p \<in> reached S r \<Longrightarrow> q \<in> reached S r \<Longrightarrow> y \<in> S p \<Longrightarrow> y \<in> S q \<Longrightarrow> p = q"
  shows "(x, y) \<notin> frontier S r"
proof
  assume "(x, y) \<in> frontier S r"
  then obtain p where p: "p \<in> reached S r" "y \<in> S p" "dominator_of S r x p" and x: "\<not> (dominator_of S r x y \<and> x \<noteq> y)"
    by (auto simp: frontier_def)
  have up: "\<exists>vs. zs = p # vs \<and> walk S r (p # vs)" if w: "walk S r (y # zs)" for zs
  proof -
    from w assms(1) obtain q vs where "zs = q # vs" "y \<in> S q" "walk S r (q # vs)" by (cases zs) auto
    moreover from this walk_set have "q \<in> reached S r" by fastforce
    ultimately show ?thesis using assms(2) [OF p(1) _ p(2)] by auto
  qed
  have "x \<in> set (y # zs)" if "walk S r (y # zs)" for zs
    using up [OF that] p(3) by (auto simp: dominator_of_def)
  then have "dominator_of S r x y" by (simp add: dominator_of_def)
  with x have [simp]: "x = y" by simp
  from p(1) obtain vs where vs: "walk S r (p # vs)" "distinct (p # vs)"
    using walk_simple [of S r] by (auto simp: reached_def) metis
  have "y \<in> set (p # vs)" using p(3) vs(1) by (auto simp: dominator_of_def)
  then obtain us zs where split: "p # vs = us @ y # zs" by (meson split_list)
  with vs(1) have "walk S r (y # zs)" by (metis walk_suffix)
  from up [OF this] obtain ws where "zs = p # ws" by blast
  with split vs(2) show False by (cases us) auto
qed

text \<open>All predecessors of \<open>y\<close> walked from: its whole column.\<close>

lemma propagate_column:
  assumes "dominator_links S r n ns" "length ns = n" "reached S r \<subseteq> {..<n}" "y < n"
    and ps: "set ps = {p. p < n \<and> y \<in> S p}" and m: "frontier_matrix n (reached S r) m A"
  shows "\<exists>m'. propagate_from ns ps y m = Some m' \<and>
    frontier_matrix n (reached S r) m' (A \<union> {(x, y'). (x, y') \<in> frontier S r \<and> y' = y})"
proof -
  have "{(x, y') |x y'. y' = y \<and> (\<exists>p \<in> set ps. p \<in> reached S r \<and> dominator_of S r x p) \<and> \<not> (dominator_of S r x y \<and> x \<noteq> y)} =
      {(x, y'). (x, y') \<in> frontier S r \<and> y' = y}"
    using ps assms(3) unfolding frontier_def by auto
  with propagate_from_ok [OF assms(1-4) _ m, of ps] ps show ?thesis by simp
qed

text \<open>The pairs whose block has several predecessors.\<close>

definition joins :: "nat \<Rightarrow> (block \<Rightarrow> block set) \<Rightarrow> block \<Rightarrow> block set \<Rightarrow> (block \<times> block) set" where
  "joins n S r Y = {(x, y). (x, y) \<in> frontier S r \<and> y \<in> Y \<and> card {p. p < n \<and> y \<in> S p} \<ge> 2}"

lemma joins_step:
  "joins n S r (set (y # ys)) =
     (if card {p. p < n \<and> y \<in> S p} \<ge> 2 then {(x, y'). (x, y') \<in> frontier S r \<and> y' = y} else {}) \<union> joins n S r (set ys)"
  by (auto simp: joins_def)

lemma joins_frontier:
  assumes "reached S r \<subseteq> {..<n}" "y \<noteq> r" "y \<in> Y"
  shows "(x, y) \<in> joins n S r Y \<longleftrightarrow> (x, y) \<in> frontier S r"
proof (cases "card {p. p < n \<and> y \<in> S p} \<ge> 2")
  case True
  then show ?thesis using assms(3) by (simp add: joins_def)
next
  case False
  have "p = q" if "p \<in> reached S r" "q \<in> reached S r" "y \<in> S p" "y \<in> S q" for p q
  proof (rule ccontr)
    assume "p \<noteq> q"
    then have "2 = card {p, q}" by simp
    also have "\<dots> \<le> card {p. p < n \<and> y \<in> S p}" by (rule card_mono) (use that assms(1) in auto)
    finally show False using False by simp
  qed
  from single_no_frontier [OF assms(2) this] False show ?thesis by (simp add: joins_def)
qed

lemma postdom_loop_ok:
  assumes ok: "Cfg_ok G" and n: "n = length (cfg_data G)" "r < n" and D: "dominator_links (pred_set G) r n ns" "length ns = n"
    and bs: "set bs \<subseteq> {..<n}" and m: "frontier_matrix n (reached (pred_set G) r) m A"
  shows "\<exists>m'. postdom_frontiers_loop G ns bs m = Some m' \<and>
    frontier_matrix n (reached (pred_set G) r) m' (A \<union> joins n (pred_set G) r (set bs))"
  using bs m
proof (induction bs arbitrary: m A)
  case Nil
  then show ?case by (simp add: joins_def)
next
  case (Cons y bs)
  let ?S = "pred_set G"
  have y: "y < n" using Cons.prems(1) by simp
  have range: "reached ?S r \<subseteq> {..<n}" using reached_range [OF ok, of r True] n by (simp add: flow_def)
  have succs: "set (Successors_iter (succ_at G y)) = {p. p < n \<and> y \<in> ?S p}" "succ_wf (succ_at G y)"
    using Cfg_okD [OF ok, of y] set_idom_preds [OF ok, of y True] y n by (auto simp: idom_preds_def flow_def)
  obtain m1 where m1: "(case Successors_as_pair (succ_at G y) of Some (bb1, bb2) \<Rightarrow> propagate_from ns [bb1, bb2] y m | None \<Rightarrow> Some m) = Some m1"
    "frontier_matrix n (reached ?S r) m1 (A \<union> (if card {p. p < n \<and> y \<in> ?S p} \<ge> 2 then {(x, y'). (x, y') \<in> frontier ?S r \<and> y' = y} else {}))"
  proof (cases "Successors_as_pair (succ_at G y)")
    case None
    then have "card (set (Successors_iter (succ_at G y))) < 2"
      by (cases "succ_at G y") (auto simp: Successors_as_pair_def Successors_iter_def split: option.splits)
    with None Cons.prems(2) succs(1) show ?thesis by (intro that [of m]) simp_all
  next
    case (Some ab)
    then obtain a b where ab: "ab = (a, b)" "succ_at G y = (Some a, Some b)"
      by (cases "succ_at G y") (auto simp: Successors_as_pair_def bind_eq_Some_conv)
    then have set: "set [a, b] = {p. p < n \<and> y \<in> ?S p}" "a \<noteq> b"
      using succs by (auto simp: succ_wf_def Successors_iter_def)
    then have "card {p. p < n \<and> y \<in> ?S p} = 2" by (metis card_2_iff empty_set list.simps(15))
    with propagate_column [OF D range y set(1) Cons.prems(2)] Some ab show ?thesis by (auto intro: that)
  qed
  from Cons.IH [OF _ m1(2)] Cons.prems(1) m1(1) y n(1) show ?case
    unfolding joins_step by (auto simp: Cfg_successors_def succ_at_def Un_assoc)
qed

lemma dom_loop_ok:
  assumes ok: "Cfg_ok G" and n: "n = length (cfg_data G)" "r < n" and D: "dominator_links (succ_set G) r n ns" "length ns = n"
    and bs: "set bs \<subseteq> {..<n}" and m: "frontier_matrix n (reached (succ_set G) r) m A"
  shows "\<exists>m'. dom_frontiers_loop G ns bs m = Some m' \<and>
    frontier_matrix n (reached (succ_set G) r) m' (A \<union> joins n (succ_set G) r (set bs))"
  using bs m
proof (induction bs arbitrary: m A)
  case Nil
  then show ?case by (simp add: joins_def)
next
  case (Cons y bs)
  let ?S = "succ_set G" and ?ps = "preds (cfg_data G ! y)"
  have y: "y < n" using Cons.prems(1) by simp
  have range: "reached ?S r \<subseteq> {..<n}" using reached_range [OF ok, of r False] n by (simp add: flow_def)
  have set: "set ?ps = {p. p < n \<and> y \<in> ?S p}" and "distinct ?ps"
    using Cfg_okD [OF ok, of y] y n by (auto simp: oset_ok_def strict_sorted_iff)
  then have card: "card {p. p < n \<and> y \<in> ?S p} = length ?ps" by (metis distinct_card)
  obtain m1 where m1: "(case ?ps of first # second # rest \<Rightarrow> propagate_from ns (first # second # rest) y m | _ \<Rightarrow> Some m) = Some m1"
    "frontier_matrix n (reached ?S r) m1 (A \<union> (if card {p. p < n \<and> y \<in> ?S p} \<ge> 2 then {(x, y'). (x, y') \<in> frontier ?S r \<and> y' = y} else {}))"
  proof (cases "length ?ps \<ge> 2")
    case True
    then obtain a b ps where ps: "?ps = a # b # ps" by (cases ?ps rule: remdups_adj.cases) auto
    from propagate_column [OF D range y set Cons.prems(2)] True card ps show ?thesis by (auto intro: that)
  next
    case False
    then have "(case ?ps of first # second # rest \<Rightarrow> propagate_from ns (first # second # rest) y m | _ \<Rightarrow> Some m) = Some m"
      by (cases ?ps rule: remdups_adj.cases) auto
    with Cons.prems(2) False card show ?thesis by (intro that [of m]) simp_all
  qed
  from Cons.IH [OF _ m1(2)] Cons.prems(1) m1(1) y n(1) show ?case
    unfolding joins_step by (auto simp: Cfg_pred_iter_def Un_assoc)
qed

section \<open>The frontiers of a function\<close>

text \<open>A block that branches to itself and to block 1.\<close>

definition self_loop :: control_flow_graph where
  "self_loop = \<lparr>cfg_data = [\<lparr>preds = [0], succs = (Some 0, Some 1)\<rparr>, \<lparr>preds = [0], succs = (None, None)\<rparr>,
     \<lparr>preds = [], succs = (None, None)\<rparr>], cfg_valid = True\<rparr>"

text \<open>
  C38: After a computation with post-dominators, \<open>compute_postdom_frontiers\<close> returns without panic and
  writes, in the row of a block \<open>x\<close> from which the last block of the layout can be reached, exactly the
  post-dominance frontier of \<open>x\<close>, the blocks with a successor that \<open>x\<close> post-dominates and that \<open>x\<close>
  does not strictly post-dominate, except that the last block of the layout is left out of every frontier
  unless it has two successors.
\<close>

theorem postdom_frontiers_correct:
  assumes "Layout_ok (fn_layout F) bs ils" "bs \<noteq> []" "Cfg_ok G" "cfg_valid G"
    and "length (cfg_data G) = length (blocks (fn_layout F))" "dt_stack T = []"
  shows "\<exists>T' M. DominatorTree_compute F G want_dom True want_postorder T = Some T' \<and>
    DominatorTree_compute_postdom_frontiers T' G dst = Some M \<and>
    (\<forall>x \<in> reached (pred_set G) (last bs). \<forall>y < length (cfg_data G). (x, y) \<in> sparse_rel M \<longleftrightarrow>
       (\<exists>p \<in> reached (pred_set G) (last bs). p \<in> succ_set G y \<and> dominator_of (pred_set G) (last bs) x p) \<and>
       \<not> (dominator_of (pred_set G) (last bs) x y \<and> x \<noteq> y) \<and> (y = last bs \<longrightarrow> 2 \<le> card (succ_set G y)))"
proof -
  let ?n = "length (cfg_data G)" and ?S = "pred_set G" and ?r = "last bs"
  have "?r \<in> set bs" using assms(2) by simp
  then have r: "?r < ?n" using Layout_okD(1) [OF assms(1)] assms(5) by (auto simp: Blocks_ok_def)
  from compute_ok [OF assms, of want_dom True want_postorder] obtain T' where
    T': "DominatorTree_compute F G want_dom True want_postorder T = Some T'" "answers ?S ?r ?n (dt_reverse_nodes T')" by blast
  then have D: "dominator_links ?S ?r ?n (dt_reverse_nodes T')" "length (dt_reverse_nodes T') = ?n" by (simp_all add: answers_def)
  have range: "reached ?S ?r \<subseteq> {..<?n}" using reached_range [OF assms(3) r, of True] by (simp add: flow_def)
  from postdom_loop_ok [OF assms(3) refl r D _ frontier_cleared, of "[0..<?n]" dst] obtain M where
    M: "DominatorTree_compute_postdom_frontiers T' G dst = Some M" "frontier_matrix ?n (reached ?S ?r) M (joins ?n ?S ?r {..<?n})"
    unfolding DominatorTree_compute_postdom_frontiers_def D(2) by (auto simp: lessThan_atLeast0)
  have "(x, y) \<in> sparse_rel M \<longleftrightarrow> (\<exists>p \<in> reached ?S ?r. p \<in> succ_set G y \<and> dominator_of ?S ?r x p) \<and>
       \<not> (dominator_of ?S ?r x y \<and> x \<noteq> y) \<and> (y = ?r \<longrightarrow> 2 \<le> card (succ_set G y))"
    if x: "x \<in> reached ?S ?r" and y: "y < ?n" for x y
  proof -
    have succs: "succ_set G y = {p. p < ?n \<and> y \<in> ?S p}"
      using set_idom_preds [OF assms(3) y, of True] by (auto simp: idom_preds_def flow_def succ_set_def)
    have "(x, y) \<in> sparse_rel M \<longleftrightarrow> (x, y) \<in> joins ?n ?S ?r {..<?n}" using M(2) x by (simp add: frontier_matrix_def)
    also have "\<dots> \<longleftrightarrow> (x, y) \<in> frontier ?S ?r \<and> (y = ?r \<longrightarrow> 2 \<le> card (succ_set G y))"
    proof -
      have "(x, y) \<in> joins ?n ?S ?r {..<?n} \<longleftrightarrow> (x, y) \<in> frontier ?S ?r \<and> 2 \<le> card (succ_set G y)"
        using y by (simp add: joins_def succs)
      with joins_frontier [OF range, of y "{..<?n}" x] y show ?thesis by blast
    qed
    also have "(x, y) \<in> frontier ?S ?r \<longleftrightarrow> (\<exists>p \<in> reached ?S ?r. p \<in> succ_set G y \<and> dominator_of ?S ?r x p) \<and>
        \<not> (dominator_of ?S ?r x y \<and> x \<noteq> y)"
      using range by (auto simp: frontier_def succs)
    finally show ?thesis by blast
  qed
  with T'(1) M(1) show ?thesis by blast
qed

text \<open>
  C39: After a computation with dominators, \<open>compute_dom_frontiers\<close> returns without panic and writes, in
  the row of a reachable block \<open>x\<close>, exactly the dominance frontier of \<open>x\<close>, except that the entry block
  is left out when it has only one predecessor.
\<close>

theorem dom_frontiers_correct:
  assumes "Layout_ok (fn_layout F) bs ils" "bs \<noteq> []" "Cfg_ok G" "cfg_valid G"
    and "length (cfg_data G) = length (blocks (fn_layout F))" "dt_stack T = []"
  shows "\<exists>T' M. DominatorTree_compute F G True want_pdom want_postorder T = Some T' \<and>
    DominatorTree_compute_dom_frontiers T' G dst = Some M \<and>
    (\<forall>x \<in> reached (succ_set G) (hd bs). \<forall>y < length (cfg_data G). (x, y) \<in> sparse_rel M \<longleftrightarrow>
       (\<exists>p \<in> reached (succ_set G) (hd bs). y \<in> succ_set G p \<and> dominator_of (succ_set G) (hd bs) x p) \<and>
       \<not> (dominator_of (succ_set G) (hd bs) x y \<and> x \<noteq> y) \<and> (y = hd bs \<longrightarrow> 2 \<le> card (pred_set G y)))"
proof -
  let ?n = "length (cfg_data G)" and ?S = "succ_set G" and ?r = "hd bs"
  have "?r \<in> set bs" using assms(2) by simp
  then have r: "?r < ?n" using Layout_okD(1) [OF assms(1)] assms(5) by (auto simp: Blocks_ok_def)
  from compute_ok [OF assms, of True want_pdom want_postorder] obtain T' where
    T': "DominatorTree_compute F G True want_pdom want_postorder T = Some T'" "answers ?S ?r ?n (dt_nodes T')" by blast
  then have D: "dominator_links ?S ?r ?n (dt_nodes T')" "length (dt_nodes T') = ?n" by (simp_all add: answers_def)
  have range: "reached ?S ?r \<subseteq> {..<?n}" using reached_range [OF assms(3) r, of False] by (simp add: flow_def)
  from dom_loop_ok [OF assms(3) refl r D _ frontier_cleared, of "[0..<?n]" dst] obtain M where
    M: "DominatorTree_compute_dom_frontiers T' G dst = Some M" "frontier_matrix ?n (reached ?S ?r) M (joins ?n ?S ?r {..<?n})"
    unfolding DominatorTree_compute_dom_frontiers_def D(2) by (auto simp: lessThan_atLeast0)
  have "(x, y) \<in> sparse_rel M \<longleftrightarrow> (\<exists>p \<in> reached ?S ?r. y \<in> succ_set G p \<and> dominator_of ?S ?r x p) \<and>
       \<not> (dominator_of ?S ?r x y \<and> x \<noteq> y) \<and> (y = ?r \<longrightarrow> 2 \<le> card (pred_set G y))"
    if x: "x \<in> reached ?S ?r" and y: "y < ?n" for x y
  proof -
    have preds: "pred_set G y = {p. p < ?n \<and> y \<in> ?S p}"
      using Cfg_okD(4) [OF assms(3) y] y by (auto simp: pred_set_def)
    have "(x, y) \<in> sparse_rel M \<longleftrightarrow> (x, y) \<in> joins ?n ?S ?r {..<?n}" using M(2) x by (simp add: frontier_matrix_def)
    also have "\<dots> \<longleftrightarrow> (x, y) \<in> frontier ?S ?r \<and> (y = ?r \<longrightarrow> 2 \<le> card (pred_set G y))"
    proof -
      have "(x, y) \<in> joins ?n ?S ?r {..<?n} \<longleftrightarrow> (x, y) \<in> frontier ?S ?r \<and> 2 \<le> card (pred_set G y)"
        using y by (simp add: joins_def preds)
      with joins_frontier [OF range, of y "{..<?n}" x] y show ?thesis by blast
    qed
    finally show ?thesis by (simp add: frontier_def)
  qed
  with T'(1) M(1) show ?thesis by blast
qed

lemma self_loop_ok:
  "Cfg_ok self_loop" "cfg_valid self_loop" "length (cfg_data self_loop) = 3"
  "succ_set self_loop 0 = {0, 1}" "pred_set self_loop 1 = {0}" "pred_set self_loop 0 = {0}"
proof -
  show n: "length (cfg_data self_loop) = 3" and "cfg_valid self_loop" by (simp_all add: self_loop_def)
  have at: "succ_set self_loop 0 = {0, 1}" "succ_set self_loop 1 = {}" "succ_set self_loop 2 = {}"
    by (auto simp: self_loop_def succ_set_def succ_at_def)
  have lt3: "x < 3 \<longleftrightarrow> x = 0 \<or> x = 1 \<or> x = 2" for x :: nat by linarith
  have edge: "a < 3 \<and> x \<in> succ_set self_loop a \<longleftrightarrow> a = 0 \<and> (x = 0 \<or> x = 1)" for a x
    using at lt3 [of a] by (cases "a = 0"; cases "a = 1"; cases "a = 2") simp_all
  show "succ_set self_loop 0 = {0, 1}" by (rule at)
  show "pred_set self_loop 1 = {0}" "pred_set self_loop 0 = {0}" by (simp_all add: pred_set_def self_loop_def)
  have "oset_ok (preds (cfg_data self_loop ! b)) \<and> succ_wf (succ_at self_loop b) \<and> succ_set self_loop b \<subseteq> {..<3} \<and>
     set (preds (cfg_data self_loop ! b)) = {a. a < 3 \<and> b \<in> succ_set self_loop a}" if "b < 3" for b
  proof -
    from that consider "b = 0" | "b = 1" | "b = 2" using lt3 [of b] by blast
    then show ?thesis unfolding edge using at by cases (auto simp: self_loop_def succ_at_def oset_ok_def)
  qed
  with n show "Cfg_ok self_loop" by (simp add: Cfg_ok_def)
qed

lemma self_loop_function:
  obtains F :: mir_function where "Layout_ok (fn_layout F) [0, 1] ((\<lambda>_. [])(0 := [0, 1], 1 := [2]))"
    "length (cfg_data self_loop) = length (blocks (fn_layout F))"
proof -
  obtain L where L: "Layout_ok L [0, 1] ((\<lambda>_. [])(0 := [0, 1], 1 := [2]))" "length (blocks L) = 3"
    using two_blocks_layout by blast
  then show thesis by (intro that [of "decl_function (jump_to 1) L"]) (simp_all add: decl_function_def self_loop_ok(3))
qed

theorem postdom_frontiers_correct_witness:
  "\<exists>F T' M. DominatorTree_compute F self_loop False True False DominatorTree_default = Some T' \<and>
     DominatorTree_compute_postdom_frontiers T' self_loop (SparseBitMatrix_new 3 3) = Some M \<and>
     (0, 0) \<in> sparse_rel M \<and> (1, 0) \<notin> sparse_rel M"
proof -
  obtain F :: mir_function where F: "Layout_ok (fn_layout F) [0, 1] ((\<lambda>_. [])(0 := [0, 1], 1 := [2]))"
    "length (cfg_data self_loop) = length (blocks (fn_layout F))" by (rule self_loop_function)
  have "dt_stack DominatorTree_default = []" by (simp add: DominatorTree_default_def)
  from postdom_frontiers_correct [OF F(1) _ self_loop_ok(1,2) F(2) this, of False False "SparseBitMatrix_new 3 3"] obtain T' M where
    M: "DominatorTree_compute F self_loop False True False DominatorTree_default = Some T'"
    "DominatorTree_compute_postdom_frontiers T' self_loop (SparseBitMatrix_new 3 3) = Some M"
    "\<forall>x \<in> reached (pred_set self_loop) 1. \<forall>y < 3. (x, y) \<in> sparse_rel M \<longleftrightarrow>
       (\<exists>p \<in> reached (pred_set self_loop) 1. p \<in> succ_set self_loop y \<and> dominator_of (pred_set self_loop) 1 x p) \<and>
       \<not> (dominator_of (pred_set self_loop) 1 x y \<and> x \<noteq> y) \<and> (y = 1 \<longrightarrow> 2 \<le> card (succ_set self_loop y))"
    by (auto simp: self_loop_ok(3))
  have r: "1 \<in> reached (pred_set self_loop) 1" "0 \<in> reached (pred_set self_loop) 1"
    using reached_succ [of 1 "pred_set self_loop" 1 0] self_loop_ok(5) by simp_all
  have D: "dominator_of (pred_set self_loop) 1 0 0" "dominator_of (pred_set self_loop) 1 1 0"
    unfolding dominator_of_def using walk_root by force+
  have lt: "(0::nat) < 3" "(0::nat) \<noteq> 1" by simp_all
  have "0 \<in> succ_set self_loop 0" by (simp add: self_loop_ok(4))
  then have "\<exists>p \<in> reached (pred_set self_loop) 1. p \<in> succ_set self_loop 0 \<and> dominator_of (pred_set self_loop) 1 0 p"
    using r(2) D(1) by blast
  with bspec [OF M(3) r(2), THEN spec, of 0] lt have "(0, 0) \<in> sparse_rel M" by blast
  moreover from bspec [OF M(3) r(1), THEN spec, of 0] lt D(2) have "(1, 0) \<notin> sparse_rel M" by metis
  ultimately show ?thesis using M(1,2) by blast
qed

theorem dom_frontiers_correct_witness:
  "\<exists>F T' M. DominatorTree_compute F self_loop True False False DominatorTree_default = Some T' \<and>
     DominatorTree_compute_dom_frontiers T' self_loop (SparseBitMatrix_new 3 3) = Some M \<and> (0, 0) \<notin> sparse_rel M"
proof -
  obtain F :: mir_function where F: "Layout_ok (fn_layout F) [0, 1] ((\<lambda>_. [])(0 := [0, 1], 1 := [2]))"
    "length (cfg_data self_loop) = length (blocks (fn_layout F))" by (rule self_loop_function)
  have "dt_stack DominatorTree_default = []" by (simp add: DominatorTree_default_def)
  from dom_frontiers_correct [OF F(1) _ self_loop_ok(1,2) F(2) this, of False False "SparseBitMatrix_new 3 3"] obtain T' M where
    M: "DominatorTree_compute F self_loop True False False DominatorTree_default = Some T'"
    "DominatorTree_compute_dom_frontiers T' self_loop (SparseBitMatrix_new 3 3) = Some M"
    "\<forall>x \<in> reached (succ_set self_loop) 0. \<forall>y < 3. (x, y) \<in> sparse_rel M \<longleftrightarrow>
       (\<exists>p \<in> reached (succ_set self_loop) 0. y \<in> succ_set self_loop p \<and> dominator_of (succ_set self_loop) 0 x p) \<and>
       \<not> (dominator_of (succ_set self_loop) 0 x y \<and> x \<noteq> y) \<and> (y = 0 \<longrightarrow> 2 \<le> card (pred_set self_loop y))"
    by (auto simp: self_loop_ok(3))
  have "0 \<in> reached (succ_set self_loop) 0" by simp
  moreover have "\<not> 2 \<le> card (pred_set self_loop 0)" by (simp add: self_loop_ok(6))
  ultimately have "(0, 0) \<notin> sparse_rel M" using M(3) by auto
  with M(1,2) show ?thesis by blast
qed

end
