(* ===== verification/Traversal.thy ===== *)
theory Traversal
  imports Flowgraph Dominance Bit_Set
begin

text \<open>
  The traversals of the control flow graph, \<^verbatim>\<open>openvaf/mir/src/flowgraph/transversal.rs\<close>: \<open>Postorder\<close>, a
  recursive depth-first search that fills a vector, and \<open>ReversePostorder\<close>, which reads it backwards.
\<close>

record postorder =
  po_visited :: bit_set
  po_result :: "block list"
  po_index :: nat

lemma run_ops_mono [partial_function_mono]:
  assumes "\<And>x s. mono_option (\<lambda>f. F f x s)"
  shows "mono_option (\<lambda>f. run_ops (F f) xs s)"
proof (induction xs arbitrary: s)
  case Nil
  then show ?case by (simp add: option.const_mono)
next
  case (Cons x xs)
  have "mono_option (\<lambda>f. Option.bind (F f x s) (\<lambda>s. run_ops (F f) xs s))"
    by (rule bind_mono [OF assms Cons])
  then show ?case by (simp add: option.case_eq_if)
qed

text \<open>The recursion on the successors, for one successor after the other.\<close>

partial_function (option) Postorder_dfs :: "control_flow_graph \<Rightarrow> block \<Rightarrow> postorder \<Rightarrow> postorder option" where
  "Postorder_dfs G bb po =
     do { (visited, new) \<leftarrow> BitSet_insert bb (po_visited po);
          let po = po\<lparr>po_visited := visited\<rparr>;
          (if \<not> new then Some po
           else do { ss \<leftarrow> Cfg_successors G bb;
                     po \<leftarrow> run_ops (Postorder_dfs G) (Successors_iter ss) po;
                     Some (po\<lparr>po_result := po_result po @ [bb]\<rparr>) }) }"

definition Postorder_new :: "control_flow_graph \<Rightarrow> block \<Rightarrow> postorder option" where
  "Postorder_new G root =
     Postorder_dfs G root \<lparr>po_visited = BitSet_new_empty (length (cfg_data G)), po_result = [], po_index = 0\<rparr>"

definition Postorder_next :: "postorder \<Rightarrow> (block option \<times> postorder) panics" where
  "Postorder_next po =
     (if po_index po < length (po_result po) then
        do { b \<leftarrow> vec_get (po_result po) (po_index po); Some (Some b, po\<lparr>po_index := po_index po + 1\<rparr>) }
      else Some (None, po))"

definition Postorder_size_hint :: "postorder \<Rightarrow> (nat \<times> nat option) panics" where
  "Postorder_size_hint po =
     do { len \<leftarrow> usize_sub (length (po_result po)) (po_index po); Some (len, Some len) }"

record reverse_postorder =
  rpo_blocks :: "block list"
  rpo_idx :: nat

definition ReversePostorder_new :: "control_flow_graph \<Rightarrow> block \<Rightarrow> reverse_postorder option" where
  "ReversePostorder_new G root =
     do { po \<leftarrow> Postorder_new G root;
          bs \<leftarrow> drain Postorder_next po;
          Some \<lparr>rpo_blocks = bs, rpo_idx = length bs\<rparr> }"

definition ReversePostorder_reset :: "reverse_postorder \<Rightarrow> reverse_postorder" where
  "ReversePostorder_reset r = r\<lparr>rpo_idx := length (rpo_blocks r)\<rparr>"

definition ReversePostorder_next :: "reverse_postorder \<Rightarrow> (block option \<times> reverse_postorder) panics" where
  "ReversePostorder_next r =
     (if rpo_idx r = 0 then Some (None, r)
      else Some (let i = rpo_idx r - 1 in (vec_get (rpo_blocks r) i, r\<lparr>rpo_idx := i\<rparr>)))"

definition ReversePostorder_size_hint :: "reverse_postorder \<Rightarrow> nat \<times> nat option" where
  "ReversePostorder_size_hint r = (rpo_idx r, Some (rpo_idx r))"

definition ReversePostorder_len :: "reverse_postorder \<Rightarrow> nat" where
  "ReversePostorder_len r = rpo_idx r"

definition Cfg_postorder_from :: "control_flow_graph \<Rightarrow> block \<Rightarrow> postorder option" where
  "Cfg_postorder_from G b = Postorder_new G b"

definition Cfg_reverse_postorder_from :: "control_flow_graph \<Rightarrow> block \<Rightarrow> reverse_postorder option" where
  "Cfg_reverse_postorder_from G b = ReversePostorder_new G b"

definition Cfg_postorder :: "mir_function \<Rightarrow> control_flow_graph \<Rightarrow> postorder option" where
  "Cfg_postorder F G = do { b \<leftarrow> Layout_entry_block (fn_layout F); Postorder_new G b }"

definition Cfg_reverse_postorder :: "mir_function \<Rightarrow> control_flow_graph \<Rightarrow> reverse_postorder option" where
  "Cfg_reverse_postorder F G = do { b \<leftarrow> Layout_entry_block (fn_layout F); ReversePostorder_new G b }"


section \<open>What the search lists\<close>

text \<open>The set bits are the blocks visited; those not yet in the result are on the call stack.\<close>

definition dfs_ok :: "nat \<Rightarrow> postorder \<Rightarrow> bool" where
  "dfs_ok n po \<longleftrightarrow> BitSet_wf (po_visited po) \<and> domain_size (po_visited po) = n \<and>
     set (po_result po) \<subseteq> BitSet_elems (po_visited po) \<and> distinct (po_result po)"

text \<open>
  A block stands after each of its successors, unless the successor is an ancestor on the call stack
  (\<open>gray\<close>) or leads back to the block.
\<close>

definition post_ordered :: "(block \<Rightarrow> block set) \<Rightarrow> block set \<Rightarrow> block list \<Rightarrow> block list \<Rightarrow> bool" where
  "post_ordered S gray done xs \<longleftrightarrow>
     (\<forall>ys x zs. xs = ys @ x # zs \<longrightarrow> (\<forall>s \<in> S x. s \<in> set done \<union> set ys \<union> gray \<or> x \<in> reached S s))"

lemma post_ordered_Nil [simp]: "post_ordered S gray done []"
  by (simp add: post_ordered_def)

lemma post_ordered_append:
  "post_ordered S gray done (xs @ ws) \<longleftrightarrow> post_ordered S gray done xs \<and> post_ordered S gray (done @ xs) ws"
proof
  assume a: "post_ordered S gray done (xs @ ws)"
  have "s \<in> set done \<union> set ys \<union> gray \<or> x \<in> reached S s" if "xs = ys @ x # zs" "s \<in> S x" for ys x zs s
    using a that unfolding post_ordered_def by (metis append_Cons append_assoc)
  moreover have "s \<in> set (done @ xs) \<union> set ys \<union> gray \<or> x \<in> reached S s" if "ws = ys @ x # zs" "s \<in> S x" for ys x zs s
  proof -
    have "xs @ ws = (xs @ ys) @ x # zs" using that(1) by simp
    with a that(2) have "s \<in> set done \<union> set (xs @ ys) \<union> gray \<or> x \<in> reached S s" unfolding post_ordered_def by blast
    then show ?thesis by auto
  qed
  ultimately show "post_ordered S gray done xs \<and> post_ordered S gray (done @ xs) ws"
    unfolding post_ordered_def by blast
next
  assume a: "post_ordered S gray done xs \<and> post_ordered S gray (done @ xs) ws"
  show "post_ordered S gray done (xs @ ws)"
    unfolding post_ordered_def
  proof (intro allI impI ballI)
    fix ys x zs s assume e: "xs @ ws = ys @ x # zs" and s: "s \<in> S x"
    from e consider us where "xs = ys @ x # us" | us where "ys = xs @ us" "ws = us @ x # zs"
      by (auto simp: append_eq_append_conv2 Cons_eq_append_conv append_eq_Cons_conv)
    then show "s \<in> set done \<union> set ys \<union> gray \<or> x \<in> reached S s"
    proof cases
      case 1
      then show ?thesis using a s unfolding post_ordered_def by blast
    next
      case 2
      then have "s \<in> set (done @ xs) \<union> set us \<union> gray \<or> x \<in> reached S s" using a s unfolding post_ordered_def by blast
      then show ?thesis using 2(1) by auto
    qed
  qed
qed

text \<open>A gray block that leads to everything listed need not be mentioned.\<close>

lemma post_ordered_gray:
  assumes "post_ordered S (insert b gray) done xs" "\<And>x. x \<in> set xs \<Longrightarrow> x \<in> reached S b"
  shows "post_ordered S gray done xs"
  unfolding post_ordered_def
proof (intro allI impI ballI)
  fix ys x zs s assume e: "xs = ys @ x # zs" "s \<in> S x"
  then have "s \<in> set done \<union> set ys \<union> insert b gray \<or> x \<in> reached S s" using assms(1) unfolding post_ordered_def by blast
  with assms(2) [of x] e(1) show "s \<in> set done \<union> set ys \<union> gray \<or> x \<in> reached S s" by auto
qed

lemma dfs_visit:
  assumes "dfs_ok n po" "b < n"
  shows "\<exists>v. BitSet_insert b (po_visited po) = Some (v, b \<notin> BitSet_elems (po_visited po)) \<and>
    dfs_ok n (po\<lparr>po_visited := v\<rparr>) \<and> BitSet_elems v = insert b (BitSet_elems (po_visited po))"
proof -
  have "in_words b (po_visited po)" using BitSet_wf_in_words [of "po_visited po" b] assms by (simp add: dfs_ok_def)
  then have "b div 64 < length (words (po_visited po))" by (simp add: in_words_def)
  from BitSet_insert_correct [OF this] obtain v where v:
    "BitSet_insert b (po_visited po) = Some (v, b \<notin> BitSet_elems (po_visited po))"
    "BitSet_elems v = insert b (BitSet_elems (po_visited po))" "length (words v) = length (words (po_visited po))"
    "domain_size v = domain_size (po_visited po)" by blast
  then have "BitSet_wf v" using assms by (auto simp: dfs_ok_def BitSet_wf_def)
  with v assms show ?thesis by (auto simp: dfs_ok_def)
qed

lemma reached_trans: "b \<in> reached S a \<Longrightarrow> c \<in> reached S b \<Longrightarrow> c \<in> reached S a"
  using reached_least [of b "reached S a" S] reached_succ [of _ S a] by blast

definition dfs_lists ::
    "(block \<Rightarrow> block set) \<Rightarrow> block list \<Rightarrow> postorder \<Rightarrow> postorder \<Rightarrow> block list \<Rightarrow> bool" where
  "dfs_lists S ss po po' xs \<longleftrightarrow>
     po_index po' = po_index po \<and> po_result po' = po_result po @ xs \<and>
     BitSet_elems (po_visited po') = BitSet_elems (po_visited po) \<union> set xs \<and>
     set ss \<subseteq> BitSet_elems (po_visited po') \<and> set xs \<inter> BitSet_elems (po_visited po) = {} \<and>
     (\<forall>x \<in> set xs. S x \<subseteq> BitSet_elems (po_visited po') \<and> (\<exists>b \<in> set ss. x \<in> reached S b)) \<and>
     post_ordered S (BitSet_elems (po_visited po) - set (po_result po)) (po_result po) xs \<and>
     (\<forall>ys x zs. xs = ys @ x # zs \<longrightarrow> x \<in> set ss \<or> (\<exists>p \<in> set zs. x \<in> S p))"

lemma dfs_listsD:
  assumes "dfs_lists S ss po po' xs"
  shows "po_index po' = po_index po" "po_result po' = po_result po @ xs"
    "BitSet_elems (po_visited po') = BitSet_elems (po_visited po) \<union> set xs"
    "set ss \<subseteq> BitSet_elems (po_visited po')" "set xs \<inter> BitSet_elems (po_visited po) = {}"
    "x \<in> set xs \<Longrightarrow> S x \<subseteq> BitSet_elems (po_visited po')" "x \<in> set xs \<Longrightarrow> \<exists>b \<in> set ss. x \<in> reached S b"
    "post_ordered S (BitSet_elems (po_visited po) - set (po_result po)) (po_result po) xs"
    "xs = ys @ x # zs \<Longrightarrow> x \<in> set ss \<or> (\<exists>p \<in> set zs. x \<in> S p)"
  using assms unfolding dfs_lists_def by blast+

text \<open>The lists of a new block, of its successors and of what follows fit together.\<close>

lemma dfs_lists_visit:
  assumes "dfs_lists S ts (po\<lparr>po_visited := v\<rparr>) po1 xs1" "set ts = S b" "BitSet_elems v = insert b (BitSet_elems (po_visited po))"
    and "b \<notin> BitSet_elems (po_visited po)" "set (po_result po) \<subseteq> BitSet_elems (po_visited po)"
    and "dfs_lists S ss (po1\<lparr>po_result := po_result po1 @ [b]\<rparr>) po2 xs2"
  shows "dfs_lists S (b # ss) po po2 (xs1 @ b # xs2)"
proof -
  let ?V = "BitSet_elems (po_visited po)" and ?R = "po_result po"
  let ?gray = "?V - set ?R"
  note A = dfs_listsD [OF assms(1), simplified] and B = dfs_listsD [OF assms(6), simplified]
  have V1: "BitSet_elems (po_visited po1) = insert b (?V \<union> set xs1)" using A(3) assms(3) by simp
  have xs1: "set xs1 \<inter> insert b ?V = {}" using A(5) assms(3) by simp
  have from_b: "x \<in> reached S b" if x: "x \<in> set xs1" for x
  proof -
    obtain c where c: "c \<in> S b" "x \<in> reached S c" using A(7) [OF x] assms(2) by auto
    have "c \<in> reached S b" using reached_succ [of b S b c] c(1) by simp
    then show ?thesis using c(2) by (rule reached_trans)
  qed
  have gray1: "BitSet_elems v - set ?R = insert b ?gray" using assms(3-5) by auto
  have gray2: "BitSet_elems (po_visited po1) - set (?R @ xs1 @ [b]) = ?gray" using V1 xs1 assms(4) by auto
  have "post_ordered S ?gray ?R xs1"
    using post_ordered_gray [OF A(8) [unfolded gray1] from_b] .
  moreover have "post_ordered S ?gray (?R @ xs1) [b]"
    unfolding post_ordered_def
  proof (intro allI impI ballI)
    fix ys x zs s assume "[b] = ys @ x # zs" and s: "s \<in> S x"
    then have x: "x = b" by (cases ys) auto
    have "s \<in> BitSet_elems (po_visited po1)" using A(4) assms(2) s x by auto
    with V1 x show "s \<in> set (?R @ xs1) \<union> set ys \<union> ?gray \<or> x \<in> reached S s" by auto
  qed
  moreover have "post_ordered S ?gray ((?R @ xs1) @ [b]) xs2"
    using B(8) A(2) gray2 by simp
  ultimately have "post_ordered S ?gray ?R (xs1 @ [b] @ xs2)"
    by (simp only: post_ordered_append)
  moreover have "x \<in> set (b # ss) \<or> (\<exists>p \<in> set zs. x \<in> S p)" if e: "xs1 @ b # xs2 = ys @ x # zs" for ys x zs
  proof -
    from e consider us where "xs1 = ys @ x # us" "zs = us @ b # xs2" | "ys = xs1" "x = b" "zs = xs2"
      | us where "ys = xs1 @ b # us" "xs2 = us @ x # zs"
      by (auto simp: append_eq_append_conv2 Cons_eq_append_conv append_eq_Cons_conv)
    then show ?thesis
    proof cases
      case 1
      from A(9) [OF 1(1)] assms(2) 1(2) show ?thesis by auto
    next
      case 3
      from B(9) [OF 3(2)] show ?thesis by auto
    qed simp
  qed
  moreover have "\<forall>x \<in> set (xs1 @ b # xs2). S x \<subseteq> BitSet_elems (po_visited po2) \<and> (\<exists>c \<in> set (b # ss). x \<in> reached S c)"
  proof
    fix x assume "x \<in> set (xs1 @ b # xs2)"
    then consider "x \<in> set xs1" | "x = b" | "x \<in> set xs2" by auto
    then show "S x \<subseteq> BitSet_elems (po_visited po2) \<and> (\<exists>c \<in> set (b # ss). x \<in> reached S c)"
    proof cases
      case 1
      from A(6) [OF 1] from_b [OF 1] B(3) show ?thesis by auto
    next
      case 2
      with A(4) assms(2) B(3) show ?thesis by auto
    next
      case 3
      from B(6) [OF 3] B(7) [OF 3] show ?thesis by auto
    qed
  qed
  ultimately show ?thesis
    unfolding dfs_lists_def using A(1,2) B(1-5) V1 xs1 assms(4) by auto
qed

lemma dfs_all_ok:
  assumes "Cfg_ok G" "dfs_ok (length (cfg_data G)) po" "set ss \<subseteq> {..<length (cfg_data G)}"
  shows "\<exists>po' xs. run_ops (Postorder_dfs G) ss po = Some po' \<and> dfs_ok (length (cfg_data G)) po' \<and>
    dfs_lists (succ_set G) ss po po' xs"
  using assms(2,3)
proof (induction "3 * (length (cfg_data G) - card (BitSet_elems (po_visited po))) + length ss"
    arbitrary: po ss rule: less_induct)
  case less
  let ?n = "length (cfg_data G)" and ?S = "succ_set G" and ?V = "BitSet_elems (po_visited po)"
  have V: "?V \<subseteq> {..<?n}" "finite ?V" "card ?V \<le> ?n"
    using less.prems(1) finite_subset [of ?V "{..<?n}"] card_mono [of "{..<?n}" ?V] by (auto simp: dfs_ok_def BitSet_wf_def)
  show ?case
  proof (cases ss)
    case Nil
    then show ?thesis using less.prems(1) by (auto simp: dfs_lists_def)
  next
    case (Cons b bs)
    have b: "b < ?n" "set bs \<subseteq> {..<?n}" using less.prems(2) Cons by auto
    obtain v where v: "BitSet_insert b (po_visited po) = Some (v, b \<notin> ?V)"
      "dfs_ok ?n (po\<lparr>po_visited := v\<rparr>)" "BitSet_elems v = insert b ?V"
      using dfs_visit [OF less.prems(1) b(1)] by blast
    show ?thesis
    proof (cases "b \<in> ?V")
      case True
      let ?po = "po\<lparr>po_visited := v\<rparr>"
      have same: "BitSet_elems (po_visited ?po) = ?V" using v(3) True by auto
      have run: "run_ops (Postorder_dfs G) ss po = run_ops (Postorder_dfs G) bs ?po"
        using v(1) True Cons by (simp add: Postorder_dfs.simps)
      obtain po' xs where IH: "run_ops (Postorder_dfs G) bs ?po = Some po'" "dfs_ok ?n po'" "dfs_lists ?S bs ?po po' xs"
        using less.hyps [of ?po bs] v(2) b(2) Cons same by auto
      have "dfs_lists ?S ss po po' xs"
        using dfs_listsD [OF IH(3)] same True Cons unfolding dfs_lists_def by auto
      with IH(1,2) run show ?thesis by auto
    next
      case False
      let ?po = "po\<lparr>po_visited := v\<rparr>" and ?ts = "Successors_iter (succ_at G b)"
      have card: "card (BitSet_elems v) = Suc (card ?V)" "Suc (card ?V) \<le> ?n"
        using v(3) False V(2) card_mono [of "{..<?n}" "insert b ?V"] V(1) b(1) by auto
      have ts: "set ?ts = ?S b" "set ?ts \<subseteq> {..<?n}" using Cfg_okD(3) [OF assms(1) b(1)] by (auto simp: succ_set_def)
      have "length ?ts \<le> 2" using Cfg_okD(2) [OF assms(1) b(1)] by (cases rule: succ_wf_cases) simp_all
      then have dec1: "3 * (?n - card (BitSet_elems (po_visited ?po))) + length ?ts < 3 * (?n - card ?V) + length ss"
        using card Cons by simp
      from less.hyps [OF dec1 v(2) ts(2)] obtain po1 xs1 where
        I1: "run_ops (Postorder_dfs G) ?ts ?po = Some po1" "dfs_ok ?n po1" "dfs_lists ?S ?ts ?po po1 xs1" by blast
      let ?po1 = "po1\<lparr>po_result := po_result po1 @ [b]\<rparr>"
      have V1: "BitSet_elems (po_visited po1) = insert b (?V \<union> set xs1)" "b \<notin> set xs1"
        "po_result po1 = po_result po @ xs1"
        using dfs_listsD(2,3,5) [OF I1(3)] v(3) by auto
      have "b \<notin> set (po_result po1)" using V1 less.prems(1) False by (auto simp: dfs_ok_def)
      then have ok1: "dfs_ok ?n ?po1" using I1(2) V1(1) by (auto simp: dfs_ok_def)
      have dfs: "Postorder_dfs G b po = Some ?po1"
        using v(1) False I1(1) b(1) by (subst Postorder_dfs.simps) (simp add: Cfg_successors_def succ_at_def)
      have "card (BitSet_elems v) \<le> card (BitSet_elems (po_visited po1))"
        using V1(1) v(3) V(2) by (intro card_mono) auto
      then have dec2: "3 * (?n - card (BitSet_elems (po_visited ?po1))) + length bs < 3 * (?n - card ?V) + length ss"
        using card Cons by simp
      from less.hyps [OF dec2 ok1 b(2)] obtain po2 xs2 where
        I2: "run_ops (Postorder_dfs G) bs ?po1 = Some po2" "dfs_ok ?n po2" "dfs_lists ?S bs ?po1 po2 xs2" by blast
      have "dfs_lists ?S (b # bs) po po2 (xs1 @ b # xs2)"
        using dfs_lists_visit [OF I1(3) ts(1) v(3) False _ I2(3)] less.prems(1) by (simp add: dfs_ok_def)
      with I2(1,2) dfs Cons show ?thesis by auto
    qed
  qed
qed

section \<open>The orders\<close>

lemma drain_Postorder:
  assumes "po_index po = 0"
  shows "drain Postorder_next po = Some (po_result po)"
proof -
  define st where "st vs = po\<lparr>po_index := length (po_result po) - length vs\<rparr>" for vs :: "block list"
  have "drain Postorder_next (st (po_result po)) = Some (po_result po)"
  proof (rule drain_list)
    fix us vs assume e: "po_result po = us @ vs"
    show "Postorder_next (st vs) = Some (case vs of [] \<Rightarrow> None | v # _ \<Rightarrow> Some v, st (tl vs))"
      using e by (cases vs) (auto simp: Postorder_next_def st_def nth_append Suc_diff_le)
  qed
  moreover have "st (po_result po) = po" using assms by (simp add: st_def)
  ultimately show ?thesis by simp
qed

lemma Postorder_new_ok:
  assumes "Cfg_ok G" "root < length (cfg_data G)"
  shows "\<exists>po. Postorder_new G root = Some po \<and> po_index po = 0 \<and> distinct (po_result po) \<and>
    set (po_result po) = reached (succ_set G) root \<and> tree_listed (succ_set G) root (po_result po) \<and>
    post_ordered (succ_set G) {} [] (po_result po)"
proof -
  let ?S = "succ_set G" and ?n = "length (cfg_data G)"
  let ?po = "\<lparr>po_visited = BitSet_new_empty ?n, po_result = [], po_index = 0\<rparr>"
  have ok: "dfs_ok ?n ?po" using BitSet_new_empty_correct [of ?n] by (simp add: dfs_ok_def BitSet_new_empty_def)
  obtain po xs where run: "run_ops (Postorder_dfs G) [root] ?po = Some po" "dfs_ok ?n po" "dfs_lists ?S [root] ?po po xs"
    using dfs_all_ok [OF assms(1) ok, of "[root]"] assms(2) by auto
  have V0: "BitSet_elems (po_visited ?po) = {}" using BitSet_new_empty_correct by simp
  have D: "po_index po = 0" "po_result po = xs" "set xs = BitSet_elems (po_visited po)" "root \<in> set xs"
    "\<forall>x \<in> set xs. ?S x \<subseteq> set xs \<and> x \<in> reached ?S root" "post_ordered ?S {} [] xs"
    using run(3) V0 unfolding dfs_lists_def by auto
  have D9: "x = root \<or> (\<exists>p \<in> set zs. x \<in> ?S p)" if "xs = ys @ x # zs" for ys x zs
    using dfs_listsD(9) [OF run(3) that] by simp
  have new: "Postorder_new G root = Some po" using run(1) by (auto simp: Postorder_new_def bind_eq_Some_conv)
  have set: "set xs = reached ?S root"
  proof
    show "set xs \<subseteq> reached ?S root" using D(5) by blast
    show "reached ?S root \<subseteq> set xs"
      by (rule reached_least) (use D(4,5) in blast)+
  qed
  have tree: "tree_listed ?S root zs" if "xs = ys @ zs" "zs \<noteq> []" for ys zs
    using that
  proof (induction zs arbitrary: ys)
    case (Cons z zs)
    show ?case
    proof (cases "zs = []")
      case True
      with D9 [OF Cons.prems(1)] show ?thesis by simp
    next
      case False
      have listed: "tree_listed ?S root zs" using Cons.IH [of "ys @ [z]"] Cons.prems(1) False by simp
      have "distinct xs" using run(2) D(2) by (simp add: dfs_ok_def)
      then have "z \<notin> set zs" using Cons.prems(1) by simp
      moreover from this have "z \<noteq> root" using tree_listed_last [OF listed] last_in_set by auto
      ultimately show ?thesis using D9 [OF Cons.prems(1)] listed False by (auto simp: tree_listed_Cons)
    qed
  qed simp
  have "xs \<noteq> []" using set by auto
  then have "tree_listed ?S root xs" using tree [of "[]" xs] by simp
  moreover have "distinct xs" using run(2) D(2) by (simp add: dfs_ok_def)
  ultimately show ?thesis using new set D(1,2,6) by auto
qed

text \<open>
  C28: The post-order traversal from a block lists each block it reaches exactly once, the block itself
  last; a block stands after each of its successors, except the successors that lead back to it.
\<close>

theorem postorder_lists:
  assumes "Cfg_ok G" "root < length (cfg_data G)"
  shows "\<exists>po bs. Postorder_new G root = Some po \<and> drain Postorder_next po = Some bs \<and>
    distinct bs \<and> set bs = reached (succ_set G) root \<and> last bs = root \<and>
    (\<forall>ys x zs. bs = ys @ x # zs \<longrightarrow> (\<forall>s \<in> succ_set G x. s \<in> set ys \<or> x \<in> reached (succ_set G) s))"
proof -
  obtain po where po: "Postorder_new G root = Some po" "po_index po = 0" "distinct (po_result po)"
    "set (po_result po) = reached (succ_set G) root" "tree_listed (succ_set G) root (po_result po)"
    "post_ordered (succ_set G) {} [] (po_result po)"
    using Postorder_new_ok [OF assms] by blast
  then show ?thesis
    using drain_Postorder [OF po(2)] tree_listed_last [OF po(5)]
    by (intro exI [of _ po] exI [of _ "po_result po"]) (simp add: post_ordered_def)
qed

lemma drain_ReversePostorder:
  "drain ReversePostorder_next \<lparr>rpo_blocks = bs, rpo_idx = length bs\<rparr> = Some (rev bs)"
proof -
  define st where "st vs = \<lparr>rpo_blocks = bs, rpo_idx = length vs\<rparr>" for vs :: "block list"
  have "drain ReversePostorder_next (st (rev bs)) = Some (rev bs)"
  proof (rule drain_list)
    fix us vs assume "rev bs = us @ vs"
    then have e: "bs = rev vs @ rev us" using rev_append rev_swap by metis
    show "ReversePostorder_next (st vs) = Some (case vs of [] \<Rightarrow> None | v # _ \<Rightarrow> Some v, st (tl vs))"
      unfolding st_def ReversePostorder_next_def e by (cases vs) (simp_all add: nth_append)
  qed
  then show ?thesis by (simp add: st_def)
qed

text \<open>
  C27: The reverse post-order starts with the root and puts every block before its successors, except
  those that lead back to it; on a graph without cycles it is a topological order.
\<close>

theorem reverse_postorder_topological:
  assumes "Cfg_ok G" "root < length (cfg_data G)"
  shows "\<exists>r bs. ReversePostorder_new G root = Some r \<and> drain ReversePostorder_next r = Some bs \<and>
    distinct bs \<and> set bs = reached (succ_set G) root \<and> hd bs = root \<and>
    (\<forall>ys x zs. bs = ys @ x # zs \<longrightarrow> (\<forall>s \<in> succ_set G x. s \<in> set zs \<or> x \<in> reached (succ_set G) s))"
proof -
  obtain po where po: "Postorder_new G root = Some po" "po_index po = 0" "distinct (po_result po)"
    "set (po_result po) = reached (succ_set G) root" "tree_listed (succ_set G) root (po_result po)"
    "post_ordered (succ_set G) {} [] (po_result po)"
    using Postorder_new_ok [OF assms] by blast
  let ?bs = "po_result po"
  have "s \<in> set zs \<or> x \<in> reached (succ_set G) s" if e: "rev ?bs = ys @ x # zs" and s: "s \<in> succ_set G x" for ys x zs s
  proof -
    have "?bs = rev zs @ x # rev ys" using arg_cong [OF e, of rev] by simp
    with po(6) s have "s \<in> set [] \<union> set (rev zs) \<union> {} \<or> x \<in> reached (succ_set G) s"
      unfolding post_ordered_def by blast
    then show ?thesis by simp
  qed
  moreover have "hd (rev ?bs) = root" using tree_listed_last [OF po(5)] by (simp add: hd_rev)
  ultimately show ?thesis
    using po drain_Postorder [OF po(2)] drain_ReversePostorder [of ?bs]
    by (intro exI [of _ "\<lparr>rpo_blocks = ?bs, rpo_idx = length ?bs\<rparr>"] exI [of _ "rev ?bs"])
      (simp add: ReversePostorder_new_def)
qed

lemma edge_graph: "Cfg_ok \<lparr>cfg_data = [\<lparr>preds = [], succs = (Some 1, None)\<rparr>, \<lparr>preds = [0], succs = (None, None)\<rparr>], cfg_valid = True\<rparr>"
proof -
  define G where "G = \<lparr>cfg_data = [\<lparr>preds = [], succs = (Some 1, None)\<rparr>, \<lparr>preds = [0], succs = (None, None)\<rparr>], cfg_valid = True\<rparr>"
  have at: "succ_set G 0 = {1}" "succ_set G 1 = {}" by (simp_all add: G_def succ_set_def succ_at_def)
  have edge: "a < 2 \<and> x \<in> succ_set G a \<longleftrightarrow> a = 0 \<and> x = 1" for a x
    using at by (cases "a = 0"; cases "a = 1") auto
  have "\<forall>b < 2. oset_ok (preds (cfg_data G ! b)) \<and> succ_wf (succ_at G b) \<and> succ_set G b \<subseteq> {..<2} \<and>
      set (preds (cfg_data G ! b)) = {a. a < 2 \<and> b \<in> succ_set G a}"
    unfolding edge using at by (auto simp: less_2_cases_iff G_def succ_at_def oset_ok_def)
  moreover have "length (cfg_data G) = 2" by (simp add: G_def)
  ultimately have "Cfg_ok G" by (simp only: Cfg_ok_def)
  then show ?thesis by (simp add: G_def)
qed

theorem postorder_lists_witness:
  "\<exists>po bs. Postorder_new \<lparr>cfg_data = [\<lparr>preds = [], succs = (Some 1, None)\<rparr>, \<lparr>preds = [0], succs = (None, None)\<rparr>],
     cfg_valid = True\<rparr> 0 = Some po \<and> drain Postorder_next po = Some bs \<and> last bs = 0"
  using postorder_lists [OF edge_graph, of 0] by auto

theorem reverse_postorder_topological_witness:
  "\<exists>r bs. ReversePostorder_new \<lparr>cfg_data = [\<lparr>preds = [], succs = (Some 1, None)\<rparr>, \<lparr>preds = [0], succs = (None, None)\<rparr>],
     cfg_valid = True\<rparr> 0 = Some r \<and> drain ReversePostorder_next r = Some bs \<and> hd bs = 0"
  using reverse_postorder_topological [OF edge_graph, of 0] by auto

end
