(* ===== verification/Dfg_Spec.thy ===== *)
theory Dfg_Spec
  imports Dfg
begin

text \<open>
  What the data flow graph of \<^verbatim>\<open>openvaf/mir/src/dfg.rs\<close> promises: constants are interned, the
  iterators over the uses of a value yield exactly the operands that name it, and the operations
  that rewrite operands keep the chains of uses and the operands of the instructions in step.
\<close>

section \<open>Interned constants\<close>

text \<open>
  Every entry of the three tables points to a value that holds the constant; \<open>-0.0\<close> points to the
  value of \<open>0.0\<close>.
\<close>

definition holds_const :: "val_table \<Rightarrow> mir_value \<Rightarrow> value_data_type \<Rightarrow> bool" where
  "holds_const V v t \<longleftrightarrow> v < length (defs V) \<and> v_ty (defs V ! v) = t"

definition norm_zero :: "u64 \<Rightarrow> u64" where
  "norm_zero x = (if x = f64_neg f64_0 then f64_0 else x)"

definition Consts_ok :: "val_table \<Rightarrow> bool" where
  "Consts_ok V \<longleftrightarrow>
     (\<forall>x v. int_consts V x = Some v \<longrightarrow> holds_const V v (VIconst x)) \<and>
     (\<forall>x v. real_consts V x = Some v \<longrightarrow> holds_const V v (VFconst (norm_zero x))) \<and>
     (\<forall>x v. str_consts V x = Some v \<longrightarrow> holds_const V v (VSconst x)) \<and>
     real_consts V f64_0 = Some F_ZERO \<and> real_consts V (f64_neg f64_0) = Some F_ZERO \<and>
     holds_const V FALSE VFalse \<and> holds_const V TRUE VTrue"

lemma holds_const_append:
  "holds_const V v t \<Longrightarrow> defs V' = defs V @ ds \<Longrightarrow> holds_const V' v t"
  by (auto simp: holds_const_def nth_append)

text \<open>The constant a value table reads back for a constant put into it.\<close>

definition norm_const :: "mir_const \<Rightarrow> mir_const" where
  "norm_const c = (case c of CFloat x \<Rightarrow> CFloat (norm_zero x) | _ \<Rightarrow> c)"

lemma neg_zero: "f64_neg f64_0 \<noteq> f64_0"
  by (simp add: f64_neg_def f64_0_def)

lemma fconst_fresh:
  "Consts_ok V \<Longrightarrow> real_consts V x = None \<Longrightarrow> norm_zero x = x"
  using neg_zero by (auto simp: Consts_ok_def norm_zero_def)

lemma new_const_ok:
  assumes "Consts_ok V" and d: "defs V' = defs V @ [ValueData_new t None]"
  shows "int_consts V' = (int_consts V)(y \<mapsto> length (defs V)) \<Longrightarrow> real_consts V' = real_consts V \<Longrightarrow>
      str_consts V' = str_consts V \<Longrightarrow> t = VIconst y \<Longrightarrow> Consts_ok V'"
    and "int_consts V' = int_consts V \<Longrightarrow> real_consts V' = (real_consts V)(x \<mapsto> length (defs V)) \<Longrightarrow>
      str_consts V' = str_consts V \<Longrightarrow> t = VFconst x \<Longrightarrow> real_consts V x = None \<Longrightarrow> Consts_ok V'"
    and "int_consts V' = int_consts V \<Longrightarrow> real_consts V' = real_consts V \<Longrightarrow>
      str_consts V' = (str_consts V)(z \<mapsto> length (defs V)) \<Longrightarrow> t = VSconst z \<Longrightarrow> Consts_ok V'"
proof -
  note keep = holds_const_append [OF _ d]
  have new: "holds_const V' (length (defs V)) t" using d by (simp add: holds_const_def ValueData_new_def)
  show "Consts_ok V'" if "int_consts V' = (int_consts V)(y \<mapsto> length (defs V))" "real_consts V' = real_consts V"
    "str_consts V' = str_consts V" "t = VIconst y"
    using assms(1) that keep new by (simp add: Consts_ok_def)
  show "Consts_ok V'" if "int_consts V' = int_consts V" "real_consts V' = real_consts V"
    "str_consts V' = (str_consts V)(z \<mapsto> length (defs V))" "t = VSconst z"
    using assms(1) that keep new by (simp add: Consts_ok_def)
  show "Consts_ok V'" if r: "int_consts V' = int_consts V" "real_consts V' = (real_consts V)(x \<mapsto> length (defs V))"
    "str_consts V' = str_consts V" "t = VFconst x" "real_consts V x = None"
  proof -
    have "x \<noteq> f64_0" "x \<noteq> f64_neg f64_0" using assms(1) r(5) by (auto simp: Consts_ok_def)
    then show ?thesis
      using assms(1) r keep new fconst_fresh [OF assms(1) r(5)] by (simp add: Consts_ok_def)
  qed
qed

lemmas const_defs = DfgValues_make_const_def DfgValues_fconst_def DfgValues_iconst_def DfgValues_sconst_def

lemma make_const_ok:
  assumes ok: "Consts_ok V" and m: "DfgValues_make_const c V = (V', v)"
  shows "Consts_ok V' \<and> DfgValues_def V' v = Some (DefConst (norm_const c)) \<and>
    DfgValues_make_const c V' = (V', v) \<and> (\<exists>ds. defs V' = defs V @ ds)"
proof (cases c)
  case (CFloat x)
  show ?thesis
  proof (cases "real_consts V x")
    case None
    then show ?thesis
      using m CFloat ok new_const_ok(2) [OF ok, of V' "VFconst x" x] fconst_fresh [OF ok None]
      by (auto simp: const_defs DfgValues_def_def norm_const_def ValueData_new_def)
  next
    case (Some w)
    then have "holds_const V w (VFconst (norm_zero x))" using ok by (simp add: Consts_ok_def)
    then show ?thesis
      using m CFloat ok Some by (auto simp: const_defs DfgValues_def_def norm_const_def holds_const_def)
  qed
next
  case (CInt x)
  show ?thesis
  proof (cases "int_consts V x")
    case None
    then show ?thesis
      using m CInt ok new_const_ok(1) [OF ok, of V' "VIconst x" x]
      by (auto simp: const_defs DfgValues_def_def norm_const_def ValueData_new_def)
  next
    case (Some w)
    then have "holds_const V w (VIconst x)" using ok by (simp add: Consts_ok_def)
    then show ?thesis
      using m CInt ok Some by (auto simp: const_defs DfgValues_def_def norm_const_def holds_const_def)
  qed
next
  case (CStr x)
  show ?thesis
  proof (cases "str_consts V x")
    case None
    then show ?thesis
      using m CStr ok new_const_ok(3) [OF ok, of V' "VSconst x" x]
      by (auto simp: const_defs DfgValues_def_def norm_const_def ValueData_new_def)
  next
    case (Some w)
    then have "holds_const V w (VSconst x)" using ok by (simp add: Consts_ok_def)
    then show ?thesis
      using m CStr ok Some by (auto simp: const_defs DfgValues_def_def norm_const_def holds_const_def)
  qed
next
  case (CBool b)
  have "holds_const V FALSE VFalse" "holds_const V TRUE VTrue" using ok by (simp_all add: Consts_ok_def)
  then show ?thesis
    using m CBool ok by (cases b) (auto simp: const_defs DfgValues_def_def norm_const_def holds_const_def)
qed

text \<open>The table the graph starts with.\<close>

lemmas float_bits = f64_0_def f64_1_def f64_2_def f64_3_def f64_10_def f64_LN_2_def f64_LOG10_E_def
  f64_INFINITY_def f64_neg_def

lemma new_table:
  "\<exists>V. DfgValues_new = Some V \<and>
     map v_ty (defs V) = [VInvalid, VFalse, VTrue, VFconst f64_0, VIconst 0, VIconst 1, VFconst f64_1,
       VFconst (f64_neg f64_1), VFconst (f64_neg f64_LN_2), VFconst f64_LN_2, VFconst f64_LOG10_E, VFconst f64_2,
       VIconst (-1), VFconst f64_10, VFconst f64_3, VFconst f64_INFINITY] \<and>
     int_consts V = [0 \<mapsto> 4, 1 \<mapsto> 5, -1 \<mapsto> 12] \<and>
     real_consts V = [f64_0 \<mapsto> 3, f64_1 \<mapsto> 6, f64_neg f64_1 \<mapsto> 7, f64_neg f64_LN_2 \<mapsto> 8, f64_LN_2 \<mapsto> 9,
       f64_LOG10_E \<mapsto> 10, f64_2 \<mapsto> 11, f64_10 \<mapsto> 13, f64_3 \<mapsto> 14, f64_INFINITY \<mapsto> 15, f64_neg f64_0 \<mapsto> 3] \<and>
     str_consts V = Map.empty \<and> uses V = [] \<and> list_all (\<lambda>d. uses_head d = None \<and> uses_tail d = None) (defs V)"
  by (simp add: DfgValues_new_def CONSTS_def init_const_def DfgValues_fconst_def DfgValues_iconst_def
      DfgValues_make_def ValueData_new_def upd_def_def GRAVESTONE_def F_ZERO_def float_bits)
    (simp add: eval_nat_numeral)

lemma new_table_ok:
  assumes "DfgValues_new = Some V"
  shows "Consts_ok V" "uses V = []" "list_all (\<lambda>d. uses_head d = None \<and> uses_tail d = None) (defs V)"
    "length (defs V) = 16"
proof -
  let ?ts = "[VInvalid, VFalse, VTrue, VFconst f64_0, VIconst 0, VIconst 1, VFconst f64_1,
       VFconst (f64_neg f64_1), VFconst (f64_neg f64_LN_2), VFconst f64_LN_2, VFconst f64_LOG10_E, VFconst f64_2,
       VIconst (-1), VFconst f64_10, VFconst f64_3, VFconst f64_INFINITY]"
  from new_table obtain W where W: "DfgValues_new = Some W" "map v_ty (defs W) = ?ts"
    "int_consts W = [0 \<mapsto> 4, 1 \<mapsto> 5, -1 \<mapsto> 12]"
    "real_consts W = [f64_0 \<mapsto> 3, f64_1 \<mapsto> 6, f64_neg f64_1 \<mapsto> 7, f64_neg f64_LN_2 \<mapsto> 8, f64_LN_2 \<mapsto> 9,
       f64_LOG10_E \<mapsto> 10, f64_2 \<mapsto> 11, f64_10 \<mapsto> 13, f64_3 \<mapsto> 14, f64_INFINITY \<mapsto> 15, f64_neg f64_0 \<mapsto> 3]"
    "str_consts W = Map.empty" "uses W = []" "list_all (\<lambda>d. uses_head d = None \<and> uses_tail d = None) (defs W)"
    by (elim exE conjE) (rule that)
  have "Some W = Some V" by (rule trans [OF W(1) [symmetric] assms])
  then have "W = V" by simp
  note V = W(2-5) [unfolded this]
  show "uses V = []" "list_all (\<lambda>d. uses_head d = None \<and> uses_tail d = None) (defs V)"
    using W(6,7) by (simp_all only: \<open>W = V\<close>)
  show len: "length (defs V) = 16" using arg_cong [OF V(1), of length] by simp
  have holds: "holds_const V v t \<longleftrightarrow> v < 16 \<and> ?ts ! v = t" for v t
    using arg_cong [OF V(1), of "\<lambda>ts. ts ! v"] len by (auto simp: holds_const_def)
  show "Consts_ok V"
    unfolding Consts_ok_def holds V(2-4)
    by (simp add: float_bits norm_zero_def F_ZERO_def FALSE_def TRUE_def)
qed

lemma Dfg_new_ok:
  shows "\<exists>D. Dfg_new = Some D \<and> Dfg_ok D (\<lambda>_. []) \<and> Consts_ok (d_values D) \<and> length (defs (d_values D)) = 16 \<and>
    uses (d_values D) = [] \<and> declarations (d_insts D) = []"
proof -
  obtain V where V: "DfgValues_new = Some V" using new_table by blast
  note ok = new_table_ok [OF V]
  have "uhead V v = None \<and> utail V v = None" if "v < length (defs V)" for v
    using ok(3) that by (auto simp: chain_defs list_all_length)
  then have "Dfg_ok \<lparr>d_insts = DfgInsts_new, d_values = V, d_signatures = []\<rparr> (\<lambda>_. [])"
    by (simp add: Dfg_ok_def Chains_ok_def Operands_ok_def DfgInsts_new_def ok(2))
  moreover have "Dfg_new = Some \<lparr>d_insts = DfgInsts_new, d_values = V, d_signatures = []\<rparr>"
    by (simp add: Dfg_new_def V)
  ultimately show ?thesis using ok by (auto simp: DfgInsts_new_def)
qed


fun make_consts :: "mir_const list \<Rightarrow> val_table \<Rightarrow> val_table" where
  "make_consts [] V = V"
| "make_consts (c # cs) V = make_consts cs (fst (DfgValues_make_const c V))"

lemma make_consts_ok: "Consts_ok V \<Longrightarrow> Consts_ok (make_consts cs V)"
proof (induction cs arbitrary: V)
  case (Cons c cs)
  obtain V' v where m: "DfgValues_make_const c V = (V', v)" by force
  with make_const_ok [OF Cons.prems m] Cons.IH show ?case by simp
qed simp

text \<open>
  C14: constants are interned. In the graph's table, after any constants were made, a constant's
  value reads back as the constant (\<open>-0.0\<close> as \<open>0.0\<close>), making it again returns the same value and
  changes nothing, and two constants share a value only if they are equal up to the sign of zero.
\<close>

theorem constants_interned:
  assumes "DfgValues_new = Some V0" "V = make_consts cs V0" "DfgValues_make_const c V = (V1, v)"
    "DfgValues_make_const d V1 = (V2, w)"
  shows "DfgValues_def V1 v = Some (DefConst (norm_const c)) \<and> DfgValues_make_const c V1 = (V1, v) \<and>
    DfgValues_def V2 v = DfgValues_def V1 v \<and> (v = w \<longrightarrow> norm_const c = norm_const d)"
proof -
  have "Consts_ok V" using make_consts_ok new_table_ok(1) [OF assms(1)] assms(2) by simp
  note 1 = make_const_ok [OF this assms(3)]
  then have "Consts_ok V1" by blast
  note 2 = make_const_ok [OF this assms(4)]
  then obtain ds where ds: "defs V2 = defs V1 @ ds" by blast
  have "v < length (defs V1)" using 1 by (auto simp: DfgValues_def_def vec_get_def bind_eq_Some_conv split: if_splits)
  then have "DfgValues_def V2 v = DfgValues_def V1 v" using ds by (simp add: DfgValues_def_def nth_append)
  with 1 2 show ?thesis by auto
qed

theorem constants_interned_witness:
  "\<exists>V0 V1 v. DfgValues_new = Some V0 \<and> DfgValues_make_const (CFloat (f64_neg f64_0)) V0 = (V1, v) \<and>
     DfgValues_def V1 v = Some (DefConst (CFloat f64_0))"
proof -
  obtain V0 where V0: "DfgValues_new = Some V0" using new_table by blast
  obtain V1 v where m: "DfgValues_make_const (CFloat (f64_neg f64_0)) V0 = (V1, v)" by force
  obtain V2 w where "DfgValues_make_const (CInt 7) V1 = (V2, w)" by force
  from constants_interned [OF V0 _ m this, of "[]"] V0 m show ?thesis
    by (auto simp: norm_const_def norm_zero_def)
qed

section \<open>The uses of a value\<close>

lemma drain_uses:
  assumes "Chains_ok V I U" "v < length (defs V)"
  shows "drain (UseIter_next V) (first_of (U v) None) = Some (U v)"
  unfolding UseIter_next_def
  by (rule drain_list [where st = "\<lambda>vs. first_of vs None"])
    (use UseCursor_steps(1) [OF assms(1)] in \<open>auto simp: first_of_def\<close>)

text \<open>
  C11: in a graph whose chains are in order, iterating over the uses of a value yields, without
  repetition, exactly the attached operands that name the value.
\<close>

theorem uses_are_the_operands:
  assumes "Dfg_ok D U" "v < length (defs (d_values D))"
  shows "\<exists>cur us. DfgValues_uses (d_values D) v = Some cur \<and> drain (UseIter_next (d_values D)) cur = Some us \<and>
    distinct us \<and>
    set us = {u. u < length (uses (d_values D)) \<and> attached (uses (d_values D) ! u) \<and>
                 DfgValues_use_to_value (d_values D) u (d_insts D) = Some v}"
proof -
  have ok: "Chains_ok (d_values D) (d_insts D) U" using assms(1) by (simp add: Dfg_ok_def)
  have "u \<in> set (U v)" if u: "u < length (uses (d_values D))" "attached (uses (d_values D) ! u)"
    "DfgValues_use_to_value (d_values D) u (d_insts D) = Some v" for u
  proof -
    obtain x where x: "u \<in> set (U x)" using in_chain_iff_attached [OF ok u(1)] u(2) by blast
    with in_chain(4) [OF ok x] u(3) show ?thesis by simp
  qed
  then have "set (U v) = {u. u < length (uses (d_values D)) \<and> attached (uses (d_values D) ! u) \<and>
      DfgValues_use_to_value (d_values D) u (d_insts D) = Some v}"
    using in_chain [OF ok, of _ v] by blast
  moreover have "DfgValues_uses (d_values D) v = Some (first_of (U v) None)"
    using chain(3) [OF ok assms(2)] assms(2) by (simp add: DfgValues_uses_def DfgValues_uses_head_cursor_def uhead_def)
  ultimately show ?thesis using drain_uses [OF ok assms(2)] chain(2) [OF ok assms(2)] by blast
qed

text \<open>A small graph: \<open>fadd v3 v3\<close> and \<open>fneg v3\<close>.\<close>

lemma small_graph:
  "\<exists>D U. Dfg_ok D U \<and> length (defs (d_values D)) = 16 \<and> U 3 = [2, 1, 0] \<and> U 6 = [] \<and>
     map InstructionData_arguments (declarations (d_insts D)) = [[3, 3], [3]] \<and>
     length (uses (d_values D)) = 3 \<and> inst_operands (d_insts D) = [[0, 1], [2]]"
proof -
  obtain D where D: "Dfg_ok D (\<lambda>_. [])" "length (defs (d_values D)) = 16" "uses (d_values D) = []"
    "declarations (d_insts D) = []" using Dfg_new_ok by blast
  let ?a = "Binary OpFadd 3 3" and ?b = "Unary OpFneg 3"
  have args: "InstructionData_arguments ?a = [3, 3]" "InstructionData_arguments ?b = [3]"
    by (simp_all add: InstructionData_arguments_def)
  have nil: "inst_operands (d_insts D) = []"
    using D(1,4) operand_tables(1) [of "d_insts D" "d_values D"] by (simp add: Dfg_ok_def)
  obtain D1 where D1: "Dfg_ok D1 (push_uses 0 [3, 3] (\<lambda>_. []))" "length (defs (d_values D1)) = 16"
    "declarations (d_insts D1) = [?a]" "inst_operands (d_insts D1) = [[0, 1]]" "length (uses (d_values D1)) = 2"
    using Dfg_make_inst_ok [OF D(1), of ?a] D nil by (auto simp: args upt_rec)
  obtain D2 where D2: "Dfg_ok D2 (push_uses 2 [3] (push_uses 0 [3, 3] (\<lambda>_. [])))" "length (defs (d_values D2)) = 16"
    "declarations (d_insts D2) = [?a, ?b]" "inst_operands (d_insts D2) = [[0, 1], [2]]" "length (uses (d_values D2)) = 3"
    using Dfg_make_inst_ok [OF D1(1), of ?b] D1 by (auto simp: args upt_rec)
  let ?U = "push_uses 2 [3] (push_uses 0 [3, 3] (\<lambda>_. []))"
  show ?thesis
    by (intro exI [of _ D2] exI [of _ ?U]) (use D2 in \<open>simp add: args\<close>)
qed

theorem uses_are_the_operands_witness:
  "\<exists>(D :: dfg) us. drain (UseIter_next (d_values D)) (the (DfgValues_uses (d_values D) 3)) = Some us \<and>
     length (uses (d_values D)) = 3 \<and> distinct us"
proof -
  obtain D U where D: "Dfg_ok D U" "length (defs (d_values D)) = 16" "length (uses (d_values D)) = 3"
    using small_graph by blast
  have "(3::nat) < length (defs (d_values D))" using D(2) by simp
  from uses_are_the_operands [OF D(1) this] obtain cur us where
    "DfgValues_uses (d_values D) 3 = Some cur" "drain (UseIter_next (d_values D)) cur = Some us" "distinct us"
    by blast
  with D(3) show ?thesis by (intro exI [of _ D] exI [of _ us]) simp
qed

text \<open>
  C10: \<open>replace_uses\<close> redirects every attached operand that names the replaced value to the
  replacement, leaves the other operands alone, hands the chain of uses over in one splice, and
  keeps chains and operands in step; the replaced value has no use left.
\<close>

theorem replace_uses_redirects:
  assumes "Dfg_ok D U" "dst < length (defs (d_values D))" "src < length (defs (d_values D))" "dst \<noteq> src"
  shows "\<exists>D'. Dfg_replace_uses dst src D = Some D' \<and>
    Dfg_ok D' (U(src := U dst @ U src, dst := [])) \<and> DfgValues_is_dead (d_values D') dst = Some True \<and>
    (\<forall>u < length (uses (d_values D)). attached (uses (d_values D) ! u) \<longrightarrow>
       DfgValues_use_to_value (d_values D') u (d_insts D') =
         map_option (\<lambda>v. if v = dst then src else v) (DfgValues_use_to_value (d_values D) u (d_insts D)))"
proof -
  obtain D' where D': "Dfg_replace_uses dst src D = Some D'" "Dfg_ok D' (U(src := U dst @ U src, dst := []))"
    "length (defs (d_values D')) = length (defs (d_values D))"
    "\<forall>u < length (uses (d_values D)). attached (uses (d_values D) ! u) \<longrightarrow>
       DfgValues_use_to_value (d_values D') u (d_insts D') =
         map_option (\<lambda>v. if v = dst then src else v) (DfgValues_use_to_value (d_values D) u (d_insts D))"
    using Dfg_replace_uses_ok [OF assms] by blast
  then have "DfgValues_is_dead (d_values D') dst = Some True"
    using chain(3) [of "d_values D'" "d_insts D'" _ dst] assms(2)
    by (auto simp: Dfg_ok_def DfgValues_is_dead_def uhead_def)
  with D' show ?thesis by blast
qed

theorem replace_uses_redirects_witness:
  "\<exists>D D' U. Dfg_replace_uses 3 6 D = Some D' \<and> Dfg_ok D' U \<and> U 6 = [2, 1, 0] \<and> U 3 = []"
proof -
  obtain D U where D: "Dfg_ok D U" "length (defs (d_values D)) = 16" "U 3 = [2, 1, 0]" "U 6 = []"
    using small_graph by blast
  have "(3::nat) < length (defs (d_values D))" "(6::nat) < length (defs (d_values D))" "(3::nat) \<noteq> 6"
    using D(2) by simp_all
  from replace_uses_redirects [OF D(1) this] obtain D' where
    "Dfg_replace_uses 3 6 D = Some D'" "Dfg_ok D' (U(6 := U 3 @ U 6, 3 := []))" by blast
  with D(3,4) show ?thesis
    by (intro exI [of _ D] exI [of _ D'] exI [of _ "U(6 := U 3 @ U 6, 3 := [])"]) simp
qed

text \<open>
  C13: setting one operand of an instruction moves its use from the chain of the old value to the
  front of the new value's chain, and the operand names the new value.
\<close>

theorem set_operand_moves_use:
  assumes "Dfg_ok D U" "i < length (declarations (d_insts D))"
    and "k < length (InstructionData_arguments (declarations (d_insts D) ! i))"
    and "u = inst_operands (d_insts D) ! i ! k" "attached (uses (d_values D) ! u)"
    and "v < length (defs (d_values D))"
  shows "\<exists>D' w xs ys. U w = xs @ u # ys \<and> Dfg_set_operand_value v i k D = Some D' \<and>
    Dfg_ok D' ((U(w := xs @ ys))(v := u # (U(w := xs @ ys)) v)) \<and>
    DfgValues_use_to_value (d_values D') u (d_insts D') = Some v"
proof -
  let ?w = "InstructionData_arguments (declarations (d_insts D) ! i) ! k"
  have u: "u \<in> set (U ?w)" by (rule operand_in_chain [OF assms(1-5)])
  then obtain xs ys where xy: "U ?w = xs @ u # ys" by (auto simp: in_set_conv_decomp)
  have op: "Operands_ok (d_insts D) (d_values D)" using assms(1) by (simp add: Dfg_ok_def)
  have "i < length (inst_operands (d_insts D))" "k < length (inst_operands (d_insts D) ! i)"
    using operand_tables(1) [OF op] operand_at(1) [OF op assms(2,3)] assms(2,3) by simp_all
  then have "Dfg_set_operand_value v i k D = Dfg_use_set_value u v D"
    using assms(4) by (simp add: Dfg_set_operand_value_def DfgInsts_operands_def)
  with Dfg_use_set_value_ok [OF assms(1) u xy assms(6)] xy show ?thesis by metis
qed


theorem set_operand_moves_use_witness:
  "\<exists>D D'. length (declarations (d_insts D)) = 2 \<and> Dfg_set_operand_value 6 0 1 D = Some D' \<and>
     DfgValues_use_to_value (d_values D') 1 (d_insts D') = Some 6"
proof -
  obtain D U where D: "Dfg_ok D U" "length (defs (d_values D)) = 16" "U 3 = [2, 1, 0]"
    "map InstructionData_arguments (declarations (d_insts D)) = [[3, 3], [3]]" "inst_operands (d_insts D) = [[0, 1], [2]]"
    using small_graph by (elim exE conjE) (rule that)
  have n: "length (declarations (d_insts D)) = 2" using arg_cong [OF D(4), of length] by simp
  then have a: "InstructionData_arguments (declarations (d_insts D) ! 0) = [3, 3]"
    using arg_cong [OF D(4), of "\<lambda>xs. xs ! 0"] by simp
  have "attached (uses (d_values D) ! 1)"
    using D(1,3) in_chain(3) [of "d_values D" "d_insts D" U 1 3] by (simp add: Dfg_ok_def)
  moreover have "1 = inst_operands (d_insts D) ! 0 ! 1" "(0::nat) < length (declarations (d_insts D))"
    "1 < length (InstructionData_arguments (declarations (d_insts D) ! 0))" "(6::nat) < length (defs (d_values D))"
    using D(2,5) n a by simp_all
  ultimately show ?thesis
    using set_operand_moves_use [OF D(1), of 0 1 1 6] n by blast
qed

text \<open>
  C12: making an instruction gives it one use per argument, registered at the argument's position
  and put in front of the argument's chain; every other instruction and chain entry stays.
\<close>

theorem make_inst_registers:
  assumes "Dfg_ok D U" "\<forall>v \<in> set (InstructionData_arguments data). v < length (defs (d_values D))"
    and "length (InstructionData_arguments data) \<le> 2 ^ 16"
  shows "\<exists>D' n. Dfg_make_inst data D = Some (D', length (declarations (d_insts D))) \<and>
    n = length (uses (d_values D)) \<and> Dfg_ok D' (push_uses n (InstructionData_arguments data) U) \<and>
    declarations (d_insts D') = declarations (d_insts D) @ [data] \<and>
    inst_operands (d_insts D') = inst_operands (d_insts D) @ [[n..<n + length (InstructionData_arguments data)]]"
  using Dfg_make_inst_ok [OF assms] by blast

theorem make_inst_registers_witness:
  "\<exists>D D'. Dfg_new = Some D \<and> Dfg_make_inst (Binary OpFadd 3 6) D = Some (D', 0) \<and>
     inst_operands (d_insts D') = [[0, 1]]"
proof -
  obtain D where D: "Dfg_new = Some D" "Dfg_ok D (\<lambda>_. [])" "length (defs (d_values D)) = 16"
    "uses (d_values D) = []" "declarations (d_insts D) = []" using Dfg_new_ok by blast
  have "inst_operands (d_insts D) = []"
    using D(2,5) operand_tables(1) [of "d_insts D" "d_values D"] by (simp add: Dfg_ok_def)
  with D make_inst_registers [OF D(2), of "Binary OpFadd 3 6"] show ?thesis
    by (auto simp: InstructionData_arguments_def upt_rec)
qed

text \<open>
  clearing a graph drops the predefined constants: none of the fixed value numbers
  (\<open>TRUE\<close>, \<open>F_ZERO\<close>, \<open>\<dots>\<close>) denotes a value of the cleared graph.
\<close>

theorem clear_drops_constants:
  "DfgValues_def (d_values (Dfg_clear D)) v = None"
  by (simp add: Dfg_clear_def DfgValues_clear_def DfgValues_def_def)

end
