(* ===== verification/Bit_Set_Spec.thy ===== *)
theory Bit_Set_Spec
  imports Bit_Set
begin

text \<open>
  The contract of the dense bit set of \<^verbatim>\<open>lib/bitset/src/lib.rs\<close>: a subset of a domain, with
  the flags the operations return collected in a log. \<open>set_step\<close> calls the modelled code,
  \<open>set_spec_step\<close> is the effect on the set (\<open>None\<close> where an element or an operand lies outside the
  domain); the simulation locale gives the refinement for every sequence of operations.
\<close>

section \<open>Operations\<close>

datatype set_op =
    SetInsert nat
  | SetRemove nat
  | SetContains nat
  | SetClear
  | SetInsertAll
  | SetInverse
  | SetUnion bit_set
  | SetSubtract bit_set
  | SetIntersect bit_set
  | SetSuperset bit_set
  | SetIsEmpty
  | SetExtend "nat list"
  | SetCopyFrom bit_set
  | SetReverseUnionSparse "nat list"
  | SetSizeEnable nat
  | SetEnsure nat

type_synonym logged_set = "bit_set \<times> bool list"

definition with_flag :: "(bit_set \<times> bool) panics \<Rightarrow> bool list \<Rightarrow> logged_set panics" where
  "with_flag r lg = map_option (\<lambda>(s, c). (s, lg @ [c])) r"

definition no_flag :: "bit_set panics \<Rightarrow> bool list \<Rightarrow> logged_set panics" where
  "no_flag r lg = map_option (\<lambda>s. (s, lg)) r"

definition set_step :: "set_op \<Rightarrow> logged_set \<Rightarrow> logged_set panics" where
  "set_step x st =
     (let (s, lg) = st in
      case x of
        SetInsert e \<Rightarrow> with_flag (BitSet_insert e s) lg
      | SetRemove e \<Rightarrow> with_flag (BitSet_remove e s) lg
      | SetContains e \<Rightarrow> map_option (\<lambda>c. (s, lg @ [c])) (BitSet_contains s e)
      | SetClear \<Rightarrow> Some (BitSet_clear s, lg)
      | SetInsertAll \<Rightarrow> no_flag (BitSet_insert_all s) lg
      | SetInverse \<Rightarrow> no_flag (BitSet_inverse s) lg
      | SetUnion t \<Rightarrow> with_flag (BitSet_union_into t s) lg
      | SetSubtract t \<Rightarrow> with_flag (BitSet_subtract_from t s) lg
      | SetIntersect t \<Rightarrow> with_flag (BitSet_intersect s t) lg
      | SetSuperset t \<Rightarrow> Some (s, lg @ [BitSet_superset s t])
      | SetIsEmpty \<Rightarrow> Some (s, lg @ [BitSet_is_empty s])
      | SetExtend xs \<Rightarrow> no_flag (BitSet_extend s xs) lg
      | SetCopyFrom t \<Rightarrow> no_flag (BitSet_copy_from s t) lg
      | SetReverseUnionSparse xs \<Rightarrow> with_flag (BitSet_reverse_union_sparse s xs) lg
      | SetSizeEnable d \<Rightarrow> no_flag (BitSet_set_size_enable s d) lg
      | SetEnsure d \<Rightarrow> Some (BitSet_ensure s d, lg))"

text \<open>The abstract state: the domain size, the set and the log of the flags.\<close>

record set_spec =
  dom_size :: nat
  members :: "nat set"
  flags :: "bool list"

definition logs :: "bool \<Rightarrow> nat set \<Rightarrow> set_spec \<Rightarrow> set_spec option" where
  "logs c A S = Some (S\<lparr>members := A, flags := flags S @ [c]\<rparr>)"

definition operand :: "set_spec \<Rightarrow> bit_set \<Rightarrow> bool" where
  "operand S t \<longleftrightarrow> BitSet_wf t \<and> domain_size t = dom_size S"

definition set_spec_step :: "set_op \<Rightarrow> set_spec \<Rightarrow> set_spec option" where
  "set_spec_step x S =
     (let A = members S; d = dom_size S in
      case x of
        SetInsert e \<Rightarrow> if e < d then logs (e \<notin> A) (insert e A) S else None
      | SetRemove e \<Rightarrow> if e < d then logs (e \<in> A) (A - {e}) S else None
      | SetContains e \<Rightarrow> if e < d then logs (e \<in> A) A S else None
      | SetClear \<Rightarrow> Some (S\<lparr>members := {}\<rparr>)
      | SetInsertAll \<Rightarrow> Some (S\<lparr>members := {..<d}\<rparr>)
      | SetInverse \<Rightarrow> Some (S\<lparr>members := {..<d} - A\<rparr>)
      | SetUnion t \<Rightarrow>
          if operand S t then logs (\<not> BitSet_elems t \<subseteq> A) (A \<union> BitSet_elems t) S else None
      | SetSubtract t \<Rightarrow>
          if operand S t then logs (BitSet_elems t \<inter> A \<noteq> {}) (A - BitSet_elems t) S else None
      | SetIntersect t \<Rightarrow>
          if operand S t then logs (\<not> A \<subseteq> BitSet_elems t) (A \<inter> BitSet_elems t) S else None
      | SetSuperset t \<Rightarrow> if operand S t then logs (BitSet_elems t \<subseteq> A) A S else None
      | SetIsEmpty \<Rightarrow> logs (A = {}) A S
      | SetExtend xs \<Rightarrow> if \<forall>x \<in> set xs. x < d then Some (S\<lparr>members := A \<union> set xs\<rparr>) else None
      | SetCopyFrom t \<Rightarrow> if operand S t then Some (S\<lparr>members := BitSet_elems t\<rparr>) else None
      | SetReverseUnionSparse xs \<Rightarrow>
          if 0 < d \<and> sorted xs \<and> (\<forall>x \<in> set xs. x < d)
          then logs (\<not> A \<subseteq> set xs) (A \<union> set xs) S else None
      | SetSizeEnable n \<Rightarrow> Some (S\<lparr>dom_size := n, members := {..<n}\<rparr>)
      | SetEnsure n \<Rightarrow> Some (S\<lparr>dom_size := max d n\<rparr>))"

definition set_rel :: "logged_set \<Rightarrow> set_spec \<Rightarrow> bool" where
  "set_rel st S \<longleftrightarrow> BitSet_wf (fst st) \<and> domain_size (fst st) = dom_size S \<and>
     BitSet_elems (fst st) = members S \<and> snd st = flags S"

section \<open>Refinement\<close>

lemma set_rel_same_size:
  assumes "set_rel (s, lg) S" "same_size s s'" "BitSet_elems s' = A" "A \<subseteq> {..<dom_size S}"
  shows "set_rel (s', lg @ cs) (S\<lparr>members := A, flags := flags S @ cs\<rparr>)"
  using assms BitSet_wf_same_size [of s s'] by (auto simp: set_rel_def same_size_def)

lemma flagged_sim:
  assumes "set_rel (s, lg) S" "\<exists>s'. m = Some (s', c) \<and> BitSet_elems s' = A \<and> same_size s s'" "A \<subseteq> {..<dom_size S}"
    and "S' = S\<lparr>members := A, flags := flags S @ [c]\<rparr>"
  shows "\<exists>st'. with_flag m lg = Some st' \<and> set_rel st' S'"
  using assms(2) set_rel_same_size [OF assms(1) _ _ assms(3), of _ "[c]"] by (auto simp: with_flag_def assms(4))

lemma unflagged_sim:
  assumes "set_rel (s, lg) S" "\<exists>s'. m = Some s' \<and> BitSet_elems s' = A \<and> same_size s s'" "A \<subseteq> {..<dom_size S}"
    and "S' = S\<lparr>members := A\<rparr>"
  shows "\<exists>st'. no_flag m lg = Some st' \<and> set_rel st' S'"
  using assms(2) set_rel_same_size [OF assms(1) _ _ assms(3), of _ "[]"] by (auto simp: no_flag_def assms(4))

lemma query_sim:
  assumes "set_rel (s, lg) S" "S' = S\<lparr>flags := flags S @ [c]\<rparr>"
  shows "set_rel (s, lg @ [c]) S'"
  using assms by (simp add: set_rel_def)

lemma set_step_sim:
  assumes "set_rel st S" "set_spec_step x S = Some S'"
  shows "\<exists>st'. set_step x st = Some st' \<and> set_rel st' S'"
proof -
  obtain s lg where st: "st = (s, lg)" by force
  note rel = assms(1) [unfolded st]
  have r: "BitSet_wf s" "domain_size s = dom_size S" "BitSet_elems s = members S" "lg = flags S"
    using rel by (simp_all add: set_rel_def)
  have sub: "members S \<subseteq> {..<dom_size S}" using r by (auto simp: BitSet_wf_def)
  have len: "length (words s) = num_words (dom_size S)" using r by (simp add: BitSet_wf_def)
  have inw: "in_words e s" if "e < dom_size S" for e using BitSet_wf_in_words [OF r(1)] r(2) that by simp
  have idx: "e div 64 < length (words s)" if "e < dom_size S" for e using inw [OF that] by (simp add: in_words_def)
  have op: "length (words t) = length (words s)" "BitSet_elems t \<subseteq> {..<dom_size S}" if "operand S t" for t
    using that len by (auto simp: operand_def BitSet_wf_def)
  note step = set_step_def set_spec_step_def st logs_def Let_def
  note flagged = flagged_sim [OF rel] and unflagged = unflagged_sim [OF rel] and query = query_sim [OF rel]
  show ?thesis
  proof (cases x)
    case (SetInsert e)
    then have e: "e < dom_size S" "S' = S\<lparr>members := insert e (members S), flags := flags S @ [e \<notin> members S]\<rparr>"
      using assms(2) by (auto simp: step split: if_splits)
    have "\<exists>st'. with_flag (BitSet_insert e s) lg = Some st' \<and> set_rel st' S'"
      using BitSet_insert_correct [OF idx [OF e(1)]] e(1) sub
      by (intro flagged [OF _ _ e(2)]) (auto simp: r(3) same_size_def)
    then show ?thesis by (simp add: step SetInsert)
  next
    case (SetRemove e)
    then have e: "e < dom_size S" "S' = S\<lparr>members := members S - {e}, flags := flags S @ [e \<in> members S]\<rparr>"
      using assms(2) by (auto simp: step split: if_splits)
    have "\<exists>st'. with_flag (BitSet_remove e s) lg = Some st' \<and> set_rel st' S'"
      using BitSet_remove_correct [OF idx [OF e(1)]] sub
      by (intro flagged [OF _ _ e(2)]) (auto simp: r(3) same_size_def)
    then show ?thesis by (simp add: step SetRemove)
  next
    case (SetContains e)
    then have e: "e < dom_size S" "S' = S\<lparr>flags := flags S @ [e \<in> members S]\<rparr>"
      using assms(2) by (auto simp: step split: if_splits)
    then show ?thesis
      using BitSet_contains_correct [OF idx [OF e(1)]] query [OF e(2)] by (simp add: step SetContains r(3))
  next
    case SetClear
    then show ?thesis
      using assms(2) BitSet_clear_correct [of s] set_rel_same_size [OF rel, of "BitSet_clear s" "{}" "[]"] by (auto simp: step)
  next
    case SetInsertAll
    then show ?thesis
      using assms(2) BitSet_insert_all_correct [OF r(1)] r by (auto simp: step no_flag_def set_rel_def)
  next
    case SetInverse
    then show ?thesis
      using assms(2) BitSet_inverse_correct [OF r(1)] r by (auto simp: step no_flag_def set_rel_def)
  next
    case (SetUnion t)
    then have t: "operand S t"
      "S' = S\<lparr>members := members S \<union> BitSet_elems t, flags := flags S @ [\<not> BitSet_elems t \<subseteq> members S]\<rparr>"
      using assms(2) by (auto simp: step split: if_splits)
    have "\<exists>st'. with_flag (BitSet_union_into t s) lg = Some st' \<and> set_rel st' S'"
      using BitSet_union_into_correct [of t s] op [OF t(1)] sub by (intro flagged [OF _ _ t(2)]) (auto simp: r(3))
    then show ?thesis by (simp add: step SetUnion)
  next
    case (SetSubtract t)
    then have t: "operand S t"
      "S' = S\<lparr>members := members S - BitSet_elems t, flags := flags S @ [BitSet_elems t \<inter> members S \<noteq> {}]\<rparr>"
      using assms(2) by (auto simp: step split: if_splits)
    have "\<exists>st'. with_flag (BitSet_subtract_from t s) lg = Some st' \<and> set_rel st' S'"
      using BitSet_subtract_from_correct [of t s] op [OF t(1)] sub by (intro flagged [OF _ _ t(2)]) (auto simp: r(3))
    then show ?thesis by (simp add: step SetSubtract)
  next
    case (SetIntersect t)
    then have t: "operand S t"
      "S' = S\<lparr>members := members S \<inter> BitSet_elems t, flags := flags S @ [\<not> members S \<subseteq> BitSet_elems t]\<rparr>"
      using assms(2) by (auto simp: step split: if_splits)
    have "\<exists>st'. with_flag (BitSet_intersect s t) lg = Some st' \<and> set_rel st' S'"
      using BitSet_intersect_correct [of t s] op [OF t(1)] sub by (intro flagged [OF _ _ t(2)]) (auto simp: r(3))
    then show ?thesis by (simp add: step SetIntersect)
  next
    case (SetSuperset t)
    then have t: "operand S t" "S' = S\<lparr>flags := flags S @ [BitSet_elems t \<subseteq> members S]\<rparr>"
      using assms(2) by (auto simp: step split: if_splits)
    then show ?thesis
      using BitSet_superset_correct [OF op(1) [OF t(1)]] query [OF t(2)] by (simp add: step SetSuperset r(3))
  next
    case SetIsEmpty
    then have "S' = S\<lparr>flags := flags S @ [members S = {}]\<rparr>" using assms(2) by (simp add: step)
    then show ?thesis
      using BitSet_is_empty_correct [of s] query by (simp add: step SetIsEmpty r(3))
  next
    case (SetExtend xs)
    then have e: "\<forall>x \<in> set xs. x < dom_size S" "S' = S\<lparr>members := members S \<union> set xs\<rparr>"
      using assms(2) by (auto simp: step split: if_splits)
    have "\<exists>st'. no_flag (BitSet_extend s xs) lg = Some st' \<and> set_rel st' S'"
      using BitSet_extend_correct [of xs s] inw e(1) sub by (intro unflagged [OF _ _ e(2)]) (auto simp: r(3))
    then show ?thesis by (simp add: step SetExtend)
  next
    case (SetCopyFrom t)
    then have t: "operand S t" "S' = S\<lparr>members := BitSet_elems t\<rparr>"
      using assms(2) by (auto simp: step split: if_splits)
    have "\<exists>st'. no_flag (BitSet_copy_from s t) lg = Some st' \<and> set_rel st' S'"
      using BitSet_copy_from_correct [OF op(1) [OF t(1), symmetric]] op(2) [OF t(1)]
      by (intro unflagged [OF _ _ t(2)]) auto
    then show ?thesis by (simp add: step SetCopyFrom)
  next
    case (SetReverseUnionSparse xs)
    then have xs: "0 < dom_size S" "sorted xs" "\<forall>x \<in> set xs. x < dom_size S"
      and S': "S' = S\<lparr>members := members S \<union> set xs, flags := flags S @ [\<not> members S \<subseteq> set xs]\<rparr>"
      using assms(2) by (auto simp: step split: if_splits)
    have ne: "words s \<noteq> []" using len xs(1) num_words_bound [of 0 "dom_size S"] by auto
    have "\<forall>x \<in> set xs. in_words x s" using xs(3) inw by blast
    from BitSet_reverse_union_sparse_correct [OF r(1) ne xs(2) this]
    have "\<exists>st'. with_flag (BitSet_reverse_union_sparse s xs) lg = Some st' \<and> set_rel st' S'"
      using xs(3) sub by (intro flagged [OF _ _ S']) (auto simp: r(3))
    then show ?thesis by (simp add: step SetReverseUnionSparse)
  next
    case (SetSizeEnable d)
    then show ?thesis
      using assms(2) BitSet_set_size_enable_correct [of s d] r by (auto simp: step no_flag_def set_rel_def)
  next
    case (SetEnsure d)
    then show ?thesis
      using assms(2) BitSet_ensure_correct [OF r(1), of d] r by (auto simp: step set_rel_def)
  qed
qed

interpretation set_sim: simulation set_step set_spec_step set_rel
  by unfold_locales (rule set_step_sim)

text \<open>
  C15: every sequence of bit set operations whose elements and operands lie in the domain runs
  without a panic, computes the set operations it stands for, returns the flags that say whether
  the set changed (or the queried fact), and keeps the unused high bits of the last word clear.
\<close>

theorem bit_set_refines:
  assumes "run_ops set_spec_step ops \<lparr>dom_size = d, members = {}, flags = []\<rparr> = Some S"
  shows "\<exists>s. run_ops set_step ops (BitSet_new_empty d, []) = Some (s, flags S) \<and>
    BitSet_wf s \<and> BitSet_elems s = members S \<and> domain_size s = dom_size S"
proof -
  have "set_rel (BitSet_new_empty d, []) \<lparr>dom_size = d, members = {}, flags = []\<rparr>"
    using BitSet_new_empty_correct by (simp add: set_rel_def) (simp add: BitSet_new_empty_def)
  from set_sim.run_sim [OF this assms] show ?thesis by (auto simp: set_rel_def)
qed

theorem bit_set_refines_witness:
  "\<exists>s. run_ops set_step [SetInsert 3, SetInsert 70, SetReverseUnionSparse [3, 64], SetInverse, SetRemove 64]
         (BitSet_new_empty 72, []) = Some (s, [True, True, True, False]) \<and>
     BitSet_elems s = {..<72} - {3, 64, 70}"
proof -
  have "run_ops set_spec_step [SetInsert 3, SetInsert 70, SetReverseUnionSparse [3, 64], SetInverse, SetRemove 64]
      \<lparr>dom_size = 72, members = {}, flags = []\<rparr> =
      Some \<lparr>dom_size = 72, members = {..<72} - {3, 64, 70} - {64}, flags = [True, True, True, False]\<rparr>"
    by (auto simp: set_spec_step_def logs_def)
  from bit_set_refines [OF this] show ?thesis by auto
qed

text \<open>
  the iterator of a bit set yields its elements in ascending order and \<open>count\<close> is their number.
\<close>

theorem bit_set_iterates:
  assumes "64 * length (words s) \<le> 2 ^ 64"
  shows "BitIter_collect (BitSet_iter s) = sorted_list_of_set (BitSet_elems s) \<and>
    BitSet_count s = length (BitIter_collect (BitSet_iter s))"
  using BitSet_iter_correct [OF assms] by (simp add: BitSet_count_correct)

theorem bit_set_iterates_witness:
  "BitIter_collect (BitSet_iter (fst (the (BitSet_insert 65 (BitSet_new_empty 70))))) = [65]"
proof -
  obtain s where s: "BitSet_insert 65 (BitSet_new_empty 70) = Some (s, True)" "BitSet_elems s = {65}"
    "length (words s) = 2"
    using BitSet_insert_correct [of 65 "BitSet_new_empty 70"]
    by (auto simp: BitSet_new_empty_correct) (auto simp: BitSet_new_empty_def num_words_def)
  then show ?thesis using bit_set_iterates [of s] by simp
qed

text \<open>
  \<open>clone_from\<close> between sets of different domain sizes panics as soon as the source's domain has
  two elements: it resizes the words to the domain size, not to the number of words it needs.
\<close>

theorem clone_from_panics:
  assumes "domain_size self \<noteq> domain_size from" "BitSet_wf from"
  shows "BitSet_clone_from self from = None \<longleftrightarrow> 2 \<le> domain_size from"
  by (rule BitSet_clone_from_other_domain [OF assms])

theorem clone_from_panics_witness:
  "BitSet_clone_from (BitSet_new_empty 1) (BitSet_new_empty 5) = None"
  using clone_from_panics [of "BitSet_new_empty 1" "BitSet_new_empty 5"] BitSet_new_empty_correct
  by (simp add: BitSet_new_empty_def)

end
