(* ===== verification/Work_Queue.thy ===== *)
theory Work_Queue
  imports Bit_Set
begin

text \<open>
  The de-duplicating work lists of \<^verbatim>\<open>lib/workqueue/src/lib.rs\<close>: \<open>WorkQueue\<close> (first in,
  first out) and \<open>WorkStack\<close> (last in, first out), each a list of elements with a dense bit set
  that remembers what was inserted. Elements are their indices, a \<open>VecDeque\<close> and a \<open>Vec\<close> are
  lists. The contract they need of the set is the locale \<open>dedup_set\<close>, interpreted on \<open>BitSet\<close>.
\<close>

section \<open>The code\<close>

record work_queue =
  deque :: "nat list"
  occupied :: bit_set

definition WorkQueue_with_all :: "nat \<Rightarrow> work_queue panics" where
  "WorkQueue_with_all n = do { s \<leftarrow> BitSet_new_filled n; Some \<lparr>deque = [0..<n], occupied = s\<rparr> }"

definition WorkQueue_with_none :: "nat \<Rightarrow> work_queue" where
  "WorkQueue_with_none n = \<lparr>deque = [], occupied = BitSet_new_empty n\<rparr>"

definition WorkQueue_insert :: "nat \<Rightarrow> work_queue \<Rightarrow> (work_queue \<times> bool) panics" where
  "WorkQueue_insert x q =
     do { (s, inserted) \<leftarrow> BitSet_insert x (occupied q);
          Some (if inserted then (q\<lparr>deque := deque q @ [x], occupied := s\<rparr>, True)
                else (q\<lparr>occupied := s\<rparr>, False)) }"

definition WorkQueue_pop :: "work_queue \<Rightarrow> (work_queue \<times> nat option) panics" where
  "WorkQueue_pop q =
     (case deque q of
        x # xs \<Rightarrow> do { (s, _) \<leftarrow> BitSet_remove x (occupied q);
                     Some (q\<lparr>deque := xs, occupied := s\<rparr>, Some x) }
      | [] \<Rightarrow> Some (q, None))"

definition WorkQueue_take :: "work_queue \<Rightarrow> work_queue \<times> nat option" where
  "WorkQueue_take q =
     (case deque q of x # xs \<Rightarrow> (q\<lparr>deque := xs\<rparr>, Some x) | [] \<Rightarrow> (q, None))"

definition WorkQueue_is_empty :: "work_queue \<Rightarrow> bool" where
  "WorkQueue_is_empty q \<longleftrightarrow> deque q = []"

definition WorkQueue_clear :: "work_queue \<Rightarrow> work_queue" where
  "WorkQueue_clear q = q\<lparr>deque := [], occupied := BitSet_clear (occupied q)\<rparr>"

text \<open>\<open>iter.filter(|x| set.insert(*x))\<close>, consumed by the \<open>extend\<close> of the list.\<close>

fun filter_insert :: "('a \<Rightarrow> 's \<Rightarrow> ('s \<times> bool) panics) \<Rightarrow> 'a list \<Rightarrow> 's \<Rightarrow> ('a list \<times> 's) panics" where
  "filter_insert ins [] s = Some ([], s)"
| "filter_insert ins (x # xs) s =
     do { (s, inserted) \<leftarrow> ins x s;
          (ys, s) \<leftarrow> filter_insert ins xs s;
          Some (if inserted then x # ys else ys, s) }"

definition WorkQueue_extend :: "work_queue \<Rightarrow> nat list \<Rightarrow> work_queue panics" where
  "WorkQueue_extend q xs =
     do { (ys, s) \<leftarrow> filter_insert BitSet_insert xs (occupied q);
          Some (q\<lparr>deque := deque q @ ys, occupied := s\<rparr>) }"

definition WorkQueue_from :: "bit_set \<Rightarrow> work_queue" where
  "WorkQueue_from s = \<lparr>deque = BitIter_collect (BitSet_iter s), occupied = s\<rparr>"

text \<open>The debug text; \<open>dbg\<close> is the element type's own formatter.\<close>

definition WorkQueue_fmt :: "(nat \<Rightarrow> string) \<Rightarrow> work_queue \<Rightarrow> string" where
  "WorkQueue_fmt dbg q = ''['' @ concat (map (\<lambda>x. dbg x @ '' , '') (deque q)) @ '']''"

record work_stack =
  stack :: "nat list"
  stacked :: bit_set

definition WorkStack_with_all :: "nat \<Rightarrow> work_stack panics" where
  "WorkStack_with_all n = do { s \<leftarrow> BitSet_new_filled n; Some \<lparr>stack = [0..<n], stacked = s\<rparr> }"

definition WorkStack_with_none :: "nat \<Rightarrow> work_stack" where
  "WorkStack_with_none n = \<lparr>stack = [], stacked = BitSet_new_empty n\<rparr>"

definition WorkStack_insert :: "nat \<Rightarrow> work_stack \<Rightarrow> (work_stack \<times> bool) panics" where
  "WorkStack_insert x q =
     do { (s, inserted) \<leftarrow> BitSet_insert x (stacked q);
          Some (if inserted then (q\<lparr>stack := stack q @ [x], stacked := s\<rparr>, True)
                else (q\<lparr>stacked := s\<rparr>, False)) }"

text \<open>\<open>Vec::pop\<close> takes the last element.\<close>

definition WorkStack_pop :: "work_stack \<Rightarrow> (work_stack \<times> nat option) panics" where
  "WorkStack_pop q =
     (if stack q = [] then Some (q, None)
      else do { (s, _) \<leftarrow> BitSet_remove (last (stack q)) (stacked q);
                Some (q\<lparr>stack := butlast (stack q), stacked := s\<rparr>, Some (last (stack q))) })"

definition WorkStack_take :: "work_stack \<Rightarrow> work_stack \<times> nat option" where
  "WorkStack_take q =
     (if stack q = [] then (q, None) else (q\<lparr>stack := butlast (stack q)\<rparr>, Some (last (stack q))))"

definition WorkStack_is_empty :: "work_stack \<Rightarrow> bool" where
  "WorkStack_is_empty q \<longleftrightarrow> stack q = []"

definition WorkStack_clear :: "work_stack \<Rightarrow> work_stack" where
  "WorkStack_clear q = q\<lparr>stack := [], stacked := BitSet_clear (stacked q)\<rparr>"

definition WorkStack_extend :: "work_stack \<Rightarrow> nat list \<Rightarrow> work_stack panics" where
  "WorkStack_extend q xs =
     do { (ys, s) \<leftarrow> filter_insert BitSet_insert xs (stacked q);
          Some (q\<lparr>stack := stack q @ ys, stacked := s\<rparr>) }"

definition WorkStack_from :: "bit_set \<Rightarrow> work_stack" where
  "WorkStack_from s = \<lparr>stack = BitIter_collect (BitSet_iter s), stacked = s\<rparr>"

definition WorkStack_fmt :: "(nat \<Rightarrow> string) \<Rightarrow> work_stack \<Rightarrow> string" where
  "WorkStack_fmt dbg q = ''['' @ concat (map (\<lambda>x. dbg x @ '' , '') (stack q)) @ '']''"

section \<open>The contract of the set and the invariant of the lists\<close>

text \<open>
  The list has no duplicates, and the set holds its elements together with those taken for good
  (\<open>don\<close>), which are not in the list.
\<close>

definition queued :: "'a list \<Rightarrow> 'a set \<Rightarrow> 'a set \<Rightarrow> bool" where
  "queued dq A don \<longleftrightarrow> distinct dq \<and> A = set dq \<union> don \<and> set dq \<inter> don = {}"

text \<open>The elements of a sequence that are new at their first occurrence.\<close>

fun new_ones :: "'a list \<Rightarrow> 'a set \<Rightarrow> 'a list" where
  "new_ones [] A = []"
| "new_ones (x # xs) A = (if x \<in> A then new_ones xs A else x # new_ones xs (insert x A))"

lemma set_new_ones: "set (new_ones xs A) = set xs - A"
  by (induction xs arbitrary: A) auto

lemma distinct_new_ones: "distinct (new_ones xs A)"
  by (induction xs arbitrary: A) (auto simp: set_new_ones)

lemma queued_insert:
  "queued dq A don \<Longrightarrow> queued (if x \<in> A then dq else dq @ [x]) (A \<union> {x}) don"
  by (auto simp: queued_def)

lemma queued_remove:
  "queued (xs @ x # ys) A don \<Longrightarrow> queued (xs @ ys) (A - {x}) don"
  by (auto simp: queued_def)

lemma queued_take:
  "queued (xs @ x # ys) A don \<Longrightarrow> queued (xs @ ys) A (insert x don) \<and> x \<notin> don"
  by (auto simp: queued_def)

lemma queued_extend:
  "queued dq A don \<Longrightarrow> queued (dq @ new_ones xs A) (A \<union> set xs) don"
  by (auto simp: queued_def set_new_ones distinct_new_ones)

locale dedup_set =
  ins: flagged_update ins abs ok keeps "\<lambda>X A. A \<union> X" +
  rem: flagged_update rem abs ok keeps "\<lambda>X A. A - X"
  for ins rem :: "'a \<Rightarrow> 's \<Rightarrow> ('s \<times> bool) panics"
    and abs :: "'s \<Rightarrow> 'a set" and ok :: "'a \<Rightarrow> 's \<Rightarrow> bool" and keeps :: "'s \<Rightarrow> 's \<Rightarrow> bool"
begin

lemma insert_queued:
  assumes "ok x s" "queued dq (abs s) don"
  shows "\<exists>s'. ins x s = Some (s', x \<notin> abs s) \<and> keeps s s' \<and>
    queued (if x \<in> abs s then dq else dq @ [x]) (abs s') don"
proof -
  obtain s' where s': "ins x s = Some (s', abs s' \<noteq> abs s)" "abs s' = abs s \<union> {x}" "keeps s s'"
    using ins.op_ok [OF assms(1)] by blast
  then show ?thesis using queued_insert [OF assms(2), of x] by auto
qed

lemma remove_queued:
  assumes "ok x s" "queued (xs @ x # ys) (abs s) don"
  shows "\<exists>s' c. rem x s = Some (s', c) \<and> keeps s s' \<and> abs s' = abs s - {x} \<and> queued (xs @ ys) (abs s') don"
  using rem.op_ok [OF assms(1)] queued_remove [OF assms(2)] by metis

lemma filter_insert_new:
  assumes "\<forall>x \<in> set xs. ok x s"
  shows "\<exists>s'. filter_insert ins xs s = Some (new_ones xs (abs s), s') \<and> abs s' = abs s \<union> set xs \<and> keeps s s'"
  using assms
proof (induction xs arbitrary: s)
  case Nil
  then show ?case by (simp add: ins.keeps_refl)
next
  case (Cons x xs)
  obtain s1 where s1: "ins x s = Some (s1, abs s1 \<noteq> abs s)" "abs s1 = abs s \<union> {x}" "keeps s s1"
    using ins.op_ok [of x s] Cons.prems by auto
  have "\<forall>y \<in> set xs. ok y s1" using Cons.prems s1(3) by (auto intro: ins.keeps_ok)
  from Cons.IH [OF this] obtain s2 where
    s2: "filter_insert ins xs s1 = Some (new_ones xs (abs s1), s2)" "abs s2 = abs s1 \<union> set xs" "keeps s1 s2"
    by blast
  have "abs s1 = insert x (abs s)" "abs s1 \<noteq> abs s \<longleftrightarrow> x \<notin> abs s" using s1(2) by auto
  with s1 s2 show ?case by (auto intro: ins.keeps_trans simp: insert_absorb)
qed

end

interpretation dense_set: dedup_set BitSet_insert BitSet_remove BitSet_elems in_words same_size
  by unfold_locales

section \<open>The invariant is kept\<close>

text \<open>\<open>WorkQueue_inv q don\<close>: as \<open>queued\<close>, with every element inside the words of the set.\<close>

definition WorkQueue_inv :: "work_queue \<Rightarrow> nat set \<Rightarrow> bool" where
  "WorkQueue_inv q don \<longleftrightarrow> queued (deque q) (BitSet_elems (occupied q)) don \<and>
     (\<forall>x \<in> set (deque q). in_words x (occupied q))"

definition WorkStack_inv :: "work_stack \<Rightarrow> nat set \<Rightarrow> bool" where
  "WorkStack_inv q don \<longleftrightarrow> queued (stack q) (BitSet_elems (stacked q)) don \<and>
     (\<forall>x \<in> set (stack q). in_words x (stacked q))"

lemma in_words_same_size: "same_size s s' \<Longrightarrow> in_words x s' = in_words x s"
  by (simp add: same_size_def in_words_def)

lemma WorkQueue_insert_ok:
  assumes "WorkQueue_inv q don" "in_words x (occupied q)"
  shows "\<exists>q'. WorkQueue_insert x q = Some (q', x \<notin> set (deque q) \<union> don) \<and> WorkQueue_inv q' don \<and>
    deque q' = (if x \<in> set (deque q) \<union> don then deque q else deque q @ [x]) \<and>
    same_size (occupied q) (occupied q')"
proof -
  from assms have q: "queued (deque q) (BitSet_elems (occupied q)) don" by (simp add: WorkQueue_inv_def)
  then have el: "BitSet_elems (occupied q) = set (deque q) \<union> don" by (simp add: queued_def)
  from dense_set.insert_queued [OF assms(2) q] show ?thesis
    using assms by (auto simp: WorkQueue_insert_def WorkQueue_inv_def el in_words_same_size)
qed

lemma WorkQueue_pop_ok:
  assumes "WorkQueue_inv q don" "deque q = x # xs"
  shows "\<exists>q'. WorkQueue_pop q = Some (q', Some x) \<and> WorkQueue_inv q' don \<and> deque q' = xs \<and>
    same_size (occupied q) (occupied q') \<and> BitSet_elems (occupied q') = BitSet_elems (occupied q) - {x}"
proof -
  have "in_words x (occupied q)" "queued ([] @ x # xs) (BitSet_elems (occupied q)) don"
    using assms by (auto simp: WorkQueue_inv_def)
  from dense_set.remove_queued [OF this] show ?thesis
    using assms by (auto simp: WorkQueue_pop_def WorkQueue_inv_def in_words_same_size)
qed

lemma WorkQueue_take_ok:
  assumes "WorkQueue_inv q don" "deque q = x # xs" "WorkQueue_take q = (q', r)"
  shows "r = Some x" "x \<notin> don" "WorkQueue_inv q' (insert x don)" "deque q' = xs" "occupied q' = occupied q"
  using assms queued_take [of "[]" x xs] by (auto simp: WorkQueue_take_def WorkQueue_inv_def)

lemma WorkQueue_extend_ok:
  assumes "WorkQueue_inv q don" "\<forall>x \<in> set xs. in_words x (occupied q)"
  shows "\<exists>q'. WorkQueue_extend q xs = Some q' \<and> WorkQueue_inv q' don \<and>
    deque q' = deque q @ new_ones xs (set (deque q) \<union> don) \<and> same_size (occupied q) (occupied q')"
proof -
  from assms have q: "queued (deque q) (BitSet_elems (occupied q)) don" by (simp add: WorkQueue_inv_def)
  then have el: "BitSet_elems (occupied q) = set (deque q) \<union> don" by (simp add: queued_def)
  obtain s where s: "filter_insert BitSet_insert xs (occupied q) = Some (new_ones xs (set (deque q) \<union> don), s)"
    "BitSet_elems s = BitSet_elems (occupied q) \<union> set xs" "same_size (occupied q) s"
    using dense_set.filter_insert_new [OF assms(2), unfolded el] unfolding el by blast
  have "in_words x s" if "x \<in> set (deque q) \<union> set xs" for x
    using that assms in_words_same_size [OF s(3)] unfolding WorkQueue_inv_def by blast
  then have "\<forall>x \<in> set (deque q @ new_ones xs (set (deque q) \<union> don)). in_words x s"
    by (auto simp: set_new_ones)
  with s queued_extend [OF q, of xs] el show ?thesis
    by (simp add: WorkQueue_extend_def WorkQueue_inv_def)
qed

lemma WorkQueue_new_ok:
  "\<exists>q. WorkQueue_with_all n = Some q \<and> WorkQueue_inv q {} \<and> deque q = [0..<n]"
  "WorkQueue_inv (WorkQueue_with_none n) {}"
proof -
  obtain s where s: "BitSet_new_filled n = Some s" "BitSet_wf s" "BitSet_elems s = {..<n}" "domain_size s = n"
    using BitSet_new_filled_correct by blast
  have "\<forall>x \<in> set [0..<n]. in_words x s" using BitSet_wf_in_words [OF s(2)] s(4) by auto
  with s(1,3) show "\<exists>q. WorkQueue_with_all n = Some q \<and> WorkQueue_inv q {} \<and> deque q = [0..<n]"
    by (simp add: WorkQueue_with_all_def WorkQueue_inv_def queued_def atLeast0LessThan)
qed (simp add: WorkQueue_with_none_def WorkQueue_inv_def queued_def BitSet_new_empty_correct)

lemma elems_in_words: "x \<in> BitSet_elems s \<Longrightarrow> in_words x s"
  by (auto simp: BitSet_elems_def word_elems_def in_words_def)

lemma WorkQueue_from_ok:
  assumes "64 * length (words s) \<le> 2 ^ 64"
  shows "WorkQueue_inv (WorkQueue_from s) {}" "deque (WorkQueue_from s) = sorted_list_of_set (BitSet_elems s)"
proof -
  have "finite (BitSet_elems s)" by (simp add: BitSet_elems_def)
  then show "WorkQueue_inv (WorkQueue_from s) {}" "deque (WorkQueue_from s) = sorted_list_of_set (BitSet_elems s)"
    using assms by (auto simp: WorkQueue_from_def WorkQueue_inv_def queued_def BitSet_iter_correct elems_in_words)
qed

lemma WorkQueue_clear_ok: "WorkQueue_inv (WorkQueue_clear q) {}"
  by (simp add: WorkQueue_clear_def WorkQueue_inv_def queued_def BitSet_clear_correct)

lemma WorkStack_insert_ok:
  assumes "WorkStack_inv q don" "in_words x (stacked q)"
  shows "\<exists>q'. WorkStack_insert x q = Some (q', x \<notin> set (stack q) \<union> don) \<and> WorkStack_inv q' don \<and>
    stack q' = (if x \<in> set (stack q) \<union> don then stack q else stack q @ [x]) \<and>
    same_size (stacked q) (stacked q')"
proof -
  from assms have q: "queued (stack q) (BitSet_elems (stacked q)) don" by (simp add: WorkStack_inv_def)
  then have el: "BitSet_elems (stacked q) = set (stack q) \<union> don" by (simp add: queued_def)
  from dense_set.insert_queued [OF assms(2) q] show ?thesis
    using assms by (auto simp: WorkStack_insert_def WorkStack_inv_def el in_words_same_size)
qed

lemma WorkStack_pop_ok:
  assumes "WorkStack_inv q don" "stack q = xs @ [x]"
  shows "\<exists>q'. WorkStack_pop q = Some (q', Some x) \<and> WorkStack_inv q' don \<and> stack q' = xs \<and>
    same_size (stacked q) (stacked q')"
proof -
  have "in_words x (stacked q)" "queued (xs @ x # []) (BitSet_elems (stacked q)) don"
    using assms by (auto simp: WorkStack_inv_def)
  from dense_set.remove_queued [OF this] show ?thesis
    using assms by (auto simp: WorkStack_pop_def WorkStack_inv_def in_words_same_size)
qed

lemma WorkStack_take_ok:
  assumes "WorkStack_inv q don" "stack q = xs @ [x]" "WorkStack_take q = (q', r)"
  shows "r = Some x" "x \<notin> don" "WorkStack_inv q' (insert x don)" "stack q' = xs" "stacked q' = stacked q"
  using assms queued_take [of xs x "[]"] by (auto simp: WorkStack_take_def WorkStack_inv_def)

lemma WorkStack_extend_ok:
  assumes "WorkStack_inv q don" "\<forall>x \<in> set xs. in_words x (stacked q)"
  shows "\<exists>q'. WorkStack_extend q xs = Some q' \<and> WorkStack_inv q' don \<and>
    stack q' = stack q @ new_ones xs (set (stack q) \<union> don) \<and> same_size (stacked q) (stacked q')"
proof -
  from assms have q: "queued (stack q) (BitSet_elems (stacked q)) don" by (simp add: WorkStack_inv_def)
  then have el: "BitSet_elems (stacked q) = set (stack q) \<union> don" by (simp add: queued_def)
  obtain s where s: "filter_insert BitSet_insert xs (stacked q) = Some (new_ones xs (set (stack q) \<union> don), s)"
    "BitSet_elems s = BitSet_elems (stacked q) \<union> set xs" "same_size (stacked q) s"
    using dense_set.filter_insert_new [OF assms(2), unfolded el] unfolding el by blast
  have "in_words x s" if "x \<in> set (stack q) \<union> set xs" for x
    using that assms in_words_same_size [OF s(3)] unfolding WorkStack_inv_def by blast
  then have "\<forall>x \<in> set (stack q @ new_ones xs (set (stack q) \<union> don)). in_words x s"
    by (auto simp: set_new_ones)
  with s queued_extend [OF q, of xs] el show ?thesis
    by (simp add: WorkStack_extend_def WorkStack_inv_def)
qed


lemma WorkStack_new_ok:
  "\<exists>q. WorkStack_with_all n = Some q \<and> WorkStack_inv q {} \<and> stack q = [0..<n]"
  "WorkStack_inv (WorkStack_with_none n) {}" "WorkStack_inv (WorkStack_clear p) {}"
proof -
  obtain s where s: "BitSet_new_filled n = Some s" "BitSet_wf s" "BitSet_elems s = {..<n}" "domain_size s = n"
    using BitSet_new_filled_correct by blast
  have "\<forall>x \<in> set [0..<n]. in_words x s" using BitSet_wf_in_words [OF s(2)] s(4) by auto
  with s(1,3) show "\<exists>q. WorkStack_with_all n = Some q \<and> WorkStack_inv q {} \<and> stack q = [0..<n]"
    by (simp add: WorkStack_with_all_def WorkStack_inv_def queued_def atLeast0LessThan)
qed (simp_all add: WorkStack_with_none_def WorkStack_clear_def WorkStack_inv_def queued_def
    BitSet_new_empty_correct BitSet_clear_correct)

section \<open>Processing every element once\<close>

text \<open>
  The use the documentation of \<open>take\<close> names: a work list over indices below \<open>n\<close> to which elements
  are offered at any time and from which they are taken for good. \<open>queue_run n q off tk\<close>: from an
  empty queue, \<open>off\<close> was offered, in this order, and \<open>tk\<close> taken.
\<close>

inductive queue_run :: "nat \<Rightarrow> work_queue \<Rightarrow> nat list \<Rightarrow> nat list \<Rightarrow> bool" for n where
  start: "queue_run n (WorkQueue_with_none n) [] []"
| offer: "queue_run n q off tk \<Longrightarrow> x < n \<Longrightarrow> WorkQueue_insert x q = Some (q', c) \<Longrightarrow> queue_run n q' (off @ [x]) tk"
| offer_all: "queue_run n q off tk \<Longrightarrow> \<forall>x \<in> set xs. x < n \<Longrightarrow> WorkQueue_extend q xs = Some q' \<Longrightarrow>
    queue_run n q' (off @ xs) tk"
| take_one: "queue_run n q off tk \<Longrightarrow> WorkQueue_take q = (q', Some x) \<Longrightarrow> queue_run n q' off (tk @ [x])"

lemma new_ones_append: "new_ones (xs @ ys) A = new_ones xs A @ new_ones ys (A \<union> set xs)"
  by (induction xs arbitrary: A) (auto simp: insert_absorb)

definition queue_run_inv :: "nat \<Rightarrow> work_queue \<Rightarrow> nat list \<Rightarrow> nat list \<Rightarrow> bool" where
  "queue_run_inv n q off tk \<longleftrightarrow> WorkQueue_inv q (set tk) \<and> (\<forall>x < n. in_words x (occupied q)) \<and>
     tk @ deque q = new_ones off {}"

lemma queue_run_set: "queue_run_inv n q off tk \<Longrightarrow> set (deque q) \<union> set tk = set off"
  unfolding queue_run_inv_def by (metis Diff_empty set_append set_new_ones sup_commute)

lemma queue_run_invariant:
  "queue_run n q off tk \<Longrightarrow> queue_run_inv n q off tk"
proof (induction rule: queue_run.induct)
  case start
  have "in_words x (BitSet_new_empty n)" if "x < n" for x
    using that by (simp add: in_words_def BitSet_new_empty_def num_words_bound)
  then show ?case
    by (simp add: queue_run_inv_def WorkQueue_new_ok(2)) (simp add: WorkQueue_with_none_def)
next
  case (offer q off tk x q' c)
  then show ?case
    using WorkQueue_insert_ok [of q "set tk" x] queue_run_set [OF offer.IH]
    by (auto simp: queue_run_inv_def new_ones_append in_words_same_size)
next
  case (offer_all q off tk xs q')
  then have iw: "\<forall>x \<in> set xs. in_words x (occupied q)" "WorkQueue_inv q (set tk)"
    by (auto simp: queue_run_inv_def)
  from WorkQueue_extend_ok [OF iw(2,1)] offer_all.hyps(3)
  have "WorkQueue_inv q' (set tk)" "same_size (occupied q) (occupied q')"
    "deque q' = deque q @ new_ones xs (set (deque q) \<union> set tk)" by auto
  with offer_all.IH queue_run_set [OF offer_all.IH] show ?case
    by (simp add: queue_run_inv_def new_ones_append in_words_same_size flip: append_assoc)
next
  case (take_one q off tk q' x)
  then obtain y ys where d: "deque q = y # ys" by (cases "deque q") (auto simp: WorkQueue_take_def)
  have "WorkQueue_inv q (set tk)" using take_one.IH by (simp add: queue_run_inv_def)
  from WorkQueue_take_ok [OF this d take_one.hyps(2)] take_one.IH d show ?case
    by (simp add: queue_run_inv_def)
qed

text \<open>
  C17: a work list used with \<open>take\<close> hands out every offered element exactly once, in the order of
  first offers: what was taken followed by what is still queued is the sequence of offers without
  its repetitions.
\<close>

theorem WorkQueue_take_once:
  assumes "queue_run n q off tk"
  shows "tk @ deque q = new_ones off {} \<and> distinct (tk @ deque q) \<and> set (tk @ deque q) = set off"
proof -
  have "tk @ deque q = new_ones off {}"
    using queue_run_invariant [OF assms] by (simp add: queue_run_inv_def)
  then show ?thesis by (simp add: distinct_new_ones set_new_ones)
qed

lemma WorkQueue_take_once_witness:
  "\<exists>q. queue_run 3 q [2, 0, 2] [2] \<and> distinct ([2] @ deque q)"
proof -
  obtain q where q: "WorkQueue_extend (WorkQueue_with_none 3) [2, 0, 2] = Some q" "deque q = [2, 0]"
    using WorkQueue_extend_ok [OF WorkQueue_new_ok(2) [of 3], of "[2, 0, 2]"]
    by (auto simp: WorkQueue_with_none_def in_words_def BitSet_new_empty_def num_words_def)
  have "queue_run 3 q ([] @ [2, 0, 2]) []"
    by (rule queue_run.offer_all [OF queue_run.start _ q(1)]) simp
  then have "queue_run 3 (q\<lparr>deque := [0]\<rparr>) [2, 0, 2] ([] @ [2])"
    by (intro queue_run.take_one) (auto simp: WorkQueue_take_def q(2))
  then show ?thesis using WorkQueue_take_once by fastforce
qed

end
