(* ===== verification/Lexer.thy ===== *)
theory Lexer
  imports Prelude
begin

text \<open>
  The Verilog-A lexer: the token kinds of \<^verbatim>\<open>openvaf/tokens/src/lexer.rs\<close>, the cursor of
  \<^verbatim>\<open>openvaf/lexer/src/cursor.rs\<close> and the scanner of \<^verbatim>\<open>openvaf/lexer/src/lib.rs\<close>.
  A Rust \<open>char\<close> is its code point (a \<open>nat\<close>), a \<open>str\<close> the list of its characters. \<open>TextSize\<close> comes
  from another crate; what the lexer uses of it is the parameter \<open>tof\<close>, the call \<open>TextSize::of\<close>,
  whose documented behaviour is \<open>text_size_of_spec\<close> (the length of the UTF-8 text, a panic when it
  does not fit 32 bits), and subtraction, which panics below zero. \<open>prev\<close> is tracked and the debug
  assertions panic, as in a debug build. Loops that may not end are partial functions: \<open>None\<close> is a
  panic or a call that does not return.
\<close>

section \<open>Tokens\<close>

datatype literal_kind = IntLit | FloatLit bool | StrLit bool

datatype (plugins only: code size) token_kind =
    LineComment | BlockComment bool | Whitespace
  | SimpleIdent | EscapedIdent | SystemCallIdent | Literal literal_kind
  | CompilerDirective | Define nat | IllegalDefine
  | Semi | Comma | Dot | OpenParen | CloseParen | OpenBrace | CloseBrace | OpenBracket | CloseBracket
  | At | Pound | Tilde | Question | Colon | Dollar | EqTok | NotTok | Lt | Gt | Minus | AndTok | OrTok
  | Plus | Star | Slash | Caret | Percent
  | AttrOpenParen | AttrCloseParen | ArrStart
  | Eq2 | Neq | Leq | Geq | Pipe2 | Amp2 | Shl | Shr | ShlA | ShrA | Contribute | Pow | NXorL | NXorR
  | Unknown

record token =
  tok_kind :: token_kind
  tok_len :: nat

section \<open>Text\<close>

type_synonym rchar = nat

abbreviation ch :: "char \<Rightarrow> rchar" where
  "ch c \<equiv> of_char c"

definition NEWLINE :: rchar where "NEWLINE = 0x0A"
definition BACKSLASH :: rchar where "BACKSLASH = 0x5C"
definition QUOTE :: rchar where "QUOTE = 0x27"
definition DQUOTE :: rchar where "DQUOTE = 0x22"
definition BACKTICK :: rchar where "BACKTICK = 0x60"

lemmas char_codes = NEWLINE_def BACKSLASH_def QUOTE_def DQUOTE_def BACKTICK_def

text \<open>The bytes of a character in UTF-8, and what \<open>TextSize::of\<close> documents.\<close>

definition utf8_char_len :: "rchar \<Rightarrow> nat" where
  "utf8_char_len c = (if c < 0x80 then 1 else if c < 0x800 then 2 else if c < 0x10000 then 3 else 4)"

definition utf8_len :: "rchar list \<Rightarrow> nat" where
  "utf8_len s = sum_list (map utf8_char_len s)"

definition text_size_of_spec :: "(rchar list \<Rightarrow> nat panics) \<Rightarrow> bool" where
  "text_size_of_spec tof \<longleftrightarrow> (\<forall>s. tof s = (if utf8_len s < 2 ^ 32 then Some (utf8_len s) else None))"

text \<open>\<open>char::is_whitespace\<close> of the standard library: the Unicode property White_Space.\<close>

definition char_is_whitespace :: "rchar \<Rightarrow> bool" where
  "char_is_whitespace c \<longleftrightarrow> (0x09 \<le> c \<and> c \<le> 0x0D) \<or> c \<in> {0x20, 0x85, 0xA0, 0x1680} \<or>
     (0x2000 \<le> c \<and> c \<le> 0x200A) \<or> c \<in> {0x2028, 0x2029, 0x202F, 0x205F, 0x3000}"

definition char_is_ascii_digit :: "rchar \<Rightarrow> bool" where
  "char_is_ascii_digit c \<longleftrightarrow> ch CHR ''0'' \<le> c \<and> c \<le> ch CHR ''9''"

definition is_whitespace :: "rchar \<Rightarrow> bool" where
  "is_whitespace c \<longleftrightarrow> c \<in> {0x09, 0x0A, 0x0B, 0x0C, 0x0D, 0x20, 0x85, 0x200E, 0x200F, 0x2028, 0x2029}"

definition is_ident_char :: "rchar \<Rightarrow> bool" where
  "is_ident_char c \<longleftrightarrow> ch CHR ''a'' \<le> c \<and> c \<le> ch CHR ''z'' \<or> ch CHR ''A'' \<le> c \<and> c \<le> ch CHR ''Z'' \<or>
     c = ch CHR ''_'' \<or> c = ch CHR ''$'' \<or> ch CHR ''0'' \<le> c \<and> c \<le> ch CHR ''9''"

definition is_ident_start_char :: "rchar \<Rightarrow> bool" where
  "is_ident_start_char c \<longleftrightarrow> ch CHR ''a'' \<le> c \<and> c \<le> ch CHR ''z'' \<or>
     ch CHR ''A'' \<le> c \<and> c \<le> ch CHR ''Z'' \<or> c = ch CHR ''_''"

section \<open>The cursor\<close>

record lex_cursor =
  c_initial_len :: nat
  c_chars :: "rchar list"
  c_prev :: rchar
  c_dst :: "token list"
  c_marker :: "nat option"

definition EOF_CHAR :: rchar where
  "EOF_CHAR = 0"

definition Cursor_new :: "(rchar list \<Rightarrow> nat panics) \<Rightarrow> rchar list \<Rightarrow> lex_cursor panics" where
  "Cursor_new tof input =
     do { n \<leftarrow> tof input;
          Some \<lparr>c_initial_len = n, c_chars = input, c_prev = EOF_CHAR, c_dst = [], c_marker = None\<rparr> }"

definition Cursor_nth_char :: "lex_cursor \<Rightarrow> nat \<Rightarrow> rchar" where
  "Cursor_nth_char c n = (case vec_get (c_chars c) n of Some x \<Rightarrow> x | None \<Rightarrow> EOF_CHAR)"

definition Cursor_first :: "lex_cursor \<Rightarrow> rchar" where
  "Cursor_first c = Cursor_nth_char c 0"

definition Cursor_second :: "lex_cursor \<Rightarrow> rchar" where
  "Cursor_second c = Cursor_nth_char c 1"

definition Cursor_is_eof :: "lex_cursor \<Rightarrow> bool" where
  "Cursor_is_eof c \<longleftrightarrow> c_chars c = []"

definition Cursor_len_consumed :: "(rchar list \<Rightarrow> nat panics) \<Rightarrow> lex_cursor \<Rightarrow> nat panics" where
  "Cursor_len_consumed tof c = do { n \<leftarrow> tof (c_chars c); usize_sub (c_initial_len c) n }"

definition Cursor_bump :: "lex_cursor \<Rightarrow> rchar option \<times> lex_cursor" where
  "Cursor_bump c =
     (case c_chars c of
        [] \<Rightarrow> (None, c)
      | x # xs \<Rightarrow> (Some x, c\<lparr>c_chars := xs, c_prev := x\<rparr>))"

text \<open>A \<open>bump\<close> whose result is not used.\<close>

abbreviation bumped :: "lex_cursor \<Rightarrow> lex_cursor" where
  "bumped c \<equiv> snd (Cursor_bump c)"

definition Cursor_finish_token ::
    "(rchar list \<Rightarrow> nat panics) \<Rightarrow> token_kind \<Rightarrow> lex_cursor \<Rightarrow> lex_cursor panics" where
  "Cursor_finish_token tof kind c =
     do { len \<leftarrow> Cursor_len_consumed tof c;
          n \<leftarrow> usize_sub (c_initial_len c) len;
          Some (c\<lparr>c_initial_len := n, c_dst := c_dst c @ [\<lparr>tok_kind = kind, tok_len = len\<rparr>]\<rparr>) }"

definition Cursor_finish_marker :: "lex_cursor \<Rightarrow> (lex_cursor \<times> bool) panics" where
  "Cursor_finish_marker c =
     (case c_marker c of
        Some marker \<Rightarrow>
          do { t \<leftarrow> vec_get (c_dst c) marker;
               Some (c\<lparr>c_marker := None,
                       c_dst := (c_dst c)[marker := t\<lparr>tok_kind := Define (length (c_dst c))\<rparr>]\<rparr>, True) }
      | None \<Rightarrow> Some (c, False))"

definition Cursor_set_marker :: "lex_cursor \<Rightarrow> lex_cursor \<times> token_kind" where
  "Cursor_set_marker c =
     (if c_marker c = None then c\<lparr>c_marker := Some (length (c_dst c))\<rparr> else c, IllegalDefine)"

definition Cursor_finish :: "lex_cursor \<Rightarrow> token list panics" where
  "Cursor_finish c = do { (c, _) \<leftarrow> Cursor_finish_marker c; Some (c_dst c) }"

text \<open>Consuming a character shortens the rest, so loops that consume end.\<close>

lemma bumped_shorter [simp]:
  "c_chars c \<noteq> [] \<Longrightarrow> length (c_chars (bumped c)) < length (c_chars c)"
  by (cases "c_chars c") (auto simp: Cursor_bump_def)

lemma bump_Some_shorter:
  "Cursor_bump c = (Some x, c') \<Longrightarrow> length (c_chars c') < length (c_chars c)"
  by (auto simp: Cursor_bump_def split: list.splits)

lemma bumped_le: "length (c_chars (bumped c)) \<le> length (c_chars c)"
  by (cases "c_chars c") (auto simp: Cursor_bump_def)

lemma first_not_eof: "Cursor_first c \<noteq> EOF_CHAR \<Longrightarrow> c_chars c \<noteq> []"
  by (auto simp: Cursor_first_def Cursor_nth_char_def)

section \<open>The scanner\<close>

function Cursor_eat_while :: "(rchar \<Rightarrow> bool) \<Rightarrow> lex_cursor \<Rightarrow> lex_cursor" where
  "Cursor_eat_while p c =
     (if p (Cursor_first c) \<and> \<not> Cursor_is_eof c then Cursor_eat_while p (bumped c) else c)"
  by pat_completeness auto
termination by (relation "measure (\<lambda>(_, c). length (c_chars c))") (auto simp: Cursor_is_eof_def)

definition Cursor_eat_identifier :: "lex_cursor \<Rightarrow> lex_cursor" where
  "Cursor_eat_identifier c = Cursor_eat_while is_ident_char c"

function eat_decimal_digits_loop :: "bool \<Rightarrow> lex_cursor \<Rightarrow> bool \<times> lex_cursor" where
  "eat_decimal_digits_loop has_digits c =
     (if Cursor_first c = ch CHR ''_'' then eat_decimal_digits_loop has_digits (bumped c)
      else if char_is_ascii_digit (Cursor_first c) then eat_decimal_digits_loop True (bumped c)
      else (has_digits, c))"
  by pat_completeness auto
termination
  by (relation "measure (\<lambda>(_, c). length (c_chars c))")
    (auto simp: char_is_ascii_digit_def EOF_CHAR_def intro!: bumped_shorter first_not_eof)

definition Cursor_eat_decimal_digits :: "lex_cursor \<Rightarrow> bool \<times> lex_cursor" where
  "Cursor_eat_decimal_digits c = eat_decimal_digits_loop False c"

definition Cursor_eat_float_exponent :: "lex_cursor \<Rightarrow> (bool \<times> lex_cursor) panics" where
  "Cursor_eat_float_exponent c =
     do { _ \<leftarrow> rust_assert (c_prev c = ch CHR ''e'' \<or> c_prev c = ch CHR ''E'');
          let c = (if Cursor_first c = ch CHR ''-'' \<or> Cursor_first c = ch CHR ''+'' then bumped c else c);
          Some (Cursor_eat_decimal_digits c) }"

definition is_scale_char :: "rchar \<Rightarrow> bool" where
  "is_scale_char c \<longleftrightarrow> c \<in> {ch CHR ''T'', ch CHR ''G'', ch CHR ''M'', ch CHR ''K'', ch CHR ''k'', ch CHR ''m'',
     ch CHR ''u'', ch CHR ''n'', ch CHR ''p'', ch CHR ''f'', ch CHR ''a''}"

definition Cursor_number :: "lex_cursor \<Rightarrow> (literal_kind \<times> lex_cursor) panics" where
  "Cursor_number c =
     do { _ \<leftarrow> rust_assert (ch CHR ''0'' \<le> c_prev c \<and> c_prev c \<le> ch CHR ''9'');
          let (_, c) = Cursor_eat_decimal_digits c;
          let f = Cursor_first c;
          (if f = ch CHR ''.'' then
             (let c = bumped c in
              if char_is_ascii_digit (Cursor_first c) then
                (let (_, c) = Cursor_eat_decimal_digits c;
                     f = Cursor_first c in
                 if f = ch CHR ''e'' \<or> f = ch CHR ''E'' then
                   do { (_, c) \<leftarrow> Cursor_eat_float_exponent (bumped c); Some (FloatLit False, c) }
                 else if is_scale_char f then Some (FloatLit True, bumped c)
                 else Some (FloatLit False, c))
              else Some (FloatLit False, c))
           else if is_scale_char f then Some (FloatLit True, bumped c)
           else if f = ch CHR ''e'' \<or> f = ch CHR ''E'' then
             do { (_, c) \<leftarrow> Cursor_eat_float_exponent (bumped c); Some (FloatLit False, c) }
           else Some (IntLit, c)) }"

function double_quoted_loop :: "lex_cursor \<Rightarrow> bool \<times> lex_cursor" where
  "double_quoted_loop c =
     (case Cursor_bump c of
        (None, c) \<Rightarrow> (False, c)
      | (Some x, c) \<Rightarrow>
          if x = DQUOTE then (True, c)
          else if x = BACKSLASH \<and> (Cursor_first c = BACKSLASH \<or> Cursor_first c = DQUOTE)
            then double_quoted_loop (bumped c)
          else double_quoted_loop c)"
  by pat_completeness auto
termination
  by (relation "measure (\<lambda>c. length (c_chars c))")
    (auto dest!: bump_Some_shorter [OF sym] intro: le_less_trans [OF bumped_le])

definition Cursor_double_quoted_string :: "lex_cursor \<Rightarrow> (bool \<times> lex_cursor) panics" where
  "Cursor_double_quoted_string c =
     do { _ \<leftarrow> rust_assert (c_prev c = DQUOTE); Some (double_quoted_loop c) }"

function block_comment_loop :: "lex_cursor \<Rightarrow> token_kind \<times> lex_cursor" where
  "block_comment_loop c =
     (case Cursor_bump c of
        (None, c) \<Rightarrow> (BlockComment False, c)
      | (Some x, c) \<Rightarrow>
          if x = ch CHR ''*'' \<and> Cursor_first c = ch CHR ''/'' then (BlockComment True, bumped c)
          else block_comment_loop c)"
  by pat_completeness auto
termination
  by (relation "measure (\<lambda>c. length (c_chars c))") (auto dest!: bump_Some_shorter [OF sym])

definition Cursor_block_comment :: "lex_cursor \<Rightarrow> (token_kind \<times> lex_cursor) panics" where
  "Cursor_block_comment c =
     do { _ \<leftarrow> rust_assert (c_prev c = ch CHR ''/'' \<and> Cursor_first c = ch CHR ''*'');
          Some (block_comment_loop (bumped c)) }"

text \<open>The loop of a line comment has no test for the end of the input.\<close>

partial_function (option) line_comment_loop :: "lex_cursor \<Rightarrow> lex_cursor option" where
  "line_comment_loop c =
     (if Cursor_first c = NEWLINE then Some c
      else if Cursor_first c = BACKSLASH \<and> Cursor_second c = NEWLINE then Some c
      else line_comment_loop (bumped c))"

definition Cursor_line_comment :: "lex_cursor \<Rightarrow> (token_kind \<times> lex_cursor) panics" where
  "Cursor_line_comment c =
     do { _ \<leftarrow> rust_assert (c_prev c = ch CHR ''/'' \<and> Cursor_first c = ch CHR ''/'');
          c \<leftarrow> line_comment_loop (bumped c);
          _ \<leftarrow> rust_assert (\<not> (c_prev c = BACKSLASH \<and> Cursor_first c = NEWLINE));
          _ \<leftarrow> rust_assert (c_prev c \<noteq> NEWLINE);
          Some (LineComment, c) }"

lemma finish_marker_chars: "Cursor_finish_marker c = Some (c', b) \<Longrightarrow> c_chars c' = c_chars c"
  by (auto simp: Cursor_finish_marker_def bind_eq_Some_conv split: option.splits)

function whitespace_loop :: "lex_cursor \<Rightarrow> lex_cursor panics" where
  "whitespace_loop c =
     (if Cursor_first c = NEWLINE then
        (case Cursor_finish_marker c of
           None \<Rightarrow> None
         | Some (c', finished) \<Rightarrow> if finished then Some c' else whitespace_loop (bumped c'))
      else if Cursor_first c = BACKSLASH \<and> Cursor_second c = NEWLINE then whitespace_loop (bumped (bumped c))
      else if char_is_whitespace (Cursor_first c) then whitespace_loop (bumped c)
      else Some c)"
  by pat_completeness auto
termination
proof (relation "measure (\<lambda>c. length (c_chars c))", goal_cases)
  case (2 c p c' b)
  then have "c_chars c \<noteq> []" by (intro first_not_eof) (simp add: EOF_CHAR_def NEWLINE_def)
  with 2 show ?case using finish_marker_chars [of c c' b] bumped_shorter [of c'] by simp
next
  case (3 c)
  then have "c_chars c \<noteq> []" by (intro first_not_eof) (auto simp: EOF_CHAR_def BACKSLASH_def)
  then show ?case using le_less_trans [OF bumped_le bumped_shorter] by simp
next
  case (4 c)
  then have "c_chars c \<noteq> []" by (intro first_not_eof) (auto simp: EOF_CHAR_def char_is_whitespace_def)
  then show ?case by simp
qed simp

definition Cursor_whitespace :: "lex_cursor \<Rightarrow> (token_kind \<times> lex_cursor) panics" where
  "Cursor_whitespace c = do { c \<leftarrow> whitespace_loop c; Some (Whitespace, c) }"

text \<open>The loop over the letters of ``define'': it stops at the first that does not match.\<close>

fun define_letters_loop :: "rchar list \<Rightarrow> lex_cursor \<Rightarrow> bool \<times> lex_cursor" where
  "define_letters_loop [] c = (True, c)"
| "define_letters_loop (e # es) c =
     (if Cursor_first c \<noteq> e then (False, c) else define_letters_loop es (bumped c))"

definition Cursor_compiler_directive :: "lex_cursor \<Rightarrow> token_kind \<times> lex_cursor" where
  "Cursor_compiler_directive c =
     (let (is_define, c) = define_letters_loop (map of_char ''define'') c in
      if \<not> is_define \<or> is_ident_char (Cursor_first c)
      then (CompilerDirective, Cursor_eat_while is_ident_char c)
      else (let (c, kind) = Cursor_set_marker c in (kind, c)))"


text \<open>
  The symbol arms of \<open>advance_token\<close>, in their order: three and two characters (the flag of a token
  is decided on the first character and the lookahead; a longer token consumes one more
  character), then one character.
\<close>

definition long_symbol :: "rchar \<Rightarrow> rchar \<Rightarrow> rchar \<Rightarrow> token_kind option" where
  "long_symbol c f s =
     (if c = ch CHR ''<'' \<and> f = ch CHR ''<'' \<and> s = ch CHR ''<'' then Some ShlA
      else if c = ch CHR ''>'' \<and> f = ch CHR ''>'' \<and> s = ch CHR ''>'' then Some ShrA
      else if c = ch CHR ''('' \<and> f = ch CHR ''*'' then Some AttrOpenParen
      else if c = ch CHR ''*'' \<and> f = ch CHR '')'' then Some AttrCloseParen
      else if c = QUOTE \<and> f = ch CHR ''{'' then Some ArrStart
      else if c = ch CHR ''='' \<and> f = ch CHR ''='' then Some Eq2
      else if c = ch CHR ''!'' \<and> f = ch CHR ''='' then Some Neq
      else if c = ch CHR ''<'' \<and> f = ch CHR ''='' then Some Leq
      else if c = ch CHR ''>'' \<and> f = ch CHR ''='' then Some Geq
      else if c = ch CHR ''|'' \<and> f = ch CHR ''|'' then Some Pipe2
      else if c = ch CHR ''&'' \<and> f = ch CHR ''&'' then Some Amp2
      else if c = ch CHR ''<'' \<and> f = ch CHR ''<'' then Some Shl
      else if c = ch CHR ''>'' \<and> f = ch CHR ''>'' then Some Shr
      else if c = ch CHR ''<'' \<and> f = ch CHR ''+'' then Some Contribute
      else if c = ch CHR ''*'' \<and> f = ch CHR ''*'' then Some Pow
      else if c = ch CHR ''~'' \<and> f = ch CHR ''^'' then Some NXorL
      else if c = ch CHR ''^'' \<and> f = ch CHR ''~'' then Some NXorR
      else None)"

definition short_symbol :: "rchar \<Rightarrow> token_kind option" where
  "short_symbol c = map_of
     [(ch CHR '';'', Semi), (ch CHR '','', Comma), (ch CHR ''.'', Dot), (ch CHR ''('', OpenParen),
      (ch CHR '')'', CloseParen), (ch CHR ''{'', OpenBrace), (ch CHR ''}'', CloseBrace),
      (ch CHR ''['', OpenBracket), (ch CHR '']'', CloseBracket), (ch CHR ''@'', At), (ch CHR ''#'', Pound),
      (ch CHR ''~'', Tilde), (ch CHR ''?'', Question), (ch CHR '':'', Colon), (ch CHR ''$'', Dollar),
      (ch CHR ''='', EqTok), (ch CHR ''!'', NotTok), (ch CHR ''<'', Lt), (ch CHR ''>'', Gt),
      (ch CHR ''-'', Minus), (ch CHR ''&'', AndTok), (ch CHR ''|'', OrTok), (ch CHR ''+'', Plus),
      (ch CHR ''*'', Star), (ch CHR ''^'', Caret), (ch CHR ''%'', Percent)] c"

definition Cursor_symbol :: "rchar \<Rightarrow> lex_cursor \<Rightarrow> (token_kind \<times> lex_cursor) panics" where
  "Cursor_symbol first_char c =
     (case long_symbol first_char (Cursor_first c) (Cursor_second c) of
        Some k \<Rightarrow> Some (k, bumped c)
      | None \<Rightarrow>
          (case short_symbol first_char of
             Some k \<Rightarrow> Some (k, c)
           | None \<Rightarrow>
               if first_char = DQUOTE then
                 do { (terminated, c) \<leftarrow> Cursor_double_quoted_string c;
                      Some (Literal (StrLit terminated), c) }
               else Some (Unknown, c)))"

definition Cursor_token_kind :: "rchar \<Rightarrow> lex_cursor \<Rightarrow> (token_kind \<times> lex_cursor) panics" where
  "Cursor_token_kind first_char c =
     (if first_char = ch CHR ''/'' then
        (if Cursor_first c = ch CHR ''/'' then Cursor_line_comment c
         else if Cursor_first c = ch CHR ''*'' then Cursor_block_comment c
         else Some (Slash, c))
      else if first_char = NEWLINE then
        do { (c, _) \<leftarrow> Cursor_finish_marker c; Cursor_whitespace c }
      else if is_whitespace first_char then Cursor_whitespace c
      else if first_char = BACKSLASH \<and> Cursor_first c = NEWLINE then Cursor_whitespace (bumped c)
      else if first_char = BACKTICK \<and> is_ident_start_char (Cursor_first c) then Some (Cursor_compiler_directive c)
      else if first_char = BACKSLASH \<and> \<not> is_whitespace (Cursor_first c) then
        Some (EscapedIdent, Cursor_eat_while (\<lambda>c. \<not> is_whitespace c) c)
      else if is_ident_start_char first_char then Some (SimpleIdent, Cursor_eat_identifier c)
      else if first_char = ch CHR ''$'' \<and> is_ident_start_char (Cursor_first c) then
        Some (SystemCallIdent, Cursor_eat_identifier (bumped c))
      else if char_is_ascii_digit first_char then
        do { (k, c) \<leftarrow> Cursor_number c; Some (Literal k, c) }
      else Cursor_symbol first_char c)"

definition Cursor_advance_token :: "(rchar list \<Rightarrow> nat panics) \<Rightarrow> lex_cursor \<Rightarrow> lex_cursor panics" where
  "Cursor_advance_token tof c =
     (case Cursor_bump c of
        (None, _) \<Rightarrow> None
      | (Some first_char, c) \<Rightarrow>
          do { (kind, c) \<leftarrow> Cursor_token_kind first_char c;
               Cursor_finish_token tof kind c })"

partial_function (option) tokenize_loop :: "(rchar list \<Rightarrow> nat panics) \<Rightarrow> lex_cursor \<Rightarrow> lex_cursor option" where
  "tokenize_loop tof c =
     (if Cursor_is_eof c then Some c
      else do { c \<leftarrow> Cursor_advance_token tof c; tokenize_loop tof c })"

definition tokenize :: "(rchar list \<Rightarrow> nat panics) \<Rightarrow> rchar list \<Rightarrow> token list option" where
  "tokenize tof input =
     do { c \<leftarrow> Cursor_new tof input; c \<leftarrow> tokenize_loop tof c; Cursor_finish c }"

declare Cursor_eat_while.simps [simp del] eat_decimal_digits_loop.simps [simp del]
  double_quoted_loop.simps [simp del] block_comment_loop.simps [simp del] whitespace_loop.simps [simp del]

section \<open>What a token consumes\<close>

text \<open>
  \<open>consumes c c'\<close>: from \<open>c\<close> to \<open>c'\<close> only characters were consumed. \<open>scans c c'\<close>: the marker may
  also have been closed, which rewrites one token's kind.
\<close>

definition consumes :: "lex_cursor \<Rightarrow> lex_cursor \<Rightarrow> bool" where
  "consumes c c' \<longleftrightarrow> (\<exists>xs. c_chars c = xs @ c_chars c') \<and> c_initial_len c' = c_initial_len c \<and>
     c_dst c' = c_dst c \<and> c_marker c' = c_marker c"

definition marks_ok :: "nat \<Rightarrow> lex_cursor \<Rightarrow> bool" where
  "marks_ok n c \<longleftrightarrow> (\<forall>m. c_marker c = Some m \<longrightarrow> m < n) \<and>
     (\<forall>i < length (c_dst c). \<forall>e. tok_kind (c_dst c ! i) = Define e \<longrightarrow> i < e \<and> e \<le> length (c_dst c))"

definition scans :: "lex_cursor \<Rightarrow> lex_cursor \<Rightarrow> bool" where
  "scans c c' \<longleftrightarrow> (\<exists>xs. c_chars c = xs @ c_chars c') \<and> c_initial_len c' = c_initial_len c \<and>
     map tok_len (c_dst c') = map tok_len (c_dst c) \<and>
     (marks_ok (length (c_dst c)) c \<longrightarrow> marks_ok (length (c_dst c)) c')"

lemma consumes_refl [simp]: "consumes c c"
  by (simp add: consumes_def)

lemma consumes_trans: "consumes c d \<Longrightarrow> consumes d e \<Longrightarrow> consumes c e"
  unfolding consumes_def by (metis append.assoc)

lemma consumes_bumped [simp]: "consumes c (bumped c)"
  by (cases "c_chars c") (auto simp: consumes_def Cursor_bump_def)

lemma consumes_bump: "Cursor_bump c = (x, c') \<Longrightarrow> consumes c c'"
  by (metis consumes_bumped snd_conv)

lemma consumes_scans: "consumes c c' \<Longrightarrow> scans c c'"
  by (simp add: consumes_def scans_def marks_ok_def)

lemma scans_trans: "scans c d \<Longrightarrow> scans d e \<Longrightarrow> scans c e"
  unfolding scans_def by (metis append.assoc length_map)

lemma consumes_eat_while: "consumes c (Cursor_eat_while p c)"
proof (induction p c rule: Cursor_eat_while.induct)
  case (1 p c)
  then show ?case
    by (subst Cursor_eat_while.simps) (auto intro: consumes_trans [OF consumes_bumped])
qed

lemma consumes_eat_decimal_digits_loop: "eat_decimal_digits_loop h c = (r, c') \<Longrightarrow> consumes c c'"
proof (induction h c rule: eat_decimal_digits_loop.induct)
  case (1 h c)
  from 1(3) [unfolded eat_decimal_digits_loop.simps [of h c]] 1(1,2) show ?case
    by (auto split: if_splits intro: consumes_trans [OF consumes_bumped])
qed

lemma consumes_double_quoted_loop: "double_quoted_loop c = (r, c') \<Longrightarrow> consumes c c'"
proof (induction c rule: double_quoted_loop.induct)
  case (1 c)
  obtain x d where b: "Cursor_bump c = (x, d)" by (cases "Cursor_bump c")
  from 1(3) b 1(1,2) [OF b [symmetric]] show ?case
    by (subst (asm) double_quoted_loop.simps)
      (auto split: if_splits option.splits intro: consumes_trans [OF consumes_bumped] consumes_trans [OF consumes_bump [OF b]])
qed

lemma consumes_block_comment_loop: "block_comment_loop c = (r, c') \<Longrightarrow> consumes c c'"
proof (induction c rule: block_comment_loop.induct)
  case (1 c)
  obtain x d where b: "Cursor_bump c = (x, d)" by (cases "Cursor_bump c")
  from 1(2) b 1(1) [OF b [symmetric]] show ?case
    by (subst (asm) block_comment_loop.simps)
      (auto split: if_splits option.splits intro: consumes_trans [OF consumes_bumped] consumes_trans [OF consumes_bump [OF b]])
qed

lemma consumes_line_comment_loop: "line_comment_loop c = Some c' \<Longrightarrow> consumes c c'"
proof (induction rule: line_comment_loop.raw_induct [rotated, consumes 1])
  case (1 f c c')
  then show ?case by (auto split: if_splits intro: consumes_trans [OF consumes_bumped])
qed


lemma consumes_define_letters_loop: "define_letters_loop es c = (r, c') \<Longrightarrow> consumes c c'"
  by (induction es arbitrary: c) (auto split: if_splits intro: consumes_trans [OF consumes_bumped])

lemma consumes_eat_float_exponent: "Cursor_eat_float_exponent c = Some (r, c') \<Longrightarrow> consumes c c'"
  by (auto simp: Cursor_eat_float_exponent_def Cursor_eat_decimal_digits_def bind_eq_Some_conv Let_def
      split: if_splits dest!: consumes_eat_decimal_digits_loop intro: consumes_trans [OF consumes_bumped])

lemma consumes_number: "Cursor_number c = Some (r, c') \<Longrightarrow> consumes c c'"
proof -
  assume n: "Cursor_number c = Some (r, c')"
  obtain b d where d: "Cursor_eat_decimal_digits c = (b, d)" by (cases "Cursor_eat_decimal_digits c")
  obtain b2 d2 where d2: "Cursor_eat_decimal_digits (bumped d) = (b2, d2)" by (cases "Cursor_eat_decimal_digits (bumped d)")
  have cd: "consumes c d" "consumes (bumped d) d2"
    using d d2 by (auto simp: Cursor_eat_decimal_digits_def dest: consumes_eat_decimal_digits_loop)
  have cd2: "consumes c d2"
    by (rule consumes_trans [OF consumes_trans [OF cd(1) consumes_bumped] cd(2)])
  have "c' = d \<or> c' = bumped d \<or> c' = d2 \<or> c' = bumped d2 \<or>
      (\<exists>r. Cursor_eat_float_exponent (bumped d) = Some (r, c')) \<or> (\<exists>r. Cursor_eat_float_exponent (bumped d2) = Some (r, c'))"
    using n d d2 by (auto simp: Cursor_number_def bind_eq_Some_conv Let_def split: if_splits)
  moreover have "consumes c (bumped d)" "consumes c (bumped d2)"
    using cd(1) cd2 by (blast intro: consumes_trans consumes_bumped)+
  ultimately show ?thesis
    using cd(1) cd2 by (elim disjE exE) (auto dest: consumes_eat_float_exponent intro: consumes_trans)
qed

lemma consumes_comments:
  "Cursor_line_comment c = Some (r, c') \<Longrightarrow> consumes c c'"
  "Cursor_block_comment c = Some (r, c') \<Longrightarrow> consumes c c'"
  by (auto simp: Cursor_line_comment_def Cursor_block_comment_def bind_eq_Some_conv
      dest!: consumes_line_comment_loop consumes_block_comment_loop intro: consumes_trans [OF consumes_bumped])

lemma finish_marker_ok:
  assumes "marks_ok (length (c_dst c)) c"
  shows "\<exists>c' b. Cursor_finish_marker c = Some (c', b)"
  using assms by (cases "c_marker c") (auto simp: Cursor_finish_marker_def marks_ok_def)

lemma scans_finish_marker:
  assumes "Cursor_finish_marker c = Some (c', b)"
  shows "scans c c'"
proof (cases "c_marker c")
  case None
  then show ?thesis using assms by (simp add: Cursor_finish_marker_def consumes_scans)
next
  case (Some m)
  then have m: "m < length (c_dst c)" "c' = c\<lparr>c_marker := None,
      c_dst := (c_dst c)[m := (c_dst c ! m)\<lparr>tok_kind := Define (length (c_dst c))\<rparr>]\<rparr>"
    using assms by (auto simp: Cursor_finish_marker_def vec_get_Some_iff bind_eq_Some_conv)
  have "map tok_len (c_dst c') = map tok_len (c_dst c)"
    using m by (auto simp: map_update list_update_same_conv)
  moreover have "marks_ok (length (c_dst c)) c \<longrightarrow> marks_ok (length (c_dst c)) c'"
    using m by (auto simp: marks_ok_def nth_list_update)
  ultimately show ?thesis using m by (simp add: scans_def)
qed

lemma scans_whitespace_loop: "whitespace_loop c = Some c' \<Longrightarrow> scans c c'"
proof (induction c rule: whitespace_loop.induct)
  case (1 c)
  note bump = scans_trans [OF consumes_scans [OF consumes_bumped]]
  show ?case
  proof (cases "Cursor_first c = NEWLINE")
    case True
    then obtain d b where d: "Cursor_finish_marker c = Some (d, b)"
      using 1(4) [unfolded whitespace_loop.simps [of c]] by (auto split: option.splits)
    have "scans d c'"
      using True d 1(1) [OF True d refl] 1(4) [unfolded whitespace_loop.simps [of c]]
      by (cases b) (auto simp: consumes_scans intro: bump)
    with scans_finish_marker [OF d] show ?thesis by (rule scans_trans)
  next
    case False
    with 1(4) [unfolded whitespace_loop.simps [of c]] 1(2,3) show ?thesis
      by (auto split: if_splits simp: consumes_scans intro: bump)
  qed
qed

definition scans_kind :: "lex_cursor \<Rightarrow> token_kind \<Rightarrow> lex_cursor \<Rightarrow> bool" where
  "scans_kind c k c' \<longleftrightarrow> (\<exists>xs. c_chars c = xs @ c_chars c') \<and> c_initial_len c' = c_initial_len c \<and>
     map tok_len (c_dst c') = map tok_len (c_dst c) \<and> (\<forall>e. k \<noteq> Define e) \<and>
     (marks_ok (length (c_dst c)) c \<longrightarrow> marks_ok (Suc (length (c_dst c))) c')"

lemma marks_ok_mono: "marks_ok m c \<Longrightarrow> m \<le> n \<Longrightarrow> marks_ok n c"
  by (auto simp: marks_ok_def)

lemma scans_kindI: "scans c c' \<Longrightarrow> \<forall>e. k \<noteq> Define e \<Longrightarrow> scans_kind c k c'"
  unfolding scans_def scans_kind_def by (blast intro: marks_ok_mono [OF _ le_SucI [OF order_refl]])

lemma scans_kind_trans: "scans c d \<Longrightarrow> scans_kind d k e \<Longrightarrow> scans_kind c k e"
  unfolding scans_def scans_kind_def by (metis append.assoc length_map)

lemma scans_compiler_directive:
  "Cursor_compiler_directive c = (k, c') \<Longrightarrow> scans_kind c k c'"
proof -
  assume k: "Cursor_compiler_directive c = (k, c')"
  obtain b d where d: "define_letters_loop (map of_char ''define'') c = (b, d)"
    by (cases "define_letters_loop (map of_char ''define'') c")
  have "scans c d" using d by (intro consumes_scans) (rule consumes_define_letters_loop)
  moreover have "scans_kind d k c'"
  proof (cases "\<not> b \<or> is_ident_char (Cursor_first d)")
    case True
    then show ?thesis
      using k d consumes_eat_while [of d is_ident_char]
      by (auto simp: Cursor_compiler_directive_def intro: scans_kindI consumes_scans)
  next
    case False
    then show ?thesis
      using k d by (auto simp: Cursor_compiler_directive_def Cursor_set_marker_def scans_kind_def marks_ok_def
          less_SucI split: if_splits)
  qed
  ultimately show ?thesis by (rule scans_kind_trans)
qed

lemma symbol_not_define:
  "long_symbol c f s = Some k \<Longrightarrow> \<forall>e. k \<noteq> Define e" "short_symbol c = Some k \<Longrightarrow> \<forall>e. k \<noteq> Define e"
  by (auto simp: long_symbol_def short_symbol_def split: if_splits)

lemma comment_kinds:
  "Cursor_line_comment c = Some (k, c') \<Longrightarrow> \<forall>e. k \<noteq> Define e"
  "block_comment_loop c = (k, c') \<Longrightarrow> \<forall>e. k \<noteq> Define e"
proof -
  show "Cursor_line_comment c = Some (k, c') \<Longrightarrow> \<forall>e. k \<noteq> Define e"
    by (auto simp: Cursor_line_comment_def bind_eq_Some_conv)
  show "block_comment_loop c = (k, c') \<Longrightarrow> \<forall>e. k \<noteq> Define e"
  proof (induction c rule: block_comment_loop.induct)
    case (1 c)
    obtain x d where b: "Cursor_bump c = (x, d)" by (cases "Cursor_bump c")
    from 1(2) [unfolded block_comment_loop.simps [of c]] 1(1) [OF b [symmetric]] b show ?case
      by (auto split: if_splits option.splits)
  qed
qed

lemma scans_symbol: "Cursor_symbol x c = Some (k, c') \<Longrightarrow> scans_kind c k c'"
  by (auto simp: Cursor_symbol_def Cursor_double_quoted_string_def bind_eq_Some_conv
      split: option.splits if_splits prod.splits intro!: scans_kindI consumes_scans
      dest: symbol_not_define consumes_double_quoted_loop)

lemma scans_token_kind:
  assumes "Cursor_token_kind x c = Some (k, c')"
  shows "scans_kind c k c'"
proof -
  have eaten: "consumes c (Cursor_eat_while p (bumped c))" for p
    by (rule consumes_trans [OF consumes_bumped consumes_eat_while])
  note cases = assms [unfolded Cursor_token_kind_def]
  have ws: "scans_kind c k c'" if "Cursor_whitespace d = Some (k, c')" "scans c d" for d
    using that scans_trans [OF that(2) scans_whitespace_loop]
    by (auto simp: Cursor_whitespace_def bind_eq_Some_conv intro: scans_kindI)
  consider (slash) "x = ch CHR ''/''" | (newline) "x = NEWLINE" "x \<noteq> ch CHR ''/''"
    | (space) "is_whitespace x \<or> (x = BACKSLASH \<and> Cursor_first c = NEWLINE)" "x \<noteq> ch CHR ''/''" "x \<noteq> NEWLINE"
    | (other) "x \<noteq> ch CHR ''/''" "x \<noteq> NEWLINE" "\<not> is_whitespace x" "\<not> (x = BACKSLASH \<and> Cursor_first c = NEWLINE)"
    by blast
  then show ?thesis
  proof cases
    case slash
    then show ?thesis
      using cases
      by (auto split: if_splits intro!: scans_kindI consumes_scans dest: consumes_comments comment_kinds)
        (auto simp: Cursor_block_comment_def bind_eq_Some_conv dest: comment_kinds)
  next
    case newline
    then obtain d b where "Cursor_finish_marker c = Some (d, b)" "Cursor_whitespace d = Some (k, c')"
      using cases by (auto simp: bind_eq_Some_conv)
    then show ?thesis using ws scans_finish_marker by blast
  next
    case space
    then show ?thesis
      using cases ws [of c] ws [of "bumped c"] by (auto split: if_splits simp: consumes_scans)
  next
    case other
    then have "Cursor_compiler_directive c = (k, c') \<or> Cursor_symbol x c = Some (k, c') \<or>
        consumes c c' \<and> (\<forall>e. k \<noteq> Define e)"
      using cases
      by (auto split: if_splits simp: bind_eq_Some_conv Cursor_eat_identifier_def consumes_eat_while eaten
          dest: consumes_number)
    then show ?thesis
      using scans_symbol scans_compiler_directive scans_kindI consumes_scans by blast
  qed
qed


section \<open>The tokens cover the text\<close>

text \<open>
  Between tokens: the text read so far is cut into nonempty pieces, one per token, whose lengths
  are those of the tokens, and the marker of an open \<open>`define\<close> names a token.
\<close>

definition lexed :: "rchar list \<Rightarrow> lex_cursor \<Rightarrow> rchar list list \<Rightarrow> bool" where
  "lexed input c pieces \<longleftrightarrow> input = concat pieces @ c_chars c \<and> [] \<notin> set pieces \<and>
     map tok_len (c_dst c) = map utf8_len pieces \<and> c_initial_len c = utf8_len (c_chars c) \<and>
     utf8_len input < 2 ^ 32 \<and> marks_ok (length (c_dst c)) c"

lemma utf8_len_append [simp]: "utf8_len (xs @ ys) = utf8_len xs + utf8_len ys"
  by (simp add: utf8_len_def)

lemma Cursor_new_lexed:
  assumes "text_size_of_spec tof"
  shows "Cursor_new tof input = Some c \<Longrightarrow> lexed input c []"
    and "utf8_len input < 2 ^ 32 \<Longrightarrow> \<exists>c. Cursor_new tof input = Some c \<and> c_chars c = input"
  using assms by (auto simp: Cursor_new_def text_size_of_spec_def lexed_def marks_ok_def bind_eq_Some_conv split: if_splits)

lemma finish_token_lexed:
  assumes tof: "text_size_of_spec tof" and l: "lexed input c pieces" and b: "Cursor_bump c = (Some x, d)"
    and k: "scans_kind d k e"
  shows "\<exists>c' p. Cursor_finish_token tof k e = Some c' \<and> lexed input c' (pieces @ [p]) \<and>
    c_chars c' = c_chars e \<and> c_chars c = p @ c_chars c' \<and> p \<noteq> []"
proof -
  obtain xs where xs: "c_chars d = xs @ c_chars e" using k by (auto simp: scans_kind_def)
  have c: "c_chars c = x # xs @ c_chars e" "c_initial_len d = c_initial_len c" "c_dst d = c_dst c" "c_marker d = c_marker c"
    using b xs by (auto simp: Cursor_bump_def split: list.splits)
  have e: "c_initial_len e = utf8_len (x # xs) + utf8_len (c_chars e)" "map tok_len (c_dst e) = map utf8_len pieces"
    using k l c by (auto simp: scans_kind_def lexed_def simp flip: utf8_len_append)
  have "utf8_len input = utf8_len (concat pieces) + (utf8_len (x # xs) + utf8_len (c_chars e))"
    using l c(1) by (simp add: lexed_def flip: utf8_len_append)
  then have le: "utf8_len (c_chars e) < 2 ^ 32" using l by (simp add: lexed_def)
  define c' where "c' = e\<lparr>c_initial_len := utf8_len (c_chars e), c_dst := c_dst e @ [\<lparr>tok_kind = k, tok_len = utf8_len (x # xs)\<rparr>]\<rparr>"
  have "Cursor_finish_token tof k e = Some c'"
    using tof le e(1) by (simp add: Cursor_finish_token_def Cursor_len_consumed_def text_size_of_spec_def c'_def)
  moreover have len: "length (c_dst e) = length (c_dst c)"
    using e(2) l by (metis lexed_def length_map)
  have "marks_ok (length (c_dst c)) d" using l c by (auto simp: lexed_def marks_ok_def)
  then have "marks_ok (Suc (length (c_dst e))) e" "\<forall>n. k \<noteq> Define n"
    using k c len by (auto simp: scans_kind_def)
  then have "marks_ok (length (c_dst c')) c'"
    by (fastforce simp: marks_ok_def c'_def nth_append less_Suc_eq)
  then have "lexed input c' (pieces @ [x # xs])"
    using l c(1) e(2) by (auto simp: lexed_def c'_def)
  moreover have "c_chars c' = c_chars e" by (simp add: c'_def)
  ultimately show ?thesis using c(1) by (intro exI [of _ c'] exI [of _ "x # xs"]) simp
qed

lemma advance_token_lexed:
  assumes "text_size_of_spec tof" "lexed input c pieces" "Cursor_advance_token tof c = Some c'"
  shows "\<exists>p. lexed input c' (pieces @ [p]) \<and> c_chars c = p @ c_chars c' \<and> p \<noteq> []"
proof -
  obtain x d k e where s: "Cursor_bump c = (Some x, d)" "Cursor_token_kind x d = Some (k, e)"
    "Cursor_finish_token tof k e = Some c'"
    using assms(3) by (auto simp: Cursor_advance_token_def bind_eq_Some_conv split: prod.splits option.splits)
  from finish_token_lexed [OF assms(1,2) s(1) scans_token_kind [OF s(2)]] s(3) show ?thesis by auto
qed

lemma tokenize_loop_lexed:
  assumes "text_size_of_spec tof"
  shows "tokenize_loop tof c = Some c' \<Longrightarrow> lexed input c pieces \<Longrightarrow> \<exists>ps. lexed input c' ps \<and> c_chars c' = []"
proof (induction "length (c_chars c)" arbitrary: c pieces rule: less_induct)
  case less
  show ?case
  proof (cases "Cursor_is_eof c")
    case True
    with less.prems show ?thesis by (subst (asm) tokenize_loop.simps) (auto simp: Cursor_is_eof_def)
  next
    case False
    then obtain d where d: "Cursor_advance_token tof c = Some d" "tokenize_loop tof d = Some c'"
      using less.prems(1) by (subst (asm) tokenize_loop.simps) (auto simp: bind_eq_Some_conv)
    then obtain p where p: "lexed input d (pieces @ [p])" "c_chars c = p @ c_chars d" "p \<noteq> []"
      using advance_token_lexed [OF assms less.prems(2)] by blast
    then show ?thesis using less.hyps [of d] d(2) by auto
  qed
qed

lemma finish_marker_lens: "Cursor_finish_marker c = Some (c', b) \<Longrightarrow> map tok_len (c_dst c') = map tok_len (c_dst c)"
  using scans_finish_marker by (auto simp: scans_def)

lemma tokenize_pieces:
  assumes "text_size_of_spec tof" "tokenize tof input = Some toks"
  shows "\<exists>pieces. concat pieces = input \<and> [] \<notin> set pieces \<and> map tok_len toks = map utf8_len pieces"
    and "\<forall>i < length toks. \<forall>e. tok_kind (toks ! i) = Define e \<longrightarrow> i < e \<and> e \<le> length toks"
proof -
  obtain c d e b where s: "Cursor_new tof input = Some c" "tokenize_loop tof c = Some d"
    "Cursor_finish_marker d = Some (e, b)" "toks = c_dst e"
    using assms(2) by (auto simp: tokenize_def Cursor_finish_def bind_eq_Some_conv)
  from tokenize_loop_lexed [OF assms(1) s(2) Cursor_new_lexed(1) [OF assms(1) s(1)]]
  obtain ps where l: "lexed input d ps" "c_chars d = []" by blast
  show "\<exists>pieces. concat pieces = input \<and> [] \<notin> set pieces \<and> map tok_len toks = map utf8_len pieces"
    using l finish_marker_lens [OF s(3)] s(4) by (auto simp: lexed_def)
  have "marks_ok (length (c_dst d)) e" "length (c_dst e) = length (c_dst d)"
    using scans_finish_marker [OF s(3)] l(1) unfolding scans_def lexed_def by (metis, metis length_map)
  then show "\<forall>i < length toks. \<forall>e. tok_kind (toks ! i) = Define e \<longrightarrow> i < e \<and> e \<le> length toks"
    by (simp add: s(4) marks_ok_def)
qed

section \<open>The scanner returns\<close>

lemma first_simps:
  "c_chars c = x # xs \<Longrightarrow> Cursor_first c = x"
  "c_chars c = [] \<Longrightarrow> Cursor_first c = EOF_CHAR"
  "c_chars c = x # y # xs \<Longrightarrow> Cursor_second c = y"
  "c_chars c = [x] \<Longrightarrow> Cursor_second c = EOF_CHAR"
  by (simp_all add: Cursor_first_def Cursor_second_def Cursor_nth_char_def)

lemma bumped_simps:
  "c_chars c = x # xs \<Longrightarrow> c_chars (bumped c) = xs"
  "c_chars c = x # xs \<Longrightarrow> c_prev (bumped c) = x"
  "c_chars c = [] \<Longrightarrow> bumped c = c"
  by (simp_all add: Cursor_bump_def)

lemma prev_bumped: "Cursor_first c \<noteq> EOF_CHAR \<Longrightarrow> c_prev (bumped c) = Cursor_first c"
  by (cases "c_chars c") (auto simp: first_simps bumped_simps)

lemma line_comment_loop_returns:
  assumes "NEWLINE \<in> set (c_chars c)" "c_prev c \<noteq> NEWLINE" "\<not> (c_prev c = BACKSLASH \<and> Cursor_first c = NEWLINE)"
  shows "\<exists>c'. line_comment_loop c = Some c' \<and> c_prev c' \<noteq> NEWLINE \<and>
    \<not> (c_prev c' = BACKSLASH \<and> Cursor_first c' = NEWLINE)"
  using assms
proof (induction "c_chars c" arbitrary: c)
  case (Cons x xs)
  note x = Cons.hyps(2) [symmetric]
  show ?case
  proof (cases "x = NEWLINE \<or> x = BACKSLASH \<and> Cursor_second c = NEWLINE")
    case True
    then have "line_comment_loop c = Some c"
      by (subst line_comment_loop.simps) (auto simp: first_simps(1) [OF x])
    with Cons.prems show ?thesis by blast
  next
    case False
    then have "line_comment_loop c = line_comment_loop (bumped c)"
      by (subst line_comment_loop.simps) (auto simp: first_simps(1) [OF x])
    moreover have "NEWLINE \<in> set xs" using Cons.prems(1) False by (auto simp flip: Cons.hyps(2))
    moreover have "\<not> (x = BACKSLASH \<and> Cursor_first (bumped c) = NEWLINE)"
      using False calculation(2) bumped_simps(1) [OF x] by (cases xs) (auto simp: first_simps x)
    ultimately show ?thesis
      using Cons.hyps(1) [of "bumped c"] False by (simp add: bumped_simps(1,2) [OF x])
  qed
qed simp

lemma line_comment_loop_newline:
  "line_comment_loop c = Some c' \<Longrightarrow> NEWLINE \<in> set (c_chars c)"
proof (induction rule: line_comment_loop.raw_induct [rotated, consumes 1])
  case (1 f c c')
  have sub: "set (c_chars (bumped c)) \<subseteq> set (c_chars c)"
    by (cases "c_chars c") (auto simp: bumped_simps)
  have "NEWLINE \<in> set (c_chars (bumped c))" if "f (bumped c) = Some c'"
    using 1(1) [OF that] .
  with 1(2) sub show ?case
    by (cases "c_chars c"; cases "tl (c_chars c)")
      (auto simp: first_simps EOF_CHAR_def NEWLINE_def BACKSLASH_def split: if_splits)
qed

lemma whitespace_loop_returns:
  "marks_ok (length (c_dst c)) c \<Longrightarrow> \<exists>c'. whitespace_loop c = Some c'"
proof (induction c rule: whitespace_loop.induct)
  case (1 c)
  have b: "marks_ok (length (c_dst (bumped d))) (bumped d)" if "marks_ok (length (c_dst d)) d" for d
    using that consumes_bumped [of d] by (simp add: consumes_def marks_ok_def)
  show ?case
  proof (cases "Cursor_first c = NEWLINE")
    case True
    obtain d fin where d: "Cursor_finish_marker c = Some (d, fin)" using finish_marker_ok [OF 1(4)] by blast
    have "marks_ok (length (c_dst d)) d"
      using scans_finish_marker [OF d] 1(4) by (auto simp: scans_def dest: map_eq_imp_length_eq)
    then show ?thesis
      using True d 1(1) [OF True d refl] by (subst whitespace_loop.simps) (auto dest: b)
  next
    case False
    with 1 show ?thesis by (subst whitespace_loop.simps) (auto dest: b)
  qed
qed

lemma eat_float_exponent_returns:
  "c_prev c = ch CHR ''e'' \<or> c_prev c = ch CHR ''E'' \<Longrightarrow> \<exists>r c'. Cursor_eat_float_exponent c = Some (r, c')"
  unfolding Cursor_eat_float_exponent_def by (cases "Cursor_eat_decimal_digits c") (auto simp: Let_def)

lemma number_returns:
  "char_is_ascii_digit (c_prev c) \<Longrightarrow> \<exists>r c'. Cursor_number c = Some (r, c')"
proof -
  assume p: "char_is_ascii_digit (c_prev c)"
  have e: "\<exists>r c'. Cursor_eat_float_exponent (bumped d) = Some (r, c')"
    if "Cursor_first d = ch CHR ''e'' \<or> Cursor_first d = ch CHR ''E''" for d
    using that prev_bumped [of d] by (intro eat_float_exponent_returns) (auto simp: EOF_CHAR_def)
  obtain b d where d: "Cursor_eat_decimal_digits c = (b, d)" by (cases "Cursor_eat_decimal_digits c")
  obtain b2 d2 where d2: "Cursor_eat_decimal_digits (bumped d) = (b2, d2)" by (cases "Cursor_eat_decimal_digits (bumped d)")
  show ?thesis
    using p d d2 e [of d] e [of d2] by (auto simp: Cursor_number_def Let_def char_is_ascii_digit_def)
qed


lemma line_comment_returns:
  assumes "c_prev c = ch CHR ''/''" "Cursor_first c = ch CHR ''/''" "NEWLINE \<in> set (c_chars c)"
  shows "\<exists>k c'. Cursor_line_comment c = Some (k, c')"
proof -
  obtain xs where xs: "c_chars c = ch CHR ''/'' # xs"
    using assms(2) by (cases "c_chars c") (auto simp: first_simps EOF_CHAR_def)
  have "NEWLINE \<in> set (c_chars (bumped c))" "c_prev (bumped c) = ch CHR ''/''"
    using assms(3) xs by (auto simp: bumped_simps(1,2) [OF xs] NEWLINE_def)
  with line_comment_loop_returns [of "bumped c"] obtain d where
    "line_comment_loop (bumped c) = Some d" "c_prev d \<noteq> NEWLINE" "\<not> (c_prev d = BACKSLASH \<and> Cursor_first d = NEWLINE)"
    by (auto simp: NEWLINE_def BACKSLASH_def)
  with assms show ?thesis by (auto simp: Cursor_line_comment_def)
qed

lemma whitespace_returns: "marks_ok (length (c_dst c)) c \<Longrightarrow> \<exists>k c'. Cursor_whitespace c = Some (k, c')"
  using whitespace_loop_returns [of c] by (auto simp: Cursor_whitespace_def)

lemma symbol_returns: "c_prev c = x \<Longrightarrow> \<exists>k c'. Cursor_symbol x c = Some (k, c')"
  by (auto simp: Cursor_symbol_def Cursor_double_quoted_string_def split: option.splits prod.splits)

lemma consumes_marks_ok:
  "consumes c d \<Longrightarrow> marks_ok (length (c_dst c)) c \<Longrightarrow> marks_ok (length (c_dst d)) d"
  by (simp add: consumes_def marks_ok_def)

lemma scans_marks_ok:
  "scans c d \<Longrightarrow> marks_ok (length (c_dst c)) c \<Longrightarrow> marks_ok (length (c_dst d)) d"
  unfolding scans_def by (metis length_map)

lemma returns_iff: "(\<exists>a b. m = Some (a, b)) \<longleftrightarrow> m \<noteq> None"
  by (cases m) auto

lemma if_returns: "(b \<Longrightarrow> m \<noteq> None) \<Longrightarrow> (\<not> b \<Longrightarrow> n \<noteq> None) \<Longrightarrow> (if b then m else n) \<noteq> None"
  by simp

lemma token_kind_returns:
  assumes "c_prev c = x" "marks_ok (length (c_dst c)) c" "NEWLINE \<in> set (c_chars c) \<or> c_chars c = []"
  shows "\<exists>k c'. Cursor_token_kind x c = Some (k, c')"
proof -
  have wb: "\<exists>k c'. Cursor_whitespace (bumped c) = Some (k, c')"
    by (rule whitespace_returns [OF consumes_marks_ok [OF consumes_bumped assms(2)]])
  have fm: "\<exists>k c'. (do { (c, _) \<leftarrow> Cursor_finish_marker c; Cursor_whitespace c }) = Some (k, c')"
  proof -
    obtain d b where d: "Cursor_finish_marker c = Some (d, b)" using finish_marker_ok [OF assms(2)] by blast
    from whitespace_returns [OF scans_marks_ok [OF scans_finish_marker [OF d] assms(2)]] d show ?thesis by simp
  qed
  have lc: "x = ch CHR ''/'' \<Longrightarrow> Cursor_first c = ch CHR ''/'' \<Longrightarrow> \<exists>k c'. Cursor_line_comment c = Some (k, c')"
    using line_comment_returns [of c] assms by (auto simp: first_simps EOF_CHAR_def)
  have bc: "x = ch CHR ''/'' \<Longrightarrow> Cursor_first c = ch CHR ''*'' \<Longrightarrow> \<exists>k c'. Cursor_block_comment c = Some (k, c')"
    using assms(1) by (cases "block_comment_loop (bumped c)") (auto simp: Cursor_block_comment_def)
  have nm: "char_is_ascii_digit x \<Longrightarrow> \<exists>k c'. (do { (k, c) \<leftarrow> Cursor_number c; Some (Literal k, c) }) = Some (k, c')"
    using number_returns [of c] assms(1) by auto
  have cd: "\<exists>k c'. Some (Cursor_compiler_directive c) = Some (k, c')"
    by (cases "Cursor_compiler_directive c") auto
  note facts = wb fm lc bc nm cd whitespace_returns [OF assms(2)] symbol_returns [OF assms(1)]
  show ?thesis
    unfolding Cursor_token_kind_def returns_iff
    by (intro if_returns impI) (use facts [unfolded returns_iff] in blast)+
qed

text \<open>A text is newline-terminated when it is empty or its last character is a newline.\<close>

definition newline_terminated :: "rchar list \<Rightarrow> bool" where
  "newline_terminated s \<longleftrightarrow> s = [] \<or> last s = NEWLINE"

lemma newline_terminated_rest:
  "newline_terminated (xs @ ys) \<Longrightarrow> NEWLINE \<in> set ys \<or> ys = []" "newline_terminated (xs @ ys) \<Longrightarrow> newline_terminated ys"
  by (auto simp: newline_terminated_def last_append split: if_splits) (metis last_in_set)

lemma advance_token_returns:
  assumes "text_size_of_spec tof" "lexed input c pieces" "c_chars c \<noteq> []" "newline_terminated (c_chars c)"
  shows "\<exists>c'. Cursor_advance_token tof c = Some c'"
proof -
  obtain x xs where x: "c_chars c = x # xs" using assms(3) by (cases "c_chars c") auto
  define d where "d = bumped c"
  have d: "Cursor_bump c = (Some x, d)" "c_chars d = xs" "c_prev d = x"
    using x by (simp_all add: d_def Cursor_bump_def)
  have "marks_ok (length (c_dst d)) d"
    unfolding d_def using assms(2) by (intro consumes_marks_ok [OF consumes_bumped]) (simp add: lexed_def)
  with newline_terminated_rest(1) [of "[x]" xs] assms(4) d obtain k e where k: "Cursor_token_kind x d = Some (k, e)"
    using token_kind_returns [of d x] by (auto simp: x)
  from finish_token_lexed [OF assms(1,2) d(1) scans_token_kind [OF k]] d(1) k show ?thesis
    by (auto simp: Cursor_advance_token_def)
qed

lemma tokenize_loop_returns:
  assumes "text_size_of_spec tof"
  shows "lexed input c pieces \<Longrightarrow> newline_terminated (c_chars c) \<Longrightarrow> \<exists>c'. tokenize_loop tof c = Some c'"
proof (induction "length (c_chars c)" arbitrary: c pieces rule: less_induct)
  case less
  show ?case
  proof (cases "Cursor_is_eof c")
    case True
    then show ?thesis by (subst tokenize_loop.simps) simp
  next
    case False
    then have ne: "c_chars c \<noteq> []" by (simp add: Cursor_is_eof_def)
    obtain d where d: "Cursor_advance_token tof c = Some d"
      using advance_token_returns [OF assms less.prems(1) ne less.prems(2)] by blast
    obtain p where p: "lexed input d (pieces @ [p])" "c_chars c = p @ c_chars d" "p \<noteq> []"
      using advance_token_lexed [OF assms less.prems(1) d] by blast
    then have "\<exists>c'. tokenize_loop tof d = Some c'"
      using less.hyps [of d] newline_terminated_rest(2) less.prems(2) by force
    then show ?thesis using False d by (subst tokenize_loop.simps) simp
  qed
qed

lemma tokenize_returns:
  assumes "text_size_of_spec tof" "utf8_len input < 2 ^ 32" "newline_terminated input"
  shows "\<exists>toks. tokenize tof input = Some toks"
proof -
  obtain c where c: "Cursor_new tof input = Some c" "c_chars c = input"
    using Cursor_new_lexed(2) [OF assms(1,2)] by blast
  have l: "lexed input c []" by (rule Cursor_new_lexed(1) [OF assms(1) c(1)])
  obtain d where d: "tokenize_loop tof c = Some d"
    using tokenize_loop_returns [OF assms(1) l] assms(3) c(2) by auto
  obtain ps where "lexed input d ps" using tokenize_loop_lexed [OF assms(1) d l] by blast
  then obtain e b where "Cursor_finish_marker d = Some (e, b)"
    using finish_marker_ok [of d] by (auto simp: lexed_def)
  with c(1) d show ?thesis by (auto simp: tokenize_def Cursor_finish_def)
qed


section \<open>Properties\<close>

text \<open>What the crate documents of \<open>TextSize::of\<close>, as a function.\<close>

definition text_size_of :: "rchar list \<Rightarrow> nat panics" where
  "text_size_of s = (if utf8_len s < 2 ^ 32 then Some (utf8_len s) else None)"

lemma text_size_of_meets_spec: "text_size_of_spec text_size_of"
  by (simp add: text_size_of_spec_def text_size_of_def)

text \<open>
  C18: lexing is lossless. The tokens cut the text into nonempty consecutive pieces, and each
  token's length is the UTF-8 length of its piece, so the lengths add up to the text's.
\<close>

theorem tokenize_lossless:
  assumes "text_size_of_spec tof" "tokenize tof input = Some toks"
  shows "\<exists>pieces. concat pieces = input \<and> [] \<notin> set pieces \<and> map tok_len toks = map utf8_len pieces \<and>
    sum_list (map tok_len toks) = utf8_len input"
proof -
  from tokenize_pieces(1) [OF assms] obtain ps where ps:
    "concat ps = input" "[] \<notin> set ps" "map tok_len toks = map utf8_len ps" by blast
  have "sum_list (map utf8_len ps) = utf8_len (concat ps)"
    by (induction ps) (simp_all, simp add: utf8_len_def)
  with ps show ?thesis by auto
qed

text \<open>
  C19: the lexer returns on every newline-terminated text that fits 32 bits, whatever its
  characters; no debug assertion, index or subtraction in it panics.
\<close>

theorem tokenize_total:
  assumes "text_size_of_spec tof" "utf8_len input < 2 ^ 32" "newline_terminated input"
  shows "\<exists>toks. tokenize tof input = Some toks"
  by (rule tokenize_returns [OF assms])

text \<open>
  C29: a line comment at the end of a text without a final newline sends the lexer into an endless
  loop: the loop of the comment, in which nothing can panic, has no result, so lexing has none.
\<close>

theorem line_comment_at_eof_hangs:
  assumes "NEWLINE \<notin> set s"
  shows "(\<forall>c. c_chars c = s \<longrightarrow> line_comment_loop c = None) \<and>
    tokenize tof (ch CHR ''/'' # ch CHR ''/'' # s) = None"
proof -
  have loop: "line_comment_loop c = None" if "c_chars c = s" for c
    using line_comment_loop_newline [of c] assms that by (cases "line_comment_loop c") auto
  let ?in = "ch CHR ''/'' # ch CHR ''/'' # s"
  have "Cursor_advance_token tof c = None" if "c_chars c = ?in" for c
  proof -
    define d where "d = bumped c"
    have d: "Cursor_bump c = (Some (ch CHR ''/''), d)" "c_chars d = ch CHR ''/'' # s"
      using that by (simp_all add: Cursor_bump_def d_def)
    have "c_chars (bumped d) = s" by (rule bumped_simps(1) [OF d(2)])
    then have "line_comment_loop (bumped d) = None" by (rule loop)
    then have "Cursor_line_comment d = None" by (simp add: Cursor_line_comment_def bind_eq_None_conv)
    then show ?thesis
      using d by (simp add: Cursor_advance_token_def Cursor_token_kind_def first_simps(1) [OF d(2)])
  qed
  then have "tokenize_loop tof c = None" if "c_chars c = ?in" for c
    using that by (subst tokenize_loop.simps) (simp add: Cursor_is_eof_def)
  moreover have "c_chars c = ?in" if "Cursor_new tof ?in = Some c" for c
    using that by (auto simp: Cursor_new_def bind_eq_Some_conv)
  ultimately have "tokenize tof ?in = None"
    by (cases "Cursor_new tof ?in") (auto simp: tokenize_def)
  with loop show ?thesis by blast
qed

text \<open>
  a closed macro definition names a later token, at most the end of the token list: the
  preprocessor can cut the definition's tokens out of the list.
\<close>

theorem tokenize_define_ends:
  assumes "text_size_of_spec tof" "tokenize tof input = Some toks"
    and "i < length toks" "tok_kind (toks ! i) = Define e"
  shows "i < e \<and> e \<le> length toks"
  using tokenize_pieces(2) [OF assms(1,2)] assms(3,4) by blast


text \<open>
  The arithmetic shift tokens are one character short. On \<open><<<\<close> the lexer emits the kind
  \<open>ShlA\<close> for the first two characters only, and the third is left in the text (so is \<open>>>>\<close>).
\<close>

theorem arithmetic_shift_token_short:
  assumes "text_size_of_spec tof" "lexed input c pieces"
    and "x = ch CHR ''<'' \<and> k = ShlA \<or> x = ch CHR ''>'' \<and> k = ShrA" "c_chars c = x # x # x # s"
  shows "\<exists>c'. Cursor_advance_token tof c = Some c' \<and>
    c_dst c' = c_dst c @ [\<lparr>tok_kind = k, tok_len = 2\<rparr>] \<and> c_chars c' = x # s"
proof -
  define d where "d = bumped c"
  have d: "Cursor_bump c = (Some x, d)" "c_chars d = x # x # s" "c_dst d = c_dst c" "c_initial_len d = c_initial_len c"
    using assms(4) by (simp_all add: Cursor_bump_def d_def)
  have b: "c_chars (bumped d) = x # s" by (rule bumped_simps(1) [OF d(2)])
  have "Cursor_token_kind x d = Some (k, bumped d)"
    using assms(3) d(2) by (auto simp: Cursor_token_kind_def Cursor_symbol_def long_symbol_def first_simps
        is_whitespace_def is_ident_start_char_def char_is_ascii_digit_def char_codes)
  moreover have "utf8_len (c_chars c) = 2 + utf8_len (x # s)" "utf8_len (c_chars c) < 2 ^ 32"
    using assms(2-4) by (auto simp: utf8_len_def utf8_char_len_def lexed_def)
  moreover have "c_initial_len (bumped d) = utf8_len (c_chars c)" "c_dst (bumped d) = c_dst c"
    using consumes_bumped [of d] d assms(2) by (auto simp: consumes_def lexed_def)
  ultimately show ?thesis
    using d b assms(1)
    by (simp add: Cursor_advance_token_def Cursor_finish_token_def Cursor_len_consumed_def text_size_of_spec_def)
qed

text \<open>Stepwise evaluation of the lexer on a concrete text.\<close>

lemma tokenize_loop_steps:
  "c_chars c = [] \<Longrightarrow> tokenize_loop tof c = Some c"
  "c_chars c = x # xs \<Longrightarrow> tokenize_loop tof c = do { c \<leftarrow> Cursor_advance_token tof c; tokenize_loop tof c }"
  by (subst tokenize_loop.simps, simp add: Cursor_is_eof_def)+

lemma whitespace_loop_eof: "c_chars c = [] \<Longrightarrow> whitespace_loop c = Some c"
  by (subst whitespace_loop.simps) (simp add: first_simps EOF_CHAR_def char_codes char_is_whitespace_def)

lemmas cursor_eval = tokenize_loop_steps whitespace_loop_eof Cursor_advance_token_def Cursor_bump_def
  Cursor_token_kind_def Cursor_first_def Cursor_second_def Cursor_nth_char_def
  Cursor_compiler_directive_def Cursor_set_marker_def Cursor_finish_token_def Cursor_len_consumed_def
  Cursor_finish_marker_def Cursor_whitespace_def Cursor_finish_def Cursor_new_def
  text_size_of_def utf8_len_def utf8_char_len_def char_codes is_whitespace_def is_ident_char_def
  is_ident_start_char_def EOF_CHAR_def

lemma lex_define:
  "tokenize text_size_of (map of_char ''`define'' @ [NEWLINE]) =
     Some [\<lparr>tok_kind = Define 1, tok_len = 7\<rparr>, \<lparr>tok_kind = Whitespace, tok_len = 1\<rparr>]"
  by (simp add: tokenize_def cursor_eval Let_def)

lemma tokenize_lossless_witness:
  "sum_list (map tok_len [\<lparr>tok_kind = Define 1, tok_len = 7\<rparr>, \<lparr>tok_kind = Whitespace, tok_len = 1\<rparr>]) =
     utf8_len (map of_char ''`define'' @ [NEWLINE])"
  using tokenize_lossless [OF text_size_of_meets_spec lex_define] by blast

lemma tokenize_total_witness:
  "\<exists>toks. tokenize text_size_of [ch CHR ''/'', ch CHR ''/'', NEWLINE] = Some toks"
  by (rule tokenize_total [OF text_size_of_meets_spec])
    (simp_all add: utf8_len_def utf8_char_len_def NEWLINE_def newline_terminated_def)

lemma line_comment_at_eof_hangs_witness:
  "tokenize text_size_of (map of_char ''//x'') = None"
  using line_comment_at_eof_hangs [of "[ch CHR ''x'']" text_size_of] by (simp add: NEWLINE_def)

lemma tokenize_define_ends_witness:
  "\<exists>toks e. tokenize text_size_of (map of_char ''`define'' @ [NEWLINE]) = Some toks \<and>
     tok_kind (toks ! 0) = Define e \<and> 0 < e \<and> e \<le> length toks"
  using tokenize_define_ends [OF text_size_of_meets_spec lex_define, of 0 1] lex_define by simp

lemma arithmetic_shift_token_short_witness:
  "\<exists>c'. Cursor_advance_token text_size_of
      \<lparr>c_initial_len = 3, c_chars = map of_char ''<<<'', c_prev = EOF_CHAR, c_dst = [], c_marker = None\<rparr> = Some c' \<and>
    c_dst c' = [\<lparr>tok_kind = ShlA, tok_len = 2\<rparr>]"
  using arithmetic_shift_token_short [OF text_size_of_meets_spec, of "map of_char ''<<<''"
      "\<lparr>c_initial_len = 3, c_chars = map of_char ''<<<'', c_prev = EOF_CHAR, c_dst = [], c_marker = None\<rparr>" "[]"
      "ch CHR ''<''" ShlA "[]"]
  by (auto simp: lexed_def utf8_len_def utf8_char_len_def marks_ok_def)

end
