(* ===== verification/Interpreter.thy ===== *)
theory Interpreter
  imports Mir_Function
begin

text \<open>
  The MIR interpreter, \<^verbatim>\<open>openvaf/mir_interpret/src/lib.rs\<close> and \<^verbatim>\<open>data.rs\<close>: the semantics of the MIR.
  \<open>Data\<close> is the eight bytes of the union as a 64-bit word, least significant byte first; a constructor
  leaves the bytes it does not write at all ones. Reading a \<open>bool\<close> whose byte is neither 0 nor 1 is
  undefined behaviour in Rust and \<open>None\<close> here, as is a panic. The functions that calls invoke are given
  as a table; they see the state and share a world of their own type, which stands for what their data
  pointers point to.
\<close>

section \<open>Data\<close>

type_synonym mir_data = u64

definition Data_UNDEF :: mir_data where
  "Data_UNDEF = NOT 0"

definition Data_is_undef :: "mir_data \<Rightarrow> bool" where
  "Data_is_undef d \<longleftrightarrow> d = NOT 0"

definition data_low_bytes :: "nat \<Rightarrow> u64 \<Rightarrow> mir_data" where
  "data_low_bytes n x = push_bit (8 * n) (drop_bit (8 * n) Data_UNDEF) OR take_bit (8 * n) x"

definition Data_from_f64 :: "u64 \<Rightarrow> mir_data" where
  "Data_from_f64 x = x"

definition Data_from_i32 :: "u32 \<Rightarrow> mir_data" where
  "Data_from_i32 x = data_low_bytes 4 (ucast x)"

definition Data_from_str :: "nat \<Rightarrow> mir_data" where
  "Data_from_str s = data_low_bytes 4 (word_of_nat s)"

definition Data_from_bool :: "bool \<Rightarrow> mir_data" where
  "Data_from_bool b = data_low_bytes 1 (if b then 1 else 0)"

definition Data_from_const :: "mir_const \<Rightarrow> mir_data" where
  "Data_from_const c =
     (case c of CFloat x \<Rightarrow> Data_from_f64 x | CInt x \<Rightarrow> Data_from_i32 x
      | CStr s \<Rightarrow> Data_from_str s | CBool b \<Rightarrow> Data_from_bool b)"

definition Data_f64 :: "mir_data \<Rightarrow> u64" where
  "Data_f64 d = d"

definition Data_i32 :: "mir_data \<Rightarrow> u32" where
  "Data_i32 d = ucast d"

definition Data_str :: "mir_data \<Rightarrow> nat panics" where
  "Data_str d = (if take_bit 32 d = 0 then None else Some (unat (take_bit 32 d)))"

definition Data_bool :: "mir_data \<Rightarrow> bool panics" where
  "Data_bool d = (if take_bit 8 d = 0 then Some False else if take_bit 8 d = 1 then Some True else None)"

section \<open>State\<close>

record interp_state =
  vals :: "mir_data list"
  prev_bb :: block
  next_inst :: "inst option"

definition InterpreterState_write :: "mir_value \<Rightarrow> mir_data \<Rightarrow> interp_state \<Rightarrow> interp_state panics" where
  "InterpreterState_write dst x s = do { vs \<leftarrow> vec_set (vals s) dst x; Some (s\<lparr>vals := vs\<rparr>) }"

definition InterpreterState_read :: "interp_state \<Rightarrow> mir_value \<Rightarrow> mir_data panics" where
  "InterpreterState_read s v = vec_get (vals s) v"

type_synonym 'w call_fun = "interp_state \<Rightarrow> mir_value list \<Rightarrow> mir_value list \<Rightarrow> 'w \<Rightarrow> (interp_state \<times> 'w) panics"

definition init_val :: "mir_data list \<Rightarrow> val_table \<Rightarrow> mir_value \<Rightarrow> mir_data panics" where
  "init_val args V v =
     do { def \<leftarrow> DfgValues_def V v;
          (case def of
             DefResult _ _ \<Rightarrow> Some Data_UNDEF
           | DefInvalid \<Rightarrow> Some Data_UNDEF
           | DefParam p \<Rightarrow> vec_get args p
           | DefConst c \<Rightarrow> Some (Data_from_const c)) }"

fun init_vals :: "mir_data list \<Rightarrow> val_table \<Rightarrow> mir_value list \<Rightarrow> mir_data list panics" where
  "init_vals args V [] = Some []"
| "init_vals args V (v # vs) = do { d \<leftarrow> init_val args V v; ds \<leftarrow> init_vals args V vs; Some (d # ds) }"

definition Interpreter_new :: "mir_function \<Rightarrow> mir_data list \<Rightarrow> interp_state panics" where
  "Interpreter_new F args =
     do { vs \<leftarrow> init_vals args (d_values (fn_dfg F)) (DfgValues_iter (d_values (fn_dfg F)));
          entry \<leftarrow> Layout_entry_block (fn_layout F);
          first \<leftarrow> Layout_first_inst (fn_layout F) entry;
          Some \<lparr>vals = vs, prev_bb = entry, next_inst = first\<rparr> }"

definition Interpreter_test :: "mir_function \<Rightarrow> interp_state panics" where
  "Interpreter_test F = Interpreter_new F []"

section \<open>One opcode\<close>

text \<open>The arms of the table of opcodes: reading the operands at their types, and writing the result.\<close>

definition float_op1 :: "(u64 \<Rightarrow> mir_data) \<Rightarrow> (nat \<Rightarrow> mir_data panics) \<Rightarrow> mir_data option panics" where
  "float_op1 f args = do { x \<leftarrow> args 0; Some (Some (f (Data_f64 x))) }"

definition float_op2 :: "(u64 \<Rightarrow> u64 \<Rightarrow> mir_data) \<Rightarrow> (nat \<Rightarrow> mir_data panics) \<Rightarrow> mir_data option panics" where
  "float_op2 f args = do { x \<leftarrow> args 0; y \<leftarrow> args 1; Some (Some (f (Data_f64 x) (Data_f64 y))) }"

definition int_op1 :: "(u32 \<Rightarrow> mir_data panics) \<Rightarrow> (nat \<Rightarrow> mir_data panics) \<Rightarrow> mir_data option panics" where
  "int_op1 f args = do { x \<leftarrow> args 0; d \<leftarrow> f (Data_i32 x); Some (Some d) }"

definition int_op2 :: "(u32 \<Rightarrow> u32 \<Rightarrow> mir_data panics) \<Rightarrow> (nat \<Rightarrow> mir_data panics) \<Rightarrow> mir_data option panics" where
  "int_op2 f args = do { x \<leftarrow> args 0; y \<leftarrow> args 1; d \<leftarrow> f (Data_i32 x) (Data_i32 y); Some (Some d) }"

definition int_arith :: "(u32 \<Rightarrow> u32 \<Rightarrow> u32 panics) \<Rightarrow> u32 \<Rightarrow> u32 \<Rightarrow> mir_data panics" where
  "int_arith f a b = map_option Data_from_i32 (f a b)"

definition int_test :: "(u32 \<Rightarrow> u32 \<Rightarrow> bool) \<Rightarrow> u32 \<Rightarrow> u32 \<Rightarrow> mir_data panics" where
  "int_test p a b = Some (Data_from_bool (p a b))"

definition bool_op1 :: "(bool \<Rightarrow> mir_data) \<Rightarrow> (nat \<Rightarrow> mir_data panics) \<Rightarrow> mir_data option panics" where
  "bool_op1 f args = do { x \<leftarrow> args 0; b \<leftarrow> Data_bool x; Some (Some (f b)) }"

definition bool_test :: "(bool \<Rightarrow> bool \<Rightarrow> bool) \<Rightarrow> (nat \<Rightarrow> mir_data panics) \<Rightarrow> mir_data option panics" where
  "bool_test p args =
     do { x \<leftarrow> args 0; a \<leftarrow> Data_bool x; y \<leftarrow> args 1; b \<leftarrow> Data_bool y; Some (Some (Data_from_bool (p a b))) }"

definition str_test :: "(nat \<Rightarrow> nat \<Rightarrow> bool) \<Rightarrow> (nat \<Rightarrow> mir_data panics) \<Rightarrow> mir_data option panics" where
  "str_test p args =
     do { x \<leftarrow> args 0; a \<leftarrow> Data_str x; y \<leftarrow> args 1; b \<leftarrow> Data_str y; Some (Some (Data_from_bool (p a b))) }"

definition int_clog2 :: "u32 \<Rightarrow> u32" where
  "int_clog2 x = 32 - word_of_nat (i32_leading_zeros x)"

text \<open>The value an opcode computes from its operands; \<open>Some None\<close> where the code returns early.\<close>

primrec eval_opcode :: "opcode \<Rightarrow> float_ops \<Rightarrow> (nat \<Rightarrow> mir_data panics) \<Rightarrow> mir_data option panics" where
  "eval_opcode OpInot F = int_op1 (\<lambda>x. Some (Data_from_i32 (NOT x)))"
| "eval_opcode OpBnot F = bool_op1 (\<lambda>b. Data_from_bool (\<not> b))"
| "eval_opcode OpFneg F = float_op1 (\<lambda>x. Data_from_f64 (f64_neg x))"
| "eval_opcode OpIneg F = int_op1 (\<lambda>x. map_option Data_from_i32 (i32_neg x))"
| "eval_opcode OpFIcast F = float_op1 (\<lambda>x. Data_from_i32 (f64_as_i32 x))"
| "eval_opcode OpIFcast F = int_op1 (\<lambda>x. Some (Data_from_f64 (i32_as_f64 x)))"
| "eval_opcode OpBIcast F = bool_op1 (\<lambda>b. Data_from_i32 (i32_of_bool b))"
| "eval_opcode OpIBcast F = int_op1 (\<lambda>x. Some (Data_from_bool (x \<noteq> 0)))"
| "eval_opcode OpFBcast F = float_op1 (\<lambda>x. Data_from_i32 (f64_as_i32 (f64_round x)))"
| "eval_opcode OpBFcast F = bool_op1 (\<lambda>b. Data_from_f64 (i32_as_f64 (i32_of_bool b)))"
| "eval_opcode OpOptBarrier F = (\<lambda>args. map_option Some (args 0))"
| "eval_opcode OpSqrt F = float_op1 (\<lambda>x. Data_from_f64 (fn1 F FSqrt x))"
| "eval_opcode OpExp F = float_op1 (\<lambda>x. Data_from_f64 (fn1 F FExp x))"
| "eval_opcode OpLn F = float_op1 (\<lambda>x. Data_from_f64 (fn1 F FLn x))"
| "eval_opcode OpLog F = float_op1 (\<lambda>x. Data_from_f64 (fn1 F FLog10 x))"
| "eval_opcode OpClog2 F = int_op1 (\<lambda>x. Some (Data_from_i32 (int_clog2 x)))"
| "eval_opcode OpFloor F = float_op1 (\<lambda>x. Data_from_f64 (f64_floor x))"
| "eval_opcode OpCeil F = float_op1 (\<lambda>x. Data_from_f64 (f64_ceil x))"
| "eval_opcode OpSin F = float_op1 (\<lambda>x. Data_from_f64 (fn1 F FSin x))"
| "eval_opcode OpCos F = float_op1 (\<lambda>x. Data_from_f64 (fn1 F FCos x))"
| "eval_opcode OpTan F = float_op1 (\<lambda>x. Data_from_f64 (fn1 F FTan x))"
| "eval_opcode OpAsin F = float_op1 (\<lambda>x. Data_from_f64 (fn1 F FAsin x))"
| "eval_opcode OpAcos F = float_op1 (\<lambda>x. Data_from_f64 (fn1 F FAcos x))"
| "eval_opcode OpAtan F = float_op1 (\<lambda>x. Data_from_f64 (fn1 F FAtan x))"
| "eval_opcode OpSinh F = float_op1 (\<lambda>x. Data_from_f64 (fn1 F FSinh x))"
| "eval_opcode OpCosh F = float_op1 (\<lambda>x. Data_from_f64 (fn1 F FCosh x))"
| "eval_opcode OpTanh F = float_op1 (\<lambda>x. Data_from_f64 (fn1 F FTanh x))"
| "eval_opcode OpAsinh F = float_op1 (\<lambda>x. Data_from_f64 (fn1 F FAsinh x))"
| "eval_opcode OpAcosh F = float_op1 (\<lambda>x. Data_from_f64 (fn1 F FAcosh x))"
| "eval_opcode OpAtanh F = float_op1 (\<lambda>x. Data_from_f64 (fn1 F FAtanh x))"
| "eval_opcode OpIadd F = int_op2 (int_arith i32_add)"
| "eval_opcode OpIsub F = int_op2 (int_arith i32_sub)"
| "eval_opcode OpImul F = int_op2 (int_arith i32_mul)"
| "eval_opcode OpIdiv F = int_op2 (int_arith i32_div)"
| "eval_opcode OpIrem F = int_op2 (int_arith i32_rem)"
| "eval_opcode OpIshl F = int_op2 (int_arith i32_shl)"
| "eval_opcode OpIshr F = int_op2 (int_arith i32_shr)"
| "eval_opcode OpIxor F = int_op2 (int_arith (\<lambda>a b. Some (a XOR b)))"
| "eval_opcode OpIand F = int_op2 (int_arith (\<lambda>a b. Some (a AND b)))"
| "eval_opcode OpIor F = int_op2 (int_arith (\<lambda>a b. Some (a OR b)))"
| "eval_opcode OpFadd F = float_op2 (\<lambda>x y. Data_from_f64 (fn2 F FAdd x y))"
| "eval_opcode OpFsub F = float_op2 (\<lambda>x y. Data_from_f64 (fn2 F FSub x y))"
| "eval_opcode OpFmul F = float_op2 (\<lambda>x y. Data_from_f64 (fn2 F FMul x y))"
| "eval_opcode OpFdiv F = float_op2 (\<lambda>x y. Data_from_f64 (fn2 F FDiv x y))"
| "eval_opcode OpFrem F = float_op2 (\<lambda>x y. Data_from_f64 (fn2 F FRem x y))"
| "eval_opcode OpIlt F = int_op2 (int_test i32_less)"
| "eval_opcode OpIgt F = int_op2 (int_test (\<lambda>a b. i32_less b a))"
| "eval_opcode OpIge F = int_op2 (int_test (\<lambda>a b. \<not> i32_less a b))"
| "eval_opcode OpIle F = int_op2 (int_test (\<lambda>a b. \<not> i32_less b a))"
| "eval_opcode OpFlt F = float_op2 (\<lambda>x y. Data_from_bool (f64_less x y))"
| "eval_opcode OpFgt F = float_op2 (\<lambda>x y. Data_from_bool (f64_less y x))"
| "eval_opcode OpFge F = float_op2 (\<lambda>x y. Data_from_bool (f64_le y x))"
| "eval_opcode OpFle F = float_op2 (\<lambda>x y. Data_from_bool (f64_le x y))"
| "eval_opcode OpIeq F = int_op2 (int_test (=))"
| "eval_opcode OpFeq F = float_op2 (\<lambda>x y. Data_from_bool (f64_eq x y))"
| "eval_opcode OpSeq F = str_test (=)"
| "eval_opcode OpBeq F = bool_test (=)"
| "eval_opcode OpIne F = int_op2 (int_test (\<noteq>))"
| "eval_opcode OpFne F = float_op2 (\<lambda>x y. Data_from_bool (\<not> f64_eq x y))"
| "eval_opcode OpSne F = str_test (\<noteq>)"
| "eval_opcode OpBne F = bool_test (\<noteq>)"
| "eval_opcode OpHypot F = float_op2 (\<lambda>x y. Data_from_f64 (fn2 F FHypot x y))"
| "eval_opcode OpAtan2 F = float_op2 (\<lambda>x y. Data_from_f64 (fn2 F FAtan2 x y))"
| "eval_opcode OpPow F = float_op2 (\<lambda>x y. Data_from_f64 (fn2 F FPowf x y))"
| "eval_opcode OpBr F = (\<lambda>args. None)"
| "eval_opcode OpJmp F = (\<lambda>args. None)"
| "eval_opcode OpExit F = (\<lambda>args. Some None)"
| "eval_opcode OpCall F = (\<lambda>args. Some None)"
| "eval_opcode OpPhi F = (\<lambda>args. Some None)"

section \<open>One instruction, and a run\<close>

definition Interpreter_jmp :: "mir_function \<Rightarrow> inst \<Rightarrow> block \<Rightarrow> interp_state \<Rightarrow> interp_state panics" where
  "Interpreter_jmp F src dst s =
     do { bb \<leftarrow> Layout_inst_block (fn_layout F) src;
          first \<leftarrow> Layout_first_inst (fn_layout F) dst;
          Some (s\<lparr>prev_bb := bb, next_inst := first\<rparr>) }"

text \<open>The end of \<open>eval\<close>: advance, compute, write the first result.\<close>

definition eval_simple ::
    "float_ops \<Rightarrow> mir_function \<Rightarrow> inst \<Rightarrow> opcode \<Rightarrow> mir_value list \<Rightarrow> interp_state \<Rightarrow> interp_state panics" where
  "eval_simple fops F inst op args s =
     do { next \<leftarrow> Layout_next_inst (fn_layout F) inst;
          let s = s\<lparr>next_inst := next\<rparr>;
          res \<leftarrow> DfgInsts_first_result (d_insts (fn_dfg F)) inst;
          val \<leftarrow> eval_opcode op fops (\<lambda>i. do { a \<leftarrow> vec_get args i; vec_get (vals s) a });
          (case val of None \<Rightarrow> Some s | Some val \<Rightarrow> InterpreterState_write res val s) }"

definition Interpreter_eval ::
    "float_ops \<Rightarrow> 'w call_fun list \<Rightarrow> mir_function \<Rightarrow> inst \<Rightarrow> interp_state \<Rightarrow> 'w \<Rightarrow> (interp_state \<times> 'w) panics" where
  "Interpreter_eval fops calls F inst s w =
     do { inst_data \<leftarrow> vec_get (declarations (d_insts (fn_dfg F))) inst;
          (case inst_data of
             Unary op arg \<Rightarrow> do { s \<leftarrow> eval_simple fops F inst op [arg] s; Some (s, w) }
           | Binary op a b \<Rightarrow> do { s \<leftarrow> eval_simple fops F inst op [a, b] s; Some (s, w) }
           | Branch cond then_dst else_dst _ \<Rightarrow>
               do { c \<leftarrow> vec_get (vals s) cond;
                    c \<leftarrow> Data_bool c;
                    s \<leftarrow> Interpreter_jmp F inst (if c then then_dst else else_dst) s;
                    Some (s, w) }
           | PhiNode phi \<Rightarrow>
               do { edge \<leftarrow> PhiNode_edge_val phi (prev_bb s);
                    val \<leftarrow> edge;
                    res \<leftarrow> DfgInsts_first_result (d_insts (fn_dfg F)) inst;
                    x \<leftarrow> vec_get (vals s) val;
                    s \<leftarrow> InterpreterState_write res x s;
                    s \<leftarrow> eval_simple fops F inst OpPhi [] s;
                    Some (s, w) }
           | Jump dst \<Rightarrow> do { s \<leftarrow> Interpreter_jmp F inst dst s; Some (s, w) }
           | Call func_ref args \<Rightarrow>
               do { fun \<leftarrow> vec_get calls func_ref;
                    rets \<leftarrow> DfgInsts_results (d_insts (fn_dfg F)) inst;
                    (s, w) \<leftarrow> fun s args rets w;
                    next \<leftarrow> Layout_next_inst (fn_layout F) inst;
                    Some (s\<lparr>next_inst := next\<rparr>, w) }
           | Exit \<Rightarrow> Some (s\<lparr>next_inst := None\<rparr>, w)) }"

partial_function (option) Interpreter_run ::
    "float_ops \<Rightarrow> 'w call_fun list \<Rightarrow> mir_function \<Rightarrow> interp_state \<Rightarrow> 'w \<Rightarrow> (interp_state \<times> 'w) option" where
  "Interpreter_run fops calls F s w =
     (case next_inst s of
        None \<Rightarrow> Some (s, w)
      | Some inst \<Rightarrow>
          do { (s, w) \<leftarrow> Interpreter_eval fops calls F inst s w;
               Interpreter_run fops calls F s w })"

text \<open>Unfolding a run by one step.\<close>

lemma run_stop: "next_inst s = None \<Longrightarrow> Interpreter_run fops calls F s w = Some (s, w)"
  by (subst Interpreter_run.simps) simp

lemma run_step:
  "next_inst s = Some i \<Longrightarrow> Interpreter_eval fops calls F i s w = Some (t, w1) \<Longrightarrow>
    Interpreter_run fops calls F s w = Interpreter_run fops calls F t w1"
  by (subst Interpreter_run.simps) simp

section \<open>Reading back what was written\<close>

lemma Data_roundtrips [simp]:
  "Data_f64 (Data_from_f64 x) = x" "Data_i32 (Data_from_i32 i) = i" "Data_bool (Data_from_bool b) = Some b"
proof -
  show "Data_f64 (Data_from_f64 x) = x" by (simp add: Data_f64_def Data_from_f64_def)
  show "Data_i32 (Data_from_i32 i) = i"
    by (rule bit_word_eqI) (simp add: Data_i32_def Data_from_i32_def data_low_bytes_def Data_UNDEF_def bit_simps)
  have "take_bit 8 (Data_from_bool b) = (if b then 1 else 0)"
    by (rule bit_word_eqI) (auto simp: Data_from_bool_def data_low_bytes_def Data_UNDEF_def bit_simps)
  then show "Data_bool (Data_from_bool b) = Some b" by (simp add: Data_bool_def)
qed

text \<open>An interned string is a nonzero number of 32 bits.\<close>

definition spur_ok :: "nat \<Rightarrow> bool" where
  "spur_ok s \<longleftrightarrow> 0 < s \<and> s < 2 ^ 32"

lemma Data_str_roundtrip [simp]:
  assumes "spur_ok s"
  shows "Data_str (Data_from_str s) = Some s"
proof -
  have "take_bit 32 s = s" using assms by (simp add: spur_ok_def take_bit_nat_eq_self)
  then have "bit s n \<Longrightarrow> n < 32" for n by (metis bit_take_bit_iff)
  then have "take_bit 32 (Data_from_str s) = word_of_nat s"
    by (intro bit_word_eqI) (auto simp: Data_from_str_def data_low_bytes_def Data_UNDEF_def bit_simps)
  then show ?thesis using assms by (auto simp: Data_str_def spur_ok_def unat_of_nat word_of_nat_eq_0_iff dest: dvd_imp_le)
qed

section \<open>Comparing runs of two functions\<close>

text \<open>
  The contract of a transformation that keeps the meaning of a function: a step of the original is
  matched by a step of the transformed function with the same effect on the world, or it has no effect
  and the transformed function waits.
\<close>

locale interp_simulation =
  fixes fops :: float_ops and calls :: "'w call_fun list" and F G :: mir_function
    and rel :: "interp_state \<Rightarrow> interp_state \<Rightarrow> bool"
  assumes stop: "rel s s' \<Longrightarrow> next_inst s = None \<Longrightarrow> next_inst s' = None"
    and step: "rel s s' \<Longrightarrow> next_inst s = Some i \<Longrightarrow> Interpreter_eval fops calls F i s w = Some (t, w1) \<Longrightarrow>
      (w1 = w \<and> rel t s') \<or>
      (\<exists>j t'. next_inst s' = Some j \<and> Interpreter_eval fops calls G j s' w = Some (t', w1) \<and> rel t t')"
begin

lemma run_transformed_aux:
  "Interpreter_run fo ca H s w = Some y \<Longrightarrow> fo = fops \<longrightarrow> ca = calls \<longrightarrow> H = F \<longrightarrow>
    (\<forall>s'. rel s s' \<longrightarrow> (\<exists>t'. Interpreter_run fops calls G s' w = Some (t', snd y) \<and> rel (fst y) t'))"
proof (induction rule: Interpreter_run.raw_induct [rotated, consumes 1])
  case (1 run fo ca H s w y)
  show ?case
  proof (intro impI allI)
    fix s'
    assume same: "fo = fops" "ca = calls" "H = F" and rel: "rel s s'"
    have r: "(case next_inst s of None \<Rightarrow> Some (s, w)
        | Some inst \<Rightarrow> do { (s, w) \<leftarrow> Interpreter_eval fops calls F inst s w; run fops calls F s w }) = Some y"
      using 1(2) same by (cases "next_inst s") simp_all
    show "\<exists>t'. Interpreter_run fops calls G s' w = Some (t', snd y) \<and> rel (fst y) t'"
    proof (cases "next_inst s")
      case None
      with r rel stop [OF rel None] show ?thesis by (subst Interpreter_run.simps) auto
    next
      case (Some i)
      from r Some obtain t1 w1 where e: "Interpreter_eval fops calls F i s w = Some (t1, w1)" "run fops calls F t1 w1 = Some y"
        by (auto simp: bind_eq_Some_conv)
      note IH = 1(1) [OF e(2)]
      from step [OF rel Some e(1)] show ?thesis
      proof (elim disjE exE conjE)
        assume "w1 = w" "rel t1 s'"
        with IH show ?thesis by simp
      next
        fix j t' assume g: "next_inst s' = Some j" "Interpreter_eval fops calls G j s' w = Some (t', w1)" "rel t1 t'"
        with IH have "\<exists>u. Interpreter_run fops calls G t' w1 = Some (u, snd y) \<and> rel (fst y) u" by simp
        with g show ?thesis by (subst Interpreter_run.simps) simp
      qed
    qed
  qed
qed

lemma run_transformed:
  assumes "Interpreter_run fops calls F s w = Some (t, w')" "rel s s'"
  shows "\<exists>t'. Interpreter_run fops calls G s' w = Some (t', w') \<and> rel t t'"
  using run_transformed_aux [OF assms(1)] assms(2) by simp

end

text \<open>
  What the code relies on of the functions called: they read their arguments and write their results,
  and a function without side effects leaves the world alone.
\<close>

fun read_all :: "mir_data list \<Rightarrow> mir_value list \<Rightarrow> mir_data list panics" where
  "read_all vs [] = Some []"
| "read_all vs (a # as) = do { x \<leftarrow> vec_get vs a; xs \<leftarrow> read_all vs as; Some (x # xs) }"

fun write_all :: "mir_value list \<Rightarrow> mir_data list \<Rightarrow> mir_data list \<Rightarrow> mir_data list panics" where
  "write_all [] [] vs = Some vs"
| "write_all (r # rs) (y # ys) vs = do { vs \<leftarrow> vec_set vs r y; write_all rs ys vs }"
| "write_all _ _ vs = None"

definition pure_call :: "(mir_data list \<Rightarrow> 'w \<Rightarrow> (mir_data list \<times> 'w) panics) \<Rightarrow> 'w call_fun" where
  "pure_call g s args rets w =
     do { xs \<leftarrow> read_all (vals s) args;
          (ys, w) \<leftarrow> g xs w;
          vs \<leftarrow> write_all rets ys (vals s);
          Some (s\<lparr>vals := vs\<rparr>, w) }"

definition call_contract :: "'w call_fun \<Rightarrow> bool \<Rightarrow> bool" where
  "call_contract f effects \<longleftrightarrow>
     (\<exists>g. f = pure_call g \<and> (\<not> effects \<longrightarrow> (\<forall>xs w ys w'. g xs w = Some (ys, w') \<longrightarrow> w' = w)))"

definition calls_ok :: "mir_function \<Rightarrow> 'w call_fun list \<Rightarrow> bool" where
  "calls_ok F calls \<longleftrightarrow>
     (\<forall>f < length calls. call_contract (calls ! f) (sig_has_sideeffects (d_signatures (fn_dfg F) ! f)))"

text \<open>Values that agree but on \<open>X\<close>.\<close>

definition agree :: "mir_value set \<Rightarrow> mir_data list \<Rightarrow> mir_data list \<Rightarrow> bool" where
  "agree X vs vs' \<longleftrightarrow> length vs' = length vs \<and> (\<forall>v < length vs. v \<notin> X \<longrightarrow> vs' ! v = vs ! v)"

lemma agree_refl [simp]: "agree X vs vs"
  by (simp add: agree_def)

lemma agree_sym: "agree X vs vs' \<Longrightarrow> agree X vs' vs"
  by (simp add: agree_def)

lemma agree_trans: "agree X vs vs1 \<Longrightarrow> agree X vs1 vs2 \<Longrightarrow> agree X vs vs2"
  by (simp add: agree_def)

lemma agree_mono: "agree X vs vs' \<Longrightarrow> X \<subseteq> Y \<Longrightarrow> agree Y vs vs'"
  by (auto simp: agree_def)

lemma agree_get: "agree X vs vs' \<Longrightarrow> v \<notin> X \<Longrightarrow> vec_get vs' v = vec_get vs v"
  by (auto simp: agree_def vec_get_def)

lemma agree_set:
  assumes "agree X vs vs'" "vec_set vs v x = Some us"
  shows "\<exists>us'. vec_set vs' v x = Some us' \<and> agree X us us'"
  using assms by (auto simp: agree_def vec_set_Some_iff nth_list_update)

lemma agree_written: "vec_set vs v x = Some us \<Longrightarrow> v \<in> X \<Longrightarrow> agree X us vs"
  by (auto simp: agree_def vec_set_Some_iff nth_list_update)

lemma read_all_agree: "agree X vs vs' \<Longrightarrow> set as \<inter> X = {} \<Longrightarrow> read_all vs' as = read_all vs as"
  by (induction as) (simp_all add: agree_get)

lemma write_all_agree:
  "agree X vs vs' \<Longrightarrow> write_all rs ys vs = Some us \<Longrightarrow> \<exists>us'. write_all rs ys vs' = Some us' \<and> agree X us us'"
proof (induction rs ys vs arbitrary: vs' rule: write_all.induct)
  case (2 r rs y ys vs)
  then obtain vs1 where v1: "vec_set vs r y = Some vs1" "write_all rs ys vs1 = Some us" by (auto simp: bind_eq_Some_conv)
  from agree_set [OF "2.prems"(1) v1(1)] obtain us1 where "vec_set vs' r y = Some us1" "agree X vs1 us1" by blast
  with "2.IH" [OF v1(1) _ v1(2)] show ?case by auto
qed auto

lemma write_all_written: "write_all rs ys vs = Some us \<Longrightarrow> set rs \<subseteq> X \<Longrightarrow> agree X us vs"
proof (induction rs ys vs rule: write_all.induct)
  case (2 r rs y ys vs)
  then obtain vs1 where v1: "vec_set vs r y = Some vs1" "write_all rs ys vs1 = Some us" by (auto simp: bind_eq_Some_conv)
  have "agree X us vs1" using "2.IH" [OF v1] "2.prems"(2) by simp
  moreover have "agree X vs1 vs" using agree_written [OF v1(1)] "2.prems"(2) by simp
  ultimately show ?case by (rule agree_trans)
qed auto

end
