(* ===== verification/Const_Eval.thy ===== *)
theory Const_Eval
  imports Interpreter Dfg_Spec
begin

text \<open>
  Constant folding, \<^verbatim>\<open>openvaf/mir_opt/src/const_eval.rs\<close>, and its agreement with the interpreter: a
  folded constant reads back as what the interpreter computes from the constants it was folded from,
  up to the sign of a zero, which interning drops.
\<close>

section \<open>Folding\<close>

definition fold_int :: "u32 panics \<Rightarrow> dfg \<Rightarrow> (dfg \<times> mir_value) panics" where
  "fold_int x D = map_option (\<lambda>x. Dfg_iconst x D) x"

definition fold_float :: "u64 \<Rightarrow> dfg \<Rightarrow> (dfg \<times> mir_value) panics" where
  "fold_float x D = Some (Dfg_fconst x D)"

definition fold_bool :: "bool \<Rightarrow> dfg \<Rightarrow> (dfg \<times> mir_value) panics" where
  "fold_bool b D = Some (D, Dfg_bconst b)"

definition eval_binary_int :: "opcode \<Rightarrow> u32 \<Rightarrow> u32 \<Rightarrow> dfg \<Rightarrow> (dfg \<times> mir_value) panics" where
  "eval_binary_int op a b =
     (case op of
        OpIadd \<Rightarrow> fold_int (i32_add a b)
      | OpIsub \<Rightarrow> fold_int (i32_sub a b)
      | OpImul \<Rightarrow> fold_int (i32_mul a b)
      | OpIdiv \<Rightarrow> fold_int (i32_div a b)
      | OpIrem \<Rightarrow> fold_int (i32_rem a b)
      | OpIshl \<Rightarrow> fold_int (i32_shl a b)
      | OpIshr \<Rightarrow> fold_int (i32_shr a b)
      | OpIxor \<Rightarrow> fold_int (Some (a XOR b))
      | OpIand \<Rightarrow> fold_int (Some (a AND b))
      | OpIor \<Rightarrow> fold_int (Some (a OR b))
      | OpIlt \<Rightarrow> fold_bool (i32_less a b)
      | OpIgt \<Rightarrow> fold_bool (i32_less b a)
      | OpIge \<Rightarrow> fold_bool (\<not> i32_less a b)
      | OpIle \<Rightarrow> fold_bool (\<not> i32_less b a)
      | OpIeq \<Rightarrow> fold_bool (a = b)
      | OpIne \<Rightarrow> fold_bool (a \<noteq> b)
      | _ \<Rightarrow> (\<lambda>D. None))"

definition eval_binary_float :: "float_ops \<Rightarrow> opcode \<Rightarrow> u64 \<Rightarrow> u64 \<Rightarrow> dfg \<Rightarrow> (dfg \<times> mir_value) panics" where
  "eval_binary_float F op a b =
     (case op of
        OpFadd \<Rightarrow> fold_float (fn2 F FAdd a b)
      | OpFsub \<Rightarrow> fold_float (fn2 F FSub a b)
      | OpFmul \<Rightarrow> fold_float (fn2 F FMul a b)
      | OpFdiv \<Rightarrow> fold_float (fn2 F FDiv a b)
      | OpFrem \<Rightarrow> fold_float (fn2 F FRem a b)
      | OpFlt \<Rightarrow> fold_bool (f64_less a b)
      | OpFgt \<Rightarrow> fold_bool (f64_less b a)
      | OpFge \<Rightarrow> fold_bool (f64_le b a)
      | OpFle \<Rightarrow> fold_bool (f64_le a b)
      | OpFeq \<Rightarrow> fold_bool (f64_eq a b)
      | OpFne \<Rightarrow> fold_bool (\<not> f64_eq a b)
      | OpHypot \<Rightarrow> fold_float (fn2 F FHypot a b)
      | OpAtan2 \<Rightarrow> fold_float (fn2 F FAtan2 a b)
      | OpPow \<Rightarrow> fold_float (fn2 F FPowf a b)
      | _ \<Rightarrow> (\<lambda>D. None))"

definition eval_binary :: "float_ops \<Rightarrow> opcode \<Rightarrow> mir_const \<Rightarrow> mir_const \<Rightarrow> dfg \<Rightarrow> (dfg \<times> mir_value) panics" where
  "eval_binary F op lhs rhs =
     (case (lhs, rhs) of
        (CInt a, CInt b) \<Rightarrow> eval_binary_int op a b
      | (CFloat a, CFloat b) \<Rightarrow> eval_binary_float F op a b
      | _ \<Rightarrow>
          if op = OpSeq \<or> op = OpBeq then fold_bool (lhs = rhs)
          else if op = OpSne \<or> op = OpBne then fold_bool (lhs \<noteq> rhs)
          else (\<lambda>D. None))"

definition eval_unary_float :: "float_ops \<Rightarrow> opcode \<Rightarrow> u64 \<Rightarrow> dfg \<Rightarrow> (dfg \<times> mir_value) panics" where
  "eval_unary_float F op x =
     (case op of
        OpSqrt \<Rightarrow> fold_float (fn1 F FSqrt x)
      | OpExp \<Rightarrow> fold_float (fn1 F FExp x)
      | OpLn \<Rightarrow> fold_float (fn1 F FLn x)
      | OpLog \<Rightarrow> fold_float (fn1 F FLog10 x)
      | OpFloor \<Rightarrow> fold_float (f64_floor x)
      | OpCeil \<Rightarrow> fold_float (f64_ceil x)
      | OpSin \<Rightarrow> fold_float (fn1 F FSin x)
      | OpCos \<Rightarrow> fold_float (fn1 F FCos x)
      | OpTan \<Rightarrow> fold_float (fn1 F FTan x)
      | OpAsin \<Rightarrow> fold_float (fn1 F FAsin x)
      | OpAcos \<Rightarrow> fold_float (fn1 F FAcos x)
      | OpAtan \<Rightarrow> fold_float (fn1 F FAtan x)
      | OpSinh \<Rightarrow> fold_float (fn1 F FSinh x)
      | OpCosh \<Rightarrow> fold_float (fn1 F FCosh x)
      | OpTanh \<Rightarrow> fold_float (fn1 F FTanh x)
      | OpAsinh \<Rightarrow> fold_float (fn1 F FAsinh x)
      | OpAcosh \<Rightarrow> fold_float (fn1 F FAcosh x)
      | OpAtanh \<Rightarrow> fold_float (fn1 F FAtanh x)
      | OpFIcast \<Rightarrow> fold_int (Some (f64_as_i32 (f64_round x)))
      | OpFBcast \<Rightarrow> fold_bool (\<not> f64_eq (f64_abs x) f64_0)
      | OpFneg \<Rightarrow> fold_float (f64_neg x)
      | _ \<Rightarrow> (\<lambda>D. None))"

definition eval_unary_int :: "opcode \<Rightarrow> u32 \<Rightarrow> dfg \<Rightarrow> (dfg \<times> mir_value) panics" where
  "eval_unary_int op x =
     (case op of
        OpInot \<Rightarrow> fold_int (Some (NOT x))
      | OpIneg \<Rightarrow> fold_int (i32_neg x)
      | OpIFcast \<Rightarrow> fold_float (i32_as_f64 x)
      | OpIBcast \<Rightarrow> fold_bool (x \<noteq> 0)
      | OpClog2 \<Rightarrow> fold_int (Some (32 - word_of_nat (i32_leading_zeros x)))
      | _ \<Rightarrow> (\<lambda>D. None))"

text \<open>The fixed numbers of the constants 0, 1, 0.0 and 1.0, see \<open>CONSTS\<close>.\<close>

definition ZERO :: mir_value where "ZERO = 4"
definition ONE :: mir_value where "ONE = 5"
definition F_ONE :: mir_value where "F_ONE = 6"

definition eval_unary_bool :: "opcode \<Rightarrow> bool \<Rightarrow> dfg \<Rightarrow> (dfg \<times> mir_value) panics" where
  "eval_unary_bool op b D =
     (case op of
        OpBnot \<Rightarrow> Some (D, if b then FALSE else TRUE)
      | OpBIcast \<Rightarrow> Some (D, if b then ONE else ZERO)
      | OpBFcast \<Rightarrow> Some (D, if b then F_ONE else F_ZERO)
      | _ \<Rightarrow> None)"

definition eval_unary :: "float_ops \<Rightarrow> opcode \<Rightarrow> mir_const \<Rightarrow> dfg \<Rightarrow> (dfg \<times> mir_value option) panics" where
  "eval_unary F op val D =
     (if op = OpOptBarrier then Some (D, None)
      else do { (D, v) \<leftarrow> (case val of
                    CFloat x \<Rightarrow> eval_unary_float F op x D
                  | CInt x \<Rightarrow> eval_unary_int op x D
                  | CStr _ \<Rightarrow> None
                  | CBool b \<Rightarrow> eval_unary_bool op b D);
                Some (D, Some v) })"

section \<open>Agreement with the interpreter\<close>

text \<open>
  A graph whose constant table is right and which still has the fixed constants; \<open>folds_to D' v c\<close>
  says that \<open>v\<close> reads as the constant \<open>c\<close> there.
\<close>

definition fixed_consts :: "val_table \<Rightarrow> bool" where
  "fixed_consts V \<longleftrightarrow> Consts_ok V \<and> holds_const V ZERO (VIconst 0) \<and> holds_const V ONE (VIconst 1) \<and>
     holds_const V F_ZERO (VFconst f64_0) \<and> holds_const V F_ONE (VFconst f64_1)"

definition folds_to :: "dfg \<Rightarrow> dfg \<Rightarrow> mir_value \<Rightarrow> mir_const \<Rightarrow> bool" where
  "folds_to D D' v c \<longleftrightarrow> DfgValues_def (d_values D') v = Some (DefConst (norm_const c)) \<and>
     fixed_consts (d_values D') \<and> d_insts D' = d_insts D \<and> (\<exists>ds. defs (d_values D') = defs (d_values D) @ ds)"

lemma holds_const_def_eq:
  "holds_const V v (VIconst i) \<Longrightarrow> DfgValues_def V v = Some (DefConst (CInt i))"
  "holds_const V v (VFconst x) \<Longrightarrow> DfgValues_def V v = Some (DefConst (CFloat x))"
  "holds_const V v VTrue \<Longrightarrow> DfgValues_def V v = Some (DefConst (CBool True))"
  "holds_const V v VFalse \<Longrightarrow> DfgValues_def V v = Some (DefConst (CBool False))"
  by (auto simp: holds_const_def DfgValues_def_def)

lemma make_const_folds:
  assumes "fixed_consts (d_values D)" "DfgValues_make_const c (d_values D) = (V', v)"
  shows "folds_to D (D\<lparr>d_values := V'\<rparr>) v c"
proof -
  have "Consts_ok (d_values D)" using assms(1) by (simp add: fixed_consts_def)
  from make_const_ok [OF this assms(2)] obtain ds where
    "Consts_ok V'" "DfgValues_def V' v = Some (DefConst (norm_const c))" "defs V' = defs (d_values D) @ ds"
    by (elim conjE exE) (rule that)
  then show ?thesis
    using assms(1) holds_const_append [of "d_values D" _ _ V' ds] by (auto simp: folds_to_def fixed_consts_def)
qed

lemma fold_int_ok:
  assumes "fixed_consts (d_values D)" "fold_int x D = Some (D', v)"
  shows "\<exists>i. x = Some i \<and> folds_to D D' v (CInt i)"
proof -
  from assms(2) obtain i where i: "x = Some i" "Dfg_iconst i D = (D', v)" by (auto simp: fold_int_def)
  obtain V' where "DfgValues_iconst i (d_values D) = (V', v)" "D' = D\<lparr>d_values := V'\<rparr>"
    using i(2) by (auto simp: Dfg_iconst_def on_values_def split: prod.splits)
  then show ?thesis
    using i(1) make_const_folds [OF assms(1), of "CInt i"] by (auto simp: DfgValues_make_const_def)
qed

lemma fold_float_ok:
  assumes "fixed_consts (d_values D)" "fold_float x D = Some (D', v)"
  shows "folds_to D D' v (CFloat x)"
proof -
  from assms(2) obtain V' where "DfgValues_fconst x (d_values D) = (V', v)" "D' = D\<lparr>d_values := V'\<rparr>"
    by (auto simp: fold_float_def Dfg_fconst_def on_values_def split: prod.splits)
  then show ?thesis using make_const_folds [OF assms(1), of "CFloat x"] by (simp add: DfgValues_make_const_def)
qed

lemma fold_bool_ok:
  assumes "fixed_consts (d_values D)" "fold_bool b D = Some (D', v)"
  shows "folds_to D D' v (CBool b)"
  using assms
  by (auto simp: fold_bool_def Dfg_bconst_def folds_to_def norm_const_def fixed_consts_def Consts_ok_def holds_const_def_eq)

text \<open>Operands at the types of the opcode; interned strings are nonzero numbers of 32 bits.\<close>

definition int_binop :: "opcode \<Rightarrow> bool" where
  "int_binop op \<longleftrightarrow> op \<in> set [OpIadd, OpIsub, OpImul, OpIdiv, OpIrem, OpIshl, OpIshr, OpIxor, OpIand, OpIor,
     OpIlt, OpIgt, OpIge, OpIle, OpIeq, OpIne]"

definition float_binop :: "opcode \<Rightarrow> bool" where
  "float_binop op \<longleftrightarrow> op \<in> set [OpFadd, OpFsub, OpFmul, OpFdiv, OpFrem, OpFlt, OpFgt, OpFge, OpFle, OpFeq, OpFne,
     OpHypot, OpAtan2, OpPow]"

fun binary_typed :: "opcode \<Rightarrow> mir_const \<Rightarrow> mir_const \<Rightarrow> bool" where
  "binary_typed op (CInt _) (CInt _) \<longleftrightarrow> int_binop op"
| "binary_typed op (CFloat _) (CFloat _) \<longleftrightarrow> float_binop op"
| "binary_typed op (CBool _) (CBool _) \<longleftrightarrow> op = OpBeq \<or> op = OpBne"
| "binary_typed op (CStr a) (CStr b) \<longleftrightarrow> (op = OpSeq \<or> op = OpSne) \<and> spur_ok a \<and> spur_ok b"
| "binary_typed op _ _ \<longleftrightarrow> False"

fun unary_typed :: "opcode \<Rightarrow> mir_const \<Rightarrow> bool" where
  "unary_typed op (CFloat _) \<longleftrightarrow> op \<in> set [OpSqrt, OpExp, OpLn, OpLog, OpFloor, OpCeil, OpSin, OpCos, OpTan, OpAsin,
     OpAcos, OpAtan, OpSinh, OpCosh, OpTanh, OpAsinh, OpAcosh, OpAtanh, OpFIcast, OpFBcast, OpFneg]"
| "unary_typed op (CInt _) \<longleftrightarrow> op \<in> set [OpInot, OpIneg, OpIFcast, OpIBcast, OpClog2]"
| "unary_typed op (CBool _) \<longleftrightarrow> op \<in> set [OpBnot, OpBIcast, OpBFcast]"
| "unary_typed op (CStr _) \<longleftrightarrow> False"

text \<open>The operands of the interpreter, read from the constants.\<close>

definition const_args :: "mir_const list \<Rightarrow> nat \<Rightarrow> mir_data panics" where
  "const_args cs i = map_option Data_from_const (vec_get cs i)"

lemma const_args_simps [simp]:
  "const_args (c # cs) 0 = Some (Data_from_const c)" "const_args [c, d] (Suc 0) = Some (Data_from_const d)"
  by (simp_all add: const_args_def)

lemmas op_defs = float_op1_def float_op2_def int_op1_def int_op2_def int_arith_def int_test_def bool_op1_def
  bool_test_def str_test_def

text \<open>On constants the arms of the interpreter's table are functions of the constants.\<close>

lemma Data_from_const_simps:
  "Data_from_const (CInt i) = Data_from_i32 i" "Data_from_const (CFloat x) = Data_from_f64 x"
  "Data_from_const (CBool b) = Data_from_bool b" "Data_from_const (CStr t) = Data_from_str t"
  by (simp_all add: Data_from_const_def)

lemma arms_on_constants:
  "int_op2 (int_arith f) (const_args [CInt a, CInt b]) = map_option (\<lambda>i. Some (Data_from_const (CInt i))) (f a b)"
  "int_op2 (int_test p) (const_args [CInt a, CInt b]) = Some (Some (Data_from_const (CBool (p a b))))"
  "float_op2 (\<lambda>x y. Data_from_f64 (g x y)) (const_args [CFloat x, CFloat y]) = Some (Some (Data_from_const (CFloat (g x y))))"
  "float_op2 (\<lambda>x y. Data_from_bool (q x y)) (const_args [CFloat x, CFloat y]) = Some (Some (Data_from_const (CBool (q x y))))"
  "bool_test r (const_args [CBool c, CBool d]) = Some (Some (Data_from_const (CBool (r c d))))"
  "spur_ok s \<Longrightarrow> spur_ok t \<Longrightarrow>
     str_test e (const_args [CStr s, CStr t]) = Some (Some (Data_from_const (CBool (e s t))))"
  "int_op1 (\<lambda>x. map_option Data_from_i32 (h x)) (const_args [CInt a]) = map_option (\<lambda>i. Some (Data_from_const (CInt i))) (h a)"
  "int_op1 (\<lambda>x. Some (Data_from_i32 (u x))) (const_args [CInt a]) = Some (Some (Data_from_const (CInt (u a))))"
  "int_op1 (\<lambda>x. Some (Data_from_f64 (k x))) (const_args [CInt a]) = Some (Some (Data_from_const (CFloat (k a))))"
  "int_op1 (\<lambda>x. Some (Data_from_bool (m x))) (const_args [CInt a]) = Some (Some (Data_from_const (CBool (m a))))"
  "float_op1 (\<lambda>x. Data_from_f64 (n x)) (const_args [CFloat x]) = Some (Some (Data_from_const (CFloat (n x))))"
  "bool_op1 (\<lambda>b. Data_from_bool (v b)) (const_args [CBool c]) = Some (Some (Data_from_const (CBool (v c))))"
  "bool_op1 (\<lambda>b. Data_from_i32 (w b)) (const_args [CBool c]) = Some (Some (Data_from_const (CInt (w c))))"
  "bool_op1 (\<lambda>b. Data_from_f64 (z b)) (const_args [CBool c]) = Some (Some (Data_from_const (CFloat (z c))))"
  by (cases "f a b"; cases "h a"; simp add: op_defs Data_from_const_simps)+

text \<open>The type of the constant an opcode computes.\<close>

datatype mir_type = TFloat | TInt | TStr | TBool

definition const_type :: "mir_const \<Rightarrow> mir_type" where
  "const_type c = (case c of CFloat _ \<Rightarrow> TFloat | CInt _ \<Rightarrow> TInt | CStr _ \<Rightarrow> TStr | CBool _ \<Rightarrow> TBool)"

definition result_type :: "opcode \<Rightarrow> mir_type" where
  "result_type op =
     (if op \<in> set [OpInot, OpIneg, OpFIcast, OpBIcast, OpClog2, OpIadd, OpIsub, OpImul, OpIdiv, OpIrem, OpIshl, OpIshr,
          OpIxor, OpIand, OpIor] then TInt
      else if op \<in> set [OpBnot, OpIBcast, OpFBcast, OpIlt, OpIgt, OpIge, OpIle, OpIeq, OpIne, OpFlt, OpFgt, OpFge, OpFle,
          OpFeq, OpFne, OpSeq, OpSne, OpBeq, OpBne] then TBool
      else TFloat)"

lemma const_type_simps [simp]:
  "const_type (CFloat x) = TFloat" "const_type (CInt i) = TInt" "const_type (CStr s) = TStr" "const_type (CBool b) = TBool"
  by (simp_all add: const_type_def)

text \<open>\<open>r\<close> is the result of the interpreter, of type \<open>T\<close>; \<open>v\<close> is the value the folder made for it.\<close>

definition agrees :: "mir_type \<Rightarrow> mir_data option panics \<Rightarrow> dfg \<Rightarrow> dfg \<Rightarrow> mir_value \<Rightarrow> bool" where
  "agrees T r D D' v \<longleftrightarrow> (\<exists>c. const_type c = T \<and> r = Some (Some (Data_from_const c)) \<and> folds_to D D' v c)"

lemma agrees_intros:
  assumes "fixed_consts (d_values D)"
  shows "fold_int x D = Some (D', v) \<Longrightarrow> agrees TInt (map_option (\<lambda>i. Some (Data_from_const (CInt i))) x) D D' v"
    and "fold_int (Some i) D = Some (D', v) \<Longrightarrow> agrees TInt (Some (Some (Data_from_const (CInt i)))) D D' v"
    and "fold_float y D = Some (D', v) \<Longrightarrow> agrees TFloat (Some (Some (Data_from_const (CFloat y)))) D D' v"
    and "fold_bool b D = Some (D', v) \<Longrightarrow> agrees TBool (Some (Some (Data_from_const (CBool b)))) D D' v"
proof -
  have int: "agrees TInt (Some (Some (Data_from_const (CInt i)))) D D' v" if "folds_to D D' v (CInt i)" for i
    using that by (auto simp: agrees_def intro: exI [of _ "CInt i"])
  show "agrees TInt (map_option (\<lambda>i. Some (Data_from_const (CInt i))) x) D D' v" if "fold_int x D = Some (D', v)"
    using fold_int_ok [OF assms that] int by auto
  show "agrees TInt (Some (Some (Data_from_const (CInt i)))) D D' v" if "fold_int (Some i) D = Some (D', v)"
    using fold_int_ok [OF assms that] int by auto
  show "agrees TFloat (Some (Some (Data_from_const (CFloat y)))) D D' v" if "fold_float y D = Some (D', v)"
    using fold_float_ok [OF assms that] by (auto simp: agrees_def intro: exI [of _ "CFloat y"])
  show "agrees TBool (Some (Some (Data_from_const (CBool b)))) D D' v" if "fold_bool b D = Some (D', v)"
    using fold_bool_ok [OF assms that] by (auto simp: agrees_def intro: exI [of _ "CBool b"])
qed

lemma eval_binary_int_agrees:
  assumes "fixed_consts (d_values D)"
  shows "eval_binary_int op a b D = Some (D', v) \<Longrightarrow> agrees (result_type op) (eval_opcode op F (const_args [CInt a, CInt b])) D D' v"
    and "int_binop op \<Longrightarrow> eval_binary_int op a b D = None \<Longrightarrow> eval_opcode op F (const_args [CInt a, CInt b]) = None"
  by (cases op; simp add: eval_binary_int_def arms_on_constants result_type_def agrees_intros [OF assms])
    (cases op; simp add: eval_binary_int_def arms_on_constants int_binop_def fold_int_def fold_bool_def)

lemma eval_binary_float_agrees:
  assumes "fixed_consts (d_values D)"
  shows "eval_binary_float F op a b D = Some (D', v) \<Longrightarrow> agrees (result_type op) (eval_opcode op F (const_args [CFloat a, CFloat b])) D D' v"
    and "float_binop op \<Longrightarrow> eval_binary_float F op a b D = None \<Longrightarrow> eval_opcode op F (const_args [CFloat a, CFloat b]) = None"
  by (cases op; simp add: eval_binary_float_def arms_on_constants result_type_def agrees_intros [OF assms])
    (cases op; simp add: eval_binary_float_def float_binop_def fold_float_def fold_bool_def)

lemma eval_unary_float_agrees:
  assumes "fixed_consts (d_values D)"
  shows "op \<noteq> OpFIcast \<Longrightarrow> op \<noteq> OpFBcast \<Longrightarrow> eval_unary_float F op x D = Some (D', v) \<Longrightarrow>
      agrees (result_type op) (eval_opcode op F (const_args [CFloat x])) D D' v"
    and "unary_typed op (CFloat x) \<Longrightarrow> eval_unary_float F op x D = None \<Longrightarrow> eval_opcode op F (const_args [CFloat x]) = None"
  by (cases op; simp add: eval_unary_float_def arms_on_constants result_type_def agrees_intros [OF assms])
    (cases op; simp add: eval_unary_float_def fold_float_def fold_bool_def fold_int_def)

lemma eval_unary_int_agrees:
  assumes "fixed_consts (d_values D)"
  shows "eval_unary_int op x D = Some (D', v) \<Longrightarrow> agrees (result_type op) (eval_opcode op F (const_args [CInt x])) D D' v"
    and "unary_typed op (CInt x) \<Longrightarrow> eval_unary_int op x D = None \<Longrightarrow> eval_opcode op F (const_args [CInt x]) = None"
  by (cases op; simp add: eval_unary_int_def arms_on_constants result_type_def agrees_intros [OF assms] int_clog2_def)
    (cases op; simp add: eval_unary_int_def arms_on_constants fold_int_def fold_bool_def fold_float_def)

lemma small_f64_of_nat: "f64_of_nat False 0 = f64_0" "f64_of_nat False 1 = f64_1"
proof -
  have t: "takeWhile (\<lambda>i. 2 ^ i \<le> Suc 0) [0..<53] = [0]"
    by (simp add: upt_conv_Cons)
  show "f64_of_nat False 0 = f64_0" "f64_of_nat False 1 = f64_1"
    by (simp_all add: f64_of_nat_def t f64_1_def f64_0_def)
qed

lemma bool_as_f64: "i32_as_f64 (i32_of_bool b) = (if b then f64_1 else f64_0)"
  using small_f64_of_nat by (simp add: i32_as_f64_def i32_of_bool_def)

lemma agrees_fixed:
  assumes "fixed_consts (d_values D)" "DfgValues_def (d_values D) v = Some (DefConst c)" "norm_const c = c"
  shows "agrees (const_type c) (Some (Some (Data_from_const c))) D D v"
  using assms by (auto simp: agrees_def folds_to_def intro!: exI [of _ c])

lemma eval_unary_bool_agrees:
  assumes "fixed_consts (d_values D)"
  shows "eval_unary_bool op b D = Some (D', v) \<Longrightarrow> agrees (result_type op) (eval_opcode op F (const_args [CBool b])) D D' v"
    and "unary_typed op (CBool b) \<Longrightarrow> eval_unary_bool op b D = None \<Longrightarrow> eval_opcode op F (const_args [CBool b]) = None"
proof -
  note held = assms [unfolded fixed_consts_def Consts_ok_def]
  have norm: "norm_const (CFloat f64_1) = CFloat f64_1" "norm_const (CFloat f64_0) = CFloat f64_0"
    "norm_const (CInt i) = CInt i" "norm_const (CBool b) = CBool b" for i b
    by (simp_all add: norm_const_def norm_zero_def float_bits)
  show "agrees (result_type op) (eval_opcode op F (const_args [CBool b])) D D' v" if ev: "eval_unary_bool op b D = Some (D', v)"
  proof -
    have [simp]: "D' = D" using ev by (cases op) (auto simp: eval_unary_bool_def)
    show ?thesis
    proof (cases "op = OpBFcast")
    case True
    then show ?thesis using ev held agrees_fixed [OF assms, of v "CFloat (if b then f64_1 else f64_0)"]
      by (auto simp: eval_unary_bool_def result_type_def arms_on_constants bool_as_f64 norm holds_const_def_eq split: if_splits)
  next
    case False
    then show ?thesis using ev held agrees_fixed [OF assms, of v "CInt (if b then 1 else 0)"]
        agrees_fixed [OF assms, of v "CBool (\<not> b)"]
      by (cases op)
        (auto simp: eval_unary_bool_def result_type_def arms_on_constants i32_of_bool_def norm holds_const_def_eq split: if_splits)
    qed
  qed
  show "unary_typed op (CBool b) \<Longrightarrow> eval_unary_bool op b D = None \<Longrightarrow> eval_opcode op F (const_args [CBool b]) = None"
    by (cases op) (simp_all add: eval_unary_bool_def)
qed

text \<open>
  C36: Folding a binary operation on constants of the types the operation takes agrees with the
  interpreter: where the interpreter panics so does the folder, and otherwise the value it makes reads as
  the constant the interpreter computes, except that \<open>-0.0\<close> becomes \<open>0.0\<close> (\<open>norm_const\<close>), the one constant that
  both zeros share. The instructions and the existing values are left alone.
\<close>

theorem eval_binary_agrees:
  assumes "fixed_consts (d_values D)" "binary_typed op a b"
  shows "case eval_binary F op a b D of
      None \<Rightarrow> eval_opcode op F (const_args [a, b]) = None
    | Some (D', v) \<Rightarrow> \<exists>c. eval_opcode op F (const_args [a, b]) = Some (Some (Data_from_const c)) \<and> const_type c = result_type op \<and>
        DfgValues_def (d_values D') v = Some (DefConst (norm_const c)) \<and>
        d_insts D' = d_insts D \<and> (\<exists>ds. defs (d_values D') = defs (d_values D) @ ds)"
proof -
  have "case eval_binary F op a b D of None \<Rightarrow> eval_opcode op F (const_args [a, b]) = None
    | Some (D', v) \<Rightarrow> agrees (result_type op) (eval_opcode op F (const_args [a, b])) D D' v"
    using assms(2) eval_binary_int_agrees [OF assms(1)] eval_binary_float_agrees [OF assms(1)]
    by (cases "(op, a, b)" rule: binary_typed.cases)
      (auto simp: eval_binary_def arms_on_constants result_type_def agrees_intros [OF assms(1)] fold_bool_def split: option.splits)
  then show ?thesis by (auto simp: agrees_def folds_to_def split: option.splits)
qed

text \<open>
  C37: Folding a unary operation on a constant of the type the operation takes agrees with the interpreter in the
  same way, with \<open>0.0\<close> for a result of \<open>-0.0\<close>, for every operation but the casts from \<open>f64\<close> to \<open>i32\<close> and
  \<open>bool\<close>.
\<close>

theorem eval_unary_agrees:
  assumes "fixed_consts (d_values D)" "unary_typed op a" "op \<noteq> OpFIcast" "op \<noteq> OpFBcast"
  shows "case eval_unary F op a D of
      None \<Rightarrow> eval_opcode op F (const_args [a]) = None
    | Some (D', v) \<Rightarrow> \<exists>c. eval_opcode op F (const_args [a]) = Some (Some (Data_from_const c)) \<and> const_type c = result_type op \<and>
        v \<noteq> None \<and> DfgValues_def (d_values D') (the v) = Some (DefConst (norm_const c)) \<and>
        d_insts D' = d_insts D \<and> (\<exists>ds. defs (d_values D') = defs (d_values D) @ ds)"
proof -
  have "op \<noteq> OpOptBarrier" using assms(2) by (cases a) auto
  then have "case eval_unary F op a D of None \<Rightarrow> eval_opcode op F (const_args [a]) = None
    | Some (D', v) \<Rightarrow> v \<noteq> None \<and> agrees (result_type op) (eval_opcode op F (const_args [a])) D D' (the v)"
    using assms(2-) eval_unary_int_agrees [OF assms(1), of op] eval_unary_float_agrees [OF assms(1), of op]
      eval_unary_bool_agrees [OF assms(1), of op]
    by (cases a) (fastforce simp: eval_unary_def split: option.splits bind_splits)+
  then show ?thesis by (auto simp: agrees_def folds_to_def split: option.splits)
qed

text \<open>The numbers \<open>0.5\<close> and \<open>0.25\<close>.\<close>

definition f64_point_5 :: u64 where "f64_point_5 = 0x3FE0000000000000"
definition f64_point_25 :: u64 where "f64_point_25 = 0x3FD0000000000000"

lemma cast_parts:
  "f64_round f64_point_5 = f64_1" "f64_as_i32 f64_point_5 = 0" "f64_as_i32 f64_1 = 1"
  "f64_round f64_point_25 = f64_0" "f64_as_i32 f64_0 = 0" "\<not> f64_eq (f64_abs f64_point_25) f64_0"
  using small_f64_of_nat
  by (simp_all add: f64_round_def f64_to_integer_def f64_exponent_def f64_magnitude_def f64_int_part_def
      f64_significand_def f64_mantissa_def f64_shift_def f64_half_def f64_sign_def f64_as_i32_def f64_is_nan_def
      f64_eq_def f64_key_def f64_abs_def f64_point_5_def f64_point_25_def f64_0_def f64_1_def)

lemma Dfg_new_fixed:
  obtains D where "Dfg_new = Some D" "fixed_consts (d_values D)"
proof -
  from new_table obtain V where V: "DfgValues_new = Some V" and tys: "map v_ty (defs V) = [VInvalid, VFalse, VTrue,
      VFconst f64_0, VIconst 0, VIconst 1, VFconst f64_1, VFconst (f64_neg f64_1), VFconst (f64_neg f64_LN_2),
      VFconst f64_LN_2, VFconst f64_LOG10_E, VFconst f64_2, VIconst (-1), VFconst f64_10, VFconst f64_3,
      VFconst f64_INFINITY]"
    by (elim exE conjE) (rule that)
  have "v < 16 \<Longrightarrow> holds_const V v t \<longleftrightarrow> map v_ty (defs V) ! v = t" for v t
    using arg_cong [OF tys, of length] by (auto simp: holds_const_def)
  then have "fixed_consts V"
    using new_table_ok(1) [OF V] by (simp add: fixed_consts_def tys ZERO_def ONE_def F_ZERO_def F_ONE_def)
  moreover have "Dfg_new = Some \<lparr>d_insts = DfgInsts_new, d_values = V, d_signatures = []\<rparr>" by (simp add: Dfg_new_def V)
  ultimately show thesis by (elim that) simp
qed

text \<open>
  On the casts from \<open>f64\<close> the folder and the interpreter differ: the folder rounds and tests for a
  nonzero number, as the generated code does, while the interpreter truncates, and rounds before it
  tests. Folding \<open>0.5\<close> to an integer gives 1 where the interpreter gives 0, and folding \<open>0.25\<close> to a
  boolean gives true where the interpreter's result reads as false.
\<close>

theorem float_casts_differ:
  assumes "fixed_consts (d_values D)"
  shows "(\<exists>D' v. eval_unary F OpFIcast (CFloat f64_point_5) D = Some (D', Some v) \<and>
      DfgValues_def (d_values D') v = Some (DefConst (CInt 1)) \<and>
      eval_opcode OpFIcast F (const_args [CFloat f64_point_5]) = Some (Some (Data_from_i32 0))) \<and>
    eval_unary F OpFBcast (CFloat f64_point_25) D = Some (D, Some TRUE) \<and>
    DfgValues_def (d_values D) TRUE = Some (DefConst (CBool True)) \<and>
    (\<exists>d. eval_opcode OpFBcast F (const_args [CFloat f64_point_25]) = Some (Some d) \<and> Data_bool d = Some False)"
proof -
  obtain D' v where D': "fold_int (Some (1 :: u32)) D = Some (D', v)"
    by (cases "Dfg_iconst 1 D") (auto simp: fold_int_def)
  from fold_int_ok [OF assms D'] have "DfgValues_def (d_values D') v = Some (DefConst (CInt 1))"
    by (auto simp: folds_to_def norm_const_def)
  moreover have "eval_unary F OpFIcast (CFloat f64_point_5) D = Some (D', Some v)"
    using D' by (simp add: eval_unary_def eval_unary_float_def cast_parts)
  moreover have "Data_bool (Data_from_i32 0) = Some False"
  proof -
    have "take_bit 8 (Data_from_i32 0) = 0"
      by (rule bit_word_eqI) (auto simp: Data_from_i32_def data_low_bytes_def Data_UNDEF_def bit_simps)
    then show ?thesis by (simp add: Data_bool_def)
  qed
  moreover have "DfgValues_def (d_values D) TRUE = Some (DefConst (CBool True))"
    using assms by (simp add: fixed_consts_def Consts_ok_def holds_const_def_eq)
  ultimately show ?thesis
    by (auto simp: eval_unary_def eval_unary_float_def cast_parts fold_bool_def Dfg_bconst_def float_op1_def Data_f64_def
        Data_from_const_simps Data_from_f64_def)
qed

section \<open>Witnesses\<close>

lemma Data_from_i32_inj: "Data_from_i32 i = Data_from_i32 j \<Longrightarrow> i = j"
  by (metis Data_roundtrips(2))

theorem eval_binary_agrees_witness:
  "\<exists>D D' v. Dfg_new = Some D \<and> eval_binary first_operand OpIsub (CInt 3) (CInt 5) D = Some (D', v) \<and>
     DfgValues_def (d_values D') v = Some (DefConst (CInt (-2))) \<and>
     eval_opcode OpIdiv first_operand (const_args [CInt 3, CInt 0]) = None"
proof -
  obtain D where D: "Dfg_new = Some D" "fixed_consts (d_values D)" by (rule Dfg_new_fixed)
  have sub: "i32_sub 3 5 = Some (-2)" by (simp add: i32_sub_def i32_checked_def)
  then obtain D' v where ev: "eval_binary first_operand OpIsub (CInt 3) (CInt 5) D = Some (D', v)"
    by (cases "Dfg_iconst (-2) D") (auto simp: eval_binary_def eval_binary_int_def fold_int_def)
  have "eval_binary first_operand OpIdiv (CInt 3) (CInt 0) D = None"
    by (simp add: eval_binary_def eval_binary_int_def fold_int_def i32_div_def)
  with eval_binary_agrees [OF D(2), of OpIdiv "CInt 3" "CInt 0" first_operand]
  have "eval_opcode OpIdiv first_operand (const_args [CInt 3, CInt 0]) = None" by (simp add: int_binop_def)
  moreover from eval_binary_agrees [OF D(2), of OpIsub "CInt 3" "CInt 5" first_operand] obtain c where
    "const_type c = TInt" "Data_from_const c = Data_from_i32 (-2)" "DfgValues_def (d_values D') v = Some (DefConst (norm_const c))"
    by (auto simp: ev sub int_binop_def result_type_def arms_on_constants Data_from_const_simps)
  then have "DfgValues_def (d_values D') v = Some (DefConst (CInt (-2)))"
    by (cases c) (auto simp: Data_from_const_simps norm_const_def dest: Data_from_i32_inj)
  ultimately show ?thesis using D(1) ev by blast
qed

theorem eval_unary_agrees_witness:
  "\<exists>D. Dfg_new = Some D \<and> eval_unary first_operand OpBFcast (CBool True) D = Some (D, Some F_ONE) \<and>
     eval_opcode OpBFcast first_operand (const_args [CBool True]) = Some (Some f64_1)"
proof -
  obtain D where D: "Dfg_new = Some D" "fixed_consts (d_values D)" by (rule Dfg_new_fixed)
  have ev: "eval_unary first_operand OpBFcast (CBool True) D = Some (D, Some F_ONE)" by (simp add: eval_unary_def eval_unary_bool_def)
  have one: "DfgValues_def (d_values D) F_ONE = Some (DefConst (CFloat f64_1))"
    using D(2) by (simp add: fixed_consts_def holds_const_def_eq)
  have "norm_zero x = f64_1 \<Longrightarrow> x = f64_1" for x by (simp add: norm_zero_def float_bits split: if_splits)
  with eval_unary_agrees [OF D(2), of OpBFcast "CBool True" first_operand]
  have "eval_opcode OpBFcast first_operand (const_args [CBool True]) = Some (Some f64_1)"
    by (auto simp: ev one result_type_def norm_const_def Data_from_const_def Data_from_f64_def split: mir_const.splits)
  with D(1) ev show ?thesis by blast
qed

theorem float_casts_differ_witness:
  "\<exists>D D' v. Dfg_new = Some D \<and> eval_unary first_operand OpFIcast (CFloat f64_point_5) D = Some (D', Some v) \<and>
     DfgValues_def (d_values D') v = Some (DefConst (CInt 1))"
proof -
  obtain D where D: "Dfg_new = Some D" "fixed_consts (d_values D)" by (rule Dfg_new_fixed)
  then show ?thesis using float_casts_differ [OF D(2), of first_operand] by blast
qed

end
