(* ===== verification/Dead_Code.thy ===== *)
theory Dead_Code
  imports Interpreter Work_Queue Layout_Spec
begin

text \<open>
  Dead code elimination, \<^verbatim>\<open>openvaf/mir_opt/src/dead_code.rs\<close>: instructions without side effects whose
  results nobody uses are removed, backwards through the function and then through a work list of
  instructions that lost a use. The theorem of this theory is that the pass returns and that the
  interpreter computes the same output values and has the same effects on the world afterwards.
\<close>

section \<open>The pass\<close>

fun any_output :: "bit_set \<Rightarrow> mir_value list \<Rightarrow> bool panics" where
  "any_output outs [] = Some False"
| "any_output outs (r # rs) = do { c \<leftarrow> BitSet_contains outs r; if c then Some True else any_output outs rs }"

fun queue_defs :: "dfg \<Rightarrow> mir_value list \<Rightarrow> work_queue \<Rightarrow> work_queue panics" where
  "queue_defs D [] q = Some q"
| "queue_defs D (arg # args) q =
     do { def \<leftarrow> DfgValues_def (d_values D) arg;
          q \<leftarrow> (case def of DefResult inst _ \<Rightarrow> map_option fst (WorkQueue_insert inst q) | _ \<Rightarrow> Some q);
          queue_defs D args q }"

definition dce_process :: "bit_set \<Rightarrow> inst \<Rightarrow> work_queue \<Rightarrow> mir_function \<Rightarrow> (work_queue \<times> mir_function) panics" where
  "dce_process outs inst q F =
     do { dead \<leftarrow> Dfg_inst_dead (fn_dfg F) inst True;
          remove \<leftarrow> (if dead then
                       do { rs \<leftarrow> DfgInsts_results (d_insts (fn_dfg F)) inst; map_option Not (any_output outs rs) }
                     else Some False);
          (if remove then
             do { D \<leftarrow> Dfg_zap_inst inst (fn_dfg F);
                  L \<leftarrow> Layout_remove_inst (fn_layout F) inst;
                  args \<leftarrow> DfgInsts_args (d_insts D) inst;
                  q \<leftarrow> queue_defs D args q;
                  Some (q, F\<lparr>fn_dfg := D, fn_layout := L\<rparr>) }
           else
             do { (s, _) \<leftarrow> BitSet_remove inst (occupied q);
                  Some (q\<lparr>occupied := s\<rparr>, F) }) }"

partial_function (option) dce_insts ::
    "bit_set \<Rightarrow> inst_cursor \<Rightarrow> work_queue \<Rightarrow> mir_function \<Rightarrow> (work_queue \<times> mir_function) option" where
  "dce_insts outs cur q F =
     do { (inst, cur) \<leftarrow> InstCursor_next_back (fn_layout F) cur;
          (case inst of
             None \<Rightarrow> Some (q, F)
           | Some inst \<Rightarrow>
               do { (q, F) \<leftarrow> dce_process outs inst q F;
                    dce_insts outs cur q F }) }"

partial_function (option) dce_blocks ::
    "bit_set \<Rightarrow> block option \<Rightarrow> work_queue \<Rightarrow> mir_function \<Rightarrow> (work_queue \<times> mir_function) option" where
  "dce_blocks outs cur q F =
     do { (block, cur) \<leftarrow> RevBlockCursor_next (fn_layout F) cur;
          (case block of
             None \<Rightarrow> Some (q, F)
           | Some block \<Rightarrow>
               do { icur \<leftarrow> Layout_block_inst_cursor (fn_layout F) block;
                    (q, F) \<leftarrow> dce_insts outs icur q F;
                    dce_blocks outs cur q F }) }"

partial_function (option) dce_work_list :: "bit_set \<Rightarrow> work_queue \<Rightarrow> mir_function \<Rightarrow> mir_function option" where
  "dce_work_list outs q F =
     (let (q, inst) = WorkQueue_take q in
      case inst of
        None \<Rightarrow> Some F
      | Some inst \<Rightarrow>
          do { (q, F) \<leftarrow> dce_process outs inst q F;
               dce_work_list outs q F })"

definition dead_code_elimination :: "bit_set \<Rightarrow> mir_function \<Rightarrow> mir_function option" where
  "dead_code_elimination outs F =
     do { s \<leftarrow> BitSet_new_filled (DfgInsts_num (d_insts (fn_dfg F)));
          (q, F) \<leftarrow> dce_blocks outs (Layout_rev_blocks_cursor (fn_layout F)) \<lparr>deque = [], occupied = s\<rparr> F;
          dce_work_list outs q F }"

section \<open>Zapping an instruction\<close>

text \<open>What no change of the chains of uses touches: the definitions of the values and the constants.\<close>

definition same_values :: "val_table \<Rightarrow> val_table \<Rightarrow> bool" where
  "same_values V V' \<longleftrightarrow> map v_ty (defs V') = map v_ty (defs V) \<and> int_consts V' = int_consts V \<and>
     real_consts V' = real_consts V \<and> str_consts V' = str_consts V"

lemma same_values_refl [simp]: "same_values V V"
  by (simp add: same_values_def)

lemma same_values_trans: "same_values V V1 \<Longrightarrow> same_values V1 V2 \<Longrightarrow> same_values V V2"
  by (simp add: same_values_def)

lemma same_values_length: "same_values V V' \<Longrightarrow> length (defs V') = length (defs V)"
  by (metis length_map same_values_def)

lemma same_values_ty: "same_values V V' \<Longrightarrow> v < length (defs V) \<Longrightarrow> v_ty (defs V' ! v) = v_ty (defs V ! v)"
  by (metis length_map nth_map same_values_def)

lemma same_values_def_eq: "same_values V V' \<Longrightarrow> DfgValues_def V' v = DfgValues_def V v"
  using same_values_length [of V V'] same_values_ty [of V V' v]
  by (cases "v < length (defs V)") (simp_all add: DfgValues_def_def)

lemma upd_def_same_values:
  assumes "upd_def v f V = Some V'" "\<And>d. v_ty (f d) = v_ty d"
  shows "same_values V V'"
  using assms by (auto simp: upd_def_def same_values_def map_update bind_eq_Some_conv vec_get_Some_iff
      list_update_same_conv)

lemma upd_use_same_values: "upd_use u f V = Some V' \<Longrightarrow> same_values V V'"
  by (auto simp: upd_use_def same_values_def bind_eq_Some_conv)

lemma detach_same_values:
  assumes "DfgValues_detach_use u I V = Some V'"
  shows "same_values V V'"
  using assms
  by (auto simp: DfgValues_detach_use_def Let_def bind_eq_Some_conv split: option.splits if_splits
      dest!: upd_def_same_values upd_use_same_values intro: same_values_trans)

text \<open>A chain without the uses in \<open>X\<close>.\<close>

definition without :: "mir_use set \<Rightarrow> (mir_value \<Rightarrow> mir_use list) \<Rightarrow> mir_value \<Rightarrow> mir_use list" where
  "without X U v = filter (\<lambda>u. u \<notin> X) (U v)"

definition same_parents :: "val_table \<Rightarrow> val_table \<Rightarrow> bool" where
  "same_parents V V' \<longleftrightarrow> length (uses V') = length (uses V) \<and>
     (\<forall>w < length (uses V). parent (uses V' ! w) = parent (uses V ! w) \<and> parent_idx (uses V' ! w) = parent_idx (uses V ! w))"

lemma same_parents_trans: "same_parents V V1 \<Longrightarrow> same_parents V1 V2 \<Longrightarrow> same_parents V V2"
  by (auto simp: same_parents_def)

lemma detach_one_ok:
  assumes ok: "Chains_ok V I U" and u: "u < length (uses V)"
  shows "\<exists>V'. DfgValues_detach_use u I V = Some V' \<and> Chains_ok V' I (without {u} U) \<and> same_values V V' \<and> same_parents V V'"
proof (cases "\<exists>v. u \<in> set (U v)")
  case True
  then obtain v where v: "u \<in> set (U v)" by blast
  then obtain xs ys where split: "U v = xs @ u # ys" by (meson split_list)
  have "distinct (U v)" using chain(2) [OF ok in_chain(1) [OF ok v]] .
  moreover have keep: "u \<notin> set zs \<Longrightarrow> filter (\<lambda>x. x \<noteq> u) zs = zs" for zs by (auto intro: filter_True)
  moreover have "u \<notin> set (U x)" if "x \<noteq> v" for x using one_chain [OF ok v, of x] that by blast
  ultimately have "U(v := xs @ ys) = without {u} U"
    using split by (auto simp: fun_eq_iff without_def)
  with DfgValues_detach_use_ok [OF ok split] detach_same_values show ?thesis by (auto simp: same_parents_def)
next
  case False
  then have "without {u} U = U" by (auto simp: fun_eq_iff without_def intro!: filter_True)
  with False DfgValues_detach_use_twice [OF ok u] ok show ?thesis by (simp add: same_parents_def)
qed

lemma detach_all_ok:
  assumes "Chains_ok V I U" "\<forall>u \<in> set us. u < length (uses V)"
  shows "\<exists>V'. fold (\<lambda>u V. Option.bind V (DfgValues_detach_use u I)) us (Some V) = Some V' \<and>
    Chains_ok V' I (without (set us) U) \<and> same_values V V' \<and> same_parents V V'"
  using assms
proof (induction us arbitrary: V U)
  case Nil
  have "without {} U = U" by (simp add: fun_eq_iff without_def)
  with Nil show ?case by (simp add: same_parents_def)
next
  case (Cons u us)
  from Cons.prems(2) have u: "u < length (uses V)" by simp
  from detach_one_ok [OF Cons.prems(1) u] obtain V1 where V1:
    "DfgValues_detach_use u I V = Some V1" "Chains_ok V1 I (without {u} U)" "same_values V V1" "same_parents V V1"
    by blast
  have "\<forall>w \<in> set us. w < length (uses V1)" using Cons.prems(2) V1(4) by (simp add: same_parents_def)
  from Cons.IH [OF V1(2) this] obtain V2 where V2:
    "fold (\<lambda>u V. Option.bind V (DfgValues_detach_use u I)) us (Some V1) = Some V2"
    "Chains_ok V2 I (without (set us) (without {u} U))" "same_values V1 V2" "same_parents V1 V2"
    by blast
  have "without (set us) (without {u} U) = without (set (u # us)) U" by (auto simp: fun_eq_iff without_def intro!: filter_cong)
  then show ?case
    using V1 V2 same_values_trans [OF V1(3) V2(3)] same_parents_trans [OF V1(4) V2(4)] by auto
qed

lemma Dfg_zap_inst_ok:
  assumes ok: "Dfg_ok D U" and i: "i < length (declarations (d_insts D))"
  shows "\<exists>V'. Dfg_zap_inst i D = Some (D\<lparr>d_values := V'\<rparr>) \<and>
    Dfg_ok (D\<lparr>d_values := V'\<rparr>) (without (set (inst_operands (d_insts D) ! i)) U) \<and>
    same_values (d_values D) V' \<and> same_parents (d_values D) V' \<and>
    (\<forall>w < length (uses V'). attached (uses V' ! w) \<longleftrightarrow>
       attached (uses (d_values D) ! w) \<and> w \<notin> set (inst_operands (d_insts D) ! i))"
proof -
  let ?V = "d_values D" and ?I = "d_insts D"
  let ?us = "inst_operands ?I ! i"
  have C: "Chains_ok ?V ?I U" and O: "Operands_ok ?I ?V" using ok by (simp_all add: Dfg_ok_def)
  have io: "inst_operands_ok ?I ?V i" using O i by (simp add: Operands_ok_def)
  then have "\<forall>u \<in> set ?us. u < length (uses ?V)" by (auto simp: inst_operands_ok_def in_set_conv_nth)
  from detach_all_ok [OF C this] obtain V' where V':
    "fold (\<lambda>u V. Option.bind V (DfgValues_detach_use u ?I)) ?us (Some ?V) = Some V'"
    "Chains_ok V' ?I (without (set ?us) U)" "same_values ?V V'" "same_parents ?V V'"
    by blast
  have att: "attached (uses V' ! w) \<longleftrightarrow> attached (uses ?V ! w) \<and> w \<notin> set ?us" if "w < length (uses V')" for w
    using in_chain_iff_attached [OF V'(2) that] in_chain_iff_attached [OF C, of w] V'(4) that
    by (auto simp: without_def same_parents_def)
  have len: "length (uses V') = length (uses ?V)" "length (defs V') = length (defs ?V)"
    using V'(4) same_values_length [OF V'(3)] by (simp_all add: same_parents_def)
  have "inst_operands_ok ?I V' j" if "inst_operands_ok ?I ?V j" for j
    using that V'(4) len by (simp add: inst_operands_ok_def same_parents_def)
  then have "Operands_ok ?I V'"
    using O V'(4) att len by (auto simp: Operands_ok_def same_parents_def registered_def)
  with V' att O i show ?thesis
    by (auto simp: Dfg_zap_inst_def DfgInsts_zap_def DfgInsts_operands_def Dfg_ok_def Operands_ok_def)
qed

section \<open>Well-formed functions\<close>

text \<open>
  \<open>Fn_ok F bs ils\<close>: the layout holds the blocks \<open>bs\<close> with the instructions \<open>ils\<close>, the graph is
  consistent, the instructions of the layout exist, name known functions and have attached operands,
  results and defining instructions are in range, and a result says which instruction defines it.
\<close>

abbreviation num_insts :: "mir_function \<Rightarrow> nat" where
  "num_insts F \<equiv> length (declarations (d_insts (fn_dfg F)))"

abbreviation num_values :: "mir_function \<Rightarrow> nat" where
  "num_values F \<equiv> length (defs (d_values (fn_dfg F)))"

definition fn_decl :: "mir_function \<Rightarrow> inst \<Rightarrow> instruction_data" where
  "fn_decl F i = declarations (d_insts (fn_dfg F)) ! i"

definition fn_args :: "mir_function \<Rightarrow> inst \<Rightarrow> mir_value list" where
  "fn_args F i = InstructionData_arguments (fn_decl F i)"

definition fn_results :: "mir_function \<Rightarrow> inst \<Rightarrow> mir_value list" where
  "fn_results F i = inst_results (d_insts (fn_dfg F)) ! i"

definition operands_attached :: "dfg \<Rightarrow> inst \<Rightarrow> bool" where
  "operands_attached D i \<longleftrightarrow> (\<forall>u \<in> set (inst_operands (d_insts D) ! i). attached (uses (d_values D) ! u))"

definition decl_ok :: "dfg \<Rightarrow> instruction_data \<Rightarrow> bool" where
  "decl_ok D d \<longleftrightarrow> (case d of Call f _ \<Rightarrow> f < length (d_signatures D) | _ \<Rightarrow> True)"

definition values_ok :: "dfg \<Rightarrow> bool" where
  "values_ok D \<longleftrightarrow>
     (\<forall>d \<in> set (defs (d_values D)). case v_ty d of VInst _ i \<Rightarrow> i < length (declarations (d_insts D)) | _ \<Rightarrow> True) \<and>
     (\<forall>rs \<in> set (inst_results (d_insts D)). \<forall>r \<in> set rs. r < length (defs (d_values D))) \<and>
     (\<forall>i < length (inst_results (d_insts D)). \<forall>r \<in> set (inst_results (d_insts D) ! i).
        \<exists>k. v_ty (defs (d_values D) ! r) = VInst k i)"

definition Fn_ok :: "mir_function \<Rightarrow> block list \<Rightarrow> (block \<Rightarrow> inst list) \<Rightarrow> bool" where
  "Fn_ok F bs ils \<longleftrightarrow> Layout_ok (fn_layout F) bs ils \<and> (\<exists>U. Dfg_ok (fn_dfg F) U) \<and> values_ok (fn_dfg F) \<and>
     (\<forall>b. \<forall>i \<in> set (ils b). i < num_insts F \<and> operands_attached (fn_dfg F) i \<and> decl_ok (fn_dfg F) (fn_decl F i))"

definition has_effect :: "mir_function \<Rightarrow> inst \<Rightarrow> bool" where
  "has_effect F i \<longleftrightarrow> (case fn_decl F i of Branch _ _ _ _ \<Rightarrow> True | Jump _ \<Rightarrow> True | Exit \<Rightarrow> True
     | Call f _ \<Rightarrow> sig_has_sideeffects (d_signatures (fn_dfg F) ! f) | _ \<Rightarrow> False)"

section \<open>One step of the pass\<close>

lemma all_dead_ok:
  assumes "Chains_ok V I U" "\<forall>r \<in> set rs. r < length (defs V)"
  shows "all_dead V rs = Some (\<forall>r \<in> set rs. U r = [])"
  using assms(2)
proof (induction rs)
  case (Cons r rs)
  then have r: "r < length (defs V)" by simp
  have "DfgValues_is_dead V r = Some (U r = [])"
    using chain(3) [OF assms(1) r] r by (simp add: DfgValues_is_dead_def uhead_def)
  with Cons show ?case by simp
qed simp

lemma any_output_ok:
  "\<forall>r \<in> set rs. in_words r outs \<Longrightarrow> any_output outs rs = Some (\<exists>r \<in> set rs. r \<in> BitSet_elems outs)"
  by (induction rs) (simp_all add: in_words_def BitSet_contains_correct)

text \<open>The work list: its elements are instructions that may still be looked at again.\<close>

definition queue_ok :: "nat \<Rightarrow> work_queue \<Rightarrow> nat set \<Rightarrow> bool" where
  "queue_ok n q don \<longleftrightarrow> WorkQueue_inv q don \<and> set (deque q) \<subseteq> {..<n} \<and> (\<forall>x < n. in_words x (occupied q))"

lemma queue_okD:
  assumes "queue_ok n q don"
  shows "set (deque q) \<inter> don = {}" "distinct (deque q)" "set (deque q) \<subseteq> {..<n}"
  using assms by (auto simp: queue_ok_def WorkQueue_inv_def queued_def)

lemma queue_defs_ok:
  assumes "queue_ok n q don" "\<forall>v \<in> set args. v < length (defs (d_values D))"
    and "\<forall>d \<in> set (defs (d_values D)). case v_ty d of VInst _ i \<Rightarrow> i < n | _ \<Rightarrow> True"
  shows "\<exists>q'. queue_defs D args q = Some q' \<and> queue_ok n q' don \<and> set (deque q) \<subseteq> set (deque q') \<and>
    (\<forall>v \<in> set args. \<forall>i k. DfgValues_def (d_values D) v = Some (DefResult i k) \<longrightarrow> i \<in> set (deque q') \<union> don)"
  using assms(1,2)
proof (induction args arbitrary: q)
  case (Cons v args)
  then have v: "v < length (defs (d_values D))" by simp
  obtain def where def: "DfgValues_def (d_values D) v = Some def" using v by (simp add: DfgValues_def_def)
  obtain q1 where q1: "(case def of DefResult i _ \<Rightarrow> map_option fst (WorkQueue_insert i q) | _ \<Rightarrow> Some q) = Some q1"
    "queue_ok n q1 don" "set (deque q) \<subseteq> set (deque q1)"
    "\<forall>i k. def = DefResult i k \<longrightarrow> i \<in> set (deque q1) \<union> don"
  proof (cases def)
    case (DefResult i k)
    then have i: "i < n"
      using def v bspec [OF assms(3) nth_mem [OF v]] by (auto simp: DfgValues_def_def split: value_data_type.splits)
    with Cons.prems(1) have w: "WorkQueue_inv q don" "in_words i (occupied q)" by (simp_all add: queue_ok_def)
    from WorkQueue_insert_ok [OF w] obtain q' where q': "WorkQueue_insert i q = Some (q', i \<notin> set (deque q) \<union> don)"
      "WorkQueue_inv q' don" "deque q' = (if i \<in> set (deque q) \<union> don then deque q else deque q @ [i])"
      "same_size (occupied q) (occupied q')" by blast
    then have "queue_ok n q' don" using Cons.prems(1) i by (auto simp: queue_ok_def in_words_same_size)
    with q' DefResult show ?thesis by (intro that [of q']) auto
  qed (use Cons.prems(1) in \<open>auto intro: that\<close>)
  from Cons.IH [OF q1(2)] Cons.prems(2) obtain q2 where
    "queue_defs D args q1 = Some q2" "queue_ok n q2 don" "set (deque q1) \<subseteq> set (deque q2)"
    "\<forall>v \<in> set args. \<forall>i k. DfgValues_def (d_values D) v = Some (DefResult i k) \<longrightarrow> i \<in> set (deque q2) \<union> don" by auto
  with q1 def show ?case by (intro exI [of _ q2]) auto
qed auto

text \<open>
  The state of the pass: \<open>R\<close> is removed. The graph is the original one but for the chains of uses, and
  no remaining instruction names a result of a removed one.
\<close>

definition laid_out :: "(block \<Rightarrow> inst list) \<Rightarrow> inst set" where
  "laid_out ils = {i. \<exists>b. i \<in> set (ils b)}"

definition kept :: "inst set \<Rightarrow> (block \<Rightarrow> inst list) \<Rightarrow> block \<Rightarrow> inst list" where
  "kept R ils b = filter (\<lambda>i. i \<notin> R) (ils b)"

definition removable :: "mir_function \<Rightarrow> (block \<Rightarrow> inst list) \<Rightarrow> mir_value set \<Rightarrow> inst set \<Rightarrow> bool" where
  "removable F ils outs R \<longleftrightarrow> R \<subseteq> laid_out ils \<and>
     (\<forall>r \<in> R. \<not> has_effect F r \<and> set (fn_results F r) \<inter> outs = {} \<and>
        (\<forall>i \<in> laid_out ils - R. set (fn_args F i) \<inter> set (fn_results F r) = {}))"

definition same_function :: "mir_function \<Rightarrow> mir_function \<Rightarrow> bool" where
  "same_function F G \<longleftrightarrow> d_insts (fn_dfg G) = d_insts (fn_dfg F) \<and>
     d_signatures (fn_dfg G) = d_signatures (fn_dfg F) \<and> same_values (d_values (fn_dfg F)) (d_values (fn_dfg G)) \<and>
     length (blocks (fn_layout G)) = length (blocks (fn_layout F))"

definition dce_inv ::
    "mir_function \<Rightarrow> block list \<Rightarrow> (block \<Rightarrow> inst list) \<Rightarrow> mir_value set \<Rightarrow> inst set \<Rightarrow> mir_function \<Rightarrow> bool" where
  "dce_inv F bs ils outs R G \<longleftrightarrow> removable F ils outs R \<and> same_function F G \<and>
     Layout_ok (fn_layout G) bs (kept R ils) \<and> (\<exists>U. Dfg_ok (fn_dfg G) U) \<and>
     (\<forall>i \<in> laid_out ils - R. operands_attached (fn_dfg G) i)"

text \<open>An instruction the pass must keep: it has an effect, or one of its results is an output or used.\<close>

definition live_inst :: "mir_value set \<Rightarrow> mir_function \<Rightarrow> inst \<Rightarrow> bool" where
  "live_inst outs G i \<longleftrightarrow> has_effect G i \<or>
     (\<exists>r \<in> set (fn_results G i). r \<in> outs \<or> DfgValues_is_dead (d_values (fn_dfg G)) r \<noteq> Some True)"

lemma has_effect_same:
  "d_insts (fn_dfg G) = d_insts (fn_dfg F) \<Longrightarrow> d_signatures (fn_dfg G) = d_signatures (fn_dfg F) \<Longrightarrow>
    has_effect G i = has_effect F i"
  by (auto simp: has_effect_def fn_decl_def split: instruction_data.splits)

lemma live_inst_chains:
  assumes "Dfg_ok (fn_dfg G) U" "\<forall>r \<in> set (fn_results G i). r < num_values G"
  shows "live_inst outs G i \<longleftrightarrow> has_effect G i \<or> (\<exists>r \<in> set (fn_results G i). r \<in> outs \<or> U r \<noteq> [])"
proof -
  have "DfgValues_is_dead (d_values (fn_dfg G)) r \<noteq> Some True \<longleftrightarrow> U r \<noteq> []" if "r \<in> set (fn_results G i)" for r
    using chain(3) [of "d_values (fn_dfg G)" "d_insts (fn_dfg G)" U r] assms that
    by (auto simp: Dfg_ok_def DfgValues_is_dead_def uhead_def first_of_def split: list.splits)
  then show ?thesis unfolding live_inst_def by blast
qed

lemma Dfg_inst_dead_ok:
  assumes "Dfg_ok D U" "i < length (declarations (d_insts D))" "decl_ok D (declarations (d_insts D) ! i)"
    and "\<forall>r \<in> set (inst_results (d_insts D) ! i). r < length (defs (d_values D))"
  shows "Dfg_inst_dead D i True = Some ((\<forall>r \<in> set (inst_results (d_insts D) ! i). U r = []) \<and>
    \<not> (case declarations (d_insts D) ! i of Branch _ _ _ _ \<Rightarrow> True | Jump _ \<Rightarrow> True | Exit \<Rightarrow> True
       | Call f _ \<Rightarrow> sig_has_sideeffects (d_signatures D ! f) | _ \<Rightarrow> False))"
proof -
  have ok: "Chains_ok (d_values D) (d_insts D) U" "Operands_ok (d_insts D) (d_values D)"
    using assms(1) by (simp_all add: Dfg_ok_def)
  have "Dfg_has_sideeffects D i True = Some (case declarations (d_insts D) ! i of Branch _ _ _ _ \<Rightarrow> True | Jump _ \<Rightarrow> True
      | Exit \<Rightarrow> True | Call f _ \<Rightarrow> sig_has_sideeffects (d_signatures D ! f) | _ \<Rightarrow> False)"
    using assms(2,3) by (auto simp: Dfg_has_sideeffects_def decl_ok_def split: instruction_data.splits)
  then show ?thesis
    using all_dead_ok [OF ok(1) assms(4)] assms(2) operand_tables(2) [OF ok(2)]
    by (simp add: Dfg_inst_dead_def DfgInsts_safe_to_remove_def DfgInsts_results_def)
qed

lemma unused_result_not_named:
  assumes "Dfg_ok D U" "i < length (declarations (d_insts D))" "operands_attached D i" "U r = []"
  shows "r \<notin> set (InstructionData_arguments (declarations (d_insts D) ! i))"
proof
  assume "r \<in> set (InstructionData_arguments (declarations (d_insts D) ! i))"
  then obtain k where k: "k < length (InstructionData_arguments (declarations (d_insts D) ! i))"
    "InstructionData_arguments (declarations (d_insts D) ! i) ! k = r"
    by (auto simp: in_set_conv_nth)
  have "Operands_ok (d_insts D) (d_values D)" using assms(1) by (simp add: Dfg_ok_def)
  from operand_at(1) [OF this assms(2) k(1)] assms(3) k(1)
  have "attached (uses (d_values D) ! (inst_operands (d_insts D) ! i ! k))" by (simp add: operands_attached_def)
  from operand_in_chain [OF assms(1,2) k(1) refl this] k(2) assms(4) show False by simp
qed

text \<open>Zapping an instruction takes its uses from the chains of its arguments only.\<close>

lemma zapped_chain:
  assumes ok: "Dfg_ok D U" and i: "i < length (declarations (d_insts D))"
    and r: "U r \<noteq> []" "without (set (inst_operands (d_insts D) ! i)) U r = []"
  shows "r \<in> set (InstructionData_arguments (declarations (d_insts D) ! i))"
proof -
  from r obtain u where u: "u \<in> set (U r)" "u \<in> set (inst_operands (d_insts D) ! i)"
    by (cases "U r") (auto simp: without_def split: if_splits)
  then obtain k where k: "k < length (inst_operands (d_insts D) ! i)" "inst_operands (d_insts D) ! i ! k = u"
    by (auto simp: in_set_conv_nth)
  have io: "inst_operands_ok (d_insts D) (d_values D) i" and uv: "DfgValues_use_to_value (d_values D) u (d_insts D) = Some r"
    using ok i u(1) by (auto simp: Dfg_ok_def Operands_ok_def Chains_ok_def)
  have "u < length (uses (d_values D))" "parent (uses (d_values D) ! u) = i" "parent_idx (uses (d_values D) ! u) = k"
    "k < length (InstructionData_arguments (declarations (d_insts D) ! i))"
    using io k by (auto simp: inst_operands_ok_def)
  with uv i show ?thesis by (auto simp: DfgValues_use_to_value_def DfgInsts_args_def DfgValues_use_to_operand_def)
qed

lemma kept_remove:
  assumes "ils b = xs @ i # ys" "i \<notin> set xs" "i \<notin> set ys" "\<And>c. c \<noteq> b \<Longrightarrow> i \<notin> set (ils c)"
  shows "(kept R ils)(b := filter (\<lambda>j. j \<notin> R) xs @ filter (\<lambda>j. j \<notin> R) ys) = kept (insert i R) ils"
proof -
  have "filter (\<lambda>j. j \<noteq> i \<and> j \<notin> R) zs = filter (\<lambda>j. j \<notin> R) zs" if "i \<notin> set zs" for zs
    using that by (auto intro: filter_cong)
  then show ?thesis using assms by (auto simp: fun_eq_iff kept_def)
qed

lemma dce_remove_ok:
  assumes F: "Fn_ok F bs ils" and inv: "dce_inv F bs ils outs R G" and i: "i \<in> laid_out ils" "i \<notin> R"
    and U: "Dfg_ok (fn_dfg G) U" "\<forall>r \<in> set (fn_results F i). U r = []"
    and free: "\<not> has_effect F i" "set (fn_results F i) \<inter> outs = {}"
  shows "\<exists>D L. Dfg_zap_inst i (fn_dfg G) = Some D \<and> d_insts D = d_insts (fn_dfg F) \<and>
    Layout_remove_inst (fn_layout G) i = Some L \<and>
    dce_inv F bs ils outs (insert i R) (G\<lparr>fn_dfg := D, fn_layout := L\<rparr>) \<and>
    (\<forall>j < num_insts F. live_inst outs G j \<longrightarrow>
       live_inst outs (G\<lparr>fn_dfg := D, fn_layout := L\<rparr>) j \<or> set (fn_results F j) \<inter> set (fn_args F i) \<noteq> {})"
proof -
  have same: "d_insts (fn_dfg G) = d_insts (fn_dfg F)" and lay: "Layout_ok (fn_layout G) bs (kept R ils)"
    and rem: "removable F ils outs R" and att: "\<forall>j \<in> laid_out ils - R. operands_attached (fn_dfg G) j"
    and sf: "same_function F G"
    using inv by (simp_all add: dce_inv_def same_function_def)
  have lay0: "Layout_ok (fn_layout F) bs ils" and ins: "\<And>b j. j \<in> set (ils b) \<Longrightarrow> j < num_insts F"
    using F by (auto simp: Fn_ok_def)
  obtain b where b: "i \<in> set (ils b)" using i(1) by (auto simp: laid_out_def)
  have iN: "i < length (declarations (d_insts (fn_dfg G)))" using ins [OF b] same by simp
  from Dfg_zap_inst_ok [OF U(1) iN] obtain V' where V':
    "Dfg_zap_inst i (fn_dfg G) = Some ((fn_dfg G)\<lparr>d_values := V'\<rparr>)"
    "Dfg_ok ((fn_dfg G)\<lparr>d_values := V'\<rparr>) (without (set (inst_operands (d_insts (fn_dfg G)) ! i)) U)"
    "same_values (d_values (fn_dfg G)) V'" "same_parents (d_values (fn_dfg G)) V'"
    "\<forall>w < length (uses V'). attached (uses V' ! w) \<longleftrightarrow>
       attached (uses (d_values (fn_dfg G)) ! w) \<and> w \<notin> set (inst_operands (d_insts (fn_dfg G)) ! i)"
    by blast
  from split_list [OF b] obtain xs ys where xs: "ils b = xs @ i # ys" by blast
  have "distinct (ils b)" using insts_dll(2) [OF lay0 ok_inst(1) [of _ _ ils i b]] lay0 b by blast
  then have ni: "i \<notin> set xs" "i \<notin> set ys" by (simp_all add: xs)
  have "kept R ils b = filter (\<lambda>j. j \<notin> R) xs @ i # filter (\<lambda>j. j \<notin> R) ys" using i(2) by (simp add: kept_def xs)
  moreover have "(kept R ils)(b := filter (\<lambda>j. j \<notin> R) xs @ filter (\<lambda>j. j \<notin> R) ys) = kept (insert i R) ils"
    by (rule kept_remove [of ils b xs i ys]) (use xs ni disjoint_blocks [OF lay0 b] in blast)+
  ultimately obtain L where L: "Layout_remove_inst (fn_layout G) i = Some L" "Layout_ok L bs (kept (insert i R) ils)"
    using Layout_remove_inst_ok [OF lay, of b] by metis
  have O: "Operands_ok (d_insts (fn_dfg G)) (d_values (fn_dfg G))" using U(1) by (simp add: Dfg_ok_def)
  have att': "operands_attached ((fn_dfg G)\<lparr>d_values := V'\<rparr>) j" if j: "j \<in> laid_out ils - insert i R" for j
  proof -
    have jN: "j < length (declarations (d_insts (fn_dfg G)))" and ne: "j \<noteq> i" using j ins same by (auto simp: laid_out_def)
    have oi: "inst_operands_ok (d_insts (fn_dfg G)) (d_values (fn_dfg G)) k"
      if "k < length (declarations (d_insts (fn_dfg G)))" for k
      using O that by (simp add: Operands_ok_def)
    have "u < length (uses V') \<and> u \<notin> set (inst_operands (d_insts (fn_dfg G)) ! i)"
      if "u \<in> set (inst_operands (d_insts (fn_dfg G)) ! j)" for u
      using that oi [OF jN] oi [OF iN] ne V'(4)
      by (auto simp: inst_operands_ok_def in_set_conv_nth same_parents_def)
    with V'(5) att j show ?thesis by (auto simp: operands_attached_def)
  qed
  have "set (fn_args F j) \<inter> set (fn_results F i) = {}" if "j \<in> laid_out ils - insert i R" for j
  proof -
    have "operands_attached (fn_dfg G) j" "j < length (declarations (d_insts (fn_dfg G)))"
      using that att ins same by (auto simp: laid_out_def)
    from unused_result_not_named [OF U(1) this(2,1)] U(2) show ?thesis
      by (auto simp: fn_args_def fn_decl_def same)
  qed
  then have "removable F ils outs (insert i R)" using rem free i(1) by (auto simp: removable_def)
  moreover have "same_function F (G\<lparr>fn_dfg := (fn_dfg G)\<lparr>d_values := V'\<rparr>, fn_layout := L\<rparr>)"
    using sf V'(3) same_values_trans keeps_insts(4) [OF refl] L(1) by (auto simp: same_function_def keeps_n_def)
  ultimately have "dce_inv F bs ils outs (insert i R) (G\<lparr>fn_dfg := (fn_dfg G)\<lparr>d_values := V'\<rparr>, fn_layout := L\<rparr>)"
    using L(2) V'(2) att' by (auto simp: dce_inv_def)
  moreover have "live_inst outs (G\<lparr>fn_dfg := (fn_dfg G)\<lparr>d_values := V'\<rparr>, fn_layout := L\<rparr>) j \<or>
      set (fn_results F j) \<inter> set (fn_args F i) \<noteq> {}" if j: "j < num_insts F" "live_inst outs G j" for j
  proof -
    let ?G = "G\<lparr>fn_dfg := (fn_dfg G)\<lparr>d_values := V'\<rparr>, fn_layout := L\<rparr>"
    have eq: "fn_results ?G j = fn_results F j" "fn_results G j = fn_results F j" "has_effect ?G j = has_effect G j"
      using same by (simp_all add: fn_results_def has_effect_same)
    have "\<forall>r \<in> set (fn_results F j). r < num_values F"
      using F j(1) by (auto simp: Fn_ok_def values_ok_def fn_results_def Dfg_ok_def Operands_ok_def)
    then have rs: "\<forall>r \<in> set (fn_results G j). r < num_values G" "\<forall>r \<in> set (fn_results ?G j). r < num_values ?G"
      using same_values_length [OF V'(3)] sf same_values_length eq by (auto simp: same_function_def)
    have D': "Dfg_ok (fn_dfg ?G) (without (set (inst_operands (d_insts (fn_dfg G)) ! i)) U)" using V'(2) by simp
    show ?thesis
      using j(2) zapped_chain [OF U(1) iN]
      unfolding live_inst_chains [OF U(1) rs(1)] live_inst_chains [OF D' rs(2)] eq fn_args_def fn_decl_def same by blast
  qed
  ultimately show ?thesis using V'(1) L(1) same by auto
qed

lemma dce_process_ok:
  assumes F: "Fn_ok F bs ils" and outs: "\<forall>v < num_values F. in_words v outs"
    and inv: "dce_inv F bs ils (BitSet_elems outs) R G" and i: "i \<in> laid_out ils" "i \<notin> R"
    and q: "queue_ok (num_insts F) q don" "i \<in> don"
  shows "(\<exists>q'. dce_process outs i q G = Some (q', G) \<and> queue_ok (num_insts F) q' (don - {i}) \<and> deque q' = deque q \<and>
       live_inst (BitSet_elems outs) G i) \<or>
    (\<exists>q' G'. dce_process outs i q G = Some (q', G') \<and> dce_inv F bs ils (BitSet_elems outs) (insert i R) G' \<and>
       queue_ok (num_insts F) q' don \<and> set (deque q) \<subseteq> set (deque q') \<and>
       (\<forall>j \<in> laid_out ils. live_inst (BitSet_elems outs) G j \<longrightarrow>
          live_inst (BitSet_elems outs) G' j \<or> j \<in> set (deque q') \<union> don))"
proof -
  have same: "d_insts (fn_dfg G) = d_insts (fn_dfg F)" "d_signatures (fn_dfg G) = d_signatures (fn_dfg F)"
    "same_values (d_values (fn_dfg F)) (d_values (fn_dfg G))"
    using inv by (simp_all add: dce_inv_def same_function_def)
  note nv = same_values_length [OF same(3)]
  obtain U where U: "Dfg_ok (fn_dfg G) U" using inv by (auto simp: dce_inv_def)
  have iN: "i < num_insts F" and dok: "decl_ok (fn_dfg F) (fn_decl F i)"
    using F i(1) by (auto simp: Fn_ok_def laid_out_def)
  have tabs: "length (inst_results (d_insts (fn_dfg F))) = num_insts F"
    using F by (auto simp: Fn_ok_def Dfg_ok_def Operands_ok_def)
  have res: "\<forall>r \<in> set (fn_results F i). r < num_values F"
    using F iN tabs by (auto simp: Fn_ok_def values_ok_def fn_results_def)
  let ?unused = "\<forall>r \<in> set (fn_results F i). U r = []" and ?out = "\<exists>r \<in> set (fn_results F i). r \<in> BitSet_elems outs"
  have dead: "Dfg_inst_dead (fn_dfg G) i True = Some (?unused \<and> \<not> has_effect F i)"
    using Dfg_inst_dead_ok [OF U, of i] iN dok res nv
    unfolding decl_ok_def fn_decl_def fn_results_def has_effect_def same(1,2) by simp
  have out: "any_output outs (fn_results F i) = Some ?out" using any_output_ok [of "fn_results F i" outs] res outs by blast
  have rs: "DfgInsts_results (d_insts (fn_dfg G)) i = Some (fn_results F i)"
    using iN tabs by (simp add: DfgInsts_results_def same fn_results_def)
  show ?thesis
  proof (cases "?unused \<and> \<not> has_effect F i \<and> \<not> ?out")
    case True
    then obtain D L where DL: "Dfg_zap_inst i (fn_dfg G) = Some D" "d_insts D = d_insts (fn_dfg F)"
      "Layout_remove_inst (fn_layout G) i = Some L"
      "dce_inv F bs ils (BitSet_elems outs) (insert i R) (G\<lparr>fn_dfg := D, fn_layout := L\<rparr>)"
      and live: "\<forall>j < num_insts F. live_inst (BitSet_elems outs) G j \<longrightarrow>
         live_inst (BitSet_elems outs) (G\<lparr>fn_dfg := D, fn_layout := L\<rparr>) j \<or> set (fn_results F j) \<inter> set (fn_args F i) \<noteq> {}"
      using dce_remove_ok [OF F inv i U] by blast
    have D: "same_values (d_values (fn_dfg F)) (d_values D)" "\<exists>U. Dfg_ok D U"
      using DL(4) by (auto simp: dce_inv_def same_function_def)
    have args: "DfgInsts_args (d_insts D) i = Some (fn_args F i)"
      using iN DL(2) by (simp add: DfgInsts_args_def fn_args_def fn_decl_def)
    have "\<forall>v \<in> set (fn_args F i). v < length (defs (d_values D))"
      using D(2) DL(2) iN by (auto simp: Dfg_ok_def Operands_ok_def inst_operands_ok_def fn_args_def fn_decl_def)
    moreover have "\<forall>d \<in> set (defs (d_values D)). case v_ty d of VInst _ i \<Rightarrow> i < num_insts F | _ \<Rightarrow> True"
    proof -
      have "\<forall>t \<in> set (map v_ty (defs (d_values (fn_dfg F)))). case t of VInst _ i \<Rightarrow> i < num_insts F | _ \<Rightarrow> True"
        using F by (simp add: Fn_ok_def values_ok_def)
      then have "\<forall>t \<in> set (map v_ty (defs (d_values D))). case t of VInst _ i \<Rightarrow> i < num_insts F | _ \<Rightarrow> True"
        using D(1) by (simp only: same_values_def)
      then show ?thesis by simp
    qed
    ultimately obtain q' where q': "queue_defs D (fn_args F i) q = Some q'" "queue_ok (num_insts F) q' don"
      "set (deque q) \<subseteq> set (deque q')"
      "\<forall>v \<in> set (fn_args F i). \<forall>j k. DfgValues_def (d_values D) v = Some (DefResult j k) \<longrightarrow> j \<in> set (deque q') \<union> don"
      using queue_defs_ok [OF q(1), of "fn_args F i" D] by blast
    let ?G = "G\<lparr>fn_dfg := D, fn_layout := L\<rparr>"
    have "live_inst (BitSet_elems outs) ?G j \<or> j \<in> set (deque q') \<union> don"
      if j: "j \<in> laid_out ils" "live_inst (BitSet_elems outs) G j" for j
    proof (rule disjCI)
      assume "j \<notin> set (deque q') \<union> don"
      moreover have jN: "j < num_insts F" using F j(1) by (auto simp: Fn_ok_def laid_out_def)
      moreover have "\<exists>k. DfgValues_def (d_values D) r = Some (DefResult j k)" if "r \<in> set (fn_results F j)" for r
      proof -
        have r: "r < num_values F" "\<exists>k. v_ty (defs (d_values (fn_dfg F)) ! r) = VInst k j"
          using F tabs jN that by (auto simp: Fn_ok_def values_ok_def fn_results_def)
        then show ?thesis using same_values_def_eq [OF D(1), of r] by (auto simp: DfgValues_def_def)
      qed
      ultimately have "set (fn_results F j) \<inter> set (fn_args F i) = {}" using q'(4) by blast
      with live jN j(2) show "live_inst (BitSet_elems outs) ?G j" by blast
    qed
    moreover have "dce_process outs i q G = Some (q', ?G)"
      using True DL(1-3) dead out rs args q'(1) by (auto simp: dce_process_def)
    ultimately show ?thesis using DL(4) q'(2,3) by blast
  next
    case False
    have "queued (deque q) (BitSet_elems (occupied q)) don" "in_words i (occupied q)" "i \<notin> set (deque q)"
      using q iN by (auto simp: queue_ok_def WorkQueue_inv_def queued_def)
    moreover obtain s where s: "BitSet_remove i (occupied q) = Some (s, i \<in> BitSet_elems (occupied q))"
      "BitSet_elems s = BitSet_elems (occupied q) - {i}" "same_size (occupied q) s"
      using BitSet_remove_correct [of i "occupied q"] calculation(2) by (auto simp: in_words_def same_size_def)
    ultimately have "queue_ok (num_insts F) (q\<lparr>occupied := s\<rparr>) (don - {i})"
      using q(1) by (auto simp: queue_ok_def WorkQueue_inv_def queued_def in_words_same_size)
    moreover have "live_inst (BitSet_elems outs) G i"
    proof -
      have "fn_results G i = fn_results F i" "\<forall>r \<in> set (fn_results G i). r < num_values G"
        using same(1) res nv by (simp_all add: fn_results_def)
      with False show ?thesis using live_inst_chains [OF U] has_effect_same [OF same(1,2)] by auto
    qed
    ultimately show ?thesis using False s dead out rs by (auto simp: dce_process_def)
  qed
qed

section \<open>The whole pass returns\<close>

text \<open>
  What holds between steps: an instruction that may still be offered to the work list is in the layout
  and not removed, and a remaining instruction waits to be looked at or must be kept.
\<close>

definition dce_state ::
    "mir_function \<Rightarrow> block list \<Rightarrow> (block \<Rightarrow> inst list) \<Rightarrow> mir_value set \<Rightarrow> inst set \<Rightarrow> nat set \<Rightarrow>
     work_queue \<Rightarrow> mir_function \<Rightarrow> bool" where
  "dce_state F bs ils outs R don q G \<longleftrightarrow> dce_inv F bs ils outs R G \<and> queue_ok (num_insts F) q don \<and>
     {..<num_insts F} - don \<subseteq> laid_out ils - R \<and>
     (\<forall>i \<in> laid_out ils - R. i \<in> set (deque q) \<union> don \<or> live_inst outs G i)"

lemma dce_process_step:
  assumes F: "Fn_ok F bs ils" and outs: "\<forall>v < num_values F. in_words v outs"
    and st: "dce_state F bs ils (BitSet_elems outs) R don q G" and i: "i \<in> laid_out ils" "i \<notin> R" "i \<in> don"
  obtains (live) q' where "dce_process outs i q G = Some (q', G)" "deque q' = deque q"
      "dce_state F bs ils (BitSet_elems outs) R (don - {i}) q' G"
  | (dead) q' G' where "dce_process outs i q G = Some (q', G')"
      "dce_state F bs ils (BitSet_elems outs) (insert i R) don q' G'"
proof -
  note st = st [unfolded dce_state_def]
  consider (l) q' where "dce_process outs i q G = Some (q', G)" "queue_ok (num_insts F) q' (don - {i})" "deque q' = deque q"
      "live_inst (BitSet_elems outs) G i"
    | (d) q' G' where "dce_process outs i q G = Some (q', G')" "dce_inv F bs ils (BitSet_elems outs) (insert i R) G'"
      "queue_ok (num_insts F) q' don"
      "set (deque q) \<subseteq> set (deque q')" "\<forall>j \<in> laid_out ils. live_inst (BitSet_elems outs) G j \<longrightarrow>
          live_inst (BitSet_elems outs) G' j \<or> j \<in> set (deque q') \<union> don"
    using dce_process_ok [OF F outs _ i(1,2) _ i(3), of G q] st by blast
  then show thesis
  proof cases
    case l
    then show ?thesis using st i by (intro live [of q']) (auto simp: dce_state_def)
  next
    case d
    then show ?thesis using st i by (intro dead [of q' G']) (auto simp: dce_state_def)
  qed
qed

lemma dce_insts_ok:
  assumes F: "Fn_ok F bs ils" and outs: "\<forall>v < num_values F. in_words v outs" and b: "b \<in> set bs"
    and "dce_state F bs ils (BitSet_elems outs) R don q G" "ils b = xs @ ys" "set xs \<inter> R = {}" "set xs \<subseteq> don"
  shows "\<exists>q' G' R' don'. dce_insts outs (cursor_of xs) q G = Some (q', G') \<and>
    dce_state F bs ils (BitSet_elems outs) R' don' q' G' \<and> R \<subseteq> R' \<and> R' \<subseteq> R \<union> set xs \<and>
    don - set xs \<subseteq> don' \<and> don' \<subseteq> don \<and> don' \<inter> set xs \<subseteq> R'"
  using assms(4-)
proof (induction xs arbitrary: R don q G ys rule: rev_induct)
  case Nil
  from InstCursor_steps(2) [of "fn_layout G" bs "kept R ils" b "[]" "[]" "kept R ils b"] b Nil(1)
  have "InstCursor_next_back (fn_layout G) (cursor_of []) = Some (None, cursor_of [])"
    by (simp add: dce_state_def dce_inv_def)
  with Nil show ?case by (subst dce_insts.simps) auto
next
  case (snoc i zs)
  have lay: "Layout_ok (fn_layout F) bs ils" using F by (simp add: Fn_ok_def)
  have "kept R ils b = [] @ (zs @ [i]) @ kept R (\<lambda>_. ys) b"
    using snoc.prems(2,3) by (auto simp: kept_def intro!: filter_True)
  from InstCursor_steps(2) [of "fn_layout G" bs "kept R ils" b "[]" "zs @ [i]", OF _ b this] snoc.prems(1)
  have cur: "InstCursor_next_back (fn_layout G) (cursor_of (zs @ [i])) = Some (Some i, cursor_of zs)"
    by (simp add: dce_state_def dce_inv_def)
  have i: "i \<in> laid_out ils" "i \<notin> R" "i \<in> don" using snoc.prems(2-4) by (auto simp: laid_out_def intro!: exI [of _ b])
  have "distinct (zs @ i # ys)" using insts_dll(2) [OF lay b] snoc.prems(2) by simp
  then have iz: "i \<notin> set zs" by simp
  have zs: "ils b = zs @ i # ys" "set zs \<inter> R = {}" using snoc.prems(2,3) by auto
  have run: "dce_insts outs (cursor_of (zs @ [i])) q G = Some (q2, G2)"
    if "dce_process outs i q G = Some (q1, G1)" "dce_insts outs (cursor_of zs) q1 G1 = Some (q2, G2)" for q1 G1 q2 G2
    using cur that by (subst dce_insts.simps) simp
  show ?case
  proof (rule dce_process_step [OF F outs snoc.prems(1) i])
    fix q' assume p: "dce_process outs i q G = Some (q', G)" "dce_state F bs ils (BitSet_elems outs) R (don - {i}) q' G"
    have "set zs \<subseteq> don - {i}" using snoc.prems(4) iz by auto
    from snoc.IH [OF p(2) zs this] obtain q'' G'' R' don' where
      1: "dce_insts outs (cursor_of zs) q' G = Some (q'', G'')" "dce_state F bs ils (BitSet_elems outs) R' don' q'' G''"
      and sub: "R \<subseteq> R'" "R' \<subseteq> R \<union> set zs" "don - {i} - set zs \<subseteq> don'" "don' \<subseteq> don - {i}" "don' \<inter> set zs \<subseteq> R'"
      by blast
    have "R' \<subseteq> R \<union> set (zs @ [i]) \<and> don - set (zs @ [i]) \<subseteq> don' \<and> don' \<subseteq> don \<and> don' \<inter> set (zs @ [i]) \<subseteq> R'"
      using sub(2-) by auto
    with run [OF p(1) 1(1)] 1(2) sub(1) show ?thesis by blast
  next
    fix q' G' assume p: "dce_process outs i q G = Some (q', G')" "dce_state F bs ils (BitSet_elems outs) (insert i R) don q' G'"
    have "set zs \<inter> insert i R = {}" "set zs \<subseteq> don" using zs snoc.prems(4) iz by auto
    from snoc.IH [OF p(2) zs(1) this] obtain q'' G'' R' don' where
      1: "dce_insts outs (cursor_of zs) q' G' = Some (q'', G'')" "dce_state F bs ils (BitSet_elems outs) R' don' q'' G''"
      and sub: "insert i R \<subseteq> R'" "R' \<subseteq> insert i R \<union> set zs" "don - set zs \<subseteq> don'" "don' \<subseteq> don" "don' \<inter> set zs \<subseteq> R'"
      by blast
    have "R \<subseteq> R' \<and> R' \<subseteq> R \<union> set (zs @ [i]) \<and> don - set (zs @ [i]) \<subseteq> don' \<and> don' \<inter> set (zs @ [i]) \<subseteq> R'"
      using sub by auto
    with run [OF p(1) 1(1)] 1(2) sub(4) show ?thesis by blast
  qed
qed

lemma dce_blocks_ok:
  assumes F: "Fn_ok F bs ils" and outs: "\<forall>v < num_values F. in_words v outs"
    and "dce_state F bs ils (BitSet_elems outs) R don q G" "bs = xs @ ys"
    and "\<forall>b \<in> set xs. set (ils b) \<inter> R = {} \<and> set (ils b) \<subseteq> don"
  shows "\<exists>q' G' R' don'. dce_blocks outs (last_of None xs) q G = Some (q', G') \<and>
    dce_state F bs ils (BitSet_elems outs) R' don' q' G' \<and> R \<subseteq> R' \<and> don' \<subseteq> don \<and>
    (\<forall>b \<in> set xs. don' \<inter> set (ils b) \<subseteq> R')"
  using assms(3-)
proof (induction xs arbitrary: R don q G ys rule: rev_induct)
  case Nil
  have "RevBlockCursor_next (fn_layout G) None = Some (None, None)" by (simp add: RevBlockCursor_next_def)
  with Nil show ?case by (subst dce_blocks.simps) auto
next
  case (snoc b zs)
  have lay: "Layout_ok (fn_layout F) bs ils" using F by (simp add: Fn_ok_def)
  have layG: "Layout_ok (fn_layout G) bs (kept R ils)" using snoc.prems(1) by (simp add: dce_state_def dce_inv_def)
  have b: "b \<in> set bs" using snoc.prems(2) by simp
  have cur: "RevBlockCursor_next (fn_layout G) (last_of None (zs @ [b])) = Some (Some b, last_of None zs)"
    using BlockCursor_steps(2) [OF layG [unfolded snoc.prems(2)]] by simp
  have "kept R ils b = ils b" using snoc.prems(3) by (auto simp: kept_def intro!: filter_True)
  then have icur: "Layout_block_inst_cursor (fn_layout G) b = Some (cursor_of (ils b))"
    using block_inst_cursor_ok [OF layG b] by simp
  have "ils b = ils b @ []" "set (ils b) \<inter> R = {}" "set (ils b) \<subseteq> don" using snoc.prems(3) by auto
  from dce_insts_ok [OF F outs b snoc.prems(1) this] obtain q' G' R' don' where
    1: "dce_insts outs (cursor_of (ils b)) q G = Some (q', G')" "dce_state F bs ils (BitSet_elems outs) R' don' q' G'"
      "R' \<subseteq> R \<union> set (ils b)" "don - set (ils b) \<subseteq> don'" "R \<subseteq> R'" "don' \<subseteq> don" "don' \<inter> set (ils b) \<subseteq> R'"
    by blast
  have "set (ils c) \<inter> R' = {} \<and> set (ils c) \<subseteq> don'" if c: "c \<in> set zs" for c
  proof -
    have "c \<noteq> b" using blocks_distinct [OF lay] snoc.prems(2) c by auto
    then have "set (ils c) \<inter> set (ils b) = {}" using disjoint_blocks [OF lay, of _ c b] by auto
    then show ?thesis using snoc.prems(3) c 1(3,4) by (fastforce simp: disjoint_iff)
  qed
  then have "\<forall>c \<in> set zs. set (ils c) \<inter> R' = {} \<and> set (ils c) \<subseteq> don'" by blast
  from snoc.IH [OF 1(2) _ this] snoc.prems(2) obtain q'' G'' R'' don'' where
    2: "dce_blocks outs (last_of None zs) q' G' = Some (q'', G'')" "dce_state F bs ils (BitSet_elems outs) R'' don'' q'' G''"
    and sub: "R' \<subseteq> R''" "don'' \<subseteq> don'" "\<forall>b \<in> set zs. don'' \<inter> set (ils b) \<subseteq> R''"
    by auto
  have "dce_blocks outs (last_of None (zs @ [b])) q G = Some (q'', G'')"
    using cur icur 1(1) 2(1) by (subst dce_blocks.simps) auto
  moreover have "\<forall>c \<in> set (zs @ [b]). don'' \<inter> set (ils c) \<subseteq> R''" using sub 1(7) by auto
  moreover have "R \<subseteq> R''" "don'' \<subseteq> don" using sub(1,2) 1(5,6) by blast+
  ultimately show ?case using 2(2) by blast
qed

lemma dce_work_list_ok:
  assumes F: "Fn_ok F bs ils" and outs: "\<forall>v < num_values F. in_words v outs"
    and "dce_state F bs ils (BitSet_elems outs) R don q G" "don \<inter> laid_out ils \<subseteq> R"
  shows "\<exists>G' R'. dce_work_list outs q G = Some G' \<and> dce_inv F bs ils (BitSet_elems outs) R' G' \<and>
    (\<forall>i \<in> laid_out ils - R'. live_inst (BitSet_elems outs) G' i)"
  using assms(3,4)
proof (induction "card (laid_out ils - R) * Suc (num_insts F) + length (deque q)" arbitrary: R don q G rule: less_induct)
  case less
  show ?case
  proof (cases "deque q")
    case Nil
    have "dce_work_list outs q G = Some G" using Nil by (subst dce_work_list.simps) (simp add: WorkQueue_take_def)
    moreover have "\<forall>i \<in> laid_out ils - R. live_inst (BitSet_elems outs) G i"
      using less.prems Nil unfolding dce_state_def by auto
    ultimately show ?thesis using less.prems(1) unfolding dce_state_def by blast
  next
    case (Cons i js)
    obtain q1 where q1: "WorkQueue_take q = (q1, Some i)" by (simp add: WorkQueue_take_def Cons)
    note st = less.prems(1) [unfolded dce_state_def queue_ok_def]
    have t: "i \<notin> don" "WorkQueue_inv q1 (insert i don)" "deque q1 = js" "occupied q1 = occupied q"
      using WorkQueue_take_ok [OF _ Cons q1, of don] st by auto
    have i: "i \<in> laid_out ils" "i \<notin> R" "i \<in> insert i don" using st t(1) Cons by auto
    have st1: "dce_state F bs ils (BitSet_elems outs) R (insert i don) q1 G"
      using st t Cons by (auto simp: dce_state_def queue_ok_def)
    show ?thesis
    proof (rule dce_process_step [OF F outs st1 i])
      fix q' assume p: "dce_process outs i q1 G = Some (q', G)" "deque q' = deque q1"
        "dce_state F bs ils (BitSet_elems outs) R (insert i don - {i}) q' G"
      have "card (laid_out ils - R) * Suc (num_insts F) + length (deque q') <
          card (laid_out ils - R) * Suc (num_insts F) + length (deque q)"
        using p(2) t(3) Cons by simp
      moreover have "(insert i don - {i}) \<inter> laid_out ils \<subseteq> R" using less.prems(2) by blast
      ultimately show ?thesis using less.hyps [OF _ p(3)] q1 p(1) by (subst dce_work_list.simps) auto
    next
      fix q' G' assume p: "dce_process outs i q1 G = Some (q', G')"
        "dce_state F bs ils (BitSet_elems outs) (insert i R) (insert i don) q' G'"
      have "laid_out ils \<subseteq> {..<num_insts F}" using F by (auto simp: laid_out_def Fn_ok_def)
      then have "finite (laid_out ils - R)" using finite_subset by blast
      moreover have "laid_out ils - insert i R \<subset> laid_out ils - R" using i by auto
      ultimately have "card (laid_out ils - insert i R) < card (laid_out ils - R)" by (rule psubset_card_mono)
      moreover have "length (deque q') \<le> num_insts F"
      proof -
        have "queue_ok (num_insts F) q' (insert i don)" using p(2) by (simp add: dce_state_def)
        from queue_okD(2,3) [OF this] show ?thesis
          using card_mono [of "{..<num_insts F}" "set (deque q')"] distinct_card [of "deque q'"] by simp
      qed
      ultimately have "card (laid_out ils - insert i R) * Suc (num_insts F) + length (deque q') <
          card (laid_out ils - R) * Suc (num_insts F) + length (deque q)"
        using mult_le_mono1 [of "Suc (card (laid_out ils - insert i R))" "card (laid_out ils - R)" "Suc (num_insts F)"] by simp
      moreover have "insert i don \<inter> laid_out ils \<subseteq> insert i R" using less.prems(2) by blast
      ultimately show ?thesis using less.hyps [OF _ p(2)] q1 p(1) by (subst dce_work_list.simps) auto
    qed
  qed
qed

lemma dead_code_elimination_ok:
  assumes F: "Fn_ok F bs ils" and outs: "\<forall>v < num_values F. in_words v outs"
  shows "\<exists>G R. dead_code_elimination outs F = Some G \<and> dce_inv F bs ils (BitSet_elems outs) R G \<and>
    (\<forall>i \<in> laid_out ils - R. live_inst (BitSet_elems outs) G i)"
proof -
  let ?n = "num_insts F"
  have lay: "Layout_ok (fn_layout F) bs ils" using F by (simp add: Fn_ok_def)
  obtain s where s: "BitSet_new_filled ?n = Some s" "BitSet_wf s" "BitSet_elems s = {..<?n}" "domain_size s = ?n"
    using BitSet_new_filled_correct by blast
  have "\<forall>x < ?n. in_words x s" using s(3) elems_in_words by blast
  then have "queue_ok ?n \<lparr>deque = [], occupied = s\<rparr> {..<?n}"
    using s(3) by (simp add: queue_ok_def WorkQueue_inv_def queued_def)
  moreover have "kept {} ils = ils" by (simp add: fun_eq_iff kept_def)
  ultimately have "dce_state F bs ils (BitSet_elems outs) {} {..<?n} \<lparr>deque = [], occupied = s\<rparr> F"
    using F by (auto simp: dce_state_def dce_inv_def removable_def same_function_def Fn_ok_def laid_out_def)
  moreover have "\<forall>b \<in> set bs. set (ils b) \<inter> {} = {} \<and> set (ils b) \<subseteq> {..<?n}" using F by (auto simp: Fn_ok_def)
  ultimately obtain q' G' R' don' where
    1: "dce_blocks outs (last_of None bs) \<lparr>deque = [], occupied = s\<rparr> F = Some (q', G')"
    "dce_state F bs ils (BitSet_elems outs) R' don' q' G'"
    "\<forall>b \<in> set bs. don' \<inter> set (ils b) \<subseteq> R'"
    using dce_blocks_ok [OF F outs, of "{}" "{..<?n}" "\<lparr>deque = [], occupied = s\<rparr>" F bs "[]"] by auto
  have "don' \<inter> laid_out ils \<subseteq> R'" using 1(3) Layout_okD(3) [OF lay] by (fastforce simp: laid_out_def)
  from dce_work_list_ok [OF F outs 1(2) this] 1(1) s(1) block_cursor_starts(2) [OF lay] show ?thesis
    by (auto simp: dead_code_elimination_def DfgInsts_num_def)
qed

end
