(* ===== verification/Dead_Code_Spec.thy ===== *)
theory Dead_Code_Spec
  imports Dead_Code
begin

text \<open>
  What dead code elimination keeps: a run of the function afterwards ends in the same world, and the
  output values are the same. The removed instructions are the steps where the transformed function
  waits in \<open>interp_simulation\<close>.
\<close>

section \<open>Stepping through a layout\<close>

lemma next_at:
  assumes "Layout_ok L bs ils" "ils b = xs @ i # zs"
  shows "Layout_next_inst L i = Some (first_of zs None)"
proof -
  have i: "i \<in> set (ils b)" using assms(2) by simp
  note o = ok_inst [OF assms(1) i]
  from insts_dll(1) [OF assms(1) o(1)] assms(2) have "inext L i = first_of zs None" by (metis dll_at(2))
  with o(2) show ?thesis by (simp add: Layout_next_inst_def node_links)
qed

lemma first_at:
  assumes "Layout_ok L bs ils"
  shows "Layout_first_inst L b = (if b < length (blocks L) then Some (first_of (ils b) None) else None)"
proof (cases "b \<in> set bs")
  case True
  from insts_dll [OF assms True] show ?thesis by (simp add: Layout_first_inst_def node_links dll_ptrs)
next
  case False
  then have "b < length (blocks L) \<Longrightarrow> blocks L ! b = BlockNode_default" "ils b = []"
    using assms by (auto simp: Layout_ok_def Blocks_ok_def)
  then show ?thesis by (simp add: Layout_first_inst_def BlockNode_default_def)
qed

section \<open>One step of the interpreter on both functions\<close>

lemma operands_agree:
  assumes "agree X vs vs'" "set as \<inter> X = {}"
  shows "(\<lambda>i. do { a \<leftarrow> vec_get as i; vec_get vs' a }) = (\<lambda>i. do { a \<leftarrow> vec_get as i; vec_get vs a })"
proof
  fix i
  show "do { a \<leftarrow> vec_get as i; vec_get vs' a } = do { a \<leftarrow> vec_get as i; vec_get vs a }"
  proof (cases "i < length as")
    case True
    then have "as ! i \<notin> X" using assms(2) nth_mem [OF True] by blast
    with True show ?thesis by (simp add: agree_get [OF assms(1)])
  qed simp
qed

lemma eval_simple_agree:
  assumes "eval_simple fops F i opc as s = Some t" "Layout_next_inst (fn_layout F) i = Some n"
    and "Layout_next_inst (fn_layout G) i = Some n'" "d_insts (fn_dfg G) = d_insts (fn_dfg F)"
    and "agree X (vals s) (vals s')" "set as \<inter> X = {}"
  shows "\<exists>t'. eval_simple fops G i opc as s' = Some t' \<and> agree X (vals t) (vals t') \<and>
    prev_bb t = prev_bb s \<and> prev_bb t' = prev_bb s' \<and> next_inst t = n \<and> next_inst t' = n'"
proof -
  obtain r v where rv: "DfgInsts_first_result (d_insts (fn_dfg F)) i = Some r"
    "eval_opcode opc fops (\<lambda>i. do { a \<leftarrow> vec_get as i; vec_get (vals s) a }) = Some v"
    "(case v of None \<Rightarrow> Some (s\<lparr>next_inst := n\<rparr>) | Some x \<Rightarrow> InterpreterState_write r x (s\<lparr>next_inst := n\<rparr>)) = Some t"
    using assms(1,2) by (auto simp: eval_simple_def Let_def bind_eq_Some_conv)
  note eo = rv(2) [folded operands_agree [OF assms(5,6)]]
  show ?thesis
  proof (cases v)
    case None
    with rv eo assms(3-5) show ?thesis by (auto simp: eval_simple_def Let_def)
  next
    case (Some x)
    with rv(3) obtain us where us: "vec_set (vals s) r x = Some us" "t = s\<lparr>next_inst := n, vals := us\<rparr>"
      by (auto simp: InterpreterState_write_def bind_eq_Some_conv)
    from agree_set [OF assms(5) us(1)] obtain us' where "vec_set (vals s') r x = Some us'" "agree X us us'" by blast
    with Some us rv(1) eo assms(3,4) show ?thesis by (auto simp: eval_simple_def Let_def InterpreterState_write_def)
  qed
qed

lemma eval_simple_removed:
  assumes "eval_simple fops F i opc as s = Some t" "Layout_next_inst (fn_layout F) i = Some n"
    and "set (fn_results F i) \<subseteq> X"
  shows "agree X (vals t) (vals s) \<and> prev_bb t = prev_bb s \<and> next_inst t = n"
proof -
  obtain r v where rv: "DfgInsts_first_result (d_insts (fn_dfg F)) i = Some r"
    "(case v of None \<Rightarrow> Some (s\<lparr>next_inst := n\<rparr>) | Some x \<Rightarrow> InterpreterState_write r x (s\<lparr>next_inst := n\<rparr>)) = Some t"
    using assms(1,2) by (auto simp: eval_simple_def Let_def bind_eq_Some_conv)
  have "r \<in> X" using rv(1) assms(3)
    by (auto simp: DfgInsts_first_result_def DfgInsts_results_def fn_results_def bind_eq_Some_conv vec_get_Some_iff)
  with rv(2) show ?thesis
    by (auto simp: InterpreterState_write_def bind_eq_Some_conv split: option.splits dest: agree_written)
qed

definition skips :: "inst set \<Rightarrow> (block \<Rightarrow> inst list) \<Rightarrow> inst option \<Rightarrow> inst option \<Rightarrow> bool" where
  "skips R ils n n' \<longleftrightarrow> (\<exists>b xs ys. ils b = xs @ ys \<and> n = first_of ys None \<and> n' = first_of (filter (\<lambda>i. i \<notin> R) ys) None)"

definition dead_values :: "mir_function \<Rightarrow> inst set \<Rightarrow> mir_value set" where
  "dead_values F R = (\<Union>r \<in> R. set (fn_results F r))"

definition dce_rel :: "mir_function \<Rightarrow> inst set \<Rightarrow> (block \<Rightarrow> inst list) \<Rightarrow> interp_state \<Rightarrow> interp_state \<Rightarrow> bool" where
  "dce_rel F R ils s s' \<longleftrightarrow> agree (dead_values F R) (vals s) (vals s') \<and> prev_bb s' = prev_bb s \<and>
     skips R ils (next_inst s) (next_inst s')"

definition dce_sim ::
    "'w call_fun list \<Rightarrow> mir_value set \<Rightarrow> inst set \<Rightarrow> mir_function \<Rightarrow> mir_function \<Rightarrow> interp_state \<Rightarrow> interp_state \<Rightarrow> bool" where
  "dce_sim calls outs R F G s s' \<longleftrightarrow>
     (\<exists>bs ils. Fn_ok F bs ils \<and> calls_ok F calls \<and> dce_inv F bs ils outs R G \<and> dce_rel F R ils s s')"

text \<open>Where the next instruction is \<open>i\<close>, the rest of its block follows in both functions.\<close>

lemma skips_at:
  assumes F: "Fn_ok F bs ils" and inv: "dce_inv F bs ils outs R G" and at: "skips R ils (Some i) n'"
  obtains b xs zs where "ils b = xs @ i # zs" "i \<in> laid_out ils" "i < num_insts F"
    "Layout_next_inst (fn_layout F) i = Some (first_of zs None)"
    "Layout_inst_block (fn_layout F) i = Some b"
    "skips R ils (first_of zs None) (first_of (filter (\<lambda>j. j \<notin> R) zs) None)"
    "i \<in> R \<Longrightarrow> n' = first_of (filter (\<lambda>j. j \<notin> R) zs) None"
    "i \<notin> R \<Longrightarrow> n' = Some i \<and> Layout_next_inst (fn_layout G) i = Some (first_of (filter (\<lambda>j. j \<notin> R) zs) None) \<and>
       Layout_inst_block (fn_layout G) i = Some b"
proof -
  have LF: "Layout_ok (fn_layout F) bs ils" and LG: "Layout_ok (fn_layout G) bs (kept R ils)"
    using F inv by (simp_all add: Fn_ok_def dce_inv_def)
  from at obtain b xs ys where ys: "ils b = xs @ ys" "Some i = first_of ys None"
    "n' = first_of (filter (\<lambda>i. i \<notin> R) ys) None" by (auto simp: skips_def)
  from ys(2) obtain zs where zs: "ys = i # zs" by (cases ys) auto
  have ib: "i \<in> set (ils b)" using ys(1) zs by simp
  have "Layout_next_inst (fn_layout G) i = Some (first_of (filter (\<lambda>j. j \<notin> R) zs) None)" "i \<in> set (kept R ils b)" if "i \<notin> R"
  proof -
    have "kept R ils b = filter (\<lambda>j. j \<notin> R) xs @ i # filter (\<lambda>j. j \<notin> R) zs" using ys zs that by (simp add: kept_def)
    from next_at [OF LG this] this show "Layout_next_inst (fn_layout G) i = Some (first_of (filter (\<lambda>j. j \<notin> R) zs) None)"
      "i \<in> set (kept R ils b)" by simp_all
  qed
  moreover have "skips R ils (first_of zs None) (first_of (filter (\<lambda>j. j \<notin> R) zs) None)"
    unfolding skips_def using ys(1) zs by (intro exI [of _ b] exI [of _ "xs @ [i]"] exI [of _ zs]) simp
  moreover have "i < num_insts F" "i \<in> laid_out ils" using F ib by (auto simp: Fn_ok_def laid_out_def)
  ultimately show thesis
    using ys zs next_at [OF LF, of b xs i zs] inst_block_ok(1) [OF LF, of i b] inst_block_ok(1) [OF LG, of i b] ib
    by (intro that [of b xs zs]) auto
qed

lemma skips_block:
  assumes F: "Fn_ok F bs ils" and inv: "dce_inv F bs ils outs R G"
    and "Layout_first_inst (fn_layout F) b = Some n"
  shows "\<exists>n'. Layout_first_inst (fn_layout G) b = Some n' \<and> skips R ils n n'"
proof -
  have "Layout_ok (fn_layout F) bs ils" "Layout_ok (fn_layout G) bs (kept R ils)"
    "length (blocks (fn_layout G)) = length (blocks (fn_layout F))"
    using F inv by (simp_all add: Fn_ok_def dce_inv_def same_function_def)
  with assms(3) have "n = first_of (ils b) None"
    "Layout_first_inst (fn_layout G) b = Some (first_of (filter (\<lambda>i. i \<notin> R) (ils b)) None)"
    by (auto simp: first_at kept_def split: if_splits)
  then show ?thesis unfolding skips_def by (metis append_Nil)
qed

lemma skips_jmp:
  assumes F: "Fn_ok F bs ils" and inv: "dce_inv F bs ils outs R G" and at: "skips R ils (Some i) (Some i)" "i \<notin> R"
    and j: "Interpreter_jmp F i b s = Some t" and a: "agree X (vals s) (vals s')"
  shows "\<exists>t'. Interpreter_jmp G i b s' = Some t' \<and> agree X (vals t) (vals t') \<and> prev_bb t' = prev_bb t \<and>
    skips R ils (next_inst t) (next_inst t')"
proof -
  from j obtain c n where cn: "Layout_inst_block (fn_layout F) i = Some c" "Layout_first_inst (fn_layout F) b = Some n"
    "t = s\<lparr>prev_bb := c, next_inst := n\<rparr>" by (auto simp: Interpreter_jmp_def bind_eq_Some_conv)
  from skips_at [OF F inv at(1)] at(2) cn(1) have "Layout_inst_block (fn_layout G) i = Some c" by metis
  with skips_block [OF F inv cn(2)] cn(3) a show ?thesis by (auto simp: Interpreter_jmp_def)
qed

section \<open>A function with a dead instruction\<close>

text \<open>\<open>v1 = inot v0; v2 = inot v0; exit\<close> with the parameter \<open>v0\<close> and the output \<open>v2\<close>.\<close>

definition dead_inot_dfg :: dfg where
  "dead_inot_dfg =
     \<lparr>d_insts = \<lparr>declarations = [Unary OpInot 0, Unary OpInot 0, Exit], inst_results = [[1], [2], []],
        inst_operands = [[0], [1], []]\<rparr>,
      d_values = \<lparr>defs = [\<lparr>v_ty = VParam 0, uses_head = Some 1, uses_tail = Some 0, v_tag = None\<rparr>,
          ValueData_new (VInst 0 0) None, ValueData_new (VInst 0 1) None],
        uses = [\<lparr>parent = 0, parent_idx = 0, attached = True, u_next = None, u_prev = Some 1\<rparr>,
          \<lparr>parent = 1, parent_idx = 0, attached = True, u_next = Some 0, u_prev = None\<rparr>],
        int_consts = Map.empty, real_consts = Map.empty, str_consts = Map.empty\<rparr>,
      d_signatures = []\<rparr>"

definition dead_inot_layout :: layout where
  "dead_inot_layout =
     \<lparr>blocks = [\<lparr>bn_prev = None, bn_next = None, first_inst = Some 0, last_inst = Some 2\<rparr>],
      insts = [\<lparr>in_block = Some 0, in_prev = None, in_next = Some 1\<rparr>,
        \<lparr>in_block = Some 0, in_prev = Some 0, in_next = Some 2\<rparr>,
        \<lparr>in_block = Some 0, in_prev = Some 1, in_next = None\<rparr>],
      first_block = Some 0, last_block = Some 0\<rparr>"

definition dead_inot :: mir_function where
  "dead_inot = \<lparr>fn_name = ''f'', fn_dfg = dead_inot_dfg, fn_layout = dead_inot_layout, fn_srclocs = []\<rparr>"

lemmas dead_inot_defs = dead_inot_def dead_inot_dfg_def dead_inot_layout_def ValueData_new_def

lemma less3: "(\<forall>n < (3::nat). P n) \<longleftrightarrow> P 0 \<and> P 1 \<and> P 2"
  by (auto simp: numeral_eq_Suc less_Suc_eq)

lemma less2: "(\<forall>n < (2::nat). P n) \<longleftrightarrow> P 0 \<and> P 1"
  by (auto simp: numeral_eq_Suc less_Suc_eq)

lemma dead_inot_dfg_ok: "Dfg_ok dead_inot_dfg ((\<lambda>_. [])(0 := [1, 0]))"
proof -
  let ?U = "(\<lambda>_. [])(0 := [1, 0]) :: mir_value \<Rightarrow> mir_use list"
  have "\<forall>v < 3. dll (unext (d_values dead_inot_dfg)) (uprev (d_values dead_inot_dfg)) (uhead (d_values dead_inot_dfg) v)
      (utail (d_values dead_inot_dfg) v) (?U v)"
    unfolding less3 by (simp add: dead_inot_defs dll_def unext_def uprev_def uhead_def utail_def last_of_def)
  then have 1: "\<forall>v < length (defs (d_values dead_inot_dfg)). dll (unext (d_values dead_inot_dfg))
      (uprev (d_values dead_inot_dfg)) (uhead (d_values dead_inot_dfg) v) (utail (d_values dead_inot_dfg) v) (?U v)"
    by (simp add: dead_inot_dfg_def)
  have 2: "\<forall>v. \<forall>u \<in> set (?U v). v < length (defs (d_values dead_inot_dfg)) \<and> u < length (uses (d_values dead_inot_dfg)) \<and>
      attached (uses (d_values dead_inot_dfg) ! u) \<and>
      DfgValues_use_to_value (d_values dead_inot_dfg) u (d_insts dead_inot_dfg) = Some v"
    by (simp add: dead_inot_dfg_def DfgValues_use_to_value_def DfgInsts_args_def InstructionData_arguments_def)
  have "\<exists>v. u \<in> set (?U v)" if "u < length (uses (d_values dead_inot_dfg))" for u
    using that by (intro exI [of _ 0]) (auto simp: dead_inot_dfg_def less_Suc_eq)
  with 1 2 have "Chains_ok (d_values dead_inot_dfg) (d_insts dead_inot_dfg) ?U"
    unfolding Chains_ok_def by blast
  moreover have "Operands_ok (d_insts dead_inot_dfg) (d_values dead_inot_dfg)"
    unfolding Operands_ok_def
    by (auto simp: dead_inot_defs inst_operands_ok_def registered_def InstructionData_arguments_def less_Suc_eq)
  ultimately show ?thesis by (simp add: Dfg_ok_def)
qed

lemma dead_inot_ok: "Fn_ok dead_inot [0] ((\<lambda>_. [])(0 := [0, 1, 2]))"
proof -
  have "Layout_ok dead_inot_layout [0] ((\<lambda>_. [])(0 := [0, 1, 2]))"
    by (auto simp: Layout_ok_def Blocks_ok_def Insts_ok_def dead_inot_layout_def link_defs dll_def last_of_def less_Suc_eq)
  moreover have "values_ok dead_inot_dfg" by (auto simp: values_ok_def dead_inot_defs less_Suc_eq)
  moreover have "\<forall>i < 3. i < num_insts dead_inot \<and> operands_attached dead_inot_dfg i \<and> decl_ok dead_inot_dfg (fn_decl dead_inot i)"
    unfolding less3 by (simp add: dead_inot_defs operands_attached_def decl_ok_def fn_decl_def)
  ultimately show ?thesis using dead_inot_dfg_ok by (auto simp: Fn_ok_def dead_inot_def less3 split: if_splits)
qed

text \<open>Its run from the argument \<open>5\<close>.\<close>

definition only_v2 :: bit_set where
  "only_v2 = \<lparr>domain_size = 3, words = [4]\<rparr>"

lemma only_v2_elems: "BitSet_elems only_v2 = {2}" "\<forall>v < num_values dead_inot. in_words v only_v2"
proof -
  have "bit (push_bit 2 1 :: u64) n \<longleftrightarrow> n = 2" for n
    unfolding bit_push_bit_iff bit_1_iff possible_bit_word by auto
  moreover have "(push_bit 2 1 :: u64) = 4" by simp
  ultimately have "bit (4::u64) n \<longleftrightarrow> n = 2" for n by metis
  then have "i \<in> BitSet_elems only_v2 \<longleftrightarrow> i = 2" for i
    by (cases "i < 64") (auto simp: BitSet_elems_def word_elems_def only_v2_def div_eq_0_iff)
  then show "BitSet_elems only_v2 = {2}" by blast
  show "\<forall>v < num_values dead_inot. in_words v only_v2" by (auto simp: dead_inot_defs in_words_def only_v2_def)
qed

lemma dead_inot_run:
  "Interpreter_new dead_inot [Data_from_i32 5] = Some \<lparr>vals = [Data_from_i32 5, Data_UNDEF, Data_UNDEF], prev_bb = 0, next_inst = Some 0\<rparr>"
  "Interpreter_run first_operand ([] :: unit call_fun list) dead_inot
     \<lparr>vals = [Data_from_i32 5, Data_UNDEF, Data_UNDEF], prev_bb = 0, next_inst = Some 0\<rparr> () =
   Some (\<lparr>vals = [Data_from_i32 5, Data_from_i32 (NOT 5), Data_from_i32 (NOT 5)], prev_bb = 0, next_inst = None\<rparr>, ())"
proof -
  note ev = Interpreter_eval_def eval_simple_def int_op1_def Layout_next_inst_def DfgInsts_first_result_def
    DfgInsts_results_def InterpreterState_write_def dead_inot_defs Let_def
  have 0: "Interpreter_eval first_operand ([] :: unit call_fun list) dead_inot 0
      \<lparr>vals = [Data_from_i32 5, Data_UNDEF, Data_UNDEF], prev_bb = 0, next_inst = Some 0\<rparr> () =
    Some (\<lparr>vals = [Data_from_i32 5, Data_from_i32 (NOT 5), Data_UNDEF], prev_bb = 0, next_inst = Some 1\<rparr>, ())"
    by (simp add: ev)
  have 1: "Interpreter_eval first_operand ([] :: unit call_fun list) dead_inot 1
      \<lparr>vals = [Data_from_i32 5, Data_from_i32 (NOT 5), Data_UNDEF], prev_bb = 0, next_inst = Some 1\<rparr> () =
    Some (\<lparr>vals = [Data_from_i32 5, Data_from_i32 (NOT 5), Data_from_i32 (NOT 5)], prev_bb = 0, next_inst = Some 2\<rparr>, ())"
    by (simp add: ev)
  have 2: "Interpreter_eval first_operand ([] :: unit call_fun list) dead_inot 2
      \<lparr>vals = [Data_from_i32 5, Data_from_i32 (NOT 5), Data_from_i32 (NOT 5)], prev_bb = 0, next_inst = Some 2\<rparr> () =
    Some (\<lparr>vals = [Data_from_i32 5, Data_from_i32 (NOT 5), Data_from_i32 (NOT 5)], prev_bb = 0, next_inst = None\<rparr>, ())"
    by (simp add: ev)
  show "Interpreter_run first_operand ([] :: unit call_fun list) dead_inot
     \<lparr>vals = [Data_from_i32 5, Data_UNDEF, Data_UNDEF], prev_bb = 0, next_inst = Some 0\<rparr> () =
   Some (\<lparr>vals = [Data_from_i32 5, Data_from_i32 (NOT 5), Data_from_i32 (NOT 5)], prev_bb = 0, next_inst = None\<rparr>, ())"
    unfolding run_step [OF _ 0, simplified] run_step [OF _ 1, simplified] run_step [OF _ 2, simplified]
    by (simp add: run_stop)
  show "Interpreter_new dead_inot [Data_from_i32 5] =
    Some \<lparr>vals = [Data_from_i32 5, Data_UNDEF, Data_UNDEF], prev_bb = 0, next_inst = Some 0\<rparr>"
    by (simp add: Interpreter_new_def DfgValues_iter_def init_val_def DfgValues_def_def dead_inot_defs upt_rec
        Layout_entry_block_def Layout_first_inst_def)
qed

section \<open>The pass preserves what a run computes\<close>

text \<open>A removed instruction changes removed values only.\<close>

lemma pure_call_removed:
  assumes "pure_call g s as rs w = Some (t, w1)" "set rs \<subseteq> X"
  shows "agree X (vals t) (vals s) \<and> prev_bb t = prev_bb s"
  using assms by (auto simp: pure_call_def bind_eq_Some_conv dest: write_all_written)

lemma eval_removed:
  assumes F: "Fn_ok F bs ils" and inv: "dce_inv F bs ils outs R G" and calls: "calls_ok F calls"
    and rel: "dce_rel F R ils s s'" and i: "next_inst s = Some i" "i \<in> R"
    and e: "Interpreter_eval fops calls F i s w = Some (t, w1)"
  shows "w1 = w \<and> dce_rel F R ils t s'"
proof -
  let ?X = "dead_values F R"
  from rel have r: "agree ?X (vals s) (vals s')" "prev_bb s' = prev_bb s" "skips R ils (Some i) (next_inst s')"
    using i(1) by (simp_all add: dce_rel_def)
  from skips_at [OF F inv r(3)] i(2) obtain n where n: "i < num_insts F" "Layout_next_inst (fn_layout F) i = Some n"
    "skips R ils n (next_inst s')" by metis
  have "\<not> has_effect F i" using inv i(2) by (auto simp: dce_inv_def removable_def)
  note free = this [unfolded has_effect_def]
  have X: "set (fn_results F i) \<subseteq> ?X" using i(2) by (auto simp: dead_values_def)
  have "w1 = w \<and> agree ?X (vals t) (vals s) \<and> prev_bb t = prev_bb s \<and> next_inst t = n"
  proof (cases "fn_decl F i")
    case (Unary opc a)
    with e n(1) show ?thesis
      by (auto simp: Interpreter_eval_def fn_decl_def bind_eq_Some_conv dest: eval_simple_removed [OF _ n(2) X])
  next
    case (Binary opc a b)
    with e n(1) show ?thesis
      by (auto simp: Interpreter_eval_def fn_decl_def bind_eq_Some_conv dest: eval_simple_removed [OF _ n(2) X])
  next
    case (Call f as)
    with e n(1) obtain fn rs s1 w2 n1 where c: "vec_get calls f = Some fn" "DfgInsts_results (d_insts (fn_dfg F)) i = Some rs"
      "fn s as rs w = Some (s1, w2)" "Layout_next_inst (fn_layout F) i = Some n1" "t = s1\<lparr>next_inst := n1\<rparr>" "w1 = w2"
      by (auto simp: Interpreter_eval_def fn_decl_def bind_eq_Some_conv)
    have rs: "rs = fn_results F i" using c(2) by (simp add: DfgInsts_results_def fn_results_def vec_get_Some_iff)
    have "call_contract fn False" using calls free Call c(1) by (auto simp: calls_ok_def vec_get_Some_iff)
    then obtain g where g: "fn = pure_call g" "\<forall>xs w ys w'. g xs w = Some (ys, w') \<longrightarrow> w' = w"
      by (auto simp: call_contract_def)
    then have "w2 = w" using c(3) by (auto simp: pure_call_def bind_eq_Some_conv)
    with pure_call_removed [OF c(3) [unfolded g(1)], of ?X] c(4-6) n(2) rs X show ?thesis by simp
  next
    case (PhiNode phi)
    with e n(1) obtain v res x s1 where p: "DfgInsts_first_result (d_insts (fn_dfg F)) i = Some res"
      "InterpreterState_write res x s = Some s1" "eval_simple fops F i OpPhi [] s1 = Some t" "w1 = w"
      by (auto simp: Interpreter_eval_def fn_decl_def bind_eq_Some_conv)
    have "res \<in> ?X" using p(1) X
      by (auto simp: DfgInsts_first_result_def DfgInsts_results_def fn_results_def bind_eq_Some_conv vec_get_Some_iff)
    then have "agree ?X (vals s1) (vals s)" "prev_bb s1 = prev_bb s"
      using p(2) by (auto simp: InterpreterState_write_def bind_eq_Some_conv dest: agree_written)
    with eval_simple_removed [OF p(3) n(2) X] p(4) show ?thesis by (auto intro: agree_trans)
  qed (use free in simp_all)
  then show ?thesis using r n(3) agree_trans by (auto simp: dce_rel_def)
qed

text \<open>A remaining instruction does the same in both functions.\<close>

lemma pure_call_agree:
  assumes "pure_call g s as rs w = Some (t, w1)" "agree X (vals s) (vals s')" "set as \<inter> X = {}"
  shows "\<exists>t'. pure_call g s' as rs w = Some (t', w1) \<and> agree X (vals t) (vals t') \<and>
    prev_bb t = prev_bb s \<and> prev_bb t' = prev_bb s'"
proof -
  from assms(1) obtain xs ys us where c: "read_all (vals s) as = Some xs" "g xs w = Some (ys, w1)"
    "write_all rs ys (vals s) = Some us" "t = s\<lparr>vals := us\<rparr>"
    by (auto simp: pure_call_def bind_eq_Some_conv)
  from write_all_agree [OF assms(2) c(3)] obtain us' where "write_all rs ys (vals s') = Some us'" "agree X us us'" by blast
  with c read_all_agree [OF assms(2,3)] show ?thesis by (simp add: pure_call_def)
qed

lemma eval_kept:
  assumes F: "Fn_ok F bs ils" and inv: "dce_inv F bs ils outs R G" and calls: "calls_ok F calls"
    and rel: "dce_rel F R ils s s'" and i: "next_inst s = Some i" "i \<notin> R"
    and e: "Interpreter_eval fops calls F i s w = Some (t, w1)"
  shows "next_inst s' = Some i \<and> (\<exists>t'. Interpreter_eval fops calls G i s' w = Some (t', w1) \<and> dce_rel F R ils t t')"
proof -
  let ?X = "dead_values F R"
  from rel have r: "agree ?X (vals s) (vals s')" "prev_bb s' = prev_bb s" "skips R ils (Some i) (next_inst s')"
    using i(1) by (simp_all add: dce_rel_def)
  from skips_at [OF F inv r(3)] i(2) obtain n n' where n: "i < num_insts F" "i \<in> laid_out ils"
    "Layout_next_inst (fn_layout F) i = Some n" "Layout_next_inst (fn_layout G) i = Some n'"
    "skips R ils n n'" "next_inst s' = Some i" by metis
  have same: "d_insts (fn_dfg G) = d_insts (fn_dfg F)" using inv by (simp add: dce_inv_def same_function_def)
  have "set (fn_args F i) \<inter> set (fn_results F r) = {}" if "r \<in> R" for r
    using inv n(2) i(2) that unfolding dce_inv_def removable_def by blast
  then have args: "set (fn_args F i) \<inter> ?X = {}" by (auto simp: dead_values_def)
  note simple = eval_simple_agree [OF _ n(3,4) same]
  have "\<exists>t'. Interpreter_eval fops calls G i s' w = Some (t', w1) \<and> agree ?X (vals t) (vals t') \<and>
    prev_bb t' = prev_bb t \<and> skips R ils (next_inst t) (next_inst t')"
  proof (cases "fn_decl F i")
    case (Unary opc a)
    then have d: "declarations (d_insts (fn_dfg F)) ! i = Unary opc a" "set [a] \<inter> ?X = {}"
      using args by (simp_all add: fn_decl_def fn_args_def InstructionData_arguments_def)
    from e n(1) d(1) have "eval_simple fops F i opc [a] s = Some t" "w1 = w"
      by (auto simp: Interpreter_eval_def bind_eq_Some_conv)
    from simple [OF this(1) r(1) d(2)] this(2) d(1) n same r(2) show ?thesis by (auto simp: Interpreter_eval_def)
  next
    case (Binary opc a b)
    then have d: "declarations (d_insts (fn_dfg F)) ! i = Binary opc a b" "set [a, b] \<inter> ?X = {}"
      using args by (simp_all add: fn_decl_def fn_args_def InstructionData_arguments_def)
    from e n(1) d(1) have "eval_simple fops F i opc [a, b] s = Some t" "w1 = w"
      by (auto simp: Interpreter_eval_def bind_eq_Some_conv)
    from simple [OF this(1) r(1) d(2)] this(2) d(1) n same r(2) show ?thesis by (auto simp: Interpreter_eval_def)
  next
    case (Branch c b1 b2 l)
    then have d: "declarations (d_insts (fn_dfg F)) ! i = Branch c b1 b2 l" "c \<notin> ?X"
      using args by (simp_all add: fn_decl_def fn_args_def InstructionData_arguments_def)
    from e n(1) d(1) obtain x b where x: "vec_get (vals s) c = Some x" "Data_bool x = Some b"
      "Interpreter_jmp F i (if b then b1 else b2) s = Some t" "w1 = w"
      by (auto simp: Interpreter_eval_def bind_eq_Some_conv)
    from skips_jmp [OF F inv r(3) [unfolded n(6)] i(2) x(3) r(1)] x d n same agree_get [OF r(1) d(2)] show ?thesis
      by (auto simp: Interpreter_eval_def)
  next
    case (Jump b)
    then have d: "declarations (d_insts (fn_dfg F)) ! i = Jump b" by (simp add: fn_decl_def)
    from e n(1) d have x: "Interpreter_jmp F i b s = Some t" "w1 = w"
      by (auto simp: Interpreter_eval_def bind_eq_Some_conv)
    from skips_jmp [OF F inv r(3) [unfolded n(6)] i(2) x(1) r(1)] x(2) d n same show ?thesis
      by (auto simp: Interpreter_eval_def)
  next
    case Exit
    then have d: "declarations (d_insts (fn_dfg F)) ! i = Exit" by (simp add: fn_decl_def)
    have "skips R ils None None" unfolding skips_def by (intro exI [of _ undefined] exI [of _ "ils undefined"] exI [of _ "[]"]) simp
    with e n(1) d r same show ?thesis by (auto simp: Interpreter_eval_def)
  next
    case (PhiNode phi)
    then have d: "declarations (d_insts (fn_dfg F)) ! i = PhiNode phi" "set (phi_args phi) \<inter> ?X = {}"
      using args by (simp_all add: fn_decl_def fn_args_def InstructionData_arguments_def)
    from e n(1) d(1) obtain v res x s1 where p: "PhiNode_edge_val phi (prev_bb s) = Some (Some v)"
      "DfgInsts_first_result (d_insts (fn_dfg F)) i = Some res" "vec_get (vals s) v = Some x"
      "InterpreterState_write res x s = Some s1" "eval_simple fops F i OpPhi [] s1 = Some t" "w1 = w"
      by (auto simp: Interpreter_eval_def bind_eq_Some_conv)
    have "v \<in> set (phi_args phi)" using p(1)
      by (auto simp: PhiNode_edge_val_def vec_get_Some_iff split: option.splits)
    then have v: "v \<notin> ?X" using d(2) by blast
    from p(4) obtain us where us: "vec_set (vals s) res x = Some us" "s1 = s\<lparr>vals := us\<rparr>"
      by (auto simp: InterpreterState_write_def bind_eq_Some_conv)
    from agree_set [OF r(1) us(1)] obtain us' where us': "vec_set (vals s') res x = Some us'" "agree ?X us us'" by blast
    then have a: "agree ?X (vals s1) (vals (s'\<lparr>vals := us'\<rparr>))" using us(2) by simp
    from simple [OF p(5) a] us(2) us' p d(1) n same r(2) agree_get [OF r(1) v] show ?thesis
      by (auto simp: Interpreter_eval_def InterpreterState_write_def)
  next
    case (Call f as)
    then have d: "declarations (d_insts (fn_dfg F)) ! i = Call f as" "set as \<inter> ?X = {}"
      using args by (simp_all add: fn_decl_def fn_args_def InstructionData_arguments_def)
    from e n(1) d(1) obtain fn rs s1 where c: "vec_get calls f = Some fn" "DfgInsts_results (d_insts (fn_dfg F)) i = Some rs"
      "fn s as rs w = Some (s1, w1)" "t = s1\<lparr>next_inst := n\<rparr>"
      using n(3) by (auto simp: Interpreter_eval_def bind_eq_Some_conv)
    have "call_contract fn (sig_has_sideeffects (d_signatures (fn_dfg F) ! f))"
      using calls c(1) by (auto simp: calls_ok_def vec_get_Some_iff)
    then obtain g where g: "fn = pure_call g" by (auto simp: call_contract_def)
    from pure_call_agree [OF c(3) [unfolded g] r(1) d(2)] c g d(1) n same r(2) show ?thesis
      by (auto simp: Interpreter_eval_def)
  qed
  then show ?thesis using n(6) by (auto simp: dce_rel_def)
qed
text \<open>The simulation, and runs from the start.\<close>

interpretation dce: interp_simulation fops calls F G "dce_sim calls outs R F G"
  for fops calls F G outs R
proof
  fix s s'
  assume "dce_sim calls outs R F G s s'" "next_inst s = None"
  then obtain ils where "skips R ils None (next_inst s')" by (auto simp: dce_sim_def dce_rel_def)
  then obtain ys where "None = first_of ys None" "next_inst s' = first_of (filter (\<lambda>i. i \<notin> R) ys) None"
    by (auto simp: skips_def)
  then show "next_inst s' = None" by (cases ys) simp_all
next
  fix s s' i w t w1
  assume sim: "dce_sim calls outs R F G s s'" and i: "next_inst s = Some i" "Interpreter_eval fops calls F i s w = Some (t, w1)"
  from sim obtain bs ils where "Fn_ok F bs ils" "dce_inv F bs ils outs R G" "calls_ok F calls" "dce_rel F R ils s s'"
    by (auto simp: dce_sim_def)
  note this [unfolded dce_sim_def] and step = eval_removed [OF this i(1) _ i(2)] eval_kept [OF this i(1) _ i(2)]
  then show "w1 = w \<and> dce_sim calls outs R F G t s' \<or>
      (\<exists>j t'. next_inst s' = Some j \<and> Interpreter_eval fops calls G j s' w = Some (t', w1) \<and> dce_sim calls outs R F G t t')"
    unfolding dce_sim_def by blast
qed

lemma init_vals_same:
  "same_values V V' \<Longrightarrow> init_vals args V' vs = init_vals args V vs"
  by (induction vs) (simp_all add: init_val_def same_values_def_eq)

lemma dce_sim_new:
  assumes F: "Fn_ok F bs ils" and inv: "dce_inv F bs ils outs R G" and calls: "calls_ok F calls"
    and s: "Interpreter_new F args = Some s"
  shows "\<exists>s'. Interpreter_new G args = Some s' \<and> dce_sim calls outs R F G s s'"
proof -
  have L: "Layout_ok (fn_layout F) bs ils" "Layout_ok (fn_layout G) bs (kept R ils)"
    and V: "same_values (d_values (fn_dfg F)) (d_values (fn_dfg G))"
    using F inv by (simp_all add: Fn_ok_def dce_inv_def same_function_def)
  have entry: "Layout_entry_block (fn_layout G) = Layout_entry_block (fn_layout F)"
    using block_cursor_starts(3) [OF L(1)] block_cursor_starts(3) [OF L(2)] by simp
  have vs: "init_vals args (d_values (fn_dfg G)) (DfgValues_iter (d_values (fn_dfg G))) =
      init_vals args (d_values (fn_dfg F)) (DfgValues_iter (d_values (fn_dfg F)))"
    using init_vals_same [OF V] same_values_length [OF V] by (simp add: DfgValues_iter_def)
  from s obtain us e n where e: "init_vals args (d_values (fn_dfg F)) (DfgValues_iter (d_values (fn_dfg F))) = Some us"
    "Layout_entry_block (fn_layout F) = Some e" "Layout_first_inst (fn_layout F) e = Some n"
    "s = \<lparr>vals = us, prev_bb = e, next_inst = n\<rparr>"
    by (auto simp: Interpreter_new_def bind_eq_Some_conv)
  from skips_block [OF F inv e(3)] obtain n' where "Layout_first_inst (fn_layout G) e = Some n'" "skips R ils n n'" by blast
  with e entry vs F inv calls show ?thesis by (auto simp: Interpreter_new_def dce_sim_def dce_rel_def)
qed

text \<open>
  C34: dead code elimination preserves the meaning of a function. If the interpreter runs the function
  from its arguments to an end, then the pass returns, a run of the transformed function from the same
  arguments ends too, with the same effects on the world, and the output values are the same. The
  functions called may have any effect the signatures declare.
\<close>

theorem dead_code_preserves:
  assumes F: "Fn_ok F bs ils" "\<forall>v < num_values F. in_words v outs" and calls: "calls_ok F calls"
    and run: "Interpreter_new F args = Some s" "Interpreter_run fops calls F s w = Some (t, w')"
  shows "\<exists>G s' t'. dead_code_elimination outs F = Some G \<and> Interpreter_new G args = Some s' \<and>
    Interpreter_run fops calls G s' w = Some (t', w') \<and>
    (\<forall>v \<in> BitSet_elems outs. vec_get (vals t') v = vec_get (vals t) v)"
proof -
  from dead_code_elimination_ok [OF F] obtain G R where G: "dead_code_elimination outs F = Some G"
    "dce_inv F bs ils (BitSet_elems outs) R G" by blast
  from dce_sim_new [OF F(1) G(2) calls run(1)] obtain s' where s': "Interpreter_new G args = Some s'"
    "dce_sim calls (BitSet_elems outs) R F G s s'" by blast
  from dce.run_transformed [OF run(2) s'(2)] obtain t' where t': "Interpreter_run fops calls G s' w = Some (t', w')"
    "dce_sim calls (BitSet_elems outs) R F G t t'" by blast
  have "v \<notin> dead_values F R" if "v \<in> BitSet_elems outs" for v
    using G(2) that by (auto simp: dce_inv_def removable_def dead_values_def)
  moreover have "agree (dead_values F R) (vals t) (vals t')" using t'(2) by (auto simp: dce_sim_def dce_rel_def)
  ultimately show ?thesis using G(1) s'(1) t'(1) agree_get by blast
qed

theorem dead_code_preserves_witness:
  "\<exists>G (s' :: interp_state) (t' :: interp_state).
     dead_code_elimination only_v2 dead_inot = Some G \<and> Interpreter_new G [Data_from_i32 5] = Some s' \<and>
     Interpreter_run first_operand ([] :: unit call_fun list) G s' () = Some (t', ()) \<and>
     vec_get (vals t') 2 = Some (Data_from_i32 (NOT 5))"
proof -
  have "calls_ok dead_inot ([] :: unit call_fun list)" by (simp add: calls_ok_def)
  from dead_code_preserves [OF dead_inot_ok only_v2_elems(2) this dead_inot_run] obtain G s' t' where
    "dead_code_elimination only_v2 dead_inot = Some G" "Interpreter_new G [Data_from_i32 5] = Some s'"
    "Interpreter_run first_operand ([] :: unit call_fun list) G s' () = Some (t', ())"
    "\<forall>v \<in> BitSet_elems only_v2. vec_get (vals t') v =
       vec_get [Data_from_i32 5, Data_from_i32 (NOT 5), Data_from_i32 (NOT 5)] v"
    by auto
  then show ?thesis using only_v2_elems(1) by (intro exI [of _ G] exI [of _ s'] exI [of _ t']) (simp add: vec_get_def)
qed

section \<open>The pass leaves needed instructions only\<close>

lemma laid_out_kept: "laid_out (kept R ils) = laid_out ils - R"
  by (auto simp: laid_out_def kept_def)

lemma values_ok_same:
  assumes "d_insts (fn_dfg G) = d_insts (fn_dfg F)" "same_values (d_values (fn_dfg F)) (d_values (fn_dfg G))"
    and "length (inst_results (d_insts (fn_dfg F))) = num_insts F" "values_ok (fn_dfg F)"
  shows "values_ok (fn_dfg G)"
proof -
  note len = same_values_length [OF assms(2)]
  have tys: "\<forall>t \<in> set (map v_ty (defs (d_values (fn_dfg F)))). case t of VInst _ i \<Rightarrow> i < num_insts F | _ \<Rightarrow> True"
    using assms(4) by (simp add: values_ok_def)
  then have "\<forall>t \<in> set (map v_ty (defs (d_values (fn_dfg G)))). case t of VInst _ i \<Rightarrow> i < num_insts F | _ \<Rightarrow> True"
    using assms(2) by (simp only: same_values_def)
  moreover have "\<exists>k. v_ty (defs (d_values (fn_dfg G)) ! r) = VInst k i"
    if "i < num_insts F" "r \<in> set (inst_results (d_insts (fn_dfg F)) ! i)" for i r
  proof -
    from that assms(3,4) have "r < num_values F" "\<exists>k. v_ty (defs (d_values (fn_dfg F)) ! r) = VInst k i"
      by (auto simp: values_ok_def)
    then show ?thesis using same_values_ty [OF assms(2), of r] by simp
  qed
  ultimately show ?thesis using assms(3,4) unfolding values_ok_def assms(1) len by auto
qed

lemma Fn_ok_kept:
  assumes F: "Fn_ok F bs ils" and inv: "dce_inv F bs ils outs R G"
  shows "Fn_ok G bs (kept R ils)"
proof -
  have same: "d_insts (fn_dfg G) = d_insts (fn_dfg F)" "d_signatures (fn_dfg G) = d_signatures (fn_dfg F)"
    "same_values (d_values (fn_dfg F)) (d_values (fn_dfg G))"
    using inv by (simp_all add: dce_inv_def same_function_def)
  have "length (inst_results (d_insts (fn_dfg F))) = num_insts F" "values_ok (fn_dfg F)"
    using F by (auto simp: Fn_ok_def Dfg_ok_def Operands_ok_def)
  note vals = values_ok_same [OF same(1,3) this]
  have "i < num_insts G \<and> operands_attached (fn_dfg G) i \<and> decl_ok (fn_dfg G) (fn_decl G i)"
    if "i \<in> set (kept R ils b)" for b i
  proof -
    have i: "i \<in> laid_out ils - R" "i \<in> set (ils b)" using that by (auto simp: kept_def laid_out_def)
    then have "i < num_insts F" "decl_ok (fn_dfg F) (fn_decl F i)" using F by (auto simp: Fn_ok_def)
    moreover have "decl_ok (fn_dfg G) (fn_decl G i) = decl_ok (fn_dfg F) (fn_decl F i)"
      using same by (auto simp: decl_ok_def fn_decl_def split: instruction_data.splits)
    ultimately show ?thesis using inv i(1) same(1) by (simp add: dce_inv_def)
  qed
  with vals inv show ?thesis by (auto simp: Fn_ok_def dce_inv_def)
qed

text \<open>
  C35: dead code elimination returns, the function it leaves is well formed, with the same blocks and
  with the remaining instructions in their order, and every remaining instruction is needed: it has an
  effect, or one of its results is an output or still has a use.
\<close>

theorem dead_code_complete:
  assumes F: "Fn_ok F bs ils" "\<forall>v < num_values F. in_words v outs"
  shows "\<exists>G R. dead_code_elimination outs F = Some G \<and> Fn_ok G bs (\<lambda>b. filter (\<lambda>i. i \<notin> R) (ils b)) \<and>
    (\<forall>b i. i \<in> set (ils b) \<and> i \<notin> R \<longrightarrow> live_inst (BitSet_elems outs) G i)"
proof -
  from dead_code_elimination_ok [OF F] obtain G R where G: "dead_code_elimination outs F = Some G"
    "dce_inv F bs ils (BitSet_elems outs) R G" "\<forall>i \<in> laid_out ils - R. live_inst (BitSet_elems outs) G i" by blast
  have "kept R ils = (\<lambda>b. filter (\<lambda>i. i \<notin> R) (ils b))" by (simp add: fun_eq_iff kept_def)
  with Fn_ok_kept [OF F(1) G(2)] G(1,3) show ?thesis by (intro exI [of _ G] exI [of _ R]) (auto simp: laid_out_def)
qed

theorem dead_code_complete_witness:
  "\<exists>G R. dead_code_elimination only_v2 dead_inot = Some G \<and> (1 \<notin> R \<longrightarrow> live_inst {2} G 1) \<and>
     (0 \<notin> R \<longrightarrow> live_inst {2} G 0)"
proof -
  from dead_code_complete [OF dead_inot_ok only_v2_elems(2)] obtain G R where
    "dead_code_elimination only_v2 dead_inot = Some G"
    "\<forall>b i. i \<in> set (((\<lambda>_. [])(0 := [0, 1, 2])) b) \<and> i \<notin> R \<longrightarrow> live_inst (BitSet_elems only_v2) G i"
    by blast
  then show ?thesis using only_v2_elems(1) by (intro exI [of _ G] exI [of _ R]) (auto dest: spec [of _ "0::nat"])
qed

end
