(* ===== verification/Syntax_Kinds.thy ===== *)
theory Syntax_Kinds
  imports Prelude
begin

text \<open>
  The kinds of tokens and syntax nodes, \<^verbatim>\<open>openvaf/tokens/src/parser/generated.rs\<close>, and the sets of
  kinds of \<^verbatim>\<open>openvaf/parser/src/token_set.rs\<close>. The enum has 16 bits and no fields, and the code goes back and
  forth between it and its discriminant; a kind is its discriminant here and the names below are the
  enum's, in its order (\<open>TYPE\<close> is \<open>TYPE_NODE\<close> and \<open>__LAST\<close> is \<open>LAST_KIND\<close>).
\<close>

type_synonym syntax_kind = nat

abbreviation (input) TOMBSTONE :: syntax_kind where "TOMBSTONE \<equiv> 0"
abbreviation (input) EOF :: syntax_kind where "EOF \<equiv> 1"
abbreviation (input) SEMICOLON :: syntax_kind where "SEMICOLON \<equiv> 2"
abbreviation (input) COMMA :: syntax_kind where "COMMA \<equiv> 3"
abbreviation (input) L_PAREN :: syntax_kind where "L_PAREN \<equiv> 4"
abbreviation (input) R_PAREN :: syntax_kind where "R_PAREN \<equiv> 5"
abbreviation (input) L_CURLY :: syntax_kind where "L_CURLY \<equiv> 6"
abbreviation (input) R_CURLY :: syntax_kind where "R_CURLY \<equiv> 7"
abbreviation (input) L_BRACK :: syntax_kind where "L_BRACK \<equiv> 8"
abbreviation (input) R_BRACK :: syntax_kind where "R_BRACK \<equiv> 9"
abbreviation (input) L_ANGLE :: syntax_kind where "L_ANGLE \<equiv> 10"
abbreviation (input) R_ANGLE :: syntax_kind where "R_ANGLE \<equiv> 11"
abbreviation (input) AT :: syntax_kind where "AT \<equiv> 12"
abbreviation (input) POUND :: syntax_kind where "POUND \<equiv> 13"
abbreviation (input) TILDE :: syntax_kind where "TILDE \<equiv> 14"
abbreviation (input) QUESTION :: syntax_kind where "QUESTION \<equiv> 15"
abbreviation (input) DOLLAR :: syntax_kind where "DOLLAR \<equiv> 16"
abbreviation (input) AMP :: syntax_kind where "AMP \<equiv> 17"
abbreviation (input) PIPE :: syntax_kind where "PIPE \<equiv> 18"
abbreviation (input) PLUS :: syntax_kind where "PLUS \<equiv> 19"
abbreviation (input) STAR :: syntax_kind where "STAR \<equiv> 20"
abbreviation (input) SLASH :: syntax_kind where "SLASH \<equiv> 21"
abbreviation (input) CARET :: syntax_kind where "CARET \<equiv> 22"
abbreviation (input) PERCENT :: syntax_kind where "PERCENT \<equiv> 23"
abbreviation (input) UNDERSCORE :: syntax_kind where "UNDERSCORE \<equiv> 24"
abbreviation (input) DOT :: syntax_kind where "DOT \<equiv> 25"
abbreviation (input) COLON :: syntax_kind where "COLON \<equiv> 26"
abbreviation (input) EQ :: syntax_kind where "EQ \<equiv> 27"
abbreviation (input) EQ2 :: syntax_kind where "EQ2 \<equiv> 28"
abbreviation (input) BANG :: syntax_kind where "BANG \<equiv> 29"
abbreviation (input) NEQ :: syntax_kind where "NEQ \<equiv> 30"
abbreviation (input) MINUS :: syntax_kind where "MINUS \<equiv> 31"
abbreviation (input) LTEQ :: syntax_kind where "LTEQ \<equiv> 32"
abbreviation (input) GTEQ :: syntax_kind where "GTEQ \<equiv> 33"
abbreviation (input) AMP2 :: syntax_kind where "AMP2 \<equiv> 34"
abbreviation (input) PIPE2 :: syntax_kind where "PIPE2 \<equiv> 35"
abbreviation (input) ASHL :: syntax_kind where "ASHL \<equiv> 36"
abbreviation (input) ASHR :: syntax_kind where "ASHR \<equiv> 37"
abbreviation (input) SHL :: syntax_kind where "SHL \<equiv> 38"
abbreviation (input) SHR :: syntax_kind where "SHR \<equiv> 39"
abbreviation (input) L_ATTR_PAREN :: syntax_kind where "L_ATTR_PAREN \<equiv> 40"
abbreviation (input) R_ATTR_PAREN :: syntax_kind where "R_ATTR_PAREN \<equiv> 41"
abbreviation (input) ARR_START :: syntax_kind where "ARR_START \<equiv> 42"
abbreviation (input) CONTR :: syntax_kind where "CONTR \<equiv> 43"
abbreviation (input) POW :: syntax_kind where "POW \<equiv> 44"
abbreviation (input) L_NXOR :: syntax_kind where "L_NXOR \<equiv> 45"
abbreviation (input) R_NXOR :: syntax_kind where "R_NXOR \<equiv> 46"
abbreviation (input) ANALOG_KW :: syntax_kind where "ANALOG_KW \<equiv> 47"
abbreviation (input) BEGIN_KW :: syntax_kind where "BEGIN_KW \<equiv> 48"
abbreviation (input) BRANCH_KW :: syntax_kind where "BRANCH_KW \<equiv> 49"
abbreviation (input) CASE_KW :: syntax_kind where "CASE_KW \<equiv> 50"
abbreviation (input) DEFAULT_KW :: syntax_kind where "DEFAULT_KW \<equiv> 51"
abbreviation (input) DISABLE_KW :: syntax_kind where "DISABLE_KW \<equiv> 52"
abbreviation (input) DISCIPLINE_KW :: syntax_kind where "DISCIPLINE_KW \<equiv> 53"
abbreviation (input) ELSE_KW :: syntax_kind where "ELSE_KW \<equiv> 54"
abbreviation (input) END_KW :: syntax_kind where "END_KW \<equiv> 55"
abbreviation (input) ENDCASE_KW :: syntax_kind where "ENDCASE_KW \<equiv> 56"
abbreviation (input) ENDDISCIPLINE_KW :: syntax_kind where "ENDDISCIPLINE_KW \<equiv> 57"
abbreviation (input) ENDFUNCTION_KW :: syntax_kind where "ENDFUNCTION_KW \<equiv> 58"
abbreviation (input) ENDMODULE_KW :: syntax_kind where "ENDMODULE_KW \<equiv> 59"
abbreviation (input) ENDNATURE_KW :: syntax_kind where "ENDNATURE_KW \<equiv> 60"
abbreviation (input) EXCLUDE_KW :: syntax_kind where "EXCLUDE_KW \<equiv> 61"
abbreviation (input) FOR_KW :: syntax_kind where "FOR_KW \<equiv> 62"
abbreviation (input) FROM_KW :: syntax_kind where "FROM_KW \<equiv> 63"
abbreviation (input) FUNCTION_KW :: syntax_kind where "FUNCTION_KW \<equiv> 64"
abbreviation (input) IF_KW :: syntax_kind where "IF_KW \<equiv> 65"
abbreviation (input) INF_KW :: syntax_kind where "INF_KW \<equiv> 66"
abbreviation (input) INOUT_KW :: syntax_kind where "INOUT_KW \<equiv> 67"
abbreviation (input) INPUT_KW :: syntax_kind where "INPUT_KW \<equiv> 68"
abbreviation (input) INTEGER_KW :: syntax_kind where "INTEGER_KW \<equiv> 69"
abbreviation (input) MODULE_KW :: syntax_kind where "MODULE_KW \<equiv> 70"
abbreviation (input) NATURE_KW :: syntax_kind where "NATURE_KW \<equiv> 71"
abbreviation (input) OUTPUT_KW :: syntax_kind where "OUTPUT_KW \<equiv> 72"
abbreviation (input) PARAMETER_KW :: syntax_kind where "PARAMETER_KW \<equiv> 73"
abbreviation (input) LOCALPARAM_KW :: syntax_kind where "LOCALPARAM_KW \<equiv> 74"
abbreviation (input) REAL_KW :: syntax_kind where "REAL_KW \<equiv> 75"
abbreviation (input) STRING_KW :: syntax_kind where "STRING_KW \<equiv> 76"
abbreviation (input) WHILE_KW :: syntax_kind where "WHILE_KW \<equiv> 77"
abbreviation (input) ROOT_KW :: syntax_kind where "ROOT_KW \<equiv> 78"
abbreviation (input) INITIAL_STEP_KW :: syntax_kind where "INITIAL_STEP_KW \<equiv> 79"
abbreviation (input) INITIAL_KW :: syntax_kind where "INITIAL_KW \<equiv> 80"
abbreviation (input) FINAL_STEP_KW :: syntax_kind where "FINAL_STEP_KW \<equiv> 81"
abbreviation (input) ALIASPARAM_KW :: syntax_kind where "ALIASPARAM_KW \<equiv> 82"
abbreviation (input) INT_NUMBER :: syntax_kind where "INT_NUMBER \<equiv> 83"
abbreviation (input) STD_REAL_NUMBER :: syntax_kind where "STD_REAL_NUMBER \<equiv> 84"
abbreviation (input) SI_REAL_NUMBER :: syntax_kind where "SI_REAL_NUMBER \<equiv> 85"
abbreviation (input) STR_LIT :: syntax_kind where "STR_LIT \<equiv> 86"
abbreviation (input) ERROR :: syntax_kind where "ERROR \<equiv> 87"
abbreviation (input) IDENT :: syntax_kind where "IDENT \<equiv> 88"
abbreviation (input) SYSFUN :: syntax_kind where "SYSFUN \<equiv> 89"
abbreviation (input) NET_TYPE :: syntax_kind where "NET_TYPE \<equiv> 90"
abbreviation (input) WHITESPACE :: syntax_kind where "WHITESPACE \<equiv> 91"
abbreviation (input) COMMENT :: syntax_kind where "COMMENT \<equiv> 92"
abbreviation (input) ANALOG_BEHAVIOUR :: syntax_kind where "ANALOG_BEHAVIOUR \<equiv> 93"
abbreviation (input) ARG :: syntax_kind where "ARG \<equiv> 94"
abbreviation (input) ARG_LIST :: syntax_kind where "ARG_LIST \<equiv> 95"
abbreviation (input) ARRAY_EXPR :: syntax_kind where "ARRAY_EXPR \<equiv> 96"
abbreviation (input) ASSIGN :: syntax_kind where "ASSIGN \<equiv> 97"
abbreviation (input) ASSIGN_STMT :: syntax_kind where "ASSIGN_STMT \<equiv> 98"
abbreviation (input) ASSIGN_OR_EXPR :: syntax_kind where "ASSIGN_OR_EXPR \<equiv> 99"
abbreviation (input) ATTR :: syntax_kind where "ATTR \<equiv> 100"
abbreviation (input) ATTR_LIST :: syntax_kind where "ATTR_LIST \<equiv> 101"
abbreviation (input) BIN_EXPR :: syntax_kind where "BIN_EXPR \<equiv> 102"
abbreviation (input) BLOCK_SCOPE :: syntax_kind where "BLOCK_SCOPE \<equiv> 103"
abbreviation (input) BLOCK_STMT :: syntax_kind where "BLOCK_STMT \<equiv> 104"
abbreviation (input) BRANCH_DECL :: syntax_kind where "BRANCH_DECL \<equiv> 105"
abbreviation (input) CALL :: syntax_kind where "CALL \<equiv> 106"
abbreviation (input) CASE :: syntax_kind where "CASE \<equiv> 107"
abbreviation (input) CASE_STMT :: syntax_kind where "CASE_STMT \<equiv> 108"
abbreviation (input) CONSTRAINT :: syntax_kind where "CONSTRAINT \<equiv> 109"
abbreviation (input) DIRECTION :: syntax_kind where "DIRECTION \<equiv> 110"
abbreviation (input) DISCIPLINE_DECL :: syntax_kind where "DISCIPLINE_DECL \<equiv> 111"
abbreviation (input) DISCIPLINE_ATTR :: syntax_kind where "DISCIPLINE_ATTR \<equiv> 112"
abbreviation (input) EVENT_STMT :: syntax_kind where "EVENT_STMT \<equiv> 113"
abbreviation (input) FOR_STMT :: syntax_kind where "FOR_STMT \<equiv> 114"
abbreviation (input) FUNCTION :: syntax_kind where "FUNCTION \<equiv> 115"
abbreviation (input) FUNCTION_ARG :: syntax_kind where "FUNCTION_ARG \<equiv> 116"
abbreviation (input) IF_STMT :: syntax_kind where "IF_STMT \<equiv> 117"
abbreviation (input) LITERAL :: syntax_kind where "LITERAL \<equiv> 118"
abbreviation (input) MODULE_DECL :: syntax_kind where "MODULE_DECL \<equiv> 119"
abbreviation (input) MODULE_PORT :: syntax_kind where "MODULE_PORT \<equiv> 120"
abbreviation (input) MODULE_PORTS :: syntax_kind where "MODULE_PORTS \<equiv> 121"
abbreviation (input) NAME :: syntax_kind where "NAME \<equiv> 122"
abbreviation (input) NAME_REF :: syntax_kind where "NAME_REF \<equiv> 123"
abbreviation (input) SYS_FUN :: syntax_kind where "SYS_FUN \<equiv> 124"
abbreviation (input) BODY_PORT_DECL :: syntax_kind where "BODY_PORT_DECL \<equiv> 125"
abbreviation (input) NATURE_DECL :: syntax_kind where "NATURE_DECL \<equiv> 126"
abbreviation (input) NATURE_ATTR :: syntax_kind where "NATURE_ATTR \<equiv> 127"
abbreviation (input) NET_DECL :: syntax_kind where "NET_DECL \<equiv> 128"
abbreviation (input) NETS :: syntax_kind where "NETS \<equiv> 129"
abbreviation (input) PARAM :: syntax_kind where "PARAM \<equiv> 130"
abbreviation (input) ALIAS_PARAM :: syntax_kind where "ALIAS_PARAM \<equiv> 131"
abbreviation (input) PARAM_DECL :: syntax_kind where "PARAM_DECL \<equiv> 132"
abbreviation (input) PAREN_EXPR :: syntax_kind where "PAREN_EXPR \<equiv> 133"
abbreviation (input) PATH :: syntax_kind where "PATH \<equiv> 134"
abbreviation (input) PATH_EXPR :: syntax_kind where "PATH_EXPR \<equiv> 135"
abbreviation (input) PORT_DECL :: syntax_kind where "PORT_DECL \<equiv> 136"
abbreviation (input) PORTS :: syntax_kind where "PORTS \<equiv> 137"
abbreviation (input) PREFIX_EXPR :: syntax_kind where "PREFIX_EXPR \<equiv> 138"
abbreviation (input) RANGE :: syntax_kind where "RANGE \<equiv> 139"
abbreviation (input) SELECT_EXPR :: syntax_kind where "SELECT_EXPR \<equiv> 140"
abbreviation (input) TYPE_NODE :: syntax_kind where "TYPE_NODE \<equiv> 141"
abbreviation (input) VAR :: syntax_kind where "VAR \<equiv> 142"
abbreviation (input) VAR_DECL :: syntax_kind where "VAR_DECL \<equiv> 143"
abbreviation (input) WHILE_STMT :: syntax_kind where "WHILE_STMT \<equiv> 144"
abbreviation (input) EMPTY_STMT :: syntax_kind where "EMPTY_STMT \<equiv> 145"
abbreviation (input) EXPR_STMT :: syntax_kind where "EXPR_STMT \<equiv> 146"
abbreviation (input) PORT_FLOW :: syntax_kind where "PORT_FLOW \<equiv> 147"
abbreviation (input) SOURCE_FILE :: syntax_kind where "SOURCE_FILE \<equiv> 148"
abbreviation (input) LAST_KIND :: syntax_kind where "LAST_KIND \<equiv> 149"

text \<open>The conversion from a discriminant asserts that it is one.\<close>

definition SyntaxKind_from :: "nat \<Rightarrow> syntax_kind panics" where
  "SyntaxKind_from d = (if d \<le> LAST_KIND then Some d else None)"

definition SyntaxKind_is_trivia :: "syntax_kind \<Rightarrow> bool" where
  "SyntaxKind_is_trivia k \<longleftrightarrow> k = WHITESPACE \<or> k = COMMENT"

section \<open>Token sets\<close>

type_synonym token_set = "128 word"

text \<open>The shift of the mask panics in a debug build when the kind is not below 128; the kinds of tokens are.\<close>

definition kind_mask :: "syntax_kind \<Rightarrow> token_set panics" where
  "kind_mask kind = (if kind < 128 then Some (push_bit kind 1) else None)"

fun TokenSet_new :: "syntax_kind list \<Rightarrow> token_set panics" where
  "TokenSet_new [] = Some 0"
| "TokenSet_new (k # ks) = do { m \<leftarrow> kind_mask k; res \<leftarrow> TokenSet_new ks; Some (m OR res) }"

definition TokenSet_contains :: "token_set \<Rightarrow> syntax_kind \<Rightarrow> bool panics" where
  "TokenSet_contains s kind = do { m \<leftarrow> kind_mask kind; Some (s AND m \<noteq> 0) }"

text \<open>
  The sets of the grammar are constants, built at compile time, where a panic is a compile error:
  \<open>TS ks\<close> is the set of the kinds \<open>ks\<close>.
\<close>

definition TS :: "syntax_kind list \<Rightarrow> token_set" where
  "TS ks = the (TokenSet_new ks)"

definition TokenSet_unique :: "syntax_kind \<Rightarrow> token_set" where
  "TokenSet_unique kind = TS [kind]"

definition TokenSet_union :: "token_set \<Rightarrow> token_set \<Rightarrow> token_set" where
  "TokenSet_union a b = a OR b"

definition TokenSet_EMPTY :: token_set where
  "TokenSet_EMPTY = 0"

text \<open>The iterator takes the lowest bit; a set of 128 bits is exhausted after at most 128 calls.\<close>

definition lowest_bit :: "token_set \<Rightarrow> nat" where
  "lowest_bit s = length (takeWhile (\<lambda>i. \<not> bit s i) [0..<128])"

definition TokenSetIter_next :: "token_set \<Rightarrow> (token_set \<times> syntax_kind option) panics" where
  "TokenSetIter_next s =
     (if s \<noteq> 0 then
        do { let bit_pos = lowest_bit s;
             let b = push_bit bit_pos 1;
             k \<leftarrow> SyntaxKind_from bit_pos;
             Some (s XOR b, Some k) }
      else Some (s, None))"

fun TokenSet_iter :: "nat \<Rightarrow> token_set \<Rightarrow> syntax_kind list panics" where
  "TokenSet_iter 0 s = Some []"
| "TokenSet_iter (Suc n) s =
     do { (s, k) \<leftarrow> TokenSetIter_next s;
          (case k of None \<Rightarrow> Some [] | Some k \<Rightarrow> map_option ((#) k) (TokenSet_iter n s)) }"

lemma TokenSet_contains_bit: "k < 128 \<Longrightarrow> TokenSet_contains s k = Some (bit s k)"
  by (simp add: TokenSet_contains_def kind_mask_def and_exp_eq_0_iff_not_bit)

lemma TokenSet_new_ok:
  "\<forall>k \<in> set ks. k < 128 \<Longrightarrow> \<exists>s. TokenSet_new ks = Some s \<and> (\<forall>i < 128. bit s i \<longleftrightarrow> i \<in> set ks)"
proof (induction ks)
  case (Cons k ks)
  then obtain s where "TokenSet_new ks = Some s" "\<forall>i < 128. bit s i \<longleftrightarrow> i \<in> set ks" by auto
  moreover have "bit (push_bit k 1 :: token_set) i \<longleftrightarrow> i = k" if "i < 128" for i
    unfolding bit_push_bit_iff bit_1_iff possible_bit_word using that by auto
  ultimately show ?case using Cons.prems unfolding TokenSet_new.simps kind_mask_def by (auto simp: bit_or_iff simp del: push_bit_of_1)
qed simp

lemma TS_contains: "\<forall>x \<in> set ks. x < 128 \<Longrightarrow> k < 128 \<Longrightarrow> TokenSet_contains (TS ks) k = Some (k \<in> set ks)"
  using TokenSet_new_ok [of ks] by (auto simp: TS_def TokenSet_contains_bit)

lemma union_contains:
  "k < 128 \<Longrightarrow> TokenSet_contains a k = Some x \<Longrightarrow> TokenSet_contains b k = Some y \<Longrightarrow>
    TokenSet_contains (TokenSet_union a b) k = Some (x \<or> y)"
  by (simp add: TokenSet_contains_bit TokenSet_union_def bit_or_iff)

end
