(* ===== verification/Parser_Core.thy ===== *)
theory Parser_Core
  imports Syntax_Kinds
begin

text \<open>
  The parser of \<^verbatim>\<open>openvaf/parser/src\<close> below the grammar: the events (\<^verbatim>\<open>event.rs\<close>), the packed output
  (\<^verbatim>\<open>output.rs\<close>), and the operations on the token stream and on markers (\<^verbatim>\<open>parser.rs\<close>). The counter
  \<open>steps\<close> makes a parser that looks at tokens without end panic.
\<close>

section \<open>Output\<close>

record syntax_error =
  expected :: "syntax_kind list"
  found :: syntax_kind

record parse_output =
  out_event :: "32 word list"
  out_error :: "syntax_error list"

datatype step =
    StepToken syntax_kind
  | StepEnter syntax_kind
  | StepExit
  | StepError syntax_error

definition Output_default :: parse_output where
  "Output_default = \<lparr>out_event = [], out_error = []\<rparr>"

definition Output_step :: "syntax_error list \<Rightarrow> 32 word \<Rightarrow> step panics" where
  "Output_step errors event =
     (if event AND 1 = 0 then map_option StepError (vec_get errors (unat (drop_bit 1 event)))
      else
        (let tag = drop_bit 4 (event AND 0xF0) in
         if tag = 0 then map_option StepToken (SyntaxKind_from (unat (drop_bit 16 (event AND 0xFFFF0000))))
         else if tag = 1 then map_option StepEnter (SyntaxKind_from (unat (drop_bit 16 (event AND 0xFFFF0000))))
         else if tag = 2 then Some StepExit
         else None))"

fun collect_steps :: "syntax_error list \<Rightarrow> 32 word list \<Rightarrow> step list panics" where
  "collect_steps errors [] = Some []"
| "collect_steps errors (e # es) = do { s \<leftarrow> Output_step errors e; ss \<leftarrow> collect_steps errors es; Some (s # ss) }"

definition Output_iter :: "parse_output \<Rightarrow> step list panics" where
  "Output_iter out = collect_steps (out_error out) (out_event out)"

definition Output_token :: "syntax_kind \<Rightarrow> parse_output \<Rightarrow> parse_output" where
  "Output_token kind out = out\<lparr>out_event := out_event out @ [push_bit 16 (word_of_nat kind) OR 1]\<rparr>"

definition Output_enter_node :: "syntax_kind \<Rightarrow> parse_output \<Rightarrow> parse_output" where
  "Output_enter_node kind out = out\<lparr>out_event := out_event out @ [push_bit 16 (word_of_nat kind) OR push_bit 4 1 OR 1]\<rparr>"

definition Output_leave_node :: "parse_output \<Rightarrow> parse_output" where
  "Output_leave_node out = out\<lparr>out_event := out_event out @ [push_bit 4 2 OR 1]\<rparr>"

definition Output_add_error :: "syntax_error \<Rightarrow> parse_output \<Rightarrow> parse_output" where
  "Output_add_error err out =
     (let idx = length (out_error out) in
      out\<lparr>out_error := out_error out @ [err], out_event := out_event out @ [push_bit 1 (word_of_nat idx)]\<rparr>)"

section \<open>Events\<close>

datatype event =
    EvStart syntax_kind "nat option"
  | EvFinish
  | EvToken syntax_kind
  | EvError syntax_error

definition Event_tombstone :: event where
  "Event_tombstone = EvStart TOMBSTONE None"

text \<open>The loop that follows the forward parents from the event \<open>idx\<close>, clearing the events it visits.\<close>

partial_function (option) forward_loop ::
    "event list \<Rightarrow> nat \<Rightarrow> nat option \<Rightarrow> syntax_kind list \<Rightarrow> (event list \<times> syntax_kind list) option" where
  "forward_loop events idx fp forward_parents =
     (case fp of
        None \<Rightarrow> Some (events, forward_parents)
      | Some fwd \<Rightarrow>
          do { let idx = idx + fwd;
               e \<leftarrow> vec_get events idx;
               events \<leftarrow> vec_set events idx Event_tombstone;
               (case e of
                  EvStart kind forward_parent \<Rightarrow> forward_loop events idx forward_parent (forward_parents @ [kind])
                | _ \<Rightarrow> None) })"

declare forward_loop.simps [code]

fun enter_nodes :: "syntax_kind list \<Rightarrow> parse_output \<Rightarrow> parse_output" where
  "enter_nodes [] res = res"
| "enter_nodes (kind # kinds) res = enter_nodes kinds (if kind \<noteq> TOMBSTONE then Output_enter_node kind res else res)"

fun process_loop :: "nat list \<Rightarrow> event list \<Rightarrow> parse_output \<Rightarrow> parse_output panics" where
  "process_loop [] events res = Some res"
| "process_loop (i # is) events res =
     do { e \<leftarrow> vec_get events i;
          events \<leftarrow> vec_set events i Event_tombstone;
          (case e of
             EvStart kind forward_parent \<Rightarrow>
               do { (events, forward_parents) \<leftarrow> forward_loop events i forward_parent [kind];
                    process_loop is events (enter_nodes (rev forward_parents) res) }
           | EvFinish \<Rightarrow> process_loop is events (Output_leave_node res)
           | EvToken kind \<Rightarrow> process_loop is events (Output_token kind res)
           | EvError msg \<Rightarrow> process_loop is events (Output_add_error msg res)) }"

definition event_process :: "event list \<Rightarrow> parse_output panics" where
  "event_process events = process_loop [0..<length events] events Output_default"

section \<open>The parser\<close>

record parser =
  tokens :: "syntax_kind list"
  pos :: nat
  events :: "event list"
  steps :: nat

definition Parser_new :: "syntax_kind list \<Rightarrow> parser" where
  "Parser_new ts = \<lparr>tokens = ts, pos = 0, events = [], steps = 0\<rparr>"

definition Parser_finish :: "parser \<Rightarrow> event list" where
  "Parser_finish p = events p"

definition step_limit :: nat where
  "step_limit = 10000000"

definition Parser_nth :: "nat \<Rightarrow> parser \<Rightarrow> (syntax_kind \<times> parser) panics" where
  "Parser_nth n p =
     do { _ \<leftarrow> rust_assert (n \<le> 3);
          _ \<leftarrow> rust_assert (steps p \<le> step_limit);
          let k = (case vec_get (tokens p) (pos p + n) of Some k \<Rightarrow> k | None \<Rightarrow> EOF);
          Some (k, p\<lparr>steps := steps p + 1\<rparr>) }"

definition Parser_current :: "parser \<Rightarrow> (syntax_kind \<times> parser) panics" where
  "Parser_current p = Parser_nth 0 p"

definition Parser_nth_at_ts :: "nat \<Rightarrow> token_set \<Rightarrow> parser \<Rightarrow> (bool \<times> parser) panics" where
  "Parser_nth_at_ts n ts p = do { (k, p) \<leftarrow> Parser_nth n p; b \<leftarrow> TokenSet_contains ts k; Some (b, p) }"

definition Parser_nth_at :: "nat \<Rightarrow> syntax_kind \<Rightarrow> parser \<Rightarrow> (bool \<times> parser) panics" where
  "Parser_nth_at n kind p = do { (k, p) \<leftarrow> Parser_nth n p; Some (k = kind, p) }"

definition Parser_at :: "syntax_kind \<Rightarrow> parser \<Rightarrow> (bool \<times> parser) panics" where
  "Parser_at kind p = Parser_nth_at 0 kind p"

definition Parser_at_ts :: "token_set \<Rightarrow> parser \<Rightarrow> (bool \<times> parser) panics" where
  "Parser_at_ts kinds p = do { (k, p) \<leftarrow> Parser_current p; b \<leftarrow> TokenSet_contains kinds k; Some (b, p) }"

definition Parser_push_event :: "event \<Rightarrow> parser \<Rightarrow> parser" where
  "Parser_push_event event p = p\<lparr>events := events p @ [event]\<rparr>"

definition Parser_do_bump :: "syntax_kind \<Rightarrow> parser \<Rightarrow> parser" where
  "Parser_do_bump kind p = Parser_push_event (EvToken kind) (p\<lparr>pos := pos p + 1\<rparr>)"

definition Parser_eat :: "syntax_kind \<Rightarrow> parser \<Rightarrow> (bool \<times> parser) panics" where
  "Parser_eat kind p =
     do { (b, p) \<leftarrow> Parser_at kind p;
          if \<not> b then Some (False, p) else Some (True, Parser_do_bump kind p) }"

definition Parser_bump :: "syntax_kind \<Rightarrow> parser \<Rightarrow> parser panics" where
  "Parser_bump kind p = do { (b, p) \<leftarrow> Parser_eat kind p; _ \<leftarrow> rust_assert b; Some p }"

definition Parser_bump_any :: "parser \<Rightarrow> parser panics" where
  "Parser_bump_any p =
     do { (kind, p) \<leftarrow> Parser_nth 0 p;
          if kind = EOF then Some p else Some (Parser_do_bump kind p) }"

definition Parser_eat_ts :: "token_set \<Rightarrow> parser \<Rightarrow> (bool \<times> parser) panics" where
  "Parser_eat_ts kinds p =
     do { (b, p) \<leftarrow> Parser_at_ts kinds p;
          if b then do { p \<leftarrow> Parser_bump_any p; Some (True, p) } else Some (False, p) }"

definition Parser_bump_ts :: "token_set \<Rightarrow> parser \<Rightarrow> parser panics" where
  "Parser_bump_ts kinds p = do { (b, p) \<leftarrow> Parser_eat_ts kinds p; _ \<leftarrow> rust_assert b; Some p }"

section \<open>Markers\<close>

text \<open>
  A marker is the position of its event. That every marker is completed or abandoned, which the code
  checks with drop bombs, is a property of the grammar's text: every path of it uses its markers up.
\<close>

type_synonym marker = nat

record completed_marker =
  start_pos :: nat
  finish_pos :: nat

definition Parser_start :: "parser \<Rightarrow> marker \<times> parser" where
  "Parser_start p = (length (events p), Parser_push_event Event_tombstone p)"

definition Marker_complete :: "marker \<Rightarrow> syntax_kind \<Rightarrow> parser \<Rightarrow> (completed_marker \<times> parser) panics" where
  "Marker_complete m kind p =
     do { e \<leftarrow> vec_get (events p) m;
          (case e of
             EvStart _ forward_parent \<Rightarrow>
               do { let p = p\<lparr>events := (events p)[m := EvStart kind forward_parent]\<rparr>;
                    let finish = length (events p);
                    let p = Parser_push_event EvFinish p;
                    Some (\<lparr>start_pos = m, finish_pos = finish\<rparr>, p) }
           | _ \<Rightarrow> None) }"

definition Marker_abandon :: "marker \<Rightarrow> parser \<Rightarrow> parser panics" where
  "Marker_abandon m p =
     do { l \<leftarrow> usize_sub (length (events p)) 1;
          if m = l then
            (if last (events p) = EvStart TOMBSTONE None then Some (p\<lparr>events := butlast (events p)\<rparr>) else None)
          else Some p }"

definition CompletedMarker_precede :: "completed_marker \<Rightarrow> parser \<Rightarrow> (marker \<times> parser) panics" where
  "CompletedMarker_precede c p =
     do { let (new_pos, p) = Parser_start p;
          e \<leftarrow> vec_get (events p) (start_pos c);
          (case e of
             EvStart kind _ \<Rightarrow>
               do { d \<leftarrow> usize_sub new_pos (start_pos c);
                    Some (new_pos, p\<lparr>events := (events p)[start_pos c := EvStart kind (Some d)]\<rparr>) }
           | _ \<Rightarrow> None) }"

definition CompletedMarker_undo_completion :: "completed_marker \<Rightarrow> parser \<Rightarrow> (marker \<times> parser) panics" where
  "CompletedMarker_undo_completion c p =
     do { e \<leftarrow> vec_get (events p) (start_pos c);
          p \<leftarrow> (case e of
             EvStart kind None \<Rightarrow> Some (p\<lparr>events := (events p)[start_pos c := EvStart TOMBSTONE None]\<rparr>)
           | _ \<Rightarrow> None);
          e \<leftarrow> vec_get (events p) (finish_pos c);
          p \<leftarrow> (case e of
             EvFinish \<Rightarrow> Some (p\<lparr>events := (events p)[finish_pos c := Event_tombstone]\<rparr>)
           | _ \<Rightarrow> None);
          Some (start_pos c, p) }"

section \<open>Errors\<close>

definition Parser_unexpected_tokens_msg :: "syntax_kind list \<Rightarrow> parser \<Rightarrow> (syntax_error \<times> parser) panics" where
  "Parser_unexpected_tokens_msg kinds p = do { (k, p) \<leftarrow> Parser_current p; Some (\<lparr>expected = kinds, found = k\<rparr>, p) }"

definition Parser_unexpected_token_msg :: "syntax_kind \<Rightarrow> parser \<Rightarrow> (syntax_error \<times> parser) panics" where
  "Parser_unexpected_token_msg kind p = do { (k, p) \<leftarrow> Parser_current p; Some (\<lparr>expected = [kind], found = k\<rparr>, p) }"

definition Parser_error :: "syntax_error \<Rightarrow> parser \<Rightarrow> parser panics" where
  "Parser_error err p =
     do { let (m, p) = Parser_start p;
          let p = Parser_push_event (EvError err) p;
          (_, p) \<leftarrow> Marker_complete m ERROR p;
          Some p }"

definition Parser_expect_with :: "syntax_kind \<Rightarrow> syntax_kind list \<Rightarrow> parser \<Rightarrow> (bool \<times> parser) panics" where
  "Parser_expect_with kind msg p =
     do { (b, p) \<leftarrow> Parser_eat kind p;
          if b then Some (True, p)
          else do { (err, p) \<leftarrow> Parser_unexpected_tokens_msg msg p; p \<leftarrow> Parser_error err p; Some (False, p) } }"

definition Parser_expect :: "syntax_kind \<Rightarrow> parser \<Rightarrow> (bool \<times> parser) panics" where
  "Parser_expect kind p =
     do { (b, p) \<leftarrow> Parser_eat kind p;
          if b then Some (True, p)
          else do { (err, p) \<leftarrow> Parser_unexpected_token_msg kind p; p \<leftarrow> Parser_error err p; Some (False, p) } }"

definition Parser_expect_ts :: "token_set \<Rightarrow> parser \<Rightarrow> (bool \<times> parser) panics" where
  "Parser_expect_ts kinds p =
     do { (b, p) \<leftarrow> Parser_eat_ts kinds p;
          if b then Some (True, p)
          else do { ks \<leftarrow> TokenSet_iter 128 kinds;
                    (err, p) \<leftarrow> Parser_unexpected_tokens_msg ks p;
                    p \<leftarrow> Parser_error err p;
                    Some (False, p) } }"

definition Parser_expect_ts_r :: "token_set \<Rightarrow> token_set \<Rightarrow> parser \<Rightarrow> (bool \<times> parser) panics" where
  "Parser_expect_ts_r kinds recover p =
     do { (b, p) \<leftarrow> Parser_expect_ts kinds p;
          if \<not> b then
            do { (r, p) \<leftarrow> Parser_at_ts recover p;
                 p \<leftarrow> (if \<not> r then Parser_bump_any p else Some p);
                 Some (False, p) }
          else Some (True, p) }"

definition Parser_err_recover :: "syntax_error \<Rightarrow> token_set \<Rightarrow> parser \<Rightarrow> (bool \<times> parser) panics" where
  "Parser_err_recover err recovery p =
     do { (b, p) \<leftarrow> Parser_at_ts recovery p;
          if b then do { p \<leftarrow> Parser_error err p; Some (True, p) }
          else do { let (m, p) = Parser_start p;
                    let p = Parser_push_event (EvError err) p;
                    p \<leftarrow> Parser_bump_any p;
                    (_, p) \<leftarrow> Marker_complete m ERROR p;
                    Some (False, p) } }"

end
