(* ===== verification/Parser_Evaluation.thy ===== *)
theory Parser_Evaluation
  imports Parser_Core
begin

text \<open>
  Code equations with which the parser is evaluated on concrete tokens: the step counter is compared with
  its limit as an integer, a token set is one literal, and the events are processed without naming an
  intermediate result twice.
\<close>

lemma bind_cases [code_unfold]: "x \<bind> f = (case x of None \<Rightarrow> None | Some y \<Rightarrow> f y)"
  by (cases x) simp_all

lemma Parser_nth_code [code]: "Parser_nth n p =
     do { _ \<leftarrow> rust_assert (n \<le> 3);
          _ \<leftarrow> rust_assert (int (steps p) \<le> 10000000);
          let k = (case vec_get (tokens p) (pos p + n) of Some k \<Rightarrow> k | None \<Rightarrow> EOF);
          Some (k, p\<lparr>steps := steps p + 1\<rparr>) }"
proof -
  have "steps p \<le> step_limit \<longleftrightarrow> int (steps p) \<le> 10000000" by (simp add: step_limit_def)
  then show ?thesis by (simp only: Parser_nth_def)
qed

lemma TokenSet_contains_code [code]: "TokenSet_contains s k = (if k < 128 then Some (bit (uint s) k) else None)"
  by (simp add: TokenSet_contains_bit bit_uint_iff) (simp add: TokenSet_contains_def kind_mask_def)

unbundle bit_operations_syntax

text \<open>The bits of a set of kinds.\<close>

fun kind_bits :: "nat list \<Rightarrow> int" where 
  "kind_bits [] = 0"
| "kind_bits (k # ks) = (let n = kind_bits ks in if bit n k then n else n + 2 ^ k)"

lemma kind_bits_or: "bit (kind_bits ks) i \<longleftrightarrow> i \<in> set ks"
proof (induction ks arbitrary: i)
  case (Cons k ks)
  have "kind_bits ks + 2 ^ k = kind_bits ks OR 2 ^ k" if "\<not> bit (kind_bits ks) k"
    by (rule disjunctive_add_eq_or, rule bit_eqI) (use that in \<open>auto simp: bit_and_iff bit_exp_iff\<close>)
  with Cons show ?case by (auto simp: Let_def bit_or_iff bit_exp_iff)
qed simp

lemma TS_code [code]: "TS ks = (if list_all (\<lambda>k. k < 128) ks then word_of_int (kind_bits ks) else the None)"
proof (cases "list_all (\<lambda>k. k < 128) ks")
  case True
  then obtain s where s: "TokenSet_new ks = Some s" "\<forall>i < 128. bit s i \<longleftrightarrow> i \<in> set ks"
    using TokenSet_new_ok [of ks] by (auto simp: list_all_iff)
  have "s = word_of_int (kind_bits ks)"
    by (rule bit_word_eqI) (simp add: s(2) kind_bits_or bit_word_of_int_iff)
  with s(1) True show ?thesis by (simp add: TS_def)
next
  case False
  then have "TokenSet_new ks = None" by (induction ks) (auto simp: kind_mask_def bind_eq_None_conv)
  with False show ?thesis by (simp add: TS_def)
qed

lemma push_or: "push_bit 16 (word_of_nat kind :: 32 word) OR 1 = word_of_int (65536 * int kind + 1)"
    "push_bit 16 (word_of_nat kind :: 32 word) OR push_bit 4 1 OR 1 = word_of_int (65536 * int kind + 17)"
proof -
  have "push_bit 16 (word_of_nat kind :: 32 word) OR 1 = push_bit 16 (word_of_nat kind) + 1"
     by (rule disjunctive_add_eq_or [symmetric], rule bit_eqI) (auto simp: bit_and_iff bit_push_bit_iff bit_1_iff)
  then show "push_bit 16 (word_of_nat kind :: 32 word) OR 1 = word_of_int (65536 * int kind + 1)"
    by (simp add: push_bit_eq_mult)
  have "push_bit 16 (word_of_nat kind :: 32 word) OR (push_bit 4 1 OR 1) = push_bit 16 (word_of_nat kind) + (push_bit 4 1 OR 1)"
    by (rule disjunctive_add_eq_or [symmetric], rule bit_eqI)
      (auto simp: bit_and_iff bit_or_iff bit_push_bit_iff bit_1_iff simp del: push_bit_of_1)
  also have "push_bit 4 (1 :: 32 word) OR 1 = 17" by simp
  finally show "push_bit 16 (word_of_nat kind :: 32 word) OR push_bit 4 1 OR 1 = word_of_int (65536 * int kind + 17)"
    by (simp add: push_bit_eq_mult or.assoc)
qed

lemma Output_token_code [code]: "Output_token kind out = out\<lparr>out_event := out_event out @ [word_of_int (65536 * int kind + 1)]\<rparr>"
  by (simp only: Output_token_def push_or)

lemma Output_enter_code [code]: "Output_enter_node kind out = out\<lparr>out_event := out_event out @ [word_of_int (65536 * int kind + 17)]\<rparr>"
  by (simp only: Output_enter_node_def push_or)

lemma Output_leave_code [code]: "Output_leave_node out = out\<lparr>out_event := out_event out @ [33]\<rparr>"
  by (simp add: Output_leave_node_def)

definition process_forwarded :: "nat list \<Rightarrow> (event list \<times> syntax_kind list) option \<Rightarrow> parse_output \<Rightarrow> parse_output panics" where
  "process_forwarded is r res = (case r of None \<Rightarrow> None | Some (E, ks) \<Rightarrow> process_loop is E (enter_nodes (rev ks) res))"

definition process_event :: "nat \<Rightarrow> nat list \<Rightarrow> event \<Rightarrow> event list \<Rightarrow> parse_output \<Rightarrow> parse_output panics" where
  "process_event i is e E res = (case e of
             EvStart kind forward_parent \<Rightarrow> process_forwarded is (forward_loop E i forward_parent [kind]) res
           | EvFinish \<Rightarrow> process_loop is E (Output_leave_node res)
           | EvToken kind \<Rightarrow> process_loop is E (Output_token kind res)
           | EvError msg \<Rightarrow> process_loop is E (Output_add_error msg res))"

definition process_taken :: "nat \<Rightarrow> nat list \<Rightarrow> event option \<Rightarrow> event list \<Rightarrow> parse_output \<Rightarrow> parse_output panics" where
  "process_taken i is e E res = (case e of None \<Rightarrow> None | Some e \<Rightarrow> process_event i is e (E[i := Event_tombstone]) res)"

lemma process_forwarded_code [code]:
  "process_forwarded is None res = None"
  "process_forwarded is (Some (E, ks)) res = process_loop is E (enter_nodes (rev ks) res)"
  by (simp_all add: process_forwarded_def)

lemma process_event_code [code]:
  "process_event i is (EvStart kind fp) E res = process_forwarded is (forward_loop E i fp [kind]) res"
  "process_event i is EvFinish E res = process_loop is E (Output_leave_node res)"
  "process_event i is (EvToken kind) E res = process_loop is E (Output_token kind res)"
  "process_event i is (EvError msg) E res = process_loop is E (Output_add_error msg res)"
  by (simp_all add: process_event_def)

lemma process_taken_code [code]:
  "process_taken i is None E res = None"
  "process_taken i is (Some e) E res = process_event i is e (E[i := Event_tombstone]) res"
  by (simp_all add: process_taken_def)

lemma process_loop_code [code]:
  "process_loop [] E res = Some res"
  "process_loop (i # is) E res = process_taken i is (vec_get E i) E res"
  by (auto simp: process_taken_def process_event_def process_forwarded_def vec_get_def vec_set_def split: event.splits option.splits)

end
