(* ===== verification/Parser_Expressions.thy ===== *)
theory Parser_Expressions
  imports Parser_Evaluation
begin

text \<open>
  The grammar of names, paths, expressions and attributes: \<^verbatim>\<open>openvaf/parser/src/grammar.rs\<close>,
  \<^verbatim>\<open>grammar/paths.rs\<close>, \<^verbatim>\<open>grammar/call.rs\<close>, \<^verbatim>\<open>grammar/expressions.rs\<close> and \<^verbatim>\<open>grammar/attributes.rs\<close>. A loop
  or recursive function takes fuel, one unit per call; running out of it is \<open>None\<close>, like a panic.
\<close>

section \<open>Names and types\<close>

definition TYPE_TS :: token_set where
  "TYPE_TS = TS [REAL_KW, INTEGER_KW, STRING_KW]"

definition grammar_ty :: "parser \<Rightarrow> parser panics" where
  "grammar_ty p =
     do { let (m, p) = Parser_start p;
          (b, p) \<leftarrow> Parser_expect_ts TYPE_TS p;
          if \<not> b then Marker_abandon m p else map_option snd (Marker_complete m TYPE_NODE p) }"

definition eat_ty :: "parser \<Rightarrow> parser panics" where
  "eat_ty p =
     do { let (m, p) = Parser_start p;
          (b, p) \<leftarrow> Parser_eat_ts TYPE_TS p;
          if \<not> b then Marker_abandon m p else map_option snd (Marker_complete m TYPE_NODE p) }"

definition name_r :: "token_set \<Rightarrow> parser \<Rightarrow> parser panics" where
  "name_r recovery p =
     do { let (m, p) = Parser_start p;
          (b, p) \<leftarrow> Parser_eat IDENT p;
          if b then map_option snd (Marker_complete m NAME p)
          else do { p \<leftarrow> Marker_abandon m p;
                    (err, p) \<leftarrow> Parser_unexpected_token_msg NAME p;
                    map_option snd (Parser_err_recover err recovery p) } }"

definition name_ref_r :: "token_set \<Rightarrow> parser \<Rightarrow> parser panics" where
  "name_ref_r recovery p =
     do { let (m, p) = Parser_start p;
          (b, p) \<leftarrow> Parser_eat IDENT p;
          if b then map_option snd (Marker_complete m NAME_REF p)
          else do { p \<leftarrow> Marker_abandon m p;
                    (err, p) \<leftarrow> Parser_unexpected_token_msg NAME p;
                    map_option snd (Parser_err_recover err recovery p) } }"

definition grammar_name :: "parser \<Rightarrow> parser panics" where
  "grammar_name p = name_r TokenSet_EMPTY p"

definition eat_name :: "parser \<Rightarrow> (bool \<times> parser) panics" where
  "eat_name p =
     do { let (m, p) = Parser_start p;
          (b, p) \<leftarrow> Parser_eat IDENT p;
          if b then do { (_, p) \<leftarrow> Marker_complete m NAME p; Some (True, p) }
          else do { p \<leftarrow> Marker_abandon m p; Some (False, p) } }"

definition eat_name_ref :: "parser \<Rightarrow> (bool \<times> parser) panics" where
  "eat_name_ref p =
     do { let (m, p) = Parser_start p;
          (b, p) \<leftarrow> Parser_eat IDENT p;
          if b then do { (_, p) \<leftarrow> Marker_complete m NAME_REF p; Some (True, p) }
          else do { p \<leftarrow> Marker_abandon m p; Some (False, p) } }"

section \<open>Paths\<close>

definition PATH_SEGMENT_TS :: token_set where
  "PATH_SEGMENT_TS = TS [IDENT, ROOT_KW]"

fun path_loop :: "nat \<Rightarrow> completed_marker \<Rightarrow> parser \<Rightarrow> (completed_marker \<times> parser) panics" where
  "path_loop 0 qual p = None"
| "path_loop (Suc n) qual p =
     do { (b, p) \<leftarrow> Parser_at DOT p;
          if b then
            do { (path, p) \<leftarrow> CompletedMarker_precede qual p;
                 p \<leftarrow> Parser_bump DOT p;
                 (_, p) \<leftarrow> Parser_expect_ts PATH_SEGMENT_TS p;
                 (path, p) \<leftarrow> Marker_complete path PATH p;
                 path_loop n path p }
          else Some (qual, p) }"

definition grammar_path :: "nat \<Rightarrow> parser \<Rightarrow> (completed_marker \<times> parser) panics" where
  "grammar_path n p =
     do { (b, p) \<leftarrow> Parser_at_ts PATH_SEGMENT_TS p;
          _ \<leftarrow> rust_assert b;
          let (path, p) = Parser_start p;
          (_, p) \<leftarrow> Parser_expect_ts PATH_SEGMENT_TS p;
          (qual, p) \<leftarrow> Marker_complete path PATH p;
          path_loop n qual p }"

section \<open>Expressions\<close>

definition EXPR_EXPECTED :: "syntax_kind list" where
  "EXPR_EXPECTED = [L_PAREN, ARR_START, SYSFUN, NAME, LITERAL, TILDE, BANG, PLUS, MINUS]"

definition EXPR_RECOVERY_SET :: token_set where
  "EXPR_RECOVERY_SET = TS [SEMICOLON, ENDMODULE_KW, ENDFUNCTION_KW, ENDNATURE_KW, ENDDISCIPLINE_KW, ENDCASE_KW, END_KW]"

definition binding_power :: "syntax_kind \<Rightarrow> nat \<times> syntax_kind" where
  "binding_power k =
     (if k = QUESTION then (1, QUESTION)
      else if k = PIPE2 then (2, PIPE2)
      else if k = AMP2 then (3, AMP2)
      else if k = PIPE then (4, PIPE)
      else if k = CARET then (5, CARET)
      else if k = L_NXOR then (6, L_NXOR)
      else if k = R_NXOR then (6, R_NXOR)
      else if k = AMP then (7, AMP)
      else if k = EQ2 then (8, EQ2)
      else if k = NEQ then (8, NEQ)
      else if k = GTEQ then (9, GTEQ)
      else if k = R_ANGLE then (9, R_ANGLE)
      else if k = LTEQ then (9, LTEQ)
      else if k = L_ANGLE then (9, L_ANGLE)
      else if k = SHL then (10, SHL)
      else if k = SHR then (10, SHR)
      else if k = PLUS then (11, PLUS)
      else if k = MINUS then (11, MINUS)
      else if k = STAR then (12, STAR)
      else if k = SLASH then (12, SLASH)
      else if k = PERCENT then (13, PERCENT)
      else if k = POW then (14, POW)
      else (0, AT))"

definition current_op :: "parser \<Rightarrow> ((nat \<times> syntax_kind) \<times> parser) panics" where
  "current_op p = do { (k, p) \<leftarrow> Parser_current p; Some (binding_power k, p) }"

definition port_flow :: "nat \<Rightarrow> parser \<Rightarrow> (completed_marker \<times> parser) panics" where
  "port_flow n p =
     do { let (m, p) = Parser_start p;
          p \<leftarrow> Parser_bump L_ANGLE p;
          (_, p) \<leftarrow> grammar_path n p;
          (_, p) \<leftarrow> Parser_expect R_ANGLE p;
          Marker_complete m PORT_FLOW p }"

text \<open>The functions below an expression call it again; the parameter \<open>ex\<close> is that call.\<close>

fun paren_loop :: "(parser \<Rightarrow> (completed_marker option \<times> parser) panics) \<Rightarrow> nat \<Rightarrow> parser \<Rightarrow> parser panics" where
  "paren_loop ex 0 p = None"
| "paren_loop ex (Suc n) p =
     do { (e, p) \<leftarrow> Parser_at EOF p;
          if e then Some p
          else do { (b, p) \<leftarrow> Parser_at R_PAREN p;
                    if b then Some p
                    else do { (r, p) \<leftarrow> ex p;
                              if r = None then Some p
                              else do { (b, p) \<leftarrow> Parser_at R_PAREN p;
                                        p \<leftarrow> (if \<not> b then map_option snd (Parser_expect COMMA p) else Some p);
                                        paren_loop ex n p } } } }"

definition paren_expr :: "(parser \<Rightarrow> (completed_marker option \<times> parser) panics) \<Rightarrow> nat \<Rightarrow> parser \<Rightarrow> (completed_marker \<times> parser) panics" where
  "paren_expr ex n p =
     do { let (m, p) = Parser_start p;
          p \<leftarrow> Parser_bump L_PAREN p;
          p \<leftarrow> paren_loop ex n p;
          (_, p) \<leftarrow> Parser_expect R_PAREN p;
          Marker_complete m PAREN_EXPR p }"

fun arg_loop :: "(parser \<Rightarrow> (completed_marker option \<times> parser) panics) \<Rightarrow> nat \<Rightarrow> parser \<Rightarrow> parser panics" where
  "arg_loop ex 0 p = None"
| "arg_loop ex (Suc n) p =
     do { (b, p) \<leftarrow> Parser_at R_PAREN p;
          if b then Some p
          else do { (e, p) \<leftarrow> Parser_at EOF p;
                    if e then Some p
                    else do { (r, p) \<leftarrow> ex p;
                              if r = None then Some p
                              else do { (b, p) \<leftarrow> Parser_at R_PAREN p;
                                        if b then arg_loop ex n p
                                        else do { (c, p) \<leftarrow> Parser_expect COMMA p;
                                                  if \<not> c then Some p else arg_loop ex n p } } } } }"

definition arg_list :: "(parser \<Rightarrow> (completed_marker option \<times> parser) panics) \<Rightarrow> nat \<Rightarrow> parser \<Rightarrow> parser panics" where
  "arg_list ex n p =
     do { let (m, p) = Parser_start p;
          (_, p) \<leftarrow> Parser_eat L_PAREN p;
          p \<leftarrow> arg_loop ex n p;
          (_, p) \<leftarrow> Parser_eat R_PAREN p;
          map_option snd (Marker_complete m ARG_LIST p) }"

definition call_expr ::
    "(parser \<Rightarrow> (completed_marker option \<times> parser) panics) \<Rightarrow> nat \<Rightarrow> completed_marker \<Rightarrow> parser \<Rightarrow> (completed_marker \<times> parser) panics" where
  "call_expr ex n lhs p =
     do { (m, p) \<leftarrow> CompletedMarker_precede lhs p;
          p \<leftarrow> arg_list ex n p;
          Marker_complete m CALL p }"

definition sys_fun_call :: "(parser \<Rightarrow> (completed_marker option \<times> parser) panics) \<Rightarrow> nat \<Rightarrow> parser \<Rightarrow> (completed_marker \<times> parser) panics" where
  "sys_fun_call ex n p =
     do { let (m, p) = Parser_start p;
          let (m2, p) = Parser_start p;
          p \<leftarrow> Parser_bump SYSFUN p;
          (_, p) \<leftarrow> Marker_complete m2 SYS_FUN p;
          (b, p) \<leftarrow> Parser_at L_PAREN p;
          p \<leftarrow> (if b then arg_list ex n p else Some p);
          Marker_complete m CALL p }"

fun atom_expr :: "(parser \<Rightarrow> (completed_marker option \<times> parser) panics) \<Rightarrow> nat \<Rightarrow> parser \<Rightarrow> (completed_marker option \<times> parser) panics" where
  "atom_expr ex 0 p = None"
| "atom_expr ex (Suc n) p =
     do { (k, p) \<leftarrow> Parser_current p;
          if k = L_PAREN then do { (c, p) \<leftarrow> paren_expr ex n p; Some (Some c, p) }
          else if k = TILDE \<or> k = BANG \<or> k = MINUS \<or> k = PLUS then
            do { let (m, p) = Parser_start p;
                 p \<leftarrow> Parser_bump_ts (TS [TILDE, BANG, MINUS, PLUS]) p;
                 (_, p) \<leftarrow> atom_expr ex n p;
                 (c, p) \<leftarrow> Marker_complete m PREFIX_EXPR p;
                 Some (Some c, p) }
          else if k = IDENT \<or> k = ROOT_KW then
            do { (m, p) \<leftarrow> grammar_path n p;
                 (b, p) \<leftarrow> Parser_at L_PAREN p;
                 if b then do { (c, p) \<leftarrow> call_expr ex n m p; Some (Some c, p) }
                 else do { (m, p) \<leftarrow> CompletedMarker_precede m p;
                           (c, p) \<leftarrow> Marker_complete m PATH_EXPR p;
                           Some (Some c, p) } }
          else if k = SYSFUN then do { (c, p) \<leftarrow> sys_fun_call ex n p; Some (Some c, p) }
          else if k = L_ANGLE then do { (c, p) \<leftarrow> port_flow n p; Some (Some c, p) }
          else if k = INT_NUMBER \<or> k = SI_REAL_NUMBER \<or> k = STD_REAL_NUMBER \<or> k = STR_LIT \<or> k = INF_KW then
            do { let (m, p) = Parser_start p;
                 p \<leftarrow> Parser_bump_any p;
                 (c, p) \<leftarrow> Marker_complete m LITERAL p;
                 Some (Some c, p) }
          else
            do { (err, p) \<leftarrow> Parser_unexpected_tokens_msg EXPR_EXPECTED p;
                 (_, p) \<leftarrow> Parser_err_recover err EXPR_RECOVERY_SET p;
                 Some (None, p) } }"

text \<open>The loop over the operators that follow an operand; \<open>sub\<close> parses an operand of the given power.\<close>

fun expr_loop ::
    "(nat \<Rightarrow> parser \<Rightarrow> (completed_marker option \<times> parser) panics) \<Rightarrow> nat \<Rightarrow> nat \<Rightarrow> completed_marker \<Rightarrow> parser \<Rightarrow>
     (completed_marker option \<times> parser) panics" where
  "expr_loop sub 0 bp lhs p = None"
| "expr_loop sub (Suc n) bp lhs p =
     do { ((op_bp, op), p) \<leftarrow> current_op p;
          if op_bp < bp then Some (Some lhs, p)
          else if op = QUESTION then
            do { (m, p) \<leftarrow> CompletedMarker_precede lhs p;
                 p \<leftarrow> Parser_bump QUESTION p;
                 (_, p) \<leftarrow> sub 1 p;
                 (_, p) \<leftarrow> Parser_expect COLON p;
                 (_, p) \<leftarrow> sub 1 p;
                 (c, p) \<leftarrow> Marker_complete m SELECT_EXPR p;
                 Some (Some c, p) }
          else
            do { (m, p) \<leftarrow> CompletedMarker_precede lhs p;
                 p \<leftarrow> Parser_bump op p;
                 (_, p) \<leftarrow> sub (op_bp + 1) p;
                 (lhs, p) \<leftarrow> Marker_complete m BIN_EXPR p;
                 expr_loop sub n bp lhs p } }"

fun expr_bp :: "nat \<Rightarrow> nat \<Rightarrow> parser \<Rightarrow> (completed_marker option \<times> parser) panics" where
  "expr_bp 0 bp p = None"
| "expr_bp (Suc n) bp p =
     do { (lhs, p) \<leftarrow> atom_expr (\<lambda>p. expr_bp n 1 p) n p;
          (case lhs of
             None \<Rightarrow> Some (None, p)
           | Some lhs \<Rightarrow> expr_loop (\<lambda>bp p. expr_bp n bp p) n bp lhs p) }"

definition grammar_expr :: "nat \<Rightarrow> parser \<Rightarrow> (completed_marker option \<times> parser) panics" where
  "grammar_expr n p = expr_bp n 1 p"

section \<open>Attributes\<close>

definition ATTR_RECOVERY_SET :: token_set where
  "ATTR_RECOVERY_SET = TS [L_ATTR_PAREN, R_ATTR_PAREN, EQ, COMMA]"

definition grammar_attr :: "nat \<Rightarrow> token_set \<Rightarrow> parser \<Rightarrow> parser panics" where
  "grammar_attr n recovery p =
     do { let (m, p) = Parser_start p;
          p \<leftarrow> name_r (TokenSet_union ATTR_RECOVERY_SET recovery) p;
          (b, p) \<leftarrow> Parser_eat EQ p;
          p \<leftarrow> (if b then map_option snd (grammar_expr n p) else Some p);
          map_option snd (Marker_complete m ATTR p) }"

fun attr_loop :: "nat \<Rightarrow> token_set \<Rightarrow> parser \<Rightarrow> parser panics" where
  "attr_loop 0 recovery p = None"
| "attr_loop (Suc n) recovery p =
     do { (b, p) \<leftarrow> Parser_at_ts (TokenSet_union (TS [EOF, R_ATTR_PAREN]) recovery) p;
          if b then Some p
          else do { p \<leftarrow> grammar_attr n recovery p;
                    (b, p) \<leftarrow> Parser_at R_ATTR_PAREN p;
                    p \<leftarrow> (if \<not> b then map_option snd (Parser_expect_with COMMA [COMMA, R_ATTR_PAREN] p) else Some p);
                    attr_loop n recovery p } }"

definition attr_list :: "nat \<Rightarrow> token_set \<Rightarrow> parser \<Rightarrow> parser panics" where
  "attr_list n recovery p =
     do { let (m, p) = Parser_start p;
          p \<leftarrow> Parser_bump L_ATTR_PAREN p;
          p \<leftarrow> attr_loop n recovery p;
          (_, p) \<leftarrow> Parser_eat R_ATTR_PAREN p;
          map_option snd (Marker_complete m ATTR_LIST p) }"

fun attrs :: "nat \<Rightarrow> token_set \<Rightarrow> parser \<Rightarrow> parser panics" where
  "attrs 0 recovery p = None"
| "attrs (Suc n) recovery p =
     do { (b, p) \<leftarrow> Parser_at L_ATTR_PAREN p;
          if b then do { p \<leftarrow> attr_list n recovery p; attrs n recovery p } else Some p }"

end
