(* ===== verification/Parser_Grammar.thy ===== *)
theory Parser_Grammar
  imports Parser_Expressions
begin

text \<open>
  The grammar of statements, declarations, modules and files: \<^verbatim>\<open>openvaf/parser/src/grammar/stmts.rs\<close>,
  \<^verbatim>\<open>grammar/items.rs\<close>, \<^verbatim>\<open>grammar/items/module.rs\<close> and \<^verbatim>\<open>grammar.rs\<close>, with the entry point \<^verbatim>\<open>lib.rs\<close>.
\<close>

section \<open>Declarations\<close>

definition ITEM_RECOVERY_SET :: token_set where
  "ITEM_RECOVERY_SET = TS [DISCIPLINE_KW, NATURE_KW, MODULE_KW, EOF]"

definition DISCIPLINE_RECOVERY_SET :: token_set where
  "DISCIPLINE_RECOVERY_SET = TokenSet_union ITEM_RECOVERY_SET (TokenSet_unique ENDDISCIPLINE_KW)"

definition NATURE_RECOVERY_SET :: token_set where
  "NATURE_RECOVERY_SET = TokenSet_union ITEM_RECOVERY_SET (TokenSet_unique ENDNATURE_KW)"

definition DIRECTION_TS :: token_set where
  "DIRECTION_TS = TS [INOUT_KW, OUTPUT_KW, INPUT_KW]"

definition MODULE_ITEM_RECOVERY :: token_set where
  "MODULE_ITEM_RECOVERY = TokenSet_union DIRECTION_TS (TS [NET_TYPE, ANALOG_KW, INITIAL_KW, BRANCH_KW, STRING_KW,
     REAL_KW, INTEGER_KW, PARAMETER_KW, LOCALPARAM_KW, ENDMODULE_KW, EOF])"

definition MODULE_ITEM_OR_ATTR_RECOVERY :: token_set where
  "MODULE_ITEM_OR_ATTR_RECOVERY = TokenSet_union MODULE_ITEM_RECOVERY (TokenSet_unique L_ATTR_PAREN)"

fun discipline_loop :: "nat \<Rightarrow> parser \<Rightarrow> parser panics" where
  "discipline_loop 0 p = None"
| "discipline_loop (Suc n) p =
     do { (b, p) \<leftarrow> Parser_at_ts DISCIPLINE_RECOVERY_SET p;
          if b then Some p
          else do { let (m, p) = Parser_start p;
                    (_, p) \<leftarrow> grammar_path n p;
                    (_, p) \<leftarrow> Parser_eat EQ p;
                    (_, p) \<leftarrow> grammar_expr n p;
                    (b, p) \<leftarrow> Parser_eat SEMICOLON p;
                    p \<leftarrow> (if \<not> b then
                            do { (err, p) \<leftarrow> Parser_unexpected_token_msg SEMICOLON p;
                                 map_option snd (Parser_err_recover err
                                   (TokenSet_union DISCIPLINE_RECOVERY_SET (TokenSet_unique IDENT)) p) }
                          else Some p);
                    (_, p) \<leftarrow> Marker_complete m DISCIPLINE_ATTR p;
                    discipline_loop n p } }"

definition discipline :: "nat \<Rightarrow> marker \<Rightarrow> parser \<Rightarrow> parser panics" where
  "discipline n m p =
     do { p \<leftarrow> Parser_bump DISCIPLINE_KW p;
          p \<leftarrow> name_r (TS [SEMICOLON]) p;
          (_, p) \<leftarrow> Parser_eat SEMICOLON p;
          p \<leftarrow> discipline_loop n p;
          (_, p) \<leftarrow> Parser_expect ENDDISCIPLINE_KW p;
          map_option snd (Marker_complete m DISCIPLINE_DECL p) }"

fun nature_loop :: "nat \<Rightarrow> parser \<Rightarrow> parser panics" where
  "nature_loop 0 p = None"
| "nature_loop (Suc n) p =
     do { (b, p) \<leftarrow> Parser_at_ts NATURE_RECOVERY_SET p;
          if b then Some p
          else do { let (m, p) = Parser_start p;
                    p \<leftarrow> name_r (TokenSet_unique EQ) p;
                    (_, p) \<leftarrow> Parser_expect EQ p;
                    (_, p) \<leftarrow> grammar_expr n p;
                    (b, p) \<leftarrow> Parser_eat SEMICOLON p;
                    p \<leftarrow> (if \<not> b then
                            do { (err, p) \<leftarrow> Parser_unexpected_token_msg SEMICOLON p;
                                 map_option snd (Parser_err_recover err
                                   (TokenSet_union NATURE_RECOVERY_SET (TokenSet_unique IDENT)) p) }
                          else Some p);
                    (_, p) \<leftarrow> Marker_complete m NATURE_ATTR p;
                    nature_loop n p } }"

definition nature :: "nat \<Rightarrow> marker \<Rightarrow> parser \<Rightarrow> parser panics" where
  "nature n m p =
     do { p \<leftarrow> Parser_bump NATURE_KW p;
          p \<leftarrow> name_r (TS [SEMICOLON, COLON]) p;
          (b, p) \<leftarrow> Parser_eat COLON p;
          p \<leftarrow> (if b then name_ref_r (TokenSet_unique SEMICOLON) p else Some p);
          (_, p) \<leftarrow> Parser_eat SEMICOLON p;
          p \<leftarrow> nature_loop n p;
          (_, p) \<leftarrow> Parser_expect ENDNATURE_KW p;
          map_option snd (Marker_complete m NATURE_DECL p) }"

fun decl_loop ::
    "nat \<Rightarrow> syntax_kind \<Rightarrow> (parser \<Rightarrow> (bool \<times> parser) panics) \<Rightarrow> token_set \<Rightarrow> parser \<Rightarrow> parser panics" where
  "decl_loop 0 terminator parse_entry recovery p = None"
| "decl_loop (Suc n) terminator parse_entry recovery p =
     do { (b, p) \<leftarrow> Parser_at_ts recovery p;
          if b then Some p
          else do { (c, p) \<leftarrow> parse_entry p;
                    if \<not> c then Some p
                    else do { (b, p) \<leftarrow> Parser_at terminator p;
                              p \<leftarrow> (if \<not> b then map_option snd (Parser_expect_with COMMA [COMMA, terminator] p) else Some p);
                              decl_loop n terminator parse_entry recovery p } } }"

definition decl_list ::
    "nat \<Rightarrow> syntax_kind \<Rightarrow> (parser \<Rightarrow> (bool \<times> parser) panics) \<Rightarrow> token_set \<Rightarrow> parser \<Rightarrow> parser panics" where
  "decl_list n terminator parse_entry recovery p =
     (let recovery = TokenSet_union recovery (TS [terminator]) in
      do { (b, p) \<leftarrow> Parser_at_ts recovery p;
           if b then do { (err, p) \<leftarrow> Parser_unexpected_token_msg IDENT p; Parser_error err p }
           else decl_loop n terminator parse_entry recovery p })"

definition decl_name :: "parser \<Rightarrow> (bool \<times> parser) panics" where
  "decl_name p = do { p \<leftarrow> name_r (TS [COMMA, SEMICOLON]) p; Some (True, p) }"

definition grammar_var :: "nat \<Rightarrow> parser \<Rightarrow> (bool \<times> parser) panics" where
  "grammar_var n p =
     do { let (m, p) = Parser_start p;
          p \<leftarrow> name_r (TS [COMMA, EQ, SEMICOLON]) p;
          (b, p) \<leftarrow> Parser_eat EQ p;
          p \<leftarrow> (if b then map_option snd (grammar_expr n p) else Some p);
          (_, p) \<leftarrow> Marker_complete m VAR p;
          Some (True, p) }"

definition var_decl :: "nat \<Rightarrow> marker \<Rightarrow> parser \<Rightarrow> parser panics" where
  "var_decl n m p =
     do { p \<leftarrow> grammar_ty p;
          p \<leftarrow> decl_list n SEMICOLON (grammar_var n) MODULE_ITEM_OR_ATTR_RECOVERY p;
          (_, p) \<leftarrow> Parser_eat SEMICOLON p;
          map_option snd (Marker_complete m VAR_DECL p) }"

definition PARAM_RECOVER :: token_set where
  "PARAM_RECOVER = TokenSet_union MODULE_ITEM_OR_ATTR_RECOVERY (TS [COMMA, SEMICOLON])"

definition range_or_expr :: "nat \<Rightarrow> parser \<Rightarrow> parser panics" where
  "range_or_expr n p =
     do { let (m, p) = Parser_start p;
          let range = (\<lambda>p. do {
            (_, p) \<leftarrow> Parser_expect COLON p;
            (_, p) \<leftarrow> grammar_expr n p;
            (_, p) \<leftarrow> Parser_expect_ts (TS [R_PAREN, R_BRACK]) p;
            map_option snd (Marker_complete m RANGE p) });
          (b, p) \<leftarrow> Parser_eat L_PAREN p;
          if b then
            do { (_, p) \<leftarrow> grammar_expr n p;
                 (c, p) \<leftarrow> Parser_at COLON p;
                 if \<not> c then do { (_, p) \<leftarrow> Parser_expect R_PAREN p;
                                   map_option snd (Marker_complete m PAREN_EXPR p) }
                 else range p }
          else
            do { (b, p) \<leftarrow> Parser_eat L_BRACK p;
                 (_, p) \<leftarrow> grammar_expr n p;
                 if b then range p else Marker_abandon m p } }"

fun constraint_loop :: "nat \<Rightarrow> parser \<Rightarrow> parser panics" where
  "constraint_loop 0 p = None"
| "constraint_loop (Suc n) p =
     do { (b, p) \<leftarrow> Parser_eat COMMA p;
          if b then do { (_, p) \<leftarrow> grammar_expr n p; constraint_loop n p } else Some p }"

definition grammar_constraint :: "nat \<Rightarrow> parser \<Rightarrow> parser panics" where
  "grammar_constraint n p =
     do { let (m, p) = Parser_start p;
          (b, p) \<leftarrow> Parser_expect_ts_r (TS [FROM_KW, EXCLUDE_KW]) PARAM_RECOVER p;
          if \<not> b then Marker_abandon m p
          else do { (a, p) \<leftarrow> Parser_eat ARR_START p;
                    (a, p) \<leftarrow> (if a then Some (True, p) else Parser_eat L_CURLY p);
                    p \<leftarrow> (if a then do { (_, p) \<leftarrow> grammar_expr n p;
                                          p \<leftarrow> constraint_loop n p;
                                          map_option snd (Parser_expect R_CURLY p) }
                          else range_or_expr n p);
                    map_option snd (Marker_complete m CONSTRAINT p) } }"

fun parameter_loop :: "nat \<Rightarrow> parser \<Rightarrow> parser panics" where
  "parameter_loop 0 p = None"
| "parameter_loop (Suc n) p =
     do { (b, p) \<leftarrow> Parser_at_ts PARAM_RECOVER p;
          if b then Some p else do { p \<leftarrow> grammar_constraint n p; parameter_loop n p } }"

definition grammar_parameter :: "nat \<Rightarrow> parser \<Rightarrow> (bool \<times> parser) panics" where
  "grammar_parameter n p =
     do { let (m, p) = Parser_start p;
          p \<leftarrow> name_r (TS [COMMA, SEMICOLON]) p;
          (_, p) \<leftarrow> Parser_expect EQ p;
          (_, p) \<leftarrow> grammar_expr n p;
          p \<leftarrow> parameter_loop n p;
          (_, p) \<leftarrow> Marker_complete m PARAM p;
          Some (True, p) }"

definition parameter_decl :: "nat \<Rightarrow> marker \<Rightarrow> parser \<Rightarrow> parser panics" where
  "parameter_decl n m p =
     do { p \<leftarrow> Parser_bump_any p;
          p \<leftarrow> eat_ty p;
          p \<leftarrow> decl_list n SEMICOLON (grammar_parameter n) MODULE_ITEM_OR_ATTR_RECOVERY p;
          (_, p) \<leftarrow> Parser_eat SEMICOLON p;
          map_option snd (Marker_complete m PARAM_DECL p) }"

section \<open>Statements\<close>

definition STMT_TS :: token_set where
  "STMT_TS = TS [IF_KW, WHILE_KW, FOR_KW, CASE_KW, BEGIN_KW, SEMICOLON, IDENT, SYSFUN, AT]"

definition STMT_RECOVER :: token_set where
  "STMT_RECOVER = TS [EOF, ENDMODULE_KW, SEMICOLON]"

definition STMT_ATTR_RECOVER :: token_set where
  "STMT_ATTR_RECOVER = TokenSet_union (TS [IF_KW, WHILE_KW, FOR_KW, CASE_KW, BEGIN_KW, SEMICOLON]) STMT_RECOVER"

definition CASE_ITEM_RECOVERY :: token_set where
  "CASE_ITEM_RECOVERY = TS [EOF, ENDCASE_KW, ENDMODULE_KW]"

definition CASE_COND_RECOVERY :: token_set where
  "CASE_COND_RECOVERY = TS [ENDCASE_KW, EOF, COLON, ENDMODULE_KW]"

definition BLOCK_RECOVER :: token_set where
  "BLOCK_RECOVER = TS [END_KW, EOF, ENDMODULE_KW]"

definition BLOCK_STMT_TS :: token_set where
  "BLOCK_STMT_TS = TokenSet_union (TokenSet_union STMT_TS TYPE_TS) (TS [PARAMETER_KW, LOCALPARAM_KW])"

definition BLOCK_ATTR_RECOVER :: token_set where
  "BLOCK_ATTR_RECOVER = TokenSet_union (TokenSet_union STMT_ATTR_RECOVER TYPE_TS) (TS [PARAMETER_KW, LOCALPARAM_KW])"

definition empty_stmt :: "marker \<Rightarrow> parser \<Rightarrow> parser panics" where
  "empty_stmt m p = do { p \<leftarrow> Parser_bump SEMICOLON p; map_option snd (Marker_complete m EMPTY_STMT p) }"

definition assign_or_expr :: "nat \<Rightarrow> parser \<Rightarrow> (bool \<times> parser) panics" where
  "assign_or_expr n p =
     do { let (m, p) = Parser_start p;
          (_, p) \<leftarrow> grammar_expr n p;
          (b, p) \<leftarrow> Parser_eat_ts (TS [CONTR, EQ]) p;
          if b then do { (_, p) \<leftarrow> grammar_expr n p;
                         (_, p) \<leftarrow> Marker_complete m ASSIGN p;
                         Some (True, p) }
          else do { p \<leftarrow> Marker_abandon m p; Some (False, p) } }"

definition expr_or_assign_stmt :: "bool \<Rightarrow> nat \<Rightarrow> marker \<Rightarrow> parser \<Rightarrow> parser panics" where
  "expr_or_assign_stmt semicolon n m p =
     do { (a, p) \<leftarrow> assign_or_expr n p;
          let kind = (if a then ASSIGN_STMT else EXPR_STMT);
          p \<leftarrow> (if semicolon then map_option snd (Parser_expect SEMICOLON p) else Some p);
          map_option snd (Marker_complete m kind p) }"

text \<open>
  The statements contain statements; the parameter \<open>st\<close> is the call of \<open>stmt\<close> for them.
\<close>

definition stmt_with_attrs ::
    "(marker \<Rightarrow> token_set \<Rightarrow> token_set \<Rightarrow> parser \<Rightarrow> parser panics) \<Rightarrow> nat \<Rightarrow> parser \<Rightarrow> parser panics" where
  "stmt_with_attrs st n p =
     do { let (m, p) = Parser_start p;
          p \<leftarrow> attrs n STMT_ATTR_RECOVER p;
          st m STMT_TS STMT_RECOVER p }"

fun event_loop :: "nat \<Rightarrow> parser \<Rightarrow> parser panics" where
  "event_loop 0 p = None"
| "event_loop (Suc n) p =
     do { (b, p) \<leftarrow> Parser_at_ts (TS [R_PAREN, BEGIN_KW, ENDMODULE_KW]) p;
          if b then Some p
          else do { (succ, p) \<leftarrow> Parser_expect STR_LIT p;
                    (b, p) \<leftarrow> Parser_at R_PAREN p;
                    p \<leftarrow> (if \<not> b then
                            do { (c, p) \<leftarrow> Parser_expect_with COMMA [R_PAREN, COMMA] p;
                                 if \<not> (succ \<or> c) then Parser_bump_any p else Some p }
                          else Some p);
                    event_loop n p } }"

definition event_stmt ::
    "(marker \<Rightarrow> token_set \<Rightarrow> token_set \<Rightarrow> parser \<Rightarrow> parser panics) \<Rightarrow> nat \<Rightarrow> marker \<Rightarrow> parser \<Rightarrow> parser panics" where
  "event_stmt st n m p =
     do { p \<leftarrow> Parser_bump AT p;
          (_, p) \<leftarrow> Parser_expect L_PAREN p;
          (_, p) \<leftarrow> Parser_expect_ts_r (TS [INITIAL_STEP_KW, FINAL_STEP_KW]) (TS [R_PAREN, L_PAREN]) p;
          (b, p) \<leftarrow> Parser_eat L_PAREN p;
          p \<leftarrow> (if b then do { p \<leftarrow> event_loop n p; map_option snd (Parser_eat R_PAREN p) } else Some p);
          (_, p) \<leftarrow> Parser_expect R_PAREN p;
          p \<leftarrow> stmt_with_attrs st n p;
          map_option snd (Marker_complete m EVENT_STMT p) }"

definition if_stmt ::
    "(marker \<Rightarrow> token_set \<Rightarrow> token_set \<Rightarrow> parser \<Rightarrow> parser panics) \<Rightarrow> nat \<Rightarrow> marker \<Rightarrow> parser \<Rightarrow> parser panics" where
  "if_stmt st n m p =
     do { p \<leftarrow> Parser_bump IF_KW p;
          (_, p) \<leftarrow> Parser_expect L_PAREN p;
          (_, p) \<leftarrow> grammar_expr n p;
          (_, p) \<leftarrow> Parser_expect R_PAREN p;
          p \<leftarrow> stmt_with_attrs st n p;
          (b, p) \<leftarrow> Parser_eat ELSE_KW p;
          p \<leftarrow> (if b then stmt_with_attrs st n p else Some p);
          map_option snd (Marker_complete m IF_STMT p) }"

definition while_stmt ::
    "(marker \<Rightarrow> token_set \<Rightarrow> token_set \<Rightarrow> parser \<Rightarrow> parser panics) \<Rightarrow> nat \<Rightarrow> marker \<Rightarrow> parser \<Rightarrow> parser panics" where
  "while_stmt st n m p =
     do { p \<leftarrow> Parser_bump WHILE_KW p;
          (_, p) \<leftarrow> Parser_expect L_PAREN p;
          (_, p) \<leftarrow> grammar_expr n p;
          (_, p) \<leftarrow> Parser_expect R_PAREN p;
          p \<leftarrow> stmt_with_attrs st n p;
          map_option snd (Marker_complete m WHILE_STMT p) }"

definition for_stmt ::
    "(marker \<Rightarrow> token_set \<Rightarrow> token_set \<Rightarrow> parser \<Rightarrow> parser panics) \<Rightarrow> nat \<Rightarrow> marker \<Rightarrow> parser \<Rightarrow> parser panics" where
  "for_stmt st n m p =
     do { p \<leftarrow> Parser_bump FOR_KW p;
          (_, p) \<leftarrow> Parser_expect L_PAREN p;
          let (stmt, p) = Parser_start p;
          p \<leftarrow> attrs n (TokenSet_union STMT_RECOVER (TS [IDENT])) p;
          p \<leftarrow> expr_or_assign_stmt True n stmt p;
          (_, p) \<leftarrow> grammar_expr n p;
          (_, p) \<leftarrow> Parser_expect SEMICOLON p;
          let (stmt, p) = Parser_start p;
          p \<leftarrow> attrs n (TokenSet_union STMT_RECOVER (TS [IDENT])) p;
          p \<leftarrow> expr_or_assign_stmt False n stmt p;
          (_, p) \<leftarrow> Parser_expect R_PAREN p;
          p \<leftarrow> stmt_with_attrs st n p;
          map_option snd (Marker_complete m FOR_STMT p) }"

fun vals_loop :: "nat \<Rightarrow> parser \<Rightarrow> parser panics" where
  "vals_loop 0 p = None"
| "vals_loop (Suc n) p =
     do { (b, p) \<leftarrow> Parser_at_ts CASE_COND_RECOVERY p;
          if b then Some p
          else do { (_, p) \<leftarrow> grammar_expr n p;
                    (b, p) \<leftarrow> Parser_at COLON p;
                    p \<leftarrow> (if \<not> b then map_option snd (Parser_expect_with COMMA [COLON, COMMA] p) else Some p);
                    vals_loop n p } }"

definition vals_or_default :: "nat \<Rightarrow> parser \<Rightarrow> parser panics" where
  "vals_or_default n p =
     do { (b, p) \<leftarrow> Parser_eat DEFAULT_KW p;
          if b then map_option snd (Parser_eat COLON p)
          else do { p \<leftarrow> vals_loop n p; map_option snd (Parser_expect COLON p) } }"

definition case_item ::
    "(marker \<Rightarrow> token_set \<Rightarrow> token_set \<Rightarrow> parser \<Rightarrow> parser panics) \<Rightarrow> nat \<Rightarrow> parser \<Rightarrow> parser panics" where
  "case_item st n p =
     do { let (m, p) = Parser_start p;
          p \<leftarrow> vals_or_default n p;
          p \<leftarrow> stmt_with_attrs st n p;
          map_option snd (Marker_complete m CASE p) }"

fun case_loop ::
    "(marker \<Rightarrow> token_set \<Rightarrow> token_set \<Rightarrow> parser \<Rightarrow> parser panics) \<Rightarrow> nat \<Rightarrow> parser \<Rightarrow> parser panics" where
  "case_loop st 0 p = None"
| "case_loop st (Suc n) p =
     do { (b, p) \<leftarrow> Parser_at_ts CASE_ITEM_RECOVERY p;
          if b then Some p else do { p \<leftarrow> case_item st n p; case_loop st n p } }"

definition case_stmt ::
    "(marker \<Rightarrow> token_set \<Rightarrow> token_set \<Rightarrow> parser \<Rightarrow> parser panics) \<Rightarrow> nat \<Rightarrow> marker \<Rightarrow> parser \<Rightarrow> parser panics" where
  "case_stmt st n m p =
     do { p \<leftarrow> Parser_bump CASE_KW p;
          (_, p) \<leftarrow> Parser_expect L_PAREN p;
          (_, p) \<leftarrow> grammar_expr n p;
          (_, p) \<leftarrow> Parser_expect R_PAREN p;
          p \<leftarrow> case_loop st n p;
          (_, p) \<leftarrow> Parser_expect ENDCASE_KW p;
          map_option snd (Marker_complete m CASE_STMT p) }"

fun block_loop ::
    "(marker \<Rightarrow> token_set \<Rightarrow> token_set \<Rightarrow> parser \<Rightarrow> parser panics) \<Rightarrow> nat \<Rightarrow> parser \<Rightarrow> parser panics" where
  "block_loop st 0 p = None"
| "block_loop st (Suc n) p =
     do { (b, p) \<leftarrow> Parser_at_ts BLOCK_RECOVER p;
          if b then Some p
          else do { let (m, p) = Parser_start p;
                    p \<leftarrow> attrs n (TokenSet_union BLOCK_RECOVER BLOCK_ATTR_RECOVER) p;
                    (t, p) \<leftarrow> Parser_at_ts TYPE_TS p;
                    p \<leftarrow> (if t then var_decl n m p
                          else do { (q, p) \<leftarrow> Parser_at_ts (TS [PARAMETER_KW, LOCALPARAM_KW]) p;
                                    if q then parameter_decl n m p else st m BLOCK_STMT_TS BLOCK_RECOVER p });
                    block_loop st n p } }"

definition block_stmt ::
    "(marker \<Rightarrow> token_set \<Rightarrow> token_set \<Rightarrow> parser \<Rightarrow> parser panics) \<Rightarrow> nat \<Rightarrow> marker \<Rightarrow> parser \<Rightarrow> parser panics" where
  "block_stmt st n m p =
     do { p \<leftarrow> Parser_bump BEGIN_KW p;
          (b, p) \<leftarrow> Parser_at COLON p;
          p \<leftarrow> (if b then do { let (m, p) = Parser_start p;
                                p \<leftarrow> Parser_bump COLON p;
                                p \<leftarrow> grammar_name p;
                                map_option snd (Marker_complete m BLOCK_SCOPE p) }
                else Some p);
          p \<leftarrow> block_loop st n p;
          (_, p) \<leftarrow> Parser_expect END_KW p;
          map_option snd (Marker_complete m BLOCK_STMT p) }"

fun stmt :: "nat \<Rightarrow> marker \<Rightarrow> token_set \<Rightarrow> token_set \<Rightarrow> parser \<Rightarrow> parser panics" where
  "stmt 0 m expect recover p = None"
| "stmt (Suc n) m expect recover p =
     (let st = (\<lambda>m expect recover p. stmt n m expect recover p) in
      do { (k, p) \<leftarrow> Parser_current p;
           if k = SEMICOLON then empty_stmt m p
           else if k = IF_KW then if_stmt st n m p
           else if k = WHILE_KW then while_stmt st n m p
           else if k = FOR_KW then for_stmt st n m p
           else if k = CASE_KW then case_stmt st n m p
           else if k = BEGIN_KW then block_stmt st n m p
           else if k = AT then event_stmt st n m p
           else if k = IDENT \<or> k = SYSFUN then expr_or_assign_stmt True n m p
           else do { p \<leftarrow> Marker_abandon m p;
                     ks \<leftarrow> TokenSet_iter 128 expect;
                     (err, p) \<leftarrow> Parser_unexpected_tokens_msg ks p;
                     map_option snd (Parser_err_recover err (TokenSet_union recover recover) p) } })"

section \<open>Modules\<close>

definition MODULE_PORTS_RECOVERY :: token_set where
  "MODULE_PORTS_RECOVERY = TS [SEMICOLON, R_PAREN, ENDMODULE_KW, EOF]"

definition MODULE_PORT_RECOVERY :: token_set where
  "MODULE_PORT_RECOVERY = TokenSet_union (TokenSet_union MODULE_PORTS_RECOVERY DIRECTION_TS) (TokenSet_unique L_ATTR_PAREN)"

definition NET_RECOVERY :: token_set where
  "NET_RECOVERY = TS [EOF, ENDMODULE_KW, SEMICOLON]"

definition FUNCTION_RECOVER :: token_set where
  "FUNCTION_RECOVER = TS [EOF, ENDMODULE_KW, ENDFUNCTION_KW]"

definition FUN_ITEM_TS :: token_set where
  "FUN_ITEM_TS = TokenSet_union (TokenSet_union (TokenSet_union (TokenSet_union (TS [PARAMETER_KW, LOCALPARAM_KW])
     TYPE_TS) STMT_RECOVER) DIRECTION_TS) STMT_TS"

definition FUNC_ARG_RECOVER :: token_set where
  "FUNC_ARG_RECOVER = TS [EOF, ENDMODULE_KW]"

definition net_dec_list :: "nat \<Rightarrow> parser \<Rightarrow> parser panics" where
  "net_dec_list n p = decl_list n SEMICOLON decl_name NET_RECOVERY p"

definition module_port :: "parser \<Rightarrow> (bool \<times> parser) panics" where
  "module_port p =
     do { p \<leftarrow> name_r (TokenSet_union MODULE_PORT_RECOVERY (TokenSet_unique COMMA)) p;
          (b, p) \<leftarrow> Parser_at COMMA p;
          if b then do { (c, p) \<leftarrow> Parser_nth_at_ts 1 MODULE_PORT_RECOVERY p; Some (\<not> c, p) } else Some (True, p) }"

definition port_decl :: "bool \<Rightarrow> nat \<Rightarrow> marker \<Rightarrow> parser \<Rightarrow> parser panics" where
  "port_decl module_head n m p =
     do { let (direction, p) = Parser_start p;
          p \<leftarrow> Parser_bump_ts DIRECTION_TS p;
          (_, p) \<leftarrow> Marker_complete direction DIRECTION p;
          (b, p) \<leftarrow> Parser_nth_at_ts 1 (TokenSet_union MODULE_PORT_RECOVERY (TokenSet_unique COMMA)) p;
          p \<leftarrow> (if \<not> b then map_option snd (eat_name_ref p) else Some p);
          (_, p) \<leftarrow> Parser_eat NET_TYPE p;
          p \<leftarrow> (if module_head then decl_list n R_PAREN module_port MODULE_PORT_RECOVERY p else net_dec_list n p);
          (finished, p) \<leftarrow> Marker_complete m PORT_DECL p;
          if \<not> module_head then
            do { (m, p) \<leftarrow> CompletedMarker_precede finished p;
                 (_, p) \<leftarrow> Parser_eat SEMICOLON p;
                 map_option snd (Marker_complete m BODY_PORT_DECL p) }
          else Some p }"

fun ports_loop :: "nat \<Rightarrow> parser \<Rightarrow> parser panics" where
  "ports_loop 0 p = None"
| "ports_loop (Suc n) p =
     do { (b, p) \<leftarrow> Parser_at_ts MODULE_PORTS_RECOVERY p;
          if b then Some p
          else do { let (m, p) = Parser_start p;
                    (b, p) \<leftarrow> eat_name p;
                    p \<leftarrow> (if \<not> b then
                            do { let (m, p) = Parser_start p;
                                 p \<leftarrow> attrs n (TokenSet_union MODULE_PORTS_RECOVERY DIRECTION_TS) p;
                                 port_decl True n m p }
                          else Some p);
                    (_, p) \<leftarrow> Marker_complete m MODULE_PORT p;
                    (b, p) \<leftarrow> Parser_at R_PAREN p;
                    p \<leftarrow> (if \<not> b then map_option snd (Parser_expect_with COMMA [COMMA, R_PAREN] p) else Some p);
                    ports_loop n p } }"

definition module_ports :: "nat \<Rightarrow> parser \<Rightarrow> parser panics" where
  "module_ports n p = do { p \<leftarrow> ports_loop n p; map_option snd (Parser_expect R_PAREN p) }"

definition alias_parameter_decl :: "nat \<Rightarrow> marker \<Rightarrow> parser \<Rightarrow> parser panics" where
  "alias_parameter_decl n m p =
     do { p \<leftarrow> Parser_bump ALIASPARAM_KW p;
          p \<leftarrow> name_r (TS [SEMICOLON, EQ]) p;
          (_, p) \<leftarrow> Parser_expect EQ p;
          (b, p) \<leftarrow> Parser_at SYSFUN p;
          p \<leftarrow> (if b then do { let (m, p) = Parser_start p;
                                p \<leftarrow> Parser_bump_any p;
                                map_option snd (Marker_complete m SYS_FUN p) }
                else map_option snd (grammar_path n p));
          (_, p) \<leftarrow> Parser_eat SEMICOLON p;
          map_option snd (Marker_complete m ALIAS_PARAM p) }"

definition net_decl :: "bool \<Rightarrow> nat \<Rightarrow> marker \<Rightarrow> parser \<Rightarrow> parser panics" where
  "net_decl net_type_first n m p =
     do { p \<leftarrow> (if net_type_first then
                  do { p \<leftarrow> Parser_bump NET_TYPE p;
                       (b, p) \<leftarrow> Parser_nth_at_ts 1 (TS [COMMA, SEMICOLON]) p;
                       if \<not> b then map_option snd (eat_name_ref p) else Some p }
                else name_ref_r (TokenSet_union MODULE_ITEM_OR_ATTR_RECOVERY (TokenSet_unique SEMICOLON)) p);
          p \<leftarrow> net_dec_list n p;
          (_, p) \<leftarrow> Parser_eat SEMICOLON p;
          map_option snd (Marker_complete m NET_DECL p) }"

definition func_arg :: "nat \<Rightarrow> marker \<Rightarrow> parser \<Rightarrow> parser panics" where
  "func_arg n m p =
     do { let (direction, p) = Parser_start p;
          p \<leftarrow> Parser_bump_ts DIRECTION_TS p;
          (_, p) \<leftarrow> Marker_complete direction DIRECTION p;
          p \<leftarrow> decl_list n SEMICOLON decl_name FUNC_ARG_RECOVER p;
          (_, p) \<leftarrow> Parser_eat SEMICOLON p;
          map_option snd (Marker_complete m FUNCTION_ARG p) }"

fun func_loop :: "nat \<Rightarrow> parser \<Rightarrow> parser panics" where
  "func_loop 0 p = None"
| "func_loop (Suc n) p =
     do { (b, p) \<leftarrow> Parser_at_ts FUNCTION_RECOVER p;
          if b then Some p
          else do { let (m, p) = Parser_start p;
                    p \<leftarrow> attrs n (TokenSet_union FUN_ITEM_TS FUNCTION_RECOVER) p;
                    (t, p) \<leftarrow> Parser_at_ts TYPE_TS p;
                    p \<leftarrow> (if t then var_decl n m p
                          else do { (q, p) \<leftarrow> Parser_at_ts (TS [PARAMETER_KW, LOCALPARAM_KW]) p;
                                    if q then parameter_decl n m p
                                    else do { (d, p) \<leftarrow> Parser_at_ts DIRECTION_TS p;
                                              if d then func_arg n m p else stmt n m FUN_ITEM_TS FUNCTION_RECOVER p } });
                    func_loop n p } }"

definition func_decl :: "nat \<Rightarrow> marker \<Rightarrow> parser \<Rightarrow> parser panics" where
  "func_decl n m p =
     do { p \<leftarrow> Parser_bump ANALOG_KW p;
          p \<leftarrow> Parser_bump FUNCTION_KW p;
          p \<leftarrow> eat_ty p;
          p \<leftarrow> name_r (TokenSet_unique SEMICOLON) p;
          (_, p) \<leftarrow> Parser_expect SEMICOLON p;
          p \<leftarrow> func_loop n p;
          (_, p) \<leftarrow> Parser_expect ENDFUNCTION_KW p;
          map_option snd (Marker_complete m FUNCTION p) }"

definition branch_decl :: "nat \<Rightarrow> marker \<Rightarrow> parser \<Rightarrow> parser panics" where
  "branch_decl n m p =
     do { p \<leftarrow> Parser_bump BRANCH_KW p;
          (b, p) \<leftarrow> Parser_at L_PAREN p;
          p \<leftarrow> (if \<not> b then do { (err, p) \<leftarrow> Parser_unexpected_token_msg L_PAREN p; Parser_error err p } else Some p);
          p \<leftarrow> arg_list (\<lambda>p. grammar_expr n p) n p;
          p \<leftarrow> decl_list n SEMICOLON decl_name MODULE_ITEM_OR_ATTR_RECOVERY p;
          (_, p) \<leftarrow> Parser_eat SEMICOLON p;
          map_option snd (Marker_complete m BRANCH_DECL p) }"

text \<open>The loop that skips tokens until one of the set.\<close>

fun skip_until :: "nat \<Rightarrow> token_set \<Rightarrow> parser \<Rightarrow> parser panics" where
  "skip_until 0 ts p = None"
| "skip_until (Suc n) ts p =
     do { (b, p) \<leftarrow> Parser_at_ts ts p;
          if b then Some p else do { p \<leftarrow> Parser_bump_any p; skip_until n ts p } }"

text \<open>An item that is none: it is skipped into the error node before it, or a new one.\<close>

definition skip_item ::
    "nat \<Rightarrow> syntax_kind list \<Rightarrow> token_set \<Rightarrow> completed_marker option \<Rightarrow> marker \<Rightarrow> parser \<Rightarrow>
     (completed_marker option \<times> parser) panics" where
  "skip_item n expect recovery error_range m p =
     (case error_range of
        Some error_range \<Rightarrow>
          do { p \<leftarrow> Marker_abandon m p;
               p \<leftarrow> Parser_bump_any p;
               p \<leftarrow> skip_until n recovery p;
               (m, p) \<leftarrow> CompletedMarker_undo_completion error_range p;
               (c, p) \<leftarrow> Marker_complete m ERROR p;
               Some (Some c, p) }
      | None \<Rightarrow>
          do { (err, p) \<leftarrow> Parser_unexpected_tokens_msg expect p;
               p \<leftarrow> Parser_error err p;
               p \<leftarrow> Parser_bump_any p;
               p \<leftarrow> skip_until n recovery p;
               (c, p) \<leftarrow> Marker_complete m ERROR p;
               Some (Some c, p) })"

definition module_item ::
    "nat \<Rightarrow> completed_marker option \<Rightarrow> marker \<Rightarrow> parser \<Rightarrow> (completed_marker option \<times> parser) panics" where
  "module_item n error_range m p =
     do { (k, p) \<leftarrow> Parser_current p;
          (f, p) \<leftarrow> (if k = ANALOG_KW then do { (k1, p) \<leftarrow> Parser_nth 1 p; Some (k1 = FUNCTION_KW, p) } else Some (False, p));
          let item = map_option (\<lambda>p. (error_range, p));
          if f then item (func_decl n m p)
          else if k = ANALOG_KW then
            item (do { p \<leftarrow> Parser_bump ANALOG_KW p;
                       (_, p) \<leftarrow> Parser_eat INITIAL_KW p;
                       p \<leftarrow> stmt_with_attrs (stmt n) n p;
                       map_option snd (Marker_complete m ANALOG_BEHAVIOUR p) })
          else if k = NET_TYPE then item (net_decl True n m p)
          else if k = IDENT then item (net_decl False n m p)
          else if k = PARAMETER_KW \<or> k = LOCALPARAM_KW then item (parameter_decl n m p)
          else if k = ALIASPARAM_KW then item (alias_parameter_decl n m p)
          else if k = BRANCH_KW then item (branch_decl n m p)
          else if k = INTEGER_KW \<or> k = REAL_KW \<or> k = STRING_KW then item (var_decl n m p)
          else if k = INPUT_KW \<or> k = OUTPUT_KW \<or> k = INOUT_KW then item (port_decl False n m p)
          else skip_item n [FUNCTION, PORT_DECL, NET_DECL, ANALOG_BEHAVIOUR] MODULE_ITEM_RECOVERY error_range m p }"

fun module_items_loop :: "nat \<Rightarrow> completed_marker option \<Rightarrow> parser \<Rightarrow> parser panics" where
  "module_items_loop 0 error_range p = None"
| "module_items_loop (Suc n) error_range p =
     do { (b, p) \<leftarrow> Parser_at_ts (TokenSet_union ITEM_RECOVERY_SET (TokenSet_unique ENDMODULE_KW)) p;
          if b then Some p
          else do { let (m, p) = Parser_start p;
                    p \<leftarrow> attrs n MODULE_ITEM_RECOVERY p;
                    (error_range, p) \<leftarrow> module_item n error_range m p;
                    module_items_loop n error_range p } }"

definition module_items :: "nat \<Rightarrow> parser \<Rightarrow> parser panics" where
  "module_items n p = module_items_loop n None p"

definition grammar_module :: "nat \<Rightarrow> marker \<Rightarrow> parser \<Rightarrow> parser panics" where
  "grammar_module n m p =
     do { p \<leftarrow> Parser_bump MODULE_KW p;
          p \<leftarrow> name_r (TS [L_PAREN, SEMICOLON]) p;
          (b, p) \<leftarrow> Parser_at L_PAREN p;
          p \<leftarrow> (if b then do { let (m, p) = Parser_start p;
                                p \<leftarrow> Parser_bump L_PAREN p;
                                p \<leftarrow> module_ports n p;
                                map_option snd (Marker_complete m MODULE_PORTS p) }
                else Some p);
          (_, p) \<leftarrow> Parser_expect SEMICOLON p;
          p \<leftarrow> module_items n p;
          (_, p) \<leftarrow> Parser_expect ENDMODULE_KW p;
          map_option snd (Marker_complete m MODULE_DECL p) }"

section \<open>Files\<close>

definition file_item ::
    "nat \<Rightarrow> completed_marker option \<Rightarrow> marker \<Rightarrow> parser \<Rightarrow> (completed_marker option \<times> parser) panics" where
  "file_item n error_range m p =
     do { (k, p) \<leftarrow> Parser_current p;
          let item = map_option (\<lambda>p. (None, p));
          if k = DISCIPLINE_KW then item (discipline n m p)
          else if k = NATURE_KW then item (nature n m p)
          else if k = MODULE_KW then item (grammar_module n m p)
          else skip_item n [DISCIPLINE_KW, NATURE_KW, MODULE_KW] ITEM_RECOVERY_SET error_range m p }"

fun file_loop :: "nat \<Rightarrow> completed_marker option \<Rightarrow> parser \<Rightarrow> parser panics" where
  "file_loop 0 error_range p = None"
| "file_loop (Suc n) error_range p =
     do { (b, p) \<leftarrow> Parser_at EOF p;
          if b then Some p
          else do { let (m, p) = Parser_start p;
                    p \<leftarrow> attrs n ITEM_RECOVERY_SET p;
                    (error_range, p) \<leftarrow> file_item n error_range m p;
                    file_loop n error_range p } }"

definition source_file :: "nat \<Rightarrow> parser \<Rightarrow> parser panics" where
  "source_file n p =
     do { let (m, p) = Parser_start p;
          p \<leftarrow> file_loop n None p;
          map_option snd (Marker_complete m SOURCE_FILE p) }"

definition parser_parse :: "nat \<Rightarrow> syntax_kind list \<Rightarrow> parse_output panics" where
  "parser_parse n ts = do { p \<leftarrow> source_file n (Parser_new ts); event_process (Parser_finish p) }"

end
