(* ===== verification/Parser_Fuel.thy ===== *)
theory Parser_Fuel
  imports Parser_Grammar
begin

text \<open>
  The fuel of the parser is no part of its result: a call that returns with some fuel returns the same with
  more. \<open>below m m'\<close> says that \<open>m'\<close> is the result of \<open>m\<close>, if there is one.
\<close>

definition below :: "'a option \<Rightarrow> 'a option \<Rightarrow> bool" where
  "below m m' \<longleftrightarrow> (\<forall>x. m = Some x \<longrightarrow> m' = Some x)"

named_theorems fuel

lemma below_refl [fuel]: "below m m"
  by (simp add: below_def)

lemma below_None [simp]: "below None m"
  by (simp add: below_def)

lemma below_binds [fuel]:
  "below m m' \<Longrightarrow> (\<And>a b q. below (g a b q) (g' a b q)) \<Longrightarrow> below (m \<bind> (\<lambda>((a, b), q). g a b q)) (m' \<bind> (\<lambda>((a, b), q). g' a b q))"
  "below m1 m1' \<Longrightarrow> (\<And>x q. below (h x q) (h' x q)) \<Longrightarrow> below (m1 \<bind> (\<lambda>(x, q). h x q)) (m1' \<bind> (\<lambda>(x, q). h' x q))"
  "below m2 m2' \<Longrightarrow> (\<And>x. below (f x) (f' x)) \<Longrightarrow> below (m2 \<bind> f) (m2' \<bind> f')"
  by (auto simp: below_def bind_eq_Some_conv)

lemma below_lets [fuel]:
  "(\<And>x q. below (h x q) (h' x q)) \<Longrightarrow> below (let (x, q) = t in h x q) (let (x, q) = t in h' x q)"
  "(\<And>x. below (f x) (f' x)) \<Longrightarrow> below (let x = u in f x) (let x = u in f' x)"
  by (auto simp: Let_def split: prod.split)

lemma below_branches [fuel]:
  "below m m' \<Longrightarrow> below u u' \<Longrightarrow> below (if b then m else u) (if b then m' else u')"
  "below u u' \<Longrightarrow> (\<And>y. below (f y) (f' y)) \<Longrightarrow> below (case z of None \<Rightarrow> u | Some y \<Rightarrow> f y) (case z of None \<Rightarrow> u' | Some y \<Rightarrow> f' y)"
  by (auto split: option.split)

lemma below_map [fuel]: "below m m' \<Longrightarrow> below (map_option f m) (map_option f m')"
  by (auto simp: below_def)

lemma more_fuel: "Suc n \<le> n' \<Longrightarrow> (\<And>k. n' = Suc k \<Longrightarrow> n \<le> k \<Longrightarrow> P) \<Longrightarrow> P"
  by (cases n') auto

section \<open>Expressions\<close>

lemma path_loop_below [fuel]: "n \<le> n' \<Longrightarrow> below (path_loop n c p) (path_loop n' c p)"
proof (induction n arbitrary: n' c p)
  case (Suc n)
  then show ?case by (elim more_fuel) (simp only: path_loop.simps, (rule fuel Suc.IH | assumption)+)
qed simp

lemma grammar_path_below [fuel]: "n \<le> n' \<Longrightarrow> below (grammar_path n p) (grammar_path n' p)"
  unfolding grammar_path_def by (rule fuel | assumption)+

lemma port_flow_below [fuel]: "n \<le> n' \<Longrightarrow> below (port_flow n p) (port_flow n' p)"
  unfolding port_flow_def by (rule fuel | assumption)+

lemma paren_loop_below [fuel]: "n \<le> n' \<Longrightarrow> (\<And>p. below (ex p) (ex' p)) \<Longrightarrow> below (paren_loop ex n p) (paren_loop ex' n' p)"
proof (induction n arbitrary: n' p)
  case (Suc n)
  then show ?case by (elim more_fuel) (simp only: paren_loop.simps, (rule fuel Suc.IH Suc.prems(2) | assumption)+)
qed simp

lemma paren_expr_below [fuel]: "n \<le> n' \<Longrightarrow> (\<And>p. below (ex p) (ex' p)) \<Longrightarrow> below (paren_expr ex n p) (paren_expr ex' n' p)"
  unfolding paren_expr_def by (rule fuel | assumption)+

lemma arg_loop_below [fuel]: "n \<le> n' \<Longrightarrow> (\<And>p. below (ex p) (ex' p)) \<Longrightarrow> below (arg_loop ex n p) (arg_loop ex' n' p)"
proof (induction n arbitrary: n' p)
  case (Suc n)
  then show ?case by (elim more_fuel) (simp only: arg_loop.simps, (rule fuel Suc.IH Suc.prems(2) | assumption)+)
qed simp

lemma arg_list_below [fuel]: "n \<le> n' \<Longrightarrow> (\<And>p. below (ex p) (ex' p)) \<Longrightarrow> below (arg_list ex n p) (arg_list ex' n' p)"
  unfolding arg_list_def by (rule fuel | assumption)+

lemma call_expr_below [fuel]: "n \<le> n' \<Longrightarrow> (\<And>p. below (ex p) (ex' p)) \<Longrightarrow> below (call_expr ex n c p) (call_expr ex' n' c p)"
  unfolding call_expr_def by (rule fuel | assumption)+

lemma sys_fun_call_below [fuel]: "n \<le> n' \<Longrightarrow> (\<And>p. below (ex p) (ex' p)) \<Longrightarrow> below (sys_fun_call ex n p) (sys_fun_call ex' n' p)"
  unfolding sys_fun_call_def by (rule fuel | assumption)+

lemma atom_expr_below [fuel]: "n \<le> n' \<Longrightarrow> (\<And>p. below (ex p) (ex' p)) \<Longrightarrow> below (atom_expr ex n p) (atom_expr ex' n' p)"
proof (induction n arbitrary: n' p)
  case (Suc n)
  then show ?case by (elim more_fuel) (simp only: atom_expr.simps, (rule fuel Suc.IH Suc.prems(2) | assumption)+)
qed simp

lemma expr_loop_below [fuel]: "n \<le> n' \<Longrightarrow> (\<And>b p. below (sub b p) (sub' b p)) \<Longrightarrow> below (expr_loop sub n bp c p) (expr_loop sub' n' bp c p)"
proof (induction n arbitrary: n' bp c p)
  case (Suc n)
  then show ?case by (elim more_fuel) (simp only: expr_loop.simps, (rule fuel Suc.IH Suc.prems(2) | assumption)+)
qed simp

lemma expr_bp_below [fuel]: "n \<le> n' \<Longrightarrow> below (expr_bp n bp p) (expr_bp n' bp p)"
proof (induction n arbitrary: n' bp p)
  case (Suc n)
  then show ?case by (elim more_fuel) (simp only: expr_bp.simps, (rule fuel Suc.IH | assumption)+)
qed simp

lemma grammar_expr_below [fuel]: "n \<le> n' \<Longrightarrow> below (grammar_expr n p) (grammar_expr n' p)"
  unfolding grammar_expr_def by (rule fuel | assumption)+

section \<open>Attributes and declarations\<close>

lemma grammar_attr_below [fuel]: "n \<le> n' \<Longrightarrow> below (grammar_attr n ts p) (grammar_attr n' ts p)"
  unfolding grammar_attr_def by (rule fuel | assumption)+

lemma attr_loop_below [fuel]: "n \<le> n' \<Longrightarrow> below (attr_loop n ts p) (attr_loop n' ts p)"
proof (induction n arbitrary: n' ts p)
  case (Suc n)
  then show ?case by (elim more_fuel) (simp only: attr_loop.simps, (rule fuel Suc.IH | assumption)+)
qed simp

lemma attr_list_below [fuel]: "n \<le> n' \<Longrightarrow> below (attr_list n ts p) (attr_list n' ts p)"
  unfolding attr_list_def by (rule fuel | assumption)+

lemma attrs_below [fuel]: "n \<le> n' \<Longrightarrow> below (attrs n ts p) (attrs n' ts p)"
proof (induction n arbitrary: n' ts p)
  case (Suc n)
  then show ?case by (elim more_fuel) (simp only: attrs.simps, (rule fuel Suc.IH | assumption)+)
qed simp

lemma discipline_loop_below [fuel]: "n \<le> n' \<Longrightarrow> below (discipline_loop n p) (discipline_loop n' p)"
proof (induction n arbitrary: n' p)
  case (Suc n)
  then show ?case by (elim more_fuel) (simp only: discipline_loop.simps, (rule fuel Suc.IH | assumption)+)
qed simp

lemma discipline_below [fuel]: "n \<le> n' \<Longrightarrow> below (discipline n m p) (discipline n' m p)"
  unfolding discipline_def by (rule fuel | assumption)+

lemma nature_loop_below [fuel]: "n \<le> n' \<Longrightarrow> below (nature_loop n p) (nature_loop n' p)"
proof (induction n arbitrary: n' p)
  case (Suc n)
  then show ?case by (elim more_fuel) (simp only: nature_loop.simps, (rule fuel Suc.IH | assumption)+)
qed simp

lemma nature_below [fuel]: "n \<le> n' \<Longrightarrow> below (nature n m p) (nature n' m p)"
  unfolding nature_def by (rule fuel | assumption)+

lemma decl_loop_below [fuel]: "n \<le> n' \<Longrightarrow> (\<And>p. below (pe p) (pe' p)) \<Longrightarrow> below (decl_loop n k pe ts p) (decl_loop n' k pe' ts p)"
proof (induction n arbitrary: n' k ts p)
  case (Suc n)
  then show ?case by (elim more_fuel) (simp only: decl_loop.simps, (rule fuel Suc.IH Suc.prems(2) | assumption)+)
qed simp

lemma decl_list_below [fuel]: "n \<le> n' \<Longrightarrow> (\<And>p. below (pe p) (pe' p)) \<Longrightarrow> below (decl_list n k pe ts p) (decl_list n' k pe' ts p)"
  unfolding decl_list_def by (rule fuel | assumption)+

lemma grammar_var_below [fuel]: "n \<le> n' \<Longrightarrow> below (grammar_var n p) (grammar_var n' p)"
  unfolding grammar_var_def by (rule fuel | assumption)+

lemma var_decl_below [fuel]: "n \<le> n' \<Longrightarrow> below (var_decl n m p) (var_decl n' m p)"
  unfolding var_decl_def by (rule fuel | assumption)+

lemma range_or_expr_below [fuel]: "n \<le> n' \<Longrightarrow> below (range_or_expr n p) (range_or_expr n' p)"
  unfolding range_or_expr_def Let_def [of "\<lambda>p. _ p"] by (rule fuel | assumption)+

lemma constraint_loop_below [fuel]: "n \<le> n' \<Longrightarrow> below (constraint_loop n p) (constraint_loop n' p)"
proof (induction n arbitrary: n' p)
  case (Suc n)
  then show ?case by (elim more_fuel) (simp only: constraint_loop.simps, (rule fuel Suc.IH | assumption)+)
qed simp

lemma grammar_constraint_below [fuel]: "n \<le> n' \<Longrightarrow> below (grammar_constraint n p) (grammar_constraint n' p)"
  unfolding grammar_constraint_def by (rule fuel | assumption)+

lemma parameter_loop_below [fuel]: "n \<le> n' \<Longrightarrow> below (parameter_loop n p) (parameter_loop n' p)"
proof (induction n arbitrary: n' p)
  case (Suc n)
  then show ?case by (elim more_fuel) (simp only: parameter_loop.simps, (rule fuel Suc.IH | assumption)+)
qed simp

lemma grammar_parameter_below [fuel]: "n \<le> n' \<Longrightarrow> below (grammar_parameter n p) (grammar_parameter n' p)"
  unfolding grammar_parameter_def by (rule fuel | assumption)+

lemma parameter_decl_below [fuel]: "n \<le> n' \<Longrightarrow> below (parameter_decl n m p) (parameter_decl n' m p)"
  unfolding parameter_decl_def by (rule fuel | assumption)+

section \<open>Statements\<close>

lemma assign_or_expr_below [fuel]: "n \<le> n' \<Longrightarrow> below (assign_or_expr n p) (assign_or_expr n' p)"
  unfolding assign_or_expr_def by (rule fuel | assumption)+

lemma expr_or_assign_stmt_below [fuel]: "n \<le> n' \<Longrightarrow> below (expr_or_assign_stmt b n m p) (expr_or_assign_stmt b n' m p)"
  unfolding expr_or_assign_stmt_def by (rule fuel | assumption)+

lemma stmt_with_attrs_below [fuel]: "n \<le> n' \<Longrightarrow> (\<And>m e r p. below (st m e r p) (st' m e r p)) \<Longrightarrow> below (stmt_with_attrs st n p) (stmt_with_attrs st' n' p)"
  unfolding stmt_with_attrs_def by (rule fuel | assumption)+

lemma event_loop_below [fuel]: "n \<le> n' \<Longrightarrow> below (event_loop n p) (event_loop n' p)"
proof (induction n arbitrary: n' p)
  case (Suc n)
  then show ?case by (elim more_fuel) (simp only: event_loop.simps, (rule fuel Suc.IH | assumption)+)
qed simp

lemma event_stmt_below [fuel]: "n \<le> n' \<Longrightarrow> (\<And>m e r p. below (st m e r p) (st' m e r p)) \<Longrightarrow> below (event_stmt st n m p) (event_stmt st' n' m p)"
  unfolding event_stmt_def by (rule fuel | assumption)+

lemma if_stmt_below [fuel]: "n \<le> n' \<Longrightarrow> (\<And>m e r p. below (st m e r p) (st' m e r p)) \<Longrightarrow> below (if_stmt st n m p) (if_stmt st' n' m p)"
  unfolding if_stmt_def by (rule fuel | assumption)+

lemma while_stmt_below [fuel]: "n \<le> n' \<Longrightarrow> (\<And>m e r p. below (st m e r p) (st' m e r p)) \<Longrightarrow> below (while_stmt st n m p) (while_stmt st' n' m p)"
  unfolding while_stmt_def by (rule fuel | assumption)+

lemma for_stmt_below [fuel]: "n \<le> n' \<Longrightarrow> (\<And>m e r p. below (st m e r p) (st' m e r p)) \<Longrightarrow> below (for_stmt st n m p) (for_stmt st' n' m p)"
  unfolding for_stmt_def by (rule fuel | assumption)+

lemma vals_loop_below [fuel]: "n \<le> n' \<Longrightarrow> below (vals_loop n p) (vals_loop n' p)"
proof (induction n arbitrary: n' p)
  case (Suc n)
  then show ?case by (elim more_fuel) (simp only: vals_loop.simps, (rule fuel Suc.IH | assumption)+)
qed simp

lemma vals_or_default_below [fuel]: "n \<le> n' \<Longrightarrow> below (vals_or_default n p) (vals_or_default n' p)"
  unfolding vals_or_default_def by (rule fuel | assumption)+

lemma case_item_below [fuel]: "n \<le> n' \<Longrightarrow> (\<And>m e r p. below (st m e r p) (st' m e r p)) \<Longrightarrow> below (case_item st n p) (case_item st' n' p)"
  unfolding case_item_def by (rule fuel | assumption)+

lemma case_loop_below [fuel]: "n \<le> n' \<Longrightarrow> (\<And>m e r p. below (st m e r p) (st' m e r p)) \<Longrightarrow> below (case_loop st n p) (case_loop st' n' p)"
proof (induction n arbitrary: n' p)
  case (Suc n)
  then show ?case by (elim more_fuel) (simp only: case_loop.simps, (rule fuel Suc.IH Suc.prems(2) | assumption)+)
qed simp

lemma case_stmt_below [fuel]: "n \<le> n' \<Longrightarrow> (\<And>m e r p. below (st m e r p) (st' m e r p)) \<Longrightarrow> below (case_stmt st n m p) (case_stmt st' n' m p)"
  unfolding case_stmt_def by (rule fuel | assumption)+

lemma block_loop_below [fuel]: "n \<le> n' \<Longrightarrow> (\<And>m e r p. below (st m e r p) (st' m e r p)) \<Longrightarrow> below (block_loop st n p) (block_loop st' n' p)"
proof (induction n arbitrary: n' p)
  case (Suc n)
  then show ?case by (elim more_fuel) (simp only: block_loop.simps, (rule fuel Suc.IH Suc.prems(2) | assumption)+)
qed simp

lemma block_stmt_below [fuel]: "n \<le> n' \<Longrightarrow> (\<And>m e r p. below (st m e r p) (st' m e r p)) \<Longrightarrow> below (block_stmt st n m p) (block_stmt st' n' m p)"
  unfolding block_stmt_def by (rule fuel | assumption)+

lemma stmt_below [fuel]: "n \<le> n' \<Longrightarrow> below (stmt n m e r p) (stmt n' m e r p)"
proof (induction n arbitrary: n' m e r p)
  case (Suc n)
  then show ?case by (elim more_fuel) (simp only: stmt.simps Let_def, (rule fuel Suc.IH | assumption)+)
qed simp

section \<open>Modules and files\<close>

lemma net_dec_list_below [fuel]: "n \<le> n' \<Longrightarrow> below (net_dec_list n p) (net_dec_list n' p)"
  unfolding net_dec_list_def by (rule fuel | assumption)+

lemma port_decl_below [fuel]: "n \<le> n' \<Longrightarrow> below (port_decl b n m p) (port_decl b n' m p)"
  unfolding port_decl_def by (rule fuel | assumption)+

lemma ports_loop_below [fuel]: "n \<le> n' \<Longrightarrow> below (ports_loop n p) (ports_loop n' p)"
proof (induction n arbitrary: n' p)
  case (Suc n)
  then show ?case by (elim more_fuel) (simp only: ports_loop.simps, (rule fuel Suc.IH | assumption)+)
qed simp

lemma module_ports_below [fuel]: "n \<le> n' \<Longrightarrow> below (module_ports n p) (module_ports n' p)"
  unfolding module_ports_def by (rule fuel | assumption)+

lemma alias_parameter_decl_below [fuel]: "n \<le> n' \<Longrightarrow> below (alias_parameter_decl n m p) (alias_parameter_decl n' m p)"
  unfolding alias_parameter_decl_def by (rule fuel | assumption)+

lemma net_decl_below [fuel]: "n \<le> n' \<Longrightarrow> below (net_decl b n m p) (net_decl b n' m p)"
  unfolding net_decl_def by (rule fuel | assumption)+

lemma func_arg_below [fuel]: "n \<le> n' \<Longrightarrow> below (func_arg n m p) (func_arg n' m p)"
  unfolding func_arg_def by (rule fuel | assumption)+

lemma func_loop_below [fuel]: "n \<le> n' \<Longrightarrow> below (func_loop n p) (func_loop n' p)"
proof (induction n arbitrary: n' p)
  case (Suc n)
  then show ?case by (elim more_fuel) (simp only: func_loop.simps, (rule fuel Suc.IH | assumption)+)
qed simp

lemma func_decl_below [fuel]: "n \<le> n' \<Longrightarrow> below (func_decl n m p) (func_decl n' m p)"
  unfolding func_decl_def by (rule fuel | assumption)+

lemma branch_decl_below [fuel]: "n \<le> n' \<Longrightarrow> below (branch_decl n m p) (branch_decl n' m p)"
  unfolding branch_decl_def by (rule fuel | assumption)+

lemma skip_until_below [fuel]: "n \<le> n' \<Longrightarrow> below (skip_until n ts p) (skip_until n' ts p)"
proof (induction n arbitrary: n' ts p)
  case (Suc n)
  then show ?case by (elim more_fuel) (simp only: skip_until.simps, (rule fuel Suc.IH | assumption)+)
qed simp

lemma skip_item_below [fuel]: "n \<le> n' \<Longrightarrow> below (skip_item n ks ts er m p) (skip_item n' ks ts er m p)"
  unfolding skip_item_def by (rule fuel | assumption)+

lemma module_item_below [fuel]: "n \<le> n' \<Longrightarrow> below (module_item n er m p) (module_item n' er m p)"
  unfolding module_item_def Let_def by (rule fuel | assumption)+

lemma module_items_loop_below [fuel]: "n \<le> n' \<Longrightarrow> below (module_items_loop n er p) (module_items_loop n' er p)"
proof (induction n arbitrary: n' er p)
  case (Suc n)
  then show ?case by (elim more_fuel) (simp only: module_items_loop.simps, (rule fuel Suc.IH | assumption)+)
qed simp

lemma module_items_below [fuel]: "n \<le> n' \<Longrightarrow> below (module_items n p) (module_items n' p)"
  unfolding module_items_def by (rule fuel | assumption)+

lemma grammar_module_below [fuel]: "n \<le> n' \<Longrightarrow> below (grammar_module n m p) (grammar_module n' m p)"
  unfolding grammar_module_def by (rule fuel | assumption)+

lemma file_item_below [fuel]: "n \<le> n' \<Longrightarrow> below (file_item n er m p) (file_item n' er m p)"
  unfolding file_item_def Let_def by (rule fuel | assumption)+

lemma file_loop_below [fuel]: "n \<le> n' \<Longrightarrow> below (file_loop n er p) (file_loop n' er p)"
proof (induction n arbitrary: n' er p)
  case (Suc n)
  then show ?case by (elim more_fuel) (simp only: file_loop.simps, (rule fuel Suc.IH | assumption)+)
qed simp

lemma source_file_below [fuel]: "n \<le> n' \<Longrightarrow> below (source_file n p) (source_file n' p)"
  unfolding source_file_def by (rule fuel | assumption)+

section \<open>The parser\<close>

text \<open>The bound on the recursion depth is no part of what the parser computes: if parsing returns an output
with some fuel it returns the same output with any larger one, and so two runs that return agree, whatever
fuel each was given.\<close>
theorem parse_fuel_irrelevant:
  "(parser_parse n toks = Some out \<longrightarrow> n \<le> n' \<longrightarrow> parser_parse n' toks = Some out) \<and>
   (parser_parse n toks = Some out \<longrightarrow> parser_parse k toks = Some out' \<longrightarrow> out = out')"
proof -
  have more: "parser_parse k toks = Some out" if "parser_parse n toks = Some out" "n \<le> k" for n k out
  proof -
    have "below (parser_parse n toks) (parser_parse k toks)"
      unfolding parser_parse_def using that(2) by - (rule fuel | assumption)+
    with that(1) show ?thesis by (simp add: below_def)
  qed
  have "out = out'" if "parser_parse n toks = Some out" "parser_parse k toks = Some out'"
    using more [OF that(1), of "max n k"] more [OF that(2), of "max n k"] by simp
  with more show ?thesis by blast
qed

text \<open>An empty file needs two units.\<close>

theorem parse_fuel_irrelevant_witness:
  "\<exists>out. parser_parse 2 [] = Some out \<and> parser_parse 100 [] = Some out"
proof -
  have "parser_parse 2 [] \<noteq> None" by code_simp
  then obtain out where out: "parser_parse 2 [] = Some out" by blast
  moreover have "parser_parse 100 [] = Some out" using parse_fuel_irrelevant [of 2 "[]" out 100 2 out] out by simp
  ultimately show ?thesis by blast
qed

end
