(* ===== verification/Parser_Trees.thy ===== *)
theory Parser_Trees
  imports Parser_Core
begin

text \<open>
  What the events of the parser mean: which event lists stand for a forest, across forward parents and
  abandoned markers, that processing them outputs the forest, and that the packed output reads back.
\<close>

section \<open>Trees\<close>

datatype syntax_tree =
    Node syntax_kind "syntax_tree list"
  | Leaf syntax_kind
  | ErrLeaf syntax_error

primrec tree_steps :: "syntax_tree \<Rightarrow> step list" where
  "tree_steps (Node k ts) = StepEnter k # concat (map tree_steps ts) @ [StepExit]"
| "tree_steps (Leaf k) = [StepToken k]"
| "tree_steps (ErrLeaf e) = [StepError e]"

primrec tree_tokens :: "syntax_tree \<Rightarrow> syntax_kind list" where
  "tree_tokens (Node k ts) = concat (map tree_tokens ts)"
| "tree_tokens (Leaf k) = [k]"
| "tree_tokens (ErrLeaf e) = []"

abbreviation "forest_steps ts \<equiv> concat (map tree_steps ts)"
abbreviation "forest_tokens ts \<equiv> concat (map tree_tokens ts)"

text \<open>The kinds of a tree fit the output.\<close>

primrec tree_kinds_ok :: "syntax_tree \<Rightarrow> bool" where
  "tree_kinds_ok (Node k ts) \<longleftrightarrow> k \<le> LAST_KIND \<and> list_all tree_kinds_ok ts"
| "tree_kinds_ok (Leaf k) \<longleftrightarrow> k \<le> LAST_KIND"
| "tree_kinds_ok (ErrLeaf e) \<longleftrightarrow> True"

text \<open>Errors stand in nodes of the kind ERROR only; \<open>inside\<close> says that there is one around.\<close>

primrec errors_framed :: "bool \<Rightarrow> syntax_tree \<Rightarrow> bool" where
  "errors_framed inside (Node k ts) \<longleftrightarrow> list_all (errors_framed (inside \<or> k = ERROR)) ts"
| "errors_framed inside (Leaf k) \<longleftrightarrow> True"
| "errors_framed inside (ErrLeaf e) \<longleftrightarrow> inside"

section \<open>Events of a forest\<close>

text \<open>
  \<open>completed es s t\<close>: the events \<open>es\<close> are one finished node \<open>t\<close> whose start can still be given a forward
  parent, at the position \<open>s\<close>. The second rule is \<open>precede\<close> and a later \<open>complete\<close>.
\<close>

inductive completed :: "event list \<Rightarrow> nat \<Rightarrow> syntax_tree \<Rightarrow> bool"
  and closed :: "event list \<Rightarrow> syntax_tree list \<Rightarrow> bool" where
  completed_node: "closed es ts \<Longrightarrow> k \<noteq> TOMBSTONE \<Longrightarrow> k \<le> LAST_KIND \<Longrightarrow>
    completed (EvStart k None # es @ [EvFinish]) 0 (Node k ts)"
| completed_preceded: "completed es s t \<Longrightarrow> es ! s = EvStart j None \<Longrightarrow> closed fs us \<Longrightarrow> k \<noteq> TOMBSTONE \<Longrightarrow> k \<le> LAST_KIND \<Longrightarrow>
    completed (es[s := EvStart j (Some (length es - s))] @ EvStart k None # fs @ [EvFinish]) (length es) (Node k (t # us))"
| closed_Nil: "closed [] []"
| closed_token: "closed [EvToken k] [Leaf k]"
| closed_error: "closed es ts \<Longrightarrow> closed (EvStart ERROR None # EvError e # es @ [EvFinish]) [Node ERROR (ErrLeaf e # ts)]"
| closed_tombstone: "closed [Event_tombstone] []"
| closed_completed: "completed es s t \<Longrightarrow> closed es [t]"
| closed_append: "closed es ts \<Longrightarrow> closed fs us \<Longrightarrow> closed (es @ fs) (ts @ us)"

lemma completed_start: "completed es s t \<Longrightarrow> s < length es \<and> (\<exists>k. es ! s = EvStart k None)"
  by (induction rule: completed.cases) (auto simp: nth_append)

section \<open>Processing\<close>

primrec emit_step :: "step \<Rightarrow> parse_output \<Rightarrow> parse_output" where
  "emit_step (StepToken k) res = Output_token k res"
| "emit_step (StepEnter k) res = Output_enter_node k res"
| "emit_step StepExit res = Output_leave_node res"
| "emit_step (StepError e) res = Output_add_error e res"

definition emit :: "step list \<Rightarrow> parse_output \<Rightarrow> parse_output" where
  "emit ss res = fold emit_step ss res"

lemma emit_simps [simp]:
  "emit [] res = res" "emit (s # ss) res = emit ss (emit_step s res)" "emit (ss @ ss') res = emit ss' (emit ss res)"
  by (simp_all add: emit_def)

lemma enter_nodes_emit: "TOMBSTONE \<notin> set ks \<Longrightarrow> enter_nodes ks res = emit (map StepEnter ks) res"
  by (induction ks arbitrary: res) auto

lemma forward_None [simp]: "forward_loop E i None ks = Some (E, ks)"
  by (subst forward_loop.simps) simp

lemma forward_Some:
  assumes "i + d < length E" "E ! (i + d) = EvStart k fp"
  shows "forward_loop E i (Some d) ks = forward_loop (E[i + d := Event_tombstone]) (i + d) fp (ks @ [k])"
  using assms by (subst forward_loop.simps) (simp add: Let_def)

text \<open>
  A forest is processed to its steps, whatever is around it: the positions before it were passed and are
  not looked at again.
\<close>

definition processed :: "event list \<Rightarrow> step list \<Rightarrow> bool" where
  "processed es ss \<longleftrightarrow> (\<forall>pre post is res. \<exists>pre'. length pre' = length pre + length es \<and>
     process_loop ([length pre..<length pre + length es] @ is) (pre @ es @ post) res = process_loop is (pre' @ post) (emit ss res))"

lemma processed_append:
  assumes "processed es ss" "processed fs ss'"
  shows "processed (es @ fs) (ss @ ss')"
  unfolding processed_def
proof (intro allI)
  fix pre post :: "event list" and js res
  let ?js = "[length pre + length es..<length pre + length es + length fs] @ js"
  from assms(1) obtain pre1 where "length pre1 = length pre + length es"
    "process_loop ([length pre..<length pre + length es] @ ?js) (pre @ es @ fs @ post) res = process_loop ?js (pre1 @ fs @ post) (emit ss res)"
    unfolding processed_def by meson
  then have p1: "length pre1 = length pre + length es"
    "process_loop ([length pre..<length pre + length es] @ [length pre1..<length pre1 + length fs] @ js) (pre @ es @ fs @ post) res =
     process_loop ([length pre1..<length pre1 + length fs] @ js) (pre1 @ fs @ post) (emit ss res)" by simp_all
  from assms(2) obtain pre2 where p2: "length pre2 = length pre1 + length fs"
    "process_loop ([length pre1..<length pre1 + length fs] @ js) (pre1 @ fs @ post) (emit ss res) =
     process_loop js (pre2 @ post) (emit ss' (emit ss res))" unfolding processed_def by meson
  have "[length pre..<length pre + length (es @ fs)] = [length pre..<length pre + length es] @ [length pre1..<length pre1 + length fs]"
    unfolding p1(1) using upt_add_eq_append [of "length pre" "length pre + length es" "length fs"] by (simp add: add.assoc)
  note eq = this
  show "\<exists>pre'. length pre' = length pre + length (es @ fs) \<and>
      process_loop ([length pre..<length pre + length (es @ fs)] @ js) (pre @ (es @ fs) @ post) res =
      process_loop js (pre' @ post) (emit (ss @ ss') res)"
  proof (intro exI [of _ pre2] conjI)
    show "length pre2 = length pre + length (es @ fs)" using p1(1) p2(1) by simp
    show "process_loop ([length pre..<length pre + length (es @ fs)] @ js) (pre @ (es @ fs) @ post) res =
        process_loop js (pre2 @ post) (emit (ss @ ss') res)"
      unfolding eq append_assoc emit_simps p1(2) by (rule p2(2))
  qed
qed

lemma processed_single:
  assumes "\<And>pre post is res. process_loop (length pre # is) (pre @ e # post) res =
    process_loop is (pre @ Event_tombstone # post) (emit ss res)"
  shows "processed [e] ss"
  unfolding processed_def using assms by (intro allI exI [of _ "_ @ [Event_tombstone]"]) simp

lemma processed_Nil: "processed [] []"
  by (auto simp: processed_def)

text \<open>
  The chain of forward parents of a completed node: following it from the first event collects the kinds
  \<open>cks\<close> and clears the chain, and then the rest of the events yields the rest of the steps.
\<close>

definition chain_processed :: "event list \<Rightarrow> nat \<Rightarrow> syntax_tree \<Rightarrow> bool" where
  "chain_processed es s t \<longleftrightarrow> (\<exists>ces cks tl.
     length ces = length es \<and> cks \<noteq> [] \<and> TOMBSTONE \<notin> set cks \<and> tree_steps t = map StepEnter (rev cks) @ tl \<and> es \<noteq> [] \<and>
     (\<forall>pre post fp. \<exists>f0. es[s := (case es ! s of EvStart j _ \<Rightarrow> EvStart j fp | e \<Rightarrow> e)] ! 0 = EvStart (hd cks) f0 \<and>
        forward_loop (pre @ (es[s := (case es ! s of EvStart j _ \<Rightarrow> EvStart j fp | e \<Rightarrow> e)])[0 := Event_tombstone] @ post)
          (length pre) f0 [hd cks] =
        forward_loop (pre @ ces @ post) (length pre + s) fp cks) \<and>
     processed ces (tl :: step list) \<and> ces ! 0 = Event_tombstone)"

lemma tombstone_step: "process_loop (length pre # is) (pre @ Event_tombstone # post) res = process_loop is (pre @ Event_tombstone # post) res"
  by (simp add: Event_tombstone_def list_update_append)

lemma completed_processed:
  "completed es s t \<Longrightarrow> chain_processed es s t" and closed_processed: "closed es ts \<Longrightarrow> processed es (forest_steps ts)"
proof (induction rule: completed_closed.inducts)
  case (completed_node es ts k)
  have "processed [Event_tombstone] []" by (rule processed_single) (simp add: tombstone_step del: process_loop.simps)
  moreover have "processed [EvFinish] [StepExit]" by (rule processed_single) (simp add: list_update_append)
  ultimately have "processed ([Event_tombstone] @ es @ [EvFinish]) ([] @ forest_steps ts @ [StepExit])"
    using completed_node.IH by (intro processed_append)
  with completed_node(2) show ?case unfolding chain_processed_def
    by (intro exI [of _ "Event_tombstone # es @ [EvFinish]"] exI [of _ "[k]"] exI [of _ "forest_steps ts @ [StepExit]"])
      (simp add: list_update_append)
next
  case (completed_preceded es s t j fs us k)
  from completed_start [OF completed_preceded(1)] have s: "s < length es" by simp
  from completed_preceded.IH(1) obtain ces cks tl where C: "length ces = length es" "cks \<noteq> []" "TOMBSTONE \<notin> set cks"
    "tree_steps t = map StepEnter (rev cks) @ tl" "es \<noteq> []"
    "\<forall>pre post fp. \<exists>f0. es[s := EvStart j fp] ! 0 = EvStart (hd cks) f0 \<and>
        forward_loop (pre @ (es[s := EvStart j fp])[0 := Event_tombstone] @ post) (length pre) f0 [hd cks] =
        forward_loop (pre @ ces @ post) (length pre + s) fp cks"
    "processed ces tl" "ces ! 0 = Event_tombstone"
    unfolding chain_processed_def completed_preceded(2) by auto
  let ?es = "es[s := EvStart j (Some (length es - s))] @ EvStart k None # fs @ [EvFinish]"
  let ?ces = "ces @ Event_tombstone # fs @ [EvFinish]" and ?tl = "tl @ forest_steps us @ [StepExit]"
  have "processed [Event_tombstone] []" by (rule processed_single) (simp add: tombstone_step del: process_loop.simps)
  moreover have "processed [EvFinish] [StepExit]" by (rule processed_single) (simp add: list_update_append)
  ultimately have P: "processed (ces @ [Event_tombstone] @ fs @ [EvFinish]) (tl @ [] @ forest_steps us @ [StepExit])"
    using completed_preceded.IH(2) C(7) by (intro processed_append)
  have F: "\<exists>f0. ?es[length es := (case ?es ! length es of EvStart j _ \<Rightarrow> EvStart j fp | e \<Rightarrow> e)] ! 0 = EvStart (hd (cks @ [k])) f0 \<and>
      forward_loop (pre @ (?es[length es := (case ?es ! length es of EvStart j _ \<Rightarrow> EvStart j fp | e \<Rightarrow> e)])[0 := Event_tombstone] @ post)
        (length pre) f0 [hd (cks @ [k])] = forward_loop (pre @ ?ces @ post) (length pre + length es) fp (cks @ [k])" for pre post fp
  proof -
    have at: "?es ! length es = EvStart k None" by (simp add: nth_append)
    have upd: "?es[length es := EvStart k fp] = es[s := EvStart j (Some (length es - s))] @ EvStart k fp # fs @ [EvFinish]"
      by (simp add: list_update_append)
    obtain f0 where f0: "es[s := EvStart j (Some (length es - s))] ! 0 = EvStart (hd cks) f0"
      "forward_loop (pre @ (es[s := EvStart j (Some (length es - s))])[0 := Event_tombstone] @ EvStart k fp # fs @ [EvFinish] @ post)
         (length pre) f0 [hd cks] =
       forward_loop (pre @ ces @ EvStart k fp # fs @ [EvFinish] @ post) (length pre + s) (Some (length es - s)) cks"
      using C(6) by blast
    let ?E = "pre @ ces @ EvStart k fp # fs @ [EvFinish] @ post"
    have "length pre + s + (length es - s) = length pre + length es" using s by simp
    moreover have "?E ! (length pre + length es) = EvStart k fp" "?E[length pre + length es := Event_tombstone] = pre @ ?ces @ post"
      using C(1) by (simp_all add: nth_append list_update_append)
    ultimately have "forward_loop ?E (length pre + s) (Some (length es - s)) cks = forward_loop (pre @ ?ces @ post) (length pre + length es) fp (cks @ [k])"
      using forward_Some [of "length pre + s" "length es - s" ?E k fp cks] C(1) by simp
    with f0 C(2,5) show ?thesis unfolding at event.case upd
      by (intro exI [of _ f0]) (simp add: list_update_append nth_append)
  qed
  show ?case unfolding chain_processed_def
    by (rule exI [of _ ?ces], rule exI [of _ "cks @ [k]"], rule exI [of _ ?tl])
      (use C P F completed_preceded(4) in \<open>auto simp: nth_append\<close>)
next
  case (closed_completed es s t)
  from completed_start [OF closed_completed(1)] obtain j where s: "s < length es" "es ! s = EvStart j None" by blast
  from closed_completed.IH obtain ces cks tl where C: "length ces = length es" "cks \<noteq> []" "TOMBSTONE \<notin> set cks"
    "tree_steps t = map StepEnter (rev cks) @ tl" "es \<noteq> []"
    "\<forall>pre post fp. \<exists>f0. es[s := EvStart j fp] ! 0 = EvStart (hd cks) f0 \<and>
        forward_loop (pre @ (es[s := EvStart j fp])[0 := Event_tombstone] @ post) (length pre) f0 [hd cks] =
        forward_loop (pre @ ces @ post) (length pre + s) fp cks"
    "processed ces tl" "ces ! 0 = Event_tombstone"
    unfolding chain_processed_def s(2) by auto
  show ?case unfolding processed_def
  proof (intro allI)
    fix pre post :: "event list" and js res
    have same: "es[s := EvStart j None] = es" using s by (metis list_update_id)
    from C(6) obtain f0 where f0: "es ! 0 = EvStart (hd cks) f0"
      "forward_loop (pre @ es[0 := Event_tombstone] @ post) (length pre) f0 [hd cks] = Some (pre @ ces @ post, cks)"
      using C(6) [rule_format, where pre = pre and post = post and fp = None] same by auto
    have split: "[length pre..<length pre + length es] = length pre # [length pre + 1..<length pre + length es]"
      using C(5) by (simp add: upt_conv_Cons)
    have upd: "(pre @ es @ post)[length pre := Event_tombstone] = pre @ es[0 := Event_tombstone] @ post"
      using C(5) by (simp add: list_update_append)
    have first: "(pre @ es @ post) ! length pre = es ! 0" using C(5) by (simp add: nth_append)
    have "process_loop ([length pre..<length pre + length es] @ js) (pre @ es @ post) res =
        process_loop ([length pre + 1..<length pre + length es] @ js) (pre @ ces @ post) (emit (map StepEnter (rev cks)) res)"
      using C(3,5) f0 unfolding split by (simp add: first upd enter_nodes_emit)
    also have "\<dots> = process_loop ([length pre..<length pre + length ces] @ js) (pre @ ces @ post) (emit (map StepEnter (rev cks)) res)"
    proof -
      from C(1,5,8) obtain ds where ds: "ces = Event_tombstone # ds" by (cases ces) auto
      then show ?thesis unfolding split [folded C(1)] using tombstone_step [of pre] C(1) by simp
    qed
    finally have eq: "process_loop ([length pre..<length pre + length es] @ js) (pre @ es @ post) res = \<dots>" .
    from C(7) obtain pre' where "length pre' = length pre + length ces"
      "process_loop ([length pre..<length pre + length ces] @ js) (pre @ ces @ post) (emit (map StepEnter (rev cks)) res) =
       process_loop js (pre' @ post) (emit tl (emit (map StepEnter (rev cks)) res))"
      unfolding processed_def by meson
    then show "\<exists>pre'. length pre' = length pre + length es \<and>
        process_loop ([length pre..<length pre + length es] @ js) (pre @ es @ post) res = process_loop js (pre' @ post) (emit (forest_steps [t]) res)"
      using eq C(1,4) by (intro exI [of _ pre']) simp
  qed
next
  case closed_Nil
  then show ?case by (simp add: processed_Nil)
next
  case (closed_token k)
  show ?case by (simp, rule processed_single) (simp add: list_update_append)
next
  case (closed_error es ts e)
  have "processed [EvStart ERROR None] [StepEnter ERROR]" "processed [EvError e] [StepError e]" "processed [EvFinish] [StepExit]"
    by (rule processed_single; simp add: list_update_append)+
  then have "processed ([EvStart ERROR None] @ [EvError e] @ es @ [EvFinish]) ([StepEnter ERROR] @ [StepError e] @ forest_steps ts @ [StepExit])"
    using closed_error.IH by (intro processed_append)
  then show ?case by simp
next
  case closed_tombstone
  show ?case by (simp, rule processed_single) (simp add: tombstone_step del: process_loop.simps)
next
  case (closed_append es ts fs us)
  then show ?case by (simp add: processed_append)
qed

lemma closed_framed:
  "completed es s t \<Longrightarrow> (\<forall>f. errors_framed f t)"
  "closed es ts \<Longrightarrow> (\<forall>f. list_all (errors_framed f) ts)"
  by (induction rule: completed_closed.inducts) auto

lemma event_process_closed:
  assumes "closed es ts"
  shows "event_process es = Some (emit (forest_steps ts) Output_default)"
proof -
  from closed_processed [OF assms] obtain pre' where
    "process_loop ([length ([] :: event list)..<length ([] :: event list) + length es] @ []) ([] @ es @ []) Output_default =
       process_loop [] (pre' @ []) (emit (forest_steps ts) Output_default)"
    unfolding processed_def by meson
  then show ?thesis by (simp add: event_process_def)
qed

section \<open>Reading the packed output back\<close>

lemma output_masks: "(0xF0 :: 32 word) = push_bit 4 (mask 4)" "(0xFFFF0000 :: 32 word) = push_bit 16 (mask 16)"
  by code_simp+

lemma packed_bits:
  fixes w :: "32 word"
  assumes t: "\<forall>n \<ge> 4. \<not> bit t n"
  shows "(push_bit 16 w OR push_bit 4 t OR 1) AND 1 = 1"
    and "drop_bit 4 ((push_bit 16 w OR push_bit 4 t OR 1) AND 0xF0) = t"
    and "drop_bit 16 ((push_bit 16 w OR push_bit 4 t OR 1) AND 0xFFFF0000) = take_bit 16 w"
proof -
  have t': "n < 4" if "bit t n" for n using t that by (meson not_le)
  show "(push_bit 16 w OR push_bit 4 t OR 1) AND 1 = 1"
    by (rule bit_word_eqI) (auto simp: bit_simps)
  show "drop_bit 4 ((push_bit 16 w OR push_bit 4 t OR 1) AND 0xF0) = t"
    unfolding output_masks by (rule bit_word_eqI) (auto simp: bit_simps dest: t')
  show "drop_bit 16 ((push_bit 16 w OR push_bit 4 t OR 1) AND 0xFFFF0000) = take_bit 16 w"
    unfolding output_masks by (rule bit_word_eqI) (auto simp: bit_simps dest: t')
qed

lemma small_tags: "\<forall>n \<ge> 4. \<not> bit (0 :: 32 word) n" "\<forall>n \<ge> 4. \<not> bit (1 :: 32 word) n" "\<forall>n \<ge> 4. \<not> bit (2 :: 32 word) n"
  by (simp_all add: bit_1_iff bit_2_iff)

lemma unat_kind: "k \<le> LAST_KIND \<Longrightarrow> unat (take_bit 16 (word_of_nat k :: 32 word)) = k"
  unfolding unsigned_take_bit_eq unsigned_of_nat by (simp add: take_bit_nat_eq_self)

lemma Output_step_kinds:
  assumes "k \<le> LAST_KIND"
  shows "Output_step errs (push_bit 16 (word_of_nat k) OR 1) = Some (StepToken k)"
    and "Output_step errs (push_bit 16 (word_of_nat k) OR push_bit 4 1 OR 1) = Some (StepEnter k)"
    and "Output_step errs (push_bit 4 2 OR 1) = Some StepExit"
proof -
  let ?w = "word_of_nat k :: 32 word"
  have tag: "Output_step errs (push_bit 16 w OR push_bit 4 t OR 1) =
      (if t = 0 then map_option StepToken (SyntaxKind_from (unat (take_bit 16 w)))
       else if t = 1 then map_option StepEnter (SyntaxKind_from (unat (take_bit 16 w)))
       else if t = 2 then Some StepExit else None)" if "\<forall>n \<ge> 4. \<not> bit t n" for w t :: "32 word"
    unfolding Output_step_def Let_def packed_bits [OF that] by (simp only: one_neq_zero if_False)
  have "Output_step errs (push_bit 16 ?w OR push_bit 4 0 OR 1) = Some (StepToken k)"
    unfolding tag [OF small_tags(1)] unat_kind [OF assms] using assms by (simp add: SyntaxKind_from_def)
  then show "Output_step errs (push_bit 16 ?w OR 1) = Some (StepToken k)" unfolding push_bit_of_0 or.left_neutral .
  show "Output_step errs (push_bit 16 ?w OR push_bit 4 1 OR 1) = Some (StepEnter k)"
    unfolding tag [OF small_tags(2)] unat_kind [OF assms] using assms by (simp add: SyntaxKind_from_def)
  have "Output_step errs (push_bit 16 0 OR push_bit 4 2 OR 1) = Some StepExit" unfolding tag [OF small_tags(3)] by simp
  then show "Output_step errs (push_bit 4 2 OR 1) = Some StepExit" unfolding push_bit_of_0 or.left_neutral .
qed

lemma Output_step_error:
  assumes "i < length errs" "i < 2 ^ 31"
  shows "Output_step errs (push_bit 1 (word_of_nat i)) = Some (StepError (errs ! i))"
proof -
  let ?w = "word_of_nat i :: 32 word"
  have i: "unat ?w = i" using assms(2) by (simp add: unat_of_nat)
  have w: "\<not> bit ?w n" if "31 \<le> n" for n
  proof -
    have "take_bit 31 i = i" using assms(2) by (rule take_bit_nat_eq_self)
    then have "\<not> bit i n" using that by (metis bit_take_bit_iff not_le)
    then have "\<not> bit (unat ?w) n" by (simp only: i not_False_eq_True)
    then show ?thesis unfolding bit_unsigned_iff by (simp add: possible_bit_def)
  qed
  have "push_bit 1 ?w AND 1 = 0" by (rule bit_word_eqI) (unfold bit_and_iff bit_push_bit_iff bit_1_iff, simp)
  moreover have "drop_bit 1 (push_bit 1 ?w) = ?w"
    by (rule bit_word_eqI) (unfold bit_drop_bit_eq o_def bit_push_bit_iff, use w in \<open>auto simp: possible_bit_word intro: leI ccontr\<close>)
  ultimately show ?thesis using assms(1) i by (simp only: Output_step_def) simp
qed

text \<open>Reading the output while it grows.\<close>

definition reads :: "parse_output \<Rightarrow> step list \<Rightarrow> bool" where
  "reads out ss \<longleftrightarrow> (\<forall>more. collect_steps (out_error out @ more) (out_event out) = Some ss)"

primrec step_kind_ok :: "step \<Rightarrow> bool" where
  "step_kind_ok (StepToken k) \<longleftrightarrow> k \<le> LAST_KIND"
| "step_kind_ok (StepEnter k) \<longleftrightarrow> k \<le> LAST_KIND"
| "step_kind_ok StepExit \<longleftrightarrow> True"
| "step_kind_ok (StepError e) \<longleftrightarrow> True"

lemma collect_steps_append:
  "collect_steps errs es = Some ss \<Longrightarrow> collect_steps errs (es @ fs) = map_option ((@) ss) (collect_steps errs fs)"
  by (cases "collect_steps errs fs"; induction es arbitrary: ss) (auto simp: bind_eq_Some_conv)

lemma reads_emit_step:
  assumes "reads out ss" "step_kind_ok s" "length (out_error (emit_step s out)) \<le> 2 ^ 31"
  shows "reads (emit_step s out) (ss @ [s])"
proof (cases s)
  case (StepError e)
  have "collect_steps (out_error out @ e # more) (out_event out) = Some ss" for more using assms(1) by (simp add: reads_def)
  moreover have "Output_step (out_error out @ e # more) (push_bit 1 (word_of_nat (length (out_error out)))) = Some (StepError e)" for more
    using Output_step_error [of "length (out_error out)" "out_error out @ e # more"] assms(3) unfolding StepError
    by (simp add: Output_add_error_def Let_def)
  ultimately show ?thesis unfolding StepError
    by (simp add: reads_def Output_add_error_def Let_def collect_steps_append)
next
  case (StepToken k)
  then show ?thesis using assms Output_step_kinds(1) [of k] by (simp add: reads_def collect_steps_append Output_token_def)
next
  case (StepEnter k)
  then show ?thesis using assms Output_step_kinds(2) [of k] by (simp add: reads_def collect_steps_append Output_enter_node_def)
next
  case StepExit
  then show ?thesis using assms Output_step_kinds(3) [of 0] by (simp add: reads_def collect_steps_append Output_leave_node_def)
qed

lemma emit_errors_mono: "length (out_error out) \<le> length (out_error (emit ss out))"
proof (induction ss arbitrary: out)
  case (Cons s ss)
  have "length (out_error out) \<le> length (out_error (emit_step s out))"
    by (cases s) (simp_all add: Output_token_def Output_enter_node_def Output_leave_node_def Output_add_error_def Let_def)
  with Cons show ?case by (simp add: le_trans)
qed simp

lemma reads_emit:
  "reads out ss \<Longrightarrow> list_all step_kind_ok ss' \<Longrightarrow> length (out_error (emit ss' out)) \<le> 2 ^ 31 \<Longrightarrow> reads (emit ss' out) (ss @ ss')"
proof (induction ss' arbitrary: out ss)
  case (Cons s ss')
  have "length (out_error (emit_step s out)) \<le> 2 ^ 31"
    using Cons.prems(3) emit_errors_mono [of "emit_step s out" ss'] by simp
  with Cons.prems reads_emit_step [of out ss s] have "reads (emit_step s out) (ss @ [s])" by simp
  from Cons.IH [OF this] Cons.prems(2,3) show ?case by simp
qed simp

lemma Output_iter_emit:
  assumes "list_all step_kind_ok ss" "length (out_error (emit ss Output_default)) \<le> 2 ^ 31"
  shows "Output_iter (emit ss Output_default) = Some ss"
proof -
  have "reads Output_default []" by (simp add: reads_def Output_default_def)
  from reads_emit [OF this assms] have "collect_steps (out_error (emit ss Output_default) @ []) (out_event (emit ss Output_default)) = Some ss"
    unfolding reads_def by (metis append_Nil)
  then show ?thesis by (simp add: Output_iter_def)
qed

lemma tree_step_kinds: "tree_kinds_ok t \<Longrightarrow> list_all step_kind_ok (tree_steps t)"
  by (induction t) (auto simp: list_all_iff)

end
