(* ===== verification/Parser_Tracking.thy ===== *)
theory Parser_Tracking
  imports Parser_Grammar Parser_Trees
begin

text \<open>
  What every function of the grammar does to the events and the tokens: it appends the events of a
  forest whose leaves are the tokens it has passed. The relation \<open>tracks p c q\<close> says so of the states
  \<open>p\<close> and \<open>q\<close> for a context \<open>c\<close>, which tells what the events since \<open>p\<close> still lack.
\<close>

section \<open>The relation\<close>

definition moved :: "parser \<Rightarrow> parser \<Rightarrow> syntax_tree list \<Rightarrow> bool" where
  "moved p q ts \<longleftrightarrow> tokens q = tokens p \<and> pos p \<le> pos q \<and> (pos q = pos p \<or> pos q \<le> length (tokens p)) \<and>
     forest_tokens ts = take (pos q - pos p) (drop (pos p) (tokens p))"

text \<open>
  The contexts: nothing is open; a started marker; a marker that precedes the node completed just
  before; a completed node that can be preceded; a node whose completion can be undone.
\<close>

datatype parse_context = Plain | Fresh marker | Preceded marker | Done completed_marker | Range completed_marker

primrec shape :: "parse_context \<Rightarrow> nat \<Rightarrow> event list \<Rightarrow> syntax_tree list \<Rightarrow> bool" where
  "shape Plain n es ts \<longleftrightarrow> closed es ts"
| "shape (Fresh m) n es ts \<longleftrightarrow> m = n \<and> (\<exists>fs. es = Event_tombstone # fs \<and> closed fs ts)"
| "shape (Preceded m) n es ts \<longleftrightarrow> (\<exists>pre vs es0 s j t fs us. closed pre vs \<and> completed es0 s t \<and> es0 ! s = EvStart j None \<and>
     es = pre @ es0[s := EvStart j (Some (length es0 - s))] @ Event_tombstone # fs \<and> closed fs us \<and>
     m = n + length pre + length es0 \<and> ts = vs @ t # us)"
| "shape (Done c) n es ts \<longleftrightarrow> (\<exists>pre vs es0 s t. closed pre vs \<and> completed es0 s t \<and> es = pre @ es0 \<and> ts = vs @ [t] \<and>
     start_pos c = n + length pre + s)"
| "shape (Range c) n es ts \<longleftrightarrow> (\<exists>pre vs k body us rest ws. closed pre vs \<and> closed body us \<and> closed rest ws \<and>
     k \<noteq> TOMBSTONE \<and> k \<le> LAST_KIND \<and> es = pre @ EvStart k None # body @ EvFinish # rest \<and> ts = vs @ Node k us # ws \<and>
     start_pos c = n + length pre \<and> finish_pos c = n + length pre + 1 + length body)"

definition tracks :: "parser \<Rightarrow> parse_context \<Rightarrow> parser \<Rightarrow> bool" where
  "tracks p c q \<longleftrightarrow> (\<exists>es ts. moved p q ts \<and> events q = events p @ es \<and> shape c (length (events p)) es ts)"

definition grows :: "parse_context \<Rightarrow> bool" where
  "grows c \<longleftrightarrow> (\<forall>d. c \<noteq> Done d)"

lemma grows_simps [simp]: "grows Plain" "grows (Fresh m)" "grows (Preceded m)" "\<not> grows (Done d)" "grows (Range d)"
  by (auto simp: grows_def)

lemma moved_refl [simp]: "moved p p []"
  by (simp add: moved_def)

lemma moved_trans:
  assumes "moved p q ts" "moved q r us"
  shows "moved p r (ts @ us)"
proof -
  have "take (pos r - pos p) (drop (pos p) (tokens p)) =
      take (pos q - pos p) (drop (pos p) (tokens p)) @ take (pos r - pos q) (drop (pos q) (tokens p))"
    using assms take_add [of "pos q - pos p" "pos r - pos q" "drop (pos p) (tokens p)"] by (simp add: moved_def)
  with assms show ?thesis by (auto simp: moved_def)
qed

lemma moved_0: "tokens q = tokens p \<Longrightarrow> pos q = pos p \<Longrightarrow> moved p q []"
  by (simp add: moved_def)

lemma closed_Cons_token: "closed [EvToken k] [Leaf k]" "closed [Event_tombstone] []" "closed [] []"
  by (rule closed_token closed_tombstone closed_Nil)+

lemma shape_append:
  assumes "shape c n es ts" "closed fs us" "grows c"
  shows "shape c n (es @ fs) (ts @ us)"
proof (cases c)
  case Plain
  then show ?thesis using assms closed_append by simp
next
  case (Fresh m)
  then show ?thesis using assms closed_append by auto
next
  case (Preceded m)
  with assms(1) obtain pre vs es0 s j t gs us' where P: "closed pre vs" "completed es0 s t" "es0 ! s = EvStart j None"
    "es = pre @ es0[s := EvStart j (Some (length es0 - s))] @ Event_tombstone # gs" "closed gs us'"
    "m = n + length pre + length es0" "ts = vs @ t # us'" by auto
  from closed_append [OF P(5) assms(2)] have "closed (gs @ fs) (us' @ us)" .
  with P show ?thesis unfolding Preceded shape.simps
    by (intro exI [of _ pre] exI [of _ vs] exI [of _ es0] exI [of _ s] exI [of _ j] exI [of _ t] exI [of _ "gs @ fs"] exI [of _ "us' @ us"]) simp
next
  case (Range d)
  with assms(1) obtain pre vs k body us' rest ws where R: "closed pre vs" "closed body us'" "closed rest ws" "k \<noteq> TOMBSTONE" "k \<le> LAST_KIND"
    "es = pre @ EvStart k None # body @ EvFinish # rest" "ts = vs @ Node k us' # ws" "start_pos d = n + length pre"
    "finish_pos d = n + length pre + 1 + length body" by auto
  from closed_append [OF R(3) assms(2)] have "closed (rest @ fs) (ws @ us)" .
  with R show ?thesis unfolding Range shape.simps
    by (intro exI [of _ pre] exI [of _ vs] exI [of _ k] exI [of _ body] exI [of _ us'] exI [of _ "rest @ fs"] exI [of _ "ws @ us"]) simp
qed (use assms(3) in simp)

lemma tracks_step:
  assumes "tracks q Plain r" "tracks p c q" "grows c"
  shows "tracks p c r"
proof -
  from assms(1,2) obtain es ts fs us where "moved p q ts" "events q = events p @ es" "shape c (length (events p)) es ts"
    "moved q r us" "events r = events q @ fs" "closed fs us" by (auto simp: tracks_def)
  with moved_trans shape_append assms(3) show ?thesis unfolding tracks_def by (metis append_assoc)
qed

lemma tracks_refl [simp]: "tracks p Plain p"
  by (auto simp: tracks_def intro!: exI [of _ "[]"] closed_Nil)

lemma tracks_same: "tokens q = tokens p \<Longrightarrow> pos q = pos p \<Longrightarrow> events q = events p \<Longrightarrow> tracks p Plain q"
  by (auto simp: tracks_def moved_0 intro!: exI [of _ "[]"] closed_Nil)

lemma tracks_Done: "tracks p (Done c) q \<Longrightarrow> tracks p Plain q"
  by (auto simp: tracks_def intro: closed_completed closed_append)

text \<open>The node completed last stays the last one when more is counted in before it.\<close>

lemma tracks_before:
  assumes "tracks p Plain q" "tracks q (Done c) r"
  shows "tracks p (Done c) r"
proof -
  from assms obtain es ts pre vs es0 s t where T: "moved p q ts" "events q = events p @ es" "closed es ts" "moved q r (vs @ [t])"
    "events r = events q @ pre @ es0" "closed pre vs" "completed es0 s t" "start_pos c = length (events q) + length pre + s"
    by (auto simp: tracks_def)
  from closed_append [OF T(3,6)] have "closed (es @ pre) (ts @ vs)" .
  moreover have "moved p r ((ts @ vs) @ [t])" using moved_trans [OF T(1,4)] by simp
  moreover have "shape (Done c) (length (events p)) ((es @ pre) @ es0) ((ts @ vs) @ [t])" unfolding shape.simps
    using \<open>closed (es @ pre) (ts @ vs)\<close> T(2,7,8) by (intro exI [of _ "es @ pre"] exI [of _ "ts @ vs"] exI [of _ es0] exI [of _ s]) simp
  ultimately show ?thesis unfolding tracks_def using T(2,5) by (metis append_assoc)
qed

lemma tracks_Range:
  assumes "tracks p (Range c) q"
  shows "tracks p Plain q"
proof -
  from assms obtain pre vs k body us rest ws where R: "closed pre vs" "closed body us" "closed rest ws" "k \<noteq> TOMBSTONE" "k \<le> LAST_KIND"
    "moved p q (vs @ Node k us # ws)" "events q = events p @ pre @ EvStart k None # body @ EvFinish # rest"
    by (auto simp: tracks_def)
  have "closed (pre @ (EvStart k None # body @ [EvFinish]) @ rest) (vs @ [Node k us] @ ws)"
    using R(1-5) by (intro closed_append closed_completed [OF completed_node])
  with R(6,7) show ?thesis by (auto simp: tracks_def)
qed

section \<open>Markers\<close>

lemma tracks_start: "Parser_start p = (m, q) \<Longrightarrow> tracks p (Fresh m) q"
  unfolding tracks_def
  by (rule exI [of _ "[Event_tombstone]"], rule exI [of _ "[]"])
    (auto simp: Parser_start_def Parser_push_event_def intro!: moved_0 closed_Nil)

lemma complete_eq:
  assumes "events q = pre @ Event_tombstone # fs" "m = length pre" "Marker_complete m k q = Some (c, r)"
  shows "events r = pre @ EvStart k None # fs @ [EvFinish]" "start_pos c = m" "finish_pos c = m + 1 + length fs"
    "tokens r = tokens q" "pos r = pos q"
  using assms by (auto simp: Marker_complete_def Event_tombstone_def Parser_push_event_def list_update_append Let_def)

lemma moved_same: "moved p q ts \<Longrightarrow> tokens r = tokens q \<Longrightarrow> pos r = pos q \<Longrightarrow> moved p r ts"
  by (simp add: moved_def)

lemma forest_tokens_Node: "moved p q ts \<Longrightarrow> moved p q [Node k ts]"
  by (simp add: moved_def)

lemma tracks_complete_range:
  assumes "Marker_complete m k q = Some (c, r)" "tracks p (Fresh m) q" "k \<noteq> TOMBSTONE" "k \<le> LAST_KIND"
  shows "tracks p (Range c) r"
proof -
  from assms(2) obtain fs ts where q: "moved p q ts" "events q = events p @ Event_tombstone # fs" "closed fs ts" "m = length (events p)"
    by (auto simp: tracks_def)
  note r = complete_eq [OF q(2,4) assms(1)]
  have "moved p r [Node k ts]" by (rule forest_tokens_Node) (rule moved_same [OF q(1) r(4,5)])
  moreover have "shape (Range c) (length (events p)) (EvStart k None # fs @ [EvFinish]) [Node k ts]"
    unfolding shape.simps using q(3,4) r(2,3) assms(3,4)
    by (intro exI [of _ "[]"] exI [of _ k] exI [of _ fs] exI [of _ ts]) (auto intro: closed_Nil)
  ultimately show ?thesis using r(1) unfolding tracks_def by blast
qed

lemma tracks_complete:
  assumes "Marker_complete m k q = Some (c, r)" "tracks p (Fresh m) q \<or> tracks p (Preceded m) q" "k \<noteq> TOMBSTONE" "k \<le> LAST_KIND"
  shows "tracks p (Done c) r"
  using assms(2)
proof
  assume "tracks p (Fresh m) q"
  then obtain fs ts where q: "moved p q ts" "events q = events p @ Event_tombstone # fs" "closed fs ts" "m = length (events p)"
    by (auto simp: tracks_def)
  note r = complete_eq [OF q(2,4) assms(1)]
  have "moved p r [Node k ts]" by (rule forest_tokens_Node) (rule moved_same [OF q(1) r(4,5)])
  moreover have "shape (Done c) (length (events p)) (EvStart k None # fs @ [EvFinish]) [Node k ts]"
    unfolding shape.simps using q(4) r(2) completed_node [OF q(3) assms(3,4)] closed_Nil by fastforce
  ultimately show ?thesis using r(1) unfolding tracks_def by blast
next
  assume "tracks p (Preceded m) q"
  then obtain pre vs es0 s j t fs us where q: "moved p q (vs @ t # us)" "completed es0 s t" "es0 ! s = EvStart j None" "closed fs us"
    "events q = (events p @ pre @ es0[s := EvStart j (Some (length es0 - s))]) @ Event_tombstone # fs"
    "m = length (events p) + length pre + length es0" "closed pre vs"
    by (auto simp: tracks_def)
  have "m = length (events p @ pre @ es0[s := EvStart j (Some (length es0 - s))])" using q(6) by simp
  note r = complete_eq [OF q(5) this assms(1)]
  have "moved p r (vs @ [Node k (t # us)])" using q(1) r(4,5) by (simp add: moved_def)
  moreover have "shape (Done c) (length (events p))
      (pre @ es0[s := EvStart j (Some (length es0 - s))] @ EvStart k None # fs @ [EvFinish]) (vs @ [Node k (t # us)])"
    unfolding shape.simps using q(6,7) r(2) completed_preceded [OF q(2,3,4) assms(3,4)] by fastforce
  ultimately show ?thesis using r(1) unfolding tracks_def by (metis append_assoc)
qed

lemma tracks_complete_plain:
  "Marker_complete m k q = Some (c, r) \<Longrightarrow> tracks p (Fresh m) q \<or> tracks p (Preceded m) q \<Longrightarrow> k \<noteq> TOMBSTONE \<Longrightarrow> k \<le> LAST_KIND \<Longrightarrow>
    tracks p Plain r"
  by (rule tracks_Done, rule tracks_complete)

lemma closed_empty: "completed es s t \<Longrightarrow> es \<noteq> []" "closed es ts \<Longrightarrow> es = [] \<longrightarrow> ts = []"
  by (induction rule: completed_closed.inducts) auto

lemma tracks_abandon:
  assumes "Marker_abandon m q = Some r" "tracks p (Fresh m) q"
  shows "tracks p Plain r"
proof -
  from assms(2) obtain fs ts where q: "moved p q ts" "events q = events p @ Event_tombstone # fs" "closed fs ts" "m = length (events p)"
    by (auto simp: tracks_def)
  show ?thesis
  proof (cases "fs = []")
    case True
    then have "events r = events p" "tokens r = tokens q" "pos r = pos q"
      using assms(1) q(2,4) by (auto simp: Marker_abandon_def split: if_splits)
    moreover have "ts = []" using closed_empty(2) [OF q(3)] True by simp
    ultimately show ?thesis using q(1) moved_same unfolding tracks_def by (intro exI [of _ "[]"]) (auto intro: closed_Nil)
  next
    case False
    then have "r = q" using assms(1) q(2,4) by (auto simp: Marker_abandon_def split: if_splits)
    moreover have "closed ([Event_tombstone] @ fs) ([] @ ts)" by (intro closed_append closed_tombstone q(3))
    ultimately show ?thesis using q(1,2) unfolding tracks_def by auto
  qed
qed

lemma tracks_precede:
  assumes "CompletedMarker_precede c q = Some (m, r)" "tracks p (Done c) q"
  shows "tracks p (Preceded m) r"
proof -
  from assms(2) obtain pre vs es s t where q: "moved p q (vs @ [t])" "events q = events p @ pre @ es" "completed es s t"
    "start_pos c = length (events p) + length pre + s" "closed pre vs" by (auto simp: tracks_def)
  from completed_start [OF q(3)] obtain j where s: "s < length es" "es ! s = EvStart j None" by blast
  have "m = length (events p) + length pre + length es" "tokens r = tokens q" "pos r = pos q"
    "events r = events p @ pre @ es[s := EvStart j (Some (length es - s))] @ [Event_tombstone]"
    using assms(1) q(2,4) s by (auto simp: CompletedMarker_precede_def Parser_start_def Parser_push_event_def nth_append list_update_append Let_def)
  moreover have "shape (Preceded m) (length (events p)) (pre @ es[s := EvStart j (Some (length es - s))] @ [Event_tombstone]) (vs @ [t])"
    unfolding shape.simps using q(3,5) s(2) \<open>m = _\<close> closed_Nil by fastforce
  ultimately show ?thesis using q(1) moved_same unfolding tracks_def by metis
qed

lemma tracks_undo:
  assumes "CompletedMarker_undo_completion c q = Some (m, q1)" "Marker_complete m ERROR q1 = Some (d, r)" "tracks p (Range c) q"
  shows "tracks p (Range d) r"
proof -
  from assms(3) obtain pre vs k body us rest ws where R: "closed pre vs" "closed body us" "closed rest ws"
    "events q = (events p @ pre) @ EvStart k None # body @ EvFinish # rest" "moved p q (vs @ Node k us # ws)"
    "start_pos c = length (events p) + length pre" "finish_pos c = length (events p) + length pre + 1 + length body"
    by (auto simp: tracks_def)
  have q1: "events q1 = (events p @ pre) @ Event_tombstone # body @ Event_tombstone # rest" "m = length (events p @ pre)"
      "tokens q1 = tokens q" "pos q1 = pos q"
    using assms(1) R(4,6,7)
    by (auto simp: CompletedMarker_undo_completion_def Event_tombstone_def nth_append list_update_append bind_eq_Some_conv split: option.splits)
  note r = complete_eq [OF q1(1,2) assms(2)]
  have body: "closed (body @ [Event_tombstone] @ rest) (us @ [] @ ws)" by (intro closed_append R closed_tombstone)
  have "moved p r (vs @ [Node ERROR (us @ ws)])" using R(5) r(4,5) q1(3,4) by (simp add: moved_def)
  moreover have "shape (Range d) (length (events p)) (pre @ EvStart ERROR None # (body @ Event_tombstone # rest) @ [EvFinish]) (vs @ [Node ERROR (us @ ws)])"
    unfolding shape.simps using R(1) body r(2,3) q1(2)
    by (intro exI [of _ pre] exI [of _ vs] exI [of _ ERROR] exI [of _ "body @ Event_tombstone # rest"] exI [of _ "us @ ws"] exI [of _ "[]"])
      (auto intro: closed_Nil)
  ultimately show ?thesis using r(1) unfolding tracks_def by (metis append_assoc)
qed

section \<open>The operations\<close>

lemma nth_tracks: "Parser_nth n p = Some (k, q) \<Longrightarrow> tracks p Plain q"
  by (auto simp: Parser_nth_def Let_def bind_eq_Some_conv intro!: tracks_same)

lemma do_bump_tracks:
  assumes "pos p < length (tokens p)" "tokens p ! pos p = k"
  shows "tracks p Plain (Parser_do_bump k p)"
proof -
  have "moved p (Parser_do_bump k p) [Leaf k]"
    using assms by (simp add: moved_def Parser_do_bump_def Parser_push_event_def take_Suc_conv_app_nth flip: Cons_nth_drop_Suc)
  then show ?thesis unfolding tracks_def
    by (rule_tac exI [of _ "[EvToken k]"], rule_tac exI [of _ "[Leaf k]"]) (simp add: closed_token Parser_do_bump_def Parser_push_event_def)
qed

lemma bumped_tracks:
  assumes "Parser_nth 0 p = Some (k, q)" "k \<noteq> EOF"
  shows "tracks p Plain (Parser_do_bump k q)"
proof -
  have "tracks q Plain (Parser_do_bump k q)"
    by (rule do_bump_tracks) (use assms in \<open>auto simp: Parser_nth_def Let_def vec_get_def bind_eq_Some_conv split: option.splits if_splits\<close>)
  with nth_tracks [OF assms(1)] show ?thesis by (auto intro: tracks_step)
qed

lemma tracks_trans: "tracks p Plain q \<Longrightarrow> tracks q Plain r \<Longrightarrow> tracks p Plain r"
  by (rule tracks_step) simp_all

lemma look_tracks:
  "Parser_current p = Some (k, q) \<Longrightarrow> tracks p Plain q"
  "Parser_nth_at_ts n ts p = Some (b, q) \<Longrightarrow> tracks p Plain q"
  "Parser_nth_at n k p = Some (b, q) \<Longrightarrow> tracks p Plain q"
  "Parser_at k p = Some (b, q) \<Longrightarrow> tracks p Plain q"
  "Parser_at_ts ts p = Some (b, q) \<Longrightarrow> tracks p Plain q"
  "Parser_unexpected_tokens_msg ks p = Some (e, q) \<Longrightarrow> tracks p Plain q"
  "Parser_unexpected_token_msg k p = Some (e, q) \<Longrightarrow> tracks p Plain q"
  by (auto simp: Parser_current_def Parser_nth_at_ts_def Parser_nth_at_def Parser_at_def Parser_at_ts_def
      Parser_unexpected_tokens_msg_def Parser_unexpected_token_msg_def bind_eq_Some_conv dest: nth_tracks)

lemma eat_tracks: "Parser_eat k p = Some (b, q) \<Longrightarrow> k \<noteq> EOF \<Longrightarrow> tracks p Plain q"
  by (auto simp: Parser_eat_def Parser_at_def Parser_nth_at_def bind_eq_Some_conv split: if_splits
      intro: bumped_tracks nth_tracks)

lemma bump_tracks: "Parser_bump k p = Some q \<Longrightarrow> k \<noteq> EOF \<Longrightarrow> tracks p Plain q"
  by (auto simp: Parser_bump_def bind_eq_Some_conv dest: eat_tracks)

lemma bump_any_tracks: "Parser_bump_any p = Some q \<Longrightarrow> tracks p Plain q"
  by (auto simp: Parser_bump_any_def bind_eq_Some_conv split: if_splits intro: bumped_tracks nth_tracks)

lemma eat_ts_tracks: "Parser_eat_ts ts p = Some (b, q) \<Longrightarrow> tracks p Plain q"
  by (auto simp: Parser_eat_ts_def bind_eq_Some_conv split: if_splits intro: look_tracks tracks_trans dest: bump_any_tracks)

lemma bump_ts_tracks: "Parser_bump_ts ts p = Some q \<Longrightarrow> tracks p Plain q"
  by (auto simp: Parser_bump_ts_def bind_eq_Some_conv dest: eat_ts_tracks)

text \<open>A node for an error: a marker, the error, what is skipped, and the completion.\<close>

lemma error_node_tracks:
  assumes "Parser_start p = (m, p1)" "tracks (Parser_push_event (EvError e) p1) Plain p2" "Marker_complete m ERROR p2 = Some (c, q)"
  shows "tracks p Plain q"
proof -
  from assms(1) have p1: "events p1 = events p @ [Event_tombstone]" "m = length (events p)" "tokens p1 = tokens p" "pos p1 = pos p"
    by (auto simp: Parser_start_def Parser_push_event_def)
  from assms(2) obtain es ts where es: "moved (Parser_push_event (EvError e) p1) p2 ts" "events p2 = events p1 @ EvError e # es" "closed es ts"
    by (auto simp: tracks_def Parser_push_event_def)
  have "events p2 = events p @ Event_tombstone # EvError e # es" using es(2) p1(1) by simp
  note q = complete_eq [OF this p1(2) assms(3)]
  have "moved p q [Node ERROR (ErrLeaf e # ts)]" using es(1) p1(3,4) q(4,5) by (simp add: moved_def Parser_push_event_def)
  with q(1) closed_error [OF es(3), of e] show ?thesis by (auto simp: tracks_def)
qed

lemma error_tracks:
  assumes "Parser_error e p = Some q"
  shows "tracks p Plain q"
proof -
  obtain m p1 where s: "Parser_start p = (m, p1)" by (cases "Parser_start p")
  from assms obtain c where c: "Marker_complete m ERROR (Parser_push_event (EvError e) p1) = Some (c, q)"
    by (auto simp: Parser_error_def s bind_eq_Some_conv Let_def)
  show ?thesis by (rule error_node_tracks [OF s tracks_refl c])
qed

lemma err_recover_tracks:
  assumes "Parser_err_recover e ts p = Some (b, q)"
  shows "tracks p Plain q"
proof -
  from assms obtain r p1 where r: "Parser_at_ts ts p = Some (r, p1)" by (auto simp: Parser_err_recover_def bind_eq_Some_conv)
  have "tracks p1 Plain q"
  proof (cases r)
    case True
    with assms r show ?thesis by (auto simp: Parser_err_recover_def bind_eq_Some_conv dest: error_tracks)
  next
    case False
    obtain m p2 where s: "Parser_start p1 = (m, p2)" by (cases "Parser_start p1")
    from assms r False obtain p3 c where p3: "Parser_bump_any (Parser_push_event (EvError e) p2) = Some p3"
      "Marker_complete m ERROR p3 = Some (c, q)" by (auto simp: Parser_err_recover_def s bind_eq_Some_conv Let_def)
    show ?thesis by (rule error_node_tracks [OF s bump_any_tracks [OF p3(1)] p3(2)])
  qed
  with look_tracks(5) [OF r] show ?thesis by (rule tracks_trans)
qed

lemma expect_tracks:
  "Parser_expect_with k msg p = Some (b, q) \<Longrightarrow> k \<noteq> EOF \<Longrightarrow> tracks p Plain q"
  "Parser_expect k p = Some (b, q) \<Longrightarrow> k \<noteq> EOF \<Longrightarrow> tracks p Plain q"
  "Parser_expect_ts ts p = Some (b, q) \<Longrightarrow> tracks p Plain q"
  by (auto simp: Parser_expect_with_def Parser_expect_def Parser_expect_ts_def bind_eq_Some_conv split: if_splits
      dest!: eat_tracks eat_ts_tracks look_tracks error_tracks intro: tracks_trans)

lemma expect_ts_r_tracks: "Parser_expect_ts_r ts r p = Some (b, q) \<Longrightarrow> tracks p Plain q"
  by (auto simp: Parser_expect_ts_r_def bind_eq_Some_conv split: if_splits
      dest!: expect_tracks look_tracks bump_any_tracks intro: tracks_trans)

end
