(* ===== verification/Parser_Lossless.thy ===== *)
theory Parser_Lossless
  imports Parser_Tracking
begin

text \<open>
  Every function of the grammar appends the events of a forest for the tokens it passes; hence the parser
  is lossless and its output is a tree. The proofs follow the code with rules for its constructs: \<open>wp m Q\<close>
  says that \<open>Q\<close> holds of the result and the state if \<open>m\<close> returns, \<open>wpu\<close> the same without a result.
\<close>

section \<open>Rules for the constructs\<close>

definition wp :: "('a \<times> parser) option \<Rightarrow> ('a \<Rightarrow> parser \<Rightarrow> bool) \<Rightarrow> bool" where
  "wp m Q \<longleftrightarrow> (\<forall>x q. m = Some (x, q) \<longrightarrow> Q x q)"

definition wpu :: "parser option \<Rightarrow> (parser \<Rightarrow> bool) \<Rightarrow> bool" where
  "wpu m Q \<longleftrightarrow> (\<forall>q. m = Some q \<longrightarrow> Q q)"

named_theorems wp_rules

lemma wpD: "wp m Q \<Longrightarrow> m = Some (x, q) \<Longrightarrow> Q x q"
  by (simp add: wp_def)

lemma wpuD: "wpu m Q \<Longrightarrow> m = Some q \<Longrightarrow> Q q"
  by (simp add: wpu_def)

lemma wp_binds [wp_rules]:
  "wp m (\<lambda>x q. wp (g x q) Q) \<Longrightarrow> wp (m \<bind> (\<lambda>(x, q). g x q)) Q"
  "wp m (\<lambda>x q. wpu (g' x q) Q') \<Longrightarrow> wpu (m \<bind> (\<lambda>(x, q). g' x q)) Q'"
  "wpu m' (\<lambda>q. wp (h q) Q) \<Longrightarrow> wp (m' \<bind> h) Q"
  "wpu m' (\<lambda>q. wpu (h' q) Q') \<Longrightarrow> wpu (m' \<bind> h') Q'"
  by (auto simp: wp_def wpu_def bind_eq_Some_conv)

lemma wp_other_binds [wp_rules]:
  fixes ks :: "syntax_kind list option"
  shows "(\<And>x. wp (f x) Q) \<Longrightarrow> wp (ks \<bind> f) Q" "(\<And>x. wpu (f' x) Q') \<Longrightarrow> wpu (ks \<bind> f') Q'"
    "(b \<Longrightarrow> wp m Q) \<Longrightarrow> wp (rust_assert b \<bind> (\<lambda>_. m)) Q"
  by (auto simp: wp_def wpu_def bind_eq_Some_conv)

lemma wp_returns [wp_rules]:
  "Q x q \<Longrightarrow> wp (Some (x, q)) Q" "Q' q \<Longrightarrow> wpu (Some q) Q'" "wp None Q" "wpu None Q'"
  by (auto simp: wp_def wpu_def)

lemma wp_branches [wp_rules]:
  "(b \<Longrightarrow> wp m Q) \<Longrightarrow> (\<not> b \<Longrightarrow> wp m' Q) \<Longrightarrow> wp (if b then m else m') Q"
  "(b \<Longrightarrow> wpu u Q') \<Longrightarrow> (\<not> b \<Longrightarrow> wpu u' Q') \<Longrightarrow> wpu (if b then u else u') Q'"
  by simp_all

lemma wp_maps [wp_rules]:
  "wp m (\<lambda>x q. Q' q) \<Longrightarrow> wpu (map_option snd m) Q'"
  "wpu u (\<lambda>q. Q x q) \<Longrightarrow> wp (map_option (\<lambda>p. (x, p)) u) Q"
  by (auto simp: wp_def wpu_def)

section \<open>Rules for markers and operations\<close>

lemma wp_start [wp_rules]:
  "(\<And>m q. tracks p (Fresh m) q \<Longrightarrow> wp (g m q) Q) \<Longrightarrow> wp (let (m, q) = Parser_start p in g m q) Q"
  "(\<And>m q. tracks p (Fresh m) q \<Longrightarrow> wpu (g' m q) Q') \<Longrightarrow> wpu (let (m, q) = Parser_start p in g' m q) Q'"
  by (cases "Parser_start p"; simp add: tracks_start)+

lemma wp_op:
  assumes "wp m (\<lambda>x. tracks p Plain)" "tracks p0 c p" "grows c" "\<And>x q. tracks p0 c q \<Longrightarrow> Q x q"
  shows "wp m Q"
  unfolding wp_def using assms(1) by (blast intro: assms(4) tracks_step [OF _ assms(2,3)] dest: wpD)

lemma wpu_op:
  assumes "wpu m (tracks p Plain)" "tracks p0 c p" "grows c" "\<And>q. tracks p0 c q \<Longrightarrow> Q q"
  shows "wpu m Q"
  unfolding wpu_def using assms(1) by (blast intro: assms(4) tracks_step [OF _ assms(2,3)] dest: wpuD)

text \<open>Looking at tokens changes the counter only.\<close>

lemma wp_look:
  assumes "wp m (\<lambda>x q. q = p\<lparr>steps := steps p + 1\<rparr>)" "tracks p0 c p" "\<And>x q. tracks p0 c q \<Longrightarrow> Q x q"
  shows "wp m Q"
proof -
  have "tracks p0 c (p\<lparr>steps := steps p + 1\<rparr>)" using assms(2) by (simp add: tracks_def moved_def)
  then show ?thesis unfolding wp_def using assms(1,3) wpD by fast
qed

lemma looks:
  "wp (Parser_nth n p) (\<lambda>x q. q = p\<lparr>steps := steps p + 1\<rparr>)" "wp (Parser_current p) (\<lambda>x q. q = p\<lparr>steps := steps p + 1\<rparr>)"
  "wp (Parser_nth_at_ts n ts p) (\<lambda>x q. q = p\<lparr>steps := steps p + 1\<rparr>)" "wp (Parser_nth_at n k p) (\<lambda>x q. q = p\<lparr>steps := steps p + 1\<rparr>)"
  "wp (Parser_at k p) (\<lambda>x q. q = p\<lparr>steps := steps p + 1\<rparr>)" "wp (Parser_at_ts ts p) (\<lambda>x q. q = p\<lparr>steps := steps p + 1\<rparr>)"
  "wp (Parser_unexpected_tokens_msg ks p) (\<lambda>x q. q = p\<lparr>steps := steps p + 1\<rparr>)"
  "wp (Parser_unexpected_token_msg k p) (\<lambda>x q. q = p\<lparr>steps := steps p + 1\<rparr>)"
  by (auto simp: wp_def Parser_current_def Parser_nth_at_ts_def Parser_nth_at_def Parser_at_def Parser_at_ts_def
      Parser_unexpected_tokens_msg_def Parser_unexpected_token_msg_def Parser_nth_def bind_eq_Some_conv)

lemma passes:
  "wp (Parser_eat_ts ts p) (\<lambda>x. tracks p Plain)" "wp (Parser_err_recover e ts p) (\<lambda>x. tracks p Plain)"
  "wp (Parser_expect_ts ts p) (\<lambda>x. tracks p Plain)" "wp (Parser_expect_ts_r ts r p) (\<lambda>x. tracks p Plain)"
  "wpu (Parser_bump_any p) (tracks p Plain)" "wpu (Parser_bump_ts ts p) (tracks p Plain)" "wpu (Parser_error e p) (tracks p Plain)"
  by (auto simp: wp_def wpu_def dest: eat_ts_tracks err_recover_tracks expect_tracks expect_ts_r_tracks bump_any_tracks bump_ts_tracks error_tracks)

lemma passes_kind:
  assumes "k \<noteq> EOF"
  shows "wp (Parser_eat k p) (\<lambda>x. tracks p Plain)" "wp (Parser_expect k p) (\<lambda>x. tracks p Plain)"
    "wp (Parser_expect_with k ks p) (\<lambda>x. tracks p Plain)" "wpu (Parser_bump k p) (tracks p Plain)"
  using assms by (auto simp: wp_def wpu_def dest: eat_tracks expect_tracks bump_tracks)

lemmas [wp_rules] =
  wp_look [OF looks(1)] wp_look [OF looks(2)] wp_look [OF looks(3)] wp_look [OF looks(4)] wp_look [OF looks(5)]
  wp_look [OF looks(6)] wp_look [OF looks(7)] wp_look [OF looks(8)]
  wp_op [OF passes(1)] wp_op [OF passes(2)] wp_op [OF passes(3)] wp_op [OF passes(4)] wpu_op [OF passes(5)] wpu_op [OF passes(6)]
  wpu_op [OF passes(7)] wp_op [OF passes_kind(1)] wp_op [OF passes_kind(2)] wp_op [OF passes_kind(3)] wpu_op [OF passes_kind(4)]

text \<open>Markers: completing one into the context around it, or into a node that can be preceded.\<close>

lemma complete_marker:
  assumes "k \<noteq> TOMBSTONE" "k \<le> LAST_KIND"
  shows "tracks p (Fresh m) q \<Longrightarrow> wp (Marker_complete m k q) (\<lambda>d. tracks p (Done d))"
    "tracks p (Preceded m) q \<Longrightarrow> wp (Marker_complete m k q) (\<lambda>d. tracks p (Done d))"
  unfolding wp_def using tracks_complete [OF _ _ assms] by blast+

lemma done_plain: "wp m (\<lambda>d. tracks p (Done d)) \<Longrightarrow> wp m (\<lambda>d. tracks p Plain)"
  by (auto simp: wp_def intro: tracks_Done)

lemma wp_done:
  assumes "wp m (\<lambda>d. tracks p (Done d))" "\<And>d q. tracks p (Done d) q \<Longrightarrow> Q d q"
  shows "wp m Q"
  using assms by (auto simp: wp_def)

lemma wp_done_later:
  assumes "wp m (\<lambda>d. tracks q (Done d))" "tracks p Plain q" "\<And>d r. tracks p (Done d) r \<Longrightarrow> Q d r"
  shows "wp m Q"
  using assms tracks_before by (fastforce simp: wp_def)

lemma wp_precede:
  assumes "tracks p1 (Done d) p" "\<And>m q. tracks p1 (Preceded m) q \<Longrightarrow> Q m q"
  shows "wp (CompletedMarker_precede d p) Q"
  unfolding wp_def by (blast intro: assms(2) tracks_precede [OF _ assms(1)])

lemma abandon_marker: "tracks p (Fresh m) q \<Longrightarrow> wpu (Marker_abandon m q) (tracks p Plain)"
  unfolding wpu_def using tracks_abandon by blast

lemmas [wp_rules] = wpu_op [OF abandon_marker]

lemmas complete_plain = wp_op [OF done_plain [OF complete_marker(1)]] wp_op [OF done_plain [OF complete_marker(2)]]
lemmas complete_done = wp_done_later [OF complete_marker(1)] wp_done [OF complete_marker(2)] wp_precede

text \<open>
  A proof walks through the code: \<open>walk\<close> has a rule for every call known so far, \<open>wpu_op\<close> or \<open>wp_op\<close> with the
  theorem of the function called.
\<close>

named_theorems walk

lemmas [walk] = wp_rules complete_plain tracks_refl

section \<open>Names, paths and expressions\<close>

lemma ty_tracks: "wpu (grammar_ty p) (tracks p Plain)" "wpu (eat_ty p) (tracks p Plain)"
  unfolding grammar_ty_def eat_ty_def by (assumption | rule walk | simp)+

lemma name_tracks: "wpu (name_r ts p) (tracks p Plain)" "wpu (name_ref_r ts p) (tracks p Plain)"
    "wp (eat_name p) (\<lambda>x. tracks p Plain)" "wp (eat_name_ref p) (\<lambda>x. tracks p Plain)"
  unfolding name_r_def name_ref_r_def eat_name_def eat_name_ref_def by (assumption | rule walk | simp)+

lemmas [walk] = wpu_op [OF ty_tracks(1)] wpu_op [OF ty_tracks(2)] wpu_op [OF name_tracks(1)] wpu_op [OF name_tracks(2)]
  wp_op [OF name_tracks(3)] wp_op [OF name_tracks(4)]

lemma grammar_name_tracks: "wpu (grammar_name p) (tracks p Plain)"
  unfolding grammar_name_def by (rule name_tracks)

lemmas [walk] = wpu_op [OF grammar_name_tracks]

lemma path_loop_done: "tracks p0 (Done c) p \<Longrightarrow> wp (path_loop n c p) (\<lambda>d. tracks p0 (Done d))"
proof (induction n arbitrary: c p)
  case (Suc n)
  show ?case unfolding path_loop.simps by (rule Suc.prems | assumption | rule Suc.IH complete_done wp_rules | simp)+
qed (simp add: wp_def)

lemma grammar_path_done: "wp (grammar_path n p) (\<lambda>d. tracks p (Done d))"
  unfolding grammar_path_def by (assumption | rule path_loop_done complete_done wp_rules tracks_refl | simp)+

lemmas [walk] = wp_op [OF done_plain [OF grammar_path_done]]

lemma port_flow_done: "wp (port_flow n p) (\<lambda>d. tracks p (Done d))"
  unfolding port_flow_def by (assumption | rule complete_marker walk | simp)+

text \<open>What the parser of an expression returns: a completed node that can be preceded, or none.\<close>

definition expr_result :: "parser \<Rightarrow> completed_marker option \<Rightarrow> parser \<Rightarrow> bool" where
  "expr_result p r q \<longleftrightarrow> (case r of None \<Rightarrow> tracks p Plain q | Some d \<Rightarrow> tracks p (Done d) q)"

lemma expr_results: "tracks p Plain q \<Longrightarrow> expr_result p None q" "tracks p (Done d) q \<Longrightarrow> expr_result p (Some d) q"
  by (simp_all add: expr_result_def)

lemma expr_plain: "wp m (expr_result p) \<Longrightarrow> wp m (\<lambda>r. tracks p Plain)"
  unfolding wp_def expr_result_def using tracks_Done by (auto split: option.split_asm) metis

text \<open>What the functions below an expression rely on of the parser of an expression.\<close>

locale expression_parser =
  fixes ex :: "parser \<Rightarrow> (completed_marker option \<times> parser) panics"
  assumes ex: "wp (ex p) (expr_result p)"
begin

lemmas ex_called = wp_op [OF expr_plain [OF ex]]

lemma paren_loop_tracks: "wpu (paren_loop ex n p) (tracks p Plain)"
proof (induction n arbitrary: p)
  case (Suc n)
  show ?case unfolding paren_loop.simps by (assumption | rule wpu_op [OF Suc.IH] ex_called walk | simp)+
qed (simp add: wpu_def)

lemma paren_expr_done: "wp (paren_expr ex n p) (\<lambda>d. tracks p (Done d))"
  unfolding paren_expr_def by (assumption | rule wpu_op [OF paren_loop_tracks] complete_done wp_rules tracks_refl | simp)+

lemma arg_loop_tracks: "wpu (arg_loop ex n p) (tracks p Plain)"
proof (induction n arbitrary: p)
  case (Suc n)
  show ?case unfolding arg_loop.simps by (assumption | rule wpu_op [OF Suc.IH] ex_called walk | simp)+
qed (simp add: wpu_def)

lemma arg_list_tracks: "wpu (arg_list ex n p) (tracks p Plain)"
  unfolding arg_list_def by (assumption | rule wpu_op [OF arg_loop_tracks] walk | simp)+

lemma call_expr_done: "tracks p0 (Done d) p \<Longrightarrow> wp (call_expr ex n d p) (\<lambda>d. tracks p0 (Done d))"
  unfolding call_expr_def by (assumption | rule wpu_op [OF arg_list_tracks] complete_done wp_rules | simp)+

lemma sys_fun_call_done: "wp (sys_fun_call ex n p) (\<lambda>d. tracks p (Done d))"
  unfolding sys_fun_call_def by (assumption | rule complete_marker wpu_op [OF arg_list_tracks] walk | simp)+

lemma atom_expr_result: "wp (atom_expr ex n p) (expr_result p)"
proof (induction n arbitrary: p)
  case (Suc n)
  note results = wp_done_later [OF paren_expr_done] wp_done [OF call_expr_done] wp_done_later [OF grammar_path_done]
    wp_done_later [OF sys_fun_call_done] wp_done_later [OF port_flow_done]
  show ?case unfolding atom_expr.simps
    by (assumption | rule results expr_results wp_op [OF expr_plain [OF Suc.IH]] complete_done wp_rules tracks_refl | simp)+
qed (simp add: wp_def)

end

lemma wp_expr:
  assumes "wp m (expr_result p)" "\<And>q. tracks p Plain q \<Longrightarrow> wp (f None q) Q" "\<And>d q. tracks p (Done d) q \<Longrightarrow> wp (f (Some d) q) Q"
  shows "wp (m \<bind> (\<lambda>(r, q). f r q)) Q"
proof (rule wp_binds)
  have "wp (f r q) Q" if "expr_result p r q" for r q
    using assms(2,3) that by (cases r) (simp_all add: expr_result_def)
  then show "wp m (\<lambda>r q. wp (f r q) Q)" unfolding wp_def [of m] using wpD [OF assms(1)] by blast
qed

lemma binding_power_kind: "snd (binding_power k) \<noteq> EOF"
  by (simp add: binding_power_def)

lemma wp_current_op:
  assumes "tracks p0 c p" "\<And>a b q. tracks p0 c q \<Longrightarrow> b \<noteq> EOF \<Longrightarrow> wp (h a b q) Q"
  shows "wp (current_op p \<bind> (\<lambda>((a, b), q). h a b q)) Q"
proof -
  have "wp (Parser_current p) (\<lambda>k q. wp (case binding_power k of (a, b) \<Rightarrow> h a b q) Q)"
  proof (rule wp_look [OF looks(2) assms(1)])
    fix k q assume "tracks p0 c q"
    then show "wp (case binding_power k of (a, b) \<Rightarrow> h a b q) Q"
      using assms(2) binding_power_kind [of k] by (cases "binding_power k") simp
  qed
  then show ?thesis by (auto simp: current_op_def wp_def bind_eq_Some_conv split: prod.splits)
qed

lemma expr_loop_result:
  assumes "\<And>bp p. wp (sub bp p) (expr_result p)"
  shows "tracks p0 (Done d) p \<Longrightarrow> wp (expr_loop sub n bp d p) (expr_result p0)"
proof (induction n arbitrary: d p)
  case (Suc n)
  note sub = wp_op [OF expr_plain [OF assms]]
  show ?case unfolding expr_loop.simps
    by (rule Suc.prems | assumption | rule wp_current_op Suc.IH expr_results sub complete_done wp_rules | simp)+
qed (simp add: wp_def)

lemma expr_bp_result: "wp (expr_bp n bp p) (expr_result p)"
proof (induction n arbitrary: bp p)
  case (Suc n)
  have ex: "expression_parser (\<lambda>p. expr_bp n 1 p)" by unfold_locales (rule Suc.IH)
  show ?case unfolding expr_bp.simps
  proof (rule wp_expr [OF expression_parser.atom_expr_result [OF ex]])
    show "wp (case None of None \<Rightarrow> Some (None, q) | Some lhs \<Rightarrow> expr_loop (\<lambda>bp p. expr_bp n bp p) n bp lhs q) (expr_result p)"
      if "tracks p Plain q" for q using that by (simp add: wp_def expr_result_def)
    show "wp (case Some d of None \<Rightarrow> Some (None, q) | Some lhs \<Rightarrow> expr_loop (\<lambda>bp p. expr_bp n bp p) n bp lhs q) (expr_result p)"
      if "tracks p (Done d) q" for d q using expr_loop_result [OF Suc.IH that] by simp
  qed
qed (simp add: wp_def)

interpretation expr: expression_parser "\<lambda>p. grammar_expr n p" for n
  by unfold_locales (simp add: grammar_expr_def expr_bp_result)

lemmas [walk] = wp_op [OF expr_plain [OF expr_bp_result]] expr.ex_called wpu_op [OF expr.arg_list_tracks]

section \<open>Attributes\<close>

lemma attr_tracks: "wpu (grammar_attr n ts p) (tracks p Plain)"
  unfolding grammar_attr_def by (assumption | rule walk | simp)+

lemma attr_loop_tracks: "wpu (attr_loop n ts p) (tracks p Plain)"
proof (induction n arbitrary: p)
  case (Suc n)
  show ?case unfolding attr_loop.simps by (assumption | rule wpu_op [OF Suc.IH] wpu_op [OF attr_tracks] walk | simp)+
qed (simp add: wpu_def)

lemma attr_list_tracks: "wpu (attr_list n ts p) (tracks p Plain)"
  unfolding attr_list_def by (assumption | rule wpu_op [OF attr_loop_tracks] walk | simp)+

lemma attrs_tracks: "wpu (attrs n ts p) (tracks p Plain)"
proof (induction n arbitrary: p)
  case (Suc n)
  show ?case unfolding attrs.simps by (assumption | rule wpu_op [OF Suc.IH] wpu_op [OF attr_list_tracks] walk | simp)+
qed (simp add: wpu_def)

lemmas [walk] = wpu_op [OF attrs_tracks]

section \<open>Declarations\<close>

lemma discipline_loop_tracks: "wpu (discipline_loop n p) (tracks p Plain)"
proof (induction n arbitrary: p)
  case (Suc n)
  show ?case unfolding discipline_loop.simps by (assumption | rule wpu_op [OF Suc.IH] walk | simp)+
qed (simp add: wpu_def)

lemma discipline_tracks: "tracks p0 (Fresh m) p \<Longrightarrow> wpu (discipline n m p) (tracks p0 Plain)"
  unfolding discipline_def by (assumption | rule wpu_op [OF discipline_loop_tracks] walk | simp)+

lemma nature_loop_tracks: "wpu (nature_loop n p) (tracks p Plain)"
proof (induction n arbitrary: p)
  case (Suc n)
  show ?case unfolding nature_loop.simps by (assumption | rule wpu_op [OF Suc.IH] walk | simp)+
qed (simp add: wpu_def)

lemma nature_tracks: "tracks p0 (Fresh m) p \<Longrightarrow> wpu (nature n m p) (tracks p0 Plain)"
  unfolding nature_def by (assumption | rule wpu_op [OF nature_loop_tracks] walk | simp)+

lemma decl_loop_tracks:
  assumes "\<And>p. wp (parse_entry p) (\<lambda>x. tracks p Plain)" "k \<noteq> EOF"
  shows "wpu (decl_loop n k parse_entry ts p) (tracks p Plain)"
proof (induction n arbitrary: p)
  case (Suc n)
  show ?case unfolding decl_loop.simps by (assumption | rule wpu_op [OF Suc.IH] wp_op [OF assms(1)] walk | simp)+
qed (simp add: wpu_def)

lemma decl_list_tracks:
  assumes "\<And>p. wp (parse_entry p) (\<lambda>x. tracks p Plain)" "k \<noteq> EOF"
  shows "wpu (decl_list n k parse_entry ts p) (tracks p Plain)"
  unfolding decl_list_def Let_def by (assumption | rule wpu_op [OF decl_loop_tracks [OF assms]] walk | simp)+

lemma decl_name_tracks: "wp (decl_name p) (\<lambda>x. tracks p Plain)"
  unfolding decl_name_def by (assumption | rule walk | simp)+

lemma var_tracks: "wp (grammar_var n p) (\<lambda>x. tracks p Plain)"
  unfolding grammar_var_def by (assumption | rule walk | simp)+

lemma var_decl_tracks: "tracks p0 (Fresh m) p \<Longrightarrow> wpu (var_decl n m p) (tracks p0 Plain)"
  unfolding var_decl_def by (assumption | rule wpu_op [OF decl_list_tracks [OF var_tracks]] walk | simp)+

lemma range_or_expr_tracks: "wpu (range_or_expr n p) (tracks p Plain)"
proof -
  have range: "wpu (do { (_, p) \<leftarrow> Parser_expect COLON p; (_, p) \<leftarrow> grammar_expr n p;
      (_, p) \<leftarrow> Parser_expect_ts (TS [R_PAREN, R_BRACK]) p; map_option snd (Marker_complete m RANGE p) }) (tracks p0 Plain)"
    if "tracks p0 (Fresh m) p" for p0 m p
    using that by - (assumption | rule walk | simp)+
  show ?thesis unfolding range_or_expr_def Let_def [of "\<lambda>p. _ p"] by (assumption | rule wpu_op [OF range] walk | simp)+
qed

lemma constraint_loop_tracks: "wpu (constraint_loop n p) (tracks p Plain)"
proof (induction n arbitrary: p)
  case (Suc n)
  show ?case unfolding constraint_loop.simps by (assumption | rule wpu_op [OF Suc.IH] walk | simp)+
qed (simp add: wpu_def)

lemma constraint_tracks: "wpu (grammar_constraint n p) (tracks p Plain)"
  unfolding grammar_constraint_def
  by (assumption | rule wpu_op [OF constraint_loop_tracks] wpu_op [OF range_or_expr_tracks] walk | simp)+

lemma parameter_loop_tracks: "wpu (parameter_loop n p) (tracks p Plain)"
proof (induction n arbitrary: p)
  case (Suc n)
  show ?case unfolding parameter_loop.simps by (assumption | rule wpu_op [OF Suc.IH] wpu_op [OF constraint_tracks] walk | simp)+
qed (simp add: wpu_def)

lemma parameter_tracks: "wp (grammar_parameter n p) (\<lambda>x. tracks p Plain)"
  unfolding grammar_parameter_def by (assumption | rule wpu_op [OF parameter_loop_tracks] walk | simp)+

lemma parameter_decl_tracks: "tracks p0 (Fresh m) p \<Longrightarrow> wpu (parameter_decl n m p) (tracks p0 Plain)"
  unfolding parameter_decl_def by (assumption | rule wpu_op [OF decl_list_tracks [OF parameter_tracks]] walk | simp)+

lemmas [walk] = wpu_op [OF discipline_tracks] wpu_op [OF nature_tracks] wpu_op [OF var_decl_tracks] wpu_op [OF parameter_decl_tracks]
  discipline_tracks nature_tracks var_decl_tracks parameter_decl_tracks

section \<open>Statements\<close>

lemma empty_stmt_tracks: "tracks p0 (Fresh m) p \<Longrightarrow> wpu (empty_stmt m p) (tracks p0 Plain)"
  unfolding empty_stmt_def by (assumption | rule walk | simp)+

lemma assign_or_expr_tracks: "wp (assign_or_expr n p) (\<lambda>x. tracks p Plain)"
  unfolding assign_or_expr_def by (assumption | rule walk | simp)+

lemma expr_or_assign_stmt_tracks: "tracks p0 (Fresh m) p \<Longrightarrow> wpu (expr_or_assign_stmt b n m p) (tracks p0 Plain)"
  unfolding expr_or_assign_stmt_def Let_def by (assumption | rule wp_op [OF assign_or_expr_tracks] walk | simp)+

lemma event_loop_tracks: "wpu (event_loop n p) (tracks p Plain)"
proof (induction n arbitrary: p)
  case (Suc n)
  show ?case unfolding event_loop.simps by (assumption | rule wpu_op [OF Suc.IH] walk | simp)+
qed (simp add: wpu_def)

lemma vals_loop_tracks: "wpu (vals_loop n p) (tracks p Plain)"
proof (induction n arbitrary: p)
  case (Suc n)
  show ?case unfolding vals_loop.simps by (assumption | rule wpu_op [OF Suc.IH] walk | simp)+
qed (simp add: wpu_def)

lemma vals_or_default_tracks: "wpu (vals_or_default n p) (tracks p Plain)"
  unfolding vals_or_default_def by (assumption | rule wpu_op [OF vals_loop_tracks] walk | simp)+

lemmas [walk] = empty_stmt_tracks expr_or_assign_stmt_tracks wpu_op [OF expr_or_assign_stmt_tracks]
  wpu_op [OF event_loop_tracks] wpu_op [OF vals_or_default_tracks]

text \<open>What the statements rely on of the parser of the statements in them.\<close>

locale statement_parser =
  fixes st :: "marker \<Rightarrow> token_set \<Rightarrow> token_set \<Rightarrow> parser \<Rightarrow> parser panics"
  assumes st: "tracks p0 (Fresh m) p \<Longrightarrow> wpu (st m e r p) (tracks p0 Plain)"
begin

lemma stmt_with_attrs_tracks: "wpu (stmt_with_attrs st n p) (tracks p Plain)"
  unfolding stmt_with_attrs_def by (assumption | rule st walk | simp)+

lemmas inner = wpu_op [OF stmt_with_attrs_tracks]

lemma event_stmt_tracks: "tracks p0 (Fresh m) p \<Longrightarrow> wpu (event_stmt st n m p) (tracks p0 Plain)"
  unfolding event_stmt_def by (assumption | rule inner walk | simp)+

lemma if_stmt_tracks: "tracks p0 (Fresh m) p \<Longrightarrow> wpu (if_stmt st n m p) (tracks p0 Plain)"
  unfolding if_stmt_def by (assumption | rule inner walk | simp)+

lemma while_stmt_tracks: "tracks p0 (Fresh m) p \<Longrightarrow> wpu (while_stmt st n m p) (tracks p0 Plain)"
  unfolding while_stmt_def by (assumption | rule inner walk | simp)+

lemma for_stmt_tracks: "tracks p0 (Fresh m) p \<Longrightarrow> wpu (for_stmt st n m p) (tracks p0 Plain)"
  unfolding for_stmt_def by (assumption | rule inner walk | simp)+

lemma case_item_tracks: "wpu (case_item st n p) (tracks p Plain)"
  unfolding case_item_def by (assumption | rule inner walk | simp)+

lemma case_loop_tracks: "wpu (case_loop st n p) (tracks p Plain)"
proof (induction n arbitrary: p)
  case (Suc n)
  show ?case unfolding case_loop.simps by (assumption | rule wpu_op [OF Suc.IH] wpu_op [OF case_item_tracks] walk | simp)+
qed (simp add: wpu_def)

lemma case_stmt_tracks: "tracks p0 (Fresh m) p \<Longrightarrow> wpu (case_stmt st n m p) (tracks p0 Plain)"
  unfolding case_stmt_def by (assumption | rule wpu_op [OF case_loop_tracks] walk | simp)+

lemma block_loop_tracks: "wpu (block_loop st n p) (tracks p Plain)"
proof (induction n arbitrary: p)
  case (Suc n)
  show ?case unfolding block_loop.simps by (assumption | rule wpu_op [OF Suc.IH] wpu_op [OF st] walk | simp)+
qed (simp add: wpu_def)

lemma block_stmt_tracks: "tracks p0 (Fresh m) p \<Longrightarrow> wpu (block_stmt st n m p) (tracks p0 Plain)"
  unfolding block_stmt_def by (assumption | rule wpu_op [OF block_loop_tracks] walk | simp)+

lemmas statements = event_stmt_tracks if_stmt_tracks while_stmt_tracks for_stmt_tracks case_stmt_tracks block_stmt_tracks

end

lemma stmt_tracks: "tracks p0 (Fresh m) p \<Longrightarrow> wpu (stmt n m e r p) (tracks p0 Plain)"
proof (induction n arbitrary: p0 m e r p)
  case (Suc n)
  have st: "statement_parser (stmt n)" by unfold_locales (rule Suc.IH)
  show ?case unfolding stmt.simps Let_def
    by (rule Suc.prems | assumption | rule statement_parser.statements [OF st] walk | simp)+
qed (simp add: wpu_def)

interpretation inner_stmt: statement_parser "stmt n" for n
  by unfold_locales (rule stmt_tracks)

lemmas [walk] = stmt_tracks wpu_op [OF stmt_tracks] inner_stmt.inner

section \<open>Modules\<close>

lemma net_dec_list_tracks: "wpu (net_dec_list n p) (tracks p Plain)"
  unfolding net_dec_list_def by (rule decl_list_tracks [OF decl_name_tracks]) simp

lemma module_port_tracks: "wp (module_port p) (\<lambda>x. tracks p Plain)"
  unfolding module_port_def by (assumption | rule walk | simp)+

lemmas [walk] = wpu_op [OF net_dec_list_tracks] wpu_op [OF decl_list_tracks [OF decl_name_tracks]]
  wpu_op [OF decl_list_tracks [OF module_port_tracks]]

text \<open>A port declaration of the body precedes the declaration it has just completed.\<close>

lemma port_decl_end:
  assumes "tracks p0 (Fresh m) p"
  shows "wpu (do { (finished, p) \<leftarrow> Marker_complete m PORT_DECL p;
      if \<not> module_head then
        do { (m, p) \<leftarrow> CompletedMarker_precede finished p; (_, p) \<leftarrow> Parser_eat SEMICOLON p;
             map_option snd (Marker_complete m BODY_PORT_DECL p) }
      else Some p }) (tracks p0 Plain)"
proof (rule wp_binds, rule wp_done [OF complete_marker(1) [OF _ _ assms]])
  fix d q assume d: "tracks p0 (Done d) q"
  have "wpu (do { (m, p) \<leftarrow> CompletedMarker_precede d q; (_, p) \<leftarrow> Parser_eat SEMICOLON p;
      map_option snd (Marker_complete m BODY_PORT_DECL p) }) (tracks p0 Plain)"
    by (rule wp_binds, rule wp_precede [OF d]) (assumption | rule complete_plain(2) wp_rules tracks_refl grows_simps | simp)+
  with tracks_Done [OF d] show "wpu (if \<not> module_head then
        do { (m, p) \<leftarrow> CompletedMarker_precede d q; (_, p) \<leftarrow> Parser_eat SEMICOLON p;
             map_option snd (Marker_complete m BODY_PORT_DECL p) }
      else Some q) (tracks p0 Plain)" by (simp add: wpu_def)
qed simp_all

lemma port_decl_tracks: "tracks p0 (Fresh m) p \<Longrightarrow> wpu (port_decl b n m p) (tracks p0 Plain)"
  unfolding port_decl_def by (assumption | rule port_decl_end walk | simp)+

lemmas [walk] = port_decl_tracks wpu_op [OF port_decl_tracks]

lemma ports_loop_tracks: "wpu (ports_loop n p) (tracks p Plain)"
proof (induction n arbitrary: p)
  case (Suc n)
  show ?case unfolding ports_loop.simps by (assumption | rule wpu_op [OF Suc.IH] walk | simp)+
qed (simp add: wpu_def)

lemma module_ports_tracks: "wpu (module_ports n p) (tracks p Plain)"
  unfolding module_ports_def by (assumption | rule wpu_op [OF ports_loop_tracks] walk | simp)+

lemma alias_parameter_decl_tracks: "tracks p0 (Fresh m) p \<Longrightarrow> wpu (alias_parameter_decl n m p) (tracks p0 Plain)"
  unfolding alias_parameter_decl_def by (assumption | rule walk | simp)+

lemma net_decl_tracks: "tracks p0 (Fresh m) p \<Longrightarrow> wpu (net_decl b n m p) (tracks p0 Plain)"
  unfolding net_decl_def by (assumption | rule walk | simp)+

lemma func_arg_tracks: "tracks p0 (Fresh m) p \<Longrightarrow> wpu (func_arg n m p) (tracks p0 Plain)"
  unfolding func_arg_def by (assumption | rule walk | simp)+

lemma func_loop_tracks: "wpu (func_loop n p) (tracks p Plain)"
proof (induction n arbitrary: p)
  case (Suc n)
  show ?case unfolding func_loop.simps by (assumption | rule wpu_op [OF Suc.IH] wpu_op [OF func_arg_tracks] walk | simp)+
qed (simp add: wpu_def)

lemma func_decl_tracks: "tracks p0 (Fresh m) p \<Longrightarrow> wpu (func_decl n m p) (tracks p0 Plain)"
  unfolding func_decl_def by (assumption | rule wpu_op [OF func_loop_tracks] walk | simp)+

lemma branch_decl_tracks: "tracks p0 (Fresh m) p \<Longrightarrow> wpu (branch_decl n m p) (tracks p0 Plain)"
  unfolding branch_decl_def by (assumption | rule walk | simp)+

lemma analog_tracks:
  assumes "tracks p0 (Fresh m) p"
  shows "wpu (do { p \<leftarrow> Parser_bump ANALOG_KW p; (_, p) \<leftarrow> Parser_eat INITIAL_KW p; p \<leftarrow> stmt_with_attrs (stmt n) n p;
    map_option snd (Marker_complete m ANALOG_BEHAVIOUR p) }) (tracks p0 Plain)"
  using assms by - (assumption | rule walk | simp)+

lemma skip_until_tracks: "wpu (skip_until n ts p) (tracks p Plain)"
proof (induction n arbitrary: p)
  case (Suc n)
  show ?case unfolding skip_until.simps by (assumption | rule wpu_op [OF Suc.IH] walk | simp)+
qed (simp add: wpu_def)

lemmas [walk] = wpu_op [OF module_ports_tracks] wpu_op [OF skip_until_tracks]

section \<open>Error nodes\<close>

text \<open>The error node that skipped items are added to stays where it is while other items are parsed.\<close>

definition range_ok :: "parser \<Rightarrow> completed_marker option \<Rightarrow> parser \<Rightarrow> bool" where
  "range_ok p er q \<longleftrightarrow> (case er of None \<Rightarrow> tracks p Plain q | Some c \<Rightarrow> tracks p (Range c) q)"

lemma range_ok_plain: "range_ok p er q \<Longrightarrow> tracks p Plain q"
  by (auto simp: range_ok_def intro: tracks_Range split: option.splits)

lemma range_ok_step: "tracks q Plain r \<Longrightarrow> range_ok p er q \<Longrightarrow> range_ok p er r"
  by (auto simp: range_ok_def intro: tracks_step split: option.splits)

lemma tracks_before_range:
  assumes "tracks p Plain q" "tracks q (Range c) r"
  shows "tracks p (Range c) r"
proof -
  from assms obtain es ts pre vs k body us rest ws where T: "moved p q ts" "events q = events p @ es" "closed es ts"
    "moved q r (vs @ Node k us # ws)" "events r = events q @ pre @ EvStart k None # body @ EvFinish # rest"
    "closed pre vs" "closed body us" "closed rest ws" "k \<noteq> TOMBSTONE" "k \<le> LAST_KIND"
    "start_pos c = length (events q) + length pre" "finish_pos c = length (events q) + length pre + 1 + length body"
    by (auto simp: tracks_def)
  have "moved p r ((ts @ vs) @ Node k us # ws)" using moved_trans [OF T(1,4)] by simp
  moreover have "events r = events p @ (es @ pre) @ EvStart k None # body @ EvFinish # rest" using T(2,5) by simp
  moreover have "shape (Range c) (length (events p)) ((es @ pre) @ EvStart k None # body @ EvFinish # rest) ((ts @ vs) @ Node k us # ws)"
    unfolding shape.simps using closed_append [OF T(3,6)] T(2,7-12)
    by (intro exI [of _ "es @ pre"] exI [of _ "ts @ vs"] exI [of _ k] exI [of _ body] exI [of _ us] exI [of _ rest] exI [of _ ws]) simp
  ultimately show ?thesis unfolding tracks_def by blast
qed

lemma wp_item:
  assumes "wpu u (tracks q Plain)" "range_ok p er q" "er' = er \<or> er' = None"
  shows "wp (map_option (\<lambda>p. (er', p)) u) (range_ok p)"
  unfolding wp_def
proof (intro allI impI)
  fix x r assume "map_option (\<lambda>p. (er', p)) u = Some (x, r)"
  then have "u = Some r" "x = er'" by auto
  with wpuD [OF assms(1)] have "range_ok p er r" using range_ok_step assms(2) by blast
  with assms(3) \<open>x = er'\<close> range_ok_plain show "range_ok p x r" by (auto simp: range_ok_def)
qed

lemma error_completed:
  assumes "tracks p Plain q" "tracks q (Fresh m) r" "k \<noteq> TOMBSTONE" "k \<le> LAST_KIND"
  shows "wp (do { (c, p) \<leftarrow> Marker_complete m k r; Some (Some c, p) }) (range_ok p)"
  unfolding wp_def range_ok_def using tracks_before_range [OF assms(1) tracks_complete_range [OF _ assms(2-4)]]
  by (auto simp: bind_eq_Some_conv)

lemma undo_completed:
  assumes "tracks p (Range c) q"
  shows "wp (do { (m, p) \<leftarrow> CompletedMarker_undo_completion c q; (c, p) \<leftarrow> Marker_complete m ERROR p; Some (Some c, p) }) (range_ok p)"
  using assms by (auto simp: wp_def range_ok_def bind_eq_Some_conv intro: tracks_undo)

lemma skip_item_tracks:
  assumes "range_ok p0 er p1" "tracks p1 (Fresh m) p"
  shows "wp (skip_item n ks ts er m p) (range_ok p0)"
proof (cases er)
  case None
  note p1 = range_ok_plain [OF assms(1)]
  from assms(2) show ?thesis unfolding skip_item_def None option.case
    by - (assumption | rule error_completed [OF p1] walk | simp)+
next
  case (Some c)
  from assms(1) have "tracks p0 (Range c) p1" by (simp add: range_ok_def Some)
  with assms(2) show ?thesis unfolding skip_item_def Some option.case
    by - (assumption | rule undo_completed walk | simp)+
qed

section \<open>Items and files\<close>

lemma wp_weaken: "wp m P \<Longrightarrow> (\<And>x q. P x q \<Longrightarrow> Q x q) \<Longrightarrow> wp m Q"
  by (simp add: wp_def)

lemma wpu_weaken: "wpu m P \<Longrightarrow> (\<And>q. P q \<Longrightarrow> Q q) \<Longrightarrow> wpu m Q"
  by (simp add: wpu_def)

lemma wp_look_range:
  assumes "wp m (\<lambda>x q. q = p\<lparr>steps := steps p + 1\<rparr>)" "range_ok p0 er p" "\<And>x q. range_ok p0 er q \<Longrightarrow> Q x q"
  shows "wp m Q"
  by (rule wp_look [OF assms(1) tracks_refl]) (blast intro: assms(3) range_ok_step [OF _ assms(2)])

lemma module_item_range:
  assumes "range_ok p0 er p1" "tracks p1 (Fresh m) p"
  shows "wp (module_item n er m p) (range_ok p0)"
  using assms(2) unfolding module_item_def Let_def
  by - (assumption | rule wp_item [OF _ assms(1)] skip_item_tracks [OF assms(1)] func_decl_tracks analog_tracks net_decl_tracks
      alias_parameter_decl_tracks branch_decl_tracks walk | simp)+

lemma module_items_loop_range: "range_ok p0 er p \<Longrightarrow> wpu (module_items_loop n er p) (tracks p0 Plain)"
proof (induction n arbitrary: er p)
  case (Suc n)
  note item = wp_weaken [OF module_item_range Suc.IH]
  show ?case unfolding module_items_loop.simps
    by (rule wp_binds, rule wp_look_range [OF looks(6) Suc.prems])
      (assumption | rule item range_ok_plain walk | simp)+
qed (simp add: wpu_def)

lemma module_items_tracks: "wpu (module_items n p) (tracks p Plain)"
  unfolding module_items_def by (rule module_items_loop_range) (simp add: range_ok_def)

lemma grammar_module_tracks: "tracks p0 (Fresh m) p \<Longrightarrow> wpu (grammar_module n m p) (tracks p0 Plain)"
  unfolding grammar_module_def by (assumption | rule wpu_op [OF module_items_tracks] walk | simp)+

lemma file_item_range:
  assumes "range_ok p0 er p1" "tracks p1 (Fresh m) p"
  shows "wp (file_item n er m p) (range_ok p0)"
  using assms(2) unfolding file_item_def Let_def
  by - (assumption | rule wp_item [OF _ assms(1)] skip_item_tracks [OF assms(1)] grammar_module_tracks walk | simp)+

lemma file_loop_range: "range_ok p0 er p \<Longrightarrow> wpu (file_loop n er p) (tracks p0 Plain)"
proof (induction n arbitrary: er p)
  case (Suc n)
  note item = wp_weaken [OF file_item_range Suc.IH]
  show ?case unfolding file_loop.simps
    by (rule wp_binds, rule wp_look_range [OF looks(5) Suc.prems])
      (assumption | rule item range_ok_plain walk | simp)+
qed (simp add: wpu_def)

lemma file_loop_end: "file_loop n er p = Some q \<Longrightarrow> \<exists>r. Parser_at EOF r = Some (True, q)"
proof (induction n arbitrary: er p)
  case (Suc n)
  then obtain b p1 where at: "Parser_at EOF p = Some (b, p1)" by (auto simp: bind_eq_Some_conv)
  obtain m p2 where start: "Parser_start p1 = (m, p2)" by (cases "Parser_start p1")
  show ?case
  proof (cases b)
    case True
    with at Suc.prems show ?thesis by auto
  next
    case False
    with at start Suc.prems obtain er2 p3 where "file_loop n er2 p3 = Some q" by (auto simp: bind_eq_Some_conv)
    then show ?thesis by (rule Suc.IH)
  qed
qed simp

lemma at_EOF_end:
  assumes "Parser_at EOF p = Some (True, q)" "EOF \<notin> set (tokens q)"
  shows "length (tokens q) \<le> pos q"
proof -
  from assms(1) have q: "Parser_nth 0 p = Some (EOF, q)" by (auto simp: Parser_at_def Parser_nth_at_def bind_eq_Some_conv)
  then have same: "tokens q = tokens p" "pos q = pos p" by (auto simp: Parser_nth_def Let_def bind_eq_Some_conv)
  show ?thesis
  proof (rule ccontr)
    assume "\<not> ?thesis"
    then have "vec_get (tokens p) (pos p) = Some (tokens p ! pos p)" "tokens p ! pos p \<in> set (tokens p)"
      using same by (simp_all add: vec_get_def)
    with q assms(2) same show False by (auto simp: Parser_nth_def Let_def bind_eq_Some_conv)
  qed
qed

section \<open>The parser is lossless\<close>

lemma closed_kinds:
  "completed es s t \<Longrightarrow> (\<forall>k \<in> set (tree_tokens t). k \<le> LAST_KIND) \<Longrightarrow> tree_kinds_ok t"
  "closed es ts \<Longrightarrow> (\<forall>k \<in> set (forest_tokens ts). k \<le> LAST_KIND) \<Longrightarrow> list_all tree_kinds_ok ts"
  by (induction rule: completed_closed.inducts) auto

lemma grammar_loses_nothing:
  assumes "source_file n (Parser_new toks) = Some p" "EOF \<notin> set toks"
  shows "\<exists>ts. closed (events p) [Node SOURCE_FILE ts] \<and> forest_tokens ts = toks"
proof -
  let ?p0 = "Parser_new toks"
  obtain m p1 where start: "Parser_start ?p0 = (m, p1)" by (cases "Parser_start ?p0")
  from assms(1) start obtain q c where loop: "file_loop n None p1 = Some q" and complete: "Marker_complete m SOURCE_FILE q = Some (c, p)"
    by (auto simp: source_file_def bind_eq_Some_conv)
  note fresh = tracks_start [OF start]
  have "range_ok p1 None p1" by (simp add: range_ok_def)
  from wpuD [OF file_loop_range [OF this] loop] have body: "tracks p1 Plain q" .
  from tracks_step [OF body fresh] have q: "tracks ?p0 (Fresh m) q" by simp
  then obtain fs ts where F: "moved ?p0 q ts" "events q = events ?p0 @ Event_tombstone # fs" "closed fs ts" "m = length (events ?p0)"
    by (auto simp: tracks_def)
  from file_loop_end [OF loop] obtain r where "Parser_at EOF r = Some (True, q)" ..
  moreover have "tokens q = toks" using F(1) by (simp add: moved_def Parser_new_def)
  ultimately have "length toks \<le> pos q" using at_EOF_end assms(2) by metis
  with F(1) have "forest_tokens ts = toks" by (simp add: moved_def Parser_new_def)
  moreover have "events p = EvStart SOURCE_FILE None # fs @ [EvFinish]"
    using complete_eq(1) [OF F(2,4) complete] by (simp add: Parser_new_def)
  then have "closed (events p) [Node SOURCE_FILE ts]" using closed_completed [OF completed_node [OF F(3)]] by simp
  ultimately show ?thesis by blast
qed

text \<open>The output reads back as the steps of one tree, in which errors stand in nodes for errors only.\<close>

lemma parse_output_tree:
  assumes "parser_parse n toks = Some out" "EOF \<notin> set toks" "\<forall>k \<in> set toks. k \<le> LAST_KIND" "length (out_error out) \<le> 2 ^ 31"
  shows "\<exists>ts. Output_iter out = Some (StepEnter SOURCE_FILE # forest_steps ts @ [StepExit]) \<and> forest_tokens ts = toks \<and>
    list_all (errors_framed False) ts"
proof -
  from assms(1) obtain p where p: "source_file n (Parser_new toks) = Some p" "event_process (events p) = Some out"
    by (auto simp: parser_parse_def Parser_finish_def bind_eq_Some_conv)
  from grammar_loses_nothing [OF p(1) assms(2)] obtain ts where
    ts: "closed (events p) [Node SOURCE_FILE ts]" "forest_tokens ts = toks" by blast
  let ?ss = "forest_steps [Node SOURCE_FILE ts]"
  from event_process_closed [OF ts(1)] p(2) have out: "out = emit ?ss Output_default" by simp
  have "list_all tree_kinds_ok [Node SOURCE_FILE ts]" by (rule closed_kinds(2) [OF ts(1)]) (use ts(2) assms(3) in simp)
  then have "list_all step_kind_ok ?ss" using tree_step_kinds [of "Node SOURCE_FILE ts"] by simp
  from Output_iter_emit [OF this] assms(4) out have "Output_iter out = Some ?ss" by simp
  moreover from closed_framed(2) [OF ts(1)] have "errors_framed False (Node SOURCE_FILE ts)" by simp
  ultimately show ?thesis using ts(2) by (intro exI [of _ ts]) simp
qed

text \<open>C1: The parser is lossless. If it returns an output, for the tokens of any input, the output reads back as
the steps of one tree whose root is SOURCE_FILE and whose leaves are exactly the tokens of the input in their
order, whatever the syntax errors: every node entered is left again, no token is dropped, invented or moved, and no
event is left unprocessed. (The kinds of the tokens are kinds of the lexer, which never include EOF; the packed
output can hold 2^31 errors.)\<close>
theorem parse_lossless:
  assumes "parser_parse n toks = Some out" "EOF \<notin> set toks" "\<forall>k \<in> set toks. k \<le> LAST_KIND" "length (out_error out) \<le> 2 ^ 31"
  shows "\<exists>ts. Output_iter out = Some (StepEnter SOURCE_FILE # forest_steps ts @ [StepExit]) \<and> forest_tokens ts = toks"
  using parse_output_tree [OF assms] by blast

theorem parse_lossless_witness:
  "\<exists>out ts. parser_parse 12 [NATURE_KW, IDENT, SEMICOLON, IDENT, EQ, INT_NUMBER, SEMICOLON, ENDNATURE_KW] = Some out \<and>
     Output_iter out = Some (StepEnter SOURCE_FILE # forest_steps ts @ [StepExit]) \<and>
     forest_tokens ts = [NATURE_KW, IDENT, SEMICOLON, IDENT, EQ, INT_NUMBER, SEMICOLON, ENDNATURE_KW]"
proof -
  let ?toks = "[NATURE_KW, IDENT, SEMICOLON, IDENT, EQ, INT_NUMBER, SEMICOLON, ENDNATURE_KW]"
  have "case parser_parse 12 ?toks of None \<Rightarrow> False | Some out \<Rightarrow> length (out_error out) = 0" by code_simp
  then obtain out where out: "parser_parse 12 ?toks = Some out" "length (out_error out) = 0" by (auto split: option.splits)
  have "EOF \<notin> set ?toks" "\<forall>k \<in> set ?toks. k \<le> LAST_KIND" "length (out_error out) \<le> 2 ^ 31" by (simp_all add: out(2))
  from parse_lossless [OF out(1) this] show ?thesis using out(1) by blast
qed

end
