(* ===== verification/Parser_Roundtrip.thy ===== *)
theory Parser_Roundtrip
  imports Parser_Tracking
begin

text \<open>
  What the parser of expressions returns on the tokens of an expression: the tree of the expression, with
  the operators bound as \<open>binding_power\<close> says and grouped to the left. In contrast to Parser_Lossless, which
  speaks of the states a call returns if it returns, the rules here also show that it returns, with the
  fuel and the steps it needs.
\<close>

section \<open>States of a successful run\<close>

text \<open>What has been built since a state: nothing, a forest, below a started marker, after a preceded node, or one node.\<close>

datatype build = Still | Flat | Opened marker | Preceding marker | Built completed_marker

primrec build_events :: "build \<Rightarrow> nat \<Rightarrow> event list \<Rightarrow> syntax_tree list \<Rightarrow> bool" where
  "build_events Still n es ts \<longleftrightarrow> es = [] \<and> ts = []"
| "build_events Flat n es ts \<longleftrightarrow> closed es ts"
| "build_events (Opened m) n es ts \<longleftrightarrow> m = n \<and> (\<exists>fs. es = Event_tombstone # fs \<and> closed fs ts)"
| "build_events (Preceding m) n es ts \<longleftrightarrow> (\<exists>es0 s j t fs us. completed es0 s t \<and> es0 ! s = EvStart j None \<and>
     es = es0[s := EvStart j (Some (length es0 - s))] @ Event_tombstone # fs \<and> closed fs us \<and> m = n + length es0 \<and> ts = t # us)"
| "build_events (Built d) n es ts \<longleftrightarrow> (\<exists>s t. completed es s t \<and> ts = [t] \<and> start_pos d = n + s)"

text \<open>\<open>builds p c ts ks s q\<close>: from \<open>p\<close> to \<open>q\<close> the trees \<open>ts\<close> were built, the tokens \<open>ks\<close> are ahead, at most \<open>s\<close> steps were made.\<close>

definition builds :: "parser \<Rightarrow> build \<Rightarrow> syntax_tree list \<Rightarrow> syntax_kind list \<Rightarrow> nat \<Rightarrow> parser \<Rightarrow> bool" where
  "builds p c ts ks s q \<longleftrightarrow> drop (pos q) (tokens q) = ks \<and> steps q \<le> s \<and>
     (\<exists>es. events q = events p @ es \<and> build_events c (length (events p)) es ts)"

definition first_token :: "syntax_kind list \<Rightarrow> syntax_kind" where
  "first_token ks = (case ks of [] \<Rightarrow> EOF | k # _ \<Rightarrow> k)"

lemma first_token_simps [simp]: "first_token [] = EOF" "first_token (k # ks) = k"
  by (simp_all add: first_token_def)

definition extends :: "build \<Rightarrow> bool" where
  "extends c \<longleftrightarrow> (case c of Still \<Rightarrow> False | Built d \<Rightarrow> False | _ \<Rightarrow> True)"

lemma extends_simps [simp]: "extends Flat" "extends (Opened m)" "extends (Preceding m)" "\<not> extends Still" "\<not> extends (Built d)"
  by (simp_all add: extends_def)

lemma builds_refl: "drop (pos p) (tokens p) = ks \<Longrightarrow> steps p \<le> s \<Longrightarrow> builds p Still [] ks s p"
  by (auto simp: builds_def)

lemma builds_again: "builds p c ts ks s q \<Longrightarrow> builds q Still [] ks s q"
  by (auto simp: builds_def)

lemma builds_before: "builds p Still [] ks s q \<Longrightarrow> builds q c ts ks' s' r \<Longrightarrow> builds p c ts ks' s' r"
  by (auto simp: builds_def)

lemma builds_mono: "builds p c ts ks s q \<Longrightarrow> s \<le> s' \<Longrightarrow> builds p c ts ks s' q"
  by (auto simp: builds_def)

lemma built_flat: "builds p (Built d) ts ks s q \<Longrightarrow> builds p Flat ts ks s q"
  by (auto simp: builds_def intro: closed_completed)

lemma build_append:
  assumes "build_events c n es ts" "closed fs us" "extends c"
  shows "build_events c n (es @ fs) (ts @ us)"
proof (cases c)
  case (Preceding m)
  with assms(1) obtain es0 s j t gs vs where P: "completed es0 s t" "es0 ! s = EvStart j None"
    "es = es0[s := EvStart j (Some (length es0 - s))] @ Event_tombstone # gs" "closed gs vs" "m = n + length es0" "ts = t # vs" by auto
  from closed_append [OF P(4) assms(2)] have "closed (gs @ fs) (vs @ us)" .
  with P show ?thesis unfolding Preceding build_events.simps
    by (intro exI [of _ es0] exI [of _ s] exI [of _ j] exI [of _ t] exI [of _ "gs @ fs"] exI [of _ "vs @ us"]) simp
qed (use assms closed_append in auto)

lemma builds_step:
  assumes "builds q Flat us ks' s' r" "builds p c ts ks s q" "extends c"
  shows "builds p c (ts @ us) ks' s' r"
proof -
  from assms(1,2) obtain es fs where E: "events q = events p @ es" "build_events c (length (events p)) es ts"
    "events r = events q @ fs" "closed fs us" by (auto simp: builds_def)
  from build_append [OF E(2,4) assms(3)] E(1,3) assms(1) show ?thesis unfolding builds_def by auto
qed

lemma builds_start: "builds p c ts ks s q \<Longrightarrow> Parser_start q = (m, r) \<Longrightarrow> builds q (Opened m) [] ks s r"
  by (auto simp: builds_def Parser_start_def Parser_push_event_def intro: closed_Nil)

lemma builds_complete:
  assumes "builds p (Opened m) ts ks s q \<or> builds p (Preceding m) ts ks s q" "k \<noteq> TOMBSTONE" "k \<le> LAST_KIND"
  shows "\<exists>d r. Marker_complete m k q = Some (d, r) \<and> builds p (Built d) [Node k ts] ks s r"
  using assms(1)
proof
  assume "builds p (Opened m) ts ks s q"
  then obtain fs where q: "events q = events p @ Event_tombstone # fs" "closed fs ts" "m = length (events p)"
      "drop (pos q) (tokens q) = ks" "steps q \<le> s" by (auto simp: builds_def)
  then obtain d r where r: "Marker_complete m k q = Some (d, r)" "steps r = steps q"
    by (auto simp: Marker_complete_def Event_tombstone_def Parser_push_event_def Let_def)
  note e = complete_eq [OF q(1,3) r(1)]
  have "build_events (Built d) (length (events p)) (EvStart k None # fs @ [EvFinish]) [Node k ts]"
    unfolding build_events.simps using completed_node [OF q(2) assms(2,3)] e(2) q(3) by auto
  with r q e show ?thesis unfolding builds_def by auto
next
  assume "builds p (Preceding m) ts ks s q"
  then obtain es0 i j t fs us where q: "completed es0 i t" "es0 ! i = EvStart j None" "closed fs us"
    "events q = (events p @ es0[i := EvStart j (Some (length es0 - i))]) @ Event_tombstone # fs" "m = length (events p) + length es0"
    "ts = t # us" "drop (pos q) (tokens q) = ks" "steps q \<le> s" by (auto simp: builds_def)
  have m: "m = length (events p @ es0[i := EvStart j (Some (length es0 - i))])" using q(5) by simp
  have "vec_get (events q) m = Some Event_tombstone" unfolding q(4) m by (simp add: vec_get_def nth_append)
  then obtain d r where r: "Marker_complete m k q = Some (d, r)" "steps r = steps q"
    by (auto simp: Marker_complete_def Event_tombstone_def Parser_push_event_def Let_def)
  note e = complete_eq [OF q(4) m r(1)]
  have "build_events (Built d) (length (events p))
      (es0[i := EvStart j (Some (length es0 - i))] @ EvStart k None # fs @ [EvFinish]) [Node k ts]"
    unfolding build_events.simps q(6) using completed_preceded [OF q(1,2,3) assms(2,3)] e(2) q(5) by auto
  with r q e show ?thesis unfolding builds_def by auto
qed

lemma builds_precede:
  assumes "builds p (Built d) ts ks s q"
  shows "\<exists>m r. CompletedMarker_precede d q = Some (m, r) \<and> builds p (Preceding m) ts ks s r"
proof -
  from assms obtain es i t where q: "events q = events p @ es" "completed es i t" "ts = [t]" "start_pos d = length (events p) + i"
    "drop (pos q) (tokens q) = ks" "steps q \<le> s" by (auto simp: builds_def)
  from completed_start [OF q(2)] obtain j where i: "i < length es" "es ! i = EvStart j None" by blast
  define r where "r = q\<lparr>events := events p @ es[i := EvStart j (Some (length es - i))] @ [Event_tombstone]\<rparr>"
  have "CompletedMarker_precede d q = Some (length (events p) + length es, r)" using q(1,4) i
    by (simp add: r_def CompletedMarker_precede_def Parser_start_def Parser_push_event_def nth_append list_update_append usize_sub_def)
  moreover have "build_events (Preceding (length (events p) + length es)) (length (events p))
      (es[i := EvStart j (Some (length es - i))] @ [Event_tombstone]) ts"
    unfolding build_events.simps using q(2,3) i(2) closed_Nil by fastforce
  ultimately show ?thesis using q(5,6) unfolding builds_def r_def by auto
qed

section \<open>Rules for what returns\<close>

definition ret :: "('a \<times> parser) option \<Rightarrow> ('a \<Rightarrow> parser \<Rightarrow> bool) \<Rightarrow> bool" where
  "ret m Q \<longleftrightarrow> (\<exists>x q. m = Some (x, q) \<and> Q x q)"

definition retu :: "parser option \<Rightarrow> (parser \<Rightarrow> bool) \<Rightarrow> bool" where
  "retu m Q \<longleftrightarrow> (\<exists>q. m = Some q \<and> Q q)"

named_theorems ret_rules

lemma ret_binds [ret_rules]:
  "ret m (\<lambda>x q. ret (g x q) Q) \<Longrightarrow> ret (m \<bind> (\<lambda>(x, q). g x q)) Q"
  "ret m (\<lambda>x q. retu (g' x q) Q') \<Longrightarrow> retu (m \<bind> (\<lambda>(x, q). g' x q)) Q'"
  "retu m' (\<lambda>q. ret (h q) Q) \<Longrightarrow> ret (m' \<bind> h) Q"
  "retu m' (\<lambda>q. retu (h' q) Q') \<Longrightarrow> retu (m' \<bind> h') Q'"
  by (auto simp: ret_def retu_def)

lemma ret_returns [ret_rules]: "Q x q \<Longrightarrow> ret (Some (x, q)) Q" "Q' q \<Longrightarrow> retu (Some q) Q'"
  by (auto simp: ret_def retu_def)

lemma ret_maps [ret_rules]: "ret m (\<lambda>x q. Q' q) \<Longrightarrow> retu (map_option snd m) Q'"
  by (auto simp: ret_def retu_def)

lemma ret_start [ret_rules]:
  assumes "builds p c ts ks s q" "\<And>m r. builds q (Opened m) [] ks s r \<Longrightarrow> ret (g m r) Q"
  shows "ret (let (m, r) = Parser_start q in g m r) Q"
  using assms builds_start by (cases "Parser_start q") auto

lemma retu_start [ret_rules]:
  assumes "builds p c ts ks s q" "\<And>m r. builds q (Opened m) [] ks s r \<Longrightarrow> retu (g m r) Q"
  shows "retu (let (m, r) = Parser_start q in g m r) Q"
  using assms builds_start by (cases "Parser_start q") auto

lemma ret_ifs:
  "b \<Longrightarrow> ret m Q \<Longrightarrow> ret (if b then m else m') Q" "\<not> b \<Longrightarrow> ret m' Q \<Longrightarrow> ret (if b then m else m') Q"
  "b \<Longrightarrow> retu u Q' \<Longrightarrow> retu (if b then u else u') Q'" "\<not> b \<Longrightarrow> retu u' Q' \<Longrightarrow> retu (if b then u else u') Q'"
  by simp_all

lemma ret_weaken: "ret m P \<Longrightarrow> (\<And>x q. P x q \<Longrightarrow> Q x q) \<Longrightarrow> ret m Q"
  by (auto simp: ret_def)

lemma retu_weaken: "retu m P \<Longrightarrow> (\<And>q. P q \<Longrightarrow> Q q) \<Longrightarrow> retu m Q"
  by (auto simp: retu_def)

lemma ret_complete:
  assumes "builds p c ts ks s q" "c = Opened m \<or> c = Preceding m" "k \<noteq> TOMBSTONE" "k \<le> LAST_KIND"
    "\<And>d r. builds p (Built d) [Node k ts] ks s r \<Longrightarrow> Q d r"
  shows "ret (Marker_complete m k q) Q"
  using builds_complete [of p m ts ks s q k] assms by (auto simp: ret_def)

lemma ret_complete_in:
  assumes "builds p Still [] ks0 s0 q0" "builds q0 c ts ks s q" "c = Opened m \<or> c = Preceding m" "k \<noteq> TOMBSTONE" "k \<le> LAST_KIND"
    "\<And>d r. builds p (Built d) [Node k ts] ks s r \<Longrightarrow> Q d r"
  shows "ret (Marker_complete m k q) Q"
  by (rule ret_complete [OF builds_before [OF assms(1,2)] assms(3-5)]) (rule assms(6))

lemma ret_precede:
  assumes "builds p (Built d) ts ks s q" "\<And>m r. builds p (Preceding m) ts ks s r \<Longrightarrow> Q m r"
  shows "ret (CompletedMarker_precede d q) Q"
  using builds_precede [OF assms(1)] assms(2) by (auto simp: ret_def)

lemma nth_first:
  assumes "builds p c ts ks s q" "s \<le> step_limit"
  shows "Parser_nth 0 q = Some (first_token ks, q\<lparr>steps := steps q + 1\<rparr>)" "builds p c ts ks (Suc s) (q\<lparr>steps := steps q + 1\<rparr>)"
proof -
  have ks: "drop (pos q) (tokens q) = ks" and "steps q \<le> s" using assms(1) by (auto simp: builds_def)
  moreover have "(case vec_get (tokens q) (pos q) of None \<Rightarrow> EOF | Some k \<Rightarrow> k) = first_token ks"
    unfolding ks [symmetric] by (cases "pos q < length (tokens q)") (simp_all flip: Cons_nth_drop_Suc)
  ultimately show "Parser_nth 0 q = Some (first_token ks, q\<lparr>steps := steps q + 1\<rparr>)"
    using assms(2) by (simp add: Parser_nth_def rust_assert_def)
  show "builds p c ts ks (Suc s) (q\<lparr>steps := steps q + 1\<rparr>)" using assms(1) by (auto simp: builds_def)
qed

lemma ret_look:
  assumes "builds p c ts ks s q" "s \<le> step_limit" "\<And>r. builds p c ts ks (Suc s) r \<Longrightarrow> Q (first_token ks) r"
  shows "ret (Parser_current q) Q"
  using nth_first [OF assms(1,2)] assms(3) by (auto simp: ret_def Parser_current_def)

lemma ret_at:
  assumes "builds p c ts ks s q" "s \<le> step_limit" "\<And>r. builds p c ts ks (Suc s) r \<Longrightarrow> Q (first_token ks = k) r"
  shows "ret (Parser_at k q) Q"
  using nth_first [OF assms(1,2)] assms(3) by (auto simp: ret_def Parser_at_def Parser_nth_at_def)

lemma ret_at_ts:
  assumes "builds p c ts ks s q" "s \<le> step_limit" "\<forall>k \<in> set l. k < 128" "first_token ks < 128"
    "\<And>r. builds p c ts ks (Suc s) r \<Longrightarrow> Q (first_token ks \<in> set l) r"
  shows "ret (Parser_at_ts (TS l) q) Q"
  using nth_first [OF assms(1,2)] assms(5) TS_contains [OF assms(3,4)] by (auto simp: ret_def Parser_at_ts_def Parser_current_def)

lemma builds_bump:
  assumes "builds p c ts (k # ks) s q" "extends c"
  shows "builds p c (ts @ [Leaf k]) ks s (Parser_do_bump k q)"
proof (rule builds_step [OF _ assms])
  have "drop (pos q) (tokens q) = k # ks" "steps q \<le> s" using assms(1) by (auto simp: builds_def)
  then have "drop (Suc (pos q)) (tokens q) = ks" by (metis drop_Suc list.sel(3) tl_drop)
  with \<open>steps q \<le> s\<close> show "builds q Flat [Leaf k] ks s (Parser_do_bump k q)"
    by (auto simp: builds_def Parser_do_bump_def Parser_push_event_def closed_token)
qed

lemma ret_eat:
  assumes "builds p c ts (k # ks) s q" "s \<le> step_limit" "extends c"
    "\<And>r. builds p c (ts @ [Leaf k]) ks (Suc s) r \<Longrightarrow> Q True r"
  shows "ret (Parser_eat k q) Q"
  unfolding Parser_eat_def by (rule ret_binds, rule ret_at [OF assms(1,2)]) (auto intro!: ret_returns assms(4) builds_bump [OF _ assms(3)])

lemma retu_bump:
  assumes "builds p c ts (k # ks) s q" "s \<le> step_limit" "extends c"
    "\<And>r. builds p c (ts @ [Leaf k]) ks (Suc s) r \<Longrightarrow> Q r"
  shows "retu (Parser_bump k q) Q"
  unfolding Parser_bump_def by (rule ret_binds, rule ret_eat [OF assms(1-3)]) (simp add: retu_def rust_assert_def assms(4))

lemma ret_expect:
  assumes "builds p c ts (k # ks) s q" "s \<le> step_limit" "extends c"
    "\<And>r. builds p c (ts @ [Leaf k]) ks (Suc s) r \<Longrightarrow> Q True r"
  shows "ret (Parser_expect k q) Q"
  unfolding Parser_expect_def by (rule ret_binds, rule ret_eat [OF assms(1-3)]) (auto intro!: ret_returns assms(4))

lemma retu_bump_any:
  assumes "builds p c ts (k # ks) s q" "s \<le> step_limit" "extends c" "k \<noteq> EOF"
    "\<And>r. builds p c (ts @ [Leaf k]) ks (Suc s) r \<Longrightarrow> Q r"
  shows "retu (Parser_bump_any q) Q"
  using nth_first [OF assms(1,2)] builds_bump [OF nth_first(2) [OF assms(1,2)] assms(3)] assms(4,5)
  by (auto simp: retu_def Parser_bump_any_def)

lemma ret_eat_ts:
  assumes "builds p c ts (k # ks) s q" "Suc s \<le> step_limit" "extends c" "k \<noteq> EOF" "\<forall>k \<in> set l. k < 128" "k \<in> set l"
    "\<And>r. builds p c (ts @ [Leaf k]) ks (Suc (Suc s)) r \<Longrightarrow> Q True r"
  shows "ret (Parser_eat_ts (TS l) q) Q"
proof -
  have *: "s \<le> step_limit" "first_token (k # ks) < 128" using assms(2,5,6) by simp_all
  show ?thesis unfolding Parser_eat_ts_def
  proof (rule ret_binds, rule ret_at_ts [OF assms(1) *(1) assms(5) *(2)])
    fix r assume r: "builds p c ts (k # ks) (Suc s) r"
    have "retu (Parser_bump_any r) (\<lambda>q. Q True q)" by (rule retu_bump_any [OF r assms(2,3,4)]) (rule assms(7))
    with assms(6) show "ret (if first_token (k # ks) \<in> set l then do { p \<leftarrow> Parser_bump_any r; Some (True, p) } else Some (False, r)) Q"
      by (auto simp: retu_def ret_def)
  qed
qed

lemma ret_bump_ts:
  assumes "builds p c ts (k # ks) s q" "Suc s \<le> step_limit" "extends c" "k \<noteq> EOF" "\<forall>k \<in> set l. k < 128" "k \<in> set l"
    "\<And>r. builds p c (ts @ [Leaf k]) ks (Suc (Suc s)) r \<Longrightarrow> Q r"
  shows "retu (Parser_bump_ts (TS l) q) Q"
  unfolding Parser_bump_ts_def by (rule ret_binds, rule ret_eat_ts [OF assms(1-6)]) (simp add: retu_def rust_assert_def assms(7))

lemma ret_expect_ts:
  assumes "builds p c ts (k # ks) s q" "Suc s \<le> step_limit" "extends c" "k \<noteq> EOF" "\<forall>k \<in> set l. k < 128" "k \<in> set l"
    "\<And>r. builds p c (ts @ [Leaf k]) ks (Suc (Suc s)) r \<Longrightarrow> Q True r"
  shows "ret (Parser_expect_ts (TS l) q) Q"
  unfolding Parser_expect_ts_def by (rule ret_binds, rule ret_eat_ts [OF assms(1-6)]) (auto intro!: ret_returns assms(7))

section \<open>Expressions and their tokens\<close>

datatype source_expr =
    Literal syntax_kind
  | Path nat
  | Prefix syntax_kind source_expr
  | Paren source_expr
  | Bin syntax_kind source_expr source_expr
  | Select source_expr source_expr source_expr
  | Call nat "source_expr list"
  | SysVar
  | SysCall "source_expr list"

text \<open>A list with commas between its parts.\<close>

fun commas :: "'a \<Rightarrow> 'a list list \<Rightarrow> 'a list" where
  "commas c [] = []"
| "commas c [xs] = xs"
| "commas c (xs # ys # yss) = xs @ c # commas c (ys # yss)"

definition path_tokens :: "nat \<Rightarrow> syntax_kind list" where
  "path_tokens n = IDENT # concat (replicate n [DOT, IDENT])"

primrec expr_tokens :: "source_expr \<Rightarrow> syntax_kind list" where
  "expr_tokens (Literal k) = [k]"
| "expr_tokens (Path n) = path_tokens n"
| "expr_tokens (Prefix k e) = k # expr_tokens e"
| "expr_tokens (Paren e) = L_PAREN # expr_tokens e @ [R_PAREN]"
| "expr_tokens (Bin op l r) = expr_tokens l @ op # expr_tokens r"
| "expr_tokens (Select c a b) = expr_tokens c @ QUESTION # expr_tokens a @ COLON # expr_tokens b"
| "expr_tokens (Call n es) = path_tokens n @ L_PAREN # commas COMMA (map expr_tokens es) @ [R_PAREN]"
| "expr_tokens SysVar = [SYSFUN]"
| "expr_tokens (SysCall es) = SYSFUN # L_PAREN # commas COMMA (map expr_tokens es) @ [R_PAREN]"

fun path_tree :: "nat \<Rightarrow> syntax_tree" where
  "path_tree 0 = Node PATH [Leaf IDENT]"
| "path_tree (Suc n) = Node PATH [path_tree n, Leaf DOT, Leaf IDENT]"

primrec expr_tree :: "source_expr \<Rightarrow> syntax_tree" where
  "expr_tree (Literal k) = Node LITERAL [Leaf k]"
| "expr_tree (Path n) = Node PATH_EXPR [path_tree n]"
| "expr_tree (Prefix k e) = Node PREFIX_EXPR [Leaf k, expr_tree e]"
| "expr_tree (Paren e) = Node PAREN_EXPR [Leaf L_PAREN, expr_tree e, Leaf R_PAREN]"
| "expr_tree (Bin op l r) = Node BIN_EXPR [expr_tree l, Leaf op, expr_tree r]"
| "expr_tree (Select c a b) = Node SELECT_EXPR [expr_tree c, Leaf QUESTION, expr_tree a, Leaf COLON, expr_tree b]"
| "expr_tree (Call n es) = Node CALL [path_tree n, Node ARG_LIST (Leaf L_PAREN # commas (Leaf COMMA) (map (\<lambda>e. [expr_tree e]) es) @ [Leaf R_PAREN])]"
| "expr_tree SysVar = Node CALL [Node SYS_FUN [Leaf SYSFUN]]"
| "expr_tree (SysCall es) = Node CALL [Node SYS_FUN [Leaf SYSFUN],
     Node ARG_LIST (Leaf L_PAREN # commas (Leaf COMMA) (map (\<lambda>e. [expr_tree e]) es) @ [Leaf R_PAREN])]"

text \<open>The binding power of an expression: that of its outermost operator, or more than any for an atom.\<close>

primrec expr_power :: "source_expr \<Rightarrow> nat" where
  "expr_power (Literal k) = 15"
| "expr_power (Path n) = 15"
| "expr_power (Prefix k e) = 15"
| "expr_power (Paren e) = 15"
| "expr_power (Bin op l r) = fst (binding_power op)"
| "expr_power (Select c a b) = 1"
| "expr_power (Call n es) = 15"
| "expr_power SysVar = 15"
| "expr_power (SysCall es) = 15"

text \<open>
  Which expressions can be written without further parentheses: the operand on the left of an operator binds
  at least as tightly as the operator, the one on the right more tightly, that of a prefix is an atom and
  the condition of a select is none itself.
\<close>

primrec source_ok :: "source_expr \<Rightarrow> bool" where
  "source_ok (Literal k) \<longleftrightarrow> k \<in> {INT_NUMBER, SI_REAL_NUMBER, STD_REAL_NUMBER, STR_LIT, INF_KW}"
| "source_ok (Path n) \<longleftrightarrow> True"
| "source_ok (Prefix k e) \<longleftrightarrow> k \<in> {TILDE, BANG, MINUS, PLUS} \<and> expr_power e = 15 \<and> source_ok e"
| "source_ok (Paren e) \<longleftrightarrow> source_ok e"
| "source_ok (Bin op l r) \<longleftrightarrow> 2 \<le> fst (binding_power op) \<and> fst (binding_power op) \<le> expr_power l \<and> fst (binding_power op) < expr_power r \<and>
     source_ok l \<and> source_ok r"
| "source_ok (Select c a b) \<longleftrightarrow> 2 \<le> expr_power c \<and> source_ok c \<and> source_ok a \<and> source_ok b"
| "source_ok (Call n es) \<longleftrightarrow> list_all source_ok es"
| "source_ok SysVar \<longleftrightarrow> True"
| "source_ok (SysCall es) \<longleftrightarrow> list_all source_ok es"

text \<open>The token after an expression does not continue a path or a call, and binds less than \<open>b\<close>.\<close>

definition follows :: "nat \<Rightarrow> syntax_kind list \<Rightarrow> bool" where
  "follows b ks \<longleftrightarrow> first_token ks \<notin> {DOT, L_PAREN} \<and> first_token ks < 128 \<and> fst (binding_power (first_token ks)) < b"

lemma follows_mono: "follows b ks \<Longrightarrow> b \<le> c \<Longrightarrow> follows c ks"
  by (auto simp: follows_def)

lemma binding_power_le: "fst (binding_power k) \<le> 14"
  by (simp add: binding_power_def)

lemma binding_power_op: "0 < fst (binding_power k) \<Longrightarrow> snd (binding_power k) = k \<and> k < 128 \<and> k \<notin> {DOT, L_PAREN, EOF}"
  by (auto simp: binding_power_def split: if_splits)

lemma follows_op: "1 < b \<Longrightarrow> fst (binding_power k) < b \<Longrightarrow> 0 < fst (binding_power k) \<Longrightarrow> follows b (k # ks)"
  using binding_power_op [of k] by (simp add: follows_def)

lemma expr_tokens_pos: "0 < length (expr_tokens e)"
  by (cases e) (simp_all add: path_tokens_def)

section \<open>Paths\<close>

lemma path_loop_ret:
  "builds p (Built c) [path_tree i] (concat (replicate j [DOT, IDENT]) @ ks) s q \<Longrightarrow> first_token ks \<noteq> DOT \<Longrightarrow>
     s + 4 * j \<le> step_limit \<Longrightarrow> j < n \<Longrightarrow> s + 4 * j + 1 \<le> s' \<Longrightarrow>
   ret (path_loop n c q) (\<lambda>d r. builds p (Built d) [path_tree (i + j)] ks s' r)"
proof (induction n arbitrary: c i j s q)
  case (Suc n)
  show ?case
  proof (cases j)
    case 0
    with Suc.prems show ?thesis unfolding path_loop.simps
      by (intro ret_binds ret_at [OF Suc.prems(1)]) (auto intro!: ret_returns elim: builds_mono)
  next
    case (Suc j')
    let ?ks = "concat (replicate j' [DOT, IDENT]) @ ks"
    have here: "builds p (Built c) [path_tree i] (DOT # IDENT # ?ks) s q" using Suc.prems(1) by (simp add: Suc)
    have lim: "s \<le> step_limit" "Suc s \<le> step_limit" "Suc (Suc (Suc s)) \<le> step_limit" using Suc.prems(3) Suc by simp_all
    have ih: "ret (path_loop n d r) (\<lambda>d r. builds p (Built d) [path_tree (i + j)] ks s' r)"
      if "builds p (Built d) [path_tree (Suc i)] ?ks (Suc (Suc (Suc (Suc s)))) r" for d r
      using Suc.IH [OF that Suc.prems(2)] Suc.prems(3-5) Suc by simp
    show ?thesis unfolding path_loop.simps
    proof (rule ret_binds, rule ret_at [OF here lim(1)])
      fix r1 assume r1: "builds p (Built c) [path_tree i] (DOT # IDENT # ?ks) (Suc s) r1"
      have "ret (do { (path, p) \<leftarrow> CompletedMarker_precede c r1; p \<leftarrow> Parser_bump DOT p; (_, p) \<leftarrow> Parser_expect_ts PATH_SEGMENT_TS p;
          (path, p) \<leftarrow> Marker_complete path PATH p; path_loop n path p }) (\<lambda>d r. builds p (Built d) [path_tree (i + j)] ks s' r)"
        unfolding PATH_SEGMENT_TS_def using lim
        by (intro ret_binds ret_precede [OF r1]) (rule retu_bump ret_binds ret_expect_ts ret_complete ih | assumption | simp)+
      then show "ret (if first_token (DOT # IDENT # ?ks) = DOT
          then do { (path, p) \<leftarrow> CompletedMarker_precede c r1; p \<leftarrow> Parser_bump DOT p; (_, p) \<leftarrow> Parser_expect_ts PATH_SEGMENT_TS p;
            (path, p) \<leftarrow> Marker_complete path PATH p; path_loop n path p }
          else Some (c, r1)) (\<lambda>d r. builds p (Built d) [path_tree (i + j)] ks s' r)" by simp
    qed
  qed
qed simp

lemma grammar_path_ret:
  assumes "builds p Still [] (path_tokens i @ ks) s q" "first_token ks \<noteq> DOT" "s + 4 * i + 3 \<le> step_limit" "i < n" "s + 4 * i + 4 \<le> s'"
  shows "ret (grammar_path n q) (\<lambda>d r. builds p (Built d) [path_tree i] ks s' r)"
proof -
  let ?ks = "concat (replicate i [DOT, IDENT]) @ ks"
  have here: "builds p Still [] (IDENT # ?ks) s q" using assms(1) by (simp add: path_tokens_def)
  have lim: "s \<le> step_limit" "Suc (Suc s) \<le> step_limit" using assms(3) by simp_all
  have loop: "ret (path_loop n d r) (\<lambda>d r. builds p (Built d) [path_tree i] ks s' r)"
    if "builds p (Built d) [Node PATH [Leaf IDENT]] ?ks (Suc (Suc (Suc s))) r" for d r
    using path_loop_ret [of p d 0 i ks "Suc (Suc (Suc s))" r n s'] that assms(2-5) by simp
  show ?thesis unfolding grammar_path_def PATH_SEGMENT_TS_def
  proof (rule ret_binds, rule ret_at_ts [OF here lim(1)])
    fix r assume r: "builds p Still [] (IDENT # ?ks) (Suc s) r"
    have "ret (let (path, p) = Parser_start r in do { (_, p) \<leftarrow> Parser_expect_ts (TS [IDENT, ROOT_KW]) p;
        (qual, p) \<leftarrow> Marker_complete path PATH p; path_loop n qual p }) (\<lambda>d r. builds p (Built d) [path_tree i] ks s' r)"
      using lim
      by (intro ret_start [OF r])
        (rule ret_binds ret_expect_ts ret_complete_in [OF r] loop | assumption | simp)+
    then show "ret (do { _ \<leftarrow> rust_assert (first_token (IDENT # ?ks) \<in> set [IDENT, ROOT_KW]);
        let (path, p) = Parser_start r; (_, p) \<leftarrow> Parser_expect_ts (TS [IDENT, ROOT_KW]) p;
        (qual, p) \<leftarrow> Marker_complete path PATH p; path_loop n qual p }) (\<lambda>d r. builds p (Built d) [path_tree i] ks s' r)"
      by (simp add: rust_assert_def)
  qed simp_all
qed

section \<open>Atoms\<close>

text \<open>
  \<open>parses f b ks t c\<close>: on the tokens \<open>ks\<close>, followed by one that binds less than \<open>b\<close>, the call \<open>f\<close> returns the
  tree \<open>t\<close> after at most \<open>c\<close> steps.
\<close>

definition parses :: "(parser \<Rightarrow> (completed_marker option \<times> parser) panics) \<Rightarrow> nat \<Rightarrow> syntax_kind list \<Rightarrow> syntax_tree \<Rightarrow> nat \<Rightarrow> bool" where
  "parses f b toks t c \<longleftrightarrow> (\<forall>ks s p q. follows b ks \<longrightarrow> builds p Still [] (toks @ ks) s q \<longrightarrow> s + c \<le> step_limit \<longrightarrow>
     ret (f q) (\<lambda>x r. \<exists>d. x = Some d \<and> builds p (Built d) [t] ks (s + c) r))"

text \<open>A call inside a node adds its tree to the node.\<close>

lemma ret_sub:
  assumes "parses f b toks t c" "builds p ct ts (toks @ ks) s q" "extends ct" "follows b ks" "s + c \<le> step_limit"
    "\<And>d r. builds p ct (ts @ [t]) ks (s + c) r \<Longrightarrow> Q (Some d) r"
  shows "ret (f q) Q"
proof -
  have "ret (f q) (\<lambda>x r. \<exists>d. x = Some d \<and> builds q (Built d) [t] ks (s + c) r)"
    using assms(1,4,5) builds_again [OF assms(2)] by (simp add: parses_def)
  then show ?thesis
    by (rule ret_weaken) (auto intro!: assms(6) builds_step [OF built_flat _ assms(3)] intro: assms(2))
qed

text \<open>A proof that an atom is parsed: the first token is looked at, then the branch for it is followed.\<close>

definition atom_result :: "parser \<Rightarrow> syntax_tree \<Rightarrow> syntax_kind list \<Rightarrow> nat \<Rightarrow> completed_marker option \<Rightarrow> parser \<Rightarrow> bool" where
  "atom_result p t ks s x r \<longleftrightarrow> (\<exists>d. x = Some d \<and> builds p (Built d) [t] ks s r)"

lemma parsesI:
  assumes "\<And>ks s p q. follows b ks \<Longrightarrow> builds p Still [] (toks @ ks) s q \<Longrightarrow> s + c \<le> step_limit \<Longrightarrow> ret (f q) (atom_result p t ks (s + c))"
  shows "parses f b toks t c"
  using assms by (simp add: parses_def atom_result_def [abs_def])

lemma atom_resultI: "builds p (Built d) [t] ks s r \<Longrightarrow> s \<le> s' \<Longrightarrow> atom_result p t ks s' (Some d) r"
  using builds_mono by (auto simp: atom_result_def)

definition atom_branch ::
    "(parser \<Rightarrow> (completed_marker option \<times> parser) panics) \<Rightarrow> nat \<Rightarrow> syntax_kind \<Rightarrow> parser \<Rightarrow> (completed_marker option \<times> parser) panics" where
  "atom_branch ex n k p =
     (if k = L_PAREN then do { (c, p) \<leftarrow> paren_expr ex n p; Some (Some c, p) }
      else if k = TILDE \<or> k = BANG \<or> k = MINUS \<or> k = PLUS then
        do { let (m, p) = Parser_start p;
             p \<leftarrow> Parser_bump_ts (TS [TILDE, BANG, MINUS, PLUS]) p;
             (_, p) \<leftarrow> atom_expr ex n p;
             (c, p) \<leftarrow> Marker_complete m PREFIX_EXPR p;
             Some (Some c, p) }
      else if k = IDENT \<or> k = ROOT_KW then
        do { (m, p) \<leftarrow> grammar_path n p;
             (b, p) \<leftarrow> Parser_at L_PAREN p;
             if b then do { (c, p) \<leftarrow> call_expr ex n m p; Some (Some c, p) }
             else do { (m, p) \<leftarrow> CompletedMarker_precede m p;
                       (c, p) \<leftarrow> Marker_complete m PATH_EXPR p;
                       Some (Some c, p) } }
      else if k = SYSFUN then do { (c, p) \<leftarrow> sys_fun_call ex n p; Some (Some c, p) }
      else if k = L_ANGLE then do { (c, p) \<leftarrow> port_flow n p; Some (Some c, p) }
      else if k = INT_NUMBER \<or> k = SI_REAL_NUMBER \<or> k = STD_REAL_NUMBER \<or> k = STR_LIT \<or> k = INF_KW then
        do { let (m, p) = Parser_start p;
             p \<leftarrow> Parser_bump_any p;
             (c, p) \<leftarrow> Marker_complete m LITERAL p;
             Some (Some c, p) }
      else
        do { (err, p) \<leftarrow> Parser_unexpected_tokens_msg EXPR_EXPECTED p;
             (_, p) \<leftarrow> Parser_err_recover err EXPR_RECOVERY_SET p;
             Some (None, p) })"

lemma atom_expr_branch: "atom_expr ex (Suc n) p = Parser_current p \<bind> (\<lambda>(k, p). atom_branch ex n k p)"
  by (simp add: atom_branch_def)

lemma atom_parses:
  assumes "0 < m"
    "\<And>n ks s p r. m = Suc n \<Longrightarrow> follows b ks \<Longrightarrow> s + c \<le> step_limit \<Longrightarrow> builds p Still [] (toks @ ks) (Suc s) r \<Longrightarrow>
      ret (atom_branch ex n (first_token (toks @ ks)) r) (atom_result p t ks (s + c))"
  shows "parses (\<lambda>q. atom_expr ex m q) b toks t c"
proof (rule parsesI)
  fix ks s p q assume q: "follows b ks" "builds p Still [] (toks @ ks) s q" "s + c \<le> step_limit"
  obtain n where n: "m = Suc n" using assms(1) by (cases m) auto
  show "ret (atom_expr ex m q) (atom_result p t ks (s + c))" unfolding n atom_expr_branch
    by (intro ret_binds ret_look [OF q(2)]) (use q(3) in \<open>auto intro!: assms(2) [OF n q(1,3)]\<close>)
qed

lemma atom_literal:
  assumes "k \<in> {INT_NUMBER, SI_REAL_NUMBER, STD_REAL_NUMBER, STR_LIT, INF_KW}" "0 < m"
  shows "parses (\<lambda>q. atom_expr ex m q) b [k] (Node LITERAL [Leaf k]) 9"
proof (rule atom_parses [OF assms(2)])
  fix n ks s p r assume lim: "s + 9 \<le> step_limit" and r: "builds p Still [] ([k] @ ks) (Suc s) r"
  have branch: "atom_branch ex n (first_token ([k] @ ks)) r =
      (let (m, p) = Parser_start r in do { p \<leftarrow> Parser_bump_any p; (c, p) \<leftarrow> Marker_complete m LITERAL p; Some (Some c, p) })"
    using assms(1) by (auto simp: atom_branch_def)
  show "ret (atom_branch ex n (first_token ([k] @ ks)) r) (atom_result p (Node LITERAL [Leaf k]) ks (s + 9))"
    unfolding branch using lim assms(1)
    by (intro ret_start [OF r])
      (rule ret_binds ret_returns retu_bump_any ret_complete_in [OF r] atom_resultI | assumption | force)+
qed

lemma atom_path:
  assumes "i + 1 < m"
  shows "parses (\<lambda>q. atom_expr ex m q) b (path_tokens i) (Node PATH_EXPR [path_tree i]) (4 * i + 7)"
proof (rule atom_parses)
  fix n ks s p r assume n: "m = Suc n" and follow: "follows b ks" and lim: "s + (4 * i + 7) \<le> step_limit"
    and r: "builds p Still [] (path_tokens i @ ks) (Suc s) r"
  let ?rest = "\<lambda>m p. do { (b, p) \<leftarrow> Parser_at L_PAREN p;
      if b then do { (c, p) \<leftarrow> call_expr ex n m p; Some (Some c, p) }
      else do { (m, p) \<leftarrow> CompletedMarker_precede m p; (c, p) \<leftarrow> Marker_complete m PATH_EXPR p; Some (Some c, p) } }"
  have branch: "atom_branch ex n (first_token (path_tokens i @ ks)) r = grammar_path n r \<bind> (\<lambda>(m, p). ?rest m p)"
    by (simp add: atom_branch_def path_tokens_def)
  have "ret (?rest d q) (atom_result p (Node PATH_EXPR [path_tree i]) ks (s + (4 * i + 7)))"
    if q: "builds p (Built d) [path_tree i] ks (s + 4 * i + 5) q" for d q
  proof (intro ret_binds ret_at [OF q])
    fix q' assume q': "builds p (Built d) [path_tree i] ks (Suc (s + 4 * i + 5)) q'"
    have "ret (do { (m, p) \<leftarrow> CompletedMarker_precede d q'; (c, p) \<leftarrow> Marker_complete m PATH_EXPR p; Some (Some c, p) })
        (atom_result p (Node PATH_EXPR [path_tree i]) ks (s + (4 * i + 7)))"
      by (intro ret_binds ret_precede [OF q']) (rule ret_binds ret_returns ret_complete atom_resultI | assumption | simp)+
    then show "ret (if first_token ks = L_PAREN then do { (c, p) \<leftarrow> call_expr ex n d q'; Some (Some c, p) }
      else do { (m, p) \<leftarrow> CompletedMarker_precede d q'; (c, p) \<leftarrow> Marker_complete m PATH_EXPR p; Some (Some c, p) })
        (atom_result p (Node PATH_EXPR [path_tree i]) ks (s + (4 * i + 7)))" using follow by (simp add: follows_def)
  qed (use lim in simp)
  moreover have "ret (grammar_path n r) (\<lambda>d q. builds p (Built d) [path_tree i] ks (s + 4 * i + 5) q)"
    by (rule grammar_path_ret [OF r]) (use follow lim n assms in \<open>simp_all add: follows_def\<close>)
  ultimately show "ret (atom_branch ex n (first_token (path_tokens i @ ks)) r) (atom_result p (Node PATH_EXPR [path_tree i]) ks (s + (4 * i + 7)))"
    unfolding branch by (intro ret_binds) (auto elim: ret_weaken)
qed (use assms in simp)

lemma atom_prefix:
  assumes "k \<in> {TILDE, BANG, MINUS, PLUS}" "\<And>n. m = Suc n \<Longrightarrow> parses (\<lambda>q. atom_expr ex n q) b toks t c" "0 < m"
  shows "parses (\<lambda>q. atom_expr ex m q) b (k # toks) (Node PREFIX_EXPR [Leaf k, t]) (c + 3)"
proof (rule atom_parses [OF assms(3)])
  fix n ks s p r assume n: "m = Suc n" and follow: "follows b ks" and lim: "s + (c + 3) \<le> step_limit"
    and r: "builds p Still [] ((k # toks) @ ks) (Suc s) r"
  have branch: "atom_branch ex n (first_token ((k # toks) @ ks)) r =
      (let (m, p) = Parser_start r in do { p \<leftarrow> Parser_bump_ts (TS [TILDE, BANG, MINUS, PLUS]) p; (_, p) \<leftarrow> atom_expr ex n p;
         (c, p) \<leftarrow> Marker_complete m PREFIX_EXPR p; Some (Some c, p) })"
    using assms(1) by (auto simp: atom_branch_def)
  have r': "builds p Still [] (k # toks @ ks) (Suc s) r" using r by simp
  show "ret (atom_branch ex n (first_token ((k # toks) @ ks)) r) (atom_result p (Node PREFIX_EXPR [Leaf k, t]) ks (s + (c + 3)))"
    unfolding branch using lim assms(1)
    by (intro ret_start [OF r'])
      (rule ret_binds ret_returns ret_bump_ts ret_sub [OF assms(2) [OF n] _ _ follow] ret_complete_in [OF r] atom_resultI | assumption | force)+
qed

section \<open>Parentheses and calls\<close>

text \<open>What an expression starts with.\<close>

lemma first_expr_token:
  "source_ok e \<Longrightarrow> first_token (expr_tokens e @ ks) \<notin> {EOF, R_PAREN, COMMA}"
  by (induction e arbitrary: ks) (auto simp: path_tokens_def)

lemma follows_closing: "follows 1 (R_PAREN # ks)" "follows 1 (COMMA # ks)" "follows 1 (COLON # ks)"
  by (simp_all add: follows_def binding_power_def)

lemma atom_paren:
  assumes "source_ok e" "parses ex 1 (expr_tokens e) t c" "3 < m"
  shows "parses (\<lambda>q. atom_expr ex m q) b (L_PAREN # expr_tokens e @ [R_PAREN]) (Node PAREN_EXPR [Leaf L_PAREN, t, Leaf R_PAREN]) (c + 8)"
proof (rule atom_parses)
  fix n ks s p r assume n: "m = Suc n" and lim: "s + (c + 8) \<le> step_limit"
    and r: "builds p Still [] ((L_PAREN # expr_tokens e @ [R_PAREN]) @ ks) (Suc s) r"
  obtain n' where n': "n = Suc (Suc n')" using n assms(3) by (metis Suc_lessE not0_implies_Suc not_less_zero numeral_3_eq_3 Suc_less_eq)
  have branch: "atom_branch ex n (first_token ((L_PAREN # expr_tokens e @ [R_PAREN]) @ ks)) r =
      do { (c, p) \<leftarrow> paren_expr ex n r; Some (Some c, p) }"
    by (simp add: atom_branch_def)
  have r': "builds p Still [] (L_PAREN # expr_tokens e @ R_PAREN # ks) (Suc s) r" using r by simp
  note start = first_expr_token [OF assms(1), of "R_PAREN # ks"]
  have last: "retu (paren_loop ex (Suc n') q) (\<lambda>q. builds p0 (Opened mk) ts (R_PAREN # ks) (Suc (Suc s1)) q)"
    if q: "builds p0 (Opened mk) ts (R_PAREN # ks) s1 q" "s1 + 1 \<le> step_limit" for p0 mk ts s1 q
    unfolding paren_loop.simps using q(2)
    by (intro ret_binds ret_at [OF q(1)]) (assumption | rule ret_binds ret_returns ret_ifs ret_at | (simp; fail))+
  have loop: "retu (paren_loop ex n q) (\<lambda>q. builds p0 (Opened mk) (ts @ [t]) (R_PAREN # ks) (Suc (Suc (Suc (Suc (Suc s1 + c))))) q)"
    if q: "builds p0 (Opened mk) ts (expr_tokens e @ R_PAREN # ks) s1 q" "s1 + c + 5 \<le> step_limit" for p0 mk ts s1 q
    unfolding n' paren_loop.simps using q(2) start
    by (intro ret_binds ret_at [OF q(1)])
      (assumption | rule ret_binds ret_returns ret_ifs ret_sub [OF assms(2) _ _ follows_closing(1)] last ret_at | (simp; fail))+
  show "ret (atom_branch ex n (first_token ((L_PAREN # expr_tokens e @ [R_PAREN]) @ ks)) r)
      (atom_result p (Node PAREN_EXPR [Leaf L_PAREN, t, Leaf R_PAREN]) ks (s + (c + 8)))"
    unfolding branch paren_expr_def using lim
    by (intro ret_binds ret_start [OF r'])
      (assumption | rule ret_binds ret_returns retu_bump retu_weaken [OF loop] ret_expect ret_complete_in [OF r] atom_resultI | (simp; fail))+
qed (use assms in simp)

text \<open>The arguments of a call.\<close>

definition arg_tokens :: "source_expr list \<Rightarrow> syntax_kind list" where
  "arg_tokens es = commas COMMA (map expr_tokens es)"

definition arg_trees :: "source_expr list \<Rightarrow> syntax_tree list" where
  "arg_trees es = commas (Leaf COMMA) (map (\<lambda>e. [expr_tree e]) es)"

lemma arg_simps:
  "arg_tokens [] = []" "arg_tokens [e] = expr_tokens e" "arg_tokens (e # e' # es) = expr_tokens e @ COMMA # arg_tokens (e' # es)"
  "arg_trees [] = []" "arg_trees [e] = [expr_tree e]" "arg_trees (e # e' # es) = expr_tree e # Leaf COMMA # arg_trees (e' # es)"
  by (simp_all add: arg_tokens_def arg_trees_def)

definition arg_cost :: "source_expr list \<Rightarrow> nat" where
  "arg_cost es = sum_list (map (\<lambda>e. 9 * length (expr_tokens e) + 5) es)"

lemma arg_cost_simps [simp]: "arg_cost [] = 0" "arg_cost (e # es) = 9 * length (expr_tokens e) + 5 + arg_cost es"
  by (simp_all add: arg_cost_def)

lemma arg_cost_tokens: "arg_cost es \<le> 9 * length (arg_tokens es) + 5"
proof (induction es)
  case (Cons e es)
  then show ?case by (cases es) (simp_all add: arg_simps)
qed (simp add: arg_simps)

lemma arg_loop_ret:
  assumes "\<forall>e \<in> set es. source_ok e \<and> parses ex 1 (expr_tokens e) (expr_tree e) (9 * length (expr_tokens e) + 1)"
    "builds p ct ts (arg_tokens es @ R_PAREN # ks) s q" "extends ct" "s + arg_cost es \<le> step_limit" "s + arg_cost es + 1 \<le> s'" "length es < n"
  shows "retu (arg_loop ex n q) (\<lambda>r. builds p ct (ts @ arg_trees es) (R_PAREN # ks) s' r)"
  using assms
proof (induction es arbitrary: ts s q n)
  case Nil
  then obtain n' where n: "n = Suc n'" by (cases n) auto
  have q: "builds p ct ts (R_PAREN # ks) s q" using Nil.prems(2) by (simp add: arg_simps)
  show ?case unfolding n arg_loop.simps using Nil.prems
    by (intro ret_binds ret_at [OF q]) (auto simp: arg_simps intro!: ret_returns elim: builds_mono)
next
  case (Cons e es)
  then obtain n' where n: "n = Suc n'" by (cases n) auto
  have e: "source_ok e" "parses ex 1 (expr_tokens e) (expr_tree e) (9 * length (expr_tokens e) + 1)" using Cons.prems(1) by simp_all
  have ih: "retu (arg_loop ex n' r) (\<lambda>r. builds p ct (ts' @ arg_trees es) (R_PAREN # ks) s' r)"
    if "builds p ct ts' (arg_tokens es @ R_PAREN # ks) s1 r" "s1 + arg_cost es \<le> step_limit" "s1 + arg_cost es + 1 \<le> s'" for ts' s1 r
    by (rule Cons.IH) (use that Cons.prems n in simp_all)
  show ?case
  proof (cases es)
    case Nil
    have q: "builds p ct ts (expr_tokens e @ R_PAREN # ks) s q" using Cons.prems(2) Nil by (simp add: arg_simps)
    have ih': "retu (arg_loop ex n' r) (\<lambda>r. builds p ct (ts @ arg_trees [e]) (R_PAREN # ks) s' r)"
      if "builds p ct (ts @ [expr_tree e]) (R_PAREN # ks) s1 r" "s1 \<le> step_limit" "s1 + 1 \<le> s'" for s1 r
      using ih [of "ts @ [expr_tree e]" s1 r] that Nil by (simp add: arg_simps)
    show ?thesis unfolding n Nil arg_loop.simps
      using Cons.prems(3-5) first_expr_token [OF e(1), of "R_PAREN # ks"] Nil
      by (intro ret_binds ret_at [OF q])
        (assumption | rule ret_binds ret_returns ret_ifs ret_sub [OF e(2) _ _ follows_closing(1)] ih' ret_at | (simp; fail))+
  next
    case (Cons e' es')
    have q: "builds p ct ts (expr_tokens e @ COMMA # arg_tokens es @ R_PAREN # ks) s q" using Cons.prems(2) Cons by (simp add: arg_simps)
    have ih': "retu (arg_loop ex n' r) (\<lambda>r. builds p ct (ts @ arg_trees (e # es)) (R_PAREN # ks) s' r)"
      if "builds p ct ((ts @ [expr_tree e]) @ [Leaf COMMA]) (arg_tokens es @ R_PAREN # ks) s1 r" "s1 + arg_cost es \<le> step_limit"
        "s1 + arg_cost es + 1 \<le> s'" for s1 r
      using ih [OF that] Cons by (simp add: arg_simps)
    show ?thesis unfolding n arg_loop.simps
      using Cons.prems(3-5) first_expr_token [OF e(1), of "COMMA # arg_tokens es @ R_PAREN # ks"]
      by (intro ret_binds ret_at [OF q])
        (assumption | rule ret_binds ret_returns ret_ifs ret_sub [OF e(2) _ _ follows_closing(2)] ih' ret_at ret_expect | (simp; fail))+
  qed
qed

definition args_ok :: "(parser \<Rightarrow> (completed_marker option \<times> parser) panics) \<Rightarrow> source_expr list \<Rightarrow> bool" where
  "args_ok ex es \<longleftrightarrow> (\<forall>e \<in> set es. source_ok e \<and> parses ex 1 (expr_tokens e) (expr_tree e) (9 * length (expr_tokens e) + 1))"

definition args_tree :: "source_expr list \<Rightarrow> syntax_tree" where
  "args_tree es = Node ARG_LIST (Leaf L_PAREN # arg_trees es @ [Leaf R_PAREN])"

lemma retu_map_complete:
  assumes "builds p (Opened m) ts ks s q" "k \<noteq> TOMBSTONE" "k \<le> LAST_KIND" "\<And>r. builds p Flat [Node k ts] ks s r \<Longrightarrow> Q r"
  shows "retu (map_option snd (Marker_complete m k q)) Q"
  by (rule ret_maps, rule ret_complete [OF assms(1) _ assms(2,3)]) (auto intro: assms(4) built_flat)

lemma arg_list_ret:
  assumes "args_ok ex es" "builds p ct ts (L_PAREN # arg_tokens es @ R_PAREN # ks) s q" "extends ct"
    "s + arg_cost es + 3 \<le> s'" "s' \<le> step_limit" "length es < n"
  shows "retu (arg_list ex n q) (\<lambda>r. builds p ct (ts @ [args_tree es]) ks s' r)"
proof -
  note loop = arg_loop_ret [OF assms(1) [unfolded args_ok_def]]
  have close: "builds p ct (ts @ [args_tree es]) ks s' r"
    if "builds q Flat [Node ARG_LIST (([Leaf L_PAREN] @ arg_trees es) @ [Leaf R_PAREN])] ks s1 r" "s1 \<le> s'" for s1 r
    using builds_step [OF _ assms(2,3), of "[args_tree es]" ks s' r] builds_mono [OF that] by (simp add: args_tree_def)
  have loop': "retu (arg_loop ex n r)
      (\<lambda>r. builds q (Opened m) ([Leaf L_PAREN] @ arg_trees es) (R_PAREN # ks) (s + arg_cost es + 2) r)"
    if "builds q (Opened m) [Leaf L_PAREN] (arg_tokens es @ R_PAREN # ks) (Suc s) r" for m r
    by (rule loop [OF that]) (use assms(4-6) in simp_all)
  show ?thesis unfolding arg_list_def
    using assms(4,5)
    by (intro ret_start retu_start [OF assms(2)])
      (assumption | rule ret_binds ret_returns ret_eat retu_weaken [OF loop'] retu_map_complete close | (simp; fail))+
qed

lemma atom_call:
  assumes "args_ok ex es" "i + length es + 2 < m"
  shows "parses (\<lambda>q. atom_expr ex m q) b (path_tokens i @ L_PAREN # arg_tokens es @ [R_PAREN]) (Node CALL [path_tree i, args_tree es])
    (4 * i + arg_cost es + 9)"
proof (rule atom_parses)
  let ?toks = "path_tokens i @ L_PAREN # arg_tokens es @ [R_PAREN]" and ?t = "Node CALL [path_tree i, args_tree es]"
  fix n ks s p r assume n: "m = Suc n" and lim: "s + (4 * i + arg_cost es + 9) \<le> step_limit"
    and "builds p Still [] (?toks @ ks) (Suc s) r"
  then have r: "builds p Still [] (path_tokens i @ L_PAREN # arg_tokens es @ R_PAREN # ks) (Suc s) r" by simp
  let ?rest = "\<lambda>m p. do { (b, p) \<leftarrow> Parser_at L_PAREN p;
      if b then do { (c, p) \<leftarrow> call_expr ex n m p; Some (Some c, p) }
      else do { (m, p) \<leftarrow> CompletedMarker_precede m p; (c, p) \<leftarrow> Marker_complete m PATH_EXPR p; Some (Some c, p) } }"
  have branch: "atom_branch ex n (first_token (?toks @ ks)) r = grammar_path n r \<bind> (\<lambda>(m, p). ?rest m p)"
    by (simp add: atom_branch_def path_tokens_def)
  have args: "retu (arg_list ex n q) (\<lambda>r. builds p (Preceding mk) [path_tree i, args_tree es] ks (s + (4 * i + arg_cost es + 9)) r)"
    if "builds p (Preceding mk) [path_tree i] (L_PAREN # arg_tokens es @ R_PAREN # ks) (s + 4 * i + 6) q" for mk q
    using arg_list_ret [OF assms(1) that, of "s + (4 * i + arg_cost es + 9)" n] lim n assms(2) by simp
  have "ret (?rest d q) (atom_result p ?t ks (s + (4 * i + arg_cost es + 9)))"
    if q: "builds p (Built d) [path_tree i] (L_PAREN # arg_tokens es @ R_PAREN # ks) (s + 4 * i + 5) q" for d q
  proof -
    have q6: "builds p (Built d) [path_tree i] (L_PAREN # arg_tokens es @ R_PAREN # ks) (s + 4 * i + 6) q'"
      if "builds p (Built d) [path_tree i] (L_PAREN # arg_tokens es @ R_PAREN # ks) (Suc (s + 4 * i + 5)) q'" for q'
      using that by (rule builds_mono) simp
    show ?thesis unfolding call_expr_def using lim
      by (intro ret_binds ret_at [OF q])
        (assumption | rule ret_binds ret_returns ret_ifs ret_precede [OF q6] retu_weaken [OF args] ret_complete atom_resultI | (simp; fail))+
  qed
  moreover have "ret (grammar_path n r) (\<lambda>d q. builds p (Built d) [path_tree i] (L_PAREN # arg_tokens es @ R_PAREN # ks) (s + 4 * i + 5) q)"
    by (rule grammar_path_ret [OF r]) (use lim n assms in \<open>simp_all\<close>)
  ultimately show "ret (atom_branch ex n (first_token (?toks @ ks)) r) (atom_result p ?t ks (s + (4 * i + arg_cost es + 9)))"
    unfolding branch by (intro ret_binds) (auto elim: ret_weaken)
qed (use assms in simp)

lemma ret_complete_inner:
  assumes "builds q0 (Opened m) ts ks s q" "builds p c us ks0 s0 q0" "extends c" "k \<noteq> TOMBSTONE" "k \<le> LAST_KIND"
    "\<And>d r. builds p c (us @ [Node k ts]) ks s r \<Longrightarrow> Q d r"
  shows "ret (Marker_complete m k q) Q"
  by (rule ret_complete [OF assms(1) _ assms(4,5)]) (auto intro: assms(6) builds_step [OF built_flat assms(2,3)])

lemma atom_sys_var:
  assumes "0 < m"
  shows "parses (\<lambda>q. atom_expr ex m q) b [SYSFUN] (Node CALL [Node SYS_FUN [Leaf SYSFUN]]) 9"
proof (rule atom_parses [OF assms])
  fix n ks s p r assume follow: "follows b ks" and lim: "s + 9 \<le> step_limit" and r: "builds p Still [] ([SYSFUN] @ ks) (Suc s) r"
  have branch: "atom_branch ex n (first_token ([SYSFUN] @ ks)) r = do { (c, p) \<leftarrow> sys_fun_call ex n r; Some (Some c, p) }"
    by (simp add: atom_branch_def)
  have r': "builds p Still [] (SYSFUN # ks) (Suc s) r" using r by simp
  show "ret (atom_branch ex n (first_token ([SYSFUN] @ ks)) r) (atom_result p (Node CALL [Node SYS_FUN [Leaf SYSFUN]]) ks (s + 9))"
    unfolding branch sys_fun_call_def using lim follow [unfolded follows_def]
    by (intro ret_binds ret_start [OF r'])
      (assumption | rule ret_binds ret_returns ret_ifs ret_start retu_bump ret_at ret_complete_inner ret_complete_in [OF r] atom_resultI | (simp; fail))+
qed

lemma atom_sys_call:
  assumes "args_ok ex es" "length es + 1 < m"
  shows "parses (\<lambda>q. atom_expr ex m q) b (SYSFUN # L_PAREN # arg_tokens es @ [R_PAREN]) (Node CALL [Node SYS_FUN [Leaf SYSFUN], args_tree es])
    (arg_cost es + 9)"
proof (rule atom_parses)
  let ?toks = "SYSFUN # L_PAREN # arg_tokens es @ [R_PAREN]"
  fix n ks s p r assume n: "m = Suc n" and lim: "s + (arg_cost es + 9) \<le> step_limit" and r: "builds p Still [] (?toks @ ks) (Suc s) r"
  have branch: "atom_branch ex n (first_token (?toks @ ks)) r = do { (c, p) \<leftarrow> sys_fun_call ex n r; Some (Some c, p) }"
    by (simp add: atom_branch_def)
  have r': "builds p Still [] (SYSFUN # L_PAREN # arg_tokens es @ R_PAREN # ks) (Suc s) r" using r by simp
  have args: "retu (arg_list ex n q) (\<lambda>r. builds p' (Opened mk) (ts @ [args_tree es]) ks (s + (arg_cost es + 9)) r)"
    if "builds p' (Opened mk) ts (L_PAREN # arg_tokens es @ R_PAREN # ks) (Suc (Suc (Suc s))) q" for p' mk ts q
    by (rule arg_list_ret [OF assms(1) that]) (use lim n assms(2) in simp_all)
  show "ret (atom_branch ex n (first_token (?toks @ ks)) r) (atom_result p (Node CALL [Node SYS_FUN [Leaf SYSFUN], args_tree es]) ks (s + (arg_cost es + 9)))"
    unfolding branch sys_fun_call_def using lim
    by (intro ret_binds ret_start [OF r'])
      (assumption | rule ret_binds ret_returns ret_ifs ret_start retu_bump ret_at retu_weaken [OF args] ret_complete_inner ret_complete_in [OF r] atom_resultI
        | (simp; fail))+
qed (use assms in simp)

section \<open>Operators\<close>

lemma ret_current_op:
  assumes "builds p c ts ks s q" "s \<le> step_limit"
    "\<And>r. builds p c ts ks (Suc s) r \<Longrightarrow> ret (h (fst (binding_power (first_token ks))) (snd (binding_power (first_token ks))) r) Q"
  shows "ret (current_op q \<bind> (\<lambda>((a, b), q). h a b q)) Q"
proof -
  have "ret (current_op q) (\<lambda>x r. x = binding_power (first_token ks) \<and> builds p c ts ks (Suc s) r)"
    unfolding current_op_def by (intro ret_binds ret_look [OF assms(1,2)] ret_returns) simp
  then show ?thesis using assms(3) unfolding ret_def
    by (auto simp: split_beta)
qed

lemma expr_loop_end:
  assumes "builds p (Built d) [t] ks s q" "fst (binding_power (first_token ks)) < bp" "s \<le> step_limit" "0 < n" "Suc s \<le> s'"
  shows "ret (expr_loop sub n bp d q) (atom_result p t ks s')"
proof -
  obtain n' where n: "n = Suc n'" using assms(4) by (cases n) auto
  show ?thesis unfolding n expr_loop.simps
    by (rule ret_current_op [OF assms(1,3)]) (auto intro!: ret_returns atom_resultI simp: assms(2,5))
qed

text \<open>An operator and the operand on its right, and the two other operands of a select.\<close>

lemma expr_loop_op:
  assumes "builds p (Built d) [lt] (op # toks @ ks) s q" "bp \<le> fst (binding_power op)" "2 \<le> fst (binding_power op)"
    "parses (\<lambda>q. sub (fst (binding_power op) + 1) q) (fst (binding_power op) + 1) toks tr c" "follows (fst (binding_power op) + 1) ks"
    "s + c + 2 \<le> step_limit"
    "\<And>d' r. builds p (Built d') [Node BIN_EXPR [lt, Leaf op, tr]] ks (Suc (Suc s) + c) r \<Longrightarrow> ret (expr_loop sub n bp d' r) Q"
  shows "ret (expr_loop sub (Suc n) bp d q) Q"
proof -
  have op: "snd (binding_power op) = op" "op \<noteq> QUESTION" using binding_power_op [of op] assms(3) by (auto simp: binding_power_def)
  show ?thesis unfolding expr_loop.simps
  proof (rule ret_current_op [OF assms(1)])
    fix r assume r: "builds p (Built d) [lt] (op # toks @ ks) (Suc s) r"
    have "ret (do { (m, p) \<leftarrow> CompletedMarker_precede d r; p \<leftarrow> Parser_bump op p; (_, p) \<leftarrow> sub (fst (binding_power op) + 1) p;
        (lhs, p) \<leftarrow> Marker_complete m BIN_EXPR p; expr_loop sub n bp lhs p }) Q"
      using assms(6)
      by (intro ret_binds ret_precede [OF r])
        (assumption | rule ret_binds retu_bump ret_sub [OF assms(4) _ _ assms(5)] ret_complete assms(7) | (simp; fail) | simp)+
    with assms(2) op show "ret (if fst (binding_power (first_token (op # toks @ ks))) < bp then Some (Some d, r)
        else if snd (binding_power (first_token (op # toks @ ks))) = QUESTION then
          do { (m, p) \<leftarrow> CompletedMarker_precede d r; p \<leftarrow> Parser_bump QUESTION p; (_, p) \<leftarrow> sub 1 p; (_, p) \<leftarrow> Parser_expect COLON p;
               (_, p) \<leftarrow> sub 1 p; (c, p) \<leftarrow> Marker_complete m SELECT_EXPR p; Some (Some c, p) }
        else do { (m, p) \<leftarrow> CompletedMarker_precede d r; p \<leftarrow> Parser_bump (snd (binding_power (first_token (op # toks @ ks)))) p;
               (_, p) \<leftarrow> sub (fst (binding_power (first_token (op # toks @ ks))) + 1) p;
               (lhs, p) \<leftarrow> Marker_complete m BIN_EXPR p; expr_loop sub n bp lhs p }) Q"
      by simp
  qed (use assms(6) in simp)
qed

lemma expr_loop_select:
  assumes "builds p (Built d) [tc] (QUESTION # atoks @ COLON # btoks @ ks) s q" "bp \<le> 1"
    "parses (\<lambda>q. sub 1 q) 1 atoks ta ca" "parses (\<lambda>q. sub 1 q) 1 btoks tb cb" "follows 1 ks"
    "s + ca + cb + 3 \<le> step_limit" "s + ca + cb + 3 \<le> s'"
  shows "ret (expr_loop sub (Suc n) bp d q) (atom_result p (Node SELECT_EXPR [tc, Leaf QUESTION, ta, Leaf COLON, tb]) ks s')"
  unfolding expr_loop.simps
proof (rule ret_current_op [OF assms(1)])
  let ?Q = "atom_result p (Node SELECT_EXPR [tc, Leaf QUESTION, ta, Leaf COLON, tb]) ks s'"
  fix r assume r: "builds p (Built d) [tc] (QUESTION # atoks @ COLON # btoks @ ks) (Suc s) r"
  have "ret (do { (m, p) \<leftarrow> CompletedMarker_precede d r; p \<leftarrow> Parser_bump QUESTION p; (_, p) \<leftarrow> sub 1 p; (_, p) \<leftarrow> Parser_expect COLON p;
      (_, p) \<leftarrow> sub 1 p; (c, p) \<leftarrow> Marker_complete m SELECT_EXPR p; Some (Some c, p) }) ?Q"
    using assms(6,7)
    by (intro ret_binds ret_precede [OF r])
      (assumption | rule ret_binds ret_returns retu_bump ret_sub [OF assms(3) _ _ follows_closing(3)] ret_sub [OF assms(4) _ _ assms(5)]
          ret_expect ret_complete atom_resultI | (simp; fail) | simp)+
  with assms(2) show "ret (if fst (binding_power (first_token (QUESTION # atoks @ COLON # btoks @ ks))) < bp then Some (Some d, r)
      else if snd (binding_power (first_token (QUESTION # atoks @ COLON # btoks @ ks))) = QUESTION then
        do { (m, p) \<leftarrow> CompletedMarker_precede d r; p \<leftarrow> Parser_bump QUESTION p; (_, p) \<leftarrow> sub 1 p; (_, p) \<leftarrow> Parser_expect COLON p;
             (_, p) \<leftarrow> sub 1 p; (c, p) \<leftarrow> Marker_complete m SELECT_EXPR p; Some (Some c, p) }
      else do { (m, p) \<leftarrow> CompletedMarker_precede d r;
             p \<leftarrow> Parser_bump (snd (binding_power (first_token (QUESTION # atoks @ COLON # btoks @ ks)))) p;
             (_, p) \<leftarrow> sub (fst (binding_power (first_token (QUESTION # atoks @ COLON # btoks @ ks))) + 1) p;
             (lhs, p) \<leftarrow> Marker_complete m BIN_EXPR p; expr_loop sub n bp lhs p }) ?Q"
    by (simp add: binding_power_def)
qed (use assms(6) in simp)

section \<open>Expressions\<close>

abbreviation expr_length :: "source_expr \<Rightarrow> nat" where
  "expr_length e \<equiv> length (expr_tokens e)"

definition atom_ok :: "source_expr \<Rightarrow> bool" where
  "atom_ok e \<longleftrightarrow> (\<forall>n m. expr_length e + 2 \<le> n \<longrightarrow> expr_length e + 2 \<le> m \<longrightarrow>
     parses (\<lambda>q. atom_expr (\<lambda>p. expr_bp n 1 p) m q) 15 (expr_tokens e) (expr_tree e) (9 * expr_length e))"

definition loop_ok :: "source_expr \<Rightarrow> bool" where
  "loop_ok e \<longleftrightarrow> (\<forall>n bp ks s p q Q. expr_length e + 2 \<le> n \<longrightarrow> bp \<le> expr_power e \<longrightarrow> follows (Suc (expr_power e)) ks \<longrightarrow>
     builds p Still [] (expr_tokens e @ ks) s q \<longrightarrow> s + 9 * expr_length e \<le> step_limit \<longrightarrow>
     (\<forall>k d r. k < expr_length e \<longrightarrow> builds p (Built d) [expr_tree e] ks (s + 9 * expr_length e) r \<longrightarrow>
        ret (expr_loop (\<lambda>bp p. expr_bp n bp p) (n - k) bp d r) Q) \<longrightarrow>
     ret (expr_bp (Suc n) bp q) Q)"

definition expr_ok :: "source_expr \<Rightarrow> bool" where
  "expr_ok e \<longleftrightarrow> (\<forall>n bp. expr_length e + 3 \<le> n \<longrightarrow> bp \<le> expr_power e \<longrightarrow>
     parses (\<lambda>q. expr_bp n bp q) bp (expr_tokens e) (expr_tree e) (9 * expr_length e + 1))"

lemma parses_mono: "parses f b toks t c \<Longrightarrow> c \<le> c' \<Longrightarrow> parses f b toks t c'"
  unfolding parses_def
proof (intro allI impI)
  fix ks s p q
  assume *: "\<forall>ks s p q. follows b ks \<longrightarrow> builds p Still [] (toks @ ks) s q \<longrightarrow> s + c \<le> step_limit \<longrightarrow>
      ret (f q) (\<lambda>x r. \<exists>d. x = Some d \<and> builds p (Built d) [t] ks (s + c) r)"
    and "c \<le> c'" "follows b ks" "builds p Still [] (toks @ ks) s q" "s + c' \<le> step_limit"
  then have "ret (f q) (\<lambda>x r. \<exists>d. x = Some d \<and> builds p (Built d) [t] ks (s + c) r)" by simp
  then show "ret (f q) (\<lambda>x r. \<exists>d. x = Some d \<and> builds p (Built d) [t] ks (s + c') r)"
    by (rule ret_weaken) (use \<open>c \<le> c'\<close> builds_mono in fastforce)
qed

lemma atom_loop:
  assumes "atom_ok e" "expr_power e = 15"
  shows "loop_ok e"
  unfolding loop_ok_def
proof (intro allI impI)
  fix n bp ks s p q Q
  assume n: "expr_length e + 2 \<le> n" and follow: "follows (Suc (expr_power e)) ks" and q: "builds p Still [] (expr_tokens e @ ks) s q"
    and lim: "s + 9 * expr_length e \<le> step_limit"
    and next_loop: "\<forall>k d r. k < expr_length e \<longrightarrow> builds p (Built d) [expr_tree e] ks (s + 9 * expr_length e) r \<longrightarrow>
      ret (expr_loop (\<lambda>bp p. expr_bp n bp p) (n - k) bp d r) Q"
  have "follows 15 ks" using follow binding_power_le [of "first_token ks"] by (simp add: follows_def)
  moreover have "parses (\<lambda>q. atom_expr (\<lambda>p. expr_bp n 1 p) n q) 15 (expr_tokens e) (expr_tree e) (9 * expr_length e)"
    using assms(1) n by (simp add: atom_ok_def)
  ultimately have "ret (atom_expr (\<lambda>p. expr_bp n 1 p) n q) (\<lambda>x r. \<exists>d. x = Some d \<and> builds p (Built d) [expr_tree e] ks (s + 9 * expr_length e) r)"
    using q lim by (simp add: parses_def)
  then show "ret (expr_bp (Suc n) bp q) Q" unfolding expr_bp.simps
    by (intro ret_binds, elim ret_weaken) (use next_loop expr_tokens_pos [of e] in \<open>auto dest: spec [of _ 0]\<close>)
qed

lemma loop_expr:
  assumes "loop_ok e"
  shows "expr_ok e"
  unfolding expr_ok_def
proof (intro allI impI)
  fix n bp assume n: "expr_length e + 3 \<le> n" and bp: "bp \<le> expr_power e"
  obtain n' where n': "n = Suc n'" using n by (cases n) auto
  show "parses (\<lambda>q. expr_bp n bp q) bp (expr_tokens e) (expr_tree e) (9 * expr_length e + 1)"
    unfolding n'
  proof (rule parsesI)
    fix ks s p q assume follow: "follows bp ks" and q: "builds p Still [] (expr_tokens e @ ks) s q" and lim: "s + (9 * expr_length e + 1) \<le> step_limit"
    have "follows (Suc (expr_power e)) ks" using follow bp by (auto elim: follows_mono)
    moreover have "ret (expr_loop (\<lambda>bp p. expr_bp n' bp p) (n' - k) bp d r) (atom_result p (expr_tree e) ks (s + (9 * expr_length e + 1)))"
      if "k < expr_length e" "builds p (Built d) [expr_tree e] ks (s + 9 * expr_length e) r" for k d r
      by (rule expr_loop_end [OF that(2)]) (use follow that(1) n n' lim in \<open>auto simp: follows_def\<close>)
    ultimately show "ret (expr_bp (Suc n') bp q) (atom_result p (expr_tree e) ks (s + (9 * expr_length e + 1)))"
      using assms [unfolded loop_ok_def, rule_format, of n' bp ks p s q "atom_result p (expr_tree e) ks (s + (9 * expr_length e + 1))"] q lim n n' bp
      by simp
  qed
qed

lemma bin_loop:
  assumes "loop_ok l" "expr_ok r" "source_ok (Bin op l r)"
  shows "loop_ok (Bin op l r)"
  unfolding loop_ok_def
proof (intro allI impI)
  let ?e = "Bin op l r"
  fix n bp ks s p q Q
  assume n: "expr_length ?e + 2 \<le> n" and bp: "bp \<le> expr_power ?e" and follow: "follows (Suc (expr_power ?e)) ks"
    and q: "builds p Still [] (expr_tokens ?e @ ks) s q" and lim: "s + 9 * expr_length ?e \<le> step_limit"
    and next_loop: "\<forall>k d r. k < expr_length ?e \<longrightarrow> builds p (Built d) [expr_tree ?e] ks (s + 9 * expr_length ?e) r \<longrightarrow>
      ret (expr_loop (\<lambda>bp p. expr_bp n bp p) (n - k) bp d r) Q"
  have q': "builds p Still [] (expr_tokens l @ op # expr_tokens r @ ks) s q" using q by simp
  have fl: "follows (Suc (expr_power l)) (op # expr_tokens r @ ks)" using assms(3) follows_op [of "Suc (expr_power l)" op] by simp
  have right: "parses (\<lambda>q. expr_bp n (fst (binding_power op) + 1) q) (fst (binding_power op) + 1) (expr_tokens r) (expr_tree r) (9 * expr_length r + 1)"
    using assms(2) [unfolded expr_ok_def, rule_format, of n "fst (binding_power op) + 1"] assms(3) n expr_tokens_pos [of l] by simp
  have "ret (expr_loop (\<lambda>bp p. expr_bp n bp p) (n - k) bp d r') Q"
    if k: "k < expr_length l" and r': "builds p (Built d) [expr_tree l] (op # expr_tokens r @ ks) (s + 9 * expr_length l) r'" for k d r'
  proof -
    have nk: "n - k = Suc (n - Suc k)" using k n by simp
    have k': "Suc k < expr_length ?e" using k by simp
    show ?thesis unfolding nk
    proof (rule expr_loop_op [where sub = "\<lambda>bp p. expr_bp n bp p", OF r' _ _ right])
      fix d' r2 assume "builds p (Built d') [Node BIN_EXPR [expr_tree l, Leaf op, expr_tree r]] ks
          (Suc (Suc (s + 9 * expr_length l)) + (9 * expr_length r + 1)) r2"
      then have "builds p (Built d') [expr_tree ?e] ks (s + 9 * expr_length ?e) r2" by (auto elim: builds_mono)
      with next_loop k' show "ret (expr_loop (\<lambda>bp p. expr_bp n bp p) (n - Suc k) bp d' r2) Q" by blast
    qed (use bp assms(3) follow lim in simp_all)
  qed
  then show "ret (expr_bp (Suc n) bp q) Q"
    using assms(1) [unfolded loop_ok_def, rule_format, of n bp "op # expr_tokens r @ ks" p s q Q] n bp q' fl lim assms(3) by simp
qed

lemma select_expr:
  assumes "loop_ok c" "expr_ok a" "expr_ok b" "1 \<le> expr_power a" "1 \<le> expr_power b" "source_ok (Select c a b)"
  shows "expr_ok (Select c a b)"
  unfolding expr_ok_def
proof (intro allI impI)
  let ?e = "Select c a b"
  fix n bp assume n: "expr_length ?e + 3 \<le> n" and bp: "bp \<le> expr_power ?e"
  obtain n' where n': "n = Suc n'" using n by (cases n) auto
  show "parses (\<lambda>q. expr_bp n bp q) bp (expr_tokens ?e) (expr_tree ?e) (9 * expr_length ?e + 1)"
    unfolding n'
  proof (rule parsesI)
    let ?Q = "\<lambda>p ks s. atom_result p (expr_tree ?e) ks (s + (9 * expr_length ?e + 1))"
    fix ks s p q assume follow: "follows bp ks" and q: "builds p Still [] (expr_tokens ?e @ ks) s q"
      and lim: "s + (9 * expr_length ?e + 1) \<le> step_limit"
    let ?ks = "QUESTION # expr_tokens a @ COLON # expr_tokens b @ ks"
    have q': "builds p Still [] (expr_tokens c @ ?ks) s q" using q by simp
    have fc: "follows (Suc (expr_power c)) ?ks" using assms(6) by (simp add: follows_def binding_power_def)
    have f1: "follows 1 ks" by (rule follows_mono [OF follow]) (use bp in simp)
    have sub: "parses (\<lambda>q. expr_bp n' 1 q) 1 (expr_tokens a) (expr_tree a) (9 * expr_length a + 1)"
        "parses (\<lambda>q. expr_bp n' 1 q) 1 (expr_tokens b) (expr_tree b) (9 * expr_length b + 1)"
      using assms(2,3) [unfolded expr_ok_def, rule_format, of n' 1] assms(4,5) n n' by simp_all
    have "ret (expr_loop (\<lambda>bp p. expr_bp n' bp p) (n' - k) bp d r) (?Q p ks s)"
      if k: "k < expr_length c" and r: "builds p (Built d) [expr_tree c] ?ks (s + 9 * expr_length c) r" for k d r
    proof -
      have nk: "n' - k = Suc (n' - Suc k)" using k n n' by simp
      show ?thesis unfolding nk expr_tree.simps
        by (rule expr_loop_select [where sub = "\<lambda>bp p. expr_bp n' bp p", OF r _ sub f1]) (use bp lim in simp_all)
    qed
    then show "ret (expr_bp (Suc n') bp q) (?Q p ks s)"
      using assms(1) [unfolded loop_ok_def, rule_format, of n' bp ?ks p s q "?Q p ks s"] n n' bp q' fc lim assms(6) by simp
  qed
qed

lemma path_length [simp]: "length (path_tokens n) = 2 * n + 1"
  by (induction n) (simp_all add: path_tokens_def)

lemma power_pos: "source_ok e \<Longrightarrow> 1 \<le> expr_power e"
  by (cases e) auto

definition parsed :: "source_expr \<Rightarrow> bool" where
  "parsed e \<longleftrightarrow> expr_ok e \<and> (2 \<le> expr_power e \<longrightarrow> loop_ok e) \<and> (expr_power e = 15 \<longrightarrow> atom_ok e)"

lemma parsed_atom: "atom_ok e \<Longrightarrow> expr_power e = 15 \<Longrightarrow> parsed e"
  using atom_loop loop_expr by (simp add: parsed_def)

lemma parsed_args:
  assumes "\<forall>e \<in> set es. source_ok e \<and> parsed e" "length (arg_tokens es) + 3 \<le> n"
  shows "args_ok (\<lambda>p. expr_bp n 1 p) es"
  unfolding args_ok_def
proof
  fix e assume e: "e \<in> set es"
  have "expr_length e \<le> length (arg_tokens es)" using e
  proof (induction es)
    case (Cons e' es)
    then show ?case by (cases es) (auto simp: arg_simps)
  qed simp
  moreover have "expr_ok e" "1 \<le> expr_power e" "source_ok e" using assms(1) e power_pos by (auto simp: parsed_def)
  ultimately show "source_ok e \<and> parses (\<lambda>p. expr_bp n 1 p) 1 (expr_tokens e) (expr_tree e) (9 * expr_length e + 1)"
    using assms(2) by (simp add: expr_ok_def)
qed

lemma arg_count: "length es \<le> length (arg_tokens es)"
proof (induction es)
  case (Cons e es)
  then show ?case using expr_tokens_pos [of e] by (cases es) (simp_all add: arg_simps Suc_le_eq)
qed simp

lemma source_parsed: "source_ok e \<Longrightarrow> parsed e"
proof (induction e)
  case (Literal k)
  show ?case by (rule parsed_atom) (use Literal atom_literal in \<open>auto simp: atom_ok_def\<close>)
next
  case (Path i)
  have "atom_ok (Path i)" unfolding atom_ok_def by (auto intro!: parses_mono [OF atom_path])
  then show ?case by (rule parsed_atom) simp
next
  case (Prefix k e)
  then have e: "atom_ok e" by (simp add: parsed_def)
  have "atom_ok (Prefix k e)" unfolding atom_ok_def
  proof (intro allI impI)
    fix n m assume nm: "expr_length (Prefix k e) + 2 \<le> n" "expr_length (Prefix k e) + 2 \<le> m"
    have "parses (\<lambda>q. atom_expr (\<lambda>p. expr_bp n 1 p) m q) 15 (k # expr_tokens e) (Node PREFIX_EXPR [Leaf k, expr_tree e]) (9 * expr_length e + 3)"
      by (rule atom_prefix) (use Prefix.prems nm e in \<open>auto simp: atom_ok_def\<close>)
    then show "parses (\<lambda>q. atom_expr (\<lambda>p. expr_bp n 1 p) m q) 15 (expr_tokens (Prefix k e)) (expr_tree (Prefix k e)) (9 * expr_length (Prefix k e))"
      by (auto elim: parses_mono)
  qed
  then show ?case by (rule parsed_atom) simp
next
  case (Paren e)
  then have e: "expr_ok e" "source_ok e" "1 \<le> expr_power e" using power_pos by (auto simp: parsed_def)
  have "atom_ok (Paren e)" unfolding atom_ok_def
  proof (intro allI impI)
    fix n m assume nm: "expr_length (Paren e) + 2 \<le> n" "expr_length (Paren e) + 2 \<le> m"
    have "parses (\<lambda>p. expr_bp n 1 p) 1 (expr_tokens e) (expr_tree e) (9 * expr_length e + 1)" using e nm by (simp add: expr_ok_def)
    from atom_paren [OF e(2) this, of m 15] nm expr_tokens_pos [of e]
    show "parses (\<lambda>q. atom_expr (\<lambda>p. expr_bp n 1 p) m q) 15 (expr_tokens (Paren e)) (expr_tree (Paren e)) (9 * expr_length (Paren e))"
      by (auto elim: parses_mono)
  qed
  then show ?case by (rule parsed_atom) simp
next
  case (Bin op l r)
  then have "loop_ok (Bin op l r)" by (intro bin_loop) (auto simp: parsed_def)
  moreover have "expr_power (Bin op l r) \<noteq> 15" using binding_power_le [of op] by simp
  ultimately show ?case using loop_expr by (simp add: parsed_def)
next
  case (Select c a b)
  then have "1 \<le> expr_power a" "1 \<le> expr_power b" using power_pos by simp_all
  with Select have "expr_ok (Select c a b)" by (intro select_expr) (simp_all add: parsed_def)
  then show ?case by (simp add: parsed_def)
next
  case (Call i es)
  then have es: "\<forall>e \<in> set es. source_ok e \<and> parsed e" by (auto simp: list_all_iff)
  have "atom_ok (Call i es)" unfolding atom_ok_def
  proof (intro allI impI)
    fix n m assume nm: "expr_length (Call i es) + 2 \<le> n" "expr_length (Call i es) + 2 \<le> m"
    have toks: "expr_tokens (Call i es) = path_tokens i @ L_PAREN # arg_tokens es @ [R_PAREN]" "expr_tree (Call i es) = Node CALL [path_tree i, args_tree es]"
      by (simp_all add: arg_tokens_def args_tree_def arg_trees_def)
    have "parses (\<lambda>q. atom_expr (\<lambda>p. expr_bp n 1 p) m q) 15 (expr_tokens (Call i es)) (expr_tree (Call i es)) (4 * i + arg_cost es + 9)"
      unfolding toks by (rule atom_call [OF parsed_args [OF es]]) (use nm [unfolded toks] arg_count [of es] in simp_all)
    then show "parses (\<lambda>q. atom_expr (\<lambda>p. expr_bp n 1 p) m q) 15 (expr_tokens (Call i es)) (expr_tree (Call i es)) (9 * expr_length (Call i es))"
      by (rule parses_mono) (unfold toks, use arg_cost_tokens [of es] in simp)
  qed
  then show ?case by (rule parsed_atom) simp
next
  case SysVar
  have "atom_ok SysVar" using atom_sys_var by (simp add: atom_ok_def)
  then show ?case by (rule parsed_atom) simp
next
  case (SysCall es)
  then have es: "\<forall>e \<in> set es. source_ok e \<and> parsed e" by (auto simp: list_all_iff)
  have "atom_ok (SysCall es)" unfolding atom_ok_def
  proof (intro allI impI)
    fix n m assume nm: "expr_length (SysCall es) + 2 \<le> n" "expr_length (SysCall es) + 2 \<le> m"
    have toks: "expr_tokens (SysCall es) = SYSFUN # L_PAREN # arg_tokens es @ [R_PAREN]"
        "expr_tree (SysCall es) = Node CALL [Node SYS_FUN [Leaf SYSFUN], args_tree es]"
      by (simp_all add: arg_tokens_def args_tree_def arg_trees_def)
    have "parses (\<lambda>q. atom_expr (\<lambda>p. expr_bp n 1 p) m q) 15 (expr_tokens (SysCall es)) (expr_tree (SysCall es)) (arg_cost es + 9)"
      unfolding toks by (rule atom_sys_call [OF parsed_args [OF es]]) (use nm [unfolded toks] arg_count [of es] in simp_all)
    then show "parses (\<lambda>q. atom_expr (\<lambda>p. expr_bp n 1 p) m q) 15 (expr_tokens (SysCall es)) (expr_tree (SysCall es)) (9 * expr_length (SysCall es))"
      by (rule parses_mono) (unfold toks, use arg_cost_tokens [of es] in simp)
  qed
  then show ?case by (rule parsed_atom) simp
qed

section \<open>The round trip\<close>

lemma emit_no_errors: "(\<forall>e. StepError e \<notin> set ss) \<Longrightarrow> out_error (emit ss out) = out_error out"
proof (induction ss arbitrary: out)
  case (Cons s ss)
  then show ?case
    by (cases s) (auto simp: Output_token_def Output_enter_node_def Output_leave_node_def)
qed simp

lemma set_commas: "set (commas c xss) \<subseteq> insert c (\<Union> (set ` set xss))"
  by (induction c xss rule: commas.induct) auto

lemma expr_tree_no_errors: "StepError x \<notin> set (tree_steps (expr_tree e))"
proof (induction e)
  case (Path n)
  show ?case by (induction n) simp_all
next
  case (Call n es)
  have "StepError x \<notin> set (tree_steps (path_tree n))" by (induction n) simp_all
  moreover have "StepError x \<notin> set (tree_steps t)" if "t \<in> set (commas (Leaf COMMA) (map (\<lambda>e. [expr_tree e]) es))" for t
    using that Call set_commas [of "Leaf COMMA" "map (\<lambda>e. [expr_tree e]) es"] by fastforce
  ultimately show ?case by simp
next
  case (SysCall es)
  have "StepError x \<notin> set (tree_steps t)" if "t \<in> set (commas (Leaf COMMA) (map (\<lambda>e. [expr_tree e]) es))" for t
    using that SysCall set_commas [of "Leaf COMMA" "map (\<lambda>e. [expr_tree e]) es"] by fastforce
  then show ?case by simp
qed simp_all

lemma expr_tree_kinds: "source_ok e \<Longrightarrow> tree_kinds_ok (expr_tree e)"
proof (induction e)
  case (Path n)
  show ?case by (induction n) simp_all
next
  case (Bin op l r)
  then show ?case using binding_power_op [of op] by simp
next
  case (Call n es)
  have "tree_kinds_ok (path_tree n)" by (induction n) simp_all
  moreover have "tree_kinds_ok t" if "t \<in> set (commas (Leaf COMMA) (map (\<lambda>e. [expr_tree e]) es))" for t
    using that Call set_commas [of "Leaf COMMA" "map (\<lambda>e. [expr_tree e]) es"] by (fastforce simp: list_all_iff)
  ultimately show ?case by (simp add: list_all_iff)
next
  case (SysCall es)
  have "tree_kinds_ok t" if "t \<in> set (commas (Leaf COMMA) (map (\<lambda>e. [expr_tree e]) es))" for t
    using that SysCall set_commas [of "Leaf COMMA" "map (\<lambda>e. [expr_tree e]) es"] by (fastforce simp: list_all_iff)
  then show ?case by (simp add: list_all_iff)
qed auto



end
