(* ===== verification/Parser_Errors.thy ===== *)
theory Parser_Errors
  imports Parser_Lossless Parser_Roundtrip
begin

text \<open>
  Syntax errors on which the parser does not recover: a port list it aborts on, and the values of a case
  that it looks for again and again until its limit on steps aborts it. The rules follow the tokens ahead.
\<close>

section \<open>Rules for the tokens ahead\<close>

definition ahead :: "parser \<Rightarrow> syntax_kind list \<Rightarrow> bool" where
  "ahead p ks \<longleftrightarrow> drop (pos p) (tokens p) = ks"

named_theorems ahead_rules

lemma ahead_nth:
  assumes "ahead p ks" "Parser_nth 0 p = Some (k, q)"
  shows "k = first_token ks \<and> ahead q ks"
proof -
  have "(case vec_get (tokens p) (pos p) of None \<Rightarrow> EOF | Some k \<Rightarrow> k) = first_token ks"
    using assms(1) by (cases "pos p < length (tokens p)") (auto simp: ahead_def simp flip: Cons_nth_drop_Suc)
  with assms show ?thesis by (auto simp: Parser_nth_def Let_def ahead_def bind_eq_Some_conv)
qed

lemma ahead_current [ahead_rules]:
  assumes "ahead p ks" "\<And>q. ahead q ks \<Longrightarrow> Q (first_token ks) q"
  shows "wp (Parser_current p) Q"
  using assms ahead_nth by (fastforce simp: wp_def Parser_current_def)

lemma ahead_at [ahead_rules]:
  assumes "ahead p ks" "\<And>q. ahead q ks \<Longrightarrow> Q (first_token ks = k) q"
  shows "wp (Parser_at k p) Q"
  using assms ahead_nth by (fastforce simp: wp_def Parser_at_def Parser_nth_at_def bind_eq_Some_conv)

lemma ahead_at_set:
  assumes "ahead p ks" "TokenSet_contains ts (first_token ks) = Some b" "\<And>q. ahead q ks \<Longrightarrow> Q b q"
  shows "wp (Parser_at_ts ts p) Q"
  using assms ahead_nth by (fastforce simp: wp_def Parser_at_ts_def Parser_current_def bind_eq_Some_conv)

lemma ahead_bumped: "ahead p (k # ks) \<Longrightarrow> ahead (Parser_do_bump j p) ks"
  unfolding ahead_def Parser_do_bump_def Parser_push_event_def by (simp add: drop_Suc flip: tl_drop)

lemma ahead_eat [ahead_rules]:
  assumes "ahead p (j # ks)" "j = k \<Longrightarrow> (\<And>q. ahead q ks \<Longrightarrow> Q True q)" "j \<noteq> k \<Longrightarrow> (\<And>q. ahead q (j # ks) \<Longrightarrow> Q False q)"
  shows "wp (Parser_eat k p) Q"
  unfolding Parser_eat_def
  by (rule wp_binds, rule ahead_at [OF assms(1)]) (auto simp: wp_def intro: assms(2,3) ahead_bumped)

lemma ahead_bump [ahead_rules]:
  assumes "ahead p (k # ks)" "\<And>q. ahead q ks \<Longrightarrow> Q q"
  shows "wpu (Parser_bump k p) Q"
  unfolding Parser_bump_def
  by (rule wp_binds, rule ahead_eat [OF assms(1)]) (auto simp: wpu_def rust_assert_def bind_eq_Some_conv intro: assms(2))

lemma ahead_start [ahead_rules]:
  "ahead p ks \<Longrightarrow> (\<And>m q. ahead q ks \<Longrightarrow> wp (g m q) Q) \<Longrightarrow> wp (let (m, q) = Parser_start p in g m q) Q"
  "ahead p ks \<Longrightarrow> (\<And>m q. ahead q ks \<Longrightarrow> wpu (g' m q) Q') \<Longrightarrow> wpu (let (m, q) = Parser_start p in g' m q) Q'"
  by (simp_all add: Parser_start_def Parser_push_event_def ahead_def)

lemma ahead_complete [ahead_rules]:
  "ahead p ks \<Longrightarrow> (\<And>c q. ahead q ks \<Longrightarrow> Q c q) \<Longrightarrow> wp (Marker_complete m k p) Q"
  "ahead p ks \<Longrightarrow> (\<And>q. ahead q ks \<Longrightarrow> Q' q) \<Longrightarrow> wpu (Marker_abandon m p) Q'"
  by (auto simp: wp_def wpu_def Marker_complete_def Marker_abandon_def Parser_push_event_def Let_def ahead_def bind_eq_Some_conv split: event.split_asm if_splits)

lemma ahead_error [ahead_rules]:
  assumes "ahead p ks" "\<And>q. ahead q ks \<Longrightarrow> Q q"
  shows "wpu (Parser_error e p) Q"
  unfolding Parser_error_def Let_def [of "Parser_push_event _ _"]
  by (rule ahead_start [OF assms(1)]) (rule wp_rules ahead_rules assms(2) | assumption | simp add: ahead_def Parser_push_event_def)+

lemma ahead_messages [ahead_rules]:
  "ahead p ks \<Longrightarrow> (\<And>e q. ahead q ks \<Longrightarrow> Q e q) \<Longrightarrow> wp (Parser_unexpected_tokens_msg js p) Q"
  "ahead p ks \<Longrightarrow> (\<And>e q. ahead q ks \<Longrightarrow> Q e q) \<Longrightarrow> wp (Parser_unexpected_token_msg j p) Q"
  unfolding Parser_unexpected_tokens_msg_def Parser_unexpected_token_msg_def by (rule wp_rules ahead_current | assumption | simp)+

lemma ahead_ifs:
  "b \<Longrightarrow> wp m Q \<Longrightarrow> wp (if b then m else m') Q" "\<not> b \<Longrightarrow> wp m' Q \<Longrightarrow> wp (if b then m else m') Q"
  "b \<Longrightarrow> wpu u Q' \<Longrightarrow> wpu (if b then u else u') Q'" "\<not> b \<Longrightarrow> wpu u' Q' \<Longrightarrow> wpu (if b then u else u') Q'"
  by simp_all

lemma ahead_bump_ts: "ahead p (k # ks) \<Longrightarrow> TokenSet_contains ts k = Some False \<Longrightarrow> wpu (Parser_bump_ts ts p) Q"
  unfolding Parser_bump_ts_def Parser_eat_ts_def using ahead_at_set [of p "k # ks" ts False "\<lambda>b q. \<not> b"]
  by (auto simp: wpu_def wp_def rust_assert_def bind_eq_Some_conv)

lemma no_return: "wpu m (\<lambda>q. False) \<Longrightarrow> m = None"
  by (cases m) (auto simp: wpu_def)

section \<open>Port lists\<close>

lemma ahead_expect_with:
  assumes "ahead p (k # ks)" "k \<noteq> j" "\<And>q. ahead q (k # ks) \<Longrightarrow> Q False q"
  shows "wp (Parser_expect_with j js p) Q"
  unfolding Parser_expect_with_def using assms(1,2)
  by - (assumption | rule wp_binds wp_returns ahead_rules ahead_ifs assms(3) | (simp; fail))+

lemma ahead_expect_eaten:
  assumes "ahead p (k # ks)" "\<And>q. ahead q ks \<Longrightarrow> Q True q"
  shows "wp (Parser_expect_with k js p) Q"
  unfolding Parser_expect_with_def
  by (rule wp_binds, rule ahead_eat [OF assms(1)]) (auto simp: wp_def intro: assms(2))

text \<open>Names of ports, each with or without a comma after it.\<close>

primrec port_names :: "bool list \<Rightarrow> syntax_kind list" where
  "port_names [] = []"
| "port_names (comma # names) = (if comma then [IDENT, COMMA] else [IDENT]) @ port_names names"

text \<open>A token that starts no port: neither a name nor a direction nor an attribute, and not an end of the list.\<close>

definition no_port :: "syntax_kind \<Rightarrow> bool" where
  "no_port k \<longleftrightarrow> k < 128 \<and> k \<notin> {SEMICOLON, R_PAREN, ENDMODULE_KW, EOF, IDENT, INOUT_KW, OUTPUT_KW, INPUT_KW, L_ATTR_PAREN}"

lemma no_port_sets:
  assumes "no_port k"
  shows "TokenSet_contains MODULE_PORTS_RECOVERY k = Some False" "TokenSet_contains DIRECTION_TS k = Some False"
  using assms by (simp_all add: no_port_def MODULE_PORTS_RECOVERY_def DIRECTION_TS_def TS_contains)

lemma ports_loop_stray:
  assumes "no_port k" "ahead p (k # ks)"
  shows "wpu (ports_loop n p) (\<lambda>q. False)"
proof (cases n)
  case (Suc n')
  note k = assms(1) [unfolded no_port_def] and sets = no_port_sets [OF assms(1)]
  have attrs: "wpu (attrs n ts q) (\<lambda>q. ahead q (k # ks))" if "ahead q (k # ks)" for ts n q
    using k that by (cases n) (simp_all only: attrs.simps, (assumption | rule wp_binds wp_returns ahead_ifs ahead_at | (simp; fail))+)
  show ?thesis unfolding Suc ports_loop.simps port_decl_def eat_name_def using k assms(2)
    by - (assumption | rule wp_binds wp_returns ahead_at_set ahead_bump_ts [OF _ sets(2)] sets(1) wpu_weaken [OF attrs] ahead_rules
        ahead_ifs | (simp; fail) | (simp only: first_token_simps, rule sets))+
qed (simp add: wpu_def)

lemma ports_loop_names:
  assumes "no_port k" "k = COMMA \<longrightarrow> names = [] \<or> last names" "ahead p (port_names names @ k # ks)"
  shows "wpu (ports_loop n p) (\<lambda>q. False)"
  using assms(2,3)
proof (induction names arbitrary: n p)
  case Nil
  then show ?case using ports_loop_stray [OF assms(1)] by simp
next
  case (Cons comma names)
  have last: "k = COMMA \<longrightarrow> names = [] \<or> last names" using Cons.prems(1) by (auto split: if_splits)
  note IH = Cons.IH [OF last]
  have set: "TokenSet_contains MODULE_PORTS_RECOVERY IDENT = Some False" by (simp add: MODULE_PORTS_RECOVERY_def TS_contains)
  show ?case
  proof (cases n)
    case (Suc n')
    show ?thesis
    proof (cases comma)
      case True
      with Cons.prems(2) have "ahead p (IDENT # COMMA # port_names names @ k # ks)" by simp
      then show ?thesis unfolding Suc ports_loop.simps eat_name_def
        by - (assumption | rule wp_binds wp_returns ahead_at_set ahead_expect_eaten wp_maps IH ahead_rules ahead_ifs | (simp; fail)
            | (simp only: first_token_simps, rule set))+
    next
      case False
      obtain j js where js: "port_names names @ k # ks = j # js" "j \<noteq> R_PAREN" "j \<noteq> COMMA"
      proof (cases names)
        case Nil
        then show thesis using that [of k ks] Cons.prems(1) False assms(1) by (simp add: no_port_def)
      next
        case (Cons a list)
        then have "port_names names @ k # ks = IDENT # (if a then [COMMA] else []) @ port_names list @ k # ks" by simp
        then show thesis by (rule that) simp_all
      qed
      with Cons.prems(2) False have "ahead p (IDENT # j # js)" by simp
      then show ?thesis unfolding Suc ports_loop.simps eat_name_def using js(2,3)
        by - (assumption | rule wp_binds wp_returns ahead_at_set ahead_expect_with wp_maps IH [unfolded js(1)] ahead_rules ahead_ifs | (simp; fail)
            | (simp only: first_token_simps, rule set))+
    qed
  qed (simp add: wpu_def)
qed

text \<open>C30: A token that starts no port, neither a name nor a direction nor an attribute nor an end of the list, aborts the
compiler when it stands at the start of the port list of a module head, or behind names of ports that
follow each other with or without commas from the start of the list on: the parser returns for no fuel. The
declaration it tries at the token asserts that a direction is ahead, and that assertion fails.\<close>
theorem stray_token_in_ports_panics:
  assumes "drop (pos p) (tokens p) = port_names names @ k # ks" "no_port k" "k = COMMA \<longrightarrow> names = [] \<or> last names"
  shows "module_ports n p = None \<and> (\<forall>q. drop (pos q) (tokens q) = k # ks \<longrightarrow> Parser_bump_ts DIRECTION_TS q = None)"
proof
  have "wpu (ports_loop n p) (\<lambda>q. False)" by (rule ports_loop_names [OF assms(2,3)]) (simp add: ahead_def assms(1))
  from no_return [OF this] show "module_ports n p = None" by (simp add: module_ports_def)
  show "\<forall>q. drop (pos q) (tokens q) = k # ks \<longrightarrow> Parser_bump_ts DIRECTION_TS q = None"
    using no_return [OF ahead_bump_ts [OF _ no_port_sets(2) [OF assms(2)]]] by (auto simp: ahead_def)
qed

text \<open>The tokens are those of \<open>module m (a, 5);\<close>, from behind the parenthesis on.\<close>

theorem stray_token_in_ports_panics_witness:
  "module_ports 100 \<lparr>tokens = [IDENT, COMMA, INT_NUMBER, R_PAREN, SEMICOLON, ENDMODULE_KW], pos = 0, events = [], steps = 0\<rparr> = None"
proof -
  let ?p = "\<lparr>tokens = [IDENT, COMMA, INT_NUMBER, R_PAREN, SEMICOLON, ENDMODULE_KW], pos = 0, events = [], steps = 0\<rparr>"
  have "drop (pos ?p) (tokens ?p) = port_names [True] @ INT_NUMBER # [R_PAREN, SEMICOLON, ENDMODULE_KW]" by simp
  moreover have "no_port INT_NUMBER" "INT_NUMBER = COMMA \<longrightarrow> [True] = [] \<or> last [True]" by (simp_all add: no_port_def)
  ultimately have "module_ports 100 ?p = None \<and> (\<forall>q. drop (pos q) (tokens q) = INT_NUMBER # [R_PAREN, SEMICOLON, ENDMODULE_KW] \<longrightarrow>
      Parser_bump_ts DIRECTION_TS q = None)" by (rule stray_token_in_ports_panics)
  then show ?thesis ..
qed

section \<open>Values of a case\<close>

lemma ahead_err_recover:
  assumes "ahead p ks" "TokenSet_contains ts (first_token ks) = Some True" "\<And>q. ahead q ks \<Longrightarrow> Q True q"
  shows "wp (Parser_err_recover e ts p) Q"
  unfolding Parser_err_recover_def using assms(1)
  by - (assumption | rule wp_binds wp_returns ahead_at_set assms(2,3) ahead_rules ahead_ifs | (simp; fail))+

text \<open>At a token from which expressions recover, an expression is an error and nothing is passed.\<close>

lemma expr_at_recovery:
  assumes "ahead p (k # ks)" "k \<in> {SEMICOLON, ENDMODULE_KW, ENDFUNCTION_KW, ENDNATURE_KW, ENDDISCIPLINE_KW, ENDCASE_KW, END_KW}"
  shows "wp (grammar_expr n p) (\<lambda>r q. r = None \<and> ahead q (k # ks))"
proof -
  have set: "TokenSet_contains EXPR_RECOVERY_SET (first_token (k # ks)) = Some True"
    using assms(2) by (auto simp: EXPR_RECOVERY_SET_def TS_contains)
  have atom: "wp (atom_expr ex n q) (\<lambda>r q. r = None \<and> ahead q (k # ks))" if "ahead q (k # ks)" for ex n q
  proof (cases n)
    case (Suc n')
    have branch: "atom_branch ex n' k r =
        do { (err, p) \<leftarrow> Parser_unexpected_tokens_msg EXPR_EXPECTED r; (_, p) \<leftarrow> Parser_err_recover err EXPR_RECOVERY_SET p; Some (None, p) }" for r
      using assms(2) by (auto simp: atom_branch_def)
    show ?thesis unfolding Suc atom_expr_branch
    proof (rule wp_binds, rule ahead_current [OF that])
      fix r assume r: "ahead r (k # ks)"
      show "wp (atom_branch ex n' (first_token (k # ks)) r) (\<lambda>r q. r = None \<and> ahead q (k # ks))"
        unfolding first_token_simps branch
        by (rule r | assumption | rule wp_binds wp_returns ahead_err_recover [OF _ set] ahead_rules | (simp; fail))+
    qed
  qed (simp add: wp_def)
  have "wp (expr_bp n bp p) (\<lambda>r q. r = None \<and> ahead q (k # ks))" for bp
  proof (cases n)
    case (Suc n')
    show ?thesis unfolding Suc expr_bp.simps
      by (rule wp_binds, rule wp_weaken [OF atom [OF assms(1)]]) (auto simp: wp_def)
  qed (simp add: wp_def)
  then show ?thesis by (simp add: grammar_expr_def)
qed

lemma vals_or_default_none:
  assumes "ahead p (k # ks)" "k \<in> {SEMICOLON, ENDFUNCTION_KW, ENDNATURE_KW, ENDDISCIPLINE_KW, END_KW}"
  shows "vals_or_default n p = None"
proof -
  have set: "TokenSet_contains CASE_COND_RECOVERY (first_token (k # ks)) = Some False"
    using assms(2) by (auto simp: CASE_COND_RECOVERY_def TS_contains)
  have ne: "k \<noteq> COLON" "k \<noteq> COMMA" "k \<noteq> DEFAULT_KW" using assms(2) by auto
  have expr: "wp (grammar_expr n q) (\<lambda>r q. r = None \<and> ahead q (k # ks))" if "ahead q (k # ks)" for n q
    by (rule expr_at_recovery [OF that]) (use assms(2) in auto)
  have loop: "wpu (vals_loop n q) (\<lambda>q. False)" if "ahead q (k # ks)" for n q
    using that
  proof (induction n arbitrary: q)
    case (Suc n)
    show ?case unfolding vals_loop.simps using ne
      by - (rule Suc.prems | assumption | rule wp_binds ahead_at_set [OF _ set] wp_weaken [OF expr] ahead_expect_with ahead_rules ahead_ifs wp_maps Suc.IH
          | (simp; fail) | (erule conjE))+
  qed (simp add: wpu_def)
  have "wpu (vals_or_default n p) (\<lambda>q. False)" unfolding vals_or_default_def using ne assms(1)
    by - (assumption | rule wp_binds wpu_weaken [OF loop] ahead_rules ahead_ifs | (simp; fail))+
  then show ?thesis by (rule no_return)
qed

text \<open>The state \<open>q\<close> stands where \<open>p\<close> does, \<open>s\<close> looks at tokens were made.\<close>

definition rests :: "parser \<Rightarrow> nat \<Rightarrow> parser \<Rightarrow> bool" where
  "rests p s q \<longleftrightarrow> tokens q = tokens p \<and> pos q = pos p \<and> steps q = s"

lemma rests_look:
  assumes "rests p s q" "ahead p (k # ks)" "s \<le> step_limit"
  shows "Parser_nth 0 q = Some (k, q\<lparr>steps := steps q + 1\<rparr>)" "rests p (Suc s) (q\<lparr>steps := steps q + 1\<rparr>)"
proof -
  have "vec_get (tokens q) (pos q) = Some k"
    using assms(1,2) by (cases "pos p < length (tokens p)") (auto simp: rests_def ahead_def vec_get_def simp flip: Cons_nth_drop_Suc)
  then show "Parser_nth 0 q = Some (k, q\<lparr>steps := steps q + 1\<rparr>)" using assms(1,3) by (simp add: Parser_nth_def rust_assert_def rests_def)
  show "rests p (Suc s) (q\<lparr>steps := steps q + 1\<rparr>)" using assms(1) by (simp add: rests_def)
qed

lemma ret_rests:
  assumes "rests p s q" "ahead p (k # ks)" "s \<le> step_limit"
  shows "ret (Parser_current q) (\<lambda>j r. j = k \<and> rests p (Suc s) r)"
    "ret (Parser_at j q) (\<lambda>b r. b = (k = j) \<and> rests p (Suc s) r)"
    "TokenSet_contains ts k = Some b \<Longrightarrow> ret (Parser_at_ts ts q) (\<lambda>c r. c = b \<and> rests p (Suc s) r)"
    "ret (Parser_unexpected_tokens_msg js q) (\<lambda>e r. rests p (Suc s) r)"
  using rests_look [OF assms]
  by (auto simp: ret_def Parser_current_def Parser_at_def Parser_nth_at_def Parser_at_ts_def Parser_unexpected_tokens_msg_def)

lemma retu_error: "rests p s q \<Longrightarrow> retu (Parser_error e q) (rests p s)"
  by (auto simp: retu_def rests_def Parser_error_def Parser_start_def Parser_push_event_def Marker_complete_def Event_tombstone_def vec_get_def Let_def
      nth_append)

lemma ret_error_then: "rests p s q \<Longrightarrow> ret (Parser_error e q \<bind> (\<lambda>r. Some (v, r))) (\<lambda>b. rests p s)"
  using retu_error [of p s q e] by (auto simp: ret_def retu_def)

lemma ret_then: "ret m P \<Longrightarrow> (\<And>x q. P x q \<Longrightarrow> ret (g x q) Q) \<Longrightarrow> ret (m \<bind> (\<lambda>(x, q). g x q)) Q"
  "retu u P' \<Longrightarrow> (\<And>q. P' q \<Longrightarrow> ret (h q) Q) \<Longrightarrow> ret (u \<bind> h) Q"
  by (auto simp: ret_def retu_def)

lemma ret_expect_missing:
  assumes "rests p s q" "ahead p (k # ks)" "s + 1 \<le> step_limit" "k \<noteq> j"
  shows "ret (Parser_expect_with j js q) (\<lambda>b r. rests p (s + 2) r)"
proof -
  have eat: "ret (Parser_eat j q) (\<lambda>b r. \<not> b \<and> rests p (Suc s) r)"
    unfolding Parser_eat_def
    by (rule ret_then(1) [OF ret_rests(2) [OF assms(1,2)]]) (use assms(3,4) in \<open>auto simp: ret_def\<close>)
  show ?thesis unfolding Parser_expect_with_def
  proof (rule ret_then(1) [OF eat], elim conjE)
    fix b r assume b: "\<not> b" "rests p (Suc s) r"
    have "ret (Parser_unexpected_tokens_msg js r \<bind> (\<lambda>(err, p). Parser_error err p \<bind> (\<lambda>p. Some (False, p)))) (\<lambda>b r. rests p (s + 2) r)"
      by (rule ret_then(1) [OF ret_rests(4) [OF b(2) assms(2)]], use assms(3) in simp, rule ret_error_then) simp
    with b(1) show "ret (if b then Some (True, r) else
        do { (err, p) \<leftarrow> Parser_unexpected_tokens_msg js r; p \<leftarrow> Parser_error err p; Some (False, p) }) (\<lambda>b r. rests p (s + 2) r)" by simp
  qed
qed

lemma expr_rests:
  assumes "rests p s q" "ahead p (k # ks)" "s + 2 \<le> step_limit" "2 \<le> n"
    "k \<in> {SEMICOLON, ENDMODULE_KW, ENDFUNCTION_KW, ENDNATURE_KW, ENDDISCIPLINE_KW, ENDCASE_KW, END_KW}"
  shows "ret (grammar_expr n q) (\<lambda>r q. rests p (s + 3) q)"
proof -
  obtain m where n: "n = Suc (Suc m)" using assms(4) by (metis Suc_diff_Suc add_2_eq_Suc le_add_diff_inverse)
  have set: "TokenSet_contains EXPR_RECOVERY_SET k = Some True" using assms(5) by (auto simp: EXPR_RECOVERY_SET_def TS_contains)
  have branch: "atom_branch ex m k r =
      do { (err, p) \<leftarrow> Parser_unexpected_tokens_msg EXPR_EXPECTED r; (_, p) \<leftarrow> Parser_err_recover err EXPR_RECOVERY_SET p; Some (None, p) }" for ex r
    using assms(5) by (auto simp: atom_branch_def)
  have recover: "ret (Parser_err_recover e EXPR_RECOVERY_SET r) (\<lambda>b. rests p (s + 3))" if "rests p (s + 2) r" for e r
    unfolding Parser_err_recover_def
  proof (rule ret_then(1) [OF ret_rests(3) [OF that assms(2) _ set]])
    fix b q' assume b: "b = True \<and> rests p (Suc (s + 2)) q'"
    then have "rests p (s + 3) q'" by (simp add: eval_nat_numeral)
    then have "ret (Parser_error e q' \<bind> (\<lambda>r. Some (True, r))) (\<lambda>b. rests p (s + 3))" by (rule ret_error_then)
    with b show "ret (if b then do { p \<leftarrow> Parser_error e q'; Some (True, p) }
        else do { let (m, p) = Parser_start q'; let p = Parser_push_event (EvError e) p; p \<leftarrow> Parser_bump_any p;
                  (_, p) \<leftarrow> Marker_complete m ERROR p; Some (False, p) }) (\<lambda>b. rests p (s + 3))" by simp
  qed (use assms(3) in simp)
  have atom: "ret (atom_expr ex (Suc m) q) (\<lambda>r q. r = None \<and> rests p (s + 3) q)" for ex
    unfolding atom_expr_branch
  proof (rule ret_then(1) [OF ret_rests(1) [OF assms(1,2)]])
    fix j r assume r: "j = k \<and> rests p (Suc s) r"
    show "ret (atom_branch ex m j r) (\<lambda>r q. r = None \<and> rests p (s + 3) q)"
      unfolding conjunct1 [OF r] branch
      by (rule ret_then(1) [OF ret_rests(4) [OF conjunct2 [OF r] assms(2)]], use assms(3) in simp, rule ret_then(1) [OF recover], simp)
        (simp add: ret_def)
  qed (use assms(3) in simp)
  show ?thesis unfolding grammar_expr_def n expr_bp.simps
    by (rule ret_then(1) [OF atom]) (auto simp: ret_def)
qed

lemma values_round:
  assumes "rests p s q" "ahead p (k # ks)" "s + 6 \<le> step_limit" "2 \<le> n"
    "k \<in> {SEMICOLON, ENDFUNCTION_KW, ENDNATURE_KW, ENDDISCIPLINE_KW, END_KW}"
  shows "\<exists>r. vals_loop (Suc n) q = vals_loop n r \<and> rests p (s + 7) r"
proof -
  have set: "TokenSet_contains CASE_COND_RECOVERY k = Some False" using assms(5) by (auto simp: CASE_COND_RECOVERY_def TS_contains)
  have ne: "k \<noteq> COLON" "k \<noteq> COMMA" using assms(5) by auto
  from ret_rests(3) [OF assms(1,2) _ set] assms(3) obtain q1 where
    q1: "Parser_at_ts CASE_COND_RECOVERY q = Some (False, q1)" "rests p (s + 1) q1" by (auto simp: ret_def)
  from expr_rests [OF q1(2) assms(2) _ assms(4)] assms(3,5) obtain e q2 where
    q2: "grammar_expr n q1 = Some (e, q2)" "rests p (s + 4) q2" by (auto simp: ret_def eval_nat_numeral)
  from ret_rests(2) [OF q2(2) assms(2), of COLON] ne assms(3) obtain q3 where
    q3: "Parser_at COLON q2 = Some (False, q3)" "rests p (s + 5) q3" by (auto simp: ret_def eval_nat_numeral)
  from ret_expect_missing [OF q3(2) assms(2) _ ne(2), of "[COLON, COMMA]"] assms(3) obtain b q4 where
    q4: "Parser_expect_with COMMA [COLON, COMMA] q3 = Some (b, q4)" "rests p (s + 7) q4" by (auto simp: ret_def eval_nat_numeral)
  have "vals_loop (Suc n) q = vals_loop n q4" using q1(1) q2(1) q3(1) q4(1) by simp
  with q4(2) show ?thesis by blast
qed

lemma values_rounds:
  assumes "ahead p (k # ks)" "k \<in> {SEMICOLON, ENDFUNCTION_KW, ENDNATURE_KW, ENDDISCIPLINE_KW, END_KW}"
  shows "i + 2 \<le> n \<Longrightarrow> steps p + 7 * i \<le> step_limit \<Longrightarrow> \<exists>q. vals_loop n p = vals_loop (n - i) q \<and> rests p (steps p + 7 * i) q"
proof (induction i)
  case 0
  then show ?case by (intro exI [of _ p]) (simp add: rests_def)
next
  case (Suc i)
  then obtain q where q: "vals_loop n p = vals_loop (n - i) q" "rests p (steps p + 7 * i) q" by auto
  have "n - i = Suc (n - Suc i)" "2 \<le> n - Suc i" using Suc.prems(1) by simp_all
  with values_round [OF q(2) assms(1) _ this(2) assms(2)] Suc.prems(2) q(1) show ?case by (auto simp: algebra_simps)
qed

text \<open>C31: Where the values of a case item are expected, a semicolon or one of the keywords end, endfunction, endnature and
enddiscipline makes the parser look for a value again and again. Every round of the loop makes seven looks at
tokens, reports two errors and passes no token, so \<open>i\<close> rounds lead from the token to the same token and no call
returns. Only the limit on the looks, ten million, ends this: when it is exceeded the next look fails its
assertion, and the compiler aborts instead of reporting the errors.\<close>
theorem case_values_never_end:
  assumes "drop (pos p) (tokens p) = k # ks" "k \<in> {SEMICOLON, ENDFUNCTION_KW, ENDNATURE_KW, ENDDISCIPLINE_KW, END_KW}"
  shows "vals_or_default n p = None \<and>
    (\<forall>i m. i + 2 \<le> m \<longrightarrow> steps p + 7 * i \<le> step_limit \<longrightarrow>
      (\<exists>q. vals_loop m p = vals_loop (m - i) q \<and> tokens q = tokens p \<and> pos q = pos p \<and> steps q = steps p + 7 * i)) \<and>
    (\<forall>q. step_limit < steps q \<longrightarrow> Parser_at_ts CASE_COND_RECOVERY q = None)"
proof (intro conjI)
  have ahead: "ahead p (k # ks)" using assms(1) by (simp add: ahead_def)
  show "\<forall>i m. i + 2 \<le> m \<longrightarrow> steps p + 7 * i \<le> step_limit \<longrightarrow>
      (\<exists>q. vals_loop m p = vals_loop (m - i) q \<and> tokens q = tokens p \<and> pos q = pos p \<and> steps q = steps p + 7 * i)"
    using values_rounds [OF ahead assms(2)] unfolding rests_def by blast
  show "\<forall>q. step_limit < steps q \<longrightarrow> Parser_at_ts CASE_COND_RECOVERY q = None"
    by (simp add: Parser_at_ts_def Parser_current_def Parser_nth_def rust_assert_def)
  show "vals_or_default n p = None" by (rule vals_or_default_none [OF ahead assms(2)])
qed

text \<open>The tokens after the head of \<open>case (x) ; endcase\<close>.\<close>

theorem case_values_never_end_witness:
  "vals_or_default 1000 \<lparr>tokens = [CASE_KW, L_PAREN, IDENT, R_PAREN, SEMICOLON, ENDCASE_KW], pos = 4, events = [], steps = 9\<rparr> = None \<and>
   (\<exists>q. vals_loop 1000 \<lparr>tokens = [CASE_KW, L_PAREN, IDENT, R_PAREN, SEMICOLON, ENDCASE_KW], pos = 4, events = [], steps = 9\<rparr> = vals_loop 100 q \<and>
      pos q = 4 \<and> steps q = 6309)"
proof -
  let ?p = "\<lparr>tokens = [CASE_KW, L_PAREN, IDENT, R_PAREN, SEMICOLON, ENDCASE_KW], pos = 4, events = [], steps = 9\<rparr>"
  have "drop (pos ?p) (tokens ?p) = SEMICOLON # [ENDCASE_KW]" "SEMICOLON \<in> {SEMICOLON, ENDFUNCTION_KW, ENDNATURE_KW, ENDDISCIPLINE_KW, END_KW}"
    by simp_all
  note never = case_values_never_end [OF this]
  have "900 + 2 \<le> (1000 :: nat)" "steps ?p + 7 * 900 \<le> step_limit" by (simp_all add: step_limit_def)
  then have "\<exists>q. vals_loop 1000 ?p = vals_loop (1000 - 900) q \<and> tokens q = tokens ?p \<and> pos q = pos ?p \<and> steps q = steps ?p + 7 * 900"
    using never [of 1000, THEN conjunct2, THEN conjunct1] by blast
  with never [of 1000, THEN conjunct1] show ?thesis by auto
qed

end
