(* ===== verification/List_Pool.thy ===== *)
theory List_Pool
  imports Prelude
begin

text \<open>
  The pool of small lists of \<^verbatim>\<open>lib/list_pool/src/lib.rs\<close>, in which the operand lists of the MIR live: one
  vector of entities that holds every list with its length in front, in blocks whose sizes are powers of two,
  the blocks given back being chained into one free list per size class. Entities are naturals, as everywhere
  here; the conversion \<open>T::from\<close> asserts that a number is below the reserved value of 32 bits. The operations
  are followed by their effect on the lists of a pool; List_Pool_Spec has the refinement.
\<close>

section \<open>Vectors\<close>

text \<open>Writing the slice that starts at \<open>a\<close>; \<open>for (i, j)\<close> a loop that moves the element \<open>j\<close> to \<open>i\<close>.\<close>

definition slice_write :: "'a list \<Rightarrow> nat \<Rightarrow> 'a list \<Rightarrow> 'a list panics" where
  "slice_write xs a ys = (if a + length ys \<le> length xs then Some (take a xs @ ys @ drop (a + length ys) xs) else None)"

fun move_loop :: "(nat \<times> nat) list \<Rightarrow> 'a list \<Rightarrow> 'a list panics" where
  "move_loop [] s = Some s"
| "move_loop ((i, j) # ijs) s = do { x \<leftarrow> vec_get s j; s \<leftarrow> vec_set s i x; move_loop ijs s }"

definition u32_leading_zeros :: "32 word \<Rightarrow> nat" where
  "u32_leading_zeros w = length (takeWhile (\<lambda>i. \<not> bit w i) (rev [0..<32]))"

fun is_power_of_two :: "nat \<Rightarrow> bool" where
  "is_power_of_two n = (if n \<le> 1 then n = 1 else even n \<and> is_power_of_two (n div 2))"

declare is_power_of_two.simps [simp del]

section \<open>The pool\<close>

record list_handle =
  handle_index :: nat

record list_pool =
  pool_data :: "nat list"
  pool_free :: "nat list"

definition reserved_entity :: nat where
  "reserved_entity = 4294967295"

definition entity_from :: "nat \<Rightarrow> nat panics" where
  "entity_from n = (if int n < 4294967295 then Some n else None)"

definition handle_at :: "nat \<Rightarrow> list_handle" where
  "handle_at i = \<lparr>handle_index = nat (int i mod 4294967296)\<rparr>"

definition sclass_size :: "nat \<Rightarrow> nat" where
  "sclass_size sclass = 4 * 2 ^ sclass"

definition sclass_for_length :: "nat \<Rightarrow> nat" where
  "sclass_for_length len = 30 - u32_leading_zeros (of_nat len OR 3)"

definition is_sclass_min_length :: "nat \<Rightarrow> bool" where
  "is_sclass_min_length len \<longleftrightarrow> len > 3 \<and> is_power_of_two len"

definition ListPool_new :: list_pool where
  "ListPool_new = \<lparr>pool_data = [], pool_free = []\<rparr>"

definition ListPool_clear :: "list_pool \<Rightarrow> list_pool" where
  "ListPool_clear self = self\<lparr>pool_data := [], pool_free := []\<rparr>"

text \<open>\<open>wrapping_sub\<close> turns the index 0 into \<open>usize::MAX\<close>, which is past the end of every vector.\<close>

definition ListPool_len_of :: "list_pool \<Rightarrow> list_handle \<Rightarrow> nat option" where
  "ListPool_len_of self l =
     (if handle_index l = 0 then None else vec_get (pool_data self) (handle_index l - 1))"

definition ListPool_alloc :: "list_pool \<Rightarrow> nat \<Rightarrow> (nat \<times> list_pool) panics" where
  "ListPool_alloc self sclass =
     (let extend =
        (let offset = length (pool_data self)
         in Some (offset, self\<lparr>pool_data := vec_resize (pool_data self) (offset + sclass_size sclass) reserved_entity\<rparr>))
      in case vec_get (pool_free self) sclass of
           Some head \<Rightarrow>
             if head > 0 then do {
               next \<leftarrow> vec_get (pool_data self) head;
               f \<leftarrow> vec_set (pool_free self) sclass next;
               Some (head - 1, self\<lparr>pool_free := f\<rparr>)
             } else extend
         | None \<Rightarrow> extend)"

definition ListPool_free :: "list_pool \<Rightarrow> nat \<Rightarrow> nat \<Rightarrow> list_pool panics" where
  "ListPool_free self block sclass =
     (let f = (if length (pool_free self) \<le> sclass then vec_resize (pool_free self) (sclass + 1) 0 else pool_free self)
      in do {
        zero \<leftarrow> entity_from 0;
        d \<leftarrow> vec_set (pool_data self) block zero;
        head \<leftarrow> vec_get f sclass;
        next \<leftarrow> entity_from head;
        d \<leftarrow> vec_set d (block + 1) next;
        f \<leftarrow> vec_set f sclass (block + 1);
        Some (self\<lparr>pool_data := d, pool_free := f\<rparr>)
      })"

text \<open>The two slices, as their bounds in the vector.\<close>

definition ListPool_mut_slices :: "list_pool \<Rightarrow> nat \<Rightarrow> nat \<Rightarrow> ((nat \<times> nat) \<times> (nat \<times> nat)) panics" where
  "ListPool_mut_slices self block0 block1 =
     (let n = length (pool_data self)
      in if block0 < block1 then do { _ \<leftarrow> rust_assert (block1 \<le> n); Some ((block0, block1), (block1, n)) }
         else do { _ \<leftarrow> rust_assert (block0 \<le> n); Some ((block0, n), (block1, block0)) })"

definition ListPool_realloc :: "list_pool \<Rightarrow> nat \<Rightarrow> nat \<Rightarrow> nat \<Rightarrow> nat \<Rightarrow> (nat \<times> list_pool) panics" where
  "ListPool_realloc self block from_sclass to_sclass elems_to_copy = do {
     _ \<leftarrow> rust_assert (elems_to_copy \<le> sclass_size from_sclass);
     _ \<leftarrow> rust_assert (elems_to_copy \<le> sclass_size to_sclass);
     (new_block, self) \<leftarrow> ListPool_alloc self to_sclass;
     self \<leftarrow> (if elems_to_copy > 0 then do {
         ((o0, o1), (n0, n1)) \<leftarrow> ListPool_mut_slices self block new_block;
         old \<leftarrow> slice_range (pool_data self) o0 o1;
         new \<leftarrow> slice_range (pool_data self) n0 n1;
         src \<leftarrow> slice_range old 0 elems_to_copy;
         dst \<leftarrow> slice_range new 0 elems_to_copy;
         xs \<leftarrow> copy_from_slice dst src;
         d \<leftarrow> slice_write (pool_data self) n0 xs;
         Some (self\<lparr>pool_data := d\<rparr>)
       } else Some self);
     self \<leftarrow> ListPool_free self block from_sclass;
     Some (new_block, self)
   }"

section \<open>Lists\<close>

definition ListHandle_new :: list_handle where
  "ListHandle_new = \<lparr>handle_index = 0\<rparr>"

definition pool_put :: "nat \<Rightarrow> nat \<Rightarrow> list_pool \<Rightarrow> list_pool panics" where
  "pool_put i x pool = do { d \<leftarrow> vec_set (pool_data pool) i x; Some (pool\<lparr>pool_data := d\<rparr>) }"

definition ListHandle_from_slice :: "nat list \<Rightarrow> list_pool \<Rightarrow> (list_handle \<times> list_pool) panics" where
  "ListHandle_from_slice elems pool =
     (let len = length elems
      in if len = 0 then Some (ListHandle_new, pool)
         else do {
           (block, pool) \<leftarrow> ListPool_alloc pool (sclass_for_length len);
           n \<leftarrow> entity_from len;
           pool \<leftarrow> pool_put block n pool;
           dst \<leftarrow> slice_range (pool_data pool) (block + 1) (block + len + 1);
           xs \<leftarrow> copy_from_slice dst elems;
           d \<leftarrow> slice_write (pool_data pool) (block + 1) xs;
           Some (handle_at (block + 1), pool\<lparr>pool_data := d\<rparr>)
         })"

definition ListHandle_is_empty :: "list_handle \<Rightarrow> bool" where
  "ListHandle_is_empty self \<longleftrightarrow> handle_index self = 0"

definition ListHandle_len :: "list_handle \<Rightarrow> list_pool \<Rightarrow> nat" where
  "ListHandle_len self pool = (case ListPool_len_of pool self of Some n \<Rightarrow> n | None \<Rightarrow> 0)"

definition ListHandle_is_valid :: "list_handle \<Rightarrow> list_pool \<Rightarrow> bool" where
  "ListHandle_is_valid self pool \<longleftrightarrow> ListHandle_is_empty self \<or> ListPool_len_of pool self \<noteq> None"

definition ListHandle_as_slice :: "list_handle \<Rightarrow> list_pool \<Rightarrow> nat list panics" where
  "ListHandle_as_slice self pool =
     (let idx = handle_index self
      in case ListPool_len_of pool self of
           None \<Rightarrow> Some []
         | Some len \<Rightarrow> slice_range (pool_data pool) idx (idx + len))"

definition ListHandle_get :: "list_handle \<Rightarrow> nat \<Rightarrow> list_pool \<Rightarrow> nat option panics" where
  "ListHandle_get self i pool = do { s \<leftarrow> ListHandle_as_slice self pool; Some (vec_get s i) }"

definition ListHandle_first :: "list_handle \<Rightarrow> list_pool \<Rightarrow> nat option panics" where
  "ListHandle_first self pool =
     (if ListHandle_is_empty self then Some None
      else do { x \<leftarrow> vec_get (pool_data pool) (handle_index self); Some (Some x) })"

text \<open>
  A mutable slice is what the caller does with it: \<open>f\<close> takes the elements and returns the new ones.
\<close>

definition ListHandle_as_mut_slice ::
  "list_handle \<Rightarrow> (nat list \<Rightarrow> nat list panics) \<Rightarrow> list_pool \<Rightarrow> list_pool panics" where
  "ListHandle_as_mut_slice self f pool =
     (let idx = handle_index self
      in case ListPool_len_of pool self of
           None \<Rightarrow> do { _ \<leftarrow> f []; Some pool }
         | Some len \<Rightarrow> do {
             s \<leftarrow> slice_range (pool_data pool) idx (idx + len);
             s \<leftarrow> f s;
             d \<leftarrow> slice_write (pool_data pool) idx s;
             Some (pool\<lparr>pool_data := d\<rparr>)
           })"

definition ListHandle_get_mut :: "list_handle \<Rightarrow> nat \<Rightarrow> (nat \<Rightarrow> nat) \<Rightarrow> list_pool \<Rightarrow> list_pool panics" where
  "ListHandle_get_mut self i f pool =
     ListHandle_as_mut_slice self (\<lambda>s. Some (case vec_get s i of None \<Rightarrow> s | Some x \<Rightarrow> s[i := f x])) pool"

definition ListHandle_deep_clone :: "list_handle \<Rightarrow> list_pool \<Rightarrow> (list_handle \<times> list_pool) panics" where
  "ListHandle_deep_clone self pool =
     (case ListPool_len_of pool self of
        None \<Rightarrow> Some (ListHandle_new, pool)
      | Some len \<Rightarrow>
          let src = handle_index self
          in do {
            (block, pool) \<leftarrow> ListPool_alloc pool (sclass_for_length len);
            n \<leftarrow> entity_from len;
            pool \<leftarrow> pool_put block n pool;
            xs \<leftarrow> slice_range (pool_data pool) src (src + len);
            d \<leftarrow> slice_write (pool_data pool) (block + 1) xs;
            Some (handle_at (block + 1), pool\<lparr>pool_data := d\<rparr>)
          })"

definition ListHandle_to_pool :: "list_handle \<Rightarrow> list_pool \<Rightarrow> list_pool \<Rightarrow> (list_handle \<times> list_pool) panics" where
  "ListHandle_to_pool self src dst = do { s \<leftarrow> ListHandle_as_slice self src; ListHandle_from_slice s dst }"

definition ListHandle_clear :: "list_handle \<Rightarrow> list_pool \<Rightarrow> (list_handle \<times> list_pool) panics" where
  "ListHandle_clear self pool =
     (let idx = handle_index self
      in do {
        pool \<leftarrow> (case ListPool_len_of pool self of
            None \<Rightarrow> do { _ \<leftarrow> rust_assert (idx = 0); Some pool }
          | Some len \<Rightarrow> ListPool_free pool (idx - 1) (sclass_for_length len));
        Some (self\<lparr>handle_index := 0\<rparr>, pool)
      })"

text \<open>The new list, and what is left behind.\<close>

definition ListHandle_take :: "list_handle \<Rightarrow> list_handle \<times> list_handle" where
  "ListHandle_take self = (self, ListHandle_new)"

definition ListHandle_push :: "list_handle \<Rightarrow> nat \<Rightarrow> list_pool \<Rightarrow> (nat \<times> list_handle \<times> list_pool) panics" where
  "ListHandle_push self element pool =
     (let idx = handle_index self
      in case ListPool_len_of pool self of
           None \<Rightarrow> do {
             _ \<leftarrow> rust_assert (idx = 0);
             (block, pool) \<leftarrow> ListPool_alloc pool (sclass_for_length 1);
             n \<leftarrow> entity_from 1;
             pool \<leftarrow> pool_put block n pool;
             pool \<leftarrow> pool_put (block + 1) element pool;
             Some (0, handle_at (block + 1), pool)
           }
         | Some len \<Rightarrow>
             let new_len = len + 1
             in do {
               (block, self, pool) \<leftarrow> (if is_sclass_min_length new_len then
                   let sclass = sclass_for_length len
                   in do {
                     (block, pool) \<leftarrow> ListPool_realloc pool (idx - 1) sclass (sclass + 1) (len + 1);
                     Some (block, handle_at (block + 1), pool)
                   }
                 else Some (idx - 1, self, pool));
               pool \<leftarrow> pool_put (block + new_len) element pool;
               n \<leftarrow> entity_from new_len;
               pool \<leftarrow> pool_put block n pool;
               Some (len, self, pool)
             })"

text \<open>\<open>grow\<close> returns a mutable slice of the whole list, which again is what the caller does with it.\<close>

definition ListHandle_grow ::
  "list_handle \<Rightarrow> nat \<Rightarrow> (nat list \<Rightarrow> nat list panics) \<Rightarrow> list_pool \<Rightarrow> (list_handle \<times> list_pool) panics" where
  "ListHandle_grow self count f pool =
     (let idx = handle_index self;
          finish = (\<lambda>new_len block self pool. do {
            n \<leftarrow> entity_from new_len;
            pool \<leftarrow> pool_put block n pool;
            s \<leftarrow> slice_range (pool_data pool) (block + 1) (block + 1 + new_len);
            s \<leftarrow> f s;
            d \<leftarrow> slice_write (pool_data pool) (block + 1) s;
            Some (self, pool\<lparr>pool_data := d\<rparr>)
          })
      in case ListPool_len_of pool self of
           None \<Rightarrow> do {
             _ \<leftarrow> rust_assert (idx = 0);
             if count = 0 then do { _ \<leftarrow> f []; Some (self, pool) }
             else do {
               (block, pool) \<leftarrow> ListPool_alloc pool (sclass_for_length count);
               finish count block (handle_at (block + 1)) pool
             }
           }
         | Some len \<Rightarrow>
             let sclass = sclass_for_length len;
                 new_len = len + count;
                 new_sclass = sclass_for_length new_len
             in if new_sclass \<noteq> sclass then do {
                  (block, pool) \<leftarrow> ListPool_realloc pool (idx - 1) sclass new_sclass (len + 1);
                  finish new_len block (handle_at (block + 1)) pool
                } else finish new_len (idx - 1) self pool)"

text \<open>
  An iterator is its elements and its \<open>size_hint\<close>. The loop that zips it with the slice ends with the shorter.
\<close>

fun ListHandle_push_all :: "nat list \<Rightarrow> list_handle \<Rightarrow> list_pool \<Rightarrow> (list_handle \<times> list_pool) panics" where
  "ListHandle_push_all [] self pool = Some (self, pool)"
| "ListHandle_push_all (x # xs) self pool = do {
     (_, self, pool) \<leftarrow> ListHandle_push self x pool;
     ListHandle_push_all xs self pool
   }"

definition write_zipped :: "nat list \<Rightarrow> nat \<Rightarrow> nat list \<Rightarrow> nat list panics" where
  "write_zipped xs len s = do {
     offset \<leftarrow> usize_sub (length s) len;
     dst \<leftarrow> slice_range s offset (length s);
     slice_write s offset (take (length dst) xs)
   }"

definition ListHandle_extend ::
  "list_handle \<Rightarrow> nat \<times> nat option \<Rightarrow> nat list \<Rightarrow> list_pool \<Rightarrow> (list_handle \<times> list_pool) panics" where
  "ListHandle_extend self hint elements pool =
     (let (len, upper) = hint
      in if upper = Some len then ListHandle_grow self len (write_zipped elements len) pool
         else ListHandle_push_all elements self pool)"

definition ListHandle_from_iter :: "nat \<times> nat option \<Rightarrow> nat list \<Rightarrow> list_pool \<Rightarrow> (list_handle \<times> list_pool) panics" where
  "ListHandle_from_iter hint elements pool = ListHandle_extend ListHandle_new hint elements pool"

definition insert_into :: "nat \<Rightarrow> nat \<Rightarrow> nat list \<Rightarrow> nat list panics" where
  "insert_into i element seq =
     (if i < length seq then do {
        tail \<leftarrow> slice_range seq i (length seq);
        tail \<leftarrow> move_loop (map (\<lambda>i. (i, i - 1)) (rev [1..<length tail])) tail;
        tail \<leftarrow> vec_set tail 0 element;
        slice_write seq i tail
      } else do { _ \<leftarrow> rust_assert (i = length seq); Some seq })"

definition ListHandle_insert :: "list_handle \<Rightarrow> nat \<Rightarrow> nat \<Rightarrow> list_pool \<Rightarrow> (list_handle \<times> list_pool) panics" where
  "ListHandle_insert self i element pool = do {
     (_, self, pool) \<leftarrow> ListHandle_push self element pool;
     pool \<leftarrow> ListHandle_as_mut_slice self (insert_into i element) pool;
     Some (self, pool)
   }"

definition ListHandle_remove_last :: "list_handle \<Rightarrow> nat \<Rightarrow> list_pool \<Rightarrow> (list_handle \<times> list_pool) panics" where
  "ListHandle_remove_last self len pool =
     (if len = 1 then ListHandle_clear self pool
      else do {
        block \<leftarrow> usize_sub (handle_index self) 1;
        (block, self, pool) \<leftarrow> (if is_sclass_min_length len then
            let sclass = sclass_for_length len
            in do {
              to \<leftarrow> usize_sub sclass 1;
              (block, pool) \<leftarrow> ListPool_realloc pool block sclass to len;
              Some (block, handle_at (block + 1), pool)
            }
          else Some (block, self, pool));
        m \<leftarrow> usize_sub len 1;
        n \<leftarrow> entity_from m;
        pool \<leftarrow> pool_put block n pool;
        Some (self, pool)
      })"

definition remove_from :: "nat \<Rightarrow> nat list \<Rightarrow> nat list panics" where
  "remove_from i seq = do {
     _ \<leftarrow> rust_assert (i < length seq);
     last \<leftarrow> usize_sub (length seq) 1;
     move_loop (map (\<lambda>i. (i, i + 1)) [i..<last]) seq
   }"

definition ListHandle_remove :: "list_handle \<Rightarrow> nat \<Rightarrow> list_pool \<Rightarrow> (list_handle \<times> list_pool) panics" where
  "ListHandle_remove self i pool =
     (let len = ListHandle_len self pool
      in do {
        pool \<leftarrow> ListHandle_as_mut_slice self (remove_from i) pool;
        ListHandle_remove_last self len pool
      })"

definition swap_with_last :: "nat \<Rightarrow> nat list \<Rightarrow> nat list panics" where
  "swap_with_last i seq = do {
     _ \<leftarrow> rust_assert (i < length seq);
     last \<leftarrow> usize_sub (length seq) 1;
     if i \<noteq> last then do {
       x \<leftarrow> vec_get seq i;
       y \<leftarrow> vec_get seq last;
       Some (seq[i := y, last := x])
     } else Some seq
   }"

definition ListHandle_swap_remove :: "list_handle \<Rightarrow> nat \<Rightarrow> list_pool \<Rightarrow> (list_handle \<times> list_pool) panics" where
  "ListHandle_swap_remove self i pool =
     (let len = ListHandle_len self pool
      in do {
        pool \<leftarrow> ListHandle_as_mut_slice self (swap_with_last i) pool;
        ListHandle_remove_last self len pool
      })"

definition ListHandle_truncate :: "list_handle \<Rightarrow> nat \<Rightarrow> list_pool \<Rightarrow> (list_handle \<times> list_pool) panics" where
  "ListHandle_truncate self new_len pool =
     (if new_len = 0 then ListHandle_clear self pool
      else case ListPool_len_of pool self of
             None \<Rightarrow> Some (self, pool)
           | Some len \<Rightarrow>
               if len \<le> new_len then Some (self, pool)
               else
                 let idx = handle_index self;
                     sclass = sclass_for_length len;
                     new_sclass = sclass_for_length new_len
                 in do {
                   (block, self, pool) \<leftarrow> (if sclass \<noteq> new_sclass then do {
                       (block, pool) \<leftarrow> ListPool_realloc pool (idx - 1) sclass new_sclass (new_len + 1);
                       Some (block, handle_at (block + 1), pool)
                     } else Some (idx - 1, self, pool));
                   n \<leftarrow> entity_from new_len;
                   pool \<leftarrow> pool_put block n pool;
                   Some (self, pool)
                 })"

definition ListHandle_grow_at :: "list_handle \<Rightarrow> nat \<Rightarrow> nat \<Rightarrow> list_pool \<Rightarrow> (list_handle \<times> list_pool) panics" where
  "ListHandle_grow_at self i count pool =
     ListHandle_grow self count
       (\<lambda>s. move_loop (map (\<lambda>i. (i, i - count)) (rev [i + count..<length s])) s) pool"

end
