(* ===== verification/List_Pool_Blocks.thy ===== *)
theory List_Pool_Blocks
  imports List_Pool
begin

text \<open>
  The size classes, the blocks of a pool of lists, and that allocation keeps them apart. \<open>pool_ok p M\<close> says that the map \<open>M\<close> from
  positions to blocks, each a live list or unused, describes the vector and the free lists of \<open>p\<close>: the blocks do
  not overlap, a live one holds its list behind its length and the unused ones of a class are its chain.
\<close>

section \<open>Size classes\<close>

lemma is_power_of_two_iff: "is_power_of_two n \<longleftrightarrow> (\<exists>k. n = 2 ^ k)"
proof (induction n rule: is_power_of_two.induct)
  case (1 n)
  show ?case
  proof (cases "n \<le> 1")
    case True
    moreover have "k = 0" if "n = 2 ^ k" for k
    proof (rule ccontr)
      assume "k \<noteq> 0"
      then have "(2 :: nat) ^ 1 \<le> 2 ^ k" by (intro power_increasing) auto
      with that True show False by simp
    qed
    ultimately show ?thesis by (subst is_power_of_two.simps) (auto intro: exI [of _ 0])
  next
    case False
    have "even n \<and> (\<exists>k. n div 2 = 2 ^ k) \<longleftrightarrow> (\<exists>k. n = 2 ^ k)"
    proof (intro iffI; elim conjE exE)
      fix k assume "even n" "n div 2 = 2 ^ k"
      then show "\<exists>k. n = 2 ^ k" by (intro exI [of _ "Suc k"]) auto
    next
      fix k assume k: "n = 2 ^ k"
      with False obtain j where "k = Suc j" by (cases k) auto
      with k show "even n \<and> (\<exists>k. n div 2 = 2 ^ k)" by auto
    qed
    with 1 False show ?thesis by (subst is_power_of_two.simps) simp
  qed
qed

lemma leading_zeros_top:
  assumes "bit w k" "\<And>i. k < i \<Longrightarrow> i < 32 \<Longrightarrow> \<not> bit w i"
  shows "u32_leading_zeros w = 31 - k"
proof -
  from assms(1) have k: "k < 32" using bit_imp_le_length [of w k] by simp
  have "[0..<32] = [0..<k] @ k # [Suc k..<32]"
    using upt_add_eq_append [of 0 k "32 - k"] k by (simp add: upt_conv_Cons)
  then have "rev [0..<32] = rev [Suc k..<32] @ k # rev [0..<k]" by simp
  then have "u32_leading_zeros w = length (rev [Suc k..<32])"
    unfolding u32_leading_zeros_def using assms by (simp add: takeWhile_append)
  then show ?thesis by simp
qed

lemma sclass_eq:
  assumes "n < 2 ^ 32" "n < 4 * 2 ^ s" "s = 0 \<or> 2 * 2 ^ s \<le> n"
  shows "sclass_for_length n = s"
proof -
  let ?w = "of_nat n OR 3 :: 32 word"
  have b3: "bit (3 :: 32 word) i \<longleftrightarrow> i \<le> 1" for i
    by (cases i; cases "i - 1") (auto simp: bit_numeral_rec bit_Suc)
  have bw: "bit ?w i \<longleftrightarrow> i < 32 \<and> (odd (n div 2 ^ i) \<or> i \<le> 1)" for i
    using b3 [of i] by (auto simp: bit_or_iff bit_of_nat_iff bit_iff_odd [of n])
  have "bit ?w (Suc s)"
  proof (cases "s = 0")
    case False
    with assms(3) have lo: "2 ^ Suc s \<le> n" by simp
    have "n < 2 * 2 ^ Suc s" using assms(2) by simp
    then have "n div 2 ^ Suc s = 1" using lo by (intro div_nat_eqI) simp_all
    moreover have "Suc s < 32" 
    proof (rule power_less_imp_less_exp [of "2 :: nat"])
      show "(2 :: nat) ^ Suc s < 2 ^ 32" using lo assms(1) by linarith
    qed simp
    ultimately show ?thesis unfolding bw by simp
  qed (simp add: bw)
  moreover have "\<not> bit ?w i" if "Suc s < i" for i
  proof -
    have "(4 :: nat) * 2 ^ s = 2 ^ (s + 2)" by simp
    also have "\<dots> \<le> 2 ^ i" using that by (intro power_increasing) auto
    finally have "n div 2 ^ i = 0" using assms(2) by (simp add: div_less)
    with that show ?thesis unfolding bw by simp
  qed
  ultimately have "u32_leading_zeros ?w = 31 - Suc s" and "Suc s < 32"
    using leading_zeros_top [of ?w "Suc s"] bw [of "Suc s"] by simp_all
  then show ?thesis by (simp add: sclass_for_length_def)
qed

lemma sclass_bounds:
  assumes "n < 2 ^ 32"
  shows "n < sclass_size (sclass_for_length n)"
    and "sclass_for_length n = 0 \<or> 2 * 2 ^ sclass_for_length n \<le> n"
proof -
  have "\<exists>s. n < 4 * 2 ^ s \<and> (s = 0 \<or> 2 * 2 ^ s \<le> n)"
  proof (cases "n < 4")
    case False
    then obtain k where k: "2 ^ k \<le> n" "n < 2 ^ (k + 1)" using ex_power_ivl1 [of 2 n] by auto
    have "2 \<le> k"
    proof (rule ccontr)
      assume "\<not> 2 \<le> k"
      then have "(2 :: nat) ^ (k + 1) \<le> 2 ^ 2" by (intro power_increasing) auto
      with k(2) False show False by simp
    qed
    then obtain s where "k = Suc s" by (cases k) auto
    with k show ?thesis by (intro exI [of _ s]) auto
  qed (intro exI [of _ 0], simp)
  then obtain s where s: "n < 4 * 2 ^ s" "s = 0 \<or> 2 * 2 ^ s \<le> n" by blast
  with sclass_eq [OF assms s] show "n < sclass_size (sclass_for_length n)"
    "sclass_for_length n = 0 \<or> 2 * 2 ^ sclass_for_length n \<le> n" by (auto simp: sclass_size_def)
qed

lemma sclass_Suc:
  assumes "n + 1 < 2 ^ 32" "0 < n"
  shows "sclass_for_length (n + 1) = (if is_sclass_min_length (n + 1) then sclass_for_length n + 1 else sclass_for_length n)"
proof -
  let ?s = "sclass_for_length n"
  have b: "n < 4 * 2 ^ ?s" "?s = 0 \<or> 2 * 2 ^ ?s \<le> n"
    using sclass_bounds [of n] assms(1) by (auto simp: sclass_size_def)
  show ?thesis
  proof (cases "n + 1 = 4 * 2 ^ ?s")
    case True
    then have "n + 1 = 2 ^ (?s + 2)" by simp
    then have "is_power_of_two (n + 1)" unfolding is_power_of_two_iff by blast
    moreover have "n + 1 > 3" using True one_le_power [of "2 :: nat" ?s] by linarith
    ultimately have "is_sclass_min_length (n + 1)" unfolding is_sclass_min_length_def by blast
    moreover have "sclass_for_length (n + 1) = ?s + 1" by (rule sclass_eq) (use assms True in auto)
    ultimately show ?thesis by simp
  next
    case False
    with b(1) have lt: "n + 1 < 4 * 2 ^ ?s" by simp
    have "\<not> is_sclass_min_length (n + 1)"
    proof
      assume "is_sclass_min_length (n + 1)"
      then obtain k where k: "n + 1 = 2 ^ k" "n + 1 > 3" unfolding is_sclass_min_length_def is_power_of_two_iff by blast
      have "?s \<noteq> 0"
      proof
        assume "?s = 0"
        then have "(4 :: nat) * 2 ^ ?s = 4" by simp
        with lt k(2) show False by linarith
      qed
      with b(2) have "2 ^ (?s + 1) < (2 :: nat) ^ k" using k(1) by simp
      then have "?s + 1 < k" by (rule power_less_imp_less_exp [rotated]) simp
      then have "(2 :: nat) ^ (?s + 2) \<le> 2 ^ k" by (intro power_increasing) auto
      with lt k(1) show False by simp
    qed
    moreover have "sclass_for_length (n + 1) = ?s" by (rule sclass_eq) (use assms lt b in auto)
    ultimately show ?thesis by simp
  qed
qed

lemma sclass_size_pos [simp]: "4 \<le> sclass_size s" "0 < sclass_size s" "Suc 0 < sclass_size s"
proof -
  have "1 \<le> (2 :: nat) ^ s" by simp
  then show "4 \<le> sclass_size s" "0 < sclass_size s" "Suc 0 < sclass_size s" unfolding sclass_size_def by linarith+
qed

section \<open>The blocks of a pool\<close>

datatype pool_block = Live "nat list" | Unused nat

fun block_size :: "pool_block \<Rightarrow> nat" where
  "block_size (Live xs) = sclass_size (sclass_for_length (length xs))"
| "block_size (Unused s) = sclass_size s"

definition free_head :: "list_pool \<Rightarrow> nat \<Rightarrow> nat" where
  "free_head p s = (if s < length (pool_free p) then pool_free p ! s else 0)"

fun chained :: "nat list \<Rightarrow> nat \<Rightarrow> nat list \<Rightarrow> bool" where
  "chained d h [] \<longleftrightarrow> h = 0"
| "chained d h (b # bs) \<longleftrightarrow> h = b + 1 \<and> chained d (d ! (b + 1)) bs"

definition holds_list :: "nat list \<Rightarrow> nat \<Rightarrow> nat list \<Rightarrow> bool" where
  "holds_list d b xs \<longleftrightarrow> b + length xs < length d \<and> d ! b = length xs \<and> (\<forall>i < length xs. d ! (b + 1 + i) = xs ! i)"

definition blocks_fit :: "nat list \<Rightarrow> (nat \<rightharpoonup> pool_block) \<Rightarrow> bool" where
  "blocks_fit d M \<longleftrightarrow> (\<forall>b x. M b = Some x \<longrightarrow> b + block_size x \<le> length d) \<and>
     (\<forall>b c x y. M b = Some x \<longrightarrow> M c = Some y \<longrightarrow> b < c \<longrightarrow> b + block_size x \<le> c)"

definition pool_ok :: "list_pool \<Rightarrow> (nat \<rightharpoonup> pool_block) \<Rightarrow> bool" where
  "pool_ok p M \<longleftrightarrow> length (pool_data p) < 2 ^ 32 \<and> blocks_fit (pool_data p) M \<and>
     (\<forall>b xs. M b = Some (Live xs) \<longrightarrow> xs \<noteq> [] \<and> holds_list (pool_data p) b xs) \<and>
     (\<forall>s. \<exists>bs. chained (pool_data p) (free_head p s) bs \<and> distinct bs \<and> set bs = {b. M b = Some (Unused s)})"

text \<open>A hole: room of \<open>n\<close> entities at \<open>b\<close> that no block touches.\<close>

definition hole :: "nat list \<Rightarrow> (nat \<rightharpoonup> pool_block) \<Rightarrow> nat \<Rightarrow> nat \<Rightarrow> bool" where
  "hole d M b n \<longleftrightarrow> 0 < n \<and> b + n \<le> length d \<and> (\<forall>c x. M c = Some x \<longrightarrow> b + n \<le> c \<or> c + block_size x \<le> b)"

definition agree_outside :: "nat \<Rightarrow> nat \<Rightarrow> nat list \<Rightarrow> nat list \<Rightarrow> bool" where
  "agree_outside b n d e \<longleftrightarrow> length e = length d \<and> (\<forall>i. i < b \<or> b + n \<le> i \<longrightarrow> e ! i = d ! i)"

lemma free_head_data [simp]: "free_head (p\<lparr>pool_data := d\<rparr>) s = free_head p s"
  by (simp add: free_head_def)

lemma block_size_pos [simp]: "4 \<le> block_size x" "0 < block_size x" "Suc 0 < block_size x"
  by (cases x; simp)+

lemma live_fits: "length xs < 2 ^ 32 \<Longrightarrow> length xs < block_size (Live xs)"
  by (simp add: sclass_bounds)

lemma pool_okD:
  assumes "pool_ok p M" "M b = Some x"
  shows "b + block_size x \<le> length (pool_data p)"
    and "M c = Some y \<Longrightarrow> b < c \<Longrightarrow> b + block_size x \<le> c"
  using assms unfolding pool_ok_def blocks_fit_def by blast+

lemma pool_ok_live:
  assumes "pool_ok p M" "M b = Some (Live xs)"
  shows "xs \<noteq> []" "holds_list (pool_data p) b xs" "length xs < 2 ^ 32" "length xs < block_size (Live xs)"
proof -
  from assms show "xs \<noteq> []" and h: "holds_list (pool_data p) b xs" unfolding pool_ok_def by blast+
  from h assms(1) show l: "length xs < 2 ^ 32" unfolding pool_ok_def holds_list_def by linarith
  then show "length xs < block_size (Live xs)" by (rule live_fits)
qed

lemma hole_None: "hole d M b n \<Longrightarrow> M b = None"
proof (rule ccontr)
  assume h: "hole d M b n" and "M b \<noteq> None"
  then obtain x where "M b = Some x" by blast
  with h have "0 < n" "b + n \<le> b \<or> b + block_size x \<le> b" unfolding hole_def by blast+
  with block_size_pos(2) [of x] show False by linarith
qed

lemma hole_smaller: "hole d M b n \<Longrightarrow> length e = length d \<Longrightarrow> (\<And>c x. N c = Some x \<Longrightarrow> M c = Some x) \<Longrightarrow> hole e N b n"
  unfolding hole_def by metis

lemma holds_list_outside:
  assumes "holds_list d c xs" "agree_outside b n d e" "length xs < m" "b + n \<le> c \<or> c + m \<le> b"
  shows "holds_list e c xs"
  using assms unfolding holds_list_def agree_outside_def by auto

lemma chained_cong: "(\<And>b. b \<in> set bs \<Longrightarrow> e ! (b + 1) = d ! (b + 1)) \<Longrightarrow> chained e h bs = chained d h bs"
  by (induction bs arbitrary: h) auto

text \<open>Writing into a hole changes no list.\<close>

lemma write_hole:
  assumes ok: "pool_ok p M" and hole: "hole (pool_data p) M b n" and out: "agree_outside b n (pool_data p) d"
  shows "pool_ok (p\<lparr>pool_data := d\<rparr>) M"
proof -
  have len: "length d = length (pool_data p)" using out by (simp add: agree_outside_def)
  have far: "b + n \<le> c \<or> c + block_size x \<le> b" if "M c = Some x" for c x
    using hole that unfolding hole_def by blast
  have "holds_list d c xs" if "M c = Some (Live xs)" for c xs
    using holds_list_outside [OF _ out] pool_ok_live [OF ok that] far [OF that] by blast
  moreover have "\<exists>bs. chained d (free_head (p\<lparr>pool_data := d\<rparr>) s) bs \<and> distinct bs \<and> set bs = {b. M b = Some (Unused s)}" for s
  proof -
    from ok obtain bs where bs: "chained (pool_data p) (free_head p s) bs" "distinct bs" "set bs = {b. M b = Some (Unused s)}"
      unfolding pool_ok_def by blast
    have "d ! (c + 1) = pool_data p ! (c + 1)" if "c \<in> set bs" for c
    proof -
      from that bs(3) have "M c = Some (Unused s)" by simp
      from far [OF this] have "b + n \<le> c \<or> c + sclass_size s \<le> b" by simp
      with sclass_size_pos(3) [of s] have "c + 1 < b \<or> b + n \<le> c + 1" by linarith
      with out show ?thesis unfolding agree_outside_def by blast
    qed
    from chained_cong [of bs d "pool_data p", OF this] bs show ?thesis
      by (intro exI [of _ bs]) simp
  qed
  ultimately show ?thesis using ok len unfolding pool_ok_def blocks_fit_def by simp
qed

lemma fit_insert:
  assumes "blocks_fit d M" "hole d M b (block_size x)"
  shows "blocks_fit d (M(b \<mapsto> x))"
  unfolding blocks_fit_def
proof (intro conjI allI impI)
  fix c y assume "(M(b \<mapsto> x)) c = Some y"
  then show "c + block_size y \<le> length d"
    using assms unfolding blocks_fit_def hole_def by (cases "c = b") auto
next
  fix c e y z assume *: "(M(b \<mapsto> x)) c = Some y" "(M(b \<mapsto> x)) e = Some z" "c < e"
  have far: "b + block_size x \<le> c \<or> c + block_size y \<le> b" if "M c = Some y" for c y
    using assms(2) that unfolding hole_def by blast
  show "c + block_size y \<le> e"
  proof (cases "c = b")
    case True
    with * have "M e = Some z" "y = x" by auto
    from far [OF this(1)] True this(2) *(3) show ?thesis by auto
  next
    case False
    with * have c: "M c = Some y" by simp
    show ?thesis
    proof (cases "e = b")
      case True
      with far [OF c] *(3) show ?thesis by auto
    next
      case False
      with * c assms(1) show ?thesis unfolding blocks_fit_def by simp
    qed
  qed
qed

lemma fill_hole:
  assumes ok: "pool_ok p M" and hole: "hole (pool_data p) M b (block_size (Live xs))" and out: "agree_outside b (block_size (Live xs)) (pool_data p) d"
    and xs: "xs \<noteq> []" "holds_list d b xs"
  shows "pool_ok (p\<lparr>pool_data := d\<rparr>) (M(b \<mapsto> Live xs))"
proof -
  have ok': "pool_ok (p\<lparr>pool_data := d\<rparr>) M" by (rule write_hole [OF ok hole out])
  have "length d = length (pool_data p)" using out by (simp add: agree_outside_def)
  then have "blocks_fit d (M(b \<mapsto> Live xs))"
    using fit_insert [of d M b "Live xs"] ok' hole unfolding pool_ok_def hole_def by simp
  moreover have "{c. (M(b \<mapsto> Live xs)) c = Some (Unused s)} = {c. M c = Some (Unused s)}" for s
    using hole_None [OF hole] by auto
  ultimately show ?thesis using ok' xs unfolding pool_ok_def by simp
qed

lemma drop_live:
  assumes ok: "pool_ok p M" and b: "M b = Some (Live xs)"
  shows "pool_ok p (M(b := None))" "hole (pool_data p) (M(b := None)) b (block_size (Live xs))"
proof -
  have "{c. (M(b := None)) c = Some (Unused s)} = {c. M c = Some (Unused s)}" for s using b by auto
  then show "pool_ok p (M(b := None))" using ok unfolding pool_ok_def blocks_fit_def by simp
  show "hole (pool_data p) (M(b := None)) b (block_size (Live xs))"
    unfolding hole_def
  proof (intro conjI allI impI)
    show "b + block_size (Live xs) \<le> length (pool_data p)" by (rule pool_okD(1) [OF ok b])
    fix c x assume c: "(M(b := None)) c = Some x"
    then have "c \<noteq> b" "M c = Some x" by (auto split: if_splits)
    then consider "b < c" | "c < b" by linarith
    then show "b + block_size (Live xs) \<le> c \<or> c + block_size x \<le> b"
      using pool_okD(2) [OF ok b \<open>M c = Some x\<close>] pool_okD(2) [OF ok \<open>M c = Some x\<close> b] by cases auto
  qed simp
qed

section \<open>Allocation\<close>

definition same_lives :: "(nat \<rightharpoonup> pool_block) \<Rightarrow> (nat \<rightharpoonup> pool_block) \<Rightarrow> bool" where
  "same_lives M N \<longleftrightarrow> (\<forall>b xs. N b = Some (Live xs) \<longleftrightarrow> M b = Some (Live xs))"

lemma hole_extended:
  assumes "blocks_fit d M" "0 < n"
  shows "hole (vec_resize d (length d + n) x) M (length d) n" "blocks_fit (vec_resize d (length d + n) x) M"
  using assms unfolding hole_def blocks_fit_def by (fastforce intro: trans_le_add1)+

lemma alloc_extends:
  assumes ok: "pool_ok p M" and room: "length (pool_data p) + sclass_size s < 2 ^ 32"
  defines "d \<equiv> vec_resize (pool_data p) (length (pool_data p) + sclass_size s) reserved_entity"
  shows "pool_ok (p\<lparr>pool_data := d\<rparr>) M" "hole d M (length (pool_data p)) (sclass_size s)"
proof -
  let ?n = "length (pool_data p)"
  have d: "length d = ?n + sclass_size s" "\<And>i. i < ?n \<Longrightarrow> d ! i = pool_data p ! i"
    by (simp_all add: d_def nth_vec_resize)
  show "hole d M ?n (sclass_size s)" unfolding d_def using ok by (intro hole_extended) (auto simp: pool_ok_def)
  have "holds_list d b xs" if "holds_list (pool_data p) b xs" for b xs
    using that d unfolding holds_list_def by auto
  moreover have "\<exists>bs. chained d (free_head (p\<lparr>pool_data := d\<rparr>) t) bs \<and> distinct bs \<and> set bs = {b. M b = Some (Unused t)}" for t
  proof -
    from ok obtain bs where bs: "chained (pool_data p) (free_head p t) bs" "distinct bs" "set bs = {b. M b = Some (Unused t)}"
      unfolding pool_ok_def by blast
    have "d ! (b + 1) = pool_data p ! (b + 1)" if "b \<in> set bs" for b
    proof -
      from that bs(3) have "M b = Some (Unused t)" by simp
      from pool_okD(1) [OF ok this] have "b + sclass_size t \<le> ?n" by simp
      with sclass_size_pos(3) [of t] have "b + 1 < ?n" by linarith
      then show ?thesis by (rule d(2))
    qed
    from chained_cong [of bs d "pool_data p", OF this] bs show ?thesis
      by (intro exI [of _ bs]) simp
  qed
  moreover have "blocks_fit d M" unfolding d_def using ok by (intro hole_extended(2)) (auto simp: pool_ok_def)
  ultimately show "pool_ok (p\<lparr>pool_data := d\<rparr>) M" using ok room d(1) unfolding pool_ok_def by simp
qed

lemma alloc_reuses:
  assumes ok: "pool_ok p M" and s: "s < length (pool_free p)" "pool_free p ! s = b + 1"
  defines "q \<equiv> p\<lparr>pool_free := (pool_free p)[s := pool_data p ! (b + 1)]\<rparr>"
  shows "M b = Some (Unused s)" "pool_ok q (M(b := None))" "hole (pool_data q) (M(b := None)) b (sclass_size s)"
proof -
  from ok obtain bs where bs: "chained (pool_data p) (free_head p s) bs" "distinct bs" "set bs = {c. M c = Some (Unused s)}"
    unfolding pool_ok_def by blast
  have h: "free_head p s = b + 1" using s by (simp add: free_head_def)
  then obtain cs where "bs = b # cs" using bs(1) by (cases bs) auto
  with bs h have cs: "chained (pool_data p) (pool_data p ! (b + 1)) cs" "distinct (b # cs)"
    "set (b # cs) = {c. M c = Some (Unused s)}" by simp_all
  then show b: "M b = Some (Unused s)" by auto
  have sub: "(M(b := None)) c = Some x \<Longrightarrow> c \<noteq> b \<and> M c = Some x" for c x by (auto split: if_splits)
  have "\<exists>bs. chained (pool_data q) (free_head q t) bs \<and> distinct bs \<and> set bs = {c. (M(b := None)) c = Some (Unused t)}" for t
  proof (cases "t = s")
    case True
    have "free_head q s = pool_data p ! (b + 1)" using s by (simp add: free_head_def q_def)
    moreover have "set cs = {c. (M(b := None)) c = Some (Unused s)}" using cs(2,3) by auto
    ultimately show ?thesis using cs(1,2) True by (intro exI [of _ cs]) (simp add: q_def)
  next
    case False
    then have "free_head q t = free_head p t" by (simp add: free_head_def q_def)
    moreover have "{c. (M(b := None)) c = Some (Unused t)} = {c. M c = Some (Unused t)}" using False b by auto
    ultimately show ?thesis using ok by (simp add: pool_ok_def q_def)
  qed
  moreover have "blocks_fit (pool_data q) (M(b := None))"
  proof -
    have "blocks_fit (pool_data p) M" using ok by (simp add: pool_ok_def)
    with sub have "blocks_fit (pool_data p) (M(b := None))" unfolding blocks_fit_def by meson
    then show ?thesis by (simp add: q_def)
  qed
  moreover have "xs \<noteq> [] \<and> holds_list (pool_data q) c xs" if "(M(b := None)) c = Some (Live xs)" for c xs
    using pool_ok_live(1,2) [OF ok, of c xs] sub [OF that] by (auto simp: q_def)
  moreover have "length (pool_data q) < 2 ^ 32" using ok by (simp add: pool_ok_def q_def)
  ultimately show "pool_ok q (M(b := None))" unfolding pool_ok_def by blast
  show "hole (pool_data q) (M(b := None)) b (sclass_size s)"
    unfolding hole_def
  proof (intro conjI allI impI)
    show "b + sclass_size s \<le> length (pool_data q)" using pool_okD(1) [OF ok b] by (simp add: q_def)
    fix c x assume "(M(b := None)) c = Some x"
    from sub [OF this] have c: "c \<noteq> b" "M c = Some x" by auto
    then consider "b < c" | "c < b" by linarith
    then show "b + sclass_size s \<le> c \<or> c + block_size x \<le> b"
      using pool_okD(2) [OF ok b c(2)] pool_okD(2) [OF ok c(2) b] by cases auto
  qed simp
qed

lemma alloc_ok:
  assumes ok: "pool_ok p M" and room: "length (pool_data p) + sclass_size s < 2 ^ 32"
  obtains b q N where "ListPool_alloc p s = Some (b, q)" "pool_ok q N" "hole (pool_data q) N b (sclass_size s)"
    "same_lives M N" "length (pool_data p) \<le> length (pool_data q)" "length (pool_data q) \<le> length (pool_data p) + sclass_size s"
    "\<forall>i < length (pool_data p). pool_data q ! i = pool_data p ! i"
proof (cases "s < length (pool_free p) \<and> pool_free p ! s > 0")
  case True
  then obtain b where s: "s < length (pool_free p)" "pool_free p ! s = b + 1" by (metis Suc_eq_plus1 gr0_conv_Suc)
  note reuse = alloc_reuses [OF ok s]
  have "b + sclass_size s \<le> length (pool_data p)" using pool_okD(1) [OF ok reuse(1)] by simp
  with sclass_size_pos(3) [of s] have "b + 1 < length (pool_data p)" by linarith
  with s have "ListPool_alloc p s = Some (b, p\<lparr>pool_free := (pool_free p)[s := pool_data p ! (b + 1)]\<rparr>)"
    by (simp add: ListPool_alloc_def Let_def)
  moreover have "same_lives M (M(b := None))" using reuse(1) by (auto simp: same_lives_def)
  ultimately show thesis using that [OF _ reuse(2,3)] by simp
next
  case False
  let ?d = "vec_resize (pool_data p) (length (pool_data p) + sclass_size s) reserved_entity"
  have "ListPool_alloc p s = Some (length (pool_data p), p\<lparr>pool_data := ?d\<rparr>)"
    using False by (simp add: ListPool_alloc_def Let_def vec_get_def)
  from that [OF this alloc_extends(1) [OF ok room]] alloc_extends(2) [OF ok room] show thesis
    by (simp add: same_lives_def nth_vec_resize)
qed

lemma free_ok:
  assumes ok: "pool_ok p M" and hole: "hole (pool_data p) M b (sclass_size s)"
  obtains q where "ListPool_free p b s = Some q" "pool_ok q (M(b \<mapsto> Unused s))"
    "agree_outside b (sclass_size s) (pool_data p) (pool_data q)"
proof -
  let ?h = "free_head p s" and ?f = "(if length (pool_free p) \<le> s then vec_resize (pool_free p) (s + 1) 0 else pool_free p)"
  let ?d = "(pool_data p)[b := 0, b + 1 := ?h]"
  let ?q = "p\<lparr>pool_data := ?d, pool_free := ?f[s := b + 1]\<rparr>"
  from ok obtain bs where bs: "chained (pool_data p) ?h bs" "distinct bs" "set bs = {c. M c = Some (Unused s)}"
    unfolding pool_ok_def by blast
  have small: "length (pool_data p) < 4294967296" using ok by (simp add: pool_ok_def)
  have b: "b + 1 < length (pool_data p)" using hole sclass_size_pos(3) [of s] unfolding hole_def by linarith
  have "?h < 4294967295"
  proof (cases bs)
    case (Cons c cs)
    with bs have "?h = c + 1" "M c = Some (Unused s)" by auto
    with pool_okD(1) [OF ok] have "?h + sclass_size s \<le> length (pool_data p) + 1" by fastforce
    with small sclass_size_pos(1) [of s] show ?thesis by linarith
  qed (use bs in simp)
  moreover have "?f ! s = ?h" "s < length ?f" by (auto simp: free_head_def nth_vec_resize)
  ultimately have "ListPool_free p b s = Some ?q"
    using b by (simp add: ListPool_free_def Let_def entity_from_def)
  moreover have out: "agree_outside b (sclass_size s) (pool_data p) ?d"
    unfolding agree_outside_def
  proof (intro conjI allI impI)
    fix i assume "i < b \<or> b + sclass_size s \<le> i"
    with sclass_size_pos(3) [of s] have "i \<noteq> b" "i \<noteq> b + 1" by linarith+
    then show "?d ! i = pool_data p ! i" by simp
  qed simp
  moreover have "pool_ok ?q (M(b \<mapsto> Unused s))"
  proof -
    have ok': "pool_ok (p\<lparr>pool_data := ?d\<rparr>) M" by (rule write_hole [OF ok hole out])
    have Mb: "M b = None" by (rule hole_None [OF hole])
    have head: "free_head ?q t = (if t = s then b + 1 else free_head p t)" for t
      by (auto simp: free_head_def nth_vec_resize nth_list_update less_Suc_eq)
    have "\<exists>bs. chained ?d (free_head ?q t) bs \<and> distinct bs \<and> set bs = {c. (M(b \<mapsto> Unused s)) c = Some (Unused t)}" for t
    proof (cases "t = s")
      case True
      have "c \<noteq> b" if "c \<in> set bs" for c using that bs(3) Mb by auto
      then have "?d ! (c + 1) = pool_data p ! (c + 1)" if "c \<in> set bs" for c
      proof -
        from that bs(3) have "M c = Some (Unused s)" by simp
        with hole have "b + sclass_size s \<le> c \<or> c + sclass_size s \<le> b" unfolding hole_def by fastforce
        with sclass_size_pos(3) [of s] have "c + 1 \<noteq> b" "c \<noteq> b" by linarith+
        then show ?thesis by simp
      qed
      then have "chained ?d ?h bs" using chained_cong [of bs ?d "pool_data p"] bs(1) by blast
      moreover have "?d ! (b + 1) = ?h" using b by simp
      ultimately show ?thesis using bs(2,3) Mb True head [of s] by (intro exI [of _ "b # bs"]) auto
    next
      case False
      then have "{c. (M(b \<mapsto> Unused s)) c = Some (Unused t)} = {c. M c = Some (Unused t)}" using Mb by auto
      moreover have "free_head ?q t = free_head (p\<lparr>pool_data := ?d\<rparr>) t" using False head by (simp add: free_head_def)
      ultimately show ?thesis using ok' unfolding pool_ok_def by simp
    qed
    moreover have "blocks_fit ?d (M(b \<mapsto> Unused s))"
      using fit_insert [of ?d M b "Unused s"] ok' hole unfolding pool_ok_def hole_def by simp
    ultimately show ?thesis using ok' unfolding pool_ok_def by simp
  qed
  ultimately show thesis using that by simp
qed

lemma nth_slice_write:
  assumes "slice_write d c ys = Some e"
  shows "agree_outside c (length ys) d e" "\<And>i. i < length ys \<Longrightarrow> e ! (c + i) = ys ! i"
  using assms by (auto simp: slice_write_def agree_outside_def nth_append split: if_splits)

lemma agree_outside_mono: "agree_outside b n d e \<Longrightarrow> n \<le> m \<Longrightarrow> agree_outside b m d e"
  unfolding agree_outside_def by simp

lemma agree_outside_trans: "agree_outside b n d e \<Longrightarrow> agree_outside b n e f \<Longrightarrow> agree_outside b n d f"
  unfolding agree_outside_def by simp

lemma agree_outside_refl [simp]: "agree_outside b n d d"
  unfolding agree_outside_def by simp

lemma agree_outside_set: "b \<le> i \<Longrightarrow> i < b + n \<Longrightarrow> agree_outside b n d (d[i := x])"
  unfolding agree_outside_def by (auto simp: nth_list_update)

lemma holds_list_nth: "holds_list d b xs \<Longrightarrow> i \<le> length xs \<Longrightarrow> d ! (b + i) = (length xs # xs) ! i"
  unfolding holds_list_def by (cases i) auto

lemma copy_ok:
  assumes "b + n \<le> c \<or> c + n \<le> b" "b + n \<le> length (pool_data p)" "c + n \<le> length (pool_data p)" "b \<noteq> c"
  shows "\<exists>d. (if n > 0 then do {
         ((o0, o1), (n0, n1)) \<leftarrow> ListPool_mut_slices p b c;
         old \<leftarrow> slice_range (pool_data p) o0 o1;
         new \<leftarrow> slice_range (pool_data p) n0 n1;
         src \<leftarrow> slice_range old 0 n;
         dst \<leftarrow> slice_range new 0 n;
         xs \<leftarrow> copy_from_slice dst src;
         d \<leftarrow> slice_write (pool_data p) n0 xs;
         Some (p\<lparr>pool_data := d\<rparr>)
       } else Some p) = Some (p\<lparr>pool_data := d\<rparr>) \<and> agree_outside c n (pool_data p) d \<and>
       (\<forall>i < n. d ! (c + i) = pool_data p ! (b + i))"
proof (cases "n > 0")
  case True
  let ?d = "take c (pool_data p) @ take n (drop b (pool_data p)) @ drop (c + n) (pool_data p)"
  have w: "slice_write (pool_data p) c (take n (drop b (pool_data p))) = Some ?d"
    using assms by (simp add: slice_write_def)
  have "agree_outside c n (pool_data p) ?d" "\<forall>i < n. ?d ! (c + i) = pool_data p ! (b + i)"
    using nth_slice_write [OF w] assms by auto
  moreover from assms consider "b < c" "b + n \<le> c" | "c < b" "c + n \<le> b" by linarith
  then have "(do {
         ((o0, o1), (n0, n1)) \<leftarrow> ListPool_mut_slices p b c;
         old \<leftarrow> slice_range (pool_data p) o0 o1;
         new \<leftarrow> slice_range (pool_data p) n0 n1;
         src \<leftarrow> slice_range old 0 n;
         dst \<leftarrow> slice_range new 0 n;
         xs \<leftarrow> copy_from_slice dst src;
         d \<leftarrow> slice_write (pool_data p) n0 xs;
         Some (p\<lparr>pool_data := d\<rparr>)
       }) = Some (p\<lparr>pool_data := ?d\<rparr>)"
    using assms True w
    by cases (auto simp: ListPool_mut_slices_def Let_def slice_range_def copy_from_slice_def min_def)
  ultimately show ?thesis using True by (intro exI [of _ ?d]) simp
qed (intro exI [of _ "pool_data p"], simp)

lemma realloc_ok:
  assumes ok: "pool_ok p M" and b: "M b = Some (Live xs)" and n: "n \<le> length xs + 1" "n \<le> sclass_size t"
    and room: "length (pool_data p) + sclass_size t < 2 ^ 32"
  obtains c q N where "ListPool_realloc p b (sclass_for_length (length xs)) t n = Some (c, q)" "pool_ok q N"
    "hole (pool_data q) N c (sclass_size t)" "same_lives (M(b := None)) N"
    "length (pool_data q) \<le> length (pool_data p) + sclass_size t"
    "\<And>i. i < n \<Longrightarrow> pool_data q ! (c + i) = (length xs # xs) ! i"
proof -
  let ?s = "sclass_for_length (length xs)"
  have sz: "length xs < sclass_size ?s" using pool_ok_live(4) [OF ok b] by simp
  obtain c q N where q: "ListPool_alloc p t = Some (c, q)" "pool_ok q N"
    "hole (pool_data q) N c (sclass_size t)" "same_lives M N"
    "length (pool_data q) \<le> length (pool_data p) + sclass_size t" by (rule alloc_ok [OF ok room])
  from q(4) b have Nb: "N b = Some (Live xs)" by (simp add: same_lives_def)
  have far: "c + sclass_size t \<le> b \<or> b + sclass_size ?s \<le> c"
  proof -
    have "c + sclass_size t \<le> b \<or> b + block_size (Live xs) \<le> c" using q(3) Nb unfolding hole_def by blast
    then show ?thesis by simp
  qed
  have fit: "b + n \<le> length (pool_data q)" using pool_okD(1) [OF q(2) Nb] sz n by simp
  have fit': "c + n \<le> length (pool_data q)" using q(3) n(2) unfolding hole_def by linarith
  have "b + n \<le> c \<or> c + n \<le> b" "b \<noteq> c" using far sz n sclass_size_pos(2) [of t] by linarith+
  from copy_ok [OF this(1) fit fit' this(2)] obtain d where d:
    "(if n > 0 then do {
         ((o0, o1), (n0, n1)) \<leftarrow> ListPool_mut_slices q b c;
         old \<leftarrow> slice_range (pool_data q) o0 o1;
         new \<leftarrow> slice_range (pool_data q) n0 n1;
         src \<leftarrow> slice_range old 0 n;
         dst \<leftarrow> slice_range new 0 n;
         xs \<leftarrow> copy_from_slice dst src;
         d \<leftarrow> slice_write (pool_data q) n0 xs;
         Some (q\<lparr>pool_data := d\<rparr>)
       } else Some q) = Some (q\<lparr>pool_data := d\<rparr>)"
    "agree_outside c n (pool_data q) d" "\<forall>i < n. d ! (c + i) = pool_data q ! (b + i)" by blast
  let ?q = "q\<lparr>pool_data := d\<rparr>"
  have ok2: "pool_ok ?q N" by (rule write_hole [OF q(2,3) agree_outside_mono [OF d(2) n(2)]])
  have "hole (pool_data ?q) (N(b := None)) b (sclass_size ?s)" using drop_live(2) [OF ok2 Nb] by simp
  then obtain r where "ListPool_free ?q b ?s = Some r" "pool_ok r (N(b := None, b \<mapsto> Unused ?s))"
    "agree_outside b (sclass_size ?s) (pool_data ?q) (pool_data r)" by (rule free_ok [OF drop_live(1) [OF ok2 Nb]])
  then have r: "ListPool_free ?q b ?s = Some r"
    "pool_ok r (N(b \<mapsto> Unused ?s))" "agree_outside b (sclass_size ?s) d (pool_data r)" by simp_all
  have "ListPool_realloc p b ?s t n = Some (c, r)"
    using n sz q(1) d(1) r(1) by (simp add: ListPool_realloc_def del: neq0_conv)
  moreover have "hole (pool_data r) (N(b \<mapsto> Unused ?s)) c (sclass_size t)"
    using q(3) far d(2) r(3) unfolding hole_def agree_outside_def by simp
  moreover have "same_lives (M(b := None)) (N(b \<mapsto> Unused ?s))" using q(4) by (simp add: same_lives_def)
  moreover have "length (pool_data r) \<le> length (pool_data p) + sclass_size t"
    using q(5) d(2) r(3) by (simp add: agree_outside_def)
  moreover have "pool_data r ! (c + i) = (length xs # xs) ! i" if "i < n" for i
  proof -
    from that far n sz have "c + i < b \<or> b + sclass_size ?s \<le> c + i" by linarith
    with r(3) have "pool_data r ! (c + i) = d ! (c + i)" unfolding agree_outside_def by blast
    also have "\<dots> = pool_data q ! (b + i)" using d(3) that by blast
    also have "\<dots> = (length xs # xs) ! i"
      by (rule holds_list_nth) (use pool_ok_live(2) [OF q(2) Nb] that n in auto)
    finally show ?thesis .
  qed
  ultimately show thesis using that r(2) by blast
qed

end
