(* ===== verification/List_Pool_Spec.thy ===== *)
theory List_Pool_Spec
  imports List_Pool_Blocks
begin

text \<open>
  Every operation on a list of a pool changes it as the same operation on a vector would and leaves the other
  lists of the pool (\<open>effect\<close>), whatever moves in the vector behind them; so programs over list
  handles refine programs over lists.
\<close>

section \<open>What an operation does to the lists\<close>

definition reads :: "(nat \<rightharpoonup> pool_block) \<Rightarrow> list_handle \<Rightarrow> nat list \<Rightarrow> bool" where
  "reads M h xs \<longleftrightarrow> (if xs = [] then handle_index h = 0
     else handle_index h \<noteq> 0 \<and> M (handle_index h - 1) = Some (Live xs))"

definition frame :: "(nat \<rightharpoonup> pool_block) \<Rightarrow> list_handle \<Rightarrow> (nat \<rightharpoonup> pool_block) \<Rightarrow> bool" where
  "frame M h N \<longleftrightarrow> (\<forall>c xs. c + 1 \<noteq> handle_index h \<longrightarrow> M c = Some (Live xs) \<longrightarrow> N c = Some (Live xs))"

definition effect :: "(nat \<rightharpoonup> pool_block) \<Rightarrow> list_handle \<Rightarrow> (nat \<rightharpoonup> pool_block) \<Rightarrow> list_handle \<Rightarrow> nat list \<Rightarrow> bool" where
  "effect M h N h' ys \<longleftrightarrow> reads N h' ys \<and> frame M h N \<and>
     (handle_index h' \<noteq> 0 \<longrightarrow> handle_index h' = handle_index h \<or> (\<forall>xs. M (handle_index h' - 1) \<noteq> Some (Live xs)))"

text \<open>The result of an operation on \<open>h\<close> that makes \<open>ys\<close> of its list and lets the vector grow to \<open>m\<close> at most.\<close>

definition achieves ::
  "(nat \<rightharpoonup> pool_block) \<Rightarrow> list_handle \<Rightarrow> nat \<Rightarrow> nat list \<Rightarrow> (list_handle \<times> list_pool) panics \<Rightarrow> bool" where
  "achieves M h m ys res \<longleftrightarrow> (\<exists>h' q N. res = Some (h', q) \<and> pool_ok q N \<and> effect M h N h' ys \<and> length (pool_data q) \<le> m)"

lemma achievesE:
  assumes "achieves M h m ys res"
  obtains h' q N where "res = Some (h', q)" "pool_ok q N" "effect M h N h' ys" "length (pool_data q) \<le> m"
  using assms unfolding achieves_def by blast

lemma effect_trans:
  assumes 1: "effect M h N h' ys" and 2: "effect N h' P h'' zs"
  shows "effect M h P h'' zs"
  unfolding effect_def
proof (intro conjI impI)
  show "reads P h'' zs" using 2 by (simp add: effect_def)
  have keep: "N c = Some (Live xs) \<and> c + 1 \<noteq> handle_index h'" if "c + 1 \<noteq> handle_index h" "M c = Some (Live xs)" for c xs
  proof -
    have "N c = Some (Live xs)" using 1 that unfolding effect_def frame_def by blast
    moreover have "c + 1 \<noteq> handle_index h'"
    proof
      assume c: "c + 1 = handle_index h'"
      then have "handle_index h' - 1 = c" "handle_index h' \<noteq> 0" by auto
      with 1 that c show False unfolding effect_def by metis
    qed
    ultimately show ?thesis by blast
  qed
  show "frame M h P" unfolding frame_def
  proof (intro allI impI)
    fix c xs assume "c + 1 \<noteq> handle_index h" "M c = Some (Live xs)"
    from keep [OF this] 2 show "P c = Some (Live xs)" unfolding effect_def frame_def by blast
  qed
  assume nz: "handle_index h'' \<noteq> 0"
  show "handle_index h'' = handle_index h \<or> (\<forall>xs. M (handle_index h'' - 1) \<noteq> Some (Live xs))"
  proof (rule ccontr)
    assume "\<not> ?thesis"
    then obtain xs where n: "handle_index h'' \<noteq> handle_index h" "M (handle_index h'' - 1) = Some (Live xs)" by blast
    moreover have "handle_index h'' - 1 + 1 = handle_index h''" using nz by simp
    ultimately have "N (handle_index h'' - 1) = Some (Live xs)" "handle_index h'' \<noteq> handle_index h'"
      using keep [of "handle_index h'' - 1" xs] by simp_all
    with 2 nz show False unfolding effect_def by blast
  qed
qed

lemma achieves_trans:
  assumes "effect M h N h' ys" "achieves N h' m zs res"
  shows "achieves M h m zs res"
  using assms effect_trans unfolding achieves_def by blast

lemma reads_live: "reads M h xs \<Longrightarrow> xs \<noteq> [] \<Longrightarrow> handle_index h = (handle_index h - 1) + 1 \<and> M (handle_index h - 1) = Some (Live xs)"
  by (simp add: reads_def)

lemma handle_at_index: "i < 2 ^ 32 \<Longrightarrow> handle_index (handle_at i) = i"
  by (simp add: handle_at_def nat_mod_as_int flip: nat_mod_as_int)

lemma len_of_reads:
  assumes "pool_ok p M" "reads M h xs"
  shows "ListPool_len_of p h = (if xs = [] then None else Some (length xs))"
proof (cases "xs = []")
  case False
  let ?b = "handle_index h - 1"
  have "holds_list (pool_data p) ?b xs" using pool_ok_live(2) [OF assms(1)] reads_live [OF assms(2) False] by blast
  then have "?b < length (pool_data p)" "pool_data p ! ?b = length xs" by (auto simp: holds_list_def)
  with False assms(2) show ?thesis by (simp add: ListPool_len_of_def reads_def)
qed (use assms in \<open>simp add: ListPool_len_of_def reads_def\<close>)

lemma holds_list_slice: "holds_list d b xs \<Longrightarrow> slice_range d (b + 1) (b + 1 + length xs) = Some xs"
  unfolding holds_list_def slice_range_def by (auto intro: nth_equalityI)

lemma as_slice_reads:
  assumes "pool_ok p M" "reads M h xs"
  shows "ListHandle_as_slice h p = Some xs"
proof (cases "xs = []")
  case False
  note r = reads_live [OF assms(2) False]
  have "slice_range (pool_data p) (handle_index h - 1 + 1) (handle_index h - 1 + 1 + length xs) = Some xs"
    by (rule holds_list_slice) (use pool_ok_live(2) [OF assms(1)] r in blast)
  with r False show ?thesis by (simp add: ListHandle_as_slice_def len_of_reads [OF assms])
qed (simp add: ListHandle_as_slice_def len_of_reads [OF assms])

text \<open>A list written into a hole is the list of the handle.\<close>

lemma publish:
  assumes ok: "pool_ok q N" and hole: "hole (pool_data q) N b (block_size (Live ys))"
    and out: "agree_outside b (block_size (Live ys)) (pool_data q) d" and ys: "ys \<noteq> []" "holds_list d b ys"
    and frame: "frame M h N" and m: "length (pool_data q) \<le> m" and h': "handle_index h' = b + 1"
  shows "achieves M h m ys (Some (h', q\<lparr>pool_data := d\<rparr>))"
  unfolding achieves_def
proof (intro exI conjI)
  show "pool_ok (q\<lparr>pool_data := d\<rparr>) (N(b \<mapsto> Live ys))" by (rule fill_hole [OF ok hole out ys])
  have Nb: "N b = None" by (rule hole_None [OF hole])
  then have "M b = Some (Live xs) \<Longrightarrow> b + 1 = handle_index h" for xs using frame unfolding frame_def by (metis option.distinct(1))
  then show "effect M h (N(b \<mapsto> Live ys)) h' ys"
    using frame Nb ys(1) h' by (auto simp: effect_def reads_def frame_def)
  show "length (pool_data (q\<lparr>pool_data := d\<rparr>)) \<le> m" using m out by (simp add: agree_outside_def)
qed simp

lemma hole_index:
  assumes "pool_ok q N" "hole (pool_data q) N b n" "4 \<le> n"
  shows "handle_index (handle_at (b + 1)) = b + 1" "k < n \<Longrightarrow> entity_from k = Some k" "b < length (pool_data q)"
    "k < n \<Longrightarrow> b + k < length (pool_data q)"
proof -
  from assms have *: "b + n \<le> length (pool_data q)" "length (pool_data q) < 4294967296" by (auto simp: hole_def pool_ok_def)
  then show "handle_index (handle_at (b + 1)) = b + 1" using assms(3) by (intro handle_at_index) simp
  show "k < n \<Longrightarrow> entity_from k = Some k" "b < length (pool_data q)" "k < n \<Longrightarrow> b + k < length (pool_data q)"
    using * assms(3) by (auto simp: entity_from_def)
qed

section \<open>The operations on lists\<close>

definition alloc_cost :: "nat \<Rightarrow> nat \<Rightarrow> nat" where
  "alloc_cost old new =
     (if new = 0 \<or> 0 < old \<and> sclass_for_length old = sclass_for_length new then 0
      else sclass_size (sclass_for_length new))"

abbreviation room :: "list_pool \<Rightarrow> nat \<Rightarrow> nat \<Rightarrow> bool" where
  "room p old new \<equiv> length (pool_data p) + alloc_cost old new < 2 ^ 32 \<and> new < 2 ^ 32"

lemma alloc_list:
  assumes ok: "pool_ok p M" and r: "reads M h []" and room: "room p 0 n" and n: "0 < n"
  obtains b q N where "ListPool_alloc p (sclass_for_length n) = Some (b, q)" "pool_ok q N"
    "hole (pool_data q) N b (sclass_size (sclass_for_length n))" "frame M h N" "handle_index (handle_at (b + 1)) = b + 1"
    "length (pool_data q) \<le> length (pool_data p) + alloc_cost 0 n" "entity_from n = Some n"
    "b + n < length (pool_data q)" "\<And>i. i < length (pool_data p) \<Longrightarrow> pool_data q ! i = pool_data p ! i"
    "length (pool_data p) \<le> length (pool_data q)"
proof -
  have "length (pool_data p) + sclass_size (sclass_for_length n) < 2 ^ 32" using room n by (simp add: alloc_cost_def)
  then obtain b q N where q: "ListPool_alloc p (sclass_for_length n) = Some (b, q)" "pool_ok q N"
    "hole (pool_data q) N b (sclass_size (sclass_for_length n))" "same_lives M N" "length (pool_data p) \<le> length (pool_data q)"
    "length (pool_data q) \<le> length (pool_data p) + sclass_size (sclass_for_length n)"
    "\<forall>i < length (pool_data p). pool_data q ! i = pool_data p ! i" by (rule alloc_ok [OF ok])
  moreover have "frame M h N" using q(4) by (simp add: frame_def same_lives_def)
  moreover have "n < sclass_size (sclass_for_length n)" using room by (intro sclass_bounds) simp
  moreover note hole_index [OF q(2,3) sclass_size_pos(1)]
  ultimately show thesis using that n by (simp add: alloc_cost_def)
qed

text \<open>The block of a list, or a new one of another class with its first entries.\<close>

lemma resize_list:
  assumes ok: "pool_ok p M" and r: "reads M h xs" "xs \<noteq> []" and k: "k \<le> length xs + 1" "k \<le> sclass_size t"
    and C: "C \<longleftrightarrow> sclass_for_length (length xs) \<noteq> t" and room: "C \<Longrightarrow> length (pool_data p) + sclass_size t < 2 ^ 32"
  obtains b h' q N where
    "C \<longrightarrow> ListPool_realloc p (handle_index h - 1) (sclass_for_length (length xs)) t k = Some (b, q) \<and> h' = handle_at (b + 1)"
    "\<not> C \<longrightarrow> handle_index h = b + 1 \<and> h' = h \<and> q = p"
    "pool_ok q N" "hole (pool_data q) N b (sclass_size t)" "frame M h N" "handle_index h' = b + 1"
    "length (pool_data q) \<le> length (pool_data p) + (if C then sclass_size t else 0)"
    "\<forall>i < k. pool_data q ! (b + i) = (length xs # xs) ! i"
proof (cases C)
  case True
  let ?b = "handle_index h - 1"
  note l = reads_live [OF r]
  obtain c q N where q: "ListPool_realloc p ?b (sclass_for_length (length xs)) t k = Some (c, q)" "pool_ok q N"
    "hole (pool_data q) N c (sclass_size t)" "same_lives (M(?b := None)) N"
    "length (pool_data q) \<le> length (pool_data p) + sclass_size t"
    "\<And>i. i < k \<Longrightarrow> pool_data q ! (c + i) = (length xs # xs) ! i"
    by (rule realloc_ok [OF ok _ k, of ?b]) (use l room True in auto)
  moreover have "frame M h N"
  proof -
    have "c \<noteq> ?b" if "c + 1 \<noteq> handle_index h" for c using that l by linarith
    then show ?thesis using q(4) unfolding frame_def same_lives_def by simp
  qed
  moreover note hole_index(1) [OF q(2,3) sclass_size_pos(1)]
  ultimately show thesis using that True by simp
next
  case False
  let ?b = "handle_index h - 1"
  note l = reads_live [OF r]
  have Mb: "M ?b = Some (Live xs)" using l by blast
  have "frame M h (M(?b := None))"
  proof -
    have "c \<noteq> ?b" if "c + 1 \<noteq> handle_index h" for c using that l by linarith
    then show ?thesis unfolding frame_def by simp
  qed
  moreover have "pool_data p ! (?b + i) = (length xs # xs) ! i" if "i < k" for i
    by (rule holds_list_nth [OF pool_ok_live(2) [OF ok Mb]]) (use that k in simp)
  moreover have "hole (pool_data p) (M(?b := None)) ?b (sclass_size t)" using drop_live(2) [OF ok Mb] C False by simp
  ultimately show thesis using that [of ?b p h "M(?b := None)"] drop_live(1) [OF ok Mb] False l by simp
qed

lemma nth_behind_length: "\<forall>i < k + 1. d ! (b + i) = (n # xs) ! i \<Longrightarrow> \<forall>i < k. d ! (b + 1 + i) = xs ! i"
proof (intro allI impI)
  fix i assume "\<forall>i < k + 1. d ! (b + i) = (n # xs) ! i" "i < k"
  moreover from this have "i + 1 < k + 1" by simp
  ultimately have "d ! (b + (i + 1)) = (n # xs) ! (i + 1)" by blast
  then show "d ! (b + 1 + i) = xs ! i" by (simp add: add.commute add.left_commute)
qed

lemma from_slice_ok:
  assumes ok: "pool_ok p M" and room: "room p 0 (length ys)" and h: "reads M h []"
  shows "achieves M h (length (pool_data p) + alloc_cost 0 (length ys)) ys (ListHandle_from_slice ys p)"
proof (cases "ys = []")
  case True
  then show ?thesis using ok h
    by (auto simp: achieves_def effect_def frame_def reads_def ListHandle_from_slice_def ListHandle_new_def)
next
  case False
  then have n: "0 < length ys" by simp
  obtain b q N where q: "ListPool_alloc p (sclass_for_length (length ys)) = Some (b, q)" "pool_ok q N"
    "hole (pool_data q) N b (sclass_size (sclass_for_length (length ys)))" "frame M h N" "handle_index (handle_at (b + 1)) = b + 1"
    "length (pool_data q) \<le> length (pool_data p) + alloc_cost 0 (length ys)" "entity_from (length ys) = Some (length ys)"
    "b + length ys < length (pool_data q)" by (rule alloc_list [OF ok h room n])
  let ?d = "take (b + 1) ((pool_data q)[b := length ys]) @ ys @ drop (b + 1 + length ys) ((pool_data q)[b := length ys])"
  have sz: "length ys < sclass_size (sclass_for_length (length ys))" using room by (intro sclass_bounds) simp
  have w: "slice_write ((pool_data q)[b := length ys]) (b + 1) ys = Some ?d" using q(8) by (simp add: slice_write_def)
  have "ListHandle_from_slice ys p = Some (handle_at (b + 1), q\<lparr>pool_data := ?d\<rparr>)"
    using n q(1,7,8) w by (simp add: ListHandle_from_slice_def Let_def pool_put_def slice_range_def copy_from_slice_def)
  moreover have "holds_list ?d b ys"
    using nth_slice_write(2) [OF w] q(8) unfolding holds_list_def by (simp add: nth_append)
  moreover have "agree_outside b (block_size (Live ys)) (pool_data q) ?d"
  proof (rule agree_outside_trans)
    show "agree_outside b (block_size (Live ys)) (pool_data q) ((pool_data q)[b := length ys])" by (intro agree_outside_set) simp_all
    show "agree_outside b (block_size (Live ys)) ((pool_data q)[b := length ys]) ?d"
      using nth_slice_write(1) [OF w] sz unfolding agree_outside_def by simp
  qed
  ultimately show ?thesis using publish [OF q(2) _ _ False _ q(4,6,5)] q(3) by simp
qed

lemma clear_ok:
  assumes ok: "pool_ok p M" and r: "reads M h xs"
  shows "achieves M h (length (pool_data p)) [] (ListHandle_clear h p)"
proof (cases "xs = []")
  case True
  with r have "handle_index h = 0" by (simp add: reads_def)
  then have "h\<lparr>handle_index := 0\<rparr> = h" "ListPool_len_of p h = None" by (simp_all add: ListPool_len_of_def)
  with r ok True show ?thesis
    by (auto simp: achieves_def effect_def frame_def reads_def ListHandle_clear_def)
next
  case False
  let ?b = "handle_index h - 1"
  note l = reads_live [OF r False]
  have Mb: "M ?b = Some (Live xs)" using l by blast
  have "hole (pool_data p) (M(?b := None)) ?b (sclass_size (sclass_for_length (length xs)))" using drop_live(2) [OF ok Mb] by simp
  then obtain q where q: "ListPool_free p ?b (sclass_for_length (length xs)) = Some q"
    "pool_ok q (M(?b := None, ?b \<mapsto> Unused (sclass_for_length (length xs))))"
    "agree_outside ?b (sclass_size (sclass_for_length (length xs))) (pool_data p) (pool_data q)"
    by (rule free_ok [OF drop_live(1) [OF ok Mb]])
  have ne: "c \<noteq> ?b" if "c + 1 \<noteq> handle_index h" for c using that l by linarith
  show ?thesis unfolding achieves_def
  proof (intro exI conjI)
    show "ListHandle_clear h p = Some (h\<lparr>handle_index := 0\<rparr>, q)"
      using False q(1) by (simp add: ListHandle_clear_def Let_def len_of_reads [OF ok r])
    show "effect M h (M(?b := None, ?b \<mapsto> Unused (sclass_for_length (length xs)))) (h\<lparr>handle_index := 0\<rparr>) []"
      using ne by (simp add: effect_def reads_def frame_def)
  qed (use q in \<open>simp_all add: agree_outside_def\<close>)
qed

lemma pool_put_in [simp]: "i < length (pool_data p) \<Longrightarrow> pool_put i x p = Some (p\<lparr>pool_data := (pool_data p)[i := x]\<rparr>)"
  by (simp add: pool_put_def)

lemma push_ok:
  assumes ok: "pool_ok p M" and r: "reads M h xs" and room: "room p (length xs) (length xs + 1)"
  shows "\<exists>res. ListHandle_push h e p = Some (length xs, res) \<and>
    achieves M h (length (pool_data p) + alloc_cost (length xs) (length xs + 1)) (xs @ [e]) (Some res)"
proof (cases "xs = []")
  case True
  then have room0: "room p 0 1" and r0: "reads M h []" using room r by simp_all
  obtain b q N where q: "ListPool_alloc p (sclass_for_length 1) = Some (b, q)" "pool_ok q N"
    "hole (pool_data q) N b (sclass_size (sclass_for_length 1))" "frame M h N" "handle_index (handle_at (b + 1)) = b + 1"
    "length (pool_data q) \<le> length (pool_data p) + alloc_cost 0 1" "entity_from 1 = Some 1"
    "b + 1 < length (pool_data q)" by (rule alloc_list [OF ok r0 room0 zero_less_one])
  let ?d = "(pool_data q)[b := 1, b + 1 := e]"
  have "ListHandle_push h e p = Some (0, handle_at (b + 1), q\<lparr>pool_data := ?d\<rparr>)"
    using True q(1,7,8) r0 by (simp add: ListHandle_push_def Let_def len_of_reads [OF ok r0]) (simp add: reads_def)
  moreover have "holds_list ?d b [e]" using q(8) by (simp add: holds_list_def nth_list_update)
  moreover have "agree_outside b (block_size (Live [e])) (pool_data q) ?d"
    by (rule agree_outside_trans [OF agree_outside_set agree_outside_set]) simp_all
  ultimately show ?thesis using True publish [OF q(2) _ _ _ _ q(4,6,5), of "[e]"] q(3) by simp
next
  case False
  let ?n = "length xs" and ?C = "is_sclass_min_length (length xs + 1)" and ?s = "sclass_for_length (length xs)"
  have n: "0 < ?n" "?n + 1 < 2 ^ 32" using False room by auto
  note cls = sclass_Suc [OF n(2,1)]
  obtain t where t: "t = sclass_for_length (?n + 1)" by simp
  have fit: "?n + 1 < sclass_size t" unfolding t by (rule sclass_bounds) (rule n(2))
  have C: "?C \<longleftrightarrow> ?s \<noteq> t" using cls t by simp
  have cost: "alloc_cost ?n (?n + 1) = (if ?C then sclass_size t else 0)" using C n t by (auto simp: alloc_cost_def)
  have room': "length (pool_data p) + sclass_size t < 2 ^ 32" if ?C using room cost that by simp
  obtain b h' q N where
    e: "?C \<longrightarrow> ListPool_realloc p (handle_index h - 1) ?s t (?n + 1) = Some (b, q) \<and> h' = handle_at (b + 1)"
       "\<not> ?C \<longrightarrow> handle_index h = b + 1 \<and> h' = h \<and> q = p"
    and q: "pool_ok q N" "hole (pool_data q) N b (sclass_size t)" "frame M h N" "handle_index h' = b + 1"
    "length (pool_data q) \<le> length (pool_data p) + (if ?C then sclass_size t else 0)"
    "\<forall>i < ?n + 1. pool_data q ! (b + i) = (?n # xs) ! i"
    by (rule resize_list [OF ok r False le_refl less_imp_le [OF fit] C room'])
  let ?d = "(pool_data q)[b + (?n + 1) := e, b := ?n + 1]"
  note ix = hole_index [OF q(1,2) sclass_size_pos(1)]
  have "t = ?s + 1" if ?C using that cls t by simp
  with e have "ListHandle_push h e p = Some (?n, h', q\<lparr>pool_data := ?d\<rparr>)"
    using False ix(2,4) [OF fit] ix(3) by (cases ?C) (simp_all add: ListHandle_push_def Let_def len_of_reads [OF ok r])
  moreover have "holds_list ?d b (xs @ [e])"
    using ix(4) [OF fit] nth_behind_length [OF q(6)]
    unfolding holds_list_def by (auto simp: nth_list_update nth_append less_Suc_eq)
  moreover have "agree_outside b (block_size (Live (xs @ [e]))) (pool_data q) ?d"
    by (rule agree_outside_trans [OF agree_outside_set agree_outside_set]) (use fit t in simp_all)
  ultimately show ?thesis using publish [OF q(1) _ _ _ _ q(3) _ q(4), of "xs @ [e]"] q(2,5) t cost by simp
qed

lemma as_mut_slice_ok:
  assumes ok: "pool_ok p M" and r: "reads M h xs" and f: "f xs = Some ys" "length ys = length xs"
  obtains q N where "ListHandle_as_mut_slice h f p = Some q" "pool_ok q N" "effect M h N h ys"
    "length (pool_data q) = length (pool_data p)"
proof (cases "xs = []")
  case True
  with f have "ListHandle_as_mut_slice h f p = Some p" by (simp add: ListHandle_as_mut_slice_def len_of_reads [OF ok r])
  from that [OF this ok] True f r show thesis by (simp add: effect_def frame_def reads_def)
next
  case False
  obtain b where b: "handle_index h = b + 1" "M b = Some (Live xs)"
    using reads_live [OF r False] by metis
  note Mb = b(2)
  note h = pool_ok_live(2) [OF ok Mb]
  let ?d = "take (b + 1) (pool_data p) @ ys @ drop (b + 1 + length ys) (pool_data p)"
  have w: "slice_write (pool_data p) (b + 1) ys = Some ?d" using h f(2) by (simp add: slice_write_def holds_list_def)
  note nth = nth_slice_write [OF w]
  have "holds_list ?d b ys" using h f(2) nth unfolding holds_list_def agree_outside_def by (simp add: add.assoc)
  moreover have "agree_outside b (block_size (Live ys)) (pool_data p) ?d"
    using nth(1) pool_ok_live(4) [OF ok Mb] f(2) unfolding agree_outside_def by simp
  moreover have "hole (pool_data p) (M(b := None)) b (block_size (Live ys))" using drop_live(2) [OF ok Mb] f(2) by simp
  moreover have "ys \<noteq> []" using False f(2) by auto
  moreover have "frame M h (M(b := None))"
  proof -
    have "c \<noteq> b" if "c + 1 \<noteq> handle_index h" for c using that b by simp
    then show ?thesis unfolding frame_def by simp
  qed
  ultimately have "achieves M h (length (pool_data p)) ys (Some (h, p\<lparr>pool_data := ?d\<rparr>))"
    using b by (intro publish [OF drop_live(1) [OF ok Mb]]) simp_all
  then obtain N where "pool_ok (p\<lparr>pool_data := ?d\<rparr>) N" "effect M h N h ys" unfolding achieves_def by blast
  moreover have "ListHandle_as_mut_slice h f p = Some (p\<lparr>pool_data := ?d\<rparr>)"
    using False w b f(1) holds_list_slice [OF h] by (simp add: ListHandle_as_mut_slice_def Let_def len_of_reads [OF ok r])
  ultimately show thesis using that nth(1) by (simp add: agree_outside_def)
qed

lemma deep_clone_ok:
  assumes ok: "pool_ok p M" and r: "reads M h xs" and room: "room p 0 (length xs)" and h0: "reads M h0 []"
  shows "achieves M h0 (length (pool_data p) + alloc_cost 0 (length xs)) xs (ListHandle_deep_clone h p)"
proof (cases "xs = []")
  case True
  then show ?thesis using ok h0 len_of_reads [OF ok r]
    by (auto simp: achieves_def effect_def frame_def reads_def ListHandle_deep_clone_def ListHandle_new_def)
next
  case False
  then have n: "0 < length xs" by simp
  obtain a where a: "handle_index h = a + 1" "M a = Some (Live xs)" using reads_live [OF r False] by metis
  obtain b q N where q: "ListPool_alloc p (sclass_for_length (length xs)) = Some (b, q)" "pool_ok q N"
    "hole (pool_data q) N b (sclass_size (sclass_for_length (length xs)))" "frame M h0 N" "handle_index (handle_at (b + 1)) = b + 1"
    "length (pool_data q) \<le> length (pool_data p) + alloc_cost 0 (length xs)" "entity_from (length xs) = Some (length xs)"
    "b + length xs < length (pool_data q)" by (rule alloc_list [OF ok h0 room n])
  let ?e = "(pool_data q)[b := length xs]"
  let ?d = "take (b + 1) ?e @ xs @ drop (b + 1 + length xs) ?e"
  have sz: "length xs < sclass_size (sclass_for_length (length xs))" using room by (intro sclass_bounds) simp
  have out: "agree_outside b (block_size (Live xs)) (pool_data q) ?e" by (intro agree_outside_set) simp_all
  have Na: "N a = Some (Live xs)" using q(4) a(2) h0 unfolding frame_def by (simp add: reads_def)
  have "b + block_size (Live xs) \<le> a \<or> a + block_size (Live xs) \<le> b" using q(3) Na unfolding hole_def by fastforce
  from holds_list_outside [OF pool_ok_live(2) [OF q(2) Na] out pool_ok_live(4) [OF q(2) Na] this]
  have src: "slice_range ?e (a + 1) (a + 1 + length xs) = Some xs" by (rule holds_list_slice)
  have w: "slice_write ?e (b + 1) xs = Some ?d" using q(8) by (simp add: slice_write_def)
  have "ListHandle_deep_clone h p = Some (handle_at (b + 1), q\<lparr>pool_data := ?d\<rparr>)"
    using n q(1,7,8) w src a by (simp add: ListHandle_deep_clone_def Let_def len_of_reads [OF ok r])
  moreover have "holds_list ?d b xs"
    using nth_slice_write(2) [OF w] q(8) unfolding holds_list_def by (simp add: nth_append)
  moreover have "agree_outside b (block_size (Live xs)) (pool_data q) ?d"
    using nth_slice_write(1) [OF w] sz by (intro agree_outside_trans [OF out]) (auto simp: agree_outside_def)
  ultimately show ?thesis using publish [OF q(2) _ _ False _ q(4,6,5)] q(3) by simp
qed

text \<open>The end of \<open>grow\<close>: the new length is stored and the caller fills the slice.\<close>

lemma grow_finish:
  assumes ok: "pool_ok q N" and hole: "hole (pool_data q) N b (sclass_size (sclass_for_length n))" and n: "0 < n" "n < 2 ^ 32"
    and xs: "\<forall>i < length xs. pool_data q ! (b + 1 + i) = xs ! i" "length xs \<le> n"
    and f: "\<And>s. length s = n \<Longrightarrow> take (length xs) s = xs \<Longrightarrow> \<exists>ys. f s = Some ys \<and> length ys = n \<and> P ys"
    and frame: "frame M h N" and m: "length (pool_data q) \<le> m" and h': "handle_index h' = b + 1"
  shows "\<exists>ys. P ys \<and> achieves M h m ys (do {
            k \<leftarrow> entity_from n;
            pool \<leftarrow> pool_put b k q;
            s \<leftarrow> slice_range (pool_data pool) (b + 1) (b + 1 + n);
            s \<leftarrow> f s;
            d \<leftarrow> slice_write (pool_data pool) (b + 1) s;
            Some (h', pool\<lparr>pool_data := d\<rparr>) })"
proof -
  let ?e = "(pool_data q)[b := n]" and ?s = "take n (drop (b + 1) ((pool_data q)[b := n]))"
  have fit: "n < sclass_size (sclass_for_length n)" by (rule sclass_bounds) (rule n(2))
  note ix = hole_index [OF ok hole sclass_size_pos(1)]
  have s: "length ?s = n" using ix(4) [OF fit] by simp
  have "take (length xs) ?s = xs" using xs ix(4) [OF fit] by (intro nth_equalityI) auto
  from f [OF s this] obtain ys where ys: "f ?s = Some ys" "length ys = n" "P ys" by blast
  let ?d = "take (b + 1) ?e @ ys @ drop (b + 1 + length ys) ?e"
  have w: "slice_write ?e (b + 1) ys = Some ?d" using ix(4) [OF fit] ys(2) by (simp add: slice_write_def)
  have out: "agree_outside b (block_size (Live ys)) (pool_data q) ?e" by (intro agree_outside_set) simp_all
  have "holds_list ?d b ys"
    using nth_slice_write(2) [OF w] ix(4) [OF fit] ys(2) unfolding holds_list_def by (simp add: nth_append)
  moreover have "agree_outside b (block_size (Live ys)) (pool_data q) ?d"
    using nth_slice_write(1) [OF w] fit ys(2) by (intro agree_outside_trans [OF out]) (auto simp: agree_outside_def)
  moreover have "ys \<noteq> []" using ys(2) n by auto
  ultimately have "achieves M h m ys (Some (h', q\<lparr>pool_data := ?d\<rparr>))"
    using publish [OF ok _ _ _ _ frame m h', of ys] hole ys(2) by simp
  moreover have "slice_range ?e (b + 1) (b + 1 + n) = Some ?s" using ix(4) [OF fit] by (simp add: slice_range_def)
  ultimately show ?thesis using ys w ix(2) [OF fit] ix(3) by (intro exI [of _ ys]) simp
qed

lemma grow_ok:
  assumes ok: "pool_ok p M" and r: "reads M h xs" and room: "room p (length xs) (length xs + k)"
    and f: "\<And>s. length s = length xs + k \<Longrightarrow> take (length xs) s = xs \<Longrightarrow> \<exists>ys. f s = Some ys \<and> length ys = length xs + k \<and> P ys"
  shows "\<exists>ys. P ys \<and> achieves M h (length (pool_data p) + alloc_cost (length xs) (length xs + k)) ys (ListHandle_grow h k f p)"
proof (cases "xs = []")
  case True
  then have r0: "reads M h []" and room0: "room p 0 k" using r room by simp_all
  show ?thesis
  proof (cases "k = 0")
    case True
    with \<open>xs = []\<close> f [of "[]"] obtain ys where "f [] = Some ys" "ys = []" "P ys" by auto
    moreover have "ListHandle_grow h k f p = Some (h, p)"
      using r0 True \<open>f [] = Some ys\<close> by (simp add: ListHandle_grow_def Let_def len_of_reads [OF ok r0]) (simp add: reads_def)
    ultimately show ?thesis using ok r0 by (auto simp: achieves_def effect_def frame_def)
  next
    case False
    then have k: "0 < k" by simp
    obtain b q N where q: "ListPool_alloc p (sclass_for_length k) = Some (b, q)" "pool_ok q N"
      "hole (pool_data q) N b (sclass_size (sclass_for_length k))" "frame M h N" "handle_index (handle_at (b + 1)) = b + 1"
      "length (pool_data q) \<le> length (pool_data p) + alloc_cost 0 k" by (rule alloc_list [OF ok r0 room0 k])
    from grow_finish [OF q(2,3) k _ _ _ _ q(4,6,5), of "[]" f P] f room0 True show ?thesis
      using k q(1) r0 by (simp add: ListHandle_grow_def Let_def len_of_reads [OF ok r0]) (simp add: reads_def)
  qed
next
  case False
  let ?n = "length xs" and ?s = "sclass_for_length (length xs)"
  let ?t = "sclass_for_length (?n + k)"
  let ?C = "?t \<noteq> ?s"
  have n: "0 < ?n + k" "?n + k < 2 ^ 32" using False room by auto
  have fit: "?n + k < sclass_size ?t" by (rule sclass_bounds) (rule n(2))
  then have k: "?n + 1 \<le> sclass_size ?t" by linarith
  have C: "?C \<longleftrightarrow> ?s \<noteq> ?t" by auto
  have cost: "alloc_cost ?n (?n + k) = (if ?C then sclass_size ?t else 0)" using False by (auto simp: alloc_cost_def)
  have room': "length (pool_data p) + sclass_size ?t < 2 ^ 32" if ?C using room cost that by simp
  obtain b h' q N where
    e: "?C \<longrightarrow> ListPool_realloc p (handle_index h - 1) ?s ?t (?n + 1) = Some (b, q) \<and> h' = handle_at (b + 1)"
       "\<not> ?C \<longrightarrow> handle_index h = b + 1 \<and> h' = h \<and> q = p"
    and q: "pool_ok q N" "hole (pool_data q) N b (sclass_size ?t)" "frame M h N" "handle_index h' = b + 1"
    "length (pool_data q) \<le> length (pool_data p) + (if ?C then sclass_size ?t else 0)"
    "\<forall>i < ?n + 1. pool_data q ! (b + i) = (?n # xs) ! i"
    by (rule resize_list [OF ok r False le_refl k C room'])
  have "\<exists>ys. P ys \<and> achieves M h (length (pool_data p) + alloc_cost ?n (?n + k)) ys (do {
            c \<leftarrow> entity_from (?n + k);
            pool \<leftarrow> pool_put b c q;
            s \<leftarrow> slice_range (pool_data pool) (b + 1) (b + 1 + (?n + k));
            s \<leftarrow> f s;
            d \<leftarrow> slice_write (pool_data pool) (b + 1) s;
            Some (h', pool\<lparr>pool_data := d\<rparr>) })"
  proof (rule grow_finish [OF q(1,2) n nth_behind_length [OF q(6)] _ _ q(3) _ q(4)])
    show "\<exists>ys. f s = Some ys \<and> length ys = ?n + k \<and> P ys" if "length s = ?n + k" "take ?n s = xs" for s
      by (rule f [OF that])
    show "length (pool_data q) \<le> length (pool_data p) + alloc_cost ?n (?n + k)" using q(5) cost by simp
  qed simp
  moreover have "ListHandle_grow h k f p = (do {
            c \<leftarrow> entity_from (?n + k);
            pool \<leftarrow> pool_put b c q;
            s \<leftarrow> slice_range (pool_data pool) (b + 1) (b + 1 + (?n + k));
            s \<leftarrow> f s;
            d \<leftarrow> slice_write (pool_data pool) (b + 1) s;
            Some (h', pool\<lparr>pool_data := d\<rparr>) })"
    using False e by (cases ?C) (simp_all add: ListHandle_grow_def Let_def len_of_reads [OF ok r])
  ultimately show ?thesis by auto
qed

lemma remove_last_ok:
  assumes ok: "pool_ok p M" and r: "reads M h xs" "xs \<noteq> []" and room: "room p (length xs) (length xs - 1)"
  shows "achieves M h (length (pool_data p) + alloc_cost (length xs) (length xs - 1)) (butlast xs)
    (ListHandle_remove_last h (length xs) p)"
proof (cases "length xs = 1")
  case True
  then have "butlast xs = []" by (cases xs) auto
  with True clear_ok [OF ok r(1)] show ?thesis by (simp add: ListHandle_remove_last_def alloc_cost_def)
next
  case False
  let ?n = "length xs" and ?C = "is_sclass_min_length (length xs)" and ?s = "sclass_for_length (length xs)"
  have n: "1 < ?n" using r(2) False by (cases xs) auto
  obtain m where m: "?n = m + 1" "0 < m" by (rule that [of "?n - 1"]) (use n in auto)
  obtain b0 where b0: "handle_index h = b0 + 1" "M b0 = Some (Live xs)" using reads_live [OF r] by metis
  have lt: "?n < 2 ^ 32" using pool_ok_live(3) [OF ok b0(2)] .
  note cls = sclass_Suc [of m, folded m(1), OF lt m(2)]
  obtain t where t: "t = sclass_for_length m" by simp
  have fit: "m < sclass_size t" unfolding t by (rule sclass_bounds) (use lt m in simp)
  then have k: "?n \<le> sclass_size t" using m by simp
  have C: "?C \<longleftrightarrow> ?s \<noteq> t" using cls t by simp
  have cost: "alloc_cost ?n (?n - 1) = (if ?C then sclass_size t else 0)" using C n t m by (auto simp: alloc_cost_def)
  have room': "length (pool_data p) + sclass_size t < 2 ^ 32" if ?C using room cost that by simp
  obtain b h' q N where
    e: "?C \<longrightarrow> ListPool_realloc p (handle_index h - 1) ?s t ?n = Some (b, q) \<and> h' = handle_at (b + 1)"
       "\<not> ?C \<longrightarrow> handle_index h = b + 1 \<and> h' = h \<and> q = p"
    and q: "pool_ok q N" "hole (pool_data q) N b (sclass_size t)" "frame M h N" "handle_index h' = b + 1"
    "length (pool_data q) \<le> length (pool_data p) + (if ?C then sclass_size t else 0)"
    "\<forall>i < ?n. pool_data q ! (b + i) = (?n # xs) ! i"
    by (rule resize_list [OF ok r le_add1 k C room'])
  let ?d = "(pool_data q)[b := m]"
  note ix = hole_index [OF q(1,2) sclass_size_pos(1)]
  have "?s = t + 1" if ?C using that cls t by simp
  with e have "ListHandle_remove_last h ?n p = Some (h', q\<lparr>pool_data := ?d\<rparr>)"
    using False n m ix(2) [OF fit] ix(3) b0(1) by (cases ?C) (simp_all add: ListHandle_remove_last_def Let_def)
  moreover have "holds_list ?d b (butlast xs)"
  proof -
    have "\<forall>i < m. pool_data q ! (b + 1 + i) = xs ! i" by (rule nth_behind_length [where n = ?n]) (use q(6) m in simp)
    then show ?thesis using ix(4) [OF fit] m unfolding holds_list_def by (simp add: nth_butlast)
  qed
  moreover have "agree_outside b (block_size (Live (butlast xs))) (pool_data q) ?d" by (rule agree_outside_set) simp_all
  moreover have "butlast xs \<noteq> []" "length (butlast xs) = m" using m by (auto simp flip: length_greater_0_conv)
  ultimately show ?thesis using publish [OF q(1) _ _ _ _ q(3) _ q(4), of "butlast xs"] q(2,5) t cost by simp
qed

lemma truncate_ok:
  assumes ok: "pool_ok p M" and r: "reads M h xs" and room: "room p (length xs) (min k (length xs))"
  shows "achieves M h (length (pool_data p) + alloc_cost (length xs) (min k (length xs))) (take k xs) (ListHandle_truncate h k p)"
proof -
  consider "k = 0" | "0 < k" "length xs \<le> k" | "0 < k" "k < length xs" by linarith
  then show ?thesis
  proof cases
    case 1
    with clear_ok [OF ok r] show ?thesis by (simp add: ListHandle_truncate_def alloc_cost_def)
  next
    case 2
    then have "ListHandle_truncate h k p = Some (h, p)" by (simp add: ListHandle_truncate_def len_of_reads [OF ok r])
    with 2 ok r show ?thesis by (auto simp: achieves_def effect_def frame_def reads_def)
  next
    case 3
    then have ne: "xs \<noteq> []" by auto
    let ?n = "length xs"
    let ?s = "sclass_for_length (length xs)" and ?t = "sclass_for_length k"
    obtain b0 where b0: "M b0 = Some (Live xs)" using reads_live [OF r ne] by metis
    have fit: "k < sclass_size ?t" by (rule sclass_bounds) (use pool_ok_live(3) [OF ok b0] 3 in simp)
    then have sz: "k + 1 \<le> sclass_size ?t" by simp
    have cost: "alloc_cost ?n (min k ?n) = (if ?s \<noteq> ?t then sclass_size ?t else 0)" using 3 by (auto simp: alloc_cost_def min_def)
    have room': "length (pool_data p) + sclass_size ?t < 2 ^ 32" if "?s \<noteq> ?t" using room cost that by simp
    have "k + 1 \<le> ?n + 1" using 3 by simp
    obtain b h' q N where
      e: "?s \<noteq> ?t \<longrightarrow> ListPool_realloc p (handle_index h - 1) ?s ?t (k + 1) = Some (b, q) \<and> h' = handle_at (b + 1)"
         "\<not> ?s \<noteq> ?t \<longrightarrow> handle_index h = b + 1 \<and> h' = h \<and> q = p"
      and q: "pool_ok q N" "hole (pool_data q) N b (sclass_size ?t)" "frame M h N" "handle_index h' = b + 1"
      "length (pool_data q) \<le> length (pool_data p) + (if ?s \<noteq> ?t then sclass_size ?t else 0)"
      "\<forall>i < k + 1. pool_data q ! (b + i) = (?n # xs) ! i"
      by (rule resize_list [OF ok r ne \<open>k + 1 \<le> ?n + 1\<close> sz refl room'])
    let ?d = "(pool_data q)[b := k]"
    note ix = hole_index [OF q(1,2) sclass_size_pos(1)]
    from e have "ListHandle_truncate h k p = Some (h', q\<lparr>pool_data := ?d\<rparr>)"
      using 3 ix(2) [OF fit] ix(3) ne
      by (cases "?s = ?t") (simp_all add: ListHandle_truncate_def Let_def len_of_reads [OF ok r])
    moreover have "holds_list ?d b (take k xs)"
      using ix(4) [OF fit] nth_behind_length [OF q(6)] 3 unfolding holds_list_def by simp
    moreover have "agree_outside b (block_size (Live (take k xs))) (pool_data q) ?d" by (rule agree_outside_set) simp_all
    moreover have "take k xs \<noteq> []" "length (take k xs) = k" using 3 ne by auto
    ultimately show ?thesis using publish [OF q(1) _ _ _ _ q(3) _ q(4), of "take k xs"] q(2,5) cost by simp
  qed
qed

section \<open>Loops over a slice\<close>

lemma move_up:
  assumes "c \<le> a" "n \<le> length s"
  shows "\<exists>t. move_loop (map (\<lambda>i. (i, i - c)) (rev [a..<n])) s = Some t \<and> length t = length s \<and>
    (\<forall>i < length s. t ! i = (if a \<le> i \<and> i < n then s ! (i - c) else s ! i))"
  using assms(2)
proof (induction n arbitrary: s)
  case (Suc n)
  show ?case
  proof (cases "a \<le> n")
    case True
    from Suc.prems Suc.IH [of "s[n := s ! (n - c)]"] obtain t where t:
      "move_loop (map (\<lambda>i. (i, i - c)) (rev [a..<n])) (s[n := s ! (n - c)]) = Some t" "length t = length s"
      "\<forall>i < length s. t ! i = (if a \<le> i \<and> i < n then s[n := s ! (n - c)] ! (i - c) else s[n := s ! (n - c)] ! i)" by auto
    moreover have "t ! i = (if a \<le> i \<and> i < Suc n then s ! (i - c) else s ! i)" if "i < length s" for i
      using t(3) that Suc.prems True by (auto simp: nth_list_update less_Suc_eq)
    ultimately show ?thesis using True Suc.prems by (intro exI [of _ t]) simp
  qed (auto simp: not_le)
qed simp

lemma move_down:
  assumes "n < length s"
  shows "\<exists>t. move_loop (map (\<lambda>i. (i, i + 1)) [a..<n]) s = Some t \<and> length t = length s \<and>
    (\<forall>i < length s. t ! i = (if a \<le> i \<and> i < n then s ! (i + 1) else s ! i))"
  using assms
proof (induction "n - a" arbitrary: a s)
  case (Suc k)
  then have an: "a < n" "k = n - Suc a" by linarith+
  from Suc.hyps(1) [OF an(2), of "s[a := s ! (a + 1)]"] Suc.prems obtain t where t:
    "move_loop (map (\<lambda>i. (i, i + 1)) [Suc a..<n]) (s[a := s ! (a + 1)]) = Some t" "length t = length s"
    "\<forall>i < length s. t ! i = (if Suc a \<le> i \<and> i < n then s[a := s ! (a + 1)] ! (i + 1) else s[a := s ! (a + 1)] ! i)" by auto
  moreover have "t ! i = (if a \<le> i \<and> i < n then s ! (i + 1) else s ! i)" if "i < length s" for i
    using t(3) that an(1) by (cases "i = a") auto
  moreover have "[a..<n] = a # [Suc a..<n]" using an(1) by (rule upt_conv_Cons)
  ultimately show ?case using an(1) Suc.prems by (intro exI [of _ t]) simp
qed auto

lemma insert_into_ok:
  assumes "i \<le> length xs"
  shows "insert_into i e (xs @ [e]) = Some (take i xs @ e # drop i xs)"
proof -
  let ?tl = "drop i xs @ [e]"
  obtain t where t: "move_loop (map (\<lambda>i. (i, i - 1)) (rev [1..<length ?tl])) ?tl = Some t" "length t = length ?tl"
    "\<forall>j < length ?tl. t ! j = (if 1 \<le> j \<and> j < length ?tl then ?tl ! (j - 1) else ?tl ! j)"
    using move_up [of 1 1 "length ?tl" ?tl] by auto
  have "t[0 := e] = e # drop i xs"
  proof (rule nth_equalityI)
    show "length (t[0 := e]) = length (e # drop i xs)" using t(2) by simp
    fix j assume "j < length (t[0 := e])"
    then show "t[0 := e] ! j = (e # drop i xs) ! j"
      using t(2,3) by (cases j) (auto simp: nth_append)
  qed
  moreover have "slice_range (xs @ [e]) i (length (xs @ [e])) = Some ?tl" using assms by (simp add: slice_range_def)
  moreover have "slice_write (xs @ [e]) i (e # drop i xs) = Some (take i xs @ e # drop i xs)"
    using assms by (simp add: slice_write_def)
  ultimately show ?thesis using assms t(1,2) by (simp add: insert_into_def)
qed

lemma remove_from_ok:
  assumes "i < length xs"
  obtains t where "remove_from i xs = Some t" "length t = length xs" "butlast t = take i xs @ drop (i + 1) xs"
proof -
  have "length xs - 1 < length xs" using assms by simp
  from move_down [OF this, of i] obtain t where t: "move_loop (map (\<lambda>i. (i, i + 1)) [i..<length xs - 1]) xs = Some t" "length t = length xs"
    "\<forall>j < length xs. t ! j = (if i \<le> j \<and> j < length xs - 1 then xs ! (j + 1) else xs ! j)"
    by blast
  have "butlast t = take i xs @ drop (i + 1) xs"
    using assms t(2,3) by (intro nth_equalityI) (auto simp: nth_butlast nth_append)
  moreover have "remove_from i xs = Some t" using t(1) assms by (simp add: remove_from_def)
  ultimately show thesis using that t(2) by blast
qed

lemma swap_with_last_ok:
  assumes "i < length xs"
  obtains t where "swap_with_last i xs = Some t" "length t = length xs" "butlast t = butlast (xs[i := last xs])"
proof -
  from assms have l: "last xs = xs ! (length xs - 1)" by (intro last_conv_nth) auto
  show thesis
  proof (cases "i = length xs - 1")
    case True
    with assms that [of xs] l show thesis by (simp add: swap_with_last_def)
  next
    case False
    let ?t = "xs[i := last xs, length xs - 1 := xs ! i]"
    have "butlast ?t = butlast (xs[i := last xs])" by (simp add: butlast_list_update)
    moreover have "swap_with_last i xs = Some ?t" using assms False l by (simp add: swap_with_last_def)
    ultimately show thesis using that [of ?t] by simp
  qed
qed

lemma write_zipped_ok:
  assumes "length s = length xs + length ys" "take (length xs) s = xs"
  shows "write_zipped ys (length ys) s = Some (xs @ ys)"
  using assms by (simp add: write_zipped_def slice_range_def slice_write_def)

section \<open>The remaining operations\<close>

lemma push_all_ok:
  assumes "pool_ok p M" "reads M h xs" "length (pool_data p) + (\<Sum>i<length ys. alloc_cost (length xs + i) (length xs + i + 1)) < 2 ^ 32"
    "length xs + length ys < 2 ^ 32"
  shows "achieves M h (length (pool_data p) + (\<Sum>i<length ys. alloc_cost (length xs + i) (length xs + i + 1))) (xs @ ys)
    (ListHandle_push_all ys h p)"
  using assms
proof (induction ys arbitrary: p M h xs)
  case Nil
  then show ?case by (auto simp: achieves_def effect_def frame_def)
next
  case (Cons y ys)
  let ?c = "alloc_cost (length xs) (length xs + 1)" and ?r = "\<Sum>i<length ys. alloc_cost (length xs + 1 + i) (length xs + 1 + i + 1)"
  have cost: "(\<Sum>i<length (y # ys). alloc_cost (length xs + i) (length xs + i + 1)) = ?c + ?r"
    by (simp add: sum.lessThan_Suc_shift del: sum.lessThan_Suc)
  have room: "room p (length xs) (length xs + 1)" using Cons.prems(3,4) unfolding cost by simp
  from push_ok [OF Cons.prems(1,2) room, of y] obtain h' q N where q:
    "ListHandle_push h y p = Some (length xs, h', q)" "pool_ok q N" "effect M h N h' (xs @ [y])"
    "length (pool_data q) \<le> length (pool_data p) + ?c" unfolding achieves_def by auto
  have "reads N h' (xs @ [y])" using q(3) by (simp add: effect_def)
  from Cons.IH [OF q(2) this] Cons.prems(3,4) q(4)
  have "achieves N h' (length (pool_data q) + ?r) (xs @ y # ys) (ListHandle_push_all ys h' q)" unfolding cost by simp
  then have "achieves M h (length (pool_data q) + ?r) (xs @ y # ys) (ListHandle_push_all ys h' q)"
    by (rule achieves_trans [OF q(3)])
  then have "achieves M h (length (pool_data p) + (?c + ?r)) (xs @ y # ys) (ListHandle_push_all ys h' q)"
    using q(4) unfolding achieves_def by fastforce
  then show ?case using q(1) unfolding cost by simp
qed

text \<open>What \<open>extend\<close> may add to the vector, with an exact size hint or without.\<close>

definition extend_cost :: "bool \<Rightarrow> nat \<Rightarrow> nat \<Rightarrow> nat" where
  "extend_cost exact n k = (if exact then alloc_cost n (n + k) else (\<Sum>i<k. alloc_cost (n + i) (n + i + 1)))"

lemma extend_ok:
  assumes ok: "pool_ok p M" and r: "reads M h xs"
    and hint: "fst hint \<le> length ys" "\<forall>u. snd hint = Some u \<longrightarrow> length ys \<le> u"
    and room: "length (pool_data p) + extend_cost (snd hint = Some (fst hint)) (length xs) (length ys) < 2 ^ 32" "length xs + length ys < 2 ^ 32"
  shows "achieves M h (length (pool_data p) + extend_cost (snd hint = Some (fst hint)) (length xs) (length ys)) (xs @ ys)
    (ListHandle_extend h hint ys p)"
proof (cases "snd hint = Some (fst hint)")
  case True
  with hint have len: "fst hint = length ys" by auto
  have room': "room p (length xs) (length xs + length ys)" using room True by (simp add: extend_cost_def)
  have "\<exists>zs. write_zipped ys (length ys) s = Some zs \<and> length zs = length xs + length ys \<and> zs = xs @ ys"
    if "length s = length xs + length ys" "take (length xs) s = xs" for s
    using write_zipped_ok [OF that] by simp
  from grow_ok [where P = "\<lambda>zs. zs = xs @ ys", OF ok r room' this] show ?thesis
    using True len by (auto simp: ListHandle_extend_def extend_cost_def split_beta)
next
  case False
  then show ?thesis
    using push_all_ok [OF ok r, of ys] room by (auto simp: ListHandle_extend_def extend_cost_def split_beta)
qed

lemma insert_ok:
  assumes ok: "pool_ok p M" and r: "reads M h xs" and room: "room p (length xs) (length xs + 1)" and i: "i \<le> length xs"
  shows "achieves M h (length (pool_data p) + alloc_cost (length xs) (length xs + 1)) (take i xs @ e # drop i xs)
    (ListHandle_insert h i e p)"
proof -
  from push_ok [OF ok r room, of e] obtain h' q N where q:
    "ListHandle_push h e p = Some (length xs, h', q)" "pool_ok q N" "effect M h N h' (xs @ [e])"
    "length (pool_data q) \<le> length (pool_data p) + alloc_cost (length xs) (length xs + 1)" unfolding achieves_def by auto
  have "reads N h' (xs @ [e])" using q(3) by (simp add: effect_def)
  from as_mut_slice_ok [where f = "insert_into i e", OF q(2) this insert_into_ok [OF i]] obtain u P where u:
    "ListHandle_as_mut_slice h' (insert_into i e) q = Some u" "pool_ok u P" "effect N h' P h' (take i xs @ e # drop i xs)"
    "length (pool_data u) = length (pool_data q)" using i by auto
  then show ?thesis
    using q effect_trans [OF q(3) u(3)] by (auto simp: achieves_def ListHandle_insert_def)
qed

text \<open>The assertion of \<open>insert\<close> lets the index one past the end pass; the element is then appended before it.\<close>

lemma insert_past_end_appends:
  assumes ok: "pool_ok p M" and r: "reads M h xs" and room: "room p (length xs) (length xs + 1)"
  shows "achieves M h (length (pool_data p) + alloc_cost (length xs) (length xs + 1)) (xs @ [e]) (ListHandle_insert h (length xs + 1) e p)"
proof -
  from push_ok [OF ok r room, of e] obtain h' q N where q:
    "ListHandle_push h e p = Some (length xs, h', q)" "pool_ok q N" "effect M h N h' (xs @ [e])"
    "length (pool_data q) \<le> length (pool_data p) + alloc_cost (length xs) (length xs + 1)" unfolding achieves_def by auto
  have r': "reads N h' (xs @ [e])" using q(3) by (simp add: effect_def)
  have "insert_into (length xs + 1) e (xs @ [e]) = Some (xs @ [e])" by (simp add: insert_into_def)
  from as_mut_slice_ok [where f = "insert_into (length xs + 1) e", OF q(2) r' this refl] obtain u P where
    u: "ListHandle_as_mut_slice h' (insert_into (length xs + 1) e) q = Some u" "pool_ok u P"
    "effect N h' P h' (xs @ [e])" "length (pool_data u) = length (pool_data q)" by blast
  then show ?thesis using q effect_trans [OF q(3) u(3)] by (auto simp: achieves_def ListHandle_insert_def)
qed

lemma mutate_remove_last:
  assumes ok: "pool_ok p M" and r: "reads M h xs" and ne: "xs \<noteq> []" and room: "room p (length xs) (length xs - 1)"
    and f: "f xs = Some ys" "length ys = length xs"
  shows "achieves M h (length (pool_data p) + alloc_cost (length xs) (length xs - 1)) (butlast ys)
    (do { pool \<leftarrow> ListHandle_as_mut_slice h f p; ListHandle_remove_last h (ListHandle_len h p) pool })"
proof -
  from as_mut_slice_ok [where f = f, OF ok r f] obtain q N where q: "ListHandle_as_mut_slice h f p = Some q" "pool_ok q N"
    "effect M h N h ys" "length (pool_data q) = length (pool_data p)" by blast
  have "reads N h ys" "ys \<noteq> []" using q(3) f(2) ne by (auto simp: effect_def)
  from remove_last_ok [OF q(2) this] room f(2) q(4)
  have "achieves N h (length (pool_data p) + alloc_cost (length xs) (length xs - 1)) (butlast ys)
    (ListHandle_remove_last h (length xs) q)" by simp
  from achieves_trans [OF q(3) this] q(1) ne show ?thesis
    by (simp add: ListHandle_len_def len_of_reads [OF ok r])
qed

lemma remove_ok:
  assumes ok: "pool_ok p M" and r: "reads M h xs" and i: "i < length xs" and room: "room p (length xs) (length xs - 1)"
  shows "achieves M h (length (pool_data p) + alloc_cost (length xs) (length xs - 1)) (take i xs @ drop (i + 1) xs)
    (ListHandle_remove h i p)"
proof -
  from remove_from_ok [OF i] obtain t where t: "remove_from i xs = Some t" "length t = length xs" "butlast t = take i xs @ drop (i + 1) xs" .
  have "xs \<noteq> []" using i by auto
  from mutate_remove_last [where f = "remove_from i", OF ok r this room t(1,2)] t(3) show ?thesis by (simp add: ListHandle_remove_def Let_def)
qed

lemma swap_remove_ok:
  assumes ok: "pool_ok p M" and r: "reads M h xs" and i: "i < length xs" and room: "room p (length xs) (length xs - 1)"
  shows "achieves M h (length (pool_data p) + alloc_cost (length xs) (length xs - 1)) (butlast (xs[i := last xs]))
    (ListHandle_swap_remove h i p)"
proof -
  from swap_with_last_ok [OF i] obtain t where t: "swap_with_last i xs = Some t" "length t = length xs" "butlast t = butlast (xs[i := last xs])" .
  have "xs \<noteq> []" using i by auto
  from mutate_remove_last [where f = "swap_with_last i", OF ok r this room t(1,2)] t(3) show ?thesis by (simp add: ListHandle_swap_remove_def Let_def)
qed

lemma get_mut_ok:
  assumes ok: "pool_ok p M" and r: "reads M h xs"
  obtains q N where "ListHandle_get_mut h i f p = Some q" "pool_ok q N"
    "effect M h N h (if i < length xs then xs[i := f (xs ! i)] else xs)" "length (pool_data q) = length (pool_data p)"
proof -
  let ?f = "\<lambda>s. Some (case vec_get s i of None \<Rightarrow> s | Some x \<Rightarrow> s[i := f x])"
  have "?f xs = Some (if i < length xs then xs[i := f (xs ! i)] else xs)" by (simp add: vec_get_def)
  moreover have "length (if i < length xs then xs[i := f (xs ! i)] else xs) = length xs" by simp
  ultimately obtain q N where "ListHandle_as_mut_slice h ?f p = Some q" "pool_ok q N"
    "effect M h N h (if i < length xs then xs[i := f (xs ! i)] else xs)" "length (pool_data q) = length (pool_data p)"
    by (rule as_mut_slice_ok [where f = ?f, OF ok r])
  then show thesis by (intro that [of q N]) (simp_all add: ListHandle_get_mut_def)
qed

text \<open>\<open>grow_at\<close> opens a gap whose contents are left open.\<close>

lemma grow_at_ok:
  assumes ok: "pool_ok p M" and r: "reads M h xs" and room: "room p (length xs) (length xs + k)" and i: "i \<le> length xs"
  shows "\<exists>gap. length gap = k \<and>
    achieves M h (length (pool_data p) + alloc_cost (length xs) (length xs + k)) (take i xs @ gap @ drop i xs) (ListHandle_grow_at h i k p)"
proof -
  let ?f = "\<lambda>s. move_loop (map (\<lambda>i. (i, i - k)) (rev [i + k..<length s])) s"
  have gap: "\<exists>ys. ?f s = Some ys \<and> length ys = length xs + k \<and> (\<exists>gap. length gap = k \<and> ys = take i xs @ gap @ drop i xs)"
    if s: "length s = length xs + k" "take (length xs) s = xs" for s
  proof -
    from move_up [of k "i + k" "length s" s] obtain t where t: "?f s = Some t" "length t = length s"
      "\<forall>j < length s. t ! j = (if i + k \<le> j \<and> j < length s then s ! (j - k) else s ! j)" by auto
    have sx: "s ! j = xs ! j" if "j < length xs" for j using s(2) that by (metis nth_take)
    have "take i t = take i xs" using s(1) t(2,3) sx i by (intro nth_equalityI) auto
    moreover have "drop (i + k) t = drop i xs" using s(1) t(2,3) sx i by (intro nth_equalityI) auto
    moreover have "t = take i t @ take k (drop i t) @ drop (i + k) t"
      by (metis append_take_drop_id drop_drop add.commute)
    ultimately have "t = take i xs @ take k (drop i t) @ drop i xs" by simp
    then show ?thesis using t(1,2) s(1) i by (intro exI [of _ t]) (auto intro!: exI [of _ "take k (drop i t)"])
  qed
  have "\<exists>ys. (\<exists>gap. length gap = k \<and> ys = take i xs @ gap @ drop i xs) \<and>
    achieves M h (length (pool_data p) + alloc_cost (length xs) (length xs + k)) ys (ListHandle_grow h k ?f p)"
    by (rule grow_ok [OF ok r room]) (rule gap)
  then show ?thesis unfolding ListHandle_grow_at_def by blast
qed

section \<open>Programs over lists\<close>

text \<open>
  A program that holds handles in numbered variables, all of one pool, and calls the operations of a list
  on them. Its specification has a list in each variable, and counts what the vector may have grown to.
\<close>

datatype list_op =
    LFromSlice nat "nat list"
  | LPush nat nat
  | LExtend nat "nat \<times> nat option" "nat list"
  | LInsert nat nat nat
  | LRemove nat nat
  | LSwapRemove nat nat
  | LTruncate nat nat
  | LClear nat
  | LSet nat nat nat
  | LTake nat nat
  | LDeepClone nat nat

type_synonym list_program_state = "list_pool \<times> (nat \<Rightarrow> list_handle)"

definition with_handle ::
  "nat \<Rightarrow> (list_handle \<Rightarrow> list_pool \<Rightarrow> (list_handle \<times> list_pool) panics) \<Rightarrow> list_program_state \<Rightarrow> list_program_state panics" where
  "with_handle v f s = (let (p, hs) = s in do { (h, p) \<leftarrow> f (hs v) p; Some (p, hs(v := h)) })"

fun list_cstep :: "list_op \<Rightarrow> list_program_state \<Rightarrow> list_program_state panics" where
  "list_cstep (LFromSlice v xs) s = with_handle v (\<lambda>_ p. ListHandle_from_slice xs p) s"
| "list_cstep (LPush v e) s = with_handle v (\<lambda>h p. do { (_, r) \<leftarrow> ListHandle_push h e p; Some r }) s"
| "list_cstep (LExtend v hint xs) s = with_handle v (\<lambda>h. ListHandle_extend h hint xs) s"
| "list_cstep (LInsert v i e) s = with_handle v (\<lambda>h. ListHandle_insert h i e) s"
| "list_cstep (LRemove v i) s = with_handle v (\<lambda>h. ListHandle_remove h i) s"
| "list_cstep (LSwapRemove v i) s = with_handle v (\<lambda>h. ListHandle_swap_remove h i) s"
| "list_cstep (LTruncate v k) s = with_handle v (\<lambda>h. ListHandle_truncate h k) s"
| "list_cstep (LClear v) s = with_handle v ListHandle_clear s"
| "list_cstep (LSet v i e) s = with_handle v (\<lambda>h p. do { p \<leftarrow> ListHandle_get_mut h i (\<lambda>_. e) p; Some (h, p) }) s"
| "list_cstep (LTake v w) s = (let (p, hs) = s; (h, rest) = ListHandle_take (hs v) in Some (p, hs(v := rest, w := h)))"
| "list_cstep (LDeepClone v w) s = with_handle w (\<lambda>_ p. ListHandle_deep_clone (snd s v) p) s"

definition spend :: "nat \<Rightarrow> nat \<Rightarrow> nat list \<Rightarrow> (nat \<Rightarrow> nat list) \<times> nat \<Rightarrow> ((nat \<Rightarrow> nat list) \<times> nat) option" where
  "spend cost v ys s = (let (A, m) = s in
     if int m + int cost < 4294967296 \<and> int (length ys) < 4294967296 then Some (A(v := ys), m + cost) else None)"

fun list_astep :: "list_op \<Rightarrow> (nat \<Rightarrow> nat list) \<times> nat \<Rightarrow> ((nat \<Rightarrow> nat list) \<times> nat) option" where
  "list_astep (LFromSlice v xs) s = spend (alloc_cost 0 (length xs)) v xs s"
| "list_astep (LPush v e) s = (let xs = fst s v in spend (alloc_cost (length xs) (length xs + 1)) v (xs @ [e]) s)"
| "list_astep (LExtend v hint ys) s = (let xs = fst s v in
     if fst hint \<le> length ys \<and> (case snd hint of Some u \<Rightarrow> length ys \<le> u | None \<Rightarrow> True)
     then spend (extend_cost (snd hint = Some (fst hint)) (length xs) (length ys)) v (xs @ ys) s else None)"
| "list_astep (LInsert v i e) s = (let xs = fst s v in
     if i \<le> length xs then spend (alloc_cost (length xs) (length xs + 1)) v (take i xs @ e # drop i xs) s else None)"
| "list_astep (LRemove v i) s = (let xs = fst s v in
     if i < length xs then spend (alloc_cost (length xs) (length xs - 1)) v (take i xs @ drop (i + 1) xs) s else None)"
| "list_astep (LSwapRemove v i) s = (let xs = fst s v in
     if i < length xs then spend (alloc_cost (length xs) (length xs - 1)) v (butlast (xs[i := last xs])) s else None)"
| "list_astep (LTruncate v k) s = (let xs = fst s v in spend (alloc_cost (length xs) (min k (length xs))) v (take k xs) s)"
| "list_astep (LClear v) s = spend 0 v [] s"
| "list_astep (LSet v i e) s = (let xs = fst s v in spend 0 v (xs[i := e]) s)"
| "list_astep (LTake v w) s = (let (A, m) = s in Some (A(v := [], w := A v), m))"
| "list_astep (LDeepClone v w) s = (let xs = fst s v in spend (alloc_cost 0 (length xs)) w xs s)"

text \<open>The variables' lists are in the pool, each in a block of its own.\<close>

definition list_rel :: "list_program_state \<Rightarrow> (nat \<Rightarrow> nat list) \<times> nat \<Rightarrow> bool" where
  "list_rel c a \<longleftrightarrow> (\<exists>M. pool_ok (fst c) M \<and> (\<forall>v. reads M (snd c v) (fst a v)) \<and>
     (\<forall>v w. v \<noteq> w \<longrightarrow> handle_index (snd c v) \<noteq> 0 \<longrightarrow> handle_index (snd c v) \<noteq> handle_index (snd c w)) \<and>
     length (pool_data (fst c)) \<le> snd a)"

lemma list_relE:
  assumes "list_rel c (A, m)"
  obtains p hs M where "c = (p, hs)" "pool_ok p M" "\<forall>v. reads M (hs v) (A v)" "length (pool_data p) \<le> m"
    "\<forall>v w. v \<noteq> w \<longrightarrow> handle_index (hs v) \<noteq> 0 \<longrightarrow> handle_index (hs v) \<noteq> handle_index (hs w)"
  using assms unfolding list_rel_def by (metis fst_conv snd_conv surj_pair)

lemma list_rel_effect:
  assumes reads: "\<forall>w. reads M (hs w) (A w)"
    and apart: "\<forall>v w. v \<noteq> w \<longrightarrow> handle_index (hs v) \<noteq> 0 \<longrightarrow> handle_index (hs v) \<noteq> handle_index (hs w)"
    and eff: "effect M (hs v) N h' ys" and ok: "pool_ok q N" and m: "length (pool_data q) \<le> m"
  shows "list_rel (q, hs(v := h')) (A(v := ys), m)"
proof -
  have others: "reads N (hs w) (A w) \<and> (handle_index (hs w) \<noteq> 0 \<longrightarrow> handle_index (hs w) \<noteq> handle_index h')" if w: "w \<noteq> v" for w
  proof (cases "A w = []")
    case True
    then show ?thesis using reads by (simp add: reads_def)
  next
    case False
    then obtain b where b: "handle_index (hs w) = b + 1" "M b = Some (Live (A w))" using reads_live [OF spec [OF reads]] by metis
    then have nv: "b + 1 \<noteq> handle_index (hs v)" using apart w by (metis add_is_0 one_neq_zero)
    then have "N b = Some (Live (A w))" using eff b unfolding effect_def frame_def by blast
    moreover have "handle_index h' \<noteq> b + 1"
    proof
      assume h': "handle_index h' = b + 1"
      then have "handle_index h' \<noteq> 0" "handle_index h' - 1 = b" by auto
      with eff nv h' b(2) show False unfolding effect_def by metis
    qed
    ultimately show ?thesis using b False by (simp add: reads_def)
  qed
  have "reads N h' ys" using eff by (simp add: effect_def)
  moreover have "handle_index ((hs(v := h')) u) \<noteq> handle_index ((hs(v := h')) w)"
    if "u \<noteq> w" "handle_index ((hs(v := h')) u) \<noteq> 0" for u w
    using that others [of u] others [of w] apart by (cases "u = v"; cases "w = v") auto
  ultimately show ?thesis using others ok m unfolding list_rel_def by (intro exI [of _ N]) auto
qed

lemma effect_new: "effect M ListHandle_new N h' ys \<Longrightarrow> effect M h N h' ys"
  by (auto simp: effect_def frame_def ListHandle_new_def)

lemma achieves_new: "achieves M ListHandle_new m ys res \<Longrightarrow> achieves M h m ys res"
  unfolding achieves_def using effect_new by blast

lemma reads_new [simp]: "reads M ListHandle_new []"
  by (simp add: reads_def ListHandle_new_def)

text \<open>A step on one variable is simulated when its operation achieves the list of the specification.\<close>

lemma with_handle_sim:
  assumes rel: "list_rel c (A, m)" and step: "spend cost v ys (A, m) = Some a'"
    and op: "\<And>p hs M. c = (p, hs) \<Longrightarrow> pool_ok p M \<Longrightarrow> \<forall>v. reads M (hs v) (A v) \<Longrightarrow> length (pool_data p) \<le> m \<Longrightarrow>
      length (pool_data p) + cost < 2 ^ 32 \<Longrightarrow> length ys < 2 ^ 32 \<Longrightarrow>
      achieves M (hs v) (length (pool_data p) + cost) ys (f (hs v) p)"
  shows "\<exists>c'. with_handle v f c = Some c' \<and> list_rel c' a'"
proof -
  from rel obtain p hs M where c: "c = (p, hs)" "pool_ok p M" "\<forall>v. reads M (hs v) (A v)" "length (pool_data p) \<le> m"
    "\<forall>v w. v \<noteq> w \<longrightarrow> handle_index (hs v) \<noteq> 0 \<longrightarrow> handle_index (hs v) \<noteq> handle_index (hs w)" by (rule list_relE)
  from step have a': "a' = (A(v := ys), m + cost)" and lim: "m + cost < 2 ^ 32" "length ys < 2 ^ 32"
    by (auto simp: spend_def split: if_splits)
  from lim c(4) have "length (pool_data p) + cost < 2 ^ 32" by linarith
  from op [OF c(1-4) this lim(2)] obtain h' q N where q: "f (hs v) p = Some (h', q)" "pool_ok q N" "effect M (hs v) N h' ys"
    "length (pool_data q) \<le> length (pool_data p) + cost" unfolding achieves_def by blast
  from q(4) c(4) have "length (pool_data q) \<le> m + cost" by linarith
  from list_rel_effect [where A = A, OF c(3,5) q(3,2) this] q(1) c(1) a' show ?thesis by (simp add: with_handle_def)
qed

lemma take_sim:
  assumes rel: "list_rel c (A, m)"
  shows "\<exists>c'. list_cstep (LTake v w) c = Some c' \<and> list_rel c' (A(v := [], w := A v), m)"
proof -
  from rel obtain p hs M where c: "c = (p, hs)" "pool_ok p M" "\<forall>v. reads M (hs v) (A v)" "length (pool_data p) \<le> m"
    "\<forall>v w. v \<noteq> w \<longrightarrow> handle_index (hs v) \<noteq> 0 \<longrightarrow> handle_index (hs v) \<noteq> handle_index (hs w)" by (rule list_relE)
  let ?hs = "hs(v := ListHandle_new, w := hs v)"
  have "reads M (?hs u) ((A(v := [], w := A v)) u)" for u using c(3) by simp
  moreover have "handle_index (?hs u) \<noteq> handle_index (?hs x)" if "u \<noteq> x" "handle_index (?hs u) \<noteq> 0" for u x
    using that c(5) by (cases "u = w"; cases "x = w") (auto simp: ListHandle_new_def split: if_splits)
  ultimately have "list_rel (p, ?hs) (A(v := [], w := A v), m)"
    using c(2,4) unfolding list_rel_def by (intro exI [of _ M]) auto
  then show ?thesis using c(1) by (simp add: ListHandle_take_def)
qed

lemma list_step_sim:
  assumes rel: "list_rel c a" and step: "list_astep x a = Some a'"
  shows "\<exists>c'. list_cstep x c = Some c' \<and> list_rel c' a'"
proof -
  obtain A m where a: "a = (A, m)" by fastforce
  note rel' = rel [unfolded a]
  show ?thesis
  proof (cases x)
    case (LFromSlice v xs)
    with step have s: "spend (alloc_cost 0 (length xs)) v xs (A, m) = Some a'" by (simp add: a Let_def)
    have "\<exists>c'. with_handle v (\<lambda>_ p. ListHandle_from_slice xs p) c = Some c' \<and> list_rel c' a'"
      by (rule with_handle_sim [OF rel' s], rule achieves_new, rule from_slice_ok) auto
    with LFromSlice show ?thesis by simp
  next
    case (LPush v e)
    with step have s: "spend (alloc_cost (length (A v)) (length (A v) + 1)) v (A v @ [e]) (A, m) = Some a'" by (simp add: a Let_def)
    have "\<exists>c'. with_handle v (\<lambda>h p. do { (_, r) \<leftarrow> ListHandle_push h e p; Some r }) c = Some c' \<and> list_rel c' a'"
    proof (rule with_handle_sim [OF rel' s])
      fix p hs M assume "pool_ok p M" "\<forall>v. reads M (hs v) (A v)" "length (pool_data p) + alloc_cost (length (A v)) (length (A v) + 1) < 2 ^ 32"
        "length (A v @ [e]) < 2 ^ 32"
      with push_ok [of p M "hs v" "A v" e] show "achieves M (hs v) (length (pool_data p) + alloc_cost (length (A v)) (length (A v) + 1))
        (A v @ [e]) (do { (_, r) \<leftarrow> ListHandle_push (hs v) e p; Some r })" by auto
    qed
    with LPush show ?thesis by simp
  next
    case (LExtend v hint ys)
    with step have s: "spend (extend_cost (snd hint = Some (fst hint)) (length (A v)) (length ys)) v (A v @ ys) (A, m) = Some a'"
      and h: "fst hint \<le> length ys" "\<forall>u. snd hint = Some u \<longrightarrow> length ys \<le> u"
      by (auto simp: a Let_def split: if_splits option.splits)
    have "\<exists>c'. with_handle v (\<lambda>h. ListHandle_extend h hint ys) c = Some c' \<and> list_rel c' a'"
      by (rule with_handle_sim [OF rel' s], rule extend_ok [OF _ _ h]) auto
    with LExtend show ?thesis by simp
  next
    case (LInsert v i e)
    with step have s: "spend (alloc_cost (length (A v)) (length (A v) + 1)) v (take i (A v) @ e # drop i (A v)) (A, m) = Some a'"
      and i: "i \<le> length (A v)" by (auto simp: a Let_def split: if_splits)
    have "\<exists>c'. with_handle v (\<lambda>h. ListHandle_insert h i e) c = Some c' \<and> list_rel c' a'"
      by (rule with_handle_sim [OF rel' s], rule insert_ok) (use i in auto)
    with LInsert show ?thesis by simp
  next
    case (LRemove v i)
    with step have s: "spend (alloc_cost (length (A v)) (length (A v) - 1)) v (take i (A v) @ drop (i + 1) (A v)) (A, m) = Some a'"
      and i: "i < length (A v)" by (auto simp: a Let_def split: if_splits)
    have "\<exists>c'. with_handle v (\<lambda>h. ListHandle_remove h i) c = Some c' \<and> list_rel c' a'"
      by (rule with_handle_sim [OF rel' s], rule remove_ok) (use i in auto)
    with LRemove show ?thesis by simp
  next
    case (LSwapRemove v i)
    with step have s: "spend (alloc_cost (length (A v)) (length (A v) - 1)) v (butlast ((A v)[i := last (A v)])) (A, m) = Some a'"
      and i: "i < length (A v)" by (auto simp: a Let_def split: if_splits)
    have "\<exists>c'. with_handle v (\<lambda>h. ListHandle_swap_remove h i) c = Some c' \<and> list_rel c' a'"
      by (rule with_handle_sim [OF rel' s], rule swap_remove_ok) (use i in auto)
    with LSwapRemove show ?thesis by simp
  next
    case (LTruncate v k)
    with step have s: "spend (alloc_cost (length (A v)) (min k (length (A v)))) v (take k (A v)) (A, m) = Some a'" by (simp add: a Let_def)
    have "\<exists>c'. with_handle v (\<lambda>h. ListHandle_truncate h k) c = Some c' \<and> list_rel c' a'"
      by (rule with_handle_sim [OF rel' s], rule truncate_ok) (auto simp: min.commute)
    with LTruncate show ?thesis by simp
  next
    case (LClear v)
    with step have s: "spend 0 v [] (A, m) = Some a'" by (simp add: a Let_def)
    have "\<exists>c'. with_handle v ListHandle_clear c = Some c' \<and> list_rel c' a'"
    proof (rule with_handle_sim [OF rel' s])
      fix p hs M assume "pool_ok p M" "\<forall>v. reads M (hs v) (A v)"
      with clear_ok [of p M "hs v" "A v"] show "achieves M (hs v) (length (pool_data p) + 0) [] (ListHandle_clear (hs v) p)" by simp
    qed
    with LClear show ?thesis by simp
  next
    case (LSet v i e)
    with step have s: "spend 0 v ((A v)[i := e]) (A, m) = Some a'" by (simp add: a Let_def)
    have "\<exists>c'. with_handle v (\<lambda>h p. do { p \<leftarrow> ListHandle_get_mut h i (\<lambda>_. e) p; Some (h, p) }) c = Some c' \<and> list_rel c' a'"
    proof (rule with_handle_sim [OF rel' s])
      fix p hs M assume ok: "pool_ok p M" "\<forall>v. reads M (hs v) (A v)"
      obtain q N where "ListHandle_get_mut (hs v) i (\<lambda>_. e) p = Some q" "pool_ok q N"
        "effect M (hs v) N (hs v) (if i < length (A v) then (A v)[i := e] else A v)" "length (pool_data q) = length (pool_data p)"
        by (rule get_mut_ok [OF ok(1) spec [OF ok(2)]])
      moreover have "(A v)[i := e] = (if i < length (A v) then (A v)[i := e] else A v)" by (simp add: list_update_beyond)
      ultimately show "achieves M (hs v) (length (pool_data p) + 0) ((A v)[i := e])
        (do { p \<leftarrow> ListHandle_get_mut (hs v) i (\<lambda>_. e) p; Some (hs v, p) })" by (auto simp: achieves_def)
    qed
    with LSet show ?thesis by simp
  next
    case (LTake v w)
    with step have "a' = (A(v := [], w := A v), m)" by (simp add: a)
    with take_sim [OF rel', of v w] LTake show ?thesis by (simp only:)
  next
    case (LDeepClone v w)
    with step have s: "spend (alloc_cost 0 (length (A v))) w (A v) (A, m) = Some a'" by (simp add: a Let_def)
    have "\<exists>c'. with_handle w (\<lambda>_ p. ListHandle_deep_clone (snd c v) p) c = Some c' \<and> list_rel c' a'"
      by (rule with_handle_sim [OF rel' s], rule achieves_new, rule deep_clone_ok) auto
    with LDeepClone show ?thesis by simp
  qed
qed

interpretation list_sim: simulation list_cstep list_astep list_rel
  by unfold_locales (rule list_step_sim)

lemma pool_new_ok: "pool_ok ListPool_new (\<lambda>_. None)"
  by (simp add: pool_ok_def blocks_fit_def ListPool_new_def free_head_def exI [of _ "[]"])

lemma list_read:
  assumes "pool_ok p M" "reads M h xs"
  shows "ListHandle_as_slice h p = Some xs \<and> ListHandle_len h p = length xs \<and> ListHandle_is_empty h = (xs = []) \<and>
    (\<forall>i. ListHandle_get h i p = Some (vec_get xs i)) \<and> ListHandle_first h p = Some (vec_get xs 0)"
proof (cases "xs = []")
  case True
  with as_slice_reads [OF assms] len_of_reads [OF assms] assms(2) show ?thesis
    by (simp add: ListHandle_len_def ListHandle_is_empty_def ListHandle_get_def ListHandle_first_def reads_def)
next
  case False
  obtain b where b: "handle_index h = b + 1" "M b = Some (Live xs)" using reads_live [OF assms(2) False] by metis
  have "holds_list (pool_data p) b xs" by (rule pool_ok_live(2) [OF assms(1) b(2)])
  moreover have "0 < length xs" using False by simp
  ultimately have "b + 1 < length (pool_data p)" "pool_data p ! (b + 1 + 0) = xs ! 0"
    unfolding holds_list_def by (linarith, blast)
  then have "vec_get (pool_data p) (b + 1) = vec_get xs 0" using False by simp
  with False as_slice_reads [OF assms] len_of_reads [OF assms] b(1) show ?thesis
    by (simp add: ListHandle_len_def ListHandle_is_empty_def ListHandle_get_def ListHandle_first_def)
qed

lemma list_rel_start: "list_rel (ListPool_new, \<lambda>_. ListHandle_new) (\<lambda>_. [], 0)"
  unfolding list_rel_def using pool_new_ok by (intro exI [of _ "\<lambda>_. None"]) (auto simp: ListHandle_new_def ListPool_new_def reads_def)

text \<open>C32: Lists in a pool are lists. Take any program that makes, extends, edits, truncates, takes, copies and
clears lists in one pool, with every position in range, every size hint true and room in 32 bits for the blocks it
needs. No call of it panics, and at its end each variable reads back the list that the same program on ordinary
lists has in it, with its length, its elements and its first: no list shows through another, however blocks were
moved, given back and used again.\<close>
theorem list_pool_refines:
  assumes "run_ops list_astep ops (\<lambda>_. [], 0) = Some (A, m)"
  shows "\<exists>p hs. run_ops list_cstep ops (ListPool_new, \<lambda>_. ListHandle_new) = Some (p, hs) \<and>
     (\<forall>v. ListHandle_as_slice (hs v) p = Some (A v) \<and> ListHandle_len (hs v) p = length (A v) \<and>
       ListHandle_is_empty (hs v) = (A v = []) \<and> (\<forall>i. ListHandle_get (hs v) i p = Some (vec_get (A v) i)) \<and>
       ListHandle_first (hs v) p = Some (vec_get (A v) 0))"
proof -
  from list_sim.run_sim [OF list_rel_start assms] obtain c where
    c: "run_ops list_cstep ops (ListPool_new, \<lambda>_. ListHandle_new) = Some c" "list_rel c (A, m)" by blast
  from c(2) obtain p hs M where r: "c = (p, hs)" "pool_ok p M" "\<forall>v. reads M (hs v) (A v)" by (rule list_relE)
  have "ListHandle_as_slice (hs v) p = Some (A v) \<and> ListHandle_len (hs v) p = length (A v) \<and>
       ListHandle_is_empty (hs v) = (A v = []) \<and> (\<forall>i. ListHandle_get (hs v) i p = Some (vec_get (A v) i)) \<and>
       ListHandle_first (hs v) p = Some (vec_get (A v) 0)" for v
    using list_read [OF r(2) spec [OF r(3)]] by blast
  with c(1) r(1) show ?thesis by blast
qed

theorem list_pool_refines_witness:
  "\<exists>p hs. run_ops list_cstep [LFromSlice 0 [7, 8, 9], LPush 1 5, LPush 0 4, LInsert 0 1 6, LRemove 0 0, LTruncate 0 2,
       LPush 1 3, LDeepClone 0 2, LClear 0, LSet 2 0 1] (ListPool_new, \<lambda>_. ListHandle_new) = Some (p, hs) \<and>
     ListHandle_as_slice (hs 0) p = Some [] \<and> ListHandle_as_slice (hs 1) p = Some [5, 3] \<and> ListHandle_as_slice (hs 2) p = Some [1, 8]"
proof -
  let ?ops = "[LFromSlice 0 [7, 8, 9], LPush 1 5, LPush 0 4, LInsert 0 1 6, LRemove 0 0, LTruncate 0 2,
       LPush 1 3, LDeepClone 0 2, LClear 0, LSet 2 0 1]"
  have "map_option (\<lambda>s. (fst s 0, fst s 1, fst s 2)) (run_ops list_astep ?ops (\<lambda>_. [], 0)) = Some ([], [5, 3], [1, 8])" by code_simp
  then obtain A m where A: "run_ops list_astep ?ops (\<lambda>_. [], 0) = Some (A, m)" "A 0 = []" "A 1 = [5, 3]" "A 2 = [1, 8]" by auto
  from list_pool_refines [OF A(1)] A(2-4) show ?thesis by metis
qed

end
