(* ===== verification/Source_Map.thy ===== *)
theory Source_Map
  imports Prelude
begin

text \<open>
  Where a token comes from: the source contexts of \<^verbatim>\<open>openvaf/preprocessor/src/sourcemap.rs\<close>. A context is a file
  or the expansion of a macro; each but the root was called at a span of an earlier context. Text positions and
  ranges belong to the crate \<^verbatim>\<open>text_size\<close>, which is a parameter: the record \<open>text_ranges\<close>, whose documented
  behaviour is \<open>text_ranges_spec\<close>. The functions that only move ranges around do not use it.
\<close>

section \<open>Text ranges\<close>

record 'r text_ranges =
  tr_new :: "nat \<Rightarrow> nat \<Rightarrow> 'r panics"
  tr_at :: "nat \<Rightarrow> nat \<Rightarrow> 'r panics"
  tr_empty :: "nat \<Rightarrow> 'r"
  tr_up_to :: "nat \<Rightarrow> 'r"
  tr_start :: "'r \<Rightarrow> nat"
  tr_end :: "'r \<Rightarrow> nat"
  tr_len :: "'r \<Rightarrow> nat"
  tr_cover :: "'r \<Rightarrow> 'r \<Rightarrow> 'r"
  tr_shift :: "'r \<Rightarrow> nat \<Rightarrow> 'r panics"
  tr_unshift :: "'r \<Rightarrow> nat \<Rightarrow> 'r panics"
  ts_add :: "nat \<Rightarrow> nat \<Rightarrow> nat panics"
  ts_sub :: "nat \<Rightarrow> nat \<Rightarrow> nat panics"

definition text_ranges_spec :: "'r text_ranges \<Rightarrow> bool" where
  "text_ranges_spec R \<longleftrightarrow>
     (\<forall>r. tr_start R r \<le> tr_end R r \<and> tr_end R r < 2 ^ 32 \<and> tr_len R r = tr_end R r - tr_start R r) \<and>
     (\<forall>a b. a \<le> b \<longrightarrow> b < 2 ^ 32 \<longrightarrow> (\<exists>r. tr_new R a b = Some r \<and> tr_start R r = a \<and> tr_end R r = b)) \<and>
     (\<forall>a n. a + n < 2 ^ 32 \<longrightarrow> (\<exists>r. tr_at R a n = Some r \<and> tr_start R r = a \<and> tr_end R r = a + n)) \<and>
     (\<forall>a < 2 ^ 32. tr_start R (tr_empty R a) = a \<and> tr_end R (tr_empty R a) = a) \<and>
     (\<forall>a < 2 ^ 32. tr_start R (tr_up_to R a) = 0 \<and> tr_end R (tr_up_to R a) = a) \<and>
     (\<forall>r q. tr_start R (tr_cover R r q) = min (tr_start R r) (tr_start R q) \<and>
            tr_end R (tr_cover R r q) = max (tr_end R r) (tr_end R q)) \<and>
     (\<forall>r o'. if tr_end R r + o' < 2 ^ 32
        then \<exists>q. tr_shift R r o' = Some q \<and> tr_start R q = tr_start R r + o' \<and> tr_end R q = tr_end R r + o'
        else tr_shift R r o' = None) \<and>
     (\<forall>r o'. o' \<le> tr_start R r \<longrightarrow>
        (\<exists>q. tr_unshift R r o' = Some q \<and> tr_start R q = tr_start R r - o' \<and> tr_end R q = tr_end R r - o')) \<and>
     (\<forall>a b. a + b < 2 ^ 32 \<longrightarrow> ts_add R a b = Some (a + b)) \<and>
     (\<forall>a b. b \<le> a \<longrightarrow> ts_sub R a b = Some (a - b)) \<and>
     (\<forall>r q. tr_start R r = tr_start R q \<longrightarrow> tr_end R r = tr_end R q \<longrightarrow> r = q)"

text \<open>The laws one by one.\<close>

lemma text_rangesD:
  assumes "text_ranges_spec R"
  shows "tr_start R r \<le> tr_end R r" "tr_end R r < 2 ^ 32" "tr_len R r = tr_end R r - tr_start R r"
    "a \<le> b \<Longrightarrow> b < 2 ^ 32 \<Longrightarrow> \<exists>r. tr_new R a b = Some r \<and> tr_start R r = a \<and> tr_end R r = b"
    "a + n < 2 ^ 32 \<Longrightarrow> \<exists>r. tr_at R a n = Some r \<and> tr_start R r = a \<and> tr_end R r = a + n"
    "tr_start R (tr_empty R 0) = 0" "tr_end R (tr_empty R 0) = 0"
    "tr_start R (tr_cover R r q) = min (tr_start R r) (tr_start R q)" "tr_end R (tr_cover R r q) = max (tr_end R r) (tr_end R q)"
    "tr_end R r + k < 2 ^ 32 \<Longrightarrow> \<exists>q. tr_shift R r k = Some q \<and> tr_start R q = tr_start R r + k \<and> tr_end R q = tr_end R r + k"
    "tr_shift R r k = Some q \<Longrightarrow> tr_start R q = tr_start R r + k \<and> tr_end R q = tr_end R r + k"
    "k \<le> tr_start R r \<Longrightarrow> \<exists>q. tr_unshift R r k = Some q \<and> tr_start R q = tr_start R r - k \<and> tr_end R q = tr_end R r - k"
    "a + b < 2 ^ 32 \<Longrightarrow> ts_add R a b = Some (a + b)" "b \<le> a \<Longrightarrow> ts_sub R a b = Some (a - b)"
    "tr_start R r = tr_start R q \<Longrightarrow> tr_end R r = tr_end R q \<Longrightarrow> r = q"
proof -
  have sh: "if tr_end R r + k < 2 ^ 32
      then \<exists>q. tr_shift R r k = Some q \<and> tr_start R q = tr_start R r + k \<and> tr_end R q = tr_end R r + k
      else tr_shift R r k = None" using assms unfolding text_ranges_spec_def by blast
  then show "tr_end R r + k < 2 ^ 32 \<Longrightarrow> \<exists>q. tr_shift R r k = Some q \<and> tr_start R q = tr_start R r + k \<and> tr_end R q = tr_end R r + k"
    by simp
  from sh show "tr_shift R r k = Some q \<Longrightarrow> tr_start R q = tr_start R r + k \<and> tr_end R q = tr_end R r + k"
    by (auto split: if_splits)
qed (use assms in \<open>unfold text_ranges_spec_def, simp_all\<close>)

section \<open>Spans and contexts\<close>

type_synonym source_context = nat
type_synonym file_id = nat

definition SourceContext_ROOT :: source_context where
  "SourceContext_ROOT = 0"

record 'r file_span =
  fs_range :: 'r
  fs_file :: file_id

record 'r ctx_span =
  cs_range :: 'r
  cs_ctx :: source_context

record 'r source_context_data =
  sc_decl :: "'r file_span"
  sc_call_site :: "'r ctx_span option"

type_synonym 'r source_map = "'r source_context_data list"

definition FileSpan_with_file :: "'r file_span \<Rightarrow> file_id \<Rightarrow> 'r file_span" where
  "FileSpan_with_file self file = \<lparr>fs_range = fs_range self, fs_file = file\<rparr>"

definition FileSpan_with_range :: "'r file_span \<Rightarrow> 'r \<Rightarrow> 'r file_span" where
  "FileSpan_with_range self r = \<lparr>fs_range = r, fs_file = fs_file self\<rparr>"

definition FileSpan_with_len :: "'r text_ranges \<Rightarrow> 'r file_span \<Rightarrow> nat \<Rightarrow> 'r file_span panics" where
  "FileSpan_with_len R self len = do { r \<leftarrow> tr_at R (tr_start R (fs_range self)) len; Some \<lparr>fs_range = r, fs_file = fs_file self\<rparr> }"

definition FileSpan_with_subrange :: "'r text_ranges \<Rightarrow> 'r file_span \<Rightarrow> 'r \<Rightarrow> 'r file_span panics" where
  "FileSpan_with_subrange R self relative_range = do {
     r \<leftarrow> tr_shift R relative_range (tr_start R (fs_range self));
     _ \<leftarrow> rust_assert (tr_end R r \<le> tr_end R (fs_range self));
     Some \<lparr>fs_range = r, fs_file = fs_file self\<rparr>
   }"

definition CtxSpan_with_ctx :: "'r ctx_span \<Rightarrow> source_context \<Rightarrow> 'r ctx_span" where
  "CtxSpan_with_ctx self ctx = \<lparr>cs_range = cs_range self, cs_ctx = ctx\<rparr>"

definition CtxSpan_with_range :: "'r ctx_span \<Rightarrow> 'r \<Rightarrow> 'r ctx_span" where
  "CtxSpan_with_range self r = \<lparr>cs_range = r, cs_ctx = cs_ctx self\<rparr>"

definition CtxSpan_cover :: "'r text_ranges \<Rightarrow> 'r ctx_span \<Rightarrow> 'r \<Rightarrow> 'r ctx_span" where
  "CtxSpan_cover R self r = \<lparr>cs_range = tr_cover R (cs_range self) r, cs_ctx = cs_ctx self\<rparr>"

definition CtxSpan_with_len :: "'r text_ranges \<Rightarrow> 'r ctx_span \<Rightarrow> nat \<Rightarrow> 'r ctx_span panics" where
  "CtxSpan_with_len R self len = do { r \<leftarrow> tr_at R (tr_start R (cs_range self)) len; Some \<lparr>cs_range = r, cs_ctx = cs_ctx self\<rparr> }"

definition CtxSpan_dummy :: "'r text_ranges \<Rightarrow> 'r ctx_span" where
  "CtxSpan_dummy R = \<lparr>cs_range = tr_empty R 0, cs_ctx = SourceContext_ROOT\<rparr>"

definition SourceMap_new :: "'r text_ranges \<Rightarrow> file_id \<Rightarrow> nat \<Rightarrow> 'r source_map" where
  "SourceMap_new R root_file root_file_len =
     [\<lparr>sc_decl = \<lparr>fs_range = tr_up_to R root_file_len, fs_file = root_file\<rparr>, sc_call_site = None\<rparr>]"

definition SourceMap_ctx_data :: "'r source_map \<Rightarrow> source_context \<Rightarrow> 'r source_context_data panics" where
  "SourceMap_ctx_data self ctx = vec_get self ctx"

definition SourceMap_add_ctx :: "'r source_map \<Rightarrow> 'r file_span \<Rightarrow> 'r ctx_span \<Rightarrow> 'r source_map \<times> source_context" where
  "SourceMap_add_ctx self decl call_site =
     (self @ [\<lparr>sc_decl = decl, sc_call_site = Some call_site\<rparr>], length self)"

definition SourceContext_call_site :: "source_context \<Rightarrow> 'r source_map \<Rightarrow> 'r ctx_span option panics" where
  "SourceContext_call_site self sm = do { d \<leftarrow> vec_get sm self; Some (sc_call_site d) }"

definition CtxSpan_to_file_span :: "'r text_ranges \<Rightarrow> 'r ctx_span \<Rightarrow> 'r source_map \<Rightarrow> 'r file_span panics" where
  "CtxSpan_to_file_span R self sm = do { d \<leftarrow> vec_get sm (cs_ctx self); FileSpan_with_subrange R (sc_decl d) (cs_range self) }"

text \<open>The way up from a span; a loop through the contexts is a \<open>partial_function\<close>.\<close>

partial_function (option) SourceMap_lookup_expansion_until ::
  "'r text_ranges \<Rightarrow> 'r source_map \<Rightarrow> 'r ctx_span \<Rightarrow> source_context \<Rightarrow> 'r file_span list panics" where
  "SourceMap_lookup_expansion_until R self current until = do {
     f \<leftarrow> CtxSpan_to_file_span R current self;
     if cs_ctx current = until then Some [f]
     else do {
       d \<leftarrow> vec_get self (cs_ctx current);
       (case sc_call_site d of
          Some call_site \<Rightarrow> do { fs \<leftarrow> SourceMap_lookup_expansion_until R self call_site until; Some (f # fs) }
        | None \<Rightarrow> Some [f])
     }
   }"

definition SourceMap_lookup_expansion :: "'r text_ranges \<Rightarrow> 'r source_map \<Rightarrow> 'r ctx_span \<Rightarrow> 'r file_span list panics" where
  "SourceMap_lookup_expansion R self span = SourceMap_lookup_expansion_until R self span SourceContext_ROOT"

text \<open>
  \<open>lowest_common_parent\<close>: the first loop enters the ranges of all contexts around the first span into a map, the
  second goes up from the second span until it meets one of them.
\<close>

partial_function (option) ancestors_loop ::
  "'r source_map \<Rightarrow> source_context \<Rightarrow> (source_context \<rightharpoonup> 'r) \<Rightarrow> (source_context \<rightharpoonup> 'r) panics" where
  "ancestors_loop self current ancestors = do {
     d \<leftarrow> vec_get self current;
     (case sc_call_site d of
        Some call_site \<Rightarrow> ancestors_loop self (cs_ctx call_site) (ancestors(cs_ctx call_site \<mapsto> cs_range call_site))
      | None \<Rightarrow> Some ancestors)
   }"

partial_function (option) meet_loop ::
  "'r source_map \<Rightarrow> (source_context \<rightharpoonup> 'r) \<Rightarrow> source_context \<Rightarrow> 'r \<Rightarrow> (source_context \<times> 'r \<times> 'r) panics" where
  "meet_loop self ancestors current current_call_span =
     (case ancestors current of
        Some call_span \<Rightarrow> Some (current, call_span, current_call_span)
      | None \<Rightarrow> do {
          d \<leftarrow> vec_get self current;
          span \<leftarrow> sc_call_site d;
          meet_loop self ancestors (cs_ctx span) (cs_range span)
        })"

definition SourceMap_lowest_common_parent ::
  "'r source_map \<Rightarrow> 'r ctx_span \<Rightarrow> 'r ctx_span \<Rightarrow> (source_context \<times> 'r \<times> 'r) panics" where
  "SourceMap_lowest_common_parent self span1 span2 = do {
     ancestors \<leftarrow> ancestors_loop self (cs_ctx span1) [cs_ctx span1 \<mapsto> cs_range span1];
     meet_loop self ancestors (cs_ctx span2) (cs_range span2)
   }"

definition CtxSpan_extend :: "'r text_ranges \<Rightarrow> 'r ctx_span \<Rightarrow> 'r ctx_span \<Rightarrow> 'r source_map \<Rightarrow> 'r ctx_span panics" where
  "CtxSpan_extend R self other sm =
     (if cs_ctx self = cs_ctx other then Some \<lparr>cs_range = tr_cover R (cs_range self) (cs_range other), cs_ctx = cs_ctx self\<rparr>
      else do {
        (ctx, range1, range2) \<leftarrow> SourceMap_lowest_common_parent sm self other;
        Some \<lparr>cs_range = tr_cover R range1 range2, cs_ctx = ctx\<rparr>
      })"

text \<open>The loop of \<open>to_same_ctx\<close> over the indices, with the variable \<open>merge\<close>.\<close>

fun same_ctx_loop ::
  "'r source_map \<Rightarrow> nat list \<Rightarrow> nat \<times> 'r ctx_span \<Rightarrow> 'r ctx_span list \<Rightarrow> ((nat \<times> 'r ctx_span) \<times> 'r ctx_span list) panics" where
  "same_ctx_loop self [] merge spans = Some (merge, spans)"
| "same_ctx_loop self (i # is) merge spans = do {
     si \<leftarrow> vec_get spans i;
     if cs_ctx si \<noteq> cs_ctx (snd merge) then do {
       j \<leftarrow> usize_sub i 1;
       sj \<leftarrow> vec_get spans j;
       (ctx, range1, range2) \<leftarrow> SourceMap_lowest_common_parent self si sj;
       spans \<leftarrow> vec_set spans i \<lparr>cs_range = range1, cs_ctx = ctx\<rparr>;
       same_ctx_loop self is (if ctx \<noteq> cs_ctx (snd merge) then (i, \<lparr>cs_range = range2, cs_ctx = ctx\<rparr>) else merge) spans
     } else same_ctx_loop self is merge spans
   }"

definition SourceMap_to_same_ctx :: "'r source_map \<Rightarrow> 'r ctx_span list \<Rightarrow> ('r ctx_span list \<times> source_context) panics" where
  "SourceMap_to_same_ctx self spans = do {
     s0 \<leftarrow> vec_get spans 0;
     ((m, span), spans) \<leftarrow> same_ctx_loop self [1..<length spans] (0, s0) spans;
     _ \<leftarrow> rust_assert (m \<le> length spans);
     Some (replicate m span @ drop m spans, cs_ctx span)
   }"

fun subranges :: "'r text_ranges \<Rightarrow> 'r file_span \<Rightarrow> 'r ctx_span list \<Rightarrow> 'r list panics" where
  "subranges R decl [] = Some []"
| "subranges R decl (span # spans) = do {
     f \<leftarrow> FileSpan_with_subrange R decl (cs_range span);
     rs \<leftarrow> subranges R decl spans;
     Some (fs_range f # rs)
   }"

definition SourceMap_to_file_spans :: "'r text_ranges \<Rightarrow> 'r source_map \<Rightarrow> 'r ctx_span list \<Rightarrow> (file_id \<times> 'r list) panics" where
  "SourceMap_to_file_spans R self spans = do {
     (spans, ctx) \<leftarrow> SourceMap_to_same_ctx self spans;
     d \<leftarrow> SourceMap_ctx_data self ctx;
     rs \<leftarrow> subranges R (sc_decl d) spans;
     Some (fs_file (sc_decl d), rs)
   }"

section \<open>Well-formed maps\<close>

text \<open>The root was not called, every other context was called in an earlier one.\<close>

definition SourceMap_ok :: "'r source_map \<Rightarrow> bool" where
  "SourceMap_ok sm \<longleftrightarrow> sm \<noteq> [] \<and>
     (\<forall>i < length sm. case sc_call_site (sm ! i) of None \<Rightarrow> i = 0 | Some t \<Rightarrow> cs_ctx t < i)"

inductive called_in :: "'r source_map \<Rightarrow> 'r ctx_span \<Rightarrow> 'r ctx_span \<Rightarrow> bool" for sm where
  called_here: "called_in sm s s"
| called_up: "cs_ctx s < length sm \<Longrightarrow> sc_call_site (sm ! cs_ctx s) = Some t \<Longrightarrow> called_in sm t u \<Longrightarrow> called_in sm s u"

lemma SourceMap_new_ok: "SourceMap_ok (SourceMap_new R f n)"
  by (simp add: SourceMap_ok_def SourceMap_new_def)

lemma SourceMap_add_ctx_ok:
  assumes "SourceMap_ok sm" "cs_ctx site < length sm" "SourceMap_add_ctx sm decl site = (sm', c)"
  shows "SourceMap_ok sm'" "c < length sm'" "length sm' = length sm + 1" "\<And>i. i < length sm \<Longrightarrow> sm' ! i = sm ! i"
  using assms by (auto simp: SourceMap_ok_def SourceMap_add_ctx_def nth_append less_Suc_eq)

lemma call_site_cases:
  assumes "SourceMap_ok sm" "i < length sm"
  obtains "i = 0" "sc_call_site (sm ! i) = None"
  | t where "0 < i" "sc_call_site (sm ! i) = Some t" "cs_ctx t < i"
  using assms unfolding SourceMap_ok_def by (cases "sc_call_site (sm ! i)") fastforce+

lemma called_in_le:
  assumes "SourceMap_ok sm" "called_in sm s u" "cs_ctx s < length sm"
  shows "cs_ctx u \<le> cs_ctx s \<and> cs_ctx u < length sm"
  using assms(2,3)
proof induction
  case (called_up s t u)
  from called_up(1,2) assms(1) have "cs_ctx t < cs_ctx s" by (auto elim: call_site_cases)
  with called_up show ?case by simp
qed simp

lemma called_in_trans: "called_in sm s t \<Longrightarrow> called_in sm t u \<Longrightarrow> called_in sm s u"
  by (induction rule: called_in.induct) (auto intro: called_in.intros)

text \<open>One span's contexts form a chain: of two around it, the inner was called in the outer.\<close>

lemma called_in_chain:
  assumes ok: "SourceMap_ok sm" and "called_in sm s t" "called_in sm s u" "cs_ctx s < length sm" "cs_ctx u \<le> cs_ctx t"
  shows "called_in sm t u"
  using assms(2-5)
proof (induction arbitrary: u)
  case (called_up s t v)
  from called_up.prems(1) show ?case
  proof cases
    case called_here
    have "cs_ctx t < cs_ctx s" using ok called_up(1,2) by (auto elim: call_site_cases)
    moreover have "cs_ctx v \<le> cs_ctx t" using called_in_le [OF ok called_up(3)] called_up(1) calculation by simp
    ultimately show ?thesis using called_up.prems(3) called_here by simp
  next
    case (called_up t')
    with called_up.hyps called_up.IH called_up.prems called_in_le [OF ok, of s t'] show ?thesis
      by (metis (no_types, lifting) called_in.called_here called_in.called_up called_in_le ok option.inject)
  qed
qed simp

text \<open>A span seen from an outer context does not depend on its own range.\<close>

lemma called_in_range:
  assumes "SourceMap_ok sm" "called_in sm s u" "cs_ctx s' = cs_ctx s" "cs_ctx u \<noteq> cs_ctx s"
  shows "called_in sm s' u"
  using assms(2-4) by cases (auto intro: called_in.called_up)

lemma called_in_unique:
  assumes "SourceMap_ok sm" "called_in sm s t" "called_in sm s u" "cs_ctx s < length sm" "cs_ctx t = cs_ctx u"
  shows "t = u"
proof -
  from called_in_chain [OF assms(1-4)] assms(5) have "called_in sm t u" by simp
  then show ?thesis
  proof cases
    case (called_up t')
    then have "cs_ctx t' < cs_ctx t" "cs_ctx t' < length sm" using assms(1) by (auto elim: call_site_cases)
    with called_in_le [OF assms(1) called_up(3)] assms(5) show ?thesis by simp
  qed simp
qed

lemma called_in_root:
  assumes "SourceMap_ok sm" "cs_ctx s < length sm"
  shows "\<exists>r. called_in sm s \<lparr>cs_range = r, cs_ctx = 0\<rparr>"
  using assms(2)
proof (induction "cs_ctx s" arbitrary: s rule: less_induct)
  case less
  from assms(1) less.prems show ?case
  proof (cases rule: call_site_cases)
    case 1
    then have "s = \<lparr>cs_range = cs_range s, cs_ctx = 0\<rparr>" by simp
    then show ?thesis by (metis called_here)
  next
    case (2 t)
    with less.hyps [of t] less.prems show ?thesis by (meson called_up less_trans)
  qed
qed

definition around :: "'r source_map \<Rightarrow> 'r ctx_span \<Rightarrow> source_context \<Rightarrow> 'r \<Rightarrow> bool" where
  "around sm s c r \<longleftrightarrow> called_in sm s \<lparr>cs_range = r, cs_ctx = c\<rparr>"

lemma ctx_span_eta [simp]: "\<lparr>cs_range = cs_range s, cs_ctx = cs_ctx s\<rparr> = s"
  by (cases s) simp

lemma around_self: "around sm s (cs_ctx s) (cs_range s)"
  by (simp add: around_def called_here)

lemma around_span [simp]: "around sm s (cs_ctx t) (cs_range t) = called_in sm s t"
  by (simp add: around_def)

lemma around_next:
  assumes ok: "SourceMap_ok sm" and s: "called_in sm s q" "cs_ctx s < length sm"
    and t: "sc_call_site (sm ! cs_ctx q) = Some t"
  shows "around sm s x r \<and> cs_ctx t \<le> x \<longleftrightarrow> x = cs_ctx t \<and> r = cs_range t \<or> around sm s x r \<and> cs_ctx q \<le> x"
proof -
  have q: "cs_ctx q < length sm" using called_in_le [OF ok s] by simp
  then have lt: "cs_ctx t < cs_ctx q" using t ok by (auto elim: call_site_cases)
  have st: "called_in sm s t" by (rule called_in_trans [OF s(1) called_up [OF q t called_here]])
  have "x = cs_ctx t \<and> r = cs_range t \<or> cs_ctx q \<le> x" if x: "around sm s x r" "cs_ctx t \<le> x"
  proof (rule ccontr)
    assume n: "\<not> ?thesis"
    let ?u = "\<lparr>cs_range = r, cs_ctx = x\<rparr>"
    from x n have u: "called_in sm s ?u" "x < cs_ctx q" by (auto simp: around_def)
    from called_in_chain [OF ok s(1) u(1) s(2)] u(2) have "called_in sm q ?u" by simp
    then have "called_in sm t ?u"
    proof cases
      case called_here
      from arg_cong [OF this, of cs_ctx] u(2) show ?thesis by simp
    qed (use t in simp)
    with called_in_le [OF ok this] lt q have "x \<le> cs_ctx t" by simp
    with x(2) have "cs_ctx ?u = cs_ctx t" by simp
    with called_in_unique [OF ok u(1) st s(2)] have "?u = t" by simp
    then have "x = cs_ctx t \<and> r = cs_range t" by auto
    with n show False by blast
  qed
  then show ?thesis using st lt by (auto simp: around_def)
qed

lemma ancestors_loop_ok:
  assumes ok: "SourceMap_ok sm" and s: "cs_ctx s < length sm"
    and q: "called_in sm s q" and A: "\<forall>x r. A x = Some r \<longleftrightarrow> around sm s x r \<and> cs_ctx q \<le> x"
  shows "\<exists>B. ancestors_loop sm (cs_ctx q) A = Some B \<and> (\<forall>x r. B x = Some r \<longleftrightarrow> around sm s x r)"
  using q A
proof (induction "cs_ctx q" arbitrary: q A rule: less_induct)
  case less
  have lt: "cs_ctx q < length sm" using called_in_le [OF ok less.prems(1) s] by simp
  with ok show ?case
  proof (cases rule: call_site_cases)
    case 1
    then show ?thesis using less.prems(2) lt by (subst ancestors_loop.simps) simp
  next
    case (2 t)
    let ?A = "A(cs_ctx t \<mapsto> cs_range t)"
    have st: "called_in sm s t" by (rule called_in_trans [OF less.prems(1) called_up [OF lt 2(2) called_here]])
    have "?A x = Some r \<longleftrightarrow> around sm s x r \<and> cs_ctx t \<le> x" for x r
      using around_next [OF ok less.prems(1) s 2(2), of x r] less.prems(2) 2(3) by auto
    with less.hyps [OF 2(3) st, of ?A] 2 lt show ?thesis by (subst ancestors_loop.simps) simp
  qed
qed

lemma meet_loop_ok:
  assumes ok: "SourceMap_ok sm" and s: "cs_ctx s1 < length sm" "cs_ctx s2 < length sm"
    and A: "\<forall>x r. A x = Some r \<longleftrightarrow> around sm s1 x r"
    and q: "called_in sm s2 q" "\<forall>x r1 r2. around sm s1 x r1 \<longrightarrow> around sm s2 x r2 \<longrightarrow> x \<le> cs_ctx q"
  shows "\<exists>c r1 r2. meet_loop sm A (cs_ctx q) (cs_range q) = Some (c, r1, r2) \<and> around sm s1 c r1 \<and> around sm s2 c r2 \<and>
    (\<forall>x q1 q2. around sm s1 x q1 \<longrightarrow> around sm s2 x q2 \<longrightarrow> x \<le> c)"
  using q
proof (induction "cs_ctx q" arbitrary: q rule: less_induct)
  case less
  have lt: "cs_ctx q < length sm" using called_in_le [OF ok less.prems(1) s(2)] by simp
  show ?case
  proof (cases "A (cs_ctx q)")
    case (Some r)
    then have "meet_loop sm A (cs_ctx q) (cs_range q) = Some (cs_ctx q, r, cs_range q)" by (subst meet_loop.simps) simp
    moreover have "around sm s1 (cs_ctx q) r" using A Some by simp
    ultimately show ?thesis using less.prems by auto
  next
    case None
    from ok lt show ?thesis
    proof (cases rule: call_site_cases)
      case 1
      obtain r where "around sm s1 0 r" using called_in_root [OF ok s(1)] by (auto simp: around_def)
      with A have "A 0 = Some r" by blast
      with None 1(1) show ?thesis by simp
    next
      case (2 t)
      have st: "called_in sm s2 t" by (rule called_in_trans [OF less.prems(1) called_up [OF lt 2(2) called_here]])
      have "x \<le> cs_ctx t" if "around sm s1 x r1" "around sm s2 x r2" for x r1 r2
      proof (rule ccontr)
        assume "\<not> x \<le> cs_ctx t"
        with around_next [OF ok less.prems(1) s(2) 2(2), of x r2] that(2) have "cs_ctx q \<le> x" by auto
        with less.prems(2) that have "x = cs_ctx q" by (meson le_antisym)
        with A that(1) have "A (cs_ctx q) = Some r1" by blast
        with None show False by simp
      qed
      then have "\<forall>x r1 r2. around sm s1 x r1 \<longrightarrow> around sm s2 x r2 \<longrightarrow> x \<le> cs_ctx t" by blast
      from less.hyps [OF 2(3) st this] None 2 lt show ?thesis by (subst meet_loop.simps) simp
    qed
  qed
qed

lemma lowest_common_parent_ok:
  assumes ok: "SourceMap_ok sm" and s: "cs_ctx s1 < length sm" "cs_ctx s2 < length sm"
  obtains c r1 r2 where "SourceMap_lowest_common_parent sm s1 s2 = Some (c, r1, r2)" "around sm s1 c r1" "around sm s2 c r2"
    "\<forall>x q1 q2. around sm s1 x q1 \<longrightarrow> around sm s2 x q2 \<longrightarrow> x \<le> c"
proof -
  have below: "x \<le> cs_ctx t" if "around sm t x r" "cs_ctx t < length sm" for t x r
    using called_in_le [OF ok that(1) [unfolded around_def] that(2)] by simp
  have "([cs_ctx s1 \<mapsto> cs_range s1]) x = Some r \<longleftrightarrow> around sm s1 x r \<and> cs_ctx s1 \<le> x" for x r
  proof (intro iffI)
    assume "([cs_ctx s1 \<mapsto> cs_range s1]) x = Some r"
    then have "x = cs_ctx s1" "r = cs_range s1" by (auto split: if_splits)
    then show "around sm s1 x r \<and> cs_ctx s1 \<le> x" using around_self [of sm s1] by simp
  next
    assume a: "around sm s1 x r \<and> cs_ctx s1 \<le> x"
    with below [OF _ s(1), of x r] have "x = cs_ctx s1" by simp
    have "s1 = \<lparr>cs_range = r, cs_ctx = x\<rparr>"
      by (rule called_in_unique [OF ok called_here _ s(1)]) (use a \<open>x = cs_ctx s1\<close> in \<open>simp_all add: around_def\<close>)
    then have "cs_range s1 = r" by (metis ctx_span.select_convs(1))
    with \<open>x = cs_ctx s1\<close> show "([cs_ctx s1 \<mapsto> cs_range s1]) x = Some r" by simp
  qed
  then have "\<forall>x r. ([cs_ctx s1 \<mapsto> cs_range s1]) x = Some r \<longleftrightarrow> around sm s1 x r \<and> cs_ctx s1 \<le> x" by blast
  from ancestors_loop_ok [OF ok s(1) called_here this] obtain A where
    A: "ancestors_loop sm (cs_ctx s1) [cs_ctx s1 \<mapsto> cs_range s1] = Some A" "\<forall>x r. A x = Some r \<longleftrightarrow> around sm s1 x r" by blast
  have "\<forall>x r1 r2. around sm s1 x r1 \<longrightarrow> around sm s2 x r2 \<longrightarrow> x \<le> cs_ctx s2" using below [OF _ s(2)] by blast
  from meet_loop_ok [OF ok s A(2) called_here this] obtain c r1 r2 where
    m: "meet_loop sm A (cs_ctx s2) (cs_range s2) = Some (c, r1, r2)" "around sm s1 c r1" "around sm s2 c r2"
       "\<forall>x q1 q2. around sm s1 x q1 \<longrightarrow> around sm s2 x q2 \<longrightarrow> x \<le> c" by blast
  have "SourceMap_lowest_common_parent sm s1 s2 = Some (c, r1, r2)"
    using A(1) m(1) by (simp add: SourceMap_lowest_common_parent_def)
  then show thesis using m(2-4) by (rule that)
qed

text \<open>Going on to an outer context.\<close>

lemma around_trans: "around sm s c r \<Longrightarrow> around sm \<lparr>cs_range = r, cs_ctx = c\<rparr> x q \<Longrightarrow> around sm s x q"
  unfolding around_def by (rule called_in_trans)

lemma around_inner:
  assumes "SourceMap_ok sm" "around sm s c r" "around sm s x q" "cs_ctx s < length sm" "x \<le> c"
  shows "around sm \<lparr>cs_range = r, cs_ctx = c\<rparr> x q"
  using called_in_chain [OF assms(1) assms(2,3) [unfolded around_def] assms(4)] assms(5) by (simp add: around_def)

lemma around_any_range:
  assumes "SourceMap_ok sm" "around sm \<lparr>cs_range = r, cs_ctx = c\<rparr> x q" "x \<noteq> c"
  shows "around sm \<lparr>cs_range = r', cs_ctx = c\<rparr> x q"
  using called_in_range [OF assms(1) assms(2) [unfolded around_def], of "\<lparr>cs_range = r', cs_ctx = c\<rparr>"] assms(3)
  by (simp add: around_def)

section \<open>Spans in one context\<close>

text \<open>
  What \<open>to_same_ctx\<close> has done before it looks at the index \<open>i\<close>: the spans from the last merge on are seen from the
  merged context, those before it will be overwritten by the merged span, and that context is the innermost one
  around all of them.
\<close>

definition merged :: "'r source_map \<Rightarrow> 'r ctx_span list \<Rightarrow> nat \<Rightarrow> nat \<times> 'r ctx_span \<Rightarrow> 'r ctx_span list \<Rightarrow> bool" where
  "merged sm orig i = (\<lambda>(m, t) spans. length spans = length orig \<and> m < i \<and> i \<le> length orig \<and>
     (\<forall>j < m. called_in sm (orig ! j) t) \<and>
     (\<forall>j. m \<le> j \<longrightarrow> j < i \<longrightarrow> cs_ctx (spans ! j) = cs_ctx t \<and> called_in sm (orig ! j) (spans ! j)) \<and>
     (\<forall>j. i \<le> j \<longrightarrow> j < length orig \<longrightarrow> spans ! j = orig ! j) \<and>
     (\<forall>x. (\<forall>j < i. \<exists>r. around sm (orig ! j) x r) \<longrightarrow> x \<le> cs_ctx t))"

lemma merged_around:
  assumes "merged sm orig i (m, t) spans" "j < i"
  shows "\<exists>r. around sm (orig ! j) (cs_ctx t) r"
proof (cases "j < m")
  case True
  with assms(1) have "called_in sm (orig ! j) t" by (simp add: merged_def)
  then show ?thesis by (intro exI [of _ "cs_range t"]) simp
next
  case False
  with assms have "cs_ctx (spans ! j) = cs_ctx t" "called_in sm (orig ! j) (spans ! j)" by (simp_all add: merged_def)
  then show ?thesis using around_span [of sm "orig ! j" "spans ! j"] by auto
qed

lemma same_ctx_step:
  assumes ok: "SourceMap_ok sm" and orig: "\<forall>s \<in> set orig. cs_ctx s < length sm"
    and inv: "merged sm orig i (m, t) spans" and i: "i < length orig" and ne: "cs_ctx (orig ! i) \<noteq> cs_ctx t"
  obtains c r1 r2 where "SourceMap_lowest_common_parent sm (orig ! i) (spans ! (i - 1)) = Some (c, r1, r2)"
    "merged sm orig (i + 1) (if c \<noteq> cs_ctx t then (i, \<lparr>cs_range = r2, cs_ctx = c\<rparr>) else (m, t)) (spans[i := \<lparr>cs_range = r1, cs_ctx = c\<rparr>])"
proof -
  let ?p = "spans ! (i - 1)"
  have mi: "m < i" "length spans = length orig" using inv by (auto simp: merged_def)
  have j: "cs_ctx (orig ! j) < length sm" if "j \<le> i" for j using orig i that by simp
  have pi: "cs_ctx ?p = cs_ctx t" "called_in sm (orig ! (i - 1)) ?p"
    using inv mi unfolding merged_def by auto
  then have p: "cs_ctx ?p = cs_ctx t" "around sm (orig ! (i - 1)) (cs_ctx t) (cs_range ?p)"
    using around_span [of sm "orig ! (i - 1)" ?p] by simp_all
  then have pl: "cs_ctx ?p < length sm"
    using called_in_le [OF ok pi(2) j] by simp
  obtain c r1 r2 where l: "SourceMap_lowest_common_parent sm (orig ! i) ?p = Some (c, r1, r2)"
    "around sm (orig ! i) c r1" "around sm ?p c r2" "\<forall>x q1 q2. around sm (orig ! i) x q1 \<longrightarrow> around sm ?p x q2 \<longrightarrow> x \<le> c"
    by (rule lowest_common_parent_ok [OF ok j [OF le_refl] pl])
  have eta: "\<lparr>cs_range = cs_range ?p, cs_ctx = cs_ctx t\<rparr> = ?p" unfolding p(1) [symmetric] by simp
  have outer: "around sm (orig ! k) c r2" if "c \<noteq> cs_ctx t" "k < i" for k
  proof -
    from merged_around [OF inv that(2)] obtain r where r: "around sm (orig ! k) (cs_ctx t) r" by blast
    have "around sm \<lparr>cs_range = cs_range ?p, cs_ctx = cs_ctx t\<rparr> c r2" using l(3) unfolding eta .
    from around_any_range [OF ok this that(1)] have "around sm \<lparr>cs_range = r, cs_ctx = cs_ctx t\<rparr> c r2" .
    with r show ?thesis by (rule around_trans)
  qed
  have least: "x \<le> c" if x: "\<forall>k < i + 1. \<exists>r. around sm (orig ! k) x r" for x
  proof -
    from x have "x \<le> cs_ctx t" using inv unfolding merged_def by simp
    moreover from x mi(1) obtain q where q: "around sm (orig ! (i - 1)) x q" by (metis less_imp_diff_less less_add_one)
    ultimately have "around sm \<lparr>cs_range = cs_range ?p, cs_ctx = cs_ctx t\<rparr> x q"
      using around_inner [OF ok p(2) q j] by simp
    then have "around sm ?p x q" unfolding eta .
    with l(4) x show ?thesis by (meson less_add_one)
  qed
  have new: "called_in sm (orig ! i) \<lparr>cs_range = r1, cs_ctx = c\<rparr>" using l(2) by (simp add: around_def)
  have outer': "called_in sm (orig ! k) \<lparr>cs_range = r2, cs_ctx = c\<rparr>" if "c \<noteq> cs_ctx t" "k < i" for k
    using outer [OF that] by (simp add: around_def)
  have "merged sm orig (i + 1) (if c \<noteq> cs_ctx t then (i, \<lparr>cs_range = r2, cs_ctx = c\<rparr>) else (m, t)) (spans[i := \<lparr>cs_range = r1, cs_ctx = c\<rparr>])"
  proof (cases "c = cs_ctx t")
    case True
    then show ?thesis using inv mi i new least unfolding merged_def by (auto simp: nth_list_update less_Suc_eq)
  next
    case False
    then show ?thesis using inv mi i new least outer' unfolding merged_def by (auto simp: nth_list_update less_Suc_eq)
  qed
  with l(1) show thesis by (rule that)
qed

lemma same_ctx_loop_ok:
  assumes "SourceMap_ok sm" "\<forall>s \<in> set orig. cs_ctx s < length sm" "merged sm orig i mt spans"
  shows "\<exists>mt' spans'. same_ctx_loop sm [i..<length orig] mt spans = Some (mt', spans') \<and> merged sm orig (length orig) mt' spans'"
  using assms(3)
proof (induction "length orig - i" arbitrary: i mt spans)
  case 0
  then have "i = length orig" unfolding merged_def by (auto simp: Let_def split_beta)
  with 0 show ?case by simp
next
  case (Suc n)
  obtain m t where mt: "mt = (m, t)" by fastforce
  from Suc.hyps(2) have i: "i < length orig" "n = length orig - (i + 1)" by simp_all
  have inv: "length spans = length orig" "spans ! i = orig ! i" "0 < i" using Suc.prems i(1) mt unfolding merged_def by auto
  have up: "[i..<length orig] = i # [i + 1..<length orig]" using i(1) by (simp add: upt_conv_Cons)
  show ?case
  proof (cases "cs_ctx (orig ! i) = cs_ctx t")
    case True
    then have "merged sm orig (i + 1) mt spans"
      using Suc.prems i inv mt called_here [of sm "orig ! i"] unfolding merged_def by (auto simp: less_Suc_eq)
    from Suc.hyps(1) [OF i(2) this] show ?thesis using True mt inv i(1) up by simp
  next
    case False
    from same_ctx_step [OF assms(1,2) Suc.prems [unfolded mt] i(1) False] obtain c r1 r2 where
      s: "SourceMap_lowest_common_parent sm (orig ! i) (spans ! (i - 1)) = Some (c, r1, r2)"
      "merged sm orig (i + 1) (if c \<noteq> cs_ctx t then (i, \<lparr>cs_range = r2, cs_ctx = c\<rparr>) else (m, t)) (spans[i := \<lparr>cs_range = r1, cs_ctx = c\<rparr>])" .
    from Suc.hyps(1) [OF i(2) s(2)] show ?thesis using False mt inv i(1) up s(1) by simp
  qed
qed

text \<open>C33: Bringing spans into one context is right. On a well-formed map, for any non-empty list of spans of its
contexts, \<open>to_same_ctx\<close> returns, every span is then the place in the one returned context at which the original
span was included or expanded (the span itself, if it was there), whatever merges happened on the way, and no
context further in contains all the original spans.\<close>
theorem to_same_ctx_innermost:
  assumes "SourceMap_ok sm" "spans \<noteq> []" "\<forall>s \<in> set spans. cs_ctx s < length sm"
  shows "\<exists>spans' c. SourceMap_to_same_ctx sm spans = Some (spans', c) \<and> length spans' = length spans \<and>
     (\<forall>j < length spans. cs_ctx (spans' ! j) = c \<and> called_in sm (spans ! j) (spans' ! j)) \<and>
     (\<forall>x. (\<forall>s \<in> set spans. \<exists>t. called_in sm s t \<and> cs_ctx t = x) \<longrightarrow> x \<le> c)"
proof -
  have n: "0 < length spans" using assms(2) by simp
  have "x \<le> cs_ctx (spans ! 0)" if "around sm (spans ! 0) x r" for x r
    using called_in_le [OF assms(1) that [unfolded around_def]] assms(3) n by simp
  then have "merged sm spans 1 (0, spans ! 0) spans"
    using n called_here [of sm "spans ! 0"] unfolding merged_def by (auto simp: Suc_le_eq)
  from same_ctx_loop_ok [OF assms(1,3) this] obtain m t spans' where l:
    "same_ctx_loop sm [1..<length spans] (0, spans ! 0) spans = Some ((m, t), spans')" "merged sm spans (length spans) (m, t) spans'"
    by auto
  let ?r = "replicate m t @ drop m spans'"
  have m: "m < length spans" "length spans' = length spans" using l(2) by (auto simp: merged_def)
  then have "SourceMap_to_same_ctx sm spans = Some (?r, cs_ctx t)" using l(1) n by (simp add: SourceMap_to_same_ctx_def)
  moreover have "cs_ctx (?r ! j) = cs_ctx t \<and> called_in sm (spans ! j) (?r ! j)" if j: "j < length spans" for j
  proof (cases "j < m")
    case True
    with l(2) show ?thesis by (simp add: merged_def nth_append)
  next
    case False
    with l(2) j m show ?thesis by (simp add: merged_def nth_append)
  qed
  moreover have "x \<le> cs_ctx t" if x: "\<forall>s \<in> set spans. \<exists>u. called_in sm s u \<and> cs_ctx u = x" for x
  proof -
    have "\<exists>r. around sm (spans ! j) x r" if "j < length spans" for j
    proof -
      from x that obtain u where "called_in sm (spans ! j) u" "cs_ctx u = x" by (meson nth_mem)
      then show ?thesis by (intro exI [of _ "cs_range u"]) auto
    qed
    with l(2) show ?thesis by (simp add: merged_def)
  qed
  ultimately show ?thesis using m by (intro exI [of _ ?r] exI [of _ "cs_ctx t"]) simp
qed

theorem to_same_ctx_innermost_witness:
  "\<exists>spans' c. SourceMap_to_same_ctx
       [\<lparr>sc_decl = \<lparr>fs_range = (0, 90), fs_file = 0\<rparr>, sc_call_site = None\<rparr>,
        \<lparr>sc_decl = \<lparr>fs_range = (0, 40), fs_file = 1\<rparr>, sc_call_site = Some \<lparr>cs_range = (10, 15), cs_ctx = 0\<rparr>\<rparr>,
        \<lparr>sc_decl = \<lparr>fs_range = (3, 9), fs_file = 1\<rparr>, sc_call_site = Some \<lparr>cs_range = (20, 22), cs_ctx = 1\<rparr>\<rparr>]
       [\<lparr>cs_range = (0, 2), cs_ctx = 2\<rparr>, \<lparr>cs_range = (30, 33), cs_ctx = 1\<rparr>, \<lparr>cs_range = (80, 81), cs_ctx = 0\<rparr>] =
       Some (spans' :: (nat \<times> nat) ctx_span list, c) \<and>
     length spans' = 3 \<and> (\<forall>j < 3. cs_ctx (spans' ! j) = c)"
proof -
  let ?sm = "[\<lparr>sc_decl = \<lparr>fs_range = (0, 90), fs_file = 0\<rparr>, sc_call_site = None\<rparr>,
        \<lparr>sc_decl = \<lparr>fs_range = (0, 40), fs_file = 1\<rparr>, sc_call_site = Some \<lparr>cs_range = (10, 15), cs_ctx = 0\<rparr>\<rparr>,
        \<lparr>sc_decl = \<lparr>fs_range = (3, 9), fs_file = 1\<rparr>, sc_call_site = Some \<lparr>cs_range = (20, 22), cs_ctx = 1\<rparr>\<rparr>] :: (nat \<times> nat) source_map"
  let ?ss = "[\<lparr>cs_range = (0, 2), cs_ctx = 2\<rparr>, \<lparr>cs_range = (30, 33), cs_ctx = 1\<rparr>, \<lparr>cs_range = (80, 81), cs_ctx = 0\<rparr>] :: (nat \<times> nat) ctx_span list"
  have "SourceMap_ok ?sm" by (auto simp: SourceMap_ok_def less_Suc_eq numeral_3_eq_3)
  moreover have "?ss \<noteq> []" "\<forall>s \<in> set ?ss. cs_ctx s < length ?sm" by simp_all
  ultimately have "\<exists>spans' c. SourceMap_to_same_ctx ?sm ?ss = Some (spans', c) \<and> length spans' = length ?ss \<and>
     (\<forall>j < length ?ss. cs_ctx (spans' ! j) = c \<and> called_in ?sm (?ss ! j) (spans' ! j)) \<and>
     (\<forall>x. (\<forall>s \<in> set ?ss. \<exists>t. called_in ?sm s t \<and> cs_ctx t = x) \<longrightarrow> x \<le> c)" by (rule to_same_ctx_innermost)
  then obtain spans' c where "SourceMap_to_same_ctx ?sm ?ss = Some (spans', c)" "length spans' = length ?ss"
    "\<forall>j < length ?ss. cs_ctx (spans' ! j) = c" by blast
  then show ?thesis by (intro exI [of _ spans'] exI [of _ c]) simp
qed

end
