(* ===== verification/Tree_Builder.thy ===== *)
theory Tree_Builder
  imports Source_Map Parser_Lossless
begin

text \<open>
  From the parser's steps to the syntax tree: \<^verbatim>\<open>openvaf/syntax/src/parsing.rs\<close> with
  \<^verbatim>\<open>parsing/tree_builder.rs\<close>, and the way back from a position of the tree to its source,
  \<open>Parse::to_ctx_span\<close> of \<^verbatim>\<open>openvaf/syntax/src/lib.rs\<close>. Three things are parameters: the crate \<^verbatim>\<open>text_size\<close>
  (\<open>text_ranges\<close>), the database's \<open>file_text\<close>, and the builder of the crate \<^verbatim>\<open>rowan\<close>. Of that builder only
  \<open>finish\<close> returns something, so the model keeps the calls made to it (\<open>green_call\<close>), and a function \<open>green\<close> of
  all the calls stands for what it returns. Texts are bytes of UTF-8.
\<close>

section \<open>Data\<close>

type_synonym text_bytes = "8 word list"

text \<open>Slicing a \<open>str\<close> panics out of range and inside a character.\<close>

definition is_char_boundary :: "text_bytes \<Rightarrow> nat \<Rightarrow> bool" where
  "is_char_boundary s i \<longleftrightarrow> i = length s \<or> i < length s \<and> s ! i AND 0xC0 \<noteq> 0x80"

definition str_slice :: "text_bytes \<Rightarrow> nat \<Rightarrow> nat \<Rightarrow> text_bytes panics" where
  "str_slice s a b = (if a \<le> b \<and> is_char_boundary s a \<and> is_char_boundary s b then slice_range s a b else None)"

record 'r va_token =
  tok_span :: "'r ctx_span"
  tok_kind :: syntax_kind

record 'r preprocessed =
  pp_ts :: "'r va_token list"
  pp_sm :: "'r source_map"

datatype green_call =
    GStart syntax_kind
  | GToken syntax_kind text_bytes
  | GFinish

datatype builder_state = PendingStart | NormalState | PendingFinish

text \<open>The variant \<open>UnexpectedToken\<close> of the enum \<open>SyntaxError\<close>, the only one the builder makes.\<close>

record 'r unexpected_token =
  ut_expected :: "syntax_kind list"
  ut_found :: syntax_kind
  ut_span :: 'r
  ut_panic_end :: "nat option"
  ut_expected_at :: "'r option"
  ut_missing_delimiter :: bool

type_synonym 'r ctx_entry = "'r \<times> source_context \<times> nat"

record 'r tree_builder =
  tb_tokens :: "'r va_token list"
  tb_text_pos :: nat
  tb_token_pos :: nat
  tb_state :: builder_state
  tb_errors :: "'r unexpected_token list"
  tb_last_error :: "'r unexpected_token option"
  tb_inner :: "green_call list"
  tb_db :: "file_id \<Rightarrow> text_bytes option"
  tb_current_src :: text_bytes
  tb_panic :: bool
  tb_err_depth :: nat
  tb_sm :: "'r source_map"
  tb_ranges :: "'r ctx_entry list"
  tb_current_range :: "'r ctx_span"

abbreviation (input) u32_MAX :: nat where "u32_MAX \<equiv> 4294967295"

definition Builder_new ::
  "'r text_ranges \<Rightarrow> (file_id \<Rightarrow> text_bytes option) \<Rightarrow> file_id \<Rightarrow> 'r va_token list \<Rightarrow> 'r source_map \<Rightarrow> 'r tree_builder" where
  "Builder_new R db root_file toks sm =
     (let current_src = (case db root_file of Some src \<Rightarrow> src | None \<Rightarrow> [])
      in \<lparr>tb_tokens = toks, tb_text_pos = 0, tb_token_pos = 0, tb_state = PendingStart, tb_errors = [], tb_last_error = None,
          tb_inner = [], tb_db = db, tb_current_src = current_src, tb_panic = False, tb_err_depth = u32_MAX, tb_sm = sm, tb_ranges = [],
          tb_current_range = \<lparr>cs_range = tr_empty R 0, cs_ctx = SourceContext_ROOT\<rparr>\<rparr>)"

definition green_push :: "green_call \<Rightarrow> 'r tree_builder \<Rightarrow> 'r tree_builder" where
  "green_push c self = self\<lparr>tb_inner := tb_inner self @ [c]\<rparr>"

section \<open>The builder\<close>

definition last_range_end :: "'r text_ranges \<Rightarrow> 'r ctx_entry list \<Rightarrow> nat" where
  "last_range_end R ranges = (if ranges = [] then 0 else tr_end R (fst (last ranges)))"

definition Builder_do_token :: "'r text_ranges \<Rightarrow> syntax_kind \<Rightarrow> 'r ctx_span \<Rightarrow> 'r tree_builder \<Rightarrow> 'r tree_builder panics" where
  "Builder_do_token R kind span self =
     (let cur = tb_current_range self;
          same_ctx = (cs_ctx span = cs_ctx cur);
          is_continuous = (same_ctx \<and> tr_start R (cs_range span) = tr_end R (cs_range cur))
      in do {
        self \<leftarrow> (if is_continuous
          then Some (self\<lparr>tb_current_range := \<lparr>cs_range = tr_cover R (cs_range cur) (cs_range span), cs_ctx = cs_ctx cur\<rparr>\<rparr>)
          else do {
            range \<leftarrow> tr_new R (last_range_end R (tb_ranges self)) (tb_text_pos self);
            Some (self\<lparr>tb_current_range := span,
              tb_ranges := tb_ranges self @ [(range, cs_ctx cur, tr_start R (cs_range cur))]\<rparr>)
          });
        self \<leftarrow> (if \<not> same_ctx then do {
            d \<leftarrow> SourceMap_ctx_data (tb_sm self) (cs_ctx span);
            src \<leftarrow> tb_db self (fs_file (sc_decl d));
            Some (self\<lparr>tb_current_src := src\<rparr>)
          } else Some self);
        f \<leftarrow> CtxSpan_to_file_span R span (tb_sm self);
        text \<leftarrow> str_slice (tb_current_src self) (tr_start R (fs_range f)) (tr_end R (fs_range f));
        tpos \<leftarrow> ts_add R (tb_text_pos self) (tr_len R (fs_range f));
        Some (green_push (GToken kind text) (self\<lparr>tb_text_pos := tpos, tb_token_pos := tb_token_pos self + 1\<rparr>))
      })"

partial_function (option) Builder_eat_trivia :: "'r text_ranges \<Rightarrow> 'r tree_builder \<Rightarrow> 'r tree_builder panics" where
  "Builder_eat_trivia R self =
     (case vec_get (tb_tokens self) (tb_token_pos self) of
        None \<Rightarrow> Some self
      | Some token \<Rightarrow>
          if \<not> SyntaxKind_is_trivia (tok_kind token) then Some self
          else do {
            self \<leftarrow> Builder_do_token R (tok_kind token) (tok_span token) self;
            Builder_eat_trivia R self
          })"

definition Builder_token :: "'r text_ranges \<Rightarrow> syntax_kind \<Rightarrow> 'r tree_builder \<Rightarrow> 'r tree_builder panics" where
  "Builder_token R kind self = do {
     self \<leftarrow> (case tb_state self of
         PendingStart \<Rightarrow> None
       | PendingFinish \<Rightarrow> Some (green_push GFinish (self\<lparr>tb_state := NormalState\<rparr>))
       | NormalState \<Rightarrow> Some self);
     self \<leftarrow> Builder_eat_trivia R self;
     token \<leftarrow> vec_get (tb_tokens self) (tb_token_pos self);
     let self = self\<lparr>tb_panic := tb_panic self \<and>
       (kind \<notin> {SEMICOLON, END_KW, ENDNATURE_KW, ENDMODULE_KW, ENDDISCIPLINE_KW, ENDFUNCTION_KW} \<or> tb_err_depth self \<noteq> u32_MAX)\<rparr>;
     Builder_do_token R kind (tok_span token) self
   }"

definition Builder_start_node :: "'r text_ranges \<Rightarrow> syntax_kind \<Rightarrow> 'r tree_builder \<Rightarrow> 'r tree_builder panics" where
  "Builder_start_node R kind self =
     (case tb_state self of
        PendingStart \<Rightarrow> Some (green_push (GStart kind) (self\<lparr>tb_state := NormalState\<rparr>))
      | st \<Rightarrow> do {
          let self = (if st = PendingFinish then green_push GFinish (self\<lparr>tb_state := NormalState\<rparr>) else self);
          self \<leftarrow> (if tb_err_depth self \<noteq> u32_MAX then Some (self\<lparr>tb_err_depth := tb_err_depth self + 1\<rparr>)
            else if kind = ERROR then Some (self\<lparr>tb_err_depth := 0\<rparr>)
            else Builder_eat_trivia R self);
          Some (green_push (GStart kind) self)
        })"

definition Builder_finish_node :: "'r text_ranges \<Rightarrow> 'r tree_builder \<Rightarrow> 'r tree_builder panics" where
  "Builder_finish_node R self = do {
     self \<leftarrow> (case tb_state self of
         PendingStart \<Rightarrow> None
       | PendingFinish \<Rightarrow> Some (green_push GFinish self)
       | NormalState \<Rightarrow> Some (self\<lparr>tb_state := PendingFinish\<rparr>));
     Some (if tb_err_depth self = 0 then
         (let self = (case tb_last_error self of
              Some err \<Rightarrow>
                let err = (if tr_end R (ut_span err) < tb_text_pos self then err\<lparr>ut_panic_end := Some (tb_text_pos self)\<rparr> else err)
                in self\<lparr>tb_last_error := None, tb_errors := tb_errors self @ [err]\<rparr>
            | None \<Rightarrow> self)
          in self\<lparr>tb_err_depth := u32_MAX\<rparr>)
       else if tb_err_depth self \<noteq> u32_MAX then self\<lparr>tb_err_depth := tb_err_depth self - 1\<rparr>
       else self)
   }"

fun sum_lens :: "'r text_ranges \<Rightarrow> 'r va_token list \<Rightarrow> nat \<Rightarrow> nat panics" where
  "sum_lens R [] acc = Some acc"
| "sum_lens R (t # ts) acc = do { acc \<leftarrow> ts_add R acc (tr_len R (cs_range (tok_span t))); sum_lens R ts acc }"

definition leading_trivia :: "'r va_token list \<Rightarrow> 'r va_token list" where
  "leading_trivia ts = takeWhile (\<lambda>t. SyntaxKind_is_trivia (tok_kind t)) ts"

text \<open>Where a delimiter was expected.\<close>

definition expected_at :: "'r text_ranges \<Rightarrow> syntax_error \<Rightarrow> nat \<Rightarrow> 'r option panics" where
  "expected_at R err tpos =
     (if SEMICOLON \<in> set (expected err) \<or> R_PAREN \<in> set (expected err) then do { r \<leftarrow> tr_at R tpos 0; Some (Some r) } else Some None)"

definition Builder_error :: "'r text_ranges \<Rightarrow> syntax_error \<Rightarrow> 'r tree_builder \<Rightarrow> 'r tree_builder panics" where
  "Builder_error R error self = do {
     _ \<leftarrow> rust_assert (tb_token_pos self \<le> length (tb_tokens self));
     let trivia = leading_trivia (drop (tb_token_pos self) (tb_tokens self));
     let n_trivia = length trivia;
     sum \<leftarrow> sum_lens R trivia 0;
     tpos \<leftarrow> ts_add R (tb_text_pos self) sum;
     let missing_delimiter = (found error = END_KW);
     if tb_token_pos self + n_trivia = length (tb_tokens self) then do {
       exp_at \<leftarrow> expected_at R error (tb_text_pos self);
       span \<leftarrow> tr_at R (tb_text_pos self)
         (if tb_tokens self = [] then 0 else tr_len R (cs_range (tok_span (last (tb_tokens self)))));
       Some (self\<lparr>tb_errors := tb_errors self @ [\<lparr>ut_expected = expected error, ut_found = found error, ut_span = span, ut_panic_end = None,
         ut_expected_at = exp_at, ut_missing_delimiter = missing_delimiter\<rparr>]\<rparr>)
     } else do {
       token \<leftarrow> vec_get (tb_tokens self) (tb_token_pos self + n_trivia);
       let len = tr_len R (cs_range (tok_span token));
       let panic = tb_panic self;
       let self = self\<lparr>tb_panic := True\<rparr>;
       if panic \<and> \<not> missing_delimiter \<or> tb_last_error self \<noteq> None then Some self
       else do {
         exp_at \<leftarrow> expected_at R error (tb_text_pos self);
         span \<leftarrow> tr_at R tpos len;
         Some (self\<lparr>tb_last_error := Some \<lparr>ut_expected = expected error, ut_found = found error, ut_span = span, ut_panic_end = None,
           ut_expected_at = exp_at, ut_missing_delimiter = missing_delimiter\<rparr>\<rparr>)
       }
     }
   }"

definition Builder_finish ::
  "'r text_ranges \<Rightarrow> (green_call list \<Rightarrow> 'g panics) \<Rightarrow> 'r tree_builder \<Rightarrow> ('g \<times> 'r unexpected_token list \<times> 'r ctx_entry list) panics" where
  "Builder_finish R green self = do {
     self \<leftarrow> (case tb_state self of
         PendingFinish \<Rightarrow> do { self \<leftarrow> Builder_eat_trivia R (self\<lparr>tb_state := NormalState\<rparr>); Some (green_push GFinish self) }
       | _ \<Rightarrow> None);
     range \<leftarrow> tr_new R (last_range_end R (tb_ranges self)) (tb_text_pos self);
     let ranges = tb_ranges self @ [(range, cs_ctx (tb_current_range self), tr_start R (cs_range (tb_current_range self)))];
     g \<leftarrow> green (tb_inner self);
     Some (g, tb_errors self, ranges)
   }"

definition Builder_step :: "'r text_ranges \<Rightarrow> step \<Rightarrow> 'r tree_builder \<Rightarrow> 'r tree_builder panics" where
  "Builder_step R s self =
     (case s of
        StepToken kind \<Rightarrow> Builder_token R kind self
      | StepEnter kind \<Rightarrow> Builder_start_node R kind self
      | StepExit \<Rightarrow> Builder_finish_node R self
      | StepError err \<Rightarrow> Builder_error R err self)"

text \<open>\<open>n\<close> is the fuel of the parser.\<close>

definition parse_text ::
  "'r text_ranges \<Rightarrow> (green_call list \<Rightarrow> 'g panics) \<Rightarrow> nat \<Rightarrow> (file_id \<Rightarrow> text_bytes option) \<Rightarrow> file_id \<Rightarrow> 'r preprocessed \<Rightarrow>
   ('g \<times> 'r unexpected_token list \<times> 'r ctx_entry list) panics" where
  "parse_text R green n sources root_file pp = do {
     let parser_tokens = map tok_kind (filter (\<lambda>t. \<not> SyntaxKind_is_trivia (tok_kind t)) (pp_ts pp));
     let builder = Builder_new R sources root_file (pp_ts pp) (pp_sm pp);
     out \<leftarrow> parser_parse n parser_tokens;
     steps \<leftarrow> Output_iter out;
     builder \<leftarrow> run_ops (Builder_step R) steps builder;
     Builder_finish R green builder
   }"

section \<open>Back to the source\<close>

text \<open>
  The \<open>binary_search_by\<close> of a slice, with the comparison of \<open>find_ctx_range\<close>; \<open>b - a\<close> is the size of what is
  left to search.
\<close>

function search_range :: "'r text_ranges \<Rightarrow> 'r ctx_entry list \<Rightarrow> nat \<Rightarrow> nat \<Rightarrow> nat \<Rightarrow> nat option" where
  "search_range R m tpos a b =
     (if a < b then
        let mid = a + (b - a) div 2; range = fst (m ! mid)
        in if tr_end R range \<le> tpos then search_range R m tpos (mid + 1) b
           else if tpos < tr_start R range then search_range R m tpos a mid
           else Some mid
      else None)"
  by auto
termination
  by (relation "measure (\<lambda>(R, m, tpos, a, b). b - a)") auto

declare search_range.simps [simp del]

definition Parse_find_ctx_range :: "'r text_ranges \<Rightarrow> 'r ctx_entry list \<Rightarrow> nat \<Rightarrow> 'r ctx_entry panics" where
  "Parse_find_ctx_range R ctx_map global_pos = do {
     i \<leftarrow> search_range R ctx_map global_pos 0 (length ctx_map);
     vec_get ctx_map i
   }"

definition Parse_ctx :: "'r text_ranges \<Rightarrow> 'r ctx_entry list \<Rightarrow> nat \<Rightarrow> (source_context \<times> nat) panics" where
  "Parse_ctx R ctx_map global_pos = do {
     (range, ctx, _) \<leftarrow> Parse_find_ctx_range R ctx_map global_pos;
     relative_pos \<leftarrow> ts_sub R global_pos (tr_start R range);
     Some (ctx, relative_pos)
   }"

definition Parse_to_ctx_span :: "'r text_ranges \<Rightarrow> 'r ctx_entry list \<Rightarrow> 'r \<Rightarrow> 'r source_map \<Rightarrow> 'r ctx_span panics" where
  "Parse_to_ctx_span R ctx_map rng sm = do {
     (ctx_range1, ctx1, offset1) \<leftarrow> Parse_find_ctx_range R ctx_map (tr_start R rng);
     if tr_end R rng \<le> tr_end R ctx_range1 then do {
       r \<leftarrow> tr_unshift R rng (tr_start R ctx_range1);
       r \<leftarrow> tr_shift R r offset1;
       Some \<lparr>cs_range = r, cs_ctx = ctx1\<rparr>
     } else do {
       (ctx_range2, ctx2, offset2) \<leftarrow> Parse_find_ctx_range R ctx_map (tr_end R rng);
       start \<leftarrow> ts_sub R (tr_start R rng) (tr_start R ctx_range1);
       start \<leftarrow> ts_add R start offset1;
       end \<leftarrow> ts_sub R (tr_end R rng) (tr_start R ctx_range2);
       end \<leftarrow> ts_add R end offset2;
       if ctx1 = ctx2 then do { r \<leftarrow> tr_new R start end; Some \<lparr>cs_range = r, cs_ctx = ctx1\<rparr> }
       else do {
         (ctx, range1, range2) \<leftarrow> SourceMap_lowest_common_parent sm
           \<lparr>cs_range = tr_empty R start, cs_ctx = ctx1\<rparr> \<lparr>cs_range = tr_empty R end, cs_ctx = ctx2\<rparr>;
         Some \<lparr>cs_range = tr_cover R range1 range2, cs_ctx = ctx\<rparr>
       }
     }
   }"

definition Parse_to_file_span :: "'r text_ranges \<Rightarrow> 'r ctx_entry list \<Rightarrow> 'r \<Rightarrow> 'r source_map \<Rightarrow> 'r file_span panics" where
  "Parse_to_file_span R ctx_map rng sm = do { s \<leftarrow> Parse_to_ctx_span R ctx_map rng sm; CtxSpan_to_file_span R s sm }"

end
