(* ===== verification/Tree_Builder_Spec.thy ===== *)
theory Tree_Builder_Spec
  imports Tree_Builder
begin

text \<open>
  The syntax tree holds every token, white space and comments included, with its own text, and the context map
  leads from every place of the tree back to the span the token came from.
\<close>

section \<open>Tokens and their texts\<close>

definition token_text :: "'r text_ranges \<Rightarrow> (file_id \<Rightarrow> text_bytes option) \<Rightarrow> 'r source_map \<Rightarrow> 'r va_token \<Rightarrow> text_bytes option" where
  "token_text R db sm t = do {
     d \<leftarrow> vec_get sm (cs_ctx (tok_span t));
     src \<leftarrow> db (fs_file (sc_decl d));
     f \<leftarrow> CtxSpan_to_file_span R (tok_span t) sm;
     str_slice src (tr_start R (fs_range f)) (tr_end R (fs_range f))
   }"

abbreviation token_len :: "'r text_ranges \<Rightarrow> 'r va_token \<Rightarrow> nat" where
  "token_len R t \<equiv> tr_len R (cs_range (tok_span t))"

definition offset_of :: "'r text_ranges \<Rightarrow> 'r va_token list \<Rightarrow> nat \<Rightarrow> nat" where
  "offset_of R toks k = sum_list (map (token_len R) (take k toks))"

text \<open>
  What the preprocessor delivers: spans of its contexts, inside the text these stand for, with file texts that
  were read before. The text of all tokens is shorter than 2 GiB.
\<close>

definition tokens_ok :: "'r text_ranges \<Rightarrow> (file_id \<Rightarrow> text_bytes option) \<Rightarrow> file_id \<Rightarrow> 'r va_token list \<Rightarrow> 'r source_map \<Rightarrow> bool" where
  "tokens_ok R db root toks sm \<longleftrightarrow> sm \<noteq> [] \<and> fs_file (sc_decl (sm ! 0)) = root \<and>
     (\<forall>t \<in> set toks. token_text R db sm t \<noteq> None) \<and> 2 * sum_list (map (token_len R) toks) < 2 ^ 32"

definition leaf_of :: "'r text_ranges \<Rightarrow> (file_id \<Rightarrow> text_bytes option) \<Rightarrow> 'r source_map \<Rightarrow> 'r va_token \<Rightarrow> syntax_kind \<times> text_bytes" where
  "leaf_of R db sm t = (tok_kind t, the (token_text R db sm t))"

lemma offset_0 [simp]: "offset_of R toks 0 = 0"
  by (simp add: offset_of_def)

lemma offset_Suc: "k < length toks \<Longrightarrow> offset_of R toks (Suc k) = offset_of R toks k + token_len R (toks ! k)"
  by (simp add: offset_of_def take_Suc_conv_app_nth)

lemma offset_all [simp]: "offset_of R toks (length toks) = sum_list (map (token_len R) toks)"
  by (simp add: offset_of_def)

lemma offset_mono: "k \<le> j \<Longrightarrow> offset_of R toks k \<le> offset_of R toks j"
proof -
  assume "k \<le> j"
  then obtain n where "j = k + n" using le_Suc_ex by blast
  then have "take j toks = take k toks @ take n (drop k toks)" by (simp add: take_add)
  then show ?thesis by (simp add: offset_of_def)
qed

lemma offset_le: "offset_of R toks k \<le> sum_list (map (token_len R) toks)"
proof (cases "k \<le> length toks")
  case True
  then show ?thesis using offset_mono [of k "length toks" R toks] by simp
qed (simp add: offset_of_def)

section \<open>The context map\<close>

text \<open>Ranges that follow each other from 0 to \<open>e\<close>.\<close>

fun tiled :: "'r text_ranges \<Rightarrow> nat \<Rightarrow> 'r ctx_entry list \<Rightarrow> nat \<Rightarrow> bool" where
  "tiled R a [] e \<longleftrightarrow> a = e"
| "tiled R a (m # ms) e \<longleftrightarrow> tr_start R (fst m) = a \<and> tiled R (tr_end R (fst m)) ms e"

text \<open>A piece of the tree of length \<open>n\<close> at \<open>o'\<close> that is the source from \<open>s\<close> of the context \<open>c\<close> on.\<close>

definition entry_covers :: "nat \<Rightarrow> nat \<Rightarrow> source_context \<Rightarrow> nat \<Rightarrow> nat \<times> nat \<times> source_context \<times> nat \<Rightarrow> bool" where
  "entry_covers o' n c s = (\<lambda>(a, e, ctx, start). a \<le> o' \<and> o' + n \<le> e \<and> ctx = c \<and> s = start + (o' - a))"

definition entry_of :: "'r text_ranges \<Rightarrow> 'r ctx_entry \<Rightarrow> nat \<times> nat \<times> source_context \<times> nat" where
  "entry_of R m = (tr_start R (fst m), tr_end R (fst m), fst (snd m), snd (snd m))"

lemma tiled_snoc: "tiled R a ms e \<Longrightarrow> tr_start R (fst m) = e \<Longrightarrow> tiled R a (ms @ [m]) (tr_end R (fst m))"
  by (induction ms arbitrary: a) auto

lemma tiled_last: "tiled R 0 ms e \<Longrightarrow> last_range_end R ms = e"
proof -
  have "ms \<noteq> [] \<Longrightarrow> tiled R a ms e \<Longrightarrow> tr_end R (fst (last ms)) = e" for a
    by (induction ms arbitrary: a) (auto split: if_splits)
  then show "tiled R 0 ms e \<Longrightarrow> last_range_end R ms = e" by (cases "ms = []") (auto simp: last_range_end_def)
qed

lemma tiled_le: "text_ranges_spec R \<Longrightarrow> tiled R a ms e \<Longrightarrow> a \<le> e"
  by (induction ms arbitrary: a) (auto, meson le_trans text_rangesD(1))

lemma tiled_bounds:
  assumes R: "text_ranges_spec R" and t: "tiled R a ms e" "i < length ms"
  shows "a \<le> tr_start R (fst (ms ! i)) \<and> tr_end R (fst (ms ! i)) \<le> e"
  using t
proof (induction ms arbitrary: a i)
  case (Cons m ms)
  have m: "a \<le> tr_end R (fst m)" using Cons.prems(1) text_rangesD(1) [OF R, of "fst m"] by simp
  show ?case
  proof (cases i)
    case 0
    then show ?thesis using Cons.prems tiled_le [OF R] by auto
  next
    case (Suc j)
    with Cons.IH [of "tr_end R (fst m)" j] Cons.prems m show ?thesis by auto
  qed
qed simp

lemma tiled_order:
  assumes R: "text_ranges_spec R" and t: "tiled R a ms e" "i < j" "j < length ms"
  shows "tr_end R (fst (ms ! i)) \<le> tr_start R (fst (ms ! j))"
  using t
proof (induction ms arbitrary: a i j)
  case (Cons m ms)
  then obtain j' where j': "j = Suc j'" by (cases j) auto
  show ?case
  proof (cases i)
    case 0
    then show ?thesis using tiled_bounds [OF R, of "tr_end R (fst m)" ms e j'] Cons.prems j' by simp
  next
    case (Suc i')
    with Cons.IH [of "tr_end R (fst m)" i' j'] Cons.prems j' show ?thesis by simp
  qed
qed simp

lemma search_range_ok:
  assumes R: "text_ranges_spec R" and t: "tiled R 0 ms e" and j: "a \<le> j" "j < b" "b \<le> length ms"
    and at: "tr_start R (fst (ms ! j)) \<le> tpos" "tpos < tr_end R (fst (ms ! j))"
  shows "search_range R ms tpos a b = Some j"
  using j
proof (induction "b - a" arbitrary: a b rule: less_induct)
  case less
  let ?m = "a + (b - a) div 2"
  have m: "a \<le> ?m" "?m < b" "a < b" using less.prems by linarith+
  consider "?m < j" | "?m = j" | "j < ?m" by linarith
  then show ?case
  proof cases
    case 1
    then have "tr_end R (fst (ms ! ?m)) \<le> tpos" using tiled_order [OF R t 1] less.prems at by simp
    moreover have "search_range R ms tpos (?m + 1) b = Some j" using less.hyps [of b "?m + 1"] 1 m less.prems by simp
    ultimately show ?thesis using m by (subst search_range.simps) (simp add: Let_def)
  next
    case 2
    with at m show ?thesis by (subst search_range.simps) (simp add: Let_def not_le)
  next
    case 3
    have "tr_end R (fst (ms ! j)) \<le> tr_start R (fst (ms ! ?m))" using tiled_order [OF R t 3] m less.prems by simp
    with at have lt: "tpos < tr_start R (fst (ms ! ?m))" by simp
    with text_rangesD(1) [OF R, of "fst (ms ! ?m)"] have "\<not> tr_end R (fst (ms ! ?m)) \<le> tpos" by simp
    moreover have "search_range R ms tpos a ?m = Some j" using less.hyps [of ?m a] 3 m less.prems by simp
    ultimately show ?thesis using m lt by (subst search_range.simps) (simp add: Let_def)
  qed
qed

lemma search_range_past:
  assumes R: "text_ranges_spec R" and t: "tiled R 0 ms e" and "e \<le> tpos" "b \<le> length ms"
  shows "search_range R ms tpos a b = None"
  using assms(4)
proof (induction "b - a" arbitrary: a rule: less_induct)
  case less
  let ?m = "a + (b - a) div 2"
  show ?case
  proof (cases "a < b")
    case True
    then have m: "?m < b" by linarith
    then have "tr_end R (fst (ms ! ?m)) \<le> tpos" using tiled_bounds [OF R t, of ?m] less.prems assms(3) by simp
    with less.hyps [of "?m + 1"] True m less.prems show ?thesis by (subst search_range.simps) (simp add: Let_def)
  qed (simp add: search_range.simps)
qed

section \<open>The state of the builder\<close>

text \<open>The builder has passed \<open>k\<close> tokens.\<close>

definition passed ::
  "'r text_ranges \<Rightarrow> (file_id \<Rightarrow> text_bytes option) \<Rightarrow> 'r va_token list \<Rightarrow> 'r source_map \<Rightarrow> nat \<Rightarrow> 'r tree_builder \<Rightarrow> bool" where
  "passed R db toks sm k b \<longleftrightarrow> tb_tokens b = toks \<and> tb_db b = db \<and> tb_sm b = sm \<and> tb_token_pos b = k \<and> k \<le> length toks \<and>
     tb_text_pos b = offset_of R toks k \<and>
     (\<forall>d src. vec_get sm (cs_ctx (tb_current_range b)) = Some d \<longrightarrow> db (fs_file (sc_decl d)) = Some src \<longrightarrow> tb_current_src b = src) \<and>
     (\<exists>e. tiled R 0 (tb_ranges b) e \<and> e \<le> tb_text_pos b \<and>
       tr_end R (cs_range (tb_current_range b)) = tr_start R (cs_range (tb_current_range b)) + (tb_text_pos b - e) \<and>
       (\<forall>i < k. \<exists>m \<in> insert (e, tb_text_pos b, cs_ctx (tb_current_range b), tr_start R (cs_range (tb_current_range b)))
                        (entry_of R ` set (tb_ranges b)).
          entry_covers (offset_of R toks i) (token_len R (toks ! i)) (cs_ctx (tok_span (toks ! i)))
            (tr_start R (cs_range (tok_span (toks ! i)))) m))"

text \<open>What a token leaves as it is.\<close>

definition steady :: "'r tree_builder \<Rightarrow> 'r tree_builder \<Rightarrow> bool" where
  "steady b c \<longleftrightarrow> tb_state c = tb_state b \<and> tb_errors c = tb_errors b \<and> tb_last_error c = tb_last_error b \<and>
     tb_panic c = tb_panic b \<and> tb_err_depth c = tb_err_depth b"

lemma steady_trans: "steady b c \<Longrightarrow> steady c d \<Longrightarrow> steady b d"
  by (simp add: steady_def)

lemma steady_refl [simp]: "steady b b"
  by (simp add: steady_def)

lemma token_textD:
  assumes R: "text_ranges_spec R" and t: "token_text R db sm t = Some tx"
  obtains d src f where "vec_get sm (cs_ctx (tok_span t)) = Some d" "db (fs_file (sc_decl d)) = Some src"
    "CtxSpan_to_file_span R (tok_span t) sm = Some f" "str_slice src (tr_start R (fs_range f)) (tr_end R (fs_range f)) = Some tx"
    "tr_len R (fs_range f) = token_len R t"
proof -
  from t obtain d src f where *: "vec_get sm (cs_ctx (tok_span t)) = Some d" "db (fs_file (sc_decl d)) = Some src"
    "CtxSpan_to_file_span R (tok_span t) sm = Some f" "str_slice src (tr_start R (fs_range f)) (tr_end R (fs_range f)) = Some tx"
    unfolding token_text_def bind_eq_Some_conv by blast
  from *(3) obtain k where "tr_shift R (cs_range (tok_span t)) k = Some (fs_range f)"
    by (auto simp: CtxSpan_to_file_span_def FileSpan_with_subrange_def bind_eq_Some_conv)
  from text_rangesD(11) [OF R this] have "tr_len R (fs_range f) = token_len R t" by (simp add: text_rangesD(3) [OF R])
  with * show thesis by (rule that)
qed

lemma entry_covers_longer: "entry_covers o' n c s (a, e, ctx, start) \<Longrightarrow> e \<le> e' \<Longrightarrow> entry_covers o' n c s (a, e', ctx, start)"
  by (simp add: entry_covers_def)

lemma do_token_ok:
  assumes R: "text_ranges_spec R" and toks: "tokens_ok R db root toks sm" and b: "passed R db toks sm k b" and k: "k < length toks"
  obtains c where "Builder_do_token R kind (tok_span (toks ! k)) b = Some c" "passed R db toks sm (Suc k) c"
    "tb_inner c = tb_inner b @ [GToken kind (snd (leaf_of R db sm (toks ! k)))]" "steady b c"
proof -
  let ?t = "toks ! k"
  let ?s = "cs_range (tok_span ?t)"
  let ?cur = "tb_current_range b" and ?n = "token_len R ?t" and ?o = "offset_of R toks"
  from toks k obtain tx where tx: "token_text R db sm ?t = Some tx" by (fastforce simp: tokens_ok_def)
  then have leaf: "snd (leaf_of R db sm ?t) = tx" by (simp add: leaf_of_def)
  from token_textD [OF R tx] obtain d src f where d: "vec_get sm (cs_ctx (tok_span ?t)) = Some d" "db (fs_file (sc_decl d)) = Some src"
    "CtxSpan_to_file_span R (tok_span ?t) sm = Some f" "str_slice src (tr_start R (fs_range f)) (tr_end R (fs_range f)) = Some tx"
    "tr_len R (fs_range f) = ?n" .
  have o': "?o (Suc k) = ?o k + ?n" by (rule offset_Suc [OF k])
  have small: "?o (Suc k) < 2 ^ 32" using offset_le [of R toks "Suc k"] toks unfolding tokens_ok_def by linarith
  have bs: "tb_tokens b = toks" "tb_db b = db" "tb_sm b = sm" "tb_token_pos b = k" "tb_text_pos b = ?o k"
    using b unfolding passed_def by blast+
  from b obtain e where e: "tiled R 0 (tb_ranges b) e" "e \<le> ?o k"
    "tr_end R (cs_range ?cur) = tr_start R (cs_range ?cur) + (?o k - e)"
    "\<forall>i < k. \<exists>m \<in> insert (e, ?o k, cs_ctx ?cur, tr_start R (cs_range ?cur)) (entry_of R ` set (tb_ranges b)).
          entry_covers (?o i) (token_len R (toks ! i)) (cs_ctx (tok_span (toks ! i))) (tr_start R (cs_range (tok_span (toks ! i)))) m"
    unfolding passed_def by auto
  have s: "tr_start R ?s + ?n = tr_end R ?s" using text_rangesD(1,3) [OF R, of ?s] by simp
  have add: "ts_add R (?o k) ?n = Some (?o (Suc k))" using text_rangesD(13) [OF R, of "?o k" ?n] small o' by simp
  have src: "tb_current_src b = src" if "cs_ctx (tok_span ?t) = cs_ctx ?cur"
    using b d(1,2) that unfolding passed_def by simp
  show thesis
  proof (cases "cs_ctx (tok_span ?t) = cs_ctx ?cur \<and> tr_start R ?s = tr_end R (cs_range ?cur)")
    case True
    note continuous = True
    let ?new = "\<lparr>cs_range = tr_cover R (cs_range ?cur) ?s, cs_ctx = cs_ctx ?cur\<rparr>"
    let ?c = "green_push (GToken kind tx) (b\<lparr>tb_current_range := ?new, tb_text_pos := ?o (Suc k), tb_token_pos := Suc k\<rparr>)"
    have new: "tr_start R (cs_range ?new) = tr_start R (cs_range ?cur)" "tr_end R (cs_range ?new) = tr_end R ?s"
      using True text_rangesD(1,8,9) [OF R] text_rangesD(1) [OF R, of ?s] text_rangesD(1) [OF R, of "cs_range ?cur"] by simp_all
    have "Builder_do_token R kind (tok_span ?t) b = Some ?c"
      using True d(3-5) bs add src by (simp add: Builder_do_token_def Let_def)
    moreover have "\<exists>m \<in> insert (e, ?o (Suc k), cs_ctx ?cur, tr_start R (cs_range ?cur)) (entry_of R ` set (tb_ranges b)).
          entry_covers (?o i) (token_len R (toks ! i)) (cs_ctx (tok_span (toks ! i))) (tr_start R (cs_range (tok_span (toks ! i)))) m"
      if i: "i < Suc k" for i
    proof (cases "i = k")
      case True
      then show ?thesis using continuous e(2,3) o' by (intro bexI [OF _ insertI1]) (auto simp: entry_covers_def)
    next
      case False
      with i have "i < k" by simp
      with e(4) obtain m where m: "m \<in> insert (e, ?o k, cs_ctx ?cur, tr_start R (cs_range ?cur)) (entry_of R ` set (tb_ranges b))"
        "entry_covers (?o i) (token_len R (toks ! i)) (cs_ctx (tok_span (toks ! i))) (tr_start R (cs_range (tok_span (toks ! i)))) m" by blast
      then show ?thesis using entry_covers_longer [where e = "?o k" and e' = "?o (Suc k)"] o' by auto
    qed
    then have "passed R db toks sm (Suc k) ?c"
      using b e new s True k o' unfolding passed_def green_push_def by (intro conjI) (auto intro!: exI [of _ e])
    ultimately show thesis using that leaf by (simp add: green_push_def steady_def)
  next
    case False
    from text_rangesD(4) [OF R e(2)] small o' obtain r where
      r: "tr_new R e (?o k) = Some r" "tr_start R r = e" "tr_end R r = ?o k" by auto
    let ?m = "(r, cs_ctx ?cur, tr_start R (cs_range ?cur))"
    let ?c = "green_push (GToken kind tx) (b\<lparr>tb_current_range := tok_span ?t, tb_ranges := tb_ranges b @ [?m], tb_current_src := src,
      tb_text_pos := ?o (Suc k), tb_token_pos := Suc k\<rparr>)"
    have dt: "Builder_do_token R kind (tok_span ?t) b = Some ?c"
      using False d bs add src r(1) tiled_last [OF e(1)] unfolding Builder_do_token_def Let_def SourceMap_ctx_data_def
      by (cases "cs_ctx (tok_span ?t) = cs_ctx ?cur"; cases b) simp_all
    have "\<exists>m \<in> insert (?o k, ?o (Suc k), cs_ctx (tok_span ?t), tr_start R ?s) (entry_of R ` set (tb_ranges b @ [?m])).
          entry_covers (?o i) (token_len R (toks ! i)) (cs_ctx (tok_span (toks ! i))) (tr_start R (cs_range (tok_span (toks ! i)))) m"
      if i: "i < Suc k" for i
    proof (cases "i = k")
      case True
      then show ?thesis using o' by (intro bexI [OF _ insertI1]) (auto simp: entry_covers_def)
    next
      case False
      have "entry_of R ?m = (e, ?o k, cs_ctx ?cur, tr_start R (cs_range ?cur))" using r by (simp add: entry_of_def)
      with False i e(4) show ?thesis by (fastforce simp: less_Suc_eq)
    qed
    moreover have "tiled R 0 (tb_ranges b @ [?m]) (?o k)" using tiled_snoc [OF e(1), of ?m] r by simp
    ultimately have "passed R db toks sm (Suc k) ?c"
      using b s k o' d(1,2) unfolding passed_def green_push_def by (intro conjI) (auto intro!: exI [of _ "?o k"])
    with dt show thesis using that leaf by (simp add: green_push_def steady_def)
  qed
qed

section \<open>Trees\<close>

datatype green_tree =
    GNode syntax_kind "green_tree list"
  | GLeaf syntax_kind text_bytes

primrec green_calls :: "green_tree \<Rightarrow> green_call list" where
  "green_calls (GNode k ts) = GStart k # concat (map green_calls ts) @ [GFinish]"
| "green_calls (GLeaf k s) = [GToken k s]"

primrec green_leaves :: "green_tree \<Rightarrow> (syntax_kind \<times> text_bytes) list" where
  "green_leaves (GNode k ts) = concat (map green_leaves ts)"
| "green_leaves (GLeaf k s) = [(k, s)]"

text \<open>The parser's tree: without white space, comments and errors.\<close>

primrec green_strip :: "green_tree \<Rightarrow> syntax_tree list" where
  "green_strip (GNode k ts) = [Node k (concat (map green_strip ts))]"
| "green_strip (GLeaf k s) = (if SyntaxKind_is_trivia k then [] else [Leaf k])"

primrec drop_errors :: "syntax_tree \<Rightarrow> syntax_tree list" where
  "drop_errors (Node k ts) = [Node k (concat (map drop_errors ts))]"
| "drop_errors (Leaf k) = [Leaf k]"
| "drop_errors (ErrLeaf e) = []"

abbreviation "forest_calls gs \<equiv> concat (map green_calls gs)"
abbreviation "forest_leaves gs \<equiv> concat (map green_leaves gs)"
abbreviation "forest_strip gs \<equiv> concat (map green_strip gs)"

definition leaf_tree :: "'r text_ranges \<Rightarrow> (file_id \<Rightarrow> text_bytes option) \<Rightarrow> 'r source_map \<Rightarrow> 'r va_token \<Rightarrow> green_tree" where
  "leaf_tree R db sm t = GLeaf (tok_kind t) (snd (leaf_of R db sm t))"

definition syntax_kinds :: "'r va_token list \<Rightarrow> syntax_kind list" where
  "syntax_kinds ts = map tok_kind (filter (\<lambda>t. \<not> SyntaxKind_is_trivia (tok_kind t)) ts)"

lemma leaf_tree_simps [simp]:
  "green_calls (leaf_tree R db sm t) = [GToken (tok_kind t) (snd (leaf_of R db sm t))]"
  "green_leaves (leaf_tree R db sm t) = [leaf_of R db sm t]"
  "green_strip (leaf_tree R db sm t) = (if SyntaxKind_is_trivia (tok_kind t) then [] else [Leaf (tok_kind t)])"
  by (simp_all add: leaf_tree_def leaf_of_def)

lemma forest_leaf_trees:
  "forest_leaves (map (leaf_tree R db sm) ts) = map (leaf_of R db sm) ts"
  "(\<forall>t \<in> set ts. SyntaxKind_is_trivia (tok_kind t)) \<Longrightarrow> forest_strip (map (leaf_tree R db sm) ts) = []"
  by (induction ts) auto

section \<open>Steps\<close>

text \<open>All calls so far, with the one that is still to be made.\<close>

definition calls_made :: "'r tree_builder \<Rightarrow> green_call list" where
  "calls_made b = tb_inner b @ (if tb_state b = PendingFinish then [GFinish] else [])"

lemma calls_made_Normal: "tb_state b = NormalState \<Longrightarrow> calls_made b = tb_inner b"
  by (simp add: calls_made_def)

lemma eat_trivia_ok:
  assumes R: "text_ranges_spec R" and toks: "tokens_ok R db root toks sm" and b: "passed R db toks sm k b"
  obtains c where "Builder_eat_trivia R b = Some c" "passed R db toks sm (k + length (leading_trivia (drop k toks))) c"
    "tb_inner c = tb_inner b @ forest_calls (map (leaf_tree R db sm) (leading_trivia (drop k toks)))" "steady b c"
proof -
  have "\<exists>c. Builder_eat_trivia R b = Some c \<and> passed R db toks sm (k + length (leading_trivia (drop k toks))) c \<and>
    tb_inner c = tb_inner b @ forest_calls (map (leaf_tree R db sm) (leading_trivia (drop k toks))) \<and> steady b c"
    using b
  proof (induction "length toks - k" arbitrary: k b)
    case 0
    then have "tb_token_pos b = length toks" "tb_tokens b = toks" "k = length toks" unfolding passed_def by auto
    then show ?case using 0 by (subst Builder_eat_trivia.simps) (simp add: leading_trivia_def)
  next
    case (Suc n)
    have bs: "tb_tokens b = toks" "tb_token_pos b = k" using Suc.prems unfolding passed_def by blast+
    have k: "k < length toks" "n = length toks - Suc k" using Suc.hyps(2) by simp_all
    have dr: "drop k toks = toks ! k # drop (Suc k) toks" using k(1) by (simp add: Cons_nth_drop_Suc)
    show ?case
    proof (cases "SyntaxKind_is_trivia (tok_kind (toks ! k))")
      case True
      obtain c where c: "Builder_do_token R (tok_kind (toks ! k)) (tok_span (toks ! k)) b = Some c" "passed R db toks sm (Suc k) c"
        "tb_inner c = tb_inner b @ [GToken (tok_kind (toks ! k)) (snd (leaf_of R db sm (toks ! k)))]" "steady b c"
        by (rule do_token_ok [OF R toks Suc.prems k(1)])
      from Suc.hyps(1) [OF k(2) c(2)] obtain d where d: "Builder_eat_trivia R c = Some d"
        "passed R db toks sm (Suc k + length (leading_trivia (drop (Suc k) toks))) d"
        "tb_inner d = tb_inner c @ forest_calls (map (leaf_tree R db sm) (leading_trivia (drop (Suc k) toks)))" "steady c d" by blast
      have "leading_trivia (drop k toks) = toks ! k # leading_trivia (drop (Suc k) toks)"
        using True by (simp add: leading_trivia_def dr)
      moreover have "Builder_eat_trivia R b = Some d"
        using True k(1) bs c(1) d(1) by (subst Builder_eat_trivia.simps) simp
      ultimately show ?thesis using c(3) d steady_trans [OF c(4) d(4)] by simp
    next
      case False
      then have "leading_trivia (drop k toks) = []" by (simp add: leading_trivia_def dr)
      with False k(1) bs Suc.prems show ?thesis by (subst Builder_eat_trivia.simps) simp
    qed
  qed
  then show thesis by (elim exE conjE) (rule that)
qed

lemma syntax_kinds_drop:
  assumes "syntax_kinds (drop k toks) = s # rest" "k \<le> length toks"
  defines "j \<equiv> k + length (leading_trivia (drop k toks))"
  shows "j < length toks" "tok_kind (toks ! j) = s" "\<not> SyntaxKind_is_trivia s" "syntax_kinds (drop (Suc j) toks) = rest"
    "take (Suc j) toks = take k toks @ leading_trivia (drop k toks) @ [toks ! j]"
proof -
  let ?P = "\<lambda>t. SyntaxKind_is_trivia (tok_kind t)"
  let ?d = "drop k toks"
  have split: "?d = takeWhile ?P ?d @ dropWhile ?P ?d" by simp
  have "syntax_kinds (takeWhile ?P ?d) = []" unfolding syntax_kinds_def by (auto simp: filter_empty_conv dest: set_takeWhileD)
  moreover have "syntax_kinds ?d = syntax_kinds (takeWhile ?P ?d) @ syntax_kinds (dropWhile ?P ?d)"
    unfolding syntax_kinds_def by (metis filter_append map_append split)
  ultimately have sk: "syntax_kinds (dropWhile ?P ?d) = s # rest" using assms(1) by simp
  then obtain t ts where d: "dropWhile ?P ?d = t # ts" by (cases "dropWhile ?P ?d") (auto simp: syntax_kinds_def)
  then have nt: "\<not> ?P t" by (metis hd_dropWhile list.sel(1) list.distinct(1))
  with sk d have t: "tok_kind t = s" "syntax_kinds ts = rest" by (simp_all add: syntax_kinds_def)
  have dj: "drop j toks = t # ts"
  proof -
    have "drop j toks = drop (length (takeWhile ?P ?d)) ?d" by (simp add: j_def leading_trivia_def add.commute)
    also have "\<dots> = t # ts" using d by (simp add: dropWhile_eq_drop)
    finally show ?thesis .
  qed
  show j: "j < length toks" using dj by (metis drop_all list.distinct(1) not_le)
  then have "drop j toks = toks ! j # drop (Suc j) toks" by (simp add: Cons_nth_drop_Suc)
  with dj have tj: "toks ! j = t" "drop (Suc j) toks = ts" by simp_all
  show "tok_kind (toks ! j) = s" unfolding tj(1) by (rule t(1))
  show "\<not> SyntaxKind_is_trivia s" using nt unfolding t(1) .
  show "syntax_kinds (drop (Suc j) toks) = rest" unfolding tj(2) by (rule t(2))
  have "take j toks = take k toks @ take (length (leading_trivia ?d)) ?d" unfolding j_def by (simp add: take_add)
  also have "take (length (leading_trivia ?d)) ?d = leading_trivia ?d"
    unfolding leading_trivia_def by (rule takeWhile_eq_take [symmetric])
  finally show "take (Suc j) toks = take k toks @ leading_trivia ?d @ [toks ! j]" using j by (simp add: take_Suc_conv_app_nth)
qed

text \<open>What a step does: calls, the tokens passed, and the depth inside errors.\<close>

definition builds_forest ::
  "'r text_ranges \<Rightarrow> (file_id \<Rightarrow> text_bytes option) \<Rightarrow> 'r va_token list \<Rightarrow> 'r source_map \<Rightarrow> nat \<Rightarrow> 'r tree_builder \<Rightarrow> nat \<Rightarrow> 'r tree_builder \<Rightarrow>
   syntax_tree list \<Rightarrow> bool" where
  "builds_forest R db toks sm k b j c us \<longleftrightarrow> passed R db toks sm j c \<and> tb_state c \<noteq> PendingStart \<and> tb_err_depth c = tb_err_depth b \<and>
     (\<exists>gs. calls_made c = calls_made b @ forest_calls gs \<and> forest_strip gs = us \<and>
       map (leaf_of R db sm) (take j toks) = map (leaf_of R db sm) (take k toks) @ forest_leaves gs)"

lemma builds_forest_trans:
  assumes "builds_forest R db toks sm k b j c us" "builds_forest R db toks sm j c i d vs"
  shows "builds_forest R db toks sm k b i d (us @ vs)"
proof -
  from assms obtain gs hs where
    "calls_made c = calls_made b @ forest_calls gs" "forest_strip gs = us"
    "map (leaf_of R db sm) (take j toks) = map (leaf_of R db sm) (take k toks) @ forest_leaves gs"
    "calls_made d = calls_made c @ forest_calls hs" "forest_strip hs = vs"
    "map (leaf_of R db sm) (take i toks) = map (leaf_of R db sm) (take j toks) @ forest_leaves hs"
    unfolding builds_forest_def by blast
  then have "\<exists>gs. calls_made d = calls_made b @ forest_calls gs \<and> forest_strip gs = us @ vs \<and>
       map (leaf_of R db sm) (take i toks) = map (leaf_of R db sm) (take k toks) @ forest_leaves gs"
    by (intro exI [of _ "gs @ hs"]) simp
  with assms show ?thesis unfolding builds_forest_def by simp
qed

text \<open>Making the call that is still to be made changes nothing.\<close>

lemma passed_inner [simp]: "passed R db toks sm k (b\<lparr>tb_inner := cs\<rparr>) = passed R db toks sm k b"
  "passed R db toks sm k (b\<lparr>tb_state := st\<rparr>) = passed R db toks sm k b"
  "passed R db toks sm k (b\<lparr>tb_panic := p\<rparr>) = passed R db toks sm k b"
  "passed R db toks sm k (b\<lparr>tb_err_depth := n\<rparr>) = passed R db toks sm k b"
  "passed R db toks sm k (b\<lparr>tb_last_error := le\<rparr>) = passed R db toks sm k b"
  "passed R db toks sm k (b\<lparr>tb_errors := es\<rparr>) = passed R db toks sm k b"
  by (simp_all add: passed_def)

lemma passed_push [simp]: "passed R db toks sm k (green_push c b) = passed R db toks sm k b"
  by (simp add: green_push_def)

definition settled :: "'r tree_builder \<Rightarrow> 'r tree_builder" where
  "settled b = (if tb_state b = PendingFinish then green_push GFinish (b\<lparr>tb_state := NormalState\<rparr>) else b)"

lemma settled_simps [simp]:
  "passed R db toks sm k (settled b) = passed R db toks sm k b" "tb_inner (settled b) = calls_made b"
  "tb_err_depth (settled b) = tb_err_depth b" "tb_state b \<noteq> PendingStart \<Longrightarrow> tb_state (settled b) = NormalState"
  "tb_panic (settled b) = tb_panic b"
  by (cases "tb_state b"; simp add: settled_def calls_made_def green_push_def)+

lemma token_step_ok:
  assumes R: "text_ranges_spec R" and toks: "tokens_ok R db root toks sm" and b: "passed R db toks sm k b" and st: "tb_state b \<noteq> PendingStart"
    and nxt: "syntax_kinds (drop k toks) = s # rest"
  obtains j c where "Builder_step R (StepToken s) b = Some c" "builds_forest R db toks sm k b j c [Leaf s]"
    "syntax_kinds (drop j toks) = rest"
proof -
  let ?tr = "leading_trivia (drop k toks)"
  let ?j = "k + length ?tr"
  have "k \<le> length toks" using b by (simp add: passed_def)
  note sk = syntax_kinds_drop [OF nxt this]
  obtain c where c: "Builder_eat_trivia R (settled b) = Some c" "passed R db toks sm ?j c"
    "tb_inner c = tb_inner (settled b) @ forest_calls (map (leaf_tree R db sm) ?tr)" "steady (settled b) c"
    by (rule eat_trivia_ok [OF R toks, of k "settled b"]) (use b in simp)
  have cs: "tb_tokens c = toks" "tb_token_pos c = ?j" using c(2) unfolding passed_def by blast+
  let ?c = "c\<lparr>tb_panic := tb_panic c \<and>
       (s \<notin> {SEMICOLON, END_KW, ENDNATURE_KW, ENDMODULE_KW, ENDDISCIPLINE_KW, ENDFUNCTION_KW} \<or> tb_err_depth c \<noteq> u32_MAX)\<rparr>"
  obtain d where d: "Builder_do_token R s (tok_span (toks ! ?j)) ?c = Some d" "passed R db toks sm (Suc ?j) d"
    "tb_inner d = tb_inner ?c @ [GToken s (snd (leaf_of R db sm (toks ! ?j)))]" "steady ?c d"
    by (rule do_token_ok [OF R toks, of ?j ?c]) (use c(2) sk(1) in simp_all)
  have "Builder_step R (StepToken s) b = Some d"
    using st c(1) d(1) cs sk(1) by (cases "tb_state b") (simp_all add: Builder_step_def Builder_token_def settled_def Let_def)
  moreover have "builds_forest R db toks sm k b (Suc ?j) d [Leaf s]"
    unfolding builds_forest_def
  proof (intro conjI exI)
    let ?gs = "map (leaf_tree R db sm) ?tr @ [leaf_tree R db sm (toks ! ?j)]"
    have Norm: "tb_state d = NormalState" using c(4) d(4) st by (simp add: steady_def)
    then show "tb_state d \<noteq> PendingStart" by simp
    show "tb_err_depth d = tb_err_depth b" using c(4) d(4) by (simp add: steady_def)
    show "calls_made d = calls_made b @ forest_calls ?gs" using Norm c(3) d(3) sk(2) by (simp add: calls_made_def [of d])
    have "\<forall>t \<in> set ?tr. SyntaxKind_is_trivia (tok_kind t)" by (auto simp: leading_trivia_def dest: set_takeWhileD)
    then show "forest_strip ?gs = [Leaf s]" using sk(2,3) forest_leaf_trees(2) by simp
    show "map (leaf_of R db sm) (take (Suc ?j) toks) = map (leaf_of R db sm) (take k toks) @ forest_leaves ?gs"
      unfolding sk(5) using forest_leaf_trees(1) [of R db sm ?tr] by simp
  qed (rule d(2))
  ultimately show thesis using that sk(4) by blast
qed

lemma start_step_ok:
  assumes R: "text_ranges_spec R" and toks: "tokens_ok R db root toks sm" and b: "passed R db toks sm k b" and st: "tb_state b \<noteq> PendingStart"
  obtains j c ts where "Builder_step R (StepEnter s) b = Some c" "passed R db toks sm j c" "tb_state c = NormalState"
    "calls_made c = calls_made b @ forest_calls (map (leaf_tree R db sm) ts) @ [GStart s]"
    "\<forall>t \<in> set ts. SyntaxKind_is_trivia (tok_kind t)" "take j toks = take k toks @ ts"
    "syntax_kinds (drop j toks) = syntax_kinds (drop k toks)"
    "tb_err_depth c = (if tb_err_depth b \<noteq> u32_MAX then tb_err_depth b + 1 else if s = ERROR then 0 else u32_MAX)"
proof -
  have step: "Builder_step R (StepEnter s) b = do {
      self \<leftarrow> (if tb_err_depth b \<noteq> u32_MAX then Some (settled b\<lparr>tb_err_depth := tb_err_depth b + 1\<rparr>)
            else if s = ERROR then Some (settled b\<lparr>tb_err_depth := 0\<rparr>)
            else Builder_eat_trivia R (settled b));
      Some (green_push (GStart s) self) }"
    using st by (cases "tb_state b"; cases "tb_err_depth b = u32_MAX"; cases "s = ERROR")
      (simp_all add: Builder_step_def Builder_start_node_def Let_def settled_def green_push_def)
  have norm: "tb_state (settled b) = NormalState" using st by simp
  show thesis
  proof (cases "tb_err_depth b \<noteq> u32_MAX \<or> s = ERROR")
    case True
    let ?d = "if tb_err_depth b \<noteq> u32_MAX then tb_err_depth b + 1 else 0"
    let ?c = "green_push (GStart s) (settled b\<lparr>tb_err_depth := ?d\<rparr>)"
    have c: "Builder_step R (StepEnter s) b = Some ?c" unfolding step using True by auto
    show thesis
      by (rule that [of ?c k "[]"]) (use c b True norm in \<open>auto simp: calls_made_Normal green_push_def\<close>)
  next
    case False
    let ?tr = "leading_trivia (drop k toks)"
    obtain c where c: "Builder_eat_trivia R (settled b) = Some c" "passed R db toks sm (k + length ?tr) c"
      "tb_inner c = tb_inner (settled b) @ forest_calls (map (leaf_tree R db sm) ?tr)" "steady (settled b) c"
      by (rule eat_trivia_ok [OF R toks, of k "settled b"]) (use b in simp)
    let ?c = "green_push (GStart s) c"
    have tr: "\<forall>t \<in> set ?tr. SyntaxKind_is_trivia (tok_kind t)" by (auto simp: leading_trivia_def dest: set_takeWhileD)
    have split: "drop k toks = ?tr @ drop (k + length ?tr) toks"
      unfolding leading_trivia_def
      by (metis add.commute append_take_drop_id drop_drop takeWhile_eq_take)
    then have "syntax_kinds (drop k toks) = syntax_kinds ?tr @ syntax_kinds (drop (k + length ?tr) toks)"
      unfolding syntax_kinds_def by (metis filter_append map_append)
    moreover have "syntax_kinds ?tr = []" using tr unfolding syntax_kinds_def by (simp add: filter_empty_conv)
    moreover have "take (k + length ?tr) toks = take k toks @ ?tr"
      by (simp add: take_add) (simp add: leading_trivia_def takeWhile_eq_take [symmetric])
    ultimately show thesis
      using that [of ?c "k + length ?tr" ?tr] False c tr norm unfolding step
      by (simp add: calls_made_Normal steady_def green_push_def)
  qed
qed

lemma finish_step_ok:
  assumes b: "passed R db toks sm k b" and st: "tb_state b \<noteq> PendingStart"
  obtains c where "Builder_step R StepExit b = Some c" "passed R db toks sm k c" "tb_state c = PendingFinish"
    "calls_made c = calls_made b @ [GFinish]"
    "tb_err_depth c = (if tb_err_depth b = 0 then u32_MAX else if tb_err_depth b \<noteq> u32_MAX then tb_err_depth b - 1 else tb_err_depth b)"
proof -
  let ?p = "if tb_state b = PendingFinish then green_push GFinish b else b\<lparr>tb_state := PendingFinish\<rparr>"
  have p: "passed R db toks sm k ?p" "tb_state ?p = PendingFinish" "tb_inner ?p = calls_made b" "tb_err_depth ?p = tb_err_depth b"
    using b st by (auto simp: green_push_def calls_made_def)
  obtain c where c: "Builder_step R StepExit b = Some c" "passed R db toks sm k c" "tb_state c = PendingFinish" "tb_inner c = tb_inner ?p"
    "tb_err_depth c = (if tb_err_depth b = 0 then u32_MAX else if tb_err_depth b \<noteq> u32_MAX then tb_err_depth b - 1 else tb_err_depth b)"
    using p st by (cases "tb_state b"; cases "tb_last_error ?p") (auto simp: Builder_step_def Builder_finish_node_def Let_def green_push_def)
  then show thesis using that p(3) by (simp add: calls_made_def [of c])
qed

lemma sum_lens_ok:
  assumes R: "text_ranges_spec R"
  shows "acc + sum_list (map (token_len R) ts) < 2 ^ 32 \<Longrightarrow> sum_lens R ts acc = Some (acc + sum_list (map (token_len R) ts))"
  by (induction ts arbitrary: acc) (auto simp: text_rangesD(13) [OF R])

lemma expected_at_ok:
  assumes R: "text_ranges_spec R" and "p < 2 ^ 32"
  shows "\<exists>r. expected_at R err p = Some r"
  using text_rangesD(5) [OF R, of p 0] assms(2) by (auto simp: expected_at_def)

lemma error_step_ok:
  assumes R: "text_ranges_spec R" and toks: "tokens_ok R db root toks sm" and b: "passed R db toks sm k b"
  obtains c where "Builder_step R (StepError err) b = Some c" "passed R db toks sm k c" "tb_state c = tb_state b"
    "tb_inner c = tb_inner b" "tb_err_depth c = tb_err_depth b"
proof -
  let ?d = "drop k toks"
  let ?n = "length (leading_trivia ?d)"
  let ?p = "offset_of R toks k" and ?q = "sum_list (map (token_len R) (leading_trivia ?d))" and ?all = "sum_list (map (token_len R) toks)"
  have bs: "tb_tokens b = toks" "tb_token_pos b = k" "tb_text_pos b = ?p" "k \<le> length toks" using b unfolding passed_def by auto
  have half: "2 * ?all < 2 ^ 32" using toks by (simp add: tokens_ok_def)
  have tk: "take (k + ?n) toks = take k toks @ leading_trivia ?d"
    by (simp add: take_add) (simp add: leading_trivia_def takeWhile_eq_take [symmetric])
  have pq: "?p + ?q = offset_of R toks (k + ?n)" unfolding offset_of_def tk by simp
  have le: "?p \<le> ?all" "?p + ?q \<le> ?all" unfolding pq by (rule offset_le)+
  have s: "sum_lens R (leading_trivia ?d) 0 = Some ?q" using sum_lens_ok [OF R, of 0 "leading_trivia ?d"] le half by simp
  have a: "ts_add R ?p ?q = Some (?p + ?q)" using text_rangesD(13) [OF R] le half by simp
  obtain ea where ea: "expected_at R err ?p = Some ea" using expected_at_ok [OF R, of ?p err] le half by auto
  have len: "token_len R t \<le> ?all" if "t \<in> set toks" for t
    using that member_le_sum_list [of "token_len R t" "map (token_len R) toks"] by simp
  have last: "(if toks = [] then 0 else token_len R (last toks)) \<le> ?all" using len by auto
  show thesis
  proof (cases "k + ?n = length toks")
    case True
    have "\<exists>r. tr_at R ?p (if toks = [] then 0 else token_len R (last toks)) = Some r"
      using text_rangesD(5) [OF R, of ?p "if toks = [] then 0 else token_len R (last toks)"] last le half by fastforce
    then obtain r where "tr_at R ?p (if toks = [] then 0 else token_len R (last toks)) = Some r" by blast
    with True s a ea bs b that show thesis
      by (cases "toks = []") (simp_all add: Builder_step_def Builder_error_def Let_def)
  next
    case False
    have "?n \<le> length ?d" unfolding leading_trivia_def by (rule length_takeWhile_le)
    then have "k + ?n \<le> length toks" using bs(4) by simp
    with False have lt: "k + ?n < length toks" by simp
    then have "?p + ?q + token_len R (toks ! (k + ?n)) < 2 ^ 32" using len [OF nth_mem [OF lt]] le half by linarith
    from text_rangesD(5) [OF R this] obtain r where "tr_at R (?p + ?q) (token_len R (toks ! (k + ?n))) = Some r" by blast
    with lt s a ea bs b that show thesis
      by (cases "tb_panic b \<and> found err \<noteq> END_KW \<or> tb_last_error b \<noteq> None") (auto simp: Builder_step_def Builder_error_def Let_def)
  qed
qed

section \<open>The tree\<close>

lemma run_ops_append: "run_ops f (xs @ ys) s = do { t \<leftarrow> run_ops f xs s; run_ops f ys t }"
  by (induction xs arbitrary: s) (auto split: bind_splits)

text \<open>The depth inside errors has room for what is still entered.\<close>

definition depth_room :: "nat \<Rightarrow> nat \<Rightarrow> bool" where
  "depth_room d n \<longleftrightarrow> n < u32_MAX \<and> (d = u32_MAX \<or> d + n < u32_MAX)"

lemma depth_room_le: "depth_room d n \<Longrightarrow> m \<le> n \<Longrightarrow> depth_room d m"
  unfolding depth_room_def by linarith

lemma builds_forest_refl: "passed R db toks sm k b \<Longrightarrow> tb_state b \<noteq> PendingStart \<Longrightarrow> builds_forest R db toks sm k b k b []"
  unfolding builds_forest_def by (intro conjI exI [of _ "[]"]) simp_all

lemma forest_steps_ok:
  assumes each: "\<And>t k b rest. t \<in> set ts \<Longrightarrow> passed R db toks sm k b \<Longrightarrow> tb_state b \<noteq> PendingStart \<Longrightarrow>
      syntax_kinds (drop k toks) = tree_tokens t @ rest \<Longrightarrow> depth_room (tb_err_depth b) (length (tree_steps t)) \<Longrightarrow>
      \<exists>j c. run_ops (Builder_step R) (tree_steps t) b = Some c \<and> builds_forest R db toks sm k b j c (drop_errors t) \<and>
        syntax_kinds (drop j toks) = rest"
    and b: "passed R db toks sm k b" "tb_state b \<noteq> PendingStart" "syntax_kinds (drop k toks) = forest_tokens ts @ rest"
      "depth_room (tb_err_depth b) (length (forest_steps ts))"
  shows "\<exists>j c. run_ops (Builder_step R) (forest_steps ts) b = Some c \<and>
    builds_forest R db toks sm k b j c (concat (map drop_errors ts)) \<and> syntax_kinds (drop j toks) = rest"
  using assms
proof (induction ts arbitrary: k b)
  case Nil
  then show ?case using builds_forest_refl by fastforce
next
  case (Cons t ts)
  have room: "depth_room (tb_err_depth b) (length (tree_steps t))" "depth_room (tb_err_depth b) (length (forest_steps ts))"
    by (rule depth_room_le [OF Cons.prems(5)]; simp)+
  from Cons.prems(1) [OF _ Cons.prems(2,3) _ room(1), of "forest_tokens ts @ rest"] Cons.prems(4) obtain j c where
    c: "run_ops (Builder_step R) (tree_steps t) b = Some c" "builds_forest R db toks sm k b j c (drop_errors t)"
       "syntax_kinds (drop j toks) = forest_tokens ts @ rest" by auto
  have cp: "passed R db toks sm j c" "tb_state c \<noteq> PendingStart" "tb_err_depth c = tb_err_depth b"
    using c(2) by (simp_all add: builds_forest_def)
  have "\<exists>i d. run_ops (Builder_step R) (forest_steps ts) c = Some d \<and>
    builds_forest R db toks sm j c i d (concat (map drop_errors ts)) \<and> syntax_kinds (drop i toks) = rest"
    by (rule Cons.IH [OF Cons.prems(1) cp(1,2) c(3)]) (use cp(3) room(2) in auto)
  then obtain i d where d: "run_ops (Builder_step R) (forest_steps ts) c = Some d"
    "builds_forest R db toks sm j c i d (concat (map drop_errors ts))" "syntax_kinds (drop i toks) = rest" by blast
  from builds_forest_trans [OF c(2) d(2)] c(1) d(1,3) show ?case by (auto simp: run_ops_append)
qed

lemma tree_steps_ok:
  assumes R: "text_ranges_spec R" and toks: "tokens_ok R db root toks sm"
  shows "passed R db toks sm k b \<Longrightarrow> tb_state b \<noteq> PendingStart \<Longrightarrow>
      syntax_kinds (drop k toks) = tree_tokens t @ rest \<Longrightarrow> depth_room (tb_err_depth b) (length (tree_steps t)) \<Longrightarrow>
      \<exists>j c. run_ops (Builder_step R) (tree_steps t) b = Some c \<and> builds_forest R db toks sm k b j c (drop_errors t) \<and>
        syntax_kinds (drop j toks) = rest"
proof (induction t arbitrary: k b rest)
  case (Leaf s)
  from Leaf.prems(3) have s: "syntax_kinds (drop k toks) = s # rest" by simp
  obtain j c where "Builder_step R (StepToken s) b = Some c" "builds_forest R db toks sm k b j c [Leaf s]"
    "syntax_kinds (drop j toks) = rest" by (rule token_step_ok [OF R toks Leaf.prems(1,2) s])
  then show ?case by auto
next
  case (ErrLeaf e)
  obtain c where c: "Builder_step R (StepError e) b = Some c" "passed R db toks sm k c" "tb_state c = tb_state b"
    "tb_inner c = tb_inner b" "tb_err_depth c = tb_err_depth b" by (rule error_step_ok [OF R toks ErrLeaf.prems(1)])
  then have "builds_forest R db toks sm k b k c []"
    unfolding builds_forest_def using ErrLeaf.prems(2) by (intro conjI exI [of _ "[]"]) (simp_all add: calls_made_def)
  then show ?case using c(1) ErrLeaf.prems(3) by auto
next
  case (Node s ts)
  obtain i c tr where c: "Builder_step R (StepEnter s) b = Some c" "passed R db toks sm i c" "tb_state c = NormalState"
    "calls_made c = calls_made b @ forest_calls (map (leaf_tree R db sm) tr) @ [GStart s]"
    "\<forall>t \<in> set tr. SyntaxKind_is_trivia (tok_kind t)" "take i toks = take k toks @ tr"
    "syntax_kinds (drop i toks) = syntax_kinds (drop k toks)"
    "tb_err_depth c = (if tb_err_depth b \<noteq> u32_MAX then tb_err_depth b + 1 else if s = ERROR then 0 else u32_MAX)"
    by (rule start_step_ok [OF R toks Node.prems(1,2)])
  have room: "depth_room (tb_err_depth c) (length (forest_steps ts))"
    using Node.prems(4) unfolding c(8) depth_room_def by auto
  have "\<exists>j d. run_ops (Builder_step R) (forest_steps ts) c = Some d \<and>
    builds_forest R db toks sm i c j d (concat (map drop_errors ts)) \<and> syntax_kinds (drop j toks) = rest"
    by (rule forest_steps_ok [OF Node.IH c(2)]) (use c(3,7) Node.prems(3) room in auto)
  then obtain j d where d: "run_ops (Builder_step R) (forest_steps ts) c = Some d"
    "builds_forest R db toks sm i c j d (concat (map drop_errors ts))" "syntax_kinds (drop j toks) = rest" by blast
  from d(2) obtain gs where dp: "passed R db toks sm j d" "tb_state d \<noteq> PendingStart" "tb_err_depth d = tb_err_depth c"
    "calls_made d = calls_made c @ forest_calls gs" "forest_strip gs = concat (map drop_errors ts)"
    "map (leaf_of R db sm) (take j toks) = map (leaf_of R db sm) (take i toks) @ forest_leaves gs"
    unfolding builds_forest_def by blast
  obtain e where e: "Builder_step R StepExit d = Some e" "passed R db toks sm j e" "tb_state e = PendingFinish"
    "calls_made e = calls_made d @ [GFinish]"
    "tb_err_depth e = (if tb_err_depth d = 0 then u32_MAX else if tb_err_depth d \<noteq> u32_MAX then tb_err_depth d - 1 else tb_err_depth d)"
    by (rule finish_step_ok [OF dp(1,2)])
  have "run_ops (Builder_step R) (tree_steps (Node s ts)) b = Some e"
    using c(1) d(1) e(1) by (simp add: run_ops_append)
  moreover have "builds_forest R db toks sm k b j e (drop_errors (Node s ts))"
    unfolding builds_forest_def
  proof (intro conjI exI)
    let ?gs = "map (leaf_tree R db sm) tr @ [GNode s gs]"
    show "tb_state e \<noteq> PendingStart" using e(3) by simp
    show "tb_err_depth e = tb_err_depth b"
      using e(5) dp(3) c(8) Node.prems(4) unfolding depth_room_def by (auto split: if_splits)
    show "calls_made e = calls_made b @ forest_calls ?gs" using e(4) dp(4) c(4) by simp
    show "forest_strip ?gs = drop_errors (Node s ts)" using dp(5) forest_leaf_trees(2) [OF c(5)] by simp
    show "map (leaf_of R db sm) (take j toks) = map (leaf_of R db sm) (take k toks) @ forest_leaves ?gs"
      using dp(6) c(6) forest_leaf_trees(1) [of R db sm tr] by simp
  qed (rule e(2))
  ultimately show ?case using d(3) by blast
qed

end
