(* ===== verification/Text_Size.thy ===== *)
theory Text_Size
  imports Source_Map
begin

text \<open>
  Text ranges that have the documented behaviour \<open>text_ranges_spec\<close>: pairs of 32 bit positions in order. They show that
  the laws can be met, and the examples compute with them.
\<close>

typedef bounded_range = "{(a, b). a \<le> b \<and> b < (2 :: nat) ^ 32}"
  morphisms bounds_of Bounded
  by (rule exI [of _ "(0, 0)"]) simp

definition between :: "nat \<Rightarrow> nat \<Rightarrow> bounded_range" where
  "between a b = Bounded (if a \<le> b \<and> b < 2 ^ 32 then (a, b) else (0, 0))"

definition bounded_ranges :: "bounded_range text_ranges" where
  "bounded_ranges =
     \<lparr>tr_new = (\<lambda>a b. if a \<le> b \<and> b < 2 ^ 32 then Some (between a b) else None),
      tr_at = (\<lambda>a n. if a + n < 2 ^ 32 then Some (between a (a + n)) else None),
      tr_empty = (\<lambda>a. between a a), tr_up_to = (\<lambda>a. between 0 a),
      tr_start = (\<lambda>r. fst (bounds_of r)), tr_end = (\<lambda>r. snd (bounds_of r)), tr_len = (\<lambda>r. snd (bounds_of r) - fst (bounds_of r)),
      tr_cover = (\<lambda>r q. between (min (fst (bounds_of r)) (fst (bounds_of q))) (max (snd (bounds_of r)) (snd (bounds_of q)))),
      tr_shift = (\<lambda>r k. if snd (bounds_of r) + k < 2 ^ 32 then Some (between (fst (bounds_of r) + k) (snd (bounds_of r) + k)) else None),
      tr_unshift = (\<lambda>r k. if k \<le> fst (bounds_of r) then Some (between (fst (bounds_of r) - k) (snd (bounds_of r) - k)) else None),
      ts_add = (\<lambda>a b. if a + b < 2 ^ 32 then Some (a + b) else None),
      ts_sub = (\<lambda>a b. if b \<le> a then Some (a - b) else None)\<rparr>"

lemma bounds_between: "a \<le> b \<Longrightarrow> b < 2 ^ 32 \<Longrightarrow> bounds_of (between a b) = (a, b)"
  by (simp add: between_def Bounded_inverse)

lemma bounds_ok: "fst (bounds_of r) \<le> snd (bounds_of r)" "snd (bounds_of r) < 2 ^ 32"
  using bounds_of [of r] by (auto simp del: power_numeral)

lemma bounds_eq: "fst (bounds_of r) = fst (bounds_of q) \<Longrightarrow> snd (bounds_of r) = snd (bounds_of q) \<Longrightarrow> r = q"
  by (metis bounds_of_inject prod_eqI)

lemma bounded_ranges_spec: "text_ranges_spec bounded_ranges"
proof -
  have cover: "bounds_of (between (min (fst (bounds_of r)) (fst (bounds_of q))) (max (snd (bounds_of r)) (snd (bounds_of q)))) =
      (min (fst (bounds_of r)) (fst (bounds_of q)), max (snd (bounds_of r)) (snd (bounds_of q)))" for r q
    by (rule bounds_between) (use bounds_ok [of r] bounds_ok [of q] in linarith)+
  have shift: "bounds_of (between (fst (bounds_of r) + k) (snd (bounds_of r) + k)) = (fst (bounds_of r) + k, snd (bounds_of r) + k)"
    if "snd (bounds_of r) + k < 2 ^ 32" for r k
    by (rule bounds_between) (use bounds_ok [of r] that in linarith)+
  have unshift: "bounds_of (between (fst (bounds_of r) - k) (snd (bounds_of r) - k)) = (fst (bounds_of r) - k, snd (bounds_of r) - k)" for r k
    by (rule bounds_between) (use bounds_ok [of r] in linarith)+
  show ?thesis unfolding text_ranges_spec_def
  proof (intro conjI allI impI)
    fix r q :: bounded_range
    assume "tr_start bounded_ranges r = tr_start bounded_ranges q" "tr_end bounded_ranges r = tr_end bounded_ranges q"
    then show "r = q" by (intro bounds_eq) (simp_all add: bounded_ranges_def)
  qed (use bounds_ok in \<open>auto simp: bounded_ranges_def bounds_between cover shift unshift simp del: power_numeral\<close>)
qed

text \<open>What the operations compute.\<close>

lemma bounded_ranges_simps:
  "tr_start bounded_ranges r = fst (bounds_of r)" "tr_end bounded_ranges r = snd (bounds_of r)"
  "tr_len bounded_ranges r = snd (bounds_of r) - fst (bounds_of r)"
  "tr_shift bounded_ranges r k = (if snd (bounds_of r) + k < 2 ^ 32 then Some (between (fst (bounds_of r) + k) (snd (bounds_of r) + k)) else None)"
  by (simp_all add: bounded_ranges_def)

end
