(* ===== verification/Syntax_Tree.thy ===== *)
theory Syntax_Tree
  imports Tree_Builder_Spec Text_Size
begin

text \<open>
  The whole of \<open>parse_text\<close>: the tree it builds, the context map it leaves, and what becomes of the errors.
\<close>

section \<open>A whole run\<close>

lemma first_step:
  assumes R: "text_ranges_spec R" and toks: "tokens_ok R db root toks sm"
  obtains b where "Builder_step R (StepEnter s) (Builder_new R db root toks sm) = Some b" "passed R db toks sm 0 b"
    "tb_state b = NormalState" "calls_made b = [GStart s]" "tb_err_depth b = u32_MAX" "tb_errors b = []"
proof -
  let ?b = "green_push (GStart s) (Builder_new R db root toks sm\<lparr>tb_state := NormalState\<rparr>)"
  have "Builder_step R (StepEnter s) (Builder_new R db root toks sm) = Some ?b"
    by (simp add: Builder_step_def Builder_start_node_def Builder_new_def Let_def)
  moreover have "passed R db toks sm 0 ?b"
    using toks text_rangesD(6,7) [OF R]
    unfolding passed_def by (auto simp: green_push_def Builder_new_def SourceContext_ROOT_def tokens_ok_def split: if_splits)
  ultimately show thesis using that by (simp add: calls_made_def green_push_def Builder_new_def)
qed

lemma syntax_kinds_Nil:
  assumes "syntax_kinds (drop k toks) = []"
  shows "leading_trivia (drop k toks) = drop k toks"
  using assms unfolding syntax_kinds_def leading_trivia_def by (simp add: filter_empty_conv)

text \<open>What \<open>finish\<close> gives after the root was left.\<close>

lemma finish_ok:
  assumes R: "text_ranges_spec R" and toks: "tokens_ok R db root toks sm" and b: "passed R db toks sm k b"
    and st: "tb_state b = PendingFinish" and nxt: "syntax_kinds (drop k toks) = []"
  obtains ranges where
    "\<And>green :: green_call list \<Rightarrow> 'g panics. Builder_finish R green b =
       do { g \<leftarrow> green (tb_inner b @ forest_calls (map (leaf_tree R db sm) (drop k toks)) @ [GFinish]); Some (g, tb_errors b, ranges) }"
    "tiled R 0 ranges (offset_of R toks (length toks))"
    "\<forall>i < length toks. \<exists>m \<in> set ranges. entry_covers (offset_of R toks i) (token_len R (toks ! i)) (cs_ctx (tok_span (toks ! i)))
            (tr_start R (cs_range (tok_span (toks ! i)))) (entry_of R m)"
proof -
  let ?b = "b\<lparr>tb_state := NormalState\<rparr>"
  have le: "k \<le> length toks" using b by (simp add: passed_def)
  obtain c where c: "Builder_eat_trivia R ?b = Some c" "passed R db toks sm (k + length (leading_trivia (drop k toks))) c"
    "tb_inner c = tb_inner ?b @ forest_calls (map (leaf_tree R db sm) (leading_trivia (drop k toks)))" "steady ?b c"
    by (rule eat_trivia_ok [OF R toks, of k ?b]) (use b in simp)
  have tr: "leading_trivia (drop k toks) = drop k toks" by (rule syntax_kinds_Nil [OF nxt])
  with c(2) le have p: "passed R db toks sm (length toks) c" by simp
  let ?cur = "tb_current_range c" and ?all = "offset_of R toks (length toks)"
  have text_pos: "tb_text_pos c = ?all" using p by (simp add: passed_def)
  from p obtain e where e: "tiled R 0 (tb_ranges c) e" "e \<le> ?all"
    "\<forall>i < length toks. \<exists>m \<in> insert (e, ?all, cs_ctx ?cur, tr_start R (cs_range ?cur)) (entry_of R ` set (tb_ranges c)).
          entry_covers (offset_of R toks i) (token_len R (toks ! i)) (cs_ctx (tok_span (toks ! i)))
            (tr_start R (cs_range (tok_span (toks ! i)))) m"
    unfolding passed_def by auto
  have "?all < 2 ^ 32" using toks by (simp add: tokens_ok_def)
  from text_rangesD(4) [OF R e(2) this] obtain r where r: "tr_new R e ?all = Some r" "tr_start R r = e" "tr_end R r = ?all" by blast
  let ?m = "(r, cs_ctx ?cur, tr_start R (cs_range ?cur))"
  have m: "entry_of R ?m = (e, ?all, cs_ctx ?cur, tr_start R (cs_range ?cur))" using r by (simp add: entry_of_def)
  show thesis
  proof (rule that [of "tb_ranges c @ [?m]"])
    fix green :: "green_call list \<Rightarrow> 'g panics"
    show "Builder_finish R green b =
       do { g \<leftarrow> green (tb_inner b @ forest_calls (map (leaf_tree R db sm) (drop k toks)) @ [GFinish]);
            Some (g, tb_errors b, tb_ranges c @ [?m]) }"
      using st c(1,3,4) tr r(1) tiled_last [OF e(1)] text_pos
      by (simp add: Builder_finish_def green_push_def Let_def steady_def)
    show "tiled R 0 (tb_ranges c @ [?m]) ?all" using tiled_snoc [OF e(1), of ?m] r by simp
    show "\<forall>i < length toks. \<exists>m \<in> set (tb_ranges c @ [?m]). entry_covers (offset_of R toks i) (token_len R (toks ! i))
            (cs_ctx (tok_span (toks ! i))) (tr_start R (cs_range (tok_span (toks ! i)))) (entry_of R m)"
      using e(3) unfolding m [symmetric] by auto
  qed
qed

text \<open>The input of a run.\<close>

definition parse_input_ok ::
  "'r text_ranges \<Rightarrow> nat \<Rightarrow> (file_id \<Rightarrow> text_bytes option) \<Rightarrow> file_id \<Rightarrow> 'r preprocessed \<Rightarrow> parse_output \<Rightarrow> bool" where
  "parse_input_ok R n sources root pp out \<longleftrightarrow> text_ranges_spec R \<and> tokens_ok R sources root (pp_ts pp) (pp_sm pp) \<and>
     parser_parse n (syntax_kinds (pp_ts pp)) = Some out \<and> length (out_error out) \<le> 2 ^ 31 \<and>
     (\<forall>t \<in> set (pp_ts pp). tok_kind t \<noteq> EOF \<and> tok_kind t \<le> LAST_KIND) \<and> length (the (Output_iter out)) < u32_MAX"

lemma parse_text_run:
  assumes ok: "parse_input_ok R n sources root pp out"
  defines "toks \<equiv> pp_ts pp" and "sm \<equiv> pp_sm pp"
  obtains ts gs errs ranges where
    "Output_iter out = Some (StepEnter SOURCE_FILE # forest_steps ts @ [StepExit])"
    "forest_strip gs = concat (map drop_errors ts)" "forest_leaves gs = map (leaf_of R sources sm) toks"
    "\<forall>green :: green_call list \<Rightarrow> 'g panics. parse_text R green n sources root pp =
       do { g \<leftarrow> green (green_calls (GNode SOURCE_FILE gs)); Some (g, errs, ranges) }"
    "tiled R 0 ranges (offset_of R toks (length toks))"
    "\<forall>i < length toks. \<exists>m \<in> set ranges. entry_covers (offset_of R toks i) (token_len R (toks ! i)) (cs_ctx (tok_span (toks ! i)))
            (tr_start R (cs_range (tok_span (toks ! i)))) (entry_of R m)"
proof -
  have R: "text_ranges_spec R" and T: "tokens_ok R sources root toks sm" and P: "parser_parse n (syntax_kinds toks) = Some out"
    and E: "length (out_error out) \<le> 2 ^ 31" and K: "\<forall>t \<in> set toks. tok_kind t \<noteq> EOF \<and> tok_kind t \<le> LAST_KIND"
    and S: "length (the (Output_iter out)) < u32_MAX"
    using ok unfolding parse_input_ok_def toks_def sm_def by simp_all
  have "EOF \<notin> set (syntax_kinds toks)" "\<forall>k \<in> set (syntax_kinds toks). k \<le> LAST_KIND" using K by (auto simp: syntax_kinds_def)
  from parse_output_tree [OF P this E] obtain ts where
    ts: "Output_iter out = Some (StepEnter SOURCE_FILE # forest_steps ts @ [StepExit])" "forest_tokens ts = syntax_kinds toks" by blast
  let ?b = "Builder_new R sources root toks sm"
  obtain b where b: "Builder_step R (StepEnter SOURCE_FILE) ?b = Some b" "passed R sources toks sm 0 b" "tb_state b = NormalState"
    "calls_made b = [GStart SOURCE_FILE]" "tb_err_depth b = u32_MAX" by (rule first_step [OF R T])
  have "length (forest_steps ts) < u32_MAX" using S ts(1) by simp
  then have room: "depth_room (tb_err_depth b) (length (forest_steps ts))" using b(5) by (simp add: depth_room_def)
  have "\<exists>j c. run_ops (Builder_step R) (forest_steps ts) b = Some c \<and>
    builds_forest R sources toks sm 0 b j c (concat (map drop_errors ts)) \<and> syntax_kinds (drop j toks) = []"
    by (rule forest_steps_ok [OF tree_steps_ok [OF R T] b(2) _ _ room]) (use b(3) ts(2) in simp_all)
  then obtain j c where c: "run_ops (Builder_step R) (forest_steps ts) b = Some c"
    "builds_forest R sources toks sm 0 b j c (concat (map drop_errors ts))" "syntax_kinds (drop j toks) = []" by blast
  from c(2) obtain gs where cs: "passed R sources toks sm j c" "tb_state c \<noteq> PendingStart"
    "calls_made c = calls_made b @ forest_calls gs" "forest_strip gs = concat (map drop_errors ts)"
    "map (leaf_of R sources sm) (take j toks) = map (leaf_of R sources sm) (take 0 toks) @ forest_leaves gs"
    unfolding builds_forest_def by blast
  obtain d where d: "Builder_step R StepExit c = Some d" "passed R sources toks sm j d" "tb_state d = PendingFinish"
    "calls_made d = calls_made c @ [GFinish]" by (rule finish_step_ok [OF cs(1,2)])
  let ?hs = "map (leaf_tree R sources sm) (drop j toks)"
  obtain ranges where r:
    "\<And>green :: green_call list \<Rightarrow> 'g panics. Builder_finish R green d =
       do { g \<leftarrow> green (tb_inner d @ forest_calls ?hs @ [GFinish]); Some (g, tb_errors d, ranges) }"
    "tiled R 0 ranges (offset_of R toks (length toks))"
    "\<forall>i < length toks. \<exists>m \<in> set ranges. entry_covers (offset_of R toks i) (token_len R (toks ! i)) (cs_ctx (tok_span (toks ! i)))
            (tr_start R (cs_range (tok_span (toks ! i)))) (entry_of R m)"
    by (rule finish_ok [where 'g = 'g, OF R T d(2,3) c(3)]) (rule that)
  have inner: "tb_inner d = GStart SOURCE_FILE # forest_calls gs" using d(3,4) cs(3) b(4) by (simp add: calls_made_def)
  show thesis
  proof (rule that [of ts "gs @ ?hs" "tb_errors d" ranges])
    have "\<forall>t \<in> set (drop j toks). SyntaxKind_is_trivia (tok_kind t)"
      using c(3) by (simp add: syntax_kinds_def filter_empty_conv)
    then show "forest_strip (gs @ ?hs) = concat (map drop_errors ts)" using cs(4) forest_leaf_trees(2) by simp
    have "forest_leaves (gs @ ?hs) = map (leaf_of R sources sm) (take j toks @ drop j toks)"
      unfolding map_append using cs(5) forest_leaf_trees(1) [of R sources sm "drop j toks"] by simp
    then show "forest_leaves (gs @ ?hs) = map (leaf_of R sources sm) toks" by simp
    show "\<forall>green :: green_call list \<Rightarrow> 'g panics. parse_text R green n sources root pp =
       do { g \<leftarrow> green (green_calls (GNode SOURCE_FILE (gs @ ?hs))); Some (g, tb_errors d, ranges) }"
      using P ts(1) b(1) c(1) d(1) r(1) inner
      by (simp add: parse_text_def syntax_kinds_def toks_def sm_def run_ops_append)
  qed (rule ts(1) r(2,3))+
qed


section \<open>The context map\<close>

lemma tiled_at:
  assumes "tiled R a ms e" "a \<le> p" "p < e"
  shows "\<exists>j < length ms. tr_start R (fst (ms ! j)) \<le> p \<and> p < tr_end R (fst (ms ! j))"
  using assms
proof (induction ms arbitrary: a)
  case (Cons m ms)
  show ?case
  proof (cases "p < tr_end R (fst m)")
    case True
    with Cons.prems show ?thesis by (intro exI [of _ 0]) simp
  next
    case False
    with Cons.IH [of "tr_end R (fst m)"] Cons.prems obtain j where
      "j < length ms" "tr_start R (fst (ms ! j)) \<le> p" "p < tr_end R (fst (ms ! j))" by auto
    then show ?thesis by (intro exI [of _ "Suc j"]) simp
  qed
qed simp

lemma find_ctx_range_iff:
  assumes R: "text_ranges_spec R" and t: "tiled R 0 ranges e"
  shows "Parse_find_ctx_range R ranges p \<noteq> None \<longleftrightarrow> p < e"
proof (cases "p < e")
  case True
  with tiled_at [OF t] obtain j where j: "j < length ranges" "tr_start R (fst (ranges ! j)) \<le> p" "p < tr_end R (fst (ranges ! j))" by auto
  from search_range_ok [OF R t _ j(1) _ j(2,3), of 0] show ?thesis using True j(1) by (simp add: Parse_find_ctx_range_def)
next
  case False
  with search_range_past [OF R t, of p "length ranges" 0] show ?thesis by (simp add: Parse_find_ctx_range_def)
qed

lemma to_ctx_span_ok:
  assumes R: "text_ranges_spec R" and t: "tiled R 0 ranges e" and m: "m \<in> set ranges"
    and covers: "entry_covers (tr_start R rng) (tr_len R rng) c (tr_start R s) (entry_of R m)"
    and len: "0 < tr_len R rng" "tr_len R s = tr_len R rng"
  shows "Parse_to_ctx_span R ranges rng sm = Some \<lparr>cs_range = s, cs_ctx = c\<rparr>"
proof -
  obtain r ctx st where mr: "m = (r, ctx, st)" by (cases m)
  have rng: "tr_start R rng \<le> tr_end R rng" "tr_end R rng = tr_start R rng + tr_len R rng"
    using text_rangesD(1,3) [OF R, of rng] by simp_all
  have se: "tr_end R s = tr_start R s + tr_len R rng" using text_rangesD(1,3) [OF R, of s] len(2) by simp
  have cov: "tr_start R r \<le> tr_start R rng" "tr_end R rng \<le> tr_end R r" "ctx = c" "tr_start R s = st + (tr_start R rng - tr_start R r)"
    using covers rng by (auto simp: mr entry_of_def entry_covers_def)
  from m obtain j where j: "j < length ranges" "ranges ! j = m" by (auto simp: in_set_conv_nth)
  have "search_range R ranges (tr_start R rng) 0 (length ranges) = Some j"
    by (rule search_range_ok [OF R t _ j(1)]) (use j mr cov(1,2) rng len(1) in simp_all)
  then have find: "Parse_find_ctx_range R ranges (tr_start R rng) = Some (r, c, st)"
    using j mr cov(3) by (simp add: Parse_find_ctx_range_def)
  from text_rangesD(12) [OF R cov(1)] obtain q where
    q: "tr_unshift R rng (tr_start R r) = Some q" "tr_start R q = tr_start R rng - tr_start R r" "tr_end R q = tr_end R rng - tr_start R r" by blast
  have "tr_end R q + st = tr_end R s" using q(3) cov rng se by simp
  moreover from this have "tr_end R q + st < 2 ^ 32" using text_rangesD(2) [OF R, of s] by simp
  from text_rangesD(10) [OF R this] obtain w where
    "tr_shift R q st = Some w" "tr_start R w = tr_start R q + st" "tr_end R w = tr_end R q + st" by blast
  ultimately have "tr_shift R q st = Some s" using text_rangesD(15) [OF R, of w s] q(2) cov(4) by simp
  then show ?thesis using find q(1) cov(2) by (simp add: Parse_to_ctx_span_def)
qed

lemma str_slice_length: "str_slice s a b = Some t \<Longrightarrow> length t = b - a"
  by (auto simp: str_slice_def slice_range_def split: if_splits)

lemma leaf_length:
  assumes R: "text_ranges_spec R" and toks: "tokens_ok R db root toks sm" and t: "t \<in> set toks"
  shows "length (snd (leaf_of R db sm t)) = token_len R t"
proof -
  from toks t obtain tx where tx: "token_text R db sm t = Some tx" by (fastforce simp: tokens_ok_def)
  from token_textD [OF R tx] obtain d src f where "CtxSpan_to_file_span R (tok_span t) sm = Some f"
    "str_slice src (tr_start R (fs_range f)) (tr_end R (fs_range f)) = Some tx" "tr_len R (fs_range f) = token_len R t" .
  with str_slice_length tx show ?thesis by (fastforce simp: leaf_of_def text_rangesD(3) [OF R])
qed

lemma offset_text:
  assumes R: "text_ranges_spec R" and toks: "tokens_ok R db root toks sm"
  shows "offset_of R toks i = length (concat (map (\<lambda>t. snd (leaf_of R db sm t)) (take i toks)))"
proof -
  have "length (snd (leaf_of R db sm t)) = token_len R t" if "t \<in> set (take i toks)" for t
    using leaf_length [OF R toks] in_set_takeD [OF that] .
  then have "map (\<lambda>t. length (snd (leaf_of R db sm t))) (take i toks) = map (token_len R) (take i toks)" by simp
  then show ?thesis by (simp only: offset_of_def length_concat map_map comp_def)
qed

section \<open>Single steps\<close>

text \<open>The tokens of a step sequence.\<close>

fun step_tokens :: "step list \<Rightarrow> syntax_kind list" where
  "step_tokens [] = []"
| "step_tokens (StepToken k # ss) = k # step_tokens ss"
| "step_tokens (_ # ss) = step_tokens ss"

lemma step_tokens_append [simp]: "step_tokens (ss @ ss') = step_tokens ss @ step_tokens ss'"
  by (induction ss rule: step_tokens.induct) simp_all

lemma step_tokens_tree: "step_tokens (tree_steps t) = tree_tokens t"
proof (induction t)
  case (Node k ts)
  then have "step_tokens (forest_steps ts) = forest_tokens ts" by (induction ts) simp_all
  then show ?case by simp
qed simp_all

lemma step_tokens_forest: "step_tokens (forest_steps ts) = forest_tokens ts"
  by (induction ts) (simp_all add: step_tokens_tree)

lemma step_passes:
  assumes R: "text_ranges_spec R" and toks: "tokens_ok R db root toks sm" and b: "passed R db toks sm k b" and st: "tb_state b \<noteq> PendingStart"
    and nxt: "syntax_kinds (drop k toks) = step_tokens (s # ss)"
  obtains j c where "Builder_step R s b = Some c" "passed R db toks sm j c" "tb_state c \<noteq> PendingStart"
    "syntax_kinds (drop j toks) = step_tokens ss"
proof (cases s)
  case (StepToken x)
  with nxt have n: "syntax_kinds (drop k toks) = x # step_tokens ss" by simp
  obtain j c where "Builder_step R (StepToken x) b = Some c" "builds_forest R db toks sm k b j c [Leaf x]"
    "syntax_kinds (drop j toks) = step_tokens ss" by (rule token_step_ok [OF R toks b st n])
  moreover from this(2) have "passed R db toks sm j c" "tb_state c \<noteq> PendingStart" by (simp_all add: builds_forest_def)
  ultimately show thesis using that StepToken by blast
next
  case (StepEnter x)
  obtain j c where "Builder_step R (StepEnter x) b = Some c" "passed R db toks sm j c" "tb_state c = NormalState"
    "syntax_kinds (drop j toks) = syntax_kinds (drop k toks)" by (rule start_step_ok [OF R toks b st])
  then show thesis using that StepEnter nxt by simp
next
  case StepExit
  obtain c where "Builder_step R StepExit b = Some c" "passed R db toks sm k c" "tb_state c = PendingFinish"
    by (rule finish_step_ok [OF b st])
  then show thesis using that StepExit nxt by simp
next
  case (StepError x)
  obtain c where "Builder_step R (StepError x) b = Some c" "passed R db toks sm k c" "tb_state c = tb_state b"
    by (rule error_step_ok [OF R toks b])
  then show thesis using that StepError nxt st by simp
qed

lemma steps_pass:
  assumes R: "text_ranges_spec R" and toks: "tokens_ok R db root toks sm"
  shows "passed R db toks sm k b \<Longrightarrow> tb_state b \<noteq> PendingStart \<Longrightarrow> syntax_kinds (drop k toks) = step_tokens (ss @ ss') \<Longrightarrow>
    \<exists>j c. run_ops (Builder_step R) ss b = Some c \<and> passed R db toks sm j c \<and> tb_state c \<noteq> PendingStart \<and>
      syntax_kinds (drop j toks) = step_tokens ss'"
proof (induction ss arbitrary: k b)
  case (Cons s ss)
  obtain j c where c: "Builder_step R s b = Some c" "passed R db toks sm j c" "tb_state c \<noteq> PendingStart"
    "syntax_kinds (drop j toks) = step_tokens (ss @ ss')"
    by (rule step_passes [OF R toks Cons.prems(1,2), of s "ss @ ss'"]) (use Cons.prems(3) in simp)
  from Cons.IH [OF c(2-4)] c(1) show ?case by simp
qed auto

text \<open>Tokens leave the errors as they are, and an error that was reported stays.\<close>

lemma do_token_steady:
  assumes "Builder_do_token R k s b = Some c"
  shows "steady b c"
  using assms unfolding Builder_do_token_def Let_def bind_eq_Some_conv
proof (elim exE conjE, goal_cases)
  case (1 d e f tx tpos)
  from 1(1) have "steady b d" by (auto split: if_split_asm simp: steady_def bind_eq_Some_conv)
  moreover from 1(2) have "steady d e" by (auto split: if_split_asm simp: steady_def bind_eq_Some_conv)
  moreover from 1(6) have "steady e c" by (auto simp: steady_def green_push_def)
  ultimately show ?case using steady_trans by blast
qed

lemma eat_trivia_steady:
  assumes e: "Builder_eat_trivia R b = Some c"
  shows "steady b c"
proof (rule Builder_eat_trivia.raw_induct [where P = "\<lambda>R b c. steady b c", OF _ e], goal_cases)
  case (1 f R b c)
  show ?case
  proof (cases "vec_get (tb_tokens b) (tb_token_pos b)")
    case None
    with 1(2) show ?thesis by simp
  next
    case (Some t)
    show ?thesis
    proof (cases "SyntaxKind_is_trivia (tok_kind t)")
      case True
      with 1(2) Some obtain d where d: "Builder_do_token R (tok_kind t) (tok_span t) b = Some d" "f R d = Some c"
        by (auto simp: bind_eq_Some_conv)
      from steady_trans [OF do_token_steady [OF d(1)] 1(1) [OF d(2)]] show ?thesis .
    qed (use 1(2) Some in simp)
  qed
qed

lemma token_step_parts:
  assumes "Builder_step R (StepToken k) b = Some c"
  obtains d t p where "steady (settled b) d" "Builder_do_token R k t (d\<lparr>tb_panic := p\<rparr>) = Some c" "p \<longrightarrow> tb_panic d"
proof -
  have "tb_state b \<noteq> PendingStart" using assms by (auto simp: Builder_step_def Builder_token_def)
  then have "Builder_token R k b = do {
     self \<leftarrow> Builder_eat_trivia R (settled b);
     token \<leftarrow> vec_get (tb_tokens self) (tb_token_pos self);
     let self = self\<lparr>tb_panic := tb_panic self \<and>
       (k \<notin> {SEMICOLON, END_KW, ENDNATURE_KW, ENDMODULE_KW, ENDDISCIPLINE_KW, ENDFUNCTION_KW} \<or> tb_err_depth self \<noteq> u32_MAX)\<rparr>;
     Builder_do_token R k (tok_span token) self }"
    by (cases "tb_state b") (simp_all add: Builder_token_def settled_def)
  with assms have "\<exists>d. Builder_eat_trivia R (settled b) = Some d \<and> (\<exists>t. vec_get (tb_tokens d) (tb_token_pos d) = Some t \<and>
     Builder_do_token R k (tok_span t) (d\<lparr>tb_panic := tb_panic d \<and>
       (k \<notin> {SEMICOLON, END_KW, ENDNATURE_KW, ENDMODULE_KW, ENDDISCIPLINE_KW, ENDFUNCTION_KW} \<or> tb_err_depth d \<noteq> u32_MAX)\<rparr>) = Some c)"
    unfolding Builder_step_def step.case Let_def by (simp only: bind_eq_Some_conv)
  then show thesis
  proof (elim exE conjE, goal_cases)
    case (1 d t)
    show thesis by (rule that [OF eat_trivia_steady [OF 1(1)] 1(3)]) simp
  qed
qed

lemma start_step_parts:
  assumes "Builder_step R (StepEnter k) b = Some c" "tb_state b \<noteq> PendingStart"
  shows "tb_err_depth c = (if tb_err_depth b \<noteq> u32_MAX then tb_err_depth b + 1 else if k = ERROR then 0 else u32_MAX) \<and>
    tb_state c \<noteq> PendingStart \<and> tb_errors c = tb_errors b \<and> tb_last_error c = tb_last_error b \<and> tb_panic c = tb_panic b"
proof -
  have "Builder_start_node R k b = do {
      self \<leftarrow> (if tb_err_depth b \<noteq> u32_MAX then Some (settled b\<lparr>tb_err_depth := tb_err_depth b + 1\<rparr>)
            else if k = ERROR then Some (settled b\<lparr>tb_err_depth := 0\<rparr>) else Builder_eat_trivia R (settled b));
      Some (green_push (GStart k) self) }"
    using assms(2) by (cases "tb_state b") (simp_all add: Builder_start_node_def settled_def green_push_def Let_def)
  with assms(1) obtain d where d: "(if tb_err_depth b \<noteq> u32_MAX then Some (settled b\<lparr>tb_err_depth := tb_err_depth b + 1\<rparr>)
            else if k = ERROR then Some (settled b\<lparr>tb_err_depth := 0\<rparr>) else Builder_eat_trivia R (settled b)) = Some d"
    "c = green_push (GStart k) d"
    unfolding Builder_step_def step.case by (auto simp: bind_eq_Some_conv simp del: if_split_asm if_split)
  have "steady (settled b) d" if "tb_err_depth b = u32_MAX" "k \<noteq> ERROR" using that d(1) eat_trivia_steady [of R "settled b" d] by simp
  moreover have "tb_errors (settled b) = tb_errors b" "tb_last_error (settled b) = tb_last_error b"
    by (simp_all add: settled_def green_push_def)
  ultimately show ?thesis using d assms(2) by (cases "tb_err_depth b = u32_MAX"; cases "k = ERROR") (auto simp: steady_def green_push_def)
qed

lemma start_step_errors:
  assumes "Builder_step R (StepEnter k) b = Some c"
  shows "tb_errors c = tb_errors b \<and> tb_last_error c = tb_last_error b \<and> tb_panic c = tb_panic b"
proof (cases "tb_state b = PendingStart")
  case True
  with assms show ?thesis by (auto simp: Builder_step_def Builder_start_node_def green_push_def)
qed (use start_step_parts [OF assms] in simp)

lemma step_errors: "Builder_step R s b = Some c \<Longrightarrow> set (tb_errors b) \<subseteq> set (tb_errors c)"
proof (cases s)
  case (StepToken k)
  assume "Builder_step R s b = Some c"
  with StepToken obtain d t p where d: "steady (settled b) d" "Builder_do_token R k t (d\<lparr>tb_panic := p\<rparr>) = Some c"
    by (auto elim: token_step_parts)
  from d(1) do_token_steady [OF d(2)] show ?thesis by (simp add: steady_def settled_def green_push_def)
next
  case (StepEnter k)
  assume "Builder_step R s b = Some c"
  with StepEnter start_step_errors [of R k b c] show ?thesis by simp
next
  case StepExit
  assume "Builder_step R s b = Some c"
  with StepExit show ?thesis
    by (cases "tb_state b"; cases "tb_last_error b")
      (auto simp: Builder_step_def Builder_finish_node_def Let_def green_push_def)
next
  case (StepError e)
  assume "Builder_step R s b = Some c"
  with StepError show ?thesis
    by (auto simp: Builder_step_def Builder_error_def Let_def bind_eq_Some_conv split: if_splits)
qed

lemma steps_errors: "run_ops (Builder_step R) ss b = Some c \<Longrightarrow> set (tb_errors b) \<subseteq> set (tb_errors c)"
  by (induction ss arbitrary: b) (auto simp: bind_eq_Some_conv dest: step_errors)

lemma error_at_end:
  assumes R: "text_ranges_spec R" and toks: "tokens_ok R db root toks sm" and b: "passed R db toks sm (length toks) b"
    and c: "Builder_step R (StepError err) b = Some c"
  shows "\<exists>e \<in> set (tb_errors c). ut_expected e = expected err \<and> ut_found e = found err \<and>
    tr_start R (ut_span e) = offset_of R toks (length toks)"
proof -
  let ?all = "offset_of R toks (length toks)" and ?len = "if toks = [] then 0 else token_len R (last toks)"
  have bs: "tb_tokens b = toks" "tb_token_pos b = length toks" "tb_text_pos b = ?all" using b unfolding passed_def by auto
  have half: "2 * ?all < 2 ^ 32" using toks by (simp add: tokens_ok_def)
  have "?len \<le> ?all" using member_le_sum_list [of "token_len R (last toks)" "map (token_len R) toks"] by simp
  then have "?all + ?len < 2 ^ 32" using half by linarith
  from text_rangesD(5) [OF R this] obtain r where r: "tr_at R ?all ?len = Some r" "tr_start R r = ?all" by blast
  obtain ea where "expected_at R err ?all = Some ea" using expected_at_ok [OF R, of ?all err] half by auto
  moreover have "ts_add R ?all 0 = Some ?all" using text_rangesD(13) [OF R, of ?all 0] half by simp
  ultimately have "Builder_step R (StepError err) b = Some (b\<lparr>tb_errors := tb_errors b @ [\<lparr>ut_expected = expected err, ut_found = found err,
      ut_span = r, ut_panic_end = None, ut_expected_at = ea, ut_missing_delimiter = (found err = END_KW)\<rparr>]\<rparr>)"
    using bs r(1) by (cases "toks = []") (simp_all add: Builder_step_def Builder_error_def leading_trivia_def Let_def)
  with c r(2) show ?thesis by auto
qed

lemma finish_errors: "Builder_finish R green b = Some (g, errs, ranges) \<Longrightarrow> errs = tb_errors b"
  by (auto simp: Builder_finish_def Let_def bind_eq_Some_conv green_push_def steady_def dest!: eat_trivia_steady split: builder_state.splits)

section \<open>Reported errors\<close>

definition has_errors :: "step list \<Rightarrow> bool" where
  "has_errors ss \<longleftrightarrow> (\<exists>e. StepError e \<in> set ss)"

text \<open>
  \<open>seen\<close> says that the parser has reported an error. Then there is one in the builder; one that waits for the end of
  its node is inside a node for errors.
\<close>

definition reports :: "bool \<Rightarrow> 'r tree_builder \<Rightarrow> bool" where
  "reports seen b \<longleftrightarrow> (seen \<longrightarrow> tb_errors b \<noteq> [] \<or> tb_last_error b \<noteq> None) \<and>
     (\<not> seen \<longrightarrow> tb_errors b = [] \<and> tb_last_error b = None \<and> \<not> tb_panic b) \<and>
     (tb_last_error b \<noteq> None \<longrightarrow> tb_err_depth b \<noteq> u32_MAX)"

lemma has_errors_simps [simp]:
  "\<not> has_errors []" "has_errors (StepToken k # ss) = has_errors ss" "has_errors (StepEnter k # ss) = has_errors ss"
  "has_errors (StepExit # ss) = has_errors ss" "has_errors (StepError e # ss)"
  "has_errors (ss @ ss') \<longleftrightarrow> has_errors ss \<or> has_errors ss'"
  by (auto simp: has_errors_def)

lemma reports_token:
  assumes "Builder_step R (StepToken k) b = Some c" "reports seen b"
  shows "reports seen c \<and> tb_err_depth c = tb_err_depth b \<and> tb_state c \<noteq> PendingStart"
proof -
  obtain d t p where d: "steady (settled b) d" "Builder_do_token R k t (d\<lparr>tb_panic := p\<rparr>) = Some c" "p \<longrightarrow> tb_panic d"
    by (rule token_step_parts [OF assms(1)])
  have "tb_state b \<noteq> PendingStart" using assms(1) by (auto simp: Builder_step_def Builder_token_def)
  with d(1,3) do_token_steady [OF d(2)] assms(2) show ?thesis
    by (auto simp: steady_def settled_def reports_def green_push_def split: if_splits)
qed

lemma reports_enter:
  assumes "Builder_step R (StepEnter k) b = Some c" "reports seen b" "tb_state b \<noteq> PendingStart" "depth_room (tb_err_depth b) 1"
  shows "reports seen c \<and> tb_state c \<noteq> PendingStart \<and>
    tb_err_depth c = (if tb_err_depth b \<noteq> u32_MAX then tb_err_depth b + 1 else if k = ERROR then 0 else u32_MAX)"
proof -
  from start_step_errors [OF assms(1)] have same: "tb_errors c = tb_errors b" "tb_last_error c = tb_last_error b" "tb_panic c = tb_panic b" by simp_all
  let ?d = "if tb_err_depth b \<noteq> u32_MAX then tb_err_depth b + 1 else if k = ERROR then 0 else u32_MAX"
  have "tb_err_depth c = ?d \<and> tb_state c \<noteq> PendingStart"
    using assms(1,3) start_step_parts [OF assms(1,3)] by auto
  moreover from this have "tb_err_depth b \<noteq> u32_MAX \<longrightarrow> tb_err_depth c \<noteq> u32_MAX" using assms(4) by (auto simp: depth_room_def)
  ultimately show ?thesis using assms(2) same by (simp add: reports_def)
qed

lemma reports_exit:
  assumes "Builder_step R StepExit b = Some c" "reports seen b" "tb_err_depth b \<le> u32_MAX"
  shows "reports seen c \<and> tb_state c \<noteq> PendingStart \<and>
    tb_err_depth c = (if tb_err_depth b = 0 then u32_MAX else if tb_err_depth b \<noteq> u32_MAX then tb_err_depth b - 1 else u32_MAX)"
proof -
  have st: "tb_state b \<noteq> PendingStart" using assms(1) by (auto simp: Builder_step_def Builder_finish_node_def)
  show ?thesis
  proof (cases "tb_err_depth b = 0")
    case True
    with assms(1,2) st show ?thesis
      by (cases "tb_state b"; cases "tb_last_error b")
        (auto simp: Builder_step_def Builder_finish_node_def Let_def green_push_def reports_def)
  next
    case False
    with assms st show ?thesis
      by (cases "tb_state b"; cases "tb_err_depth b = u32_MAX")
        (auto simp: Builder_step_def Builder_finish_node_def Let_def green_push_def reports_def)
  qed
qed

lemma error_step_parts:
  assumes "Builder_step R (StepError e) b = Some c"
  shows "tb_err_depth c = tb_err_depth b \<and> tb_state c = tb_state b \<and>
    (tb_errors c \<noteq> [] \<and> tb_last_error c = tb_last_error b \<or>
     tb_errors c = tb_errors b \<and> tb_last_error c = tb_last_error b \<and> (tb_panic b \<or> tb_last_error b \<noteq> None) \<or> tb_last_error c \<noteq> None)"
  using assms unfolding Builder_step_def step.case Builder_error_def Let_def bind_eq_Some_conv [of "rust_assert _"]
    bind_eq_Some_conv [of "sum_lens _ _ _"] bind_eq_Some_conv [of "ts_add _ _ _"]
proof (elim exE conjE, goal_cases)
  case (1 u sm tpos)
  let ?n = "length (leading_trivia (drop (tb_token_pos b) (tb_tokens b)))"
  show ?case
  proof (cases "tb_token_pos b + ?n = length (tb_tokens b)")
    case True
    with 1 show ?thesis by (auto simp: bind_eq_Some_conv)
  next
    case False
    show ?thesis
    proof (cases "tb_panic b \<and> found e \<noteq> END_KW \<or> tb_last_error b \<noteq> None")
      case True
      with 1 False show ?thesis by (auto simp: bind_eq_Some_conv)
    next
      case no: False
      with 1 False show ?thesis by (auto simp: bind_eq_Some_conv)
    qed
  qed
qed

lemma reports_error:
  assumes "Builder_step R (StepError e) b = Some c" "reports seen b" "tb_err_depth b \<noteq> u32_MAX"
  shows "reports True c \<and> tb_err_depth c = tb_err_depth b \<and> tb_state c = tb_state b"
  using error_step_parts [OF assms(1)] assms(2,3) by (cases seen) (auto simp: reports_def)

lemma reports_forest:
  assumes each: "\<And>t b c seen. t \<in> set ts \<Longrightarrow> run_ops (Builder_step R) (tree_steps t) b = Some c \<Longrightarrow> reports seen b \<Longrightarrow>
      tb_state b \<noteq> PendingStart \<Longrightarrow> errors_framed (tb_err_depth b \<noteq> u32_MAX) t \<Longrightarrow> depth_room (tb_err_depth b) (length (tree_steps t)) \<Longrightarrow>
      reports (seen \<or> has_errors (tree_steps t)) c \<and> tb_err_depth c = tb_err_depth b \<and> tb_state c \<noteq> PendingStart"
    and run: "run_ops (Builder_step R) (forest_steps ts) b = Some c" "reports seen b" "tb_state b \<noteq> PendingStart"
      "list_all (errors_framed (tb_err_depth b \<noteq> u32_MAX)) ts" "depth_room (tb_err_depth b) (length (forest_steps ts))"
  shows "reports (seen \<or> has_errors (forest_steps ts)) c \<and> tb_err_depth c = tb_err_depth b \<and> tb_state c \<noteq> PendingStart"
  using assms
proof (induction ts arbitrary: b seen)
  case (Cons t ts)
  have room: "depth_room (tb_err_depth b) (length (tree_steps t))" "depth_room (tb_err_depth b) (length (forest_steps ts))"
    by (rule depth_room_le [OF Cons.prems(6)]; simp)+
  from Cons.prems(2) obtain d where d: "run_ops (Builder_step R) (tree_steps t) b = Some d" "run_ops (Builder_step R) (forest_steps ts) d = Some c"
    by (auto simp: run_ops_append bind_eq_Some_conv)
  have t: "reports (seen \<or> has_errors (tree_steps t)) d \<and> tb_err_depth d = tb_err_depth b \<and> tb_state d \<noteq> PendingStart"
    by (rule Cons.prems(1) [OF _ d(1) Cons.prems(3,4) _ room(1)]) (use Cons.prems(5) in simp_all)
  have "reports ((seen \<or> has_errors (tree_steps t)) \<or> has_errors (forest_steps ts)) c \<and> tb_err_depth c = tb_err_depth d \<and> tb_state c \<noteq> PendingStart"
    by (rule Cons.IH [OF Cons.prems(1) d(2)]) (use t Cons.prems(5) room(2) in auto)
  with t show ?case by (simp add: disj_assoc)
qed simp

lemma reports_tree:
  "run_ops (Builder_step R) (tree_steps t) b = Some c \<Longrightarrow> reports seen b \<Longrightarrow> tb_state b \<noteq> PendingStart \<Longrightarrow>
    errors_framed (tb_err_depth b \<noteq> u32_MAX) t \<Longrightarrow> depth_room (tb_err_depth b) (length (tree_steps t)) \<Longrightarrow>
    reports (seen \<or> has_errors (tree_steps t)) c \<and> tb_err_depth c = tb_err_depth b \<and> tb_state c \<noteq> PendingStart"
proof (induction t arbitrary: b c seen)
  case (Leaf k)
  then have "Builder_step R (StepToken k) b = Some c" by (cases "Builder_step R (StepToken k) b") simp_all
  from reports_token [OF this Leaf.prems(2)] show ?case by simp
next
  case (ErrLeaf e)
  then have "Builder_step R (StepError e) b = Some c" by (cases "Builder_step R (StepError e) b") simp_all
  from reports_error [OF this ErrLeaf.prems(2)] ErrLeaf.prems(3,4) show ?case by simp
next
  case (Node k ts)
  from Node.prems(1) obtain d f where d: "Builder_step R (StepEnter k) b = Some d" "run_ops (Builder_step R) (forest_steps ts) d = Some f"
    "Builder_step R StepExit f = Some c" by (auto simp: run_ops_append bind_eq_Some_conv)
  have room: "depth_room (tb_err_depth b) 1" by (rule depth_room_le [OF Node.prems(5)]) simp
  note en = reports_enter [OF d(1) Node.prems(2,3) room]
  have "depth_room (tb_err_depth d) (length (forest_steps ts))" using en Node.prems(5) unfolding depth_room_def by auto
  moreover have "list_all (errors_framed (tb_err_depth d \<noteq> u32_MAX)) ts"
  proof -
    have "(tb_err_depth d \<noteq> u32_MAX) = (tb_err_depth b \<noteq> u32_MAX \<or> k = ERROR)" using en Node.prems(5) unfolding depth_room_def by auto
    then show ?thesis using Node.prems(4) by simp
  qed
  ultimately have f: "reports (seen \<or> has_errors (forest_steps ts)) f \<and> tb_err_depth f = tb_err_depth d \<and> tb_state f \<noteq> PendingStart"
    using reports_forest [OF Node.IH d(2)] en by blast
  have "tb_err_depth f \<le> u32_MAX" using f en Node.prems(5) unfolding depth_room_def by auto
  with reports_exit [OF d(3)] f have c: "reports (seen \<or> has_errors (forest_steps ts)) c \<and> tb_state c \<noteq> PendingStart \<and>
    tb_err_depth c = (if tb_err_depth f = 0 then u32_MAX else if tb_err_depth f \<noteq> u32_MAX then tb_err_depth f - 1 else u32_MAX)" by blast
  then have "tb_err_depth c = tb_err_depth b" using f en Node.prems(5) unfolding depth_room_def by (auto split: if_splits)
  with c show ?case by simp
qed

section \<open>Examples\<close>

text \<open>
  The file \<^verbatim>\<open>nature `m;endnaturea\<close>, in which the macro \<^verbatim>\<open>m\<close> stands for its last letter, and the file \<^verbatim>\<open>nature\<close>.
\<close>

definition example_text :: text_bytes where
  "example_text = [110, 97, 116, 117, 114, 101, 32, 96, 109, 59, 101, 110, 100, 110, 97, 116, 117, 114, 101, 97]"

definition example_sources :: "file_id \<Rightarrow> text_bytes option" where
  "example_sources f = (if f = 0 then Some example_text else None)"

definition example :: "bounded_range preprocessed" where
  "example =
     \<lparr>pp_ts = [\<lparr>tok_span = \<lparr>cs_range = between 0 6, cs_ctx = 0\<rparr>, tok_kind = NATURE_KW\<rparr>,
               \<lparr>tok_span = \<lparr>cs_range = between 6 7, cs_ctx = 0\<rparr>, tok_kind = WHITESPACE\<rparr>,
               \<lparr>tok_span = \<lparr>cs_range = between 0 1, cs_ctx = 1\<rparr>, tok_kind = IDENT\<rparr>,
               \<lparr>tok_span = \<lparr>cs_range = between 9 10, cs_ctx = 0\<rparr>, tok_kind = SEMICOLON\<rparr>,
               \<lparr>tok_span = \<lparr>cs_range = between 10 19, cs_ctx = 0\<rparr>, tok_kind = ENDNATURE_KW\<rparr>],
      pp_sm = [\<lparr>sc_decl = \<lparr>fs_range = between 0 20, fs_file = 0\<rparr>, sc_call_site = None\<rparr>,
               \<lparr>sc_decl = \<lparr>fs_range = between 19 20, fs_file = 0\<rparr>, sc_call_site = Some \<lparr>cs_range = between 7 9, cs_ctx = 0\<rparr>\<rparr>]\<rparr>"

definition short_example :: "bounded_range preprocessed" where
  "short_example =
     \<lparr>pp_ts = [\<lparr>tok_span = \<lparr>cs_range = between 0 6, cs_ctx = 0\<rparr>, tok_kind = NATURE_KW\<rparr>],
      pp_sm = [\<lparr>sc_decl = \<lparr>fs_range = between 0 20, fs_file = 0\<rparr>, sc_call_site = None\<rparr>]\<rparr>"

lemmas example_simps = bounded_ranges_simps bounds_between token_text_def CtxSpan_to_file_span_def FileSpan_with_subrange_def
  str_slice_def is_char_boundary_def slice_range_def example_sources_def example_text_def

lemma example_tokens: "tokens_ok bounded_ranges example_sources 0 (pp_ts example) (pp_sm example)"
  by (simp add: tokens_ok_def example_def example_simps)

lemma short_example_tokens: "tokens_ok bounded_ranges example_sources 0 (pp_ts short_example) (pp_sm short_example)"
  by (simp add: tokens_ok_def short_example_def example_simps)

lemma example_kinds:
  "syntax_kinds (pp_ts example) = [NATURE_KW, IDENT, SEMICOLON, ENDNATURE_KW]" "syntax_kinds (pp_ts short_example) = [NATURE_KW]"
  by (simp_all add: syntax_kinds_def example_def short_example_def SyntaxKind_is_trivia_def)

lemma example_ok: "\<exists>out. parse_input_ok bounded_ranges 12 example_sources 0 example out"
proof -
  have "case parser_parse 12 [NATURE_KW, IDENT, SEMICOLON, ENDNATURE_KW] of None \<Rightarrow> False
    | Some out \<Rightarrow> length (out_error out) = 0 \<and> length (the (Output_iter out)) = 10" by code_simp
  then obtain out where "parser_parse 12 [NATURE_KW, IDENT, SEMICOLON, ENDNATURE_KW] = Some out" "length (out_error out) = 0"
    "length (the (Output_iter out)) = 10" by (auto split: option.splits)
  with bounded_ranges_spec example_tokens have "parse_input_ok bounded_ranges 12 example_sources 0 example out"
    unfolding parse_input_ok_def example_kinds by (simp add: example_def)
  then show ?thesis by blast
qed

lemma short_example_ok: "\<exists>out. parse_input_ok bounded_ranges 12 example_sources 0 short_example out \<and>
    Output_iter out = Some ([StepEnter SOURCE_FILE, StepEnter NATURE_DECL, StepToken NATURE_KW, StepEnter ERROR,
      StepError \<lparr>expected = [NAME], found = EOF\<rparr>, StepExit, StepEnter ERROR] @
      StepError \<lparr>expected = [ENDNATURE_KW], found = EOF\<rparr> # [StepExit, StepExit, StepExit])"
proof -
  let ?ss = "[StepEnter SOURCE_FILE, StepEnter NATURE_DECL, StepToken NATURE_KW, StepEnter ERROR,
      StepError \<lparr>expected = [NAME], found = EOF\<rparr>, StepExit, StepEnter ERROR,
      StepError \<lparr>expected = [ENDNATURE_KW], found = EOF\<rparr>, StepExit, StepExit, StepExit]"
  have "case parser_parse 12 [NATURE_KW] of None \<Rightarrow> False | Some out \<Rightarrow> length (out_error out) = 2 \<and> Output_iter out = Some ?ss"
    by code_simp
  then obtain out where out: "parser_parse 12 [NATURE_KW] = Some out" "length (out_error out) = 2" "Output_iter out = Some ?ss"
    by (auto split: option.splits)
  with bounded_ranges_spec short_example_tokens have "parse_input_ok bounded_ranges 12 example_sources 0 short_example out"
    unfolding parse_input_ok_def example_kinds by (simp add: short_example_def)
  with out(3) show ?thesis by auto
qed

lemma parse_text_returns:
  assumes "parse_input_ok R n sources root pp out"
  shows "\<exists>g errs ranges. parse_text R (\<lambda>calls. Some calls) n sources root pp = Some (g, errs, ranges)"
proof -
  obtain gs errs ranges where "\<forall>green :: green_call list \<Rightarrow> green_call list panics. parse_text R green n sources root pp =
       do { g \<leftarrow> green (green_calls (GNode SOURCE_FILE gs)); Some (g, errs, ranges) }"
    using parse_text_run [OF assms, where 'g = "green_call list"] by metis
  then show ?thesis by simp
qed

section \<open>The tree and the context map\<close>

text \<open>C3: The syntax tree is lossless. Whatever the input, for which the parser returns an output, and whatever its
syntax errors, \<open>parse_text\<close> makes exactly the calls to the tree builder of rowan that describe one
tree: its root is SOURCE_FILE, its leaves are all tokens of the preprocessor in their order, white space and
comments included, each with its kind and the text that its span stands for, and without white space, comments
and errors it is the parser's tree. So no call is made out of turn, none of the panics of the builder is reached, and the only
panic left is one of rowan.\<close>
theorem syntax_tree_lossless:
  fixes green :: "green_call list \<Rightarrow> 'g panics"
  assumes "parse_input_ok R n sources root pp out"
  shows "\<exists>ts gs errs ranges. Output_iter out = Some (StepEnter SOURCE_FILE # forest_steps ts @ [StepExit]) \<and>
    green_leaves (GNode SOURCE_FILE gs) = map (\<lambda>t. (tok_kind t, the (token_text R sources (pp_sm pp) t))) (pp_ts pp) \<and>
    green_strip (GNode SOURCE_FILE gs) = drop_errors (Node SOURCE_FILE ts) \<and>
    parse_text R green n sources root pp = map_option (\<lambda>g. (g, errs, ranges)) (green (green_calls (GNode SOURCE_FILE gs)))"
proof -
  obtain ts gs errs ranges where run:
    "Output_iter out = Some (StepEnter SOURCE_FILE # forest_steps ts @ [StepExit])"
    "forest_strip gs = concat (map drop_errors ts)" "forest_leaves gs = map (leaf_of R sources (pp_sm pp)) (pp_ts pp)"
    "\<forall>green :: green_call list \<Rightarrow> 'g panics. parse_text R green n sources root pp = do { g \<leftarrow> green (green_calls (GNode SOURCE_FILE gs)); Some (g, errs, ranges) }"
    using parse_text_run [OF assms, where 'g = 'g] by metis
  from run(4) have "parse_text R green n sources root pp = map_option (\<lambda>g. (g, errs, ranges)) (green (green_calls (GNode SOURCE_FILE gs)))"
    by (cases "green (green_calls (GNode SOURCE_FILE gs))") simp_all
  with run(1-3) show ?thesis
    by (intro exI [of _ ts] exI [of _ gs] exI [of _ errs] exI [of _ ranges]) (simp add: leaf_of_def [abs_def])
qed

theorem syntax_tree_lossless_witness:
  "\<exists>out ts gs errs ranges. Output_iter out = Some (StepEnter SOURCE_FILE # forest_steps ts @ [StepExit]) \<and>
    green_leaves (GNode SOURCE_FILE gs) =
      [(NATURE_KW, [110, 97, 116, 117, 114, 101]), (WHITESPACE, [32]), (IDENT, [97]), (SEMICOLON, [59]),
       (ENDNATURE_KW, [101, 110, 100, 110, 97, 116, 117, 114, 101])] \<and>
    green_strip (GNode SOURCE_FILE gs) = drop_errors (Node SOURCE_FILE ts) \<and>
    parse_text bounded_ranges (\<lambda>calls. Some calls) 12 example_sources 0 example = Some (green_calls (GNode SOURCE_FILE gs), errs, ranges)"
proof -
  obtain out where out: "parse_input_ok bounded_ranges 12 example_sources 0 example out" using example_ok by blast
  have "map (\<lambda>t. (tok_kind t, the (token_text bounded_ranges example_sources (pp_sm example) t))) (pp_ts example) =
      [(NATURE_KW, [110, 97, 116, 117, 114, 101]), (WHITESPACE, [32]), (IDENT, [97]), (SEMICOLON, [59]),
       (ENDNATURE_KW, [101, 110, 100, 110, 97, 116, 117, 114, 101])]" by (simp add: example_def example_simps)
  note leaves = this
  from syntax_tree_lossless [OF out, of "\<lambda>calls. Some calls"] show ?thesis unfolding leaves option.map by blast
qed

lemma run_ranges:
  fixes green :: "green_call list \<Rightarrow> 'g panics"
  assumes ok: "parse_input_ok R n sources root pp out" and p: "parse_text R green n sources root pp = Some (g, errs, ranges)"
  defines "toks \<equiv> pp_ts pp"
  shows "tiled R 0 ranges (offset_of R toks (length toks)) \<and>
    (\<forall>i < length toks. \<exists>m \<in> set ranges. entry_covers (offset_of R toks i) (token_len R (toks ! i)) (cs_ctx (tok_span (toks ! i)))
            (tr_start R (cs_range (tok_span (toks ! i)))) (entry_of R m))"
proof -
  obtain gs errs' ranges' where run:
    "\<forall>green :: green_call list \<Rightarrow> 'g panics. parse_text R green n sources root pp = do { g \<leftarrow> green (green_calls (GNode SOURCE_FILE gs)); Some (g, errs', ranges') }"
    "tiled R 0 ranges' (offset_of R (pp_ts pp) (length (pp_ts pp)))"
    "\<forall>i < length (pp_ts pp). \<exists>m \<in> set ranges'. entry_covers (offset_of R (pp_ts pp) i) (token_len R (pp_ts pp ! i)) (cs_ctx (tok_span (pp_ts pp ! i)))
            (tr_start R (cs_range (tok_span (pp_ts pp ! i)))) (entry_of R m)"
    using parse_text_run [OF ok, where 'g = 'g] by metis
  from run(1) p have "ranges' = ranges" by (auto simp: bind_eq_Some_conv)
  with run(2,3) show ?thesis unfolding toks_def by simp
qed

text \<open>C4: The context map leads from the tree back to the source. A position of the tree has an entry of the map
exactly if it lies before the end of the text. The place of a token in the tree, which follows the texts of the
tokens before it, leads to the very span that the preprocessor gave the token, in its context, however many
files and macros the text is put together from.\<close>
theorem context_map_leads_back:
  assumes "parse_input_ok R n sources root pp out" "parse_text R green n sources root pp = Some (g, errs, ranges)"
    "txts = map (\<lambda>t. the (token_text R sources (pp_sm pp) t)) (pp_ts pp)"
  shows "(\<forall>p. Parse_find_ctx_range R ranges p \<noteq> None \<longleftrightarrow> p < length (concat txts)) \<and>
    (\<forall>i < length (pp_ts pp). \<forall>rng. tr_start R rng = length (concat (take i txts)) \<longrightarrow> tr_len R rng = length (txts ! i) \<longrightarrow>
      txts ! i \<noteq> [] \<longrightarrow> Parse_to_ctx_span R ranges rng (pp_sm pp) = Some (tok_span (pp_ts pp ! i)))"
proof -
  let ?toks = "pp_ts pp"
  have R: "text_ranges_spec R" and T: "tokens_ok R sources root ?toks (pp_sm pp)" using assms(1) by (simp_all add: parse_input_ok_def)
  have txts: "txts = map (\<lambda>t. snd (leaf_of R sources (pp_sm pp) t)) ?toks" by (simp add: assms(3) leaf_of_def)
  have off: "offset_of R ?toks i = length (concat (take i txts))" for i
    unfolding txts take_map by (rule offset_text [OF R T])
  have tiled: "tiled R 0 ranges (length (concat txts))"
    and cov: "\<forall>i < length ?toks. \<exists>m \<in> set ranges. entry_covers (length (concat (take i txts))) (token_len R (?toks ! i)) (cs_ctx (tok_span (?toks ! i)))
            (tr_start R (cs_range (tok_span (?toks ! i)))) (entry_of R m)"
    using run_ranges [OF assms(1,2)] off [of "length ?toks"] unfolding off by (simp_all add: txts)
  have "Parse_to_ctx_span R ranges rng (pp_sm pp) = Some (tok_span (?toks ! i))"
    if i: "i < length ?toks" and rng: "tr_start R rng = length (concat (take i txts))" "tr_len R rng = length (txts ! i)" "txts ! i \<noteq> []" for i rng
  proof -
    have len: "length (txts ! i) = token_len R (?toks ! i)"
      using leaf_length [OF R T nth_mem [OF i]] i by (simp add: txts)
    from cov i obtain m where m: "m \<in> set ranges" "entry_covers (tr_start R rng) (tr_len R rng) (cs_ctx (tok_span (?toks ! i)))
            (tr_start R (cs_range (tok_span (?toks ! i)))) (entry_of R m)" using rng len by auto
    have "Parse_to_ctx_span R ranges rng (pp_sm pp) = Some \<lparr>cs_range = cs_range (tok_span (?toks ! i)), cs_ctx = cs_ctx (tok_span (?toks ! i))\<rparr>"
      by (rule to_ctx_span_ok [OF R tiled m]) (use rng len in \<open>simp_all flip: length_greater_0_conv\<close>)
    then show ?thesis by simp
  qed
  with find_ctx_range_iff [OF R tiled] show ?thesis by blast
qed

theorem context_map_leads_back_witness:
  "\<exists>g errs ranges. parse_text bounded_ranges (\<lambda>calls. Some calls) 12 example_sources 0 example = Some (g, errs, ranges) \<and>
    Parse_find_ctx_range bounded_ranges ranges 17 \<noteq> None \<and> Parse_find_ctx_range bounded_ranges ranges 18 = None \<and>
    Parse_to_ctx_span bounded_ranges ranges (between 7 8) (pp_sm example) = Some \<lparr>cs_range = between 0 1, cs_ctx = 1\<rparr> \<and>
    Parse_to_ctx_span bounded_ranges ranges (between 9 18) (pp_sm example) = Some \<lparr>cs_range = between 10 19, cs_ctx = 0\<rparr>"
proof -
  obtain out where out: "parse_input_ok bounded_ranges 12 example_sources 0 example out" using example_ok by blast
  obtain g errs ranges where p: "parse_text bounded_ranges (\<lambda>calls. Some calls) 12 example_sources 0 example = Some (g, errs, ranges)"
    using parse_text_returns [OF out] by blast
  let ?txts = "[[110, 97, 116, 117, 114, 101], [32], [97], [59], [101, 110, 100, 110, 97, 116, 117, 114, 101]] :: text_bytes list"
  have txts: "?txts = map (\<lambda>t. the (token_text bounded_ranges example_sources (pp_sm example) t)) (pp_ts example)"
    by (simp add: example_def example_simps)
  have len: "length (pp_ts example) = 5" by (simp add: example_def)
  note leads_back = context_map_leads_back [OF out p txts]
  from leads_back have "\<forall>p. Parse_find_ctx_range bounded_ranges ranges p \<noteq> None \<longleftrightarrow> p < length (concat ?txts)" by (rule conjunct1)
  then have "Parse_find_ctx_range bounded_ranges ranges 17 \<noteq> None \<longleftrightarrow> 17 < length (concat ?txts)"
    "\<not> 18 < length (concat ?txts) \<longrightarrow> Parse_find_ctx_range bounded_ranges ranges 18 = None" by blast+
  then have found: "Parse_find_ctx_range bounded_ranges ranges 17 \<noteq> None" "Parse_find_ctx_range bounded_ranges ranges 18 = None"
    by (simp only: list.size concat.simps append.simps, simp)+
  from leads_back have at_token: "\<forall>i < length (pp_ts example). \<forall>rng. tr_start bounded_ranges rng = length (concat (take i ?txts)) \<longrightarrow>
      tr_len bounded_ranges rng = length (?txts ! i) \<longrightarrow> ?txts ! i \<noteq> [] \<longrightarrow>
      Parse_to_ctx_span bounded_ranges ranges rng (pp_sm example) = Some (tok_span (pp_ts example ! i))" by (rule conjunct2)
  have "Parse_to_ctx_span bounded_ranges ranges (between 7 8) (pp_sm example) = Some (tok_span (pp_ts example ! 2))"
    by (rule at_token [rule_format]) (simp_all add: len bounded_ranges_simps bounds_between)
  moreover have "Parse_to_ctx_span bounded_ranges ranges (between 9 18) (pp_sm example) = Some (tok_span (pp_ts example ! 4))"
    by (rule at_token [rule_format]) (simp_all add: len bounded_ranges_simps bounds_between)
  ultimately have "Parse_to_ctx_span bounded_ranges ranges (between 7 8) (pp_sm example) = Some \<lparr>cs_range = between 0 1, cs_ctx = 1\<rparr>"
    "Parse_to_ctx_span bounded_ranges ranges (between 9 18) (pp_sm example) = Some \<lparr>cs_range = between 10 19, cs_ctx = 0\<rparr>"
    by (simp_all add: example_def)
  with p found show ?thesis by (intro exI [of _ g] exI [of _ errs] exI [of _ ranges] conjI)
qed

text \<open>C5: No syntax error gets lost. The tree builder keeps only one error of a broken part of the file and lets the errors that
follow from it go, but it reports an error exactly if the parser found one: a file for which the list of errors is
empty is one that the parser accepted.\<close>
theorem errors_reported:
  assumes "parse_input_ok R n sources root pp out" "parse_text R green n sources root pp = Some (g, errs, ranges)"
  shows "errs = [] \<longleftrightarrow> (\<forall>e. StepError e \<notin> set (the (Output_iter out)))"
proof -
  let ?toks = "pp_ts pp" and ?sm = "pp_sm pp"
  have R: "text_ranges_spec R" and T: "tokens_ok R sources root ?toks ?sm" and P: "parser_parse n (syntax_kinds ?toks) = Some out"
    and S: "length (the (Output_iter out)) < u32_MAX" using assms(1) by (simp_all add: parse_input_ok_def)
  obtain ts where ts: "Output_iter out = Some (StepEnter SOURCE_FILE # forest_steps ts @ [StepExit])" "list_all (errors_framed False) ts"
    using parse_output_tree [OF P] assms(1) unfolding parse_input_ok_def syntax_kinds_def by fastforce
  let ?b = "Builder_new R sources root ?toks ?sm"
  from assms(2) P ts(1) obtain b c d where run: "Builder_step R (StepEnter SOURCE_FILE) ?b = Some b"
    "run_ops (Builder_step R) (forest_steps ts) b = Some c" "Builder_step R StepExit c = Some d" "Builder_finish R green d = Some (g, errs, ranges)"
    by (auto simp: parse_text_def syntax_kinds_def run_ops_append bind_eq_Some_conv)
  have b: "reports False b" "tb_err_depth b = u32_MAX" "tb_state b \<noteq> PendingStart"
    using run(1) by (auto simp: Builder_step_def Builder_start_node_def Builder_new_def reports_def green_push_def Let_def)
  have "depth_room (tb_err_depth b) (length (forest_steps ts))" using S ts(1) b(2) by (simp add: depth_room_def)
  then have c: "reports (False \<or> has_errors (forest_steps ts)) c \<and> tb_err_depth c = tb_err_depth b \<and> tb_state c \<noteq> PendingStart"
    using reports_forest [OF reports_tree run(2) b(1,3)] ts(2) b(2) by simp
  then have "reports (has_errors (forest_steps ts)) d \<and> tb_err_depth d = u32_MAX"
    using reports_exit [OF run(3), of "has_errors (forest_steps ts)"] b(2) by simp
  then have "tb_errors d = [] \<longleftrightarrow> \<not> has_errors (forest_steps ts)" by (auto simp: reports_def)
  then show ?thesis using finish_errors [OF run(4)] ts(1) by (simp add: has_errors_def)
qed

theorem errors_reported_witness:
  "\<exists>g errs ranges. parse_text bounded_ranges (\<lambda>calls. Some calls) 12 example_sources 0 short_example = Some (g, errs, ranges) \<and> errs \<noteq> []"
proof -
  obtain out ss e ss' where out: "parse_input_ok bounded_ranges 12 example_sources 0 short_example out" "Output_iter out = Some (ss @ StepError e # ss')"
    using short_example_ok by blast
  obtain g errs ranges where p: "parse_text bounded_ranges (\<lambda>calls. Some calls) 12 example_sources 0 short_example = Some (g, errs, ranges)"
    using parse_text_returns [OF out(1)] by blast
  from errors_reported [OF out(1) p] out(2) have "errs \<noteq> []" by auto
  with p show ?thesis by blast
qed

text \<open>C6: A syntax error at the end of a file that does not end in white space or a comment cannot be shown. Its span
starts where the text ends; no entry of the context map covers that position, so the conversion of the span, which
every report of the error makes, panics.\<close>
theorem error_at_end_not_located:
  assumes "parse_input_ok R n sources root pp out" "parse_text R green n sources root pp = Some (g, errs, ranges)"
    "Output_iter out = Some (ss @ StepError err # ss')" "step_tokens ss' = []"
    "pp_ts pp \<noteq> [] \<longrightarrow> \<not> SyntaxKind_is_trivia (tok_kind (last (pp_ts pp)))"
  shows "\<exists>e \<in> set errs. ut_expected e = expected err \<and> ut_found e = found err \<and> Parse_to_ctx_span R ranges (ut_span e) (pp_sm pp) = None"
proof -
  let ?toks = "pp_ts pp" and ?sm = "pp_sm pp"
  have R: "text_ranges_spec R" and T: "tokens_ok R sources root ?toks ?sm" and P: "parser_parse n (syntax_kinds ?toks) = Some out"
    using assms(1) by (simp_all add: parse_input_ok_def)
  obtain ts where ts: "Output_iter out = Some (StepEnter SOURCE_FILE # forest_steps ts @ [StepExit])" "forest_tokens ts = syntax_kinds ?toks"
    using parse_output_tree [OF P] assms(1) unfolding parse_input_ok_def syntax_kinds_def by fastforce
  with assms(3) obtain ss1 where ss: "ss = StepEnter SOURCE_FILE # ss1" "ss1 @ StepError err # ss' = forest_steps ts @ [StepExit]"
    by (cases ss) auto
  let ?b = "Builder_new R sources root ?toks ?sm"
  obtain b where b: "Builder_step R (StepEnter SOURCE_FILE) ?b = Some b" "passed R sources ?toks ?sm 0 b" "tb_state b = NormalState"
    by (rule first_step [OF R T])
  have kinds: "syntax_kinds (drop 0 ?toks) = step_tokens (ss1 @ StepError err # ss')"
    unfolding ss(2) using ts(2) by (simp add: step_tokens_forest)
  from steps_pass [OF R T b(2) _ kinds] b(3) obtain k c where c: "run_ops (Builder_step R) ss1 b = Some c" "passed R sources ?toks ?sm k c"
    "syntax_kinds (drop k ?toks) = []" using assms(4) by auto
  have k: "k = length ?toks"
  proof (rule ccontr)
    assume "k \<noteq> length ?toks"
    with c(2) have "drop k ?toks \<noteq> []" by (auto simp: passed_def)
    then have "last ?toks \<in> set (drop k ?toks)" "?toks \<noteq> []" by (metis last_drop last_in_set drop_eq_Nil not_le, auto)
    with c(3) assms(5) show False by (auto simp: syntax_kinds_def filter_empty_conv)
  qed
  let ?all = "offset_of R ?toks (length ?toks)"
  have cs: "tb_tokens c = ?toks" "tb_token_pos c = length ?toks" "tb_text_pos c = ?all" using c(2) k by (auto simp: passed_def)
  obtain d where d: "Builder_step R (StepError err) c = Some d" by (rule error_step_ok [OF R T c(2)])
  from d cs have e: "\<exists>e \<in> set (tb_errors d). ut_expected e = expected err \<and> ut_found e = found err \<and> tr_start R (ut_span e) = ?all"
    using error_at_end [OF R T _ d] c(2) k by simp
  from assms(2,3) P b(1) c(1) d(1) ss(1) obtain f where f: "run_ops (Builder_step R) ss' d = Some f" "Builder_finish R green f = Some (g, errs, ranges)"
    by (auto simp: parse_text_def syntax_kinds_def run_ops_append bind_eq_Some_conv)
  with e finish_errors [OF f(2)] steps_errors [OF f(1)] obtain e where e: "e \<in> set errs" "ut_expected e = expected err" "ut_found e = found err"
    "tr_start R (ut_span e) = ?all" by blast
  have "tiled R 0 ranges ?all" using run_ranges [OF assms(1,2)] by blast
  from find_ctx_range_iff [OF R this, of ?all] have "Parse_find_ctx_range R ranges ?all = None" by blast
  then have "Parse_to_ctx_span R ranges (ut_span e) ?sm = None" unfolding Parse_to_ctx_span_def e(4) by simp
  with e(1-3) show ?thesis by blast
qed

theorem error_at_end_not_located_witness:
  "\<exists>g errs ranges. parse_text bounded_ranges (\<lambda>calls. Some calls) 12 example_sources 0 short_example = Some (g, errs, ranges) \<and>
    (\<exists>e \<in> set errs. ut_expected e = [ENDNATURE_KW] \<and> ut_found e = EOF \<and>
       Parse_to_ctx_span bounded_ranges ranges (ut_span e) (pp_sm short_example) = None)"
proof -
  obtain out where out: "parse_input_ok bounded_ranges 12 example_sources 0 short_example out"
    "Output_iter out = Some ([StepEnter SOURCE_FILE, StepEnter NATURE_DECL, StepToken NATURE_KW, StepEnter ERROR,
      StepError \<lparr>expected = [NAME], found = EOF\<rparr>, StepExit, StepEnter ERROR] @
      StepError \<lparr>expected = [ENDNATURE_KW], found = EOF\<rparr> # [StepExit, StepExit, StepExit])" using short_example_ok by blast
  obtain g errs ranges where p: "parse_text bounded_ranges (\<lambda>calls. Some calls) 12 example_sources 0 short_example = Some (g, errs, ranges)"
    using parse_text_returns [OF out(1)] by blast
  have "pp_ts short_example \<noteq> [] \<longrightarrow> \<not> SyntaxKind_is_trivia (tok_kind (last (pp_ts short_example)))"
    by (simp add: short_example_def SyntaxKind_is_trivia_def)
  from error_at_end_not_located [OF out(1) p out(2) _ this] p show ?thesis by auto
qed

end
