(* ===== verification/Spec2Isabelle.thy ===== *)
theory Spec2Isabelle
  imports Dominance_Frontiers Traversal Dfg_Spec Bit_Set_Spec Hybrid_Set_Spec Work_Queue Lexer Const_Eval Dead_Code_Spec Parser_Fuel Parser_Errors
    List_Pool_Spec Syntax_Tree
begin

text \<open>
  A verification development for OpenVAF, a Verilog-A compiler written in Rust.

  \<^bold>\<open>The program.\<close> Source text is tokenized (\<^verbatim>\<open>openvaf/lexer\<close>), preprocessed, parsed and lowered
  through several typed representations to the MIR (\<^verbatim>\<open>openvaf/mir\<close>), a graph of values and
  instructions in SSA form with a layout of basic blocks. The MIR is differentiated, optimised
  (\<^verbatim>\<open>openvaf/mir_opt\<close>) and handed to LLVM. The passes share the libraries under \<^verbatim>\<open>lib\<close>: bit sets,
  work lists, list pools. This development models the lexer and the parser, the MIR's data structures with the passes
  over them, and the libraries below, from the Rust source.

  \<^bold>\<open>How Rust is modelled.\<close> A struct is a record, an enum a datatype. A function that can panic
  (failed assertion, index out of range, unwrap of \<open>None\<close>, overflow of a checked operation in a
  debug build) returns an \<open>option\<close> (\<open>panics\<close>, theory Prelude) and \<open>None\<close> is the panic. Bit set
  words are 64-bit words, \<open>Ieee64\<close> its bit pattern, \<open>i32\<close> a 32-bit word; \<open>usize\<close> counters and the
  entity indices (blocks, instructions, values, uses) are naturals. A mutable reference is the state
  passed in and returned. Loops are recursive functions; a loop that may not end is a
  \<open>partial_function\<close>, whose \<open>None\<close> then also stands for running forever.

  \<^bold>\<open>The theories.\<close>
  \<^item> Prelude: panics, vectors, flagged loops (locale \<open>flagged_update\<close>), sequences of operations with
    their refinement (locale \<open>simulation\<close>), draining an iterator, words.
  \<^item> Bit_Set, Bit_Set_Spec: \<^verbatim>\<open>lib/bitset/src/lib.rs\<close>; \<open>BitSet_elems\<close> is the set, \<open>BitSet_wf\<close> the
    representation invariant; the second theory interprets \<open>simulation\<close>.
  \<^item> Work_Queue: \<^verbatim>\<open>lib/workqueue/src/lib.rs\<close>, the queue and the stack that hold no element twice.
  \<^item> Linked_List: segments and doubly linked lists over link functions, for the intrusive lists.
  \<^item> Layout, Layout_Spec: \<^verbatim>\<open>openvaf/mir/src/layout.rs\<close>; \<open>Layout_ok L bs ils\<close> relates the nodes
    to the block order and the instruction sequences; the second theory states the contract on
    sequences and interprets \<open>simulation\<close>.
  \<^item> Instructions: \<^verbatim>\<open>openvaf/mir/src/instructions.rs\<close> with its generated opcode tables.
  \<^item> Dfg, Dfg_Spec: \<^verbatim>\<open>openvaf/mir/src/dfg.rs\<close> and \<^verbatim>\<open>dfg/{values,uses,instructions}.rs\<close>;
    \<open>Dfg_ok D U\<close> says that \<open>U v\<close> is the linked chain of the uses of \<open>v\<close> and that the operands of the
    instructions agree with it.
  \<^item> Ordered_Map: ordered association lists and sets for the B-trees of \<^verbatim>\<open>lib/bforest\<close> (locale \<open>key_map\<close>).
  \<^item> Dfg_Phi: \<^verbatim>\<open>openvaf/mir/src/dfg/phis.rs\<close>, the edges of phi instructions.
  \<^item> Mir_Function: \<^verbatim>\<open>openvaf/mir/src/lib.rs\<close>, a function with its graph and layout; splitting a block.
  \<^item> Flowgraph: \<^verbatim>\<open>openvaf/mir/src/flowgraph.rs\<close>; \<open>Cfg_ok\<close> says that predecessor sets are the converse
    of the successors.
  \<^item> Hybrid_Set, Hybrid_Set_Spec: \<^verbatim>\<open>lib/bitset/src/{sparse,hybrid}.rs\<close>; \<open>hybrid_elems\<close> is the set whatever
    the representation; the second theory interprets \<open>simulation\<close> again.
  \<^item> Dominance: walks and dominance in a graph given by a step relation, and what a tree of parents
    with numbers must satisfy to be the dominator tree (\<open>converged\<close>), free of any code.
  \<^item> Dominators, Dominators_Spec: \<^verbatim>\<open>openvaf/mir/src/dominators.rs\<close>, the post-orders, the fixpoint of
    immediate dominators and the dominance queries; the second theory connects them with Dominance.
  \<^item> Traversal: \<^verbatim>\<open>openvaf/mir/src/flowgraph/transversal.rs\<close>, the post-order iterators.
  \<^item> Bit_Matrix, Bit_Matrix_Spec: \<^verbatim>\<open>lib/bitset/src/matrix.rs\<close>; the dense and the sparse matrix are
    interpreted as two simulations of one specification, a relation.
  \<^item> Dominance_Frontiers: the frontiers of \<^verbatim>\<open>dominators.rs\<close>, written into a sparse matrix.
  \<^item> Machine_Numbers: 32-bit integers with the panics of a debug build, and the real numbers: \<open>Ieee64\<close>
    is a bit pattern and the operations of Rust's \<open>f64\<close> are a parameter, the record \<open>float_ops\<close>.
  \<^item> Interpreter: \<^verbatim>\<open>openvaf/mir_interpret\<close>, the semantics of the MIR. A call is a function of the
    instruction, the state and a world, which stands for what the data pointers lead to; the locale
    \<open>interp_simulation\<close> says when a function with other instructions runs alike.
  \<^item> Const_Eval: \<^verbatim>\<open>openvaf/mir_opt/src/const_eval.rs\<close>, compared with the interpreter.
  \<^item> Dead_Code, Dead_Code_Spec: \<^verbatim>\<open>openvaf/mir_opt/src/dead_code.rs\<close>; the second theory interprets
    \<open>interp_simulation\<close>. Calls are assumed to write only their results and to depend only on their
    arguments and the world (\<open>calls_ok\<close>), what the calls of the compiler do.
  \<^item> Lexer: \<^verbatim>\<open>openvaf/lexer/src/{lib,cursor}.rs\<close> and the token type of \<^verbatim>\<open>openvaf/tokens\<close>; the
    crate \<^verbatim>\<open>text_size\<close> is a parameter with the hypothesis \<open>text_size_of_spec\<close>.
  \<^item> Syntax_Kinds: \<^verbatim>\<open>openvaf/tokens/src/parser.rs\<close> with its generated enum, a kind being its
    discriminant, and the constant sets of kinds of \<^verbatim>\<open>openvaf/parser/src/token_set.rs\<close> as 128-bit words.
  \<^item> Parser_Core: \<^verbatim>\<open>openvaf/parser/src/{parser,event,output}.rs\<close>, the state of the parser, its operations on
    tokens and markers, and the processing of the events into the packed output; Parser_Evaluation has code
    equations with which concrete inputs are evaluated.
  \<^item> Parser_Expressions, Parser_Grammar: \<^verbatim>\<open>grammar.rs\<close> and the files under \<^verbatim>\<open>grammar/\<close>, function by
    function. A loop or a recursive function takes fuel, one unit for each call below it; the functions of an
    expression or a statement that call it again take that call as a parameter.
  \<^item> Parser_Trees: which event lists stand for a forest, over forward parents, abandoned and undone
    markers (\<open>completed\<close>, \<open>closed\<close>), that processing outputs it and that the packed output reads back.
  \<^item> Parser_Tracking, Parser_Lossless: every function appends the events of a forest for the tokens it
    passes (\<open>tracks\<close>), by rules for the constructs of the code (\<open>wp\<close>); the locales \<open>expression_parser\<close>
    and \<open>statement_parser\<close> are what the functions inside a recursion rely on.
  \<^item> Parser_Roundtrip: expressions, their tokens and their trees; that the parser returns the tree, with
    rules for calls that return (\<open>ret\<close>) that count the looks at tokens and need fuel for each.
  \<^item> List_Pool, List_Pool_Blocks, List_Pool_Spec: \<^verbatim>\<open>lib/list_pool/src/lib.rs\<close>, the allocator of the small
    lists; \<open>pool_ok\<close> describes the vector as blocks that do not overlap, and the last theory interprets
    \<open>simulation\<close> for programs over list handles. This is what lets the MIR theories take value lists as lists.
  \<^item> Source_Map: \<^verbatim>\<open>openvaf/preprocessor/src/sourcemap.rs\<close>, the contexts (files and macro expansions) of
    tokens; the crate \<^verbatim>\<open>text_size\<close> is the record \<open>text_ranges\<close> with the hypothesis \<open>text_ranges_spec\<close>.
  \<^item> Tree_Builder: \<^verbatim>\<open>openvaf/syntax/src/parsing.rs\<close> with \<^verbatim>\<open>parsing/tree_builder.rs\<close>, and the way from the tree back
    to the source in \<^verbatim>\<open>openvaf/syntax/src/lib.rs\<close>. The calls made to the builder of the crate \<^verbatim>\<open>rowan\<close> are data
    and what rowan makes of them is a parameter. Tree_Builder_Spec follows one step (\<open>passed\<close> relates the state to
    the tokens passed), Syntax_Tree a whole run; Text_Size shows that \<open>text_ranges_spec\<close> can be met. The depth inside
    errors is a 32-bit counter, so a run is taken to have fewer than \<open>2 ^ 32 - 1\<close> steps.
  \<^item> Parser_Fuel: more fuel gives the same result; Parser_Errors: syntax errors on which no call returns,
    with the assertion that fails.

  \<^bold>\<open>What is shown.\<close> The layout and the bit set refine their abstract specifications for every
  sequence of operations; the graph's operations keep uses and operands in step; the control flow graph is the converse of
  itself under every update, and the dominator tree decides dominance and post-dominance; work lists hand out
  every element once; lexing is lossless and returns on newline-terminated text; parsing keeps every token in one
  tree whatever the errors, and returns the right tree on every expression; the syntax tree built from it holds the text of every token, its
  context map leads back to where each token came from, and an error is reported whenever there is one; dead code elimination
  preserves what a function does and leaves no dead instruction, and the constant folder agrees with
  the interpreter but for the sign of zero; the two bit matrices implement one relation and the dominance frontiers written
  into them are those of the graph; lists in a pool behave as lists whatever blocks are moved and reused, and
  spans of any contexts are brought into the innermost one around them. Some theorems
  record defects of the code: a lexer loop that does not end, panics of \<open>clone_from\<close> and of
  \<open>remove_empty_block\<close>, shift tokens that are one character short, constants lost by \<open>clear\<close>,
  syntax errors on which the parser aborts, an error at the end of a file that cannot be shown.

  \<^bold>\<open>Not modelled.\<close> Printing, hashing and serialisation; the B-trees behind the phi maps (ordered
  association lists here); the expansion of macros; the LLVM back end and the
  foreign interfaces; the typed views of the syntax tree and the queries over it, which are generated
  or go through an incremental database.
\<close>

end
